(* ===== verification/Prelude.thy ===== *)
theory Prelude
  imports Main "HOL-Library.Word" "HOL-Library.Monad_Syntax"
begin

text \<open>
  Shared vocabulary of the development: the machine types of the 32-bit target, the error
  numbers of \<^verbatim>\<open>include/tenok/errno.h\<close>, the macros of \<^verbatim>\<open>include/common/util.h\<close>,
  bounded reads and writes of byte arrays (the model of \<^verbatim>\<open>memcpy\<close>), and generic lemmas on
  words, lists and the option monad.

  Convention: a C access outside the object it is meant for (an array index out of range, a
  \<^verbatim>\<open>memcpy\<close> past the end of a buffer, \<^verbatim>\<open>list_first_entry\<close> of an empty list) is undefined
  behaviour. The operations that can reach such an access return an option, and
  \<^const>\<open>None\<close> means that the access happened. An error number that the code returns is an
  ordinary negative \<^typ>\<open>int\<close>.
\<close>

unbundle bit_operations_syntax

type_synonym u8 = "8 word"
type_synonym u16 = "16 word"
type_synonym u32 = "32 word"

named_theorems errno \<open>definitions of the error numbers\<close>
named_theorems config \<open>definitions of the configuration constants\<close>

section \<open>Error numbers\<close>

definition EPERM :: int where [errno]: "EPERM = 1"
definition ENOENT :: int where [errno]: "ENOENT = 2"
definition ESRCH :: int where [errno]: "ESRCH = 3"
definition ENXIO :: int where [errno]: "ENXIO = 6"
definition EBADF :: int where [errno]: "EBADF = 9"
definition EAGAIN :: int where [errno]: "EAGAIN = 11"
definition ENOMEM :: int where [errno]: "ENOMEM = 12"
definition EFAULT :: int where [errno]: "EFAULT = 14"
definition EBUSY :: int where [errno]: "EBUSY = 16"
definition EEXIST :: int where [errno]: "EEXIST = 17"
definition ENOTDIR :: int where [errno]: "ENOTDIR = 20"
definition EINVAL :: int where [errno]: "EINVAL = 22"
definition EDEADLK :: int where [errno]: "EDEADLK = 45"
definition ENAMETOOLONG :: int where [errno]: "ENAMETOOLONG = 91"
definition EMSGSIZE :: int where [errno]: "EMSGSIZE = 122"
definition EOVERFLOW :: int where [errno]: "EOVERFLOW = 139"
definition ERESTARTSYS :: int where [errno]: "ERESTARTSYS = 512"

section \<open>Macros of util.h\<close>

definition CEILING :: "nat \<Rightarrow> nat \<Rightarrow> nat" where
  "CEILING x y = (x + y - 1) div y"

definition BITMAP_SIZE :: "nat \<Rightarrow> nat" where
  "BITMAP_SIZE x = CEILING x 32"

definition ALIGN_MASK :: "u32 \<Rightarrow> u32 \<Rightarrow> u32" where
  "ALIGN_MASK x m = x AND NOT m"

definition ALIGN :: "u32 \<Rightarrow> u32 \<Rightarrow> u32" where
  "ALIGN x a = ALIGN_MASK x (a - 1)"

section \<open>Byte arrays\<close>

text \<open>\<^verbatim>\<open>memcpy\<close> out of and into a byte array, with the bounds of the array checked.\<close>

definition mem_read :: "u8 list \<Rightarrow> nat \<Rightarrow> nat \<Rightarrow> u8 list option" where
  "mem_read m off n = (if off + n \<le> length m then Some (take n (drop off m)) else None)"

definition mem_write :: "u8 list \<Rightarrow> nat \<Rightarrow> u8 list \<Rightarrow> u8 list option" where
  "mem_write m off bs =
     (if off + length bs \<le> length m
      then Some (take off m @ bs @ drop (off + length bs) m) else None)"

lemma mem_write_length: "mem_write m off bs = Some m' \<Longrightarrow> length m' = length m"
  by (auto simp: mem_write_def split: if_splits)

lemma mem_write_SomeI:
  "off + length bs \<le> length m \<Longrightarrow>
   mem_write m off bs = Some (take off m @ bs @ drop (off + length bs) m)"
  by (simp add: mem_write_def)

lemma mem_read_after_write:
  assumes "mem_write m off bs = Some m'" and "n = length bs"
  shows "mem_read m' off n = Some bs"
  using assms by (auto simp: mem_write_def mem_read_def split: if_splits)

lemma mem_write_nth:
  assumes "mem_write m off bs = Some m'" and "i < length m"
  shows "m' ! i = (if off \<le> i \<and> i < off + length bs then bs ! (i - off) else m ! i)"
  using assms by (auto simp: mem_write_def nth_append split: if_splits)

lemma mem_read_write_disjoint:
  assumes w: "mem_write m off bs = Some m'"
    and d: "off' + n \<le> off \<or> off + length bs \<le> off'"
  shows "mem_read m' off' n = mem_read m off' n"
proof -
  note len = mem_write_length [OF w]
  have "take n (drop off' m') = take n (drop off' m)" if r: "off' + n \<le> length m"
  proof (rule nth_equalityI)
    show "length (take n (drop off' m')) = length (take n (drop off' m))"
      using len by simp
  next
    fix i assume "i < length (take n (drop off' m'))"
    then have i: "i < n" and "off' + i < length m" using len by auto
    then show "take n (drop off' m') ! i = take n (drop off' m) ! i"
      using d len mem_write_nth [OF w, of "off' + i"] by auto
  qed
  then show ?thesis using len by (simp add: mem_read_def)
qed

text \<open>The text that a call of \<^verbatim>\<open>snprintf\<close> of the C library leaves in its buffer: it is cut so that the zero character
  behind it still fits into the size that the caller gives.\<close>

abbreviation snprintf_text :: "nat \<Rightarrow> string \<Rightarrow> string" where
  "snprintf_text sz x \<equiv> take (sz - 1) x"

section \<open>Words\<close>

lemma AND_NOT_mask_eq:
  fixes w :: "'a::len word"
  shows "w AND NOT (mask n) = w - take_bit n w"
proof -
  have "w AND NOT (mask n) = push_bit n (drop_bit n w)"
    by (rule bit_eqI) (auto simp: bit_simps)
  then show ?thesis using bits_ident [of n w] by (simp add: algebra_simps)
qed

lemma unat_AND_NOT_mask:
  fixes w :: "'a::len word"
  shows "unat (w AND NOT (mask n)) = unat w - unat w mod 2 ^ n"
proof -
  have t: "unat (take_bit n w) = unat w mod 2 ^ n"
    by (simp add: unsigned_take_bit_eq) (simp add: take_bit_eq_mod)
  then have "take_bit n w \<le> w"
    by (simp add: word_le_nat_alt)
  then show ?thesis
    by (simp add: AND_NOT_mask_eq unat_sub t)
qed

section \<open>The option monad\<close>

lemma bind_eq_Some_iff: "(m \<bind> f) = Some y \<longleftrightarrow> (\<exists>x. m = Some x \<and> f x = Some y)"
  by (cases m) auto

lemma sint_small: "n < 2 ^ 31 \<Longrightarrow> sint (word_of_nat n :: u32) = int n"
  by (simp add: sint_uint uint_nat unat_of_nat signed_take_bit_int_eq_self take_bit_nat_eq_self)

end
