(* ===== verification/Bitops.thy ===== *)
theory Bitops
  imports Prelude
begin

text \<open>
  Bitmaps (\<^verbatim>\<open>include/common/bitops.h\<close>) and the binary logarithm
  (\<^verbatim>\<open>include/common/log2.h\<close>). A bitmap is an array of 32-bit words; an access to a word
  outside the array is \<^const>\<open>None\<close>. The abstraction \<open>bm_set\<close> reads a bitmap as a set of
  numbers; the interface \<open>slot_allocator\<close> states what the thread, task, descriptor, inode,
  block and page tables use of a bitmap, and its interpretation shows that the bit
  operations provide it.
\<close>

section \<open>The operations\<close>

definition BITS_PER_LONG :: nat where [config]: "BITS_PER_LONG = 32"

definition flsl :: "u32 \<Rightarrow> nat" where
  "flsl w = (case filter (bit w) [0..<32] of [] \<Rightarrow> 0 | b # bs \<Rightarrow> Suc (last (b # bs)))"

definition ffsl :: "u32 \<Rightarrow> nat" where
  "ffsl w = (case filter (bit w) [0..<32] of [] \<Rightarrow> 0 | b # _ \<Rightarrow> Suc b)"

definition ilog2 :: "u32 \<Rightarrow> nat" where
  "ilog2 x = flsl x - 1"

definition clear_bit_w :: "nat \<Rightarrow> u32 \<Rightarrow> u32" where
  "clear_bit_w b w = w AND NOT (push_bit b 1)"

definition set_bit_w :: "nat \<Rightarrow> u32 \<Rightarrow> u32" where
  "set_bit_w b w = w OR push_bit b 1"

definition bitmap_clear_bit :: "u32 list \<Rightarrow> nat \<Rightarrow> u32 list option" where
  "bitmap_clear_bit m b =
     (let i = b div BITS_PER_LONG in
      if i < length m then Some (m[i := clear_bit_w (b mod BITS_PER_LONG) (m ! i)])
      else None)"

definition bitmap_set_bit :: "u32 list \<Rightarrow> nat \<Rightarrow> u32 list option" where
  "bitmap_set_bit m b =
     (let i = b div BITS_PER_LONG in
      if i < length m then Some (m[i := set_bit_w (b mod BITS_PER_LONG) (m ! i)])
      else None)"

definition bitmap_get_bit :: "u32 list \<Rightarrow> nat \<Rightarrow> bool option" where
  "bitmap_get_bit m b =
     (let i = b div BITS_PER_LONG in
      if i < length m
      then Some (drop_bit (b mod BITS_PER_LONG) (m ! i) AND 1 \<noteq> 0) else None)"

function find_first_bit_from :: "u32 list \<Rightarrow> nat \<Rightarrow> nat \<Rightarrow> nat option" where
  "find_first_bit_from addr sz i =
     (if i * BITS_PER_LONG < sz then
        if i < length addr then
          if addr ! i \<noteq> 0
          then Some (min (i * BITS_PER_LONG + ffsl (addr ! i) - 1) sz)
          else find_first_bit_from addr sz (Suc i)
        else None
      else Some sz)"
  by pat_completeness auto
termination
  by (relation "measure (\<lambda>(addr, sz, i). sz - i * BITS_PER_LONG)")
    (auto simp: BITS_PER_LONG_def)

definition find_first_bit :: "u32 list \<Rightarrow> nat \<Rightarrow> nat option" where
  "find_first_bit addr sz = find_first_bit_from addr sz 0"

function find_first_zero_bit_from :: "u32 list \<Rightarrow> nat \<Rightarrow> nat \<Rightarrow> nat option" where
  "find_first_zero_bit_from addr sz i =
     (if i * BITS_PER_LONG < sz then
        if i < length addr then
          if addr ! i \<noteq> NOT 0
          then Some (min (i * BITS_PER_LONG + ffsl (NOT (addr ! i)) - 1) sz)
          else find_first_zero_bit_from addr sz (Suc i)
        else None
      else Some sz)"
  by pat_completeness auto
termination
  by (relation "measure (\<lambda>(addr, sz, i). sz - i * BITS_PER_LONG)")
    (auto simp: BITS_PER_LONG_def)

definition find_first_zero_bit :: "u32 list \<Rightarrow> nat \<Rightarrow> nat option" where
  "find_first_zero_bit addr sz = find_first_zero_bit_from addr sz 0"

declare find_first_bit_from.simps [simp del] find_first_zero_bit_from.simps [simp del]

section \<open>Bitmaps as sets\<close>

definition bm_bit :: "u32 list \<Rightarrow> nat \<Rightarrow> bool" where
  "bm_bit m b \<longleftrightarrow> b div 32 < length m \<and> bit (m ! (b div 32)) (b mod 32)"

definition bm_set :: "u32 list \<Rightarrow> nat set" where
  "bm_set m = {b. bm_bit m b}"

lemma bm_bit_iff [simp]: "b \<in> bm_set m \<longleftrightarrow> bm_bit m b"
  by (simp add: bm_set_def)

lemma bm_bit_bound: "bm_bit m b \<Longrightarrow> b < 32 * length m"
  by (auto simp: bm_bit_def)

lemma finite_bm_set [simp]: "finite (bm_set m)"
  by (rule finite_subset [of _ "{..<32 * length m}"]) (auto dest: bm_bit_bound)

lemma nonzero_has_bit:
  fixes w :: u32
  assumes "w \<noteq> 0"
  shows "\<exists>b < 32. bit w b"
proof (rule ccontr)
  assume "\<not> (\<exists>b < 32. bit w b)"
  then have "w = 0" by (intro bit_word_eqI) auto
  with assms show False by simp
qed

lemma ffsl_pos:
  assumes "w \<noteq> 0"
  shows "0 < ffsl w \<and> ffsl w \<le> 32 \<and> bit w (ffsl w - 1) \<and> (\<forall>b < ffsl w - 1. \<not> bit w b)"
proof -
  have "filter (bit w) [0..<32] \<noteq> []"
    using nonzero_has_bit [OF assms] by (auto simp: filter_empty_conv)
  then obtain c cs where f: "filter (bit w) [0..<32] = c # cs"
    by (cases "filter (bit w) [0..<32]") auto
  then have "c \<in> set (filter (bit w) [0..<32])" by simp
  then have c: "bit w c" "c < 32" by auto
  have "\<not> bit w b" if "b < c" for b
  proof
    assume "bit w b"
    with that c have "b \<in> set (c # cs)"
      by (auto simp flip: f)
    moreover have "sorted_wrt (<) (c # cs)"
      unfolding f [symmetric] by (rule sorted_wrt_filter) simp
    ultimately show False using that by auto
  qed
  with c f show ?thesis by (simp add: ffsl_def)
qed

lemma find_first_bit_from_spec:
  assumes "sz \<le> 32 * length m" and "\<forall>b < i * 32. \<not> bm_bit m b"
  shows "\<exists>r. find_first_bit_from m sz i = Some r \<and> r \<le> sz
           \<and> (r < sz \<longrightarrow> bm_bit m r) \<and> (\<forall>b < r. \<not> bm_bit m b)"
  using assms
proof (induction m sz i rule: find_first_bit_from.induct)
  case (1 m sz i)
  note unf = find_first_bit_from.simps [of m sz i] BITS_PER_LONG_def
  show ?case
  proof (cases "i * 32 < sz")
    case False
    with "1.prems" show ?thesis by (simp add: unf)
  next
    case True
    with "1.prems"(1) have i: "i < length m" by simp
    show ?thesis
    proof (cases "m ! i = 0")
      case False
      define r where "r = i * 32 + ffsl (m ! i) - 1"
      note f = ffsl_pos [OF False]
      have r': "r = (ffsl (m ! i) - 1) + 32 * i" and "ffsl (m ! i) - 1 < 32"
        using f by (auto simp: r_def)
      then have r: "r div 32 = i" "r mod 32 = ffsl (m ! i) - 1" by simp_all
      have "bm_bit m r" using f i by (simp add: bm_bit_def r)
      moreover have "\<not> bm_bit m b" if "b < r" for b
      proof (cases "b < i * 32")
        case False
        have "b < i * 32 + 32" using that f r' by auto
        with False have d: "b div 32 = i" by auto
        then have "b mod 32 = b - 32 * i" by (simp add: minus_mult_div_eq_mod [symmetric])
        with that f r' False have "b mod 32 < ffsl (m ! i) - 1" by auto
        with d have "b div 32 = i" "b mod 32 < ffsl (m ! i) - 1" by auto
        with f show ?thesis by (auto simp: bm_bit_def)
      qed (use "1.prems"(2) in auto)
      ultimately show ?thesis using True i False
        by (auto simp: unf min_def r_def)
    next
      case zero: True
      have "\<not> bm_bit m b" if "b < Suc i * 32" for b
      proof (cases "b < i * 32")
        case False
        with that have "b div 32 = i" by auto
        with zero show ?thesis by (simp add: bm_bit_def)
      qed (use "1.prems"(2) in auto)
      then have "\<exists>r. find_first_bit_from m sz (Suc i) = Some r \<and> r \<le> sz
           \<and> (r < sz \<longrightarrow> bm_bit m r) \<and> (\<forall>b < r. \<not> bm_bit m b)"
        using "1.IH" True i zero "1.prems"(1) by (simp add: BITS_PER_LONG_def)
      then show ?thesis using True i zero by (simp add: unf)
    qed
  qed
qed

lemma find_first_zero_bit_from_eq:
  "find_first_zero_bit_from m sz i = find_first_bit_from (map NOT m) sz i"
proof (induction m sz i rule: find_first_zero_bit_from.induct)
  case (1 m sz i)
  have "NOT (m ! i) = 0 \<longleftrightarrow> m ! i = NOT 0"
    by (metis bit.double_compl)
  with 1 show ?case
    by (subst find_first_zero_bit_from.simps, subst find_first_bit_from.simps) auto
qed

lemma bm_bit_map_NOT: "bm_bit (map NOT m) b \<longleftrightarrow> b < 32 * length m \<and> \<not> bm_bit m b"
  by (auto simp: bm_bit_def bit_not_iff)

text \<open>The two searches return the least member, respectively the least free number, of the
  set below \<open>sz\<close>, and \<open>sz\<close> if there is none.\<close>

lemma find_first_bit_spec:
  assumes "sz \<le> 32 * length m"
  shows "\<exists>r. find_first_bit m sz = Some r \<and> r \<le> sz
           \<and> (r < sz \<longrightarrow> bm_bit m r) \<and> (\<forall>b < r. \<not> bm_bit m b)"
  unfolding find_first_bit_def using assms by (intro find_first_bit_from_spec) auto

lemma find_first_zero_bit_spec:
  assumes "sz \<le> 32 * length m"
  shows "\<exists>r. find_first_zero_bit m sz = Some r \<and> r \<le> sz
           \<and> (r < sz \<longrightarrow> \<not> bm_bit m r) \<and> (\<forall>b < r. bm_bit m b)"
proof -
  obtain r where r: "find_first_bit_from (map NOT m) sz 0 = Some r" "r \<le> sz"
      "r < sz \<longrightarrow> bm_bit (map NOT m) r" "\<forall>b < r. \<not> bm_bit (map NOT m) b"
    using find_first_bit_from_spec [of sz "map NOT m" 0] assms by auto
  then show ?thesis using assms
    by (auto simp: find_first_zero_bit_def find_first_zero_bit_from_eq bm_bit_map_NOT)
qed

lemma bit_set_bit_w: "b < 32 \<Longrightarrow> bit (set_bit_w b w) n \<longleftrightarrow> bit w n \<or> n = b"
  by (auto simp: set_bit_w_def bit_or_iff bit_exp_iff)

lemma bit_clear_bit_w: "b < 32 \<Longrightarrow> bit (clear_bit_w b w) n \<longleftrightarrow> bit w n \<and> n \<noteq> b"
  by (auto simp: clear_bit_w_def bit_and_iff bit_not_iff bit_exp_iff dest: bit_imp_le_length)

lemma div_mod_32_eq: "(x :: nat) div 32 = y div 32 \<Longrightarrow> x mod 32 = y mod 32 \<Longrightarrow> x = y"
  by (metis div_mult_mod_eq)

lemma bitmap_set_bit_Some:
  assumes "b < 32 * length m"
  shows "\<exists>m'. bitmap_set_bit m b = Some m' \<and> length m' = length m
            \<and> bm_set m' = insert b (bm_set m)"
proof -
  from assms have i: "b div 32 < length m" by auto
  let ?m = "m[b div 32 := set_bit_w (b mod 32) (m ! (b div 32))]"
  have "bm_bit ?m n \<longleftrightarrow> bm_bit m n \<or> n = b" for n
    using i by (auto simp: bm_bit_def nth_list_update bit_set_bit_w dest: div_mod_32_eq)
  then show ?thesis using i by (auto simp: bitmap_set_bit_def BITS_PER_LONG_def bm_set_def Let_def)
qed

lemma bitmap_clear_bit_Some:
  assumes "b < 32 * length m"
  shows "\<exists>m'. bitmap_clear_bit m b = Some m' \<and> length m' = length m
            \<and> bm_set m' = bm_set m - {b}"
proof -
  from assms have i: "b div 32 < length m" by auto
  let ?m = "m[b div 32 := clear_bit_w (b mod 32) (m ! (b div 32))]"
  have "bm_bit ?m n \<longleftrightarrow> bm_bit m n \<and> n \<noteq> b" for n
    using i by (auto simp: bm_bit_def nth_list_update bit_clear_bit_w dest: div_mod_32_eq)
  then show ?thesis using i by (auto simp: bitmap_clear_bit_def BITS_PER_LONG_def bm_set_def Let_def)
qed

lemma bitmap_get_bit_eq:
  "bitmap_get_bit m b = (if b < 32 * length m then Some (bm_bit m b) else None)"
  by (auto simp: bitmap_get_bit_def bm_bit_def BITS_PER_LONG_def Let_def and_one_eq odd_iff_mod_2_eq_one
      bit_iff_odd_drop_bit)

text \<open>A bitmap is determined by its length and its set.\<close>

lemma bm_set_inject:
  assumes "bm_set m = bm_set m'" and "length m = length m'"
  shows "m = m'"
proof (rule nth_equalityI)
  fix i assume i: "i < length m"
  show "m ! i = m' ! i"
  proof (rule bit_word_eqI)
    fix n assume "n < LENGTH(32)"
    then have n: "n < 32" by simp
    have "bm_bit m (32 * i + n) \<longleftrightarrow> bm_bit m' (32 * i + n)"
      using assms(1) by (auto simp: bm_set_def)
    with n i assms(2) show "bit (m ! i) n \<longleftrightarrow> bit (m' ! i) n"
      by (simp add: bm_bit_def)
  qed
qed (use assms in simp)

section \<open>The interface of a table of slots\<close>

text \<open>
  Every table of the kernel (threads, tasks, file descriptors, message queue descriptors,
  inodes, blocks) hands out numbers the same way: search the least free number below the
  size of the table, then mark it. The clients rely on the laws below only.
\<close>

locale slot_allocator =
  fixes used :: "'m \<Rightarrow> nat set" and cap :: "'m \<Rightarrow> nat"
    and search :: "'m \<Rightarrow> nat \<Rightarrow> nat option"
    and mark :: "'m \<Rightarrow> nat \<Rightarrow> 'm option" and unmark :: "'m \<Rightarrow> nat \<Rightarrow> 'm option"
  assumes search_least: "n \<le> cap m \<Longrightarrow>
      \<exists>r \<le> n. search m n = Some r \<and> (r < n \<longrightarrow> r \<notin> used m) \<and> {..<r} \<subseteq> used m"
    and mark_used: "b < cap m \<Longrightarrow>
      \<exists>m'. mark m b = Some m' \<and> cap m' = cap m \<and> used m' = insert b (used m)"
    and unmark_used: "b < cap m \<Longrightarrow>
      \<exists>m'. unmark m b = Some m' \<and> cap m' = cap m \<and> used m' = used m - {b}"
begin

lemma search_full: "n \<le> cap m \<Longrightarrow> {..<n} \<subseteq> used m \<longleftrightarrow> search m n = Some n"
  using search_least [of n m] by force

lemma search_room: "n \<le> cap m \<Longrightarrow> \<not> {..<n} \<subseteq> used m \<Longrightarrow>
    \<exists>r < n. search m n = Some r \<and> r \<notin> used m"
  using search_least [of n m] by force

lemma take_fresh:
  assumes "n \<le> cap m" and "search m n = Some r" and "r < n"
  shows "r \<notin> used m \<and> (\<exists>m'. mark m r = Some m' \<and> cap m' = cap m \<and> used m' = insert r (used m))"
  using search_least [OF assms(1)] mark_used [of r m] assms by force

lemma release_take:
  assumes "n \<le> cap m" and "{..<n} \<subseteq> used m" and "b < n" and "unmark m b = Some m'"
  shows "search m' n = Some b"
proof -
  from assms unmark_used [of b m] have m': "cap m' = cap m" "used m' = used m - {b}"
    by auto
  with search_least [of n m'] assms(1) obtain r where
    r: "r \<le> n" "search m' n = Some r" "r < n \<longrightarrow> r \<notin> used m'" "{..<r} \<subseteq> used m'"
    by auto
  have "\<not> b < r" using r(4) m' by auto
  moreover have "r < n" using r(1,4) m' assms(3) by (metis calculation le_neq_implies_less)
  ultimately have "r = b" using r(3) m' assms(2) by auto
  with r show ?thesis by simp
qed

end

interpretation bm: slot_allocator bm_set "\<lambda>m. 32 * length m"
  find_first_zero_bit bitmap_set_bit bitmap_clear_bit
proof unfold_locales
  fix n m assume "n \<le> 32 * length (m :: u32 list)"
  then show "\<exists>r \<le> n. find_first_zero_bit m n = Some r \<and> (r < n \<longrightarrow> r \<notin> bm_set m)
      \<and> {..<r} \<subseteq> bm_set m"
    using find_first_zero_bit_spec [of n m] by auto
next
  fix b m assume b: "b < 32 * length (m :: u32 list)"
  show "\<exists>m'. bitmap_set_bit m b = Some m' \<and> 32 * length m' = 32 * length m
      \<and> bm_set m' = insert b (bm_set m)"
    using bitmap_set_bit_Some [OF b] by auto
  show "\<exists>m'. bitmap_clear_bit m b = Some m' \<and> 32 * length m' = 32 * length m
      \<and> bm_set m' = bm_set m - {b}"
    using bitmap_clear_bit_Some [OF b] by auto
qed

end
