(* ===== verification/Klist.thy ===== *)
theory Klist
  imports Prelude
begin

text \<open>
  The intrusive doubly linked lists of \<^verbatim>\<open>include/common/list.h\<close>, on an explicit store of
  \<^verbatim>\<open>next\<close> and \<^verbatim>\<open>prev\<close> pointers. \<open>dlist s h xs\<close> says that the list with head \<open>h\<close> holds the
  nodes \<open>xs\<close> in order. The second part lifts this to a family of lists (the scheduling lists
  of the kernel): \<open>rep_lists\<close> relates a store to a function from list heads to node lists,
  and the pointer operations refine the operations \<open>al_add\<close>, \<open>al_del\<close> and \<open>al_move\<close> on such
  functions, which the models of the scheduler and of its clients use.
\<close>

section \<open>The pointer operations\<close>

record list_store =
  nxt :: "nat \<Rightarrow> nat"
  prv :: "nat \<Rightarrow> nat"

definition set_nxt :: "nat \<Rightarrow> nat \<Rightarrow> list_store \<Rightarrow> list_store" where
  "set_nxt a v s = s\<lparr>nxt := (nxt s)(a := v)\<rparr>"

definition set_prv :: "nat \<Rightarrow> nat \<Rightarrow> list_store \<Rightarrow> list_store" where
  "set_prv a v s = s\<lparr>prv := (prv s)(a := v)\<rparr>"

definition INIT_LIST_HEAD :: "nat \<Rightarrow> list_store \<Rightarrow> list_store" where
  "INIT_LIST_HEAD l s = set_nxt l l (set_prv l l s)"

definition list_empty :: "list_store \<Rightarrow> nat \<Rightarrow> bool" where
  "list_empty s h = (nxt s h = h)"

definition list_is_last :: "list_store \<Rightarrow> nat \<Rightarrow> nat \<Rightarrow> bool" where
  "list_is_last s l h = (nxt s l = h)"

definition list_del :: "nat \<Rightarrow> list_store \<Rightarrow> list_store" where
  "list_del e s =
     (let s1 = set_prv (nxt s e) (prv s e) s in set_nxt (prv s1 e) (nxt s1 e) s1)"

definition list_del_init :: "nat \<Rightarrow> list_store \<Rightarrow> list_store" where
  "list_del_init e s = INIT_LIST_HEAD e (list_del e s)"

definition list_add :: "nat \<Rightarrow> nat \<Rightarrow> list_store \<Rightarrow> list_store" where
  "list_add new h s =
     (let s1 = set_prv new (prv s h) s;
          s2 = set_nxt new h s1;
          s3 = set_nxt (prv s2 h) new s2
      in set_prv h new s3)"

definition list_move :: "nat \<Rightarrow> nat \<Rightarrow> list_store \<Rightarrow> list_store" where
  "list_move l new_head s = list_add l new_head (list_del l s)"

text \<open>\<^verbatim>\<open>list_for_each\<close>: the nodes visited from \<open>pos\<close> until the head is reached again. The
  loop need not end on an arbitrary store, hence the fuel; \<open>list_for_each_enough\<close> gives the
  fuel that is enough on a well-formed list.\<close>

fun list_for_each :: "nat \<Rightarrow> list_store \<Rightarrow> nat \<Rightarrow> nat \<Rightarrow> nat list option" where
  "list_for_each 0 s h pos = None"
| "list_for_each (Suc fuel) s h pos =
     (if pos = h then Some [] else map_option ((#) pos) (list_for_each fuel s h (nxt s pos)))"

definition list_nodes :: "nat \<Rightarrow> list_store \<Rightarrow> nat \<Rightarrow> nat list option" where
  "list_nodes fuel s h = list_for_each fuel s h (nxt s h)"

section \<open>Well-formed lists\<close>

fun chain :: "list_store \<Rightarrow> nat \<Rightarrow> nat list \<Rightarrow> nat \<Rightarrow> bool" where
  "chain s a [] b \<longleftrightarrow> nxt s a = b \<and> prv s b = a"
| "chain s a (x # xs) b \<longleftrightarrow> nxt s a = x \<and> prv s x = a \<and> chain s x xs b"

definition dlist :: "list_store \<Rightarrow> nat \<Rightarrow> nat list \<Rightarrow> bool" where
  "dlist s h xs \<longleftrightarrow> distinct (h # xs) \<and> chain s h xs h"

lemma sel_set [simp]:
  "nxt (set_nxt a v s) = (nxt s)(a := v)" "prv (set_nxt a v s) = prv s"
  "prv (set_prv a v s) = (prv s)(a := v)" "nxt (set_prv a v s) = nxt s"
  by (simp_all add: set_nxt_def set_prv_def)

lemma chain_append:
  "chain s a (xs @ y # ys) b \<longleftrightarrow> chain s a xs y \<and> chain s y ys b"
  by (induction xs arbitrary: a) auto

lemma chain_cong:
  assumes "\<forall>x \<in> insert a (set xs). nxt s' x = nxt s x"
    and "\<forall>x \<in> insert b (set xs). prv s' x = prv s x"
  shows "chain s' a xs b = chain s a xs b"
  using assms by (induction xs arbitrary: a) auto

lemma chain_last: "chain s a xs b \<Longrightarrow> prv s b = (if xs = [] then a else last xs)"
  by (induction xs arbitrary: a) auto

lemma chain_first: "chain s a xs b \<Longrightarrow> nxt s a = (if xs = [] then b else hd xs)"
  by (cases xs) auto

lemma dlist_init: "dlist (INIT_LIST_HEAD h s) h []"
  by (simp add: dlist_def INIT_LIST_HEAD_def)

lemma dlist_empty: "dlist s h xs \<Longrightarrow> list_empty s h \<longleftrightarrow> xs = []"
  by (cases xs) (auto simp: dlist_def list_empty_def)

lemma dlist_first: "dlist s h (x # xs) \<Longrightarrow> nxt s h = x"
  by (simp add: dlist_def)

lemma dlist_is_last:
  assumes "dlist s h xs" and "x \<in> set xs"
  shows "list_is_last s x h \<longleftrightarrow> x = last xs"
proof -
  from assms(2) obtain us vs where xs: "xs = us @ x # vs" by (meson split_list)
  with assms(1) have "chain s x vs h" and "distinct (h # us @ x # vs)"
    by (auto simp: dlist_def chain_append)
  then show ?thesis using chain_first [of s x vs h]
    by (cases vs) (auto simp: list_is_last_def xs)
qed

subsection \<open>Insertion\<close>

lemma dlist_add:
  assumes d: "dlist s h xs" and n: "n \<notin> insert h (set xs)"
  shows "dlist (list_add n h s) h (xs @ [n])"
proof -
  let ?s = "list_add n h s"
  from d have c: "chain s h xs h" and dist: "distinct (h # xs)" by (auto simp: dlist_def)
  let ?l = "if xs = [] then h else last xs"
  have l: "prv s h = ?l" using c by (rule chain_last)
  have nx: "nxt ?s = (nxt s)(n := h, ?l := n)" and pv: "prv ?s = (prv s)(n := ?l, h := n)"
    using n l by (auto simp: list_add_def Let_def fun_eq_iff)
  have "chain ?s h xs n"
  proof (cases xs rule: rev_cases)
    case Nil
    then show ?thesis using n by (simp add: nx pv)
  next
    case (snoc ys y)
    with c have "chain s h ys y" by (simp add: chain_append)
    moreover have "chain ?s h ys y = chain s h ys y"
      using snoc dist n by (intro chain_cong) (auto simp: nx pv)
    ultimately show ?thesis using snoc n dist by (simp add: chain_append nx pv)
  qed
  moreover have "nxt ?s n = h" "prv ?s h = n" using n by (auto simp: nx pv)
  ultimately show ?thesis using dist n by (auto simp: dlist_def chain_append)
qed

lemma dlist_add_frame:
  assumes d: "dlist s h xs" and d': "dlist s h' ys"
    and "insert h' (set ys) \<inter> insert h (set xs) = {}" and "n \<notin> insert h' (set ys)"
  shows "dlist (list_add n h s) h' ys"
proof -
  have "prv s h \<in> insert h (set xs)"
    using d chain_last [of s h xs h] by (auto simp: dlist_def)
  then have "chain (list_add n h s) h' ys h' = chain s h' ys h'"
    using assms by (intro chain_cong) (auto simp: list_add_def Let_def)
  with d' show ?thesis by (simp add: dlist_def)
qed

subsection \<open>Removal\<close>

lemma dlist_del:
  assumes "dlist s h (xs @ n # ys)"
  shows "dlist (list_del n s) h (xs @ ys)"
proof -
  let ?s = "list_del n s"
  from assms have c1: "chain s h xs n" and c2: "chain s n ys h"
    and dist: "distinct (h # xs @ n # ys)"
    by (auto simp: dlist_def chain_append)
  let ?p = "if xs = [] then h else last xs" and ?q = "if ys = [] then h else hd ys"
  have pq: "prv s n = ?p" "nxt s n = ?q"
    using chain_last [OF c1] chain_first [OF c2] by auto
  have "?q \<noteq> n" using dist by (cases ys) auto
  then have nx: "nxt ?s = (nxt s)(?p := ?q)" and pv: "prv ?s = (prv s)(?q := ?p)"
    using pq by (auto simp: list_del_def Let_def)
  have c1': "chain ?s h xs' x = chain s h xs' x" if "xs = xs' @ [x]" for xs' x
    using that dist by (intro chain_cong) (auto simp: nx pv dest: hd_in_set)
  have c2': "chain ?s y ys' h = chain s y ys' h" if "ys = y # ys'" for ys' y
    using that dist by (intro chain_cong) (auto simp: nx pv dest: last_in_set)
  show ?thesis
  proof (cases ys)
    case Nil
    then show ?thesis using c1 c1' dist
      by (cases xs rule: rev_cases) (auto simp: dlist_def nx pv chain_append)
  next
    case (Cons y ys')
    with c2 have "chain s y ys' h" by simp
    with c2' Cons have t: "chain ?s y ys' h" by simp
    show ?thesis using c1 c1' dist t Cons
      by (cases xs rule: rev_cases) (auto simp: dlist_def nx pv chain_append)
  qed
qed

lemma dlist_del_frame:
  assumes d: "dlist s h (xs @ n # ys)" and d': "dlist s h' zs"
    and "insert h' (set zs) \<inter> insert h (set (xs @ n # ys)) = {}"
  shows "dlist (list_del n s) h' zs"
proof -
  from d have c1: "chain s h xs n" and c2: "chain s n ys h"
    by (auto simp: dlist_def chain_append)
  have "prv s n \<in> insert h (set xs)" "nxt s n \<in> insert h (set ys)"
    using chain_last [OF c1] chain_first [OF c2] by auto
  then have "chain (list_del n s) h' zs h' = chain s h' zs h'"
    using assms by (intro chain_cong) (auto simp: list_del_def Let_def)
  with d' show ?thesis by (simp add: dlist_def)
qed

subsection \<open>Traversal\<close>

lemma list_for_each_chain:
  assumes "chain s a xs h" and "h \<notin> set xs" and "length xs < fuel"
  shows "list_for_each fuel s h (nxt s a) = Some xs"
  using assms
proof (induction xs arbitrary: a fuel)
  case Nil
  then show ?case by (cases fuel) auto
next
  case (Cons x xs)
  then obtain f where f: "fuel = Suc f" by (cases fuel) auto
  with Cons have "list_for_each f s h (nxt s x) = Some xs" by auto
  with Cons.prems f show ?case by auto
qed

lemma list_for_each_enough:
  assumes "dlist s h xs" and "length xs < fuel"
  shows "list_nodes fuel s h = Some xs"
  using assms by (auto simp: dlist_def list_nodes_def intro: list_for_each_chain)

lemma dlist_unique: "dlist s h xs \<Longrightarrow> dlist s h ys \<Longrightarrow> xs = ys"
  using list_for_each_enough [of s h xs "Suc (length xs + length ys)"]
    list_for_each_enough [of s h ys "Suc (length xs + length ys)"] by simp

lemma dlist_move:
  assumes "dlist s h (xs @ n # ys)" and "dlist s h' zs"
    and "insert h' (set zs) \<inter> insert h (set (xs @ n # ys)) = {}"
  shows "dlist (list_move n h' s) h' (zs @ [n])" and "dlist (list_move n h' s) h (xs @ ys)"
proof -
  have d1: "dlist (list_del n s) h (xs @ ys)" using assms(1) by (rule dlist_del)
  have d2: "dlist (list_del n s) h' zs" using assms by (rule dlist_del_frame)
  show "dlist (list_move n h' s) h' (zs @ [n])"
    unfolding list_move_def using d2 assms(3) by (intro dlist_add) auto
  have "n \<notin> insert h (set (xs @ ys))" using assms(1) by (auto simp: dlist_def)
  then show "dlist (list_move n h' s) h (xs @ ys)"
    unfolding list_move_def using d2 d1 assms(3) by (intro dlist_add_frame) auto
qed

section \<open>Families of lists\<close>

text \<open>The effect of the operations on a family of lists, one per list head.\<close>

definition al_add :: "'n \<Rightarrow> 'h \<Rightarrow> ('h \<Rightarrow> 'n list) \<Rightarrow> 'h \<Rightarrow> 'n list" where
  "al_add n h L = L(h := L h @ [n])"

definition al_del :: "'n \<Rightarrow> ('h \<Rightarrow> 'n list) \<Rightarrow> 'h \<Rightarrow> 'n list" where
  "al_del n L = (\<lambda>h. remove1 n (L h))"

definition al_move :: "'n \<Rightarrow> 'h \<Rightarrow> ('h \<Rightarrow> 'n list) \<Rightarrow> 'h \<Rightarrow> 'n list" where
  "al_move n h L = al_add n h (al_del n L)"

text \<open>No node is linked twice: the state in which the operations are meaningful.\<close>

definition al_wf :: "('h \<Rightarrow> 'n list) \<Rightarrow> bool" where
  "al_wf L \<longleftrightarrow> (\<forall>h. distinct (L h)) \<and> (\<forall>h h'. h \<noteq> h' \<longrightarrow> set (L h) \<inter> set (L h') = {})"

definition linked :: "('h \<Rightarrow> 'n list) \<Rightarrow> 'n \<Rightarrow> bool" where
  "linked L n \<longleftrightarrow> (\<exists>h. n \<in> set (L h))"

lemma al_wf_add: "al_wf L \<Longrightarrow> \<not> linked L n \<Longrightarrow> al_wf (al_add n h L)"
  by (auto simp: al_wf_def al_add_def linked_def)

lemma al_wf_del: "al_wf L \<Longrightarrow> al_wf (al_del n L)"
  by (auto simp: al_wf_def al_del_def dest: notin_set_remove1)

lemma linked_del: "al_wf L \<Longrightarrow> linked (al_del n L) m \<longleftrightarrow> linked L m \<and> m \<noteq> n"
  by (auto simp: al_wf_def al_del_def linked_def)

lemma linked_add: "linked (al_add n h L) m \<longleftrightarrow> linked L m \<or> m = n"
  by (auto simp: al_add_def linked_def)

lemma al_wf_move: "al_wf L \<Longrightarrow> al_wf (al_move n h L)"
  by (simp add: al_move_def al_wf_add al_wf_del linked_del)

lemma linked_move: "al_wf L \<Longrightarrow> linked (al_move n h L) m \<longleftrightarrow> linked L m \<or> m = n"
  by (auto simp: al_move_def linked_add linked_del)

lemma al_del_unlinked: "\<not> linked L n \<Longrightarrow> al_del n L = L"
  by (auto simp: al_del_def linked_def fun_eq_iff remove1_idem)

lemma al_move_other: "al_wf L \<Longrightarrow> n \<notin> set (L g) \<Longrightarrow> g \<noteq> h \<Longrightarrow> al_move n h L g = L g"
  by (simp add: al_move_def al_add_def al_del_def remove1_idem)

text \<open>A store that represents a family, with the addresses of the heads and of the nodes.\<close>

definition rep_lists ::
  "('h \<Rightarrow> nat) \<Rightarrow> ('n \<Rightarrow> nat) \<Rightarrow> list_store \<Rightarrow> ('h \<Rightarrow> 'n list) \<Rightarrow> bool" where
  "rep_lists ha na s L \<longleftrightarrow> inj ha \<and> inj na \<and> (\<forall>h n. ha h \<noteq> na n) \<and> al_wf L
     \<and> (\<forall>h. dlist s (ha h) (map na (L h)))"

lemma rep_lists_disjoint:
  assumes "rep_lists ha na s L" and "h \<noteq> h'"
  shows "insert (ha h) (set (map na (L h))) \<inter> insert (ha h') (set (map na (L h'))) = {}"
proof -
  have "set (L h) \<inter> set (L h') = {}" and "inj ha" and "inj na"
    using assms by (auto simp: rep_lists_def al_wf_def)
  with assms show ?thesis
    by (auto simp: rep_lists_def inj_eq)
qed

lemma rep_lists_add:
  assumes r: "rep_lists ha na s L" and n: "\<not> linked L n"
  shows "rep_lists ha na (list_add (na n) (ha h) s) (al_add n h L)"
proof -
  have na: "na n \<notin> insert (ha g) (set (map na (L g)))" for g
    using r n by (auto simp: rep_lists_def linked_def dest: injD) metis
  have d: "dlist s (ha g) (map na (L g))" for g using r by (simp add: rep_lists_def)
  have "dlist (list_add (na n) (ha h) s) (ha g) (map na (al_add n h L g))" for g
  proof (cases "g = h")
    case True
    then show ?thesis using dlist_add [OF d na] by (simp add: al_add_def)
  next
    case False
    then show ?thesis
      using dlist_add_frame [OF d d rep_lists_disjoint [OF r False] na] by (simp add: al_add_def)
  qed
  with r n show ?thesis by (simp add: rep_lists_def al_wf_add)
qed

lemma rep_lists_del:
  assumes r: "rep_lists ha na s L" and n: "linked L n"
  shows "rep_lists ha na (list_del (na n) s) (al_del n L)"
proof -
  from n obtain h us vs where h: "L h = us @ n # vs" and us: "n \<notin> set us"
    by (metis linked_def split_list_first)
  have d: "dlist s (ha g) (map na (L g))" for g using r by (simp add: rep_lists_def)
  have dh: "dlist s (ha h) (map na us @ na n # map na vs)" using d [of h] h by simp
  have "dlist (list_del (na n) s) (ha g) (map na (al_del n L g))" for g
  proof (cases "g = h")
    case True
    then show ?thesis using dlist_del [OF dh] h us by (simp add: al_del_def remove1_append)
  next
    case False
    then have "n \<notin> set (L g)" using r h by (fastforce simp: rep_lists_def al_wf_def)
    then show ?thesis
      using dlist_del_frame [OF dh d [of g]] rep_lists_disjoint [OF r False] h
      by (simp add: al_del_def remove1_idem)
  qed
  with r show ?thesis by (simp add: rep_lists_def al_wf_del)
qed

lemma rep_lists_move:
  assumes "rep_lists ha na s L" and "linked L n"
  shows "rep_lists ha na (list_move (na n) (ha h) s) (al_move n h L)"
proof -
  have "al_wf L" using assms(1) by (simp add: rep_lists_def)
  then have "\<not> linked (al_del n L) n" by (simp add: linked_del)
  with rep_lists_del [OF assms] show ?thesis
    unfolding list_move_def al_move_def by (rule rep_lists_add)
qed

lemma rep_lists_nodes:
  assumes "rep_lists ha na s L" and "length (L h) < fuel"
  shows "list_nodes fuel s (ha h) = Some (map na (L h))"
  using assms by (intro list_for_each_enough) (auto simp: rep_lists_def)

section \<open>Links\<close>

text \<open>
  The kernel state holds a family of lists as the sequence of its links, pairs of a list head
  and a node in the order in which they were made. The lists of the family are the nodes per
  head; a node is linked twice when it occurs in two links.
\<close>

definition lst :: "('h \<times> 'n) list \<Rightarrow> 'h \<Rightarrow> 'n list" where
  "lst L h = map snd (filter (\<lambda>l. fst l = h) L)"

definition lk_linked :: "'n \<Rightarrow> ('h \<times> 'n) list \<Rightarrow> bool" where
  "lk_linked n L \<longleftrightarrow> n \<in> set (map snd L)"

definition lk_add :: "'n \<Rightarrow> 'h \<Rightarrow> ('h \<times> 'n) list \<Rightarrow> ('h \<times> 'n) list" where
  "lk_add n h L = L @ [(h, n)]"

definition lk_del :: "'n \<Rightarrow> ('h \<times> 'n) list \<Rightarrow> ('h \<times> 'n) list" where
  "lk_del n L = filter (\<lambda>l. snd l \<noteq> n) L"

definition lk_move :: "'n \<Rightarrow> 'h \<Rightarrow> ('h \<times> 'n) list \<Rightarrow> ('h \<times> 'n) list" where
  "lk_move n h L = lk_add n h (lk_del n L)"

definition lk_wf :: "('h \<times> 'n) list \<Rightarrow> bool" where
  "lk_wf L \<longleftrightarrow> distinct (map snd L)"

lemma mem_lst: "n \<in> set (lst L h) \<longleftrightarrow> (h, n) \<in> set L"
  by (force simp: lst_def)

lemma lk_linked_iff: "lk_linked n L \<longleftrightarrow> (\<exists>h. n \<in> set (lst L h))"
  by (force simp: lk_linked_def mem_lst)

lemma lst_add [simp]: "lst (lk_add n h L) g = (if g = h then lst L g @ [n] else lst L g)"
  by (simp add: lst_def lk_add_def)

lemma lst_del [simp]: "lst (lk_del n L) g = filter (\<lambda>m. m \<noteq> n) (lst L g)"
  by (induction L) (auto simp: lst_def lk_del_def)

lemma lst_move [simp]:
  "lst (lk_move n h L) g = (if g = h then filter (\<lambda>m. m \<noteq> n) (lst L g) @ [n] else filter (\<lambda>m. m \<noteq> n) (lst L g))"
  by (simp add: lk_move_def)

lemma lk_linked_add [simp]: "lk_linked m (lk_add n h L) \<longleftrightarrow> m = n \<or> lk_linked m L"
  by (auto simp: lk_linked_def lk_add_def)

lemma lk_linked_del [simp]: "lk_linked m (lk_del n L) \<longleftrightarrow> m \<noteq> n \<and> lk_linked m L"
  by (force simp: lk_linked_def lk_del_def)

lemma lk_linked_move [simp]: "lk_linked m (lk_move n h L) \<longleftrightarrow> m = n \<or> lk_linked m L"
  by (auto simp: lk_move_def)

lemma lk_wf_add: "lk_wf L \<Longrightarrow> \<not> lk_linked n L \<Longrightarrow> lk_wf (lk_add n h L)"
  by (simp add: lk_wf_def lk_add_def lk_linked_def)

lemma lk_wf_del: "lk_wf L \<Longrightarrow> lk_wf (lk_del n L)"
  by (simp add: lk_wf_def lk_del_def distinct_map_filter)

lemma lk_wf_move: "lk_wf L \<Longrightarrow> lk_wf (lk_move n h L)"
  by (simp add: lk_move_def lk_wf_add lk_wf_del)

lemma lk_wf_head: "lk_wf L \<Longrightarrow> n \<in> set (lst L h) \<Longrightarrow> n \<in> set (lst L g) \<Longrightarrow> h = g"
  by (auto simp: lk_wf_def mem_lst distinct_map dest: inj_onD [of snd _ "(h, n)" "(g, n)"])

lemma lk_wf_distinct: "lk_wf L \<Longrightarrow> distinct (lst L h)"
  by (simp add: lk_wf_def lst_def distinct_map_filter)

lemma lk_wf_al_wf: "lk_wf L \<Longrightarrow> al_wf (lst L)"
  using lk_wf_head lk_wf_distinct by (fastforce simp: al_wf_def)

text \<open>On a sequence without doubly linked nodes, the links behave as the family of lists, and
  so as the pointers of \<^verbatim>\<open>list.h\<close>.\<close>

lemma lk_refine:
  assumes "lk_wf L"
  shows "linked (lst L) n \<longleftrightarrow> lk_linked n L" and "lst (lk_add n h L) = al_add n h (lst L)"
    and "lst (lk_del n L) = al_del n (lst L)" and "lst (lk_move n h L) = al_move n h (lst L)"
proof -
  have r: "filter (\<lambda>m. m \<noteq> n) (lst L g) = remove1 n (lst L g)" for g
    using lk_wf_distinct [OF assms, of g] filter_cong [OF refl, of "lst L g" "\<lambda>m. m \<noteq> n" "(\<noteq>) n"]
    by (simp add: distinct_remove1_removeAll removeAll_filter_not_eq eq_commute)
  show "linked (lst L) n \<longleftrightarrow> lk_linked n L" by (auto simp: linked_def lk_linked_iff)
  show "lst (lk_add n h L) = al_add n h (lst L)" by (auto simp: al_add_def fun_eq_iff)
  show "lst (lk_del n L) = al_del n (lst L)" by (simp add: al_del_def fun_eq_iff r)
  show "lst (lk_move n h L) = al_move n h (lst L)"
    by (auto simp: al_move_def al_add_def al_del_def fun_eq_iff r)
qed

section \<open>Properties\<close>

text \<open>
  C9. Refinement of the intrusive lists: on a store that represents a family of lists in which
  no node is linked twice, \<^verbatim>\<open>list_add\<close> of an unlinked node appends it to the tail of the list
  given, \<^verbatim>\<open>list_del\<close> and \<^verbatim>\<open>list_move\<close> of a linked node take it out of the list it is on
  (whichever it is), the other lists keep their nodes and their order, and a
  \<^verbatim>\<open>list_for_each\<close> over any of the lists visits exactly its nodes in order and ends.
\<close>

theorem list_ops_refine:
  assumes "rep_lists ha na s L"
  shows "(\<not> linked L n \<longrightarrow> rep_lists ha na (list_add (na n) (ha h) s) (al_add n h L))
    \<and> (linked L n \<longrightarrow> rep_lists ha na (list_del (na n) s) (al_del n L)
        \<and> rep_lists ha na (list_move (na n) (ha h) s) (al_move n h L))
    \<and> list_nodes (Suc (length (L h))) s (ha h) = Some (map na (L h))
    \<and> (list_empty s (ha h) \<longleftrightarrow> L h = [])"
proof -
  have "dlist s (ha h) (map na (L h))" using assms by (simp add: rep_lists_def)
  then show ?thesis using assms
    by (simp add: rep_lists_add rep_lists_del rep_lists_move rep_lists_nodes dlist_empty)
qed

theorem list_ops_refine_witness:
  "rep_lists (\<lambda>b. if b then 0 else 1) (\<lambda>n. n + 2)
     (list_move 5 1 (list_add 5 0 (INIT_LIST_HEAD 1 (INIT_LIST_HEAD 0 \<lparr>nxt = id, prv = id\<rparr>))))
     (al_move 3 False (\<lambda>b. if b then [3] else []))"
proof -
  let ?L = "\<lambda>b. if b then [3 :: nat] else []"
  have "rep_lists (\<lambda>b. if b then 0 else 1) (\<lambda>n. n + 2)
     (list_add 5 0 (INIT_LIST_HEAD 1 (INIT_LIST_HEAD 0 \<lparr>nxt = id, prv = id\<rparr>))) ?L"
    by (auto simp: rep_lists_def al_wf_def inj_def dlist_def list_add_def INIT_LIST_HEAD_def
        set_nxt_def set_prv_def)
  moreover have "linked ?L 3" unfolding linked_def by (rule exI [of _ True]) simp
  ultimately show ?thesis using list_ops_refine [of _ _ _ ?L 3 False] by fastforce
qed

text \<open>
  \<^verbatim>\<open>list_del\<close> of a node that is no longer linked is not harmless: when the only node of a
  list has been removed and other nodes have been added since, removing it again empties the
  list and every node added in between is lost. (\<^verbatim>\<open>sys_exit\<close> removes the scheduling node of
  the running thread, which the scheduler has already removed from its ready list.)
\<close>

theorem stale_list_del_loses_nodes:
  assumes "dlist s h [n]" and "distinct (h # n # t # ts)"
  shows "dlist (list_add t h (list_del n s)) h [t]
       \<and> dlist (list_del n (list_add t h (list_del n s))) h []"
proof
  have "dlist (list_del n s) h []" using dlist_del [of s h "[]" n "[]"] assms by simp
  then show "dlist (list_add t h (list_del n s)) h [t]"
    using dlist_add [of "list_del n s" h "[]" t] assms(2) by auto
  show "dlist (list_del n (list_add t h (list_del n s))) h []"
    using assms by (auto simp: dlist_def list_del_def list_add_def Let_def)
qed

theorem stale_list_del_loses_nodes_witness:
  "dlist (list_del 1 (list_add 2 0 (list_del 1
     (list_add 1 0 (INIT_LIST_HEAD 0 \<lparr>nxt = id, prv = id\<rparr>))))) 0 []"
proof -
  have "dlist (list_add 1 0 (INIT_LIST_HEAD 0 \<lparr>nxt = id, prv = id\<rparr>)) 0 [1]"
    using dlist_add [OF dlist_init, of 1 0] by simp
  from stale_list_del_loses_nodes [OF this, of 2 "[]"] show ?thesis by simp
qed

end
