(* ===== verification/Kfifo.thy ===== *)
theory Kfifo
  imports Prelude
begin

text \<open>
  The kernel FIFO (\<^verbatim>\<open>kernel/kfifo.c\<close>, \<^verbatim>\<open>include/kernel/kfifo.h\<close>), byte for byte: the buffer is
  a byte array of fixed-size slots, each with a two-byte record size in front of the payload
  unless the FIFO is a byte stream. \<open>fifo_list\<close> reads the records a FIFO holds, oldest first;
  the theorems show that the operations are those of a bounded queue that overwrites its
  oldest record when full. The interface \<open>bounded_queue\<close> states this contract, and its
  interpretation on the byte-level operations serves the pipes and the signal queues.
\<close>

section \<open>The structure and its operations\<close>

record kfifo =
  kf_start :: nat
  kf_end :: nat
  kf_count :: int
  kf_data :: "u8 list"
  kf_size :: nat
  kf_esize :: nat
  kf_header_size :: nat
  kf_payload_size :: nat

definition kfifo_header_size :: nat where
  "kfifo_header_size = 2"

definition kfifo_init :: "u8 list \<Rightarrow> nat \<Rightarrow> nat \<Rightarrow> kfifo" where
  "kfifo_init data esize sz =
     \<lparr>kf_start = 0, kf_end = 0, kf_count = 0, kf_data = data, kf_size = sz, kf_esize = esize,
      kf_header_size = (if esize > 1 then kfifo_header_size else 0),
      kf_payload_size = (if esize > 1 then kfifo_header_size + esize else 1)\<rparr>"

definition kfifo_increase :: "kfifo \<Rightarrow> nat \<Rightarrow> nat" where
  "kfifo_increase f ptr = (let ptr' = ptr + 1 in if ptr' \<ge> kf_size f then 0 else ptr')"

definition kfifo_is_empty :: "kfifo \<Rightarrow> bool" where
  "kfifo_is_empty f \<longleftrightarrow> kf_count f = 0"

definition kfifo_is_full :: "kfifo \<Rightarrow> bool" where
  "kfifo_is_full f \<longleftrightarrow> kf_count f = int (kf_size f)"

definition kfifo_avail :: "kfifo \<Rightarrow> int" where
  "kfifo_avail f = int (kf_size f) - kf_count f"

definition kfifo_len :: "kfifo \<Rightarrow> int" where
  "kfifo_len f = kf_count f"

text \<open>The record size field, a little-endian \<^verbatim>\<open>uint16_t\<close>.\<close>

definition enc16 :: "nat \<Rightarrow> u8 list" where
  "enc16 n = [word_of_nat (n mod 256), word_of_nat (n div 256 mod 256)]"

definition dec16 :: "u8 list \<Rightarrow> nat" where
  "dec16 bs = (case bs of [a, b] \<Rightarrow> unat a + 256 * unat b | _ \<Rightarrow> 0)"

definition kfifo_in :: "kfifo \<Rightarrow> u8 list \<Rightarrow> kfifo option" where
  "kfifo_in f buf = do {
     let data_start = (if kfifo_is_full f then kf_start f else kf_end f) * kf_payload_size f;
     d1 \<leftarrow> mem_write (kf_data f) (data_start + kf_header_size f) buf;
     let f1 = (if kfifo_is_full f
               then f\<lparr>kf_data := d1, kf_start := kfifo_increase f (kf_start f)\<rparr>
               else f\<lparr>kf_data := d1, kf_count := kf_count f + 1\<rparr>);
     d2 \<leftarrow> (if kf_esize f > 1 then mem_write d1 data_start (enc16 (length buf)) else Some d1);
     Some (f1\<lparr>kf_data := d2, kf_end := kfifo_increase f (kf_end f)\<rparr>)
   }"

text \<open>\<^verbatim>\<open>kfifo_out\<close> copies \<open>n\<close> bytes to the caller, or nothing when the FIFO is empty: the
  second component of the result is what was copied.\<close>

definition kfifo_out :: "kfifo \<Rightarrow> nat \<Rightarrow> (kfifo \<times> u8 list option) option" where
  "kfifo_out f n =
     (if kf_count f \<le> 0 then Some (f, None)
      else do {
        bs \<leftarrow> mem_read (kf_data f) (kf_header_size f + kf_start f * kf_payload_size f) n;
        Some (f\<lparr>kf_start := kfifo_increase f (kf_start f), kf_count := kf_count f - 1\<rparr>, Some bs)
      })"

definition kfifo_out_peek :: "kfifo \<Rightarrow> nat \<Rightarrow> u8 list option option" where
  "kfifo_out_peek f n =
     (if kf_count f \<le> 0 then Some None
      else if kf_esize f > 1
      then map_option Some
             (mem_read (kf_data f) (kf_start f * kf_payload_size f + kfifo_header_size) n)
      else map_option Some (mem_read (kf_data f) (kf_start f * kf_payload_size f) 1))"

text \<open>The DMA variants hand out and take back offsets into the buffer.\<close>

definition kfifo_dma_in_prepare :: "kfifo \<Rightarrow> nat" where
  "kfifo_dma_in_prepare f =
     kf_header_size f
     + (if kfifo_is_full f then kf_start f else kf_end f) * kf_payload_size f"

definition kfifo_dma_in_finish :: "kfifo \<Rightarrow> nat \<Rightarrow> kfifo option" where
  "kfifo_dma_in_finish f n = do {
     let f1 = (if kfifo_is_full f then f\<lparr>kf_start := kfifo_increase f (kf_start f)\<rparr>
               else f\<lparr>kf_count := kf_count f + 1\<rparr>);
     d \<leftarrow> mem_write (kf_data f1) (kf_start f1 * kf_payload_size f1) (enc16 n);
     Some (f1\<lparr>kf_data := d, kf_end := kfifo_increase f1 (kf_end f1)\<rparr>)
   }"

definition kfifo_dma_out_prepare :: "kfifo \<Rightarrow> (nat \<times> nat) option" where
  "kfifo_dma_out_prepare f = do {
     h \<leftarrow> mem_read (kf_data f) (kf_start f * kf_payload_size f) 2;
     Some (kf_start f * kf_payload_size f + kf_header_size f, dec16 h)
   }"

definition kfifo_dma_out_finish :: "kfifo \<Rightarrow> kfifo" where
  "kfifo_dma_out_finish f =
     f\<lparr>kf_start := kfifo_increase f (kf_start f), kf_count := kf_count f - 1\<rparr>"

definition kfifo_peek_len :: "kfifo \<Rightarrow> nat option" where
  "kfifo_peek_len f =
     (if kf_esize f \<le> 1 then Some 0
      else map_option dec16 (mem_read (kf_data f) (kf_start f * kf_payload_size f) 2))"

definition kfifo_put :: "kfifo \<Rightarrow> u8 list \<Rightarrow> kfifo option" where
  "kfifo_put f data = kfifo_in f (take (kf_esize f) data)"

definition kfifo_get :: "kfifo \<Rightarrow> (kfifo \<times> u8 list option) option" where
  "kfifo_get f = kfifo_out f (kf_esize f)"

definition kfifo_peek :: "kfifo \<Rightarrow> u8 list option option" where
  "kfifo_peek f = kfifo_out_peek f (kf_esize f)"

definition kfifo_skip :: "kfifo \<Rightarrow> kfifo" where
  "kfifo_skip f =
     (if kf_count f \<le> 0 then f
      else f\<lparr>kf_start := kfifo_increase f (kf_start f), kf_count := kf_count f - 1\<rparr>)"

section \<open>The records of a FIFO\<close>

definition fifo_rec :: "kfifo \<Rightarrow> nat \<Rightarrow> u8 list option" where
  "fifo_rec f j =
     (if kf_esize f > 1 then do {
        h \<leftarrow> mem_read (kf_data f) (j * kf_payload_size f) 2;
        if dec16 h \<le> kf_esize f
        then mem_read (kf_data f) (j * kf_payload_size f + 2) (dec16 h) else None
      } else mem_read (kf_data f) (j * kf_payload_size f) 1)"

definition fifo_pos :: "kfifo \<Rightarrow> nat \<Rightarrow> nat" where
  "fifo_pos f i = (kf_start f + i) mod kf_size f"

definition fifo_list :: "kfifo \<Rightarrow> u8 list list" where
  "fifo_list f = map (\<lambda>i. the (fifo_rec f (fifo_pos f i))) [0..<nat (kf_count f)]"

definition fifo_shape :: "kfifo \<Rightarrow> bool" where
  "fifo_shape f \<longleftrightarrow> 0 < kf_size f \<and> 0 < kf_esize f \<and> kf_esize f < 65536
     \<and> kf_header_size f = (if kf_esize f > 1 then 2 else 0)
     \<and> kf_payload_size f = (if kf_esize f > 1 then 2 + kf_esize f else 1)
     \<and> kf_payload_size f * kf_size f \<le> length (kf_data f)"

definition fifo_wf :: "kfifo \<Rightarrow> bool" where
  "fifo_wf f \<longleftrightarrow> fifo_shape f
     \<and> kf_start f < kf_size f \<and> 0 \<le> kf_count f \<and> kf_count f \<le> int (kf_size f)
     \<and> kf_end f = fifo_pos f (nat (kf_count f))
     \<and> (\<forall>i < nat (kf_count f). fifo_rec f (fifo_pos f i) \<noteq> None)"

text \<open>What may be put into a FIFO: a record of at most the element size, a single byte in
  byte-stream mode.\<close>

definition fifo_fits :: "kfifo \<Rightarrow> u8 list \<Rightarrow> bool" where
  "fifo_fits f buf \<longleftrightarrow> (if kf_esize f > 1 then length buf \<le> kf_esize f else length buf = 1)"

lemma dec16_enc16: "n < 65536 \<Longrightarrow> dec16 (enc16 n) = n"
  by (simp add: dec16_def enc16_def unat_of_nat)

lemma enc16_length [simp]: "length (enc16 n) = 2"
  by (simp add: enc16_def)

lemma kfifo_increase_mod: "p < kf_size f \<Longrightarrow> kfifo_increase f p = (p + 1) mod kf_size f"
  by (cases "Suc p = kf_size f") (auto simp: kfifo_increase_def Let_def)

lemma slot_disjoint:
  fixes j k p :: nat
  assumes "j \<noteq> k" and "a + n \<le> p"
  shows "k * p + p \<le> j * p + a \<or> j * p + a + n \<le> k * p"
proof (cases "j < k")
  case True
  then have "Suc j * p \<le> k * p" by (intro mult_le_mono1) simp
  with assms(2) show ?thesis by simp
next
  case False
  with assms(1) have "Suc k * p \<le> j * p" by (intro mult_le_mono1) simp
  then show ?thesis by simp
qed

text \<open>The bytes a call of \<open>kfifo_in\<close> stores, as a function of the slot.\<close>

definition slot_write :: "kfifo \<Rightarrow> nat \<Rightarrow> u8 list \<Rightarrow> u8 list option" where
  "slot_write f j buf = do {
     d1 \<leftarrow> mem_write (kf_data f) (j * kf_payload_size f + kf_header_size f) buf;
     if kf_esize f > 1 then mem_write d1 (j * kf_payload_size f) (enc16 (length buf)) else Some d1
   }"

lemma kfifo_in_slot:
  "kfifo_in f buf = map_option
     (\<lambda>d. (if kfifo_is_full f then f\<lparr>kf_start := kfifo_increase f (kf_start f)\<rparr>
           else f\<lparr>kf_count := kf_count f + 1\<rparr>)
          \<lparr>kf_data := d, kf_end := kfifo_increase f (kf_end f)\<rparr>)
     (slot_write f (if kfifo_is_full f then kf_start f else kf_end f) buf)"
  by (auto simp: kfifo_in_def slot_write_def Let_def split: Option.bind_split)

lemma fifo_rec_upd [simp]:
  "fifo_rec (f\<lparr>kf_start := a\<rparr>) = fifo_rec f" "fifo_rec (f\<lparr>kf_end := a\<rparr>) = fifo_rec f"
  "fifo_rec (f\<lparr>kf_count := c\<rparr>) = fifo_rec f"
  by (auto simp: fifo_rec_def fun_eq_iff cong: if_cong)

lemma fifo_shape_upd [simp]:
  "fifo_shape (f\<lparr>kf_start := a\<rparr>) = fifo_shape f" "fifo_shape (f\<lparr>kf_end := a\<rparr>) = fifo_shape f"
  "fifo_shape (f\<lparr>kf_count := c\<rparr>) = fifo_shape f"
  "length d = length (kf_data f) \<Longrightarrow> fifo_shape (f\<lparr>kf_data := d\<rparr>) = fifo_shape f"
  by (auto simp: fifo_shape_def)

lemma slot_in_data:
  assumes "fifo_shape f" and "j < kf_size f"
  shows "j * kf_payload_size f + kf_payload_size f \<le> length (kf_data f)"
proof -
  have "Suc j * kf_payload_size f \<le> kf_size f * kf_payload_size f"
    using assms(2) by (intro mult_le_mono1) simp
  also have "\<dots> \<le> length (kf_data f)" using assms(1) by (metis fifo_shape_def mult.commute)
  finally show ?thesis by simp
qed

lemma fifo_rec_frame:
  assumes "mem_write (kf_data f) (j * kf_payload_size f + a) bs = Some d"
    and "a + length bs \<le> kf_payload_size f" and "k \<noteq> j" and "fifo_shape f"
  shows "fifo_rec (f\<lparr>kf_data := d\<rparr>) k = fifo_rec f k"
proof -
  have r: "mem_read d (k * kf_payload_size f + b) n = mem_read (kf_data f) (k * kf_payload_size f + b) n"
    if "b + n \<le> kf_payload_size f" for b n
    using slot_disjoint [of j k a "length bs" "kf_payload_size f"] assms(1-3) that
    by (intro mem_read_write_disjoint [OF assms(1)]) auto
  show ?thesis
    using r [of 0 2] r [of 2] r [of 0 1] assms(4)
    by (auto simp: fifo_rec_def fifo_shape_def cong: if_cong Option.bind_cong)
qed

lemma slot_write_spec:
  assumes sh: "fifo_shape f" and fits: "fifo_fits f buf" and j: "j < kf_size f"
  shows "\<exists>d. slot_write f j buf = Some d \<and> length d = length (kf_data f)
     \<and> fifo_rec (f\<lparr>kf_data := d\<rparr>) j = Some buf
     \<and> (\<forall>k. k \<noteq> j \<longrightarrow> fifo_rec (f\<lparr>kf_data := d\<rparr>) k = fifo_rec f k)"
proof -
  let ?p = "kf_payload_size f" and ?h = "kf_header_size f"
  note room = slot_in_data [OF sh j]
  have hp: "?h + length buf \<le> ?p" using sh fits by (auto simp: fifo_shape_def fifo_fits_def split: if_splits)
  then obtain d1 where d1: "mem_write (kf_data f) (j * ?p + ?h) buf = Some d1"
    using room by (simp add: mem_write_def)
  note l1 = mem_write_length [OF d1]
  note fr1 = fifo_rec_frame [OF d1 hp _ sh]
  show ?thesis
  proof (cases "kf_esize f > 1")
    case False
    then have "fifo_rec (f\<lparr>kf_data := d1\<rparr>) j = Some buf"
      using sh fits mem_read_after_write [OF d1]
      by (simp add: fifo_rec_def fifo_shape_def fifo_fits_def)
    with False d1 l1 fr1 show ?thesis by (auto simp: slot_write_def)
  next
    case True
    let ?f1 = "f\<lparr>kf_data := d1\<rparr>" and ?n = "length buf"
    have sh1: "fifo_shape ?f1" using sh l1 by simp
    have h: "?h = 2" "?p = 2 + kf_esize f" "?n \<le> kf_esize f" "?n < 65536"
      using True sh fits by (auto simp: fifo_shape_def fifo_fits_def)
    obtain d2 where d2: "mem_write d1 (j * ?p) (enc16 ?n) = Some d2"
      using room h l1 by (simp add: mem_write_def)
    have "mem_read d2 (j * ?p) 2 = Some (enc16 ?n)"
      using mem_read_after_write [OF d2] by simp
    moreover have "mem_read d2 (j * ?p + 2) ?n = mem_read d1 (j * ?p + 2) ?n"
      by (rule mem_read_write_disjoint [OF d2]) simp
    moreover have "mem_read d1 (j * ?p + 2) ?n = Some buf"
      using mem_read_after_write [OF d1] h by simp
    ultimately have "fifo_rec (f\<lparr>kf_data := d2\<rparr>) j = Some buf"
      using True h by (simp add: fifo_rec_def dec16_enc16)
    moreover have "fifo_rec (f\<lparr>kf_data := d2\<rparr>) k = fifo_rec f k" if "k \<noteq> j" for k
      using fifo_rec_frame [of ?f1 j 0 "enc16 ?n" d2 k] d2 h sh1 fr1 [OF that] that by simp
    ultimately show ?thesis using True d1 d2 l1 mem_write_length [OF d2]
      by (auto simp: slot_write_def)
  qed
qed

section \<open>Refinement to a bounded queue\<close>

lemma fifo_pos_less: "fifo_wf f \<Longrightarrow> fifo_pos f i < kf_size f"
  by (simp add: fifo_pos_def fifo_wf_def fifo_shape_def)

lemma mod_add_inj:
  fixes i k n s :: nat
  assumes "(s + i) mod n = (s + k) mod n" and "i < n" and "k < n" and "i \<le> k"
  shows "i = k"
proof -
  have "n dvd (s + k) - (s + i)"
    using assms(1,4) mod_eq_dvd_iff_nat [of "s + i" "s + k" n] by simp
  then have "n dvd k - i" by simp
  moreover have "k - i < n" using assms(3) by simp
  ultimately have "k - i = 0" using dvd_imp_le [of n "k - i"] by (cases "k - i") simp_all
  with assms(4) show ?thesis by simp
qed

lemma fifo_pos_inj:
  assumes "fifo_pos f i = fifo_pos f k" and "i < kf_size f" and "k < kf_size f"
  shows "i = k"
  using assms mod_add_inj [of "kf_start f" i "kf_size f" k] mod_add_inj [of "kf_start f" k "kf_size f" i]
  by (cases "i \<le> k") (auto simp: fifo_pos_def)

lemma fifo_list_length: "fifo_wf f \<Longrightarrow> int (length (fifo_list f)) = kf_count f"
  by (simp add: fifo_list_def fifo_wf_def)

lemma fifo_list_Cons:
  assumes "nat (kf_count f) = Suc m"
  shows "fifo_list f = the (fifo_rec f (fifo_pos f 0))
                        # map (\<lambda>i. the (fifo_rec f (fifo_pos f (Suc i)))) [0..<m]"
  by (simp add: fifo_list_def assms upt_conv_Cons map_Suc_upt [symmetric] o_def del: upt_Suc)

text \<open>Storing a record: at the free slot behind the last one, or, when the FIFO is full, over
  the oldest one.\<close>

lemma kfifo_in_spec:
  assumes wf: "fifo_wf f" and fits: "fifo_fits f buf"
  shows "\<exists>f'. kfifo_in f buf = Some f' \<and> fifo_wf f' \<and> kf_size f' = kf_size f
     \<and> kf_esize f' = kf_esize f
     \<and> fifo_list f' = (if kfifo_is_full f then tl (fifo_list f) else fifo_list f) @ [buf]"
proof -
  define n where "n = nat (kf_count f)"
  define j where "j = (if kfifo_is_full f then kf_start f else kf_end f)"
  from wf have sh: "fifo_shape f" and sz: "0 < kf_size f" and n: "kf_count f = int n" "n \<le> kf_size f"
    and st: "kf_start f < kf_size f" and en: "kf_end f = fifo_pos f n"
    and recs: "\<And>i. i < n \<Longrightarrow> fifo_rec f (fifo_pos f i) \<noteq> None"
    by (auto simp: fifo_wf_def fifo_shape_def n_def)
  have full: "kfifo_is_full f \<longleftrightarrow> n = kf_size f" using n by (simp add: kfifo_is_full_def)
  have jp: "j = fifo_pos f n"
    using full en st by (auto simp: j_def fifo_pos_def)
  then have "j < kf_size f" using sz by (simp add: fifo_pos_def)
  from slot_write_spec [OF sh fits this] obtain d where d: "slot_write f j buf = Some d"
    "length d = length (kf_data f)" "fifo_rec (f\<lparr>kf_data := d\<rparr>) j = Some buf"
    "\<And>k. k \<noteq> j \<Longrightarrow> fifo_rec (f\<lparr>kf_data := d\<rparr>) k = fifo_rec f k" by auto
  define g where "g = f\<lparr>kf_data := d\<rparr>"
  have en': "kfifo_increase f (kf_end f) = fifo_pos f (Suc n)"
    using en sz by (simp add: kfifo_increase_mod fifo_pos_def mod_Suc_eq)
  show ?thesis
  proof (cases "kfifo_is_full f")
    case False
    define f' where "f' = g\<lparr>kf_count := int (Suc n), kf_end := fifo_pos f (Suc n)\<rparr>"
    have in_f: "kfifo_in f buf = Some f'"
      using False d(1) n en' by (simp add: kfifo_in_slot j_def f'_def g_def)
    have old: "fifo_rec g (fifo_pos f i) = fifo_rec f (fifo_pos f i)" if "i < n" for i
      using d(4) fifo_pos_inj [of f i n] that False full n jp by (auto simp: g_def)
    have new: "fifo_rec g (fifo_pos f n) = Some buf" using d(3) jp by (simp add: g_def)
    have pos: "fifo_pos f' = fifo_pos f" and rec: "fifo_rec f' = fifo_rec g"
      by (auto simp: f'_def g_def fifo_pos_def fun_eq_iff)
    have "fifo_rec g (fifo_pos f i) \<noteq> None" if "i < Suc n" for i
      using that old recs new by (cases "i = n") auto
    then have "fifo_wf f'"
      unfolding fifo_wf_def pos rec using sh st n d(2) full False
      by (simp add: f'_def g_def del: of_nat_Suc)
    moreover have "fifo_list f' = fifo_list f @ [buf]"
      unfolding fifo_list_def pos rec using old new n by (simp add: f'_def nat_add_distrib)
    ultimately show ?thesis using False in_f by (auto simp: f'_def g_def)
  next
    case True
    then have nsz: "n = kf_size f" using full by simp
    let ?st = "kfifo_increase f (kf_start f)"
    define f' where "f' = g\<lparr>kf_start := ?st, kf_end := fifo_pos f (Suc n)\<rparr>"
    have in_f: "kfifo_in f buf = Some f'"
      using True d(1) en' by (simp add: kfifo_in_slot j_def f'_def g_def)
    have st': "?st = (kf_start f + 1) mod kf_size f" using st by (rule kfifo_increase_mod)
    have pos: "fifo_pos f' i = fifo_pos f (Suc i)" for i
      by (simp add: f'_def g_def st' fifo_pos_def mod_simps)
    have rec: "fifo_rec f' = fifo_rec g" by (simp add: f'_def)
    have old: "fifo_rec g (fifo_pos f (Suc i)) = fifo_rec f (fifo_pos f (Suc i))" if "Suc i < n" for i
      using d(4) fifo_pos_inj [of f "Suc i" 0] that nsz jp sz
      by (auto simp: g_def fifo_pos_def)
    have new: "fifo_rec g (fifo_pos f n) = Some buf" using d(3) jp by (simp add: g_def)
    have "fifo_rec g (fifo_pos f (Suc i)) \<noteq> None" if "i < n" for i
      using that old recs new by (cases "Suc i = n") auto
    then have "fifo_wf f'"
      unfolding fifo_wf_def pos rec using sh st sz n d(2) by (simp add: f'_def g_def st')
    moreover have "fifo_list f' = tl (fifo_list f) @ [buf]"
    proof -
      obtain m where m: "n = Suc m" using nsz sz not0_implies_Suc [of n] by blast
      have "fifo_list f' = map (\<lambda>i. the (fifo_rec g (fifo_pos f (Suc i)))) [0..<n]"
        unfolding fifo_list_def pos rec using n by (simp add: f'_def g_def)
      also have "\<dots> = map (\<lambda>i. the (fifo_rec f (fifo_pos f (Suc i)))) [0..<m] @ [buf]"
        using old new by (simp add: m)
      also have "map (\<lambda>i. the (fifo_rec f (fifo_pos f (Suc i)))) [0..<m] = tl (fifo_list f)"
        using n m fifo_list_Cons [of f m] by simp
      finally show ?thesis .
    qed
    ultimately show ?thesis using True in_f by (auto simp: f'_def g_def)
  qed
qed

lemma kfifo_start_step:
  assumes wf: "fifo_wf f" and c: "0 < kf_count f"
  defines "f' \<equiv> f\<lparr>kf_start := kfifo_increase f (kf_start f), kf_count := kf_count f - 1\<rparr>"
  shows "fifo_wf f'" and "fifo_list f' = tl (fifo_list f)"
    and "fifo_list f = the (fifo_rec f (kf_start f)) # fifo_list f'"
    and "fifo_rec f (kf_start f) \<noteq> None"
proof -
  from c obtain m where n: "nat (kf_count f) = Suc m" using not0_implies_Suc [of "nat (kf_count f)"] by auto
  have st: "kf_start f < kf_size f" and sh: "fifo_shape f" using wf by (auto simp: fifo_wf_def)
  have pos: "fifo_pos f' i = fifo_pos f (Suc i)" for i
    by (simp add: f'_def kfifo_increase_mod [OF st] fifo_pos_def mod_simps)
  have n': "nat (kf_count f') = m" using n by (simp add: f'_def)
  have rec: "fifo_rec f' = fifo_rec f" by (simp add: f'_def)
  have z: "fifo_pos f 0 = kf_start f" using st by (simp add: fifo_pos_def)
  have "kf_end f' = fifo_pos f (Suc m)" "kf_size f' = kf_size f" "kf_start f' < kf_size f"
    "0 \<le> kf_count f'" "kf_count f' \<le> int (kf_size f)"
    using wf n c by (auto simp: f'_def fifo_wf_def kfifo_increase_def Let_def)
  then show "fifo_wf f'" unfolding fifo_wf_def n' pos rec
    using wf n sh by (auto simp: fifo_wf_def f'_def)
  show l: "fifo_list f = the (fifo_rec f (kf_start f)) # fifo_list f'"
    using fifo_list_Cons [OF n] by (simp add: fifo_list_def n' pos rec z)
  then show "fifo_list f' = tl (fifo_list f)" by simp
  show "fifo_rec f (kf_start f) \<noteq> None" using wf n z by (auto simp: fifo_wf_def)
qed

lemma fifo_rec_slot:
  assumes "fifo_shape f" and "fifo_rec f j = Some r"
  shows "fifo_fits f r"
    and "mem_read (kf_data f) (j * kf_payload_size f + kf_header_size f) (length r) = Some r"
    and "kf_esize f > 1 \<Longrightarrow>
         map_option dec16 (mem_read (kf_data f) (j * kf_payload_size f) 2) = Some (length r)"
  using assms
  by (auto simp: fifo_rec_def fifo_shape_def fifo_fits_def mem_read_def bind_eq_Some_iff
      split: if_splits)

text \<open>Taking a record: \<open>n\<close> bytes of the slot of the oldest one.\<close>

lemma kfifo_out_spec:
  assumes wf: "fifo_wf f" and l: "fifo_list f = r # rs"
    and n: "n \<le> (if kf_esize f > 1 then kf_esize f else 1)"
  shows "\<exists>f' bs. kfifo_out f n = Some (f', Some bs) \<and> fifo_wf f' \<and> fifo_list f' = rs
     \<and> kf_size f' = kf_size f \<and> kf_esize f' = kf_esize f
     \<and> length bs = n \<and> take (length r) bs = take n r"
proof -
  let ?f' = "f\<lparr>kf_start := kfifo_increase f (kf_start f), kf_count := kf_count f - 1\<rparr>"
  let ?off = "kf_start f * kf_payload_size f + kf_header_size f"
  have sh: "fifo_shape f" and st: "kf_start f < kf_size f" using wf by (auto simp: fifo_wf_def)
  have c: "0 < kf_count f" using fifo_list_length [OF wf] l by simp
  note step = kfifo_start_step [OF wf c]
  have r: "fifo_rec f (kf_start f) = Some r" using step(3,4) l by auto
  have "?off + n \<le> length (kf_data f)"
    using slot_in_data [OF sh st] n sh by (auto simp: fifo_shape_def)
  then obtain bs where bs: "mem_read (kf_data f) ?off n = Some bs" "length bs = n"
    by (simp add: mem_read_def)
  have "take (length r) bs = take n r"
    using bs fifo_rec_slot(2) [OF sh r] unfolding mem_read_def
    by (metis min.commute option.inject option.distinct(1) take_take)
  with bs step l c show ?thesis by (auto simp: kfifo_out_def add.commute)
qed

lemma kfifo_init_wf:
  assumes "0 < sz" and "0 < esize" and "esize < 65536"
    and "(if esize > 1 then 2 + esize else 1) * sz \<le> length data"
  shows "fifo_wf (kfifo_init data esize sz)" and "fifo_list (kfifo_init data esize sz) = []"
  using assms
  by (auto simp: kfifo_init_def fifo_wf_def fifo_shape_def fifo_list_def fifo_pos_def
      kfifo_header_size_def)

section \<open>The queue contract\<close>

primrec push_all :: "('q \<Rightarrow> 'a \<Rightarrow> 'q option) \<Rightarrow> 'q \<Rightarrow> 'a list \<Rightarrow> 'q option" where
  "push_all push q [] = Some q"
| "push_all push q (x # xs) = push q x \<bind> (\<lambda>q'. push_all push q' xs)"

primrec pop_n :: "('q \<Rightarrow> ('q \<times> 'a) option) \<Rightarrow> 'q \<Rightarrow> nat \<Rightarrow> ('q \<times> 'a list) option" where
  "pop_n pop q 0 = Some (q, [])"
| "pop_n pop q (Suc n) = do { (q1, x) \<leftarrow> pop q; (q2, xs) \<leftarrow> pop_n pop q1 n; Some (q2, x # xs) }"

text \<open>A queue of bounded capacity that drops its oldest item to make room for a new one.\<close>

locale bounded_queue =
  fixes wf :: "'q \<Rightarrow> bool" and fits :: "'q \<Rightarrow> 'a \<Rightarrow> bool" and items :: "'q \<Rightarrow> 'a list"
    and cap :: "'q \<Rightarrow> nat" and push :: "'q \<Rightarrow> 'a \<Rightarrow> 'q option" and pop :: "'q \<Rightarrow> ('q \<times> 'a) option"
  assumes items_le: "wf q \<Longrightarrow> length (items q) \<le> cap q"
    and cap_pos: "wf q \<Longrightarrow> 0 < cap q"
    and push_law: "wf q \<Longrightarrow> fits q x \<Longrightarrow>
      \<exists>q'. push q x = Some q' \<and> wf q' \<and> cap q' = cap q \<and> fits q' = fits q
        \<and> items q' = (if length (items q) = cap q then tl (items q) else items q) @ [x]"
    and pop_law: "wf q \<Longrightarrow> items q = x # xs \<Longrightarrow>
      \<exists>q'. pop q = Some (q', x) \<and> wf q' \<and> items q' = xs \<and> cap q' = cap q \<and> fits q' = fits q"
begin

text \<open>Pushing any sequence never fails and keeps the newest items.\<close>

lemma push_all_spec:
  assumes "wf q" and "\<forall>x \<in> set xs. fits q x"
  shows "\<exists>q'. push_all push q xs = Some q' \<and> wf q' \<and> cap q' = cap q
     \<and> items q' = drop (length (items q @ xs) - cap q) (items q @ xs)"
  using assms
proof (induction xs arbitrary: q)
  case Nil
  then show ?case using items_le [of q] by simp
next
  case (Cons x xs)
  from push_law [of q x] Cons.prems obtain q1 where q1: "push q x = Some q1" "wf q1"
    "cap q1 = cap q" "fits q1 = fits q"
    "items q1 = (if length (items q) = cap q then tl (items q) else items q) @ [x]" by auto
  from Cons.IH [of q1] q1 Cons.prems obtain q2 where q2: "push_all push q1 xs = Some q2" "wf q2"
    "cap q2 = cap q" "items q2 = drop (length (items q1 @ xs) - cap q) (items q1 @ xs)" by auto
  have "drop (length (items q1 @ xs) - cap q) (items q1 @ xs)
      = drop (length (items q @ x # xs) - cap q) (items q @ x # xs)"
  proof (cases "length (items q) = cap q")
    case True
    then obtain y ys where y: "items q = y # ys" using cap_pos [OF Cons.prems(1)] by (cases "items q") auto
    have "Suc (length ys) = cap q" using y True by simp
    then show ?thesis using q1(5) y True by (auto simp: Suc_diff_le)
  qed (simp add: q1(5))
  with q1 q2 show ?case by auto
qed

lemma pop_n_spec:
  assumes "wf q" and "n \<le> length (items q)"
  shows "\<exists>q'. pop_n pop q n = Some (q', take n (items q)) \<and> wf q' \<and> items q' = drop n (items q)"
  using assms
proof (induction n arbitrary: q)
  case (Suc n)
  then obtain x xs where x: "items q = x # xs" by (cases "items q") auto
  from pop_law [OF Suc.prems(1) x] obtain q1 where "pop q = Some (q1, x)" "wf q1" "items q1 = xs" by auto
  moreover have "\<exists>q'. pop_n pop q1 n = Some (q', take n (items q1)) \<and> wf q' \<and> items q' = drop n (items q1)"
    using calculation Suc.prems x by (intro Suc.IH) auto
  ultimately show ?case using x by auto
qed simp

text \<open>Whatever is pushed into an empty queue comes out in order, less what was overwritten.\<close>

lemma push_pop_roundtrip:
  assumes "wf q" and "items q = []" and "\<forall>x \<in> set xs. fits q x"
  shows "\<exists>q1 q2. push_all push q xs = Some q1
     \<and> pop_n pop q1 (min (length xs) (cap q)) = Some (q2, drop (length xs - cap q) xs)
     \<and> items q2 = []"
proof -
  from push_all_spec [OF assms(1,3)] assms(2) obtain q1 where q1: "push_all push q xs = Some q1"
    "wf q1" "items q1 = drop (length xs - cap q) xs" by auto
  then have "length (items q1) = min (length xs) (cap q)" by auto
  with pop_n_spec [OF q1(2), of "min (length xs) (cap q)"] q1 show ?thesis by auto
qed

end

text \<open>The FIFO as such a queue: a record is taken with its recorded size.\<close>

definition kfifo_take :: "kfifo \<Rightarrow> (kfifo \<times> u8 list) option" where
  "kfifo_take f = do {
     n \<leftarrow> (if kf_esize f > 1 then kfifo_peek_len f else Some 1);
     (f', r) \<leftarrow> kfifo_out f n;
     bs \<leftarrow> r;
     Some (f', bs)
   }"

lemma kfifo_take_spec:
  assumes wf: "fifo_wf f" and l: "fifo_list f = r # rs"
  shows "\<exists>f'. kfifo_take f = Some (f', r) \<and> fifo_wf f' \<and> fifo_list f' = rs
     \<and> kf_size f' = kf_size f \<and> kf_esize f' = kf_esize f"
proof -
  have sh: "fifo_shape f" using wf by (simp add: fifo_wf_def)
  have c: "0 < kf_count f" using fifo_list_length [OF wf] l by simp
  have r: "fifo_rec f (kf_start f) = Some r" using kfifo_start_step(3,4) [OF wf c] l by auto
  note slot = fifo_rec_slot [OF sh r]
  have n: "(if kf_esize f > 1 then kfifo_peek_len f else Some 1) = Some (length r)"
    using slot by (auto simp: kfifo_peek_len_def fifo_fits_def)
  from kfifo_out_spec [OF wf l, of "length r"] slot(1) obtain f' bs where
    "kfifo_out f (length r) = Some (f', Some bs)" "fifo_wf f'" "fifo_list f' = rs"
    "kf_size f' = kf_size f" "kf_esize f' = kf_esize f" "length bs = length r" "take (length r) bs = r"
    by (auto simp: fifo_fits_def split: if_splits)
  then show ?thesis unfolding kfifo_take_def n by simp
qed

interpretation kf: bounded_queue fifo_wf fifo_fits fifo_list kf_size kfifo_in kfifo_take
proof unfold_locales
  fix f x
  assume a: "fifo_wf f" "fifo_fits f x"
  have "kfifo_is_full f \<longleftrightarrow> length (fifo_list f) = kf_size f"
    using fifo_list_length [OF a(1)] by (auto simp: kfifo_is_full_def)
  then show "\<exists>f'. kfifo_in f x = Some f' \<and> fifo_wf f' \<and> kf_size f' = kf_size f
     \<and> fifo_fits f' = fifo_fits f
     \<and> fifo_list f' = (if length (fifo_list f) = kf_size f then tl (fifo_list f) else fifo_list f) @ [x]"
    using kfifo_in_spec [OF a] by (auto simp: fifo_fits_def fun_eq_iff)
next
  fix f x xs
  assume a: "fifo_wf f" "fifo_list f = x # xs"
  from kfifo_take_spec [OF this]
  show "\<exists>f'. kfifo_take f = Some (f', x) \<and> fifo_wf f' \<and> fifo_list f' = xs \<and> kf_size f' = kf_size f
     \<and> fifo_fits f' = fifo_fits f"
    by (auto simp: fifo_fits_def fun_eq_iff)
next
  fix f assume "fifo_wf f"
  then show "length (fifo_list f) \<le> kf_size f" "0 < kf_size f"
    using fifo_list_length [of f] by (auto simp: fifo_wf_def fifo_shape_def)
qed

section \<open>Properties\<close>

text \<open>
  C8. A FIFO that \<open>kfifo_init\<close> set up on a large enough buffer delivers the records put into it
  in order, byte for byte and with their sizes: after any sequence of \<open>kfifo_in\<close> calls, taking
  records yields exactly the newest \<open>sz\<close> of them (all of them when there are no more), and then
  the FIFO is empty. No call touches memory outside the buffer.\<close>

theorem kfifo_roundtrip:
  assumes "0 < sz" and "0 < esize" and "esize < 65536"
    and "(if esize > 1 then 2 + esize else 1) * sz \<le> length data"
    and "\<forall>r \<in> set rs. if esize > 1 then length r \<le> esize else length r = 1"
  shows "\<exists>f1 f2. push_all kfifo_in (kfifo_init data esize sz) rs = Some f1
     \<and> pop_n kfifo_take f1 (min (length rs) sz) = Some (f2, drop (length rs - sz) rs)
     \<and> kfifo_is_empty f2"
proof -
  let ?f = "kfifo_init data esize sz"
  note i = kfifo_init_wf [OF assms(1-4)]
  have fits: "\<forall>r \<in> set rs. fifo_fits ?f r" using assms(5) by (simp add: fifo_fits_def kfifo_init_def)
  have cap: "kf_size ?f = sz" by (simp add: kfifo_init_def)
  from kf.push_all_spec [OF i(1) fits] i(2) cap obtain f1 where f1: "push_all kfifo_in ?f rs = Some f1"
    "fifo_wf f1" "fifo_list f1 = drop (length rs - sz) rs" by auto
  then have "length (fifo_list f1) = min (length rs) sz" by auto
  with kf.pop_n_spec [OF f1(2), of "min (length rs) sz"] f1 obtain f2 where
    "pop_n kfifo_take f1 (min (length rs) sz) = Some (f2, drop (length rs - sz) rs)"
    "fifo_wf f2" "fifo_list f2 = []" by auto
  with f1(1) fifo_list_length [of f2] show ?thesis by (auto simp: kfifo_is_empty_def)
qed

theorem kfifo_roundtrip_witness:
  "\<exists>f1 f2. push_all kfifo_in (kfifo_init (replicate 10 0) 3 2) [[1], [2, 3], [4, 5, 6]] = Some f1
     \<and> pop_n kfifo_take f1 (min (length [[1], [2, 3], [4, 5, 6 :: u8]]) 2)
       = Some (f2, drop (length [[1], [2, 3], [4, 5, 6 :: u8]] - 2) [[1], [2, 3], [4, 5, 6]])
     \<and> kfifo_is_empty f2"
  by (rule kfifo_roundtrip) simp_all

text \<open>
  \<open>kfifo_dma_in_finish\<close> stores the size of the record that a DMA transfer just added in the
  slot of the \<^emph>\<open>oldest\<close> record: in a FIFO that holds records and is not full, the size that a
  reader gets for the record at the front becomes the size of the one at the back.\<close>

theorem kfifo_dma_in_finish_clobbers_front:
  assumes wf: "fifo_wf f" and "kf_esize f > 1" and "0 < kf_count f" and "kf_count f < int (kf_size f)"
    and "n \<le> kf_esize f"
  shows "\<exists>f'. kfifo_dma_in_finish f n = Some f' \<and> kf_start f' = kf_start f
     \<and> kfifo_peek_len f' = Some n"
proof -
  have sh: "fifo_shape f" and st: "kf_start f < kf_size f" using wf by (auto simp: fifo_wf_def)
  have "kf_payload_size f = 2 + kf_esize f" "n < 65536" using sh assms by (auto simp: fifo_shape_def)
  moreover note slot_in_data [OF sh st]
  ultimately obtain d where d: "mem_write (kf_data f) (kf_start f * kf_payload_size f) (enc16 n) = Some d"
    by (simp add: mem_write_def)
  have "\<not> kfifo_is_full f" using assms(4) by (simp add: kfifo_is_full_def)
  with d mem_read_after_write [OF d] \<open>n < 65536\<close> assms(2) show ?thesis
    by (auto simp: kfifo_dma_in_finish_def kfifo_peek_len_def dec16_enc16 Let_def)
qed

theorem kfifo_dma_in_finish_clobbers_front_witness:
  "\<exists>f. kfifo_in (kfifo_init (replicate 10 0) 3 2) [1, 2, 3] = Some f \<and> kfifo_peek_len f = Some 3
     \<and> (\<exists>f'. kfifo_dma_in_finish f 1 = Some f' \<and> kf_start f' = kf_start f
            \<and> kfifo_peek_len f' = Some 1)"
proof -
  let ?i = "kfifo_init (replicate 10 0) 3 2"
  have i: "fifo_wf ?i" "fifo_list ?i = []" by (rule kfifo_init_wf; simp)+
  have fits: "fifo_fits ?i [1, 2, 3]" by (simp add: fifo_fits_def kfifo_init_def)
  from kfifo_in_spec [OF i(1) fits] i obtain f where f: "kfifo_in ?i [1, 2, 3] = Some f" "fifo_wf f"
    "kf_size f = 2" "kf_esize f = 3" "fifo_list f = [[1, 2, 3]]"
    by (auto simp: kfifo_init_def)
  have "kfifo_peek_len f = Some 3"
    using f(1) by (auto simp: kfifo_in_def kfifo_init_def kfifo_is_full_def mem_write_def
        kfifo_header_size_def kfifo_peek_len_def mem_read_def enc16_def dec16_def)
  moreover have "kf_count f = 1" using fifo_list_length [OF f(2)] f(5) by simp
  ultimately show ?thesis using f kfifo_dma_in_finish_clobbers_front [of f 1] by auto
qed

end
