(* ===== verification/Page.thy ===== *)
theory Page
  imports Bitops
begin

text \<open>
  The page allocator (\<^verbatim>\<open>kernel/mm/page.c\<close>), a binary buddy allocator over a page area of
  64 KB (\<^verbatim>\<open>PAGE_SIZE_SELECT == PAGE_SIZE_64K\<close>): one bitmap of free pages per order, pages
  of \<open>256 * 2 ^ order\<close> bytes. The state is the array \<^verbatim>\<open>page_bitmap\<close>; the start address of
  the area, the linker symbol \<^verbatim>\<open>_page_mem_start\<close>, is a parameter. A pointer result is an
  option, \<^const>\<open>None\<close> being \<^verbatim>\<open>NULL\<close>, inside the option that marks an access out of an array.

  The specification reads the bitmaps as a family of free indices per order and proves the
  buddy discipline on it: free pages do not overlap and no two free pages are buddies, so
  that the family is determined by the set of free 256-byte units. The operations on the
  bitmaps are then shown to implement it.
\<close>

section \<open>The code\<close>

type_synonym page_bitmap = "u32 list list"

definition PAGE_ORDER_MAX :: nat where [config]: "PAGE_ORDER_MAX = 5"
definition PAGE_SIZE_MIN :: u32 where [config]: "PAGE_SIZE_MIN = 256"

definition page_bitmap_init :: page_bitmap where
  "page_bitmap_init = [[0, 0, 0, 0, 0, 0, 0, 0], [0, 0, 0, 0], [0, 0], [0], [0], [0xff]]"

definition page_bitmap_sz :: "nat list" where
  [config]: "page_bitmap_sz = [256, 128, 64, 32, 16, 8]"

definition page_order_sz :: "nat list" where
  [config]: "page_order_sz = [256, 512, 1024, 2048, 4096, 8192]"

function size_to_page_order_from :: "nat \<Rightarrow> nat \<Rightarrow> int" where
  "size_to_page_order_from sz i =
     (if i \<le> PAGE_ORDER_MAX then
        if sz \<le> page_order_sz ! i then int i else size_to_page_order_from sz (Suc i)
      else -1)"
  by pat_completeness auto
termination
  by (relation "measure (\<lambda>(sz, i). Suc PAGE_ORDER_MAX - i)") auto

declare size_to_page_order_from.simps [simp del]

definition size_to_page_order :: "nat \<Rightarrow> int" where
  "size_to_page_order sz = size_to_page_order_from sz 0"

definition page_order_to_size :: "nat \<Rightarrow> nat" where
  "page_order_to_size order = (if order > PAGE_ORDER_MAX then 0 else page_order_sz ! order)"

definition get_page_total_size :: "u32 \<Rightarrow> u32 \<Rightarrow> u32" where
  "get_page_total_size page_mem_start page_mem_end = page_mem_end - page_mem_start"

definition order_to_page_size :: "nat \<Rightarrow> nat" where
  "order_to_page_size order = page_order_sz ! order"

text \<open>\<^verbatim>\<open>((uint8_t *) page_bitmap[i])[j]\<close>, little-endian, and \<^verbatim>\<open>__builtin_popcount\<close>.\<close>

definition bitmap_byte :: "u32 list \<Rightarrow> nat \<Rightarrow> u8" where
  "bitmap_byte m j = ucast (drop_bit (8 * (j mod 4)) (m ! (j div 4)))"

definition popcount8 :: "u8 \<Rightarrow> nat" where
  "popcount8 b = length (filter (bit b) [0..<8])"

definition get_page_total_free_size :: "page_bitmap \<Rightarrow> nat" where
  "get_page_total_free_size pb =
     (\<Sum>i\<leftarrow>[0..<Suc PAGE_ORDER_MAX].
        (\<Sum>j\<leftarrow>[0..<page_bitmap_sz ! i div 8]. popcount8 (bitmap_byte (pb ! i) j))
        * order_to_page_size i)"

definition find_first_free_page :: "page_bitmap \<Rightarrow> nat \<Rightarrow> int option" where
  "find_first_free_page pb order = do {
     page_idx \<leftarrow> find_first_bit (pb ! order) (page_bitmap_sz ! order);
     Some (if page_idx \<ge> page_bitmap_sz ! order then -1 else int page_idx)
   }"

text \<open>Updates of one of the bitmaps of the array.\<close>

definition page_set :: "page_bitmap \<Rightarrow> nat \<Rightarrow> nat \<Rightarrow> page_bitmap option" where
  "page_set pb order idx =
     (if order < length pb
      then map_option (\<lambda>m. pb[order := m]) (bitmap_set_bit (pb ! order) idx) else None)"

definition page_clear :: "page_bitmap \<Rightarrow> nat \<Rightarrow> nat \<Rightarrow> page_bitmap option" where
  "page_clear pb order idx =
     (if order < length pb
      then map_option (\<lambda>m. pb[order := m]) (bitmap_clear_bit (pb ! order) idx) else None)"

definition split_first_free_page :: "page_bitmap \<Rightarrow> nat \<Rightarrow> page_bitmap option" where
  "split_first_free_page pb order = do {
     page_idx \<leftarrow> find_first_bit (pb ! order) (page_bitmap_sz ! order);
     pb1 \<leftarrow> page_clear pb order page_idx;
     pb2 \<leftarrow> page_set pb1 (order - 1) (page_idx * 2);
     page_set pb2 (order - 1) (page_idx * 2 + 1)
   }"

definition get_buddy_index :: "nat \<Rightarrow> nat" where
  "get_buddy_index idx = (if idx mod 2 \<noteq> 0 then idx - 1 else idx + 1)"

definition page_idx_to_addr :: "u32 \<Rightarrow> nat \<Rightarrow> nat \<Rightarrow> u32" where
  "page_idx_to_addr page_mem_start idx order =
     page_mem_start + word_of_nat idx * push_bit (order + ilog2 PAGE_SIZE_MIN) 1"

definition addr_to_page_idx :: "u32 \<Rightarrow> u32 \<Rightarrow> nat \<Rightarrow> nat" where
  "addr_to_page_idx page_mem_start addr order =
     unat (drop_bit (order + ilog2 PAGE_SIZE_MIN) (addr - page_mem_start))"

text \<open>The two loops of \<^verbatim>\<open>alloc_pages\<close>: the search for an order with a free page, and the
  splitting down to the requested order.\<close>

function alloc_pages_search :: "page_bitmap \<Rightarrow> nat \<Rightarrow> nat option" where
  "alloc_pages_search pb i =
     (if i \<le> PAGE_ORDER_MAX then
        find_first_free_page pb i \<bind>
          (\<lambda>r. if r < 0 then alloc_pages_search pb (Suc i) else Some i)
      else Some i)"
  by pat_completeness auto
termination
  by (relation "measure (\<lambda>(pb, i). Suc PAGE_ORDER_MAX - i)") auto

function alloc_pages_split :: "page_bitmap \<Rightarrow> nat \<Rightarrow> nat \<Rightarrow> page_bitmap option" where
  "alloc_pages_split pb i order =
     (if i > order
      then split_first_free_page pb i \<bind> (\<lambda>pb'. alloc_pages_split pb' (i - 1) order)
      else Some pb)"
  by pat_completeness auto
termination
  by (relation "measure (\<lambda>(pb, i, order). i)") auto

declare alloc_pages_search.simps [simp del] alloc_pages_split.simps [simp del]

definition alloc_pages :: "u32 \<Rightarrow> page_bitmap \<Rightarrow> nat \<Rightarrow> (page_bitmap \<times> u32 option) option" where
  "alloc_pages page_mem_start pb order = do {
     i \<leftarrow> alloc_pages_search pb order;
     if i > PAGE_ORDER_MAX then Some (pb, None)
     else do {
       pb1 \<leftarrow> alloc_pages_split pb i order;
       page_idx \<leftarrow> find_first_bit (pb1 ! order) (page_bitmap_sz ! order);
       pb2 \<leftarrow> page_clear pb1 order page_idx;
       Some (pb2, Some (page_idx_to_addr page_mem_start page_idx order))
     }
   }"

function free_pages :: "u32 \<Rightarrow> page_bitmap \<Rightarrow> u32 \<Rightarrow> nat \<Rightarrow> page_bitmap option" where
  "free_pages page_mem_start pb addr order =
     (if order < PAGE_ORDER_MAX then
        let page_idx = addr_to_page_idx page_mem_start addr order;
            buddy_idx = get_buddy_index page_idx in
        bitmap_get_bit (pb ! order) buddy_idx \<bind> (\<lambda>free.
          if free then
            page_clear pb order buddy_idx \<bind> (\<lambda>pb'.
              free_pages page_mem_start pb'
                (addr AND NOT (push_bit (order + 1 + ilog2 PAGE_SIZE_MIN) 1 - 1)) (Suc order))
          else page_set pb order page_idx)
      else page_set pb order (addr_to_page_idx page_mem_start addr order))"
  by pat_completeness auto
termination
  by (relation "measure (\<lambda>(st, pb, addr, order). PAGE_ORDER_MAX - order)") auto

declare free_pages.simps [simp del]

section \<open>The buddy discipline\<close>

text \<open>A family \<open>F\<close> gives the free indices of each order. Page \<open>i\<close> of order \<open>o\<close> consists of the
  units \<open>u\<close> with \<open>u div 2 ^ o = i\<close>.\<close>

type_synonym page_fam = "nat \<Rightarrow> nat set"

definition page_block :: "nat \<Rightarrow> nat \<Rightarrow> nat set" where
  "page_block od i = {u. u div 2 ^ od = i}"

definition free_units :: "page_fam \<Rightarrow> nat set" where
  "free_units F = {u. \<exists>od \<le> 5. u div 2 ^ od \<in> F od}"

definition fam_disjoint :: "page_fam \<Rightarrow> bool" where
  "fam_disjoint F \<longleftrightarrow>
     (\<forall>u a b. a \<le> 5 \<longrightarrow> b \<le> 5 \<longrightarrow> u div 2 ^ a \<in> F a \<longrightarrow> u div 2 ^ b \<in> F b \<longrightarrow> a = b)"

definition no_buddies :: "page_fam \<Rightarrow> bool" where
  "no_buddies F \<longleftrightarrow> (\<forall>od < 5. \<forall>i \<in> F od. get_buddy_index i \<notin> F od)"

definition fam_wf :: "page_fam \<Rightarrow> bool" where
  "fam_wf F \<longleftrightarrow> fam_disjoint F \<and> no_buddies F"

lemma buddy_buddy [simp]: "get_buddy_index (get_buddy_index i) = i"
  by (cases "even i") (auto simp: get_buddy_index_def elim!: oddE evenE)

lemma buddy_div2 [simp]: "get_buddy_index i div 2 = i div 2"
  by (cases "even i") (auto simp: get_buddy_index_def elim!: oddE evenE)

lemma buddy_neq [simp]: "get_buddy_index i \<noteq> i"
  by (auto simp: get_buddy_index_def)

lemma same_parent_iff: "i div 2 = j div 2 \<longleftrightarrow> i = j \<or> i = get_buddy_index j"
  by (cases "even i"; cases "even j") (auto simp: get_buddy_index_def elim!: oddE evenE)

lemma div_Suc_pow: "(u :: nat) div 2 ^ Suc od = u div 2 ^ od div 2"
  by (simp only: power_Suc2 div_mult2_eq)

lemma div_pow_mono_eq:
  fixes u v :: nat
  assumes "u div 2 ^ a = v div 2 ^ a" and "a \<le> b"
  shows "u div 2 ^ b = v div 2 ^ b"
  using assms(2,1) by (induction rule: dec_induct) (simp_all add: div_Suc_pow del: power_Suc)

lemma page_block_split: "page_block (Suc od) (i div 2) = page_block od i \<union> page_block od (get_buddy_index i)"
  by (auto simp: page_block_def div_Suc_pow same_parent_iff simp del: power_Suc)

lemma page_block_children: "page_block (Suc od) j = page_block od (2 * j) \<union> page_block od (2 * j + 1)"
  using page_block_split [of od "2 * j"] by (simp add: get_buddy_index_def)

lemma page_block_nonempty: "i * 2 ^ od \<in> page_block od i"
  by (simp add: page_block_def)

lemma page_block_disjoint: "i \<noteq> j \<Longrightarrow> page_block od i \<inter> page_block od j = {}"
  by (auto simp: page_block_def)

lemma free_units_block: "od \<le> 5 \<Longrightarrow> i \<in> F od \<Longrightarrow> page_block od i \<subseteq> free_units F"
  by (auto simp: page_block_def free_units_def)

lemma fam_disjointD:
  "fam_disjoint F \<Longrightarrow> a \<le> 5 \<Longrightarrow> b \<le> 5 \<Longrightarrow> u div 2 ^ a \<in> F a \<Longrightarrow> u div 2 ^ b \<in> F b \<Longrightarrow> a = b"
  by (auto simp: fam_disjoint_def)

text \<open>In a family without free buddies no page can be covered by smaller free pages alone.\<close>

lemma not_covered_below:
  assumes "no_buddies F" and "od \<le> 5"
    and "\<forall>u \<in> page_block od j. \<exists>a < od. u div 2 ^ a \<in> F a"
  shows False
  using assms(2,3)
proof (induction "od" arbitrary: j)
  case 0
  then show ?case using page_block_nonempty by blast
next
  case (Suc od)
  have child: "c \<in> F od" if "c = 2 * j \<or> c = 2 * j + 1" for c
  proof (rule ccontr)
    assume c: "c \<notin> F od"
    have "\<exists>a < od. u div 2 ^ a \<in> F a" if u: "u \<in> page_block od c" for u
    proof -
      have "u \<in> page_block (Suc od) j" using u \<open>c = _ \<or> _\<close> by (auto simp: page_block_children)
      then obtain a where "a < Suc od" "u div 2 ^ a \<in> F a" using Suc.prems(2) by blast
      moreover from this c u have "a \<noteq> od" by (auto simp: page_block_def)
      ultimately show ?thesis using less_Suc_eq by blast
    qed
    then show False using Suc.IH [of c] Suc.prems(1) by auto
  qed
  have "2 * j \<in> F od" "2 * j + 1 \<in> F od" by (rule child; simp)+
  moreover have "get_buddy_index (2 * j) = 2 * j + 1" by (simp add: get_buddy_index_def)
  moreover have "od < 5" using Suc.prems(1) by simp
  ultimately show False using assms(1) unfolding no_buddies_def by metis
qed

text \<open>The free pages are the maximal aligned blocks of free units.\<close>

lemma fam_wf_iff:
  assumes wf: "fam_wf F" and od: "od \<le> 5"
  shows "i \<in> F od \<longleftrightarrow> page_block od i \<subseteq> free_units F
            \<and> (od = 5 \<or> \<not> page_block (Suc od) (i div 2) \<subseteq> free_units F)"
proof -
  have nb: "no_buddies F" and dj: "fam_disjoint F" using wf by (auto simp: fam_wf_def)
  have covered: "j \<in> F od \<or> (od < 5 \<and> (\<exists>a. od < a \<and> a \<le> 5 \<and> (\<exists>u \<in> page_block od j. u div 2 ^ a \<in> F a)))"
    if "page_block od j \<subseteq> free_units F" for j
  proof (rule ccontr)
    assume n: "\<not> ?thesis"
    have "\<exists>a < od. u div 2 ^ a \<in> F a" if u: "u \<in> page_block od j" for u
    proof -
      obtain a where a: "a \<le> 5" "u div 2 ^ a \<in> F a"
        using u \<open>page_block od j \<subseteq> _\<close> by (auto simp: free_units_def)
      moreover have "a \<noteq> od" using a u n by (auto simp: page_block_def)
      moreover have "\<not> od < a" using a u n od by auto
      ultimately show ?thesis by (meson linorder_neqE_nat)
    qed
    then show False using not_covered_below [OF nb od] by blast
  qed
  have parent: "page_block (Suc od) (j div 2) \<subseteq> free_units F"
    if "od < a" "a \<le> 5" "u \<in> page_block od j" "u div 2 ^ a \<in> F a" for a u j
  proof
    fix v assume "v \<in> page_block (Suc od) (j div 2)"
    moreover have "u div 2 ^ od = j" using that(3) by (simp only: page_block_def mem_Collect_eq)
    ultimately have "v div 2 ^ Suc od = u div 2 ^ Suc od"
      by (simp only: page_block_def div_Suc_pow [of u] mem_Collect_eq)
    then have "v div 2 ^ a = u div 2 ^ a" by (rule div_pow_mono_eq) (use that(1) in simp)
    then show "v \<in> free_units F"
      unfolding free_units_def using that(2,4) by (metis (mono_tags, lifting) mem_Collect_eq)
  qed
  show ?thesis
  proof
    assume i: "i \<in> F od"
    have "od = 5" if par: "page_block (Suc od) (i div 2) \<subseteq> free_units F"
    proof (rule ccontr)
      assume "od \<noteq> 5"
      with od have lt: "od < 5" by simp
      let ?j = "get_buddy_index i"
      have "?j \<notin> F od" using nb i lt by (auto simp: no_buddies_def)
      then obtain a u where a: "od < a" "a \<le> 5" "u \<in> page_block od ?j" "u div 2 ^ a \<in> F a"
        using covered [of ?j] par by (auto simp: page_block_split)
      have "(i * 2 ^ od) div 2 ^ Suc od = u div 2 ^ Suc od"
        using a(3) unfolding page_block_def div_Suc_pow mem_Collect_eq by simp
      then have "(i * 2 ^ od) div 2 ^ a = u div 2 ^ a" by (rule div_pow_mono_eq) (use a(1) in simp)
      then have "od = a" using fam_disjointD [OF dj od a(2), of "i * 2 ^ od"] i a(4) by simp
      with a(1) show False by simp
    qed
    with i od free_units_block show "page_block od i \<subseteq> free_units F
            \<and> (od = 5 \<or> \<not> page_block (Suc od) (i div 2) \<subseteq> free_units F)" by blast
  next
    assume "page_block od i \<subseteq> free_units F
            \<and> (od = 5 \<or> \<not> page_block (Suc od) (i div 2) \<subseteq> free_units F)"
    then show "i \<in> F od" using covered [of i] parent by (meson nat_neq_iff)
  qed
qed

lemma fam_wf_unique:
  assumes "fam_wf F" and "fam_wf G" and "free_units F = free_units G" and "od \<le> 5"
  shows "F od = G od"
  using fam_wf_iff [OF assms(1,4)] fam_wf_iff [OF assms(2,4)] assms(3) by auto

section \<open>Allocation and release of the family\<close>

definition fam_split :: "page_fam \<Rightarrow> nat \<Rightarrow> page_fam" where
  "fam_split F i = (let m = Min (F i) in
     F(i := F i - {m}, i - 1 := F (i - 1) \<union> {2 * m, 2 * m + 1}))"

function fam_release :: "page_fam \<Rightarrow> nat \<Rightarrow> nat \<Rightarrow> page_fam" where
  "fam_release F od i =
     (if od < 5 \<and> get_buddy_index i \<in> F od
      then fam_release (F(od := F od - {get_buddy_index i})) (Suc od) (i div 2)
      else F(od := insert i (F od)))"
  by pat_completeness auto
termination
  by (relation "measure (\<lambda>(F, od, i). 5 - od)") auto

declare fam_release.simps [simp del]

text \<open>Before a split, the order at hand has a page, and it is the only page that may have a
  free buddy.\<close>

definition split_ready :: "page_fam \<Rightarrow> nat \<Rightarrow> bool" where
  "split_ready F i \<longleftrightarrow> fam_disjoint F \<and> finite (F i) \<and> F i \<noteq> {} \<and> no_buddies (F(i := F i - {Min (F i)}))"

lemma no_buddies_remove: "no_buddies F \<Longrightarrow> no_buddies (F(od := F od - A))"
  by (auto simp: no_buddies_def)

lemma no_buddies_single: "no_buddies F \<Longrightarrow> no_buddies (F(od := {i}))"
  by (auto simp: no_buddies_def)

lemma fam_disjoint_remove: "fam_disjoint F \<Longrightarrow> fam_disjoint (F(od := F od - A))"
  unfolding fam_disjoint_def by (metis (mono_tags, lifting) Diff_iff fun_upd_apply)

lemma free_units_remove:
  assumes "fam_disjoint F" and "i \<in> F od" and "od \<le> 5"
  shows "free_units (F(od := F od - {i})) = free_units F - page_block od i"
proof (rule set_eqI)
  fix u
  have "a = od" if "a \<le> 5" "u div 2 ^ a \<in> F a" "u \<in> page_block od i" for a
    using fam_disjointD [OF assms(1) that(1) assms(3) that(2)] assms(2) that(3)
    by (simp add: page_block_def)
  then show "u \<in> free_units (F(od := F od - {i})) \<longleftrightarrow> u \<in> free_units F - page_block od i"
    by (auto simp: free_units_def page_block_def split: if_splits)
qed

lemma fam_split_units:
  assumes "fam_disjoint F" and "finite (F i)" and "F i \<noteq> {}" and "0 < i" and "i \<le> 5"
  shows "free_units (fam_split F i) = free_units F"
proof -
  obtain k where k: "i = Suc k" using assms(4) gr0_implies_Suc by blast
  define m where "m = Min (F i)"
  have m: "m \<in> F i" using assms by (simp add: m_def)
  let ?G = "F(i := F i - {m})"
  have G: "fam_split F i = ?G(k := ?G k \<union> {2 * m, 2 * m + 1})"
    by (simp add: fam_split_def m_def Let_def k)
  have add: "free_units (H(k := H k \<union> {2 * m, 2 * m + 1}))
      = free_units H \<union> page_block k (2 * m) \<union> page_block k (2 * m + 1)" for H
    using assms(5) k by (auto simp: free_units_def page_block_def)
  have "free_units (fam_split F i) = free_units ?G \<union> page_block i m"
    by (simp only: G add) (simp only: k page_block_children Un_assoc)
  then show ?thesis using free_units_remove [OF assms(1) m assms(5)] free_units_block [of i m F] m assms(5)
    by auto
qed

lemma split_ready_step:
  assumes r: "split_ready F i" and i: "0 < i" "i \<le> 5" and e: "F (i - 1) = {}"
  shows "split_ready (fam_split F i) (i - 1)"
proof -
  obtain k where k: "i = Suc k" using i(1) gr0_implies_Suc by blast
  define m where "m = Min (F i)"
  let ?G = "fam_split F i"
  have G: "?G = F(i := F i - {m}, k := {2 * m, 2 * m + 1})"
    using e by (simp add: fam_split_def m_def Let_def k)
  have dj: "fam_disjoint F" and m: "m \<in> F i" and nb: "no_buddies (F(i := F i - {m}))"
    using r by (auto simp: split_ready_def m_def)
  have "a = b" if ab: "a \<le> 5" "b \<le> 5" "u div 2 ^ a \<in> ?G a" "u div 2 ^ b \<in> ?G b" for u a b
  proof -
    have up: "c = k \<or> (c \<noteq> k \<and> u div 2 ^ c \<in> F c \<and> \<not> (c = i \<and> u div 2 ^ i = m))" if "u div 2 ^ c \<in> ?G c" for c
      using that unfolding G using k by (auto split: if_splits)
    have kk: "u div 2 ^ i = m" if "u div 2 ^ k \<in> ?G k"
    proof -
      have "u div 2 ^ k = 2 * m \<or> u div 2 ^ k = 2 * m + 1" using that by (simp add: G)
      then show ?thesis unfolding k div_Suc_pow by auto
    qed
    have cover: "c = k" if "u div 2 ^ k \<in> ?G k" "c \<le> 5" "u div 2 ^ c \<in> ?G c" for c
      using up [OF that(3)] kk [OF that(1)] fam_disjointD [OF dj that(2) i(2), of u] m by auto
    show ?thesis
      using up [OF ab(3)] up [OF ab(4)] cover ab fam_disjointD [OF dj ab(1,2), of u] by metis
  qed
  then have "fam_disjoint ?G" by (auto simp: fam_disjoint_def)
  moreover have "Min (?G k) = 2 * m" by (simp add: G)
  moreover have "no_buddies (?G(k := {2 * m + 1}))"
    using no_buddies_single [OF nb, of k "2 * m + 1"] by (simp add: G)
  moreover have "?G k - {2 * m} = {2 * m + 1}" by (auto simp: G)
  moreover have "?G k = {2 * m, 2 * m + 1}" by (simp add: G)
  ultimately show ?thesis by (simp add: split_ready_def k)
qed

lemma split_ready_alloc:
  assumes "split_ready F od" and "od \<le> 5"
  defines "i \<equiv> Min (F od)" and "G \<equiv> F(od := F od - {Min (F od)})"
  shows "fam_wf G" and "free_units G = free_units F - page_block od i" and "i \<in> F od"
proof -
  show i: "i \<in> F od" using assms by (simp add: split_ready_def i_def)
  show "fam_wf G" using assms by (auto simp: fam_wf_def G_def split_ready_def fam_disjoint_remove)
  show "free_units G = free_units F - page_block od i"
    using free_units_remove [of F i od] i assms by (simp add: G_def i_def split_ready_def)
qed

lemma split_ready_init: "fam_wf F \<Longrightarrow> finite (F k) \<Longrightarrow> F k \<noteq> {} \<Longrightarrow> split_ready F k"
  by (auto simp: split_ready_def fam_wf_def no_buddies_remove)

lemma fam_release_wf:
  assumes "fam_wf F" and "od \<le> 5" and "page_block od i \<inter> free_units F = {}"
  shows "fam_wf (fam_release F od i) \<and> free_units (fam_release F od i) = free_units F \<union> page_block od i"
  using assms
proof (induction F od i rule: fam_release.induct)
  case (1 F od i)
  let ?b = "get_buddy_index i"
  have dj: "fam_disjoint F" and nb: "no_buddies F" using "1.prems"(1) by (auto simp: fam_wf_def)
  show ?case
  proof (cases "od < 5 \<and> ?b \<in> F od")
    case True
    let ?G = "F(od := F od - {?b})"
    have u: "free_units ?G = free_units F - page_block od ?b"
      using True "1.prems"(2) dj by (intro free_units_remove) auto
    have "page_block (Suc od) (i div 2) \<inter> free_units ?G = {}"
      using "1.prems"(3) by (auto simp: u page_block_split)
    moreover have "fam_wf ?G" using dj nb by (simp add: fam_wf_def fam_disjoint_remove no_buddies_remove)
    ultimately have "fam_wf (fam_release ?G (Suc od) (i div 2))
       \<and> free_units (fam_release ?G (Suc od) (i div 2)) = free_units ?G \<union> page_block (Suc od) (i div 2)"
      using "1.IH" [OF True] True by (simp only: Suc_le_eq simp_thms)
    moreover have "page_block od ?b \<subseteq> free_units F"
      using True free_units_block [of od ?b F] by auto
    ultimately show ?thesis using True
      by (auto simp: fam_release.simps [of F od i] u page_block_split)
  next
    case False
    let ?G = "F(od := insert i (F od))"
    have units: "free_units ?G = free_units F \<union> page_block od i"
      using "1.prems"(2) by (auto simp: free_units_def page_block_def)
    have own: "u \<notin> free_units F" if "u div 2 ^ od = i" for u
      using "1.prems"(3) that by (auto simp: page_block_def)
    have "a = b" if ab: "a \<le> 5" "b \<le> 5" "u div 2 ^ a \<in> ?G a" "u div 2 ^ b \<in> ?G b" for u a b
    proof -
      have up: "u div 2 ^ c \<in> F c \<or> (c = od \<and> u div 2 ^ od = i)" if "u div 2 ^ c \<in> ?G c" for c
        using that by (auto split: if_splits)
      have "u div 2 ^ c \<notin> F c" if "u div 2 ^ od = i" "c \<le> 5" for c
        using own [OF that(1)] that(2) by (auto simp: free_units_def)
      then show ?thesis using up [OF ab(3)] up [OF ab(4)] ab(1,2) fam_disjointD [OF dj ab(1,2), of u]
        by metis
    qed
    then have "fam_disjoint ?G" by (auto simp: fam_disjoint_def)
    moreover have "no_buddies ?G"
      unfolding no_buddies_def
    proof (intro allI impI ballI)
      fix k j assume k: "k < 5" and j: "j \<in> ?G k"
      show "get_buddy_index j \<notin> ?G k"
        using nb k j False by (auto simp: no_buddies_def split: if_splits)
    qed
    moreover have "fam_release F od i = ?G" using False by (subst fam_release.simps) (simp only: if_False)
    ultimately show ?thesis using units by (simp only: fam_wf_def simp_thms)
  qed
qed

section \<open>The bitmaps implement the family\<close>

definition page_words :: "nat list" where
  [config]: "page_words = [8, 4, 2, 1, 1, 1]"

definition page_shape :: "page_bitmap \<Rightarrow> bool" where
  "page_shape pb \<longleftrightarrow> length pb = 6 \<and>
     (\<forall>od \<le> 5. length (pb ! od) = page_words ! od
        \<and> (\<forall>i. bm_bit (pb ! od) i \<longrightarrow> i < page_bitmap_sz ! od))"

definition fam :: "page_bitmap \<Rightarrow> page_fam" where
  "fam pb od = (if od < length pb then bm_set (pb ! od) else {})"

definition page_wf :: "page_bitmap \<Rightarrow> bool" where
  "page_wf pb \<longleftrightarrow> page_shape pb \<and> fam_wf (fam pb)"

lemma order_cases:
  assumes "(od :: nat) \<le> 5"
  obtains "od = 0" | "od = 1" | "od = 2" | "od = 3" | "od = 4" | "od = 5"
  using assms by force

lemma page_bitmap_sz_eq: "od \<le> 5 \<Longrightarrow> page_bitmap_sz ! od = 2 ^ (8 - od)"
  by (erule order_cases) (simp_all add: page_bitmap_sz_def)

lemma page_words_ge: "od \<le> 5 \<Longrightarrow> 2 ^ (8 - od) \<le> 32 * page_words ! od"
  by (erule order_cases) (simp_all add: page_words_def)

lemma page_order_sz_eq: "od \<le> 5 \<Longrightarrow> page_order_sz ! od = 256 * 2 ^ od"
  by (erule order_cases) (simp_all add: page_order_sz_def)

lemma page_shapeD:
  assumes "page_shape pb" and "od \<le> 5"
  shows "length pb = 6" "length (pb ! od) = page_words ! od" "fam pb od = bm_set (pb ! od)"
    "finite (fam pb od)" "i \<in> fam pb od \<Longrightarrow> i < 2 ^ (8 - od)"
  using assms by (auto simp: page_shape_def fam_def page_bitmap_sz_eq)

lemma fam_inject:
  assumes "page_shape pb" and "page_shape pb'" and "\<And>od. od \<le> 5 \<Longrightarrow> fam pb od = fam pb' od"
  shows "pb = pb'"
proof (rule nth_equalityI)
  fix od assume "od < length pb"
  then have od: "od \<le> 5" using assms(1) by (simp add: page_shape_def)
  note a = page_shapeD [OF assms(1) od] and b = page_shapeD [OF assms(2) od]
  from assms(3) [OF od] a(2,3) b(2,3) show "pb ! od = pb' ! od" by (intro bm_set_inject) auto
qed (use assms in \<open>simp add: page_shape_def\<close>)

lemma page_shape_update:
  assumes "page_shape pb" and "od \<le> 5" and "length m = length (pb ! od)"
    and "bm_set m \<subseteq> {..<2 ^ (8 - od)}"
  shows "page_shape (pb[od := m])" and "fam (pb[od := m]) = (fam pb)(od := bm_set m)"
proof -
  have l: "length pb = 6" using assms(1) by (simp add: page_shape_def)
  have "i < page_bitmap_sz ! od" if "bm_bit m i" for i
    using assms(2,4) that by (auto simp: page_bitmap_sz_eq)
  then show "page_shape (pb[od := m])" using assms(1-3) l
    by (auto simp: page_shape_def nth_list_update)
  show "fam (pb[od := m]) = (fam pb)(od := bm_set m)"
    using assms(2) l by (auto simp: fam_def fun_eq_iff nth_list_update)
qed

lemma page_set_spec:
  assumes "page_shape pb" and "od \<le> 5" and "i < 2 ^ (8 - od)"
  shows "\<exists>pb'. page_set pb od i = Some pb' \<and> page_shape pb'
            \<and> fam pb' = (fam pb)(od := insert i (fam pb od))"
proof -
  note sh = page_shapeD [OF assms(1,2)]
  have "i < 32 * length (pb ! od)" using sh(2) page_words_ge [OF assms(2)] assms(3) by simp
  from bitmap_set_bit_Some [OF this] obtain m where m: "bitmap_set_bit (pb ! od) i = Some m"
    "length m = length (pb ! od)" "bm_set m = insert i (bm_set (pb ! od))" by auto
  have "bm_set m \<subseteq> {..<2 ^ (8 - od)}" using m(3) sh(3,5) assms(3) by auto
  from page_shape_update [OF assms(1,2) m(2) this] m sh show ?thesis
    using assms(2) by (simp add: page_set_def)
qed

lemma page_clear_spec:
  assumes "page_shape pb" and "od \<le> 5" and "i < 2 ^ (8 - od)"
  shows "\<exists>pb'. page_clear pb od i = Some pb' \<and> page_shape pb'
            \<and> fam pb' = (fam pb)(od := fam pb od - {i})"
proof -
  note sh = page_shapeD [OF assms(1,2)]
  have "i < 32 * length (pb ! od)" using sh(2) page_words_ge [OF assms(2)] assms(3) by simp
  from bitmap_clear_bit_Some [OF this] obtain m where m: "bitmap_clear_bit (pb ! od) i = Some m"
    "length m = length (pb ! od)" "bm_set m = bm_set (pb ! od) - {i}" by auto
  have "bm_set m \<subseteq> {..<2 ^ (8 - od)}" using m(3) sh(3,5) by auto
  from page_shape_update [OF assms(1,2) m(2) this] m sh show ?thesis
    using assms(2) by (simp add: page_clear_def)
qed

lemma find_first_bit_fam:
  assumes "page_shape pb" and "od \<le> 5"
  shows "find_first_bit (pb ! od) (page_bitmap_sz ! od)
       = Some (if fam pb od = {} then 2 ^ (8 - od) else Min (fam pb od))"
proof -
  note sh = page_shapeD [OF assms]
  have "page_bitmap_sz ! od \<le> 32 * length (pb ! od)"
    using page_words_ge [OF assms(2)] by (simp add: sh page_bitmap_sz_eq [OF assms(2)])
  from find_first_bit_spec [OF this] obtain r where
    r: "find_first_bit (pb ! od) (page_bitmap_sz ! od) = Some r" "r \<le> 2 ^ (8 - od)"
      "r < 2 ^ (8 - od) \<longrightarrow> r \<in> fam pb od" "\<forall>b < r. b \<notin> fam pb od"
    by (auto simp: page_bitmap_sz_eq assms sh)
  show ?thesis
  proof (cases "fam pb od = {}")
    case True
    with r show ?thesis by auto
  next
    case False
    then have "Min (fam pb od) \<in> fam pb od" using sh(4) by simp
    then have "r \<in> fam pb od" using r sh(5) by (metis not_less_iff_gr_or_eq order_le_less)
    then have "r = Min (fam pb od)"
      using r(4) sh(4) \<open>Min _ \<in> _\<close> by (metis Min_le linorder_not_le order_antisym)
    with r False show ?thesis by simp
  qed
qed

lemma split_first_free_page_spec:
  assumes sh: "page_shape pb" and i: "0 < i" "i \<le> 5" and ne: "fam pb i \<noteq> {}"
  shows "\<exists>pb'. split_first_free_page pb i = Some pb' \<and> page_shape pb' \<and> fam pb' = fam_split (fam pb) i"
proof -
  obtain k where k: "i = Suc k" using i(1) gr0_implies_Suc by blast
  define m where "m = Min (fam pb i)"
  have m: "m < 2 ^ (8 - i)" using page_shapeD(4,5) [OF sh i(2)] ne by (simp add: m_def)
  have pw: "2 * 2 ^ (8 - i) = (2 :: nat) ^ (8 - k)" using i(2) by (simp add: k Suc_diff_le flip: power_Suc)
  with m have m': "2 * m + 1 < 2 ^ (8 - k)" by linarith
  from page_clear_spec [OF sh i(2) m] obtain p1 where p1: "page_clear pb i m = Some p1" "page_shape p1"
    "fam p1 = (fam pb)(i := fam pb i - {m})" by auto
  from page_set_spec [OF p1(2), of k "2 * m"] m' k i obtain p2 where
    p2: "page_set p1 k (2 * m) = Some p2" "page_shape p2"
      "fam p2 = (fam p1)(k := insert (2 * m) (fam p1 k))" by auto
  from page_set_spec [OF p2(2), of k "2 * m + 1"] m' k i obtain p3 where
    p3: "page_set p2 k (2 * m + 1) = Some p3" "page_shape p3"
      "fam p3 = (fam p2)(k := insert (2 * m + 1) (fam p2 k))" by auto
  have "split_first_free_page pb i = Some p3"
    unfolding split_first_free_page_def find_first_bit_fam [OF sh i(2)] m_def [symmetric]
    using p1(1) p2(1) p3(1) ne k by (simp add: mult.commute)
  moreover have "fam p3 = fam_split (fam pb) i"
    unfolding p3(3) p2(3) p1(3) fam_split_def Let_def m_def [symmetric] using k by (auto simp: fun_eq_iff)
  ultimately show ?thesis using p3(2) by blast
qed

lemma alloc_pages_split_spec:
  assumes "page_shape pb" and "split_ready (fam pb) i" and "od \<le> i" and "i \<le> 5"
    and "\<forall>j. od \<le> j \<and> j < i \<longrightarrow> fam pb j = {}"
  shows "\<exists>pb'. alloc_pages_split pb i od = Some pb' \<and> page_shape pb' \<and> split_ready (fam pb') od
     \<and> free_units (fam pb') = free_units (fam pb)"
  using assms
proof (induction pb i od rule: alloc_pages_split.induct)
  case (1 pb i od)
  show ?case
  proof (cases "od < i")
    case False
    then have "i = od" using "1.prems"(3) by simp
    with "1.prems" show ?thesis by (simp add: alloc_pages_split.simps)
  next
    case True
    then have i: "0 < i" by simp
    have r: "fam_disjoint (fam pb)" "finite (fam pb i)" "fam pb i \<noteq> {}"
      using "1.prems"(2) by (auto simp: split_ready_def)
    from split_first_free_page_spec [OF "1.prems"(1) i "1.prems"(4) r(3)] obtain p1 where
      p1: "split_first_free_page pb i = Some p1" "page_shape p1" "fam p1 = fam_split (fam pb) i" by auto
    have e: "fam pb (i - 1) = {}" using "1.prems"(5) True by auto
    have "split_ready (fam p1) (i - 1)"
      unfolding p1(3) by (rule split_ready_step [OF "1.prems"(2) i "1.prems"(4) e])
    moreover have "\<forall>j. od \<le> j \<and> j < i - 1 \<longrightarrow> fam p1 j = {}"
      using "1.prems"(5) by (auto simp: p1(3) fam_split_def Let_def)
    moreover have "od \<le> i - 1" "i - 1 \<le> 5" using True "1.prems"(4) by auto
    ultimately obtain pb' where "alloc_pages_split p1 (i - 1) od = Some pb'" "page_shape pb'"
      "split_ready (fam pb') od" "free_units (fam pb') = free_units (fam p1)"
      using "1.IH" [OF True p1(1) p1(2)] by blast
    moreover have "free_units (fam p1) = free_units (fam pb)"
      unfolding p1(3) by (rule fam_split_units [OF r i "1.prems"(4)])
    ultimately show ?thesis using p1(1) True by (auto simp: alloc_pages_split.simps [of pb i od])
  qed
qed

lemma alloc_pages_search_spec:
  assumes "page_shape pb"
  shows "\<exists>k. alloc_pages_search pb i = Some k \<and> i \<le> k \<and> (\<forall>j. i \<le> j \<and> j < k \<longrightarrow> fam pb j = {})
     \<and> (k \<le> 5 \<longrightarrow> fam pb k \<noteq> {})"
  using assms
proof (induction pb i rule: alloc_pages_search.induct)
  case (1 pb i)
  show ?case
  proof (cases "i \<le> 5")
    case False
    then show ?thesis by (auto simp: alloc_pages_search.simps PAGE_ORDER_MAX_def)
  next
    case True
    note sh = page_shapeD [OF "1.prems" True]
    have f: "find_first_free_page pb i = Some (if fam pb i = {} then -1 else int (Min (fam pb i)))"
      unfolding find_first_free_page_def find_first_bit_fam [OF "1.prems" True]
      using sh(5) [OF Min_in [OF sh(4)]]
      by (cases "fam pb i = {}") (simp_all add: page_bitmap_sz_eq [OF True] not_le)
    show ?thesis
    proof (cases "fam pb i = {}")
      case False
      with True f show ?thesis by (auto simp: alloc_pages_search.simps [of pb i] PAGE_ORDER_MAX_def)
    next
      case e: True
      then obtain k where k: "alloc_pages_search pb (Suc i) = Some k" "Suc i \<le> k"
        "\<forall>j. Suc i \<le> j \<and> j < k \<longrightarrow> fam pb j = {}" "k \<le> 5 \<longrightarrow> fam pb k \<noteq> {}"
        using "1.IH" [of "-1"] True f "1.prems" by (auto simp: PAGE_ORDER_MAX_def)
      have "fam pb j = {}" if "i \<le> j" "j < k" for j
        using that e k(3) by (cases "i = j") auto
      with k True f e show ?thesis by (auto simp: alloc_pages_search.simps [of pb i] PAGE_ORDER_MAX_def)
    qed
  qed
qed

lemma alloc_pages_spec:
  assumes wf: "page_wf pb"
  shows "(\<forall>j. od \<le> j \<and> j \<le> 5 \<longrightarrow> fam pb j = {}) \<and> alloc_pages st pb od = Some (pb, None)
     \<or> od \<le> 5 \<and> (\<exists>pb' i. alloc_pages st pb od = Some (pb', Some (page_idx_to_addr st i od))
         \<and> page_wf pb' \<and> i < 2 ^ (8 - od) \<and> page_block od i \<subseteq> free_units (fam pb)
         \<and> free_units (fam pb') = free_units (fam pb) - page_block od i)"
proof -
  have sh: "page_shape pb" and fw: "fam_wf (fam pb)" using wf by (auto simp: page_wf_def)
  from alloc_pages_search_spec [OF sh, of od] obtain k where k: "alloc_pages_search pb od = Some k"
    "od \<le> k" "\<forall>j. od \<le> j \<and> j < k \<longrightarrow> fam pb j = {}" "k \<le> 5 \<longrightarrow> fam pb k \<noteq> {}" by auto
  show ?thesis
  proof (cases "k \<le> 5")
    case False
    with k show ?thesis by (auto simp: alloc_pages_def PAGE_ORDER_MAX_def)
  next
    case True
    with k(2) have od: "od \<le> 5" by simp
    have "split_ready (fam pb) k"
      using split_ready_init [OF fw] page_shapeD(4) [OF sh True] k(4) True by simp
    from alloc_pages_split_spec [OF sh this k(2) True k(3)] obtain p1 where p1:
      "alloc_pages_split pb k od = Some p1" "page_shape p1" "split_ready (fam p1) od"
      "free_units (fam p1) = free_units (fam pb)" by auto
    note ra = split_ready_alloc [OF p1(3) od]
    let ?i = "Min (fam p1 od)"
    have ne: "fam p1 od \<noteq> {}" using ra(3) by auto
    have lt: "?i < 2 ^ (8 - od)" using page_shapeD(5) [OF p1(2) od] ra(3) by auto
    from page_clear_spec [OF p1(2) od lt] obtain p2 where p2: "page_clear p1 od ?i = Some p2"
      "page_shape p2" "fam p2 = (fam p1)(od := fam p1 od - {?i})" by auto
    have "alloc_pages st pb od = Some (p2, Some (page_idx_to_addr st ?i od))"
      using k(1) True p1(1) p2(1) ne
      by (simp add: alloc_pages_def PAGE_ORDER_MAX_def find_first_bit_fam [OF p1(2) od])
    moreover have "page_wf p2" using ra(1) p2 by (simp only: page_wf_def simp_thms)
    moreover have "free_units (fam p2) = free_units (fam pb) - page_block od ?i"
      using ra(2) p1(4) p2(3) by simp
    moreover have "page_block od ?i \<subseteq> free_units (fam pb)"
      using free_units_block [of od ?i "fam p1"] od ra(3) p1(4) by simp
    ultimately show ?thesis using od lt by blast
  qed
qed

subsection \<open>Addresses\<close>

text \<open>The page area is aligned to the largest page and does not wrap around. The code relies on the alignment, since
  \<open>free_pages\<close> masks absolute addresses; the linker scripts only align the area to four bytes. The properties below state
  the alignment where they need it, and that it is needed.\<close>

definition page_mem_ok :: "u32 \<Rightarrow> bool" where
  "page_mem_ok st \<longleftrightarrow> unat st mod 8192 = 0 \<and> unat st + 65536 \<le> 2 ^ 32"

lemma ilog2_PAGE_SIZE_MIN [simp]: "ilog2 PAGE_SIZE_MIN = 8"
  by code_simp

lemma block_bytes:
  assumes "od \<le> 5" and "i < 2 ^ (8 - od)"
  shows "i * 2 ^ (od + 8) + 2 ^ (od + 8) \<le> (65536 :: nat)"
proof -
  have "Suc i * 2 ^ (od + 8) \<le> 2 ^ (8 - od) * 2 ^ (od + 8)" using assms(2) by (intro mult_le_mono1) simp
  also have "\<dots> = (2 :: nat) ^ (8 - od + (od + 8))" by (simp only: power_add)
  also have "8 - od + (od + 8) = 16" using assms(1) by simp
  finally show ?thesis by simp
qed

lemma unat_page_idx_to_addr:
  assumes "page_mem_ok st" and "od \<le> 5" and "i < 2 ^ (8 - od)"
  shows "unat (page_idx_to_addr st i od) = unat st + i * 2 ^ (od + 8)"
proof -
  let ?b = "i * 2 ^ (od + 8)"
  have b: "?b < 65536"
    using block_bytes [OF assms(2,3)] by (rule less_le_trans [rotated]) simp
  have "page_idx_to_addr st i od = st + word_of_nat ?b"
    by (simp add: page_idx_to_addr_def)
  moreover have "unat (word_of_nat ?b :: u32) = ?b" using b by (simp only: unat_of_nat) simp
  moreover have "unat st + ?b < 2 ^ 32" using assms(1) b by (simp add: page_mem_ok_def)
  ultimately show ?thesis using unat_word_ariths(1) [of st "word_of_nat ?b"] by simp
qed

lemma addr_to_page_idx_inverse:
  assumes "page_mem_ok st" and "od \<le> 5" and "i < 2 ^ (8 - od)"
  shows "addr_to_page_idx st (page_idx_to_addr st i od) od = i"
proof -
  let ?a = "page_idx_to_addr st i od"
  have "st \<le> ?a" by (simp add: word_le_nat_alt unat_page_idx_to_addr [OF assms])
  then have "unat (?a - st) = i * 2 ^ (od + 8)"
    by (simp add: unat_sub unat_page_idx_to_addr [OF assms])
  moreover have "unat (drop_bit (od + 8) (?a - st)) = unat (?a - st) div 2 ^ (od + 8)"
    by (simp only: unat_drop_bit_eq) (simp only: drop_bit_eq_div)
  ultimately show ?thesis by (simp add: addr_to_page_idx_def)
qed

lemma page_addr_parent:
  assumes "page_mem_ok st" and "od < 5" and "i < 2 ^ (8 - od)"
  shows "page_idx_to_addr st i od AND NOT (push_bit (od + 1 + 8) 1 - 1)
       = page_idx_to_addr st (i div 2) (Suc od)" and "i div 2 < 2 ^ (8 - Suc od)"
proof -
  have pw: "(2 :: nat) ^ (8 - od) = 2 * 2 ^ (8 - Suc od)"
    using assms(2) by (simp add: Suc_diff_Suc flip: power_Suc)
  then show lt: "i div 2 < 2 ^ (8 - Suc od)" using assms(3) by linarith
  let ?n = "od + 9" and ?a = "page_idx_to_addr st i od"
  have mask: "push_bit (od + 1 + 8) 1 - 1 = (mask ?n :: u32)"
    by (simp add: mask_eq_exp_minus_1 add.commute)
  have "(2 :: nat) ^ ?n dvd 2 ^ 13" using assms(2) by (intro le_imp_power_dvd) simp
  moreover have "(2 :: nat) ^ 13 dvd unat st" using assms(1) by (simp add: page_mem_ok_def mod_0_imp_dvd)
  ultimately have d: "(2 :: nat) ^ ?n dvd unat st" by (rule dvd_trans)
  have ua: "unat ?a = unat st + i * 2 ^ (od + 8)" using assms by (intro unat_page_idx_to_addr) auto
  have "unat ?a mod 2 ^ ?n = (i * 2 ^ (od + 8)) mod 2 ^ ?n"
    using d by (simp add: ua mod_add_left_eq [symmetric, of "unat st"] del: mod_add_left_eq)
  also have "\<dots> = (i mod 2) * 2 ^ (od + 8)"
    by (simp only: mod_mult_mult2 [of i "2 ^ (od + 8)" 2, symmetric]) (simp add: power_add)
  finally have "unat (?a AND NOT (mask ?n)) = unat st + i * 2 ^ (od + 8) - (i mod 2) * 2 ^ (od + 8)"
    by (simp add: unat_AND_NOT_mask ua)
  also have "\<dots> = unat st + (i div 2) * 2 ^ (Suc od + 8)"
  proof -
    have "i * 2 ^ (od + 8) = (i div 2 * 2 + i mod 2) * 2 ^ (od + 8)" by simp
    also have "\<dots> = (i div 2) * 2 ^ (Suc od + 8) + (i mod 2) * 2 ^ (od + 8)"
      by (simp only: add_mult_distrib) (simp add: power_add)
    finally show ?thesis by simp
  qed
  also have "\<dots> = unat (page_idx_to_addr st (i div 2) (Suc od))"
    using assms lt by (simp add: unat_page_idx_to_addr)
  finally show "?a AND NOT (push_bit (od + 1 + 8) 1 - 1) = page_idx_to_addr st (i div 2) (Suc od)"
    unfolding mask by (simp only: word_unat_eq_iff)
qed

lemma free_pages_spec:
  assumes "page_mem_ok st" and "page_shape pb" and "od \<le> 5" and "i < 2 ^ (8 - od)"
  shows "\<exists>pb'. free_pages st pb (page_idx_to_addr st i od) od = Some pb' \<and> page_shape pb'
            \<and> fam pb' = fam_release (fam pb) od i"
  using assms(2-4)
proof (induction "5 - od" arbitrary: od pb i)
  case 0
  then have od: "od = 5" by simp
  from page_set_spec [of pb 5 i] 0 od show ?case
    by (simp add: free_pages.simps fam_release.simps PAGE_ORDER_MAX_def fun_upd_def
        addr_to_page_idx_inverse [OF assms(1)])
next
  case (Suc n)
  then have od: "od < 5" by simp
  let ?b = "get_buddy_index i" and ?a = "page_idx_to_addr st i od"
  note par = page_addr_parent [OF assms(1) od Suc.prems(3)]
  note sh = page_shapeD [OF Suc.prems(1,2)]
  have pw: "(2 :: nat) ^ (8 - od) = 2 * 2 ^ (8 - Suc od)"
    using od by (simp add: Suc_diff_Suc flip: power_Suc)
  have "?b div 2 < 2 ^ (8 - Suc od)" using par(2) by simp
  then have b: "?b < 2 ^ (8 - od)" using pw by linarith
  have inb: "?b < 32 * length (pb ! od)" using b sh(2) page_words_ge [OF Suc.prems(2)] by simp
  have unf: "free_pages st pb ?a od =
      (if ?b \<in> fam pb od
       then page_clear pb od ?b \<bind> (\<lambda>pb'. free_pages st pb' (page_idx_to_addr st (i div 2) (Suc od)) (Suc od))
       else page_set pb od i)"
    using od inb par(1) sh(3)
    by (subst free_pages.simps)
      (simp add: PAGE_ORDER_MAX_def Let_def addr_to_page_idx_inverse [OF assms(1) Suc.prems(2,3)]
        bitmap_get_bit_eq add.commute)
  show ?case
  proof (cases "?b \<in> fam pb od")
    case True
    from page_clear_spec [OF Suc.prems(1,2) b] obtain p1 where p1: "page_clear pb od ?b = Some p1"
      "page_shape p1" "fam p1 = (fam pb)(od := fam pb od - {?b})" by auto
    have "n = 5 - Suc od" using Suc.hyps(2) by simp
    from Suc.hyps(1) [OF this p1(2) _ par(2)] od obtain p2 where
      "free_pages st p1 (page_idx_to_addr st (i div 2) (Suc od)) (Suc od) = Some p2" "page_shape p2"
      "fam p2 = fam_release (fam p1) (Suc od) (i div 2)" by auto
    with True od p1 unf show ?thesis by (auto simp: fam_release.simps [of "fam pb" od i])
  next
    case False
    have "fam_release (fam pb) od i = (fam pb)(od := insert i (fam pb od))"
      using False by (subst fam_release.simps) simp
    with page_set_spec [OF Suc.prems] unf False show ?thesis by auto
  qed
qed

section \<open>Reachable states\<close>

definition page_units :: "u32 \<Rightarrow> u32 \<times> nat \<Rightarrow> nat set" where
  "page_units st p = page_block (snd p) (addr_to_page_idx st (fst p) (snd p))"

definition page_bytes :: "u32 \<times> nat \<Rightarrow> nat set" where
  "page_bytes p = {unat (fst p) ..< unat (fst p) + page_order_sz ! snd p}"

definition page_live_ok :: "u32 \<Rightarrow> u32 \<times> nat \<Rightarrow> bool" where
  "page_live_ok st p \<longleftrightarrow> snd p \<le> 5 \<and> (\<exists>i < 2 ^ (8 - snd p). fst p = page_idx_to_addr st i (snd p))"

definition page_inv :: "u32 \<Rightarrow> page_bitmap \<Rightarrow> (u32 \<times> nat) list \<Rightarrow> bool" where
  "page_inv st pb live \<longleftrightarrow> page_wf pb \<and> distinct live \<and> (\<forall>p \<in> set live. page_live_ok st p)
     \<and> (\<forall>p \<in> set live. \<forall>q \<in> set live. p \<noteq> q \<longrightarrow> page_units st p \<inter> page_units st q = {})
     \<and> (\<forall>p \<in> set live. page_units st p \<inter> free_units (fam pb) = {})
     \<and> free_units (fam pb) \<union> (\<Union>p \<in> set live. page_units st p) = {..<256}"

text \<open>The pages of a running system: those handed out by \<open>alloc_pages\<close> and not yet returned.\<close>

inductive page_reach :: "u32 \<Rightarrow> page_bitmap \<Rightarrow> (u32 \<times> nat) list \<Rightarrow> bool" for st where
  page_start: "page_reach st page_bitmap_init []"
| page_alloc: "page_reach st pb live \<Longrightarrow> alloc_pages st pb od = Some (pb', Some a) \<Longrightarrow>
    page_reach st pb' ((a, od) # live)"
| page_free: "page_reach st pb live \<Longrightarrow> (a, od) \<in> set live \<Longrightarrow> free_pages st pb a od = Some pb' \<Longrightarrow>
    page_reach st pb' (remove1 (a, od) live)"

lemma page_units_addr:
  "page_mem_ok st \<Longrightarrow> od \<le> 5 \<Longrightarrow> i < 2 ^ (8 - od) \<Longrightarrow> page_units st (page_idx_to_addr st i od, od) = page_block od i"
  by (simp add: page_units_def addr_to_page_idx_inverse)

lemma page_bytes_units:
  assumes "page_mem_ok st" and "page_live_ok st p" and "x \<in> page_bytes p"
  shows "unat st \<le> x" and "(x - unat st) div 256 \<in> page_units st p"
    and "x < unat st + 65536"
proof -
  obtain i where od: "snd p \<le> 5" and i: "i < 2 ^ (8 - snd p)" and p: "fst p = page_idx_to_addr st i (snd p)"
    using assms(2) by (auto simp: page_live_ok_def)
  define od where "od = snd p"
  define y where "y = x - unat st"
  have x: "unat st + i * 2 ^ (od + 8) \<le> x" "x < unat st + i * 2 ^ (od + 8) + 256 * 2 ^ od"
    using assms(3) unat_page_idx_to_addr [OF assms(1) od i]
    by (auto simp: page_bytes_def p od_def page_order_sz_eq [OF od])
  then show "unat st \<le> x" "x < unat st + 65536"
    using block_bytes [OF od i] by (auto simp: od_def [symmetric] power_add)
  have y: "i * (2 ^ od * 256) \<le> y" "y < Suc i * (2 ^ od * 256)"
    using x by (auto simp: y_def power_add)
  then have "y div (256 * 2 ^ od) = i"
    by (intro div_nat_eqI) (auto simp: mult.commute mult.left_commute)
  then have "y div 256 div 2 ^ od = i" by (simp only: div_mult2_eq)
  then show "(x - unat st) div 256 \<in> page_units st p"
    using addr_to_page_idx_inverse [OF assms(1) od i]
    by (simp add: page_units_def p page_block_def od_def [symmetric] y_def [symmetric])
qed

lemma fam_init: "fam page_bitmap_init = (\<lambda>od. if od = 5 then {..<8} else {})"
proof
  fix od
  have z: "bm_set (replicate n 0) = {}" for n by (auto simp: bm_set_def bm_bit_def)
  have m: "(0xff :: u32) = mask 8" by (simp add: mask_eq_exp_minus_1)
  have f: "bm_set [0xff] = {..<8}" unfolding m by (auto simp: bm_set_def bm_bit_def bit_mask_iff)
  show "fam page_bitmap_init od = (if od = 5 then {..<8} else {})"
  proof (cases "od \<le> 5")
    case True
    then show ?thesis using z [of 8] z [of 4] z [of 2] z [of 1] f
      by (elim order_cases) (simp_all add: fam_def page_bitmap_init_def numeral_eq_Suc)
  qed (auto simp: fam_def page_bitmap_init_def)
qed

lemma page_init_wf: "page_wf page_bitmap_init" and page_init_units: "free_units (fam page_bitmap_init) = {..<256}"
proof -
  have "page_shape page_bitmap_init"
    unfolding page_shape_def
  proof (intro conjI allI impI)
    fix od :: nat assume od: "od \<le> 5"
    then show "length (page_bitmap_init ! od) = page_words ! od"
      by (elim order_cases) (simp_all add: page_bitmap_init_def page_words_def)
    fix i assume "bm_bit (page_bitmap_init ! od) i"
    then have "i \<in> fam page_bitmap_init od" using od by (simp add: fam_def page_bitmap_init_def)
    then show "i < page_bitmap_sz ! od" using od by (auto simp: fam_init page_bitmap_sz_eq split: if_splits)
  qed (simp add: page_bitmap_init_def)
  moreover have "fam_wf (fam page_bitmap_init)"
    by (auto simp: fam_wf_def fam_init fam_disjoint_def no_buddies_def split: if_splits)
  ultimately show "page_wf page_bitmap_init" by (simp add: page_wf_def)
  show "free_units (fam page_bitmap_init) = {..<256}"
    unfolding free_units_def fam_init by auto
qed

lemma free_pages_wf:
  assumes "page_mem_ok st" and "page_wf pb" and "od \<le> 5" and "i < 2 ^ (8 - od)"
    and "page_block od i \<inter> free_units (fam pb) = {}"
  shows "\<exists>pb'. free_pages st pb (page_idx_to_addr st i od) od = Some pb' \<and> page_wf pb'
            \<and> free_units (fam pb') = free_units (fam pb) \<union> page_block od i"
proof -
  have sh: "page_shape pb" "fam_wf (fam pb)" using assms(2) by (auto simp: page_wf_def)
  from free_pages_spec [OF assms(1) sh(1) assms(3,4)] fam_release_wf [OF sh(2) assms(3,5)]
  show ?thesis by (auto simp: page_wf_def)
qed

lemma page_wf_unique:
  assumes "page_wf pb" and "page_wf pb'" and "free_units (fam pb) = free_units (fam pb')"
  shows "pb = pb'"
  using assms fam_wf_unique by (intro fam_inject) (auto simp: page_wf_def)

lemma page_reach_inv:
  assumes ok: "page_mem_ok st" and "page_reach st pb live"
  shows "page_inv st pb live"
  using assms(2)
proof (induction rule: page_reach.induct)
  case page_start
  show ?case by (simp add: page_inv_def page_init_wf page_init_units)
next
  case (page_alloc pb live od pb' a)
  then have inv: "page_inv st pb live" by simp
  then have wf: "page_wf pb" by (simp add: page_inv_def)
  from alloc_pages_spec [OF wf, of od st] page_alloc.hyps(2) obtain i where od: "od \<le> 5" and
    i: "a = page_idx_to_addr st i od" "page_wf pb'" "i < 2 ^ (8 - od)"
      "page_block od i \<subseteq> free_units (fam pb)"
      "free_units (fam pb') = free_units (fam pb) - page_block od i" by auto
  have u: "page_units st (a, od) = page_block od i" using page_units_addr [OF ok od i(3)] i(1) by simp
  have "(a, od) \<notin> set live"
    using inv i(4) u page_block_nonempty [of i od] unfolding page_inv_def by (metis disjoint_iff subsetD)
  moreover have "page_live_ok st (a, od)" using od i by (auto simp: page_live_ok_def)
  moreover have dis: "page_units st p \<inter> page_block od i = {}" if "p \<in> set live" for p
    using inv i(4) that unfolding page_inv_def by blast
  moreover have "free_units (fam pb') \<union> (\<Union>p \<in> set ((a, od) # live). page_units st p) = {..<256}"
    using inv i(4,5) u unfolding page_inv_def by auto
  moreover have "page_units st p \<inter> free_units (fam pb') = {}" if "p \<in> set live" for p
    using inv i(5) that unfolding page_inv_def by blast
  ultimately show ?case using inv i(2,5) u by (simp add: page_inv_def Int_commute)
next
  case (page_free pb live a od pb')
  then have inv: "page_inv st pb live" and mem: "(a, od) \<in> set live" by auto
  then obtain i where od: "od \<le> 5" and i: "i < 2 ^ (8 - od)" "a = page_idx_to_addr st i od"
    by (auto simp: page_inv_def page_live_ok_def)
  have u: "page_units st (a, od) = page_block od i" using page_units_addr [OF ok od i(1)] i(2) by simp
  then have "page_block od i \<inter> free_units (fam pb) = {}" "page_wf pb"
    using inv mem unfolding page_inv_def by metis+
  from free_pages_wf [OF ok this(2) od i(1) this(1)] page_free.hyps(3) i(2)
  have pb': "page_wf pb'" "free_units (fam pb') = free_units (fam pb) \<union> page_block od i" by auto
  have "distinct live" using inv by (simp add: page_inv_def)
  then have s: "set (remove1 (a, od) live) = set live - {(a, od)}" by simp
  have dis: "page_units st p \<inter> page_block od i = {}" if "p \<in> set live - {(a, od)}" for p
    using inv mem u that unfolding page_inv_def by blast
  have "free_units (fam pb') \<union> (\<Union>p \<in> set live - {(a, od)}. page_units st p) = {..<256}"
  proof -
    have "(\<Union>p \<in> set live. page_units st p) = (\<Union>p \<in> set live - {(a, od)}. page_units st p) \<union> page_block od i"
      using mem u by auto
    then show ?thesis using inv pb'(2) unfolding page_inv_def by (simp add: Un_ac)
  qed
  moreover have "page_units st p \<inter> free_units (fam pb') = {}" if "p \<in> set live - {(a, od)}" for p
    using inv pb'(2) dis [OF that] that unfolding page_inv_def by blast
  ultimately show ?case using inv pb'(1) unfolding page_inv_def s by simp
qed

section \<open>Accounting\<close>

lemma bitmap_byte_bit:
  assumes "b < 8" and "j < 4 * length m"
  shows "bit (bitmap_byte m j) b \<longleftrightarrow> bm_bit m (8 * j + b)"
proof -
  have j: "j = 4 * (j div 4) + j mod 4" "j mod 4 < 4" by simp_all
  have e: "8 * j + b = (8 * (j mod 4) + b) + 32 * (j div 4)" using j(1) by linarith
  have lt: "8 * (j mod 4) + b < 32" using j(2) assms(1) by linarith
  have "(8 * j + b) div 32 = j div 4" "(8 * j + b) mod 32 = 8 * (j mod 4) + b"
    unfolding e using lt by simp_all
  moreover have "j div 4 < length m" using assms(2) by auto
  ultimately show ?thesis using assms(1) by (simp add: bitmap_byte_def bm_bit_def bit_ucast_iff bit_drop_bit_eq)
qed

lemma popcount_bytes:
  assumes "k \<le> 4 * length m"
  shows "(\<Sum>j\<leftarrow>[0..<k]. popcount8 (bitmap_byte m j)) = length (filter (bm_bit m) [0..<8 * k])"
  using assms
proof (induction k)
  case (Suc k)
  have "popcount8 (bitmap_byte m k) = length (filter (\<lambda>b. bm_bit m (8 * k + b)) [0..<8])"
    unfolding popcount8_def using Suc.prems
    by (intro arg_cong [where f = length] filter_cong) (auto simp: bitmap_byte_bit)
  also have "\<dots> = length (filter (bm_bit m) [8 * k..<8 * k + 8])"
    unfolding map_add_upt [of "8 * k" 8, symmetric, simplified add.commute [of 8]] filter_map
    by (simp add: o_def add.commute)
  finally show ?case using Suc upt_add_eq_append [of 0 "8 * k" 8] by (simp add: add.commute)
qed simp

lemma page_block_atLeast: "page_block od i = {i * 2 ^ od ..< Suc i * 2 ^ od}"
  by (auto simp: page_block_def mult.commute dividend_less_times_div intro: div_nat_eqI)

lemma card_free_units:
  assumes dj: "fam_disjoint F" and fin: "\<And>od. od \<le> 5 \<Longrightarrow> finite (F od)"
  shows "card (free_units F) = (\<Sum>od \<le> 5. card (F od) * 2 ^ od)"
proof -
  let ?I = "SIGMA od : {..5}. F od"
  have "free_units F = (\<Union>(od, i) \<in> ?I. page_block od i)"
    by (auto simp: free_units_def page_block_def)
  also have "card \<dots> = (\<Sum>(od, i) \<in> ?I. card (page_block od i))"
  proof (subst card_UN_disjoint)
    show "finite ?I" using fin by auto
    show "\<forall>x \<in> ?I. finite (case x of (od, i) \<Rightarrow> page_block od i)" by (auto simp: page_block_atLeast)
    show "\<forall>x \<in> ?I. \<forall>y \<in> ?I. x \<noteq> y \<longrightarrow>
        (case x of (od, i) \<Rightarrow> page_block od i) \<inter> (case y of (od, i) \<Rightarrow> page_block od i) = {}"
      using fam_disjointD [OF dj] by (force simp: page_block_def)
  qed (simp add: case_prod_unfold)
  also have "\<dots> = (\<Sum>od \<le> 5. \<Sum>i \<in> F od. 2 ^ od)"
    using fin by (subst sum.Sigma [symmetric]) (auto simp: page_block_atLeast)
  finally show ?thesis by simp
qed

lemma card_bm_set:
  assumes "\<And>i. bm_bit m i \<Longrightarrow> i < n"
  shows "length (filter (bm_bit m) [0..<n]) = card (bm_set m)"
proof -
  have "set (filter (bm_bit m) [0..<n]) = bm_set m" using assms by (auto simp: bm_set_def)
  then show ?thesis using distinct_card [of "filter (bm_bit m) [0..<n]"] by simp
qed

lemma total_free_size_eq:
  assumes "page_wf pb"
  shows "get_page_total_free_size pb = 256 * card (free_units (fam pb))"
proof -
  have sh: "page_shape pb" and dj: "fam_disjoint (fam pb)" using assms by (auto simp: page_wf_def fam_wf_def)
  have "(\<Sum>j\<leftarrow>[0..<page_bitmap_sz ! od div 8]. popcount8 (bitmap_byte (pb ! od) j)) = card (fam pb od)"
    if "od \<le> 5" for od
  proof -
    note s = page_shapeD [OF sh that]
    have b: "page_bitmap_sz ! od div 8 \<le> 4 * length (pb ! od)" "8 * (page_bitmap_sz ! od div 8) = page_bitmap_sz ! od"
      unfolding s(2) using that by (elim order_cases; simp add: page_bitmap_sz_def page_words_def)+
    have "i < page_bitmap_sz ! od" if "bm_bit (pb ! od) i" for i
      using that sh \<open>od \<le> 5\<close> by (auto simp: page_shape_def)
    then show ?thesis unfolding popcount_bytes [OF b(1)] b(2) s(3) by (rule card_bm_set)
  qed
  then have "get_page_total_free_size pb = (\<Sum>od \<le> 5. card (fam pb od) * (256 * 2 ^ od))"
    unfolding get_page_total_free_size_def PAGE_ORDER_MAX_def interv_sum_list_conv_sum_set_nat
    by (intro sum.cong) (auto simp: order_to_page_size_def page_order_sz_eq)
  also have "\<dots> = 256 * card (free_units (fam pb))"
    using page_shapeD(4) [OF sh] by (simp add: card_free_units [OF dj] sum_distrib_left mult.left_commute)
  finally show ?thesis .
qed

lemma alloc_pages_cases:
  assumes "page_wf pb"
  shows "(if od \<le> 5 \<and> (\<exists>i. page_block od i \<subseteq> free_units (fam pb))
     then \<exists>pb' i. alloc_pages st pb od = Some (pb', Some (page_idx_to_addr st i od))
        \<and> page_wf pb' \<and> i < 2 ^ (8 - od) \<and> page_block od i \<subseteq> free_units (fam pb)
        \<and> free_units (fam pb') = free_units (fam pb) - page_block od i
     else alloc_pages st pb od = Some (pb, None))"
proof (cases "\<forall>j. od \<le> j \<and> j \<le> 5 \<longrightarrow> fam pb j = {}")
  case True
  have nb: "no_buddies (fam pb)" using assms by (simp add: page_wf_def fam_wf_def)
  have "\<not> page_block od i \<subseteq> free_units (fam pb)" if od: "od \<le> 5" for i
  proof
    assume sub: "page_block od i \<subseteq> free_units (fam pb)"
    have "\<exists>a < od. u div 2 ^ a \<in> fam pb a" if u: "u \<in> page_block od i" for u
    proof -
      obtain a where a: "a \<le> 5" "u div 2 ^ a \<in> fam pb a" using u sub unfolding free_units_def by blast
      then have "\<not> od \<le> a" using True by blast
      with a show ?thesis using not_le by blast
    qed
    then show False using not_covered_below [OF nb od] by blast
  qed
  moreover have "alloc_pages st pb od = Some (pb, None)"
  proof (rule ccontr)
    assume "alloc_pages st pb od \<noteq> Some (pb, None)"
    with alloc_pages_spec [OF assms, of od st] calculation show False by blast
  qed
  ultimately show ?thesis by simp
next
  case False
  with alloc_pages_spec [OF assms, of od st] show ?thesis by auto
qed

section \<open>Areas that are not aligned\<close>

lemma alloc_pages_offset:
  "alloc_pages st pb od = map_option (\<lambda>(pb', r). (pb', map_option (\<lambda>a. st + a) r)) (alloc_pages 0 pb od)"
  by (cases "alloc_pages_search pb od") (auto simp: alloc_pages_def page_idx_to_addr_def split: bind_splits)

lemma alloc_first_page:
  "alloc_pages st page_bitmap_init 0 = Some ([[2, 0, 0, 0, 0, 0, 0, 0], [2, 0, 0, 0], [2, 0], [2], [2], [0xfe]], Some st)"
proof -
  have "alloc_pages 0 page_bitmap_init 0 = Some ([[2, 0, 0, 0, 0, 0, 0, 0], [2, 0, 0, 0], [2, 0], [2], [2], [0xfe]], Some 0)"
    by code_simp
  then show ?thesis by (subst alloc_pages_offset) simp
qed

text \<open>The index of an address below the area: it wraps around to a page far beyond the bitmaps.\<close>

lemma idx_below_area:
  assumes "0 < r" and "r \<le> 2 ^ (od + 8)" and "od \<le> 5" and "unat a = unat st - r" and "r \<le> unat st"
  shows "addr_to_page_idx st a od = 2 ^ (24 - od) - 1"
proof -
  have "unat (a - st) = (unat a + (2 ^ 32 - unat st)) mod 2 ^ 32"
    using unsigned_less [of st, where 'a = nat] by (simp add: unat_sub_if' word_le_nat_alt) (use assms in simp)
  also have "unat a + (2 ^ 32 - unat st) = 2 ^ 32 - r" using assms(4,5) unsigned_less [of st, where 'a = nat] by simp
  finally have u: "unat (a - st) = 2 ^ 32 - r" using assms(1) by simp
  have p: "(2 :: nat) ^ 32 = 2 ^ (24 - od) * 2 ^ (od + 8)" using assms(3) by (simp flip: power_add)
  have "(2 ^ 32 - r) div 2 ^ (od + 8) = 2 ^ (24 - od) - 1"
  proof (rule div_nat_eqI)
    define k where "k = (2 :: nat) ^ (24 - od)"
    define b where "b = (2 :: nat) ^ (od + 8)"
    have "0 < k" "0 < b" "r \<le> b" "(2 :: nat) ^ 32 = k * b" using p assms(2) by (simp_all only: k_def b_def) simp_all
    then show "2 ^ (od + 8) * (2 ^ (24 - od) - 1) \<le> 2 ^ 32 - r" "2 ^ 32 - r < 2 ^ (od + 8) * Suc (2 ^ (24 - od) - 1)"
      using assms(1) unfolding k_def [symmetric] b_def [symmetric] by (cases k; simp add: mult.commute)+
  qed
  moreover have "unat (drop_bit (od + 8) (a - st)) = unat (a - st) div 2 ^ (od + 8)"
    by (simp only: unat_drop_bit_eq) (simp only: drop_bit_eq_div)
  ultimately show ?thesis by (simp add: addr_to_page_idx_def u)
qed

lemma free_pages_below_area:
  assumes "0 < r" and "r \<le> 2 ^ (od + 8)" and "od \<le> 5" and "unat a = unat st - r" and "r \<le> unat st" and "page_shape pb"
  shows "free_pages st pb a od = None"
proof -
  note sh = page_shapeD [OF assms(6,3)]
  have i: "addr_to_page_idx st a od = 2 ^ (24 - od) - 1" by (rule idx_below_area [OF assms(1-5)])
  have "(2 :: nat) ^ 19 \<le> 2 ^ (24 - od)" using assms(3) by (intro power_increasing) auto
  then have big: "32 * 8 \<le> (2 :: nat) ^ (24 - od) - 1 - 1" by simp
  have w: "length (pb ! od) \<le> 8" unfolding sh(2) using assms(3) by (elim order_cases) (simp_all add: page_words_def)
  have odd: "(2 ^ (24 - od) - 1 :: nat) mod 2 \<noteq> 0" using assms(3) by (cases "24 - od") (simp_all add: mod2_eq_if)
  have b: "get_buddy_index (2 ^ (24 - od) - 1) = 2 ^ (24 - od) - 1 - 1" using odd by (simp add: get_buddy_index_def)
  have "bitmap_get_bit (pb ! od) (2 ^ (24 - od) - 1 - 1) = None" using big w by (simp add: bitmap_get_bit_eq)
  moreover have "bitmap_set_bit (pb ! od) (2 ^ (24 - od) - 1) = None"
  proof -
    have "8 \<le> ((2 :: nat) ^ (24 - od) - 1) div 32" using big by (simp add: less_eq_div_iff_mult_less_eq)
    then show ?thesis using w by (simp add: bitmap_set_bit_def BITS_PER_LONG_def Let_def)
  qed
  ultimately show ?thesis unfolding free_pages.simps [of st pb a od] i Let_def b by (simp add: page_set_def)
qed

lemma release_first_page:
  assumes "unat st mod 8192 \<noteq> 0" and "od < 5" and "page_shape pb" and "\<forall>j. od \<le> j \<and> j < 5 \<longrightarrow> 1 \<in> fam pb j"
  shows "free_pages st pb st od = None"
  using assms(2-4)
proof (induction "5 - od" arbitrary: od pb)
  case (Suc n)
  note sh = page_shapeD [OF Suc.prems(2) less_imp_le [OF Suc.prems(1)]]
  let ?r = "unat st mod 2 ^ (od + 9)" and ?a = "st AND NOT (mask (od + 9))"
  have one: "1 < (2 :: nat) ^ (8 - od)" using Suc.prems(1) by (intro one_less_power) simp_all
  from page_clear_spec [OF Suc.prems(2) _ one] Suc.prems(1) obtain p1 where p1: "page_clear pb od 1 = Some p1" "page_shape p1"
    "fam p1 = (fam pb)(od := fam pb od - {1})" by auto
  have m: "push_bit (od + 1 + 8) 1 - 1 = (mask (od + 9) :: u32)" by (simp add: mask_eq_exp_minus_1 add.commute)
  have in1: "1 \<in> bm_set (pb ! od)" using Suc.prems(1,3) sh(3) by auto
  have l: "1 < 32 * length (pb ! od)" using sh(2) page_words_ge [of od] one Suc.prems(1) by simp
  have i: "addr_to_page_idx st st od = 0" by (simp add: addr_to_page_idx_def)
  have step: "free_pages st pb st od = free_pages st p1 ?a (Suc od)"
    unfolding free_pages.simps [of st pb st od] i Let_def using Suc.prems(1) in1 l p1(1) m
    by (simp add: PAGE_ORDER_MAX_def get_buddy_index_def bitmap_get_bit_eq bm_set_def)
  have ua: "unat ?a = unat st - ?r" by (simp add: unat_AND_NOT_mask)
  show ?case
  proof (cases "?r = 0")
    case True
    then have a: "?a = st" using ua by (simp add: word_unat_eq_iff)
    have "od \<noteq> 4" using True assms(1) by auto
    then have "Suc od < 5" "n = 5 - Suc od" using Suc.prems(1) Suc.hyps(2) by auto
    from Suc.hyps(1) [OF this(2,1) p1(2)] show ?thesis unfolding step a using Suc.prems(3) p1(3) by auto
  next
    case False
    have "?r \<le> 2 ^ (Suc od + 8)" by (simp add: add.commute less_imp_le)
    then have "free_pages st p1 ?a (Suc od) = None"
      using False ua p1(2) Suc.prems(1) by (intro free_pages_below_area [of ?r]) auto
    then show ?thesis using step by simp
  qed
qed simp

text \<open>On an area that is not aligned to the largest page the very first page cannot be released.\<close>

lemma free_first_page_unaligned:
  assumes "unat st mod 8192 \<noteq> 0"
  shows "free_pages st [[2, 0, 0, 0, 0, 0, 0, 0], [2, 0, 0, 0], [2, 0], [2], [2], [0xfe]] st 0 = None"
proof (rule release_first_page [OF assms])
  let ?pb = "[[2, 0, 0, 0, 0, 0, 0, 0], [2, 0, 0, 0], [2, 0], [2], [2], [0xfe]] :: page_bitmap"
  from alloc_pages_spec [OF page_init_wf, of 0 0] alloc_first_page [of 0] show "page_shape ?pb" by (auto simp: page_wf_def)
  show "\<forall>j. 0 \<le> j \<and> j < 5 \<longrightarrow> 1 \<in> fam ?pb j"
  proof (intro allI impI)
    fix j :: nat assume "0 \<le> j \<and> j < 5"
    then have "j = 0 \<or> j = 1 \<or> j = 2 \<or> j = 3 \<or> j = 4" by auto
    then show "1 \<in> fam ?pb j" by (auto simp: fam_def bm_set_def bm_bit_def)
  qed
qed simp

section \<open>Properties\<close>

text \<open>
  C4. \<open>alloc_pages\<close> on a well-formed state, for any order: it returns \<^verbatim>\<open>NULL\<close> and changes
  nothing exactly when no aligned block of \<open>2 ^ od\<close> free units exists; otherwise it returns the
  address of such a block, which lay entirely in free memory, and exactly this block leaves
  the free memory while the buddy discipline is kept. It never touches memory outside the
  bitmaps.\<close>

theorem alloc_pages_correct:
  assumes "page_wf pb"
  shows "(if od \<le> 5 \<and> (\<exists>i. page_block od i \<subseteq> free_units (fam pb))
     then \<exists>pb' i. alloc_pages st pb od = Some (pb', Some (page_idx_to_addr st i od))
        \<and> page_wf pb' \<and> i < 2 ^ (8 - od) \<and> page_block od i \<subseteq> free_units (fam pb)
        \<and> free_units (fam pb') = free_units (fam pb) - page_block od i
     else alloc_pages st pb od = Some (pb, None))"
  by (rule alloc_pages_cases [OF assms])

text \<open>The witness: the state after boot.\<close>

theorem alloc_pages_correct_witness:
  "\<exists>pb' i. alloc_pages 0x20000000 page_bitmap_init 0 = Some (pb', Some (page_idx_to_addr 0x20000000 i 0))
     \<and> page_wf pb' \<and> i < 2 ^ (8 - 0) \<and> page_block 0 i \<subseteq> free_units (fam page_bitmap_init)
     \<and> free_units (fam pb') = free_units (fam page_bitmap_init) - page_block 0 i"
proof -
  have "page_block 0 3 \<subseteq> free_units (fam page_bitmap_init)"
    by (auto simp: page_init_units page_block_def)
  then show ?thesis
    using alloc_pages_correct [OF page_init_wf, of 0 "0x20000000"] by (metis le0)
qed

text \<open>
  C3. Round trip, for a page area that does not wrap around: giving a page that \<open>alloc_pages\<close> returned back with
  \<open>free_pages\<close> restores the bitmaps bit for bit, in every well-formed state and however many pages were split on the way,
  exactly when the start of the area is a multiple of the largest page, 8 KB. The linker scripts only align
  the area to four bytes; on an area that is not aligned the release of the first page leaves the bitmaps.\<close>

theorem alloc_free_roundtrip:
  assumes "unat st + 65536 \<le> 2 ^ 32"
  shows "(\<forall>pb pb' a od. page_wf pb \<and> alloc_pages st pb od = Some (pb', Some a) \<longrightarrow> free_pages st pb' a od = Some pb)
     \<longleftrightarrow> unat st mod 8192 = 0"
proof
  assume "\<forall>pb pb' a od. page_wf pb \<and> alloc_pages st pb od = Some (pb', Some a) \<longrightarrow> free_pages st pb' a od = Some pb"
  then show "unat st mod 8192 = 0" using free_first_page_unaligned [of st] alloc_first_page [of st] page_init_wf by fastforce
next
  assume "unat st mod 8192 = 0"
  then have ok: "page_mem_ok st" using assms by (simp add: page_mem_ok_def)
  show "\<forall>pb pb' a od. page_wf pb \<and> alloc_pages st pb od = Some (pb', Some a) \<longrightarrow> free_pages st pb' a od = Some pb"
  proof (intro allI impI, elim conjE)
    fix pb pb' a od assume wf: "page_wf pb" and al: "alloc_pages st pb od = Some (pb', Some a)"
    from alloc_pages_spec [OF wf, of od st] al obtain i where od: "od \<le> 5" and
      i: "a = page_idx_to_addr st i od" "page_wf pb'" "i < 2 ^ (8 - od)"
        "page_block od i \<subseteq> free_units (fam pb)"
        "free_units (fam pb') = free_units (fam pb) - page_block od i" by auto
    have "page_block od i \<inter> free_units (fam pb') = {}" using i(5) by auto
    from free_pages_wf [OF ok i(2) od i(3) this] i obtain pb'' where
      "free_pages st pb' a od = Some pb''" "page_wf pb''" "free_units (fam pb'') = free_units (fam pb)"
      by auto
    with page_wf_unique [OF _ wf] show "free_pages st pb' a od = Some pb" by auto
  qed
qed

theorem alloc_free_roundtrip_witness:
  "\<exists>pb' a. alloc_pages 0x20000000 page_bitmap_init 0 = Some (pb', Some a) \<and> pb' \<noteq> page_bitmap_init
     \<and> free_pages 0x20000000 pb' a 0 = Some page_bitmap_init"
proof -
  have "unat (0x20000000 :: u32) + 65536 \<le> 2 ^ 32" "unat (0x20000000 :: u32) mod 8192 = 0" by simp_all
  with alloc_free_roundtrip [of "0x20000000"] page_init_wf alloc_first_page [of "0x20000000"] show ?thesis
    by (auto simp: page_bitmap_init_def)
qed

text \<open>The state of the allocator with the pages \<open>live\<close> in use is safe.\<close>

definition page_safe :: "u32 \<Rightarrow> page_bitmap \<Rightarrow> (u32 \<times> nat) list \<Rightarrow> bool" where
  "page_safe st pb live \<longleftrightarrow> distinct live
     \<and> (\<forall>p \<in> set live. page_bytes p \<subseteq> {unat st ..< unat st + 65536}
          \<and> (\<exists>pb'. free_pages st pb (fst p) (snd p) = Some pb'))
     \<and> (\<forall>p \<in> set live. \<forall>q \<in> set live. p \<noteq> q \<longrightarrow> page_bytes p \<inter> page_bytes q = {})
     \<and> get_page_total_free_size pb + (\<Sum>p \<in> set live. page_order_sz ! snd p) = 65536
     \<and> (live = [] \<longrightarrow> pb = page_bitmap_init)"

lemma page_reach_safe:
  assumes ok: "page_mem_ok st" and reach: "page_reach st pb live"
  shows "page_safe st pb live"
proof -
  note inv = page_reach_inv [OF ok reach]
  have wf: "page_wf pb" and live: "\<And>p. p \<in> set live \<Longrightarrow> page_live_ok st p"
    and dis: "\<And>p q. p \<in> set live \<Longrightarrow> q \<in> set live \<Longrightarrow> p \<noteq> q \<Longrightarrow> page_units st p \<inter> page_units st q = {}"
    and nf: "\<And>p. p \<in> set live \<Longrightarrow> page_units st p \<inter> free_units (fam pb) = {}"
    and all: "free_units (fam pb) \<union> (\<Union>p \<in> set live. page_units st p) = {..<256}"
    using inv unfolding page_inv_def by blast+
  note by_units = page_bytes_units [OF ok]
  have "distinct live" using inv by (simp add: page_inv_def)
  moreover have "page_bytes p \<subseteq> {unat st ..< unat st + 65536}" if "p \<in> set live" for p
    using by_units(1,3) [OF live [OF that]] by auto
  moreover have "\<exists>pb'. free_pages st pb (fst p) (snd p) = Some pb'" if "p \<in> set live" for p
  proof -
    note lv = live [OF that]
    obtain i where i: "snd p \<le> 5" "i < 2 ^ (8 - snd p)" "fst p = page_idx_to_addr st i (snd p)"
      using lv by (auto simp: page_live_ok_def)
    have "page_shape pb" using wf by (simp add: page_wf_def)
    from free_pages_spec [OF ok this i(1,2)] i(3) show ?thesis by auto
  qed
  moreover have "page_bytes p \<inter> page_bytes q = {}" if "p \<in> set live" "q \<in> set live" "p \<noteq> q" for p q
  proof (rule ccontr)
    assume "page_bytes p \<inter> page_bytes q \<noteq> {}"
    then obtain x where "x \<in> page_bytes p" "x \<in> page_bytes q" by blast
    with by_units(2) live that dis [OF that] show False by blast
  qed
  moreover have "get_page_total_free_size pb + (\<Sum>p \<in> set live. page_order_sz ! snd p) = 65536"
  proof -
    have sz: "page_order_sz ! snd p = 256 * card (page_units st p)" "finite (page_units st p)"
      if "p \<in> set live" for p
      using live [OF that]
      by (auto simp: page_live_ok_def page_order_sz_eq page_units_def page_block_atLeast)
    have "card (\<Union>p \<in> set live. page_units st p) = (\<Sum>p \<in> set live. card (page_units st p))"
      using sz(2) dis by (intro card_UN_disjoint) auto
    moreover have "card (free_units (fam pb) \<union> (\<Union>p \<in> set live. page_units st p))
        = card (free_units (fam pb)) + card (\<Union>p \<in> set live. page_units st p)"
    proof (rule card_Un_disjoint)
      have "finite (free_units (fam pb) \<union> (\<Union>p \<in> set live. page_units st p))" unfolding all by simp
      then show "finite (free_units (fam pb))" "finite (\<Union>p \<in> set live. page_units st p)" by simp_all
      show "free_units (fam pb) \<inter> (\<Union>p \<in> set live. page_units st p) = {}" using nf by blast
    qed
    ultimately have "256 = card (free_units (fam pb)) + (\<Sum>p \<in> set live. card (page_units st p))"
      unfolding all by simp
    then show ?thesis using sz(1) by (simp add: total_free_size_eq [OF wf] flip: sum_distrib_left)
  qed
  moreover have "pb = page_bitmap_init" if "live = []"
    using page_wf_unique [OF wf page_init_wf] all page_init_units that by simp
  ultimately show ?thesis unfolding page_safe_def by blast
qed

text \<open>
  C2. Safety of every sequence of allocations and releases, from boot on, for a page area that does not wrap around: the pages
  that are handed out lie in the area, no two of them share a byte, a release of any of them succeeds, the number of
  free bytes that \<open>get_page_total_free_size\<close> reports plus the sizes of the pages in use is the whole area, and once
  everything is returned the bitmaps are those of a fresh system. This holds exactly when the start of the area
  is a multiple of the largest page, 8 KB. The linker scripts only align the area to four bytes; when the
  start is no such multiple, the release of the first page handed out accesses memory outside the bitmaps.\<close>

theorem page_allocator_safe:
  assumes "unat st + 65536 \<le> 2 ^ 32"
  shows "(\<forall>pb live. page_reach st pb live \<longrightarrow> page_safe st pb live) \<longleftrightarrow> unat st mod 8192 = 0"
proof
  assume safe: "\<forall>pb live. page_reach st pb live \<longrightarrow> page_safe st pb live"
  have "page_reach st [[2, 0, 0, 0, 0, 0, 0, 0], [2, 0, 0, 0], [2, 0], [2], [2], [0xfe]] [(st, 0)]"
    by (rule page_reach.page_alloc [OF page_reach.page_start alloc_first_page])
  with safe show "unat st mod 8192 = 0" using free_first_page_unaligned [of st] by (fastforce simp: page_safe_def)
next
  assume "unat st mod 8192 = 0"
  then show "\<forall>pb live. page_reach st pb live \<longrightarrow> page_safe st pb live"
    using assms page_reach_safe [of st] by (simp add: page_mem_ok_def)
qed

theorem page_allocator_safe_witness:
  "\<exists>pb a. page_reach 0x20000000 pb [(a, 2)] \<and> page_safe 0x20000000 pb [(a, 2)]"
proof -
  have "0 \<in> fam page_bitmap_init 5" by (simp add: fam_init)
  with alloc_pages_spec [OF page_init_wf, of 2 "0x20000000"] obtain pb a where
    "alloc_pages 0x20000000 page_bitmap_init 2 = Some (pb, Some a)" by auto
  then have r: "page_reach 0x20000000 pb [(a, 2)]"
    by (rule page_reach.page_alloc [OF page_reach.page_start])
  have "unat (0x20000000 :: u32) + 65536 \<le> 2 ^ 32" "unat (0x20000000 :: u32) mod 8192 = 0" by simp_all
  with page_allocator_safe [of "0x20000000"] r show ?thesis by blast
qed

end
