(* ===== verification/Ktime.thy ===== *)
theory Ktime
  imports Prelude
begin

text \<open>
  Time (\<^verbatim>\<open>kernel/time.c\<close>, the interval functions of \<^verbatim>\<open>kernel/sched.c\<close>): the system time and
  the interval timers are seconds and nanoseconds that advance by one tick of
  \<^verbatim>\<open>1000000000 / OS_TICK_FREQ\<close> nanoseconds. The theorems read a time as its total number of
  nanoseconds.
\<close>

section \<open>The code\<close>

record timespec =
  tv_sec :: int
  tv_nsec :: int

record itimerspec =
  it_value :: timespec
  it_interval :: timespec

definition OS_TICK_FREQ :: int where [config]: "OS_TICK_FREQ = 4000"

definition NANOSECOND_TICKS :: int where
  "NANOSECOND_TICKS = 1000000000 div OS_TICK_FREQ"

definition timer_up_count :: "timespec \<Rightarrow> timespec" where
  "timer_up_count t =
     (let t1 = t\<lparr>tv_nsec := tv_nsec t + NANOSECOND_TICKS\<rparr> in
      if tv_nsec t1 \<ge> 1000000000
      then t1\<lparr>tv_sec := tv_sec t1 + 1, tv_nsec := tv_nsec t1 - 1000000000\<rparr> else t1)"

definition timer_down_count :: "timespec \<Rightarrow> timespec" where
  "timer_down_count t =
     (let t1 = t\<lparr>tv_nsec := tv_nsec t - NANOSECOND_TICKS\<rparr> in
      if tv_nsec t1 < 0 \<and> tv_sec t1 > 0
      then t1\<lparr>tv_sec := tv_sec t1 - 1, tv_nsec := tv_nsec t1 + 1000000000\<rparr>
      else if tv_nsec t1 \<le> 0 \<and> tv_sec t1 \<le> 0 then t1\<lparr>tv_sec := 0, tv_nsec := 0\<rparr>
      else t1)"

definition time_add :: "timespec \<Rightarrow> int \<Rightarrow> int \<Rightarrow> timespec" where
  "time_add t sec nsec =
     (let t1 = t\<lparr>tv_sec := tv_sec t + sec, tv_nsec := tv_nsec t + nsec\<rparr> in
      if tv_nsec t1 \<ge> 1000000000
      then t1\<lparr>tv_sec := tv_sec t1 + 1, tv_nsec := tv_nsec t1 - 1000000000\<rparr> else t1)"

definition system_timer_update :: "timespec \<Rightarrow> timespec" where
  "system_timer_update sys_time = timer_up_count sys_time"

definition clock_getres :: timespec where
  "clock_getres = \<lparr>tv_sec = 0, tv_nsec = NANOSECOND_TICKS\<rparr>"

definition ktime_get :: "timespec \<Rightarrow> int" where
  "ktime_get sys_time = tv_sec sys_time * 1000 + tv_nsec sys_time div 1000000"

definition sched_rr_get_interval :: timespec where
  "sched_rr_get_interval =
     \<lparr>tv_sec = OS_TICK_FREQ div 1000, tv_nsec = (1000000000 div OS_TICK_FREQ) mod 1000000000\<rparr>"

text \<open>The ticks that \<^verbatim>\<open>sleep\<close> and \<^verbatim>\<open>usleep\<close> pass to \<^verbatim>\<open>delay_ticks\<close>: 32-bit products.\<close>

definition sleep_ticks_of :: "u32 \<Rightarrow> u32" where
  "sleep_ticks_of seconds = seconds * word_of_int OS_TICK_FREQ"

definition usleep :: "u32 \<Rightarrow> int + u32" where
  "usleep usec =
     (let usec_tick = (word_of_int OS_TICK_FREQ * usec) div 1000000;
          granularity_us = word_of_int (1000000 div OS_TICK_FREQ) in
      if usec \<ge> 1000000 \<or> usec < granularity_us then Inl (- EINVAL) else Inr usec_tick)"

section \<open>Times as numbers of nanoseconds\<close>

definition nanos :: "timespec \<Rightarrow> int" where
  "nanos t = tv_sec t * 1000000000 + tv_nsec t"

definition time_norm :: "timespec \<Rightarrow> bool" where
  "time_norm t \<longleftrightarrow> 0 \<le> tv_sec t \<and> 0 \<le> tv_nsec t \<and> tv_nsec t < 1000000000"

lemma NANOSECOND_TICKS_eq: "NANOSECOND_TICKS = 250000"
  by (simp add: NANOSECOND_TICKS_def OS_TICK_FREQ_def)

lemma timer_up_count_spec:
  assumes "time_norm t"
  shows "time_norm (timer_up_count t)" and "nanos (timer_up_count t) = nanos t + NANOSECOND_TICKS"
  using assms by (auto simp: time_norm_def nanos_def timer_up_count_def Let_def NANOSECOND_TICKS_eq)

lemma timer_down_count_spec:
  assumes "time_norm t"
  shows "time_norm (timer_down_count t)"
    and "nanos (timer_down_count t) = max 0 (nanos t - NANOSECOND_TICKS)"
  using assms by (auto simp: time_norm_def nanos_def timer_down_count_def Let_def NANOSECOND_TICKS_eq)

lemma nanos_zero:
  assumes "time_norm t"
  shows "nanos t = 0 \<longleftrightarrow> tv_sec t = 0 \<and> tv_nsec t = 0"
proof -
  have "0 \<le> tv_sec t * 1000000000" "0 \<le> tv_nsec t" using assms by (auto simp: time_norm_def)
  then show ?thesis unfolding nanos_def by linarith
qed

lemma timer_down_count_iter:
  "time_norm t \<Longrightarrow> time_norm ((timer_down_count ^^ n) t)
     \<and> nanos ((timer_down_count ^^ n) t) = max 0 (nanos t - int n * NANOSECOND_TICKS)"
proof (induction n)
  case (Suc n)
  then show ?case using timer_down_count_spec [of "(timer_down_count ^^ n) t"]
    by (auto simp: NANOSECOND_TICKS_eq algebra_simps max_def)
qed (auto simp: nanos_def time_norm_def)

section \<open>Properties\<close>

text \<open>
  The counter of an interval timer reaches zero after exactly the number of ticks that
  covers its value: from a normalised value \<open>t\<close>, the counter is zero after \<open>n\<close> calls of
  \<open>timer_down_count\<close> if and only if \<open>n\<close> ticks are at least as long as \<open>t\<close>, and until then it is
  exactly the time left.\<close>

theorem timer_expires_exactly:
  assumes "time_norm t"
  shows "(tv_sec ((timer_down_count ^^ n) t) = 0 \<and> tv_nsec ((timer_down_count ^^ n) t) = 0
     \<longleftrightarrow> nanos t \<le> int n * NANOSECOND_TICKS)
    \<and> nanos ((timer_down_count ^^ n) t) = max 0 (nanos t - int n * NANOSECOND_TICKS)"
proof -
  note it = timer_down_count_iter [OF assms, of n]
  then have "time_norm ((timer_down_count ^^ n) t)" by simp
  from nanos_zero [OF this] it show ?thesis by auto
qed

theorem timer_expires_exactly_witness:
  "(tv_sec ((timer_down_count ^^ 4001) \<lparr>tv_sec = 1, tv_nsec = 1\<rparr>) = 0
     \<and> tv_nsec ((timer_down_count ^^ 4001) \<lparr>tv_sec = 1, tv_nsec = 1\<rparr>) = 0
     \<longleftrightarrow> nanos \<lparr>tv_sec = 1, tv_nsec = 1\<rparr> \<le> int 4001 * NANOSECOND_TICKS)
   \<and> nanos ((timer_down_count ^^ 4001) \<lparr>tv_sec = 1, tv_nsec = 1\<rparr>)
     = max 0 (nanos \<lparr>tv_sec = 1, tv_nsec = 1\<rparr> - int 4001 * NANOSECOND_TICKS)"
  by (rule timer_expires_exactly) (simp add: time_norm_def)

text \<open>
  \<open>time_add\<close> is exact and keeps a time normalised as long as less than a second of
  nanoseconds is added, and it carries at most one second: adding two seconds of nanoseconds
  to any normalised time leaves a nanosecond field of a second or more.\<close>

theorem time_add_carries_once:
  assumes "time_norm t" and "0 \<le> nsec" and "0 \<le> sec"
  shows "nanos (time_add t sec nsec) = nanos t + sec * 1000000000 + nsec
    \<and> (if nsec < 1000000000 then time_norm (time_add t sec nsec)
       else nsec < 2000000000 \<or> tv_nsec (time_add t sec nsec) \<ge> 1000000000)"
  using assms by (auto simp: time_add_def Let_def nanos_def time_norm_def)

theorem time_add_carries_once_witness:
  "nanos (time_add \<lparr>tv_sec = 5, tv_nsec = 7\<rparr> 0 2000000000)
       = nanos \<lparr>tv_sec = 5, tv_nsec = 7\<rparr> + 0 * 1000000000 + 2000000000
   \<and> tv_nsec (time_add \<lparr>tv_sec = 5, tv_nsec = 7\<rparr> 0 2000000000) \<ge> 1000000000"
  using time_add_carries_once [of "\<lparr>tv_sec = 5, tv_nsec = 7\<rparr>" 2000000000 0]
  by (simp add: time_norm_def)

end
