(* ===== verification/Kstate.thy ===== *)
theory Kstate
  imports Klist Kfifo Page Ktime
begin

text \<open>
  The state of the kernel (\<^verbatim>\<open>kernel/kernel.c\<close>, \<^verbatim>\<open>include/kernel/kernel.h\<close>): thread and task
  control blocks, the scheduling lists, the bitmaps of the tables, the preemption counter, and
  the words of memory that hold the stack frames.

  The member \<^verbatim>\<open>list\<close> of a thread is on one of the scheduling lists \<open>lid\<close>; these lists are the
  sequence \<open>links\<close> of their links. A \<^verbatim>\<open>list_add\<close> of a node that is still linked, or a
  \<^verbatim>\<open>list_del\<close> of one that is not, leaves lists whose contents the code no longer determines
  (theorem \<open>stale_list_del_loses_nodes\<close>); here such a call is \<^const>\<open>None\<close>, as any other access
  that is undefined. The record is extensible: the components built on the scheduler add
  their own tables to it.
\<close>

section \<open>Threads and tasks\<close>

datatype tstatus = THREAD_WAIT | THREAD_READY | THREAD_RUNNING | THREAD_SUSPENDED | THREAD_TERMINATED

datatype privilege = KERNEL_THREAD | USER_THREAD

text \<open>The timers of a thread are a list of their addresses; it is \<^const>\<open>None\<close> until the list head is
  initialised, which the first timer of the thread does.

  \<^verbatim>\<open>sa_handler\<close> and \<^verbatim>\<open>sa_sigaction\<close> are members of one union.\<close>

record sigaction =
  sa_handler :: u32
  sa_mask :: u32
  sa_flags :: u32

record thread =
  t_task :: "nat option"
  t_stack_top :: u32
  t_stack_top_preserved :: u32
  t_stack :: u32
  t_stack_size :: u32
  t_syscall_args :: "u32 list"
  t_syscall_stack_top :: u32
  t_syscall_mode :: bool
  t_syscall_is_timeout :: bool
  t_syscall_timeout :: timespec
  t_retval :: u32
  t_retval_join :: u32
  t_file_request_size :: nat
  t_sleep_ticks :: u32
  t_preempt_cnt :: u32
  t_tid :: nat
  t_timer_cnt :: nat
  t_timers_list :: "u32 list option"
  t_privilege :: privilege
  t_status :: tstatus
  t_priority :: nat
  t_original_priority :: nat
  t_kernel_thread :: bool
  t_priority_inherited :: bool
  t_detached :: bool
  t_joinable :: bool
  t_name :: string
  t_once_control :: "nat option"
  t_sig_table :: "nat \<Rightarrow> sigaction option"
  t_signal_queue :: kfifo
  t_sig_wait_set :: u32
  t_signal_cnt :: nat
  t_ret_sig :: u32
  t_wait_for_signal :: bool
  t_poll_files :: "nat list"

record task =
  k_pid :: nat
  k_main_thread :: nat
  k_bitmap_fds :: "u32 list"
  k_bitmap_mqds :: "u32 list"
  k_threads_list :: "nat list"

text \<open>The heads a scheduling node can be linked to: the global lists, the ready list of a
  priority, the join list of a thread, and the wait list of a mutex, condition variable,
  semaphore, pipe or message queue, named by a number.\<close>

datatype lid = Sleep | Suspend | Poll | Ready nat | Join nat | WaitQ nat

text \<open>The return handlers that the code puts into stack frames; their addresses are the
  linker's.\<close>

datatype handler = Syscall_Return | Thread_Return | Signal_Cleanup | Thread_Once_Return

record kstate =
  threads :: "nat \<Rightarrow> thread"
  running :: nat
  links :: "(lid \<times> nat) list"
  threads_list :: "nat list"
  timeout_list :: "nat list"
  tasks :: "nat \<Rightarrow> task"
  tasks_list :: "nat list"
  bitmap_threads :: "u32 list"
  bitmap_tasks :: "u32 list"
  bitmap_fds :: "u32 list"
  bitmap_mqds :: "u32 list"
  preempt_cnt :: u32
  irq_off :: bool
  need_resched_flag :: bool
  syscall_flag :: bool
  page_start :: u32
  pages :: page_bitmap
  mem :: "u32 \<Rightarrow> u32"
  handler_addr :: "handler \<Rightarrow> u32"
  sys_time :: timespec

definition THREAD_PRIORITY_MAX :: nat where [config]: "THREAD_PRIORITY_MAX = 8"
definition PRI_RESERVED :: nat where [config]: "PRI_RESERVED = 2"
definition KTHREAD_PRI_MAX :: nat where [config]: "KTHREAD_PRI_MAX = THREAD_PRIORITY_MAX + PRI_RESERVED"
definition THREAD_MAX :: nat where [config]: "THREAD_MAX = 64"
definition TASK_MAX :: nat where [config]: "TASK_MAX = 64"
definition THREAD_NAME_MAX :: nat where [config]: "THREAD_NAME_MAX = 50"

definition upd_thread :: "nat \<Rightarrow> (thread \<Rightarrow> thread) \<Rightarrow> 'a kstate_scheme \<Rightarrow> 'a kstate_scheme" where
  "upd_thread t f s = s\<lparr>threads := (threads s)(t := f (threads s t))\<rparr>"

text \<open>\<^verbatim>\<open>current_task_info\<close>.\<close>

definition current_task :: "'a kstate_scheme \<Rightarrow> nat option" where
  "current_task s = t_task (threads s (running s))"

section \<open>Preemption\<close>

definition preempt_count_inc :: "'a kstate_scheme \<Rightarrow> 'a kstate_scheme" where
  "preempt_count_inc s = s\<lparr>preempt_cnt := preempt_cnt s + 1\<rparr>"

definition preempt_count_dec :: "'a kstate_scheme \<Rightarrow> 'a kstate_scheme" where
  "preempt_count_dec s = (if preempt_cnt s > 0 then s\<lparr>preempt_cnt := preempt_cnt s - 1\<rparr> else s)"

definition preempt_disable :: "'a kstate_scheme \<Rightarrow> 'a kstate_scheme" where
  "preempt_disable s =
     preempt_count_inc (if preempt_cnt s = 0 then s\<lparr>irq_off := True\<rparr> else s)"

definition preempt_enable :: "'a kstate_scheme \<Rightarrow> 'a kstate_scheme" where
  "preempt_enable s =
     (let s1 = preempt_count_dec s in
      if preempt_cnt s1 = 0 then s1\<lparr>irq_off := False\<rparr> else s1)"

definition preempt_count_set :: "u32 \<Rightarrow> 'a kstate_scheme \<Rightarrow> 'a kstate_scheme" where
  "preempt_count_set n s = s\<lparr>preempt_cnt := n\<rparr>"

text \<open>A critical section: the body of an operation between \<^verbatim>\<open>preempt_disable\<close> and
  \<^verbatim>\<open>preempt_enable\<close>, on every path out of it.\<close>

definition crit :: "('a kstate_scheme \<Rightarrow> 'a kstate_scheme option) \<Rightarrow> 'a kstate_scheme \<Rightarrow> 'a kstate_scheme option" where
  "crit f s = map_option preempt_enable (f (preempt_disable s))"

definition critr ::
  "('a kstate_scheme \<Rightarrow> ('a kstate_scheme \<times> 'r) option) \<Rightarrow> 'a kstate_scheme \<Rightarrow> ('a kstate_scheme \<times> 'r) option" where
  "critr f s = map_option (\<lambda>(s', r). (preempt_enable s', r)) (f (preempt_disable s))"

text \<open>\<^verbatim>\<open>jump_to_kernel\<close> (\<^verbatim>\<open>kernel/arch/v7m_port.c\<close>): the nesting level of the thread is saved
  and the level of the kernel loop is zero; the second half runs when the thread continues.\<close>

definition jump_to_kernel_leave :: "'a kstate_scheme \<Rightarrow> 'a kstate_scheme" where
  "jump_to_kernel_leave s =
     (preempt_count_set 0 (upd_thread (running s) (t_preempt_cnt_update (\<lambda>_. preempt_cnt s))
        (s\<lparr>irq_off := True\<rparr>)))\<lparr>irq_off := False\<rparr>"

definition jump_to_kernel_resume :: "'a kstate_scheme \<Rightarrow> 'a kstate_scheme" where
  "jump_to_kernel_resume s =
     (let s1 = preempt_count_set (t_preempt_cnt (threads s (running s))) s in
      if preempt_cnt s1 \<noteq> 0 then s1\<lparr>irq_off := True\<rparr> else s1)"

section \<open>Lists\<close>

definition lid_ok :: "lid \<Rightarrow> bool" where
  "lid_ok l = (case l of Ready p \<Rightarrow> p \<le> KTHREAD_PRI_MAX | _ \<Rightarrow> True)"

definition node_add :: "nat \<Rightarrow> lid \<Rightarrow> 'a kstate_scheme \<Rightarrow> 'a kstate_scheme option" where
  "node_add t l s =
     (if lk_linked t (links s) \<or> \<not> lid_ok l then None else Some (s\<lparr>links := lk_add t l (links s)\<rparr>))"

definition node_del :: "nat \<Rightarrow> 'a kstate_scheme \<Rightarrow> 'a kstate_scheme option" where
  "node_del t s = (if lk_linked t (links s) then Some (s\<lparr>links := lk_del t (links s)\<rparr>) else None)"

definition node_move :: "nat \<Rightarrow> lid \<Rightarrow> 'a kstate_scheme \<Rightarrow> 'a kstate_scheme option" where
  "node_move t l s = node_del t s \<bind> node_add t l"

text \<open>\<^verbatim>\<open>INIT_LIST_HEAD\<close> of a wait list; nodes that are still on it would be left dangling.\<close>

definition head_init :: "lid \<Rightarrow> 'a kstate_scheme \<Rightarrow> 'a kstate_scheme option" where
  "head_init l s = (if lst (links s) l = [] then Some s else None)"

end
