(* ===== verification/Sched.thy ===== *)
theory Sched
  imports Kstate
begin

text \<open>
  The scheduler (\<^verbatim>\<open>kernel/kernel.c\<close>): waiting and waking, sleeping, the tick, pending signals
  and the selection of the next thread.
\<close>

section \<open>Waiting and waking\<close>

definition set_status :: "nat \<Rightarrow> tstatus \<Rightarrow> 'a kstate_scheme \<Rightarrow> 'a kstate_scheme" where
  "set_status t st = upd_thread t (t_status_update (\<lambda>_. st))"

definition prepare_to_wait :: "lid \<Rightarrow> nat \<Rightarrow> tstatus \<Rightarrow> 'a kstate_scheme \<Rightarrow> 'a kstate_scheme option" where
  "prepare_to_wait wait_list thread state = crit (\<lambda>s. do {
     s1 \<leftarrow> node_add thread wait_list s;
     Some (set_status thread state s1)
   })"

definition finish_wait :: "nat \<Rightarrow> 'a kstate_scheme \<Rightarrow> 'a kstate_scheme option" where
  "finish_wait thread = crit (\<lambda>s.
     if thread \<noteq> running s then
       node_move thread (Ready (t_priority (threads s thread))) (set_status thread THREAD_READY s)
     else Some s)"

text \<open>The loop of \<^verbatim>\<open>wake_up\<close> that finds the first thread of the highest priority.\<close>

definition highest_pri_thread :: "'a kstate_scheme \<Rightarrow> nat \<Rightarrow> nat list \<Rightarrow> nat" where
  "highest_pri_thread s first ts =
     foldl (\<lambda>h t. if t_priority (threads s t) > t_priority (threads s h) then t else h) first ts"

definition wake_up :: "lid \<Rightarrow> 'a kstate_scheme \<Rightarrow> 'a kstate_scheme option" where
  "wake_up wait_list = crit (\<lambda>s.
     case lst (links s) wait_list of
       [] \<Rightarrow> Some s
     | first # rest \<Rightarrow>
         let h = highest_pri_thread s first (first # rest) in do {
           s1 \<leftarrow> node_move h (Ready (t_priority (threads s h))) s;
           Some (set_status h THREAD_READY s1)
         })"

text \<open>\<^verbatim>\<open>list_for_each_safe\<close> over the threads of a list, each of which the body moves to a ready
  list: the nodes visited are those of the list at the start.\<close>

primrec ready_each :: "nat list \<Rightarrow> 'a kstate_scheme \<Rightarrow> 'a kstate_scheme option" where
  "ready_each [] s = Some s"
| "ready_each (t # ts) s = do {
     s1 \<leftarrow> node_move t (Ready (t_priority (threads s t))) s;
     ready_each ts (set_status t THREAD_READY s1)
   }"

definition wake_up_all :: "lid \<Rightarrow> 'a kstate_scheme \<Rightarrow> 'a kstate_scheme option" where
  "wake_up_all wait_list = crit (\<lambda>s. ready_each (lst (links s) wait_list) s)"

definition thread_suspend :: "nat \<Rightarrow> 'a kstate_scheme \<Rightarrow> 'a kstate_scheme option" where
  "thread_suspend thread s =
     (if t_status (threads s thread) = THREAD_SUSPENDED then Some s
      else prepare_to_wait Suspend thread THREAD_SUSPENDED s)"

definition thread_resume :: "nat \<Rightarrow> 'a kstate_scheme \<Rightarrow> 'a kstate_scheme option" where
  "thread_resume thread s =
     (if t_status (threads s thread) \<noteq> THREAD_SUSPENDED then Some s
      else node_move thread (Ready (t_priority (threads s thread)))
             (set_status thread THREAD_READY s))"

definition sys_delay_ticks :: "u32 \<Rightarrow> 'a kstate_scheme \<Rightarrow> ('a kstate_scheme \<times> int) option" where
  "sys_delay_ticks ticks = critr (\<lambda>s. do {
     let s1 = upd_thread (running s) (t_sleep_ticks_update (\<lambda>_. ticks)) s;
     s2 \<leftarrow> node_add (running s) Sleep (set_status (running s) THREAD_WAIT s1);
     Some (s2, 0)
   })"

definition sys_sched_yield :: "'a kstate_scheme \<Rightarrow> ('a kstate_scheme \<times> int) option" where
  "sys_sched_yield s = map_option (\<lambda>s'. (s', 0)) (prepare_to_wait Sleep (running s) THREAD_WAIT s)"

definition sys_pthread_yield :: "'a kstate_scheme \<Rightarrow> ('a kstate_scheme \<times> int) option" where
  "sys_pthread_yield s = map_option (\<lambda>s'. (s', 0)) (prepare_to_wait Sleep (running s) THREAD_WAIT s)"

section \<open>Ticks\<close>

definition tick_thread :: "nat \<Rightarrow> 'a kstate_scheme \<Rightarrow> 'a kstate_scheme" where
  "tick_thread t s =
     (if t_sleep_ticks (threads s t) > 0
      then upd_thread t (t_sleep_ticks_update (\<lambda>n. n - 1)) s else s)"

definition threads_ticks_update :: "'a kstate_scheme \<Rightarrow> 'a kstate_scheme" where
  "threads_ticks_update s = fold tick_thread (lst (links s) Sleep) s"

definition set_need_resched :: "'a kstate_scheme \<Rightarrow> 'a kstate_scheme" where
  "set_need_resched s = s\<lparr>need_resched_flag := True\<rparr>"

definition reset_need_resched :: "'a kstate_scheme \<Rightarrow> 'a kstate_scheme" where
  "reset_need_resched s = s\<lparr>need_resched_flag := False\<rparr>"

definition schedule_request :: "'a kstate_scheme \<Rightarrow> 'a kstate_scheme" where
  "schedule_request s = jump_to_kernel_leave (preempt_enable (set_need_resched (preempt_disable s)))"

section \<open>Stack frames and pending signals\<close>

text \<open>The words of memory from an address on.\<close>

primrec mem_store :: "(u32 \<Rightarrow> u32) \<Rightarrow> u32 \<Rightarrow> u32 list \<Rightarrow> (u32 \<Rightarrow> u32)" where
  "mem_store m a [] = m"
| "mem_store m a (w # ws) = mem_store (m(a := w)) (a + 4) ws"

definition INITIAL_XPSR :: u32 where "INITIAL_XPSR = 0x01000000"
definition THREAD_PSP :: u32 where "THREAD_PSP = 0xFFFFFFFD"

definition stack_frame :: "u32 \<Rightarrow> u32 \<Rightarrow> u32 list \<Rightarrow> u32 list" where
  "stack_frame func return_handler args =
     [0, 0, 0, 0, 0, 0, 0, 0, THREAD_PSP, 0, args ! 0, args ! 1, args ! 2, args ! 3, 0,
      return_handler, func AND 0xfffffffe, INITIAL_XPSR]"

text \<open>\<^verbatim>\<open>__stack_init\<close>: the new stack pointer and the memory with the frame. The four arguments
  are read through a pointer, which may be \<^verbatim>\<open>NULL\<close>.\<close>

definition stack_init ::
  "(u32 \<Rightarrow> u32) \<Rightarrow> u32 \<Rightarrow> u32 \<Rightarrow> u32 \<Rightarrow> u32 list option \<Rightarrow> (u32 \<times> (u32 \<Rightarrow> u32)) option" where
  "stack_init m stack_top func return_handler args = do {
     as \<leftarrow> args;
     let sp = stack_top - 72;
     Some (sp, mem_store m sp (stack_frame func return_handler as))
   }"

definition get_syscall_num :: "(u32 \<Rightarrow> u32) \<Rightarrow> u32 \<Rightarrow> u32" where
  "get_syscall_num m sp = m (sp + 36)"

definition get_syscall_args :: "(u32 \<Rightarrow> u32) \<Rightarrow> u32 \<Rightarrow> u32 list" where
  "get_syscall_args m sp =
     (if m (sp + 32) AND 0x10 \<noteq> 0 then [sp + 40, sp + 44, sp + 48, sp + 52]
      else [sp + 104, sp + 108, sp + 112, sp + 116])"

definition stage_temporary_handler ::
  "nat \<Rightarrow> u32 \<Rightarrow> u32 \<Rightarrow> u32 list option \<Rightarrow> 'a kstate_scheme \<Rightarrow> 'a kstate_scheme option" where
  "stage_temporary_handler thread func return_handler args s = do {
     let s1 = upd_thread thread (\<lambda>th. th\<lparr>t_stack_top_preserved := t_stack_top th\<rparr>) s;
     (sp, m) \<leftarrow> stack_init (mem s1) (t_stack_top (threads s1 thread)) func return_handler args;
     Some ((upd_thread thread (t_stack_top_update (\<lambda>_. sp)) s1)\<lparr>mem := m\<rparr>)
   }"

text \<open>\<^verbatim>\<open>struct staged_handler_info\<close>, five words, as the bytes the signal queue holds.\<close>

definition word_bytes :: "u32 \<Rightarrow> u8 list" where
  "word_bytes w = [ucast w, ucast (drop_bit 8 w), ucast (drop_bit 16 w), ucast (drop_bit 24 w)]"

definition bytes_word :: "u8 list \<Rightarrow> u32" where
  "bytes_word bs = foldr (\<lambda>b w. ucast b OR push_bit 8 w) (take 4 bs) 0"

definition info_bytes :: "u32 \<Rightarrow> u32 list \<Rightarrow> u8 list" where
  "info_bytes func args = concat (map word_bytes (func # args))"

definition info_decode :: "u8 list \<Rightarrow> u32 \<times> u32 list" where
  "info_decode bs = (bytes_word bs, map (\<lambda>i. bytes_word (drop (4 * i) bs)) [1, 2, 3, 4])"

definition SIGNAL_QUEUE_SIZE :: nat where [config]: "SIGNAL_QUEUE_SIZE = 5"

definition STAGED_HANDLER_INFO_SIZE :: nat where [config]: "STAGED_HANDLER_INFO_SIZE = 20"

definition enqueue_pending_signal ::
  "nat \<Rightarrow> u32 \<Rightarrow> u32 list \<Rightarrow> 'a kstate_scheme \<Rightarrow> 'a kstate_scheme option" where
  "enqueue_pending_signal thread func args s = do {
     q \<leftarrow> kfifo_in (t_signal_queue (threads s thread)) (info_bytes func args);
     Some (upd_thread thread
             (\<lambda>th. th\<lparr>t_signal_queue := q, t_signal_cnt := nat (kfifo_len q)\<rparr>) s)
   }"

definition check_pending_signals :: "'a kstate_scheme \<Rightarrow> 'a kstate_scheme option" where
  "check_pending_signals s =
     (let th = threads s (running s) in
      if t_signal_cnt th = 0 \<or> t_stack_top_preserved th \<noteq> 0 then Some s
      else do {
        (q, r) \<leftarrow> kfifo_out (t_signal_queue th) STAGED_HANDLER_INFO_SIZE;
        bs \<leftarrow> r;
        let (func, args) = info_decode bs;
        let s1 = upd_thread (running s) (t_signal_queue_update (\<lambda>_. q)) s;
        s2 \<leftarrow> stage_temporary_handler (running s) func (handler_addr s Signal_Cleanup) (Some args) s1;
        Some (upd_thread (running s) (t_signal_cnt_update (\<lambda>_. nat (kfifo_len q))) s2)
      })"

section \<open>Selecting a thread\<close>

text \<open>The second loop of \<^verbatim>\<open>__schedule\<close>, again over the nodes of the list at the start.\<close>

primrec wake_sleepers :: "nat list \<Rightarrow> 'a kstate_scheme \<Rightarrow> 'a kstate_scheme option" where
  "wake_sleepers [] s = Some s"
| "wake_sleepers (t # ts) s =
     (if t_sleep_ticks (threads s t) = 0 then do {
        s1 \<leftarrow> node_move t (Ready (t_priority (threads s t))) s;
        wake_sleepers ts (set_status t THREAD_READY s1)
      } else wake_sleepers ts s)"

text \<open>The search from the highest priority down; \<^const>\<open>None\<close> is the index \<open>-1\<close> after the loop.\<close>

fun find_ready :: "'a kstate_scheme \<Rightarrow> nat \<Rightarrow> nat option" where
  "find_ready s 0 = (if lst (links s) (Ready 0) \<noteq> [] then Some 0 else None)"
| "find_ready s (Suc p) = (if lst (links s) (Ready (Suc p)) \<noteq> [] then Some (Suc p) else find_ready s p)"

definition k_schedule :: "'a kstate_scheme \<Rightarrow> 'a kstate_scheme option" where
  "k_schedule s = do {
     s1 \<leftarrow> (if t_status (threads s (running s)) = THREAD_RUNNING
            then prepare_to_wait Sleep (running s) THREAD_WAIT s else Some s);
     s2 \<leftarrow> wake_sleepers (lst (links s1) Sleep) s1;
     pri \<leftarrow> find_ready s2 KTHREAD_PRI_MAX;
     let t = hd (lst (links s2) (Ready pri));
     s3 \<leftarrow> node_del t (set_status t THREAD_RUNNING (s2\<lparr>running := t\<rparr>));
     (if \<not> t_syscall_mode (threads s3 t) then check_pending_signals s3 else Some s3)
   }"

section \<open>The scheduling invariant\<close>

definition sched_wf :: "'a kstate_scheme \<Rightarrow> bool" where
  "sched_wf s \<longleftrightarrow> lk_wf (links s)
     \<and> (\<forall>p t. t \<in> set (lst (links s) (Ready p)) \<longrightarrow>
           t_status (threads s t) = THREAD_READY \<and> t_priority (threads s t) = p)
     \<and> (\<forall>t. t_status (threads s t) = THREAD_READY \<longrightarrow>
           t \<in> set (lst (links s) (Ready (t_priority (threads s t)))))
     \<and> (\<forall>t. t_status (threads s t) = THREAD_RUNNING \<longrightarrow> t = running s \<and> \<not> lk_linked t (links s))
     \<and> (\<forall>t. t_priority (threads s t) \<le> KTHREAD_PRI_MAX)"

lemma sched_wfI:
  assumes "lk_wf (links s)"
    and "\<And>p t. t \<in> set (lst (links s) (Ready p)) \<Longrightarrow> t_status (threads s t) = THREAD_READY"
    and "\<And>p t. t \<in> set (lst (links s) (Ready p)) \<Longrightarrow> t_priority (threads s t) = p"
    and "\<And>t. t_status (threads s t) = THREAD_READY \<Longrightarrow> t \<in> set (lst (links s) (Ready (t_priority (threads s t))))"
    and "\<And>t. t_status (threads s t) = THREAD_RUNNING \<Longrightarrow> t = running s \<and> \<not> lk_linked t (links s)"
    and "\<And>t. t_priority (threads s t) \<le> KTHREAD_PRI_MAX"
  shows "sched_wf s"
  using assms by (simp add: sched_wf_def)

lemma sched_wfD:
  assumes "sched_wf s"
  shows "lk_wf (links s)"
    and "t \<in> set (lst (links s) (Ready p)) \<Longrightarrow> t_status (threads s t) = THREAD_READY"
    and "t \<in> set (lst (links s) (Ready p)) \<Longrightarrow> t_priority (threads s t) = p"
    and "t_status (threads s t) = THREAD_READY \<Longrightarrow> t \<in> set (lst (links s) (Ready (t_priority (threads s t))))"
    and "t_status (threads s t) = THREAD_RUNNING \<Longrightarrow> t = running s"
    and "t_status (threads s t) = THREAD_RUNNING \<Longrightarrow> \<not> lk_linked t (links s)"
    and "t_priority (threads s t) \<le> KTHREAD_PRI_MAX"
  using assms by (auto simp: sched_wf_def)

text \<open>What the critical sections and the record updates leave alone.\<close>

lemma preempt_frame [simp]:
  "threads (preempt_disable s) = threads s" "threads (preempt_enable s) = threads s"
  "links (preempt_disable s) = links s" "links (preempt_enable s) = links s"
  "running (preempt_disable s) = running s" "running (preempt_enable s) = running s"
  "mem (preempt_disable s) = mem s" "mem (preempt_enable s) = mem s"
  "handler_addr (preempt_disable s) = handler_addr s" "handler_addr (preempt_enable s) = handler_addr s"
  by (simp_all add: preempt_disable_def preempt_enable_def preempt_count_inc_def preempt_count_dec_def Let_def)

lemma set_status_frame [simp]:
  "links (set_status t st s) = links s" "running (set_status t st s) = running s"
  "threads (set_status t st s) u = (if u = t then (threads s t)\<lparr>t_status := st\<rparr> else threads s u)"
  by (simp_all add: set_status_def upd_thread_def)

lemma upd_thread_frame [simp]:
  "links (upd_thread t f s) = links s" "running (upd_thread t f s) = running s"
  "threads (upd_thread t f s) u = (if u = t then f (threads s t) else threads s u)"
  "mem (upd_thread t f s) = mem s" "handler_addr (upd_thread t f s) = handler_addr s"
  by (simp_all add: upd_thread_def)

lemma sched_wf_cong:
  "threads s' = threads s \<Longrightarrow> links s' = links s \<Longrightarrow> running s' = running s \<Longrightarrow> sched_wf s' = sched_wf s"
  by (simp add: sched_wf_def)

lemma sched_wf_preempt [simp]:
  "sched_wf (preempt_disable s) = sched_wf s" "sched_wf (preempt_enable s) = sched_wf s"
  by (rule sched_wf_cong; simp)+

lemma lk_move_new: "t \<notin> set (lst L h) \<Longrightarrow> filter (\<lambda>m. m \<noteq> t) (lst L h) = lst L h"
  by (auto simp: filter_id_conv)

lemma KTHREAD_PRI_MAX_eq: "KTHREAD_PRI_MAX = 10"
  by (simp add: config)

text \<open>Making a linked thread ready.\<close>

definition make_ready :: "nat \<Rightarrow> 'a kstate_scheme \<Rightarrow> 'a kstate_scheme" where
  "make_ready t s =
     set_status t THREAD_READY (s\<lparr>links := lk_move t (Ready (t_priority (threads s t))) (links s)\<rparr>)"

lemma make_ready_frame [simp]:
  "running (make_ready t s) = running s"
  "threads (make_ready t s) u = (if u = t then (threads s t)\<lparr>t_status := THREAD_READY\<rparr> else threads s u)"
  "links (make_ready t s) = lk_move t (Ready (t_priority (threads s t))) (links s)"
  by (simp_all add: make_ready_def)

lemma node_move_ready:
  assumes "sched_wf s" and "lk_linked t (links s)"
  shows "node_move t (Ready (t_priority (threads s t))) s
       = Some (s\<lparr>links := lk_move t (Ready (t_priority (threads s t))) (links s)\<rparr>)"
  using assms by (simp add: node_move_def node_del_def node_add_def lid_ok_def lk_move_def sched_wf_def)

lemma node_move_ready':
  assumes "sched_wf s" and "lk_linked t (links s)"
  shows "node_move t (Ready (t_priority (threads s t))) (set_status t THREAD_READY s)
       = Some (make_ready t s)"
  using assms
  by (simp add: node_move_def node_del_def node_add_def lid_ok_def lk_move_def sched_wf_def
      make_ready_def set_status_def upd_thread_def)

lemma make_ready_wf:
  assumes wf: "sched_wf s" and t: "lk_linked t (links s)"
  shows "sched_wf (make_ready t s)"
proof (rule sched_wfI)
  note w = sched_wfD [OF wf]
  let ?p = "t_priority (threads s t)"
  have mem: "u \<in> set (lst (links (make_ready t s)) (Ready p))
      \<longleftrightarrow> (u = t \<and> p = ?p) \<or> (u \<noteq> t \<and> u \<in> set (lst (links s) (Ready p)))" for u p by auto
  show "lk_wf (links (make_ready t s))" using w(1) by (simp add: lk_wf_move)
  show "t_priority (threads (make_ready t s) u) \<le> KTHREAD_PRI_MAX" for u using w(7) by simp
  fix u
  show "t_status (threads (make_ready t s) u) = THREAD_READY"
    "t_priority (threads (make_ready t s) u) = p"
    if "u \<in> set (lst (links (make_ready t s)) (Ready p))" for p
    using that w(2,3) unfolding mem by auto
  show "u \<in> set (lst (links (make_ready t s)) (Ready (t_priority (threads (make_ready t s) u))))"
    if "t_status (threads (make_ready t s) u) = THREAD_READY"
    unfolding mem using that w(4) by (cases "u = t") auto
  show "u = running (make_ready t s) \<and> \<not> lk_linked u (links (make_ready t s))"
    if "t_status (threads (make_ready t s) u) = THREAD_RUNNING"
    using that w(5,6) t by (cases "u = t") auto
qed

lemma prepare_to_wait_wf:
  assumes wf: "sched_wf s" and t: "\<not> lk_linked t (links s)" and l: "\<forall>p. l \<noteq> Ready p"
    and st: "st \<noteq> THREAD_READY" "st \<noteq> THREAD_RUNNING"
  shows "\<exists>s'. prepare_to_wait l t st s = Some s' \<and> sched_wf s' \<and> running s' = running s
     \<and> links s' = lk_add t l (links s)
     \<and> threads s' = (threads s)(t := (threads s t)\<lparr>t_status := st\<rparr>)"
proof -
  have "lid_ok l" using l by (cases l) (auto simp: lid_ok_def)
  then have p: "prepare_to_wait l t st s =
      Some (preempt_enable (set_status t st ((preempt_disable s)\<lparr>links := lk_add t l (links s)\<rparr>)))" (is "_ = Some ?s'")
    using t by (simp add: prepare_to_wait_def crit_def node_add_def)
  have "t_status (threads s t) \<noteq> THREAD_READY"
    using wf t by (auto simp: sched_wf_def lk_linked_iff)
  then have "sched_wf ?s'" using sched_wfD [OF wf] t l st
    by (intro sched_wfI) (auto simp: lk_wf_add split: if_splits)
  then show ?thesis using p by (simp add: fun_eq_iff)
qed

section \<open>Waking\<close>

lemma highest_pri_thread_cases:
  fixes s :: "'a kstate_scheme"
  defines "pr \<equiv> \<lambda>t. t_priority (threads s t)"
  shows "highest_pri_thread s f ts = f \<and> (\<forall>t \<in> set ts. pr t \<le> pr f)
     \<or> (\<exists>us vs. ts = us @ highest_pri_thread s f ts # vs \<and> pr f < pr (highest_pri_thread s f ts)
          \<and> (\<forall>u \<in> set us. pr u < pr (highest_pri_thread s f ts))
          \<and> (\<forall>v \<in> set vs. pr v \<le> pr (highest_pri_thread s f ts)))"
proof (induction ts arbitrary: f)
  case (Cons t ts)
  define g where "g = (if pr t > pr f then t else f)"
  define h where "h = highest_pri_thread s f (t # ts)"
  have hg: "h = highest_pri_thread s g ts"
    by (simp add: highest_pri_thread_def g_def h_def pr_def)
  from Cons.IH [of g, folded hg] show ?case
  proof (elim disjE exE conjE)
    assume "h = g" "\<forall>u \<in> set ts. pr u \<le> pr g"
    then show ?thesis unfolding h_def [symmetric]
      by (cases "pr t > pr f") (auto simp: g_def intro: exI [of _ "[]"])
  next
    fix us vs
    assume a: "ts = us @ h # vs" "pr g < pr h" "\<forall>u \<in> set us. pr u < pr h" "\<forall>v \<in> set vs. pr v \<le> pr h"
    have "t # ts = (t # us) @ h # vs" using a(1) by simp
    moreover have "pr f < pr h" "pr t < pr h" using a(2) by (auto simp: g_def split: if_splits)
    ultimately show ?thesis unfolding h_def [symmetric] using a(3,4)
      by (intro disjI2 exI [of _ "t # us"] exI [of _ vs]) auto
  qed
qed (simp add: highest_pri_thread_def)

lemma highest_pri_thread_first:
  assumes "ts \<noteq> []"
  shows "\<exists>us vs. ts = us @ highest_pri_thread s (hd ts) ts # vs
     \<and> (\<forall>u \<in> set us. t_priority (threads s u) < t_priority (threads s (highest_pri_thread s (hd ts) ts)))
     \<and> (\<forall>v \<in> set vs. t_priority (threads s v) \<le> t_priority (threads s (highest_pri_thread s (hd ts) ts)))"
  using highest_pri_thread_cases [of s "hd ts" ts]
proof (elim disjE conjE)
  assume a: "highest_pri_thread s (hd ts) ts = hd ts"
    "\<forall>t \<in> set ts. t_priority (threads s t) \<le> t_priority (threads s (hd ts))"
  then show ?thesis using assms by (intro exI [of _ "[]"] exI [of _ "tl ts"]) (auto dest: list.set_sel(2))
qed blast

lemma wake_up_spec:
  assumes wf: "sched_wf s" and l: "lst (links s) l \<noteq> []"
  defines "h \<equiv> highest_pri_thread s (hd (lst (links s) l)) (lst (links s) l)"
  shows "wake_up l s = Some (preempt_enable (make_ready h (preempt_disable s)))"
    and "h \<in> set (lst (links s) l)" and "lk_linked h (links s)"
proof -
  from highest_pri_thread_first [OF l, of s] show h: "h \<in> set (lst (links s) l)"
    unfolding h_def by (metis in_set_conv_decomp)
  then show lk: "lk_linked h (links s)" by (auto simp: lk_linked_iff)
  obtain t ts where ts: "lst (links s) l = t # ts" using l by (cases "lst (links s) l") auto
  have "highest_pri_thread (preempt_disable s) t (t # ts) = h"
    by (simp add: h_def highest_pri_thread_def ts)
  then show "wake_up l s = Some (preempt_enable (make_ready h (preempt_disable s)))"
    using ts wf node_move_ready [of "preempt_disable s" h] lk by (simp add: wake_up_def crit_def make_ready_def)
qed

lemma wake_up_empty: "lst (links s) l = [] \<Longrightarrow> wake_up l s = Some (preempt_enable (preempt_disable s))"
  by (simp add: wake_up_def crit_def)

lemma wake_up_wf: "sched_wf s \<Longrightarrow> \<exists>s'. wake_up l s = Some s' \<and> sched_wf s'"
  using wake_up_spec [of s l] wake_up_empty [of s l] make_ready_wf [of "preempt_disable s"]
  by (cases "lst (links s) l = []") auto

lemma finish_wait_wf:
  assumes "sched_wf s" and "lk_linked t (links s)"
  shows "\<exists>s'. finish_wait t s = Some s' \<and> sched_wf s'"
  using assms make_ready_wf [of "preempt_disable s" t] node_move_ready' [of "preempt_disable s" t]
  by (auto simp: finish_wait_def crit_def)

lemma thread_resume_wf:
  assumes "sched_wf s" and "t_status (threads s t) = THREAD_SUSPENDED \<Longrightarrow> lk_linked t (links s)"
  shows "\<exists>s'. thread_resume t s = Some s' \<and> sched_wf s'"
  using assms make_ready_wf [of s t] node_move_ready' [of s t] by (auto simp: thread_resume_def)

lemma ready_each_eq:
  "sched_wf s \<Longrightarrow> \<forall>t \<in> set ts. lk_linked t (links s) \<Longrightarrow> ready_each ts s = Some (fold make_ready ts s)
     \<and> sched_wf (fold make_ready ts s)"
proof (induction ts arbitrary: s)
  case (Cons t ts)
  have "ready_each (t # ts) s = ready_each ts (make_ready t s)"
    using node_move_ready [OF Cons.prems(1), of t] Cons.prems(2) by (simp add: make_ready_def)
  moreover have "sched_wf (make_ready t s)" using Cons.prems by (simp add: make_ready_wf)
  ultimately show ?case using Cons.IH [of "make_ready t s"] Cons.prems(2) by simp
qed simp

lemma wake_sleepers_eq:
  "sched_wf s \<Longrightarrow> \<forall>t \<in> set ts. lk_linked t (links s) \<Longrightarrow>
   wake_sleepers ts s = Some (fold make_ready (filter (\<lambda>t. t_sleep_ticks (threads s t) = 0) ts) s)"
proof (induction ts arbitrary: s)
  case (Cons t ts)
  show ?case
  proof (cases "t_sleep_ticks (threads s t) = 0")
    case True
    have "wake_sleepers (t # ts) s = wake_sleepers ts (make_ready t s)"
      using node_move_ready [OF Cons.prems(1), of t] Cons.prems(2) True by (simp add: make_ready_def)
    moreover have "sched_wf (make_ready t s)" using Cons.prems by (simp add: make_ready_wf)
    moreover have "filter (\<lambda>u. t_sleep_ticks (threads (make_ready t s) u) = 0) ts
        = filter (\<lambda>u. t_sleep_ticks (threads s u) = 0) ts" by (rule filter_cong) auto
    ultimately show ?thesis using Cons.IH [of "make_ready t s"] Cons.prems(2) True by simp
  qed (use Cons in simp)
qed simp

text \<open>Waking a sequence of threads that are not yet ready appends each to the ready list of its
  priority, in order.\<close>

lemma fold_make_ready:
  assumes "sched_wf s" and "distinct ts" and "\<forall>t \<in> set ts. lk_linked t (links s)"
  shows "running (fold make_ready ts s) = running s \<and> sched_wf (fold make_ready ts s)
    \<and> (\<forall>u. threads (fold make_ready ts s) u
           = (if u \<in> set ts then (threads s u)\<lparr>t_status := THREAD_READY\<rparr> else threads s u))
    \<and> (\<forall>l. (\<forall>p. l \<noteq> Ready p) \<longrightarrow>
           lst (links (fold make_ready ts s)) l = filter (\<lambda>t. t \<notin> set ts) (lst (links s) l))
    \<and> ((\<forall>t \<in> set ts. t_status (threads s t) \<noteq> THREAD_READY) \<longrightarrow>
         (\<forall>p. lst (links (fold make_ready ts s)) (Ready p)
            = lst (links s) (Ready p) @ filter (\<lambda>t. t_priority (threads s t) = p) ts))"
  using assms
proof (induction ts arbitrary: s)
  case (Cons t ts)
  let ?s1 = "make_ready t s"
  have wf1: "sched_wf ?s1" using Cons.prems by (simp add: make_ready_wf)
  have prems: "distinct ts" "\<forall>u \<in> set ts. lk_linked u (links ?s1)" "t \<notin> set ts"
    using Cons.prems(2,3) by auto
  note IH = Cons.IH [OF wf1 prems(1,2)]
  have "lst (links (fold make_ready ts ?s1)) l = filter (\<lambda>u. u \<notin> set (t # ts)) (lst (links s) l)"
    if "\<forall>p. l \<noteq> Ready p" for l
    using IH that by (auto simp: filter_filter intro: filter_cong)
  moreover have "lst (links (fold make_ready ts ?s1)) (Ready p)
      = lst (links s) (Ready p) @ filter (\<lambda>t. t_priority (threads s t) = p) (t # ts)"
    if nr: "\<forall>u \<in> set (t # ts). t_status (threads s u) \<noteq> THREAD_READY" for p
  proof -
    have "\<forall>u \<in> set ts. t_status (threads ?s1 u) \<noteq> THREAD_READY" using prems(3) nr by auto
    then have r: "lst (links (fold make_ready ts ?s1)) (Ready p)
        = lst (links ?s1) (Ready p) @ filter (\<lambda>t. t_priority (threads ?s1 t) = p) ts" using IH by blast
    have "t \<notin> set (lst (links s) (Ready q))" for q
      using nr sched_wfD(2) [OF Cons.prems(1)] by auto
    then have "lst (links ?s1) (Ready p) = lst (links s) (Ready p)
        @ (if t_priority (threads s t) = p then [t] else [])" by (auto simp: lk_move_new)
    moreover have "filter (\<lambda>u. t_priority (threads ?s1 u) = p) ts = filter (\<lambda>u. t_priority (threads s u) = p) ts"
      using prems(3) by (intro filter_cong) auto
    ultimately show ?thesis using r by simp
  qed
  ultimately show ?case using IH prems(3) by simp
qed simp

section \<open>Correctness of the selection\<close>

text \<open>The threads that can run, per priority and in the order in which they queued: those on
  the ready list, then the sleepers whose ticks are exhausted, then the thread that is being
  preempted.\<close>

definition ready_queue :: "'a kstate_scheme \<Rightarrow> nat \<Rightarrow> nat list" where
  "ready_queue s p = lst (links s) (Ready p)
     @ filter (\<lambda>t. t_sleep_ticks (threads s t) = 0 \<and> t_priority (threads s t) = p)
         (lst (links s) Sleep
          @ (if t_status (threads s (running s)) = THREAD_RUNNING then [running s] else []))"

text \<open>The record of the oldest pending signal of every thread lies within the queue's buffer.
  The queues of the code have this property although they are too small for the number of slots
  they declare.\<close>

definition sig_ok :: "'a kstate_scheme \<Rightarrow> bool" where
  "sig_ok s \<longleftrightarrow> (\<forall>t. t_signal_cnt (threads s t) \<noteq> 0 \<longrightarrow>
     (let q = t_signal_queue (threads s t) in 0 < kf_count q
        \<and> kf_header_size q + kf_start q * kf_payload_size q + STAGED_HANDLER_INFO_SIZE \<le> length (kf_data q)))"

lemma find_ready_spec:
  assumes "\<exists>p \<le> n. lst (links s) (Ready p) \<noteq> []"
  shows "\<exists>p. find_ready s n = Some p \<and> p \<le> n \<and> lst (links s) (Ready p) \<noteq> []
           \<and> (\<forall>q. p < q \<and> q \<le> n \<longrightarrow> lst (links s) (Ready q) = [])"
  using assms
proof (induction n)
  case (Suc n)
  show ?case
  proof (cases "lst (links s) (Ready (Suc n)) = []")
    case True
    then have "\<exists>p \<le> n. lst (links s) (Ready p) \<noteq> []" using Suc.prems le_Suc_eq by auto
    with Suc.IH True show ?thesis by (auto simp: le_Suc_eq)
  qed auto
qed auto

lemma sched_wf_cong2:
  assumes "\<And>t. t_status (threads s' t) = t_status (threads s t)"
    and "\<And>t. t_priority (threads s' t) = t_priority (threads s t)"
    and "links s' = links s" and "running s' = running s"
  shows "sched_wf s' = sched_wf s"
  using assms by (simp add: sched_wf_def)

lemma check_pending_signals_spec:
  assumes "sig_ok s"
  shows "\<exists>s'. check_pending_signals s = Some s' \<and> links s' = links s \<and> running s' = running s
     \<and> (\<forall>t. t_status (threads s' t) = t_status (threads s t)
          \<and> t_priority (threads s' t) = t_priority (threads s t)
          \<and> t_sleep_ticks (threads s' t) = t_sleep_ticks (threads s t))"
proof -
  let ?th = "threads s (running s)" and ?q = "t_signal_queue (threads s (running s))"
  show ?thesis
  proof (cases "t_signal_cnt ?th = 0 \<or> t_stack_top_preserved ?th \<noteq> 0")
    case True
    then show ?thesis by (simp add: check_pending_signals_def Let_def)
  next
    case False
    with assms have "0 < kf_count ?q" "kf_header_size ?q + kf_start ?q * kf_payload_size ?q + STAGED_HANDLER_INFO_SIZE
        \<le> length (kf_data ?q)" by (auto simp: sig_ok_def Let_def)
    then obtain q' bs where "kfifo_out ?q STAGED_HANDLER_INFO_SIZE = Some (q', Some bs)"
      by (auto simp: kfifo_out_def mem_read_def)
    then show ?thesis using False
      by (auto simp: check_pending_signals_def Let_def info_decode_def stage_temporary_handler_def
          stack_init_def)
  qed
qed

text \<open>The three phases: stopping the current thread, waking the sleepers, taking the first
  thread of the best list.\<close>

lemma schedule_stop:
  assumes wf: "sched_wf s"
  defines "R \<equiv> t_status (threads s (running s)) = THREAD_RUNNING"
  obtains s1 where "(if R then prepare_to_wait Sleep (running s) THREAD_WAIT s else Some s) = Some s1"
    and "sched_wf s1" and "lst (links s1) Sleep = lst (links s) Sleep @ (if R then [running s] else [])"
    and "\<And>p. lst (links s1) (Ready p) = lst (links s) (Ready p)"
    and "\<And>t. t_status (threads s1 t) \<noteq> THREAD_RUNNING"
    and "\<And>t. threads s1 t = (if R \<and> t = running s then (threads s t)\<lparr>t_status := THREAD_WAIT\<rparr> else threads s t)"
proof (cases R)
  case True
  note w = sched_wfD [OF wf]
  have "\<not> lk_linked (running s) (links s)" using w(6) True by (simp add: R_def)
  from prepare_to_wait_wf [OF wf this, of Sleep THREAD_WAIT] obtain s1 where
    s1: "prepare_to_wait Sleep (running s) THREAD_WAIT s = Some s1" "sched_wf s1"
      "links s1 = lk_add (running s) Sleep (links s)"
      "threads s1 = (threads s)(running s := (threads s (running s))\<lparr>t_status := THREAD_WAIT\<rparr>)" by auto
  show ?thesis using w(5) True s1 by (intro that [of s1]) auto
next
  case False
  show ?thesis using sched_wfD(5) [OF wf] False wf by (intro that [of s]) (auto simp: R_def)
qed

lemma schedule_wake:
  assumes wf: "sched_wf s"
  obtains s2 where "wake_sleepers (lst (links s) Sleep) s = Some s2" and "sched_wf s2"
    and "\<And>p. lst (links s2) (Ready p) = lst (links s) (Ready p)
          @ filter (\<lambda>t. t_sleep_ticks (threads s t) = 0 \<and> t_priority (threads s t) = p) (lst (links s) Sleep)"
    and "\<And>t. threads s2 t = threads s t \<or> threads s2 t = (threads s t)\<lparr>t_status := THREAD_READY\<rparr>"
proof -
  note w = sched_wfD [OF wf]
  let ?ts = "filter (\<lambda>t. t_sleep_ticks (threads s t) = 0) (lst (links s) Sleep)"
  have lk: "\<forall>t \<in> set (lst (links s) Sleep). lk_linked t (links s)" by (auto simp: lk_linked_iff)
  have nr: "\<forall>t \<in> set ?ts. t_status (threads s t) \<noteq> THREAD_READY"
    using w(4) lk_wf_head [OF w(1)] by fastforce
  have "distinct ?ts" "\<forall>t \<in> set ?ts. lk_linked t (links s)" using lk_wf_distinct [OF w(1)] lk by auto
  note fm = fold_make_ready [OF wf this]
  show ?thesis
    using fm nr wake_sleepers_eq [OF wf lk]
    by (intro that [of "fold make_ready ?ts s"]) (auto simp: filter_filter conj_commute)
qed

lemma schedule_take:
  assumes wf: "sched_wf s" and t: "t \<in> set (lst (links s) (Ready p))"
    and nr: "\<And>u. t_status (threads s u) \<noteq> THREAD_RUNNING"
  obtains s3 where "node_del t (set_status t THREAD_RUNNING (s\<lparr>running := t\<rparr>)) = Some s3" and "sched_wf s3"
    and "links s3 = lk_del t (links s)" and "running s3 = t"
    and "\<And>u. threads s3 u = (if u = t then (threads s t)\<lparr>t_status := THREAD_RUNNING\<rparr> else threads s u)"
proof -
  note w = sched_wfD [OF wf]
  define s3 where "s3 = (set_status t THREAD_RUNNING (s\<lparr>running := t\<rparr>))\<lparr>links := lk_del t (links s)\<rparr>"
  have nd: "node_del t (set_status t THREAD_RUNNING (s\<lparr>running := t\<rparr>)) = Some s3"
    using t by (auto simp: node_del_def s3_def lk_linked_iff)
  have "sched_wf s3"
  proof (rule sched_wfI)
    show "lk_wf (links s3)" using w(1) by (simp add: s3_def lk_wf_del)
    show "t_priority (threads s3 u) \<le> KTHREAD_PRI_MAX" for u using w(7) by (simp add: s3_def)
    show "t_status (threads s3 u) = THREAD_READY" "t_priority (threads s3 u) = q"
      if "u \<in> set (lst (links s3) (Ready q))" for u q
      using that w(2,3) by (auto simp: s3_def)
    show "u \<in> set (lst (links s3) (Ready (t_priority (threads s3 u))))"
      if "t_status (threads s3 u) = THREAD_READY" for u
      using that w(4) by (auto simp: s3_def split: if_splits)
    show "u = running s3 \<and> \<not> lk_linked u (links s3)" if "t_status (threads s3 u) = THREAD_RUNNING" for u
      using that nr by (auto simp: s3_def split: if_splits)
  qed
  with nd show ?thesis by (intro that [of s3]) (auto simp: s3_def)
qed

lemma schedule_best:
  assumes wf: "sched_wf s" and some: "lst (links s) (Ready p0) \<noteq> []"
  obtains p where "find_ready s KTHREAD_PRI_MAX = Some p" and "lst (links s) (Ready p) \<noteq> []"
    and "\<And>q. p < q \<Longrightarrow> lst (links s) (Ready q) = []"
proof -
  have le: "q \<le> KTHREAD_PRI_MAX" if "lst (links s) (Ready q) \<noteq> []" for q
    using that sched_wfD(3,7) [OF wf] hd_in_set [OF that] by metis
  with some have "\<exists>p \<le> KTHREAD_PRI_MAX. lst (links s) (Ready p) \<noteq> []" by blast
  from find_ready_spec [OF this] obtain p where "find_ready s KTHREAD_PRI_MAX = Some p"
    "lst (links s) (Ready p) \<noteq> []" "\<forall>q. p < q \<and> q \<le> KTHREAD_PRI_MAX \<longrightarrow> lst (links s) (Ready q) = []" by blast
  with le that show ?thesis by blast
qed

lemma k_schedule_spec:
  assumes wf: "sched_wf s" and sig: "sig_ok s" and some: "\<exists>p. ready_queue s p \<noteq> []"
  shows "\<exists>s' p. k_schedule s = Some s' \<and> sched_wf s' \<and> ready_queue s p \<noteq> []
     \<and> (\<forall>q > p. ready_queue s q = []) \<and> running s' = hd (ready_queue s p)
     \<and> t_status (threads s' (running s')) = THREAD_RUNNING
     \<and> (\<forall>q. lst (links s') (Ready q) = (if q = p then tl (ready_queue s p) else ready_queue s q))"
proof -
  let ?R = "t_status (threads s (running s)) = THREAD_RUNNING"
  from schedule_stop [OF wf] obtain s1 where
    s1: "(if ?R then prepare_to_wait Sleep (running s) THREAD_WAIT s else Some s) = Some s1" "sched_wf s1"
      "lst (links s1) Sleep = lst (links s) Sleep @ (if ?R then [running s] else [])"
      "\<And>p. lst (links s1) (Ready p) = lst (links s) (Ready p)"
      "\<And>t. t_status (threads s1 t) \<noteq> THREAD_RUNNING"
      "\<And>t. threads s1 t = (if ?R \<and> t = running s then (threads s t)\<lparr>t_status := THREAD_WAIT\<rparr> else threads s t)"
    by blast
  have th1: "t_sleep_ticks (threads s1 t) = t_sleep_ticks (threads s t)"
    "t_priority (threads s1 t) = t_priority (threads s t)" for t by (simp_all add: s1(6))
  from schedule_wake [OF s1(2)] obtain s2 where s2: "wake_sleepers (lst (links s1) Sleep) s1 = Some s2" "sched_wf s2"
    "\<And>p. lst (links s2) (Ready p) = lst (links s1) (Ready p)
          @ filter (\<lambda>t. t_sleep_ticks (threads s1 t) = 0 \<and> t_priority (threads s1 t) = p) (lst (links s1) Sleep)"
    "\<And>t. threads s2 t = threads s1 t \<or> threads s2 t = (threads s1 t)\<lparr>t_status := THREAD_READY\<rparr>" by blast
  have rq: "lst (links s2) (Ready p) = ready_queue s p" for p
    unfolding s2(3) ready_queue_def s1(3,4) th1 ..
  from some schedule_best [OF s2(2)] obtain p where p: "find_ready s2 KTHREAD_PRI_MAX = Some p"
    "ready_queue s p \<noteq> []" "\<And>q. p < q \<Longrightarrow> ready_queue s q = []" unfolding rq by blast
  define t where "t = hd (ready_queue s p)"
  have t: "t \<in> set (lst (links s2) (Ready p))" using p(2) by (simp add: rq t_def)
  have nr: "t_status (threads s2 u) \<noteq> THREAD_RUNNING" for u using s2(4) [of u] s1(5) [of u] by auto
  from schedule_take [OF s2(2) t nr] obtain s3 where
    s3: "node_del t (set_status t THREAD_RUNNING (s2\<lparr>running := t\<rparr>)) = Some s3" "sched_wf s3"
      "links s3 = lk_del t (links s2)" "running s3 = t"
      "\<And>u. threads s3 u = (if u = t then (threads s2 t)\<lparr>t_status := THREAD_RUNNING\<rparr> else threads s2 u)" by blast
  have "t_signal_cnt (threads s3 u) = t_signal_cnt (threads s u)
      \<and> t_signal_queue (threads s3 u) = t_signal_queue (threads s u)" for u
    using s2(4) [of u] by (auto simp: s3(5) s1(6))
  then have "sig_ok s3" using sig by (simp add: sig_ok_def)
  from check_pending_signals_spec [OF this] obtain s4 where s4: "check_pending_signals s3 = Some s4"
    "links s4 = links s3" "running s4 = t" "\<forall>u. t_status (threads s4 u) = t_status (threads s3 u)
      \<and> t_priority (threads s4 u) = t_priority (threads s3 u)" by (auto simp: s3(4))
  have "sched_wf s4" using sched_wf_cong2 [of s4 s3] s3(2,4) s4 by simp
  define s' where "s' = (if t_syscall_mode (threads s3 t) then s3 else s4)"
  have ks: "k_schedule s = Some s'"
    using s1(1) s2(1) p(1) s3(1) s4(1)
    by (simp add: k_schedule_def rq t_def [symmetric] s'_def del: bind_eq_Some_conv)
  have "lst (links s') (Ready q) = (if q = p then tl (ready_queue s p) else ready_queue s q)" for q
  proof -
    have l: "lst (links s') (Ready q) = filter (\<lambda>m. m \<noteq> t) (ready_queue s q)"
      using s3(3) s4(2) by (simp add: s'_def rq)
    have d: "distinct (ready_queue s p)" using lk_wf_distinct [OF sched_wfD(1) [OF s2(2)], of "Ready p"] by (simp add: rq)
    show ?thesis
    proof (cases "q = p")
      case True
      with d l p(2) show ?thesis by (cases "ready_queue s p") (auto simp: t_def filter_id_conv)
    next
      case False
      have "t \<notin> set (ready_queue s q)"
        using lk_wf_head [OF sched_wfD(1) [OF s2(2)] t, of "Ready q"] False by (auto simp: rq)
      with l False show ?thesis by (auto simp: filter_id_conv)
    qed
  qed
  moreover have "t_status (threads s' (running s')) = THREAD_RUNNING" "running s' = t" "sched_wf s'"
    using s3 s4 \<open>sched_wf s4\<close> by (auto simp: s'_def)
  ultimately show ?thesis using ks p by (auto simp: t_def)
qed

lemma wake_up_all_wf:
  assumes "sched_wf s"
  shows "\<exists>s'. wake_up_all l s = Some s' \<and> sched_wf s'"
proof -
  have "\<forall>t \<in> set (lst (links s) l). lk_linked t (links (preempt_disable s))" by (auto simp: lk_linked_iff)
  from ready_each_eq [OF _ this] assms show ?thesis by (auto simp: wake_up_all_def crit_def)
qed

lemma tick_frame:
  "links (fold tick_thread ts s) = links s" "running (fold tick_thread ts s) = running s"
  "t_status (threads (fold tick_thread ts s) t) = t_status (threads s t)"
  "t_priority (threads (fold tick_thread ts s) t) = t_priority (threads s t)"
  by (induction ts arbitrary: s) (auto simp: tick_thread_def)

lemma tick_ticks:
  "distinct ts \<Longrightarrow> t_sleep_ticks (threads (fold tick_thread ts s) t)
     = (if t \<in> set ts \<and> t_sleep_ticks (threads s t) > 0 then t_sleep_ticks (threads s t) - 1
        else t_sleep_ticks (threads s t))"
  by (induction ts arbitrary: s) (auto simp: tick_thread_def)

lemma threads_ticks_update_frame:
  "links (threads_ticks_update s) = links s" "running (threads_ticks_update s) = running s"
  "t_status (threads (threads_ticks_update s) t) = t_status (threads s t)"
  "t_priority (threads (threads_ticks_update s) t) = t_priority (threads s t)"
  by (simp_all add: threads_ticks_update_def tick_frame)

lemma threads_ticks_update_ticks:
  assumes "lk_wf (links s)"
  shows "unat (t_sleep_ticks (threads (threads_ticks_update s) t))
     = (if t \<in> set (lst (links s) Sleep) then unat (t_sleep_ticks (threads s t)) - 1
        else unat (t_sleep_ticks (threads s t)))"
proof (cases "t_sleep_ticks (threads s t) = 0")
  case False
  then have "1 \<le> t_sleep_ticks (threads s t)" by (simp add: word_le_nat_alt unat_gt_0 Suc_leI)
  then show ?thesis using False lk_wf_distinct [OF assms, of Sleep]
    by (simp add: threads_ticks_update_def tick_ticks unat_sub word_neq_0_conv)
qed (use lk_wf_distinct [OF assms, of Sleep] in \<open>simp add: threads_ticks_update_def tick_ticks\<close>)

lemma threads_ticks_update_wf: "sched_wf s \<Longrightarrow> sched_wf (threads_ticks_update s)"
  using sched_wf_cong2 [of "threads_ticks_update s" s] by (simp add: threads_ticks_update_def tick_frame)

section \<open>Runs of the scheduler\<close>

text \<open>The steps of a running system as far as the scheduler is concerned: the running thread
  blocks, sleeps or yields, a thread or an interrupt handler wakes others, the tick passes, the
  kernel loop reschedules.\<close>

inductive sched_step :: "'a kstate_scheme \<Rightarrow> 'a kstate_scheme \<Rightarrow> bool" where
  step_wait: "t_status (threads s (running s)) = THREAD_RUNNING \<Longrightarrow> \<forall>p. l \<noteq> Ready p \<Longrightarrow>
     prepare_to_wait l (running s) THREAD_WAIT s = Some s' \<Longrightarrow> sched_step s s'"
| step_delay: "t_status (threads s (running s)) = THREAD_RUNNING \<Longrightarrow>
     sys_delay_ticks n s = Some (s', r) \<Longrightarrow> sched_step s s'"
| step_yield: "t_status (threads s (running s)) = THREAD_RUNNING \<Longrightarrow>
     sys_sched_yield s = Some (s', r) \<Longrightarrow> sched_step s s'"
| step_wake: "wake_up l s = Some s' \<Longrightarrow> sched_step s s'"
| step_wake_all: "wake_up_all l s = Some s' \<Longrightarrow> sched_step s s'"
| step_finish: "lk_linked t (links s) \<Longrightarrow> finish_wait t s = Some s' \<Longrightarrow> sched_step s s'"
| step_tick: "sched_step s (threads_ticks_update s)"
| step_schedule: "sig_ok s \<Longrightarrow> \<exists>p. ready_queue s p \<noteq> [] \<Longrightarrow> k_schedule s = Some s' \<Longrightarrow> sched_step s s'"

lemma sys_delay_ticks_wf:
  fixes s :: "'a kstate_scheme"
  assumes wf: "sched_wf s" and r: "t_status (threads s (running s)) = THREAD_RUNNING"
  shows "\<exists>s'. sys_delay_ticks n s = Some (s', 0) \<and> sched_wf s' \<and> running s' = running s
     \<and> links s' = lk_add (running s) Sleep (links s)
     \<and> (\<forall>t. threads s' t = (if t = running s then (threads s t)\<lparr>t_status := THREAD_WAIT, t_sleep_ticks := n\<rparr>
                          else threads s t))"
proof -
  note w = sched_wfD [OF wf]
  have nl: "\<not> lk_linked (running s) (links s)" using w(6) r by simp
  let ?s' = "preempt_enable ((set_status (running s) THREAD_WAIT
      (upd_thread (running s) (t_sleep_ticks_update (\<lambda>_. n)) (preempt_disable s)))
      \<lparr>links := lk_add (running s) Sleep (links s)\<rparr>)"
  have "sys_delay_ticks n s = Some (?s', 0)"
    using nl by (simp add: sys_delay_ticks_def critr_def node_add_def lid_ok_def)
  moreover from prepare_to_wait_wf [OF wf nl, of Sleep THREAD_WAIT] obtain s1 :: "'a kstate_scheme" where
    "sched_wf s1" "running s1 = running s" "links s1 = lk_add (running s) Sleep (links s)"
    "threads s1 = (threads s)(running s := (threads s (running s))\<lparr>t_status := THREAD_WAIT\<rparr>)" by auto
  moreover from this have "sched_wf ?s' = sched_wf s1" by (intro sched_wf_cong2) simp_all
  ultimately show ?thesis by auto
qed

lemma sched_step_wf:
  assumes "sched_step s s'" and wf: "sched_wf s"
  shows "sched_wf s'"
  using assms(1)
proof (cases rule: sched_step.cases)
  case (step_wait l)
  then show ?thesis
    using prepare_to_wait_wf [OF wf, of "running s" l THREAD_WAIT] sched_wfD(6) [OF wf] by auto
next
  case (step_delay n r)
  then show ?thesis using sys_delay_ticks_wf [OF wf, of n] by auto
next
  case (step_yield r)
  then show ?thesis
    using prepare_to_wait_wf [OF wf, of "running s" Sleep THREAD_WAIT] sched_wfD(6) [OF wf]
    by (auto simp: sys_sched_yield_def)
next
  case (step_wake l)
  then show ?thesis using wake_up_wf [OF wf, of l] by auto
next
  case (step_wake_all l)
  then show ?thesis using wake_up_all_wf [OF wf, of l] by auto
next
  case (step_finish t)
  then show ?thesis using finish_wait_wf [OF wf, of t] by auto
next
  case step_tick
  then show ?thesis using threads_ticks_update_wf [OF wf] by simp
next
  case step_schedule
  then show ?thesis using k_schedule_spec [OF wf] by auto
qed

section \<open>Properties\<close>

text \<open>
  C1. \<open>__schedule\<close> is strict-priority scheduling with FIFO order and round robin among equals:
  whenever some thread can run, it terminates with a running thread that has the highest
  priority among those that can run and has queued longest at this priority; the threads left
  behind stay queued in order (a preempted thread behind its equals), and the scheduling
  invariant is kept.\<close>

theorem schedule_strict_priority_fifo:
  assumes "sched_wf s" and "sig_ok s" and "\<exists>p. ready_queue s p \<noteq> []"
  shows "\<exists>s' p. k_schedule s = Some s' \<and> sched_wf s' \<and> ready_queue s p \<noteq> []
     \<and> (\<forall>q > p. ready_queue s q = []) \<and> running s' = hd (ready_queue s p)
     \<and> t_status (threads s' (running s')) = THREAD_RUNNING
     \<and> (\<forall>q. lst (links s') (Ready q) = (if q = p then tl (ready_queue s p) else ready_queue s q))"
  using assms by (rule k_schedule_spec)

text \<open>A concrete kernel state for the witnesses: three threads of priority 3, thread 0 running
  and the others ready, and an idle thread 3 of priority 0.\<close>

definition demo_thread :: "nat \<Rightarrow> nat \<Rightarrow> tstatus \<Rightarrow> thread" where
  "demo_thread t pri st =
     \<lparr>t_task = None, t_stack_top = 0, t_stack_top_preserved = 0, t_stack = 0, t_stack_size = 0,
      t_syscall_args = [], t_syscall_stack_top = 0, t_syscall_mode = False, t_syscall_is_timeout = False,
      t_syscall_timeout = \<lparr>tv_sec = 0, tv_nsec = 0\<rparr>, t_retval = 0, t_retval_join = 0,
      t_file_request_size = 0, t_sleep_ticks = 0, t_preempt_cnt = 0, t_tid = t, t_timer_cnt = 0, t_timers_list = None,
      t_privilege = USER_THREAD, t_status = st, t_priority = pri, t_original_priority = 0,
      t_kernel_thread = False, t_priority_inherited = False, t_detached = False, t_joinable = True,
      t_name = [], t_once_control = None, t_sig_table = (\<lambda>_. None),
      t_signal_queue = kfifo_init [] 22 5, t_sig_wait_set = 0, t_signal_cnt = 0, t_ret_sig = 0,
      t_wait_for_signal = False, t_poll_files = []\<rparr>"

definition demo_kstate :: "(nat \<Rightarrow> thread) \<Rightarrow> nat \<Rightarrow> (lid \<times> nat) list \<Rightarrow> kstate" where
  "demo_kstate th r L =
     \<lparr>threads = th, running = r, links = L, threads_list = [0, 1, 2, 3], timeout_list = [],
      tasks = (\<lambda>p. \<lparr>k_pid = p, k_main_thread = p, k_bitmap_fds = [0, 0, 0, 0], k_bitmap_mqds = [0, 0],
                    k_threads_list = []\<rparr>),
      tasks_list = [], bitmap_threads = [0xf, 0], bitmap_tasks = [0, 0], bitmap_fds = [0, 0, 0, 0],
      bitmap_mqds = [0, 0], preempt_cnt = 0, irq_off = False, need_resched_flag = False,
      syscall_flag = False, page_start = 0x20000000, pages = page_bitmap_init, mem = (\<lambda>_. 0),
      handler_addr = (\<lambda>_. 0), sys_time = \<lparr>tv_sec = 0, tv_nsec = 0\<rparr>\<rparr>"

definition demo_threads :: "nat \<Rightarrow> thread" where
  "demo_threads = (\<lambda>t. demo_thread t 0 THREAD_WAIT)
     (0 := demo_thread 0 3 THREAD_RUNNING, 1 := demo_thread 1 3 THREAD_READY,
      2 := demo_thread 2 3 THREAD_READY, 3 := demo_thread 3 0 THREAD_READY)"

definition demo_state :: kstate where
  "demo_state = demo_kstate demo_threads 0 [(Ready 3, 1), (Ready 3, 2), (Ready 0, 3)]"

lemma demo_state_wf: "sched_wf demo_state" "sig_ok demo_state"
  by (auto simp: demo_state_def demo_kstate_def demo_threads_def demo_thread_def sched_wf_def sig_ok_def
      lk_wf_def lk_linked_def lst_def KTHREAD_PRI_MAX_eq split: if_splits)

theorem schedule_strict_priority_fifo_witness:
  "\<exists>s' p. k_schedule demo_state = Some s' \<and> sched_wf s' \<and> ready_queue demo_state p \<noteq> []
     \<and> (\<forall>q > p. ready_queue demo_state q = []) \<and> running s' = hd (ready_queue demo_state p)
     \<and> t_status (threads s' (running s')) = THREAD_RUNNING
     \<and> (\<forall>q. lst (links s') (Ready q) = (if q = p then tl (ready_queue demo_state p) else ready_queue demo_state q))"
proof (rule schedule_strict_priority_fifo [OF demo_state_wf])
  show "\<exists>p. ready_queue demo_state p \<noteq> []"
    by (rule exI [of _ 3]) (simp add: ready_queue_def demo_state_def demo_kstate_def lst_def)
qed

text \<open>
  C5. Over every run of blocking, sleeping, yielding, waking, ticking and rescheduling, the
  scheduling lists stay sound: no thread is linked twice, exactly the threads in state
  \<^verbatim>\<open>THREAD_READY\<close> are on a ready list, namely on the one of their priority, and no thread but
  the current one is in state \<^verbatim>\<open>THREAD_RUNNING\<close>, and that one is on no list.\<close>

theorem scheduler_run_invariant:
  assumes "sched_wf s" and "sched_step\<^sup>*\<^sup>* s s'"
  shows "distinct (map snd (links s'))
     \<and> (\<forall>t. t_status (threads s' t) = THREAD_READY \<longleftrightarrow> (\<exists>p. t \<in> set (lst (links s') (Ready p))))
     \<and> (\<forall>t p. t \<in> set (lst (links s') (Ready p)) \<longrightarrow> t_priority (threads s' t) = p)
     \<and> (\<forall>t. t_status (threads s' t) = THREAD_RUNNING \<longrightarrow> t = running s' \<and> t \<notin> set (map snd (links s')))"
proof -
  have "sched_wf s'" using assms(2,1) by (induction) (auto dest: sched_step_wf)
  note w = sched_wfD [OF this]
  show ?thesis using w(1) w(2) w(3) w(4) w(5) w(6) unfolding lk_wf_def lk_linked_def by blast
qed

theorem scheduler_run_invariant_witness:
  "\<exists>s'. sys_sched_yield demo_state = Some (s', 0) \<and> sched_step\<^sup>*\<^sup>* demo_state s'
     \<and> distinct (map snd (links s'))"
proof -
  have r: "t_status (threads demo_state (running demo_state)) = THREAD_RUNNING"
    by (simp add: demo_state_def demo_kstate_def demo_threads_def demo_thread_def)
  obtain s' where y: "sys_sched_yield demo_state = Some (s', 0)"
    using prepare_to_wait_wf [OF demo_state_wf(1), of "running demo_state" Sleep THREAD_WAIT]
      sched_wfD(6) [OF demo_state_wf(1) r] by (auto simp: sys_sched_yield_def)
  then have "sched_step\<^sup>*\<^sup>* demo_state s'" using step_yield [OF r] by blast
  with y scheduler_run_invariant [OF demo_state_wf(1)] show ?thesis by blast
qed

text \<open>
  C6. \<open>wake_up\<close> on a non-empty wait list makes exactly one thread ready: the first one in the list
  among those of the highest priority. It goes to the tail of the ready list of its priority,
  the other waiting threads keep their order, and no other list changes.\<close>

theorem wake_up_first_highest:
  assumes wf: "sched_wf s" and ne: "lst (links s) l \<noteq> []" and l: "\<forall>p. l \<noteq> Ready p"
  shows "\<exists>s' us h vs. wake_up l s = Some s' \<and> lst (links s) l = us @ h # vs
     \<and> (\<forall>u \<in> set us. t_priority (threads s u) < t_priority (threads s h))
     \<and> (\<forall>v \<in> set vs. t_priority (threads s v) \<le> t_priority (threads s h))
     \<and> lst (links s') l = us @ vs
     \<and> lst (links s') (Ready (t_priority (threads s h))) = lst (links s) (Ready (t_priority (threads s h))) @ [h]
     \<and> t_status (threads s' h) = THREAD_READY \<and> sched_wf s'
     \<and> (\<forall>g. g \<noteq> l \<and> g \<noteq> Ready (t_priority (threads s h)) \<longrightarrow> lst (links s') g = lst (links s) g)"
proof -
  define h where "h = highest_pri_thread s (hd (lst (links s) l)) (lst (links s) l)"
  note wu = wake_up_spec [OF wf ne, folded h_def]
  from highest_pri_thread_first [OF ne, of s, folded h_def] obtain us vs where
    uv: "lst (links s) l = us @ h # vs" "\<forall>u \<in> set us. t_priority (threads s u) < t_priority (threads s h)"
      "\<forall>v \<in> set vs. t_priority (threads s v) \<le> t_priority (threads s h)" by blast
  have "distinct (us @ h # vs)" using lk_wf_distinct [OF sched_wfD(1) [OF wf], of l] uv(1) by metis
  then have d: "h \<notin> set us" "h \<notin> set vs" by auto
  have other: "h \<notin> set (lst (links s) g)" if "g \<noteq> l" for g
    using lk_wf_head [OF sched_wfD(1) [OF wf] wu(2), of g] that by auto
  let ?s' = "preempt_enable (make_ready h (preempt_disable s))"
  have "sched_wf ?s'" using make_ready_wf [of "preempt_disable s" h] wf wu(3) by simp
  moreover have "lst (links ?s') l = us @ vs"
  proof -
    have "lst (links ?s') l = filter (\<lambda>m. m \<noteq> h) (us @ h # vs)"
      unfolding uv(1) [symmetric] using l by simp
    moreover have "filter (\<lambda>m. m \<noteq> h) us = us" "filter (\<lambda>m. m \<noteq> h) vs = vs" using d by (auto simp: filter_id_conv)
    ultimately show ?thesis by simp
  qed
  moreover have "lst (links ?s') (Ready (t_priority (threads s h)))
      = lst (links s) (Ready (t_priority (threads s h))) @ [h]"
    using lk_move_new [OF other [of "Ready (t_priority (threads s h))"]] l by force
  moreover have "lst (links ?s') g = lst (links s) g" if "g \<noteq> l" "g \<noteq> Ready (t_priority (threads s h))" for g
    using that other [of g] by (simp add: lk_move_new)
  ultimately show ?thesis using wu(1) uv
    by (intro exI [of _ ?s'] exI [of _ us] exI [of _ h] exI [of _ vs]) simp
qed

definition demo_waiting :: kstate where
  "demo_waiting = demo_kstate
     ((\<lambda>t. demo_thread t 0 THREAD_WAIT)(0 := demo_thread 0 3 THREAD_RUNNING, 1 := demo_thread 1 2 THREAD_WAIT,
        2 := demo_thread 2 5 THREAD_WAIT, 3 := demo_thread 3 5 THREAD_WAIT))
     0 [(WaitQ 7, 1), (WaitQ 7, 2), (WaitQ 7, 3)]"

lemma demo_waiting_wf: "sched_wf demo_waiting" "sig_ok demo_waiting"
  by (auto simp: demo_waiting_def demo_kstate_def demo_thread_def sched_wf_def sig_ok_def
      lk_wf_def lk_linked_def lst_def KTHREAD_PRI_MAX_eq split: if_splits)

theorem wake_up_first_highest_witness:
  "\<exists>s'. wake_up (WaitQ 7) demo_waiting = Some s' \<and> sched_wf s'"
  using wake_up_first_highest [OF demo_waiting_wf(1), of "WaitQ 7"]
  by (fastforce simp: demo_waiting_def demo_kstate_def lst_def)

text \<open>
  C7. A thread that calls \<open>sys_delay_ticks n\<close> sleeps for exactly \<open>n\<close> ticks: after \<open>k\<close> ticks it is
  among the threads that \<open>__schedule\<close> can select if and only if \<open>n \<le> k\<close>. The subtraction
  never wraps.\<close>

theorem delay_ticks_exact:
  assumes wf: "sched_wf s" and r: "t_status (threads s (running s)) = THREAD_RUNNING"
  shows "\<exists>s'. sys_delay_ticks n s = Some (s', 0) \<and> sched_wf s'
     \<and> (\<forall>k. unat (t_sleep_ticks (threads ((threads_ticks_update ^^ k) s') (running s))) = unat n - k
          \<and> (running s \<in> set (ready_queue ((threads_ticks_update ^^ k) s') (t_priority (threads s (running s))))
             \<longleftrightarrow> unat n \<le> k))"
proof -
  let ?r = "running s"
  from sys_delay_ticks_wf [OF wf r, of n] obtain s' where s': "sys_delay_ticks n s = Some (s', 0)"
    "sched_wf s'" "running s' = ?r" "links s' = lk_add ?r Sleep (links s)"
    "\<forall>t. threads s' t = (if t = ?r then (threads s t)\<lparr>t_status := THREAD_WAIT, t_sleep_ticks := n\<rparr> else threads s t)"
    by auto
  have k: "unat (t_sleep_ticks (threads ((threads_ticks_update ^^ k) s') ?r)) = unat n - k
      \<and> links ((threads_ticks_update ^^ k) s') = links s' \<and> running ((threads_ticks_update ^^ k) s') = ?r
      \<and> t_status (threads ((threads_ticks_update ^^ k) s') ?r) = THREAD_WAIT
      \<and> t_priority (threads ((threads_ticks_update ^^ k) s') ?r) = t_priority (threads s ?r)" for k
  proof (induction k)
    case (Suc k)
    let ?sk = "(threads_ticks_update ^^ k) s'"
    have "?r \<in> set (lst (links ?sk) Sleep)" "lk_wf (links ?sk)"
      using Suc s'(4) sched_wfD(1) [OF s'(2)] by auto
    then have "unat (t_sleep_ticks (threads (threads_ticks_update ?sk) ?r)) = unat n - Suc k"
      using Suc by (simp add: threads_ticks_update_ticks)
    with Suc show ?case by (simp add: threads_ticks_update_frame)
  qed (simp add: s'(3,5))
  have "?r \<notin> set (lst (links s) l)" for l using sched_wfD(6) [OF wf r] by (auto simp: lk_linked_iff)
  then have "?r \<in> set (ready_queue ((threads_ticks_update ^^ m) s') (t_priority (threads s ?r))) \<longleftrightarrow> unat n \<le> m" for m
    using k [of m] s'(4) by (auto simp: ready_queue_def unat_eq_zero [symmetric])
  then show ?thesis using s'(1,2) k by blast
qed

theorem delay_ticks_exact_witness:
  "\<exists>s'. sys_delay_ticks 2 demo_state = Some (s', 0) \<and> sched_wf s'
     \<and> (\<forall>k. unat (t_sleep_ticks (threads ((threads_ticks_update ^^ k) s') (running demo_state))) = unat (2 :: u32) - k
          \<and> (running demo_state \<in> set (ready_queue ((threads_ticks_update ^^ k) s')
                (t_priority (threads demo_state (running demo_state)))) \<longleftrightarrow> unat (2 :: u32) \<le> k))"
  by (rule delay_ticks_exact [OF demo_state_wf(1)])
    (simp add: demo_state_def demo_kstate_def demo_threads_def demo_thread_def)

text \<open>
  \<^verbatim>\<open>SIGSTOP\<close> for a thread that is not running corrupts the lists: \<open>thread_suspend\<close> adds the
  scheduling node to the suspend list without taking it off the list it is on, so for every
  thread that is ready, sleeping or waiting it links a node twice.\<close>

theorem thread_suspend_links_twice:
  assumes "lk_linked t (links s)" and "t_status (threads s t) \<noteq> THREAD_SUSPENDED"
  shows "thread_suspend t s = None"
  using assms by (simp add: thread_suspend_def prepare_to_wait_def crit_def node_add_def)

theorem thread_suspend_links_twice_witness: "thread_suspend 1 demo_state = None"
  by (rule thread_suspend_links_twice)
    (simp_all add: demo_state_def demo_kstate_def demo_threads_def demo_thread_def lk_linked_def)

end
