(* ===== verification/Mutex.thy ===== *)
theory Mutex
  imports Sched
begin

text \<open>
  Mutexes with priority inheritance and condition variables (\<^verbatim>\<open>kernel/mutex.c\<close>, the
  inheritance and condition functions of \<^verbatim>\<open>kernel/kernel.c\<close>, the attribute functions of
  \<^verbatim>\<open>kernel/pthread.c\<close>). A mutex is its protocol, its owner and the number of its wait list. The
  loop of \<^verbatim>\<open>mutex_lock\<close> is one definition per round: a round ends with a result, or with the
  thread on the wait list and the call of \<^verbatim>\<open>schedule\<close>, after which the thread starts the next
  round. Runs of several threads interleave such rounds.
\<close>

section \<open>The code\<close>

definition PTHREAD_PRIO_NONE :: int where [config]: "PTHREAD_PRIO_NONE = 0"
definition PTHREAD_PRIO_INHERIT :: int where [config]: "PTHREAD_PRIO_INHERIT = 1"

record mutex =
  m_protocol :: int
  m_owner :: "nat option"
  m_wq :: nat

definition mutex_init_zero :: "mutex \<Rightarrow> 'a kstate_scheme \<Rightarrow> ('a kstate_scheme \<times> mutex) option" where
  "mutex_init_zero m s = do {
     s1 \<leftarrow> head_init (WaitQ (m_wq m)) s;
     Some (s1, \<lparr>m_protocol = 0, m_owner = None, m_wq = m_wq m\<rparr>)
   }"

definition mutex_init :: "mutex \<Rightarrow> 'a kstate_scheme \<Rightarrow> ('a kstate_scheme \<times> mutex) option" where
  "mutex_init m s = map_option (\<lambda>(s1, m1). (s1, m1\<lparr>m_protocol := PTHREAD_PRIO_INHERIT\<rparr>)) (mutex_init_zero m s)"

definition pthread_mutex_init :: "mutex \<Rightarrow> int option \<Rightarrow> 'a kstate_scheme \<Rightarrow> ('a kstate_scheme \<times> mutex) option" where
  "pthread_mutex_init m attr s =
     map_option (\<lambda>(s1, m1). (s1, case attr of None \<Rightarrow> m1 | Some p \<Rightarrow> m1\<lparr>m_protocol := p\<rparr>)) (mutex_init_zero m s)"

definition mutex_is_locked :: "mutex \<Rightarrow> 'a kstate_scheme \<Rightarrow> ('a kstate_scheme \<times> bool) option" where
  "mutex_is_locked m = critr (\<lambda>s. Some (s, m_owner m \<noteq> None))"

definition mutex_trylock :: "mutex \<Rightarrow> 'a kstate_scheme \<Rightarrow> ('a kstate_scheme \<times> mutex \<times> int) option" where
  "mutex_trylock m = critr (\<lambda>s.
     if m_owner m \<noteq> None
     then map_option (\<lambda>s1. (s1, m, - EBUSY)) (prepare_to_wait (WaitQ (m_wq m)) (running s) THREAD_WAIT s)
     else Some (s, m\<lparr>m_owner := Some (running s)\<rparr>, 0))"

text \<open>The two parts of \<^verbatim>\<open>thread_inherit_priority\<close>: the preservation of the original priority, and
  the raise of the owner's priority.\<close>

definition inherit_preserve :: "nat \<Rightarrow> 'a kstate_scheme \<Rightarrow> 'a kstate_scheme" where
  "inherit_preserve ow s =
     (if \<not> t_priority_inherited (threads s ow)
      then upd_thread ow (t_priority_inherited_update (\<lambda>_. True))
             (upd_thread (running s) (\<lambda>th. th\<lparr>t_original_priority := t_priority th\<rparr>) s)
      else s)"

definition inherit_raise :: "nat \<Rightarrow> 'a kstate_scheme \<Rightarrow> 'a kstate_scheme option" where
  "inherit_raise ow s =
     (let old = t_priority (threads s ow); new = t_priority (threads s (running s)) in
      if new > old then
        map_option (upd_thread ow (t_priority_update (\<lambda>_. new)))
          (if ow \<in> set (lst (links s) (Ready old)) then node_move ow (Ready new) s else Some s)
      else Some s)"

definition thread_inherit_priority :: "mutex \<Rightarrow> 'a kstate_scheme \<Rightarrow> 'a kstate_scheme option" where
  "thread_inherit_priority m s =
     (if m_protocol m \<noteq> PTHREAD_PRIO_INHERIT then Some s
      else crit (\<lambda>s. m_owner m \<bind> (\<lambda>ow. inherit_raise ow (inherit_preserve ow s))) s)"

definition thread_reset_inherited_priority :: "'a kstate_scheme \<Rightarrow> 'a kstate_scheme option" where
  "thread_reset_inherited_priority = crit (\<lambda>s. Some
     (if t_priority_inherited (threads s (running s))
      then upd_thread (running s)
             (\<lambda>th. th\<lparr>t_priority := t_original_priority th, t_priority_inherited := False\<rparr>) s
      else s))"

text \<open>One round of \<^verbatim>\<open>mutex_lock\<close>; the result \<^const>\<open>None\<close> means that the thread called
  \<^verbatim>\<open>schedule\<close> and will start another round.\<close>

definition mutex_lock_round :: "mutex \<Rightarrow> 'a kstate_scheme \<Rightarrow> ('a kstate_scheme \<times> mutex \<times> int option) option" where
  "mutex_lock_round m s = do {
     (s1, m1, retval) \<leftarrow> mutex_trylock m s;
     if retval = - EBUSY then do {
       s2 \<leftarrow> thread_inherit_priority m1 s1;
       Some (schedule_request s2, m1, None)
     } else if retval = 0 then do {
       s2 \<leftarrow> thread_reset_inherited_priority s1;
       Some (s2, m1, Some retval)
     } else Some (s1, m1, Some retval)
   }"

definition mutex_unlock :: "mutex \<Rightarrow> 'a kstate_scheme \<Rightarrow> ('a kstate_scheme \<times> mutex \<times> int) option" where
  "mutex_unlock m = critr (\<lambda>s.
     if m_owner m \<noteq> Some (running s) then Some (s, m, - EPERM)
     else map_option (\<lambda>s1. (s1, m\<lparr>m_owner := None\<rparr>, 0)) (wake_up (WaitQ (m_wq m)) s))"

definition sys_pthread_mutex_trylock :: "mutex \<Rightarrow> 'a kstate_scheme \<Rightarrow> ('a kstate_scheme \<times> mutex \<times> int) option" where
  "sys_pthread_mutex_trylock = mutex_trylock"

definition sys_pthread_cond_signal :: "nat \<Rightarrow> 'a kstate_scheme \<Rightarrow> ('a kstate_scheme \<times> int) option" where
  "sys_pthread_cond_signal cond s = map_option (\<lambda>s'. (s', 0)) (wake_up (WaitQ cond) s)"

definition sys_pthread_cond_broadcast :: "nat \<Rightarrow> 'a kstate_scheme \<Rightarrow> ('a kstate_scheme \<times> int) option" where
  "sys_pthread_cond_broadcast cond s = map_option (\<lambda>s'. (s', 0)) (wake_up_all (WaitQ cond) s)"

definition sys_pthread_cond_wait :: "nat \<Rightarrow> mutex \<Rightarrow> 'a kstate_scheme \<Rightarrow> ('a kstate_scheme \<times> mutex \<times> int) option" where
  "sys_pthread_cond_wait cond m = critr (\<lambda>s.
     if m_owner m \<noteq> None
     then map_option (\<lambda>s1. (s1, m\<lparr>m_owner := None\<rparr>, 0)) (prepare_to_wait (WaitQ cond) (running s) THREAD_WAIT s)
     else Some (s, m, 0))"

section \<open>Priority inheritance\<close>

lemma schedule_request_frame [simp]:
  "links (schedule_request s) = links s" "running (schedule_request s) = running s"
  "t_status (threads (schedule_request s) t) = t_status (threads s t)"
  "t_priority (threads (schedule_request s) t) = t_priority (threads s t)"
  "t_original_priority (threads (schedule_request s) t) = t_original_priority (threads s t)"
  "t_priority_inherited (threads (schedule_request s) t) = t_priority_inherited (threads s t)"
  "t_sleep_ticks (threads (schedule_request s) t) = t_sleep_ticks (threads s t)"
  by (simp_all add: schedule_request_def jump_to_kernel_leave_def preempt_count_set_def set_need_resched_def)

lemma sched_wf_schedule_request [simp]: "sched_wf (schedule_request s) = sched_wf s"
  by (rule sched_wf_cong2) simp_all

text \<open>Changing the priority of a thread that is not on a ready list.\<close>

lemma upd_unready_wf:
  assumes wf: "sched_wf s" and st: "t_status (threads s t) \<noteq> THREAD_READY"
    and f: "t_status (f (threads s t)) = t_status (threads s t)" "t_priority (f (threads s t)) \<le> KTHREAD_PRI_MAX"
  shows "sched_wf (upd_thread t f s)"
proof (rule sched_wfI)
  note w = sched_wfD [OF wf]
  have nt: "t \<notin> set (lst (links s) (Ready p))" for p using w(2) st by blast
  show "lk_wf (links (upd_thread t f s))" using w(1) by simp
  fix u
  show "t_priority (threads (upd_thread t f s) u) \<le> KTHREAD_PRI_MAX" using w(7) f by simp
  show "t_status (threads (upd_thread t f s) u) = THREAD_READY" "t_priority (threads (upd_thread t f s) u) = p"
    if "u \<in> set (lst (links (upd_thread t f s)) (Ready p))" for p
    using that nt w(2,3) by auto
  show "u \<in> set (lst (links (upd_thread t f s)) (Ready (t_priority (threads (upd_thread t f s) u))))"
    if "t_status (threads (upd_thread t f s) u) = THREAD_READY"
    using that st f w(4) by (cases "u = t") auto
  show "u = running (upd_thread t f s) \<and> \<not> lk_linked u (links (upd_thread t f s))"
    if "t_status (threads (upd_thread t f s) u) = THREAD_RUNNING"
    using that f w(5,6) by (cases "u = t") auto
qed

text \<open>Raising the priority of a thread, with the move between the ready lists.\<close>

lemma raise_priority_wf:
  assumes wf: "sched_wf s" and new: "new \<le> KTHREAD_PRI_MAX" and ne: "t_priority (threads s t) \<noteq> new"
  defines "old \<equiv> t_priority (threads s t)"
  shows "\<exists>s2. (if t \<in> set (lst (links s) (Ready old)) then node_move t (Ready new) s else Some s) = Some s2
     \<and> sched_wf (upd_thread t (t_priority_update (\<lambda>_. new)) s2)
     \<and> running s2 = running s \<and> threads s2 = threads s
     \<and> (\<forall>l. (\<forall>p. l \<noteq> Ready p) \<longrightarrow> lst (links s2) l = lst (links s) l)"
proof -
  note w = sched_wfD [OF wf]
  show ?thesis
  proof (cases "t \<in> set (lst (links s) (Ready old))")
    case True
    define s2 where "s2 = s\<lparr>links := lk_move t (Ready new) (links s)\<rparr>"
    have lk: "lk_linked t (links s)" using True by (auto simp: lk_linked_iff)
    have mv: "node_move t (Ready new) s = Some s2"
      using lk new by (simp add: node_move_def node_del_def node_add_def lid_ok_def lk_move_def s2_def)
    have st: "t_status (threads s t) = THREAD_READY" using w(2) True by blast
    have "sched_wf (upd_thread t (t_priority_update (\<lambda>_. new)) s2)"
      using w(1) w(2) w(3) w(4) w(5) w(6) w(7) new st
      by (intro sched_wfI) (auto simp: s2_def lk_wf_move split: if_splits)
    moreover have "lst (links s2) l = lst (links s) l" if "\<forall>p. l \<noteq> Ready p" for l
    proof -
      have "t \<notin> set (lst (links s) l)" using lk_wf_head [OF w(1) True, of l] that by auto
      with that show ?thesis by (simp add: s2_def lk_move_new)
    qed
    ultimately show ?thesis using True mv by (auto simp: s2_def)
  next
    case False
    then have st: "t_status (threads s t) \<noteq> THREAD_READY" using w(4) by (auto simp: old_def)
    then have "sched_wf (upd_thread t (t_priority_update (\<lambda>_. new)) s)"
      using new by (intro upd_unready_wf [OF wf]) simp_all
    with False show ?thesis by auto
  qed
qed

definition orig_ok :: "'a kstate_scheme \<Rightarrow> bool" where
  "orig_ok s \<longleftrightarrow> (\<forall>t. t_original_priority (threads s t) \<le> KTHREAD_PRI_MAX)"

lemma orig_ok_frame [simp]:
  "orig_ok (preempt_disable s) = orig_ok s" "orig_ok (preempt_enable s) = orig_ok s"
  "orig_ok (schedule_request s) = orig_ok s"
  by (simp_all add: orig_ok_def)

lemma thread_inherit_priority_spec:
  assumes wf: "sched_wf s" and ow: "m_owner m = Some ow" and oo: "orig_ok s"
  shows "\<exists>s'. thread_inherit_priority m s = Some s' \<and> sched_wf s' \<and> orig_ok s' \<and> running s' = running s
     \<and> (\<forall>t. t_status (threads s' t) = t_status (threads s t))
     \<and> (\<forall>l. (\<forall>p. l \<noteq> Ready p) \<longrightarrow> lst (links s') l = lst (links s) l)
     \<and> (m_protocol m = PTHREAD_PRIO_INHERIT \<longrightarrow>
          t_priority (threads s' ow) = max (t_priority (threads s ow)) (t_priority (threads s (running s)))
          \<and> t_priority_inherited (threads s' ow)
          \<and> (ow \<noteq> running s \<longrightarrow> t_original_priority (threads s' ow) = t_original_priority (threads s ow)))"
proof (cases "m_protocol m = PTHREAD_PRIO_INHERIT")
  case False
  with wf oo show ?thesis by (auto simp: thread_inherit_priority_def)
next
  case True
  let ?r = "running s"
  define s1 where "s1 = inherit_preserve ow (preempt_disable s)"
  have fr: "links s1 = links s" "running s1 = ?r" "t_status (threads s1 t) = t_status (threads s t)"
    "t_priority (threads s1 t) = t_priority (threads s t)" "t_priority_inherited (threads s1 ow)"
    "ow \<noteq> ?r \<Longrightarrow> t_original_priority (threads s1 ow) = t_original_priority (threads s ow)" for t
    by (auto simp: s1_def inherit_preserve_def)
  have wf1: "sched_wf s1" using sched_wf_cong2 [of s1 s] fr wf by simp
  have oo1: "orig_ok s1" using oo sched_wfD(7) [OF wf] by (auto simp: s1_def inherit_preserve_def orig_ok_def)
  let ?new = "t_priority (threads s1 (running s1))" and ?old = "t_priority (threads s1 ow)"
  have unf: "thread_inherit_priority m s = map_option preempt_enable (inherit_raise ow s1)"
    using True ow by (simp add: thread_inherit_priority_def crit_def s1_def)
  show ?thesis
  proof (cases "?new > ?old")
    case gt: True
    have "?new \<le> KTHREAD_PRI_MAX" by (rule sched_wfD(7) [OF wf1])
    from raise_priority_wf [OF wf1 this, of ow] gt obtain s2 where
      s2: "(if ow \<in> set (lst (links s1) (Ready ?old)) then node_move ow (Ready ?new) s1 else Some s1) = Some s2"
        "sched_wf (upd_thread ow (t_priority_update (\<lambda>_. ?new)) s2)" "running s2 = running s1" "threads s2 = threads s1"
        "\<forall>l. (\<forall>p. l \<noteq> Ready p) \<longrightarrow> lst (links s2) l = lst (links s1) l" by fastforce
    then show ?thesis using unf gt fr oo1 by (auto simp: orig_ok_def inherit_raise_def Let_def)
  next
    case le: False
    then have "max (t_priority (threads s ow)) (t_priority (threads s ?r)) = t_priority (threads s ow)"
      using fr by (simp add: max_def not_less)
    then show ?thesis using unf le fr wf1 oo1 by (auto simp: not_less inherit_raise_def Let_def)
  qed
qed

lemma thread_reset_inherited_priority_spec:
  assumes wf: "sched_wf s" and oo: "orig_ok s" and r: "t_status (threads s (running s)) = THREAD_RUNNING"
  shows "\<exists>s'. thread_reset_inherited_priority s = Some s' \<and> sched_wf s' \<and> orig_ok s' \<and> running s' = running s
     \<and> links s' = links s
     \<and> t_priority (threads s' (running s)) =
         (if t_priority_inherited (threads s (running s)) then t_original_priority (threads s (running s))
          else t_priority (threads s (running s)))"
proof -
  let ?s' = "preempt_enable (if t_priority_inherited (threads s (running s))
      then upd_thread (running s) (\<lambda>th. th\<lparr>t_priority := t_original_priority th, t_priority_inherited := False\<rparr>)
             (preempt_disable s) else preempt_disable s)"
  have "sched_wf ?s'"
  proof (cases "t_priority_inherited (threads s (running s))")
    case True
    then show ?thesis using oo r wf by (auto simp: orig_ok_def intro!: upd_unready_wf)
  qed (simp add: wf)
  moreover have "thread_reset_inherited_priority s = Some ?s'"
    by (simp add: thread_reset_inherited_priority_def crit_def)
  ultimately show ?thesis using oo by (auto simp: orig_ok_def)
qed

section \<open>Rounds\<close>

lemma mutex_trylock_eqs:
  "m_owner m = None \<Longrightarrow> mutex_trylock m s
     = Some (preempt_enable (preempt_disable s), m\<lparr>m_owner := Some (running s)\<rparr>, 0)"
  "m_owner m = Some ow \<Longrightarrow> mutex_trylock m s
     = map_option (\<lambda>s1. (preempt_enable s1, m, - EBUSY))
         (prepare_to_wait (WaitQ (m_wq m)) (running s) THREAD_WAIT (preempt_disable s))"
  by (auto simp: mutex_trylock_def critr_def option.map_comp o_def)

lemma mutex_lock_round_free:
  assumes "sched_wf s" and "orig_ok s" and "t_status (threads s (running s)) = THREAD_RUNNING"
    and "m_owner m = None"
  shows "\<exists>s'. mutex_lock_round m s = Some (s', m\<lparr>m_owner := Some (running s)\<rparr>, Some 0) \<and> sched_wf s'
     \<and> orig_ok s' \<and> running s' = running s \<and> links s' = links s"
  using thread_reset_inherited_priority_spec [of "preempt_enable (preempt_disable s)"] assms
  by (auto simp: mutex_lock_round_def mutex_trylock_eqs errno)

lemma mutex_lock_round_busy:
  assumes wf: "sched_wf s" and oo: "orig_ok s" and r: "t_status (threads s (running s)) = THREAD_RUNNING"
    and ow: "m_owner m = Some ow"
  shows "\<exists>s'. mutex_lock_round m s = Some (s', m, None) \<and> sched_wf s' \<and> orig_ok s' \<and> running s' = running s
     \<and> (\<forall>l. (\<forall>p. l \<noteq> Ready p) \<longrightarrow>
          lst (links s') l = lst (links s) l @ (if l = WaitQ (m_wq m) then [running s] else []))
     \<and> t_status (threads s' (running s)) = THREAD_WAIT
     \<and> (m_protocol m = PTHREAD_PRIO_INHERIT \<longrightarrow>
          t_priority (threads s' ow) = max (t_priority (threads s ow)) (t_priority (threads s (running s)))
          \<and> t_priority_inherited (threads s' ow)
          \<and> (ow \<noteq> running s \<longrightarrow> t_original_priority (threads s' ow) = t_original_priority (threads s ow)))"
proof -
  have "\<not> lk_linked (running s) (links (preempt_disable s))" using sched_wfD(6) [OF wf r] by simp
  from prepare_to_wait_wf [OF _ this, of "WaitQ (m_wq m)" THREAD_WAIT] wf obtain s1 where
    s1: "prepare_to_wait (WaitQ (m_wq m)) (running s) THREAD_WAIT (preempt_disable s) = Some s1" "sched_wf s1"
      "running s1 = running s" "links s1 = lk_add (running s) (WaitQ (m_wq m)) (links s)"
      "threads s1 = (threads s)(running s := (threads s (running s))\<lparr>t_status := THREAD_WAIT\<rparr>)" by auto
  have "orig_ok s1" using oo s1(5) by (simp add: orig_ok_def)
  with thread_inherit_priority_spec [OF _ ow, of "preempt_enable s1"] s1(2) obtain s2 where
    s2: "thread_inherit_priority m (preempt_enable s1) = Some s2" "sched_wf s2" "orig_ok s2"
      "running s2 = running s1" "\<forall>t. t_status (threads s2 t) = t_status (threads s1 t)"
      "\<forall>l. (\<forall>p. l \<noteq> Ready p) \<longrightarrow> lst (links s2) l = lst (links s1) l"
      "m_protocol m = PTHREAD_PRIO_INHERIT \<longrightarrow>
          t_priority (threads s2 ow) = max (t_priority (threads s1 ow)) (t_priority (threads s1 (running s1)))
          \<and> t_priority_inherited (threads s2 ow)
          \<and> (ow \<noteq> running s1 \<longrightarrow> t_original_priority (threads s2 ow) = t_original_priority (threads s1 ow))"
    by (simp only: preempt_frame sched_wf_preempt orig_ok_frame) blast
  have lr: "mutex_lock_round m s = Some (schedule_request s2, m, None)"
    using s1(1) s2(1) ow by (simp add: mutex_lock_round_def mutex_trylock_eqs errno)
  have th: "t_priority (threads s1 t) = t_priority (threads s t)"
    "t_original_priority (threads s1 t) = t_original_priority (threads s t)" for t by (simp_all add: s1(5))
  show ?thesis
    using lr s2 s1(3,4) unfolding th by (intro exI [of _ "schedule_request s2"]) (simp add: s1(5))
qed

lemma mutex_unlock_spec:
  assumes wf: "sched_wf s" and oo: "orig_ok s" and ow: "m_owner m = Some (running s)"
  defines "l \<equiv> WaitQ (m_wq m)"
  shows "\<exists>s'. mutex_unlock m s = Some (s', m\<lparr>m_owner := None\<rparr>, 0) \<and> sched_wf s' \<and> orig_ok s'
     \<and> running s' = running s
     \<and> (lst (links s) l \<noteq> [] \<longrightarrow> (\<exists>h. lst (links s') l = filter (\<lambda>t. t \<noteq> h) (lst (links s) l)
          \<and> h \<in> set (lst (links s) l)
          \<and> (\<forall>t \<in> set (lst (links s) l). t_priority (threads s t) \<le> t_priority (threads s h))
          \<and> h \<in> set (lst (links s') (Ready (t_priority (threads s h))))))
     \<and> (lst (links s) l = [] \<longrightarrow> lst (links s') l = [])"
proof (cases "lst (links s) l = []")
  case True
  then show ?thesis using wf oo ow by (auto simp: mutex_unlock_def critr_def l_def wake_up_empty)
next
  case False
  let ?d = "preempt_disable s"
  define h where "h = highest_pri_thread ?d (hd (lst (links ?d) l)) (lst (links ?d) l)"
  have wf': "sched_wf ?d" and ne: "lst (links ?d) l \<noteq> []" using wf False by simp_all
  note wu = wake_up_spec [OF wf' ne, folded h_def]
  let ?s' = "preempt_enable (preempt_enable (make_ready h (preempt_disable ?d)))"
  have un: "mutex_unlock m s = Some (?s', m\<lparr>m_owner := None\<rparr>, 0)"
    using wu(1) ow by (simp add: mutex_unlock_def critr_def l_def)
  have "sched_wf ?s'" using make_ready_wf [of "preempt_disable ?d" h] wf wu(3) by simp
  moreover have "orig_ok ?s'" using oo by (simp add: orig_ok_def)
  moreover have "\<forall>t \<in> set (lst (links s) l). t_priority (threads s t) \<le> t_priority (threads s h)"
    using highest_pri_thread_cases [of ?d "hd (lst (links ?d) l)" "lst (links ?d) l", folded h_def]
    by (metis (no_types, lifting) Un_iff insert_iff less_imp_le list.set(2) order_refl preempt_frame(1,3) set_append)
  ultimately show ?thesis using un wu(2) False by (intro exI [of _ ?s']) (auto simp: l_def)
qed

section \<open>Threads that use a mutex\<close>

text \<open>Where a thread stands with respect to the mutex: it does not use it, it is inside
  \<^verbatim>\<open>mutex_lock\<close>, or its \<^verbatim>\<open>mutex_lock\<close> has returned 0 and it has not unlocked.\<close>

datatype lock_pc = Outside | Trying | Holding

text \<open>The running thread executes a round of \<^verbatim>\<open>mutex_lock\<close> (a holder does not lock again) or an
  unlock; in between, anything may happen that keeps the scheduling lists sound and puts no
  other thread on the wait list of the mutex: rescheduling, ticks, signals, other locks.\<close>

inductive mutex_step ::
  "'a kstate_scheme \<times> mutex \<times> (nat \<Rightarrow> lock_pc) \<Rightarrow> 'a kstate_scheme \<times> mutex \<times> (nat \<Rightarrow> lock_pc) \<Rightarrow> bool" where
  lock_returns: "t_status (threads s (running s)) = THREAD_RUNNING \<Longrightarrow> pc (running s) \<noteq> Holding \<Longrightarrow>
     mutex_lock_round m s = Some (s', m', Some v) \<Longrightarrow>
     mutex_step (s, m, pc) (s', m', pc(running s := if v = 0 then Holding else Outside))"
| lock_blocks: "t_status (threads s (running s)) = THREAD_RUNNING \<Longrightarrow> pc (running s) \<noteq> Holding \<Longrightarrow>
     mutex_lock_round m s = Some (s', m', None) \<Longrightarrow> mutex_step (s, m, pc) (s', m', pc(running s := Trying))"
| unlock: "t_status (threads s (running s)) = THREAD_RUNNING \<Longrightarrow> mutex_unlock m s = Some (s', m', v) \<Longrightarrow>
     mutex_step (s, m, pc) (s', m', if v = 0 then pc(running s := Outside) else pc)"
| elsewhere: "sched_wf s' \<Longrightarrow> orig_ok s' \<Longrightarrow>
     set (lst (links s') (WaitQ (m_wq m))) \<subseteq> set (lst (links s) (WaitQ (m_wq m))) \<Longrightarrow>
     mutex_step (s, m, pc) (s', m, pc)"

definition mutex_inv :: "'a kstate_scheme \<times> mutex \<times> (nat \<Rightarrow> lock_pc) \<Rightarrow> bool" where
  "mutex_inv c \<longleftrightarrow> (case c of (s, m, pc) \<Rightarrow>
     sched_wf s \<and> orig_ok s \<and> (\<forall>t. pc t = Holding \<longleftrightarrow> m_owner m = Some t)
     \<and> (\<forall>t \<in> set (lst (links s) (WaitQ (m_wq m))). pc t = Trying)
     \<and> (m_owner m = None \<and> lst (links s) (WaitQ (m_wq m)) \<noteq> [] \<longrightarrow>
          (\<exists>t. pc t = Trying \<and> t \<notin> set (lst (links s) (WaitQ (m_wq m))))))"

lemma mutex_step_inv:
  assumes "mutex_step c c'" and "mutex_inv c"
  shows "mutex_inv c'"
  using assms
proof (cases rule: mutex_step.cases)
  case (lock_returns s pc m s' m' v)
  then have i: "sched_wf s" "orig_ok s" "\<forall>t. pc t = Holding \<longleftrightarrow> m_owner m = Some t"
    "\<forall>t \<in> set (lst (links s) (WaitQ (m_wq m))). pc t = Trying"
    using assms(2) by (auto simp: mutex_inv_def)
  have free: "m_owner m = None"
    using mutex_lock_round_busy [OF i(1,2) lock_returns(3), of m] lock_returns(5)
    by (cases "m_owner m") fastforce+
  have "running s \<notin> set (lst (links s) (WaitQ (m_wq m)))"
    using sched_wfD(6) [OF i(1) lock_returns(3)] by (auto simp: lk_linked_iff)
  with mutex_lock_round_free [OF i(1,2) lock_returns(3) free] lock_returns i(3,4) free
  show ?thesis by (auto simp: mutex_inv_def)
next
  case (lock_blocks s pc m s' m')
  then have i: "sched_wf s" "orig_ok s" "\<forall>t. pc t = Holding \<longleftrightarrow> m_owner m = Some t"
    "\<forall>t \<in> set (lst (links s) (WaitQ (m_wq m))). pc t = Trying"
    using assms(2) by (auto simp: mutex_inv_def)
  obtain ow where ow: "m_owner m = Some ow"
    using mutex_lock_round_free [OF i(1,2) lock_blocks(3), of m] lock_blocks(5)
    by (cases "m_owner m") fastforce+
  from mutex_lock_round_busy [OF i(1,2) lock_blocks(3) ow] lock_blocks(1,2,4,5) i(3,4) ow
  show ?thesis by (auto simp: mutex_inv_def)
next
  case (unlock s m s' m' v pc)
  then have i: "sched_wf s" "orig_ok s" "\<forall>t. pc t = Holding \<longleftrightarrow> m_owner m = Some t"
    "\<forall>t \<in> set (lst (links s) (WaitQ (m_wq m))). pc t = Trying"
    using assms(2) by (auto simp: mutex_inv_def)
  show ?thesis
  proof (cases "m_owner m = Some (running s)")
    case False
    then have "s' = preempt_enable (preempt_disable s)" "m' = m" "v = - EPERM"
      using unlock(4) by (auto simp: mutex_unlock_def critr_def)
    then show ?thesis using unlock(1,2) assms(2) by (simp add: mutex_inv_def errno)
  next
    case True
    let ?w = "lst (links s) (WaitQ (m_wq m))"
    from mutex_unlock_spec [OF i(1,2) True] unlock(4) have u: "m' = m\<lparr>m_owner := None\<rparr>" "v = 0" "sched_wf s'" "orig_ok s'"
      "?w \<noteq> [] \<longrightarrow> (\<exists>h. lst (links s') (WaitQ (m_wq m)) = filter (\<lambda>t. t \<noteq> h) ?w \<and> h \<in> set ?w)"
      "?w = [] \<longrightarrow> lst (links s') (WaitQ (m_wq m)) = []" by auto
    have "pc (running s) = Holding" using i(3) True by simp
    with i(4) have "running s \<notin> set ?w" by auto
    show ?thesis
    proof (cases "?w = []")
      case True
      then show ?thesis using u i(3) unlock(2) \<open>m_owner m = _\<close> by (auto simp: mutex_inv_def)
    next
      case False
      with u(5) obtain h where h: "lst (links s') (WaitQ (m_wq m)) = filter (\<lambda>t. t \<noteq> h) ?w" "h \<in> set ?w" by blast
      then have "h \<noteq> running s" "pc h = Trying" using \<open>running s \<notin> _\<close> i(4) by auto
      with h u i(3,4) unlock(2) \<open>m_owner m = _\<close> \<open>running s \<notin> _\<close> show ?thesis
        by (auto simp: mutex_inv_def intro!: exI [of _ h])
    qed
  qed
next
  case (elsewhere s' m s pc)
  then show ?thesis using assms(2) by (auto simp: mutex_inv_def)
qed

section \<open>Properties\<close>

text \<open>
  C10. Mutual exclusion and no lost wake-up for \<open>mutex_lock\<close> and \<open>mutex_unlock\<close>: starting from a
  fresh mutex, over every interleaving of lock rounds, unlocks and other kernel activity, the
  mutex has at most one holder, the owner field names it, and a free mutex never has waiting
  threads without a locking thread that is off the wait list and will try again.\<close>

theorem mutex_mutual_exclusion:
  assumes "sched_wf s" and "orig_ok s" and "m_owner m = None" and "lst (links s) (WaitQ (m_wq m)) = []"
    and run: "mutex_step\<^sup>*\<^sup>* (s, m, \<lambda>_. Outside) (s', m', pc)"
  shows "(\<forall>t u. pc t = Holding \<and> pc u = Holding \<longrightarrow> t = u)
     \<and> (\<forall>t. pc t = Holding \<longleftrightarrow> m_owner m' = Some t)
     \<and> (m_owner m' = None \<and> lst (links s') (WaitQ (m_wq m')) \<noteq> [] \<longrightarrow>
          (\<exists>t. pc t = Trying \<and> t \<notin> set (lst (links s') (WaitQ (m_wq m')))))"
proof -
  have "mutex_inv (s, m, \<lambda>_. Outside)" using assms(1-4) by (simp add: mutex_inv_def)
  with run have "mutex_inv (s', m', pc)" by (induction rule: rtranclp_induct) (auto dest: mutex_step_inv)
  then show ?thesis by (auto simp: mutex_inv_def)
qed

definition demo_mutex :: mutex where
  "demo_mutex = \<lparr>m_protocol = PTHREAD_PRIO_INHERIT, m_owner = None, m_wq = 7\<rparr>"

lemma demo_orig_ok: "orig_ok demo_state" "orig_ok demo_waiting"
  by (simp_all add: orig_ok_def demo_state_def demo_waiting_def demo_kstate_def demo_threads_def demo_thread_def)

theorem mutex_mutual_exclusion_witness:
  "\<exists>s' m'. mutex_step\<^sup>*\<^sup>* (demo_state, demo_mutex, \<lambda>_. Outside) (s', m', (\<lambda>_. Outside)(0 := Holding))
     \<and> m_owner m' = Some 0"
proof -
  have r: "t_status (threads demo_state (running demo_state)) = THREAD_RUNNING" "running demo_state = 0"
    and w: "lst (links demo_state) (WaitQ (m_wq demo_mutex)) = []" and o: "m_owner demo_mutex = None"
    by (simp_all add: demo_state_def demo_kstate_def demo_threads_def demo_thread_def lst_def demo_mutex_def)
  from mutex_lock_round_free [OF demo_state_wf(1) demo_orig_ok(1) r(1) o] obtain s' where
    "mutex_lock_round demo_mutex demo_state = Some (s', demo_mutex\<lparr>m_owner := Some 0\<rparr>, Some 0)" using r(2) by auto
  from mutex_step.lock_returns [OF r(1) _ this, of "\<lambda>_. Outside"]
  have "mutex_step\<^sup>*\<^sup>* (demo_state, demo_mutex, \<lambda>_. Outside)
      (s', demo_mutex\<lparr>m_owner := Some 0\<rparr>, (\<lambda>_. Outside)(0 := Holding))" using r(2) by auto
  moreover from mutex_mutual_exclusion [OF demo_state_wf(1) demo_orig_ok(1) o w this]
  have "m_owner (demo_mutex\<lparr>m_owner := Some 0\<rparr>) = Some 0" by simp
  ultimately show ?thesis by (intro exI conjI)
qed

text \<open>
  \<open>mutex_trylock\<close> on a locked mutex puts the caller on the wait list, in state
  \<^verbatim>\<open>THREAD_WAIT\<close>, before it returns \<^verbatim>\<open>-EBUSY\<close>, and so takes a wake-up from the threads that
  are inside \<open>mutex_lock\<close>: when the caller has a higher priority than all of them, the next
  \<open>mutex_unlock\<close> makes the caller ready, which will not take the mutex, and leaves the mutex free
  with every locking thread still on the wait list.\<close>

theorem mutex_trylock_loses_wakeup:
  fixes s :: "'a kstate_scheme"
  assumes wf: "sched_wf s" and r: "t_status (threads s (running s)) = THREAD_RUNNING"
    and ow: "m_owner m = Some ow"
    and low: "\<forall>t \<in> set (lst (links s) (WaitQ (m_wq m))). t_priority (threads s t) < t_priority (threads s (running s))"
  shows "\<exists>s1. mutex_trylock m s = Some (s1, m, - EBUSY) \<and> t_status (threads s1 (running s)) = THREAD_WAIT
     \<and> (\<forall>s2 :: 'a kstate_scheme. sched_wf s2 \<and> orig_ok s2 \<and> running s2 = ow \<and> links s2 = links s1
          \<and> (\<forall>t. t_priority (threads s2 t) = t_priority (threads s1 t)) \<longrightarrow>
          (\<exists>s3. mutex_unlock m s2 = Some (s3, m\<lparr>m_owner := None\<rparr>, 0)
             \<and> lst (links s3) (WaitQ (m_wq m)) = lst (links s) (WaitQ (m_wq m))))"
proof -
  let ?w = "WaitQ (m_wq m)" and ?r = "running s"
  have nl: "\<not> lk_linked ?r (links (preempt_disable s))" using sched_wfD(6) [OF wf r] by simp
  from prepare_to_wait_wf [OF _ nl, of ?w THREAD_WAIT] wf obtain s0 where
    s0: "prepare_to_wait ?w ?r THREAD_WAIT (preempt_disable s) = Some s0"
      "links s0 = lk_add ?r ?w (links s)"
      "threads s0 = (threads s)(?r := (threads s ?r)\<lparr>t_status := THREAD_WAIT\<rparr>)" by auto
  define s1 where "s1 = preempt_enable s0"
  have tryl: "mutex_trylock m s = Some (s1, m, - EBUSY)" using s0(1) ow by (simp add: mutex_trylock_eqs s1_def)
  have w1: "lst (links s1) ?w = lst (links s) ?w @ [?r]" using s0(2) by (simp add: s1_def)
  have pr1: "t_priority (threads s1 t) = t_priority (threads s t)" for t using s0(3) by (simp add: s1_def)
  have un: "\<exists>s3. mutex_unlock m s2 = Some (s3, m\<lparr>m_owner := None\<rparr>, 0) \<and> lst (links s3) ?w = lst (links s) ?w"
    if "sched_wf s2 \<and> orig_ok s2 \<and> running s2 = ow \<and> links s2 = links s1
          \<and> (\<forall>t. t_priority (threads s2 t) = t_priority (threads s1 t))" for s2 :: "'a kstate_scheme"
  proof -
    from mutex_unlock_spec [of s2 m] that ow w1 obtain s3 h where
      s3: "mutex_unlock m s2 = Some (s3, m\<lparr>m_owner := None\<rparr>, 0)"
        "lst (links s3) ?w = filter (\<lambda>t. t \<noteq> h) (lst (links s) ?w @ [?r])" "h \<in> set (lst (links s) ?w @ [?r])"
        "\<forall>t \<in> set (lst (links s) ?w @ [?r]). t_priority (threads s2 t) \<le> t_priority (threads s2 h)" by auto
    have "h = ?r" using s3(3,4) low that pr1 by fastforce
    moreover have "?r \<notin> set (lst (links s) ?w)" using nl by (auto simp: lk_linked_iff)
    ultimately have "lst (links s3) ?w = lst (links s) ?w" using s3(2) by (simp add: filter_id_conv) metis
    with s3(1) show ?thesis by blast
  qed
  have "t_status (threads s1 ?r) = THREAD_WAIT" using s0(3) by (simp add: s1_def)
  with tryl un show ?thesis by blast
qed

definition demo_trylock :: kstate where
  "demo_trylock = demo_kstate
     ((\<lambda>t. demo_thread t 0 THREAD_WAIT)(0 := demo_thread 0 6 THREAD_RUNNING, 1 := demo_thread 1 2 THREAD_WAIT,
        2 := demo_thread 2 5 THREAD_READY))
     0 [(WaitQ 7, 1), (Ready 5, 2)]"

lemma demo_trylock_wf: "sched_wf demo_trylock"
  by (auto simp: demo_trylock_def demo_kstate_def demo_thread_def sched_wf_def
      lk_wf_def lk_linked_def lst_def KTHREAD_PRI_MAX_eq split: if_splits)

theorem mutex_trylock_loses_wakeup_witness:
  "\<exists>s1. mutex_trylock (demo_mutex\<lparr>m_owner := Some 2\<rparr>) demo_trylock = Some (s1, demo_mutex\<lparr>m_owner := Some 2\<rparr>, - EBUSY)
     \<and> t_status (threads s1 0) = THREAD_WAIT"
proof -
  have r: "t_status (threads demo_trylock (running demo_trylock)) = THREAD_RUNNING" "running demo_trylock = 0"
    by (simp_all add: demo_trylock_def demo_kstate_def demo_thread_def)
  have low: "\<forall>t \<in> set (lst (links demo_trylock) (WaitQ (m_wq (demo_mutex\<lparr>m_owner := Some 2\<rparr>)))).
      t_priority (threads demo_trylock t) < t_priority (threads demo_trylock (running demo_trylock))"
    by (simp add: demo_trylock_def demo_kstate_def demo_thread_def lst_def demo_mutex_def)
  from mutex_trylock_loses_wakeup [OF demo_trylock_wf r(1) _ low, of 2] r(2) show ?thesis by auto
qed

text \<open>
  C16. Priority inheritance: when a thread blocks in \<open>mutex_lock\<close> on a mutex with the inheritance
  protocol, the owner afterwards has at least the priority of the blocked thread, the lists
  stay sound (an owner that is ready moves to the ready list of its new priority), and the
  blocked thread is last on the wait list.\<close>

theorem mutex_lock_inherits_priority:
  assumes "sched_wf s" and "orig_ok s" and "t_status (threads s (running s)) = THREAD_RUNNING"
    and "m_owner m = Some ow" and "m_protocol m = PTHREAD_PRIO_INHERIT"
  shows "\<exists>s'. mutex_lock_round m s = Some (s', m, None) \<and> sched_wf s'
     \<and> t_priority (threads s' ow) = max (t_priority (threads s ow)) (t_priority (threads s (running s)))
     \<and> lst (links s') (WaitQ (m_wq m)) = lst (links s) (WaitQ (m_wq m)) @ [running s]
     \<and> (t_status (threads s' ow) = THREAD_READY \<longrightarrow>
          ow \<in> set (lst (links s') (Ready (t_priority (threads s' ow)))))"
proof -
  from mutex_lock_round_busy [OF assms(1-4)] assms(5) obtain s' where
    s': "mutex_lock_round m s = Some (s', m, None)" "sched_wf s'"
      "t_priority (threads s' ow) = max (t_priority (threads s ow)) (t_priority (threads s (running s)))"
      "lst (links s') (WaitQ (m_wq m)) = lst (links s) (WaitQ (m_wq m)) @ [running s]" by fastforce
  with sched_wfD(4) [OF s'(2), of ow] show ?thesis by blast
qed

theorem mutex_lock_inherits_priority_witness:
  "\<exists>s'. mutex_lock_round (demo_mutex\<lparr>m_owner := Some 2\<rparr>) demo_trylock = Some (s', demo_mutex\<lparr>m_owner := Some 2\<rparr>, None)
     \<and> t_priority (threads s' 2) = 6"
proof -
  have r: "t_status (threads demo_trylock (running demo_trylock)) = THREAD_RUNNING"
    and oo: "orig_ok demo_trylock"
    by (simp_all add: demo_trylock_def demo_kstate_def demo_thread_def orig_ok_def)
  have "m_protocol (demo_mutex\<lparr>m_owner := Some 2\<rparr>) = PTHREAD_PRIO_INHERIT" by (simp add: demo_mutex_def)
  from mutex_lock_inherits_priority [OF demo_trylock_wf oo r _ this, of 2]
  show ?thesis by (auto simp: demo_trylock_def demo_kstate_def demo_thread_def)
qed

text \<open>
  The priority that an owner returns to is not the one it had: \<open>thread_inherit_priority\<close>
  preserves the priority of the blocking thread in place of the owner's, so that a later
  \<open>thread_reset_inherited_priority\<close> in the owner sets the priority to whatever its field
  \<^verbatim>\<open>original_priority\<close> held before, which is 0 for a thread that never blocked. Nor does an
  unlock reset anything: the raised priority stays until the owner locks some mutex.\<close>

theorem inherited_priority_not_restored:
  fixes s :: "'a kstate_scheme"
  assumes wf: "sched_wf s" and oo: "orig_ok s" and r: "t_status (threads s (running s)) = THREAD_RUNNING"
    and ow: "m_owner m = Some ow" "ow \<noteq> running s" and pip: "m_protocol m = PTHREAD_PRIO_INHERIT"
  shows "\<exists>s1. mutex_lock_round m s = Some (s1, m, None)
     \<and> (\<forall>s2 :: 'a kstate_scheme. sched_wf s2 \<and> orig_ok s2 \<and> running s2 = ow \<and> t_status (threads s2 ow) = THREAD_RUNNING
            \<and> t_priority_inherited (threads s2 ow) = t_priority_inherited (threads s1 ow)
            \<and> t_original_priority (threads s2 ow) = t_original_priority (threads s1 ow) \<longrightarrow>
          (\<exists>s3. thread_reset_inherited_priority s2 = Some s3
             \<and> t_priority (threads s3 ow) = t_original_priority (threads s ow)))"
proof -
  from mutex_lock_round_busy [OF wf oo r ow(1)] pip ow(2) obtain s1 where
    s1: "mutex_lock_round m s = Some (s1, m, None)" "t_priority_inherited (threads s1 ow)"
      "t_original_priority (threads s1 ow) = t_original_priority (threads s ow)" by auto
  have "\<exists>s3. thread_reset_inherited_priority s2 = Some s3
      \<and> t_priority (threads s3 ow) = t_original_priority (threads s ow)"
    if "sched_wf s2" "orig_ok s2" "running s2 = ow" "t_status (threads s2 ow) = THREAD_RUNNING"
      "t_priority_inherited (threads s2 ow) = t_priority_inherited (threads s1 ow)"
      "t_original_priority (threads s2 ow) = t_original_priority (threads s1 ow)" for s2 :: "'a kstate_scheme"
    using thread_reset_inherited_priority_spec [of s2] that s1(2,3) by auto
  with s1(1) show ?thesis by blast
qed

theorem inherited_priority_not_restored_witness:
  "\<exists>s1. mutex_lock_round (demo_mutex\<lparr>m_owner := Some 2\<rparr>) demo_trylock = Some (s1, demo_mutex\<lparr>m_owner := Some 2\<rparr>, None)
     \<and> (\<forall>s2 :: kstate. sched_wf s2 \<and> orig_ok s2 \<and> running s2 = 2 \<and> t_status (threads s2 2) = THREAD_RUNNING
            \<and> t_priority_inherited (threads s2 2) = t_priority_inherited (threads s1 2)
            \<and> t_original_priority (threads s2 2) = t_original_priority (threads s1 2) \<longrightarrow>
          (\<exists>s3. thread_reset_inherited_priority s2 = Some s3
             \<and> t_priority (threads s3 2) = t_original_priority (threads demo_trylock 2)))"
proof (rule inherited_priority_not_restored [OF demo_trylock_wf])
  show "orig_ok demo_trylock" by (simp add: demo_trylock_def demo_kstate_def demo_thread_def orig_ok_def)
qed (simp_all add: demo_trylock_def demo_kstate_def demo_thread_def demo_mutex_def)

text \<open>
  \<open>sys_pthread_cond_wait\<close> releases the mutex without waking its waiters and whoever the
  owner is: afterwards the mutex is free, its wait list is what it was, and the caller is on the
  wait list of the condition variable; the call never takes the mutex again.\<close>

theorem cond_wait_releases_without_wakeup:
  assumes wf: "sched_wf s" and r: "t_status (threads s (running s)) = THREAD_RUNNING"
    and ow: "m_owner m = Some ow" and c: "cond \<noteq> m_wq m"
  shows "\<exists>s'. sys_pthread_cond_wait cond m s = Some (s', m\<lparr>m_owner := None\<rparr>, 0) \<and> sched_wf s'
     \<and> lst (links s') (WaitQ (m_wq m)) = lst (links s) (WaitQ (m_wq m))
     \<and> lst (links s') (WaitQ cond) = lst (links s) (WaitQ cond) @ [running s]"
proof -
  have nl: "\<not> lk_linked (running s) (links (preempt_disable s))" using sched_wfD(6) [OF wf r] by simp
  from prepare_to_wait_wf [OF _ nl, of "WaitQ cond" THREAD_WAIT] wf obtain s0 where
    "prepare_to_wait (WaitQ cond) (running s) THREAD_WAIT (preempt_disable s) = Some s0" "sched_wf s0"
    "links s0 = lk_add (running s) (WaitQ cond) (links s)" by auto
  then show ?thesis using ow c by (auto simp: sys_pthread_cond_wait_def critr_def)
qed

theorem cond_wait_releases_without_wakeup_witness:
  "\<exists>s'. sys_pthread_cond_wait 8 (demo_mutex\<lparr>m_owner := Some 2\<rparr>) demo_trylock
       = Some (s', demo_mutex\<lparr>m_owner := Some 2, m_owner := None\<rparr>, 0) \<and> sched_wf s'"
proof -
  have r: "t_status (threads demo_trylock (running demo_trylock)) = THREAD_RUNNING"
    by (simp add: demo_trylock_def demo_kstate_def demo_thread_def)
  have c: "8 \<noteq> m_wq (demo_mutex\<lparr>m_owner := Some 2\<rparr>)" by (simp add: demo_mutex_def)
  from cond_wait_releases_without_wakeup [OF demo_trylock_wf r _ c, of 2] show ?thesis by auto
qed

end
