(* ===== verification/Semaphore.thy ===== *)
theory Semaphore
  imports Sched Mutex
begin

text \<open>
  Counting semaphores (\<^verbatim>\<open>kernel/semaphore.c\<close> and the semaphore calls of \<^verbatim>\<open>kernel/kernel.c\<close>).
  A semaphore is its counter, a signed 32-bit integer kept as \<^typ>\<open>int\<close> with the overflow guard
  of the code, and the number of its wait list. The loop of \<^verbatim>\<open>down\<close> is one definition per
  round, as for the mutex.
\<close>

section \<open>The code\<close>

definition INT32_MAX :: int where [config]: "INT32_MAX = 2147483647"

record semaphore =
  sem_count :: int
  sem_wq :: nat

definition sema_init :: "semaphore \<Rightarrow> int \<Rightarrow> 'a kstate_scheme \<Rightarrow> ('a kstate_scheme \<times> semaphore) option" where
  "sema_init sem val s = map_option (\<lambda>s1. (s1, sem\<lparr>sem_count := val\<rparr>)) (head_init (WaitQ (sem_wq sem)) s)"

text \<open>One round of the loop of \<^verbatim>\<open>down\<close>. The critical section spans the rounds: the result
  \<^const>\<open>None\<close> means that the thread is on the wait list and has called \<^verbatim>\<open>schedule\<close> inside it.\<close>

definition down_round :: "semaphore \<Rightarrow> 'a kstate_scheme \<Rightarrow> ('a kstate_scheme \<times> semaphore \<times> int option) option" where
  "down_round sem s =
     (if sem_count sem \<le> 0
      then map_option (\<lambda>s1. (schedule_request s1, sem, None))
             (prepare_to_wait (WaitQ (sem_wq sem)) (running s) THREAD_WAIT s)
      else Some (preempt_enable s, sem\<lparr>sem_count := sem_count sem - 1\<rparr>, Some 0))"

definition down_enter :: "semaphore \<Rightarrow> 'a kstate_scheme \<Rightarrow> ('a kstate_scheme \<times> semaphore \<times> int option) option" where
  "down_enter sem s = down_round sem (preempt_disable s)"

definition down_resume :: "semaphore \<Rightarrow> 'a kstate_scheme \<Rightarrow> ('a kstate_scheme \<times> semaphore \<times> int option) option" where
  "down_resume sem s = down_round sem (jump_to_kernel_resume s)"

definition down_trylock :: "semaphore \<Rightarrow> 'a kstate_scheme \<Rightarrow> ('a kstate_scheme \<times> semaphore \<times> int) option" where
  "down_trylock sem = critr (\<lambda>s.
     if sem_count sem \<le> 0 then Some (s, sem, - EAGAIN)
     else Some (s, sem\<lparr>sem_count := sem_count sem - 1\<rparr>, 0))"

definition up :: "semaphore \<Rightarrow> 'a kstate_scheme \<Rightarrow> ('a kstate_scheme \<times> semaphore \<times> int) option" where
  "up sem = critr (\<lambda>s.
     if sem_count sem \<ge> INT32_MAX - 1 then Some (s, sem, - EOVERFLOW)
     else
       let sem1 = sem\<lparr>sem_count := sem_count sem + 1\<rparr> in
       map_option (\<lambda>s1. (s1, sem1, 0))
         (if sem_count sem1 > 0 \<and> lst (links s) (WaitQ (sem_wq sem)) \<noteq> []
          then wake_up (WaitQ (sem_wq sem)) s else Some s))"

definition sem_init :: "semaphore option \<Rightarrow> u32 \<Rightarrow> 'a kstate_scheme \<Rightarrow> ('a kstate_scheme \<times> semaphore option \<times> int) option" where
  "sem_init sem value s =
     (case sem of None \<Rightarrow> Some (s, None, - ENOMEM)
      | Some sm \<Rightarrow> map_option (\<lambda>(s1, sm1). (s1, Some sm1, 0)) (sema_init sm (sint value) s))"

definition sys_sem_getvalue :: "semaphore \<Rightarrow> int" where
  "sys_sem_getvalue sem = sem_count sem"

section \<open>Rounds\<close>

lemma jump_to_kernel_resume_frame [simp]:
  "links (jump_to_kernel_resume s) = links s" "threads (jump_to_kernel_resume s) = threads s"
  "running (jump_to_kernel_resume s) = running s" "sched_wf (jump_to_kernel_resume s) = sched_wf s"
  by (simp_all add: jump_to_kernel_resume_def preempt_count_set_def Let_def sched_wf_def)

lemma down_round_take:
  "0 < sem_count sem \<Longrightarrow> down_round sem s = Some (preempt_enable s, sem\<lparr>sem_count := sem_count sem - 1\<rparr>, Some 0)"
  by (simp add: down_round_def)

lemma down_round_block:
  assumes wf: "sched_wf s" and r: "t_status (threads s (running s)) = THREAD_RUNNING" and c: "sem_count sem \<le> 0"
  shows "\<exists>s'. down_round sem s = Some (s', sem, None) \<and> sched_wf s' \<and> running s' = running s
     \<and> links s' = lk_add (running s) (WaitQ (sem_wq sem)) (links s)"
proof -
  have "\<not> lk_linked (running s) (links s)" using sched_wfD(6) [OF wf r] .
  from prepare_to_wait_wf [OF wf this, of "WaitQ (sem_wq sem)" THREAD_WAIT] c show ?thesis
    by (auto simp: down_round_def)
qed

lemma up_spec:
  assumes wf: "sched_wf s" and c: "sem_count sem < INT32_MAX - 1"
  defines "l \<equiv> WaitQ (sem_wq sem)"
  shows "\<exists>s'. up sem s = Some (s', sem\<lparr>sem_count := sem_count sem + 1\<rparr>, 0) \<and> sched_wf s' \<and> running s' = running s
     \<and> (if 0 \<le> sem_count sem \<and> lst (links s) l \<noteq> []
        then \<exists>h. h \<in> set (lst (links s) l) \<and> lst (links s') l = filter (\<lambda>t. t \<noteq> h) (lst (links s) l)
        else lst (links s') l = lst (links s) l)"
proof (cases "0 \<le> sem_count sem \<and> lst (links s) l \<noteq> []")
  case True
  let ?d = "preempt_disable s"
  have wf': "sched_wf ?d" and ne: "lst (links ?d) l \<noteq> []" using wf True by simp_all
  note wu = wake_up_spec [OF wf' ne]
  let ?h = "highest_pri_thread ?d (hd (lst (links ?d) l)) (lst (links ?d) l)"
  let ?s' = "preempt_enable (preempt_enable (make_ready ?h (preempt_disable ?d)))"
  have "up sem s = Some (?s', sem\<lparr>sem_count := sem_count sem + 1\<rparr>, 0)"
    using True c wu(1) by (simp add: up_def critr_def l_def Let_def)
  moreover have "sched_wf ?s'" using make_ready_wf [of "preempt_disable ?d" ?h] wf wu(3) by simp
  moreover have "lst (links ?s') l = filter (\<lambda>t. t \<noteq> ?h) (lst (links s) l)" by (simp add: l_def)
  ultimately show ?thesis using True wu(2) by (intro exI [of _ ?s']) auto
next
  case False
  then show ?thesis using wf c by (auto simp: up_def critr_def l_def Let_def)
qed

section \<open>Threads that use a semaphore\<close>

text \<open>A thread is outside \<^verbatim>\<open>down\<close> or inside it; \<open>taken\<close> counts the successful \<^verbatim>\<open>down\<close> calls and
  \<open>given\<close> the successful \<^verbatim>\<open>up\<close> calls.\<close>

record 'a sem_sys =
  ss_k :: "'a kstate_scheme"
  ss_sem :: semaphore
  ss_in :: "nat set"
  ss_taken :: int
  ss_given :: int

definition sem_waiters :: "'a sem_sys \<Rightarrow> nat list" where
  "sem_waiters c = lst (links (ss_k c)) (WaitQ (sem_wq (ss_sem c)))"

inductive sem_step :: "'a sem_sys \<Rightarrow> 'a sem_sys \<Rightarrow> bool" where
  down_takes: "t_status (threads (ss_k c) (running (ss_k c))) = THREAD_RUNNING \<Longrightarrow>
     (if running (ss_k c) \<in> ss_in c then down_resume (ss_sem c) (ss_k c) else down_enter (ss_sem c) (ss_k c))
       = Some (k', sem', Some v) \<Longrightarrow>
     sem_step c (c\<lparr>ss_k := k', ss_sem := sem', ss_in := ss_in c - {running (ss_k c)}, ss_taken := ss_taken c + 1\<rparr>)"
| down_blocks: "t_status (threads (ss_k c) (running (ss_k c))) = THREAD_RUNNING \<Longrightarrow>
     (if running (ss_k c) \<in> ss_in c then down_resume (ss_sem c) (ss_k c) else down_enter (ss_sem c) (ss_k c))
       = Some (k', sem', None) \<Longrightarrow>
     sem_step c (c\<lparr>ss_k := k', ss_sem := sem', ss_in := insert (running (ss_k c)) (ss_in c)\<rparr>)"
| trylock: "running (ss_k c) \<notin> ss_in c \<Longrightarrow> down_trylock (ss_sem c) (ss_k c) = Some (k', sem', v) \<Longrightarrow>
     sem_step c (c\<lparr>ss_k := k', ss_sem := sem', ss_taken := ss_taken c + (if v = 0 then 1 else 0)\<rparr>)"
| post: "up (ss_sem c) (ss_k c) = Some (k', sem', v) \<Longrightarrow>
     sem_step c (c\<lparr>ss_k := k', ss_sem := sem', ss_given := ss_given c + (if v = 0 then 1 else 0)\<rparr>)"
| sem_elsewhere: "sched_wf k' \<Longrightarrow>
     set (lst (links k') (WaitQ (sem_wq (ss_sem c)))) \<subseteq> set (sem_waiters c) \<Longrightarrow> sem_step c (c\<lparr>ss_k := k'\<rparr>)"

definition sem_inv :: "int \<Rightarrow> 'a sem_sys \<Rightarrow> bool" where
  "sem_inv v0 c \<longleftrightarrow> sched_wf (ss_k c) \<and> finite (ss_in c) \<and> set (sem_waiters c) \<subseteq> ss_in c
     \<and> sem_count (ss_sem c) = v0 + ss_given c - ss_taken c
     \<and> 0 \<le> sem_count (ss_sem c) \<and> sem_count (ss_sem c) \<le> INT32_MAX - 1
     \<and> (sem_waiters c \<noteq> [] \<longrightarrow> sem_count (ss_sem c) \<le> int (card (ss_in c - set (sem_waiters c))))"

lemma down_cases:
  assumes wf: "sched_wf k" and r: "t_status (threads k (running k)) = THREAD_RUNNING"
    and d: "(if b then down_resume sem k else down_enter sem k) = Some (k', sem', res)"
  shows "res = Some 0 \<and> 0 < sem_count sem \<and> sem' = sem\<lparr>sem_count := sem_count sem - 1\<rparr> \<and> sched_wf k' \<and> links k' = links k
    \<or> res = None \<and> sem_count sem \<le> 0 \<and> sem' = sem \<and> sched_wf k'
        \<and> links k' = lk_add (running k) (WaitQ (sem_wq sem)) (links k)"
proof -
  define s where "s = (if b then jump_to_kernel_resume k else preempt_disable k)"
  have s: "sched_wf s" "running s = running k" "threads s = threads k" "links s = links k"
    using wf by (auto simp: s_def)
  have dr: "down_round sem s = Some (k', sem', res)"
    using d by (auto simp: s_def down_resume_def down_enter_def split: if_splits)
  show ?thesis
  proof (cases "sem_count sem \<le> 0")
    case True
    with down_round_block [OF s(1) _ True] r s dr show ?thesis by auto
  next
    case False
    with down_round_take [of sem s] dr s show ?thesis by auto
  qed
qed

lemma sem_step_inv:
  assumes "sem_step c c'" and inv: "sem_inv v0 c"
  shows "sem_inv v0 c'"
  using assms(1)
proof (cases rule: sem_step.cases)
  case (down_takes k' sem' v)
  let ?r = "running (ss_k c)"
  have wf: "sched_wf (ss_k c)" using inv by (simp add: sem_inv_def)
  note dc = down_cases [OF wf down_takes(2,3)]
  have nr: "?r \<notin> set (sem_waiters c)"
    using sched_wfD(6) [OF wf down_takes(2)] by (auto simp: lk_linked_iff sem_waiters_def)
  have w: "sem_waiters c' = sem_waiters c" using dc down_takes(1) by (simp add: sem_waiters_def)
  have "card (ss_in c - set (sem_waiters c)) \<le> Suc (card (ss_in c - {?r} - set (sem_waiters c)))"
  proof -
    have e: "ss_in c - {?r} - set (sem_waiters c) = ss_in c - set (sem_waiters c) - {?r}" by auto
    have "finite (ss_in c - set (sem_waiters c))" using inv by (simp add: sem_inv_def)
    then show ?thesis unfolding e using card_Suc_Diff1 [of "ss_in c - set (sem_waiters c)" ?r]
      by (cases "?r \<in> ss_in c - set (sem_waiters c)") simp_all
  qed
  then show ?thesis using inv dc down_takes(1) nr unfolding sem_inv_def w by auto
next
  case (down_blocks k' sem')
  have wf: "sched_wf (ss_k c)" using inv by (simp add: sem_inv_def)
  note dc = down_cases [OF wf down_blocks(2,3)]
  have "sem_waiters c' = sem_waiters c @ [running (ss_k c)]" using dc down_blocks(1) by (simp add: sem_waiters_def)
  then show ?thesis using inv dc down_blocks(1) unfolding sem_inv_def by auto
next
  case (trylock k' sem' v)
  have "sem_waiters c' = sem_waiters c"
    using trylock by (auto simp: sem_waiters_def down_trylock_def critr_def split: if_splits)
  then show ?thesis using inv trylock unfolding sem_inv_def
    by (auto simp: down_trylock_def critr_def errno split: if_splits)
next
  case (post k' sem' v)
  have wf: "sched_wf (ss_k c)" using inv by (simp add: sem_inv_def)
  show ?thesis
  proof (cases "sem_count (ss_sem c) < INT32_MAX - 1")
    case False
    then have "k' = preempt_enable (preempt_disable (ss_k c))" "sem' = ss_sem c" "v = - EOVERFLOW"
      using post(2) by (auto simp: up_def critr_def)
    then show ?thesis using inv post(1) by (auto simp: sem_inv_def sem_waiters_def errno)
  next
    case True
    note us = up_spec [OF wf True, unfolded post(2)]
    show ?thesis
    proof (cases "sem_waiters c = []")
      case True
      then have "sem_waiters c' = []" using us post(1) by (auto simp: sem_waiters_def)
      then show ?thesis using inv us post(1) \<open>_ < INT32_MAX - 1\<close> by (auto simp: sem_inv_def)
    next
      case False
      have "0 \<le> sem_count (ss_sem c)" using inv by (simp add: sem_inv_def)
      with us False post(1) obtain h where h: "h \<in> set (sem_waiters c)"
        "sem_waiters c' = filter (\<lambda>t. t \<noteq> h) (sem_waiters c)" by (auto simp: sem_waiters_def)
      have "ss_in c - set (sem_waiters c') = insert h (ss_in c - set (sem_waiters c))"
        using h inv by (auto simp: sem_inv_def)
      then have "card (ss_in c - set (sem_waiters c')) = Suc (card (ss_in c - set (sem_waiters c)))"
        using h inv by (auto simp: sem_inv_def)
      then show ?thesis using inv us post(1) h False \<open>_ < INT32_MAX - 1\<close> by (auto simp: sem_inv_def)
    qed
  qed
next
  case (sem_elsewhere k')
  have sub: "set (sem_waiters c') \<subseteq> set (sem_waiters c)" using sem_elsewhere by (simp add: sem_waiters_def)
  then have "card (ss_in c - set (sem_waiters c)) \<le> card (ss_in c - set (sem_waiters c'))"
    using inv by (intro card_mono) (auto simp: sem_inv_def)
  then show ?thesis using inv sub sem_elsewhere by (auto simp: sem_inv_def)
qed

section \<open>Properties\<close>

text \<open>
  C11. Semaphores over every interleaving of \<open>down\<close>, \<open>down_trylock\<close>, \<open>up\<close> and other kernel
  activity: the counter is always the initial value plus the successful \<open>up\<close> calls minus the
  successful \<open>down\<close> calls, it is never negative and never passes the overflow guard, and no
  wake-up is lost: while threads wait, at least as many threads that are inside \<open>down\<close> have been
  taken off the wait list as there are units to take.\<close>

theorem semaphore_counts_and_wakes:
  assumes "sched_wf k" and "lst (links k) (WaitQ (sem_wq sem)) = []" and "0 \<le> sem_count sem"
    and "sem_count sem \<le> INT32_MAX - 1"
    and run: "sem_step\<^sup>*\<^sup>* \<lparr>ss_k = k, ss_sem = sem, ss_in = {}, ss_taken = 0, ss_given = 0\<rparr> c"
  shows "sem_count (ss_sem c) = sem_count sem + ss_given c - ss_taken c
     \<and> 0 \<le> sem_count (ss_sem c) \<and> sem_count (ss_sem c) \<le> INT32_MAX - 1
     \<and> (sem_waiters c \<noteq> [] \<longrightarrow> sem_count (ss_sem c) \<le> int (card (ss_in c - set (sem_waiters c))))"
proof -
  have "sem_inv (sem_count sem) \<lparr>ss_k = k, ss_sem = sem, ss_in = {}, ss_taken = 0, ss_given = 0\<rparr>"
    using assms(1-4) by (simp add: sem_inv_def sem_waiters_def)
  with run have "sem_inv (sem_count sem) c" by (induction rule: rtranclp_induct) (auto dest: sem_step_inv)
  then show ?thesis unfolding sem_inv_def by blast
qed

theorem semaphore_counts_and_wakes_witness:
  "\<exists>c. sem_step\<^sup>*\<^sup>* \<lparr>ss_k = demo_state, ss_sem = \<lparr>sem_count = 1, sem_wq = 9\<rparr>, ss_in = {}, ss_taken = 0, ss_given = 0\<rparr> c
     \<and> sem_count (ss_sem c) = 0 \<and> ss_taken c = 1"
proof -
  let ?c = "\<lparr>ss_k = demo_state, ss_sem = \<lparr>sem_count = 1, sem_wq = 9\<rparr>, ss_in = {}, ss_taken = 0, ss_given = 0\<rparr>"
  have r: "t_status (threads (ss_k ?c) (running (ss_k ?c))) = THREAD_RUNNING"
    by (simp add: demo_state_def demo_kstate_def demo_threads_def demo_thread_def)
  have w: "lst (links demo_state) (WaitQ (sem_wq \<lparr>sem_count = 1, sem_wq = 9\<rparr>)) = []"
    by (simp add: demo_state_def demo_kstate_def lst_def)
  have "(if running (ss_k ?c) \<in> ss_in ?c then down_resume (ss_sem ?c) (ss_k ?c) else down_enter (ss_sem ?c) (ss_k ?c))
      = Some (preempt_enable (preempt_disable demo_state), \<lparr>sem_count = 0, sem_wq = 9\<rparr>, Some 0)"
    by (simp add: down_enter_def down_round_def)
  from sem_step.down_takes [OF r this] have s: "sem_step\<^sup>*\<^sup>* ?c (?c\<lparr>ss_k := preempt_enable (preempt_disable demo_state),
      ss_sem := \<lparr>sem_count = 0, sem_wq = 9\<rparr>, ss_in := ss_in ?c - {running (ss_k ?c)}, ss_taken := ss_taken ?c + 1\<rparr>)"
    by blast
  from semaphore_counts_and_wakes [OF demo_state_wf(1) w _ _ s] show ?thesis
    by (intro exI [of _ "?c\<lparr>ss_k := preempt_enable (preempt_disable demo_state),
      ss_sem := \<lparr>sem_count = 0, sem_wq = 9\<rparr>, ss_in := ss_in ?c - {running (ss_k ?c)}, ss_taken := ss_taken ?c + 1\<rparr>"])
      (use s in \<open>simp add: INT32_MAX_def\<close>)
qed

end
