(* ===== verification/Pipe.thy ===== *)
theory Pipe
  imports Sched
begin

text \<open>
  Pipes (\<^verbatim>\<open>kernel/pipe.c\<close>, \<^verbatim>\<open>include/kernel/pipe.h\<close>) and \<^verbatim>\<open>poll_notify\<close> of \<^verbatim>\<open>kernel/kernel.c\<close>: the
  anonymous pipe every thread has and the named FIFOs of the file system. The kernel state is
  extended by the file table and the pipes; a file object and the pipe it is embedded in have
  the number of their entry in the table. A blocking read or write returns
  \<^verbatim>\<open>-ERESTARTSYS\<close> with the caller on a wait list, and the system call tries again.

  The theorems: a pipe is a byte stream that loses and reorders nothing over every run of
  reads and writes; what every branch of a read and a write does; which reader is woken.
\<close>

section \<open>Files and pipes\<close>

definition O_NONBLOCK :: u32 where [config]: "O_NONBLOCK = 0x800"
definition POLLIN :: u32 where [config]: "POLLIN = 1"
definition POLLOUT :: u32 where [config]: "POLLOUT = 4"

text \<open>The operation tables that a file can point to; those of drivers have numbers, and \<open>No_ops\<close> is the
  null pointer.\<close>

datatype fops = No_ops | Rootfs_ops | Fifo_ops | Reg_file_ops | Null_dev_ops | Rom_dev_ops | Driver_ops nat

record kfile =
  f_inode :: "nat option"
  f_op :: fops
  f_events :: u32
  f_flags :: u32

record pipe =
  p_fifo :: kfifo
  p_r_wait_list :: nat
  p_w_wait_list :: nat

record pstate = kstate +
  files :: "nat \<Rightarrow> kfile option"
  pipes :: "nat \<Rightarrow> pipe option"

definition set_file :: "nat \<Rightarrow> kfile \<Rightarrow> 'a pstate_scheme \<Rightarrow> 'a pstate_scheme" where
  "set_file fd f s = s\<lparr>files := (files s)(fd := Some f)\<rparr>"

definition set_fifo :: "nat \<Rightarrow> pipe \<Rightarrow> kfifo \<Rightarrow> 'a pstate_scheme \<Rightarrow> 'a pstate_scheme" where
  "set_fifo fd p f s = s\<lparr>pipes := (pipes s)(fd := Some (p\<lparr>p_fifo := f\<rparr>))\<rparr>"

section \<open>The code\<close>

definition fifo_open :: int where
  "fifo_open = 0"

definition fifo_pick :: "'a kstate_scheme \<Rightarrow> nat \<Rightarrow> nat list \<Rightarrow> nat option" where
  "fifo_pick s avail_size ts = foldl (\<lambda>h t.
     if t_file_request_size (threads s t) \<le> avail_size
        \<and> (case h of None \<Rightarrow> True | Some u \<Rightarrow> t_priority (threads s t) > t_priority (threads s u))
     then Some t else h) None ts"

definition fifo_wake_up :: "lid \<Rightarrow> nat \<Rightarrow> 'a kstate_scheme \<Rightarrow> 'a kstate_scheme option" where
  "fifo_wake_up wait_list avail_size s =
     (case fifo_pick s avail_size (lst (links s) wait_list) of
        None \<Rightarrow> Some s
      | Some t \<Rightarrow> finish_wait t s)"

text \<open>The loops over the bytes of the caller's buffer.\<close>

primrec fifo_out_bytes :: "nat \<Rightarrow> nat \<Rightarrow> kfifo \<Rightarrow> u8 list \<Rightarrow> (kfifo \<times> u8 list) option" where
  "fifo_out_bytes i 0 f buf = Some (f, buf)"
| "fifo_out_bytes i (Suc n) f buf = do {
     (f1, r) \<leftarrow> kfifo_out f 1;
     buf1 \<leftarrow> (case r of None \<Rightarrow> Some buf | Some bs \<Rightarrow> mem_write buf i bs);
     fifo_out_bytes (Suc i) n f1 buf1
   }"

primrec fifo_in_bytes :: "nat \<Rightarrow> nat \<Rightarrow> kfifo \<Rightarrow> u8 list \<Rightarrow> kfifo option" where
  "fifo_in_bytes i 0 f buf = Some f"
| "fifo_in_bytes i (Suc n) f buf = do {
     bs \<leftarrow> mem_read buf i 1;
     f1 \<leftarrow> kfifo_in f bs;
     fifo_in_bytes (Suc i) n f1 buf
   }"

definition fifo_block :: "lid \<Rightarrow> nat \<Rightarrow> 'a kstate_scheme \<Rightarrow> 'a kstate_scheme option" where
  "fifo_block wait_list sz s =
     prepare_to_wait wait_list (running s) THREAD_WAIT
       (upd_thread (running s) (t_file_request_size_update (\<lambda>_. sz)) s)"

definition fifo_read_now ::
  "nat \<Rightarrow> pipe \<Rightarrow> u8 list \<Rightarrow> nat \<Rightarrow> 'a pstate_scheme \<Rightarrow> ('a pstate_scheme \<times> u8 list \<times> int) option" where
  "fifo_read_now fd p buf sz s = do {
     (f, buf1) \<leftarrow> fifo_out_bytes 0 sz (p_fifo p) buf;
     s1 \<leftarrow> fifo_wake_up (WaitQ (p_w_wait_list p)) (nat (kfifo_avail f)) (set_fifo fd p f s);
     Some (s1, buf1, int sz)
   }"

definition fifo_read_body ::
  "nat \<Rightarrow> u8 list \<Rightarrow> nat \<Rightarrow> 'a pstate_scheme \<Rightarrow> ('a pstate_scheme \<times> u8 list \<times> int) option" where
  "fifo_read_body fd buf sz s = do {
     p \<leftarrow> pipes s fd;
     filp \<leftarrow> files s fd;
     let len = nat (kfifo_len (p_fifo p));
     if sz > len then
       if f_flags filp AND O_NONBLOCK \<noteq> 0 then
         if len > 0 then fifo_read_now fd p buf len s else Some (s, buf, - EAGAIN)
       else map_option (\<lambda>s1. (s1, buf, - ERESTARTSYS)) (fifo_block (WaitQ (p_r_wait_list p)) sz s)
     else fifo_read_now fd p buf sz s
   }"

definition fifo_write_now ::
  "nat \<Rightarrow> pipe \<Rightarrow> u8 list \<Rightarrow> nat \<Rightarrow> 'a pstate_scheme \<Rightarrow> ('a pstate_scheme \<times> int) option" where
  "fifo_write_now fd p buf sz s = do {
     f \<leftarrow> fifo_in_bytes 0 sz (p_fifo p) buf;
     s1 \<leftarrow> fifo_wake_up (WaitQ (p_r_wait_list p)) (nat (kfifo_len f)) (set_fifo fd p f s);
     Some (s1, int sz)
   }"

definition fifo_write_body ::
  "nat \<Rightarrow> u8 list \<Rightarrow> nat \<Rightarrow> 'a pstate_scheme \<Rightarrow> ('a pstate_scheme \<times> int) option" where
  "fifo_write_body fd buf sz s = do {
     p \<leftarrow> pipes s fd;
     filp \<leftarrow> files s fd;
     let avail = nat (kfifo_avail (p_fifo p));
     if sz > avail then
       if f_flags filp AND O_NONBLOCK \<noteq> 0 then
         if avail > 0 then fifo_write_now fd p buf avail s else Some (s, - EAGAIN)
       else map_option (\<lambda>s1. (s1, - ERESTARTSYS)) (fifo_block (WaitQ (p_w_wait_list p)) sz s)
     else fifo_write_now fd p buf sz s
   }"

text \<open>\<^verbatim>\<open>poll_notify\<close>: both loops; a thread that polls the file is woken once for each time the
  file is on its list.\<close>

primrec poll_wake :: "nat \<Rightarrow> nat \<Rightarrow> nat list \<Rightarrow> 'a kstate_scheme \<Rightarrow> 'a kstate_scheme option" where
  "poll_wake fl t [] s = Some s"
| "poll_wake fl t (f # fs) s =
     (if f = fl then finish_wait t s \<bind> poll_wake fl t fs else poll_wake fl t fs s)"

primrec poll_notify_each :: "nat \<Rightarrow> nat list \<Rightarrow> 'a kstate_scheme \<Rightarrow> 'a kstate_scheme option" where
  "poll_notify_each fl [] s = Some s"
| "poll_notify_each fl (t # ts) s =
     poll_wake fl t (t_poll_files (threads s t)) s \<bind> poll_notify_each fl ts"

definition poll_notify :: "nat \<Rightarrow> 'a kstate_scheme \<Rightarrow> 'a kstate_scheme option" where
  "poll_notify fl s = poll_notify_each fl (lst (links s) Poll) s"

definition fifo_events :: "nat \<Rightarrow> bool \<Rightarrow> u32 \<Rightarrow> 'a pstate_scheme \<Rightarrow> 'a pstate_scheme option" where
  "fifo_events fd on ev s = do {
     filp \<leftarrow> files s fd;
     if on then poll_notify fd (set_file fd (filp\<lparr>f_events := f_events filp OR ev\<rparr>) s)
     else Some (set_file fd (filp\<lparr>f_events := f_events filp AND NOT ev\<rparr>) s)
   }"

definition fifo_read ::
  "nat \<Rightarrow> u8 list \<Rightarrow> nat \<Rightarrow> 'a pstate_scheme \<Rightarrow> ('a pstate_scheme \<times> u8 list \<times> int) option" where
  "fifo_read fd buf sz = critr (\<lambda>s. do {
     (s1, buf1, retval) \<leftarrow> fifo_read_body fd buf sz s;
     p \<leftarrow> pipes s1 fd;
     s2 \<leftarrow> fifo_events fd (kfifo_len (p_fifo p) > 0) POLLOUT s1;
     Some (s2, buf1, retval)
   })"

definition fifo_write ::
  "nat \<Rightarrow> u8 list \<Rightarrow> nat \<Rightarrow> 'a pstate_scheme \<Rightarrow> ('a pstate_scheme \<times> int) option" where
  "fifo_write fd buf sz = critr (\<lambda>s. do {
     (s1, retval) \<leftarrow> fifo_write_body fd buf sz s;
     p \<leftarrow> pipes s1 fd;
     s2 \<leftarrow> fifo_events fd (kfifo_avail (p_fifo p) > 0) POLLIN s1;
     Some (s2, retval)
   })"

definition fifo_init ::
  "nat \<Rightarrow> nat option \<Rightarrow> pipe \<Rightarrow> 'a pstate_scheme \<Rightarrow> ('a pstate_scheme \<times> int) option" where
  "fifo_init fd file_inode p s = do {
     s1 \<leftarrow> head_init (WaitQ (p_r_wait_list p)) s;
     s2 \<leftarrow> head_init (WaitQ (p_w_wait_list p)) s1;
     Some (s2\<lparr>files := (files s2)(fd := Some \<lparr>f_inode = file_inode, f_op = Fifo_ops, f_events = 0, f_flags = 0\<rparr>),
              pipes := (pipes s2)(fd := Some p)\<rparr>, 0)
   }"

section \<open>The byte stream\<close>

definition byte_fifo :: "kfifo \<Rightarrow> bool" where
  "byte_fifo f \<longleftrightarrow> fifo_wf f \<and> kf_esize f = 1"

definition fifo_bytes :: "kfifo \<Rightarrow> u8 list" where
  "fifo_bytes f = concat (fifo_list f)"

lemma concat_singletons: "\<forall>r \<in> set rs. length r = 1 \<Longrightarrow> map (\<lambda>b. [b]) (concat rs) = rs"
  by (induction rs) (auto simp: length_Suc_conv)

lemma byte_fifo_list:
  assumes "byte_fifo f"
  shows "fifo_list f = map (\<lambda>b. [b]) (fifo_bytes f)"
proof -
  have "length r = 1" if "r \<in> set (fifo_list f)" for r
  proof -
    from that obtain j where "fifo_rec f j = Some r"
      using assms by (auto simp: fifo_list_def byte_fifo_def fifo_wf_def)
    then show ?thesis using fifo_rec_slot(1) [of f j r] assms
      by (auto simp: byte_fifo_def fifo_wf_def fifo_fits_def)
  qed
  then show ?thesis unfolding fifo_bytes_def by (simp add: concat_singletons)
qed

lemma byte_fifo_len:
  assumes "byte_fifo f"
  shows "kfifo_len f = int (length (fifo_bytes f))"
    and "kfifo_avail f = int (kf_size f) - int (length (fifo_bytes f))"
    and "length (fifo_bytes f) \<le> kf_size f"
  using assms fifo_list_length [of f] byte_fifo_list [OF assms]
  by (auto simp: byte_fifo_def kfifo_len_def kfifo_avail_def fifo_wf_def)

lemma fifo_out_byte:
  assumes "byte_fifo f" and "fifo_bytes f = b # bs"
  shows "\<exists>f'. kfifo_out f 1 = Some (f', Some [b]) \<and> byte_fifo f' \<and> kf_size f' = kf_size f \<and> fifo_bytes f' = bs"
proof -
  have "fifo_list f = [b] # map (\<lambda>b. [b]) bs" using byte_fifo_list [OF assms(1)] assms(2) by simp
  from kfifo_out_spec [OF _ this, of 1] assms(1) obtain f' r where
    f': "kfifo_out f 1 = Some (f', Some r)" "fifo_wf f'" "fifo_list f' = map (\<lambda>b. [b]) bs"
    "kf_size f' = kf_size f" "kf_esize f' = kf_esize f" "length r = 1" "take 1 r = [b]"
    by (auto simp: byte_fifo_def)
  from f'(6,7) have "r = [b]" by (cases r) auto
  moreover have "fifo_bytes f' = bs" using f'(3) by (simp add: fifo_bytes_def)
  ultimately show ?thesis using f' assms(1) by (auto simp: byte_fifo_def)
qed

lemma fifo_out_bytes_spec:
  assumes "byte_fifo f" and "n \<le> length (fifo_bytes f)" and "i + n \<le> length buf"
  shows "\<exists>f'. fifo_out_bytes i n f buf = Some (f', take i buf @ take n (fifo_bytes f) @ drop (i + n) buf)
     \<and> byte_fifo f' \<and> kf_size f' = kf_size f \<and> fifo_bytes f' = drop n (fifo_bytes f)"
  using assms
proof (induction n arbitrary: i f buf)
  case (Suc n)
  then obtain b bs where b: "fifo_bytes f = b # bs" by (cases "fifo_bytes f") auto
  from fifo_out_byte [OF Suc.prems(1) b] obtain f1 where
    f1: "kfifo_out f 1 = Some (f1, Some [b])" "byte_fifo f1" "kf_size f1 = kf_size f" "fifo_bytes f1 = bs" by auto
  let ?buf = "take i buf @ [b] @ drop (Suc i) buf"
  have w: "mem_write buf i [b] = Some ?buf" using Suc.prems(3) by (simp add: mem_write_def)
  have "n \<le> length (fifo_bytes f1)" "Suc i + n \<le> length ?buf" using Suc.prems b f1(4) by auto
  from Suc.IH [OF f1(2) this] obtain f' where
    f': "fifo_out_bytes (Suc i) n f1 ?buf
       = Some (f', take (Suc i) ?buf @ take n (fifo_bytes f1) @ drop (Suc i + n) ?buf)"
    "byte_fifo f'" "kf_size f' = kf_size f1" "fifo_bytes f' = drop n (fifo_bytes f1)" by auto
  have "take (Suc i) ?buf = take i buf @ [b]" "drop (Suc i + n) ?buf = drop (i + Suc n) buf"
    using Suc.prems(3) by (simp_all add: min_absorb2 add.commute)
  then show ?case using f1 f' b w by simp
qed simp

lemma fifo_in_byte:
  assumes "byte_fifo f" and "length (fifo_bytes f) < kf_size f"
  shows "\<exists>f'. kfifo_in f [b] = Some f' \<and> byte_fifo f' \<and> kf_size f' = kf_size f
     \<and> fifo_bytes f' = fifo_bytes f @ [b]"
proof -
  have "fifo_wf f" "fifo_fits f [b]" "\<not> kfifo_is_full f"
    using assms byte_fifo_len(1) [OF assms(1)] by (auto simp: byte_fifo_def fifo_fits_def kfifo_is_full_def kfifo_len_def)
  from kfifo_in_spec [OF this(1,2)] this(3) assms(1) show ?thesis
    by (auto simp: byte_fifo_def fifo_bytes_def)
qed

lemma fifo_in_bytes_spec:
  assumes "byte_fifo f" and "length (fifo_bytes f) + n \<le> kf_size f" and "i + n \<le> length buf"
  shows "\<exists>f'. fifo_in_bytes i n f buf = Some f' \<and> byte_fifo f' \<and> kf_size f' = kf_size f
     \<and> fifo_bytes f' = fifo_bytes f @ take n (drop i buf)"
  using assms
proof (induction n arbitrary: i f)
  case (Suc n)
  then have i: "mem_read buf i 1 = Some [buf ! i]" "drop i buf = buf ! i # drop (Suc i) buf"
    by (auto simp: mem_read_def Cons_nth_drop_Suc [symmetric])
  from fifo_in_byte [of f "buf ! i"] Suc.prems obtain f1 where
    f1: "kfifo_in f [buf ! i] = Some f1" "byte_fifo f1" "kf_size f1 = kf_size f"
      "fifo_bytes f1 = fifo_bytes f @ [buf ! i]" by auto
  from Suc.IH [OF f1(2), of "Suc i"] Suc.prems f1 obtain f' where
    "fifo_in_bytes (Suc i) n f1 buf = Some f'" "byte_fifo f'" "kf_size f' = kf_size f1"
    "fifo_bytes f' = fifo_bytes f1 @ take n (drop (Suc i) buf)" by auto
  then show ?case using f1 i by simp
qed simp

section \<open>Waking\<close>

lemma fifo_pick_spec:
  "case fifo_pick s n ts of
     None \<Rightarrow> \<forall>t \<in> set ts. t_file_request_size (threads s t) > n
   | Some t \<Rightarrow> \<exists>us vs. ts = us @ t # vs \<and> t_file_request_size (threads s t) \<le> n
       \<and> (\<forall>u \<in> set us. t_file_request_size (threads s u) \<le> n \<longrightarrow> t_priority (threads s u) < t_priority (threads s t))
       \<and> (\<forall>v \<in> set vs. t_file_request_size (threads s v) \<le> n \<longrightarrow> t_priority (threads s v) \<le> t_priority (threads s t))"
proof (induction ts rule: rev_induct)
  case (snoc t ts)
  have step: "fifo_pick s n (ts @ [t]) = (if t_file_request_size (threads s t) \<le> n
        \<and> (case fifo_pick s n ts of None \<Rightarrow> True | Some u \<Rightarrow> t_priority (threads s t) > t_priority (threads s u))
     then Some t else fifo_pick s n ts)" by (simp add: fifo_pick_def)
  show ?case
  proof (cases "fifo_pick s n ts")
    case None
    then have none: "\<forall>u \<in> set ts. \<not> t_file_request_size (threads s u) \<le> n" using snoc by auto
    show ?thesis
    proof (cases "t_file_request_size (threads s t) \<le> n")
      case True
      then have "fifo_pick s n (ts @ [t]) = Some t" using None by (simp add: step)
      then show ?thesis using True none unfolding option.case
        by (simp only: option.case) (intro exI [of _ ts] exI [of _ "[]"], auto)
    qed (use None none in \<open>auto simp: step not_le\<close>)
  next
    case (Some u)
    then obtain us vs where u: "ts = us @ u # vs" "t_file_request_size (threads s u) \<le> n"
      "\<forall>x \<in> set us. t_file_request_size (threads s x) \<le> n \<longrightarrow> t_priority (threads s x) < t_priority (threads s u)"
      "\<forall>x \<in> set vs. t_file_request_size (threads s x) \<le> n \<longrightarrow> t_priority (threads s x) \<le> t_priority (threads s u)"
      using snoc by auto
    show ?thesis
    proof (cases "t_file_request_size (threads s t) \<le> n \<and> t_priority (threads s t) > t_priority (threads s u)")
      case True
      then have "\<forall>x \<in> set ts. t_file_request_size (threads s x) \<le> n \<longrightarrow> t_priority (threads s x) < t_priority (threads s t)"
        using u by (auto simp: order_le_less_trans dest: order_less_trans)
      moreover have "fifo_pick s n (ts @ [t]) = Some t" using True Some by (simp add: step)
      ultimately show ?thesis using True
        by (simp only: option.case) (intro exI [of _ ts] exI [of _ "[]"], auto)
    next
      case False
      then have "ts @ [t] = us @ u # (vs @ [t])"
        "\<forall>x \<in> set (vs @ [t]). t_file_request_size (threads s x) \<le> n \<longrightarrow> t_priority (threads s x) \<le> t_priority (threads s u)"
        using u by auto
      moreover have "fifo_pick s n (ts @ [t]) = Some u" using False Some by (auto simp: step)
      ultimately show ?thesis using u(2,3)
        by (simp only: option.case) (intro exI [of _ us] exI [of _ "vs @ [t]"], auto)
    qed
  qed
qed (simp add: fifo_pick_def)

text \<open>What waking leaves alone: the running thread, and which nodes are linked.\<close>

definition woke :: "'a kstate_scheme \<Rightarrow> 'a kstate_scheme \<Rightarrow> bool" where
  "woke s s' \<longleftrightarrow> sched_wf s' \<and> running s' = running s \<and> threads s' (running s) = threads s (running s)
     \<and> (\<forall>u. lk_linked u (links s') = lk_linked u (links s))
     \<and> (\<forall>l. running s \<in> set (lst (links s') l) \<longleftrightarrow> running s \<in> set (lst (links s) l))"

lemma woke_refl: "sched_wf s \<Longrightarrow> woke s s" and woke_trans: "woke s s1 \<Longrightarrow> woke s1 s2 \<Longrightarrow> woke s s2"
  by (simp_all add: woke_def)

lemma finish_wait_eq:
  assumes "sched_wf s" and "lk_linked t (links s)"
  shows "finish_wait t s = Some (preempt_enable
           (if t = running s then preempt_disable s else make_ready t (preempt_disable s)))"
  using assms node_move_ready' [of "preempt_disable s" t] by (auto simp: finish_wait_def crit_def)

lemma finish_wait_woke:
  assumes "sched_wf s" and "lk_linked t (links s)"
  shows "\<exists>s'. finish_wait t s = Some s' \<and> woke s s'"
  using assms make_ready_wf [of "preempt_disable s" t] by (auto simp: finish_wait_eq woke_def)

lemma lst_linked: "t \<in> set (lst L h) \<Longrightarrow> lk_linked t L"
  by (auto simp: lk_linked_iff)

lemma fifo_wake_up_woke:
  assumes "sched_wf s"
  shows "\<exists>s'. fifo_wake_up l n s = Some s' \<and> woke s s'"
proof (cases "fifo_pick s n (lst (links s) l)")
  case None
  then show ?thesis using assms by (simp add: fifo_wake_up_def woke_refl)
next
  case (Some t)
  then have "t \<in> set (lst (links s) l)" using fifo_pick_spec [where s = s and n = n and ts = "lst (links s) l"] by auto
  then show ?thesis using Some finish_wait_woke [OF assms lst_linked, of t] by (simp add: fifo_wake_up_def)
qed

lemma poll_wake_woke:
  assumes "sched_wf s" and "lk_linked t (links s)"
  shows "\<exists>s'. poll_wake fl t fs s = Some s' \<and> woke s s'"
  using assms
proof (induction fs arbitrary: s)
  case (Cons f fs)
  show ?case
  proof (cases "f = fl")
    case True
    from finish_wait_woke [OF Cons.prems] obtain s1 where s1: "finish_wait t s = Some s1" "woke s s1" by auto
    moreover have "\<exists>s'. poll_wake fl t fs s1 = Some s' \<and> woke s1 s'"
      using s1 Cons.prems by (intro Cons.IH) (auto simp: woke_def)
    ultimately show ?thesis using True by (auto intro: woke_trans)
  qed (use Cons in auto)
qed (simp add: woke_refl)

lemma poll_notify_each_woke:
  assumes "sched_wf s" and "\<forall>t \<in> set ts. lk_linked t (links s)"
  shows "\<exists>s'. poll_notify_each fl ts s = Some s' \<and> woke s s'"
  using assms
proof (induction ts arbitrary: s)
  case (Cons t ts)
  from poll_wake_woke [where fl = fl and fs = "t_poll_files (threads s t)" and s = s and t = t] Cons.prems obtain s1 where
    s1: "poll_wake fl t (t_poll_files (threads s t)) s = Some s1" "woke s s1" by auto
  moreover have "\<exists>s'. poll_notify_each fl ts s1 = Some s' \<and> woke s1 s'"
    using s1 Cons.prems by (intro Cons.IH) (auto simp: woke_def)
  ultimately show ?case by (auto intro: woke_trans)
qed (simp add: woke_refl)

lemma poll_notify_woke:
  assumes "sched_wf s"
  shows "\<exists>s'. poll_notify fl s = Some s' \<and> woke s s'"
  unfolding poll_notify_def using assms by (intro poll_notify_each_woke) (auto intro: lst_linked)

text \<open>The operations of the scheduler do not touch files and pipes.\<close>

definition same_files :: "'a pstate_scheme \<Rightarrow> 'a pstate_scheme \<Rightarrow> bool" where
  "same_files s s' \<longleftrightarrow> files s' = files s \<and> pipes s' = pipes s"

lemma preempt_files [simp]:
  "files (preempt_disable s) = files s" "pipes (preempt_disable s) = pipes s"
  "files (preempt_enable s) = files s" "pipes (preempt_enable s) = pipes s"
  by (simp_all add: preempt_disable_def preempt_enable_def preempt_count_inc_def preempt_count_dec_def Let_def)

lemma upd_thread_files [simp]:
  "files (upd_thread t f s) = files s" "pipes (upd_thread t f s) = pipes s"
  "files (set_status t st s) = files s" "pipes (set_status t st s) = pipes s"
  "files (make_ready t s) = files s" "pipes (make_ready t s) = pipes s"
  by (simp_all add: upd_thread_def set_status_def make_ready_def)

lemma same_files_refl [simp]: "same_files s s" and same_files_trans: "same_files s s1 \<Longrightarrow> same_files s1 s2 \<Longrightarrow> same_files s s2"
  by (simp_all add: same_files_def)

lemma node_add_files: "node_add t l s = Some s' \<Longrightarrow> same_files s s'"
  by (auto simp: node_add_def same_files_def split: if_splits)

lemma node_del_files: "node_del t s = Some s' \<Longrightarrow> same_files s s'"
  by (auto simp: node_del_def same_files_def split: if_splits)

lemma finish_wait_files: "finish_wait t s = Some s' \<Longrightarrow> same_files s s'"
  by (auto simp: finish_wait_def crit_def node_move_def same_files_def bind_eq_Some_iff
      dest!: node_add_files node_del_files split: if_splits)

lemma prepare_to_wait_files: "prepare_to_wait l t st s = Some s' \<Longrightarrow> same_files s s'"
  by (auto simp: prepare_to_wait_def crit_def same_files_def bind_eq_Some_iff dest!: node_add_files)

lemma fifo_wake_up_files: "fifo_wake_up l n s = Some s' \<Longrightarrow> same_files s s'"
  by (auto simp: fifo_wake_up_def dest: finish_wait_files split: option.splits)

lemma poll_wake_files: "poll_wake fl t fs s = Some s' \<Longrightarrow> same_files s s'"
  by (induction fs arbitrary: s) (auto simp: bind_eq_Some_iff dest!: finish_wait_files intro: same_files_trans split: if_splits)

lemma poll_notify_each_files: "poll_notify_each fl ts s = Some s' \<Longrightarrow> same_files s s'"
  by (induction ts arbitrary: s) (auto simp: bind_eq_Some_iff dest!: poll_wake_files intro: same_files_trans)

lemma poll_notify_files: "poll_notify fl s = Some s' \<Longrightarrow> same_files s s'"
  by (simp add: poll_notify_def poll_notify_each_files)

section \<open>Reading and writing\<close>

definition pipe_ok :: "nat \<Rightarrow> 'a pstate_scheme \<Rightarrow> bool" where
  "pipe_ok fd s \<longleftrightarrow> sched_wf s \<and> files s fd \<noteq> None
     \<and> (case pipes s fd of None \<Rightarrow> False | Some p \<Rightarrow> byte_fifo (p_fifo p))"

definition pipe_fifo :: "nat \<Rightarrow> 'a pstate_scheme \<Rightarrow> kfifo" where
  "pipe_fifo fd s = p_fifo (the (pipes s fd))"

definition pipe_bytes :: "nat \<Rightarrow> 'a pstate_scheme \<Rightarrow> u8 list" where
  "pipe_bytes fd s = fifo_bytes (pipe_fifo fd s)"

definition nonblock :: "nat \<Rightarrow> 'a pstate_scheme \<Rightarrow> bool" where
  "nonblock fd s \<longleftrightarrow> f_flags (the (files s fd)) AND O_NONBLOCK \<noteq> 0"

lemma pipe_okE:
  assumes "pipe_ok fd s"
  obtains p f where "pipes s fd = Some p" "files s fd = Some f" "byte_fifo (p_fifo p)" "sched_wf s"
    "pipe_fifo fd s = p_fifo p"
  using assms by (auto simp: pipe_ok_def pipe_fifo_def split: option.splits)

text \<open>After a completed transfer: the state differs from the one before by the contents of the
  pipe and by threads that were woken.\<close>

definition pipe_moved :: "nat \<Rightarrow> kfifo \<Rightarrow> 'a pstate_scheme \<Rightarrow> 'a pstate_scheme \<Rightarrow> bool" where
  "pipe_moved fd f s s' \<longleftrightarrow> woke s s' \<and> files s' = files s
     \<and> pipes s' = (pipes s)(fd := Some ((the (pipes s fd))\<lparr>p_fifo := f\<rparr>))"

lemma set_fifo_frame [simp]:
  "threads (set_fifo fd p f s) = threads s" "links (set_fifo fd p f s) = links s"
  "running (set_fifo fd p f s) = running s" "files (set_fifo fd p f s) = files s"
  "pipes (set_fifo fd p f s) = (pipes s)(fd := Some (p\<lparr>p_fifo := f\<rparr>))"
  by (simp_all add: set_fifo_def)

lemma set_file_frame [simp]:
  "threads (set_file fd f s) = threads s" "links (set_file fd f s) = links s"
  "running (set_file fd f s) = running s" "pipes (set_file fd f s) = pipes s"
  "files (set_file fd f s) = (files s)(fd := Some f)"
  by (simp_all add: set_file_def)

lemma wake_after_move:
  assumes p: "pipes s fd = Some p" and wf: "sched_wf s"
  shows "\<exists>s'. fifo_wake_up l n (set_fifo fd p f s) = Some s' \<and> pipe_moved fd f s s'"
proof -
  have "sched_wf (set_fifo fd p f s)" using wf by (subst sched_wf_cong) simp_all
  from fifo_wake_up_woke [OF this, of l n] obtain s' where
    s': "fifo_wake_up l n (set_fifo fd p f s) = Some s'" "woke (set_fifo fd p f s) s'" by auto
  then show ?thesis using fifo_wake_up_files [OF s'(1)] p by (auto simp: pipe_moved_def woke_def same_files_def)
qed

lemma fifo_read_now_spec:
  assumes p: "pipes s fd = Some p" "byte_fifo (p_fifo p)" and wf: "sched_wf s"
    and n: "n \<le> length (fifo_bytes (p_fifo p))" "n \<le> length buf"
  shows "\<exists>s' f. fifo_read_now fd p buf n s = Some (s', take n (fifo_bytes (p_fifo p)) @ drop n buf, int n)
     \<and> pipe_moved fd f s s' \<and> byte_fifo f \<and> kf_size f = kf_size (p_fifo p)
     \<and> fifo_bytes f = drop n (fifo_bytes (p_fifo p))"
proof -
  from fifo_out_bytes_spec [OF p(2) n(1), of 0 buf] n(2) obtain f where
    f: "fifo_out_bytes 0 n (p_fifo p) buf = Some (f, take n (fifo_bytes (p_fifo p)) @ drop n buf)"
    "byte_fifo f" "kf_size f = kf_size (p_fifo p)" "fifo_bytes f = drop n (fifo_bytes (p_fifo p))" by auto
  from wake_after_move [OF p(1) wf, of "WaitQ (p_w_wait_list p)" "nat (kfifo_avail f)" f] f
  show ?thesis by (auto simp: fifo_read_now_def)
qed

lemma fifo_write_now_spec:
  assumes p: "pipes s fd = Some p" "byte_fifo (p_fifo p)" and wf: "sched_wf s"
    and n: "length (fifo_bytes (p_fifo p)) + n \<le> kf_size (p_fifo p)" "n \<le> length buf"
  shows "\<exists>s' f. fifo_write_now fd p buf n s = Some (s', int n)
     \<and> pipe_moved fd f s s' \<and> byte_fifo f \<and> kf_size f = kf_size (p_fifo p)
     \<and> fifo_bytes f = fifo_bytes (p_fifo p) @ take n buf"
proof -
  from fifo_in_bytes_spec [OF p(2) n(1), of 0 buf] n(2) obtain f where
    f: "fifo_in_bytes 0 n (p_fifo p) buf = Some f"
    "byte_fifo f" "kf_size f = kf_size (p_fifo p)" "fifo_bytes f = fifo_bytes (p_fifo p) @ take n buf" by auto
  from wake_after_move [OF p(1) wf, of "WaitQ (p_r_wait_list p)" "nat (kfifo_len f)" f] f
  show ?thesis by (auto simp: fifo_write_now_def)
qed

lemma fifo_block_spec:
  assumes wf: "sched_wf s" and r: "t_status (threads s (running s)) = THREAD_RUNNING"
  shows "\<exists>s'. fifo_block (WaitQ l) n s = Some s' \<and> sched_wf s' \<and> running s' = running s
     \<and> links s' = lk_add (running s) (WaitQ l) (links s)
     \<and> threads s' (running s) = (threads s (running s))\<lparr>t_file_request_size := n, t_status := THREAD_WAIT\<rparr>"
proof -
  let ?s = "upd_thread (running s) (t_file_request_size_update (\<lambda>_. n)) s"
  have "sched_wf ?s" using wf by (subst sched_wf_cong2 [of _ s]) auto
  moreover have "\<not> lk_linked (running s) (links ?s)" using sched_wfD(6) [OF wf r] by simp
  ultimately show ?thesis using prepare_to_wait_wf [of ?s "running s" "WaitQ l" THREAD_WAIT]
    by (auto simp: fifo_block_def)
qed

lemma fifo_block_files: "fifo_block l n s = Some s' \<Longrightarrow> same_files s s'"
  unfolding fifo_block_def by (drule prepare_to_wait_files) (simp add: same_files_def)

lemma fifo_events_spec:
  assumes wf: "sched_wf s" and f: "files s fd = Some f"
  shows "\<exists>s'. fifo_events fd on ev s = Some s' \<and> woke s s' \<and> pipes s' = pipes s
     \<and> files s' = (files s)(fd := Some (f\<lparr>f_events := if on then f_events f OR ev else f_events f AND NOT ev\<rparr>))"
proof -
  have w: "sched_wf (set_file fd g s)" for g using wf by (subst sched_wf_cong) simp_all
  obtain s' where s': "poll_notify fd (set_file fd (f\<lparr>f_events := f_events f OR ev\<rparr>) s) = Some s'"
    "woke (set_file fd (f\<lparr>f_events := f_events f OR ev\<rparr>) s) s'" using poll_notify_woke [OF w] by blast
  show ?thesis
    using s' poll_notify_files [OF s'(1)] f w [of "f\<lparr>f_events := f_events f AND NOT ev\<rparr>"]
    by (cases on) (auto simp: fifo_events_def woke_def same_files_def)
qed

text \<open>The results of a read and of a write, branch by branch.\<close>

definition pipe_kept :: "nat \<Rightarrow> 'a pstate_scheme \<Rightarrow> 'a pstate_scheme \<Rightarrow> bool" where
  "pipe_kept fd s s' \<longleftrightarrow> pipe_ok fd s' \<and> running s' = running s
     \<and> kf_size (pipe_fifo fd s') = kf_size (pipe_fifo fd s)"

definition pipe_waits :: "nat \<Rightarrow> nat \<Rightarrow> 'a kstate_scheme \<Rightarrow> bool" where
  "pipe_waits wq sz s \<longleftrightarrow> t_status (threads s (running s)) = THREAD_WAIT
     \<and> t_file_request_size (threads s (running s)) = sz \<and> running s \<in> set (lst (links s) (WaitQ wq))"

definition pipe_runs :: "'a kstate_scheme \<Rightarrow> bool" where
  "pipe_runs s \<longleftrightarrow> t_status (threads s (running s)) = THREAD_RUNNING"

definition read_result :: "nat \<Rightarrow> u8 list \<Rightarrow> nat \<Rightarrow> 'a pstate_scheme \<Rightarrow> 'a pstate_scheme \<Rightarrow> u8 list \<Rightarrow> int \<Rightarrow> bool" where
  "read_result fd buf sz s s' buf' r \<longleftrightarrow> (let bs = pipe_bytes fd s; n = min sz (length bs) in
     if sz \<le> length bs \<or> nonblock fd s \<and> bs \<noteq> []
     then r = int n \<and> buf' = take n bs @ drop n buf \<and> pipe_bytes fd s' = drop n bs \<and> pipe_runs s'
     else buf' = buf \<and> pipe_bytes fd s' = bs \<and>
       (if nonblock fd s then r = - EAGAIN \<and> pipe_runs s'
        else r = - ERESTARTSYS \<and> pipe_waits (p_r_wait_list (the (pipes s fd))) sz s'))"

definition write_result :: "nat \<Rightarrow> u8 list \<Rightarrow> nat \<Rightarrow> 'a pstate_scheme \<Rightarrow> 'a pstate_scheme \<Rightarrow> int \<Rightarrow> bool" where
  "write_result fd buf sz s s' r \<longleftrightarrow> (let bs = pipe_bytes fd s;
       room = kf_size (pipe_fifo fd s) - length bs; n = min sz room in
     if sz \<le> room \<or> nonblock fd s \<and> room > 0
     then r = int n \<and> pipe_bytes fd s' = bs @ take n buf \<and> pipe_runs s'
     else pipe_bytes fd s' = bs \<and>
       (if nonblock fd s then r = - EAGAIN \<and> pipe_runs s'
        else r = - ERESTARTSYS \<and> pipe_waits (p_w_wait_list (the (pipes s fd))) sz s'))"

lemma pipe_moved_result:
  assumes "pipe_moved fd f s s'" and "byte_fifo f" and "files s fd \<noteq> None" and "pipe_runs s"
    and "kf_size f = kf_size (pipe_fifo fd s)"
  shows "pipe_kept fd s s' \<and> pipe_bytes fd s' = fifo_bytes f \<and> pipe_runs s'"
  using assms by (auto simp: pipe_moved_def woke_def pipe_kept_def pipe_ok_def pipe_bytes_def pipe_fifo_def pipe_runs_def)

lemma pipe_block_result:
  assumes ok: "pipe_ok fd s" and r: "pipe_runs s"
  shows "\<exists>s'. fifo_block (WaitQ wq) sz s = Some s' \<and> pipe_kept fd s s' \<and> pipe_bytes fd s' = pipe_bytes fd s
     \<and> pipe_waits wq sz s'"
proof -
  from fifo_block_spec [of s wq sz] ok r obtain s' where
    s': "fifo_block (WaitQ wq) sz s = Some s'" "sched_wf s'" "running s' = running s"
    "links s' = lk_add (running s) (WaitQ wq) (links s)"
    "threads s' (running s) = (threads s (running s))\<lparr>t_file_request_size := sz, t_status := THREAD_WAIT\<rparr>"
    by (auto simp: pipe_ok_def pipe_runs_def)
  then show ?thesis using fifo_block_files [OF s'(1)] ok
    by (auto simp: pipe_kept_def pipe_ok_def pipe_bytes_def pipe_fifo_def same_files_def pipe_waits_def)
qed

lemma fifo_read_body_spec:
  assumes ok: "pipe_ok fd s" and r: "pipe_runs s" and sz: "sz \<le> length buf"
  shows "\<exists>s' buf' r. fifo_read_body fd buf sz s = Some (s', buf', r) \<and> pipe_kept fd s s'
     \<and> read_result fd buf sz s s' buf' r"
proof -
  from ok obtain p f where p: "pipes s fd = Some p" "files s fd = Some f" "byte_fifo (p_fifo p)" "sched_wf s"
    "pipe_fifo fd s = p_fifo p" by (rule pipe_okE)
  note len = byte_fifo_len [OF p(3)]
  have nb: "nonblock fd s \<longleftrightarrow> f_flags f AND O_NONBLOCK \<noteq> 0" by (simp add: nonblock_def p)
  have now: "\<exists>s'. fifo_read_now fd p buf n s = Some (s', take n (pipe_bytes fd s) @ drop n buf, int n)
      \<and> pipe_kept fd s s' \<and> pipe_bytes fd s' = drop n (pipe_bytes fd s) \<and> pipe_runs s'"
    if "n \<le> length (pipe_bytes fd s)" "n \<le> length buf" for n
    using fifo_read_now_spec [OF p(1,3,4), of n buf] that p(2,5) r pipe_moved_result [of fd _ s]
    by (fastforce simp: pipe_bytes_def)
  have body: "fifo_read_body fd buf sz s =
     (if sz > length (pipe_bytes fd s) then
       if nonblock fd s then
         if pipe_bytes fd s \<noteq> [] then fifo_read_now fd p buf (length (pipe_bytes fd s)) s else Some (s, buf, - EAGAIN)
       else map_option (\<lambda>s1. (s1, buf, - ERESTARTSYS)) (fifo_block (WaitQ (p_r_wait_list p)) sz s)
     else fifo_read_now fd p buf sz s)"
    by (simp add: fifo_read_body_def p(1,2) len nb pipe_bytes_def p(5))
  show ?thesis
  proof (cases "sz \<le> length (pipe_bytes fd s) \<or> nonblock fd s \<and> pipe_bytes fd s \<noteq> []")
    case True
    let ?n = "min sz (length (pipe_bytes fd s))"
    have "fifo_read_body fd buf sz s = fifo_read_now fd p buf ?n s"
      using True unfolding body by (auto simp: min_def)
    moreover obtain s' where "fifo_read_now fd p buf ?n s = Some (s', take ?n (pipe_bytes fd s) @ drop ?n buf, int ?n)"
      "pipe_kept fd s s'" "pipe_bytes fd s' = drop ?n (pipe_bytes fd s)" "pipe_runs s'"
      using now [of ?n] sz by (auto simp: min.coboundedI1)
    ultimately show ?thesis using True by (simp add: read_result_def Let_def)
  next
    case False
    then have gt: "sz > length (pipe_bytes fd s)" by simp
    show ?thesis
    proof (cases "nonblock fd s")
      case True
      then have "fifo_read_body fd buf sz s = Some (s, buf, - EAGAIN)" using False gt unfolding body by simp
      moreover have "pipe_kept fd s s" using ok by (simp add: pipe_kept_def)
      ultimately show ?thesis using False True r by (simp add: read_result_def Let_def)
    next
      case nb: False
      from pipe_block_result [OF ok r, of "p_r_wait_list p" sz] obtain s' where
        "fifo_block (WaitQ (p_r_wait_list p)) sz s = Some s'" "pipe_kept fd s s'"
        "pipe_bytes fd s' = pipe_bytes fd s" "pipe_waits (p_r_wait_list p) sz s'" by auto
      then show ?thesis using False nb gt p(1) unfolding body by (simp add: read_result_def Let_def)
    qed
  qed
qed

lemma fifo_write_body_spec:
  assumes ok: "pipe_ok fd s" and r: "pipe_runs s" and sz: "sz \<le> length buf"
  shows "\<exists>s' r. fifo_write_body fd buf sz s = Some (s', r) \<and> pipe_kept fd s s' \<and> write_result fd buf sz s s' r"
proof -
  from ok obtain p f where p: "pipes s fd = Some p" "files s fd = Some f" "byte_fifo (p_fifo p)" "sched_wf s"
    "pipe_fifo fd s = p_fifo p" by (rule pipe_okE)
  note len = byte_fifo_len [OF p(3)]
  define room where "room = kf_size (pipe_fifo fd s) - length (pipe_bytes fd s)"
  have nb: "nonblock fd s \<longleftrightarrow> f_flags f AND O_NONBLOCK \<noteq> 0" by (simp add: nonblock_def p)
  have av: "nat (kfifo_avail (p_fifo p)) = room" using len by (simp add: room_def pipe_bytes_def p(5))
  have now: "\<exists>s'. fifo_write_now fd p buf n s = Some (s', int n)
      \<and> pipe_kept fd s s' \<and> pipe_bytes fd s' = pipe_bytes fd s @ take n buf \<and> pipe_runs s'"
    if "n \<le> room" "n \<le> length buf" for n
  proof -
    have "length (fifo_bytes (p_fifo p)) + n \<le> kf_size (p_fifo p)"
      using that(1) len(3) by (simp add: room_def pipe_bytes_def p(5))
    from fifo_write_now_spec [OF p(1,3,4) this that(2)] p(2,5) r show ?thesis
      using pipe_moved_result [of fd _ s] by (fastforce simp: pipe_bytes_def)
  qed
  have body: "fifo_write_body fd buf sz s =
     (if sz > room then
       if nonblock fd s then
         if room > 0 then fifo_write_now fd p buf room s else Some (s, - EAGAIN)
       else map_option (\<lambda>s1. (s1, - ERESTARTSYS)) (fifo_block (WaitQ (p_w_wait_list p)) sz s)
     else fifo_write_now fd p buf sz s)"
    by (simp add: fifo_write_body_def p(1,2) av nb)
  show ?thesis
  proof (cases "sz \<le> room \<or> nonblock fd s \<and> room > 0")
    case True
    let ?n = "min sz room"
    have "fifo_write_body fd buf sz s = fifo_write_now fd p buf ?n s"
      using True unfolding body by (auto simp: min_def)
    moreover obtain s' where "fifo_write_now fd p buf ?n s = Some (s', int ?n)"
      "pipe_kept fd s s'" "pipe_bytes fd s' = pipe_bytes fd s @ take ?n buf" "pipe_runs s'"
      using now [of ?n] sz by (auto simp: min.coboundedI1)
    ultimately show ?thesis using True by (simp add: write_result_def Let_def room_def)
  next
    case False
    then have gt: "sz > room" by simp
    show ?thesis
    proof (cases "nonblock fd s")
      case True
      then have "fifo_write_body fd buf sz s = Some (s, - EAGAIN)" using False gt unfolding body by simp
      moreover have "pipe_kept fd s s" using ok by (simp add: pipe_kept_def)
      ultimately show ?thesis using False True r by (simp add: write_result_def Let_def room_def)
    next
      case nb: False
      from pipe_block_result [OF ok r, of "p_w_wait_list p" sz] obtain s' where
        "fifo_block (WaitQ (p_w_wait_list p)) sz s = Some s'" "pipe_kept fd s s'"
        "pipe_bytes fd s' = pipe_bytes fd s" "pipe_waits (p_w_wait_list p) sz s'" by auto
      then show ?thesis using False nb gt p(1) unfolding body by (simp add: write_result_def Let_def room_def)
    qed
  qed
qed

lemma pipe_preempt [simp]:
  "pipe_ok fd (preempt_disable s) = pipe_ok fd s" "pipe_ok fd (preempt_enable s) = pipe_ok fd s"
  "pipe_fifo fd (preempt_disable s) = pipe_fifo fd s" "pipe_fifo fd (preempt_enable s) = pipe_fifo fd s"
  "pipe_bytes fd (preempt_disable s) = pipe_bytes fd s" "pipe_bytes fd (preempt_enable s) = pipe_bytes fd s"
  "nonblock fd (preempt_disable s) = nonblock fd s" "pipe_runs (preempt_disable s) = pipe_runs s"
  "pipe_runs (preempt_enable s) = pipe_runs s" "pipe_waits wq sz (preempt_enable s) = pipe_waits wq sz s"
  by (simp_all add: pipe_ok_def pipe_fifo_def pipe_bytes_def nonblock_def pipe_runs_def pipe_waits_def)

lemma result_preempt [simp]:
  "pipe_kept fd (preempt_disable s) s' = pipe_kept fd s s'"
  "read_result fd buf sz (preempt_disable s) s' buf' r = read_result fd buf sz s s' buf' r"
  "write_result fd buf sz (preempt_disable s) s' r = write_result fd buf sz s s' r"
  by (simp_all add: pipe_kept_def read_result_def write_result_def Let_def cong: if_cong)

lemma fifo_events_result:
  assumes "pipe_ok fd s"
  shows "\<exists>s'. fifo_events fd on ev s = Some s' \<and> pipe_kept fd s s' \<and> pipe_bytes fd s' = pipe_bytes fd s
     \<and> pipe_runs s' = pipe_runs s \<and> (\<forall>wq sz. pipe_waits wq sz s' = pipe_waits wq sz s)
     \<and> f_events (the (files s' fd))
        = (if on then f_events (the (files s fd)) OR ev else f_events (the (files s fd)) AND NOT ev)"
proof -
  from assms obtain p f where p: "pipes s fd = Some p" "files s fd = Some f" "byte_fifo (p_fifo p)" "sched_wf s"
    by (rule pipe_okE)
  from fifo_events_spec [OF p(4,2), of on ev] obtain s' where "fifo_events fd on ev s = Some s'" "woke s s'" "pipes s' = pipes s"
     "files s' = (files s)(fd := Some (f\<lparr>f_events := if on then f_events f OR ev else f_events f AND NOT ev\<rparr>))"
    by auto
  then show ?thesis using p
    by (auto simp: woke_def pipe_kept_def pipe_ok_def pipe_fifo_def pipe_bytes_def pipe_runs_def pipe_waits_def)
qed

lemma fifo_read_spec:
  assumes ok: "pipe_ok fd s" and r: "pipe_runs s" and sz: "sz \<le> length buf"
  shows "\<exists>s' buf' r. fifo_read fd buf sz s = Some (s', buf', r) \<and> pipe_kept fd s s' \<and> read_result fd buf sz s s' buf' r"
proof -
  from fifo_read_body_spec [of fd "preempt_disable s" sz buf] assms obtain s1 buf1 r1 where
    s1: "fifo_read_body fd buf sz (preempt_disable s) = Some (s1, buf1, r1)" "pipe_kept fd s s1"
    "read_result fd buf sz s s1 buf1 r1"
    by auto
  then have ok1: "pipe_ok fd s1" by (simp add: pipe_kept_def)
  then obtain p where p: "pipes s1 fd = Some p" by (rule pipe_okE)
  from fifo_events_result [OF ok1, of "kfifo_len (p_fifo p) > 0" POLLOUT] obtain s2 where
    s2: "fifo_events fd (kfifo_len (p_fifo p) > 0) POLLOUT s1 = Some s2" "pipe_kept fd s1 s2"
    "pipe_bytes fd s2 = pipe_bytes fd s1" "pipe_runs s2 = pipe_runs s1" "\<forall>wq sz. pipe_waits wq sz s2 = pipe_waits wq sz s1"
    by auto
  have "fifo_read fd buf sz s = Some (preempt_enable s2, buf1, r1)"
    using s1(1) s2(1) p by (simp add: fifo_read_def critr_def)
  moreover have "pipe_kept fd s (preempt_enable s2)" using s1(2) s2(2) by (simp add: pipe_kept_def)
  moreover have "read_result fd buf sz s (preempt_enable s2) buf1 r1"
    using s1(3) s2(3-5) unfolding read_result_def Let_def by simp
  ultimately show ?thesis by blast
qed

lemma fifo_write_spec:
  assumes ok: "pipe_ok fd s" and r: "pipe_runs s" and sz: "sz \<le> length buf"
  shows "\<exists>s' r. fifo_write fd buf sz s = Some (s', r) \<and> pipe_kept fd s s' \<and> write_result fd buf sz s s' r
     \<and> f_events (the (files s' fd)) AND POLLIN = (if length (pipe_bytes fd s') < kf_size (pipe_fifo fd s') then POLLIN else 0)"
proof -
  from fifo_write_body_spec [of fd "preempt_disable s" sz buf] assms obtain s1 r1 where
    s1: "fifo_write_body fd buf sz (preempt_disable s) = Some (s1, r1)" "pipe_kept fd s s1"
    "write_result fd buf sz s s1 r1"
    by auto
  then have ok1: "pipe_ok fd s1" by (simp add: pipe_kept_def)
  then obtain p where p: "pipes s1 fd = Some p" "byte_fifo (p_fifo p)" "pipe_fifo fd s1 = p_fifo p" by (rule pipe_okE)
  from fifo_events_result [OF ok1, of "kfifo_avail (p_fifo p) > 0" POLLIN] obtain s2 where
    s2: "fifo_events fd (kfifo_avail (p_fifo p) > 0) POLLIN s1 = Some s2" "pipe_kept fd s1 s2"
    "pipe_bytes fd s2 = pipe_bytes fd s1" "pipe_runs s2 = pipe_runs s1" "\<forall>wq sz. pipe_waits wq sz s2 = pipe_waits wq sz s1"
    "f_events (the (files s2 fd)) = (if kfifo_avail (p_fifo p) > 0 then f_events (the (files s1 fd)) OR POLLIN
        else f_events (the (files s1 fd)) AND NOT POLLIN)"
    by auto
  have "fifo_write fd buf sz s = Some (preempt_enable s2, r1)"
    using s1(1) s2(1) p(1) by (simp add: fifo_write_def critr_def)
  moreover have "pipe_kept fd s (preempt_enable s2)" using s1(2) s2(2) by (simp add: pipe_kept_def)
  moreover have "write_result fd buf sz s (preempt_enable s2) r1"
    using s1(3) s2(3-5) unfolding write_result_def Let_def by simp
  moreover have "f_events (the (files s2 fd)) AND POLLIN = (if kfifo_avail (p_fifo p) > 0 then POLLIN else 0)"
    using s2(6) by (auto simp: bit_eq_iff bit_simps)
  moreover have "kfifo_avail (p_fifo p) > 0 \<longleftrightarrow> length (pipe_bytes fd s2) < kf_size (pipe_fifo fd s2)"
    using byte_fifo_len(2) [OF p(2)] s2(2,3) p(3) by (simp add: pipe_kept_def pipe_bytes_def)
  ultimately show ?thesis by fastforce
qed

text \<open>Which waiting threads stay where they are.\<close>

definition still_waits :: "nat \<Rightarrow> lid \<Rightarrow> 'a kstate_scheme \<Rightarrow> 'a kstate_scheme \<Rightarrow> bool" where
  "still_waits t l s s' \<longleftrightarrow> (t \<in> set (lst (links s) l) \<longrightarrow> t \<in> set (lst (links s') l)
     \<and> t_file_request_size (threads s' t) = t_file_request_size (threads s t))"

lemma still_waits_trans: "still_waits t l s s1 \<Longrightarrow> still_waits t l s1 s2 \<Longrightarrow> still_waits t l s s2"
  by (simp add: still_waits_def)

lemma finish_wait_keeps:
  "finish_wait u s = Some s' \<Longrightarrow> u \<noteq> t \<Longrightarrow> still_waits t l s s'"
  by (auto simp: finish_wait_def crit_def node_move_def node_del_def node_add_def still_waits_def bind_eq_Some_iff
      split: if_splits)

lemma poll_wake_keeps: "poll_wake fl u fs s = Some s' \<Longrightarrow> u \<noteq> t \<Longrightarrow> still_waits t l s s'"
  by (induction fs arbitrary: s)
    (auto simp: bind_eq_Some_iff still_waits_def [of t l s s for s] dest!: finish_wait_keeps
      intro: still_waits_trans split: if_splits)

lemma poll_notify_each_keeps:
  "poll_notify_each fl us s = Some s' \<Longrightarrow> t \<notin> set us \<Longrightarrow> still_waits t l s s'"
proof (induction us arbitrary: s)
  case (Cons u us)
  then obtain s1 where s1: "poll_wake fl u (t_poll_files (threads s u)) s = Some s1"
    "poll_notify_each fl us s1 = Some s'" by (auto simp: bind_eq_Some_iff)
  then show ?case using Cons poll_wake_keeps [OF s1(1), of t l] by (auto intro: still_waits_trans)
qed (simp add: still_waits_def)

lemma poll_notify_keeps:
  assumes "sched_wf s" and "poll_notify fl s = Some s'" and "l \<noteq> Poll"
  shows "still_waits t l s s'"
proof (cases "t \<in> set (lst (links s) l)")
  case True
  then have "t \<notin> set (lst (links s) Poll)"
    using lk_wf_head [OF sched_wfD(1) [OF assms(1)] True, of Poll] assms(3) by auto
  then show ?thesis using assms(2) poll_notify_each_keeps by (auto simp: poll_notify_def)
qed (simp add: still_waits_def)

lemma fifo_events_keeps:
  assumes "sched_wf s" and "fifo_events fd on ev s = Some s'" and "l \<noteq> Poll"
  shows "still_waits t l s s'"
proof -
  have w: "sched_wf (set_file fd g s)" for g using assms(1) by (subst sched_wf_cong) simp_all
  show ?thesis using assms(2,3) poll_notify_keeps [OF w, of fd _ s' l t]
    by (auto simp: fifo_events_def bind_eq_Some_iff still_waits_def split: if_splits)
qed

lemma fifo_wake_up_keeps:
  assumes "fifo_wake_up m n s = Some s'" and "fifo_pick s n (lst (links s) m) \<noteq> Some t"
  shows "still_waits t l s s'"
  using assms finish_wait_keeps [of _ s s' t l]
  by (auto simp: fifo_wake_up_def still_waits_def split: option.splits)

lemma fifo_write_leaves:
  assumes ok: "pipe_ok fd s" and w: "fifo_write fd buf sz s = Some (s', r)"
    and sz: "length (pipe_bytes fd s) + sz \<le> kf_size (pipe_fifo fd s)"
  shows "\<exists>h. \<forall>t. h \<noteq> Some t \<longrightarrow> still_waits t (WaitQ q) s s'"
proof -
  from ok obtain p f where p: "pipes s fd = Some p" "files s fd = Some f" "byte_fifo (p_fifo p)" "sched_wf s"
    "pipe_fifo fd s = p_fifo p" by (rule pipe_okE)
  let ?s = "preempt_disable s"
  have "\<not> nat (kfifo_avail (p_fifo p)) < sz" using byte_fifo_len [OF p(3)] sz by (simp add: pipe_bytes_def p(5))
  then obtain g s1 on s2 where g: "fifo_in_bytes 0 sz (p_fifo p) buf = Some g"
    "fifo_wake_up (WaitQ (p_r_wait_list p)) (nat (kfifo_len g)) (set_fifo fd p g ?s) = Some s1"
    "fifo_events fd on POLLIN s1 = Some s2" "s' = preempt_enable s2"
    using w p(1,2) by (auto simp: fifo_write_def critr_def fifo_write_body_def fifo_write_now_def bind_eq_Some_iff)
  have "sched_wf (set_fifo fd p g ?s)" using p(4) by (subst sched_wf_cong) simp_all
  from fifo_wake_up_woke [OF this, of "WaitQ (p_r_wait_list p)" "nat (kfifo_len g)"] g(2) have "sched_wf s1" by (auto simp: woke_def)
  then have k2: "still_waits t (WaitQ q) s1 s2" for t using fifo_events_keeps [OF _ g(3)] by simp
  have "still_waits t (WaitQ q) (set_fifo fd p g ?s) s1"
    if "fifo_pick (set_fifo fd p g ?s) (nat (kfifo_len g)) (lst (links s) (WaitQ (p_r_wait_list p))) \<noteq> Some t" for t
    using fifo_wake_up_keeps [OF g(2)] that by simp
  then have "still_waits t (WaitQ q) s s'"
    if "fifo_pick (set_fifo fd p g ?s) (nat (kfifo_len g)) (lst (links s) (WaitQ (p_r_wait_list p))) \<noteq> Some t" for t
    using that k2 [of t] g(4) by (simp add: still_waits_def)
  then show ?thesis by blast
qed

section \<open>Runs\<close>

text \<open>A run of reads and writes of one pipe by any threads, with the bytes written and the bytes
  read so far. A step that does not touch the pipe, for instance of the scheduler or on another
  file, may come between.\<close>

inductive pipe_run :: "nat \<Rightarrow> 'a pstate_scheme \<Rightarrow> u8 list \<Rightarrow> u8 list \<Rightarrow> 'a pstate_scheme \<Rightarrow> bool"
  for fd :: nat and s0 :: "'a pstate_scheme" where
  pipe_run_start: "pipe_run fd s0 [] [] s0"
| pipe_run_read: "pipe_run fd s0 ws rs s \<Longrightarrow> pipe_runs s \<Longrightarrow> sz \<le> length buf \<Longrightarrow>
     fifo_read fd buf sz s = Some (s', buf', r) \<Longrightarrow> pipe_run fd s0 ws (rs @ take (nat r) buf') s'"
| pipe_run_write: "pipe_run fd s0 ws rs s \<Longrightarrow> pipe_runs s \<Longrightarrow> sz \<le> length buf \<Longrightarrow>
     fifo_write fd buf sz s = Some (s', r) \<Longrightarrow> pipe_run fd s0 (ws @ take (nat r) buf) rs s'"
| pipe_run_other: "pipe_run fd s0 ws rs s \<Longrightarrow> pipes s' fd = pipes s fd \<Longrightarrow> files s' fd \<noteq> None \<Longrightarrow>
     sched_wf s' \<Longrightarrow> pipe_run fd s0 ws rs s'"

lemma read_result_stream:
  assumes "read_result fd buf sz s s' buf' r" and "sz \<le> length buf"
  shows "take (nat r) buf' @ pipe_bytes fd s' = pipe_bytes fd s"
  using assms by (auto simp: read_result_def Let_def min_def errno split: if_splits)

lemma write_result_stream:
  assumes "write_result fd buf sz s s' r"
  shows "pipe_bytes fd s' = pipe_bytes fd s @ take (nat r) buf"
  using assms by (auto simp: write_result_def Let_def min_def errno split: if_splits)

lemma pipe_run_inv:
  assumes "pipe_run fd s0 ws rs s" and "pipe_ok fd s0"
  shows "pipe_ok fd s \<and> kf_size (pipe_fifo fd s) = kf_size (pipe_fifo fd s0)
     \<and> pipe_bytes fd s0 @ ws = rs @ pipe_bytes fd s"
  using assms
proof (induction rule: pipe_run.induct)
  case (pipe_run_read ws rs s sz buf s' buf' r)
  then show ?case using fifo_read_spec [of fd s sz buf] read_result_stream [of fd buf sz s s' buf' r]
    by (auto simp: pipe_kept_def)
next
  case (pipe_run_write ws rs s sz buf s' r)
  then show ?case using fifo_write_spec [of fd s sz buf] write_result_stream [of fd buf sz s s' r]
    by (auto simp: pipe_kept_def)
next
  case (pipe_run_other ws rs s s')
  then show ?case by (auto simp: pipe_ok_def pipe_fifo_def pipe_bytes_def)
qed simp

section \<open>Properties\<close>

text \<open>
  C12. A pipe is a FIFO byte stream. Over every run of reads and writes of a pipe by any threads,
  blocking or not, the bytes read so far followed by those still in the pipe are those that were in
  the pipe at the start followed by those written: no byte is lost, duplicated or reordered by
  the partial transfers and the retries, and the pipe never holds more than its capacity.\<close>

theorem pipe_stream:
  assumes "pipe_ok fd s" and "pipe_run fd s written received s'"
  shows "received @ pipe_bytes fd s' = pipe_bytes fd s @ written
     \<and> length (pipe_bytes fd s') \<le> kf_size (pipe_fifo fd s)"
proof -
  note inv = pipe_run_inv [OF assms(2,1)]
  then have "byte_fifo (pipe_fifo fd s')" by (auto elim: pipe_okE)
  with inv byte_fifo_len(3) [of "pipe_fifo fd s'"] show ?thesis by (simp add: pipe_bytes_def)
qed

text \<open>
  C13. Every call of \<open>fifo_read\<close> and \<open>fifo_write\<close> by the running thread on a well-formed pipe returns,
  with the result of its branch: the whole request when it can be served; the part that can be
  served, or \<^verbatim>\<open>-EAGAIN\<close> when there is none, in non-blocking mode; otherwise \<^verbatim>\<open>-ERESTARTSYS\<close> with
  the thread on the wait list of its direction and the size of its request recorded.\<close>

theorem pipe_read_write_results:
  assumes "pipe_ok fd s" and "pipe_runs s" and "sz \<le> length buf"
  shows "(\<exists>s' buf' r. fifo_read fd buf sz s = Some (s', buf', r) \<and> pipe_kept fd s s' \<and> read_result fd buf sz s s' buf' r)
     \<and> (\<exists>s' r. fifo_write fd buf sz s = Some (s', r) \<and> pipe_kept fd s s' \<and> write_result fd buf sz s s' r)"
  using fifo_read_spec [OF assms] fifo_write_spec [OF assms] by blast

text \<open>A pipe of four bytes for the witnesses, with thread 0 running.\<close>

definition demo_pipe :: "u8 list \<Rightarrow> pipe" where
  "demo_pipe bs = \<lparr>p_fifo = the (fifo_in_bytes 0 (length bs) (kfifo_init (replicate 4 0) 1 4) bs),
                   p_r_wait_list = 1, p_w_wait_list = 2\<rparr>"

definition demo_pstate :: "kstate \<Rightarrow> u8 list \<Rightarrow> pstate" where
  "demo_pstate k bs = kstate.extend k
     \<lparr>files = (\<lambda>_. Some \<lparr>f_inode = None, f_op = Fifo_ops, f_events = 0, f_flags = 0\<rparr>),
      pipes = (\<lambda>_. Some (demo_pipe bs))\<rparr>"

lemma extend_frame [simp]:
  "threads (kstate.extend k x) = threads k" "links (kstate.extend k x) = links k"
  "running (kstate.extend k x) = running k"
  by (simp_all add: kstate.defs)

lemma sched_wf_extend [simp]: "sched_wf (kstate.extend k x) = sched_wf k"
  by (simp add: sched_wf_def)

lemma demo_pipe_fifo:
  assumes "length bs \<le> 4"
  shows "byte_fifo (p_fifo (demo_pipe bs))" "fifo_bytes (p_fifo (demo_pipe bs)) = bs" "kf_size (p_fifo (demo_pipe bs)) = 4"
proof -
  let ?f = "kfifo_init (replicate 4 0) 1 4"
  have f: "byte_fifo ?f" "fifo_bytes ?f = []" "kf_size ?f = 4"
    using kfifo_init_wf [of 4 1 "replicate 4 0"] by (simp_all add: byte_fifo_def fifo_bytes_def kfifo_init_def)
  from fifo_in_bytes_spec [OF f(1), of "length bs" 0 bs] f(2,3) assms show "byte_fifo (p_fifo (demo_pipe bs))"
    "fifo_bytes (p_fifo (demo_pipe bs)) = bs" "kf_size (p_fifo (demo_pipe bs)) = 4" by (auto simp: demo_pipe_def)
qed

lemma demo_pstate_ok:
  assumes "length bs \<le> 4" and "sched_wf k"
  shows "pipe_ok fd (demo_pstate k bs)" "pipe_bytes fd (demo_pstate k bs) = bs" "kf_size (pipe_fifo fd (demo_pstate k bs)) = 4"
    "\<not> nonblock fd (demo_pstate k bs)" "pipes (demo_pstate k bs) fd = Some (demo_pipe bs)"
proof -
  have fp: "files (demo_pstate k bs) = (\<lambda>_. Some \<lparr>f_inode = None, f_op = Fifo_ops, f_events = 0, f_flags = 0\<rparr>)"
    "pipes (demo_pstate k bs) = (\<lambda>_. Some (demo_pipe bs))"
    by (simp_all add: demo_pstate_def kstate.defs)
  have "sched_wf (demo_pstate k bs)" using assms(2) by (simp add: demo_pstate_def)
  with demo_pipe_fifo [OF assms(1)] show "pipe_ok fd (demo_pstate k bs)" "pipe_bytes fd (demo_pstate k bs) = bs"
    "kf_size (pipe_fifo fd (demo_pstate k bs)) = 4" "\<not> nonblock fd (demo_pstate k bs)"
    "pipes (demo_pstate k bs) fd = Some (demo_pipe bs)"
    by (simp_all add: pipe_ok_def pipe_bytes_def pipe_fifo_def nonblock_def fp)
qed

lemma demo_pstate_runs: "pipe_runs (demo_pstate demo_state bs)"
  by (simp add: pipe_runs_def demo_pstate_def demo_state_def demo_kstate_def demo_threads_def demo_thread_def)

theorem pipe_stream_witness:
  "\<exists>s1 s2 buf. fifo_write 5 [7, 8, 9] 3 (demo_pstate demo_state []) = Some (s1, 3)
     \<and> fifo_read 5 [0, 0] 2 s1 = Some (s2, buf, 2) \<and> take 2 buf @ pipe_bytes 5 s2 = [7, 8, 9]"
proof -
  let ?s = "demo_pstate demo_state []"
  note ok = demo_pstate_ok [OF _ demo_state_wf(1), of "[]", simplified]
  from fifo_write_spec [OF ok(1) demo_pstate_runs, of 3 "[7, 8, 9]" 5] obtain s1 r where
    s1: "fifo_write 5 [7, 8, 9] 3 ?s = Some (s1, r)" "pipe_kept 5 ?s s1" "write_result 5 [7, 8, 9] 3 ?s s1 r" by auto
  then have w: "r = 3" "pipe_bytes 5 s1 = [7, 8, 9]" "pipe_runs s1" "pipe_ok 5 s1"
    using ok by (auto simp: write_result_def pipe_kept_def Let_def)
  from fifo_read_spec [OF w(4,3), of 2 "[0, 0]"] obtain s2 buf q where
    s2: "fifo_read 5 [0, 0] 2 s1 = Some (s2, buf, q)" "read_result 5 [0, 0] 2 s1 s2 buf q" by auto
  then have q: "q = 2" using w by (auto simp: read_result_def Let_def)
  have "pipe_run 5 ?s ([] @ take (nat r) [7, 8, 9]) [] s1"
    by (rule pipe_run_write [OF pipe_run_start demo_pstate_runs _ s1(1)]) simp
  then have "pipe_run 5 ?s [7, 8, 9] ([] @ take (nat q) buf) s2"
    using w(1) by (intro pipe_run_read [OF _ w(3) _ s2(1)]) simp_all
  from pipe_stream [OF ok(1) this] show ?thesis using s1 s2 w q ok by auto
qed

theorem pipe_read_write_results_witness:
  "\<exists>s' r. fifo_write 5 [7, 8, 9] 3 (demo_pstate demo_state [1, 2]) = Some (s', r)
     \<and> write_result 5 [7, 8, 9] 3 (demo_pstate demo_state [1, 2]) s' r"
  using pipe_read_write_results [OF demo_pstate_ok(1) [OF _ demo_state_wf(1)] demo_pstate_runs, of "[1, 2]" 3 "[7, 8, 9]" 5]
  by auto

text \<open>
  A write wakes one reader only. When two threads wait to read and the bytes in the pipe after a
  write are enough for each, at least one of them is left on the wait list although its request can
  be served; nothing but a later write wakes it.\<close>

theorem pipe_write_leaves_reader:
  assumes "pipe_ok fd s" and "pipe_runs s" and "sz \<le> length buf"
    and "length (pipe_bytes fd s) + sz \<le> kf_size (pipe_fifo fd s)"
    and "t \<noteq> u" and "{t, u} \<subseteq> set (lst (links s) (WaitQ (p_r_wait_list (the (pipes s fd)))))"
    and "\<forall>x \<in> {t, u}. t_file_request_size (threads s x) \<le> length (pipe_bytes fd s) + sz"
  shows "\<exists>s' w. fifo_write fd buf sz s = Some (s', int sz) \<and> w \<in> {t, u}
     \<and> w \<in> set (lst (links s') (WaitQ (p_r_wait_list (the (pipes s fd)))))
     \<and> t_file_request_size (threads s' w) \<le> length (pipe_bytes fd s')"
proof -
  from fifo_write_spec [OF assms(1-3)] obtain s' r where
    s': "fifo_write fd buf sz s = Some (s', r)" "write_result fd buf sz s s' r" by auto
  with assms(3,4) have r: "r = int sz" "length (pipe_bytes fd s') = length (pipe_bytes fd s) + sz"
    by (auto simp: write_result_def Let_def split: if_splits)
  from fifo_write_leaves [OF assms(1) s'(1) assms(4)] obtain h where
    h: "\<forall>t. h \<noteq> Some t \<longrightarrow> still_waits t (WaitQ (p_r_wait_list (the (pipes s fd)))) s s'" by blast
  obtain w where w: "w \<in> {t, u}" "h \<noteq> Some w" using assms(5) by (cases "h = Some t") auto
  then show ?thesis using h s' r assms(6,7) by (intro exI [of _ s'] exI [of _ w]) (auto simp: still_waits_def)
qed

definition demo_readers :: kstate where
  "demo_readers = demo_kstate
     ((\<lambda>t. demo_thread t 0 THREAD_WAIT)(0 := demo_thread 0 3 THREAD_RUNNING,
        1 := (demo_thread 1 2 THREAD_WAIT)\<lparr>t_file_request_size := 1\<rparr>,
        2 := (demo_thread 2 5 THREAD_WAIT)\<lparr>t_file_request_size := 1\<rparr>))
     0 [(WaitQ 1, 1), (WaitQ 1, 2)]"

lemma demo_readers_wf: "sched_wf demo_readers"
  by (auto simp: demo_readers_def demo_kstate_def demo_thread_def sched_wf_def
      lk_wf_def lk_linked_def lst_def KTHREAD_PRI_MAX_eq split: if_splits)

theorem pipe_write_leaves_reader_witness:
  "\<exists>s' w. fifo_write 5 [7, 8] 2 (demo_pstate demo_readers []) = Some (s', 2) \<and> w \<in> {1, 2}
     \<and> w \<in> set (lst (links s') (WaitQ 1)) \<and> t_file_request_size (threads s' w) \<le> length (pipe_bytes 5 s')"
proof -
  note ok = demo_pstate_ok [OF _ demo_readers_wf, of "[]", simplified]
  have d: "p_r_wait_list (demo_pipe []) = 1" by (simp add: demo_pipe_def)
  have k: "links (demo_pstate demo_readers []) = [(WaitQ 1, 1), (WaitQ 1, 2)]" "pipe_runs (demo_pstate demo_readers [])"
    "t_file_request_size (threads (demo_pstate demo_readers []) 1) = 1"
    "t_file_request_size (threads (demo_pstate demo_readers []) 2) = 1"
    by (simp_all add: demo_pstate_def demo_readers_def demo_kstate_def demo_thread_def pipe_runs_def)
  show ?thesis using pipe_write_leaves_reader [OF ok(1) k(2), of 2 "[7, 8]" 5 1 2] ok d k by (simp add: lst_def)
qed

end
