(* ===== verification/Slab.thy ===== *)
theory Slab
  imports Pipe
begin

text \<open>
  Slab caches (\<^verbatim>\<open>kernel/mm/slab.c\<close>) and \<^verbatim>\<open>kmalloc\<close>/\<^verbatim>\<open>kfree\<close> (\<^verbatim>\<open>kernel/kernel.c\<close>). A slab is a page with
  a header of 16 bytes (a bitmap of the objects in use, the number of free objects, a list
  node) in front of its objects; it is known by its address. A cache owns three lists of
  slabs. The nodes of the slabs are kept as links from a cache and a kind of list to slab
  addresses, because \<^verbatim>\<open>kmem_cache_free\<close> may move a slab to the list of another cache. The
  statistics counters of a cache, which nothing reads, are left out.

  The theorems: an object that a cache hands out lies in a page of its own cache, was free, and
  shares no byte with any other object in use; what \<^verbatim>\<open>kmem_cache_free\<close> does for slabs of
  one minimal page; and that \<^verbatim>\<open>kfree\<close> looks for the wrong slab in two situations.
\<close>

section \<open>The structures\<close>

datatype cache_id = Cache_Caches | Cache_At u32
datatype slab_kind = Slabs_free | Slabs_partial | Slabs_full

record slab =
  sl_free_bitmap :: "u32 list"
  sl_free_objects :: int

record kmem_cache =
  c_objsize :: nat
  c_objnum :: nat
  c_page_order :: nat
  c_name :: string

record sstate = pstate +
  slabs :: "u32 \<Rightarrow> slab option"
  slab_links :: "((cache_id \<times> slab_kind) \<times> u32) list"
  kcaches :: "cache_id \<Rightarrow> kmem_cache option"
  caches_list :: "cache_id list"
  kmalloc_caches :: "cache_id option list"

definition SLAB_HEADER :: nat where [config]: "SLAB_HEADER = 16"
definition KMEM_CACHE_SIZE :: nat where [config]: "KMEM_CACHE_SIZE = 68"
definition CACHE_NAME_LEN :: nat where [config]: "CACHE_NAME_LEN = 16"

definition OBJS_PER_SLAB :: "nat \<Rightarrow> nat \<Rightarrow> int" where
  "OBJS_PER_SLAB page_size objsize =
     sint (word_of_int ((int page_size - int SLAB_HEADER) mod 2 ^ 32 div int objsize) :: u32)"

definition cache_caches :: kmem_cache where
  "cache_caches = \<lparr>c_objsize = KMEM_CACHE_SIZE, c_objnum = nat (OBJS_PER_SLAB 256 KMEM_CACHE_SIZE),
                   c_page_order = 0, c_name = ''cache-cache''\<rparr>"

section \<open>slab.c\<close>

definition slab_move :: "u32 \<Rightarrow> cache_id \<Rightarrow> slab_kind \<Rightarrow> 'a sstate_scheme \<Rightarrow> 'a sstate_scheme option" where
  "slab_move a c k s =
     (if lk_linked a (slab_links s) then Some (s\<lparr>slab_links := lk_move a (c, k) (slab_links s)\<rparr>) else None)"

definition get_slab_from_obj :: "u32 \<Rightarrow> u32 \<Rightarrow> u32" where
  "get_slab_from_obj obj page_size = ALIGN obj page_size"

definition obj_index_in_slab :: "u32 \<Rightarrow> kmem_cache \<Rightarrow> int" where
  "obj_index_in_slab obj cache =
     sint ((((obj AND (push_bit 8 1 - 1)) - word_of_nat SLAB_HEADER) div word_of_nat (c_objsize cache)) :: u32)"

definition kmem_cache_grow :: "cache_id \<Rightarrow> 'a sstate_scheme \<Rightarrow> ('a sstate_scheme \<times> u32 option) option" where
  "kmem_cache_grow c s = do {
     cache \<leftarrow> kcaches s c;
     (pb, page) \<leftarrow> alloc_pages (page_start s) (pages s) (c_page_order cache);
     case page of None \<Rightarrow> Some (s\<lparr>pages := pb\<rparr>, None)
     | Some slab \<Rightarrow>
         if lk_linked slab (slab_links s) then None
         else Some (s\<lparr>pages := pb,
                      slabs := (slabs s)(slab := Some \<lparr>sl_free_bitmap = [0], sl_free_objects = int (c_objnum cache)\<rparr>),
                      slab_links := lk_add slab (c, Slabs_free) (slab_links s)\<rparr>, Some slab)
   }"

text \<open>The first half of \<^verbatim>\<open>kmem_cache_alloc\<close> finds a slab, the second takes an object of it.\<close>

definition kmem_cache_pick :: "cache_id \<Rightarrow> 'a sstate_scheme \<Rightarrow> ('a sstate_scheme \<times> u32 option) option" where
  "kmem_cache_pick c s =
     (case lst (slab_links s) (c, Slabs_partial) of
        slab # _ \<Rightarrow> Some (s, Some slab)
      | [] \<Rightarrow> do {
          (s1, r) \<leftarrow> (case lst (slab_links s) (c, Slabs_free) of
                        [] \<Rightarrow> kmem_cache_grow c s
                      | slab # _ \<Rightarrow> Some (s, Some slab));
          case r of None \<Rightarrow> Some (s1, None)
          | Some slab \<Rightarrow> map_option (\<lambda>s2. (s2, Some slab)) (slab_move slab c Slabs_partial s1)
        })"

definition kmem_cache_take :: "cache_id \<Rightarrow> u32 \<Rightarrow> 'a sstate_scheme \<Rightarrow> ('a sstate_scheme \<times> u32) option" where
  "kmem_cache_take c slab s = do {
     cache \<leftarrow> kcaches s c;
     h \<leftarrow> slabs s slab;
     b \<leftarrow> find_first_zero_bit (sl_free_bitmap h) (c_objnum cache);
     bm \<leftarrow> bitmap_set_bit (sl_free_bitmap h) b;
     let h' = \<lparr>sl_free_bitmap = bm, sl_free_objects = sl_free_objects h - 1\<rparr>;
     let s1 = s\<lparr>slabs := (slabs s)(slab := Some h')\<rparr>;
     s2 \<leftarrow> (if sl_free_objects h' = 0 then slab_move slab c Slabs_full s1 else Some s1);
     Some (s2, slab + word_of_nat SLAB_HEADER + word_of_nat (b * c_objsize cache))
   }"

definition kmem_cache_alloc :: "cache_id \<Rightarrow> 'a sstate_scheme \<Rightarrow> ('a sstate_scheme \<times> u32 option) option" where
  "kmem_cache_alloc c s = do {
     (s1, r) \<leftarrow> kmem_cache_pick c s;
     case r of None \<Rightarrow> Some (s1, None)
     | Some slab \<Rightarrow> map_option (\<lambda>(s2, a). (s2, Some a)) (kmem_cache_take c slab s1)
   }"

definition slab_destroy :: "u32 \<Rightarrow> 'a sstate_scheme \<Rightarrow> 'a sstate_scheme option" where
  "slab_destroy slab s =
     (if lk_linked slab (slab_links s) then do {
        pb \<leftarrow> free_pages (page_start s) (pages s) slab 0;
        Some (s\<lparr>slab_links := lk_del slab (slab_links s), pages := pb, slabs := (slabs s)(slab := None)\<rparr>)
      } else None)"

definition kmem_cache_free :: "cache_id \<Rightarrow> u32 \<Rightarrow> 'a sstate_scheme \<Rightarrow> 'a sstate_scheme option" where
  "kmem_cache_free c obj s = do {
     cache \<leftarrow> kcaches s c;
     let slab = get_slab_from_obj obj 256;
     let b = obj_index_in_slab obj cache;
     h \<leftarrow> slabs s slab;
     bm \<leftarrow> (if b < 0 then None else bitmap_clear_bit (sl_free_bitmap h) (nat b));
     let h' = \<lparr>sl_free_bitmap = bm, sl_free_objects = sl_free_objects h + 1\<rparr>;
     let s1 = s\<lparr>slabs := (slabs s)(slab := Some h')\<rparr>;
     if sl_free_objects h' = int (c_objnum cache) then slab_destroy slab s1
     else if sl_free_objects h' = 1 then slab_move slab c Slabs_partial s1
     else Some s1
   }"

text \<open>The search of \<^verbatim>\<open>kmem_cache_create\<close> for a page that holds two objects; the result is the
  order, which is too large when there is none.\<close>

function cache_order :: "nat \<Rightarrow> nat \<Rightarrow> nat" where
  "cache_order sz order =
     (if OBJS_PER_SLAB (page_order_to_size order) sz < 2 \<and> order \<le> PAGE_ORDER_MAX
      then cache_order sz (Suc order) else order)"
  by pat_completeness auto
termination
  by (relation "measure (\<lambda>(sz, order). Suc PAGE_ORDER_MAX - order)") auto

declare cache_order.simps [simp del]

definition kmem_cache_create ::
  "string \<Rightarrow> nat \<Rightarrow> 'a sstate_scheme \<Rightarrow> ('a sstate_scheme \<times> cache_id option) option" where
  "kmem_cache_create name sz s =
     (if size_to_page_order sz < 0 then None else do {
        let order = cache_order sz (nat (size_to_page_order sz));
        if order > PAGE_ORDER_MAX then Some (s, None) else do {
          (s1, r) \<leftarrow> kmem_cache_alloc Cache_Caches s;
          case r of None \<Rightarrow> Some (s1, None)
          | Some a \<Rightarrow> Some
              (s1\<lparr>kcaches := (kcaches s1)(Cache_At a :=
                    Some \<lparr>c_objsize = sz, c_objnum = nat (OBJS_PER_SLAB (page_order_to_size order) sz),
                          c_page_order = order, c_name = take (CACHE_NAME_LEN - 1) name\<rparr>),
                  caches_list := caches_list s1 @ [Cache_At a]\<rparr>, Some (Cache_At a))
        }
      })"

definition kmem_cache_init :: "'a sstate_scheme \<Rightarrow> 'a sstate_scheme option" where
  "kmem_cache_init s =
     map_option fst (kmem_cache_grow Cache_Caches (s\<lparr>caches_list := caches_list s @ [Cache_Caches]\<rparr>))"

section \<open>kmalloc and kfree\<close>

definition kmalloc_slab_info :: "(string \<times> nat) list" where
  "kmalloc_slab_info = [(''kmalloc-32'', 32), (''kmalloc-64'', 64), (''kmalloc-128'', 128), (''kmalloc-256'', 256),
     (''kmalloc-512'', 512), (''kmalloc-1024'', 1024), (''kmalloc-2048'', 2048)]"

definition KMALLOC_HEADER :: nat where [config]: "KMALLOC_HEADER = 4"

primrec slab_init_caches :: "(string \<times> nat) list \<Rightarrow> 'a sstate_scheme \<Rightarrow> 'a sstate_scheme option" where
  "slab_init_caches [] s = Some s"
| "slab_init_caches (i # is) s = do {
     (s1, c) \<leftarrow> kmem_cache_create (fst i) (snd i) s;
     slab_init_caches is (s1\<lparr>kmalloc_caches := kmalloc_caches s1 @ [c]\<rparr>)
   }"

definition slab_init :: "'a sstate_scheme \<Rightarrow> 'a sstate_scheme option" where
  "slab_init s = kmem_cache_init s \<bind> slab_init_caches kmalloc_slab_info"

definition kmalloc_slab_index :: "nat \<Rightarrow> nat" where
  "kmalloc_slab_index sz = length (takeWhile (\<lambda>i. \<not> sz \<le> snd i) kmalloc_slab_info)"

definition kmalloc :: "u32 \<Rightarrow> 'a sstate_scheme \<Rightarrow> ('a sstate_scheme \<times> u32 option) option" where
  "kmalloc sz = critr (\<lambda>s. do {
     let alloc_size = sz + word_of_nat KMALLOC_HEADER;
     let i = kmalloc_slab_index (unat alloc_size);
     (s1, ptr) \<leftarrow>
       (if i < length kmalloc_slab_info then do {
          c \<leftarrow> kmalloc_caches s ! i;
          kmem_cache_alloc c s
        } else if size_to_page_order (unat sz) \<noteq> -1
        then map_option (\<lambda>(pb, p). (s\<lparr>pages := pb\<rparr>, p))
               (alloc_pages (page_start s) (pages s) (nat (size_to_page_order (unat sz))))
        else Some (s, None));
     case ptr of None \<Rightarrow> Some (s1, None)
     | Some p \<Rightarrow> Some (s1\<lparr>mem := (mem s1)(p := sz)\<rparr>, Some (p + word_of_nat KMALLOC_HEADER))
   })"

definition kfree :: "u32 \<Rightarrow> 'a sstate_scheme \<Rightarrow> 'a sstate_scheme option" where
  "kfree ptr = crit (\<lambda>s. do {
     let addr = ptr - word_of_nat KMALLOC_HEADER;
     let alloc_size = unat (mem s addr);
     let i = kmalloc_slab_index alloc_size;
     if i < length kmalloc_slab_info then do {
       c \<leftarrow> kmalloc_caches s ! i;
       kmem_cache_free c addr s
     } else if size_to_page_order alloc_size \<noteq> -1
     then map_option (\<lambda>pb. s\<lparr>pages := pb\<rparr>)
            (free_pages (page_start s) (pages s) addr (nat (size_to_page_order alloc_size)))
     else Some s
   })"

section \<open>The invariant\<close>

definition cache_ok :: "kmem_cache \<Rightarrow> bool" where
  "cache_ok c \<longleftrightarrow> 0 < c_objsize c \<and> 0 < c_objnum c \<and> c_objnum c \<le> 32 \<and> c_page_order c \<le> 5
     \<and> SLAB_HEADER + c_objnum c * c_objsize c \<le> page_order_sz ! c_page_order c"

definition slab_ok :: "kmem_cache \<Rightarrow> slab_kind \<Rightarrow> slab \<Rightarrow> bool" where
  "slab_ok c k h \<longleftrightarrow> length (sl_free_bitmap h) = 1 \<and> bm_set (sl_free_bitmap h) \<subseteq> {..<c_objnum c}
     \<and> sl_free_objects h = int (c_objnum c) - int (card (bm_set (sl_free_bitmap h)))
     \<and> (k = Slabs_full \<longleftrightarrow> sl_free_objects h = 0)"

definition slab_inv :: "'a sstate_scheme \<Rightarrow> bool" where
  "slab_inv s \<longleftrightarrow> page_mem_ok (page_start s) \<and> lk_wf (slab_links s)
     \<and> (\<forall>c cache. kcaches s c = Some cache \<longrightarrow> cache_ok cache)
     \<and> (\<forall>c k a. a \<in> set (lst (slab_links s) (c, k)) \<longrightarrow>
          (\<exists>cache h. kcaches s c = Some cache \<and> slabs s a = Some h \<and> slab_ok cache k h))
     \<and> (\<exists>live. page_reach (page_start s) (pages s) live
          \<and> (\<forall>c k a. a \<in> set (lst (slab_links s) (c, k)) \<longrightarrow> (a, c_page_order (the (kcaches s c))) \<in> set live))"

text \<open>The objects in use, by cache, slab and index, and the bytes of an object.\<close>

definition slab_objs :: "'a sstate_scheme \<Rightarrow> (cache_id \<times> u32 \<times> nat) set" where
  "slab_objs s = {(c, a, b). (\<exists>k. a \<in> set (lst (slab_links s) (c, k)))
     \<and> (\<exists>h. slabs s a = Some h \<and> bm_bit (sl_free_bitmap h) b)}"

definition obj_addr :: "'a sstate_scheme \<Rightarrow> cache_id \<times> u32 \<times> nat \<Rightarrow> u32" where
  "obj_addr s x = (case x of (c, a, b) \<Rightarrow>
     a + word_of_nat SLAB_HEADER + word_of_nat (b * c_objsize (the (kcaches s c))))"

definition obj_bytes :: "'a sstate_scheme \<Rightarrow> cache_id \<times> u32 \<times> nat \<Rightarrow> nat set" where
  "obj_bytes s x = (case x of (c, a, b) \<Rightarrow>
     {unat (obj_addr s x) ..< unat (obj_addr s x) + c_objsize (the (kcaches s c))})"

lemma page_live_disjoint:
  assumes ok: "page_mem_ok st" and "page_reach st pb live" and "p \<in> set live" "q \<in> set live" "p \<noteq> q"
  shows "page_bytes p \<inter> page_bytes q = {}"
proof (rule ccontr)
  have inv: "page_inv st pb live" using page_reach_inv [OF ok assms(2)] .
  assume "page_bytes p \<inter> page_bytes q \<noteq> {}"
  then obtain x where "x \<in> page_bytes p" "x \<in> page_bytes q" by blast
  moreover have "page_live_ok st p" "page_live_ok st q" "page_units st p \<inter> page_units st q = {}"
    using inv assms(3-5) unfolding page_inv_def by blast+
  ultimately show False using page_bytes_units(2) [OF ok] by blast
qed

lemma page_addr_in_bytes: "snd p \<le> 5 \<Longrightarrow> unat (fst p) \<in> page_bytes p"
  by (simp add: page_bytes_def page_order_sz_eq)

lemma page_live_addr:
  assumes "page_mem_ok st" and "page_reach st pb live" and "(a, od) \<in> set live" "(a, od') \<in> set live"
  shows "od = od'"
proof (rule ccontr)
  assume "od \<noteq> od'"
  then have "page_bytes (a, od) \<inter> page_bytes (a, od') = {}"
    using page_live_disjoint [OF assms(1,2,3,4)] by simp
  moreover have "od \<le> 5" "od' \<le> 5"
    using page_reach_inv [OF assms(1,2)] assms(3,4) by (auto simp: page_inv_def page_live_ok_def)
  ultimately show False using page_addr_in_bytes [of "(a, od)"] page_addr_in_bytes [of "(a, od')"] by auto
qed

lemma page_reach_fresh:
  assumes "page_mem_ok st" and r: "page_reach st pb live" and a: "alloc_pages st pb od = Some (pb', Some a)"
  shows "(a, od') \<notin> set live"
proof
  assume m: "(a, od') \<in> set live"
  have r': "page_reach st pb' ((a, od) # live)" using page_alloc [OF r a] .
  then have "distinct ((a, od) # live)" using page_reach_inv [OF assms(1) r'] by (simp only: page_inv_def)
  with m page_live_addr [OF assms(1) r', of a od od'] show False by auto
qed

lemma slab_inv_frame:
  assumes "slab_inv s" and "page_start s' = page_start s" "pages s' = pages s" "slabs s' = slabs s"
    "kcaches s' = kcaches s" "lk_wf (slab_links s')"
    and "\<And>a c k. a \<in> set (lst (slab_links s') (c, k)) \<Longrightarrow>
      \<exists>k'. a \<in> set (lst (slab_links s) (c, k')) \<and> (k = Slabs_full \<longleftrightarrow> k' = Slabs_full)"
  shows "slab_inv s'"
proof -
  have "\<exists>cache h. kcaches s c = Some cache \<and> slabs s a = Some h \<and> slab_ok cache k h"
    if "a \<in> set (lst (slab_links s') (c, k))" for a c k
  proof -
    from assms(7) [OF that] obtain k' where k': "a \<in> set (lst (slab_links s) (c, k'))" "k = Slabs_full \<longleftrightarrow> k' = Slabs_full"
      by blast
    with assms(1) obtain cache h where "kcaches s c = Some cache" "slabs s a = Some h" "slab_ok cache k' h"
      unfolding slab_inv_def by blast
    with k'(2) show ?thesis by (auto simp: slab_ok_def)
  qed
  then show ?thesis using assms unfolding slab_inv_def by (metis (no_types, lifting))
qed

lemma slab_invE:
  assumes "slab_inv s" and "a \<in> set (lst (slab_links s) (c, k))"
  obtains cache h where "kcaches s c = Some cache" "cache_ok cache" "slabs s a = Some h" "slab_ok cache k h"
  using assms unfolding slab_inv_def by blast

lemma slab_inv_head:
  assumes "slab_inv s" and "a \<in> set (lst (slab_links s) (c, k))"
  shows "a \<in> set (lst (slab_links s) (d, l)) \<longleftrightarrow> d = c \<and> l = k"
  using assms lk_wf_head [of "slab_links s" a "(c, k)" "(d, l)"] by (auto simp: slab_inv_def)

text \<open>Changing the header of one slab, possibly with a move to another list of its cache.\<close>

lemma slab_inv_update:
  fixes s s' :: "'a sstate_scheme"
  assumes inv: "slab_inv s" and a: "a \<in> set (lst (slab_links s) (c, k))" and c: "kcaches s c = Some cache"
    and h: "slab_ok cache k' h'" and wf: "lk_wf (slab_links s')"
    and mem: "\<And>x d l. x \<in> set (lst (slab_links s') (d, l)) \<longleftrightarrow>
       (x = a \<and> d = c \<and> l = k') \<or> (x \<noteq> a \<and> x \<in> set (lst (slab_links s) (d, l)))"
    and upd: "page_start s' = page_start s" "pages s' = pages s" "kcaches s' = kcaches s"
      "slabs s' = (slabs s)(a := Some h')"
  shows "slab_inv s'"
    and "slab_objs s' = {x \<in> slab_objs s. fst (snd x) \<noteq> a} \<union> (\<lambda>b. (c, a, b)) ` bm_set (sl_free_bitmap h')"
proof -
  have "\<exists>cache h. kcaches s d = Some cache \<and> slabs s' x = Some h \<and> slab_ok cache l h"
    if "x \<in> set (lst (slab_links s') (d, l))" for x d l
  proof (cases "x = a")
    case True
    then show ?thesis using that c h upd unfolding mem by auto
  next
    case False
    then have "x \<in> set (lst (slab_links s) (d, l))" using that unfolding mem by blast
    then obtain ca h where "kcaches s d = Some ca" "slabs s x = Some h" "slab_ok ca l h"
      using slab_invE [OF inv] by metis
    then show ?thesis using False upd by auto
  qed
  moreover have "\<exists>live. page_reach (page_start s) (pages s) live
      \<and> (\<forall>d l x. x \<in> set (lst (slab_links s') (d, l)) \<longrightarrow> (x, c_page_order (the (kcaches s d))) \<in> set live)"
  proof -
    obtain live where live: "page_reach (page_start s) (pages s) live"
      "\<And>d l x. x \<in> set (lst (slab_links s) (d, l)) \<Longrightarrow> (x, c_page_order (the (kcaches s d))) \<in> set live"
      using inv unfolding slab_inv_def by blast
    then show ?thesis unfolding mem using a by blast
  qed
  ultimately show "slab_inv s'" using inv wf unfolding slab_inv_def upd(1-3) by blast
  show "slab_objs s' = {x \<in> slab_objs s. fst (snd x) \<noteq> a} \<union> (\<lambda>b. (c, a, b)) ` bm_set (sl_free_bitmap h')"
    unfolding slab_objs_def mem upd(4) by (auto simp: image_iff)
qed

lemma slab_objs_of:
  assumes "slab_inv s" and "a \<in> set (lst (slab_links s) (c, k))" and "slabs s a = Some h"
  shows "slab_objs s = {x \<in> slab_objs s. fst (snd x) \<noteq> a} \<union> (\<lambda>b. (c, a, b)) ` bm_set (sl_free_bitmap h)"
  using slab_inv_head [OF assms(1,2)] assms by (auto simp: slab_objs_def image_iff)

lemma slab_move_links:
  assumes inv: "slab_inv s" and a: "a \<in> set (lst (slab_links s) (c, k))"
  shows "x \<in> set (lst (lk_move a (c, k') (slab_links s)) (d, l)) \<longleftrightarrow>
       (x = a \<and> d = c \<and> l = k') \<or> (x \<noteq> a \<and> x \<in> set (lst (slab_links s) (d, l)))"
    and "x \<in> set (lst (slab_links s) (d, l)) \<longleftrightarrow>
       (x = a \<and> d = c \<and> l = k) \<or> (x \<noteq> a \<and> x \<in> set (lst (slab_links s) (d, l)))"
    and "lk_wf (lk_move a (c, k') (slab_links s))" and "lk_wf (slab_links s)" and "lk_linked a (slab_links s)"
proof -
  have "lk_wf (slab_links s)" using inv by (simp add: slab_inv_def)
  then show "lk_wf (slab_links s)" "lk_wf (lk_move a (c, k') (slab_links s))" by (simp_all add: lk_wf_move)
  show "x \<in> set (lst (slab_links s) (d, l)) \<longleftrightarrow>
       (x = a \<and> d = c \<and> l = k) \<or> (x \<noteq> a \<and> x \<in> set (lst (slab_links s) (d, l)))"
    using slab_inv_head [OF inv a] a by auto
  show "lk_linked a (slab_links s)" using a by (auto simp: lk_linked_iff)
qed auto

lemma kmem_cache_take_spec:
  assumes inv: "slab_inv s" and a: "a \<in> set (lst (slab_links s) (c, k))" and k: "k \<noteq> Slabs_full"
    and c: "kcaches s c = Some cache"
  shows "\<exists>s' b. kmem_cache_take c a s = Some (s', obj_addr s (c, a, b)) \<and> slab_inv s' \<and> b < c_objnum cache
     \<and> (c, a, b) \<notin> slab_objs s \<and> slab_objs s' = insert (c, a, b) (slab_objs s) \<and> kcaches s' = kcaches s"
proof -
  from slab_invE [OF inv a] c obtain h where h: "slabs s a = Some h" "slab_ok cache k h" and co: "cache_ok cache"
    by (metis option.sel)
  let ?bm = "sl_free_bitmap h"
  have len: "c_objnum cache \<le> 32 * length ?bm" "length ?bm = 1" using h co by (auto simp: slab_ok_def cache_ok_def)
  have fin: "finite (bm_set ?bm)" by simp
  have "card (bm_set ?bm) < c_objnum cache"
    using h(2) k card_mono [of "{..<c_objnum cache}" "bm_set ?bm"] by (auto simp: slab_ok_def)
  then have "\<not> {..<c_objnum cache} \<subseteq> bm_set ?bm" using card_mono [OF fin, of "{..<c_objnum cache}"] by auto
  from bm.search_room [OF len(1) this] obtain b where b: "b < c_objnum cache"
    "find_first_zero_bit ?bm (c_objnum cache) = Some b" "b \<notin> bm_set ?bm" by blast
  from bm.mark_used [of b ?bm] b(1) len obtain bm' where bm': "bitmap_set_bit ?bm b = Some bm'" "length bm' = 1"
    "bm_set bm' = insert b (bm_set ?bm)" by auto
  define h' where "h' = \<lparr>sl_free_bitmap = bm', sl_free_objects = sl_free_objects h - 1\<rparr>"
  define k' where "k' = (if sl_free_objects h' = 0 then Slabs_full else k)"
  have h': "slab_ok cache k' h'"
    using h(2) b bm' k fin unfolding slab_ok_def h'_def k'_def by (auto simp: card_insert_if)
  define s' where "s' = (if sl_free_objects h' = 0
      then s\<lparr>slabs := (slabs s)(a := Some h'), slab_links := lk_move a (c, Slabs_full) (slab_links s)\<rparr>
      else s\<lparr>slabs := (slabs s)(a := Some h')\<rparr>)"
  note mv = slab_move_links [OF inv a]
  have take: "kmem_cache_take c a s = Some (s', obj_addr s (c, a, b))"
    using c h(1) b(2) bm'(1) mv(5)
    by (simp add: kmem_cache_take_def h'_def s'_def obj_addr_def slab_move_def Let_def)
  have mem: "x \<in> set (lst (slab_links s') (d, l)) \<longleftrightarrow>
       (x = a \<and> d = c \<and> l = k') \<or> (x \<noteq> a \<and> x \<in> set (lst (slab_links s) (d, l)))" for x d l
    using mv(1) [of x Slabs_full d l] mv(2) [of x d l] unfolding s'_def k'_def
    by (cases "sl_free_objects h' = 0") simp_all
  have wf: "lk_wf (slab_links s')" using mv(3,4) by (simp add: s'_def)
  have upd: "page_start s' = page_start s" "pages s' = pages s" "kcaches s' = kcaches s"
    "slabs s' = (slabs s)(a := Some h')" by (simp_all add: s'_def)
  note u = slab_inv_update [OF inv a c h' wf mem upd]
  have "(c, a, b) \<notin> slab_objs s" using b(3) h(1) by (auto simp: slab_objs_def)
  moreover have "slab_objs s' = insert (c, a, b) (slab_objs s)"
    unfolding u(2) using slab_objs_of [OF inv a h(1)] by (simp add: h'_def bm'(3))
  ultimately show ?thesis using take u(1) b(1) upd(3) by blast
qed

lemma kmem_cache_grow_spec:
  fixes s :: "'a sstate_scheme"
  assumes inv: "slab_inv s" and c: "kcaches s c = Some cache"
  shows "alloc_pages (page_start s) (pages s) (c_page_order cache) = Some (pages s, None) \<and> kmem_cache_grow c s = Some (s, None)
     \<or> (\<exists>s' a. kmem_cache_grow c s = Some (s', Some a) \<and> slab_inv s' \<and> a \<in> set (lst (slab_links s') (c, Slabs_free))
          \<and> slab_objs s' = slab_objs s \<and> kcaches s' = kcaches s)"
proof -
  obtain live where live: "page_reach (page_start s) (pages s) live"
    "\<And>d l x. x \<in> set (lst (slab_links s) (d, l)) \<Longrightarrow> (x, c_page_order (the (kcaches s d))) \<in> set live"
    and ok: "page_mem_ok (page_start s)" and wf: "lk_wf (slab_links s)" and co: "cache_ok cache"
    using inv c unfolding slab_inv_def by blast
  have "page_wf (pages s)" using page_reach_inv [OF ok live(1)] by (simp add: page_inv_def)
  from alloc_pages_spec [OF this, of "c_page_order cache" "page_start s"] consider
    "alloc_pages (page_start s) (pages s) (c_page_order cache) = Some (pages s, None)"
  | pb a where "alloc_pages (page_start s) (pages s) (c_page_order cache) = Some (pb, Some a)" by blast
  then show ?thesis
  proof cases
    case 1
    then show ?thesis by (simp add: kmem_cache_grow_def c)
  next
    case (2 pb a)
    have fresh: "\<not> lk_linked a (slab_links s)"
      using page_reach_fresh [OF ok live(1) 2] live(2) by (force simp: lk_linked_iff)
    then have new: "a \<notin> set (lst (slab_links s) x)" for x by (cases x) (auto simp: lk_linked_iff)
    let ?h = "\<lparr>sl_free_bitmap = [0], sl_free_objects = int (c_objnum cache)\<rparr>"
    let ?s = "s\<lparr>pages := pb, slabs := (slabs s)(a := Some ?h), slab_links := lk_add a (c, Slabs_free) (slab_links s)\<rparr>"
    have z: "bm_set [0] = {}" by (auto simp: bm_set_def bm_bit_def)
    have h: "slab_ok cache Slabs_free ?h" using co by (simp add: slab_ok_def z cache_ok_def)
    have "\<exists>ca h. kcaches s d = Some ca \<and> ((slabs s)(a := Some ?h)) x = Some h \<and> slab_ok ca l h"
      if "x \<in> set (lst (slab_links ?s) (d, l))" for x d l
    proof (cases "x = a")
      case True
      then show ?thesis using that c h new by (auto split: if_splits)
    next
      case False
      then have "x \<in> set (lst (slab_links s) (d, l))" using that by (auto split: if_splits)
      then obtain ca h where "kcaches s d = Some ca" "slabs s x = Some h" "slab_ok ca l h"
        using slab_invE [OF inv] by metis
      then show ?thesis using False by auto
    qed
    moreover have "page_reach (page_start s) pb ((a, c_page_order cache) # live)" using page_alloc [OF live(1) 2] .
    moreover have "(x, c_page_order (the (kcaches s d))) \<in> set ((a, c_page_order cache) # live)"
      if "x \<in> set (lst (slab_links ?s) (d, l))" for x d l
      using that live(2) [of x d l] c by (auto split: if_splits)
    moreover have f: "page_start ?s = page_start s" "pages ?s = pb" "kcaches ?s = kcaches s"
      "slabs ?s = (slabs s)(a := Some ?h)" "lk_wf (slab_links ?s)" using wf fresh by (simp_all add: lk_wf_add)
    ultimately have "slab_inv ?s" using inv unfolding slab_inv_def f(1-4) using f(5) by blast
    moreover have "slab_objs ?s = slab_objs s"
    proof -
      have "x \<in> set (lst (slab_links ?s) (d, k)) \<longleftrightarrow> x \<in> set (lst (slab_links s) (d, k)) \<or> x = a \<and> d = c \<and> k = Slabs_free"
        for x d k by auto
      then show ?thesis unfolding slab_objs_def f(4) using new z by (auto simp: bm_set_def split: if_splits)
    qed
    moreover have "kmem_cache_grow c s = Some (?s, Some a)" using 2 fresh by (simp add: kmem_cache_grow_def c)
    ultimately show ?thesis by auto
  qed
qed

lemma slab_to_partial:
  assumes inv: "slab_inv s" and a: "a \<in> set (lst (slab_links s) (c, Slabs_free))"
  shows "\<exists>s'. slab_move a c Slabs_partial s = Some s' \<and> slab_inv s' \<and> a \<in> set (lst (slab_links s') (c, Slabs_partial))
     \<and> slab_objs s' = slab_objs s \<and> kcaches s' = kcaches s"
proof -
  note mv = slab_move_links [OF inv a]
  let ?s = "s\<lparr>slab_links := lk_move a (c, Slabs_partial) (slab_links s)\<rparr>"
  have "slab_inv ?s"
  proof (rule slab_inv_frame [OF inv])
    fix x d l assume "x \<in> set (lst (slab_links ?s) (d, l))"
    then show "\<exists>k'. x \<in> set (lst (slab_links s) (d, k')) \<and> (l = Slabs_full \<longleftrightarrow> k' = Slabs_full)"
      using mv(1) [of x Slabs_partial d l] a by auto
  qed (use mv(3) in simp_all)
  moreover have "(\<exists>k. x \<in> set (lst (slab_links ?s) (d, k))) \<longleftrightarrow> (\<exists>k. x \<in> set (lst (slab_links s) (d, k)))" for x d
    using mv(1) [of x Slabs_partial d] slab_inv_head [OF inv a, of d] a by (cases "x = a") auto
  then have "slab_objs ?s = slab_objs s" unfolding slab_objs_def by simp
  moreover have "slab_move a c Slabs_partial s = Some ?s" using mv(5) by (simp add: slab_move_def)
  moreover have "a \<in> set (lst (slab_links ?s) (c, Slabs_partial))" by simp
  ultimately show ?thesis by auto
qed

definition cache_full :: "cache_id \<Rightarrow> 'a sstate_scheme \<Rightarrow> bool" where
  "cache_full c s \<longleftrightarrow> lst (slab_links s) (c, Slabs_partial) = [] \<and> lst (slab_links s) (c, Slabs_free) = []
     \<and> alloc_pages (page_start s) (pages s) (c_page_order (the (kcaches s c))) = Some (pages s, None)"

lemma kmem_cache_pick_spec:
  fixes s :: "'a sstate_scheme"
  assumes inv: "slab_inv s" and c: "kcaches s c = Some cache"
  shows "cache_full c s \<and> kmem_cache_pick c s = Some (s, None)
     \<or> (\<exists>s' a. kmem_cache_pick c s = Some (s', Some a) \<and> slab_inv s' \<and> a \<in> set (lst (slab_links s') (c, Slabs_partial))
          \<and> slab_objs s' = slab_objs s \<and> kcaches s' = kcaches s)"
proof (cases "lst (slab_links s) (c, Slabs_partial)")
  case (Cons a as)
  then show ?thesis using inv by (auto simp: kmem_cache_pick_def)
next
  case part: Nil
  show ?thesis
  proof (cases "lst (slab_links s) (c, Slabs_free)")
    case (Cons a as)
    with slab_to_partial [OF inv, of a c] obtain s' where "slab_move a c Slabs_partial s = Some s'" "slab_inv s'"
      "a \<in> set (lst (slab_links s') (c, Slabs_partial))" "slab_objs s' = slab_objs s" "kcaches s' = kcaches s" by auto
    then show ?thesis using part Cons by (auto simp: kmem_cache_pick_def)
  next
    case free: Nil
    from kmem_cache_grow_spec [OF inv c] show ?thesis
    proof (elim disjE conjE exE)
      assume "alloc_pages (page_start s) (pages s) (c_page_order cache) = Some (pages s, None)"
        "kmem_cache_grow c s = Some (s, None)"
      then show ?thesis using part free c by (simp add: kmem_cache_pick_def cache_full_def)
    next
      fix s1 a assume g: "kmem_cache_grow c s = Some (s1, Some a)" "slab_inv s1"
        "a \<in> set (lst (slab_links s1) (c, Slabs_free))" "slab_objs s1 = slab_objs s" "kcaches s1 = kcaches s"
      with slab_to_partial [OF g(2,3)] obtain s' where "slab_move a c Slabs_partial s1 = Some s'" "slab_inv s'"
        "a \<in> set (lst (slab_links s') (c, Slabs_partial))" "slab_objs s' = slab_objs s1" "kcaches s' = kcaches s1" by auto
      then show ?thesis using part free g by (auto simp: kmem_cache_pick_def)
    qed
  qed
qed

lemma kmem_cache_alloc_spec:
  fixes s :: "'a sstate_scheme"
  assumes inv: "slab_inv s" and c: "kcaches s c = Some cache"
  shows "cache_full c s \<and> kmem_cache_alloc c s = Some (s, None)
     \<or> (\<exists>s' a b. kmem_cache_alloc c s = Some (s', Some (obj_addr s (c, a, b))) \<and> slab_inv s' \<and> b < c_objnum cache
          \<and> (c, a, b) \<notin> slab_objs s \<and> slab_objs s' = insert (c, a, b) (slab_objs s) \<and> kcaches s' = kcaches s)"
  using kmem_cache_pick_spec [OF inv c]
proof (elim disjE conjE exE)
  assume "cache_full c s" "kmem_cache_pick c s = Some (s, None)"
  then show ?thesis by (simp add: kmem_cache_alloc_def)
next
  fix s1 a assume p: "kmem_cache_pick c s = Some (s1, Some a)" "slab_inv s1"
    "a \<in> set (lst (slab_links s1) (c, Slabs_partial))" "slab_objs s1 = slab_objs s" "kcaches s1 = kcaches s"
  from kmem_cache_take_spec [OF p(2,3), of cache] c p(5) obtain s' b where
    "kmem_cache_take c a s1 = Some (s', obj_addr s1 (c, a, b))" "slab_inv s'" "b < c_objnum cache"
    "(c, a, b) \<notin> slab_objs s1" "slab_objs s' = insert (c, a, b) (slab_objs s1)" "kcaches s' = kcaches s1" by auto
  moreover have "obj_addr s1 (c, a, b) = obj_addr s (c, a, b)" by (simp add: obj_addr_def p(5))
  ultimately show ?thesis using p by (auto simp: kmem_cache_alloc_def)
qed

text \<open>Addresses of objects.\<close>

lemma slab_page:
  assumes inv: "slab_inv s" and a: "a \<in> set (lst (slab_links s) (c, k))" and c: "kcaches s c = Some cache"
  shows "unat a + page_order_sz ! c_page_order cache \<le> 2 ^ 32" and "unat a mod 256 = 0"
proof -
  obtain live where live: "page_reach (page_start s) (pages s) live" "(a, c_page_order cache) \<in> set live"
    and ok: "page_mem_ok (page_start s)" and co: "cache_ok cache"
    using inv a c unfolding slab_inv_def by force
  then have lo: "page_live_ok (page_start s) (a, c_page_order cache)"
    using page_reach_inv [OF ok live(1)] by (auto simp: page_inv_def)
  then obtain i where i: "i < 2 ^ (8 - c_page_order cache)" "a = page_idx_to_addr (page_start s) i (c_page_order cache)"
    and od: "c_page_order cache \<le> 5" by (auto simp: page_live_ok_def)
  have u: "unat a = unat (page_start s) + i * 2 ^ (c_page_order cache + 8)"
    using unat_page_idx_to_addr [OF ok od i(1)] i(2) by simp
  have st: "unat (page_start s) mod 8192 = 0" "unat (page_start s) + 65536 \<le> 2 ^ 32" using ok by (auto simp: page_mem_ok_def)
  have "256 dvd unat (page_start s)" using st(1) by (intro dvd_trans [of 256 8192 "unat (page_start s)"]) (simp_all add: mod_eq_0_iff_dvd)
  moreover have "256 dvd i * 2 ^ (c_page_order cache + 8)" by (simp add: power_add)
  ultimately show "unat a mod 256 = 0" unfolding u by (simp add: dvd_imp_mod_0)
  have pos: "0 < page_order_sz ! c_page_order cache" using od by (simp add: page_order_sz_eq)
  then have "unat a + page_order_sz ! c_page_order cache - 1 \<in> page_bytes (a, c_page_order cache)"
    by (auto simp: page_bytes_def)
  from page_bytes_units(3) [OF ok lo this] st(2) pos show "unat a + page_order_sz ! c_page_order cache \<le> 2 ^ 32"
    by linarith
qed

lemma obj_in_slab:
  assumes "cache_ok cache" and "b < c_objnum cache"
  shows "SLAB_HEADER + b * c_objsize cache + c_objsize cache \<le> page_order_sz ! c_page_order cache"
proof -
  have "Suc b * c_objsize cache \<le> c_objnum cache * c_objsize cache" using assms(2) by (intro mult_le_mono1) simp
  then show ?thesis using assms(1) by (simp add: cache_ok_def)
qed

lemma unat_obj_addr:
  assumes inv: "slab_inv s" and a: "a \<in> set (lst (slab_links s) (c, k))" and c: "kcaches s c = Some cache"
    and b: "b < c_objnum cache"
  shows "unat (obj_addr s (c, a, b)) = unat a + SLAB_HEADER + b * c_objsize cache"
proof -
  have co: "cache_ok cache" using inv c by (auto simp: slab_inv_def)
  then have "0 < c_objsize cache" by (simp add: cache_ok_def)
  with obj_in_slab [OF co b] slab_page(1) [OF inv a c]
  have lt: "unat a + (SLAB_HEADER + b * c_objsize cache) < 2 ^ 32" by linarith
  have "obj_addr s (c, a, b) = a + word_of_nat (SLAB_HEADER + b * c_objsize cache)"
    by (simp add: obj_addr_def c add.assoc)
  moreover have "unat (word_of_nat (SLAB_HEADER + b * c_objsize cache) :: u32) = SLAB_HEADER + b * c_objsize cache"
    using lt by (simp only: unat_of_nat) simp
  ultimately show ?thesis using lt unat_word_ariths(1) [of a "word_of_nat (SLAB_HEADER + b * c_objsize cache)"] by simp
qed

lemma slab_objE:
  assumes "slab_inv s" and "x \<in> slab_objs s"
  obtains c a b k cache h where "x = (c, a, b)" "a \<in> set (lst (slab_links s) (c, k))" "kcaches s c = Some cache"
    "cache_ok cache" "slabs s a = Some h" "slab_ok cache k h" "bm_bit (sl_free_bitmap h) b" "b < c_objnum cache"
proof -
  obtain c a b k h where x: "x = (c, a, b)" "a \<in> set (lst (slab_links s) (c, k))" "slabs s a = Some h"
    "bm_bit (sl_free_bitmap h) b" using assms(2) by (auto simp: slab_objs_def)
  from slab_invE [OF assms(1) x(2)] x(3) obtain cache where "kcaches s c = Some cache" "cache_ok cache" "slab_ok cache k h"
    by (metis option.inject)
  moreover from this have "b < c_objnum cache" using x(4) by (auto simp: slab_ok_def bm_set_def)
  ultimately show thesis using x that by blast
qed

lemma obj_bytes_in_page:
  assumes inv: "slab_inv s" and x: "x \<in> slab_objs s"
  shows "obj_bytes s x \<subseteq> page_bytes (fst (snd x), c_page_order (the (kcaches s (fst x))))"
proof -
  from slab_objE [OF assms] obtain c a b k cache where x: "x = (c, a, b)" "a \<in> set (lst (slab_links s) (c, k))"
    "kcaches s c = Some cache" "cache_ok cache" "b < c_objnum cache" by metis
  then show ?thesis using unat_obj_addr [OF inv x(2,3,5)] obj_in_slab [OF x(4,5)]
    by (auto simp: obj_bytes_def page_bytes_def)
qed

lemma slab_objs_disjoint:
  assumes inv: "slab_inv s" and x: "x \<in> slab_objs s" and y: "y \<in> slab_objs s" and ne: "x \<noteq> y"
  shows "obj_bytes s x \<inter> obj_bytes s y = {}"
proof -
  from slab_objE [OF inv x] obtain c a b k cache where x': "x = (c, a, b)" "a \<in> set (lst (slab_links s) (c, k))"
    "kcaches s c = Some cache" "cache_ok cache" "b < c_objnum cache" by metis
  from slab_objE [OF inv y] obtain d e g l cache' where y': "y = (d, e, g)" "e \<in> set (lst (slab_links s) (d, l))"
    "kcaches s d = Some cache'" "cache_ok cache'" "g < c_objnum cache'" by metis
  show ?thesis
  proof (cases "a = e")
    case True
    then have "c = d" using slab_inv_head [OF inv x'(2), of d l] y'(2) by simp
    with True x' y' have dd: "cache' = cache" "d = c" "e = a" "b \<noteq> g" using ne by auto
    have "b * c_objsize cache + c_objsize cache \<le> g * c_objsize cache \<or> g * c_objsize cache + c_objsize cache \<le> b * c_objsize cache"
    proof (cases "b < g")
      case True
      then have "Suc b * c_objsize cache \<le> g * c_objsize cache" by (intro mult_le_mono1) simp
      then show ?thesis by simp
    next
      case False
      then have "Suc g * c_objsize cache \<le> b * c_objsize cache" using dd by (intro mult_le_mono1) simp
      then show ?thesis by simp
    qed
    then show ?thesis using unat_obj_addr [OF inv x'(2,3,5)] unat_obj_addr [OF inv y'(2,3,5)] x' y' dd
      by (auto simp: obj_bytes_def)
  next
    case False
    obtain live where live: "page_reach (page_start s) (pages s) live"
      "\<And>d l x. x \<in> set (lst (slab_links s) (d, l)) \<Longrightarrow> (x, c_page_order (the (kcaches s d))) \<in> set live"
      and ok: "page_mem_ok (page_start s)" using inv unfolding slab_inv_def by blast
    have "page_bytes (a, c_page_order cache) \<inter> page_bytes (e, c_page_order cache') = {}"
      using page_live_disjoint [OF ok live(1)] live(2) [OF x'(2)] live(2) [OF y'(2)] x'(3) y'(3) False by auto
    then show ?thesis using obj_bytes_in_page [OF inv x] obj_bytes_in_page [OF inv y] x' y' by auto
  qed
qed

section \<open>Releasing an object\<close>

lemma obj_lookup_any:
  fixes s :: "'a sstate_scheme"
  assumes inv: "slab_inv s" and a: "a \<in> set (lst (slab_links s) (c, k))" and c: "kcaches s c = Some cache"
    and b: "b < c_objnum cache" and od: "c_page_order cache = 0" and d: "0 < c_objsize cache'" "c_objsize cache' < 256"
  shows "get_slab_from_obj (obj_addr s (c, a, b)) 256 = a"
    and "obj_index_in_slab (obj_addr s (c, a, b)) cache' = int (b * c_objsize cache div c_objsize cache')"
proof -
  let ?o = "obj_addr s (c, a, b)" and ?off = "SLAB_HEADER + b * c_objsize cache"
  have co: "cache_ok cache" using inv c by (auto simp: slab_inv_def)
  have "page_order_sz ! 0 = 256" by (simp add: page_order_sz_def)
  with obj_in_slab [OF co b] od co have off: "?off < 256" "b * c_objsize cache < 256"
    by (auto simp: cache_ok_def SLAB_HEADER_def)
  have u: "unat ?o = unat a + ?off" using unat_obj_addr [OF inv a c b] by simp
  have m: "unat ?o mod 256 = ?off" using slab_page(2) [OF inv a c] off(1) u by (metis mod_add_left_eq add_0 mod_less)
  have "unat (get_slab_from_obj ?o 256) = unat ?o - unat ?o mod 2 ^ 8"
    unfolding get_slab_from_obj_def ALIGN_def ALIGN_MASK_def using unat_AND_NOT_mask [of ?o 8]
    by (simp add: mask_eq_exp_minus_1)
  then have "unat (get_slab_from_obj ?o 256) = unat a" using m u by simp
  then show "get_slab_from_obj ?o 256 = a" by (simp add: word_unat_eq_iff)
  have "?o AND (push_bit 8 1 - 1) = take_bit 8 ?o" by (simp add: take_bit_eq_mask mask_eq_exp_minus_1)
  moreover have "unat (take_bit 8 ?o) = unat ?o mod 256"
    by (simp add: unsigned_take_bit_eq) (simp add: take_bit_eq_mod)
  ultimately have t: "unat (?o AND (push_bit 8 1 - 1)) = ?off" using m by simp
  have "unat (word_of_nat SLAB_HEADER :: u32) = SLAB_HEADER" by (simp add: SLAB_HEADER_def)
  then have "unat ((?o AND (push_bit 8 1 - 1)) - word_of_nat SLAB_HEADER) = b * c_objsize cache"
    using t by (subst unat_sub) (simp_all add: word_le_nat_alt)
  moreover have "unat (word_of_nat (c_objsize cache') :: u32) = c_objsize cache'"
    using d(2) by (simp only: unat_of_nat) simp
  ultimately have q: "unat (((?o AND (push_bit 8 1 - 1)) - word_of_nat SLAB_HEADER) div word_of_nat (c_objsize cache'))
      = b * c_objsize cache div c_objsize cache'" by (simp add: unat_div)
  have lt: "b * c_objsize cache div c_objsize cache' < 256" using off(2) by (meson div_le_dividend le_less_trans)
  then have "((?o AND (push_bit 8 1 - 1)) - word_of_nat SLAB_HEADER) div word_of_nat (c_objsize cache')
      = word_of_nat (b * c_objsize cache div c_objsize cache')"
    using q by (simp add: word_unat_eq_iff unat_of_nat)
  then show "obj_index_in_slab ?o cache' = int (b * c_objsize cache div c_objsize cache')"
    using lt unfolding obj_index_in_slab_def
    by (simp add: sint_uint uint_nat unat_of_nat signed_take_bit_int_eq_self take_bit_nat_eq_self)
qed

lemma obj_lookup:
  fixes s :: "'a sstate_scheme"
  assumes inv: "slab_inv s" and a: "a \<in> set (lst (slab_links s) (c, k))" and c: "kcaches s c = Some cache"
    and b: "b < c_objnum cache" and od: "c_page_order cache = 0"
  shows "get_slab_from_obj (obj_addr s (c, a, b)) 256 = a" and "obj_index_in_slab (obj_addr s (c, a, b)) cache = int b"
proof -
  have co: "cache_ok cache" using inv c by (auto simp: slab_inv_def)
  then have "0 < c_objsize cache" "c_objsize cache < 256"
    using obj_in_slab [OF co b] od by (auto simp: cache_ok_def SLAB_HEADER_def page_order_sz_def)
  from obj_lookup_any [OF assms this] this show "get_slab_from_obj (obj_addr s (c, a, b)) 256 = a"
    "obj_index_in_slab (obj_addr s (c, a, b)) cache = int b" by simp_all
qed

lemma slab_destroy_spec:
  fixes s s1 :: "'a sstate_scheme"
  assumes inv: "slab_inv s" and a: "a \<in> set (lst (slab_links s) (c, k))" and c: "kcaches s c = Some cache"
    and od: "c_page_order cache = 0" and s1: "s1 = s\<lparr>slabs := (slabs s)(a := Some h)\<rparr>"
  shows "\<exists>s'. slab_destroy a s1 = Some s' \<and> slab_inv s' \<and> slab_objs s' = {x \<in> slab_objs s. fst (snd x) \<noteq> a}"
proof -
  obtain live where live: "page_reach (page_start s) (pages s) live"
    "\<And>d l x. x \<in> set (lst (slab_links s) (d, l)) \<Longrightarrow> (x, c_page_order (the (kcaches s d))) \<in> set live"
    and ok: "page_mem_ok (page_start s)" and wf: "lk_wf (slab_links s)" using inv unfolding slab_inv_def by blast
  have m: "(a, 0) \<in> set live" using live(2) [OF a] c od by simp
  have pi: "page_inv (page_start s) (pages s) live" by (rule page_reach_inv [OF ok live(1)])
  then obtain i where i: "i < 2 ^ (8 - 0)" "a = page_idx_to_addr (page_start s) i 0"
    using m by (auto simp: page_inv_def page_live_ok_def)
  have "page_shape (pages s)" using pi by (simp add: page_inv_def page_wf_def)
  from free_pages_spec [OF ok this _ i(1)] i(2) obtain pb where pb: "free_pages (page_start s) (pages s) a 0 = Some pb" by auto
  have r: "page_reach (page_start s) pb (remove1 (a, 0) live)" by (rule page_free [OF live(1) m pb])
  have dl: "distinct live" using pi by (simp add: page_inv_def)
  let ?s = "s1\<lparr>slab_links := lk_del a (slab_links s), pages := pb, slabs := (slabs s)(a := None)\<rparr>"
  have d: "slab_destroy a s1 = Some ?s"
    using pb slab_move_links(5) [OF inv a] by (simp add: slab_destroy_def s1)
  have mem: "x \<in> set (lst (slab_links ?s) (d, l)) \<longleftrightarrow> x \<noteq> a \<and> x \<in> set (lst (slab_links s) (d, l))" for x d l by auto
  have f: "page_start ?s = page_start s" "pages ?s = pb" "kcaches ?s = kcaches s" "slabs ?s = (slabs s)(a := None)"
    "lk_wf (slab_links ?s)" using wf by (simp_all add: s1 lk_wf_del)
  have "\<exists>ca h. kcaches s d = Some ca \<and> ((slabs s)(a := None)) x = Some h \<and> slab_ok ca l h"
    if "x \<in> set (lst (slab_links ?s) (d, l))" for x d l
    using that unfolding mem by (auto elim: slab_invE [OF inv])
  moreover have "(x, c_page_order (the (kcaches s d))) \<in> set (remove1 (a, 0) live)"
    if "x \<in> set (lst (slab_links ?s) (d, l))" for x d l
    using that live(2) [of x d l] dl unfolding mem by auto
  ultimately have "slab_inv ?s" using inv r unfolding slab_inv_def f(1-4) using f(5) by blast
  moreover have "slab_objs ?s = {x \<in> slab_objs s. fst (snd x) \<noteq> a}" unfolding slab_objs_def mem f(4) by auto
  ultimately show ?thesis using d by blast
qed

lemma kmem_cache_free_spec:
  fixes s :: "'a sstate_scheme"
  assumes inv: "slab_inv s" and x: "(c, a, b) \<in> slab_objs s" and c: "kcaches s c = Some cache" and od: "c_page_order cache = 0"
  shows "\<exists>s'. kmem_cache_free c (obj_addr s (c, a, b)) s = Some s' \<and> slab_inv s' \<and> slab_objs s' = slab_objs s - {(c, a, b)}"
proof -
  from slab_objE [OF inv x] c obtain k h where a: "a \<in> set (lst (slab_links s) (c, k))" and co: "cache_ok cache"
    and h: "slabs s a = Some h" "slab_ok cache k h" "bm_bit (sl_free_bitmap h) b" and b: "b < c_objnum cache"
    by (metis option.inject prod.inject)
  note lk = obj_lookup [OF inv a c b od]
  let ?bm = "sl_free_bitmap h"
  have len: "length ?bm = 1" using h(2) by (simp add: slab_ok_def)
  have "b < 32 * length ?bm" using b co len by (simp add: cache_ok_def)
  from bitmap_clear_bit_Some [OF this] len obtain bm' where bm': "bitmap_clear_bit ?bm b = Some bm'" "length bm' = 1"
    "bm_set bm' = bm_set ?bm - {b}" by auto
  define h' where "h' = \<lparr>sl_free_bitmap = bm', sl_free_objects = sl_free_objects h + 1\<rparr>"
  define s1 where "s1 = s\<lparr>slabs := (slabs s)(a := Some h')\<rparr>"
  have card: "int (card (bm_set bm')) = int (card (bm_set ?bm)) - 1"
  proof -
    have "b \<in> bm_set ?bm" "finite (bm_set ?bm)" using h(3) by simp_all
    then have "card (bm_set ?bm) = Suc (card (bm_set ?bm - {b}))" by (intro card.remove)
    then show ?thesis by (simp add: bm'(3))
  qed
  have fr: "kmem_cache_free c (obj_addr s (c, a, b)) s =
     (if sl_free_objects h' = int (c_objnum cache) then slab_destroy a s1
      else if sl_free_objects h' = 1 then slab_move a c Slabs_partial s1 else Some s1)"
    using bm'(1) h(1) by (simp add: kmem_cache_free_def c lk Let_def h'_def s1_def)
  have ob: "slab_objs s - {(c, a, b)} = {x \<in> slab_objs s. fst (snd x) \<noteq> a} \<union> (\<lambda>b. (c, a, b)) ` bm_set bm'"
    using slab_objs_of [OF inv a h(1)] bm'(3) by auto
  note mv = slab_move_links [OF inv a]
  show ?thesis
  proof (cases "sl_free_objects h' = int (c_objnum cache)")
    case True
    have "card (bm_set bm') = 0" using True h(2) card by (simp add: h'_def slab_ok_def)
    then have "bm_set bm' = {}" by simp
    then show ?thesis using slab_destroy_spec [OF inv a c od s1_def] True unfolding fr ob by simp
  next
    case part: False
    define k' where "k' = (if sl_free_objects h' = 1 then Slabs_partial else k)"
    define s' where "s' = (if sl_free_objects h' = 1 then s1\<lparr>slab_links := lk_move a (c, Slabs_partial) (slab_links s)\<rparr> else s1)"
    have r: "kmem_cache_free c (obj_addr s (c, a, b)) s = Some s'"
      unfolding fr using part mv(5) by (simp add: s'_def slab_move_def s1_def)
    have "slab_ok cache k' h'"
      using h(2) bm'(2,3) card part card_mono [of "{..<c_objnum cache}" "bm_set ?bm"]
      unfolding slab_ok_def h'_def k'_def by auto
    moreover have "x \<in> set (lst (slab_links s') (d, l)) \<longleftrightarrow>
       (x = a \<and> d = c \<and> l = k') \<or> (x \<noteq> a \<and> x \<in> set (lst (slab_links s) (d, l)))" for x d l
      using mv(1) [of x Slabs_partial d l] mv(2) [of x d l] unfolding s'_def k'_def s1_def
      by (cases "sl_free_objects h' = 1") simp_all
    moreover have "lk_wf (slab_links s')" using mv(3,4) by (simp add: s'_def s1_def)
    moreover have "page_start s' = page_start s" "pages s' = pages s" "kcaches s' = kcaches s"
      "slabs s' = (slabs s)(a := Some h')" by (simp_all add: s'_def s1_def)
    ultimately have "slab_inv s'"
      "slab_objs s' = {x \<in> slab_objs s. fst (snd x) \<noteq> a} \<union> (\<lambda>b. (c, a, b)) ` bm_set (sl_free_bitmap h')"
      using slab_inv_update [OF inv a c] by blast+
    then show ?thesis using r unfolding ob by (simp add: h'_def)
  qed
qed

section \<open>Properties\<close>


text \<open>The state of the slab allocator before any slab exists.\<close>

definition demo_sstate :: "(u32 \<Rightarrow> slab option) \<Rightarrow> ((cache_id \<times> slab_kind) \<times> u32) list \<Rightarrow> page_bitmap \<Rightarrow> sstate" where
  "demo_sstate sl L pb = pstate.extend (demo_pstate (demo_state\<lparr>pages := pb, mem := (\<lambda>_. 32)\<rparr>) [])
     \<lparr>slabs = sl, slab_links = L,
      kcaches = [Cache_Caches \<mapsto> cache_caches,
                 Cache_At 32 \<mapsto> \<lparr>c_objsize = 32, c_objnum = 7, c_page_order = 0, c_name = ''kmalloc-32''\<rparr>,
                 Cache_At 64 \<mapsto> \<lparr>c_objsize = 64, c_objnum = 3, c_page_order = 0, c_name = ''kmalloc-64''\<rparr>,
     Cache_At 128 \<mapsto> \<lparr>c_objsize = 128, c_objnum = 3, c_page_order = 1, c_name = ''kmalloc-128''\<rparr>],
      caches_list = [], kmalloc_caches = [Some (Cache_At 32), Some (Cache_At 64)]\<rparr>"

lemma demo_sstate_sel:
  "page_start (demo_sstate sl L pb) = 0x20000000" "pages (demo_sstate sl L pb) = pb" "slabs (demo_sstate sl L pb) = sl"
  "slab_links (demo_sstate sl L pb) = L" "mem (demo_sstate sl L pb) = (\<lambda>_. 32)"
  "kcaches (demo_sstate sl L pb) = [Cache_Caches \<mapsto> cache_caches,
     Cache_At 32 \<mapsto> \<lparr>c_objsize = 32, c_objnum = 7, c_page_order = 0, c_name = ''kmalloc-32''\<rparr>,
     Cache_At 64 \<mapsto> \<lparr>c_objsize = 64, c_objnum = 3, c_page_order = 0, c_name = ''kmalloc-64''\<rparr>,
     Cache_At 128 \<mapsto> \<lparr>c_objsize = 128, c_objnum = 3, c_page_order = 1, c_name = ''kmalloc-128''\<rparr>]"
  "kmalloc_caches (demo_sstate sl L pb) = [Some (Cache_At 32), Some (Cache_At 64)]"
  by (simp_all add: demo_sstate_def demo_pstate_def kstate.defs pstate.defs demo_state_def demo_kstate_def)

lemma cache_ok_demo: "kcaches (demo_sstate sl L pb) c = Some cache \<Longrightarrow> cache_ok cache"
  by (auto simp: demo_sstate_sel cache_ok_def cache_caches_def OBJS_PER_SLAB_def SLAB_HEADER_def KMEM_CACHE_SIZE_def
      page_order_sz_def split: if_splits)

lemma demo_page_ok: "page_mem_ok 0x20000000"
  by (simp add: page_mem_ok_def)

lemma demo_sstate_inv: "slab_inv (demo_sstate (\<lambda>_. None) [] page_bitmap_init)"
proof -
  have "page_reach 0x20000000 page_bitmap_init []" by (rule page_start)
  then show ?thesis using cache_ok_demo [of _ "[]" page_bitmap_init] demo_page_ok
    unfolding slab_inv_def demo_sstate_sel(1-4) by (auto simp: lst_def lk_wf_def)
qed


text \<open>
  \<open>kmem_cache_free\<close> of an object in use, in a cache whose slabs are minimal pages, succeeds: exactly
  this object becomes free, the page goes back to the page allocator with the last object of
  the slab, and the invariant is kept.\<close>

theorem slab_free_correct:
  assumes "slab_inv s" and "(c, a, b) \<in> slab_objs s" and "kcaches s c = Some cache" and "c_page_order cache = 0"
  shows "\<exists>s'. kmem_cache_free c (obj_addr s (c, a, b)) s = Some s' \<and> slab_inv s' \<and> slab_objs s' = slab_objs s - {(c, a, b)}"
  using assms by (rule kmem_cache_free_spec)

text \<open>States with one slab, of a given cache, whose three objects are in use.\<close>

definition demo_slab :: "u32 \<Rightarrow> page_bitmap \<Rightarrow> sstate" where
  "demo_slab c pb = demo_sstate [0x20000000 \<mapsto> \<lparr>sl_free_bitmap = [7], sl_free_objects = 0\<rparr>]
     [((Cache_At c, Slabs_full), 0x20000000)] pb"

definition demo_pages0 :: page_bitmap where
  "demo_pages0 = [[2, 0, 0, 0, 0, 0, 0, 0], [2, 0, 0, 0], [2, 0], [2], [2], [0xfe]]"

definition demo_pages1 :: page_bitmap where
  "demo_pages1 = [[0, 0, 0, 0, 0, 0, 0, 0], [2, 0, 0, 0], [2, 0], [2], [2], [0xfe]]"

lemma bm_set_7: "bm_set [7] = {0, 1, 2}"
proof -
  have m: "(7 :: u32) = mask 3" by (simp add: mask_eq_exp_minus_1)
  show ?thesis unfolding m by (auto simp: bm_set_def bm_bit_def bit_mask_iff)
qed

lemma demo_slab_inv:
  assumes al: "alloc_pages 0x20000000 page_bitmap_init od = Some (pb, Some 0x20000000)"
    and c: "kcaches (demo_slab c pb) (Cache_At c) = Some cache" "c_page_order cache = od" "c_objnum cache = 3"
  shows "slab_inv (demo_slab c pb)"
proof -
  have r: "page_reach 0x20000000 pb [(0x20000000, od)]" by (rule page_alloc [OF page_start al])
  let ?L = "[((Cache_At c, Slabs_full), 0x20000000)]"
  have sel: "page_start (demo_slab c pb) = 0x20000000" "pages (demo_slab c pb) = pb" "slab_links (demo_slab c pb) = ?L"
    "slabs (demo_slab c pb) = [0x20000000 \<mapsto> \<lparr>sl_free_bitmap = [7], sl_free_objects = 0\<rparr>]"
    by (simp_all add: demo_slab_def demo_sstate_sel)
  show ?thesis
    unfolding slab_inv_def sel
  proof (intro conjI allI impI)
    show "page_mem_ok 0x20000000" by (rule demo_page_ok)
    show "lk_wf ?L" by (simp add: lk_wf_def)
    show "cache_ok cache" if "kcaches (demo_slab c pb) d = Some cache" for d cache
      using that unfolding demo_slab_def by (rule cache_ok_demo)
    show "\<exists>live. page_reach 0x20000000 pb live \<and> (\<forall>d k a. a \<in> set (lst ?L (d, k)) \<longrightarrow>
        (a, c_page_order (the (kcaches (demo_slab c pb) d))) \<in> set live)"
      using r c by (intro exI [of _ "[(0x20000000, od)]"]) (auto simp: lst_def split: if_splits)
    show "\<exists>cache h. kcaches (demo_slab c pb) d = Some cache
        \<and> [0x20000000 \<mapsto> \<lparr>sl_free_bitmap = [7], sl_free_objects = 0\<rparr>] a = Some h \<and> slab_ok cache k h"
      if "a \<in> set (lst ?L (d, k))" for d k a
      using that c by (auto simp: lst_def slab_ok_def bm_set_7 split: if_splits)
  qed
qed

lemma demo_slab64_inv: "slab_inv (demo_slab 64 demo_pages0)"
proof (rule demo_slab_inv [where cache = "\<lparr>c_objsize = 64, c_objnum = 3, c_page_order = 0, c_name = ''kmalloc-64''\<rparr>"])
  show "alloc_pages 0x20000000 page_bitmap_init 0 = Some (demo_pages0, Some 0x20000000)" by code_simp
qed (simp_all add: demo_slab_def demo_sstate_sel)

lemma demo_slab128_inv: "slab_inv (demo_slab 128 demo_pages1)"
proof (rule demo_slab_inv [where cache = "\<lparr>c_objsize = 128, c_objnum = 3, c_page_order = 1, c_name = ''kmalloc-128''\<rparr>"])
  show "alloc_pages 0x20000000 page_bitmap_init 1 = Some (demo_pages1, Some 0x20000000)" by code_simp
qed (simp_all add: demo_slab_def demo_sstate_sel)

lemma demo_slab_objs: "(Cache_At c, 0x20000000, b) \<in> slab_objs (demo_slab c pb) \<longleftrightarrow> b < 3"
proof -
  have "bm_bit [7] b \<longleftrightarrow> b < 3" using bm_set_7 by (auto simp: bm_set_def set_eq_iff)
  then show ?thesis by (auto simp: slab_objs_def demo_slab_def demo_sstate_sel lst_def)
qed

theorem slab_free_correct_witness:
  "\<exists>s'. kmem_cache_free (Cache_At 64) (obj_addr (demo_slab 64 demo_pages0) (Cache_At 64, 0x20000000, 1)) (demo_slab 64 demo_pages0) = Some s' \<and> slab_inv s'
     \<and> slab_objs s' = slab_objs (demo_slab 64 demo_pages0) - {(Cache_At 64, 0x20000000, 1)}"
  using slab_free_correct [OF demo_slab64_inv, of "Cache_At 64" "0x20000000" 1] demo_slab_objs [of 64 1 demo_pages0]
  by (simp add: demo_slab_def demo_sstate_sel)

text \<open>
  \<open>kmalloc\<close> selects the slab by the size with its header, \<open>kfree\<close> by the recorded size without it.
  For the sizes in between, an object of the 64-byte cache is released through the 32-byte cache:
  for the second object of a slab, the bit that is cleared is that of the third object, which
  is in use, and the released object stays marked.\<close>

theorem kfree_frees_other_object:
  assumes inv: "slab_inv s" and k32: "kmalloc_caches s ! 0 = Some c32" "kcaches s c32 = Some cache32"
      "c_objsize cache32 = 32" "c_objnum cache32 = 7"
    and k64: "kcaches s c64 = Some cache64" "c_objsize cache64 = 64" "c_objnum cache64 = 3" "c_page_order cache64 = 0"
    and x: "(c64, a, 1) \<in> slab_objs s" "(c64, a, 2) \<in> slab_objs s"
    and n: "mem s (obj_addr s (c64, a, 1)) = n" "28 < unat n" "unat n \<le> 32"
  shows "kmalloc_slab_index (unat (n + word_of_nat KMALLOC_HEADER)) = 1
     \<and> (\<exists>s' h. kfree (obj_addr s (c64, a, 1) + word_of_nat KMALLOC_HEADER) s = Some s' \<and> slabs s' a = Some h
          \<and> bm_bit (sl_free_bitmap h) 1 \<and> \<not> bm_bit (sl_free_bitmap h) 2)"
proof
  have "unat (n + word_of_nat KMALLOC_HEADER) = unat n + 4"
    using n(3) by (simp add: KMALLOC_HEADER_def unat_word_ariths(1))
  then show "kmalloc_slab_index (unat (n + word_of_nat KMALLOC_HEADER)) = 1"
    using n(2,3) by (simp add: kmalloc_slab_index_def kmalloc_slab_info_def)
  have i0: "kmalloc_slab_index (unat n) = 0" using n(2,3) by (simp add: kmalloc_slab_index_def kmalloc_slab_info_def)
  from slab_objE [OF inv x(1)] k64(1) obtain k h where a: "a \<in> set (lst (slab_links s) (c64, k))"
    and h: "slabs s a = Some h" "slab_ok cache64 k h" "bm_bit (sl_free_bitmap h) 1" by (metis option.inject prod.inject)
  have "1 < c_objnum cache64" "0 < c_objsize cache32" "c_objsize cache32 < 256" using k64 k32 by simp_all
  note lk = obj_lookup_any [OF inv a k64(1) this(1) k64(4) this(2,3)]
  have idx: "obj_index_in_slab (obj_addr s (c64, a, 1)) cache32 = 2" using lk(2) k32(3) k64(2) by simp
  have len: "length (sl_free_bitmap h) = 1" using h(2) by (simp add: slab_ok_def)
  from bitmap_clear_bit_Some [of 2 "sl_free_bitmap h"] len obtain bm where
    bm: "bitmap_clear_bit (sl_free_bitmap h) 2 = Some bm" "bm_set bm = bm_set (sl_free_bitmap h) - {2}" by auto
  let ?h = "\<lparr>sl_free_bitmap = bm, sl_free_objects = sl_free_objects h + 1\<rparr>"
  let ?s = "(preempt_disable s)\<lparr>slabs := (slabs s)(a := Some ?h)\<rparr>"
  have pd: "slabs (preempt_disable s) = slabs s" "slab_links (preempt_disable s) = slab_links s"
    "kcaches (preempt_disable s) = kcaches s" "kmalloc_caches (preempt_disable s) = kmalloc_caches s"
    "slabs (preempt_enable t) = slabs t" for t :: "'a sstate_scheme"
    by (simp_all add: preempt_disable_def preempt_enable_def preempt_count_inc_def preempt_count_dec_def Let_def)
  have "sl_free_objects h + 1 \<noteq> 7" using h(2) k64(3) by (simp add: slab_ok_def)
  moreover have "lk_linked a (slab_links s)" using a by (auto simp: lk_linked_iff)
  ultimately have "\<exists>s1. kmem_cache_free c32 (obj_addr s (c64, a, 1)) (preempt_disable s) = Some s1 \<and> slabs s1 a = Some ?h"
    using bm(1) h(1) by (simp add: kmem_cache_free_def k32 lk(1) idx Let_def slab_move_def pd del: One_nat_def)
  then obtain s1 where s1: "kmem_cache_free c32 (obj_addr s (c64, a, 1)) (preempt_disable s) = Some s1" "slabs s1 a = Some ?h"
    by blast
  define ob where "ob = obj_addr s (c64, a, 1)"
  have "kfree (ob + word_of_nat KMALLOC_HEADER) s = Some (preempt_enable s1)"
    using s1(1) [folded ob_def] k32(1) i0 n(1) [folded ob_def] by (simp add: kfree_def crit_def kmalloc_slab_info_def pd)
  then have "kfree (obj_addr s (c64, a, 1) + word_of_nat KMALLOC_HEADER) s = Some (preempt_enable s1)"
    by (simp only: ob_def)
  moreover have "1 \<in> bm_set bm" "2 \<notin> bm_set bm" unfolding bm(2) using h(3) by simp_all
  then have "bm_bit bm 1" "\<not> bm_bit bm 2" by (simp_all only: bm_bit_iff) simp
  ultimately show "\<exists>s' h. kfree (obj_addr s (c64, a, 1) + word_of_nat KMALLOC_HEADER) s = Some s' \<and> slabs s' a = Some h
          \<and> bm_bit (sl_free_bitmap h) 1 \<and> \<not> bm_bit (sl_free_bitmap h) 2"
    using s1(2) pd(5) [of s1] by (intro exI [of _ "preempt_enable s1"] exI [of _ ?h]) simp
qed

theorem kfree_frees_other_object_witness:
  "\<exists>s' h. kfree (obj_addr (demo_slab 64 demo_pages0) (Cache_At 64, 0x20000000, 1) + word_of_nat KMALLOC_HEADER) (demo_slab 64 demo_pages0) = Some s'
     \<and> slabs s' 0x20000000 = Some h \<and> bm_bit (sl_free_bitmap h) 1 \<and> \<not> bm_bit (sl_free_bitmap h) 2"
  using kfree_frees_other_object [OF demo_slab64_inv, of "Cache_At 32" _ "Cache_At 64" _ "0x20000000" 32] demo_slab_objs [of 64 _ demo_pages0]
  by (simp add: demo_slab_def demo_sstate_sel)

text \<open>
  \<open>kmem_cache_free\<close> rounds the address of an object down to 256 bytes to find its slab. In a cache
  with larger pages (those of 128 bytes and more that \<^verbatim>\<open>slab_init\<close> creates) every object beyond
  the first 256 bytes of its page gets an address that is not the address of any slab.\<close>

theorem slab_free_misses_large_slab:
  assumes inv: "slab_inv s" and x: "(c, a, b) \<in> slab_objs s" and c: "kcaches s c = Some cache"
    and b: "256 \<le> SLAB_HEADER + b * c_objsize cache"
  shows "\<not> lk_linked (get_slab_from_obj (obj_addr s (c, a, b)) 256) (slab_links s)"
proof
  let ?o = "obj_addr s (c, a, b)" and ?g = "get_slab_from_obj (obj_addr s (c, a, b)) 256"
  from slab_objE [OF inv x] c obtain k where a: "a \<in> set (lst (slab_links s) (c, k))" and co: "cache_ok cache"
    and bn: "b < c_objnum cache" by (metis option.inject prod.inject)
  have u: "unat ?o = unat a + (SLAB_HEADER + b * c_objsize cache)" using unat_obj_addr [OF inv a c bn] by simp
  have g: "unat ?g = unat ?o - unat ?o mod 256"
    unfolding get_slab_from_obj_def ALIGN_def ALIGN_MASK_def using unat_AND_NOT_mask [of ?o 8]
    by (simp add: mask_eq_exp_minus_1)
  have "unat ?o mod 256 < 256" by simp
  then have lt: "unat a < unat ?g" using g u b by linarith
  have "unat ?g \<le> unat ?o" using g by simp
  then have gb: "unat ?g \<in> page_bytes (a, c_page_order cache)"
    using lt u obj_in_slab [OF co bn] co by (auto simp: page_bytes_def cache_ok_def)
  obtain live where live: "page_reach (page_start s) (pages s) live"
    "\<And>d l x. x \<in> set (lst (slab_links s) (d, l)) \<Longrightarrow> (x, c_page_order (the (kcaches s d))) \<in> set live"
    and ok: "page_mem_ok (page_start s)" using inv unfolding slab_inv_def by blast
  assume "lk_linked ?g (slab_links s)"
  then obtain d l where dl: "?g \<in> set (lst (slab_links s) (d, l))" by (auto simp: lk_linked_iff)
  from slab_invE [OF inv dl] obtain cd where cd: "kcaches s d = Some cd" "cache_ok cd" by metis
  have "page_bytes (?g, c_page_order cd) \<inter> page_bytes (a, c_page_order cache) = {}"
    using page_live_disjoint [OF ok live(1)] live(2) [OF dl] live(2) [OF a] cd(1) c lt by fastforce
  then show False using gb page_addr_in_bytes [of "(?g, c_page_order cd)"] cd(2) by (auto simp: cache_ok_def)
qed

theorem slab_free_misses_large_slab_witness:
  "\<not> lk_linked (get_slab_from_obj (obj_addr (demo_slab 128 demo_pages1) (Cache_At 128, 0x20000000, 2)) 256)
       (slab_links (demo_slab 128 demo_pages1))"
  using slab_free_misses_large_slab [OF demo_slab128_inv, of "Cache_At 128" "0x20000000" 2] demo_slab_objs [of 128 2 demo_pages1]
  by (simp add: demo_slab_def demo_sstate_sel SLAB_HEADER_def)

end
