(* ===== verification/Heap.thy ===== *)
theory Heap
  imports Sched
begin

text \<open>
  The heap of the user tasks (\<^verbatim>\<open>kernel/mm/mm.c\<close> with \<^verbatim>\<open>sys_malloc\<close> and \<^verbatim>\<open>sys_free\<close> of
  \<^verbatim>\<open>kernel/kernel.c\<close>) and the memory pools of \<^verbatim>\<open>sys_mpool_alloc\<close>. A block has a header of 12 bytes:
  the word \<^verbatim>\<open>block_info\<close> with a flag and the length of the block, and a list node. The
  blocks are known by their addresses; \<open>malloc_list\<close> is the list that links them, in the order of
  their creation, and \<open>block_info\<close> the words in memory. The bounds of the heap are symbols of
  the linker script, arguments here.

  The theorems: the areas that \<^verbatim>\<open>__malloc\<close> hands out never overlap as long as nothing is
  released; that the last bytes of a request whose size is no multiple of four lie outside its block; and that \<^verbatim>\<open>__free\<close> merges list neighbours that are not
  neighbours in memory.
\<close>

section \<open>mm.c\<close>

record hstate = kstate +
  malloc_list :: "u32 list"
  block_info :: "u32 \<Rightarrow> u32"

definition MALLOC_BLK_FREE_MASK :: u32 where "MALLOC_BLK_FREE_MASK = push_bit 30 1"
definition MALLOC_BLK_LEN_MASK :: u32 where "MALLOC_BLK_LEN_MASK = NOT (push_bit 30 1)"
definition MALLOC_HEADER :: u32 where "MALLOC_HEADER = 12"

definition malloc_block_is_free :: "u32 \<Rightarrow> 'a hstate_scheme \<Rightarrow> bool" where
  "malloc_block_is_free blk s \<longleftrightarrow> block_info s blk AND MALLOC_BLK_FREE_MASK \<noteq> 0"

definition malloc_set_block_free :: "u32 \<Rightarrow> bool \<Rightarrow> 'a hstate_scheme \<Rightarrow> 'a hstate_scheme" where
  "malloc_set_block_free blk fr s = s\<lparr>block_info := (block_info s)(blk :=
     if fr then block_info s blk OR MALLOC_BLK_FREE_MASK else block_info s blk AND MALLOC_BLK_LEN_MASK)\<rparr>"

definition malloc_get_block_length :: "u32 \<Rightarrow> 'a hstate_scheme \<Rightarrow> u32" where
  "malloc_get_block_length blk s = block_info s blk AND MALLOC_BLK_LEN_MASK"

definition malloc_set_block_length :: "u32 \<Rightarrow> u32 \<Rightarrow> 'a hstate_scheme \<Rightarrow> 'a hstate_scheme" where
  "malloc_set_block_length blk len s = s\<lparr>block_info := (block_info s)(blk :=
     (block_info s blk AND MALLOC_BLK_FREE_MASK) OR (len AND MALLOC_BLK_LEN_MASK))\<rparr>"

definition heap_get_total_size :: "u32 \<Rightarrow> u32 \<Rightarrow> u32" where
  "heap_get_total_size user_stack_start user_stack_end = user_stack_end - user_stack_start"

definition heap_get_free_size :: "'a hstate_scheme \<Rightarrow> u32" where
  "heap_get_free_size s = foldl (\<lambda>total_size blk.
     if malloc_block_is_free blk s then total_size + malloc_get_block_length blk s else total_size) 0 (malloc_list s)"

definition heap_init :: "u32 \<Rightarrow> u32 \<Rightarrow> 'a hstate_scheme \<Rightarrow> 'a hstate_scheme option" where
  "heap_init user_stack_start user_stack_end s =
     (let s1 = malloc_set_block_length user_stack_start (user_stack_end - user_stack_start)
                 (malloc_set_block_free user_stack_start True s) in
      if user_stack_start \<in> set (malloc_list s1) then None
      else Some (s1\<lparr>malloc_list := malloc_list s1 @ [user_stack_start]\<rparr>))"

definition malloc_alloc_size :: "u32 \<Rightarrow> u32" where
  "malloc_alloc_size sz = ALIGN (sz + MALLOC_HEADER) 4"

text \<open>The split of a free block: it shrinks, and its end becomes a new block.\<close>

definition malloc_split :: "u32 \<Rightarrow> u32 \<Rightarrow> 'a hstate_scheme \<Rightarrow> ('a hstate_scheme \<times> u32 option) option" where
  "malloc_split alloc_size blk s =
     (let s1 = malloc_set_block_length blk (malloc_get_block_length blk s - alloc_size) s;
          new_blk = blk + malloc_get_block_length blk s1;
          s2 = malloc_set_block_length new_blk alloc_size (malloc_set_block_free new_blk False s1) in
      if new_blk \<in> set (malloc_list s2) then None
      else Some (s2\<lparr>malloc_list := malloc_list s2 @ [new_blk]\<rparr>, Some (new_blk + MALLOC_HEADER)))"

text \<open>The loop of \<^verbatim>\<open>__malloc\<close> over the list.\<close>

primrec malloc_blocks :: "u32 \<Rightarrow> u32 list \<Rightarrow> 'a hstate_scheme \<Rightarrow> ('a hstate_scheme \<times> u32 option) option" where
  "malloc_blocks alloc_size [] s = Some (s, None)"
| "malloc_blocks alloc_size (blk # blks) s =
     (if malloc_block_is_free blk s then
        let blk_len = malloc_get_block_length blk s in
        if blk_len < alloc_size then malloc_blocks alloc_size blks s
        else if blk_len < alloc_size + MALLOC_HEADER
        then Some (malloc_set_block_free blk False s, Some (blk + MALLOC_HEADER))
        else malloc_split alloc_size blk s
      else malloc_blocks alloc_size blks s)"

definition malloc_body :: "u32 \<Rightarrow> 'a hstate_scheme \<Rightarrow> ('a hstate_scheme \<times> u32 option) option" where
  "malloc_body sz s = malloc_blocks (malloc_alloc_size sz) (malloc_list s) s"

text \<open>The neighbours of a block in the list; \<^const>\<open>None\<close> at its ends.\<close>

definition list_next_of :: "'n \<Rightarrow> 'n list \<Rightarrow> 'n option" where
  "list_next_of n xs = (case dropWhile (\<lambda>m. m \<noteq> n) xs of _ # y # _ \<Rightarrow> Some y | _ \<Rightarrow> None)"

definition list_prev_of :: "'n \<Rightarrow> 'n list \<Rightarrow> 'n option" where
  "list_prev_of n xs = list_next_of n (rev xs)"

definition free_merge_prev :: "u32 \<Rightarrow> 'a hstate_scheme \<Rightarrow> 'a hstate_scheme \<times> u32" where
  "free_merge_prev blk s =
     (case list_prev_of blk (malloc_list s) of
        None \<Rightarrow> (s, blk)
      | Some prev \<Rightarrow>
          if malloc_block_is_free prev s then
            let s1 = malloc_set_block_length prev (malloc_get_block_length prev s + malloc_get_block_length blk s) s in
            (s1\<lparr>malloc_list := filter (\<lambda>b. b \<noteq> blk) (malloc_list s1)\<rparr>, prev)
          else (s, blk))"

definition free_merge_next :: "u32 \<Rightarrow> 'a hstate_scheme \<Rightarrow> 'a hstate_scheme" where
  "free_merge_next blk s =
     (case list_next_of blk (malloc_list s) of
        None \<Rightarrow> s
      | Some next \<Rightarrow>
          if malloc_block_is_free next s then
            let s1 = malloc_set_block_length blk (malloc_get_block_length blk s + malloc_get_block_length next s) s in
            s1\<lparr>malloc_list := filter (\<lambda>b. b \<noteq> next) (malloc_list s1)\<rparr>
          else s)"

definition free_body :: "u32 \<Rightarrow> 'a hstate_scheme \<Rightarrow> 'a hstate_scheme option" where
  "free_body ptr s =
     (let blk = ptr - MALLOC_HEADER in
      if blk \<in> set (malloc_list s) then
        let (s1, b) = free_merge_prev blk (malloc_set_block_free blk True s) in Some (free_merge_next b s1)
      else None)"

definition sys_malloc :: "u32 \<Rightarrow> 'a hstate_scheme \<Rightarrow> ('a hstate_scheme \<times> u32 option) option" where
  "sys_malloc sz = critr (\<lambda>s. if sz = 0 then Some (s, None) else malloc_body sz s)"

definition sys_free :: "u32 \<Rightarrow> 'a hstate_scheme \<Rightarrow> 'a hstate_scheme option" where
  "sys_free ptr = crit (free_body ptr)"

section \<open>Memory pools\<close>

record mpool =
  mp_offset :: u32
  mp_size :: u32
  mp_mem :: u32

definition sys_mpool_alloc :: "mpool \<Rightarrow> u32 \<Rightarrow> 'a kstate_scheme \<Rightarrow> ('a kstate_scheme \<times> mpool \<times> u32 option) option" where
  "sys_mpool_alloc mpool sz = critr (\<lambda>s.
     let alloc_size = ALIGN sz 4 in
     if mp_offset mpool + alloc_size \<le> mp_size mpool
     then Some (s, mpool\<lparr>mp_offset := mp_offset mpool + alloc_size\<rparr>, Some (mp_mem mpool + mp_offset mpool))
     else Some (s, mpool, None))"

section \<open>The word of a block\<close>

lemma bit_FREE_MASK: "bit MALLOC_BLK_FREE_MASK n \<longleftrightarrow> n = 30"
  using bit_set_bit_w [of 30 0 n] by (simp add: MALLOC_BLK_FREE_MASK_def set_bit_w_def)

lemma bit_LEN_MASK: "bit MALLOC_BLK_LEN_MASK n \<longleftrightarrow> n < 32 \<and> n \<noteq> 30"
proof -
  have e: "MALLOC_BLK_LEN_MASK = NOT MALLOC_BLK_FREE_MASK" by (simp only: MALLOC_BLK_LEN_MASK_def MALLOC_BLK_FREE_MASK_def)
  show ?thesis unfolding e by (auto simp: bit_not_iff bit_FREE_MASK)
qed

lemma small_no_bit30: "unat (w :: u32) < 2 ^ 30 \<Longrightarrow> \<not> bit w 30"
proof -
  assume "unat w < 2 ^ 30"
  then have "unat w div 2 ^ 30 = 0" by simp
  then have "\<not> bit (unat w) 30" by (simp only: bit_iff_odd) simp
  then show ?thesis by (simp add: bit_unsigned_iff)
qed

lemma LEN_MASK_id: "unat (w :: u32) < 2 ^ 30 \<Longrightarrow> w AND MALLOC_BLK_LEN_MASK = w"
  using small_no_bit30 [of w] by (intro bit_word_eqI) (auto simp: bit_and_iff bit_LEN_MASK)

lemma block_free_simps [simp]:
  "malloc_block_is_free b (malloc_set_block_free a fr s) \<longleftrightarrow> (if b = a then fr else malloc_block_is_free b s)"
  "malloc_block_is_free b (malloc_set_block_length a len s) \<longleftrightarrow> malloc_block_is_free b s"
  "malloc_get_block_length b (malloc_set_block_free a fr s) = malloc_get_block_length b s"
  "malloc_get_block_length b (malloc_set_block_length a len s)
     = (if b = a then len AND MALLOC_BLK_LEN_MASK else malloc_get_block_length b s)"
  "malloc_list (malloc_set_block_free a fr s) = malloc_list s"
  "malloc_list (malloc_set_block_length a len s) = malloc_list s"
  "malloc_block_is_free b (s\<lparr>malloc_list := L\<rparr>) \<longleftrightarrow> malloc_block_is_free b s"
  "malloc_get_block_length b (s\<lparr>malloc_list := L\<rparr>) = malloc_get_block_length b s"
proof -
  have eq: "x AND MALLOC_BLK_FREE_MASK \<noteq> 0 \<longleftrightarrow> bit x 30" for x :: u32
    using bit_eq_iff [of "x AND MALLOC_BLK_FREE_MASK" 0] by (auto simp: bit_and_iff bit_FREE_MASK)
  show "malloc_block_is_free b (malloc_set_block_free a fr s) \<longleftrightarrow> (if b = a then fr else malloc_block_is_free b s)"
    "malloc_block_is_free b (malloc_set_block_length a len s) \<longleftrightarrow> malloc_block_is_free b s"
    unfolding malloc_block_is_free_def eq malloc_set_block_free_def malloc_set_block_length_def
    by (auto simp: bit_and_iff bit_or_iff bit_FREE_MASK bit_LEN_MASK)
  show "malloc_get_block_length b (malloc_set_block_free a fr s) = malloc_get_block_length b s"
    "malloc_get_block_length b (malloc_set_block_length a len s)
     = (if b = a then len AND MALLOC_BLK_LEN_MASK else malloc_get_block_length b s)"
    unfolding malloc_get_block_length_def malloc_set_block_free_def malloc_set_block_length_def
    by (auto intro!: bit_word_eqI simp: bit_and_iff bit_or_iff bit_FREE_MASK bit_LEN_MASK)
qed (simp_all add: malloc_set_block_free_def malloc_set_block_length_def malloc_block_is_free_def malloc_get_block_length_def)

section \<open>Blocks as address ranges\<close>

definition blk_len :: "'a hstate_scheme \<Rightarrow> u32 \<Rightarrow> nat" where
  "blk_len s b = unat (malloc_get_block_length b s)"

definition blk_range :: "'a hstate_scheme \<Rightarrow> u32 \<Rightarrow> nat set" where
  "blk_range s b = {unat b ..< unat b + blk_len s b}"

definition in_use :: "'a hstate_scheme \<Rightarrow> u32 set" where
  "in_use s = {b \<in> set (malloc_list s). \<not> malloc_block_is_free b s}"

definition heap_wf :: "u32 \<Rightarrow> u32 \<Rightarrow> 'a hstate_scheme \<Rightarrow> bool" where
  "heap_wf st en s \<longleftrightarrow> unat en - unat st < 2 ^ 30 \<and> distinct (malloc_list s)
     \<and> (\<forall>b \<in> set (malloc_list s). 0 < blk_len s b \<and> blk_range s b \<subseteq> {unat st ..< unat en})
     \<and> (\<forall>a \<in> set (malloc_list s). \<forall>b \<in> set (malloc_list s). a \<noteq> b \<longrightarrow> blk_range s a \<inter> blk_range s b = {})"

lemma heap_wf_small:
  assumes "heap_wf st en s" and "b \<in> set (malloc_list s)"
  shows "blk_len s b < 2 ^ 30" and "unat b + blk_len s b < 2 ^ 32"
proof -
  have r: "0 < blk_len s b" "blk_range s b \<subseteq> {unat st ..< unat en}" "unat en - unat st < 2 ^ 30"
    using assms by (auto simp: heap_wf_def)
  then have "unat b \<in> {unat st ..< unat en}" "unat b + blk_len s b - 1 \<in> {unat st ..< unat en}"
    unfolding blk_range_def by (auto intro!: subsetD [OF r(2) [unfolded blk_range_def]])
  then show "blk_len s b < 2 ^ 30" "unat b + blk_len s b < 2 ^ 32" using r(1,3) unsigned_less [of en, where ?'a = nat] by auto
qed

lemma unat_add_header: "unat b + 12 < 2 ^ 32 \<Longrightarrow> unat (b + MALLOC_HEADER) = unat b + 12"
  by (simp add: MALLOC_HEADER_def unat_word_ariths(1))

lemma alloc_size_bounds:
  assumes "unat sz + 12 < 2 ^ 32"
  shows "unat (malloc_alloc_size sz) = 12 + 4 * (unat sz div 4)"
proof -
  have "unat (sz + 12) = unat sz + 12" using assms by (simp add: unat_word_ariths(1))
  moreover have "(unat sz + 12) - (unat sz + 12) mod 4 = 12 + 4 * (unat sz div 4)" by presburger
  ultimately show ?thesis using unat_AND_NOT_mask [of "sz + 12" 2]
    by (simp add: malloc_alloc_size_def ALIGN_def ALIGN_MASK_def MALLOC_HEADER_def mask_eq_exp_minus_1)
qed

section \<open>Allocation\<close>

text \<open>What a completed allocation does: the block returned was a free block or its end, and the blocks
  in use stay as they are.\<close>

definition malloc_took :: "u32 \<Rightarrow> u32 \<Rightarrow> nat \<Rightarrow> 'a hstate_scheme \<Rightarrow> 'a hstate_scheme \<Rightarrow> u32 \<Rightarrow> bool" where
  "malloc_took st en n s s' b \<longleftrightarrow> heap_wf st en s' \<and> b \<notin> in_use s \<and> in_use s' = insert b (in_use s)
     \<and> n \<le> blk_len s' b \<and> (\<forall>a \<in> in_use s. blk_len s' a = blk_len s a)"

lemma malloc_whole:
  assumes wf: "heap_wf st en s" and b: "b \<in> set (malloc_list s)" "malloc_block_is_free b s" and n: "n \<le> blk_len s b"
  shows "malloc_took st en n s (malloc_set_block_free b False s) b"
proof -
  let ?s = "malloc_set_block_free b False s"
  have l: "blk_len ?s = blk_len s" "blk_range ?s = blk_range s" by (auto simp: fun_eq_iff blk_len_def blk_range_def)
  have "heap_wf st en ?s" using wf unfolding heap_wf_def l by simp
  moreover have "in_use ?s = insert b (in_use s)" using b by (auto simp: in_use_def)
  ultimately show ?thesis using b n by (auto simp: malloc_took_def l in_use_def)
qed

lemma malloc_split_spec:
  fixes s :: "'a hstate_scheme"
  assumes wf: "heap_wf st en s" and b: "b \<in> set (malloc_list s)" "malloc_block_is_free b s"
    and n: "unat al + 12 \<le> blk_len s b" "0 < unat al"
  shows "\<exists>s'. malloc_split al b s = Some (s', Some (b + word_of_nat (blk_len s b - unat al) + MALLOC_HEADER))
     \<and> malloc_took st en (unat al) s s' (b + word_of_nat (blk_len s b - unat al))"
proof -
  define L where "L = blk_len s b"
  define new where "new = b + word_of_nat (L - unat al)"
  note sm = heap_wf_small [OF wf b(1), folded L_def]
  have al: "unat al \<le> L" "0 < L - unat al" using n by (auto simp: L_def)
  have len1: "malloc_get_block_length b s - al = word_of_nat (L - unat al)"
  proof -
    have "unat (malloc_get_block_length b s - al) = L - unat al"
      using al unat_sub [of al "malloc_get_block_length b s"] by (simp add: L_def blk_len_def word_le_nat_alt)
    then show ?thesis by (metis of_nat_unat ucast_id)
  qed
  have u1: "unat (word_of_nat (L - unat al) :: u32) = L - unat al" using sm(1) by (simp only: unat_of_nat) simp
  have m1: "(word_of_nat (L - unat al) :: u32) AND MALLOC_BLK_LEN_MASK = word_of_nat (L - unat al)"
    using sm(1) u1 by (intro LEN_MASK_id) simp
  have m2: "al AND MALLOC_BLK_LEN_MASK = al" using sm(1) al by (intro LEN_MASK_id) simp
  have un: "unat new = unat b + (L - unat al)"
    using sm(2) u1 unat_word_ariths(1) [of b "word_of_nat (L - unat al)"] by (simp add: new_def)
  have nb: "new \<noteq> b" using un al by auto
  have inb: "unat new \<in> blk_range s b" using un al n by (auto simp: blk_range_def L_def)
  have fresh: "new \<notin> set (malloc_list s)"
  proof
    assume m: "new \<in> set (malloc_list s)"
    then have "blk_range s new \<inter> blk_range s b = {}" "0 < blk_len s new" using wf b nb by (auto simp: heap_wf_def)
    then show False using inb by (auto simp: blk_range_def)
  qed
  define s2 where "s2 = malloc_set_block_length new al (malloc_set_block_free new False
      (malloc_set_block_length b (word_of_nat (L - unat al)) s))"
  define s' where "s' = s2\<lparr>malloc_list := malloc_list s @ [new]\<rparr>"
  have sp: "malloc_split al b s = Some (s', Some (new + MALLOC_HEADER))"
    using fresh len1 m1 by (simp add: malloc_split_def Let_def s'_def s2_def new_def)
  have lens: "blk_len s' x = (if x = new then unat al else if x = b then L - unat al else blk_len s x)" for x
    using nb m1 m2 u1 by (auto simp: blk_len_def s'_def s2_def)
  have fr: "malloc_block_is_free x s' \<longleftrightarrow> (if x = new then False else malloc_block_is_free x s)" for x
    by (simp add: s'_def s2_def)
  have lst: "malloc_list s' = malloc_list s @ [new]" by (simp add: s'_def)
  have rb: "blk_range s' b = {unat b ..< unat new}" "blk_range s' new = {unat new ..< unat b + L}"
    using nb un al by (auto simp: blk_range_def lens)
  have sub: "blk_range s' b \<union> blk_range s' new \<subseteq> blk_range s b" "blk_range s' b \<inter> blk_range s' new = {}"
    unfolding rb using un al by (auto simp: blk_range_def L_def)
  have oth: "blk_range s' x = blk_range s x" if "x \<noteq> b" "x \<noteq> new" for x using that by (simp add: blk_range_def lens)
  have "heap_wf st en s'"
    unfolding heap_wf_def lst
  proof (intro conjI ballI impI)
    show "unat en - unat st < 2 ^ 30" "distinct (malloc_list s @ [new])" using wf fresh by (auto simp: heap_wf_def)
    show "0 < blk_len s' x" "blk_range s' x \<subseteq> {unat st ..< unat en}" if "x \<in> set (malloc_list s @ [new])" for x
      using that wf b n(2) al sub(1) oth [of x] unfolding heap_wf_def lens by (cases "x = new"; cases "x = b"; force)+
    fix x y assume xy: "x \<in> set (malloc_list s @ [new])" "y \<in> set (malloc_list s @ [new])" "x \<noteq> y"
    have dj: "blk_range s u \<inter> blk_range s v = {}" if "u \<in> set (malloc_list s)" "v \<in> set (malloc_list s)" "u \<noteq> v" for u v
      using that wf by (auto simp: heap_wf_def)
    show "blk_range s' x \<inter> blk_range s' y = {}"
      using xy b(1) sub oth [of x] oth [of y] dj [of x b] dj [of y b] dj [of x y]
      by (cases "x \<in> {b, new}"; cases "y \<in> {b, new}") (auto simp: Int_commute)
  qed
  moreover have "in_use s' = insert new (in_use s)" using fresh by (auto simp: in_use_def lst fr)
  moreover have "new \<notin> in_use s" "\<forall>a \<in> in_use s. blk_len s' a = blk_len s a" using fresh b by (auto simp: in_use_def lens)
  ultimately have "malloc_took st en (unat al) s s' new" by (simp add: malloc_took_def lens)
  then show ?thesis using sp by (simp add: new_def L_def)
qed

lemma malloc_blocks_spec:
  fixes s :: "'a hstate_scheme"
  assumes wf: "heap_wf st en s" and "set bs \<subseteq> set (malloc_list s)" and al: "0 < unat al"
  shows "(\<forall>b \<in> set bs. malloc_block_is_free b s \<longrightarrow> blk_len s b < unat al) \<and> malloc_blocks al bs s = Some (s, None)
     \<or> (\<exists>s' b. malloc_blocks al bs s = Some (s', Some (b + MALLOC_HEADER)) \<and> malloc_took st en (unat al) s s' b)"
  using assms(2)
proof (induction bs)
  case (Cons b bs)
  then have b: "b \<in> set (malloc_list s)" by simp
  let ?l = "malloc_get_block_length b s"
  have "unat (al + MALLOC_HEADER) = unat al + 12" if "unat al \<le> blk_len s b"
    using that heap_wf_small(1) [OF wf b] by (simp add: MALLOC_HEADER_def unat_word_ariths(1))
  then have cmp: "?l < al \<longleftrightarrow> blk_len s b < unat al" "unat al \<le> blk_len s b \<Longrightarrow> ?l < al + MALLOC_HEADER \<longleftrightarrow> blk_len s b < unat al + 12"
    by (simp_all add: blk_len_def word_less_nat_alt)
  consider (no) "\<not> malloc_block_is_free b s \<or> blk_len s b < unat al"
    | (whole) "malloc_block_is_free b s" "unat al \<le> blk_len s b" "blk_len s b < unat al + 12"
    | (split) "malloc_block_is_free b s" "unat al + 12 \<le> blk_len s b" by linarith
  then show ?case
  proof cases
    case no
    then have "malloc_blocks al (b # bs) s = malloc_blocks al bs s" using cmp by (auto simp: Let_def)
    then show ?thesis using no Cons by auto
  next
    case whole
    then have "malloc_blocks al (b # bs) s = Some (malloc_set_block_free b False s, Some (b + MALLOC_HEADER))"
      using cmp by (simp add: Let_def)
    with malloc_whole [OF wf b whole(1,2)] show ?thesis by blast
  next
    case split
    then have "malloc_blocks al (b # bs) s = malloc_split al b s" using cmp by (auto simp: Let_def)
    with malloc_split_spec [OF wf b split al] show ?thesis by auto
  qed
qed simp

lemma heap_wf_preempt [simp]:
  "heap_wf st en (preempt_disable s) = heap_wf st en s" "heap_wf st en (preempt_enable s) = heap_wf st en s"
  "in_use (preempt_disable s) = in_use s" "in_use (preempt_enable s) = in_use s"
  "blk_len (preempt_disable s) = blk_len s" "blk_len (preempt_enable s) = blk_len s"
  "malloc_list (preempt_disable s) = malloc_list s" "malloc_list (preempt_enable s) = malloc_list s"
  "malloc_block_is_free b (preempt_disable s) = malloc_block_is_free b s"
proof -
  have f: "malloc_list (preempt_disable s) = malloc_list s" "malloc_list (preempt_enable s) = malloc_list s"
    "block_info (preempt_disable s) = block_info s" "block_info (preempt_enable s) = block_info s"
    by (simp_all add: preempt_disable_def preempt_enable_def preempt_count_inc_def preempt_count_dec_def Let_def)
  show "malloc_list (preempt_disable s) = malloc_list s" "malloc_list (preempt_enable s) = malloc_list s" by (rule f)+
  show "heap_wf st en (preempt_disable s) = heap_wf st en s" "heap_wf st en (preempt_enable s) = heap_wf st en s"
    "in_use (preempt_disable s) = in_use s" "in_use (preempt_enable s) = in_use s"
    "blk_len (preempt_disable s) = blk_len s" "blk_len (preempt_enable s) = blk_len s"
    "malloc_block_is_free b (preempt_disable s) = malloc_block_is_free b s"
    by (simp_all add: heap_wf_def in_use_def blk_range_def blk_len_def malloc_get_block_length_def
        malloc_block_is_free_def f fun_eq_iff)
qed

lemma sys_malloc_spec:
  fixes s :: "'a hstate_scheme"
  assumes wf: "heap_wf st en s" and sz: "unat sz + 12 < 2 ^ 32" "sz \<noteq> 0"
  shows "\<exists>s' r. sys_malloc sz s = Some (s', r) \<and> heap_wf st en s'
     \<and> (case r of
          None \<Rightarrow> in_use s' = in_use s \<and> (\<forall>b \<in> set (malloc_list s). malloc_block_is_free b s \<longrightarrow> blk_len s b < 12 + 4 * (unat sz div 4))
        | Some p \<Rightarrow> malloc_took st en (12 + 4 * (unat sz div 4)) s s' (p - MALLOC_HEADER))"
proof -
  have al: "unat (malloc_alloc_size sz) = 12 + 4 * (unat sz div 4)" using sz by (intro alloc_size_bounds) simp
  have b: "0 < unat (malloc_alloc_size sz)" using al by linarith
  let ?s = "preempt_disable s"
  have m: "sys_malloc sz s = map_option (\<lambda>(s', r). (preempt_enable s', r))
      (malloc_blocks (malloc_alloc_size sz) (malloc_list s) ?s)"
    using sz(2) by (simp add: sys_malloc_def critr_def malloc_body_def)
  from malloc_blocks_spec [of st en ?s "malloc_list s" "malloc_alloc_size sz"] wf b show ?thesis
    unfolding m al by (auto simp: malloc_took_def)
qed

lemma heap_init_wf:
  assumes "unat st < unat en" and "unat en - unat st < 2 ^ 30" and "malloc_list s0 = []" and "heap_init st en s0 = Some s"
  shows "heap_wf st en s" and "in_use s = {}"
proof -
  have u: "unat (en - st) = unat en - unat st" using assms(1) by (intro unat_sub) (simp add: word_le_nat_alt)
  then have m: "(en - st) AND MALLOC_BLK_LEN_MASK = en - st" using assms(2) by (intro LEN_MASK_id) simp
  have s: "s = (malloc_set_block_length st (en - st) (malloc_set_block_free st True s0))\<lparr>malloc_list := [st]\<rparr>"
    using assms(3,4) by (simp add: heap_init_def Let_def)
  have "malloc_list s = [st]" "malloc_block_is_free st s" "blk_len s st = unat en - unat st"
    unfolding s by (simp_all add: blk_len_def m u)
  then show "heap_wf st en s" "in_use s = {}" using assms(1,2) by (auto simp: heap_wf_def in_use_def blk_range_def)
qed

text \<open>Runs of allocations, with the pointers handed out and the sizes asked for. The sum of the size and the header
  must not wrap around, which excludes the twelve largest sizes.\<close>

inductive heap_run :: "u32 \<Rightarrow> u32 \<Rightarrow> 'a hstate_scheme \<Rightarrow> (u32 \<times> u32) list \<Rightarrow> bool" for st en :: u32 where
  heap_start: "malloc_list s0 = [] \<Longrightarrow> heap_init st en s0 = Some s \<Longrightarrow> heap_run st en s []"
| heap_malloc: "heap_run st en s live \<Longrightarrow> unat sz + 12 < 2 ^ 32 \<Longrightarrow> sz \<noteq> 0 \<Longrightarrow> sys_malloc sz s = Some (s', Some p) \<Longrightarrow>
     heap_run st en s' ((p, sz) # live)"
| heap_malloc_fails: "heap_run st en s live \<Longrightarrow> unat sz + 12 < 2 ^ 32 \<Longrightarrow> sz \<noteq> 0 \<Longrightarrow> sys_malloc sz s = Some (s', None) \<Longrightarrow>
     heap_run st en s' live"

text \<open>The bytes that a caller asked for.\<close>

definition request_area :: "u32 \<times> u32 \<Rightarrow> nat set" where
  "request_area x = {unat (fst x) ..< unat (fst x) + unat (snd x)}"

lemma heap_run_inv:
  assumes "heap_run st en s live" and "unat st < unat en" and "unat en - unat st < 2 ^ 30"
  shows "heap_wf st en s \<and> distinct (map fst live)
     \<and> (\<forall>x \<in> set live. fst x - MALLOC_HEADER \<in> in_use s \<and> 12 + 4 * (unat (snd x) div 4) \<le> blk_len s (fst x - MALLOC_HEADER))"
  using assms
proof (induction rule: heap_run.induct)
  case (heap_start s0 s)
  then show ?case using heap_init_wf [of st en s0 s] by simp
next
  case (heap_malloc s live sz s' p)
  then have wf: "heap_wf st en s" and d: "distinct (map fst live)"
    and l: "\<And>x. x \<in> set live \<Longrightarrow> fst x - MALLOC_HEADER \<in> in_use s
        \<and> 12 + 4 * (unat (snd x) div 4) \<le> blk_len s (fst x - MALLOC_HEADER)" by auto
  from sys_malloc_spec [OF wf heap_malloc.hyps(2,3)] heap_malloc.hyps(4)
  have t: "malloc_took st en (12 + 4 * (unat sz div 4)) s s' (p - MALLOC_HEADER)" by auto
  then have "p \<notin> set (map fst live)" using l by (auto simp: malloc_took_def)
  then show ?case using t d l by (auto simp: malloc_took_def)
next
  case (heap_malloc_fails s live sz s')
  then have wf: "heap_wf st en s" by simp
  from sys_malloc_spec [OF wf heap_malloc_fails.hyps(2,3)] heap_malloc_fails.hyps(4)
  have "heap_wf st en s'" "in_use s' = in_use s" by auto
  moreover have "blk_len s' = blk_len s"
  proof -
    have "malloc_blocks al bs t = Some (t', None) \<Longrightarrow> t' = t" for al bs and t t' :: "'a hstate_scheme"
      by (induction bs) (auto simp: Let_def malloc_split_def split: if_splits)
    then show ?thesis using heap_malloc_fails.hyps(3,4) by (fastforce simp: sys_malloc_def critr_def malloc_body_def)
  qed
  ultimately show ?case using heap_malloc_fails by auto
qed

section \<open>Properties\<close>

lemma sys_malloc_fits:
  fixes s :: "'a hstate_scheme"
  assumes "heap_wf st en s" and "unat sz + 12 < 2 ^ 32" and "sz \<noteq> 0" and b: "b \<in> set (malloc_list s)" "malloc_block_is_free b s"
    and "unat sz + 12 \<le> blk_len s b"
  shows "\<exists>s' p. sys_malloc sz s = Some (s', Some p)"
proof -
  obtain s' r where r: "sys_malloc sz s = Some (s', r)"
    "r = None \<longrightarrow> (\<forall>b \<in> set (malloc_list s). malloc_block_is_free b s \<longrightarrow> blk_len s b < 12 + 4 * (unat sz div 4))"
    using sys_malloc_spec [OF assms(1-3)] by (auto split: option.splits)
  have "4 * (unat sz div 4) \<le> unat sz" by simp
  then have "\<not> blk_len s b < 12 + 4 * (unat sz div 4)" using assms(6) by linarith
  then have "r \<noteq> None" using r(2) b by blast
  then show ?thesis using r(1) by blast
qed


definition demo_hstate :: "u32 list \<Rightarrow> (u32 \<Rightarrow> u32) \<Rightarrow> hstate" where
  "demo_hstate L info = kstate.extend demo_state \<lparr>malloc_list = L, block_info = info\<rparr>"

lemma demo_hstate_sel: "malloc_list (demo_hstate L info) = L" "block_info (demo_hstate L info) = info"
  by (simp_all add: demo_hstate_def kstate.defs)


text \<open>
  The two limits of the property above, in a heap of 1024 bytes. Of two requests for 6 bytes the second one reaches into the header of the
  block of the first one. The largest sizes wrap around: a request for \<open>2 ^ 32 - 12\<close> bytes succeeds, with the address
  twelve bytes past the end of the heap.\<close>

definition demo_malloc :: "u32 list \<Rightarrow> (hstate \<times> u32 option) option" where
  "demo_malloc szs = foldl (\<lambda>r sz. r \<bind> (\<lambda>(s, _). sys_malloc sz s))
     (map_option (\<lambda>s. (s, None)) (heap_init 0x1000 0x1400 (demo_hstate [] (\<lambda>_. 0)))) szs"

theorem heap_request_overruns:
  "map_option snd (demo_malloc [6]) = Some (Some 0x13FC) \<and> map_option snd (demo_malloc [6, 6]) = Some (Some 0x13EC)
     \<and> unat (0x13FC - MALLOC_HEADER) \<in> request_area (0x13EC, 6)
     \<and> map_option snd (demo_malloc [0xFFFFFFF4]) = Some (Some 0x140C)"
proof (intro conjI)
  show "map_option snd (demo_malloc [6]) = Some (Some 0x13FC)" by code_simp
  show "map_option snd (demo_malloc [6, 6]) = Some (Some 0x13EC)" by code_simp
  show "map_option snd (demo_malloc [0xFFFFFFF4]) = Some (Some 0x140C)" by code_simp
qed (simp add: request_area_def MALLOC_HEADER_def)

lemma list_next_of_Some:
  assumes "list_next_of n xs = Some y" and "distinct xs"
  shows "y \<in> set xs" and "y \<noteq> n"
proof -
  from assms(1) obtain x zs where d: "dropWhile (\<lambda>m. m \<noteq> n) xs = x # y # zs"
    by (auto simp: list_next_of_def split: list.splits)
  then have "x = n" using hd_dropWhile [of "\<lambda>m. m \<noteq> n" xs] by simp
  have xs: "xs = takeWhile (\<lambda>m. m \<noteq> n) xs @ x # y # zs" using d takeWhile_dropWhile_id [of "\<lambda>m. m \<noteq> n" xs] by simp
  then show "y \<in> set xs" by (metis in_set_conv_decomp append_Cons list.set_intros(1,2) Un_iff set_append)
  have "distinct (takeWhile (\<lambda>m. m \<noteq> n) xs @ x # y # zs)" using assms(2) xs by simp
  with \<open>x = n\<close> show "y \<noteq> n" by auto
qed

lemma free_merge_next_keeps:
  fixes s :: "'a hstate_scheme"
  assumes d: "distinct (malloc_list s)" and a: "a \<in> set (malloc_list s)" "malloc_block_is_free a s"
    and c: "c \<in> in_use s" "unat c \<in> blk_range s a"
    and room: "\<And>x. x \<in> set (malloc_list s) \<Longrightarrow> x \<noteq> a \<Longrightarrow> blk_len s a + blk_len s x < 2 ^ 30"
  shows "a \<in> set (malloc_list (free_merge_next a s)) \<and> malloc_block_is_free a (free_merge_next a s)
     \<and> c \<in> in_use (free_merge_next a s) \<and> unat c \<in> blk_range (free_merge_next a s) a"
proof (cases "list_next_of a (malloc_list s)")
  case None
  then show ?thesis using a c by (simp add: free_merge_next_def)
next
  case (Some nx)
  note nx = list_next_of_Some [OF Some d]
  show ?thesis
  proof (cases "malloc_block_is_free nx s")
    case True
    define w where "w = malloc_get_block_length a s + malloc_get_block_length nx s"
    have w: "unat w = blk_len s a + blk_len s nx" "w AND MALLOC_BLK_LEN_MASK = w"
      using room [OF nx] by (auto simp: w_def blk_len_def unat_word_ariths(1) intro!: LEN_MASK_id)
    let ?s = "(malloc_set_block_length a w s)\<lparr>malloc_list := filter (\<lambda>x. x \<noteq> nx) (malloc_list s)\<rparr>"
    have e: "free_merge_next a s = ?s" using Some True by (simp add: free_merge_next_def w_def Let_def)
    have "blk_len ?s a = blk_len s a + blk_len s nx" using w by (simp add: blk_len_def)
    moreover have "c \<noteq> nx" using c(1) True by (auto simp: in_use_def)
    ultimately show ?thesis unfolding e using a c nx by (auto simp: in_use_def blk_range_def)
  next
    case False
    then show ?thesis using Some a c by (simp add: free_merge_next_def)
  qed
qed

text \<open>
  \<open>__free\<close> merges a block with its neighbours in the list, which is in order of creation and not in
  order of addresses. If the list predecessor of a released block is free and is followed in
  memory by a block in use, then after the release the free predecessor covers the start of
  that block, and the next allocation can hand out memory that is in use.\<close>

theorem heap_free_covers_live_block:
  assumes wf: "heap_wf st en s" and ptr: "b = ptr - MALLOC_HEADER" "b \<in> in_use s"
    and prev: "list_prev_of b (malloc_list s) = Some a" "a \<in> set (malloc_list s)" "malloc_block_is_free a s"
    and c: "c \<in> in_use s" "c \<noteq> b" "unat c = unat a + blk_len s a"
  shows "\<exists>s'. free_body ptr s = Some s' \<and> a \<in> set (malloc_list s') \<and> malloc_block_is_free a s'
     \<and> c \<in> in_use s' \<and> unat c \<in> blk_range s' a"
proof -
  have bl: "b \<in> set (malloc_list s)" "c \<in> set (malloc_list s)" "\<not> malloc_block_is_free b s" "\<not> malloc_block_is_free c s"
    using ptr(2) c(1) by (auto simp: in_use_def)
  have ne: "a \<noteq> b" "a \<noteq> c" using prev(3) bl by auto
  have room: "blk_len s a + blk_len s b < 2 ^ 30"
  proof -
    have "blk_range s a \<union> blk_range s b \<subseteq> {unat st ..< unat en}" "blk_range s a \<inter> blk_range s b = {}"
      using wf prev(2) bl(1) ne(1) by (auto simp: heap_wf_def)
    then have "card (blk_range s a) + card (blk_range s b) \<le> unat en - unat st"
      using card_mono [of "{unat st ..< unat en}" "blk_range s a \<union> blk_range s b"]
        card_Un_disjoint [of "blk_range s a" "blk_range s b"] by (simp add: blk_range_def)
    then show ?thesis using wf by (simp add: heap_wf_def blk_range_def)
  qed
  define s0 where "s0 = malloc_set_block_free b True s"
  define w where "w = malloc_get_block_length a s + malloc_get_block_length b s"
  have w: "unat w = blk_len s a + blk_len s b" "w AND MALLOC_BLK_LEN_MASK = w"
    using room by (auto simp: w_def blk_len_def unat_word_ariths(1) intro!: LEN_MASK_id)
  define s1 where "s1 = (malloc_set_block_length a w s0)\<lparr>malloc_list := filter (\<lambda>x. x \<noteq> b) (malloc_list s)\<rparr>"
  have m: "free_merge_prev b s0 = (s1, a)"
    using prev ne by (simp add: free_merge_prev_def s0_def s1_def w_def Let_def)
  have s1: "malloc_block_is_free x s1 \<longleftrightarrow> x = b \<or> malloc_block_is_free x s"
    "blk_len s1 x = (if x = a then blk_len s a + blk_len s b else blk_len s x)"
    "malloc_list s1 = filter (\<lambda>x. x \<noteq> b) (malloc_list s)" for x
    using w by (auto simp: s1_def s0_def blk_len_def)
  have "free_body ptr s = Some (free_merge_next a s1)"
    using m bl(1) ptr(1) by (simp add: free_body_def Let_def s0_def)
  moreover have nx: "a \<in> set (malloc_list (free_merge_next a s1)) \<and> malloc_block_is_free a (free_merge_next a s1)
     \<and> c \<in> in_use (free_merge_next a s1) \<and> unat c \<in> blk_range (free_merge_next a s1) a"
  proof (rule free_merge_next_keeps)
    show "distinct (malloc_list s1)" using wf s1(3) by (simp add: heap_wf_def)
    show "a \<in> set (malloc_list s1)" "malloc_block_is_free a s1" using prev ne s1 by auto
    show "c \<in> in_use s1" using bl c ne s1 by (auto simp: in_use_def)
    show "unat c \<in> blk_range s1 a" using c(3) s1(2) [of a] wf bl(1) by (auto simp: blk_range_def heap_wf_def)
    fix x assume "x \<in> set (malloc_list s1)" "x \<noteq> a"
    then have x: "x \<in> set (malloc_list s)" "x \<noteq> a" "x \<noteq> b" using s1(3) by auto
    have fin: "finite (blk_range s y)" for y by (simp add: blk_range_def)
    have sub: "blk_range s a \<union> blk_range s b \<union> blk_range s x \<subseteq> {unat st ..< unat en}"
      and dj: "blk_range s a \<inter> blk_range s b = {}" "(blk_range s a \<union> blk_range s b) \<inter> blk_range s x = {}"
      using wf prev(2) bl(1) ne(1) x unfolding heap_wf_def by blast+
    have "card (blk_range s a) + card (blk_range s b) + card (blk_range s x) \<le> unat en - unat st"
      using card_mono [OF _ sub] card_Un_disjoint [OF _ fin dj(2)] card_Un_disjoint [OF fin fin dj(1)] fin by simp
    then show "blk_len s1 a + blk_len s1 x < 2 ^ 30" using wf x s1(2) by (simp add: heap_wf_def blk_range_def)
  qed
  ultimately show ?thesis by blast
qed

text \<open>The witness: a heap of 1024 bytes after two allocations of 100 bytes; the block allocated first, at
  the end of the heap, follows the free block in the list, the other one follows it in memory.\<close>

definition demo_heap2 :: hstate where
  "demo_heap2 = demo_hstate [0x1000, 0x1390, 0x1320]
     (\<lambda>x. if x = 0x1000 then MALLOC_BLK_FREE_MASK OR 800 else 112)"

lemma demo_heap2_sel:
  "malloc_list demo_heap2 = [0x1000, 0x1390, 0x1320]"
  "malloc_block_is_free x demo_heap2 \<longleftrightarrow> x = 0x1000" "blk_len demo_heap2 x = (if x = 0x1000 then 800 else 112)"
proof -
  have l: "(112 :: u32) AND MALLOC_BLK_LEN_MASK = 112" "(800 :: u32) AND MALLOC_BLK_LEN_MASK = 800" by (rule LEN_MASK_id; simp)+
  have m: "MALLOC_BLK_FREE_MASK = 0x40000000" "MALLOC_BLK_LEN_MASK = 0xBFFFFFFF"
    by (simp_all add: MALLOC_BLK_FREE_MASK_def MALLOC_BLK_LEN_MASK_def)
  show "malloc_list demo_heap2 = [0x1000, 0x1390, 0x1320]"
    "malloc_block_is_free x demo_heap2 \<longleftrightarrow> x = 0x1000" "blk_len demo_heap2 x = (if x = 0x1000 then 800 else 112)"
    by (simp_all add: demo_heap2_def demo_hstate_sel malloc_block_is_free_def blk_len_def malloc_get_block_length_def m)
qed

theorem heap_free_covers_live_block_witness:
  "\<exists>s'. free_body 0x139C demo_heap2 = Some s' \<and> 0x1000 \<in> set (malloc_list s') \<and> malloc_block_is_free 0x1000 s'
     \<and> 0x1320 \<in> in_use s' \<and> unat (0x1320 :: u32) \<in> blk_range s' 0x1000"
proof (rule heap_free_covers_live_block)
  show "heap_wf 0x1000 0x1400 demo_heap2" by (auto simp: heap_wf_def demo_heap2_sel blk_range_def)
  show "list_prev_of 0x1390 (malloc_list demo_heap2) = Some 0x1000"
    by (simp add: demo_heap2_sel list_prev_of_def list_next_of_def)
qed (simp_all add: demo_heap2_sel in_use_def MALLOC_HEADER_def)

end
