(* ===== verification/Mqueue.thy ===== *)
theory Mqueue
  imports Slab
begin

text \<open>
  POSIX message queues (\<^verbatim>\<open>kernel/mqueue.c\<close>, the \<^verbatim>\<open>sys_mq_*\<close> system calls of \<^verbatim>\<open>kernel/kernel.c\<close>).
  A queue is known by its address, which \<^verbatim>\<open>kmalloc\<close> returned, and its wait lists by the address of
  their heads inside it. The elements of its buffer are known by their addresses; each is on the
  free list or on the used list of a priority. \<open>mq_data\<close> holds the \<^verbatim>\<open>size\<close> bytes of an element.
  \<open>mq_element_size\<close> is the size \<^verbatim>\<open>__mq_allocate\<close> computed; the structure does not store it, and the
  model only uses it to tell whether a \<^verbatim>\<open>memcpy\<close> stays inside its element.

  A system call that blocks is modelled as its rounds, as in \<^verbatim>\<open>Semaphore\<close>: \<open>enter\<close> is the call up to the
  first result or \<^verbatim>\<open>schedule\<close>, \<open>resume\<close> what follows a \<^verbatim>\<open>schedule\<close>.
\<close>

section \<open>The structures\<close>

definition MQUEUE_MAX :: nat where [config]: "MQUEUE_MAX = 50"
definition MQ_PRIO_MAX :: nat where [config]: "MQ_PRIO_MAX = 5"
definition NAME_MAX :: nat where [config]: "NAME_MAX = 30"
definition O_RDONLY :: u32 where [config]: "O_RDONLY = 0"
definition O_WRONLY :: u32 where [config]: "O_WRONLY = 1"
definition O_RDWR :: u32 where [config]: "O_RDWR = 2"
definition O_CREAT :: u32 where [config]: "O_CREAT = 0x200"
definition O_EXCL :: u32 where [config]: "O_EXCL = 0x800"

record mq_attr =
  mq_flags :: u32
  mq_maxmsg :: u32
  mq_msgsize :: u32
  mq_curmsgs :: u32

datatype mq_list = Mq_free | Mq_used nat

record mqueue =
  mq_name :: string
  mq_buf :: u32
  mq_size :: u32
  mq_cnt :: u32
  mq_links :: "(mq_list \<times> u32) list"
  mq_data :: "u32 \<Rightarrow> u8 list"
  mq_element_size :: nat

record mq_desc =
  mqd_mq :: u32
  mqd_attr :: mq_attr

record mqstate = sstate +
  mqueues :: "u32 \<Rightarrow> mqueue option"
  mqueue_list :: "u32 list"
  mqd_table :: "nat \<Rightarrow> mq_desc"

text \<open>Sizes and offsets of the structures on the target: \<^verbatim>\<open>sizeof(struct mqueue_data)\<close>,
  \<^verbatim>\<open>sizeof(struct mqueue)\<close>, and the members \<^verbatim>\<open>r_wait_list\<close> and \<^verbatim>\<open>w_wait_list\<close>.\<close>

definition MQUEUE_DATA_SIZE :: nat where [config]: "MQUEUE_DATA_SIZE = 12"
definition MQUEUE_SIZE :: u32 where [config]: "MQUEUE_SIZE = 124"

definition mq_r_wait_list :: "u32 \<Rightarrow> lid" where
  "mq_r_wait_list mq = WaitQ (unat (mq + 100))"

definition mq_w_wait_list :: "u32 \<Rightarrow> lid" where
  "mq_w_wait_list mq = WaitQ (unat (mq + 108))"

definition set_mqueue :: "u32 \<Rightarrow> mqueue \<Rightarrow> 'a mqstate_scheme \<Rightarrow> 'a mqstate_scheme" where
  "set_mqueue mq q s = s\<lparr>mqueues := (mqueues s)(mq := Some q)\<rparr>"

section \<open>mqueue.c\<close>

text \<open>The first loop of \<^verbatim>\<open>__mq_allocate\<close> adds the elements to the free list; \<^const>\<open>None\<close> when their
  list nodes overlap or leave the buffer, whose size is computed modulo \<^verbatim>\<open>2^32\<close>.\<close>

definition mq_elements :: "u32 \<Rightarrow> u32 \<Rightarrow> u32 \<Rightarrow> u32 list option" where
  "mq_elements buf element_size n =
     (if n \<noteq> 0 \<and> (unat element_size < 8 \<or> unat buf + unat element_size * unat n > 2 ^ 32) then None
      else Some (map (\<lambda>i. buf + word_of_nat i * element_size) [0..<unat n]))"

definition mq_allocate :: "mq_attr \<Rightarrow> 'a mqstate_scheme \<Rightarrow> ('a mqstate_scheme \<times> u32 option) option" where
  "mq_allocate attr s = do {
     (s1, r) \<leftarrow> kmalloc MQUEUE_SIZE s;
     new_mq \<leftarrow> r;
     let element_size = ALIGN (word_of_nat MQUEUE_DATA_SIZE + mq_msgsize attr) 4;
     (s2, b) \<leftarrow> kmalloc (element_size * mq_maxmsg attr) s1;
     case b of
       None \<Rightarrow> map_option (\<lambda>s3. (s3, None)) (kfree new_mq s2)
     | Some buf \<Rightarrow> do {
         s3 \<leftarrow> head_init (mq_r_wait_list new_mq) s2;
         s4 \<leftarrow> head_init (mq_w_wait_list new_mq) s3;
         es \<leftarrow> mq_elements buf element_size (mq_maxmsg attr);
         Some (set_mqueue new_mq
                 \<lparr>mq_name = [], mq_buf = buf, mq_size = mq_maxmsg attr, mq_cnt = 0,
                  mq_links = map (Pair Mq_free) es, mq_data = \<lambda>_. [], mq_element_size = unat element_size\<rparr> s4,
               Some new_mq)
       }
   }"

definition mq_free :: "u32 \<Rightarrow> 'a mqstate_scheme \<Rightarrow> 'a mqstate_scheme option" where
  "mq_free mq s = do {
     q \<leftarrow> mqueues s mq;
     s1 \<leftarrow> kfree (mq_buf q) s;
     s2 \<leftarrow> kfree mq s1;
     Some (s2\<lparr>mqueues := (mqueues s2)(mq := None)\<rparr>)
   }"

definition mq_len :: "mqueue \<Rightarrow> u32" where
  "mq_len q = mq_cnt q"

definition mq_avail :: "mqueue \<Rightarrow> u32" where
  "mq_avail q = mq_size q - mq_cnt q"

text \<open>The search of \<^verbatim>\<open>__mq_out\<close>; \<^const>\<open>None\<close> is the index \<open>-1\<close>.\<close>

fun mq_find :: "mqueue \<Rightarrow> nat \<Rightarrow> nat option" where
  "mq_find q 0 = (if lst (mq_links q) (Mq_used 0) \<noteq> [] then Some 0 else None)"
| "mq_find q (Suc p) = (if lst (mq_links q) (Mq_used (Suc p)) \<noteq> [] then Some (Suc p) else mq_find q p)"

definition mq_out :: "mqueue \<Rightarrow> u8 list \<Rightarrow> (mqueue \<times> u8 list \<times> nat \<times> nat) option" where
  "mq_out q msg_ptr = do {
     prio \<leftarrow> mq_find q MQ_PRIO_MAX;
     let element = hd (lst (mq_links q) (Mq_used prio));
     let sz = length (mq_data q element);
     buf \<leftarrow> mem_write msg_ptr 0 (mq_data q element);
     Some (q\<lparr>mq_cnt := mq_cnt q - 1, mq_links := lk_move element Mq_free (mq_links q)\<rparr>, buf, prio, sz)
   }"

definition mq_in :: "mqueue \<Rightarrow> u8 list \<Rightarrow> nat \<Rightarrow> nat \<Rightarrow> mqueue option" where
  "mq_in q msg_ptr msg_len msg_prio =
     (case lst (mq_links q) Mq_free of
        [] \<Rightarrow> None
      | element # _ \<Rightarrow> do {
          msg \<leftarrow> mem_read msg_ptr 0 msg_len;
          if MQUEUE_DATA_SIZE + msg_len \<le> mq_element_size q \<and> msg_prio \<le> MQ_PRIO_MAX
          then Some (q\<lparr>mq_data := (mq_data q)(element := msg), mq_cnt := mq_cnt q + 1,
                       mq_links := lk_move element (Mq_used msg_prio) (mq_links q)\<rparr>)
          else None
        })"

text \<open>The caller's \<^verbatim>\<open>msg_prio\<close> is a pointer that may be \<^verbatim>\<open>NULL\<close>: an option, with the value it points to.\<close>

definition mq_receive_body ::
  "u32 \<Rightarrow> mq_attr \<Rightarrow> u8 list \<Rightarrow> u32 \<Rightarrow> nat option \<Rightarrow> 'a mqstate_scheme
     \<Rightarrow> ('a mqstate_scheme \<times> u8 list \<times> nat option \<times> int) option" where
  "mq_receive_body mq attr msg_ptr msg_len msg_prio s =
     (if mq_flags attr AND 1 \<noteq> O_RDONLY \<and> mq_flags attr AND O_RDWR = 0
      then Some (s, msg_ptr, msg_prio, - EBADF)
      else if msg_len < mq_msgsize attr then Some (s, msg_ptr, msg_prio, - EMSGSIZE)
      else do {
        q \<leftarrow> mqueues s mq;
        if mq_len q \<le> 0 then
          if mq_flags attr AND O_NONBLOCK \<noteq> 0 then Some (s, msg_ptr, msg_prio, - EAGAIN)
          else map_option (\<lambda>s1. (s1, msg_ptr, msg_prio, - ERESTARTSYS))
                 (prepare_to_wait (mq_r_wait_list mq) (running s) THREAD_WAIT s)
        else do {
          (q1, buf, prio, read_size) \<leftarrow> mq_out q msg_ptr;
          s1 \<leftarrow> wake_up (mq_w_wait_list mq) (set_mqueue mq q1 s);
          Some (s1, buf, map_option (\<lambda>_. prio) msg_prio, int read_size)
        }
      })"

definition mq_send_body ::
  "u32 \<Rightarrow> mq_attr \<Rightarrow> u8 list \<Rightarrow> u32 \<Rightarrow> nat \<Rightarrow> 'a mqstate_scheme \<Rightarrow> ('a mqstate_scheme \<times> int) option" where
  "mq_send_body mq attr msg_ptr msg_len msg_prio s =
     (if mq_flags attr AND 1 \<noteq> O_WRONLY \<and> mq_flags attr AND O_RDWR = 0 then Some (s, - EBADF)
      else if msg_len > mq_msgsize attr then Some (s, - EMSGSIZE)
      else do {
        q \<leftarrow> mqueues s mq;
        if mq_avail q \<le> 0 then
          if mq_flags attr AND O_NONBLOCK \<noteq> 0 then Some (s, - EAGAIN)
          else map_option (\<lambda>s1. (s1, - ERESTARTSYS))
                 (prepare_to_wait (mq_w_wait_list mq) (running s) THREAD_WAIT s)
        else do {
          q1 \<leftarrow> mq_in q msg_ptr (unat msg_len) msg_prio;
          s1 \<leftarrow> wake_up (mq_r_wait_list mq) (set_mqueue mq q1 s);
          Some (s1, 0)
        }
      })"

section \<open>The system calls\<close>

text \<open>The test that a descriptor is in use by the system and the task.\<close>

definition mqd_valid :: "u32 \<Rightarrow> 'a kstate_scheme \<Rightarrow> bool option" where
  "mqd_valid mqdes s = do {
     tk \<leftarrow> current_task s;
     b \<leftarrow> bitmap_get_bit (bitmap_mqds s) (unat mqdes);
     if b then bitmap_get_bit (k_bitmap_mqds (tasks s tk)) (unat mqdes) else Some False
   }"

definition sys_mq_getattr ::
  "u32 \<Rightarrow> mq_attr \<Rightarrow> 'a mqstate_scheme \<Rightarrow> ('a mqstate_scheme \<times> mq_attr \<times> int) option" where
  "sys_mq_getattr mqdes attr = critr (\<lambda>s. do {
     v \<leftarrow> mqd_valid mqdes s;
     if \<not> v then Some (s, attr, - EBADF) else do {
       let d = mqd_table s (unat mqdes);
       q \<leftarrow> mqueues s (mqd_mq d);
       Some (s, \<lparr>mq_flags = mq_flags (mqd_attr d), mq_maxmsg = mq_maxmsg (mqd_attr d),
                 mq_msgsize = mq_msgsize (mqd_attr d), mq_curmsgs = mq_len q\<rparr>, 0)
     }
   })"

definition sys_mq_setattr ::
  "u32 \<Rightarrow> mq_attr \<Rightarrow> mq_attr \<Rightarrow> 'a mqstate_scheme \<Rightarrow> ('a mqstate_scheme \<times> mq_attr \<times> int) option" where
  "sys_mq_setattr mqdes newattr oldattr = critr (\<lambda>s. do {
     v \<leftarrow> mqd_valid mqdes s;
     if \<not> v then Some (s, oldattr, - EBADF) else do {
       let d = mqd_table s (unat mqdes);
       let curr = mqd_attr d;
       if mq_flags newattr AND NOT O_NONBLOCK \<noteq> 0 \<or> mq_maxmsg newattr \<noteq> mq_maxmsg curr
          \<or> mq_msgsize newattr \<noteq> mq_msgsize curr
       then Some (s, oldattr, - EINVAL)
       else do {
         q \<leftarrow> mqueues s (mqd_mq d);
         Some (s\<lparr>mqd_table := (mqd_table s)(unat mqdes :=
                   d\<lparr>mqd_attr := curr\<lparr>mq_flags := NOT O_NONBLOCK AND mq_flags newattr\<rparr>\<rparr>)\<rparr>,
               \<lparr>mq_flags = mq_flags curr, mq_maxmsg = mq_maxmsg curr, mq_msgsize = mq_msgsize curr,
                mq_curmsgs = mq_len q\<rparr>, 0)
       }
     }
   })"

text \<open>\<^verbatim>\<open>strncmp\<close> with the bound \<^verbatim>\<open>NAME_MAX\<close> of two strings without their terminators.\<close>

primrec acquire_mqueue_in :: "(u32 \<Rightarrow> mqueue option) \<Rightarrow> string \<Rightarrow> u32 list \<Rightarrow> u32 option option" where
  "acquire_mqueue_in M name [] = Some None"
| "acquire_mqueue_in M name (mq # mqs) = do {
     q \<leftarrow> M mq;
     if take NAME_MAX name = take NAME_MAX (mq_name q) then Some (Some mq)
     else acquire_mqueue_in M name mqs
   }"

definition acquire_mqueue :: "string \<Rightarrow> 'a mqstate_scheme \<Rightarrow> u32 option option" where
  "acquire_mqueue name s = acquire_mqueue_in (mqueues s) name (mqueue_list s)"

text \<open>The part of \<^verbatim>\<open>sys_mq_open\<close> that registers a descriptor.\<close>

definition mq_register ::
  "nat \<Rightarrow> u32 \<Rightarrow> mq_attr \<Rightarrow> u32 \<Rightarrow> 'a mqstate_scheme \<Rightarrow> ('a mqstate_scheme \<times> int) option" where
  "mq_register mqdes mq attr oflag s = do {
     tk \<leftarrow> current_task s;
     g \<leftarrow> bitmap_set_bit (bitmap_mqds s) mqdes;
     b \<leftarrow> bitmap_set_bit (k_bitmap_mqds (tasks s tk)) mqdes;
     Some (s\<lparr>bitmap_mqds := g, tasks := (tasks s)(tk := (tasks s tk)\<lparr>k_bitmap_mqds := b\<rparr>),
             mqd_table := (mqd_table s)(mqdes := \<lparr>mqd_mq = mq, mqd_attr = attr\<lparr>mq_flags := oflag\<rparr>\<rparr>)\<rparr>, int mqdes)
   }"

text \<open>\<open>stale\<close> stands for the two members of the automatic variable \<^verbatim>\<open>default_attr\<close> that are not set.\<close>

definition default_attr :: "mq_attr \<Rightarrow> mq_attr" where
  "default_attr stale = stale\<lparr>mq_maxmsg := 16, mq_msgsize := 50\<rparr>"

definition sys_mq_open ::
  "mq_attr \<Rightarrow> string \<Rightarrow> u32 \<Rightarrow> mq_attr option \<Rightarrow> 'a mqstate_scheme \<Rightarrow> ('a mqstate_scheme \<times> int) option" where
  "sys_mq_open stale name oflag attr = critr (\<lambda>s. do {
     mq \<leftarrow> acquire_mqueue name s;
     mqdes \<leftarrow> find_first_zero_bit (bitmap_mqds s) MQUEUE_MAX;
     if mqdes \<ge> MQUEUE_MAX then Some (s, - ENOMEM) else do {
       let at = (case attr of None \<Rightarrow> default_attr stale | Some a \<Rightarrow> a);
       case mq of
         Some m \<Rightarrow>
           if oflag AND O_CREAT \<noteq> 0 \<and> oflag AND O_EXCL \<noteq> 0 then Some (s, - EEXIST)
           else mq_register mqdes m at oflag s
       | None \<Rightarrow>
           if oflag AND O_CREAT = 0 then Some (s, - ENOENT)
           else do {
             (s1, r) \<leftarrow> mq_allocate at s;
             case r of None \<Rightarrow> Some (s1, - ENOMEM)
             | Some m \<Rightarrow> do {
                 q \<leftarrow> mqueues s1 m;
                 if m \<in> set (mqueue_list s1) then None
                 else mq_register mqdes m at oflag
                   ((set_mqueue m (q\<lparr>mq_name := take (NAME_MAX - 1) name\<rparr>) s1)\<lparr>mqueue_list := mqueue_list s1 @ [m]\<rparr>)
               }
           }
     }
   })"

definition sys_mq_close :: "u32 \<Rightarrow> 'a kstate_scheme \<Rightarrow> ('a kstate_scheme \<times> int) option" where
  "sys_mq_close mqdes = critr (\<lambda>s. do {
     v \<leftarrow> mqd_valid mqdes s;
     if \<not> v then Some (s, - EBADF) else do {
       tk \<leftarrow> current_task s;
       g \<leftarrow> bitmap_clear_bit (bitmap_mqds s) (unat mqdes);
       b \<leftarrow> bitmap_clear_bit (k_bitmap_mqds (tasks s tk)) (unat mqdes);
       Some (s\<lparr>bitmap_mqds := g, tasks := (tasks s)(tk := (tasks s tk)\<lparr>k_bitmap_mqds := b\<rparr>)\<rparr>, 0)
     }
   })"

definition sys_mq_unlink :: "string \<Rightarrow> 'a mqstate_scheme \<Rightarrow> ('a mqstate_scheme \<times> int) option" where
  "sys_mq_unlink name = critr (\<lambda>s.
     if length name \<ge> NAME_MAX then Some (s, - ENAMETOOLONG) else do {
       mq \<leftarrow> acquire_mqueue name s;
       case mq of None \<Rightarrow> Some (s, - ENOENT)
       | Some m \<Rightarrow> map_option (\<lambda>s1. (s1, 0)) (mq_free m s)
     })"

text \<open>One round of the loops of \<^verbatim>\<open>sys_mq_receive\<close> and \<^verbatim>\<open>sys_mq_send\<close>, inside the critical section;
  the result \<^const>\<open>None\<close> means that the thread waits and has called \<^verbatim>\<open>schedule\<close>.\<close>

definition mq_receive_round ::
  "u32 \<Rightarrow> u8 list \<Rightarrow> u32 \<Rightarrow> nat option \<Rightarrow> 'a mqstate_scheme
     \<Rightarrow> ('a mqstate_scheme \<times> u8 list \<times> nat option \<times> int option) option" where
  "mq_receive_round mqdes msg_ptr msg_len msg_prio s = do {
     let d = mqd_table s (unat mqdes);
     (s1, buf, prio, r) \<leftarrow> mq_receive_body (mqd_mq d) (mqd_attr d) msg_ptr msg_len msg_prio s;
     if r \<noteq> - ERESTARTSYS then Some (preempt_enable s1, buf, prio, Some r)
     else Some (schedule_request s1, buf, prio, None)
   }"

definition mq_send_round ::
  "u32 \<Rightarrow> u8 list \<Rightarrow> u32 \<Rightarrow> nat \<Rightarrow> 'a mqstate_scheme \<Rightarrow> ('a mqstate_scheme \<times> int option) option" where
  "mq_send_round mqdes msg_ptr msg_len msg_prio s = do {
     let d = mqd_table s (unat mqdes);
     (s1, r) \<leftarrow> mq_send_body (mqd_mq d) (mqd_attr d) msg_ptr msg_len msg_prio s;
     if r \<noteq> - ERESTARTSYS then Some (preempt_enable s1, Some r)
     else Some (schedule_request s1, None)
   }"

definition sys_mq_receive_enter ::
  "u32 \<Rightarrow> u8 list \<Rightarrow> u32 \<Rightarrow> nat option \<Rightarrow> 'a mqstate_scheme
     \<Rightarrow> ('a mqstate_scheme \<times> u8 list \<times> nat option \<times> int option) option" where
  "sys_mq_receive_enter mqdes msg_ptr msg_len msg_prio s0 = do {
     let s = preempt_disable s0;
     v \<leftarrow> mqd_valid mqdes s;
     if \<not> v then Some (preempt_enable s, msg_ptr, msg_prio, Some (- EBADF))
     else if msg_len > mq_msgsize (mqd_attr (mqd_table s (unat mqdes)))
     then Some (preempt_enable s, msg_ptr, msg_prio, Some (- EMSGSIZE))
     else mq_receive_round mqdes msg_ptr msg_len msg_prio s
   }"

definition sys_mq_receive_resume ::
  "u32 \<Rightarrow> u8 list \<Rightarrow> u32 \<Rightarrow> nat option \<Rightarrow> 'a mqstate_scheme
     \<Rightarrow> ('a mqstate_scheme \<times> u8 list \<times> nat option \<times> int option) option" where
  "sys_mq_receive_resume mqdes msg_ptr msg_len msg_prio s =
     mq_receive_round mqdes msg_ptr msg_len msg_prio (jump_to_kernel_resume s)"

definition sys_mq_send_enter ::
  "u32 \<Rightarrow> u8 list \<Rightarrow> u32 \<Rightarrow> nat \<Rightarrow> 'a mqstate_scheme \<Rightarrow> ('a mqstate_scheme \<times> int option) option" where
  "sys_mq_send_enter mqdes msg_ptr msg_len msg_prio s0 = do {
     let s = preempt_disable s0;
     if msg_prio > MQ_PRIO_MAX then Some (preempt_enable s, Some (- EINVAL)) else do {
       v \<leftarrow> mqd_valid mqdes s;
       if \<not> v then Some (preempt_enable s, Some (- EBADF))
       else if msg_len > mq_msgsize (mqd_attr (mqd_table s (unat mqdes)))
       then Some (preempt_enable s, Some (- EMSGSIZE))
       else mq_send_round mqdes msg_ptr msg_len msg_prio s
     }
   }"

definition sys_mq_send_resume ::
  "u32 \<Rightarrow> u8 list \<Rightarrow> u32 \<Rightarrow> nat \<Rightarrow> 'a mqstate_scheme \<Rightarrow> ('a mqstate_scheme \<times> int option) option" where
  "sys_mq_send_resume mqdes msg_ptr msg_len msg_prio s =
     mq_send_round mqdes msg_ptr msg_len msg_prio (jump_to_kernel_resume s)"

section \<open>The interface of a priority FIFO\<close>

text \<open>
  What the system calls rely on: messages enter at the end of the sequence of their priority and
  leave from the front of the highest priority that has any.
\<close>

inductive pq_run ::
  "('q \<Rightarrow> nat \<Rightarrow> 'm \<Rightarrow> 'q option) \<Rightarrow> ('q \<Rightarrow> ('q \<times> nat \<times> 'm) option) \<Rightarrow> 'q \<Rightarrow> (nat \<times> 'm) list \<Rightarrow> (nat \<times> 'm) list \<Rightarrow> 'q \<Rightarrow> bool"
  for put get q where
  pq_start: "pq_run put get q [] [] q"
| pq_put: "pq_run put get q ins outs q1 \<Longrightarrow> put q1 p m = Some q2 \<Longrightarrow> pq_run put get q (ins @ [(p, m)]) outs q2"
| pq_get: "pq_run put get q ins outs q1 \<Longrightarrow> get q1 = Some (q2, p, m) \<Longrightarrow> pq_run put get q ins (outs @ [(p, m)]) q2"

text \<open>The messages of one priority in a log.\<close>

definition of_prio :: "nat \<Rightarrow> (nat \<times> 'm) list \<Rightarrow> 'm list" where
  "of_prio p log = map snd (filter (\<lambda>x. fst x = p) log)"

lemma of_prio_simps [simp]:
  "of_prio p [] = []" "of_prio p (log @ [(r, m)]) = of_prio p log @ (if r = p then [m] else [])"
  by (simp_all add: of_prio_def)

locale priority_fifo =
  fixes wf :: "'q \<Rightarrow> bool" and items :: "'q \<Rightarrow> nat \<Rightarrow> 'm list"
    and put :: "'q \<Rightarrow> nat \<Rightarrow> 'm \<Rightarrow> 'q option" and get :: "'q \<Rightarrow> ('q \<times> nat \<times> 'm) option"
  assumes put_law: "wf q \<Longrightarrow> put q p m = Some q' \<Longrightarrow> wf q' \<and> items q' = (items q)(p := items q p @ [m])"
    and get_law: "wf q \<Longrightarrow> get q = Some (q', p, m) \<Longrightarrow>
      wf q' \<and> items q p = m # items q' p \<and> (\<forall>r. r \<noteq> p \<longrightarrow> items q' r = items q r) \<and> (\<forall>r > p. items q r = [])"
begin

lemma run_conserves:
  assumes "pq_run put get q ins outs q'" and "wf q"
  shows "wf q' \<and> (\<forall>p. of_prio p outs @ items q' p = items q p @ of_prio p ins)"
  using assms
proof (induction rule: pq_run.induct)
  case (pq_put ins outs q1 p m q2)
  then have "wf q2" "items q2 = (items q1)(p := items q1 p @ [m])"
    using put_law [of q1 p m q2] by auto
  with pq_put show ?case by auto
next
  case (pq_get ins outs q1 q2 p m)
  then have "wf q2" "items q1 p = m # items q2 p" "\<forall>r. r \<noteq> p \<longrightarrow> items q2 r = items q1 r"
    using get_law [of q1 q2 p m] by auto
  with pq_get show ?case by (auto split: if_splits) (metis append_Cons append_Nil append_assoc)
qed simp

text \<open>A message is only taken when no message of a higher priority is in the queue.\<close>

lemma get_highest: "wf q \<Longrightarrow> get q = Some (q', p, m) \<Longrightarrow> items q r \<noteq> [] \<Longrightarrow> r \<le> p"
  using get_law [of q q' p m] by (metis not_le_imp_less)

end

section \<open>The queue implements it\<close>

definition mq_items :: "mqueue \<Rightarrow> nat \<Rightarrow> u8 list list" where
  "mq_items q p = map (mq_data q) (lst (mq_links q) (Mq_used p))"

definition mq_total :: "mqueue \<Rightarrow> nat" where
  "mq_total q = (\<Sum>p \<le> MQ_PRIO_MAX. length (lst (mq_links q) (Mq_used p)))"

definition mq_wf :: "mqueue \<Rightarrow> bool" where
  "mq_wf q \<longleftrightarrow> lk_wf (mq_links q) \<and> length (mq_links q) = unat (mq_size q)
     \<and> (\<forall>p > MQ_PRIO_MAX. lst (mq_links q) (Mq_used p) = []) \<and> unat (mq_cnt q) = mq_total q
     \<and> (\<forall>p. \<forall>m \<in> set (mq_items q p). MQUEUE_DATA_SIZE + length m \<le> mq_element_size q)"

lemma mq_links_length:
  "\<forall>p > MQ_PRIO_MAX. lst L (Mq_used p) = [] \<Longrightarrow>
   length L = length (lst L Mq_free) + (\<Sum>p \<le> MQ_PRIO_MAX. length (lst L (Mq_used p)))"
proof (induction L)
  case (Cons x L)
  obtain h n where x: "x = (h, n)" by (cases x)
  have c: "lst (x # L) g = (if g = h then n # lst L g else lst L g)" for g by (simp add: lst_def x)
  have e: "\<forall>p > MQ_PRIO_MAX. lst L (Mq_used p) = []" using Cons.prems unfolding c by (auto split: if_splits)
  note IH = Cons.IH [OF e]
  show ?case
  proof (cases h)
    case Mq_free
    then show ?thesis using IH by (simp add: c)
  next
    case (Mq_used r)
    then have r: "r \<le> MQ_PRIO_MAX" using Cons.prems unfolding c by (metis list.distinct(1) not_le_imp_less)
    have "(\<Sum>p \<le> MQ_PRIO_MAX. length (lst (x # L) (Mq_used p)))
        = (\<Sum>p \<le> MQ_PRIO_MAX. length (lst L (Mq_used p)) + (if p = r then 1 else 0))"
      by (rule sum.cong) (auto simp: c Mq_used)
    also have "\<dots> = (\<Sum>p \<le> MQ_PRIO_MAX. length (lst L (Mq_used p))) + 1"
      using r by (simp add: sum.distrib)
    finally show ?thesis using IH Mq_used by (simp add: c)
  qed
qed (simp add: lst_def)

lemma mq_wfD:
  assumes "mq_wf q"
  shows "unat (mq_size q) = length (lst (mq_links q) Mq_free) + mq_total q" and "mq_cnt q \<le> mq_size q"
    and "unat (mq_avail q) = length (lst (mq_links q) Mq_free)" and "unat (mq_len q) = mq_total q"
    and "mq_avail q = 0 \<longleftrightarrow> lst (mq_links q) Mq_free = []" and "mq_len q = 0 \<longleftrightarrow> mq_total q = 0"
proof -
  show s: "unat (mq_size q) = length (lst (mq_links q) Mq_free) + mq_total q"
    using mq_links_length [of "mq_links q"] assms by (simp add: mq_wf_def mq_total_def)
  then show le: "mq_cnt q \<le> mq_size q" using assms by (simp add: mq_wf_def word_le_nat_alt)
  show a: "unat (mq_avail q) = length (lst (mq_links q) Mq_free)"
    using s assms unat_sub [OF le] by (simp add: mq_avail_def mq_wf_def)
  show l: "unat (mq_len q) = mq_total q" using assms by (simp add: mq_len_def mq_wf_def)
  show "mq_avail q = 0 \<longleftrightarrow> lst (mq_links q) Mq_free = []" using a by (metis length_0_conv unat_eq_zero)
  show "mq_len q = 0 \<longleftrightarrow> mq_total q = 0" using l by (metis unat_eq_zero)
qed

text \<open>Moving an element between lists changes the total by the lists it leaves and enters.\<close>

lemma filter_neq_length: "distinct xs \<Longrightarrow> x \<in> set xs \<Longrightarrow> Suc (length (filter (\<lambda>y. y \<noteq> x) xs)) = length xs"
proof (induction xs)
  case (Cons y ys)
  have "x \<notin> set ys \<Longrightarrow> filter (\<lambda>y. y \<noteq> x) ys = ys" by (auto simp: filter_id_conv)
  with Cons show ?case by auto
qed simp

lemma lst_unlinked: "lk_wf L \<Longrightarrow> n \<in> set (lst L h) \<Longrightarrow> g \<noteq> h \<Longrightarrow> filter (\<lambda>m. m \<noteq> n) (lst L g) = lst L g"
  by (auto simp: filter_id_conv dest: lk_wf_head)

lemma lk_move_length: "lk_wf L \<Longrightarrow> lk_linked n L \<Longrightarrow> length (lk_move n h L) = length L"
proof (induction L)
  case (Cons x L)
  have "n \<notin> snd ` set L \<Longrightarrow> filter (\<lambda>l. snd l \<noteq> n) L = L" by (auto simp: filter_id_conv)
  with Cons show ?case by (auto simp: lk_move_def lk_add_def lk_del_def lk_wf_def lk_linked_def)
qed (simp add: lk_linked_def)

lemma mq_in_spec:
  assumes wf: "mq_wf q" and i: "mq_in q msg n p = Some q'"
  shows "mq_wf q'" and "mq_items q' = (mq_items q)(p := mq_items q p @ [take n msg])" and "mq_avail q \<noteq> 0"
    and "mq_element_size q' = mq_element_size q" and "mq_size q' = mq_size q"
proof -
  from i obtain e es where e: "lst (mq_links q) Mq_free = e # es" and n: "n \<le> length msg" and p: "p \<le> MQ_PRIO_MAX"
    and sz: "MQUEUE_DATA_SIZE + n \<le> mq_element_size q"
    and q': "q' = q\<lparr>mq_data := (mq_data q)(e := take n msg), mq_cnt := mq_cnt q + 1,
                    mq_links := lk_move e (Mq_used p) (mq_links q)\<rparr>"
    by (auto simp: mq_in_def mem_read_def split: list.splits if_splits)
  note L = mq_wfD [OF wf]
  from wf have lk: "lk_wf (mq_links q)" by (simp add: mq_wf_def)
  have me: "e \<in> set (lst (mq_links q) Mq_free)" using e by simp
  have u: "lst (lk_move e (Mq_used p) (mq_links q)) (Mq_used r)
      = lst (mq_links q) (Mq_used r) @ (if r = p then [e] else [])" for r
    using lst_unlinked [OF lk me, of "Mq_used r"] by auto
  have ne: "e \<notin> set (lst (mq_links q) (Mq_used r))" for r using lk_wf_head [OF lk me, of "Mq_used r"] by auto
  show it: "mq_items q' = (mq_items q)(p := mq_items q p @ [take n msg])"
    using ne by (auto simp: fun_eq_iff mq_items_def q' u simp del: lst_move)
  show a: "mq_avail q \<noteq> 0" using L(3) e by (metis length_greater_0_conv list.distinct(1) not_less0 unat_0)
  show "mq_element_size q' = mq_element_size q" "mq_size q' = mq_size q" by (simp_all add: q')
  have "mq_total q' = (\<Sum>r \<le> MQ_PRIO_MAX. length (lst (mq_links q) (Mq_used r)) + (if r = p then 1 else 0))"
    unfolding mq_total_def by (rule sum.cong) (auto simp: q' u simp del: lst_move)
  also have "\<dots> = mq_total q + 1" using p by (simp add: sum.distrib mq_total_def)
  finally have t: "mq_total q' = mq_total q + 1" .
  have "mq_total q < unat (mq_size q)" using L(1) e by simp
  moreover have "unat (mq_size q) < 2 ^ 32" by (rule order_less_le_trans [OF unsigned_less]) simp
  ultimately have "unat (mq_cnt q + 1) = mq_total q + 1"
    using wf by (simp add: mq_wf_def unat_word_ariths)
  moreover have "lk_linked e (mq_links q)" using me by (auto simp: lk_linked_iff)
  moreover have "\<forall>r. \<forall>m \<in> set (mq_items q' r). MQUEUE_DATA_SIZE + length m \<le> mq_element_size q'"
    using wf n sz unfolding it by (auto simp: q' mq_wf_def)
  ultimately show "mq_wf q'"
    using wf lk_move_length [OF lk, of e "Mq_used p"] p t unfolding mq_wf_def
    by (auto simp: q' u lk_wf_move simp del: lst_move)
qed


lemma mq_find_spec:
  "mq_find q n = Some p \<Longrightarrow> p \<le> n \<and> lst (mq_links q) (Mq_used p) \<noteq> [] \<and> (\<forall>r. p < r \<and> r \<le> n \<longrightarrow> lst (mq_links q) (Mq_used r) = [])"
  "mq_find q n = None \<longleftrightarrow> (\<forall>r \<le> n. lst (mq_links q) (Mq_used r) = [])"
  by (induction n) (auto split: if_splits simp: le_Suc_eq)

lemma mq_out_spec:
  assumes wf: "mq_wf q" and out: "mq_out q buf = Some (q', buf', p, n)"
  shows "mq_wf q'" and "p \<le> MQ_PRIO_MAX" and "mq_items q p = take n buf' # mq_items q' p"
    and "\<forall>r. r \<noteq> p \<longrightarrow> mq_items q' r = mq_items q r" and "\<forall>r > p. mq_items q r = []" and "mq_len q \<noteq> 0"
    and "mq_element_size q' = mq_element_size q" and "length buf' = length buf" and "mq_size q' = mq_size q"
    and "n \<le> length buf"
proof -
  from out obtain e es where p: "mq_find q MQ_PRIO_MAX = Some p" and e: "lst (mq_links q) (Mq_used p) = e # es"
    and n: "n = length (mq_data q e)" and b: "mem_write buf 0 (mq_data q e) = Some buf'"
    and q': "q' = q\<lparr>mq_cnt := mq_cnt q - 1, mq_links := lk_move e Mq_free (mq_links q)\<rparr>"
    using mq_find_spec(1) [of q MQ_PRIO_MAX p]
    by (cases "lst (mq_links q) (Mq_used p)") (auto simp: mq_out_def bind_eq_Some_iff Let_def)
  note f = mq_find_spec(1) [OF p] and L = mq_wfD [OF wf]
  from wf have lk: "lk_wf (mq_links q)" by (simp add: mq_wf_def)
  have me: "e \<in> set (lst (mq_links q) (Mq_used p))" using e by simp
  have "distinct (e # es)" using lk_wf_distinct [OF lk, of "Mq_used p"] e by simp
  then have tl: "filter (\<lambda>m. m \<noteq> e) es = es" by (auto simp: filter_id_conv)
  have u: "lst (lk_move e Mq_free (mq_links q)) (Mq_used r) = (if r = p then es else lst (mq_links q) (Mq_used r))" for r
    using lst_unlinked [OF lk me, of "Mq_used r"] tl e by simp
  show "p \<le> MQ_PRIO_MAX" using f by simp
  show "length buf' = length buf" using mem_write_length [OF b] .
  show "n \<le> length buf" using b n by (simp add: mem_write_def split: if_splits)
  show "mq_element_size q' = mq_element_size q" "mq_size q' = mq_size q" by (simp_all add: q')
  have "take n buf' = mq_data q e" using b n by (auto simp: mem_write_def split: if_splits)
  then show i1: "mq_items q p = take n buf' # mq_items q' p" by (simp add: mq_items_def q' u e del: lst_move)
  show i2: "\<forall>r. r \<noteq> p \<longrightarrow> mq_items q' r = mq_items q r" by (simp add: mq_items_def q' u del: lst_move)
  have "lst (mq_links q) (Mq_used r) = []" if "r > p" for r using f that wf by (cases "r \<le> MQ_PRIO_MAX") (auto simp: mq_wf_def)
  then show "\<forall>r > p. mq_items q r = []" by (simp add: mq_items_def)
  have "mq_total q = (\<Sum>r \<le> MQ_PRIO_MAX. length (lst (mq_links q') (Mq_used r)) + (if r = p then 1 else 0))"
    unfolding mq_total_def by (rule sum.cong) (auto simp: q' u e simp del: lst_move)
  also have "\<dots> = mq_total q' + 1" using f by (simp add: sum.distrib mq_total_def)
  finally have t: "mq_total q = mq_total q' + 1" .
  then show c: "mq_len q \<noteq> 0" using L(4) by (metis Suc_eq_plus1 nat.distinct(1) unat_0)
  then have "unat (mq_cnt q - 1) = mq_total q'" using L(4) t unat_minus_one [of "mq_cnt q"] by (simp add: mq_len_def)
  moreover have "lk_linked e (mq_links q)" using me by (auto simp: lk_linked_iff)
  moreover have "\<forall>r. \<forall>m \<in> set (mq_items q' r). MQUEUE_DATA_SIZE + length m \<le> mq_element_size q'"
  proof (intro allI ballI)
    fix r m assume "m \<in> set (mq_items q' r)"
    then have "m \<in> set (mq_items q r)" using i1 i2 by (cases "r = p") auto
    then show "MQUEUE_DATA_SIZE + length m \<le> mq_element_size q'" using wf by (simp add: mq_wf_def q')
  qed
  ultimately show "mq_wf q'"
    using wf lk_move_length [OF lk, of e Mq_free] f t unfolding mq_wf_def
    by (auto simp: q' u lk_wf_move simp del: lst_move)
qed

definition mq_put :: "mqueue \<Rightarrow> nat \<Rightarrow> u8 list \<Rightarrow> mqueue option" where
  "mq_put q p m = mq_in q m (length m) p"

text \<open>Taking a message into a buffer that is large enough.\<close>

definition mq_get :: "mqueue \<Rightarrow> (mqueue \<times> nat \<times> u8 list) option" where
  "mq_get q = map_option (\<lambda>(q', buf, p, n). (q', p, take n buf)) (mq_out q (replicate (mq_element_size q) 0))"

interpretation mq: priority_fifo mq_wf mq_items mq_put mq_get
proof unfold_locales
  fix q p m q' assume "mq_wf q" "mq_put q p m = Some q'"
  then show "mq_wf q' \<and> mq_items q' = (mq_items q)(p := mq_items q p @ [m])"
    using mq_in_spec [of q m "length m" p q'] by (simp add: mq_put_def)
next
  fix q p m q' assume "mq_wf q" "mq_get q = Some (q', p, m)"
  then show "mq_wf q' \<and> mq_items q p = m # mq_items q' p \<and> (\<forall>r. r \<noteq> p \<longrightarrow> mq_items q' r = mq_items q r)
      \<and> (\<forall>r > p. mq_items q r = [])"
    using mq_out_spec [of q "replicate (mq_element_size q) 0" q' _ p] by (auto simp: mq_get_def)
qed

lemma mq_out_get:
  assumes "mq_wf q" and "mq_out q buf = Some (q', buf', p, n)"
  shows "mq_get q = Some (q', p, take n buf')"
proof -
  from mq_out_spec(3) [OF assms] have "take n buf' \<in> set (mq_items q p)" by simp
  then have "MQUEUE_DATA_SIZE + length (take n buf') \<le> mq_element_size q" using assms(1) unfolding mq_wf_def by blast
  moreover have "n \<le> length buf'" using mq_out_spec(8,10) [OF assms] by simp
  ultimately have n: "n \<le> mq_element_size q" by simp
  from assms(2) obtain e where e: "mq_find q MQ_PRIO_MAX = Some p" "e = hd (lst (mq_links q) (Mq_used p))"
    "n = length (mq_data q e)" "mem_write buf 0 (mq_data q e) = Some buf'"
    "q' = q\<lparr>mq_cnt := mq_cnt q - 1, mq_links := lk_move e Mq_free (mq_links q)\<rparr>"
    by (auto simp: mq_out_def bind_eq_Some_iff Let_def)
  then have "take n buf' = mq_data q e" by (auto simp: mem_write_def split: if_splits)
  with e n show ?thesis by (simp add: mq_get_def mq_out_def mem_write_def Let_def)
qed

section \<open>The kernel around the queue\<close>

definition same_mq :: "'a mqstate_scheme \<Rightarrow> 'a mqstate_scheme \<Rightarrow> bool" where
  "same_mq s s' \<longleftrightarrow> mqueues s' = mqueues s \<and> mqueue_list s' = mqueue_list s \<and> mqd_table s' = mqd_table s"

lemma preempt_mq [simp]:
  "mqueues (preempt_disable s) = mqueues s" "mqueues (preempt_enable s) = mqueues s"
  "mqueue_list (preempt_disable s) = mqueue_list s" "mqueue_list (preempt_enable s) = mqueue_list s"
  "mqd_table (preempt_disable s) = mqd_table s" "mqd_table (preempt_enable s) = mqd_table s"
  by (simp_all add: preempt_disable_def preempt_enable_def preempt_count_inc_def preempt_count_dec_def Let_def)

lemma upd_thread_mq [simp]: "same_mq s (set_status t st s)" "same_mq s (upd_thread t f s)" "same_mq s s"
  by (simp_all add: same_mq_def set_status_def upd_thread_def)

lemma set_status_mq [simp]:
  "mqueues (set_status t st s) = mqueues s" "mqueue_list (set_status t st s) = mqueue_list s"
  "mqd_table (set_status t st s) = mqd_table s"
  by (simp_all add: set_status_def upd_thread_def)

lemma set_mqueue_frame [simp]:
  "links (set_mqueue mq q s) = links s" "threads (set_mqueue mq q s) = threads s" "running (set_mqueue mq q s) = running s"
  "mqueues (set_mqueue mq q s) = (mqueues s)(mq := Some q)" "sched_wf (set_mqueue mq q s) = sched_wf s"
  "mqueue_list (set_mqueue mq q s) = mqueue_list s" "mqd_table (set_mqueue mq q s) = mqd_table s"
  by (simp_all add: set_mqueue_def sched_wf_def)

lemma node_add_mq: "node_add t l s = Some s' \<Longrightarrow> same_mq s s'"
  by (auto simp: node_add_def same_mq_def split: if_splits)

lemma node_move_mq: "node_move t l s = Some s' \<Longrightarrow> same_mq s s'"
  by (auto simp: node_move_def node_add_def node_del_def same_mq_def split: if_splits)

lemma prepare_to_wait_mq: "prepare_to_wait l t st s = Some s' \<Longrightarrow> same_mq s s'"
  by (auto simp: prepare_to_wait_def crit_def same_mq_def bind_eq_Some_iff dest!: node_add_mq)

lemma wake_up_mq: "wake_up l s = Some s' \<Longrightarrow> same_mq s s'"
  by (auto simp: wake_up_def crit_def same_mq_def bind_eq_Some_iff Let_def dest!: node_move_mq split: list.splits)

lemma wake_up_woke:
  assumes "sched_wf s" and "t_status (threads s (running s)) = THREAD_RUNNING"
  shows "\<exists>s'. wake_up l s = Some s' \<and> woke s s'"
proof (cases "lst (links s) l = []")
  case True
  then show ?thesis using assms by (simp add: wake_up_empty woke_def)
next
  case False
  note w = wake_up_spec [OF assms(1) False]
  let ?h = "highest_pri_thread s (hd (lst (links s) l)) (lst (links s) l)"
  have "?h \<noteq> running s" using w(3) sched_wfD(6) [OF assms] by metis
  then show ?thesis using w(1,3) make_ready_wf [of "preempt_disable s" ?h] assms(1) by (auto simp: woke_def)
qed

text \<open>Runs of a queue: sends and receives by any threads, with whatever attributes and results,
  between other activity that leaves the queue alone.\<close>

inductive mq_run ::
  "u32 \<Rightarrow> 'a mqstate_scheme \<Rightarrow> (nat \<times> u8 list) list \<Rightarrow> (nat \<times> u8 list) list \<Rightarrow> 'a mqstate_scheme \<Rightarrow> bool" for mq s where
  mq_run_start: "mq_run mq s [] [] s"
| mq_run_other: "mq_run mq s sent received s1 \<Longrightarrow> mqueues s2 mq = mqueues s1 mq \<Longrightarrow> mq_run mq s sent received s2"
| mq_run_send: "mq_run mq s sent received s1 \<Longrightarrow> mq_send_body mq attr msg len p s1 = Some (s2, r) \<Longrightarrow>
    mq_run mq s (sent @ (if r = 0 then [(p, take (unat len) msg)] else [])) received s2"
| mq_run_receive: "mq_run mq s sent received s1 \<Longrightarrow>
    mq_receive_body mq attr buf len (Some p0) s1 = Some (s2, buf', Some p, r) \<Longrightarrow>
    mq_run mq s sent (received @ (if r \<ge> 0 then [(p, take (nat r) buf')] else [])) s2"

lemma mq_send_body_cases:
  assumes "mq_send_body mq attr msg len p s = Some (s', r)"
  shows "r = 0 \<and> (\<exists>q q'. mqueues s mq = Some q \<and> mq_in q msg (unat len) p = Some q' \<and> mqueues s' = (mqueues s)(mq := Some q'))
     \<or> r < 0 \<and> mqueues s' = mqueues s"
  using assms
  by (auto simp: mq_send_body_def errno same_mq_def bind_eq_Some_iff dest!: prepare_to_wait_mq wake_up_mq split: if_splits)

lemma mq_receive_body_cases:
  assumes "mq_receive_body mq attr buf len (Some p0) s = Some (s', buf', Some p, r)"
  shows "r \<ge> 0 \<and> (\<exists>q q'. mqueues s mq = Some q \<and> mq_out q buf = Some (q', buf', p, nat r) \<and> mqueues s' = (mqueues s)(mq := Some q'))
     \<or> r < 0 \<and> mqueues s' = mqueues s"
  using assms
  by (auto simp: mq_receive_body_def errno same_mq_def bind_eq_Some_iff dest!: prepare_to_wait_mq wake_up_mq split: if_splits)

lemma mq_in_put: "mq_in q msg n p = Some q' \<Longrightarrow> mq_put q p (take n msg) = Some q'"
  by (auto simp: mq_in_def mq_put_def mem_read_def split: list.splits if_splits)

lemma mq_run_pq_run:
  assumes "mq_run mq s sent received s'" and "mqueues s mq = Some q" and "mq_wf q"
  shows "\<exists>q'. mqueues s' mq = Some q' \<and> pq_run mq_put mq_get q sent received q'"
  using assms
proof (induction rule: mq_run.induct)
  case (mq_run_send sent received s1 attr msg len p s2 r)
  then obtain q1 where q1: "mqueues s1 mq = Some q1" "pq_run mq_put mq_get q sent received q1" by auto
  from mq_send_body_cases [OF mq_run_send.hyps(2)] q1 mq_in_put [of q1 msg "unat len" p] pq_put [OF q1(2)]
  show ?case by auto
next
  case (mq_run_receive sent received s1 attr buf len p0 s2 buf' p r)
  then obtain q1 where q1: "mqueues s1 mq = Some q1" "pq_run mq_put mq_get q sent received q1" by auto
  moreover have "mq_wf q1" using mq.run_conserves [OF q1(2)] mq_run_receive.prems by simp
  ultimately show ?case
    using mq_receive_body_cases [OF mq_run_receive.hyps(2)] mq_out_get [of q1 buf _ buf' p "nat r"] pq_get [OF q1(2)] by auto
qed (auto intro: pq_start)

text \<open>The results of a send and a receive, one branch each.\<close>

definition mq_send_result ::
  "u32 \<Rightarrow> mq_attr \<Rightarrow> u8 list \<Rightarrow> u32 \<Rightarrow> nat \<Rightarrow> mqueue \<Rightarrow> 'a mqstate_scheme \<Rightarrow> 'a mqstate_scheme \<Rightarrow> int \<Rightarrow> bool" where
  "mq_send_result mq attr msg len p q s s' r \<longleftrightarrow>
     (if mq_flags attr AND 1 \<noteq> O_WRONLY \<and> mq_flags attr AND O_RDWR = 0 then r = - EBADF \<and> s' = s
      else if len > mq_msgsize attr then r = - EMSGSIZE \<and> s' = s
      else if mq_total q < unat (mq_size q) then
        r = 0 \<and> woke s s' \<and> (\<exists>q'. mqueues s' = (mqueues s)(mq := Some q') \<and> mq_wf q'
          \<and> mq_items q' = (mq_items q)(p := mq_items q p @ [take (unat len) msg]))
      else if mq_flags attr AND O_NONBLOCK \<noteq> 0 then r = - EAGAIN \<and> s' = s
      else r = - ERESTARTSYS \<and> mqueues s' = mqueues s \<and> sched_wf s'
        \<and> links s' = lk_add (running s) (mq_w_wait_list mq) (links s))"

definition mq_receive_result ::
  "u32 \<Rightarrow> mq_attr \<Rightarrow> u32 \<Rightarrow> mqueue \<Rightarrow> 'a mqstate_scheme \<Rightarrow> 'a mqstate_scheme \<Rightarrow> u8 list \<Rightarrow> nat option \<Rightarrow> int \<Rightarrow> bool" where
  "mq_receive_result mq attr len q s s' buf' prio' r \<longleftrightarrow>
     (if mq_flags attr AND 1 \<noteq> O_RDONLY \<and> mq_flags attr AND O_RDWR = 0 then r = - EBADF \<and> s' = s
      else if len < mq_msgsize attr then r = - EMSGSIZE \<and> s' = s
      else if 0 < mq_total q then
        r \<ge> 0 \<and> woke s s' \<and> (\<exists>q' p. mqueues s' = (mqueues s)(mq := Some q') \<and> mq_wf q'
          \<and> prio' \<in> {None, Some p} \<and> mq_items q p = take (nat r) buf' # mq_items q' p
          \<and> (\<forall>i. i \<noteq> p \<longrightarrow> mq_items q' i = mq_items q i) \<and> (\<forall>i > p. mq_items q i = []))
      else if mq_flags attr AND O_NONBLOCK \<noteq> 0 then r = - EAGAIN \<and> s' = s
      else r = - ERESTARTSYS \<and> mqueues s' = mqueues s \<and> sched_wf s'
        \<and> links s' = lk_add (running s) (mq_r_wait_list mq) (links s))"

lemma mq_block:
  assumes "sched_wf s" and "t_status (threads s (running s)) = THREAD_RUNNING"
  shows "\<exists>s'. prepare_to_wait (WaitQ w) (running s) THREAD_WAIT s = Some s' \<and> mqueues s' = mqueues s \<and> sched_wf s'
     \<and> links s' = lk_add (running s) (WaitQ w) (links s)"
proof -
  have "\<not> lk_linked (running s) (links s)" using sched_wfD(6) [OF assms] .
  from prepare_to_wait_wf [OF assms(1) this, of "WaitQ w" THREAD_WAIT] obtain s' where
    s': "prepare_to_wait (WaitQ w) (running s) THREAD_WAIT s = Some s'" "sched_wf s'"
      "links s' = lk_add (running s) (WaitQ w) (links s)" by auto
  with prepare_to_wait_mq [OF s'(1)] show ?thesis by (simp add: same_mq_def)
qed

lemma mq_wake:
  assumes "sched_wf s" and "t_status (threads s (running s)) = THREAD_RUNNING"
  shows "\<exists>s'. wake_up l (set_mqueue mq q s) = Some s' \<and> mqueues s' = (mqueues s)(mq := Some q) \<and> woke s s'"
proof -
  from wake_up_woke [of "set_mqueue mq q s" l] assms obtain s' where
    s': "wake_up l (set_mqueue mq q s) = Some s'" "woke (set_mqueue mq q s) s'" by auto
  with wake_up_mq [OF s'(1)] show ?thesis by (simp add: same_mq_def woke_def)
qed

text \<open>A send that gets as far as copying its message.\<close>

definition mq_send_copies :: "mq_attr \<Rightarrow> u32 \<Rightarrow> mqueue \<Rightarrow> bool" where
  "mq_send_copies attr len q \<longleftrightarrow> \<not> (mq_flags attr AND 1 \<noteq> O_WRONLY \<and> mq_flags attr AND O_RDWR = 0) \<and> len \<le> mq_msgsize attr
     \<and> mq_total q < unat (mq_size q)"

lemma mq_send_body_overflow:
  assumes "mqueues s mq = Some q" "mq_wf q" "mq_send_copies attr len q" "mq_element_size q < MQUEUE_DATA_SIZE + unat len"
  shows "mq_send_body mq attr msg len p s = None"
proof -
  have "mq_avail q \<noteq> 0" using assms(3) mq_wfD(1,5) [OF assms(2)] by (auto simp: mq_send_copies_def)
  moreover have "mq_in q msg (unat len) p = None" using assms(4) by (auto simp: mq_in_def mem_read_def split: list.splits)
  ultimately show ?thesis using assms(1,3) by (auto simp: mq_send_body_def mq_send_copies_def)
qed

lemma mq_element_size_eq:
  assumes "unat sz + MQUEUE_DATA_SIZE < 2 ^ 32"
  shows "unat (ALIGN (word_of_nat MQUEUE_DATA_SIZE + sz) 4) = MQUEUE_DATA_SIZE + 4 * (unat sz div 4)"
proof -
  have "ALIGN w 4 = w AND NOT (mask 2)" for w by (simp add: ALIGN_def ALIGN_MASK_def mask_eq_exp_minus_1)
  moreover have "(12 + n) - (12 + n) mod 4 = 12 + 4 * (n div 4)" for n :: nat by presburger
  ultimately show ?thesis using assms by (simp add: unat_AND_NOT_mask unat_word_ariths config)
qed

lemma mq_send_body_spec:
  assumes st: "sched_wf s" "t_status (threads s (running s)) = THREAD_RUNNING"
    and q: "mqueues s mq = Some q" "mq_wf q"
    and a: "unat len \<le> length msg" "p \<le> MQ_PRIO_MAX"
      "\<not> (mq_send_copies attr len q \<and> mq_element_size q < MQUEUE_DATA_SIZE + unat len)"
  shows "\<exists>s' r. mq_send_body mq attr msg len p s = Some (s', r) \<and> mq_send_result mq attr msg len p q s s' r"
proof (cases "(mq_flags attr AND 1 \<noteq> O_WRONLY \<and> mq_flags attr AND O_RDWR = 0) \<or> len > mq_msgsize attr \<or> mq_avail q \<le> 0")
  case True
  have t: "mq_avail q \<le> 0 \<Longrightarrow> \<not> mq_total q < unat (mq_size q)" using mq_wfD(1,5) [OF q(2)] by simp
  from mq_block [OF st] True t q(1) show ?thesis
    unfolding mq_send_body_def mq_send_result_def mq_w_wait_list_def by (auto split: if_splits)
next
  case False
  have t: "mq_total q < unat (mq_size q)" using False mq_wfD(1,5) [OF q(2)] by (auto simp: neq_Nil_conv)
  then have len: "MQUEUE_DATA_SIZE + unat len \<le> mq_element_size q" using False a(3) by (auto simp: mq_send_copies_def)
  from False mq_wfD(5) [OF q(2)] obtain e es where e: "lst (mq_links q) Mq_free = e # es"
    by (cases "lst (mq_links q) Mq_free") auto
  then obtain q' where q': "mq_in q msg (unat len) p = Some q'"
    using a len by (auto simp: mq_in_def mem_read_def)
  note sp = mq_in_spec [OF q(2) this]
  from mq_wake [OF st] obtain s' where s': "wake_up (mq_r_wait_list mq) (set_mqueue mq q' s) = Some s'"
    "mqueues s' = (mqueues s)(mq := Some q')" "woke s s'" by blast
  have "mq_send_body mq attr msg len p s = Some (s', 0)" using False q(1) q' s' by (auto simp: mq_send_body_def)
  moreover have "mq_send_result mq attr msg len p q s s' 0"
    using False t sp(1,2) s' by (auto simp: mq_send_result_def)
  ultimately show ?thesis by blast
qed

lemma mq_out_Some:
  assumes "mq_wf q" and "0 < mq_total q" and "mq_element_size q \<le> MQUEUE_DATA_SIZE + length buf"
  shows "\<exists>q' buf' p n. mq_out q buf = Some (q', buf', p, n)"
proof -
  have "mq_find q MQ_PRIO_MAX \<noteq> None"
    using assms(2) mq_find_spec(2) [of q MQ_PRIO_MAX] by (auto simp: mq_total_def)
  then obtain p where p: "mq_find q MQ_PRIO_MAX = Some p" by auto
  let ?e = "hd (lst (mq_links q) (Mq_used p))"
  have "mq_data q ?e \<in> set (mq_items q p)" using mq_find_spec(1) [OF p] by (simp add: mq_items_def)
  then have "length (mq_data q ?e) \<le> length buf" using assms(1,3) unfolding mq_wf_def by fastforce
  then show ?thesis using p by (simp add: mq_out_def mem_write_def Let_def)
qed

lemma mq_receive_body_spec:
  assumes st: "sched_wf s" "t_status (threads s (running s)) = THREAD_RUNNING"
    and q: "mqueues s mq = Some q" "mq_wf q"
    and a: "unat len \<le> length buf" "mq_element_size q \<le> MQUEUE_DATA_SIZE + unat (mq_msgsize attr)"
  shows "\<exists>s' buf' prio' r. mq_receive_body mq attr buf len prio s = Some (s', buf', prio', r)
     \<and> mq_receive_result mq attr len q s s' buf' prio' r"
proof (cases "(mq_flags attr AND 1 \<noteq> O_RDONLY \<and> mq_flags attr AND O_RDWR = 0) \<or> len < mq_msgsize attr \<or> mq_len q \<le> 0")
  case True
  have t: "mq_len q \<le> 0 \<Longrightarrow> \<not> 0 < mq_total q" using mq_wfD(6) [OF q(2)] by simp
  from mq_block [OF st] True t q(1) show ?thesis
    unfolding mq_receive_body_def mq_receive_result_def mq_r_wait_list_def by (auto split: if_splits)
next
  case False
  then have len: "unat (mq_msgsize attr) \<le> unat len" by (simp add: not_less word_le_nat_alt)
  have t: "0 < mq_total q" using False mq_wfD(6) [OF q(2)] by simp
  from mq_out_Some [OF q(2) t, of buf] a len obtain q' buf' p n where o: "mq_out q buf = Some (q', buf', p, n)" by fastforce
  note sp = mq_out_spec [OF q(2) o]
  from mq_wake [OF st] obtain s' where s': "wake_up (mq_w_wait_list mq) (set_mqueue mq q' s) = Some s'"
    "mqueues s' = (mqueues s)(mq := Some q')" "woke s s'" by blast
  have "mq_receive_body mq attr buf len prio s = Some (s', buf', map_option (\<lambda>_. p) prio, int n)"
    using False q(1) o s' by (auto simp: mq_receive_body_def)
  moreover have "mq_receive_result mq attr len q s s' buf' (map_option (\<lambda>_. p) prio) (int n)"
    using False t sp(1,3,4,5) s' unfolding mq_receive_result_def by (cases prio) auto
  ultimately show ?thesis by blast
qed

section \<open>Properties\<close>

text \<open>
  C17. A message queue is a FIFO for each priority and loses nothing. Over every run of sends and
  receives of a queue by any threads, with other activity in between, and for every priority, the
  messages received so far followed by those still in the queue are those that were in it at the
  start followed by those sent; the counter is the number of messages and never exceeds the size.\<close>

theorem mq_priority_fifo:
  assumes "mqueues s mq = Some q" and "mq_wf q" and "mq_run mq s sent received s'"
  shows "\<exists>q'. mqueues s' mq = Some q' \<and> unat (mq_cnt q') = mq_total q' \<and> mq_cnt q' \<le> mq_size q'
     \<and> (\<forall>p. of_prio p received @ mq_items q' p = mq_items q p @ of_prio p sent)"
proof -
  from mq_run_pq_run [OF assms(3,1,2)] obtain q' where
    q': "mqueues s' mq = Some q'" "pq_run mq_put mq_get q sent received q'" by auto
  from mq.run_conserves [OF q'(2) assms(2)] have r: "mq_wf q'"
    "\<forall>p. of_prio p received @ mq_items q' p = mq_items q p @ of_prio p sent" by auto
  with q' mq_wfD [OF r(1)] show ?thesis by (auto simp: mq_wf_def)
qed

text \<open>
  C18. Every send and receive by the running thread on a well-formed queue, through a descriptor whose message size is the one the queue was
  allocated with. An element has room for the message size rounded down to a multiple of four: a send of a longer message that passes the
  checks while there is a free element writes past the end of the element, which is undefined; with the default
  message size of 50 these are the messages of 49 and 50 bytes. Every other send, and every receive, returns with
  the result of its branch: \<^verbatim>\<open>-EBADF\<close> or \<^verbatim>\<open>-EMSGSIZE\<close> without an effect; the transfer when there is room or a message,
  which for a receive is the oldest message of the highest priority in the queue; else
  \<^verbatim>\<open>-EAGAIN\<close> without an effect in non-blocking mode, and \<^verbatim>\<open>-ERESTARTSYS\<close> with the thread last on the
  wait list otherwise.\<close>

theorem mq_send_receive_results:
  assumes "sched_wf s" and "t_status (threads s (running s)) = THREAD_RUNNING"
    and "mqueues s mq = Some q" and "mq_wf q" and "unat (mq_msgsize attr) + MQUEUE_DATA_SIZE < 2 ^ 32"
    and "mq_element_size q = unat (ALIGN (word_of_nat MQUEUE_DATA_SIZE + mq_msgsize attr) 4)"
    and "unat len \<le> length msg" and "p \<le> MQ_PRIO_MAX" and "unat blen \<le> length buf"
  shows "(if mq_send_copies attr len q \<and> 4 * (unat (mq_msgsize attr) div 4) < unat len
      then mq_send_body mq attr msg len p s = None
      else \<exists>s' r. mq_send_body mq attr msg len p s = Some (s', r) \<and> mq_send_result mq attr msg len p q s s' r)
     \<and> (\<exists>s' buf' prio' r. mq_receive_body mq attr buf blen prio s = Some (s', buf', prio', r)
            \<and> mq_receive_result mq attr blen q s s' buf' prio' r)"
proof -
  have es: "mq_element_size q = MQUEUE_DATA_SIZE + 4 * (unat (mq_msgsize attr) div 4)"
    using assms(6) mq_element_size_eq [OF assms(5)] by simp
  have "mq_element_size q \<le> MQUEUE_DATA_SIZE + unat (mq_msgsize attr)" unfolding es by simp
  moreover have lt: "mq_element_size q < MQUEUE_DATA_SIZE + unat len \<longleftrightarrow> 4 * (unat (mq_msgsize attr) div 4) < unat len" by (simp add: es)
  ultimately show ?thesis
    using mq_send_body_spec [OF assms(1-4,7,8), of attr] mq_receive_body_spec [OF assms(1-4,9), of attr prio]
      mq_send_body_overflow [OF assms(3,4), of attr len msg p] unfolding lt by auto
qed

text \<open>
  The buffers of a queue are too small for its largest messages unless the message size is a multiple
  of four: \<^verbatim>\<open>__mq_allocate\<close> rounds the element size down, so that a message of the maximal size
  that \<^verbatim>\<open>mq_send\<close> accepts is copied past the end of its element. The default attributes
  of \<^verbatim>\<open>mq_open\<close>, 50 bytes, are such a size.\<close>

theorem mq_full_message_overflows:
  assumes "mq_allocate attr s = Some (s', Some mq)"
    and "unat (mq_msgsize attr) + MQUEUE_DATA_SIZE < 2 ^ 32" and "unat (mq_msgsize attr) mod 4 \<noteq> 0"
  shows "\<exists>q. mqueues s' mq = Some q \<and> mq_in q msg (unat (mq_msgsize attr)) p = None"
proof -
  from assms(1) obtain q where q: "mqueues s' mq = Some q"
    "mq_element_size q = unat (ALIGN (word_of_nat MQUEUE_DATA_SIZE + mq_msgsize attr) 4)"
    by (auto simp: mq_allocate_def bind_eq_Some_iff Let_def split: option.splits)
  have "4 * (unat (mq_msgsize attr) div 4) < unat (mq_msgsize attr)" using assms(3) by presburger
  then have "mq_element_size q < MQUEUE_DATA_SIZE + unat (mq_msgsize attr)"
    unfolding q(2) mq_element_size_eq [OF assms(2)] by simp
  with q(1) show ?thesis by (auto simp: mq_in_def mem_read_def split: list.splits)
qed

text \<open>
  \<^verbatim>\<open>mq_receive\<close> only accepts a buffer of exactly the message size: \<^verbatim>\<open>sys_mq_receive\<close> rejects larger
  and \<^verbatim>\<open>__mq_receive\<close> smaller ones, both with \<^verbatim>\<open>-EMSGSIZE\<close>, on every queue that is open for reading.\<close>

theorem mq_receive_exact_length:
  assumes "mqd_valid mqdes (preempt_disable s) = Some True" and "len \<noteq> mq_msgsize (mqd_attr (mqd_table s (unat mqdes)))"
    and "mq_flags (mqd_attr (mqd_table s (unat mqdes))) AND 1 = O_RDONLY"
  shows "\<exists>s'. sys_mq_receive_enter mqdes buf len prio s = Some (s', buf, prio, Some (- EMSGSIZE))"
  using assms by (auto simp: sys_mq_receive_enter_def mq_receive_round_def mq_receive_body_def errno Let_def)

text \<open>A state with slab caches, a running thread with a task, and the given queues.\<close>

definition demo_attr :: mq_attr where
  "demo_attr = \<lparr>mq_flags = O_RDWR, mq_maxmsg = 1, mq_msgsize = 50, mq_curmsgs = 0\<rparr>"

definition demo_mqstate :: "(u32 \<Rightarrow> mqueue option) \<Rightarrow> u32 list \<Rightarrow> mqstate" where
  "demo_mqstate M L =
     sstate.extend ((demo_sstate (\<lambda>_. Some \<lparr>sl_free_bitmap = [1], sl_free_objects = 2\<rparr>)
           [((Cache_At 64, Slabs_partial), 0x20000000), ((Cache_At 128, Slabs_partial), 0x20000200)] page_bitmap_init)
         \<lparr>kmalloc_caches := [Some (Cache_At 32), Some (Cache_At 64), Some (Cache_At 128)],
          threads := demo_threads(0 := (demo_threads 0)\<lparr>t_task := Some 0\<rparr>)\<rparr>)
       \<lparr>mqueues = M, mqueue_list = L, mqd_table = (\<lambda>_. \<lparr>mqd_mq = 0, mqd_attr = demo_attr\<rparr>)\<rparr>"

lemma demo_bits:
  "find_first_zero_bit [1] 3 = Some 1" "bitmap_set_bit [1] 1 = Some [3]" "bitmap_set_bit [1] (Suc 0) = Some [3]"
  by code_simp+

lemma demo_alloc: "\<exists>s'. mq_allocate demo_attr (demo_mqstate M L) = Some (s', Some 0x20000294)"
  by (simp add: mq_allocate_def kmalloc_def critr_def kmalloc_slab_index_def kmalloc_slab_info_def
      kmem_cache_alloc_def kmem_cache_pick_def kmem_cache_take_def demo_mqstate_def demo_sstate_def demo_pstate_def demo_bits lst_def
      preempt_disable_def preempt_enable_def preempt_count_inc_def preempt_count_dec_def sstate.defs kstate.defs pstate.defs demo_state_def
      demo_kstate_def config demo_attr_def Let_def ALIGN_def ALIGN_MASK_def mq_elements_def head_init_def mq_r_wait_list_def mq_w_wait_list_def)

text \<open>The queue of the demonstration: one element in use with priority 2, one free.\<close>

definition demo_q :: mqueue where
  "demo_q = \<lparr>mq_name = ''q'', mq_buf = 0x20000054, mq_size = 2, mq_cnt = 1,
             mq_links = [(Mq_used 2, 0x20000054), (Mq_free, 0x20000070)], mq_data = (\<lambda>_. [7]), mq_element_size = 28\<rparr>"

definition demo_qattr :: mq_attr where
  "demo_qattr = \<lparr>mq_flags = O_RDWR, mq_maxmsg = 2, mq_msgsize = 16, mq_curmsgs = 0\<rparr>"

definition demo_qstate :: mqstate where
  "demo_qstate = demo_mqstate [0x20000294 \<mapsto> demo_q] [0x20000294]"

lemma demo_q_wf: "mq_wf demo_q"
proof -
  have "{..5::nat} = {0, 1, 2, 3, 4, 5}" by auto
  then show ?thesis by (auto simp: mq_wf_def mq_total_def demo_q_def lk_wf_def lst_def mq_items_def config)
qed

lemma demo_q_items: "mq_items demo_q 2 = [[7]]" "mq_total demo_q = 1"
proof -
  have "{..5::nat} = {0, 1, 2, 3, 4, 5}" by auto
  then show "mq_items demo_q 2 = [[7]]" "mq_total demo_q = 1"
    by (simp_all add: mq_items_def mq_total_def demo_q_def lst_def config)
qed

lemma demo_qstate_sel:
  "sched_wf demo_qstate" "t_status (threads demo_qstate (running demo_qstate)) = THREAD_RUNNING"
  "mqueues demo_qstate 0x20000294 = Some demo_q"
proof -
  have "sched_wf (demo_state\<lparr>threads := demo_threads(0 := (demo_threads 0)\<lparr>t_task := Some 0\<rparr>)\<rparr>)"
    using demo_state_wf(1) by (simp add: demo_state_def demo_kstate_def sched_wf_def)
  then show "sched_wf demo_qstate"
    by (simp add: demo_qstate_def demo_mqstate_def demo_sstate_def demo_pstate_def sched_wf_def sstate.defs kstate.defs pstate.defs)
  show "t_status (threads demo_qstate (running demo_qstate)) = THREAD_RUNNING" "mqueues demo_qstate 0x20000294 = Some demo_q"
    by (simp_all add: demo_qstate_def demo_mqstate_def demo_sstate_def demo_pstate_def sstate.defs kstate.defs pstate.defs demo_state_def demo_kstate_def
        demo_threads_def demo_thread_def)
qed

theorem mq_priority_fifo_witness:
  "\<exists>s' r q'. mq_send_body 0x20000294 demo_qattr [8, 9] 2 3 demo_qstate = Some (s', r) \<and> r = 0
     \<and> mqueues s' 0x20000294 = Some q' \<and> mq_items q' 3 = [[8, 9]] \<and> mq_items q' 2 = [[7]]"
proof -
  have "\<not> (mq_send_copies demo_qattr 2 demo_q \<and> mq_element_size demo_q < MQUEUE_DATA_SIZE + unat (2 :: u32))"
    by (simp add: config demo_q_def)
  from mq_send_body_spec [OF demo_qstate_sel demo_q_wf _ _ this, of "[8, 9]" 3] obtain s' r where
    s': "mq_send_body 0x20000294 demo_qattr [8, 9] 2 3 demo_qstate = Some (s', r)"
    and res: "mq_send_result 0x20000294 demo_qattr [8, 9] 2 3 demo_q demo_qstate s' r" by (auto simp: config)
  have r: "r = 0" using res demo_q_items(2) by (simp add: mq_send_result_def demo_qattr_def config demo_q_def)
  have "mq_run 0x20000294 demo_qstate ([] @ [(3, take (unat (2 :: u32)) [8, 9])]) [] s'"
    using mq_run_send [OF mq_run_start s'] r by simp
  from mq_priority_fifo [OF demo_qstate_sel(3) demo_q_wf this] obtain q' where
    "mqueues s' 0x20000294 = Some q'" "\<forall>p. mq_items q' p = mq_items demo_q p @ of_prio p [(3, [8, 9])]" by auto
  moreover have "mq_items demo_q 3 = []" by (simp add: mq_items_def demo_q_def lst_def)
  ultimately show ?thesis using s' r demo_q_items(1) by (auto simp: of_prio_def)
qed

theorem mq_send_receive_results_witness:
  "(\<exists>s' r. mq_send_body 0x20000294 demo_qattr [8, 9] 2 3 demo_qstate = Some (s', r)
      \<and> mq_send_result 0x20000294 demo_qattr [8, 9] 2 3 demo_q demo_qstate s' r)
   \<and> (\<exists>s' buf' prio' r. mq_receive_body 0x20000294 demo_qattr (replicate 16 0) 16 (Some 0) demo_qstate = Some (s', buf', prio', r)
      \<and> mq_receive_result 0x20000294 demo_qattr 16 demo_q demo_qstate s' buf' prio' r)
   \<and> mq_send_body 0x20000294 (demo_qattr\<lparr>mq_msgsize := 18\<rparr>) (replicate 17 1) 17 3 demo_qstate = None"
proof -
  have "unat (ALIGN (word_of_nat MQUEUE_DATA_SIZE + 16) 4 :: u32) = 28" "unat (ALIGN (word_of_nat MQUEUE_DATA_SIZE + 18) 4 :: u32) = 28"
    by (simp_all add: config ALIGN_def ALIGN_MASK_def)
  then show ?thesis
    using mq_send_receive_results [OF demo_qstate_sel demo_q_wf, of demo_qattr 2 "[8, 9]" 3 16 "replicate 16 0" "Some 0"]
      mq_send_receive_results [OF demo_qstate_sel demo_q_wf, of "demo_qattr\<lparr>mq_msgsize := 18\<rparr>" 17 "replicate 17 1" 3 16 "replicate 16 0" "Some 0"]
    using demo_q_items(2) by (simp add: config demo_qattr_def demo_q_def mq_send_copies_def)
qed

theorem mq_full_message_overflows_witness:
  "\<exists>s' q. mq_allocate demo_attr (demo_mqstate (\<lambda>_. None) []) = Some (s', Some 0x20000294)
     \<and> mqueues s' 0x20000294 = Some q \<and> mq_in q (replicate 50 1) 50 0 = None"
proof -
  from demo_alloc obtain s' where s': "mq_allocate demo_attr (demo_mqstate (\<lambda>_. None) []) = Some (s', Some 0x20000294)" by blast
  have "unat (mq_msgsize demo_attr) = 50" by (simp add: demo_attr_def)
  with mq_full_message_overflows [OF s', of "replicate 50 1" 0] s' show ?thesis by (auto simp: config)
qed

theorem mq_receive_exact_length_witness:
  "\<exists>s'. sys_mq_receive_enter 0 (replicate 64 0) 64 None
     (demo_qstate\<lparr>bitmap_mqds := [1, 0], tasks := (\<lambda>p. (tasks demo_qstate p)\<lparr>k_bitmap_mqds := [1, 0]\<rparr>)\<rparr>)
     = Some (s', replicate 64 0, None, Some (- EMSGSIZE))"
proof (rule mq_receive_exact_length)
qed (simp_all add: demo_qstate_def demo_mqstate_def demo_sstate_def demo_pstate_def sstate.defs kstate.defs pstate.defs demo_state_def demo_kstate_def
   mqd_valid_def current_task_def preempt_disable_def preempt_count_inc_def bitmap_get_bit_def config demo_attr_def)

text \<open>The allocator leaves the queues alone.\<close>

lemma slab_move_mq: "slab_move a c k s = Some s' \<Longrightarrow> same_mq s s'"
  by (auto simp: slab_move_def same_mq_def split: if_splits)

lemma slab_destroy_mq: "slab_destroy a s = Some s' \<Longrightarrow> same_mq s s'"
  by (auto simp: slab_destroy_def same_mq_def bind_eq_Some_iff split: if_splits)

lemma kmem_cache_free_mq: "kmem_cache_free c obj s = Some s' \<Longrightarrow> same_mq s s'"
  by (auto simp: kmem_cache_free_def same_mq_def bind_eq_Some_iff Let_def dest!: slab_destroy_mq slab_move_mq split: if_splits)

lemma kfree_mq: "kfree p s = Some s' \<Longrightarrow> same_mq s s'"
  by (auto simp: kfree_def crit_def same_mq_def bind_eq_Some_iff Let_def dest!: kmem_cache_free_mq split: if_splits)

lemma acquire_mqueue_in_freed:
  "acquire_mqueue_in M name mqs = Some (Some mq) \<Longrightarrow> acquire_mqueue_in (M(mq := None)) name mqs = None"
  by (induction mqs) (auto simp: bind_eq_Some_iff split: if_splits)

text \<open>
  \<^verbatim>\<open>mq_unlink\<close> frees a queue but leaves it on the list of queues: after a successful
  \<^verbatim>\<open>mq_unlink\<close> the next \<^verbatim>\<open>mq_open\<close> or \<^verbatim>\<open>mq_unlink\<close> of the same name compares it with the name of the
  freed queue.\<close>

theorem mq_unlink_use_after_free:
  assumes "sys_mq_unlink name s = Some (s', 0)"
  shows "sys_mq_open stale name oflag attr s' = None \<and> sys_mq_unlink name s' = None"
proof -
  from assms obtain mq s1 where mq: "length name < NAME_MAX" "acquire_mqueue name (preempt_disable s) = Some (Some mq)"
    "mq_free mq (preempt_disable s) = Some s1" "s' = preempt_enable s1"
    by (auto simp: sys_mq_unlink_def critr_def errno bind_eq_Some_iff split: if_splits option.splits)
  then have "mqueues s1 = (mqueues s)(mq := None)" "mqueue_list s1 = mqueue_list s"
    by (auto simp: mq_free_def bind_eq_Some_iff same_mq_def dest!: kfree_mq)
  with mq acquire_mqueue_in_freed [of "mqueues s" name "mqueue_list s" mq]
  have "acquire_mqueue name (preempt_disable s') = None" by (simp add: acquire_mqueue_def)
  then show ?thesis using mq(1) by (simp add: sys_mq_open_def sys_mq_unlink_def critr_def)
qed

theorem mq_unlink_use_after_free_witness:
  "\<exists>s'. sys_mq_unlink ''q'' (demo_qstate\<lparr>mem := \<lambda>a. if a = 0x20000290 then 124 else 60,
       slabs := (\<lambda>_. Some \<lparr>sl_free_bitmap = [3], sl_free_objects = 1\<rparr>)\<rparr>) = Some (s', 0)
     \<and> sys_mq_open demo_attr ''q'' O_CREAT None s' = None \<and> sys_mq_unlink ''q'' s' = None"
proof -
  have b: "bitmap_clear_bit [3] (Suc 0) = Some [1]" by code_simp
  have "\<exists>s'. sys_mq_unlink ''q'' (demo_qstate\<lparr>mem := \<lambda>a. if a = 0x20000290 then 124 else 60,
       slabs := (\<lambda>_. Some \<lparr>sl_free_bitmap = [3], sl_free_objects = 1\<rparr>)\<rparr>) = Some (s', 0)"
    by (simp add: sys_mq_unlink_def critr_def crit_def acquire_mqueue_def mq_free_def kfree_def kmalloc_slab_index_def kmalloc_slab_info_def
      kmem_cache_free_def slab_destroy_def slab_move_def obj_index_in_slab_def get_slab_from_obj_def demo_mqstate_def demo_sstate_def demo_pstate_def b lst_def
      preempt_disable_def preempt_enable_def preempt_count_inc_def preempt_count_dec_def sstate.defs kstate.defs pstate.defs demo_state_def
      demo_kstate_def config demo_attr_def Let_def ALIGN_def ALIGN_MASK_def demo_qstate_def demo_q_def)
  then show ?thesis using mq_unlink_use_after_free by blast
qed

end
