(* ===== verification/Thread.thy ===== *)
theory Thread
  imports Pipe
begin

text \<open>
  The life of threads and tasks (\<^verbatim>\<open>kernel/kernel.c\<close>, \<^verbatim>\<open>kernel/pthread.c\<close>): creation, joining,
  cancelling, termination, scheduling parameters, the entry and return of system calls, and the
  iteration over thread information.

  A new thread carves its pipe, its signal queue and its first stack frame out of its stack
  page, from the top down; a stack that is too small for them makes the kernel write below
  the page, which is \<^const>\<open>None\<close>. The bytes of the two FIFO buffers are kept with the FIFOs; they are
  never read before they are written. \<^verbatim>\<open>printk\<close> messages are left out.
\<close>

section \<open>Attributes (pthread.c)\<close>

definition PTHREAD_CREATE_DETACHED :: int where [config]: "PTHREAD_CREATE_DETACHED = 0"
definition PTHREAD_CREATE_JOINABLE :: int where [config]: "PTHREAD_CREATE_JOINABLE = 1"
definition SCHED_RR :: int where [config]: "SCHED_RR = 2"
definition PIPE_BUF :: nat where [config]: "PIPE_BUF = 100"

record thread_attr =
  ta_sched_priority :: int
  ta_stackaddr :: u32
  ta_stacksize :: u32
  ta_schedpolicy :: int
  ta_detachstate :: int

text \<open>Each function takes a pointer to the attributes, which may be \<^verbatim>\<open>NULL\<close>.\<close>

definition pthread_attr_init :: "thread_attr option \<Rightarrow> thread_attr option \<times> int" where
  "pthread_attr_init attr = (case attr of None \<Rightarrow> (None, - ENOMEM)
     | Some _ \<Rightarrow> (Some \<lparr>ta_sched_priority = 0, ta_stackaddr = 0, ta_stacksize = 512,
                        ta_schedpolicy = SCHED_RR, ta_detachstate = PTHREAD_CREATE_JOINABLE\<rparr>, 0))"

definition pthread_attr_destroy :: "thread_attr option \<Rightarrow> thread_attr option \<times> int" where
  "pthread_attr_destroy attr = (case attr of None \<Rightarrow> (None, - ENOMEM)
     | Some _ \<Rightarrow> (Some \<lparr>ta_sched_priority = 0, ta_stackaddr = 0, ta_stacksize = 0,
                        ta_schedpolicy = 0, ta_detachstate = 0\<rparr>, 0))"

definition pthread_attr_setschedparam :: "thread_attr option \<Rightarrow> int option \<Rightarrow> thread_attr option \<times> int" where
  "pthread_attr_setschedparam attr param = (case (attr, param) of
       (Some a, Some p) \<Rightarrow> (Some (a\<lparr>ta_sched_priority := p\<rparr>), 0) | _ \<Rightarrow> (attr, - ENOMEM))"

definition pthread_attr_getschedparam :: "thread_attr option \<Rightarrow> int option \<Rightarrow> int option \<times> int" where
  "pthread_attr_getschedparam attr param = (case (attr, param) of
       (Some a, Some _) \<Rightarrow> (Some (ta_sched_priority a), 0) | _ \<Rightarrow> (param, - ENOMEM))"

definition pthread_attr_setschedpolicy :: "thread_attr option \<Rightarrow> int \<Rightarrow> thread_attr option \<times> int" where
  "pthread_attr_setschedpolicy attr policy = (case attr of None \<Rightarrow> (None, - ENOMEM)
     | Some a \<Rightarrow> (Some (a\<lparr>ta_schedpolicy := policy\<rparr>), 0))"

definition pthread_attr_getschedpolicy :: "thread_attr option \<Rightarrow> int option \<Rightarrow> int option \<times> int" where
  "pthread_attr_getschedpolicy attr policy = (case (attr, policy) of
       (Some a, Some _) \<Rightarrow> (Some (ta_schedpolicy a), 0) | _ \<Rightarrow> (policy, - ENOMEM))"

definition pthread_attr_setstacksize :: "thread_attr option \<Rightarrow> u32 \<Rightarrow> thread_attr option \<times> int" where
  "pthread_attr_setstacksize attr stacksize = (case attr of None \<Rightarrow> (None, - ENOMEM)
     | Some a \<Rightarrow> (Some (a\<lparr>ta_stacksize := stacksize\<rparr>), 0))"

definition pthread_attr_getstacksize :: "thread_attr option \<Rightarrow> u32 option \<Rightarrow> u32 option \<times> int" where
  "pthread_attr_getstacksize attr stacksize = (case (attr, stacksize) of
       (Some a, Some _) \<Rightarrow> (Some (ta_stacksize a), 0) | _ \<Rightarrow> (stacksize, - ENOMEM))"

definition pthread_attr_setdetachstate :: "thread_attr option \<Rightarrow> int \<Rightarrow> thread_attr option \<times> int" where
  "pthread_attr_setdetachstate attr detachstate = (case attr of None \<Rightarrow> (None, - ENOMEM)
     | Some a \<Rightarrow>
         if ta_detachstate a \<noteq> PTHREAD_CREATE_DETACHED \<and> ta_detachstate a \<noteq> PTHREAD_CREATE_JOINABLE
         then (Some a, - EINVAL) else (Some (a\<lparr>ta_detachstate := detachstate\<rparr>), 0))"

definition pthread_attr_getdetachstate :: "thread_attr option \<Rightarrow> int option \<Rightarrow> int option \<times> int" where
  "pthread_attr_getdetachstate attr detachstate = (case (attr, detachstate) of
       (Some a, Some _) \<Rightarrow> (Some (ta_detachstate a), 0) | _ \<Rightarrow> (detachstate, - ENOMEM))"

definition pthread_attr_setstackaddr :: "thread_attr option \<Rightarrow> u32 \<Rightarrow> thread_attr option \<times> int" where
  "pthread_attr_setstackaddr attr stackaddr = (case attr of None \<Rightarrow> (None, - ENOMEM)
     | Some a \<Rightarrow> if stackaddr = 0 then (Some a, - EINVAL) else (Some (a\<lparr>ta_stackaddr := stackaddr\<rparr>), 0))"

definition pthread_attr_getstackaddr :: "thread_attr option \<Rightarrow> u32 option \<Rightarrow> u32 option \<times> int" where
  "pthread_attr_getstackaddr attr stackaddr = (case (attr, stackaddr) of
       (Some a, Some _) \<Rightarrow> (Some (ta_stackaddr a), 0) | _ \<Rightarrow> (stackaddr, - ENOMEM))"

section \<open>Creating threads and tasks\<close>

text \<open>\<^verbatim>\<open>list_add\<close> and \<^verbatim>\<open>list_del\<close> on the lists \<^verbatim>\<open>threads_list\<close>, \<^verbatim>\<open>tasks_list\<close> and the threads of a task, whose
  nodes are on one list each.\<close>

definition seq_add :: "'b \<Rightarrow> 'b list \<Rightarrow> 'b list option" where
  "seq_add x xs = (if x \<in> set xs then None else Some (xs @ [x]))"

definition seq_del :: "'b \<Rightarrow> 'b list \<Rightarrow> 'b list option" where
  "seq_del x xs = (if x \<in> set xs then Some (remove1 x xs) else None)"

primrec acquire_in :: "(nat \<Rightarrow> nat) \<Rightarrow> int \<Rightarrow> nat list \<Rightarrow> nat option" where
  "acquire_in key k [] = None"
| "acquire_in key k (x # xs) = (if int (key x) = k then Some x else acquire_in key k xs)"

definition acquire_task :: "int \<Rightarrow> 'a kstate_scheme \<Rightarrow> nat option" where
  "acquire_task pid s = acquire_in (\<lambda>k. k_pid (tasks s k)) pid (tasks_list s)"

definition acquire_thread :: "int \<Rightarrow> 'a kstate_scheme \<Rightarrow> nat option" where
  "acquire_thread tid s = acquire_in (\<lambda>t. t_tid (threads s t)) tid (threads_list s)"

text \<open>Sizes of \<^verbatim>\<open>struct pipe\<close>, \<^verbatim>\<open>struct kfifo\<close> and a stack frame on the target.\<close>

definition PIPE_SIZE :: nat where [config]: "PIPE_SIZE = 44"
definition KFIFO_SIZE :: nat where [config]: "KFIFO_SIZE = 32"
definition FRAME_SIZE :: nat where [config]: "FRAME_SIZE = 72"

definition THREAD_PIPE_FD :: "nat \<Rightarrow> nat" where
  "THREAD_PIPE_FD thread_id = thread_id + 3"

definition thread_pipe_alloc :: "nat \<Rightarrow> u32 \<Rightarrow> 'a pstate_scheme \<Rightarrow> ('a pstate_scheme \<times> u32) option" where
  "thread_pipe_alloc tid stack_top s = do {
     let pipe_size = ALIGN (word_of_nat PIPE_SIZE) 4;
     let kfifo_size = ALIGN (word_of_nat KFIFO_SIZE) 4;
     let buf_size = ALIGN (word_of_nat PIPE_BUF) 4;
     let pipe = stack_top - pipe_size;
     let pipe_fifo = pipe - kfifo_size;
     let buf = pipe_fifo - buf_size;
     (s1, _) \<leftarrow> fifo_init (THREAD_PIPE_FD tid) None
       \<lparr>p_fifo = kfifo_init (replicate (unat buf_size) 0) 1 PIPE_BUF,
        p_r_wait_list = unat (pipe + 28), p_w_wait_list = unat (pipe + 36)\<rparr> s;
     Some (s1, buf)
   }"

definition thread_signal_queue_alloc :: "u32 \<Rightarrow> kfifo \<times> u32" where
  "thread_signal_queue_alloc stack_top =
     (let payload_size = kfifo_header_size + STAGED_HANDLER_INFO_SIZE;
          queue_size = ALIGN (word_of_nat (payload_size * SIGNAL_QUEUE_SIZE)) 4 in
      (kfifo_init (replicate (unat queue_size) 0) payload_size SIGNAL_QUEUE_SIZE, stack_top - queue_size))"

text \<open>The control block after the \<^verbatim>\<open>memset\<close> of \<^verbatim>\<open>thread_create\<close>.\<close>

definition zero_thread :: thread where
  "zero_thread =
     \<lparr>t_task = None, t_stack_top = 0, t_stack_top_preserved = 0, t_stack = 0, t_stack_size = 0,
      t_syscall_args = [0, 0, 0, 0], t_syscall_stack_top = 0, t_syscall_mode = False, t_syscall_is_timeout = False,
      t_syscall_timeout = \<lparr>tv_sec = 0, tv_nsec = 0\<rparr>, t_retval = 0, t_retval_join = 0,
      t_file_request_size = 0, t_sleep_ticks = 0, t_preempt_cnt = 0, t_tid = 0, t_timer_cnt = 0, t_timers_list = None,
      t_privilege = KERNEL_THREAD, t_status = THREAD_WAIT, t_priority = 0, t_original_priority = 0,
      t_kernel_thread = False, t_priority_inherited = False, t_detached = False, t_joinable = False,
      t_name = [], t_once_control = None, t_sig_table = (\<lambda>_. None),
      t_signal_queue = kfifo_init [] 0 0, t_sig_wait_set = 0, t_signal_cnt = 0, t_ret_sig = 0,
      t_wait_for_signal = False, t_poll_files = []\<rparr>"

text \<open>The argument of type \<^verbatim>\<open>unsigned long\<close> that receives the result of \<^verbatim>\<open>size_to_page_order\<close>.\<close>

definition order_arg :: "u32 \<Rightarrow> nat" where
  "order_arg sz = unat (word_of_int (size_to_page_order (unat sz)) :: u32)"

definition bad_thread_attr :: "thread_attr \<Rightarrow> bool \<Rightarrow> bool" where
  "bad_thread_attr attr kernel_thread \<longleftrightarrow>
     (ta_detachstate attr \<noteq> PTHREAD_CREATE_DETACHED \<and> ta_detachstate attr \<noteq> PTHREAD_CREATE_JOINABLE)
     \<or> (if kernel_thread then ta_sched_priority attr < 0 \<or> ta_sched_priority attr > int KTHREAD_PRI_MAX
        else ta_sched_priority attr < 0 \<or> ta_sched_priority attr > int THREAD_PRIORITY_MAX)
     \<or> ta_schedpolicy attr \<noteq> SCHED_RR"

text \<open>The part of \<^verbatim>\<open>thread_create\<close> after the stack page is allocated.\<close>

definition thread_setup ::
  "nat \<Rightarrow> u32 \<Rightarrow> u32 \<Rightarrow> thread_attr \<Rightarrow> u32 \<Rightarrow> bool \<Rightarrow> u32 \<Rightarrow> 'a pstate_scheme \<Rightarrow> 'a pstate_scheme option" where
  "thread_setup tid stack thread_func attr thread_arg kernel_thread stack_size s = do {
     (s1, sp1) \<leftarrow> thread_pipe_alloc tid (stack + stack_size) s;
     let (queue, sp2) = thread_signal_queue_alloc sp1;
     (sp, m) \<leftarrow> stack_init (mem s1) sp2 thread_func (handler_addr s1 Thread_Return) (Some [thread_arg, 0, 0, 0]);
     s2 \<leftarrow> (if sp < stack \<or> stack + stack_size < sp then None else Some (s1\<lparr>mem := m\<rparr>));
     let s3 = upd_thread tid (\<lambda>th. th\<lparr>
        t_stack := stack, t_stack_top := sp, t_signal_queue := queue, t_stack_size := stack_size,
        t_status := THREAD_WAIT, t_tid := tid, t_priority := nat (ta_sched_priority attr),
        t_kernel_thread := kernel_thread,
        t_privilege := (if kernel_thread then KERNEL_THREAD else USER_THREAD),
        t_joinable := ta_detachstate attr \<noteq> PTHREAD_CREATE_DETACHED,
        t_detached := ta_detachstate attr = PTHREAD_CREATE_DETACHED\<rparr>) s2;
     s4 \<leftarrow> head_init (Join tid) s3;
     tl \<leftarrow> seq_add tid (threads_list s4);
     node_add tid Sleep (s4\<lparr>threads_list := tl\<rparr>)
   }"

definition thread_create ::
  "u32 \<Rightarrow> thread_attr \<Rightarrow> u32 \<Rightarrow> bool \<Rightarrow> 'a pstate_scheme \<Rightarrow> ('a pstate_scheme \<times> nat option \<times> int) option" where
  "thread_create thread_func attr thread_arg kernel_thread s =
     (if bad_thread_attr attr kernel_thread then Some (s, None, - EINVAL)
      else do {
        tid \<leftarrow> find_first_zero_bit (bitmap_threads s) THREAD_MAX;
        if tid \<ge> THREAD_MAX then Some (s, None, - EAGAIN)
        else do {
          bm \<leftarrow> bitmap_set_bit (bitmap_threads s) tid;
          let stack_size = ALIGN (ta_stacksize attr) 4;
          let s1 = s\<lparr>bitmap_threads := bm, threads := (threads s)(tid := zero_thread)\<rparr>;
          (pb, stack) \<leftarrow> alloc_pages (page_start s1) (pages s1) (order_arg stack_size);
          case stack of
            None \<Rightarrow> do {
              bm1 \<leftarrow> bitmap_clear_bit bm tid;
              Some (s1\<lparr>pages := pb, bitmap_threads := bm1\<rparr>, None, - ENOMEM)
            }
          | Some stk \<Rightarrow>
              map_option (\<lambda>s2. (s2, Some tid, 0))
                (thread_setup tid stk thread_func attr thread_arg kernel_thread stack_size (s1\<lparr>pages := pb\<rparr>))
        }
      })"

definition zero_task :: task where
  "zero_task = \<lparr>k_pid = 0, k_main_thread = 0, k_bitmap_fds = replicate (BITMAP_SIZE 100) 0,
                k_bitmap_mqds = replicate (BITMAP_SIZE 50) 0, k_threads_list = []\<rparr>"

text \<open>\<^verbatim>\<open>_task_create\<close>.\<close>

definition task_create_body ::
  "u32 \<Rightarrow> u8 \<Rightarrow> u32 \<Rightarrow> bool \<Rightarrow> 'a pstate_scheme \<Rightarrow> ('a pstate_scheme \<times> int) option" where
  "task_create_body task_func priority stack_size kernel_thread s = do {
     let attr = \<lparr>ta_sched_priority = uint priority, ta_stackaddr = 0, ta_stacksize = stack_size,
                 ta_schedpolicy = SCHED_RR, ta_detachstate = PTHREAD_CREATE_JOINABLE\<rparr>;
     (s1, thread, retval) \<leftarrow> thread_create task_func attr 0 kernel_thread s;
     case thread of None \<Rightarrow> Some (s1, retval)
     | Some t \<Rightarrow> do {
         pid \<leftarrow> find_first_zero_bit (bitmap_tasks s1) TASK_MAX;
         if pid \<ge> TASK_MAX then Some (s1, - 1)
         else do {
           bm \<leftarrow> bitmap_set_bit (bitmap_tasks s1) pid;
           tl \<leftarrow> seq_add pid (tasks_list s1);
           Some (upd_thread t (t_task_update (\<lambda>_. Some pid))
                   (s1\<lparr>bitmap_tasks := bm, tasks_list := tl,
                       tasks := (tasks s1)(pid := zero_task\<lparr>k_pid := pid, k_main_thread := t, k_threads_list := [t]\<rparr>)\<rparr>),
                 int pid)
         }
       }
   }"

definition kthread_create :: "u32 \<Rightarrow> u8 \<Rightarrow> u32 \<Rightarrow> 'a pstate_scheme \<Rightarrow> ('a pstate_scheme \<times> int) option" where
  "kthread_create task_func priority stack_size = critr (task_create_body task_func priority stack_size True)"

definition sys_task_create :: "u32 \<Rightarrow> u8 \<Rightarrow> u32 \<Rightarrow> 'a pstate_scheme \<Rightarrow> ('a pstate_scheme \<times> int) option" where
  "sys_task_create task_func priority stack_size = critr (task_create_body task_func priority stack_size False)"

definition sys_pthread_create ::
  "thread_attr option \<Rightarrow> u32 \<Rightarrow> u32 \<Rightarrow> 'a pstate_scheme \<Rightarrow> ('a pstate_scheme \<times> nat option \<times> int) option" where
  "sys_pthread_create attr start_routine arg = critr (\<lambda>s. do {
     let me = threads s (running s);
     a \<leftarrow> (case attr of Some a \<Rightarrow> Some a
           | None \<Rightarrow> map_option (ta_sched_priority_update (\<lambda>_. int (t_priority me)))
                       (fst (pthread_attr_init (Some \<lparr>ta_sched_priority = 0, ta_stackaddr = 0, ta_stacksize = 0,
                          ta_schedpolicy = 0, ta_detachstate = 0\<rparr>))));
     (s1, thread, retval) \<leftarrow> thread_create start_routine a arg (t_kernel_thread me) s;
     case thread of None \<Rightarrow> Some (s1, None, retval)
     | Some t \<Rightarrow> do {
         k \<leftarrow> current_task s1;
         tl \<leftarrow> seq_add t (k_threads_list (tasks s1 k));
         Some (upd_thread t (\<lambda>th. th\<lparr>t_name := take THREAD_NAME_MAX (t_name me), t_task := Some k\<rparr>)
                 (s1\<lparr>tasks := (tasks s1)(k := (tasks s1 k)\<lparr>k_threads_list := tl\<rparr>)\<rparr>), Some t, retval)
       }
   })"

section \<open>Ending threads and tasks\<close>

definition task_delete :: "nat \<Rightarrow> 'a kstate_scheme \<Rightarrow> 'a kstate_scheme option" where
  "task_delete k s = do {
     tl \<leftarrow> seq_del k (tasks_list s);
     bm \<leftarrow> bitmap_clear_bit (bitmap_tasks s) (k_pid (tasks s k));
     Some (s\<lparr>tasks_list := tl, bitmap_tasks := bm,
             bitmap_fds := map2 (\<lambda>g t. g AND NOT t) (bitmap_fds s) (k_bitmap_fds (tasks s k)),
             bitmap_mqds := map2 (\<lambda>g t. g AND NOT t) (bitmap_mqds s) (k_bitmap_mqds (tasks s k))\<rparr>)
   }"

text \<open>\<^verbatim>\<open>list_del(&thread->task_list)\<close>.\<close>

definition task_unlink :: "nat \<Rightarrow> 'a kstate_scheme \<Rightarrow> 'a kstate_scheme option" where
  "task_unlink t s = do {
     k \<leftarrow> t_task (threads s t);
     tl \<leftarrow> seq_del t (k_threads_list (tasks s k));
     Some (s\<lparr>tasks := (tasks s)(k := (tasks s k)\<lparr>k_threads_list := tl\<rparr>)\<rparr>)
   }"

definition thread_unlink :: "nat \<Rightarrow> 'a kstate_scheme \<Rightarrow> 'a kstate_scheme option" where
  "thread_unlink t s = map_option (\<lambda>tl. s\<lparr>threads_list := tl\<rparr>) (seq_del t (threads_list s))"

text \<open>The status, the bit and the stack of a thread that is removed.\<close>

definition thread_release :: "nat \<Rightarrow> 'a kstate_scheme \<Rightarrow> 'a kstate_scheme option" where
  "thread_release t s = do {
     let s1 = set_status t THREAD_TERMINATED s;
     bm \<leftarrow> bitmap_clear_bit (bitmap_threads s1) (t_tid (threads s1 t));
     pb \<leftarrow> free_pages (page_start s1) (pages s1) (t_stack (threads s1 t)) (order_arg (t_stack_size (threads s1 t)));
     Some (s1\<lparr>bitmap_threads := bm, pages := pb\<rparr>)
   }"

definition thread_delete :: "nat \<Rightarrow> 'a kstate_scheme \<Rightarrow> 'a kstate_scheme option" where
  "thread_delete t s = do {
     s1 \<leftarrow> task_unlink t s;
     s2 \<leftarrow> thread_unlink t s1;
     s3 \<leftarrow> (if t \<noteq> running s2 then node_del t s2 else Some s2);
     s4 \<leftarrow> thread_release t s3;
     k \<leftarrow> current_task s4;
     if k_threads_list (tasks s4 k) = [] then task_delete k s4 else Some s4
   }"

text \<open>The loop of \<^verbatim>\<open>thread_join_handler\<close> over the joining threads.\<close>

primrec join_each :: "nat list \<Rightarrow> 'a kstate_scheme \<Rightarrow> 'a kstate_scheme option" where
  "join_each [] s = Some s"
| "join_each (t # ts) s = do {
     let s1 = (if t_retval_join (threads s t) \<noteq> 0
               then s\<lparr>mem := (mem s)(t_retval_join (threads s t) := t_retval (threads s (running s)))\<rparr> else s);
     s2 \<leftarrow> finish_wait t s1;
     join_each ts s2
   }"

definition thread_join_handler :: "'a kstate_scheme \<Rightarrow> 'a kstate_scheme option" where
  "thread_join_handler s = do {
     s1 \<leftarrow> join_each (lst (links s) (Join (running s))) s;
     k \<leftarrow> current_task s1;
     s2 \<leftarrow> (if k_threads_list (tasks s1 k) = [] then task_delete k s1 else Some s1);
     s3 \<leftarrow> thread_unlink (running s2) s2;
     s4 \<leftarrow> task_unlink (running s3) s3;
     thread_release (running s4) s4
   }"

primrec exit_each :: "nat list \<Rightarrow> 'a kstate_scheme \<Rightarrow> 'a kstate_scheme option" where
  "exit_each [] s = Some s"
| "exit_each (t # ts) s = do {
     s1 \<leftarrow> thread_unlink t s;
     s2 \<leftarrow> task_unlink t s1;
     s3 \<leftarrow> node_del t s2;
     s4 \<leftarrow> thread_release t s3;
     exit_each ts s4
   }"

definition sys_exit :: "'a kstate_scheme \<Rightarrow> 'a kstate_scheme option" where
  "sys_exit = crit (\<lambda>s. do {
     k \<leftarrow> current_task s;
     s1 \<leftarrow> exit_each (k_threads_list (tasks s k)) s;
     task_delete k s1
   })"

section \<open>The pthread system calls\<close>

definition sys_pthread_self :: "'a kstate_scheme \<Rightarrow> nat" where
  "sys_pthread_self s = t_tid (threads s (running s))"

definition sys_pthread_join :: "u32 \<Rightarrow> u32 \<Rightarrow> 'a kstate_scheme \<Rightarrow> ('a kstate_scheme \<times> int) option" where
  "sys_pthread_join tid pthread_retval = critr (\<lambda>s.
     case acquire_thread (sint tid) s of
       None \<Rightarrow> Some (s, - ESRCH)
     | Some t \<Rightarrow>
         if t_detached (threads s t) \<or> \<not> t_joinable (threads s t) then Some (s, - EINVAL)
         else if t \<in> set (lst (links s) (Join (running s))) then Some (s, - EDEADLK)
         else do {
           s1 \<leftarrow> node_add (running s) (Join t)
                  (upd_thread (running s) (t_retval_join_update (\<lambda>_. pthread_retval)) s);
           Some (set_status (running s) THREAD_WAIT s1, 0)
         })"

definition sys_pthread_cancel :: "u32 \<Rightarrow> 'a kstate_scheme \<Rightarrow> ('a kstate_scheme \<times> int) option" where
  "sys_pthread_cancel tid = critr (\<lambda>s.
     case acquire_thread (sint tid) s of
       None \<Rightarrow> Some (s, - ESRCH)
     | Some t \<Rightarrow>
         if t_privilege (threads s t) = KERNEL_THREAD then Some (s, - EPERM)
         else map_option (\<lambda>s1. (s1, 0)) (thread_delete t s))"

definition sys_pthread_detach :: "u32 \<Rightarrow> 'a kstate_scheme \<Rightarrow> ('a kstate_scheme \<times> int) option" where
  "sys_pthread_detach tid = critr (\<lambda>s. do {
     b \<leftarrow> bitmap_get_bit (bitmap_threads s) (unat tid);
     if \<not> b then Some (s, - ESRCH)
     else Some (upd_thread (unat tid) (t_detached_update (\<lambda>_. True)) s, 0)
   })"

definition sys_pthread_setschedparam :: "u32 \<Rightarrow> int \<Rightarrow> 'a kstate_scheme \<Rightarrow> ('a kstate_scheme \<times> int) option" where
  "sys_pthread_setschedparam tid sched_priority = critr (\<lambda>s.
     case acquire_thread (sint tid) s of
       None \<Rightarrow> Some (s, - ESRCH)
     | Some t \<Rightarrow>
         if t_privilege (threads s t) = KERNEL_THREAD then Some (s, - EPERM)
         else if sched_priority < 0 \<or> sched_priority > int THREAD_PRIORITY_MAX then Some (s, - EINVAL)
         else if t_priority_inherited (threads s t)
         then Some (upd_thread t (t_original_priority_update (\<lambda>_. nat sched_priority)) s, 0)
         else Some (upd_thread t (t_priority_update (\<lambda>_. nat sched_priority)) s, 0))"

definition sys_pthread_getschedparam :: "u32 \<Rightarrow> int \<Rightarrow> 'a kstate_scheme \<Rightarrow> ('a kstate_scheme \<times> int \<times> int) option" where
  "sys_pthread_getschedparam tid param = critr (\<lambda>s.
     case acquire_thread (sint tid) s of
       None \<Rightarrow> Some (s, param, - ESRCH)
     | Some t \<Rightarrow>
         if t_privilege (threads s t) = KERNEL_THREAD then Some (s, param, - EPERM)
         else Some (s, int (if t_priority_inherited (threads s t) then t_original_priority (threads s t)
                            else t_priority (threads s t)), 0))"

definition sys_pthread_exit :: "u32 \<Rightarrow> 'a kstate_scheme \<Rightarrow> 'a kstate_scheme option" where
  "sys_pthread_exit retval = crit (\<lambda>s.
     thread_join_handler (upd_thread (running s) (t_retval_update (\<lambda>_. retval)) s))"

text \<open>\<^verbatim>\<open>struct thread_once\<close>: whether the list head is initialised, and its number.\<close>

record thread_once =
  once_ready :: bool
  once_wq :: nat
  once_finished :: bool

definition sys_pthread_once ::
  "nat \<Rightarrow> thread_once \<Rightarrow> u32 \<Rightarrow> 'a kstate_scheme \<Rightarrow> ('a kstate_scheme \<times> thread_once \<times> int) option" where
  "sys_pthread_once ident once init_routine = critr (\<lambda>s.
     if once_finished once then Some (s, once, 0)
     else if once_ready once then
       map_option (\<lambda>s1. (s1, once, 0)) (prepare_to_wait (WaitQ (once_wq once)) (running s) THREAD_WAIT s)
     else do {
       s1 \<leftarrow> head_init (WaitQ (once_wq once)) s;
       s2 \<leftarrow> stage_temporary_handler (running s) init_routine (handler_addr s Thread_Once_Return) None
              (upd_thread (running s) (t_once_control_update (\<lambda>_. Some ident)) s1);
       Some (s2, once\<lparr>once_ready := True\<rparr>, 0)
     })"

section \<open>Thread information\<close>

record thread_stat =
  ti_pid :: nat
  ti_tid :: nat
  ti_priority :: nat
  ti_status :: string
  ti_kernel_thread :: bool
  ti_stack_usage :: u32
  ti_stack_size :: u32
  ti_name :: string

text \<open>A pointer to a control block is the index of the block in the table. The search is a loop over
  the indices.\<close>

function thread_info_find_from :: "u32 list \<Rightarrow> nat \<Rightarrow> nat option option" where
  "thread_info_find_from bm i =
     (if i < THREAD_MAX then
        bitmap_get_bit bm i \<bind> (\<lambda>b. if b then Some (Some i) else thread_info_find_from bm (Suc i))
      else Some None)"
  by pat_completeness auto
termination
  by (relation "measure (\<lambda>(bm, i). THREAD_MAX - i)") auto

declare thread_info_find_from.simps [simp del]

definition thread_info_find_next :: "nat \<Rightarrow> 'a kstate_scheme \<Rightarrow> nat option option" where
  "thread_info_find_next t s = thread_info_find_from (bitmap_threads s) (Suc t)"

definition status_letter :: "tstatus \<Rightarrow> string" where
  "status_letter st = (case st of THREAD_WAIT \<Rightarrow> ''S'' | THREAD_SUSPENDED \<Rightarrow> ''T''
     | THREAD_READY \<Rightarrow> ''R'' | THREAD_RUNNING \<Rightarrow> ''R'' | _ \<Rightarrow> ''?'')"

definition thread_stat_of :: "nat \<Rightarrow> 'a kstate_scheme \<Rightarrow> thread_stat option" where
  "thread_stat_of t s = do {
     let th = threads s t;
     k \<leftarrow> t_task th;
     Some \<lparr>ti_pid = k_pid (tasks s k), ti_tid = t_tid th, ti_priority = t_priority th,
           ti_status = status_letter (t_status th), ti_kernel_thread = t_kernel_thread th,
           ti_stack_usage = t_stack th + t_stack_size th - t_stack_top th, ti_stack_size = t_stack_size th,
           ti_name = take THREAD_NAME_MAX (t_name th)\<rparr>
   }"

definition sys_thread_info ::
  "thread_stat \<Rightarrow> nat option \<Rightarrow> 'a kstate_scheme \<Rightarrow> ('a kstate_scheme \<times> thread_stat \<times> nat option) option" where
  "sys_thread_info info next = critr (\<lambda>s. do {
     thread \<leftarrow> (case next of
         None \<Rightarrow> do {
           tid \<leftarrow> find_first_bit (bitmap_threads s) THREAD_MAX;
           if tid < THREAD_MAX then Some (Some tid) else None
         }
       | Some n \<Rightarrow> do {
           b \<leftarrow> bitmap_get_bit (bitmap_threads s) n;
           if b then Some (Some n) else thread_info_find_next n s
         });
     case thread of
       None \<Rightarrow> Some (s, info, None)
     | Some t \<Rightarrow> do {
         i \<leftarrow> thread_stat_of t s;
         r \<leftarrow> thread_info_find_next t s;
         Some (s, i, r)
       }
   })"

definition sys_setprogname :: "string \<Rightarrow> 'a kstate_scheme \<Rightarrow> 'a kstate_scheme" where
  "sys_setprogname name s = upd_thread (running s) (t_name_update (\<lambda>_. take (THREAD_NAME_MAX - 1) name)) s"

section \<open>System call entry and return\<close>

definition SYSCALL_CNT :: nat where [config]: "SYSCALL_CNT = 66"
definition SYSCALL_RETURN_EVENT :: u32 where [config]: "SYSCALL_RETURN_EVENT = 67"
definition SIGNAL_CLEANUP_EVENT :: u32 where [config]: "SIGNAL_CLEANUP_EVENT = 68"
definition THREAD_RETURN_EVENT :: u32 where [config]: "THREAD_RETURN_EVENT = 69"
definition THREAD_ONCE_EVENT :: u32 where [config]: "THREAD_ONCE_EVENT = 70"

definition syscall_return_event_handler :: "'a kstate_scheme \<Rightarrow> 'a kstate_scheme" where
  "syscall_return_event_handler s =
     (let s1 = upd_thread (running s) (\<lambda>th. th\<lparr>t_stack_top := t_syscall_stack_top th,
                 t_privilege := (if t_kernel_thread th then KERNEL_THREAD else USER_THREAD),
                 t_syscall_mode := False\<rparr>) s in
      if t_status (threads s1 (running s1)) \<noteq> THREAD_READY then set_need_resched s1 else s1)"

definition signal_cleanup_event_handler :: "'a kstate_scheme \<Rightarrow> 'a kstate_scheme" where
  "signal_cleanup_event_handler s =
     upd_thread (running s) (\<lambda>th. th\<lparr>t_stack_top := t_stack_top_preserved th, t_stack_top_preserved := 0\<rparr>) s"

text \<open>\<^verbatim>\<open>SYSCALL_ARG\<close>: the word that the saved pointer to an argument points to.\<close>

definition SYSCALL_ARG :: "nat \<Rightarrow> nat \<Rightarrow> 'a kstate_scheme \<Rightarrow> u32" where
  "SYSCALL_ARG t i s = mem s (t_syscall_args (threads s t) ! i)"

definition thread_return_event_handler :: "'a kstate_scheme \<Rightarrow> 'a kstate_scheme option" where
  "thread_return_event_handler s = do {
     k \<leftarrow> current_task s;
     s1 \<leftarrow> (if running s = k_main_thread (tasks s k) then sys_exit s
            else thread_join_handler
                   (upd_thread (running s) (t_retval_update (\<lambda>_. SYSCALL_ARG (running s) 0 s)) s));
     Some (set_need_resched s1)
   }"

definition pthread_once_event_handler :: "thread_once \<Rightarrow> 'a kstate_scheme \<Rightarrow> ('a kstate_scheme \<times> thread_once) option" where
  "pthread_once_event_handler once s = do {
     s1 \<leftarrow> wake_up_all (WaitQ (once_wq once)) (signal_cleanup_event_handler s);
     Some (set_need_resched s1, once\<lparr>once_finished := True\<rparr>)
   }"

definition setup_syscall ::
  "nat \<Rightarrow> u32 \<Rightarrow> u32 \<Rightarrow> u32 list \<Rightarrow> 'a kstate_scheme \<Rightarrow> 'a kstate_scheme option" where
  "setup_syscall t func return_handler args s = do {
     let s1 = upd_thread t (\<lambda>th. th\<lparr>t_syscall_stack_top := t_stack_top th\<rparr>) s;
     (sp, m) \<leftarrow> stack_init (mem s1) (t_stack_top (threads s1 t)) func return_handler (Some args);
     Some ((upd_thread t (t_stack_top_update (\<lambda>_. sp)) s1)\<lparr>mem := m\<rparr>)
   }"

text \<open>\<^verbatim>\<open>syscall_handler\<close>; \<open>handler_func\<close> is the table of the addresses of the handlers, one for each number
  from 1 to \<^verbatim>\<open>SYSCALL_CNT\<close>. The control of the \<^verbatim>\<open>pthread_once\<close> call in progress is an argument. The
  result \<^term>\<open>Inl ()\<close> is the panic for an unknown number.\<close>

definition syscall_enter :: "(nat \<Rightarrow> u32) \<Rightarrow> u32 \<Rightarrow> 'a kstate_scheme \<Rightarrow> 'a kstate_scheme option" where
  "syscall_enter handler_func num s =
     (let t = running s in
      if t_syscall_mode (threads s t) then Some s
      else do {
        let args = get_syscall_args (mem s) (t_stack_top (threads s t));
        let a = args ! 0;
        s1 \<leftarrow> setup_syscall t (handler_func (unat num)) (handler_addr s Syscall_Return)
               [mem s a, mem s (a + 4), mem s (a + 8), mem s (a + 12)]
               (upd_thread t (t_syscall_args_update (\<lambda>_. args)) s);
        Some (upd_thread t (\<lambda>th. th\<lparr>t_privilege := KERNEL_THREAD, t_syscall_mode := True\<rparr>) s1)
      })"

definition syscall_handler ::
  "(nat \<Rightarrow> u32) \<Rightarrow> thread_once \<Rightarrow> 'a kstate_scheme \<Rightarrow> (unit + 'a kstate_scheme \<times> thread_once) option" where
  "syscall_handler handler_func once s =
     (let num = get_syscall_num (mem s) (t_stack_top (threads s (running s))) in
      if num = 0 then Some (Inr (s, once))
      else if num = SYSCALL_RETURN_EVENT then Some (Inr (syscall_return_event_handler s, once))
      else if num = SIGNAL_CLEANUP_EVENT then Some (Inr (signal_cleanup_event_handler s, once))
      else if num = THREAD_RETURN_EVENT
      then map_option (\<lambda>s1. Inr (s1, once)) (thread_return_event_handler s)
      else if num = THREAD_ONCE_EVENT then map_option Inr (pthread_once_event_handler once s)
      else if unat num \<le> SYSCALL_CNT then map_option (\<lambda>s1. Inr (s1, once)) (syscall_enter handler_func num s)
      else Some (Inl ()))"

text \<open>\<^verbatim>\<open>check_thread_stack\<close>: whether the stack pointer is in the stack; otherwise the kernel panics.\<close>

definition check_thread_stack :: "'a kstate_scheme \<Rightarrow> bool" where
  "check_thread_stack s =
     (let th = threads s (running s) in
      \<not> (t_stack_top th < t_stack th \<or> t_stack_top th > t_stack th + t_stack_size th))"

section \<open>Stacks\<close>

lemma size_to_page_order_from_spec:
  "(\<exists>od. i \<le> od \<and> od \<le> 5 \<and> size_to_page_order_from sz i = int od \<and> sz \<le> page_order_sz ! od)
   \<or> size_to_page_order_from sz i = -1 \<and> (\<forall>od. i \<le> od \<and> od \<le> 5 \<longrightarrow> page_order_sz ! od < sz)"
proof (induction sz i rule: size_to_page_order_from.induct)
  case (1 sz i)
  show ?case
  proof (cases "i \<le> 5 \<and> \<not> sz \<le> page_order_sz ! i")
    case True
    then have e: "size_to_page_order_from sz i = size_to_page_order_from sz (Suc i)"
      by (simp add: size_to_page_order_from.simps [of sz i] PAGE_ORDER_MAX_def)
    have "page_order_sz ! od < sz" if "\<forall>od. Suc i \<le> od \<and> od \<le> 5 \<longrightarrow> page_order_sz ! od < sz" "i \<le> od" "od \<le> 5" for od
      using that True by (cases "od = i") auto
    with 1 True show ?thesis unfolding e PAGE_ORDER_MAX_def by (metis Suc_leD)
  next
    case False
    then show ?thesis by (auto simp: size_to_page_order_from.simps [of sz i] PAGE_ORDER_MAX_def)
  qed
qed

lemma size_to_page_order_spec:
  "if sz \<le> 8192 then \<exists>od \<le> 5. size_to_page_order sz = int od \<and> sz \<le> page_order_sz ! od
   else size_to_page_order sz = -1"
proof -
  have "page_order_sz ! od \<le> 8192" if "od \<le> 5" for od
    using that by (elim order_cases) (simp_all add: page_order_sz_def numeral_eq_Suc)
  moreover have "page_order_sz ! 5 = 8192" by (simp add: page_order_sz_def)
  ultimately show ?thesis using size_to_page_order_from_spec [of 0 sz] unfolding size_to_page_order_def
    by (force simp: not_le dest: le_trans)
qed

lemma order_arg_cases:
  "if unat sz \<le> 8192 then order_arg sz \<le> 5 \<and> unat sz \<le> page_order_sz ! order_arg sz else 5 < order_arg sz"
proof (cases "unat sz \<le> 8192")
  case True
  with size_to_page_order_spec [of "unat sz"] obtain od where
    od: "od \<le> 5" "size_to_page_order (unat sz) = int od" "unat sz \<le> page_order_sz ! od" by auto
  then have "order_arg sz = unat (word_of_nat od :: u32)" by (simp add: order_arg_def)
  also have "\<dots> = od" using od(1) by (simp only: unat_of_nat) simp
  finally have "order_arg sz = od" .
  with od True show ?thesis by simp
next
  case False
  with size_to_page_order_spec [of "unat sz"] have "size_to_page_order (unat sz) = -1" by simp
  then have "order_arg sz = unat (- 1 :: u32)" unfolding order_arg_def by (simp only: of_int_minus of_int_1)
  also have "\<dots> = 2 ^ 32 - 1" by (simp add: unsigned_minus_1_eq_mask mask_eq_exp_minus_1)
  finally show ?thesis using False by simp
qed

text \<open>What a thread needs of its stack page: pipe, FIFO, two buffers and a frame.\<close>

definition STACK_NEED :: nat where "STACK_NEED = 356"

text \<open>The numbers of the heads that a free page can hold are not in use as wait lists.\<close>

definition free_bytes :: "'a kstate_scheme \<Rightarrow> nat set" where
  "free_bytes s = {x. unat (page_start s) \<le> x \<and> (x - unat (page_start s)) div 256 \<in> free_units (fam (pages s))}"

text \<open>The table of threads and the pages for their stacks, on a page area that is aligned to 8 KB.\<close>

definition thread_table_ok :: "'a kstate_scheme \<Rightarrow> bool" where
  "thread_table_ok s \<longleftrightarrow> sched_wf s \<and> length (bitmap_threads s) = 2
     \<and> (running s \<in> bm_set (bitmap_threads s) \<or> THREAD_MAX \<le> running s)
     \<and> (\<forall>t. t \<notin> bm_set (bitmap_threads s) \<longrightarrow>
          \<not> lk_linked t (links s) \<and> t \<notin> set (threads_list s) \<and> lst (links s) (Join t) = [] \<and> t_status (threads s t) \<noteq> THREAD_READY)
     \<and> page_mem_ok (page_start s) \<and> unat (page_start s) + 65536 < 2 ^ 32 \<and> page_wf (pages s)
     \<and> (\<forall>x \<in> free_bytes s. lst (links s) (WaitQ x) = [])"

lemma thread_table_okD:
  assumes "thread_table_ok s"
  shows "sched_wf s" "length (bitmap_threads s) = 2" "running s \<in> bm_set (bitmap_threads s) \<or> THREAD_MAX \<le> running s"
    "t \<notin> bm_set (bitmap_threads s) \<Longrightarrow> \<not> lk_linked t (links s)"
    "t \<notin> bm_set (bitmap_threads s) \<Longrightarrow> t \<notin> set (threads_list s)"
    "t \<notin> bm_set (bitmap_threads s) \<Longrightarrow> lst (links s) (Join t) = []"
    "page_mem_ok (page_start s)" "page_wf (pages s)" "x \<in> free_bytes s \<Longrightarrow> lst (links s) (WaitQ x) = []"
    "unat (page_start s) + 65536 < 2 ^ 32"
  using assms unfolding thread_table_ok_def by blast+

lemma sleep_add_wf:
  assumes wf: "sched_wf s" and t: "\<not> lk_linked t (links s)" and st: "t_status th = THREAD_WAIT" and p: "t_priority th \<le> KTHREAD_PRI_MAX"
    and r: "t \<noteq> running s"
    and s': "threads s' = (threads s)(t := th)" "links s' = lk_add t Sleep (links s)" "running s' = running s"
  shows "sched_wf s'"
proof -
  note w = sched_wfD [OF wf]
  have nr: "t_status (threads s t) \<noteq> THREAD_READY" using w(4) t by (auto simp: lk_linked_iff)
  show ?thesis
  proof (rule sched_wfI)
    show "lk_wf (links s')" using w(1) t by (simp add: s' lk_wf_add)
    show "t_priority (threads s' u) \<le> KTHREAD_PRI_MAX" for u using w(7) p by (simp add: s')
    fix u
    show "t_status (threads s' u) = THREAD_READY" "t_priority (threads s' u) = q"
      if "u \<in> set (lst (links s') (Ready q))" for q
    proof -
      have u: "u \<in> set (lst (links s) (Ready q))" using that by (simp add: s')
      then have "u \<noteq> t" using t by (auto simp: lk_linked_iff)
      with u w(2,3) show "t_status (threads s' u) = THREAD_READY" "t_priority (threads s' u) = q" by (simp_all add: s')
    qed
    show "u \<in> set (lst (links s') (Ready (t_priority (threads s' u))))" if "t_status (threads s' u) = THREAD_READY"
      using that w(4) [of u] st by (cases "u = t") (simp_all add: s')
    show "u = running s' \<and> \<not> lk_linked u (links s')" if "t_status (threads s' u) = THREAD_RUNNING"
      using that w(5,6) [of u] st by (cases "u = t") (auto simp: s')
  qed
qed

text \<open>The control block and the pipe of a new thread.\<close>

definition new_thread :: "nat \<Rightarrow> u32 \<Rightarrow> u32 \<Rightarrow> thread_attr \<Rightarrow> bool \<Rightarrow> thread" where
  "new_thread tid stack stack_size attr kernel_thread = zero_thread\<lparr>
     t_stack := stack, t_stack_top := stack + stack_size - word_of_nat STACK_NEED,
     t_signal_queue := kfifo_init (replicate 108 0) 22 5, t_stack_size := stack_size,
     t_status := THREAD_WAIT, t_tid := tid, t_priority := nat (ta_sched_priority attr), t_kernel_thread := kernel_thread,
     t_privilege := (if kernel_thread then KERNEL_THREAD else USER_THREAD),
     t_joinable := ta_detachstate attr \<noteq> PTHREAD_CREATE_DETACHED,
     t_detached := ta_detachstate attr = PTHREAD_CREATE_DETACHED\<rparr>"

definition new_pipe :: "u32 \<Rightarrow> pipe" where
  "new_pipe stack_end = \<lparr>p_fifo = kfifo_init (replicate 100 0) 1 100,
     p_r_wait_list = unat (stack_end - 16), p_w_wait_list = unat (stack_end - 8)\<rparr>"

lemma new_pipe_fifo: "byte_fifo (p_fifo (new_pipe a))" "fifo_bytes (p_fifo (new_pipe a)) = []"
  using kfifo_init_wf [of 100 1 "replicate 100 0"] by (simp_all add: new_pipe_def byte_fifo_def fifo_bytes_def kfifo_init_def)

lemma unat_end_minus:
  fixes stk ss :: u32
  assumes "unat stk + unat ss < 2 ^ 32" and "n \<le> unat ss"
  shows "unat (stk + ss - word_of_nat n) = unat stk + unat ss - n"
proof -
  have e: "unat (stk + ss) = unat stk + unat ss" using assms(1) by (simp add: unat_word_ariths)
  have n: "unat (word_of_nat n :: u32) = n" using assms by (simp only: unat_of_nat) simp
  have "(word_of_nat n :: u32) \<le> stk + ss" using assms(2) by (simp only: word_le_nat_alt e n)
  then show ?thesis by (simp only: unat_sub e n)
qed

definition same_tables :: "'a kstate_scheme \<Rightarrow> 'a kstate_scheme \<Rightarrow> bool" where
  "same_tables s s' \<longleftrightarrow> running s' = running s \<and> tasks s' = tasks s \<and> tasks_list s' = tasks_list s
     \<and> bitmap_tasks s' = bitmap_tasks s \<and> bitmap_threads s' = bitmap_threads s
     \<and> page_start s' = page_start s \<and> pages s' = pages s \<and> handler_addr s' = handler_addr s"

lemma thread_setup_spec:
  assumes sz: "STACK_NEED \<le> unat ss" and st: "unat stk + unat ss < 2 ^ 32"
    and nl: "\<not> lk_linked tid (links s)" "tid \<notin> set (threads_list s)" "lst (links s) (Join tid) = []"
    and wq: "\<And>x. unat stk \<le> x \<Longrightarrow> x < unat stk + unat ss \<Longrightarrow> lst (links s) (WaitQ x) = []"
    and th: "threads s tid = zero_thread"
  shows "\<exists>s'. thread_setup tid stk func attr arg kt ss s = Some s' \<and> links s' = lk_add tid Sleep (links s)
     \<and> threads_list s' = threads_list s @ [tid] \<and> same_tables s s'
     \<and> threads s' = (threads s)(tid := new_thread tid stk ss attr kt)
     \<and> pipes s' (THREAD_PIPE_FD tid) = Some (new_pipe (stk + ss)) \<and> files s' (THREAD_PIPE_FD tid) \<noteq> None"
proof -
  have sz': "356 \<le> unat ss" using sz by (simp add: STACK_NEED_def)
  have u: "unat (stk + ss - 16) = unat stk + unat ss - 16" "unat (stk + ss - 8) = unat stk + unat ss - 8"
    "unat (stk + ss - 356) = unat stk + unat ss - 356"
    using unat_end_minus [OF st, of 16] unat_end_minus [OF st, of 8] unat_end_minus [OF st, of 356] sz' by simp_all
  have a: "ALIGN 44 4 = 44" "ALIGN 32 4 = 32" "ALIGN 100 4 = 100" "ALIGN 110 4 = 108"
    by (simp_all add: ALIGN_def ALIGN_MASK_def)
  have h: "lst (links s) (WaitQ (unat (stk + ss - 16))) = []" "lst (links s) (WaitQ (unat (stk + ss - 8))) = []"
    unfolding u by (rule wq; use sz' in simp)+
  have g: "\<not> stk + ss - 356 < stk" "\<not> stk + ss < stk + ss - 356"
    using st sz' by (simp_all add: word_less_nat_alt u unat_word_ariths)
  have w: "stk + ss - 44 + 28 = stk + ss - 16" "stk + ss - 44 + 36 = stk + ss - 8"
    "stk + ss - 44 - 32 - 100 - 108 - 72 = stk + ss - 356" by (simp_all add: algebra_simps)
  show ?thesis
    using nl h g th
    by (simp add: thread_setup_def thread_pipe_alloc_def fifo_init_def head_init_def thread_signal_queue_alloc_def
        stack_init_def config kfifo_header_size_def a w seq_add_def node_add_def lid_ok_def new_thread_def new_pipe_def
        same_tables_def upd_thread_def STACK_NEED_def Let_def)
qed

section \<open>Creation\<close>

text \<open>The result of \<^verbatim>\<open>thread_create\<close> when it succeeds.\<close>

definition thread_created ::
  "nat \<Rightarrow> u32 \<Rightarrow> thread_attr \<Rightarrow> bool \<Rightarrow> 'a pstate_scheme \<Rightarrow> 'a pstate_scheme \<Rightarrow> bool" where
  "thread_created tid stk attr kt s s' \<longleftrightarrow>
     (let ss = ALIGN (ta_stacksize attr) 4; od = order_arg ss in
      tid < THREAD_MAX \<and> tid \<notin> bm_set (bitmap_threads s) \<and> {..<tid} \<subseteq> bm_set (bitmap_threads s)
      \<and> bm_set (bitmap_threads s') = insert tid (bm_set (bitmap_threads s)) \<and> length (bitmap_threads s') = length (bitmap_threads s)
      \<and> alloc_pages (page_start s) (pages s) od = Some (pages s', Some stk)
      \<and> page_bytes (stk, od) \<subseteq> free_bytes s \<and> {unat stk ..< unat stk + unat ss} \<subseteq> page_bytes (stk, od)
      \<and> threads s' = (threads s)(tid := new_thread tid stk ss attr kt)
      \<and> stk \<le> t_stack_top (threads s' tid) \<and> t_stack_top (threads s' tid) \<le> stk + ss
      \<and> links s' = lk_add tid Sleep (links s) \<and> threads_list s' = threads_list s @ [tid]
      \<and> running s' = running s \<and> page_start s' = page_start s \<and> tasks s' = tasks s \<and> sched_wf s'
      \<and> pipe_ok (THREAD_PIPE_FD tid) s' \<and> pipe_bytes (THREAD_PIPE_FD tid) s' = [])"

lemma page_bytes_free:
  assumes "page_mem_ok (page_start s)" and "od \<le> 5" and "i < 2 ^ (8 - od)"
    and "page_block od i \<subseteq> free_units (fam (pages s))"
  shows "page_bytes (page_idx_to_addr (page_start s) i od, od) \<subseteq> free_bytes s"
proof
  fix x assume x: "x \<in> page_bytes (page_idx_to_addr (page_start s) i od, od)"
  have "page_live_ok (page_start s) (page_idx_to_addr (page_start s) i od, od)" using assms(2,3) by (auto simp: page_live_ok_def)
  from page_bytes_units(1,2) [OF assms(1) this x] page_units_addr [OF assms(1-3)] assms(4)
  show "x \<in> free_bytes s" by (auto simp: free_bytes_def)
qed

lemma thread_create_success:
  assumes ok: "thread_table_ok s" and bad: "\<not> bad_thread_attr attr kt"
    and need: "STACK_NEED \<le> unat (ALIGN (ta_stacksize attr) 4)"
    and tid: "find_first_zero_bit (bitmap_threads s) THREAD_MAX = Some tid" "tid < THREAD_MAX"
    and al: "alloc_pages (page_start s) (pages s) (order_arg (ALIGN (ta_stacksize attr) 4)) = Some (pb, Some stk)"
  shows "\<exists>s'. thread_create func attr arg kt s = Some (s', Some tid, 0) \<and> thread_created tid stk attr kt s s'"
proof -
  let ?ss = "ALIGN (ta_stacksize attr) 4"
  let ?od = "order_arg ?ss"
  note t = thread_table_okD [OF ok]
  have m: "THREAD_MAX \<le> 32 * length (bitmap_threads s)" using t(2) by (simp add: config)
  from bm.search_least [OF m] tid have free: "tid \<notin> bm_set (bitmap_threads s)" and less: "{..<tid} \<subseteq> bm_set (bitmap_threads s)" by auto
  from bm.mark_used [of tid "bitmap_threads s"] tid(2) m obtain b where
    b: "bitmap_set_bit (bitmap_threads s) tid = Some b" "bm_set b = insert tid (bm_set (bitmap_threads s))"
      "length b = length (bitmap_threads s)" by auto
  from alloc_pages_spec [OF t(8), of ?od "page_start s"] al obtain i where od: "?od \<le> 5" and
    i: "stk = page_idx_to_addr (page_start s) i ?od" "i < 2 ^ (8 - ?od)" "page_block ?od i \<subseteq> free_units (fam (pages s))" by auto
  have fit: "unat ?ss \<le> page_order_sz ! ?od" using order_arg_cases [of ?ss] od by (auto split: if_splits)
  then have inp: "{unat stk ..< unat stk + unat ?ss} \<subseteq> page_bytes (stk, ?od)" by (auto simp: page_bytes_def)
  have pf: "page_bytes (stk, ?od) \<subseteq> free_bytes s" using page_bytes_free [OF t(7) od i(2,3)] i(1) by simp
  have "unat stk + page_order_sz ! ?od \<le> unat (page_start s) + 65536"
    using unat_page_idx_to_addr [OF t(7) od i(2)] block_bytes [OF od i(2)] i(1) page_order_sz_eq [OF od] by (simp add: power_add)
  then have True: "unat stk + unat ?ss < 2 ^ 32" using fit t(10) by linarith
  have wq: "lst (links s) (WaitQ x) = []" if "unat stk \<le> x" "x < unat stk + unat ?ss" for x
    using that inp pf t(9) [of x] by (meson atLeastLessThan_iff subsetD)
  let ?s = "s\<lparr>bitmap_threads := b, threads := (threads s)(tid := zero_thread), pages := pb\<rparr>"
  have "\<exists>s'. thread_setup tid stk func attr arg kt ?ss ?s = Some s' \<and> links s' = lk_add tid Sleep (links ?s)
     \<and> threads_list s' = threads_list ?s @ [tid] \<and> same_tables ?s s'
     \<and> threads s' = (threads ?s)(tid := new_thread tid stk ?ss attr kt)
     \<and> pipes s' (THREAD_PIPE_FD tid) = Some (new_pipe (stk + ?ss)) \<and> files s' (THREAD_PIPE_FD tid) \<noteq> None"
    using True need t(4,5,6) [OF free] wq by (intro thread_setup_spec) auto
  then obtain s' where s': "thread_setup tid stk func attr arg kt ?ss ?s = Some s'" "links s' = lk_add tid Sleep (links s)"
    "threads_list s' = threads_list s @ [tid]" "same_tables ?s s'"
    "threads s' = (threads s)(tid := new_thread tid stk ?ss attr kt)"
    "pipes s' (THREAD_PIPE_FD tid) = Some (new_pipe (stk + ?ss))" "files s' (THREAD_PIPE_FD tid) \<noteq> None" by auto
  have run: "running s' = running s" "tid \<noteq> running s" using s'(4) free t(3) tid(2) by (auto simp: same_tables_def)
  have "t_priority (new_thread tid stk ?ss attr kt) \<le> KTHREAD_PRI_MAX"
    using bad by (auto simp: bad_thread_attr_def new_thread_def config split: if_splits)
  moreover have "t_status (new_thread tid stk ?ss attr kt) = THREAD_WAIT" by (simp add: new_thread_def)
  ultimately have wf: "sched_wf s'" using sleep_add_wf [OF t(1) t(4) [OF free]] run s'(2,5) by blast
  have top: "unat (stk + ?ss - word_of_nat STACK_NEED) = unat stk + unat ?ss - STACK_NEED" by (rule unat_end_minus [OF True need])
  have sum: "unat (stk + ?ss) = unat stk + unat ?ss" using True by (simp add: unat_word_ariths)
  have st: "stk \<le> t_stack_top (threads s' tid)" "t_stack_top (threads s' tid) \<le> stk + ?ss"
    using need top sum by (simp_all add: s'(5) new_thread_def word_le_nat_alt)
  have "thread_created tid stk attr kt s s'"
    using s'(2-7) tid(2) free less b(2,3) al pf inp wf run(1) st new_pipe_fifo [of "stk + ?ss"]
    by (auto simp: thread_created_def same_tables_def pipe_ok_def pipe_bytes_def pipe_fifo_def Let_def)
  moreover have "thread_create func attr arg kt s = Some (s', Some tid, 0)"
    using bad tid b(1) al s'(1) by (simp add: thread_create_def Let_def)
  ultimately show ?thesis by blast
qed

text \<open>Every other outcome of \<^verbatim>\<open>thread_create\<close>.\<close>

lemma thread_create_failures:
  assumes ok: "thread_table_ok s"
  shows "bad_thread_attr attr kt \<Longrightarrow> thread_create func attr arg kt s = Some (s, None, - EINVAL)"
    and "\<not> bad_thread_attr attr kt \<Longrightarrow> {..<THREAD_MAX} \<subseteq> bm_set (bitmap_threads s) \<Longrightarrow>
      thread_create func attr arg kt s = Some (s, None, - EAGAIN)"
    and "\<not> bad_thread_attr attr kt \<Longrightarrow> \<not> {..<THREAD_MAX} \<subseteq> bm_set (bitmap_threads s) \<Longrightarrow>
      alloc_pages (page_start s) (pages s) (order_arg (ALIGN (ta_stacksize attr) 4)) = Some (pb, None) \<Longrightarrow>
      \<exists>s'. thread_create func attr arg kt s = Some (s', None, - ENOMEM) \<and> links s' = links s
         \<and> threads_list s' = threads_list s \<and> pages s' = pb \<and> bitmap_threads s' = bitmap_threads s
         \<and> (\<forall>t \<in> bm_set (bitmap_threads s). threads s' t = threads s t)"
proof -
  have m: "THREAD_MAX \<le> 32 * length (bitmap_threads s)" using thread_table_okD(2) [OF ok] by (simp add: config)
  show "bad_thread_attr attr kt \<Longrightarrow> thread_create func attr arg kt s = Some (s, None, - EINVAL)"
    by (simp add: thread_create_def)
  show "\<not> bad_thread_attr attr kt \<Longrightarrow> {..<THREAD_MAX} \<subseteq> bm_set (bitmap_threads s) \<Longrightarrow>
      thread_create func attr arg kt s = Some (s, None, - EAGAIN)"
    using bm.search_full [OF m] by (simp add: thread_create_def)
  assume a: "\<not> bad_thread_attr attr kt" "\<not> {..<THREAD_MAX} \<subseteq> bm_set (bitmap_threads s)"
    "alloc_pages (page_start s) (pages s) (order_arg (ALIGN (ta_stacksize attr) 4)) = Some (pb, None)"
  from bm.search_room [OF m a(2)] obtain tid where tid: "tid < THREAD_MAX"
    "find_first_zero_bit (bitmap_threads s) THREAD_MAX = Some tid" "tid \<notin> bm_set (bitmap_threads s)" by auto
  with bm.mark_used [of tid "bitmap_threads s"] m obtain b where
    b: "bitmap_set_bit (bitmap_threads s) tid = Some b" "bm_set b = insert tid (bm_set (bitmap_threads s))"
      "32 * length b = 32 * length (bitmap_threads s)" by auto
  with bm.unmark_used [of tid b] m tid obtain c where
    c: "bitmap_clear_bit b tid = Some c" "bm_set c = bm_set b - {tid}" "32 * length c = 32 * length b" by auto
  have "c = bitmap_threads s" using b c tid(3) by (intro bm_set_inject) auto
  with tid(1,2) b(1) c(1) a tid(3)
  show "\<exists>s'. thread_create func attr arg kt s = Some (s', None, - ENOMEM) \<and> links s' = links s
         \<and> threads_list s' = threads_list s \<and> pages s' = pb \<and> bitmap_threads s' = bitmap_threads s
         \<and> (\<forall>t \<in> bm_set (bitmap_threads s). threads s' t = threads s t)"
    by (auto simp: thread_create_def Let_def)
qed

lemma thread_create_cases:
  assumes "thread_table_ok s" and "STACK_NEED \<le> unat (ALIGN (ta_stacksize attr) 4)"
  shows "if bad_thread_attr attr kt then thread_create func attr arg kt s = Some (s, None, - EINVAL)
     else if {..<THREAD_MAX} \<subseteq> bm_set (bitmap_threads s) then thread_create func attr arg kt s = Some (s, None, - EAGAIN)
     else (\<exists>s' tid stk. thread_create func attr arg kt s = Some (s', Some tid, 0) \<and> thread_created tid stk attr kt s s')
       \<or> (\<exists>s' pb. thread_create func attr arg kt s = Some (s', None, - ENOMEM)
            \<and> alloc_pages (page_start s) (pages s) (order_arg (ALIGN (ta_stacksize attr) 4)) = Some (pb, None)
            \<and> links s' = links s \<and> threads_list s' = threads_list s \<and> pages s' = pages s \<and> bitmap_threads s' = bitmap_threads s
            \<and> (\<forall>t \<in> bm_set (bitmap_threads s). threads s' t = threads s t))"
proof -
  note f = thread_create_failures [OF assms(1), where attr = attr and kt = kt and func = func and arg = arg]
  let ?od = "order_arg (ALIGN (ta_stacksize attr) 4)"
  have wf: "page_wf (pages s)" using thread_table_okD(8) [OF assms(1)] .
  consider (bad) "bad_thread_attr attr kt" | (full) "\<not> bad_thread_attr attr kt" "{..<THREAD_MAX} \<subseteq> bm_set (bitmap_threads s)"
    | (mem) "\<not> bad_thread_attr attr kt" "\<not> {..<THREAD_MAX} \<subseteq> bm_set (bitmap_threads s)"
        "alloc_pages (page_start s) (pages s) ?od = Some (pages s, None)"
    | (room) pb stk where "\<not> bad_thread_attr attr kt" "\<not> {..<THREAD_MAX} \<subseteq> bm_set (bitmap_threads s)"
        "alloc_pages (page_start s) (pages s) ?od = Some (pb, Some stk)"
    using alloc_pages_spec [OF wf, of ?od "page_start s"] by blast
  then show ?thesis
  proof cases
    case mem
    then show ?thesis using f(3) [OF mem] by auto
  next
    case room
    have "THREAD_MAX \<le> 32 * length (bitmap_threads s)" using thread_table_okD(2) [OF assms(1)] by (simp add: config)
    from bm.search_room [OF this room(2)] obtain tid where
      "find_first_zero_bit (bitmap_threads s) THREAD_MAX = Some tid" "tid < THREAD_MAX" by auto
    from thread_create_success [OF assms(1) room(1) assms(2) this room(3), where func = func and arg = arg] show ?thesis using room(1,2) by auto
  qed (use f(1,2) in auto)
qed

section \<open>Joining and exiting\<close>

lemma woke_tables: "finish_wait t s = Some s' \<Longrightarrow> same_tables s s' \<and> threads_list s' = threads_list s \<and> mem s' = mem s"
  by (auto simp: finish_wait_def crit_def node_move_def node_add_def node_del_def same_tables_def set_status_def upd_thread_def
      preempt_disable_def preempt_enable_def preempt_count_inc_def preempt_count_dec_def Let_def split: if_splits)

lemma sched_wf_mem [simp]: "sched_wf (s\<lparr>mem := m\<rparr>) = sched_wf s"
  by (simp add: sched_wf_def)

text \<open>After the loop of \<^verbatim>\<open>thread_join_handler\<close> every joining thread is ready and has its value.\<close>

definition joined :: "nat list \<Rightarrow> 'a kstate_scheme \<Rightarrow> 'a kstate_scheme \<Rightarrow> bool" where
  "joined ts s s' \<longleftrightarrow> sched_wf s' \<and> same_tables s s' \<and> threads_list s' = threads_list s
     \<and> (\<forall>t. threads s' t = (if t \<in> set ts then (threads s t)\<lparr>t_status := THREAD_READY\<rparr> else threads s t))
     \<and> (\<forall>t. lk_linked t (links s') = lk_linked t (links s))
     \<and> (\<forall>l. (\<forall>p. l \<noteq> Ready p) \<longrightarrow> lst (links s') l = filter (\<lambda>u. u \<notin> set ts) (lst (links s) l))
     \<and> (\<forall>t \<in> set ts. t_retval_join (threads s t) \<noteq> 0 \<longrightarrow>
          mem s' (t_retval_join (threads s t)) = t_retval (threads s (running s)))
     \<and> (\<forall>a. (\<forall>t \<in> set ts. t_retval_join (threads s t) \<noteq> a) \<longrightarrow> mem s' a = mem s a)
     \<and> (\<forall>a. mem s' a = mem s a \<or> mem s' a = t_retval (threads s (running s)))"

lemma join_each_spec:
  assumes "sched_wf s" and "\<forall>t \<in> set ts. lk_linked t (links s)" and "running s \<notin> set ts" and "distinct ts"
  shows "\<exists>s'. join_each ts s = Some s' \<and> joined ts s s'"
  using assms
proof (induction ts arbitrary: s)
  case Nil
  then show ?case by (simp add: joined_def same_tables_def)
next
  case (Cons t ts)
  let ?v = "t_retval (threads s (running s))"
  define s1 where "s1 = (if t_retval_join (threads s t) \<noteq> 0 then s\<lparr>mem := (mem s)(t_retval_join (threads s t) := ?v)\<rparr> else s)"
  have s1: "sched_wf s1" "links s1 = links s" "threads s1 = threads s" "running s1 = running s" "same_tables s s1"
    "threads_list s1 = threads_list s" "t_retval_join (threads s t) \<noteq> 0 \<longrightarrow> mem s1 (t_retval_join (threads s t)) = ?v"
    "\<And>a. t_retval_join (threads s t) \<noteq> a \<Longrightarrow> mem s1 a = mem s a" "\<And>a. mem s1 a = mem s a \<or> mem s1 a = ?v"
    using Cons.prems by (auto simp: s1_def same_tables_def)
  have tr: "t \<noteq> running s" "lk_linked t (links s)" using Cons.prems by auto
  define s2 where "s2 = preempt_enable (make_ready t (preempt_disable s1))"
  have f: "finish_wait t s1 = Some s2" using finish_wait_eq [OF s1(1)] tr s1 by (simp add: s2_def)
  note wt = woke_tables [OF f]
  have th: "threads s2 u = (if u = t then (threads s t)\<lparr>t_status := THREAD_READY\<rparr> else threads s u)" for u
    by (simp add: s2_def s1)
  have lk: "lk_linked u (links s2) = lk_linked u (links s)" for u using tr by (auto simp: s2_def s1)
  have wf: "sched_wf s2" using make_ready_wf [of "preempt_disable s1" t] s1 tr by (simp add: s2_def)
  have r: "running s2 = running s" using wt s1 by (simp add: same_tables_def)
  have "\<exists>s'. join_each ts s2 = Some s' \<and> joined ts s2 s'"
    using Cons.prems wf lk r by (intro Cons.IH) auto
  then obtain s' where s': "join_each ts s2 = Some s'" "joined ts s2 s'" by auto
  have v: "t_retval (threads s2 (running s2)) = ?v" using r tr by (simp add: th)
  have rj: "t_retval_join (threads s2 u) = t_retval_join (threads s u)" for u by (simp add: th)
  have m: "mem s2 = mem s1" using wt by simp
  have j: "sched_wf s'" "same_tables s2 s'" "threads_list s' = threads_list s2"
    "\<And>u. threads s' u = (if u \<in> set ts then (threads s2 u)\<lparr>t_status := THREAD_READY\<rparr> else threads s2 u)"
    "\<And>u. lk_linked u (links s') = lk_linked u (links s2)"
    "\<And>l. \<forall>p. l \<noteq> Ready p \<Longrightarrow> lst (links s') l = filter (\<lambda>u. u \<notin> set ts) (lst (links s2) l)"
    "\<And>u. u \<in> set ts \<Longrightarrow> t_retval_join (threads s u) \<noteq> 0 \<Longrightarrow> mem s' (t_retval_join (threads s u)) = ?v"
    "\<And>a. \<forall>u \<in> set ts. t_retval_join (threads s u) \<noteq> a \<Longrightarrow> mem s' a = mem s1 a"
    "\<And>a. mem s' a = mem s1 a \<or> mem s' a = ?v"
    using s'(2) unfolding joined_def v rj m by blast+
  have "joined (t # ts) s s'"
    unfolding joined_def
  proof (intro conjI allI ballI impI)
    show "sched_wf s'" by (rule j(1))
    show "same_tables s s'" using j(2) wt s1(5) by (simp add: same_tables_def)
    show "threads_list s' = threads_list s" using j(3) wt s1(6) by simp
    show "threads s' u = (if u \<in> set (t # ts) then (threads s u)\<lparr>t_status := THREAD_READY\<rparr> else threads s u)" for u
      using Cons.prems by (simp add: j(4) th)
    show "lk_linked u (links s') = lk_linked u (links s)" for u using j(5) lk by simp
    show "lst (links s') l = filter (\<lambda>u. u \<notin> set (t # ts)) (lst (links s) l)" if "\<forall>p. l \<noteq> Ready p" for l
      using j(6) [OF that] that by (auto simp: s2_def s1 intro: filter_cong)
    show "mem s' (t_retval_join (threads s u)) = ?v" if "u \<in> set (t # ts)" "t_retval_join (threads s u) \<noteq> 0" for u
      using that j(7) [of u] j(9) [of "t_retval_join (threads s u)"] s1(7) by auto
    show "mem s' a = mem s a" if "\<forall>u \<in> set (t # ts). t_retval_join (threads s u) \<noteq> a" for a
      using that j(8) [of a] s1(8) [of a] by simp
    show "mem s' a = mem s a \<or> mem s' a = ?v" for a using j(9) [of a] s1(9) [of a] by auto
  qed
  moreover have "join_each (t # ts) s = Some s'" using f s'(1) by (simp add: s1_def)
  ultimately show ?case by blast
qed

lemma terminate_wf:
  assumes wf: "sched_wf s" and t: "\<not> lk_linked t (links s)"
  shows "sched_wf (set_status t THREAD_TERMINATED s)"
proof -
  note w = sched_wfD [OF wf]
  have nr: "u \<in> set (lst (links s) l) \<Longrightarrow> u \<noteq> t" for u l using t by (auto simp: lk_linked_iff)
  show ?thesis
    by (rule sched_wfI) (use w nr in \<open>auto split: if_splits\<close>)
qed

text \<open>A thread whose resources are in order: it is on its lists, its number is in the table, and its
  stack is an allocated page.\<close>

definition thread_owned :: "nat \<Rightarrow> 'a kstate_scheme \<Rightarrow> bool" where
  "thread_owned t s \<longleftrightarrow> t \<in> set (threads_list s)
     \<and> (\<exists>k. t_task (threads s t) = Some k \<and> t \<in> set (k_threads_list (tasks s k)))
     \<and> t_tid (threads s t) < 32 * length (bitmap_threads s)
     \<and> order_arg (t_stack_size (threads s t)) \<le> 5
     \<and> page_live_ok (page_start s) (t_stack (threads s t), order_arg (t_stack_size (threads s t)))
     \<and> page_units (page_start s) (t_stack (threads s t), order_arg (t_stack_size (threads s t))) \<inter> free_units (fam (pages s)) = {}"

lemma thread_release_spec:
  assumes ow: "thread_owned t s" and ok: "page_mem_ok (page_start s)" "page_wf (pages s)"
    and s0: "threads s0 t = threads s t" "bitmap_threads s0 = bitmap_threads s" "pages s0 = pages s" "page_start s0 = page_start s"
  shows "\<exists>b pb. thread_release t s0 = Some ((set_status t THREAD_TERMINATED s0)\<lparr>bitmap_threads := b, pages := pb\<rparr>)
     \<and> bm_set b = bm_set (bitmap_threads s) - {t_tid (threads s t)} \<and> page_wf pb \<and> length b = length (bitmap_threads s)
     \<and> free_units (fam pb) = free_units (fam (pages s))
          \<union> page_units (page_start s) (t_stack (threads s t), order_arg (t_stack_size (threads s t)))"
proof -
  let ?p = "(t_stack (threads s t), order_arg (t_stack_size (threads s t)))"
  from ow obtain i where i: "snd ?p \<le> 5" "i < 2 ^ (8 - snd ?p)" "fst ?p = page_idx_to_addr (page_start s) i (snd ?p)"
    and dj: "page_units (page_start s) ?p \<inter> free_units (fam (pages s)) = {}" and tid: "t_tid (threads s t) < 32 * length (bitmap_threads s)"
    unfolding thread_owned_def page_live_ok_def by blast
  have u: "page_units (page_start s) ?p = page_block (snd ?p) i" using page_units_addr [OF ok(1) i(1,2)] i(3) by (metis prod.collapse)
  from free_pages_wf [OF ok i(1,2)] dj u i(3) obtain pb where
    pb: "free_pages (page_start s) (pages s) (fst ?p) (snd ?p) = Some pb" "page_wf pb"
      "free_units (fam pb) = free_units (fam (pages s)) \<union> page_units (page_start s) ?p" by auto
  from bitmap_clear_bit_Some [OF tid] obtain b where
    b: "bitmap_clear_bit (bitmap_threads s) (t_tid (threads s t)) = Some b" "length b = length (bitmap_threads s)"
      "bm_set b = bm_set (bitmap_threads s) - {t_tid (threads s t)}" by auto
  have "thread_release t s0 = Some ((set_status t THREAD_TERMINATED s0)\<lparr>bitmap_threads := b, pages := pb\<rparr>)"
    using b(1) pb(1) by (simp add: thread_release_def set_status_def upd_thread_def s0 Let_def)
  with b pb show ?thesis by auto
qed

lemma preempt_tables [simp]:
  "same_tables s (preempt_enable s') = same_tables s s'" "same_tables (preempt_disable s) s' = same_tables s s'"
  "threads_list (preempt_enable s) = threads_list s" "threads_list (preempt_disable s) = threads_list s"
  "tasks (preempt_disable s) = tasks s" "tasks (preempt_enable s) = tasks s"
  "bitmap_threads (preempt_disable s) = bitmap_threads s" "bitmap_threads (preempt_enable s) = bitmap_threads s"
  "pages (preempt_disable s) = pages s" "pages (preempt_enable s) = pages s"
  "page_start (preempt_disable s) = page_start s" "page_start (preempt_enable s) = page_start s"
  by (simp_all add: same_tables_def preempt_disable_def preempt_enable_def preempt_count_inc_def preempt_count_dec_def Let_def)

text \<open>What a thread leaves behind when it exits with value \<open>v\<close>.\<close>

definition exited :: "u32 \<Rightarrow> 'a kstate_scheme \<Rightarrow> 'a kstate_scheme \<Rightarrow> bool" where
  "exited v s s' \<longleftrightarrow> (let r = running s in
     sched_wf s' \<and> lst (links s') (Join r) = [] \<and> t_status (threads s' r) = THREAD_TERMINATED
     \<and> (\<forall>t \<in> set (lst (links s) (Join r)). t_status (threads s' t) = THREAD_READY
          \<and> t \<in> set (lst (links s') (Ready (t_priority (threads s t))))
          \<and> (t_retval_join (threads s t) \<noteq> 0 \<longrightarrow> mem s' (t_retval_join (threads s t)) = v))
     \<and> (\<forall>t. t \<noteq> r \<and> t \<notin> set (lst (links s) (Join r)) \<longrightarrow> threads s' t = threads s t)
     \<and> bm_set (bitmap_threads s') = bm_set (bitmap_threads s) - {t_tid (threads s r)} \<and> threads_list s' = remove1 r (threads_list s)
     \<and> page_wf (pages s') \<and> free_units (fam (pages s')) = free_units (fam (pages s))
          \<union> page_units (page_start s) (t_stack (threads s r), order_arg (t_stack_size (threads s r))))"

lemma thread_join_handler_spec:
  assumes wf: "sched_wf s" and run: "t_status (threads s (running s)) = THREAD_RUNNING"
    and ow: "thread_owned (running s) s" and ok: "page_mem_ok (page_start s)" "page_wf (pages s)"
  shows "\<exists>s'. thread_join_handler s = Some s' \<and> exited (t_retval (threads s (running s))) s s'"
proof -
  let ?r = "running s" and ?ts = "lst (links s) (Join (running s))"
  let ?p = "(t_stack (threads s ?r), order_arg (t_stack_size (threads s ?r)))"
  have nl: "\<not> lk_linked ?r (links s)" using sched_wfD(6) [OF wf run] .
  have rt: "?r \<notin> set ?ts" using nl by (auto simp: lk_linked_iff)
  have "\<forall>t \<in> set ?ts. lk_linked t (links s)" by (auto simp: lk_linked_iff)
  from join_each_spec [OF wf this rt lk_wf_distinct [OF sched_wfD(1) [OF wf]]] obtain s1 where
    s1: "join_each ?ts s = Some s1" "joined ?ts s s1" by auto
  have j: "sched_wf s1" "running s1 = ?r" "tasks s1 = tasks s" "threads_list s1 = threads_list s"
    "bitmap_threads s1 = bitmap_threads s" "pages s1 = pages s" "page_start s1 = page_start s"
    "\<And>t. threads s1 t = (if t \<in> set ?ts then (threads s t)\<lparr>t_status := THREAD_READY\<rparr> else threads s t)"
    "\<And>t. lk_linked t (links s1) = lk_linked t (links s)" "lst (links s1) (Join ?r) = filter (\<lambda>u. u \<notin> set ?ts) ?ts"
    "\<And>t. t \<in> set ?ts \<Longrightarrow> t_retval_join (threads s t) \<noteq> 0 \<Longrightarrow> mem s1 (t_retval_join (threads s t)) = t_retval (threads s ?r)"
    using s1(2) by (simp_all add: joined_def same_tables_def)
  have r1: "threads s1 ?r = threads s ?r" using rt by (simp add: j(8))
  from ow obtain k where k: "t_task (threads s ?r) = Some k" "?r \<in> set (k_threads_list (tasks s k))" "?r \<in> set (threads_list s)"
    by (auto simp: thread_owned_def)
  then have ne: "k_threads_list (tasks s k) \<noteq> []" by auto
  define s4 where "s4 = s1\<lparr>threads_list := remove1 ?r (threads_list s),
      tasks := (tasks s)(k := (tasks s k)\<lparr>k_threads_list := remove1 ?r (k_threads_list (tasks s k))\<rparr>)\<rparr>"
  have f4: "threads s4 ?r = threads s ?r" "bitmap_threads s4 = bitmap_threads s" "pages s4 = pages s" "page_start s4 = page_start s"
    using r1 j(5,6,7) by (simp_all add: s4_def)
  from thread_release_spec [OF ow ok f4] obtain b pb where
    rel: "thread_release ?r s4 = Some ((set_status ?r THREAD_TERMINATED s4)\<lparr>bitmap_threads := b, pages := pb\<rparr>)"
      "bm_set b = bm_set (bitmap_threads s) - {t_tid (threads s ?r)}" "page_wf pb"
      "free_units (fam pb) = free_units (fam (pages s)) \<union> page_units (page_start s) ?p"
    by blast
  let ?s' = "(set_status ?r THREAD_TERMINATED s4)\<lparr>bitmap_threads := b, pages := pb\<rparr>"
  let ?s3 = "s1\<lparr>threads_list := remove1 ?r (threads_list s)\<rparr>"
  have "current_task s1 = Some k" by (simp add: current_task_def j(2) r1 k(1))
  moreover have "thread_unlink ?r s1 = Some ?s3" using k(3) by (simp add: thread_unlink_def seq_del_def j(4))
  moreover have "task_unlink ?r ?s3 = Some s4" using k(1,2) by (simp add: task_unlink_def seq_del_def j(3) r1 s4_def)
  moreover have "running ?s3 = ?r" "running s4 = ?r" by (simp_all add: s4_def j(2))
  ultimately have "thread_join_handler s = Some ?s'"
    using ne unfolding thread_join_handler_def s1(1) by (simp only: Option.bind.simps j(2,3) if_False rel(1))
  moreover have "exited (t_retval (threads s ?r)) s ?s'"
    unfolding exited_def Let_def
  proof (intro conjI allI impI ballI)
    have "sched_wf (set_status ?r THREAD_TERMINATED s1)" using terminate_wf [OF j(1)] nl j(9) by simp
    then show wf': "sched_wf ?s'" by (simp add: sched_wf_def s4_def set_status_def upd_thread_def)
    show "lst (links ?s') (Join ?r) = []" using j(10) by (simp add: s4_def)
    fix t assume t: "t \<in> set ?ts"
    then have "t \<noteq> ?r" using rt by auto
    then have st: "t_status (threads ?s' t) = THREAD_READY" "t_priority (threads ?s' t) = t_priority (threads s t)"
      using t by (simp_all add: s4_def j(8))
    show "t_status (threads ?s' t) = THREAD_READY" by (rule st(1))
    show "t \<in> set (lst (links ?s') (Ready (t_priority (threads s t))))" using sched_wfD(4) [OF wf' st(1)] st(2) by simp
    show "mem ?s' (t_retval_join (threads s t)) = t_retval (threads s ?r)" if "t_retval_join (threads s t) \<noteq> 0"
      using j(11) [OF t that] by (simp add: s4_def set_status_def upd_thread_def)
  qed (use rel j(8) in \<open>auto simp: s4_def set_status_def upd_thread_def\<close>)
  ultimately show ?thesis by blast
qed

section \<open>Cancelling\<close>

lemma acquire_in_Some:
  "acquire_in key k xs = Some x \<Longrightarrow> x \<in> set xs \<and> int (key x) = k"
  by (induction xs) (auto split: if_splits)

lemma acquire_in_unique:
  "\<forall>x \<in> set xs. key x = x \<Longrightarrow> n \<in> set xs \<Longrightarrow> acquire_in key (int n) xs = Some n"
  by (induction xs) (auto split: if_splits)

lemma thread_delete_steps:
  assumes "t_task (threads s t) = Some k" and "t \<in> set (k_threads_list (tasks s k))" and "t \<in> set (threads_list s)"
    and "t \<noteq> running s" and "lk_linked t (links s)"
    and "thread_release t (s\<lparr>tasks := (tasks s)(k := (tasks s k)\<lparr>k_threads_list := remove1 t (k_threads_list (tasks s k))\<rparr>),
        threads_list := remove1 t (threads_list s), links := lk_del t (links s)\<rparr>) = Some s4"
    and "current_task s4 = Some c" and "k_threads_list (tasks s4 c) \<noteq> []"
  shows "thread_delete t s = Some s4"
  using assms by (simp add: thread_delete_def task_unlink_def thread_unlink_def node_del_def seq_del_def)

text \<open>A thread other than the running one is deleted: its lists, number and stack are released and the
  other threads, the joining ones included, are left alone.\<close>

lemma thread_delete_spec:
  assumes ow: "thread_owned t s" and ok: "page_mem_ok (page_start s)" "page_wf (pages s)"
    and t: "t \<noteq> running s" "lk_linked t (links s)"
    and c: "current_task s = Some c" "running s \<in> set (k_threads_list (tasks s c))"
  shows "\<exists>s' b pb. thread_delete t s = Some s' \<and> links s' = lk_del t (links s) \<and> threads_list s' = remove1 t (threads_list s)
     \<and> threads s' = (threads s)(t := (threads s t)\<lparr>t_status := THREAD_TERMINATED\<rparr>)
     \<and> bitmap_threads s' = b \<and> pages s' = pb \<and> page_start s' = page_start s \<and> running s' = running s
     \<and> bm_set b = bm_set (bitmap_threads s) - {t_tid (threads s t)} \<and> page_wf pb \<and> length b = length (bitmap_threads s)
     \<and> free_units (fam pb) = free_units (fam (pages s))
          \<union> page_units (page_start s) (t_stack (threads s t), order_arg (t_stack_size (threads s t)))"
proof -
  from ow obtain k where k: "t_task (threads s t) = Some k" "t \<in> set (k_threads_list (tasks s k))" "t \<in> set (threads_list s)"
    by (auto simp: thread_owned_def)
  define s3 where "s3 = s\<lparr>tasks := (tasks s)(k := (tasks s k)\<lparr>k_threads_list := remove1 t (k_threads_list (tasks s k))\<rparr>),
        threads_list := remove1 t (threads_list s), links := lk_del t (links s)\<rparr>"
  have f: "threads s3 t = threads s t" "bitmap_threads s3 = bitmap_threads s" "pages s3 = pages s" "page_start s3 = page_start s"
    by (simp_all add: s3_def)
  from thread_release_spec [OF ow ok f] obtain b pb where
    rel: "thread_release t s3 = Some ((set_status t THREAD_TERMINATED s3)\<lparr>bitmap_threads := b, pages := pb\<rparr>)"
    and r: "bm_set b = bm_set (bitmap_threads s) - {t_tid (threads s t)}" "page_wf pb" "length b = length (bitmap_threads s)"
      "free_units (fam pb) = free_units (fam (pages s))
          \<union> page_units (page_start s) (t_stack (threads s t), order_arg (t_stack_size (threads s t)))" by blast
  let ?s = "(set_status t THREAD_TERMINATED s3)\<lparr>bitmap_threads := b, pages := pb\<rparr>"
  have "current_task ?s = Some c" using c(1) t(1) by (simp add: current_task_def s3_def)
  moreover have "running s \<in> set (k_threads_list (tasks ?s c))"
    using c(2) t(1) by (auto simp: s3_def set_status_def upd_thread_def in_set_remove1)
  then have "k_threads_list (tasks ?s c) \<noteq> []" by auto
  ultimately have "thread_delete t s = Some ?s" using thread_delete_steps [OF k t rel [unfolded s3_def]] by (simp add: s3_def)
  moreover have "threads ?s = (threads s)(t := (threads s t)\<lparr>t_status := THREAD_TERMINATED\<rparr>)"
    by (simp add: s3_def set_status_def upd_thread_def)
  ultimately show ?thesis using r
    by (intro exI [of _ ?s] exI [of _ b] exI [of _ pb]) (simp add: s3_def set_status_def upd_thread_def)
qed

lemma lk_del_add: "\<not> lk_linked n L \<Longrightarrow> lk_del n (lk_add n h L) = L"
  by (auto simp: lk_del_def lk_add_def lk_linked_def filter_id_conv)

section \<open>The signal queue\<close>

text \<open>The queue that \<^verbatim>\<open>thread_signal_queue_alloc\<close> sets up, after \<open>e\<close> records have been put into it, and
  the records that are pending.\<close>

definition sig_queue_at :: "kfifo \<Rightarrow> nat \<Rightarrow> bool" where
  "sig_queue_at q e \<longleftrightarrow> kf_esize q = 22 \<and> kf_header_size q = 2 \<and> kf_payload_size q = 24 \<and> kf_size q = SIGNAL_QUEUE_SIZE
     \<and> length (kf_data q) = 108 \<and> kf_end q = e \<and> e \<le> 4 \<and> kf_start q \<le> e \<and> kf_count q = int (e - kf_start q)"

definition sig_pending :: "kfifo \<Rightarrow> u8 list list" where
  "sig_pending q = map (\<lambda>i. take STAGED_HANDLER_INFO_SIZE (drop (i * 24 + 2) (kf_data q))) [kf_start q..<kf_end q]"

lemma signal_queue_init: "sig_queue_at (fst (thread_signal_queue_alloc sp)) 0" "sig_pending (fst (thread_signal_queue_alloc sp)) = []"
proof -
  have "ALIGN 110 4 = 108" by (simp add: ALIGN_def ALIGN_MASK_def)
  then show "sig_queue_at (fst (thread_signal_queue_alloc sp)) 0" "sig_pending (fst (thread_signal_queue_alloc sp)) = []"
    by (simp_all add: sig_queue_at_def sig_pending_def thread_signal_queue_alloc_def kfifo_header_size_def kfifo_init_def config Let_def)
qed

lemma signal_queue_push:
  assumes q: "sig_queue_at q e" and e: "e < 4" and x: "length x = STAGED_HANDLER_INFO_SIZE"
  shows "\<exists>q'. kfifo_in q x = Some q' \<and> sig_queue_at q' (Suc e) \<and> sig_pending q' = sig_pending q @ [x]"
proof -
  let ?d = "kf_data q"
  define d2 where "d2 = take (e * 24) ?d @ enc16 20 @ x @ drop (22 + e * 24) ?d"
  have l: "length ?d = 108" "length x = 20" "length (enc16 20) = 2" using q x by (simp_all add: sig_queue_at_def config enc16_def)
  have ld: "length d2 = 108" using l e by (simp add: d2_def)
  let ?q' = "q\<lparr>kf_data := d2, kf_count := kf_count q + 1, kf_end := Suc e\<rparr>"
  have "kfifo_in q x = Some ?q'"
    using q e l by (simp add: kfifo_in_def kfifo_is_full_def sig_queue_at_def kfifo_increase_def mem_write_def
        config d2_def Let_def)
  moreover have "take 20 (drop (i * 24 + 2) d2) = take 20 (drop (i * 24 + 2) ?d)" if "i < e" for i
  proof -
    have "Suc i * 24 \<le> e * 24" using that by (intro mult_right_mono) auto
    then have "20 \<le> e * 24 - (i * 24 + 2)" by simp
    then show ?thesis using l e by (simp add: d2_def min_def drop_take)
  qed
  moreover have "take 20 (drop (e * 24 + 2) d2) = x" using l e by (simp add: d2_def min_def)
  ultimately show ?thesis using q e ld by (simp add: sig_queue_at_def sig_pending_def Suc_diff_le config)
qed

text \<open>The fifth record does not fit, whether or not the earlier ones have been taken.\<close>

lemma signal_queue_full:
  "sig_queue_at q 4 \<Longrightarrow> length x = STAGED_HANDLER_INFO_SIZE \<Longrightarrow> kfifo_in q x = None"
  by (simp add: kfifo_in_def kfifo_is_full_def sig_queue_at_def mem_write_def config)

lemma signal_queue_pop:
  assumes q: "sig_queue_at q e" and p: "sig_pending q = r # rs"
  shows "\<exists>q'. kfifo_out q STAGED_HANDLER_INFO_SIZE = Some (q', Some r) \<and> sig_queue_at q' e \<and> sig_pending q' = rs"
proof -
  have se: "kf_start q < e" using p q by (cases "kf_start q < e") (auto simp: sig_pending_def sig_queue_at_def)
  have "kf_start q * 24 + 22 \<le> 108" using se q by (simp add: sig_queue_at_def)
  moreover have "sig_pending q = take 20 (drop (kf_start q * 24 + 2) (kf_data q))
      # map (\<lambda>i. take 20 (drop (i * 24 + 2) (kf_data q))) [Suc (kf_start q)..<kf_end q]"
    using se q by (simp add: sig_pending_def sig_queue_at_def upt_rec [of "kf_start q"] config)
  ultimately show ?thesis using q se p
    by (auto simp: kfifo_out_def mem_read_def sig_queue_at_def sig_pending_def kfifo_increase_def config add.commute)
qed

lemma signal_queue_pop_empty:
  "sig_queue_at q e \<Longrightarrow> sig_pending q = [] \<Longrightarrow> kfifo_out q STAGED_HANDLER_INFO_SIZE = Some (q, None)"
  by (auto simp: kfifo_out_def sig_queue_at_def sig_pending_def)

text \<open>A history of the queue: a record is put into it, or one is taken out.\<close>

primrec queue_run :: "u8 list option list \<Rightarrow> kfifo \<Rightarrow> kfifo option" where
  "queue_run [] q = Some q"
| "queue_run (ev # evs) q =
     (case ev of Some x \<Rightarrow> kfifo_in q x | None \<Rightarrow> map_option fst (kfifo_out q STAGED_HANDLER_INFO_SIZE)) \<bind> queue_run evs"

lemma queue_run_at:
  assumes "sig_queue_at q e" and "e + length (filter (\<lambda>v. v \<noteq> None) evs) \<le> 4"
    and "\<forall>x. Some x \<in> set evs \<longrightarrow> length x = STAGED_HANDLER_INFO_SIZE"
  shows "\<exists>q'. queue_run evs q = Some q' \<and> sig_queue_at q' (e + length (filter (\<lambda>v. v \<noteq> None) evs))"
  using assms
proof (induction evs arbitrary: q e)
  case (Cons ev evs)
  show ?case
  proof (cases ev)
    case None
    obtain q' b where "kfifo_out q STAGED_HANDLER_INFO_SIZE = Some (q', b)" "sig_queue_at q' e"
      using signal_queue_pop [OF Cons.prems(1)] signal_queue_pop_empty [OF Cons.prems(1)] Cons.prems(1)
      by (cases "sig_pending q") fastforce+
    with None Cons show ?thesis by simp
  next
    case (Some x)
    with Cons.prems signal_queue_push [OF Cons.prems(1), of x] obtain q' where "kfifo_in q x = Some q'" "sig_queue_at q' (Suc e)"
      by auto
    with Some Cons show ?thesis by fastforce
  qed
qed simp

section \<open>Properties\<close>

text \<open>
  C19. \<^verbatim>\<open>thread_create\<close> on every branch. Bad attributes, a full table and a lack of memory give \<^verbatim>\<open>-EINVAL\<close>,
  \<^verbatim>\<open>-EAGAIN\<close> and \<^verbatim>\<open>-ENOMEM\<close> and leave every existing thread, the lists and the tables as they are.
  Otherwise the new thread gets the least free number and a stack inside a page that was free, its
  stack pointer lies in its stack, its control block is the one the attributes ask for, it is last
  on the sleep list with every other thread where it was, and its pipe is empty and ready for use.\<close>

theorem thread_create_correct:
  assumes "thread_table_ok s" and "STACK_NEED \<le> unat (ALIGN (ta_stacksize attr) 4)"
  shows "if bad_thread_attr attr kt then thread_create func attr arg kt s = Some (s, None, - EINVAL)
     else if {..<THREAD_MAX} \<subseteq> bm_set (bitmap_threads s) then thread_create func attr arg kt s = Some (s, None, - EAGAIN)
     else (\<exists>s' tid stk. thread_create func attr arg kt s = Some (s', Some tid, 0) \<and> thread_created tid stk attr kt s s')
       \<or> (\<exists>s' pb. thread_create func attr arg kt s = Some (s', None, - ENOMEM)
            \<and> alloc_pages (page_start s) (pages s) (order_arg (ALIGN (ta_stacksize attr) 4)) = Some (pb, None)
            \<and> links s' = links s \<and> threads_list s' = threads_list s \<and> pages s' = pages s \<and> bitmap_threads s' = bitmap_threads s
            \<and> (\<forall>t \<in> bm_set (bitmap_threads s). threads s' t = threads s t))"
  using assms by (rule thread_create_cases)

text \<open>
  C20. \<^verbatim>\<open>pthread_exit\<close> completes every pending \<^verbatim>\<open>pthread_join\<close>: each joining thread becomes ready, on the
  ready list of its priority, with the exit value stored where it asked; the exiting thread is
  terminated, its number is free again, its stack page goes back to the page allocator, and
  no other thread changes. The release of the stack page needs a page area that starts at a multiple of the largest
  page, 8 KB (\<^const>\<open>page_mem_ok\<close>): the linker scripts only align it to four bytes, and in an area that is not aligned a release
  can leave the bitmaps, as the properties of \<^verbatim>\<open>Page\<close> show.\<close>

theorem pthread_exit_wakes_joiners:
  assumes "sched_wf s" and "t_status (threads s (running s)) = THREAD_RUNNING"
    and "thread_owned (running s) s" and "page_mem_ok (page_start s)" and "page_wf (pages s)"
  shows "\<exists>s'. sys_pthread_exit v s = Some s' \<and> exited v s s'"
proof -
  define s0 where "s0 = upd_thread (running s) (t_retval_update (\<lambda>_. v)) (preempt_disable s)"
  have f: "running s0 = running s" "links s0 = links s" "page_start s0 = page_start s" "pages s0 = pages s"
    "threads_list s0 = threads_list s" "tasks s0 = tasks s" "bitmap_threads s0 = bitmap_threads s"
    "\<And>t. threads s0 t = (if t = running s then (threads s t)\<lparr>t_retval := v\<rparr> else threads s t)"
    by (simp_all add: s0_def) (simp_all add: upd_thread_def)
  have wf: "sched_wf s0" using assms(1) by (subst sched_wf_cong2 [where s = s]) (simp_all add: f)
  have ow: "thread_owned (running s0) s0" using assms(3) by (simp add: thread_owned_def f)
  have "t_status (threads s0 (running s0)) = THREAD_RUNNING" using assms(2) by (simp add: f)
  from thread_join_handler_spec [OF wf this ow] assms(4,5) obtain s1 where
    s1: "thread_join_handler s0 = Some s1" "exited v s0 s1" by (auto simp: f)
  have "running s \<notin> set (lst (links s) (Join (running s)))" using sched_wfD(6) [OF assms(1,2)] by (auto simp: lk_linked_iff)
  then have o: "threads s0 t = threads s t" if "t \<in> set (lst (links s) (Join (running s))) \<or> t \<noteq> running s" for t using that by (auto simp: f(8))
  have st: "t_stack (threads s0 (running s)) = t_stack (threads s (running s))" "t_tid (threads s0 (running s)) = t_tid (threads s (running s))"
    "t_stack_size (threads s0 (running s)) = t_stack_size (threads s (running s))" by (simp_all add: f(8))
  have "exited v s (preempt_enable s1)" using s1(2) unfolding exited_def Let_def f(1-7) st by (auto simp: o)
  then show ?thesis using s1(1) by (simp add: sys_pthread_exit_def crit_def s0_def)
qed

text \<open>
  \<^verbatim>\<open>pthread_cancel\<close> strands the threads that wait to join its target: they stay on the join list of
  the control block, still waiting, while the number of the block is free for a new thread. Nothing
  wakes them afterwards, and the creation of a thread in the same block is a use of a stale list.\<close>

theorem pthread_cancel_strands_joiners:
  assumes "thread_owned t s" and "page_mem_ok (page_start s)" and "page_wf (pages s)" and "t \<noteq> running s"
    and "lk_linked t (links s)" and "current_task s = Some c" and "running s \<in> set (k_threads_list (tasks s c))"
    and "acquire_thread (sint tid) s = Some t" and "t_privilege (threads s t) = USER_THREAD"
    and "j \<in> set (lst (links s) (Join t))" and "j \<noteq> t"
  shows "\<exists>s'. sys_pthread_cancel tid s = Some (s', 0) \<and> j \<in> set (lst (links s') (Join t)) \<and> threads s' j = threads s j
     \<and> t_status (threads s' t) = THREAD_TERMINATED \<and> t_tid (threads s t) \<notin> bm_set (bitmap_threads s')"
proof -
  have "thread_owned t (preempt_disable s)" "current_task (preempt_disable s) = Some c"
    using assms(1,6) by (simp_all add: thread_owned_def current_task_def)
  from thread_delete_spec [OF this(1) _ _ _ _ this(2), unfolded preempt_frame preempt_tables, OF assms(2-5,7)] obtain s1 where
    s1: "thread_delete t (preempt_disable s) = Some s1" "links s1 = lk_del t (links s)"
      "threads s1 = (threads s)(t := (threads s t)\<lparr>t_status := THREAD_TERMINATED\<rparr>)"
      "bm_set (bitmap_threads s1) = bm_set (bitmap_threads s) - {t_tid (threads s t)}" by blast
  have "acquire_thread (sint tid) (preempt_disable s) = Some t" using assms(8) by (simp add: acquire_thread_def)
  then have "sys_pthread_cancel tid s = Some (preempt_enable s1, 0)"
    using s1(1) assms(9) by (simp add: sys_pthread_cancel_def critr_def)
  moreover have "j \<in> set (lst (links s1) (Join t))" "threads s1 j = threads s j" "t_status (threads s1 t) = THREAD_TERMINATED"
    "t_tid (threads s t) \<notin> bm_set (bitmap_threads s1)"
    using assms(10,11) unfolding s1(2,3,4) by simp_all
  ultimately show ?thesis by (intro exI [of _ "preempt_enable s1"]) simp
qed

text \<open>
  \<^verbatim>\<open>pthread_setschedparam\<close> changes the priority of a ready thread without moving it: the thread stays
  on the ready list of its old priority, and the scheduling invariant is broken.\<close>

theorem setschedparam_breaks_ready_list:
  assumes "sched_wf s" and "acquire_thread (sint tid) s = Some t" and "t_privilege (threads s t) = USER_THREAD"
    and "t_status (threads s t) = THREAD_READY" and "\<not> t_priority_inherited (threads s t)"
    and "0 \<le> p" and "p \<le> int THREAD_PRIORITY_MAX" and "nat p \<noteq> t_priority (threads s t)"
  shows "\<exists>s'. sys_pthread_setschedparam tid p s = Some (s', 0) \<and> t_priority (threads s' t) = nat p
     \<and> t \<in> set (lst (links s') (Ready (t_priority (threads s t)))) \<and> \<not> sched_wf s'"
proof -
  let ?s' = "preempt_enable (upd_thread t (t_priority_update (\<lambda>_. nat p)) (preempt_disable s))"
  have "acquire_thread (sint tid) (preempt_disable s) = Some t" using assms(2) by (simp add: acquire_thread_def)
  then have e: "sys_pthread_setschedparam tid p s = Some (?s', 0)"
    using assms(3,5-7) by (simp add: sys_pthread_setschedparam_def critr_def)
  have r: "t \<in> set (lst (links ?s') (Ready (t_priority (threads s t))))" using sched_wfD(4) [OF assms(1,4)] by simp
  have pr: "t_priority (threads ?s' t) = nat p" by simp
  have "\<not> sched_wf ?s'"
  proof
    assume "sched_wf ?s'"
    from sched_wfD(3) [OF this r] pr assms(8) show False by simp
  qed
  with e r pr show ?thesis by blast
qed

text \<open>
  A thread survives four signals: \<^verbatim>\<open>thread_signal_queue_alloc\<close> counts the header of a record into the
  element size, \<^verbatim>\<open>kfifo_init\<close> adds it again, and the buffer size is rounded down, so that the five slots of
  the signal queue have room for four records. Four records are stored and taken in any order of
  operations; the next one is written past the end of the buffer, into the pipe of the
  thread, even when every earlier signal has been handled.\<close>

theorem signal_queue_fifth_overflows:
  assumes "length (filter (\<lambda>v. v \<noteq> None) evs) = 4" and "\<forall>y. Some y \<in> set (Some x # evs) \<longrightarrow> length y = STAGED_HANDLER_INFO_SIZE"
  shows "\<exists>q. queue_run evs (fst (thread_signal_queue_alloc sp)) = Some q \<and> kf_count q \<le> 4 \<and> kf_size q = SIGNAL_QUEUE_SIZE
     \<and> kfifo_in q x = None"
proof -
  from queue_run_at [OF signal_queue_init(1) [of sp], of evs] assms obtain q where
    q: "queue_run evs (fst (thread_signal_queue_alloc sp)) = Some q" "sig_queue_at q 4" by auto
  have "kfifo_in q x = None" using signal_queue_full [OF q(2)] assms(2) by simp
  with q show ?thesis by (auto simp: sig_queue_at_def)
qed

lemma pthread_create_state:
  assumes me: "\<not> t_kernel_thread (threads s (running s))" "current_task s = Some c"
    and ok: "thread_table_ok s" and need: "STACK_NEED \<le> unat (ALIGN (ta_stacksize attr) 4)"
    and create: "sys_pthread_create (Some attr) func arg s = Some (s1, Some tid, 0)"
  shows "\<exists>u stk. thread_created tid stk attr False s u \<and> tid \<notin> set (k_threads_list (tasks u c)) \<and> running s \<noteq> tid \<and>
     s1 = preempt_enable (upd_thread tid (\<lambda>th. th\<lparr>t_name := take THREAD_NAME_MAX (t_name (threads s (running s))), t_task := Some c\<rparr>)
            (u\<lparr>tasks := (tasks u)(c := (tasks u c)\<lparr>k_threads_list := k_threads_list (tasks u c) @ [tid]\<rparr>)\<rparr>))"
proof -
  let ?d = "preempt_disable s"
  have d: "thread_table_ok ?d" using ok by (simp add: thread_table_ok_def free_bytes_def)
  from create me(1) obtain u tl k where u: "thread_create func attr arg False ?d = Some (u, Some tid, 0)" "current_task u = Some k"
    "seq_add tid (k_threads_list (tasks u k)) = Some tl"
    "s1 = preempt_enable (upd_thread tid (\<lambda>th. th\<lparr>t_name := take THREAD_NAME_MAX (t_name (threads s (running s))), t_task := Some k\<rparr>)
            (u\<lparr>tasks := (tasks u)(k := (tasks u k)\<lparr>k_threads_list := tl\<rparr>)\<rparr>))"
    by (auto simp: sys_pthread_create_def critr_def bind_eq_Some_iff Let_def split: option.splits)
  from thread_create_cases [OF d need, where func = func and arg = arg and kt = False] u(1)
  obtain stk where "thread_created tid stk attr False ?d u" by (auto split: if_splits)
  moreover have "free_bytes ?d = free_bytes s" by (simp add: free_bytes_def)
  ultimately have cr: "thread_created tid stk attr False s u" unfolding thread_created_def by simp
  have r: "running s \<noteq> tid" using thread_table_okD(3) [OF ok] cr by (auto simp: thread_created_def Let_def)
  then have "current_task u = Some c" using me(2) cr by (simp add: current_task_def thread_created_def Let_def)
  with u cr r show ?thesis by (auto simp: seq_add_def split: if_splits)
qed

text \<open>
  C21. Creating a thread and cancelling it at once gives everything back: the page bitmaps, the table of
  numbers, the scheduling lists and the list of threads are what they were before. The caller is a user thread that
  stays in its task, the stack has room for what the creation puts on it, and the page area starts at a multiple of
  the largest page, 8 KB, which \<^const>\<open>thread_table_ok\<close> includes and which the linker scripts, that align it to four
  bytes, do not provide: without it the release of the stack page can leave the bitmaps.\<close>

theorem pthread_create_cancel_roundtrip:
  assumes ok: "thread_table_ok s" and need: "STACK_NEED \<le> unat (ALIGN (ta_stacksize attr) 4)"
    and me: "\<not> t_kernel_thread (threads s (running s))" "current_task s = Some c"
    and tids: "\<forall>t \<in> set (threads_list s). t_tid (threads s t) = t"
    and mine: "running s \<in> set (k_threads_list (tasks s c))"
    and create: "sys_pthread_create (Some attr) func arg s = Some (s1, Some tid, 0)"
  shows "\<exists>s2. sys_pthread_cancel (word_of_nat tid) s1 = Some (s2, 0) \<and> pages s2 = pages s \<and> bitmap_threads s2 = bitmap_threads s
     \<and> links s2 = links s \<and> threads_list s2 = threads_list s"
proof -
  from pthread_create_state [OF me ok need create] obtain u stk where cr: "thread_created tid stk attr False s u"
    and nt: "tid \<notin> set (k_threads_list (tasks u c))" "running s \<noteq> tid"
    and s1: "s1 = preempt_enable (upd_thread tid (\<lambda>th. th\<lparr>t_name := take THREAD_NAME_MAX (t_name (threads s (running s))), t_task := Some c\<rparr>)
            (u\<lparr>tasks := (tasks u)(c := (tasks u c)\<lparr>k_threads_list := k_threads_list (tasks u c) @ [tid]\<rparr>)\<rparr>))" by blast
  let ?ss = "ALIGN (ta_stacksize attr) 4"
  let ?od = "order_arg ?ss"
  note t = thread_table_okD [OF ok]
  have c: "tid < THREAD_MAX" "tid \<notin> bm_set (bitmap_threads s)" "bm_set (bitmap_threads u) = insert tid (bm_set (bitmap_threads s))"
    "alloc_pages (page_start s) (pages s) ?od = Some (pages u, Some stk)" "threads u = (threads s)(tid := new_thread tid stk ?ss attr False)"
    "links u = lk_add tid Sleep (links s)" "threads_list u = threads_list s @ [tid]" "running u = running s"
    "page_start u = page_start s" "tasks u = tasks s" "length (bitmap_threads u) = length (bitmap_threads s)"
    using cr by (auto simp: thread_created_def Let_def)
  from alloc_pages_spec [OF t(8), of ?od "page_start s"] c(4) obtain i where od: "?od \<le> 5" and
    i: "stk = page_idx_to_addr (page_start s) i ?od" "page_wf (pages u)" "i < 2 ^ (8 - ?od)"
      "page_block ?od i \<subseteq> free_units (fam (pages s))" "free_units (fam (pages u)) = free_units (fam (pages s)) - page_block ?od i" by auto
  have pu: "page_units (page_start s) (stk, ?od) = page_block ?od i" using page_units_addr [OF t(7) od i(3)] i(1) by simp
  define d where "d = preempt_disable s1"
  define th where "th = (new_thread tid stk ?ss attr False)\<lparr>t_name := take THREAD_NAME_MAX (t_name (threads s (running s))), t_task := Some c\<rparr>"
  have th: "t_task th = Some c" "t_tid th = tid" "t_stack th = stk" "t_stack_size th = ?ss" "t_privilege th = USER_THREAD"
    by (simp_all add: th_def new_thread_def)
  have f: "threads d = (threads s)(tid := th)" "links d = lk_add tid Sleep (links s)" "threads_list d = threads_list s @ [tid]"
    "running d = running s" "page_start d = page_start s" "pages d = pages u" "bitmap_threads d = bitmap_threads u"
    "k_threads_list (tasks d c) = k_threads_list (tasks s c) @ [tid]"
    using c by (simp_all add: d_def s1 th_def upd_thread_def)
  have len: "length (bitmap_threads u) = 2" using c(11) t(2) by simp
  have ow: "thread_owned tid d"
    using od i pu c(1) th by (auto simp: thread_owned_def f page_live_ok_def len config)
  have ct: "current_task d = Some c" using me(2) nt(2) by (simp add: current_task_def f)
  from thread_delete_spec [OF ow _ _ _ _ ct] t(7) i(2) nt(2) mine obtain s2 where
    s2: "thread_delete tid d = Some s2" "links s2 = lk_del tid (lk_add tid Sleep (links s))" "threads_list s2 = remove1 tid (threads_list s @ [tid])"
      "bm_set (bitmap_threads s2) = bm_set (bitmap_threads u) - {tid}" "length (bitmap_threads s2) = 2" "page_wf (pages s2)"
      "free_units (fam (pages s2)) = free_units (fam (pages u)) \<union> page_block ?od i"
    by (auto simp: f th len pu)
  have "pages s2 = pages s" using page_wf_unique [OF s2(6) t(8)] s2(7) i(4,5) by blast
  moreover have "bitmap_threads s2 = bitmap_threads s" using s2(4,5) c(2,3) t(2) by (intro bm_set_inject) auto
  moreover have "links s2 = links s" using lk_del_add [OF t(4) [OF c(2)]] s2(2) by simp
  moreover have "threads_list s2 = threads_list s" using s2(3) t(5) [OF c(2)] by (simp add: remove1_append)
  moreover have "acquire_thread (sint (word_of_nat tid :: u32)) d = Some tid"
    using acquire_in_unique [of "threads_list s @ [tid]" "\<lambda>t. t_tid (threads d t)" tid] c(1) tids th sint_small [of tid]
    by (simp add: acquire_thread_def f config)
  then have "sys_pthread_cancel (word_of_nat tid) s1 = Some (preempt_enable s2, 0)"
    using s2(1) th(5) by (simp add: sys_pthread_cancel_def critr_def d_def [symmetric] f(1))
  ultimately show ?thesis by auto
qed

section \<open>Witnesses\<close>

definition demo_tattr :: thread_attr where
  "demo_tattr = \<lparr>ta_sched_priority = 3, ta_stackaddr = 0, ta_stacksize = 1024, ta_schedpolicy = SCHED_RR,
                ta_detachstate = PTHREAD_CREATE_JOINABLE\<rparr>"

lemma demo_tattr_ok: "\<not> bad_thread_attr demo_tattr False" "STACK_NEED \<le> unat (ALIGN (ta_stacksize demo_tattr) 4)"
  by (simp_all add: bad_thread_attr_def demo_tattr_def config STACK_NEED_def ALIGN_def ALIGN_MASK_def)

text \<open>Four threads of one task, the first one running.\<close>

definition demo_owned :: "(nat \<Rightarrow> tstatus) \<Rightarrow> (lid \<times> nat) list \<Rightarrow> u32 \<Rightarrow> page_bitmap \<Rightarrow> kstate" where
  "demo_owned st L stack pb =
     (demo_kstate (\<lambda>t. (demo_thread t 3 (st t))\<lparr>t_task := Some 0, t_stack := stack, t_stack_size := 256, t_retval_join := 0x100\<rparr>) 0 L)
       \<lparr>pages := pb, tasks := (\<lambda>_. zero_task\<lparr>k_threads_list := [0, 1, 2, 3]\<rparr>)\<rparr>"

lemma demo_owned_sel:
  "threads (demo_owned st L a pb) t = (demo_thread t 3 (st t))\<lparr>t_task := Some 0, t_stack := a, t_stack_size := 256, t_retval_join := 0x100\<rparr>"
  "links (demo_owned st L a pb) = L" "running (demo_owned st L a pb) = 0" "threads_list (demo_owned st L a pb) = [0, 1, 2, 3]"
  "pages (demo_owned st L a pb) = pb" "page_start (demo_owned st L a pb) = 0x20000000" "bitmap_threads (demo_owned st L a pb) = [0xf, 0]"
  "tasks (demo_owned st L a pb) k = zero_task\<lparr>k_threads_list := [0, 1, 2, 3]\<rparr>"
  by (simp_all add: demo_owned_def demo_kstate_def)

lemma demo_tbits: "bm_set [0xf, 0] = {0, 1, 2, 3}"
proof -
  define w :: u32 where "w = mask 4"
  have bw: "bit w b \<longleftrightarrow> b < 4" for b unfolding w_def by (simp only: bit_mask_iff) auto
  have "bm_bit [w, 0] b \<longleftrightarrow> b < 4" for b
  proof (cases "b < 32")
    case False
    then obtain n where "b div 32 = Suc n" by (metis div_eq_0_iff not0_implies_Suc zero_neq_numeral)
    then show ?thesis using False by (cases n) (auto simp: bm_bit_def)
  qed (auto simp: bm_bit_def bw)
  then have "bm_set [w, 0] = {b. b < 4}" by (simp only: bm_set_def)
  moreover have "{b :: nat. b < 4} = {0, 1, 2, 3}" by auto
  moreover have "(0xf :: u32) = w" by (simp add: w_def mask_eq_exp_minus_1)
  ultimately show ?thesis by (simp only:)
qed

lemma demo_stack:
  "\<exists>pb a. alloc_pages 0x20000000 page_bitmap_init 0 = Some (pb, Some a) \<and> page_wf pb
     \<and> (t < 4 \<longrightarrow> thread_owned t (demo_owned st L a pb))"
proof -
  have "fam page_bitmap_init 5 \<noteq> {}" by (simp add: fam_init lessThan_empty_iff)
  with alloc_pages_spec [OF page_init_wf, of 0 "0x20000000"] obtain pb i where
    p: "alloc_pages 0x20000000 page_bitmap_init 0 = Some (pb, Some (page_idx_to_addr 0x20000000 i 0))" "page_wf pb" "i < 2 ^ (8 - 0)"
      "free_units (fam pb) = free_units (fam page_bitmap_init) - page_block 0 i" by fastforce
  have ok: "page_mem_ok 0x20000000" by (simp add: page_mem_ok_def)
  have o: "order_arg 256 = 0" by code_simp
  let ?a = "page_idx_to_addr 0x20000000 i 0"
  have "page_units 0x20000000 (?a, 0) = page_block 0 i" using page_units_addr [OF ok _ p(3)] by simp
  then have "page_units 0x20000000 (?a, 0) \<inter> free_units (fam pb) = {}" using p(4) by auto
  moreover have "page_live_ok 0x20000000 (?a, 0)" using p(3) by (auto simp: page_live_ok_def)
  moreover have "t \<in> {0, 1, 2, 3}" if "t < 4" using that by auto
  ultimately have "t < 4 \<longrightarrow> thread_owned t (demo_owned st L ?a pb)"
    by (auto simp: thread_owned_def demo_owned_sel demo_thread_def o)
  with p show ?thesis by blast
qed

lemma demo_mem_ok: "page_mem_ok 0x20000000"
  by (simp add: page_mem_ok_def)

text \<open>A state with room for a thread.\<close>

definition demo_room :: pstate where
  "demo_room = demo_pstate (demo_owned (\<lambda>_. THREAD_WAIT) [] 0 page_bitmap_init) []"

lemma demo_room_sel:
  "threads demo_room t = (demo_thread t 3 THREAD_WAIT)\<lparr>t_task := Some 0, t_stack := 0, t_stack_size := 256, t_retval_join := 0x100\<rparr>"
  "links demo_room = []" "running demo_room = 0" "threads_list demo_room = [0, 1, 2, 3]" "pages demo_room = page_bitmap_init"
  "page_start demo_room = 0x20000000" "bitmap_threads demo_room = [0xf, 0]"
  "tasks demo_room k = zero_task\<lparr>k_threads_list := [0, 1, 2, 3]\<rparr>"
  by (simp_all add: demo_room_def demo_pstate_def kstate.defs demo_owned_def demo_kstate_def)

lemma demo_room_ok: "thread_table_ok demo_room"
proof -
  have "sched_wf demo_room" by (simp add: sched_wf_def demo_room_sel lk_wf_def lst_def demo_thread_def config)
  then show ?thesis
    unfolding thread_table_ok_def demo_room_sel demo_tbits using page_init_wf demo_mem_ok
    by (auto simp: lk_linked_def lst_def demo_thread_def)
qed

lemma demo_room_create:
  "\<exists>s' tid stk. thread_create func demo_tattr arg False (preempt_disable demo_room) = Some (s', Some tid, 0) \<and> thread_created tid stk demo_tattr False (preempt_disable demo_room) s'"
proof -
  have "fam page_bitmap_init 5 \<noteq> {}" by (simp add: fam_init lessThan_empty_iff)
  moreover have "order_arg (ALIGN (ta_stacksize demo_tattr) 4) \<le> 5" by code_simp
  ultimately obtain pb i where al: "alloc_pages (page_start demo_room) (pages demo_room) (order_arg (ALIGN (ta_stacksize demo_tattr) 4))
      = Some (pb, Some i)"
    unfolding demo_room_sel using alloc_pages_spec [OF page_init_wf, of "order_arg (ALIGN (ta_stacksize demo_tattr) 4)" "0x20000000"]
    by (metis order_refl)
  have "4 \<notin> {0, 1, 2, 3 :: nat}" by simp
  then have "\<not> {..<THREAD_MAX} \<subseteq> bm_set (bitmap_threads demo_room)" unfolding demo_room_sel demo_tbits config by (metis lessThan_iff numeral_less_iff subsetD semiring_norm(75,76,78,80))
  moreover have ok: "thread_table_ok (preempt_disable demo_room)" using demo_room_ok by (simp add: thread_table_ok_def free_bytes_def)
  ultimately show ?thesis
    using thread_create_cases [OF ok demo_tattr_ok(2), where func = func and arg = arg and kt = False] al demo_tattr_ok(1) by simp
qed

theorem thread_create_correct_witness:
  "\<exists>s' r e. thread_create 0x8000 demo_tattr 0 False demo_room = Some (s', r, e)"
  using thread_create_correct [OF demo_room_ok demo_tattr_ok(2), where func = "0x8000" and arg = 0 and kt = False]
  by (auto split: if_splits)

theorem pthread_exit_wakes_joiners_witness:
  "\<exists>pb a s'. sys_pthread_exit 42 (demo_owned ((\<lambda>_. THREAD_WAIT)(0 := THREAD_RUNNING)) [(Join 0, 1)] a pb) = Some s'
     \<and> t_status (threads s' 1) = THREAD_READY \<and> mem s' 0x100 = 42"
proof -
  let ?st = "(\<lambda>_. THREAD_WAIT)(0 := THREAD_RUNNING)"
  from demo_stack [where t = 0 and st = ?st and L = "[(Join 0, 1)]"] obtain pb a where
    p: "page_wf pb" "thread_owned 0 (demo_owned ?st [(Join 0, 1)] a pb)" by auto
  let ?s = "demo_owned ?st [(Join 0, 1)] a pb"
  have "sched_wf ?s" by (auto simp: sched_wf_def demo_owned_sel lk_wf_def lk_linked_def lst_def demo_thread_def config)
  moreover have "t_status (threads ?s (running ?s)) = THREAD_RUNNING" "thread_owned (running ?s) ?s"
    "page_mem_ok (page_start ?s)" "page_wf (pages ?s)"
    using p demo_mem_ok by (simp_all add: demo_owned_sel demo_thread_def)
  ultimately obtain s' where s': "sys_pthread_exit 42 ?s = Some s'" "exited 42 ?s s'"
    using pthread_exit_wakes_joiners by blast
  then have "t_status (threads s' 1) = THREAD_READY \<and> mem s' 0x100 = 42"
    by (simp add: exited_def demo_owned_sel lst_def Let_def)
  with s'(1) show ?thesis by blast
qed

theorem pthread_cancel_strands_joiners_witness:
  "\<exists>pb a s'. sys_pthread_cancel 1 (demo_owned (\<lambda>_. THREAD_WAIT) [(Sleep, 1), (Join 1, 2)] a pb) = Some (s', 0)
     \<and> 2 \<in> set (lst (links s') (Join 1)) \<and> 1 \<notin> bm_set (bitmap_threads s')"
proof -
  let ?L = "[(Sleep, 1), (Join 1, 2)]"
  from demo_stack [where t = 1 and st = "\<lambda>_. THREAD_WAIT" and L = ?L] obtain pb a where
    p: "page_wf pb" "thread_owned 1 (demo_owned (\<lambda>_. THREAD_WAIT) ?L a pb)" by auto
  let ?s = "demo_owned (\<lambda>_. THREAD_WAIT) ?L a pb"
  have "page_mem_ok (page_start ?s)" "page_wf (pages ?s)" "1 \<noteq> running ?s" "lk_linked 1 (links ?s)" "current_task ?s = Some 0"
    "running ?s \<in> set (k_threads_list (tasks ?s 0))" "acquire_thread (sint (1 :: u32)) ?s = Some 1"
    "t_privilege (threads ?s 1) = USER_THREAD" "2 \<in> set (lst (links ?s) (Join 1))" "t_tid (threads ?s 1) = 1"
    using p(1) demo_mem_ok by (simp_all add: demo_owned_sel demo_thread_def lk_linked_def current_task_def acquire_thread_def lst_def)
  with pthread_cancel_strands_joiners [OF p(2), of 0 1 2] show ?thesis by fastforce
qed

theorem setschedparam_breaks_ready_list_witness:
  "\<exists>s'. sys_pthread_setschedparam 1 5 (demo_owned ((\<lambda>_. THREAD_WAIT)(1 := THREAD_READY)) [(Ready 3, 1)] 0 page_bitmap_init) = Some (s', 0)
     \<and> \<not> sched_wf s'"
proof -
  let ?s = "demo_owned ((\<lambda>_. THREAD_WAIT)(1 := THREAD_READY)) [(Ready 3, 1)] 0 page_bitmap_init"
  have wf: "sched_wf ?s" by (auto simp: sched_wf_def demo_owned_sel lk_wf_def lk_linked_def lst_def demo_thread_def config split: if_splits)
  have "acquire_thread (sint (1 :: u32)) ?s = Some 1" "t_privilege (threads ?s 1) = USER_THREAD" "t_status (threads ?s 1) = THREAD_READY"
    "\<not> t_priority_inherited (threads ?s 1)" "nat 5 \<noteq> t_priority (threads ?s 1)"
    by (simp_all add: demo_owned_sel demo_thread_def acquire_thread_def)
  from setschedparam_breaks_ready_list [OF wf this(1-4) _ _ this(5)] show ?thesis by (auto simp: config)
qed

theorem signal_queue_fifth_overflows_witness:
  "\<exists>q. queue_run (concat (replicate 4 [Some (replicate 20 7), None])) (fst (thread_signal_queue_alloc 0x20000400)) = Some q
     \<and> kfifo_in q (replicate 20 7) = None"
proof -
  have "length (filter (\<lambda>v. v \<noteq> None) (concat (replicate 4 [Some (replicate 20 (7 :: u8)), None]))) = 4"
    by (simp add: numeral_eq_Suc)
  moreover have "\<forall>y. Some y \<in> set (Some (replicate 20 7) # concat (replicate 4 [Some (replicate 20 (7 :: u8)), None]))
      \<longrightarrow> length y = STAGED_HANDLER_INFO_SIZE" by (auto simp: config)
  ultimately show ?thesis using signal_queue_fifth_overflows [of _ "replicate 20 7" "0x20000400"] by blast
qed

theorem pthread_create_cancel_roundtrip_witness:
  "\<exists>s1 tid s2. sys_pthread_create (Some demo_tattr) 0x8000 0 demo_room = Some (s1, Some tid, 0)
     \<and> sys_pthread_cancel (word_of_nat tid) s1 = Some (s2, 0) \<and> pages s2 = page_bitmap_init"
proof -
  from demo_room_create obtain u tid stk where u: "thread_create 0x8000 demo_tattr 0 False (preempt_disable demo_room) = Some (u, Some tid, 0)"
    and cr: "thread_created tid stk demo_tattr False (preempt_disable demo_room) u" by blast
  have c: "tid \<notin> {0, 1, 2, 3}" "threads u = (threads demo_room)(tid := new_thread tid stk (ALIGN (ta_stacksize demo_tattr) 4) demo_tattr False)"
    "running u = 0" "tasks u = tasks demo_room"
    using cr unfolding thread_created_def Let_def preempt_frame preempt_tables demo_room_sel demo_tbits by blast+
  then have ct: "current_task u = Some 0" "tid \<notin> set (k_threads_list (tasks u 0))"
    by (simp_all add: current_task_def demo_room_sel demo_thread_def)
  have kt: "\<not> t_kernel_thread (threads demo_room 0)" by (simp add: demo_room_sel demo_thread_def)
  from u ct kt obtain s1 where s1: "sys_pthread_create (Some demo_tattr) 0x8000 0 demo_room = Some (s1, Some tid, 0)"
    by (auto simp: sys_pthread_create_def critr_def seq_add_def demo_room_sel(3) Let_def)
  have h: "\<not> t_kernel_thread (threads demo_room (running demo_room))" "current_task demo_room = Some 0"
    "\<forall>t \<in> set (threads_list demo_room). t_tid (threads demo_room t) = t"
    "running demo_room \<in> set (k_threads_list (tasks demo_room 0))"
    by (simp_all add: demo_room_sel demo_thread_def current_task_def)
  from pthread_create_cancel_roundtrip [OF demo_room_ok demo_tattr_ok(2) h s1] s1 show ?thesis
    by (auto simp: demo_room_sel)
qed

end
