(* ===== verification/Signal.thy ===== *)
theory Signal
  imports Thread Slab
begin

text \<open>
  Signals (\<^verbatim>\<open>kernel/signal.c\<close>, and \<^verbatim>\<open>handle_signal\<close>, \<^verbatim>\<open>sys_pthread_kill\<close>, \<^verbatim>\<open>sys_sigaction\<close>,
  \<^verbatim>\<open>sys_sigwait\<close>, \<^verbatim>\<open>sys_kill\<close> and \<^verbatim>\<open>sys_raise\<close> of \<^verbatim>\<open>kernel/kernel.c\<close>). A signal set is the word of the
  code. An entry of the signal table is the contents of the structure it points to: \<^verbatim>\<open>sys_sigaction\<close>
  allocates each entry for one thread and one signal, and nothing else refers to it.
\<close>

section \<open>Signal numbers and sets\<close>

definition SIGUSR1 :: int where [config]: "SIGUSR1 = 10"
definition SIGUSR2 :: int where [config]: "SIGUSR2 = 12"
definition SIGPOLL :: int where [config]: "SIGPOLL = 29"
definition SIGSTOP :: int where [config]: "SIGSTOP = 19"
definition SIGCONT :: int where [config]: "SIGCONT = 18"
definition SIGKILL :: int where [config]: "SIGKILL = 9"
definition SA_SIGINFO :: u32 where [config]: "SA_SIGINFO = 2"

definition is_signal_defined :: "int \<Rightarrow> bool" where
  "is_signal_defined signum \<longleftrightarrow> signum = SIGUSR1 \<or> signum = SIGUSR2 \<or> signum = SIGPOLL
     \<or> signum = SIGSTOP \<or> signum = SIGCONT \<or> signum = SIGKILL"

definition sig2bit :: "int \<Rightarrow> u32" where
  "sig2bit signum =
     (if signum = SIGUSR1 then push_bit 0 1
      else if signum = SIGUSR2 then push_bit 1 1
      else if signum = SIGPOLL then push_bit 2 1
      else if signum = SIGSTOP then push_bit 3 1
      else if signum = SIGCONT then push_bit 4 1
      else if signum = SIGKILL then push_bit 5 1
      else 0)"

definition get_signal_index :: "int \<Rightarrow> nat" where
  "get_signal_index signum =
     (if signum = SIGUSR1 then 0
      else if signum = SIGUSR2 then 1
      else if signum = SIGPOLL then 2
      else if signum = SIGSTOP then 3
      else if signum = SIGCONT then 4
      else if signum = SIGKILL then 5
      else 0)"

text \<open>The set that a call stores and its result.\<close>

definition sigemptyset :: "u32 \<Rightarrow> u32 \<times> int" where
  "sigemptyset st = (0, 0)"

definition sigfillset :: "u32 \<Rightarrow> u32 \<times> int" where
  "sigfillset st = (0xffffffff, 0)"

definition sigaddset :: "u32 \<Rightarrow> int \<Rightarrow> u32 \<times> int" where
  "sigaddset st signum =
     (if \<not> is_signal_defined signum then (st, - EINVAL) else (st OR sig2bit signum, 0))"

definition sigdelset :: "u32 \<Rightarrow> int \<Rightarrow> u32 \<times> int" where
  "sigdelset st signum =
     (if \<not> is_signal_defined signum then (st, - EINVAL) else (st AND sig2bit signum, 0))"

definition sigismember :: "u32 \<Rightarrow> int \<Rightarrow> int" where
  "sigismember st signum = (if st AND sig2bit signum \<noteq> 0 then 0 else - EINVAL)"

text \<open>The set that \<^verbatim>\<open>pause\<close> waits for; \<^verbatim>\<open>sys_sigwait\<close> rejects the bits outside it.\<close>

definition all_signals :: u32 where
  "all_signals = sig2bit SIGUSR1 OR sig2bit SIGUSR2 OR sig2bit SIGPOLL
     OR sig2bit SIGSTOP OR sig2bit SIGCONT OR sig2bit SIGKILL"

section \<open>Delivery\<close>

definition sigwait_wakeup :: "nat \<Rightarrow> int \<Rightarrow> 'a kstate_scheme \<Rightarrow> 'a kstate_scheme option" where
  "sigwait_wakeup t signum s =
     (if t_wait_for_signal (threads s t) \<and> sig2bit signum AND t_sig_wait_set (threads s t) \<noteq> 0
      then do {
        s1 \<leftarrow> finish_wait t (upd_thread t (t_wait_for_signal_update (\<lambda>_. False)) s);
        let m = (mem s1)(t_ret_sig (threads s1 t) := word_of_int signum);
        Some (s1\<lparr>mem := m(t_syscall_args (threads s1 t) ! 0 := 0)\<rparr>)
      } else Some s)"

definition signal_action :: "nat \<Rightarrow> int \<Rightarrow> 'a kstate_scheme \<Rightarrow> ('a kstate_scheme \<times> bool) option" where
  "signal_action t signum s =
     (if signum = SIGUSR1 then Some (s, True)
      else if signum = SIGUSR2 then Some (s, True)
      else if signum = SIGPOLL then Some (s, True)
      else if signum = SIGSTOP then map_option (\<lambda>s1. (s1, False)) (thread_suspend t s)
      else if signum = SIGCONT then map_option (\<lambda>s1. (s1, True)) (thread_resume t s)
      else if signum = SIGKILL then map_option (\<lambda>s1. (s1, False)) (thread_delete t s)
      else Some (s, False))"

definition stage_signal :: "nat \<Rightarrow> int \<Rightarrow> 'a kstate_scheme \<Rightarrow> 'a kstate_scheme option" where
  "stage_signal t signum s =
     (case t_sig_table (threads s t) (get_signal_index signum) of
        None \<Rightarrow> Some s
      | Some act \<Rightarrow>
          if sa_handler act = 0 then Some s
          else if sa_flags act AND SA_SIGINFO \<noteq> 0
          then enqueue_pending_signal t (sa_handler act) [word_of_int signum, 0, 0, 0] s
          else enqueue_pending_signal t (sa_handler act) [word_of_int signum, 0, 0, 0] s)"

definition handle_signal :: "nat \<Rightarrow> int \<Rightarrow> 'a kstate_scheme \<Rightarrow> 'a kstate_scheme option" where
  "handle_signal t signum s = do {
     s1 \<leftarrow> sigwait_wakeup t signum s;
     (s2, stage_handler) \<leftarrow> signal_action t signum s1;
     if \<not> stage_handler then Some s2 else stage_signal t signum s2
   }"

definition sys_pthread_kill :: "u32 \<Rightarrow> int \<Rightarrow> 'a kstate_scheme \<Rightarrow> ('a kstate_scheme \<times> int) option" where
  "sys_pthread_kill tid sig = critr (\<lambda>s.
     case acquire_thread (sint tid) s of
       None \<Rightarrow> Some (s, - ESRCH)
     | Some t \<Rightarrow>
         if t_privilege (threads s t) = KERNEL_THREAD then Some (s, - EPERM)
         else if \<not> is_signal_defined sig then Some (s, - EINVAL)
         else map_option (\<lambda>s1. (s1, 0)) (handle_signal t sig s))"

text \<open>\<^verbatim>\<open>list_for_each_safe\<close> over the threads of a task. The body removes at most the thread it visits.\<close>

primrec signal_each :: "nat list \<Rightarrow> int \<Rightarrow> 'a kstate_scheme \<Rightarrow> 'a kstate_scheme option" where
  "signal_each [] sig s = Some s"
| "signal_each (t # ts) sig s = handle_signal t sig s \<bind> signal_each ts sig"

definition signal_task :: "nat option \<Rightarrow> int \<Rightarrow> 'a kstate_scheme \<Rightarrow> ('a kstate_scheme \<times> int) option" where
  "signal_task task sig s =
     (case task of
        None \<Rightarrow> Some (s, - ESRCH)
      | Some k \<Rightarrow>
          if \<not> is_signal_defined sig then Some (s, - EINVAL)
          else map_option (\<lambda>s1. (s1, 0)) (signal_each (k_threads_list (tasks s k)) sig s))"

definition sys_kill :: "int \<Rightarrow> int \<Rightarrow> 'a kstate_scheme \<Rightarrow> ('a kstate_scheme \<times> int) option" where
  "sys_kill pid sig = critr (\<lambda>s. signal_task (acquire_task pid s) sig s)"

definition sys_raise :: "int \<Rightarrow> 'a kstate_scheme \<Rightarrow> ('a kstate_scheme \<times> int) option" where
  "sys_raise sig = critr (\<lambda>s. signal_task (current_task s) sig s)"

section \<open>Actions and waiting\<close>

definition set_sig_entry :: "nat \<Rightarrow> nat \<Rightarrow> sigaction \<Rightarrow> 'a kstate_scheme \<Rightarrow> 'a kstate_scheme" where
  "set_sig_entry t i act = upd_thread t (\<lambda>th. th\<lparr>t_sig_table := (t_sig_table th)(i := Some act)\<rparr>)"

text \<open>The result holds what the call stores through \<open>oldact\<close>. The allocation asks for the size of
  the pointer \<^verbatim>\<open>act\<close>, four bytes; the smallest object of \<^verbatim>\<open>kmalloc\<close> has room for the structure.\<close>

definition sys_sigaction ::
  "int \<Rightarrow> sigaction \<Rightarrow> sigaction option \<Rightarrow> 'a sstate_scheme \<Rightarrow> ('a sstate_scheme \<times> sigaction option \<times> int) option" where
  "sys_sigaction signum act oldact = critr (\<lambda>s.
     if \<not> is_signal_defined signum then Some (s, oldact, - EINVAL)
     else let i = get_signal_index signum in
       case t_sig_table (threads s (running s)) i of
         Some sig_entry \<Rightarrow>
           Some (set_sig_entry (running s) i act s, map_option (\<lambda>_. sig_entry) oldact, 0)
       | None \<Rightarrow> do {
           (s1, new_act) \<leftarrow> kmalloc 4 s;
           case new_act of
             None \<Rightarrow> Some (s1, oldact, - ENOMEM)
           | Some _ \<Rightarrow> Some (set_sig_entry (running s) i act s1, oldact, 0)
         })"

definition sys_sigwait :: "u32 \<Rightarrow> u32 \<Rightarrow> 'a kstate_scheme \<Rightarrow> ('a kstate_scheme \<times> int) option" where
  "sys_sigwait st sig = critr (\<lambda>s.
     if st AND NOT all_signals \<noteq> 0 then Some (s, - EINVAL)
     else do {
       s1 \<leftarrow> prepare_to_wait Suspend (running s) THREAD_WAIT
               (upd_thread (running s) (\<lambda>th. th\<lparr>t_sig_wait_set := st, t_ret_sig := sig, t_wait_for_signal := True\<rparr>) s);
       Some (s1, 0)
     })"

section \<open>Sets\<close>

text \<open>The signals that a word stands for.\<close>

definition sigset_abs :: "u32 \<Rightarrow> int set" where
  "sigset_abs st = {sig. is_signal_defined sig \<and> st AND sig2bit sig \<noteq> 0}"

lemma sig2bit_index: "is_signal_defined sig \<Longrightarrow> sig2bit sig = 2 ^ get_signal_index sig \<and> get_signal_index sig < 6"
  by (auto simp: is_signal_defined_def sig2bit_def get_signal_index_def config)

lemma get_signal_index_inj:
  "is_signal_defined a \<Longrightarrow> is_signal_defined b \<Longrightarrow> get_signal_index a = get_signal_index b \<longleftrightarrow> a = b"
  by (auto simp: is_signal_defined_def get_signal_index_def config)

lemma sigset_abs_bit: "sigset_abs st = {sig. is_signal_defined sig \<and> bit st (get_signal_index sig)}"
  using sig2bit_index by (auto simp: sigset_abs_def and_exp_eq_0_iff_not_bit)

lemma sig2bit_undefined: "\<not> is_signal_defined sig \<Longrightarrow> sig2bit sig = 0"
  by (simp add: is_signal_defined_def sig2bit_def)

section \<open>The record of a pending signal\<close>

lemma bytes_word_bytes: "bytes_word (word_bytes w @ bs) = w"
proof (rule bit_word_eqI)
  fix n assume n: "n < LENGTH(32)"
  consider "n < 8" | "8 \<le> n" "n < 16" | "16 \<le> n" "n < 24" | "24 \<le> n" by linarith
  then show "bit (bytes_word (word_bytes w @ bs)) n = bit w n"
    using n by cases (auto simp: bytes_word_def word_bytes_def bit_simps)
qed

lemma info_decode_bytes: "info_decode (info_bytes func [a, b, c, d]) = (func, [a, b, c, d])"
proof -
  have l: "length (word_bytes w) = 4" for w by (simp add: word_bytes_def)
  have 0: "bytes_word (word_bytes d) = d" using bytes_word_bytes [of d "[]"] by simp
  show ?thesis by (simp add: info_decode_def info_bytes_def bytes_word_bytes l 0)
qed

lemma info_bytes_length: "length (info_bytes func [a, b, c, d]) = STAGED_HANDLER_INFO_SIZE"
  by (simp add: info_bytes_def word_bytes_def config)

section \<open>Delivery to a thread\<close>

definition waits_for :: "int \<Rightarrow> thread \<Rightarrow> bool" where
  "waits_for sig th \<longleftrightarrow> t_wait_for_signal th \<and> sig2bit sig AND t_sig_wait_set th \<noteq> 0"

text \<open>The handler that a signal of a thread runs, if any.\<close>

definition handler_of :: "int \<Rightarrow> thread \<Rightarrow> u32 option" where
  "handler_of sig th =
     (case t_sig_table th (get_signal_index sig) of
        None \<Rightarrow> None | Some act \<Rightarrow> if sa_handler act = 0 then None else Some (sa_handler act))"

definition sig_thread_ok :: "thread \<Rightarrow> nat \<Rightarrow> bool" where
  "sig_thread_ok th e \<longleftrightarrow> sig_queue_at (t_signal_queue th) e \<and> t_signal_cnt th = length (sig_pending (t_signal_queue th))"

text \<open>The records of the pending signals of a thread, as handler and arguments.\<close>

definition pending_signals :: "thread \<Rightarrow> (u32 \<times> u32 list) list" where
  "pending_signals th = map info_decode (sig_pending (t_signal_queue th))"

lemma pending_count: "sig_queue_at q e \<Longrightarrow> nat (kfifo_len q) = length (sig_pending q)"
  by (simp add: kfifo_len_def sig_queue_at_def sig_pending_def)

lemma enqueue_spec:
  assumes "sig_thread_ok (threads s t) e" and "e < 4"
  shows "\<exists>q. enqueue_pending_signal t f [a, b, c, d] s = Some (upd_thread t (\<lambda>th. th\<lparr>t_signal_queue := q, t_signal_cnt := length (sig_pending q)\<rparr>) s)
     \<and> sig_queue_at q (Suc e) \<and> sig_pending q = sig_pending (t_signal_queue (threads s t)) @ [info_bytes f [a, b, c, d]]"
proof -
  from assms signal_queue_push [OF _ assms(2) info_bytes_length, of "t_signal_queue (threads s t)" f a b c d] obtain q where
    q: "kfifo_in (t_signal_queue (threads s t)) (info_bytes f [a, b, c, d]) = Some q" "sig_queue_at q (Suc e)"
      "sig_pending q = sig_pending (t_signal_queue (threads s t)) @ [info_bytes f [a, b, c, d]]" by (auto simp: sig_thread_ok_def)
  then show ?thesis using pending_count [OF q(2)] by (intro exI [of _ q]) (simp add: enqueue_pending_signal_def)
qed

lemma enqueue_full:
  "sig_thread_ok (threads s t) 4 \<Longrightarrow> enqueue_pending_signal t f [a, b, c, d] s = None"
  using signal_queue_full [OF _ info_bytes_length, of "t_signal_queue (threads s t)" f a b c d]
  by (simp add: sig_thread_ok_def enqueue_pending_signal_def)

lemma stage_signal_spec:
  assumes "sig_thread_ok (threads s t) e" and "e < 4 \<or> handler_of sig (threads s t) = None"
  shows "\<exists>q c e'. stage_signal t sig s = Some (upd_thread t (\<lambda>th. th\<lparr>t_signal_queue := q, t_signal_cnt := c\<rparr>) s)
     \<and> sig_thread_ok ((threads s t)\<lparr>t_signal_queue := q, t_signal_cnt := c\<rparr>) e'
     \<and> pending_signals ((threads s t)\<lparr>t_signal_queue := q, t_signal_cnt := c\<rparr>) = pending_signals (threads s t)
         @ (case handler_of sig (threads s t) of None \<Rightarrow> [] | Some h \<Rightarrow> [(h, [word_of_int sig, 0, 0, 0])])"
proof (cases "handler_of sig (threads s t)")
  case None
  then have "stage_signal t sig s = Some s"
    by (auto simp: stage_signal_def handler_of_def split: option.splits if_splits)
  moreover have "s = upd_thread t (\<lambda>th. th\<lparr>t_signal_queue := t_signal_queue (threads s t), t_signal_cnt := t_signal_cnt (threads s t)\<rparr>) s"
    by (simp add: upd_thread_def)
  ultimately show ?thesis using None assms(1)
    by (intro exI [of _ "t_signal_queue (threads s t)"] exI [of _ "t_signal_cnt (threads s t)"] exI [of _ e])
       (simp add: sig_thread_ok_def pending_signals_def)
next
  case (Some h)
  from enqueue_spec [OF assms(1), of h "word_of_int sig" 0 0 0] assms(2) Some obtain q where
    q: "enqueue_pending_signal t h [word_of_int sig, 0, 0, 0] s = Some (upd_thread t (\<lambda>th. th\<lparr>t_signal_queue := q, t_signal_cnt := length (sig_pending q)\<rparr>) s)"
      "sig_queue_at q (Suc e)" "sig_pending q = sig_pending (t_signal_queue (threads s t)) @ [info_bytes h [word_of_int sig, 0, 0, 0]]"
    by auto
  have "stage_signal t sig s = Some (upd_thread t (\<lambda>th. th\<lparr>t_signal_queue := q, t_signal_cnt := length (sig_pending q)\<rparr>) s)"
    using Some q(1) by (auto simp: stage_signal_def handler_of_def split: option.splits if_splits)
  then show ?thesis using q(2,3) Some
    by (intro exI [of _ q] exI [of _ "length (sig_pending q)"] exI [of _ "Suc e"])
       (simp add: sig_thread_ok_def pending_signals_def info_decode_bytes)
qed

lemma make_ready_mem [simp]: "mem (make_ready t s) = mem s"
  by (simp add: make_ready_def set_status_def upd_thread_def)

lemma sigwait_wakeup_spec:
  fixes sig :: int
  assumes "sched_wf s" and "lk_linked t (links s)" and "t \<noteq> running s"
  defines "w \<equiv> waits_for sig (threads s t)"
  shows "\<exists>s1. sigwait_wakeup t sig s = Some s1 \<and> sched_wf s1 \<and> running s1 = running s
     \<and> threads s1 = (if w then (threads s)(t := (threads s t)\<lparr>t_wait_for_signal := False, t_status := THREAD_READY\<rparr>) else threads s)
     \<and> links s1 = (if w then lk_move t (Ready (t_priority (threads s t))) (links s) else links s)
     \<and> mem s1 = (if w then (mem s)(t_ret_sig (threads s t) := word_of_int sig, t_syscall_args (threads s t) ! 0 := 0) else mem s)"
proof (cases w)
  case True
  define u where "u = upd_thread t (t_wait_for_signal_update (\<lambda>_. False)) s"
  have "sched_wf u" using assms(1) by (simp add: sched_wf_def u_def upd_thread_def)
  moreover have u: "links u = links s" "running u = running s" "mem u = mem s"
    "threads u = (threads s)(t := (threads s t)\<lparr>t_wait_for_signal := False\<rparr>)" by (simp_all add: u_def upd_thread_def)
  ultimately have fw: "finish_wait t u = Some (preempt_enable (make_ready t (preempt_disable u)))"
    and wf: "sched_wf (make_ready t (preempt_disable u))"
    using finish_wait_eq [of u t] make_ready_wf [of "preempt_disable u" t] assms(2,3) by simp_all
  have "threads (make_ready t (preempt_disable u)) = (threads s)(t := (threads s t)\<lparr>t_wait_for_signal := False, t_status := THREAD_READY\<rparr>)"
    by (auto simp: u)
  moreover have "mem (make_ready t (preempt_disable u)) = mem s" by (simp add: u)
  ultimately show ?thesis using True fw wf u
    by (simp add: sigwait_wakeup_def w_def waits_for_def u_def [symmetric] Let_def)
next
  case False
  then show ?thesis using assms(1) by (auto simp: sigwait_wakeup_def w_def waits_for_def)
qed

text \<open>The signals whose only effect is to run a handler and to resume a thread.\<close>

definition caught_signals :: "int set" where
  "caught_signals = {SIGUSR1, SIGUSR2, SIGPOLL, SIGCONT}"

definition resumes :: "int \<Rightarrow> thread \<Rightarrow> bool" where
  "resumes sig th \<longleftrightarrow> waits_for sig th \<or> (sig = SIGCONT \<and> t_status th = THREAD_SUSPENDED)"

lemma signal_action_caught:
  assumes "sched_wf s" and "lk_linked t (links s)" and "sig \<in> caught_signals"
  shows "signal_action t sig s = Some
     (if sig = SIGCONT \<and> t_status (threads s t) = THREAD_SUSPENDED then make_ready t s else s, True)"
  using assms node_move_ready' [of s t] by (auto simp: signal_action_def caught_signals_def thread_resume_def config)

text \<open>What the delivery of such a signal changes: one control block, the list of the thread when it
  resumes, and the two result words of a \<^verbatim>\<open>sigwait\<close>.\<close>

definition delivered :: "nat \<Rightarrow> int \<Rightarrow> 'a kstate_scheme \<Rightarrow> 'a kstate_scheme \<Rightarrow> bool" where
  "delivered t sig s s' \<longleftrightarrow> (let th = threads s t; th' = threads s' t in
     sched_wf s' \<and> running s' = running s \<and> (\<forall>u. u \<noteq> t \<longrightarrow> threads s' u = threads s u)
     \<and> links s' = (if resumes sig th then lk_move t (Ready (t_priority th)) (links s) else links s)
     \<and> mem s' = (if waits_for sig th then (mem s)(t_ret_sig th := word_of_int sig, t_syscall_args th ! 0 := 0) else mem s)
     \<and> t_wait_for_signal th' = (t_wait_for_signal th \<and> \<not> waits_for sig th)
     \<and> t_status th' = (if resumes sig th then THREAD_READY else t_status th)
     \<and> (\<exists>e. sig_thread_ok th' e) \<and> t_stack_top th' = t_stack_top th \<and> t_stack_top_preserved th' = t_stack_top_preserved th
     \<and> pending_signals th' = pending_signals th
         @ (case handler_of sig th of None \<Rightarrow> [] | Some h \<Rightarrow> [(h, [word_of_int sig, 0, 0, 0])]))"

lemma delivered_preempt [simp]:
  "delivered t sig (preempt_disable s) s' = delivered t sig s s'" "delivered t sig s (preempt_enable s') = delivered t sig s s'"
  by (simp_all add: delivered_def)

lemma handle_signal_caught:
  fixes sig :: int
  assumes wf: "sched_wf s" and lk: "lk_linked t (links s)" and t: "t \<noteq> running s" and sig: "sig \<in> caught_signals"
    and q: "sig_thread_ok (threads s t) e" "e < 4 \<or> handler_of sig (threads s t) = None"
  defines "th \<equiv> threads s t"
  defines "r \<equiv> resumes sig th" and "w \<equiv> waits_for sig th"
  shows "\<exists>s'. handle_signal t sig s = Some s' \<and> delivered t sig s s'"
proof -
  from sigwait_wakeup_spec [OF wf lk t, of sig, folded th_def, folded w_def] obtain s1 where
    s1: "sigwait_wakeup t sig s = Some s1" "sched_wf s1" "running s1 = running s"
      "threads s1 = (if w then (threads s)(t := th\<lparr>t_wait_for_signal := False, t_status := THREAD_READY\<rparr>) else threads s)"
      "links s1 = (if w then lk_move t (Ready (t_priority th)) (links s) else links s)"
      "mem s1 = (if w then (mem s)(t_ret_sig th := word_of_int sig, t_syscall_args th ! 0 := 0) else mem s)"
    by blast
  have lk1: "lk_linked t (links s1)" using lk s1(5) by auto
  define c where "c \<longleftrightarrow> sig = SIGCONT \<and> t_status (threads s1 t) = THREAD_SUSPENDED"
  define s2 where "s2 = (if c then make_ready t s1 else s1)"
  have s2: "signal_action t sig s1 = Some (s2, True)" "sched_wf s2" "running s2 = running s" "mem s2 = mem s1"
    using signal_action_caught [OF s1(2) lk1 sig] make_ready_wf [of s1 t] s1(2,3) lk1 t by (auto simp: s2_def c_def)
  have rc: "r \<longleftrightarrow> w \<or> c" "c \<Longrightarrow> \<not> w" using s1(4) by (auto simp: r_def resumes_def w_def c_def th_def)
  have th2: "threads s2 t = th\<lparr>t_wait_for_signal := t_wait_for_signal th \<and> \<not> w, t_status := if r then THREAD_READY else t_status th\<rparr>"
    using s1(4) rc by (auto simp: s2_def th_def)
  have l2: "links s2 = (if r then lk_move t (Ready (t_priority th)) (links s) else links s)"
    using s1(4,5) rc by (auto simp: s2_def th_def)
  have o2: "u \<noteq> t \<Longrightarrow> threads s2 u = threads s u" for u using s1(4) by (auto simp: s2_def)
  have "sig_thread_ok (threads s2 t) e" using q(1) by (simp add: th2 th_def sig_thread_ok_def)
  moreover have "e < 4 \<or> handler_of sig (threads s2 t) = None" using q(2) by (simp add: th2 th_def handler_of_def)
  ultimately obtain p cn e' where
    st: "stage_signal t sig s2 = Some (upd_thread t (\<lambda>th. th\<lparr>t_signal_queue := p, t_signal_cnt := cn\<rparr>) s2)"
      "sig_thread_ok ((threads s2 t)\<lparr>t_signal_queue := p, t_signal_cnt := cn\<rparr>) e'"
      "pending_signals ((threads s2 t)\<lparr>t_signal_queue := p, t_signal_cnt := cn\<rparr>) = pending_signals th
         @ (case handler_of sig th of None \<Rightarrow> [] | Some h \<Rightarrow> [(h, [word_of_int sig, 0, 0, 0])])"
    using stage_signal_spec [of s2 t e sig] by (auto simp: th2 pending_signals_def handler_of_def)
  define s' where "s' = upd_thread t (\<lambda>th. th\<lparr>t_signal_queue := p, t_signal_cnt := cn\<rparr>) s2"
  have s': "links s' = links s2" "running s' = running s2" "mem s' = mem s2"
    "threads s' = (threads s)(t := (threads s2 t)\<lparr>t_signal_queue := p, t_signal_cnt := cn\<rparr>)"
    using o2 by (auto simp: s'_def upd_thread_def fun_eq_iff)
  have "handle_signal t sig s = Some s'" using s1(1) s2(1) st(1) by (simp add: handle_signal_def s'_def)
  moreover have "delivered t sig s s'"
  proof -
    have T: "threads s' t = (threads s2 t)\<lparr>t_signal_queue := p, t_signal_cnt := cn\<rparr>" by (simp only: s'(4) fun_upd_same)
    have p: "sig_thread_ok (threads s' t) e'" "pending_signals (threads s' t) = pending_signals th
         @ (case handler_of sig th of None \<Rightarrow> [] | Some h \<Rightarrow> [(h, [word_of_int sig, 0, 0, 0])])"
      using st(2,3) by (simp_all only: T)
    have f: "t_wait_for_signal (threads s' t) = (t_wait_for_signal th \<and> \<not> w)" "t_stack_top (threads s' t) = t_stack_top th"
      "t_status (threads s' t) = (if r then THREAD_READY else t_status th)" "t_stack_top_preserved (threads s' t) = t_stack_top_preserved th"
      "\<forall>u. u \<noteq> t \<longrightarrow> threads s' u = threads s u" by (simp_all add: s'(4) th2)
    have wf': "sched_wf s'" using s2(2) by (simp add: sched_wf_def s'_def upd_thread_def)
    show ?thesis unfolding delivered_def Let_def th_def [symmetric] w_def [symmetric] r_def [symmetric]
      by (intro conjI exI [of _ e'] f(5)) (simp_all only: f(1-4) p wf' s'(1-3) s2(3,4) s1(6) l2 if_True simp_thms)
  qed
  ultimately show ?thesis by blast
qed

section \<open>Running a handler\<close>

text \<open>Reading back a word of a frame.\<close>

lemma mem_store_notin: "(\<forall>i < length ws. b \<noteq> a + 4 * word_of_nat i) \<Longrightarrow> mem_store m a ws b = m b"
proof (induction ws arbitrary: m a)
  case (Cons w ws)
  have "b \<noteq> a" using Cons.prems by force
  moreover have "b \<noteq> (a + 4) + 4 * word_of_nat i" if "i < length ws" for i
    using Cons.prems that by (auto dest!: spec [of _ "Suc i"] simp: algebra_simps)
  ultimately show ?case using Cons.IH by simp
qed simp

lemma mem_store_nth: "i < length ws \<Longrightarrow> length ws \<le> 32 \<Longrightarrow> mem_store m a ws (a + 4 * word_of_nat i) = ws ! i"
proof (induction ws arbitrary: m a i)
  case (Cons w ws)
  show ?case
  proof (cases i)
    case 0
    have "(0 :: u32) \<noteq> 4 + 4 * word_of_nat j" if "j < length ws" for j
    proof
      assume "(0 :: u32) = 4 + 4 * word_of_nat j"
      then have "word_of_nat (4 + 4 * j) = (0 :: u32)" by simp
      then have "2 ^ LENGTH(32) dvd 4 + 4 * j" by (simp only: word_of_nat_eq_0_iff)
      from dvd_imp_le [OF this] have "2 ^ LENGTH(32) \<le> 4 + 4 * j" by linarith
      then show False using that Cons.prems by simp
    qed
    then have "mem_store (m(a := w)) (a + 4) ws a = (m(a := w)) a" by (intro mem_store_notin) (simp add: algebra_simps)
    then show ?thesis using 0 by simp
  next
    case (Suc j)
    then have "a + 4 * word_of_nat i = (a + 4) + 4 * word_of_nat j" by (simp add: algebra_simps)
    moreover have "mem_store (m(a := w)) (a + 4) ws ((a + 4) + 4 * word_of_nat j) = ws ! j"
      using Cons.prems Suc by (intro Cons.IH) simp_all
    ultimately show ?thesis using Suc by (simp only: mem_store.simps nth_Cons_Suc)
  qed
qed simp

text \<open>The frame that makes a thread execute \<open>func\<close> with the arguments \<open>args\<close> and return to
  \<open>return_handler\<close>, as the exception return of the processor reads it.\<close>

definition frame_at :: "u32 \<Rightarrow> u32 \<Rightarrow> u32 \<Rightarrow> u32 list \<Rightarrow> (u32 \<Rightarrow> u32) \<Rightarrow> bool" where
  "frame_at sp func return_handler args m \<longleftrightarrow>
     m (sp + 40) = args ! 0 \<and> m (sp + 44) = args ! 1 \<and> m (sp + 48) = args ! 2 \<and> m (sp + 52) = args ! 3
     \<and> m (sp + 60) = return_handler \<and> m (sp + 64) = func AND 0xfffffffe \<and> m (sp + 68) = INITIAL_XPSR"

text \<open>Only the words of the frame change.\<close>

definition same_but_frame :: "u32 \<Rightarrow> (u32 \<Rightarrow> u32) \<Rightarrow> (u32 \<Rightarrow> u32) \<Rightarrow> bool" where
  "same_but_frame sp m m' \<longleftrightarrow> (\<forall>a. (\<forall>i < 18. a \<noteq> sp + 4 * word_of_nat i) \<longrightarrow> m' a = m a)"

lemma stack_init_frame:
  "\<exists>m'. stack_init m sp0 func rh (Some args) = Some (sp0 - 72, m') \<and> frame_at (sp0 - 72) func rh args m' \<and> same_but_frame (sp0 - 72) m m'"
proof -
  let ?m = "mem_store m (sp0 - 72) (stack_frame func rh args)"
  have "?m (sp0 - 72 + 4 * word_of_nat i) = stack_frame func rh args ! i" if "i < 18" for i
    using that by (intro mem_store_nth) (simp_all add: stack_frame_def)
  note n = this [of 10] this [of 11] this [of 12] this [of 13] this [of 15] this [of 16] this [of 17]
  have "stack_init m sp0 func rh (Some args) = Some (sp0 - 72, ?m)" by (simp add: stack_init_def Let_def)
  moreover have "frame_at (sp0 - 72) func rh args ?m" using n unfolding frame_at_def by (simp add: stack_frame_def)
  moreover have "same_but_frame (sp0 - 72) m ?m"
    unfolding same_but_frame_def by (intro allI impI mem_store_notin) (simp add: stack_frame_def)
  ultimately show ?thesis by blast
qed

text \<open>Taking the oldest pending signal of the running thread.\<close>

lemma check_pending_signals_stages:
  assumes ok: "sig_thread_ok (threads s (running s)) e" and p: "pending_signals (threads s (running s)) = (h, args) # ps"
    and np: "t_stack_top_preserved (threads s (running s)) = 0"
  defines "th \<equiv> threads s (running s)"
  shows "\<exists>s' th'. check_pending_signals s = Some s' \<and> threads s' = (threads s)(running s := th')
     \<and> sig_thread_ok th' e \<and> pending_signals th' = ps
     \<and> t_stack_top th' = t_stack_top th - 72 \<and> t_stack_top_preserved th' = t_stack_top th
     \<and> frame_at (t_stack_top th') h (handler_addr s Signal_Cleanup) args (mem s') \<and> same_but_frame (t_stack_top th') (mem s) (mem s')
     \<and> links s' = links s \<and> running s' = running s"
proof -
  let ?q = "t_signal_queue th"
  from p obtain r rs where r: "sig_pending ?q = r # rs" "info_decode r = (h, args)" "map info_decode rs = ps"
    by (auto simp: pending_signals_def th_def)
  have cnt: "t_signal_cnt th \<noteq> 0" using ok r(1) by (simp add: sig_thread_ok_def th_def)
  from ok r(1) signal_queue_pop [of ?q e] obtain q' where
    q': "kfifo_out ?q STAGED_HANDLER_INFO_SIZE = Some (q', Some r)" "sig_queue_at q' e" "sig_pending q' = rs"
    by (auto simp: sig_thread_ok_def th_def)
  from stack_init_frame [of "mem s" "t_stack_top th" h "handler_addr s Signal_Cleanup" args] obtain m' where
    m': "stack_init (mem s) (t_stack_top th) h (handler_addr s Signal_Cleanup) (Some args) = Some (t_stack_top th - 72, m')"
      "frame_at (t_stack_top th - 72) h (handler_addr s Signal_Cleanup) args m'" "same_but_frame (t_stack_top th - 72) (mem s) m'" by blast
  define th' where "th' = th\<lparr>t_signal_queue := q', t_stack_top_preserved := t_stack_top th, t_stack_top := t_stack_top th - 72,
                             t_signal_cnt := length (sig_pending q')\<rparr>"
  define s' where "s' = s\<lparr>threads := (threads s)(running s := th'), mem := m'\<rparr>"
  have "check_pending_signals s = Some s'"
    using cnt np q'(1) r(2) m'(1) pending_count [OF q'(2)]
    by (simp add: check_pending_signals_def stage_temporary_handler_def th_def [symmetric] Let_def s'_def th'_def upd_thread_def)
  then show ?thesis using q'(2,3) r(3) m'(2,3)
    by (intro exI [of _ s'] exI [of _ th']) (simp add: s'_def th'_def sig_thread_ok_def pending_signals_def)
qed

section \<open>Properties\<close>

lemma sys_pthread_kill_errors:
  "acquire_thread (sint tid) s = None \<Longrightarrow> sys_pthread_kill tid sig s = Some (preempt_enable (preempt_disable s), - ESRCH)"
  "acquire_thread (sint tid) s = Some t \<Longrightarrow> t_privilege (threads s t) = KERNEL_THREAD
     \<Longrightarrow> sys_pthread_kill tid sig s = Some (preempt_enable (preempt_disable s), - EPERM)"
  "acquire_thread (sint tid) s = Some t \<Longrightarrow> t_privilege (threads s t) = USER_THREAD \<Longrightarrow> \<not> is_signal_defined sig
     \<Longrightarrow> sys_pthread_kill tid sig s = Some (preempt_enable (preempt_disable s), - EINVAL)"
  "acquire_thread (sint tid) s = Some t \<Longrightarrow> t_privilege (threads s t) = USER_THREAD \<Longrightarrow> is_signal_defined sig
     \<Longrightarrow> sys_pthread_kill tid sig s = map_option (\<lambda>s1. (preempt_enable s1, 0)) (handle_signal t sig (preempt_disable s))"
  by (simp_all add: sys_pthread_kill_def critr_def acquire_thread_def option.map_comp comp_def)

lemma handle_signal_overflow:
  assumes wf: "sched_wf s" and lk: "lk_linked t (links s)" and t: "t \<noteq> running s" and sig: "sig \<in> caught_signals"
    and q: "sig_thread_ok (threads s t) 4" "handler_of sig (threads s t) \<noteq> None"
  shows "handle_signal t sig s = None"
proof -
  from sigwait_wakeup_spec [OF wf lk t, of sig] obtain s1 where
    s1: "sigwait_wakeup t sig s = Some s1" "sched_wf s1" "lk_linked t (links s1)"
      "threads s1 t = (threads s t)\<lparr>t_wait_for_signal := t_wait_for_signal (threads s1 t), t_status := t_status (threads s1 t)\<rparr>"
    using lk by (auto split: if_splits)
  from signal_action_caught [OF s1(2,3) sig] obtain s2 where s2: "signal_action t sig s1 = Some (s2, True)"
    "threads s2 t = (threads s1 t)\<lparr>t_status := t_status (threads s2 t)\<rparr>" by (auto split: if_splits)
  have "t_signal_queue (threads s2 t) = t_signal_queue (threads s t)" "t_signal_cnt (threads s2 t) = t_signal_cnt (threads s t)"
    "t_sig_table (threads s2 t) = t_sig_table (threads s t)" by (subst s2(2), subst s1(4), simp)+
  then have "sig_thread_ok (threads s2 t) 4" "handler_of sig (threads s2 t) \<noteq> None"
    using q by (simp_all add: sig_thread_ok_def handler_of_def)
  then have "stage_signal t sig s2 = None"
    using enqueue_full [of s2 t] by (auto simp: stage_signal_def handler_of_def split: option.splits if_splits)
  then show ?thesis using s1(1) s2(1) by (simp add: handle_signal_def)
qed

text \<open>A stopped thread stays stopped; any other thread that is linked would be linked a second time.\<close>

lemma handle_signal_stop:
  assumes wf: "sched_wf s" and lk: "lk_linked t (links s)" and t: "t \<noteq> running s"
  shows "handle_signal t SIGSTOP s = (if t_status (threads s t) = THREAD_SUSPENDED \<and> \<not> waits_for SIGSTOP (threads s t) then Some s else None)"
proof -
  from sigwait_wakeup_spec [OF wf lk t, of SIGSTOP] obtain s1 where
    s1: "sigwait_wakeup t SIGSTOP s = Some s1" "lk_linked t (links s1)"
      "t_status (threads s1 t) = (if waits_for SIGSTOP (threads s t) then THREAD_READY else t_status (threads s t))"
    using lk by auto
  have "s1 = s" if "\<not> waits_for SIGSTOP (threads s t)" using s1(1) that by (auto simp: sigwait_wakeup_def waits_for_def)
  moreover have "signal_action t SIGSTOP s1 = map_option (\<lambda>s1. (s1, False)) (thread_suspend t s1)"
    by (simp add: signal_action_def config)
  moreover have "thread_suspend t s1 = (if t_status (threads s1 t) = THREAD_SUSPENDED then Some s1 else None)"
    using s1(2) by (simp add: thread_suspend_def prepare_to_wait_def crit_def node_add_def set_status_def upd_thread_def)
  ultimately show ?thesis using s1(1,3) by (auto simp: handle_signal_def)
qed

lemma handle_signal_kill:
  assumes "sched_wf s" and "lk_linked t (links s)" and "t \<noteq> running s"
  shows "\<exists>s1. sigwait_wakeup t SIGKILL s = Some s1 \<and> (waits_for SIGKILL (threads s t) \<or> s1 = s) \<and> handle_signal t SIGKILL s = thread_delete t s1"
proof -
  from sigwait_wakeup_spec [OF assms, of SIGKILL] obtain s1 where s1: "sigwait_wakeup t SIGKILL s = Some s1" by blast
  have "s1 = s" if "\<not> waits_for SIGKILL (threads s t)" using s1 that by (auto simp: sigwait_wakeup_def waits_for_def)
  moreover have "handle_signal t SIGKILL s = thread_delete t s1"
    using s1 by (cases "thread_delete t s1") (simp_all add: handle_signal_def signal_action_def config)
  ultimately show ?thesis using s1 by auto
qed

lemma signal_cases:
  assumes "is_signal_defined sig"
  obtains "sig \<in> caught_signals" | "sig = SIGSTOP" "sig \<notin> caught_signals" | "sig = SIGKILL" "sig \<notin> caught_signals" "sig \<noteq> SIGSTOP"
  using assms by (auto simp: is_signal_defined_def caught_signals_def config)

text \<open>The result of a signal to a thread \<open>t\<close> whose queue has taken \<open>e\<close> records.\<close>

definition kill_result :: "nat \<Rightarrow> int \<Rightarrow> nat \<Rightarrow> 'a kstate_scheme \<Rightarrow> ('a kstate_scheme \<times> int) option \<Rightarrow> bool" where
  "kill_result t sig e s r \<longleftrightarrow>
     (if sig \<in> caught_signals then
        if handler_of sig (threads s t) \<noteq> None \<and> e = 4 then r = None
        else \<exists>s'. r = Some (s', 0) \<and> delivered t sig s s'
      else if sig = SIGSTOP then
        r = (if t_status (threads s t) = THREAD_SUSPENDED \<and> \<not> waits_for sig (threads s t)
             then Some (preempt_enable (preempt_disable s), 0) else None)
      else \<exists>s1. sigwait_wakeup t sig (preempt_disable s) = Some s1 \<and> (waits_for sig (threads s t) \<or> s1 = preempt_disable s)
        \<and> r = map_option (\<lambda>s'. (preempt_enable s', 0)) (thread_delete t s1))"

text \<open>
  C22. \<^verbatim>\<open>pthread_kill\<close> for every target. An unknown thread, a kernel thread and an undefined signal give \<^verbatim>\<open>-ESRCH\<close>, \<^verbatim>\<open>-EPERM\<close> and
  \<^verbatim>\<open>-EINVAL\<close> and change nothing. For a thread \<open>t\<close> other than the caller that is on a scheduling list, and whose queue has taken
  \<open>e\<close> records since the thread was created:
  a signal that is caught (\<^verbatim>\<open>SIGUSR1\<close>, \<^verbatim>\<open>SIGUSR2\<close>, \<^verbatim>\<open>SIGPOLL\<close>, \<^verbatim>\<open>SIGCONT\<close>) makes a thread that waits for it, or that is stopped when it
  is \<^verbatim>\<open>SIGCONT\<close>, the last thread of the ready list of its priority, and no other thread moves; a thread in \<^verbatim>\<open>sigwait\<close> gets the number of
  the signal and the result 0; and when the thread has a handler for the signal, exactly one record with the handler and the number
  is appended to its pending signals. This holds for the first four signals with a handler: the fifth
  one is written past the end of the queue, which is undefined. \<^verbatim>\<open>SIGSTOP\<close> has no effect on a stopped thread, and for
  every other one links a node that is already linked, which is undefined. \<^verbatim>\<open>SIGKILL\<close> is \<^const>\<open>thread_delete\<close>, after the wake-up of
  a thread that waits for it.\<close>

theorem pthread_kill_delivers:
  assumes wf: "sched_wf s"
  shows "case acquire_thread (sint tid) s of
       None \<Rightarrow> sys_pthread_kill tid sig s = Some (preempt_enable (preempt_disable s), - ESRCH)
     | Some t \<Rightarrow>
         if t_privilege (threads s t) = KERNEL_THREAD then sys_pthread_kill tid sig s = Some (preempt_enable (preempt_disable s), - EPERM)
         else if \<not> is_signal_defined sig then sys_pthread_kill tid sig s = Some (preempt_enable (preempt_disable s), - EINVAL)
         else t \<noteq> running s \<and> lk_linked t (links s) \<and> sig_thread_ok (threads s t) e \<longrightarrow>
           kill_result t sig e s (sys_pthread_kill tid sig s)"
proof (cases "acquire_thread (sint tid) s")
  case None
  then show ?thesis by (simp add: sys_pthread_kill_errors(1))
next
  case (Some t)
  note er = sys_pthread_kill_errors(2-4) [OF Some]
  have p: "t_privilege (threads s t) = KERNEL_THREAD \<or> t_privilege (threads s t) = USER_THREAD"
    by (cases "t_privilege (threads s t)") simp_all
  let ?d = "preempt_disable s"
  have "kill_result t sig e s (sys_pthread_kill tid sig s)"
    if u: "t_privilege (threads s t) = USER_THREAD" and d: "is_signal_defined sig" and t: "t \<noteq> running s" "lk_linked t (links s)"
      and q: "sig_thread_ok (threads s t) e"
  proof -
    have st: "sched_wf ?d" "lk_linked t (links ?d)" "t \<noteq> running ?d" using wf t by simp_all
    have e4: "e \<le> 4" using q by (simp add: sig_thread_ok_def sig_queue_at_def)
    show ?thesis using d
    proof (cases rule: signal_cases)
      case 1
      show ?thesis
      proof (cases "handler_of sig (threads s t) \<noteq> None \<and> e = 4")
        case True
        then show ?thesis using 1 handle_signal_overflow [OF st 1] q er(3) [OF u d] by (auto simp: kill_result_def)
      next
        case False
        then have "e < 4 \<or> handler_of sig (threads s t) = None" using e4 by auto
        then show ?thesis using 1 False handle_signal_caught [OF st 1, of e] q er(3) [OF u d] by (auto simp: kill_result_def)
      qed
    next
      case 2
      then show ?thesis using handle_signal_stop [OF st] er(3) [OF u d] by (auto simp: kill_result_def)
    next
      case 3
      then show ?thesis using handle_signal_kill [OF st] er(3) [OF u d] by (auto simp: kill_result_def)
    qed
  qed
  with p er(1,2) show ?thesis unfolding Some option.case by auto
qed

text \<open>
  C23. A caught signal runs its handler once and leaves the interrupted stack as it was. After \<^verbatim>\<open>handle_signal\<close> for a thread with a handler and
  with nothing pending, whose queue has taken less than four records since the thread was created, the next time the thread is
  selected outside of a system call \<^verbatim>\<open>check_pending_signals\<close> moves its stack pointer down by the 72 bytes of a frame and puts a frame
  there that enters the handler with the number of the signal as its argument and with the cleanup handler as the return
  address; no word of memory outside the frame changes, so that what was on the stack is still there; and when the cleanup
  event arrives the stack pointer is the one the signal interrupted, no signal is pending, and the next signal can be staged. A
  fifth signal overflows the queue.\<close>

theorem signal_handler_roundtrip:
  assumes "sched_wf s" "lk_linked t (links s)" "t \<noteq> running s" "sig \<in> caught_signals" "sig_thread_ok (threads s t) e" "e < 4"
    and h: "handler_of sig (threads s t) = Some h" and p: "pending_signals (threads s t) = []"
    and np: "t_stack_top_preserved (threads s t) = 0"
    and s1: "handle_signal t sig s = Some s1"
    and u: "running u = t" "t_signal_queue (threads u t) = t_signal_queue (threads s1 t)" "t_signal_cnt (threads u t) = t_signal_cnt (threads s1 t)"
      "t_stack_top (threads u t) = t_stack_top (threads s1 t)" "t_stack_top_preserved (threads u t) = t_stack_top_preserved (threads s1 t)"
  shows "\<exists>v. check_pending_signals u = Some v \<and> running v = t \<and> t_stack_top (threads v t) = t_stack_top (threads s t) - 72
     \<and> frame_at (t_stack_top (threads v t)) h (handler_addr u Signal_Cleanup) [word_of_int sig, 0, 0, 0] (mem v)
     \<and> same_but_frame (t_stack_top (threads v t)) (mem u) (mem v)
     \<and> (let th = threads (signal_cleanup_event_handler v) t in
          t_stack_top th = t_stack_top (threads s t) \<and> t_stack_top_preserved th = 0 \<and> pending_signals th = [] \<and> t_signal_cnt th = 0)"
proof -
  from handle_signal_caught [OF assms(1-5)] assms(6) s1 have d: "delivered t sig s s1" by simp
  then obtain e' where d: "sig_thread_ok (threads s1 t) e'" "pending_signals (threads s1 t) = [(h, [word_of_int sig, 0, 0, 0])]"
    "t_stack_top (threads s1 t) = t_stack_top (threads s t)" "t_stack_top_preserved (threads s1 t) = 0"
    using h p np by (auto simp: delivered_def Let_def)
  have "sig_thread_ok (threads u (running u)) e'" "pending_signals (threads u (running u)) = (h, [word_of_int sig, 0, 0, 0]) # []"
    "t_stack_top_preserved (threads u (running u)) = 0"
    using d u by (simp_all add: sig_thread_ok_def pending_signals_def)
  from check_pending_signals_stages [OF this] obtain v th where v: "check_pending_signals u = Some v"
    "threads v = (threads u)(t := th)" "sig_thread_ok th e'" "pending_signals th = []" "t_stack_top_preserved th = t_stack_top (threads u t)"
    "frame_at (t_stack_top th) h (handler_addr u Signal_Cleanup) [word_of_int sig, 0, 0, 0] (mem v)" "running v = t"
    "t_stack_top th = t_stack_top (threads u t) - 72" "same_but_frame (t_stack_top th) (mem u) (mem v)"
    unfolding u(1) by blast
  then show ?thesis using u d
    by (intro exI [of _ v]) (simp add: signal_cleanup_event_handler_def upd_thread_def Let_def pending_signals_def sig_thread_ok_def)
qed

text \<open>
  C24. The signal set operations against sets of signals: \<^verbatim>\<open>sigemptyset\<close>, \<^verbatim>\<open>sigfillset\<close>, \<^verbatim>\<open>sigaddset\<close> and \<^verbatim>\<open>sigismember\<close>
  (0 for a member) implement the empty set, all signals, insertion and membership, and an undefined signal is rejected
  with the set unchanged. \<^verbatim>\<open>sigdelset\<close> does not delete: it keeps the named signal and removes every other one.\<close>

theorem sigset_ops_refine:
  "sigset_abs (fst (sigemptyset st)) = {} \<and> sigset_abs (fst (sigfillset st)) = Collect is_signal_defined
   \<and> sigset_abs (fst (sigaddset st sig)) = sigset_abs st \<union> (if is_signal_defined sig then {sig} else {})
   \<and> sigset_abs (fst (sigdelset st sig)) = (if is_signal_defined sig then sigset_abs st \<inter> {sig} else sigset_abs st)
   \<and> snd (sigaddset st sig) = (if is_signal_defined sig then 0 else - EINVAL)
   \<and> snd (sigdelset st sig) = (if is_signal_defined sig then 0 else - EINVAL)
   \<and> sigismember st sig = (if sig \<in> sigset_abs st then 0 else - EINVAL)"
proof -
  have b: "bit (sig2bit sig) n \<longleftrightarrow> n = get_signal_index sig" if "is_signal_defined sig" for n
    using sig2bit_index [OF that] by (auto simp: bit_simps)
  have f: "bit (0xffffffff :: u32) (get_signal_index a)" if "is_signal_defined a" for a
    using that by (auto simp: is_signal_defined_def get_signal_index_def config)
  have m: "sigismember st sig = (if sig \<in> sigset_abs st then 0 else - EINVAL)"
    by (auto simp: sigismember_def sigset_abs_def sig2bit_undefined)
  show ?thesis
    using get_signal_index_inj [of _ sig] b f unfolding m
    by (auto simp: sigset_abs_bit sigemptyset_def sigfillset_def sigaddset_def sigdelset_def bit_simps)
qed

section \<open>Witnesses\<close>

text \<open>Thread 1 is in \<^verbatim>\<open>sigwait\<close> for \<^verbatim>\<open>SIGUSR1\<close>, for which it has a handler; thread 0 runs.\<close>

definition demo_sig_thread :: thread where
  "demo_sig_thread = (demo_thread 1 3 THREAD_WAIT)\<lparr>t_wait_for_signal := True, t_sig_wait_set := 1, t_ret_sig := 0x2000,
     t_syscall_args := [0x3000, 0x3004, 0x3008, 0x300c], t_signal_queue := fst (thread_signal_queue_alloc 0x20001000),
     t_sig_table := (\<lambda>_. None)(0 := Some \<lparr>sa_handler = 0x8101, sa_mask = 0, sa_flags = 0\<rparr>)\<rparr>"

definition demo_sig_state :: kstate where
  "demo_sig_state = demo_kstate ((\<lambda>t. demo_thread t 3 THREAD_WAIT)(0 := demo_thread 0 3 THREAD_RUNNING, 1 := demo_sig_thread))
     0 [(Suspend, 1)]"

lemma demo_sig_state_sel:
  "threads demo_sig_state = (\<lambda>t. demo_thread t 3 THREAD_WAIT)(0 := demo_thread 0 3 THREAD_RUNNING, 1 := demo_sig_thread)"
  "running demo_sig_state = 0" "links demo_sig_state = [(Suspend, 1)]" "threads_list demo_sig_state = [0, 1, 2, 3]"
  by (simp_all add: demo_sig_state_def demo_kstate_def)

lemma demo_sig_thread_sel:
  "t_tid demo_sig_thread = 1" "t_privilege demo_sig_thread = USER_THREAD" "t_status demo_sig_thread = THREAD_WAIT"
  "t_priority demo_sig_thread = 3" "t_stack_top_preserved demo_sig_thread = 0" "handler_of SIGUSR1 demo_sig_thread = Some 0x8101"
  "waits_for SIGUSR1 demo_sig_thread" "sig_thread_ok demo_sig_thread 0" "pending_signals demo_sig_thread = []"
  using signal_queue_init [of "0x20001000"]
  by (simp_all add: demo_sig_thread_def demo_thread_def handler_of_def waits_for_def sig_thread_ok_def pending_signals_def
      get_signal_index_def sig2bit_def)

lemma demo_sig_state_wf: "sched_wf demo_sig_state"
  by (auto simp: sched_wf_def demo_sig_state_sel demo_sig_thread_sel demo_thread_def lk_wf_def lk_linked_def lst_def config)

lemma demo_sig_state_ok: "lk_linked 1 (links demo_sig_state)" "1 \<noteq> running demo_sig_state" "SIGUSR1 \<in> caught_signals"
  "sig_thread_ok (threads demo_sig_state 1) 0"
  by (simp_all add: demo_sig_state_sel demo_sig_thread_sel lk_linked_def caught_signals_def)

theorem pthread_kill_delivers_witness:
  "\<exists>s'. sys_pthread_kill 1 SIGUSR1 demo_sig_state = Some (s', 0) \<and> lst (links s') (Ready 3) = [1]"
proof -
  have "acquire_thread (sint (1 :: u32)) demo_sig_state = Some 1"
    by (simp add: acquire_thread_def demo_sig_state_sel demo_sig_thread_sel demo_thread_def)
  moreover have "is_signal_defined SIGUSR1" by (simp add: is_signal_defined_def)
  ultimately have "kill_result 1 SIGUSR1 0 demo_sig_state (sys_pthread_kill 1 SIGUSR1 demo_sig_state)"
    using pthread_kill_delivers [OF demo_sig_state_wf, of 1 SIGUSR1 0] demo_sig_state_ok
    by (simp add: demo_sig_state_sel(1) demo_sig_thread_sel(2))
  then have "\<exists>s'. sys_pthread_kill 1 SIGUSR1 demo_sig_state = Some (s', 0) \<and> delivered 1 SIGUSR1 demo_sig_state s'"
    using demo_sig_state_ok(3) by (simp add: kill_result_def)
  then obtain s' where s': "sys_pthread_kill 1 SIGUSR1 demo_sig_state = Some (s', 0)" "delivered 1 SIGUSR1 demo_sig_state s'" by blast
  moreover have "resumes SIGUSR1 demo_sig_thread" by (simp add: resumes_def demo_sig_thread_sel)
  with s'(2) have "links s' = lk_move 1 (Ready 3) (links demo_sig_state)"
    by (simp add: delivered_def Let_def demo_sig_state_sel(1) demo_sig_thread_sel)
  ultimately show ?thesis by (auto simp: demo_sig_state_sel lst_def lk_move_def lk_add_def lk_del_def)
qed

theorem signal_handler_roundtrip_witness:
  "\<exists>s1 v. handle_signal 1 SIGUSR1 demo_sig_state = Some s1 \<and> check_pending_signals (s1\<lparr>running := 1\<rparr>) = Some v
     \<and> mem v (t_stack_top (threads v 1) + 64) = 0x8100 \<and> mem v (t_stack_top (threads v 1) + 40) = 10"
proof -
  have 1: "(0 :: nat) < 4" "handler_of SIGUSR1 (threads demo_sig_state 1) = Some 0x8101" "pending_signals (threads demo_sig_state 1) = []"
    "t_stack_top_preserved (threads demo_sig_state 1) = 0" by (simp_all add: demo_sig_state_sel(1) demo_sig_thread_sel)
  obtain s1 where s1: "handle_signal 1 SIGUSR1 demo_sig_state = Some s1"
    using handle_signal_caught [OF demo_sig_state_wf demo_sig_state_ok] by auto
  from signal_handler_roundtrip [OF demo_sig_state_wf demo_sig_state_ok 1 s1, of "s1\<lparr>running := 1\<rparr>"] obtain v where
    "check_pending_signals (s1\<lparr>running := 1\<rparr>) = Some v" "frame_at (t_stack_top (threads v 1)) 0x8101
       (handler_addr (s1\<lparr>running := 1\<rparr>) Signal_Cleanup) [word_of_int SIGUSR1, 0, 0, 0] (mem v)" by auto
  with s1 show ?thesis by (auto simp: frame_at_def config)
qed

end
