(* ===== verification/Timer.thy ===== *)
theory Timer
  imports Mqueue Signal
begin

text \<open>
  Clocks and interval timers (\<^verbatim>\<open>sys_clock_*\<close>, \<^verbatim>\<open>sys_timer_*\<close>, \<^verbatim>\<open>timers_update\<close>, \<^verbatim>\<open>syscall_timeout_update\<close> and
  \<^verbatim>\<open>system_ticks_update\<close> of \<^verbatim>\<open>kernel/kernel.c\<close>). A timer is an object of \<^verbatim>\<open>kmalloc\<close>: the table \<open>timers\<close> maps the
  addresses of the timers to their contents, and an address without an entry is no timer. The
  members that \<^verbatim>\<open>sys_timer_create\<close> does not set have the contents that the allocated memory happens to have,
  the argument \<open>stale\<close>.
\<close>

section \<open>The code\<close>

definition CLOCK_MONOTONIC :: int where [config]: "CLOCK_MONOTONIC = 1"
definition SIGEV_NONE :: int where [config]: "SIGEV_NONE = 1"
definition SIGEV_SIGNAL :: int where [config]: "SIGEV_SIGNAL = 2"

text \<open>The size of \<^verbatim>\<open>struct timer\<close> on the target.\<close>

definition TIMER_SIZE :: u32 where [config]: "TIMER_SIZE = 144"

record sigevent =
  sigev_notify :: int
  sigev_signo :: int
  sigev_value :: u32
  sigev_notify_function :: u32
  sigev_notify_attributes :: u32
  sigev_notify_thread_id :: int

record timer =
  tm_id :: int
  tm_flags :: int
  tm_enabled :: bool
  tm_sev :: sigevent
  tm_setting :: itimerspec
  tm_ret_time :: itimerspec
  tm_counter :: timespec
  tm_thread :: nat

record tmstate = mqstate +
  timers :: "u32 \<Rightarrow> timer option"
  timers_list :: "u32 list"

definition set_timer :: "u32 \<Rightarrow> timer \<Rightarrow> 'a tmstate_scheme \<Rightarrow> 'a tmstate_scheme" where
  "set_timer p tm s = s\<lparr>timers := (timers s)(p := Some tm)\<rparr>"

definition sys_clock_gettime :: "int \<Rightarrow> timespec \<Rightarrow> 'a kstate_scheme \<Rightarrow> ('a kstate_scheme \<times> timespec \<times> int) option" where
  "sys_clock_gettime clockid tp = critr (\<lambda>s.
     if clockid \<noteq> CLOCK_MONOTONIC then Some (s, tp, - EINVAL) else Some (s, sys_time s, 0))"

definition sys_clock_settime :: "int \<Rightarrow> timespec \<Rightarrow> 'a kstate_scheme \<Rightarrow> ('a kstate_scheme \<times> int) option" where
  "sys_clock_settime clockid tp = critr (\<lambda>s.
     if clockid \<noteq> CLOCK_MONOTONIC then Some (s, - EINVAL) else Some (s\<lparr>sys_time := tp\<rparr>, 0))"

primrec acquire_timer_in :: "(u32 \<Rightarrow> timer option) \<Rightarrow> int \<Rightarrow> u32 list \<Rightarrow> u32 option option" where
  "acquire_timer_in tms timerid [] = Some None"
| "acquire_timer_in tms timerid (p # ps) = do {
     tm \<leftarrow> tms p;
     if timerid = tm_id tm then Some (Some p) else acquire_timer_in tms timerid ps
   }"

definition acquire_timer :: "int \<Rightarrow> 'a tmstate_scheme \<Rightarrow> u32 option option" where
  "acquire_timer timerid s = t_timers_list (threads s (running s)) \<bind> acquire_timer_in (timers s) timerid"

definition timer_link :: "u32 \<Rightarrow> timer \<Rightarrow> 'a tmstate_scheme \<Rightarrow> ('a tmstate_scheme \<times> int option \<times> int) option" where
  "timer_link p tm s = do {
     let t = running s;
     tl \<leftarrow> (if t_timer_cnt (threads s t) = 0 then Some [] else t_timers_list (threads s t));
     g' \<leftarrow> seq_add p (timers_list s);
     tl' \<leftarrow> seq_add p tl;
     Some (upd_thread t (\<lambda>th. th\<lparr>t_timers_list := Some tl', t_timer_cnt := (t_timer_cnt th + 1) mod 2 ^ 16\<rparr>)
             ((set_timer p tm s)\<lparr>timers_list := g'\<rparr>), Some (int (t_timer_cnt (threads s t))), 0)
   }"

definition sys_timer_create ::
  "timer \<Rightarrow> int \<Rightarrow> sigevent \<Rightarrow> 'a tmstate_scheme \<Rightarrow> ('a tmstate_scheme \<times> int option \<times> int) option" where
  "sys_timer_create stale clockid sevp = critr (\<lambda>s.
     if clockid \<noteq> CLOCK_MONOTONIC then Some (s, None, - EINVAL)
     else if sigev_notify sevp \<noteq> SIGEV_NONE \<and> sigev_notify sevp \<noteq> SIGEV_SIGNAL then Some (s, None, - EINVAL)
     else do {
       (s1, new_tm) \<leftarrow> kmalloc TIMER_SIZE s;
       case new_tm of
         None \<Rightarrow> Some (s1, None, - ENOMEM)
       | Some p \<Rightarrow> timer_link p (stale\<lparr>tm_id := int (t_timer_cnt (threads s1 (running s1))), tm_sev := sevp,
                                      tm_thread := running s1\<rparr>) s1
     })"

definition sys_timer_delete :: "int \<Rightarrow> 'a tmstate_scheme \<Rightarrow> ('a tmstate_scheme \<times> int) option" where
  "sys_timer_delete timerid = critr (\<lambda>s. do {
     r \<leftarrow> acquire_timer timerid s;
     case r of
       None \<Rightarrow> Some (s, - EINVAL)
     | Some p \<Rightarrow> do {
         tl \<leftarrow> t_timers_list (threads s (running s));
         g' \<leftarrow> seq_del p (timers_list s);
         tl' \<leftarrow> seq_del p tl;
         s1 \<leftarrow> kfree p (upd_thread (running s) (t_timers_list_update (\<lambda>_. Some tl')) (s\<lparr>timers_list := g'\<rparr>));
         Some (s1\<lparr>timers := (timers s1)(p := None)\<rparr>, 0)
       }
   })"

text \<open>The result holds what the call stores through \<open>old_value\<close>.\<close>

definition sys_timer_settime ::
  "int \<Rightarrow> int \<Rightarrow> itimerspec \<Rightarrow> itimerspec option \<Rightarrow> 'a tmstate_scheme \<Rightarrow> ('a tmstate_scheme \<times> itimerspec option \<times> int) option" where
  "sys_timer_settime timerid flags new_value old_value = critr (\<lambda>s.
     if tv_sec (it_value new_value) < 0 \<or> tv_nsec (it_value new_value) < 0 \<or> tv_nsec (it_value new_value) > 999999999
     then Some (s, old_value, - EINVAL)
     else if t_timer_cnt (threads s (running s)) = 0 then Some (s, old_value, - EINVAL)
     else do {
       r \<leftarrow> acquire_timer timerid s;
       case r of
         None \<Rightarrow> Some (s, old_value, - EINVAL)
       | Some p \<Rightarrow> do {
           tm \<leftarrow> timers s p;
           Some (set_timer p (tm\<lparr>tm_flags := flags, tm_setting := new_value, tm_ret_time := new_value,
                                tm_counter := it_value new_value, tm_enabled := True\<rparr>) s,
                 map_option (\<lambda>_. tm_setting tm) old_value, 0)
         }
     })"

definition sys_timer_gettime :: "int \<Rightarrow> itimerspec \<Rightarrow> 'a tmstate_scheme \<Rightarrow> ('a tmstate_scheme \<times> itimerspec \<times> int) option" where
  "sys_timer_gettime timerid curr_value = critr (\<lambda>s. do {
     r \<leftarrow> acquire_timer timerid s;
     case r of
       None \<Rightarrow> Some (s, curr_value, - EINVAL)
     | Some p \<Rightarrow> map_option (\<lambda>tm. (s, tm_ret_time tm, 0)) (timers s p)
   })"

section \<open>Ticks\<close>

text \<open>One timer at a tick: its new contents, and whether it stages its notification.\<close>

definition timer_tick :: "timer \<Rightarrow> timer \<times> bool" where
  "timer_tick tm =
     (if \<not> tm_enabled tm then (tm, False)
      else
        let c = timer_down_count (tm_counter tm);
            tm1 = tm\<lparr>tm_counter := c, tm_ret_time := (tm_ret_time tm)\<lparr>it_value := c\<rparr>\<rparr> in
        if tv_sec c \<noteq> 0 \<or> tv_nsec c \<noteq> 0 then (tm1, False)
        else
          let iv = it_interval (tm_setting tm1);
              tm2 = tm1\<lparr>tm_counter := iv\<rparr> in
          (if tv_sec iv = 0 \<and> tv_nsec iv = 0 then tm2\<lparr>tm_enabled := False\<rparr> else tm2,
           sigev_notify (tm_sev tm2) = SIGEV_SIGNAL))"

primrec timers_each :: "u32 list \<Rightarrow> 'a tmstate_scheme \<Rightarrow> 'a tmstate_scheme option" where
  "timers_each [] s = Some s"
| "timers_each (p # ps) s = do {
     tm \<leftarrow> timers s p;
     let (tm', fire) = timer_tick tm;
     s1 \<leftarrow> (if fire then enqueue_pending_signal (tm_thread tm') (sigev_notify_function (tm_sev tm')) [0, 0, 0, 0] (set_timer p tm' s)
            else Some (set_timer p tm' s));
     timers_each ps s1
   }"

definition timers_update :: "'a tmstate_scheme \<Rightarrow> 'a tmstate_scheme option" where
  "timers_update s = timers_each (timers_list s) s"

text \<open>The deadline \<open>d\<close> is up: the test compares the seconds and the nanoseconds separately.\<close>

definition timeout_due :: "timespec \<Rightarrow> timespec \<Rightarrow> bool" where
  "timeout_due tp d \<longleftrightarrow> tv_sec tp \<ge> tv_sec d \<and> tv_nsec tp \<ge> tv_nsec d"

primrec timeout_each :: "timespec \<Rightarrow> nat list \<Rightarrow> 'a kstate_scheme \<Rightarrow> 'a kstate_scheme option" where
  "timeout_each tp [] s = Some s"
| "timeout_each tp (t # ts) s =
     (if timeout_due tp (t_syscall_timeout (threads s t))
      then finish_wait t (upd_thread t (t_syscall_is_timeout_update (\<lambda>_. True)) s) \<bind> timeout_each tp ts
      else timeout_each tp ts s)"

definition syscall_timeout_update :: "'a kstate_scheme \<Rightarrow> 'a kstate_scheme option" where
  "syscall_timeout_update s = timeout_each (sys_time s) (timeout_list s) s"

definition system_ticks_update :: "'a tmstate_scheme \<Rightarrow> 'a tmstate_scheme option" where
  "system_ticks_update s = do {
     let s1 = (s\<lparr>irq_off := True\<rparr>)\<lparr>sys_time := system_timer_update (sys_time s)\<rparr>;
     s2 \<leftarrow> timers_update (threads_ticks_update s1);
     s3 \<leftarrow> syscall_timeout_update s2;
     Some ((set_need_resched s3)\<lparr>irq_off := False\<rparr>)
   }"

section \<open>When a timer fires\<close>

definition timer_run :: "nat \<Rightarrow> timer \<Rightarrow> timer" where
  "timer_run n = (\<lambda>tm. fst (timer_tick tm)) ^^ n"

text \<open>Whether the timer stages its notification at tick \<open>n\<close>, counted from one.\<close>

definition fires_at :: "nat \<Rightarrow> timer \<Rightarrow> bool" where
  "fires_at n tm \<longleftrightarrow> snd (timer_tick (timer_run (n - 1) tm))"

text \<open>The number of ticks that cover a time; a time of zero takes one tick.\<close>

definition ticks_of :: "timespec \<Rightarrow> nat" where
  "ticks_of t = max 1 (nat ((nanos t + NANOSECOND_TICKS - 1) div NANOSECOND_TICKS))"

definition armed :: "timer \<Rightarrow> bool" where
  "armed tm \<longleftrightarrow> tm_enabled tm \<and> time_norm (tm_counter tm) \<and> time_norm (it_interval (tm_setting tm))
     \<and> sigev_notify (tm_sev tm) = SIGEV_SIGNAL"

lemma timer_run_add: "timer_run (m + n) tm = timer_run m (timer_run n tm)"
  by (simp add: timer_run_def funpow_add)

lemma timer_run_Suc: "timer_run (Suc n) tm = fst (timer_tick (timer_run n tm))"
  by (simp add: timer_run_def)

lemma ticks_of_le: "time_norm t \<Longrightarrow> 0 < n \<Longrightarrow> ticks_of t \<le> n \<longleftrightarrow> nanos t \<le> int n * NANOSECOND_TICKS"
proof -
  assume "0 < n"
  have "(x + 249999) div 250000 \<le> int n \<longleftrightarrow> x \<le> int n * 250000" for x :: int
  proof -
    define q r where "q = (x + 249999) div 250000" and "r = (x + 249999) mod 250000"
    have d: "x + 249999 = q * 250000 + r" "0 \<le> r" "r < 250000" by (simp_all add: q_def r_def)
    show ?thesis unfolding q_def [symmetric]
    proof
      show "q \<le> int n \<Longrightarrow> x \<le> int n * 250000" using d by linarith
      show "x \<le> int n * 250000 \<Longrightarrow> q \<le> int n" using d by linarith
    qed
  qed
  note d = this [of "nanos t"]
  have "nanos t + 250000 - 1 = nanos t + 249999" by simp
  then have "ticks_of t \<le> n \<longleftrightarrow> nat ((nanos t + 249999) div 250000) \<le> n"
    using \<open>0 < n\<close> unfolding ticks_of_def NANOSECOND_TICKS_eq by (simp only: max.bounded_iff) (simp only: Suc_le_eq One_nat_def simp_thms)
  then show ?thesis unfolding NANOSECOND_TICKS_eq nat_le_iff d .
qed

lemma tick_zero:
  assumes "time_norm t" and "0 < n"
  shows "tv_sec ((timer_down_count ^^ n) t) = 0 \<and> tv_nsec ((timer_down_count ^^ n) t) = 0 \<longleftrightarrow> ticks_of t \<le> n"
proof -
  note it = timer_down_count_iter [OF assms(1), of n]
  then show ?thesis using nanos_zero [of "(timer_down_count ^^ n) t"] ticks_of_le [OF assms] by auto
qed

text \<open>Before its time is up an armed timer only counts down.\<close>

lemma timer_run_before:
  assumes "armed tm" and "n < ticks_of (tm_counter tm)"
  shows "armed (timer_run n tm) \<and> tm_counter (timer_run n tm) = (timer_down_count ^^ n) (tm_counter tm)
     \<and> tm_setting (timer_run n tm) = tm_setting tm \<and> tm_sev (timer_run n tm) = tm_sev tm \<and> tm_thread (timer_run n tm) = tm_thread tm"
  using assms(2)
proof (induction n)
  case 0
  then show ?case using assms(1) by (simp add: timer_run_def)
next
  case (Suc n)
  let ?r = "timer_run n tm" and ?c = "(timer_down_count ^^ Suc n) (tm_counter tm)"
  have r: "armed ?r" "tm_counter ?r = (timer_down_count ^^ n) (tm_counter tm)" "tm_setting ?r = tm_setting tm"
    "tm_sev ?r = tm_sev tm" "tm_thread ?r = tm_thread tm" using Suc by simp_all
  have "time_norm (tm_counter tm)" using assms(1) by (simp add: armed_def)
  then have "\<not> (tv_sec ?c = 0 \<and> tv_nsec ?c = 0)" "time_norm ?c"
    using tick_zero [of "tm_counter tm" "Suc n"] timer_down_count_iter [of "tm_counter tm" "Suc n"] Suc.prems by auto
  then show ?case using r by (auto simp: timer_run_Suc timer_tick_def Let_def armed_def)
qed

text \<open>At its time it fires, and is reloaded with its interval or disabled.\<close>

lemma timer_run_expires:
  assumes "armed tm"
  defines "k \<equiv> ticks_of (tm_counter tm)" and "iv \<equiv> it_interval (tm_setting tm)"
  shows "fires_at k tm" and "n < k \<Longrightarrow> 0 < n \<Longrightarrow> \<not> fires_at n tm"
    and "tm_counter (timer_run k tm) = iv \<and> tm_setting (timer_run k tm) = tm_setting tm \<and> tm_sev (timer_run k tm) = tm_sev tm
      \<and> tm_enabled (timer_run k tm) = (nanos iv \<noteq> 0)"
proof -
  have k: "0 < k" by (simp add: k_def ticks_of_def)
  have nc: "time_norm (tm_counter tm)" "time_norm iv" using assms(1) by (simp_all add: armed_def iv_def)
  have down: "timer_down_count ((timer_down_count ^^ (n - 1)) (tm_counter tm)) = (timer_down_count ^^ n) (tm_counter tm)" if "0 < n" for n
    using that by (cases n) simp_all
  note b = timer_run_before [OF assms(1), folded k_def, of "k - 1"]
  have z: "tv_sec (timer_down_count (tm_counter (timer_run (k - 1) tm))) = 0 \<and> tv_nsec (timer_down_count (tm_counter (timer_run (k - 1) tm))) = 0"
    using b k down tick_zero [OF nc(1) k] by (simp add: k_def)
  have a: "armed (timer_run (k - 1) tm)" "tm_setting (timer_run (k - 1) tm) = tm_setting tm" "tm_sev (timer_run (k - 1) tm) = tm_sev tm"
    using b k by simp_all
  show "fires_at k tm" using z a by (simp add: fires_at_def timer_tick_def Let_def armed_def)
  show "\<not> fires_at n tm" if "n < k" "0 < n"
    using timer_run_before [OF assms(1), folded k_def, of "n - 1"] tick_zero [OF nc(1) that(2)] that down
    by (auto simp: fires_at_def timer_tick_def Let_def k_def)
  have "timer_run k tm = fst (timer_tick (timer_run (k - 1) tm))" using k timer_run_Suc [of "k - 1" tm] by simp
  then show "tm_counter (timer_run k tm) = iv \<and> tm_setting (timer_run k tm) = tm_setting tm \<and> tm_sev (timer_run k tm) = tm_sev tm
      \<and> tm_enabled (timer_run k tm) = (nanos iv \<noteq> 0)"
    using z a nanos_zero [OF nc(2)] by (auto simp: timer_tick_def Let_def armed_def iv_def)
qed

lemma fires_after: "0 < n \<Longrightarrow> fires_at (k + n) tm = fires_at n (timer_run k tm)"
  using timer_run_add [of "n - 1" k tm] by (simp add: fires_at_def add.commute)

lemma disabled_never_fires: "\<not> tm_enabled tm \<Longrightarrow> \<not> fires_at n tm"
proof -
  assume "\<not> tm_enabled tm"
  then have "timer_run m tm = tm" for m by (induction m) (simp_all add: timer_run_def timer_tick_def)
  with \<open>\<not> tm_enabled tm\<close> show ?thesis by (simp add: fires_at_def timer_tick_def)
qed

lemma fires_at_iff:
  assumes "armed tm" and "0 < n"
  shows "fires_at n tm \<longleftrightarrow> n = ticks_of (tm_counter tm)
     \<or> (nanos (it_interval (tm_setting tm)) \<noteq> 0 \<and> ticks_of (tm_counter tm) < n
        \<and> ticks_of (it_interval (tm_setting tm)) dvd n - ticks_of (tm_counter tm))"
  using assms
proof (induction n arbitrary: tm rule: less_induct)
  case (less n)
  let ?k = "ticks_of (tm_counter tm)" and ?iv = "it_interval (tm_setting tm)"
  note e = timer_run_expires [OF less.prems(1)]
  consider "n < ?k" | "n = ?k" | "?k < n" by linarith
  then show ?case
  proof cases
    case 3
    define m where "m = n - ?k"
    have m: "0 < m" "n = ?k + m" "m < n" using 3 by (simp_all add: m_def ticks_of_def)
    let ?r = "timer_run ?k tm"
    show ?thesis
    proof (cases "nanos ?iv = 0")
      case True
      then show ?thesis using e(3) 3 m fires_after [OF m(1), of ?k tm] disabled_never_fires by auto
    next
      case False
      then have "armed ?r" using e(3) less.prems(1) by (simp add: armed_def)
      with less.IH [OF m(3) this m(1)] e(3) False have "fires_at m ?r \<longleftrightarrow> m = ticks_of ?iv \<or> (ticks_of ?iv < m \<and> ticks_of ?iv dvd m - ticks_of ?iv)"
        by simp
      also have "\<dots> \<longleftrightarrow> ticks_of ?iv dvd m" using m(1) by (auto simp: dvd_minus_self dest: dvd_imp_le)
      finally show ?thesis using fires_after [OF m(1), of ?k tm] m 3 False by simp
    qed
  qed (use e(1,2) less.prems in auto)
qed

section \<open>All timers at a tick\<close>

text \<open>The notifications for a thread at a tick, in the order of the list of timers.\<close>

definition notifications :: "nat \<Rightarrow> (u32 \<Rightarrow> timer option) \<Rightarrow> u32 list \<Rightarrow> (u32 \<times> u32 list) list" where
  "notifications t tms ps =
     map (\<lambda>p. (sigev_notify_function (tm_sev (the (tms p))), [0, 0, 0, 0]))
       (filter (\<lambda>p. snd (timer_tick (the (tms p))) \<and> tm_thread (the (tms p)) = t) ps)"

lemma notifications_cong: "(\<And>p. p \<in> set ps \<Longrightarrow> tms' p = tms p) \<Longrightarrow> notifications t tms' ps = notifications t tms ps"
  unfolding notifications_def by (intro arg_cong2 [where f = map] ext filter_cong map_cong) auto

lemma timer_tick_keeps: "tm_thread (fst (timer_tick tm)) = tm_thread tm" "tm_sev (fst (timer_tick tm)) = tm_sev tm"
  by (simp_all add: timer_tick_def Let_def)

text \<open>Threads and lists as the ticks leave them: only the signal queues differ.\<close>

definition notified :: "'a tmstate_scheme \<Rightarrow> 'a tmstate_scheme \<Rightarrow> u32 list \<Rightarrow> bool" where
  "notified s s' ps \<longleftrightarrow> links s' = links s \<and> running s' = running s \<and> timers_list s' = timers_list s
     \<and> (\<forall>t. t_status (threads s' t) = t_status (threads s t) \<and> t_priority (threads s' t) = t_priority (threads s t)
          \<and> t_sleep_ticks (threads s' t) = t_sleep_ticks (threads s t))
     \<and> (\<forall>p. timers s' p = (if p \<in> set ps then map_option (\<lambda>tm. fst (timer_tick tm)) (timers s p) else timers s p))
     \<and> (\<forall>t. pending_signals (threads s' t) = pending_signals (threads s t) @ notifications t (timers s) ps)"

lemma tick_one:
  assumes tm: "timers s p = Some tm" and q: "\<And>t. sig_thread_ok (threads s t) (e t)"
    and room: "\<And>t. e t + length (notifications t (timers s) [p]) \<le> 4"
  shows "\<exists>s1. (if snd (timer_tick tm) then enqueue_pending_signal (tm_thread tm) (sigev_notify_function (tm_sev tm)) [0, 0, 0, 0] (set_timer p (fst (timer_tick tm)) s)
        else Some (set_timer p (fst (timer_tick tm)) s)) = Some s1
     \<and> notified s s1 [p] \<and> (\<forall>t. sig_thread_ok (threads s1 t) (e t + length (notifications t (timers s) [p])))"
proof (cases "snd (timer_tick tm)")
  case True
  let ?t = "tm_thread tm" and ?u = "set_timer p (fst (timer_tick tm)) s"
  have u: "threads ?u = threads s" "links ?u = links s" "running ?u = running s" "timers_list ?u = timers_list s"
    "timers ?u = (timers s)(p := Some (fst (timer_tick tm)))" by (simp_all add: set_timer_def)
  have n: "notifications t (timers s) [p] = (if t = ?t then [(sigev_notify_function (tm_sev tm), [0, 0, 0, 0])] else [])" for t
    using True tm by (auto simp: notifications_def)
  from enqueue_spec [of ?u ?t "e ?t" "sigev_notify_function (tm_sev tm)" 0 0 0 0] q [of ?t] room [of ?t] obtain q' where
    q': "enqueue_pending_signal ?t (sigev_notify_function (tm_sev tm)) [0, 0, 0, 0] ?u
        = Some (upd_thread ?t (\<lambda>th. th\<lparr>t_signal_queue := q', t_signal_cnt := length (sig_pending q')\<rparr>) ?u)"
      "sig_queue_at q' (Suc (e ?t))"
      "sig_pending q' = sig_pending (t_signal_queue (threads s ?t)) @ [info_bytes (sigev_notify_function (tm_sev tm)) [0, 0, 0, 0]]"
    by (auto simp: u n)
  show ?thesis using True q' q tm
    by (auto simp: notified_def u n upd_thread_def pending_signals_def info_decode_bytes sig_thread_ok_def)
next
  case False
  have "notifications t (timers s) [p] = []" for t using False tm by (simp add: notifications_def)
  with False q tm show ?thesis by (auto simp: notified_def set_timer_def)
qed

lemma timers_each_spec:
  assumes "distinct ps" and "\<And>p. p \<in> set ps \<Longrightarrow> timers s p \<noteq> None" and "\<And>t. sig_thread_ok (threads s t) (e t)"
    and "\<And>t. e t + length (notifications t (timers s) ps) \<le> 4"
  shows "\<exists>s'. timers_each ps s = Some s' \<and> notified s s' ps"
  using assms
proof (induction ps arbitrary: s e)
  case Nil
  then show ?case by (simp add: notified_def notifications_def)
next
  case (Cons p ps)
  obtain tm where tm: "timers s p = Some tm" using Cons.prems(2) [of p] by auto
  let ?n = "\<lambda>t. notifications t (timers s) [p]"
  have app: "notifications t (timers s) (p # ps) = ?n t @ notifications t (timers s) ps" for t
    by (simp add: notifications_def)
  have "e t + length (?n t) \<le> 4" for t using Cons.prems(4) [of t] app [of t] by simp
  from tick_one [OF tm Cons.prems(3) this] obtain s1 where
    s1: "(if snd (timer_tick tm) then enqueue_pending_signal (tm_thread tm) (sigev_notify_function (tm_sev tm)) [0, 0, 0, 0]
            (set_timer p (fst (timer_tick tm)) s) else Some (set_timer p (fst (timer_tick tm)) s)) = Some s1"
      "notified s s1 [p]" "\<And>t. sig_thread_ok (threads s1 t) (e t + length (?n t))" by blast
  have same: "timers s1 q = timers s q" if "q \<in> set ps" for q
    using s1(2) that Cons.prems(1) by (auto simp: notified_def)
  then have nn: "notifications t (timers s1) ps = notifications t (timers s) ps" for t by (intro notifications_cong)
  have "\<exists>s'. timers_each ps s1 = Some s' \<and> notified s1 s' ps"
    using Cons.prems(1,2) Cons.prems(4) s1(3) by (intro Cons.IH [where e = "\<lambda>t. e t + length (?n t)"]) (auto simp: same nn app add.assoc)
  then obtain s' where s': "timers_each ps s1 = Some s'" "notified s1 s' ps" by blast
  have "timers_each (p # ps) s = Some s'"
    using s1(1) s'(1) tm by (simp add: case_prod_beta timer_tick_keeps split: if_splits)
  moreover have "notified s s' (p # ps)"
    using s1(2) s'(2) Cons.prems(1) nn app unfolding notified_def by (auto simp: same)
  ultimately show ?case by blast
qed

text \<open>When the records of a thread would be more than its queue can ever take, the tick writes past the end of the queue.\<close>

lemma timers_each_overflow:
  assumes "distinct ps" and "\<And>p. p \<in> set ps \<Longrightarrow> timers s p \<noteq> None" and "\<And>t. sig_thread_ok (threads s t) (e t)"
    and "4 < e t + length (notifications t (timers s) ps)"
  shows "timers_each ps s = None"
  using assms
proof (induction ps arbitrary: s e)
  case Nil
  have "e t \<le> 4" using Nil.prems(3) [of t] by (simp add: sig_thread_ok_def sig_queue_at_def)
  then show ?case using Nil.prems(4) by (simp add: notifications_def)
next
  case (Cons p ps)
  obtain tm where tm: "timers s p = Some tm" using Cons.prems(2) [of p] by auto
  have e4: "e x \<le> 4" for x using Cons.prems(3) [of x] by (simp add: sig_thread_ok_def sig_queue_at_def)
  let ?n = "\<lambda>t. notifications t (timers s) [p]"
  have app: "notifications t (timers s) (p # ps) = ?n t @ notifications t (timers s) ps" for t
    by (simp add: notifications_def)
  show ?case
  proof (cases "snd (timer_tick tm) \<and> e (tm_thread tm) = 4")
    case True
    then have "sig_thread_ok (threads (set_timer p (fst (timer_tick tm)) s) (tm_thread tm)) 4"
      using Cons.prems(3) [of "tm_thread tm"] by (simp add: set_timer_def)
    from enqueue_full [OF this] True tm show ?thesis by (simp add: case_prod_beta timer_tick_keeps)
  next
    case False
    have "e x + length (?n x) \<le> 4" for x
      using False tm e4 [of x] by (cases "snd (timer_tick tm) \<and> tm_thread tm = x") (auto simp: notifications_def)
    from tick_one [OF tm Cons.prems(3) this] obtain s1 where
      s1: "(if snd (timer_tick tm) then enqueue_pending_signal (tm_thread tm) (sigev_notify_function (tm_sev tm)) [0, 0, 0, 0]
              (set_timer p (fst (timer_tick tm)) s) else Some (set_timer p (fst (timer_tick tm)) s)) = Some s1"
        "notified s s1 [p]" "\<And>t. sig_thread_ok (threads s1 t) (e t + length (?n t))" by blast
    have same: "timers s1 q = timers s q" if "q \<in> set ps" for q
      using s1(2) that Cons.prems(1) by (auto simp: notified_def)
    then have nn: "notifications t (timers s1) ps = notifications t (timers s) ps" for t by (intro notifications_cong)
    have "timers_each ps s1 = None"
      using Cons.prems(1,2) Cons.prems(4) s1(3) by (intro Cons.IH [where e = "\<lambda>t. e t + length (?n t)"]) (auto simp: same nn app add.assoc)
    then show ?thesis using s1(1) tm by (simp add: case_prod_beta timer_tick_keeps split: if_splits)
  qed
qed

text \<open>What any tick that returns does to the timers.\<close>

lemma enqueue_timers: "enqueue_pending_signal t f args s = Some s' \<Longrightarrow> timers s' = timers s \<and> timers_list s' = timers_list s"
  for s :: "'a tmstate_scheme"
  by (auto simp: enqueue_pending_signal_def upd_thread_def bind_eq_Some_iff)

lemma timers_each_timers:
  "timers_each ps s = Some s' \<Longrightarrow> distinct ps \<Longrightarrow>
   timers s' p = (if p \<in> set ps then map_option (\<lambda>tm. fst (timer_tick tm)) (timers s p) else timers s p)"
proof (induction ps arbitrary: s)
  case (Cons q ps)
  obtain tm where tm: "timers s q = Some tm" using Cons.prems(1) by (cases "timers s q") simp_all
  let ?u = "set_timer q (fst (timer_tick tm)) s"
  obtain s1 where "s1 = ?u \<or> enqueue_pending_signal (tm_thread (fst (timer_tick tm))) (sigev_notify_function (tm_sev (fst (timer_tick tm)))) [0, 0, 0, 0] ?u = Some s1"
      and s1': "timers_each ps s1 = Some s'"
    using Cons.prems(1) by (auto simp: tm bind_eq_Some_iff case_prod_beta split: if_splits)
  then have s1: "timers s1 = (timers s)(q := Some (fst (timer_tick tm)))" "timers_each ps s1 = Some s'"
    using enqueue_timers [of _ _ _ ?u s1] by (auto simp: set_timer_def)
  from Cons.IH [OF s1(2)] Cons.prems(2) tm show ?case by (auto simp: s1(1))
qed simp

text \<open>\<open>n\<close> ticks of a timer that stays on the list of timers, with other activity in between that does not touch it.\<close>

inductive tick_run :: "u32 \<Rightarrow> 'a tmstate_scheme \<Rightarrow> nat \<Rightarrow> 'a tmstate_scheme \<Rightarrow> bool" for p s where
  tick_start: "tick_run p s 0 s"
| tick_other: "tick_run p s n u \<Longrightarrow> timers v p = timers u p \<Longrightarrow> tick_run p s n v"
| tick_tick: "tick_run p s n u \<Longrightarrow> distinct (timers_list u) \<Longrightarrow> p \<in> set (timers_list u) \<Longrightarrow> timers_update u = Some v \<Longrightarrow>
     tick_run p s (Suc n) v"

lemma tick_run_timer: "tick_run p s n u \<Longrightarrow> timers s p = Some tm \<Longrightarrow> timers u p = Some (timer_run n tm)"
proof (induction rule: tick_run.induct)
  case (tick_tick n u v)
  then show ?case using timers_each_timers [of "timers_list u" u v p] by (simp add: timers_update_def timer_run_Suc)
qed (simp_all add: timer_run_def)

section \<open>Properties\<close>

lemma preempt_timers [simp]:
  "timers (preempt_disable s) = timers s" "timers (preempt_enable s) = timers s"
  "timers_list (preempt_disable s) = timers_list s" "timers_list (preempt_enable s) = timers_list s"
  by (simp_all add: preempt_disable_def preempt_enable_def preempt_count_inc_def preempt_count_dec_def Let_def)

lemma acquire_timer_preempt [simp]: "acquire_timer i (preempt_disable s) = acquire_timer i s"
  by (simp add: acquire_timer_def)

lemma timer_run_keeps: "tm_thread (timer_run n tm) = tm_thread tm" "tm_sev (timer_run n tm) = tm_sev tm"
  by (induction n) (simp_all add: timer_run_def timer_tick_keeps)


text \<open>
  One tick of \<^verbatim>\<open>timers_update\<close> over all timers: it returns, every timer of the list advances by one step and no other
  timer changes, and every thread gets the notifications of its timers that expired, each once and in the order of the
  list, behind the signals it already has pending; no thread changes its state or its place on a list. The
  signal queues must have room.\<close>

theorem timers_update_correct:
  assumes "distinct (timers_list s)" and "\<forall>p \<in> set (timers_list s). timers s p \<noteq> None"
    and "\<forall>t. sig_thread_ok (threads s t) (e t) \<and> e t + length (notifications t (timers s) (timers_list s)) \<le> 4"
  shows "\<exists>s'. timers_update s = Some s' \<and> notified s s' (timers_list s)"
  unfolding timers_update_def using assms by (intro timers_each_spec [where e = e]) blast+

text \<open>A thread that has not created a timer has no list of timers: \<^verbatim>\<open>timer_gettime\<close> and \<^verbatim>\<open>timer_delete\<close> follow its null
  links, \<^verbatim>\<open>timer_settime\<close> checks the number of timers first.\<close>

lemma timer_calls_without_timer:
  assumes "t_timers_list (threads s (running s)) = None" and "t_timer_cnt (threads s (running s)) = 0"
  shows "sys_timer_gettime timerid cv s = None" and "sys_timer_delete timerid s = None"
    and "sys_timer_settime timerid flags nv ov s = Some (preempt_enable (preempt_disable s), ov, - EINVAL)"
  using assms by (simp_all add: sys_timer_gettime_def sys_timer_delete_def sys_timer_settime_def critr_def acquire_timer_def)

section \<open>Witnesses\<close>

text \<open>Thread 0 has a timer that notifies by a signal, at the address 512; it is in the given state.\<close>

definition demo_timer :: "bool \<Rightarrow> timespec \<Rightarrow> timer" where
  "demo_timer en c = \<lparr>tm_id = 0, tm_flags = 0, tm_enabled = en,
     tm_sev = \<lparr>sigev_notify = SIGEV_SIGNAL, sigev_signo = 0, sigev_value = 0, sigev_notify_function = 0x8000,
               sigev_notify_attributes = 0, sigev_notify_thread_id = 0\<rparr>,
     tm_setting = \<lparr>it_value = c, it_interval = \<lparr>tv_sec = 0, tv_nsec = 500000\<rparr>\<rparr>,
     tm_ret_time = \<lparr>it_value = c, it_interval = \<lparr>tv_sec = 0, tv_nsec = 500000\<rparr>\<rparr>, tm_counter = c, tm_thread = 0\<rparr>"

definition demo_tmstate :: "timer \<Rightarrow> tmstate" where
  "demo_tmstate tm =
     mqstate.extend ((demo_mqstate (\<lambda>_. None) [])\<lparr>threads := (\<lambda>t. (demo_thread t 3 THREAD_WAIT)
         \<lparr>t_signal_queue := fst (thread_signal_queue_alloc 0), t_timer_cnt := 1, t_timers_list := Some [512]\<rparr>)\<rparr>)
       \<lparr>timers = [512 \<mapsto> tm], timers_list = [512]\<rparr>"

lemma demo_tmstate_sel:
  "timers (demo_tmstate tm) = [512 \<mapsto> tm]" "timers_list (demo_tmstate tm) = [512]"
  "threads (demo_tmstate tm) t = (demo_thread t 3 THREAD_WAIT)
     \<lparr>t_signal_queue := fst (thread_signal_queue_alloc 0), t_timer_cnt := 1, t_timers_list := Some [512]\<rparr>"
  by (simp_all add: demo_tmstate_def mqstate.defs)


theorem timers_update_correct_witness:
  "\<exists>s'. timers_update (demo_tmstate (demo_timer True \<lparr>tv_sec = 0, tv_nsec = 250000\<rparr>)) = Some s'
     \<and> pending_signals (threads s' 0) = [(0x8000, [0, 0, 0, 0])]"
proof -
  let ?tm = "demo_timer True \<lparr>tv_sec = 0, tv_nsec = 250000\<rparr>"
  let ?s = "demo_tmstate ?tm"
  have f: "snd (timer_tick ?tm)" "tm_thread ?tm = 0" "sigev_notify_function (tm_sev ?tm) = 0x8000"
    by (simp_all add: timer_tick_def demo_timer_def timer_down_count_def Let_def NANOSECOND_TICKS_eq)
  have n: "notifications t (timers ?s) [512] = (if t = 0 then [(0x8000, [0, 0, 0, 0])] else [])" for t
    using f by (auto simp: notifications_def demo_tmstate_sel(1))
  have q: "sig_thread_ok (threads ?s t) 0" "pending_signals (threads ?s t) = []" for t
    using signal_queue_init [of 0] by (simp_all add: demo_tmstate_sel sig_thread_ok_def pending_signals_def demo_thread_def)
  have "\<exists>s'. timers_update ?s = Some s' \<and> notified ?s s' (timers_list ?s)"
    by (rule timers_update_correct [where e = "\<lambda>_. 0"]) (use n q in \<open>simp_all add: demo_tmstate_sel(1,2)\<close>)
  then show ?thesis using n q by (auto simp: notified_def demo_tmstate_sel(2))
qed

end
