(* ===== verification/Fdesc.thy ===== *)
theory Fdesc
  imports Timer
begin

text \<open>
  File descriptors and \<^verbatim>\<open>poll\<close> (\<^verbatim>\<open>kernel/kernel.c\<close>), and the requests to the file system daemon
  (\<^verbatim>\<open>request_*\<close> of \<^verbatim>\<open>kernel/fs/fs.c\<close>). A file is named by the entry of the file table it was
  registered in; the entries of the standard streams point to such a file. The operations of a file are
  the table that \<^verbatim>\<open>f_op\<close> points to: those of pipes and of the null device are the code's, those of the
  other devices are an argument. A call that blocks is split into the part up to the first jump to the kernel
  and the part after it, which runs every time the thread continues; the result \<^const>\<open>None\<close> of a
  part means that the thread waits.
\<close>

section \<open>Tables\<close>

definition OPEN_MAX :: nat where [config]: "OPEN_MAX = 100"
definition PATH_MAX :: nat where [config]: "PATH_MAX = 128"
definition FILE_RESERVED_NUM :: nat where [config]: "FILE_RESERVED_NUM = THREAD_MAX + 3"
definition FILESYSD :: nat where [config]: "FILESYSD = 1"
definition S_IFIFO :: u8 where [config]: "S_IFIFO = 0"

record fdtable =
  fdt_flags :: u32
  fdt_file :: "nat option"

record fdstate = tmstate +
  fdtable :: "nat \<Rightarrow> fdtable"
  std_files :: "nat \<Rightarrow> nat option"
  daemon_id_table :: "nat \<Rightarrow> nat"

record 's file_operations =
  fop_lseek :: "(nat \<Rightarrow> int \<Rightarrow> int \<Rightarrow> 's \<Rightarrow> ('s \<times> int) option) option"
  fop_read :: "(nat \<Rightarrow> u8 list \<Rightarrow> nat \<Rightarrow> 's \<Rightarrow> ('s \<times> u8 list \<times> int) option) option"
  fop_write :: "(nat \<Rightarrow> u8 list \<Rightarrow> nat \<Rightarrow> 's \<Rightarrow> ('s \<times> int) option) option"
  fop_ioctl :: "(nat \<Rightarrow> u32 \<Rightarrow> u32 \<Rightarrow> 's \<Rightarrow> ('s \<times> int) option) option"
  fop_open :: "(nat \<Rightarrow> 's \<Rightarrow> ('s \<times> int) option) option"

definition fifo_ops :: "'a pstate_scheme file_operations" where
  "fifo_ops = \<lparr>fop_lseek = None, fop_read = Some fifo_read, fop_write = Some fifo_write, fop_ioctl = None,
               fop_open = Some (\<lambda>_ s. Some (s, fifo_open))\<rparr>"

definition null_dev_read :: "nat \<Rightarrow> u8 list \<Rightarrow> nat \<Rightarrow> 's \<Rightarrow> ('s \<times> u8 list \<times> int) option" where
  "null_dev_read filp buf sz s = Some (s, buf, int sz)"

definition null_dev_write :: "nat \<Rightarrow> u8 list \<Rightarrow> nat \<Rightarrow> 's \<Rightarrow> ('s \<times> int) option" where
  "null_dev_write filp buf sz s = Some (s, int sz)"

definition null_dev_open :: "nat \<Rightarrow> 's \<Rightarrow> ('s \<times> int) option" where
  "null_dev_open filp s = Some (s, 0)"

definition null_dev_ops :: "'s file_operations" where
  "null_dev_ops = \<lparr>fop_lseek = None, fop_read = Some null_dev_read, fop_write = Some null_dev_write, fop_ioctl = None,
                   fop_open = Some null_dev_open\<rparr>"

definition file_ops :: "(fops \<Rightarrow> 'a pstate_scheme file_operations) \<Rightarrow> fops \<Rightarrow> 'a pstate_scheme file_operations option" where
  "file_ops drv op =
     (case op of No_ops \<Rightarrow> None | Fifo_ops \<Rightarrow> Some fifo_ops | Null_dev_ops \<Rightarrow> Some null_dev_ops | _ \<Rightarrow> Some (drv op))"

section \<open>Descriptors\<close>

text \<open>\<^verbatim>\<open>current_task_info()\<close> and both bitmaps; the second one is read only when the first has the bit.\<close>

definition fd_valid :: "nat \<Rightarrow> 'a kstate_scheme \<Rightarrow> bool option" where
  "fd_valid i s = do {
     b \<leftarrow> bitmap_get_bit (bitmap_fds s) i;
     if b then current_task s \<bind> (\<lambda>k. bitmap_get_bit (k_bitmap_fds (tasks s k)) i) else Some False
   }"

definition set_task_fds :: "nat \<Rightarrow> u32 list \<Rightarrow> 'a kstate_scheme \<Rightarrow> 'a kstate_scheme" where
  "set_task_fds k bm s = s\<lparr>tasks := (tasks s)(k := (tasks s k)\<lparr>k_bitmap_fds := bm\<rparr>)\<rparr>"

definition fd_mark :: "nat \<Rightarrow> 'a kstate_scheme \<Rightarrow> 'a kstate_scheme option" where
  "fd_mark i s = do {
     k \<leftarrow> current_task s;
     g \<leftarrow> bitmap_set_bit (bitmap_fds s) i;
     l \<leftarrow> bitmap_set_bit (k_bitmap_fds (tasks s k)) i;
     Some (set_task_fds k l (s\<lparr>bitmap_fds := g\<rparr>))
   }"

definition fd_unmark :: "nat \<Rightarrow> 'a kstate_scheme \<Rightarrow> 'a kstate_scheme option" where
  "fd_unmark i s = do {
     k \<leftarrow> current_task s;
     g \<leftarrow> bitmap_clear_bit (bitmap_fds s) i;
     l \<leftarrow> bitmap_clear_bit (k_bitmap_fds (tasks s k)) i;
     Some (set_task_fds k l (s\<lparr>bitmap_fds := g\<rparr>))
   }"

definition set_fdesc :: "nat \<Rightarrow> fdtable \<Rightarrow> 'a fdstate_scheme \<Rightarrow> 'a fdstate_scheme" where
  "set_fdesc i d s = s\<lparr>fdtable := (fdtable s)(i := d)\<rparr>"

definition sys_close :: "int \<Rightarrow> 'a fdstate_scheme \<Rightarrow> ('a fdstate_scheme \<times> int) option" where
  "sys_close fd = critr (\<lambda>s.
     if fd < int FILE_RESERVED_NUM then Some (s, - EBADF)
     else do {
       let i = nat fd - FILE_RESERVED_NUM;
       v \<leftarrow> fd_valid i s;
       if \<not> v then Some (s, - EBADF) else map_option (\<lambda>s1. (s1, 0)) (fd_unmark i s)
     })"

definition sys_dup :: "int \<Rightarrow> 'a fdstate_scheme \<Rightarrow> ('a fdstate_scheme \<times> int) option" where
  "sys_dup oldfd = critr (\<lambda>s.
     if oldfd < int FILE_RESERVED_NUM then Some (s, - EBADF)
     else do {
       let old = nat oldfd - FILE_RESERVED_NUM;
       v \<leftarrow> fd_valid old s;
       if \<not> v then Some (s, - EBADF)
       else do {
         i \<leftarrow> find_first_zero_bit (bitmap_fds s) OPEN_MAX;
         if i \<ge> OPEN_MAX then Some (s, - ENOMEM)
         else do {
           s1 \<leftarrow> fd_mark i s;
           Some (set_fdesc i (fdtable s1 old) s1, int (i + FILE_RESERVED_NUM))
         }
       }
     })"

definition sys_dup2 :: "int \<Rightarrow> int \<Rightarrow> 'a fdstate_scheme \<Rightarrow> ('a fdstate_scheme \<times> int) option" where
  "sys_dup2 oldfd newfd = critr (\<lambda>s.
     if oldfd < int FILE_RESERVED_NUM \<or> newfd < int FILE_RESERVED_NUM then Some (s, - EBADF)
     else do {
       let old = nat oldfd - FILE_RESERVED_NUM;
       let new = nat newfd - FILE_RESERVED_NUM;
       k \<leftarrow> current_task s;
       g1 \<leftarrow> bitmap_get_bit (bitmap_fds s) old;
       g2 \<leftarrow> (if g1 then bitmap_get_bit (bitmap_fds s) new else Some False);
       g3 \<leftarrow> (if g2 then bitmap_get_bit (k_bitmap_fds (tasks s k)) old else Some False);
       g4 \<leftarrow> (if g3 then bitmap_get_bit (k_bitmap_fds (tasks s k)) new else Some False);
       if \<not> g4 then Some (s, - EBADF) else Some (set_fdesc new (fdtable s old) s, newfd)
     })"

section \<open>Reading and writing\<close>

text \<open>The file that a descriptor stands for, or an error. Numbers below the reserved ones index the
  file table itself, without a check. With \<open>fl\<close> the flags of the descriptor become those of the file.\<close>

definition fd_lookup :: "bool \<Rightarrow> int \<Rightarrow> 'a fdstate_scheme \<Rightarrow> ('a fdstate_scheme \<times> (int + nat)) option" where
  "fd_lookup fl fd s =
     (if fd < int FILE_RESERVED_NUM then
        if fd < 0 then None
        else if fd < 3 then map_option (\<lambda>h. (s, Inr h)) (std_files s (nat fd))
        else Some (s, Inr (nat fd))
      else do {
        let i = nat fd - FILE_RESERVED_NUM;
        v \<leftarrow> fd_valid i s;
        if \<not> v then Some (s, Inl (- EBADF))
        else do {
          h \<leftarrow> fdt_file (fdtable s i);
          filp \<leftarrow> files s h;
          Some (if fl then set_file h (filp\<lparr>f_flags := fdt_flags (fdtable s i)\<rparr>) s else s, Inr h)
        }
      })"

definition read_round ::
  "(nat \<Rightarrow> u8 list \<Rightarrow> nat \<Rightarrow> 'a kstate_scheme \<Rightarrow> ('a kstate_scheme \<times> u8 list \<times> int) option) \<Rightarrow> nat \<Rightarrow> u8 list \<Rightarrow> nat
     \<Rightarrow> 'a kstate_scheme \<Rightarrow> ('a kstate_scheme \<times> u8 list \<times> int option) option" where
  "read_round op h buf count s = do {
     (s1, buf1, r) \<leftarrow> op h buf count s;
     if r \<noteq> - ERESTARTSYS then Some (s1, buf1, Some r) else Some (schedule_request s1, buf1, None)
   }"

definition io_round :: "('a kstate_scheme \<Rightarrow> ('a kstate_scheme \<times> int) option) \<Rightarrow> 'a kstate_scheme \<Rightarrow> ('a kstate_scheme \<times> int option) option" where
  "io_round op s = do {
     (s1, r) \<leftarrow> op s;
     if r \<noteq> - ERESTARTSYS then Some (s1, Some r) else Some (schedule_request s1, None)
   }"

definition sys_read_enter ::
  "(fops \<Rightarrow> 'a fdstate_scheme file_operations) \<Rightarrow> int \<Rightarrow> u8 list \<Rightarrow> nat \<Rightarrow> 'a fdstate_scheme
     \<Rightarrow> ('a fdstate_scheme \<times> u8 list \<times> int option) option" where
  "sys_read_enter drv fd buf count s0 = do {
     (s, r) \<leftarrow> fd_lookup True fd (preempt_disable s0);
     case r of
       Inl e \<Rightarrow> Some (preempt_enable s, buf, Some e)
     | Inr h \<Rightarrow> do {
         filp \<leftarrow> files s h;
         ops \<leftarrow> file_ops drv (f_op filp);
         case fop_read ops of
           None \<Rightarrow> Some (preempt_enable s, buf, Some (- ENXIO))
         | Some op \<Rightarrow> read_round op h buf count (preempt_enable s)
       }
   }"

definition sys_write_enter ::
  "(fops \<Rightarrow> 'a fdstate_scheme file_operations) \<Rightarrow> int \<Rightarrow> u8 list \<Rightarrow> nat \<Rightarrow> 'a fdstate_scheme
     \<Rightarrow> ('a fdstate_scheme \<times> int option) option" where
  "sys_write_enter drv fd buf count s0 = do {
     (s, r) \<leftarrow> fd_lookup True fd (preempt_disable s0);
     case r of
       Inl e \<Rightarrow> Some (preempt_enable s, Some e)
     | Inr h \<Rightarrow> do {
         filp \<leftarrow> files s h;
         ops \<leftarrow> file_ops drv (f_op filp);
         case fop_write ops of
           None \<Rightarrow> Some (preempt_enable s, Some (- ENXIO))
         | Some op \<Rightarrow> io_round (op h buf count) (preempt_enable s)
       }
   }"

definition sys_ioctl_enter ::
  "(fops \<Rightarrow> 'a fdstate_scheme file_operations) \<Rightarrow> int \<Rightarrow> u32 \<Rightarrow> u32 \<Rightarrow> 'a fdstate_scheme
     \<Rightarrow> ('a fdstate_scheme \<times> int option) option" where
  "sys_ioctl_enter drv fd request arg s0 = do {
     (s, r) \<leftarrow> fd_lookup False fd (preempt_disable s0);
     case r of
       Inl e \<Rightarrow> Some (preempt_enable s, Some e)
     | Inr h \<Rightarrow> do {
         filp \<leftarrow> files s h;
         ops \<leftarrow> file_ops drv (f_op filp);
         case fop_ioctl ops of
           None \<Rightarrow> Some (preempt_enable s, Some (- ENXIO))
         | Some op \<Rightarrow> io_round (op h request arg) (preempt_enable s)
       }
   }"

definition sys_lseek_enter ::
  "(fops \<Rightarrow> 'a fdstate_scheme file_operations) \<Rightarrow> int \<Rightarrow> int \<Rightarrow> int \<Rightarrow> 'a fdstate_scheme
     \<Rightarrow> ('a fdstate_scheme \<times> int option) option" where
  "sys_lseek_enter drv fd offset whence s0 = do {
     (s, r) \<leftarrow> fd_lookup False fd (preempt_disable s0);
     case r of
       Inl e \<Rightarrow> Some (preempt_enable s, Some e)
     | Inr h \<Rightarrow> do {
         filp \<leftarrow> files s h;
         ops \<leftarrow> file_ops drv (f_op filp);
         case fop_lseek ops of
           None \<Rightarrow> Some (preempt_enable s, Some (- ENXIO))
         | Some op \<Rightarrow> io_round (op h offset whence) (preempt_enable s)
       }
   }"

text \<open>The loop continues with the operation on the same file.\<close>

definition sys_read_resume ::
  "(fops \<Rightarrow> 'a fdstate_scheme file_operations) \<Rightarrow> nat \<Rightarrow> u8 list \<Rightarrow> nat \<Rightarrow> 'a fdstate_scheme
     \<Rightarrow> ('a fdstate_scheme \<times> u8 list \<times> int option) option" where
  "sys_read_resume drv h buf count s = do {
     filp \<leftarrow> files s h;
     ops \<leftarrow> file_ops drv (f_op filp);
     op \<leftarrow> fop_read ops;
     read_round op h buf count (jump_to_kernel_resume s)
   }"

definition sys_write_resume ::
  "(fops \<Rightarrow> 'a fdstate_scheme file_operations) \<Rightarrow> nat \<Rightarrow> u8 list \<Rightarrow> nat \<Rightarrow> 'a fdstate_scheme
     \<Rightarrow> ('a fdstate_scheme \<times> int option) option" where
  "sys_write_resume drv h buf count s = do {
     filp \<leftarrow> files s h;
     ops \<leftarrow> file_ops drv (f_op filp);
     op \<leftarrow> fop_write ops;
     io_round (op h buf count) (jump_to_kernel_resume s)
   }"

definition sys_ioctl_resume ::
  "(fops \<Rightarrow> 'a fdstate_scheme file_operations) \<Rightarrow> nat \<Rightarrow> u32 \<Rightarrow> u32 \<Rightarrow> 'a fdstate_scheme
     \<Rightarrow> ('a fdstate_scheme \<times> int option) option" where
  "sys_ioctl_resume drv h request arg s = do {
     filp \<leftarrow> files s h;
     ops \<leftarrow> file_ops drv (f_op filp);
     op \<leftarrow> fop_ioctl ops;
     io_round (op h request arg) (jump_to_kernel_resume s)
   }"

definition sys_lseek_resume ::
  "(fops \<Rightarrow> 'a fdstate_scheme file_operations) \<Rightarrow> nat \<Rightarrow> int \<Rightarrow> int \<Rightarrow> 'a fdstate_scheme
     \<Rightarrow> ('a fdstate_scheme \<times> int option) option" where
  "sys_lseek_resume drv h offset whence s = do {
     filp \<leftarrow> files s h;
     ops \<leftarrow> file_ops drv (f_op filp);
     op \<leftarrow> fop_lseek ops;
     io_round (op h offset whence) (jump_to_kernel_resume s)
   }"

section \<open>Requests to the file system daemon\<close>

definition FS_CREATE_FILE :: u32 where [config]: "FS_CREATE_FILE = 1"
definition FS_OPEN_FILE :: u32 where [config]: "FS_OPEN_FILE = 2"
definition FS_OPEN_DIR :: u32 where [config]: "FS_OPEN_DIR = 3"
definition FS_MOUNT :: u32 where [config]: "FS_MOUNT = 4"
definition FS_GET_CWD :: u32 where [config]: "FS_GET_CWD = 5"
definition FS_CHANGE_DIR :: u32 where [config]: "FS_CHANGE_DIR = 6"

definition get_daemon_id :: "nat \<Rightarrow> 'a fdstate_scheme \<Rightarrow> nat" where
  "get_daemon_id daemon s = daemon_id_table s daemon"

text \<open>\<^verbatim>\<open>set_daemon_id\<close>; \<open>same_name\<close> is the result of the comparison of the names, the other result halts.\<close>

definition set_daemon_id :: "bool \<Rightarrow> nat \<Rightarrow> 'a fdstate_scheme \<Rightarrow> 'a fdstate_scheme option" where
  "set_daemon_id same_name daemon = crit (\<lambda>s.
     if \<not> same_name then None
     else Some (s\<lparr>daemon_id_table := (daemon_id_table s)(daemon := t_tid (threads s (running s)))\<rparr>))"

text \<open>A message to the daemon: what all requests do with the buffer they have filled. The result of the
  write is not looked at.\<close>

definition fs_request :: "u8 list \<Rightarrow> 'a fdstate_scheme \<Rightarrow> 'a fdstate_scheme option" where
  "fs_request buf = crit (\<lambda>s.
     map_option fst (fifo_write (THREAD_PIPE_FD (get_daemon_id FILESYSD s)) buf (length buf) s))"

definition fs_header :: "u32 \<Rightarrow> nat \<Rightarrow> u8 list" where
  "fs_header cmd thread_id = word_bytes cmd @ word_bytes (word_of_nat (THREAD_PIPE_FD thread_id))"

definition request_create_file :: "nat \<Rightarrow> u32 \<Rightarrow> u8 \<Rightarrow> 'a fdstate_scheme \<Rightarrow> 'a fdstate_scheme option" where
  "request_create_file thread_id path file_type =
     fs_request (fs_header FS_CREATE_FILE thread_id @ word_bytes path @ [file_type])"

definition request_open_file :: "nat \<Rightarrow> u32 \<Rightarrow> 'a fdstate_scheme \<Rightarrow> 'a fdstate_scheme option" where
  "request_open_file thread_id path = fs_request (fs_header FS_OPEN_FILE thread_id @ word_bytes path)"

definition request_open_directory :: "nat \<Rightarrow> u32 \<Rightarrow> 'a fdstate_scheme \<Rightarrow> 'a fdstate_scheme option" where
  "request_open_directory thread_id path = fs_request (fs_header FS_OPEN_DIR thread_id @ word_bytes path)"

definition request_mount :: "nat \<Rightarrow> u32 \<Rightarrow> u32 \<Rightarrow> 'a fdstate_scheme \<Rightarrow> 'a fdstate_scheme option" where
  "request_mount thread_id source target =
     fs_request (fs_header FS_MOUNT thread_id @ word_bytes source @ word_bytes target)"

definition request_getcwd :: "nat \<Rightarrow> u32 \<Rightarrow> u32 \<Rightarrow> 'a fdstate_scheme \<Rightarrow> 'a fdstate_scheme option" where
  "request_getcwd thread_id path len =
     fs_request (fs_header FS_GET_CWD thread_id @ word_bytes path @ word_bytes len)"

definition request_chdir :: "nat \<Rightarrow> u32 \<Rightarrow> 'a fdstate_scheme \<Rightarrow> 'a fdstate_scheme option" where
  "request_chdir thread_id path = fs_request (fs_header FS_CHANGE_DIR thread_id @ word_bytes path)"

text \<open>One turn of the loop that reads the reply of the daemon from the pipe of the caller into the four
  bytes of a local variable.\<close>

definition fs_reply :: "u8 list \<Rightarrow> 'a fdstate_scheme \<Rightarrow> ('a fdstate_scheme \<times> u8 list \<times> bool) option" where
  "fs_reply var s = do {
     (s1, var1, r) \<leftarrow> fifo_read (THREAD_PIPE_FD (t_tid (threads s (running s)))) var 4 s;
     if r \<noteq> - ERESTARTSYS then Some (s1, var1, True) else Some (schedule_request s1, var1, False)
   }"

definition open_finish ::
  "(fops \<Rightarrow> 'a fdstate_scheme file_operations) \<Rightarrow> u32 \<Rightarrow> int \<Rightarrow> 'a fdstate_scheme \<Rightarrow> ('a fdstate_scheme \<times> int) option" where
  "open_finish drv flags file_idx s =
     (if file_idx = -1 then Some (preempt_enable s, - ENOENT)
      else do {
        i \<leftarrow> find_first_zero_bit (bitmap_fds s) OPEN_MAX;
        if i \<ge> OPEN_MAX then Some (preempt_enable s, - ENOMEM)
        else do {
          s1 \<leftarrow> fd_mark i s;
          filp \<leftarrow> (if file_idx < 0 then None else files s1 (nat file_idx));
          let s2 = set_fdesc i \<lparr>fdt_flags = flags, fdt_file = Some (nat file_idx)\<rparr> s1;
          ops \<leftarrow> file_ops drv (f_op filp);
          case fop_open ops of
            None \<Rightarrow> map_option (\<lambda>s3. (preempt_enable s3, - ENXIO)) (fd_unmark i s2)
          | Some op \<Rightarrow> map_option (\<lambda>(s3, _). (s3, int (i + FILE_RESERVED_NUM))) (op (nat file_idx) (preempt_enable s2))
        }
      })"

definition open_round ::
  "(fops \<Rightarrow> 'a fdstate_scheme file_operations) \<Rightarrow> u32 \<Rightarrow> u8 list \<Rightarrow> 'a fdstate_scheme
     \<Rightarrow> ('a fdstate_scheme \<times> u8 list \<times> int option) option" where
  "open_round drv flags file_idx s = do {
     (s1, file_idx1, ready) \<leftarrow> fs_reply file_idx s;
     if ready then map_option (\<lambda>(s2, r). (s2, file_idx1, Some r)) (open_finish drv flags (sint (bytes_word file_idx1)) s1)
     else Some (s1, file_idx1, None)
   }"

definition sys_open_enter ::
  "(fops \<Rightarrow> 'a fdstate_scheme file_operations) \<Rightarrow> string \<Rightarrow> u32 \<Rightarrow> u32 \<Rightarrow> u8 list \<Rightarrow> 'a fdstate_scheme
     \<Rightarrow> ('a fdstate_scheme \<times> u8 list \<times> int option) option" where
  "sys_open_enter drv pathname path flags file_idx s0 =
     (let s = preempt_disable s0 in
      if length pathname \<ge> PATH_MAX then Some (preempt_enable s, file_idx, Some (- ENAMETOOLONG))
      else request_open_file (t_tid (threads s (running s))) path s \<bind> open_round drv flags file_idx)"

definition sys_open_resume ::
  "(fops \<Rightarrow> 'a fdstate_scheme file_operations) \<Rightarrow> u32 \<Rightarrow> u8 list \<Rightarrow> 'a fdstate_scheme
     \<Rightarrow> ('a fdstate_scheme \<times> u8 list \<times> int option) option" where
  "sys_open_resume drv flags file_idx s = open_round drv flags file_idx (jump_to_kernel_resume s)"

text \<open>The calls that return the reply itself.\<close>

definition reply_round :: "u8 list \<Rightarrow> 'a fdstate_scheme \<Rightarrow> ('a fdstate_scheme \<times> u8 list \<times> u32 option) option" where
  "reply_round var s = map_option (\<lambda>(s1, var1, ready). (s1, var1, if ready then Some (bytes_word var1) else None)) (fs_reply var s)"

definition sys_mount_enter ::
  "string \<Rightarrow> u32 \<Rightarrow> string \<Rightarrow> u32 \<Rightarrow> u8 list \<Rightarrow> 'a fdstate_scheme \<Rightarrow> ('a fdstate_scheme \<times> u8 list \<times> u32 option) option" where
  "sys_mount_enter source source_p target target_p mnt_result s =
     (if length source \<ge> PATH_MAX \<or> length target \<ge> PATH_MAX then Some (s, mnt_result, Some (word_of_int (- ENAMETOOLONG)))
      else request_mount (t_tid (threads s (running s))) source_p target_p s \<bind> reply_round mnt_result)"

definition sys_getcwd_enter :: "u32 \<Rightarrow> u32 \<Rightarrow> u8 list \<Rightarrow> 'a fdstate_scheme \<Rightarrow> ('a fdstate_scheme \<times> u8 list \<times> u32 option) option" where
  "sys_getcwd_enter buf sz path s =
     request_getcwd (t_tid (threads s (running s))) buf sz s \<bind> reply_round path"

definition sys_chdir_enter :: "u32 \<Rightarrow> u8 list \<Rightarrow> 'a fdstate_scheme \<Rightarrow> ('a fdstate_scheme \<times> u8 list \<times> u32 option) option" where
  "sys_chdir_enter path chdir_result s =
     request_chdir (t_tid (threads s (running s))) path s \<bind> reply_round chdir_result"

definition reply_resume :: "u8 list \<Rightarrow> 'a fdstate_scheme \<Rightarrow> ('a fdstate_scheme \<times> u8 list \<times> u32 option) option" where
  "reply_resume var s = reply_round var (jump_to_kernel_resume s)"

definition mknod_result :: "u32 option \<Rightarrow> int option" where
  "mknod_result r = map_option (\<lambda>file_idx. if sint file_idx = -1 then -1 else 0) r"

definition sys_mknod_enter ::
  "string \<Rightarrow> u32 \<Rightarrow> u32 \<Rightarrow> u8 list \<Rightarrow> 'a fdstate_scheme \<Rightarrow> ('a fdstate_scheme \<times> u8 list \<times> int option) option" where
  "sys_mknod_enter pathname path dev file_idx s =
     (if length pathname \<ge> PATH_MAX then Some (s, file_idx, Some (- ENAMETOOLONG))
      else map_option (\<lambda>(s1, var, r). (s1, var, mknod_result r))
             (request_create_file (t_tid (threads s (running s))) path (ucast dev) s \<bind> reply_round file_idx))"

text \<open>\<^verbatim>\<open>sys_mkfifo\<close> reads the reply into the variable that holds the thread number; the file number it tests keeps
  the initial value 0.\<close>

definition mkfifo_round :: "u8 list \<Rightarrow> 'a fdstate_scheme \<Rightarrow> ('a fdstate_scheme \<times> u8 list \<times> int option) option" where
  "mkfifo_round tid s = do {
     (s1, tid1, r) \<leftarrow> fifo_read (THREAD_PIPE_FD (unat (bytes_word tid))) tid 4 s;
     if r \<noteq> - ERESTARTSYS then Some (s1, tid1, Some 0) else Some (schedule_request s1, tid1, None)
   }"

definition sys_mkfifo_enter :: "string \<Rightarrow> u32 \<Rightarrow> 'a fdstate_scheme \<Rightarrow> ('a fdstate_scheme \<times> u8 list \<times> int option) option" where
  "sys_mkfifo_enter pathname path s =
     (let tid = word_bytes (word_of_nat (t_tid (threads s (running s)))) in
      if length pathname \<ge> PATH_MAX then Some (s, tid, Some (- ENAMETOOLONG))
      else request_create_file (t_tid (threads s (running s))) path S_IFIFO s \<bind> mkfifo_round tid)"

definition sys_mkfifo_resume :: "u8 list \<Rightarrow> 'a fdstate_scheme \<Rightarrow> ('a fdstate_scheme \<times> u8 list \<times> int option) option" where
  "sys_mkfifo_resume tid s = mkfifo_round tid (jump_to_kernel_resume s)"

definition sys_getpid :: "'a kstate_scheme \<Rightarrow> nat option" where
  "sys_getpid s = map_option (\<lambda>k. k_pid (tasks s k)) (current_task s)"

section \<open>Poll\<close>

record pollfd =
  pfd_fd :: int
  pfd_events :: u16
  pfd_revents :: u16

text \<open>The file of an entry; the index is not checked.\<close>

definition poll_file :: "pollfd \<Rightarrow> 'a fdstate_scheme \<Rightarrow> nat option" where
  "poll_file p s =
     (let i = pfd_fd p - int FILE_RESERVED_NUM in
      if i < 0 \<or> i \<ge> int OPEN_MAX then None else fdt_file (fdtable s (nat i)))"

primrec poll_check :: "pollfd list \<Rightarrow> 'a fdstate_scheme \<Rightarrow> (pollfd list \<times> bool) option" where
  "poll_check [] s = Some ([], False)"
| "poll_check (p # ps) s = do {
     h \<leftarrow> poll_file p s;
     filp \<leftarrow> files s h;
     let events = f_events filp;
     (ps1, found) \<leftarrow> poll_check ps s;
     Some (p\<lparr>pfd_revents := pfd_revents p OR ucast events\<rparr> # ps1,
           NOT (scast (pfd_events p)) AND events \<noteq> 0 \<or> found)
   }"

text \<open>A file object has one link: it can be on the list of one polling thread only.\<close>

definition poll_linked :: "nat \<Rightarrow> 'a kstate_scheme \<Rightarrow> bool" where
  "poll_linked h s = list_ex (\<lambda>t. h \<in> set (t_poll_files (threads s t))) (threads_list s)"

primrec poll_record :: "pollfd list \<Rightarrow> 'a fdstate_scheme \<Rightarrow> 'a fdstate_scheme option" where
  "poll_record [] s = Some s"
| "poll_record (p # ps) s = do {
     h \<leftarrow> poll_file p s;
     if poll_linked h s then None
     else poll_record ps (upd_thread (running s) (\<lambda>th. th\<lparr>t_poll_files := t_poll_files th @ [h]\<rparr>) s)
   }"

definition sys_poll_enter ::
  "pollfd list \<Rightarrow> int \<Rightarrow> 'a fdstate_scheme \<Rightarrow> ('a fdstate_scheme \<times> pollfd list \<times> int option) option" where
  "sys_poll_enter fds timeout s0 = do {
     let s = preempt_disable s0;
     s1 \<leftarrow> (if timeout > 0 then
              if timeout * 1000000 \<ge> 2 ^ 31 \<or> tv_nsec (sys_time s) + timeout * 1000000 \<ge> 2 ^ 31 then None
              else Some (upd_thread (running s) (t_syscall_timeout_update (\<lambda>_. time_add (sys_time s) 0 (timeout * 1000000))) s)
            else Some s);
     let s2 = upd_thread (running s1) (t_poll_files_update (\<lambda>_. [])) s1;
     (fds1, found) \<leftarrow> poll_check fds s2;
     if found then Some (preempt_enable s2, fds1, Some 0)
     else if timeout = 0 then Some (preempt_enable s2, fds1, Some (-1))
     else do {
       s3 \<leftarrow> prepare_to_wait Poll (running s2) THREAD_WAIT s2;
       s4 \<leftarrow> (if timeout > 0 then map_option (\<lambda>l. s3\<lparr>timeout_list := l\<rparr>) (seq_add (running s3) (timeout_list s3)) else Some s3);
       s5 \<leftarrow> poll_record fds s4;
       Some (schedule_request s5, fds1, None)
     }
   }"

definition sys_poll_resume :: "int \<Rightarrow> 'a fdstate_scheme \<Rightarrow> ('a fdstate_scheme \<times> int) option" where
  "sys_poll_resume timeout s0 = do {
     let s = jump_to_kernel_resume s0;
     let s1 = upd_thread (running s) (t_poll_files_update (\<lambda>_. [])) s;
     s2 \<leftarrow> (if timeout > 0 then map_option (\<lambda>l. s1\<lparr>timeout_list := l\<rparr>) (seq_del (running s1) (timeout_list s1)) else Some s1);
     Some (preempt_enable s2, if t_syscall_is_timeout (threads s2 (running s2)) then -1 else 0)
   }"

section \<open>The descriptors of a task\<close>

text \<open>What a task sees of the table: a finite map from descriptor indices to entries.\<close>

definition fds_of :: "nat \<Rightarrow> 'a kstate_scheme \<Rightarrow> nat set" where
  "fds_of k s = bm_set (k_bitmap_fds (tasks s k))"

definition open_map :: "nat \<Rightarrow> 'a fdstate_scheme \<Rightarrow> nat \<rightharpoonup> fdtable" where
  "open_map k s = (\<lambda>i. if i \<in> fds_of k s then Some (fdtable s i) else None)"

definition fd_words :: nat where "fd_words = BITMAP_SIZE OPEN_MAX"

definition fd_inv :: "'a kstate_scheme \<Rightarrow> bool" where
  "fd_inv s \<longleftrightarrow> length (bitmap_fds s) = fd_words
     \<and> (\<forall>k \<in> set (tasks_list s). length (k_bitmap_fds (tasks s k)) = fd_words \<and> fds_of k s \<subseteq> bm_set (bitmap_fds s))
     \<and> (\<forall>k \<in> set (tasks_list s). \<forall>k' \<in> set (tasks_list s). k \<noteq> k' \<longrightarrow> fds_of k s \<inter> fds_of k' s = {})"

text \<open>A call of task \<open>k\<close> that leaves it with the descriptors \<open>m\<close> and every other task with its own.\<close>

definition fd_call :: "nat \<Rightarrow> (nat \<rightharpoonup> fdtable) \<Rightarrow> 'a fdstate_scheme \<Rightarrow> 'a fdstate_scheme \<Rightarrow> bool" where
  "fd_call k m s s' \<longleftrightarrow> fd_inv s' \<and> tasks_list s' = tasks_list s \<and> current_task s' = current_task s \<and> open_map k s' = m
     \<and> (\<forall>k' \<in> set (tasks_list s). k' \<noteq> k \<longrightarrow> open_map k' s' = open_map k' s)"

lemma fd_words_eq: "fd_words = 4"
  by (simp add: fd_words_def BITMAP_SIZE_def CEILING_def config)

lemma preempt_fd [simp]:
  "fdtable (preempt_disable s) = fdtable s" "fdtable (preempt_enable s) = fdtable s"
  "bitmap_fds (preempt_disable s) = bitmap_fds s" "bitmap_fds (preempt_enable s) = bitmap_fds s"
  "tasks_list (preempt_disable s) = tasks_list s" "tasks_list (preempt_enable s) = tasks_list s"
  "current_task (preempt_disable s) = current_task s" "current_task (preempt_enable s) = current_task s"
  "files (preempt_disable s) = files s" "files (preempt_enable s) = files s"
  by (simp_all add: preempt_disable_def preempt_enable_def preempt_count_inc_def preempt_count_dec_def current_task_def Let_def)

lemma fd_preempt [simp]:
  "fds_of k (preempt_disable s) = fds_of k s" "fds_of k (preempt_enable s) = fds_of k s"
  "open_map k (preempt_disable s) = open_map k s" "open_map k (preempt_enable s) = open_map k s"
  "fd_inv (preempt_disable s) = fd_inv s" "fd_inv (preempt_enable s) = fd_inv s"
  "fd_valid i (preempt_disable s) = fd_valid i s"
  by (simp_all add: fds_of_def open_map_def fd_inv_def fd_valid_def cong: if_cong)

lemma fd_call_preempt [simp]:
  "fd_call k m (preempt_disable s) s' = fd_call k m s s'" "fd_call k m s (preempt_enable s') = fd_call k m s s'"
  "fd_call k m s (preempt_disable s') = fd_call k m s s'"
  by (simp_all add: fd_call_def)

lemma fd_call_same: "fd_inv s \<Longrightarrow> fd_call k (open_map k s) s s"
  by (simp add: fd_call_def)

lemma fd_invD:
  assumes "fd_inv s" and "k \<in> set (tasks_list s)"
  shows "length (bitmap_fds s) = 4" and "length (k_bitmap_fds (tasks s k)) = 4" and "fds_of k s \<subseteq> bm_set (bitmap_fds s)"
    and "\<And>k'. k' \<in> set (tasks_list s) \<Longrightarrow> k' \<noteq> k \<Longrightarrow> fds_of k' s \<inter> fds_of k s = {}"
  using assms by (auto simp: fd_inv_def fd_words_eq)

lemma fd_valid_eq:
  assumes "fd_inv s" and "current_task s = Some k" and "k \<in> set (tasks_list s)" and "i < 128"
  shows "fd_valid i s = Some (i \<in> dom (open_map k s))"
proof -
  note d = fd_invD [OF assms(1,3)]
  have "bm_bit (k_bitmap_fds (tasks s k)) i \<Longrightarrow> bm_bit (bitmap_fds s) i" using d(3) by (auto simp: fds_of_def)
  then show ?thesis using assms(2,4) d(1,2) by (auto simp: fd_valid_def bitmap_get_bit_eq open_map_def fds_of_def dom_def)
qed

text \<open>Taking and releasing an entry.\<close>

lemma disjoint_update:
  assumes "\<And>a b. a \<in> T \<Longrightarrow> b \<in> T \<Longrightarrow> a \<noteq> b \<Longrightarrow> F a \<inter> F b = {}" and "\<And>a. a \<in> T \<Longrightarrow> a \<noteq> k \<Longrightarrow> F a \<inter> X = {}"
    and "a \<in> T" and "b \<in> T" and "a \<noteq> b"
  shows "(if a = k then X else F a) \<inter> (if b = k then X else F b) = {}"
  using assms(2) [of a] assms(2) [of b] assms(1) [of a b] assms(3-5) by auto

lemma fd_inv_update:
  assumes inv: "fd_inv s" and k: "k \<in> set (tasks_list s)" and s': "tasks_list s' = tasks_list s" "length (bitmap_fds s') = 4"
    and f: "\<And>k'. fds_of k' s' = (if k' = k then X else fds_of k' s)"
    and l: "\<And>k'. k' \<in> set (tasks_list s) \<Longrightarrow> length (k_bitmap_fds (tasks s' k')) = 4"
    and X: "X \<subseteq> bm_set (bitmap_fds s')" "\<And>k'. k' \<in> set (tasks_list s) \<Longrightarrow> k' \<noteq> k \<Longrightarrow> fds_of k' s \<subseteq> bm_set (bitmap_fds s') \<and> fds_of k' s \<inter> X = {}"
  shows "fd_inv s'"
proof -
  have d: "fds_of a s \<inter> fds_of b s = {}" if "a \<in> set (tasks_list s)" "b \<in> set (tasks_list s)" "a \<noteq> b" for a b
    using fd_invD(4) [OF inv that(2,1)] that(3) by simp
  have "fds_of a s' \<inter> fds_of b s' = {}" if "a \<in> set (tasks_list s)" "b \<in> set (tasks_list s)" "a \<noteq> b" for a b
    unfolding f using X(2) that by (intro disjoint_update [of "set (tasks_list s)"] d) auto
  moreover have "fds_of a s' \<subseteq> bm_set (bitmap_fds s')" if "a \<in> set (tasks_list s)" for a
    using X that unfolding f by (cases "a = k") simp_all
  ultimately show ?thesis using s'(2) l unfolding fd_inv_def fd_words_eq s'(1) by simp
qed

lemma fd_mark_call:
  assumes inv: "fd_inv s" and k: "current_task s = Some k" "k \<in> set (tasks_list s)" and i: "i < 128" "i \<notin> bm_set (bitmap_fds s)"
  shows "\<exists>s1. fd_mark i s = Some s1 \<and> fdtable s1 = fdtable s \<and> files s1 = files s \<and> bm_set (bitmap_fds s1) = insert i (bm_set (bitmap_fds s))
     \<and> fd_call k ((open_map k s)(i \<mapsto> d)) s (set_fdesc i d s1)"
proof -
  note D = fd_invD [OF inv k(2)]
  obtain g l where g: "bitmap_set_bit (bitmap_fds s) i = Some g" "length g = 4" "bm_set g = insert i (bm_set (bitmap_fds s))"
    and l: "bitmap_set_bit (k_bitmap_fds (tasks s k)) i = Some l" "length l = 4" "bm_set l = insert i (fds_of k s)"
    using bitmap_set_bit_Some [of i "bitmap_fds s"] bitmap_set_bit_Some [of i "k_bitmap_fds (tasks s k)"] D(1,2) i(1)
    by (auto simp: fds_of_def)
  define s1 where "s1 = set_task_fds k l (s\<lparr>bitmap_fds := g\<rparr>)"
  have f: "fds_of k' (set_fdesc i d s1) = (if k' = k then insert i (fds_of k s) else fds_of k' s)" for k'
    by (simp add: fds_of_def s1_def set_task_fds_def set_fdesc_def l(3))
  have no: "i \<notin> fds_of k' s" if "k' \<in> set (tasks_list s)" for k' using fd_invD(3) [OF inv that] i(2) by auto
  have b: "bitmap_fds (set_fdesc i d s1) = g" "tasks_list (set_fdesc i d s1) = tasks_list s" "current_task (set_fdesc i d s1) = current_task s"
    "fdtable (set_fdesc i d s1) = (fdtable s)(i := d)"
    by (simp_all add: s1_def set_task_fds_def set_fdesc_def current_task_def)
  have len: "length (k_bitmap_fds (tasks (set_fdesc i d s1) k')) = 4" if "k' \<in> set (tasks_list s)" for k'
    using fd_invD(2) [OF inv that] l(2) by (simp add: s1_def set_task_fds_def set_fdesc_def)
  have "fd_inv (set_fdesc i d s1)"
    by (rule fd_inv_update [OF inv k(2) b(2) _ f len])
       (use b(1) g(2,3) D(3) fd_invD(3) [OF inv] D(4) no in \<open>auto simp: bm_bit_iff [symmetric] simp del: bm_bit_iff\<close>)
  moreover have "open_map k' (set_fdesc i d s1) = (if k' = k then (open_map k s)(i \<mapsto> d) else open_map k' s)" if "k' \<in> set (tasks_list s)" for k'
    using no [OF that] unfolding open_map_def f b(4) by (auto simp: fun_eq_iff)
  ultimately have "fd_call k ((open_map k s)(i \<mapsto> d)) s (set_fdesc i d s1)" using b k(2) by (simp add: fd_call_def)
  moreover have "fd_mark i s = Some s1" using k(1) g(1) l(1) by (simp add: fd_mark_def s1_def)
  ultimately show ?thesis using g(3) by (auto simp: s1_def set_task_fds_def)
qed

lemma fd_unmark_call:
  assumes inv: "fd_inv s" and k: "current_task s = Some k" "k \<in> set (tasks_list s)" and i: "i \<in> dom (open_map k s)"
  shows "\<exists>s1. fd_unmark i s = Some s1 \<and> fd_call k ((open_map k s)(i := None)) s s1"
proof -
  note D = fd_invD [OF inv k(2)]
  have ik: "i \<in> fds_of k s" using i by (auto simp: open_map_def split: if_splits)
  then have "i < 128" using D(2) bm_bit_bound by (fastforce simp: fds_of_def)
  then obtain g l where g: "bitmap_clear_bit (bitmap_fds s) i = Some g" "length g = 4" "bm_set g = bm_set (bitmap_fds s) - {i}"
    and l: "bitmap_clear_bit (k_bitmap_fds (tasks s k)) i = Some l" "length l = 4" "bm_set l = fds_of k s - {i}"
    using bitmap_clear_bit_Some [of i "bitmap_fds s"] bitmap_clear_bit_Some [of i "k_bitmap_fds (tasks s k)"] D(1,2)
    by (auto simp: fds_of_def)
  define s1 where "s1 = set_task_fds k l (s\<lparr>bitmap_fds := g\<rparr>)"
  have f: "fds_of k' s1 = (if k' = k then fds_of k s - {i} else fds_of k' s)" for k'
    by (simp add: fds_of_def s1_def set_task_fds_def l(3))
  have no: "i \<notin> fds_of k' s" if "k' \<in> set (tasks_list s)" "k' \<noteq> k" for k' using D(4) [OF that] ik by auto
  have b: "bitmap_fds s1 = g" "tasks_list s1 = tasks_list s" "current_task s1 = current_task s" "fdtable s1 = fdtable s"
    by (simp_all add: s1_def set_task_fds_def current_task_def)
  have len: "length (k_bitmap_fds (tasks s1 k')) = 4" if "k' \<in> set (tasks_list s)" for k'
    using fd_invD(2) [OF inv that] l(2) by (simp add: s1_def set_task_fds_def)
  have "fds_of k' s \<subseteq> bm_set (bitmap_fds s1) \<and> fds_of k' s \<inter> (fds_of k s - {i}) = {}" if "k' \<in> set (tasks_list s)" "k' \<noteq> k" for k'
    using fd_invD(3) [OF inv that(1)] no [OF that] D(4) [OF that] unfolding b(1) g(3) by blast
  moreover have "fds_of k s - {i} \<subseteq> bm_set (bitmap_fds s1)" using D(3) unfolding b(1) g(3) by blast
  ultimately have "fd_inv s1" using b(1) g(2) by (intro fd_inv_update [OF inv k(2) b(2) _ f len]) simp_all
  moreover have "open_map k' s1 = (if k' = k then (open_map k s)(i := None) else open_map k' s)" for k'
    unfolding open_map_def f b(4) by (auto simp: fun_eq_iff)
  ultimately have "fd_call k ((open_map k s)(i := None)) s s1" using b by (simp add: fd_call_def)
  moreover have "fd_unmark i s = Some s1" using k(1) g(1) l(1) by (simp add: fd_unmark_def s1_def)
  ultimately show ?thesis by blast
qed

text \<open>Overwriting an entry that the task has.\<close>

lemma set_fdesc_call:
  assumes inv: "fd_inv s" and k: "k \<in> set (tasks_list s)" and i: "i \<in> dom (open_map k s)"
  shows "fd_call k ((open_map k s)(i \<mapsto> d)) s (set_fdesc i d s)"
proof -
  have ik: "i \<in> fds_of k s" using i by (auto simp: open_map_def split: if_splits)
  have no: "i \<notin> fds_of k' s" if "k' \<in> set (tasks_list s)" "k' \<noteq> k" for k' using fd_invD(4) [OF inv k that] ik by auto
  have b: "bitmap_fds (set_fdesc i d s) = bitmap_fds s" "tasks_list (set_fdesc i d s) = tasks_list s" "tasks (set_fdesc i d s) = tasks s"
    "fdtable (set_fdesc i d s) = (fdtable s)(i := d)" "current_task (set_fdesc i d s) = current_task s"
    by (simp_all add: set_fdesc_def current_task_def)
  have f: "fds_of k' (set_fdesc i d s) = fds_of k' s" for k' by (simp add: fds_of_def b)
  have "fd_inv (set_fdesc i d s)" using inv by (simp add: fd_inv_def f b)
  moreover have "open_map k (set_fdesc i d s) = (open_map k s)(i \<mapsto> d)" using ik unfolding open_map_def f b(4) by (auto simp: fun_eq_iff)
  moreover have "open_map k' (set_fdesc i d s) = open_map k' s" if "k' \<in> set (tasks_list s)" "k' \<noteq> k" for k'
    using no [OF that] unfolding open_map_def f b(4) by (auto simp: fun_eq_iff)
  ultimately show ?thesis by (simp add: fd_call_def b)
qed

text \<open>The least free entry, taken for the descriptor \<open>d\<close>.\<close>

definition fd_taken :: "nat \<Rightarrow> fdtable \<Rightarrow> int \<Rightarrow> 'a fdstate_scheme \<Rightarrow> 'a fdstate_scheme \<Rightarrow> bool" where
  "fd_taken k d r s s' \<longleftrightarrow>
     (if {..<OPEN_MAX} \<subseteq> bm_set (bitmap_fds s) then r = - ENOMEM \<and> fd_call k (open_map k s) s s'
      else \<exists>j < OPEN_MAX. r = int (j + FILE_RESERVED_NUM) \<and> j \<notin> bm_set (bitmap_fds s) \<and> {..<j} \<subseteq> bm_set (bitmap_fds s)
             \<and> fd_call k ((open_map k s)(j \<mapsto> d)) s s')"

lemma fd_first_free:
  assumes "fd_inv s" and "k \<in> set (tasks_list s)"
  shows "\<exists>j. find_first_zero_bit (bitmap_fds s) OPEN_MAX = Some j \<and> j \<le> OPEN_MAX \<and> {..<j} \<subseteq> bm_set (bitmap_fds s)
     \<and> (j < OPEN_MAX \<longrightarrow> j \<notin> bm_set (bitmap_fds s)) \<and> ({..<OPEN_MAX} \<subseteq> bm_set (bitmap_fds s) \<longleftrightarrow> j = OPEN_MAX)"
proof -
  from find_first_zero_bit_spec [of OPEN_MAX "bitmap_fds s"] fd_invD(1) [OF assms] obtain j where
    j: "find_first_zero_bit (bitmap_fds s) OPEN_MAX = Some j" "j \<le> OPEN_MAX" "j < OPEN_MAX \<longrightarrow> \<not> bm_bit (bitmap_fds s) j"
      "\<forall>b < j. bm_bit (bitmap_fds s) b" by (auto simp: config)
  then have "{..<OPEN_MAX} \<subseteq> bm_set (bitmap_fds s) \<longleftrightarrow> j = OPEN_MAX" by (auto simp: subset_iff order.order_iff_strict)
  with j show ?thesis by auto
qed

lemma sys_close_call:
  assumes "fd_inv s" and k: "current_task s = Some k" "k \<in> set (tasks_list s)" and i: "i < 128"
  shows "\<exists>s'. sys_close (int (i + FILE_RESERVED_NUM)) s = Some (s', if i \<in> dom (open_map k s) then 0 else - EBADF)
     \<and> fd_call k ((open_map k s)(i := None)) s s'"
proof (cases "i \<in> dom (open_map k s)")
  case True
  with fd_unmark_call [of "preempt_disable s" k i] assms fd_valid_eq [OF assms] show ?thesis
    by (auto simp: sys_close_def critr_def Let_def nat_int_add)
next
  case False
  then have "(open_map k s)(i := None) = open_map k s" by (auto simp: fun_eq_iff domIff)
  with False fd_call_same [OF assms(1), of k] assms fd_valid_eq [OF assms] show ?thesis
    by (auto simp: sys_close_def critr_def Let_def nat_int_add)
qed

lemma sys_dup2_call:
  assumes "fd_inv s" and k: "current_task s = Some k" "k \<in> set (tasks_list s)" and i: "i < 128" and j: "j < 128"
  shows "\<exists>s'. sys_dup2 (int (i + FILE_RESERVED_NUM)) (int (j + FILE_RESERVED_NUM)) s
         = Some (s', if i \<in> dom (open_map k s) \<and> j \<in> dom (open_map k s) then int (j + FILE_RESERVED_NUM) else - EBADF)
     \<and> fd_call k (if i \<in> dom (open_map k s) \<and> j \<in> dom (open_map k s) then (open_map k s)(j := open_map k s i) else open_map k s) s s'"
proof -
  let ?d = "preempt_disable s" and ?v = "i \<in> dom (open_map k s) \<and> j \<in> dom (open_map k s)"
  note D = fd_invD [OF assms(1) k(2)]
  have dom: "a \<in> dom (open_map k s) \<longleftrightarrow> bm_bit (k_bitmap_fds (tasks s k)) a" for a by (auto simp: open_map_def fds_of_def dom_def)
  have sub: "bm_bit (k_bitmap_fds (tasks s k)) a \<Longrightarrow> bm_bit (bitmap_fds s) a" for a using D(3) by (auto simp: fds_of_def)
  have "sys_dup2 (int (i + FILE_RESERVED_NUM)) (int (j + FILE_RESERVED_NUM)) s
      = (if ?v then Some (preempt_enable (set_fdesc j (fdtable s i) ?d), int (j + FILE_RESERVED_NUM)) else Some (preempt_enable ?d, - EBADF))"
    using k(1) i j D(1,2) sub [of i] sub [of j]
    by (cases "bm_bit (bitmap_fds s) i"; cases "bm_bit (bitmap_fds s) j"; cases "bm_bit (k_bitmap_fds (tasks s k)) i";
        cases "bm_bit (k_bitmap_fds (tasks s k)) j")
       (simp_all add: sys_dup2_def critr_def bitmap_get_bit_eq dom Let_def nat_int_add)
  moreover have "open_map k s i = Some (fdtable s i)" if "i \<in> dom (open_map k s)" using that by (auto simp: open_map_def split: if_splits)
  ultimately show ?thesis
    using set_fdesc_call [of ?d k j "fdtable s i"] assms fd_call_same [OF assms(1), of k] by (auto simp del: fun_upd_apply)
qed

lemma sys_dup_call:
  assumes "fd_inv s" and k: "current_task s = Some k" "k \<in> set (tasks_list s)" and i: "i < 128"
  shows "\<exists>s' r. sys_dup (int (i + FILE_RESERVED_NUM)) s = Some (s', r)
     \<and> (case open_map k s i of None \<Rightarrow> r = - EBADF \<and> fd_call k (open_map k s) s s' | Some d \<Rightarrow> fd_taken k d r s s')"
proof (cases "open_map k s i")
  case None
  then have "i \<notin> dom (open_map k s)" by auto
  with None fd_call_same [OF assms(1), of k] assms fd_valid_eq [OF assms] show ?thesis by (auto simp: sys_dup_def critr_def Let_def nat_int_add)
next
  case (Some d)
  then have i': "i \<in> dom (open_map k s)" and d: "d = fdtable s i" by (auto simp: open_map_def split: if_splits)
  let ?p = "preempt_disable s"
  from fd_first_free [OF assms(1) k(2)] obtain j where j: "find_first_zero_bit (bitmap_fds s) OPEN_MAX = Some j" "j \<le> OPEN_MAX"
    "{..<j} \<subseteq> bm_set (bitmap_fds s)" "j < OPEN_MAX \<longrightarrow> j \<notin> bm_set (bitmap_fds s)" "{..<OPEN_MAX} \<subseteq> bm_set (bitmap_fds s) \<longleftrightarrow> j = OPEN_MAX" by blast
  show ?thesis
  proof (cases "j = OPEN_MAX")
    case True
    then have "sys_dup (int (i + FILE_RESERVED_NUM)) s = Some (preempt_enable ?p, - ENOMEM)"
      using i' j(1) fd_valid_eq [OF assms] by (simp add: sys_dup_def critr_def Let_def nat_int_add)
    then show ?thesis using True Some j(5) fd_call_same [OF assms(1), of k] by (simp add: fd_taken_def)
  next
    case False
    then have jo: "j < OPEN_MAX" "j < 128" using j(2) by (simp_all add: config)
    from fd_mark_call [of ?p k j d] assms jo j(4) obtain s1 where s1: "fd_mark j ?p = Some s1" "fdtable s1 = fdtable s"
      "fd_call k ((open_map k s)(j \<mapsto> d)) s (set_fdesc j d s1)" by auto
    then have "sys_dup (int (i + FILE_RESERVED_NUM)) s = Some (preempt_enable (set_fdesc j d s1), int (j + FILE_RESERVED_NUM))"
      using i' j(1) jo fd_valid_eq [OF assms] d by (simp add: sys_dup_def critr_def Let_def nat_int_add)
    then show ?thesis using Some s1(3) j jo by (auto simp: fd_taken_def)
  qed
qed

lemma open_finish_call:
  assumes "fd_inv s" and k: "current_task s = Some k" "k \<in> set (tasks_list s)"
    and h: "files s h = Some filp" "f_op filp = Fifo_ops \<or> f_op filp = Null_dev_ops"
  shows "\<exists>s' r. open_finish drv flags (int h) s = Some (s', r) \<and> fd_taken k \<lparr>fdt_flags = flags, fdt_file = Some h\<rparr> r s s'"
proof -
  let ?d = "\<lparr>fdt_flags = flags, fdt_file = Some h\<rparr>"
  from fd_first_free [OF assms(1) k(2)] obtain j where j: "find_first_zero_bit (bitmap_fds s) OPEN_MAX = Some j" "j \<le> OPEN_MAX"
    "{..<j} \<subseteq> bm_set (bitmap_fds s)" "j < OPEN_MAX \<longrightarrow> j \<notin> bm_set (bitmap_fds s)" "{..<OPEN_MAX} \<subseteq> bm_set (bitmap_fds s) \<longleftrightarrow> j = OPEN_MAX" by blast
  show ?thesis
  proof (cases "j = OPEN_MAX")
    case True
    then show ?thesis using j(1,5) fd_call_same [OF assms(1), of k] by (simp add: open_finish_def fd_taken_def)
  next
    case False
    then have jo: "j < OPEN_MAX" "j < 128" using j(2) by (simp_all add: config)
    from fd_mark_call [OF assms(1) k, of j ?d] jo j(4) obtain s1 where s1: "fd_mark j s = Some s1" "files s1 = files s"
      "fd_call k ((open_map k s)(j \<mapsto> ?d)) s (set_fdesc j ?d s1)" by auto
    have "open_finish drv flags (int h) s = Some (preempt_enable (set_fdesc j ?d s1), int (j + FILE_RESERVED_NUM))"
      using j(1) jo s1(1,2) h by (auto simp: open_finish_def file_ops_def fifo_ops_def null_dev_ops_def null_dev_open_def Let_def)
    then show ?thesis using s1(3) j jo by (auto simp: fd_taken_def)
  qed
qed

section \<open>The time limit of poll\<close>

lemma timer_up_count_iter:
  "time_norm t \<Longrightarrow> time_norm ((timer_up_count ^^ n) t) \<and> nanos ((timer_up_count ^^ n) t) = nanos t + int n * NANOSECOND_TICKS"
proof (induction n)
  case (Suc n)
  then show ?case using timer_up_count_spec [of "(timer_up_count ^^ n) t"] by (auto simp: algebra_simps)
qed auto

lemma nanos_inject:
  assumes "time_norm a" and "time_norm b" and "nanos a = nanos b"
  shows "tv_sec a = tv_sec b" and "tv_nsec a = tv_nsec b"
proof -
  show "tv_sec a = tv_sec b" using assms by (simp add: time_norm_def nanos_def)
  then show "tv_nsec a = tv_nsec b" using assms(3) by (simp add: nanos_def)
qed

lemma timeout_due_nanos: "timeout_due tp d \<Longrightarrow> nanos d \<le> nanos tp"
  unfolding timeout_due_def nanos_def by linarith

text \<open>A deadline that \<open>time_add\<close> normalises is reached at the tick it falls on, not before.\<close>

lemma timeout_due_exact:
  assumes n: "time_norm t0" and m: "0 < ms" "tv_nsec t0 + ms * 1000000 < 2000000000"
  defines "d \<equiv> time_add t0 0 (ms * 1000000)"
  shows "timeout_due ((timer_up_count ^^ k) t0) d \<Longrightarrow> 4 * ms \<le> int k" and "timeout_due ((timer_up_count ^^ nat (4 * ms)) t0) d"
proof -
  have d: "nanos d = nanos t0 + ms * 1000000" "time_norm d"
    using n m by (auto simp: d_def time_add_def Let_def nanos_def time_norm_def)
  show "4 * ms \<le> int k" if "timeout_due ((timer_up_count ^^ k) t0) d"
    using timeout_due_nanos [OF that] timer_up_count_iter [OF n, of k] d(1) by (simp add: NANOSECOND_TICKS_eq)
  let ?t = "(timer_up_count ^^ nat (4 * ms)) t0"
  have "time_norm ?t" "nanos ?t = nanos d" using timer_up_count_iter [OF n, of "nat (4 * ms)"] d(1) m(1) by (simp_all add: NANOSECOND_TICKS_eq)
  from nanos_inject [OF this(1) d(2) this(2)] show "timeout_due ?t d" by (simp add: timeout_due_def)
qed

text \<open>Otherwise the deadline has nanoseconds that no clock reaches.\<close>

lemma timeout_due_never:
  assumes "time_norm t0" and "2000000000 \<le> tv_nsec t0 + ms * 1000000"
  shows "\<not> timeout_due ((timer_up_count ^^ k) t0) (time_add t0 0 (ms * 1000000))"
  using timer_up_count_iter [OF assms(1), of k] assms by (auto simp: timeout_due_def time_add_def Let_def time_norm_def)

text \<open>A tick wakes exactly the threads whose deadline it reaches.\<close>

lemma timeout_each_spec:
  assumes "sched_wf s" and "distinct ts" and "\<forall>t \<in> set ts. lk_linked t (links s) \<and> t \<noteq> running s"
  shows "\<exists>s'. timeout_each tp ts s = Some s' \<and> sched_wf s' \<and> running s' = running s
     \<and> (\<forall>t. threads s' t = (if t \<in> set ts \<and> timeout_due tp (t_syscall_timeout (threads s t))
           then (threads s t)\<lparr>t_syscall_is_timeout := True, t_status := THREAD_READY\<rparr> else threads s t))"
  using assms
proof (induction ts arbitrary: s)
  case (Cons t ts)
  show ?case
  proof (cases "timeout_due tp (t_syscall_timeout (threads s t))")
    case True
    define u where "u = upd_thread t (t_syscall_is_timeout_update (\<lambda>_. True)) s"
    define v where "v = preempt_enable (make_ready t (preempt_disable u))"
    have u: "sched_wf u" "links u = links s" "running u = running s" "threads u = (threads s)(t := (threads s t)\<lparr>t_syscall_is_timeout := True\<rparr>)"
      using Cons.prems(1) by (simp_all add: u_def sched_wf_def upd_thread_def)
    have tn: "lk_linked t (links s)" "t \<noteq> running s" using Cons.prems(3) by simp_all
    have fw: "finish_wait t u = Some v" using finish_wait_eq [OF u(1), of t] tn u(2,3) by (simp add: v_def)
    have v: "sched_wf v" "running v = running s" "\<And>x. lk_linked x (links v) = lk_linked x (links s)"
      "threads v = (threads s)(t := (threads s t)\<lparr>t_syscall_is_timeout := True, t_status := THREAD_READY\<rparr>)"
      using make_ready_wf [of "preempt_disable u" t] u tn by (auto simp: v_def)
    have "distinct ts" "\<forall>x \<in> set ts. lk_linked x (links v) \<and> x \<noteq> running v" using Cons.prems v(2,3) by auto
    from Cons.IH [OF v(1) this] obtain s' where
      s': "timeout_each tp ts v = Some s'" "sched_wf s'" "running s' = running v" "\<And>x. threads s' x = (if x \<in> set ts \<and> timeout_due tp (t_syscall_timeout (threads v x))
           then (threads v x)\<lparr>t_syscall_is_timeout := True, t_status := THREAD_READY\<rparr> else threads v x)" by blast
    have "timeout_each tp (t # ts) s = Some s'" using True fw s'(1) by (simp add: timeout_due_def u_def)
    moreover have "threads s' x = (if x \<in> set (t # ts) \<and> timeout_due tp (t_syscall_timeout (threads s x))
           then (threads s x)\<lparr>t_syscall_is_timeout := True, t_status := THREAD_READY\<rparr> else threads s x)" for x
      using s'(4) [of x] v(4) Cons.prems(2) True by auto
    ultimately show ?thesis using s'(2,3) v(2) by (intro exI [of _ s'] conjI allI) simp_all
  next
    case False
    then have e: "timeout_each tp (t # ts) s = timeout_each tp ts s" by (auto simp: timeout_due_def)
    from Cons.IH [of s] Cons.prems obtain s' where
      s': "timeout_each tp ts s = Some s'" "sched_wf s'" "running s' = running s" "\<And>x. threads s' x = (if x \<in> set ts \<and> timeout_due tp (t_syscall_timeout (threads s x))
           then (threads s x)\<lparr>t_syscall_is_timeout := True, t_status := THREAD_READY\<rparr> else threads s x)" by auto
    show ?thesis unfolding e
    proof (intro exI [of _ s'] conjI allI)
      show "threads s' x = (if x \<in> set (t # ts) \<and> timeout_due tp (t_syscall_timeout (threads s x))
           then (threads s x)\<lparr>t_syscall_is_timeout := True, t_status := THREAD_READY\<rparr> else threads s x)" for x
        using False s'(4) [of x] by (cases "x = t") auto
    qed (fact s')+
  qed
qed simp

lemma poll_record_frame:
  "poll_record ps s = Some s' \<Longrightarrow> running s' = running s \<and> timeout_list s' = timeout_list s
     \<and> (\<forall>t. threads s' t = (threads s t)\<lparr>t_poll_files := t_poll_files (threads s' t)\<rparr>)"
proof (induction ps arbitrary: s)
  case (Cons p ps)
  from Cons.prems obtain h where h: "poll_record ps (upd_thread (running s) (\<lambda>th. th\<lparr>t_poll_files := t_poll_files th @ [h]\<rparr>) s) = Some s'"
    by (auto simp: bind_eq_Some_iff split: if_splits)
  from Cons.IH [OF h] show ?case by (auto simp: upd_thread_def split: if_splits)
qed simp

text \<open>What a poll that has to wait has set up.\<close>

lemma sys_poll_enter_waits:
  assumes "sys_poll_enter fds timeout s = Some (s', fds', None)" and "0 < timeout"
  shows "running s' = running s" and "running s \<in> set (timeout_list s')"
    and "t_syscall_timeout (threads s' (running s)) = time_add (sys_time s) 0 (timeout * 1000000)"
    and "t_syscall_is_timeout (threads s' (running s)) = t_syscall_is_timeout (threads s (running s))"
    and "timeout * 1000000 < 2 ^ 31"
proof -
  let ?t = "running s"
  from assms obtain u v l w where t: "timeout * 1000000 < 2 ^ 31"
    and u: "u = upd_thread ?t (t_poll_files_update (\<lambda>_. []))
        (upd_thread ?t (t_syscall_timeout_update (\<lambda>_. time_add (sys_time s) 0 (timeout * 1000000))) (preempt_disable s))"
    and v: "prepare_to_wait Poll ?t THREAD_WAIT u = Some v" and l: "seq_add (running v) (timeout_list v) = Some l"
    and w: "poll_record fds (v\<lparr>timeout_list := l\<rparr>) = Some w" and s': "s' = schedule_request w"
    by (auto simp: sys_poll_enter_def Let_def bind_eq_Some_iff preempt_disable_def preempt_count_inc_def upd_thread_def split: if_splits)
  have v': "running v = ?t" "threads v ?t = (threads u ?t)\<lparr>t_status := THREAD_WAIT\<rparr>"
    using v by (auto simp: prepare_to_wait_def crit_def node_add_def u upd_thread_def split: if_splits)
  note f = poll_record_frame [OF w]
  have th: "threads w ?t = (threads v ?t)\<lparr>t_poll_files := t_poll_files (threads w ?t)\<rparr>" using f by simp
  have x: "t_syscall_timeout (threads w ?t) = t_syscall_timeout (threads v ?t)"
    "t_syscall_is_timeout (threads w ?t) = t_syscall_is_timeout (threads v ?t)" by (subst th; simp)+
  have g: "running s' = running w" "timeout_list s' = timeout_list w" "t_syscall_timeout (threads s' x) = t_syscall_timeout (threads w x)"
    "t_syscall_is_timeout (threads s' x) = t_syscall_is_timeout (threads w x)" for x
    by (simp_all add: s' schedule_request_def jump_to_kernel_leave_def set_need_resched_def preempt_count_set_def upd_thread_def
        preempt_disable_def preempt_enable_def preempt_count_inc_def preempt_count_dec_def Let_def)
  show "running s' = running s" "timeout * 1000000 < 2 ^ 31" using f g v'(1) t by simp_all
  have "l = timeout_list v @ [?t]" using l v'(1) by (simp add: seq_add_def split: if_splits)
  then show "running s \<in> set (timeout_list s')" using f g(2) by simp
  show "t_syscall_timeout (threads s' ?t) = time_add (sys_time s) 0 (timeout * 1000000)"
    "t_syscall_is_timeout (threads s' ?t) = t_syscall_is_timeout (threads s ?t)"
    unfolding g(3,4) x v'(2) by (simp_all add: u upd_thread_def)
qed

section \<open>Properties\<close>

text \<open>
  C26. Every task has its own descriptors. On the part of the table that a task owns, \<^verbatim>\<open>close\<close> removes an entry, \<^verbatim>\<open>dup2\<close>
  overwrites one, and \<^verbatim>\<open>dup\<close> and the end of \<^verbatim>\<open>open\<close> add the entry at the least index that no task uses, or fail with
  \<^verbatim>\<open>-ENOMEM\<close> when all are in use; a descriptor the task does not have gives \<^verbatim>\<open>-EBADF\<close>. No call changes
  the descriptors of another task, and the invariant that no two tasks share an entry is kept.\<close>

theorem fd_calls_refine:
  assumes "fd_inv s" and "current_task s = Some k" and "k \<in> set (tasks_list s)" and "i < 128" and "j < 128"
    and "files s h = Some filp" and "f_op filp \<in> {Fifo_ops, Null_dev_ops}"
  defines "m \<equiv> open_map k s"
  shows "(\<exists>s'. sys_close (int (i + FILE_RESERVED_NUM)) s = Some (s', if i \<in> dom m then 0 else - EBADF) \<and> fd_call k (m(i := None)) s s')
    \<and> (\<exists>s' r. sys_dup (int (i + FILE_RESERVED_NUM)) s = Some (s', r)
          \<and> (case m i of None \<Rightarrow> r = - EBADF \<and> fd_call k m s s' | Some d \<Rightarrow> fd_taken k d r s s'))
    \<and> (\<exists>s'. sys_dup2 (int (i + FILE_RESERVED_NUM)) (int (j + FILE_RESERVED_NUM)) s
            = Some (s', if i \<in> dom m \<and> j \<in> dom m then int (j + FILE_RESERVED_NUM) else - EBADF)
          \<and> fd_call k (if i \<in> dom m \<and> j \<in> dom m then m(j := m i) else m) s s')
    \<and> (\<exists>s' r. open_finish drv flags (int h) s = Some (s', r) \<and> fd_taken k \<lparr>fdt_flags = flags, fdt_file = Some h\<rparr> r s s')"
  unfolding m_def using assms(7)
  by (intro conjI sys_close_call [OF assms(1-4)] sys_dup_call [OF assms(1-4)] sys_dup2_call [OF assms(1-5)]
      open_finish_call [OF assms(1-3,6)]) auto

text \<open>The state \<open>u\<close> at the end of \<open>n\<close> ticks after the state \<open>s\<close> in which thread \<open>t\<close> waits with the deadline \<open>d\<close>; the threads on the list of
  time-outs all wait.\<close>

definition poll_waits :: "nat \<Rightarrow> timespec \<Rightarrow> nat \<Rightarrow> 'a fdstate_scheme \<Rightarrow> 'a fdstate_scheme \<Rightarrow> bool" where
  "poll_waits t d n s u \<longleftrightarrow> sched_wf u \<and> sys_time u = (timer_up_count ^^ n) (sys_time s)
     \<and> distinct (timeout_list u) \<and> (\<forall>x \<in> set (timeout_list u). lk_linked x (links u) \<and> x \<noteq> running u)
     \<and> t \<in> set (timeout_list u) \<and> t_syscall_timeout (threads u t) = d"

lemma sys_poll_enter_overflow:
  "0 < timeout \<Longrightarrow> 2 ^ 31 \<le> tv_nsec (sys_time s) + timeout * 1000000 \<Longrightarrow> sys_poll_enter fds timeout s = None"
  by (simp add: sys_poll_enter_def Let_def preempt_disable_def preempt_count_inc_def)

text \<open>
  C27. The time limit of \<^verbatim>\<open>poll\<close>, from any normalised clock, with \<open>N\<close> the nanoseconds of the clock plus those of the limit. When \<open>N\<close> does not fit
  in 31 bits the call overflows a signed number, which is undefined: limits of 2148 ms and more always, shorter
  ones from 1148 ms on depending on the clock. A call that waits is on the list of time-outs. When \<open>N\<close> is below two seconds,
  which holds for every limit up to a second, \<^verbatim>\<open>syscall_timeout_update\<close> leaves the thread alone at every tick before the one the limit asks for,
  four ticks per millisecond, and at that tick marks it as timed out and makes it ready. When \<open>N\<close> is two seconds or more the thread is
  never timed out: the deadline has more nanoseconds than a second, and the test compares seconds and nanoseconds
  separately.\<close>

theorem poll_timeout_exact:
  assumes "0 < timeout" and norm: "time_norm (sys_time s)"
  defines "N \<equiv> tv_nsec (sys_time s) + timeout * 1000000"
  shows "(2 ^ 31 \<le> N \<longrightarrow> sys_poll_enter fds timeout s = None)
    \<and> (\<forall>s' fds'. sys_poll_enter fds timeout s = Some (s', fds', None) \<longrightarrow> running s \<in> set (timeout_list s')
        \<and> (\<forall>n u. poll_waits (running s) (t_syscall_timeout (threads s' (running s))) n s u \<longrightarrow>
             (\<exists>v. syscall_timeout_update u = Some v \<and> sched_wf v
               \<and> (int n < 4 * timeout \<or> 2000000000 \<le> N \<longrightarrow> threads v (running s) = threads u (running s))
               \<and> (int n = 4 * timeout \<and> N < 2000000000 \<longrightarrow> threads v (running s)
                    = (threads u (running s))\<lparr>t_syscall_is_timeout := True, t_status := THREAD_READY\<rparr>))))"
proof (intro conjI allI impI)
  show "2 ^ 31 \<le> N \<Longrightarrow> sys_poll_enter fds timeout s = None"
    using sys_poll_enter_overflow assms(1) unfolding N_def by blast
next
  fix s' fds' assume e: "sys_poll_enter fds timeout s = Some (s', fds', None)"
  show "running s \<in> set (timeout_list s')" by (rule sys_poll_enter_waits(2) [OF e assms(1)])
next
  fix s' fds' n u
  let ?t = "running s" and ?tp = "(timer_up_count ^^ n) (sys_time s)"
  let ?d = "time_add (sys_time s) 0 (timeout * 1000000)"
  assume e: "sys_poll_enter fds timeout s = Some (s', fds', None)" and w: "poll_waits ?t (t_syscall_timeout (threads s' ?t)) n s u"
  have d: "t_syscall_timeout (threads s' ?t) = ?d" by (rule sys_poll_enter_waits(3) [OF e assms(1)])
  have u: "sched_wf u" "distinct (timeout_list u)" "\<forall>x \<in> set (timeout_list u). lk_linked x (links u) \<and> x \<noteq> running u"
    "sys_time u = ?tp" "?t \<in> set (timeout_list u)" "t_syscall_timeout (threads u ?t) = ?d"
    using w unfolding poll_waits_def d by blast+
  from timeout_each_spec [OF u(1-3), of ?tp] obtain v where v: "timeout_each ?tp (timeout_list u) u = Some v" "sched_wf v"
    "\<And>x. threads v x = (if x \<in> set (timeout_list u) \<and> timeout_due ?tp (t_syscall_timeout (threads u x))
           then (threads u x)\<lparr>t_syscall_is_timeout := True, t_status := THREAD_READY\<rparr> else threads u x)" by blast
  have "syscall_timeout_update u = Some v" using v(1) u(4) by (simp add: syscall_timeout_update_def)
  moreover have "threads v ?t = (if timeout_due ?tp ?d then (threads u ?t)\<lparr>t_syscall_is_timeout := True, t_status := THREAD_READY\<rparr> else threads u ?t)"
    using v(3) [of ?t] u(5,6) by simp
  moreover have "\<not> timeout_due ?tp ?d" if "int n < 4 * timeout \<or> 2000000000 \<le> N"
    using that timeout_due_exact(1) [OF norm assms(1), of n] timeout_due_never [OF norm, of timeout n] unfolding N_def by linarith
  moreover have "timeout_due ?tp ?d" if "int n = 4 * timeout" "N < 2000000000"
    using timeout_due_exact(2) [OF norm assms(1)] that unfolding N_def by (metis nat_int)
  ultimately show "\<exists>v. syscall_timeout_update u = Some v \<and> sched_wf v
      \<and> (int n < 4 * timeout \<or> 2000000000 \<le> N \<longrightarrow> threads v ?t = threads u ?t)
      \<and> (int n = 4 * timeout \<and> N < 2000000000 \<longrightarrow> threads v ?t = (threads u ?t)\<lparr>t_syscall_is_timeout := True, t_status := THREAD_READY\<rparr>)"
    using v(2) by auto
qed

text \<open>Nothing resets the flag that a time-out sets: the result of every later poll of the thread that waits is \<^verbatim>\<open>-1\<close>.\<close>

lemma poll_timeout_sticks:
  assumes "t_syscall_is_timeout (threads s (running s))" and "sys_poll_resume timeout s = Some (s', r)"
  shows "r = -1"
  using assms by (auto simp: sys_poll_resume_def jump_to_kernel_resume_def preempt_count_set_def upd_thread_def Let_def bind_eq_Some_iff
      split: if_splits)

section \<open>Witnesses\<close>

text \<open>Task 0 with one open descriptor, at index 0, on a pipe.\<close>

definition demo_fdstate :: fdstate where
  "demo_fdstate =
     tmstate.extend ((demo_tmstate (demo_timer False \<lparr>tv_sec = 0, tv_nsec = 0\<rparr>))
         \<lparr>threads := (\<lambda>t. (demo_thread t 3 THREAD_RUNNING)\<lparr>t_task := Some 0\<rparr>), tasks_list := [0], bitmap_fds := [1, 0, 0, 0],
          tasks := (\<lambda>_. zero_task\<lparr>k_bitmap_fds := [1, 0, 0, 0]\<rparr>)\<rparr>)
       \<lparr>fdtable = (\<lambda>_. \<lparr>fdt_flags = 0, fdt_file = Some 67\<rparr>), std_files = (\<lambda>_. None), daemon_id_table = (\<lambda>_. 0)\<rparr>"

lemma demo_fdstate_sel:
  "tasks_list demo_fdstate = [0]" "bitmap_fds demo_fdstate = [1, 0, 0, 0]" "running demo_fdstate = 0"
  "tasks demo_fdstate k = zero_task\<lparr>k_bitmap_fds := [1, 0, 0, 0]\<rparr>" "threads demo_fdstate t = (demo_thread t 3 THREAD_RUNNING)\<lparr>t_task := Some 0\<rparr>"
  "fdtable demo_fdstate i = \<lparr>fdt_flags = 0, fdt_file = Some 67\<rparr>" "links demo_fdstate = [(Ready 3, 1), (Ready 3, 2), (Ready 0, 3)]"
  "files demo_fdstate h = Some \<lparr>f_inode = None, f_op = Fifo_ops, f_events = 0, f_flags = 0\<rparr>"
  "sys_time demo_fdstate = \<lparr>tv_sec = 0, tv_nsec = 0\<rparr>" "timeout_list demo_fdstate = []" "threads_list demo_fdstate = [0, 1, 2, 3]"
  by (simp_all add: demo_fdstate_def demo_tmstate_def demo_mqstate_def demo_sstate_def demo_pstate_def demo_state_def demo_kstate_def
      kstate.defs pstate.defs sstate.defs mqstate.defs tmstate.defs)

lemma demo_fdstate_ok: "fd_inv demo_fdstate" "current_task demo_fdstate = Some 0" "0 \<in> set (tasks_list demo_fdstate)"
  "0 \<in> dom (open_map 0 demo_fdstate)"
proof -
  have "bm_bit [1, 0, 0, 0] 0" by code_simp
  then show "0 \<in> dom (open_map 0 demo_fdstate)" by (simp add: open_map_def fds_of_def demo_fdstate_sel dom_def)
qed (simp_all add: fd_inv_def fd_words_eq fds_of_def current_task_def demo_fdstate_sel)

theorem fd_calls_refine_witness:
  "(\<exists>s'. sys_close 67 demo_fdstate = Some (s', 0)) \<and> (\<exists>s' r. sys_dup 67 demo_fdstate = Some (s', r) \<and> r \<noteq> - EBADF)"
proof -
  obtain d where d: "open_map 0 demo_fdstate 0 = Some d" using demo_fdstate_ok(4) by auto
  have r: "int (0 + FILE_RESERVED_NUM) = 67" by (simp add: config)
  have "f_op \<lparr>f_inode = None, f_op = Fifo_ops, f_events = 0, f_flags = 0\<rparr> \<in> {Fifo_ops, Null_dev_ops}" by simp
  from fd_calls_refine [OF demo_fdstate_ok(1-3) _ _ demo_fdstate_sel(8) this, of 0 0 "\<lambda>_. null_dev_ops" 0 67, unfolded r] demo_fdstate_ok(4) d
  have "\<exists>s'. sys_close 67 demo_fdstate = Some (s', 0)"
    "\<exists>s' r. sys_dup 67 demo_fdstate = Some (s', r) \<and> fd_taken 0 d r demo_fdstate s'" by auto
  then show ?thesis by (auto simp: fd_taken_def errno split: if_splits)
qed

text \<open>The state of the witness after twenty ticks, in which thread 1 runs.\<close>

definition demo_poll :: fdstate where
  "demo_poll = demo_fdstate\<lparr>sys_time := (timer_up_count ^^ 20) (sys_time demo_fdstate), timeout_list := [0], running := 1, links := [(Poll, 0)],
     threads := (\<lambda>t. demo_thread t 3 THREAD_WAIT)(1 := demo_thread 1 3 THREAD_RUNNING,
       0 := (demo_thread 0 3 THREAD_WAIT)\<lparr>t_syscall_timeout := time_add (sys_time demo_fdstate) 0 5000000\<rparr>)\<rparr>"

theorem poll_timeout_exact_witness:
  "\<exists>s' fds' v. sys_poll_enter [\<lparr>pfd_fd = 67, pfd_events = 1, pfd_revents = 0\<rparr>] 5 demo_fdstate = Some (s', fds', None)
     \<and> poll_waits 0 (t_syscall_timeout (threads s' 0)) 20 demo_fdstate demo_poll
     \<and> syscall_timeout_update demo_poll = Some v \<and> t_syscall_is_timeout (threads v 0) \<and> \<not> t_syscall_is_timeout (threads demo_poll 0)"
proof -
  let ?fds = "[\<lparr>pfd_fd = 67, pfd_events = 1, pfd_revents = 0\<rparr>]"
  have "\<exists>s' fds'. sys_poll_enter ?fds 5 demo_fdstate = Some (s', fds', None)"
    by (simp add: sys_poll_enter_def poll_file_def config demo_fdstate_sel upd_thread_def Let_def prepare_to_wait_def crit_def node_add_def
        lk_linked_def lid_ok_def set_status_def seq_add_def poll_linked_def preempt_disable_def preempt_enable_def preempt_count_inc_def
        preempt_count_dec_def demo_thread_def)
  then obtain s' fds' where p: "sys_poll_enter ?fds 5 demo_fdstate = Some (s', fds', None)" by blast
  have r: "running demo_fdstate = 0" "(0 :: int) < 5" "time_norm (sys_time demo_fdstate)" "tv_nsec (sys_time demo_fdstate) = 0"
    by (simp_all add: demo_fdstate_sel time_norm_def)
  have "sched_wf demo_poll"
    by (auto simp: demo_poll_def sched_wf_def demo_thread_def lk_wf_def lk_linked_def lst_def config)
  moreover have "t_syscall_timeout (threads s' 0) = time_add (sys_time demo_fdstate) 0 5000000"
    using sys_poll_enter_waits(3) [OF p r(2)] by (simp add: r(1))
  ultimately have w: "poll_waits 0 (t_syscall_timeout (threads s' 0)) 20 demo_fdstate demo_poll"
    by (simp add: poll_waits_def demo_poll_def lk_linked_def)
  have n: "int 20 = 4 * 5" "tv_nsec (sys_time demo_fdstate) + 5 * 1000000 < 2000000000" by (simp_all add: r(4))
  from conjunct2 [OF poll_timeout_exact [OF r(2,3), of ?fds]] p w obtain v where "syscall_timeout_update demo_poll = Some v"
    "threads v 0 = (threads demo_poll 0)\<lparr>t_syscall_is_timeout := True, t_status := THREAD_READY\<rparr>"
    unfolding r(1) using n by blast
  moreover have "\<not> t_syscall_is_timeout (threads demo_poll 0)" by (simp add: demo_poll_def demo_thread_def)
  ultimately show ?thesis using p w by auto
qed

end
