(* ===== verification/Fs.thy ===== *)
theory Fs
  imports Fdesc
begin

text \<open>
  The file system (\<^verbatim>\<open>kernel/fs/fs.c\<close>): inodes, directories, paths, mounting and the current directory. The contents of
  a block that belongs to a directory are the directory entries at their addresses, \<open>dentries\<close>; the blocks of regular
  files are the bytes \<open>blk_mem\<close> (theory \<open>Regfile\<close>). The list of a directory is the sequence of the addresses of its
  entries; \<^const>\<open>None\<close> is a list head that nothing has initialised. Path names are strings, a null path is
  \<^const>\<open>None\<close>. Reading a mounted device is the argument \<open>rd\<close>: the bytes that the read operation of the file
  stores, or \<^const>\<open>None\<close> when it fails and stores nothing.
\<close>

section \<open>State\<close>

definition S_IFCHR :: u8 where [config]: "S_IFCHR = 1"
definition S_IFBLK :: u8 where [config]: "S_IFBLK = 2"
definition S_IFREG :: u8 where [config]: "S_IFREG = 3"
definition S_IFDIR :: u8 where [config]: "S_IFDIR = 4"
definition RDEV_ROOTFS :: nat where [config]: "RDEV_ROOTFS = 0"
definition FILE_MAX :: nat where [config]: "FILE_MAX = 100"
definition MOUNT_MAX :: nat where [config]: "MOUNT_MAX = 5"
definition INODE_MAX :: nat where [config]: "INODE_MAX = 100"
definition FS_BLK_SIZE :: nat where [config]: "FS_BLK_SIZE = 128"
definition FS_BLK_CNT :: nat where [config]: "FS_BLK_CNT = 100"

text \<open>Sizes of the structures on the target.\<close>

definition DENTRY_SIZE :: u32 where [config]: "DENTRY_SIZE = 56"
definition INODE_SIZE :: u32 where [config]: "INODE_SIZE = 48"
definition SUPER_BLK_SIZE :: u32 where [config]: "SUPER_BLK_SIZE = 40"
definition FILE_SIZE :: nat where [config]: "FILE_SIZE = 24"
definition REG_FILE_SIZE :: u32 where [config]: "REG_FILE_SIZE = 28"

record inode =
  i_mode :: u8
  i_rdev :: nat
  i_sync :: bool
  i_ino :: nat
  i_parent :: nat
  i_fd :: nat
  i_size :: u32
  i_blocks :: u32
  i_data :: u32
  i_dentry :: "u32 list option"

record dentry =
  d_name :: string
  d_inode :: nat
  d_parent :: nat

record fsstate = fdstate +
  inodes :: "nat \<Rightarrow> inode"
  dentries :: "u32 \<Rightarrow> dentry option"
  blk_mem :: "u32 \<Rightarrow> u8"
  inodes_addr :: u32
  rootfs_addr :: u32
  bitmap_inodes :: "u32 list"
  bitmap_blks :: "u32 list"
  s_inode_cnt :: u32
  s_blk_cnt :: u32
  mount_dev :: "nat \<Rightarrow> nat option"
  mount_cnt :: nat
  file_cnt :: nat
  file_caches :: "cache_id option"
  reg_pos :: "nat \<Rightarrow> int"
  shell_dir_curr :: nat

definition upd_inode :: "nat \<Rightarrow> (inode \<Rightarrow> inode) \<Rightarrow> 'a fsstate_scheme \<Rightarrow> 'a fsstate_scheme" where
  "upd_inode i f s = s\<lparr>inodes := (inodes s)(i := f (inodes s i))\<rparr>"

section \<open>Allocation\<close>

text \<open>\<^verbatim>\<open>fs_alloc_file\<close> clears the object before anyone has checked that there is one.\<close>

definition fs_alloc_file :: "'a fsstate_scheme \<Rightarrow> 'a fsstate_scheme option" where
  "fs_alloc_file = crit (\<lambda>s. do {
     c \<leftarrow> file_caches s;
     (s1, new_file) \<leftarrow> kmem_cache_alloc c s;
     _ \<leftarrow> new_file;
     Some s1
   })"

definition fs_alloc_inode :: "'a fsstate_scheme \<Rightarrow> ('a fsstate_scheme \<times> nat option) option" where
  "fs_alloc_inode s = do {
     i \<leftarrow> find_first_zero_bit (bitmap_inodes s) INODE_MAX;
     if i < INODE_MAX then do {
       bm \<leftarrow> bitmap_set_bit (bitmap_inodes s) i;
       Some ((upd_inode i (i_ino_update (\<lambda>_. i)) s)\<lparr>s_inode_cnt := s_inode_cnt s + 1, bitmap_inodes := bm\<rparr>, Some i)
     } else Some (s, None)
   }"

definition fs_alloc_block :: "'a fsstate_scheme \<Rightarrow> ('a fsstate_scheme \<times> nat option) option" where
  "fs_alloc_block s = do {
     i \<leftarrow> find_first_zero_bit (bitmap_blks s) FS_BLK_CNT;
     if i < FS_BLK_CNT then do {
       bm \<leftarrow> bitmap_set_bit (bitmap_blks s) i;
       Some (s\<lparr>s_blk_cnt := s_blk_cnt s + 1, bitmap_blks := bm\<rparr>, Some i)
     } else Some (s, None)
   }"

definition block_addr :: "nat \<Rightarrow> 'a fsstate_scheme \<Rightarrow> u32" where
  "block_addr i s = rootfs_addr s + word_of_nat (i * FS_BLK_SIZE)"

definition fs_calculate_dentry_blocks :: "nat \<Rightarrow> nat \<Rightarrow> nat" where
  "fs_calculate_dentry_blocks block_size dentry_cnt =
     (let dentry_per_blk = block_size div unat DENTRY_SIZE;
          blocks = dentry_cnt div dentry_per_blk in
      if dentry_cnt mod dentry_per_blk \<noteq> 0 then blocks + 1 else blocks)"

text \<open>The address of a new entry, or null. The last entry of the list is the member before the head.\<close>

definition fs_allocate_dentry :: "nat \<Rightarrow> 'a fsstate_scheme \<Rightarrow> ('a fsstate_scheme \<times> u32 option) option" where
  "fs_allocate_dentry dir s =
     (let d = inodes s dir;
          dentry_per_blk = FS_BLK_SIZE div unat DENTRY_SIZE;
          dentry_cnt = unat (i_size d) div unat DENTRY_SIZE in
      if dentry_cnt + 1 \<le> unat (i_blocks d) * dentry_per_blk \<and> i_size d \<noteq> 0
      then do {
        l \<leftarrow> i_dentry d;
        if l = [] then None else Some (s, Some (last l + DENTRY_SIZE))
      } else map_option (\<lambda>(s1, r). (s1, map_option (\<lambda>i. block_addr i s1) r)) (fs_alloc_block s))"

text \<open>\<^verbatim>\<open>kfifo_alloc\<close> of \<^verbatim>\<open>kernel/kfifo.c\<close>. The bytes of the new buffer are written before they are read.\<close>

definition kfifo_alloc :: "nat \<Rightarrow> nat \<Rightarrow> 'a sstate_scheme \<Rightarrow> ('a sstate_scheme \<times> kfifo option) option" where
  "kfifo_alloc esize sz s = do {
     (s1, f) \<leftarrow> kmalloc (word_of_nat KFIFO_SIZE) s;
     case f of
       None \<Rightarrow> Some (s1, None)
     | Some _ \<Rightarrow> do {
         let n = kf_payload_size (kfifo_init [] esize sz) * sz;
         (s2, d) \<leftarrow> kmalloc (word_of_nat n) s1;
         Some (s2, map_option (\<lambda>_. kfifo_init (replicate n 0) esize sz) d)
       }
   }"

section \<open>Adding a file\<close>

text \<open>\<^verbatim>\<open>reg_file_init\<close> of \<^verbatim>\<open>kernel/fs/reg_file.c\<close>.\<close>

definition reg_file_init :: "nat \<Rightarrow> 'a fsstate_scheme \<Rightarrow> 'a fsstate_scheme" where
  "reg_file_init i s =
     (let fd = i_fd (inodes s i) in
      (set_file fd \<lparr>f_inode = Some i, f_op = Reg_file_ops, f_events = 0, f_flags = 0\<rparr> s)\<lparr>reg_pos := (reg_pos s)(fd := 0)\<rparr>)"

definition empty_inode :: "u8 \<Rightarrow> inode \<Rightarrow> inode" where
  "empty_inode mode n = n\<lparr>i_mode := mode, i_size := 0, i_blocks := 0, i_data := 0\<rparr>"

text \<open>The file object for a new inode: the result \<^term>\<open>Inl ()\<close> is the jump to \<^verbatim>\<open>failed\<close>, otherwise the number is
  the variable \<^verbatim>\<open>result\<close>.\<close>

definition fs_new_file :: "nat \<Rightarrow> nat \<Rightarrow> u8 \<Rightarrow> 'a fsstate_scheme \<Rightarrow> ('a fsstate_scheme \<times> (unit + int)) option" where
  "fs_new_file fd i file_type s =
     (if file_type = S_IFIFO then do {
        (s1, pipe) \<leftarrow> kmalloc (word_of_nat PIPE_SIZE) s;
        (s2, pipe_fifo) \<leftarrow> kfifo_alloc 1 PIPE_BUF s1;
        case (pipe, pipe_fifo) of
          (Some p, Some f) \<Rightarrow> do {
            (s3, result) \<leftarrow> fifo_init fd (Some i) \<lparr>p_fifo = f, p_r_wait_list = unat (p + 28), p_w_wait_list = unat (p + 36)\<rparr> s2;
            Some (upd_inode i (empty_inode S_IFIFO) s3, Inr result)
          }
        | _ \<Rightarrow> Some (s2, Inl ())
      }
      else if file_type = S_IFCHR \<or> file_type = S_IFBLK then do {
        s1 \<leftarrow> fs_alloc_file s;
        Some (upd_inode i (empty_inode file_type)
                (set_file fd \<lparr>f_inode = Some i, f_op = No_ops, f_events = 0, f_flags = 0\<rparr> s1), Inr 0)
      }
      else if file_type = S_IFREG then do {
        (s1, reg_file) \<leftarrow> kmalloc REG_FILE_SIZE s;
        case reg_file of
          None \<Rightarrow> Some (s1, Inl ())
        | Some _ \<Rightarrow> Some (upd_inode i (empty_inode S_IFREG) (reg_file_init i s1), Inr 0)
      }
      else if file_type = S_IFDIR
      then Some (upd_inode i (\<lambda>n. (empty_inode S_IFDIR n)\<lparr>i_dentry := Some []\<rparr>) s, Inr 0)
      else Some (s, Inr (-1)))"

text \<open>\<^verbatim>\<open>files[fd]->f_events = 0\<close>. A directory has no file object: the store through the null pointer has no defined
  result.\<close>

definition fs_clear_events :: "nat \<Rightarrow> 'a fsstate_scheme \<Rightarrow> 'a fsstate_scheme option" where
  "fs_clear_events fd s = do {
     f \<leftarrow> files s fd;
     Some (set_file fd (f\<lparr>f_events := 0\<rparr>) s)
   }"

text \<open>Linking an entry into a directory and the new size of the directory.\<close>

definition fs_link_dentry :: "nat \<Rightarrow> u32 \<Rightarrow> 'a fsstate_scheme \<Rightarrow> 'a fsstate_scheme option" where
  "fs_link_dentry dir a s = do {
     l \<leftarrow> i_dentry (inodes s dir);
     l' \<leftarrow> seq_add a l;
     let sz = i_size (inodes s dir) + DENTRY_SIZE;
     Some (upd_inode dir (\<lambda>d. d\<lparr>i_dentry := Some l', i_size := sz,
             i_blocks := word_of_nat (fs_calculate_dentry_blocks FS_BLK_SIZE (unat sz div unat DENTRY_SIZE))\<rparr>) s)
   }"

definition fs_add_file :: "nat \<Rightarrow> string \<Rightarrow> u8 \<Rightarrow> 'a fsstate_scheme \<Rightarrow> ('a fsstate_scheme \<times> nat option) option" where
  "fs_add_file dir file_name file_type s =
     (if unat (s_inode_cnt s) \<ge> INODE_MAX then Some (s, None)
      else if file_cnt s \<ge> FILE_MAX then Some (s, None)
      else do {
        let fd = file_cnt s + FILE_RESERVED_NUM;
        (s1, r) \<leftarrow> fs_alloc_inode s;
        i \<leftarrow> r;
        let s2 = upd_inode i (\<lambda>n. n\<lparr>i_rdev := RDEV_ROOTFS, i_parent := i_ino (inodes s1 dir), i_fd := fd, i_sync := True\<rparr>) s1;
        (s3, r3) \<leftarrow> fs_allocate_dentry dir s2;
        a \<leftarrow> r3;
        let s4 = s3\<lparr>dentries := (dentries s3)(a \<mapsto> \<lparr>d_name = take (NAME_MAX - 1) file_name, d_inode = i_ino (inodes s3 i),
                                                  d_parent = i_ino (inodes s3 dir)\<rparr>)\<rparr>;
        (s5, res) \<leftarrow> fs_new_file fd i file_type s4;
        case res of
          Inl _ \<Rightarrow> Some (s5, None)
        | Inr result \<Rightarrow> do {
            s6 \<leftarrow> fs_clear_events fd s5;
            if result \<noteq> 0 then Some (s6, None)
            else do {
              let s7 = s6\<lparr>file_cnt := file_cnt s6 + 1\<rparr>;
              let s8 = (if i_dentry (inodes s7 dir) = Some [] then upd_inode dir (i_data_update (\<lambda>_. a)) s7 else s7);
              s9 \<leftarrow> fs_link_dentry dir a s8;
              Some (s9, Some i)
            }
          }
      })"

section \<open>Mounting\<close>

type_synonym dev_reader = "nat \<Rightarrow> u32 \<Rightarrow> nat \<Rightarrow> u8 list option"

text \<open>The structures as they are laid out on a device.\<close>

definition chars_of :: "u8 list \<Rightarrow> string" where
  "chars_of bs = map (\<lambda>b. char_of (unat b)) (takeWhile (\<lambda>b. b \<noteq> 0) bs)"

definition dentry_name :: "u8 list \<Rightarrow> string" where
  "dentry_name bs = chars_of (take NAME_MAX bs)"

definition dentry_inode :: "u8 list \<Rightarrow> u32" where
  "dentry_inode bs = bytes_word (drop 32 bs)"

definition dentry_next :: "u8 list \<Rightarrow> u32" where
  "dentry_next bs = bytes_word (drop 40 bs)"

definition DENTRY_LIST_OFFSET :: u32 where [config]: "DENTRY_LIST_OFFSET = 40"

definition inode_of_bytes :: "u8 list \<Rightarrow> inode" where
  "inode_of_bytes bs =
     \<lparr>i_mode = bs ! 0, i_rdev = unat (bs ! 1), i_sync = (bs ! 2 \<noteq> 0), i_ino = unat (bytes_word (drop 4 bs)),
      i_parent = unat (bytes_word (drop 8 bs)), i_fd = unat (bytes_word (drop 12 bs)), i_size = bytes_word (drop 16 bs),
      i_blocks = bytes_word (drop 20 bs), i_data = bytes_word (drop 24 bs), i_dentry = None\<rparr>"

text \<open>A read into a variable: when it fails the variable keeps its contents, or stays uninitialised.\<close>

definition dev_load :: "dev_reader \<Rightarrow> nat \<Rightarrow> u32 \<Rightarrow> nat \<Rightarrow> u8 list option \<Rightarrow> u8 list option" where
  "dev_load rd dev addr n var = (case rd dev addr n of Some bs \<Rightarrow> Some bs | None \<Rightarrow> var)"

definition fs_mount_file :: "nat \<Rightarrow> inode \<Rightarrow> string \<Rightarrow> 'a fsstate_scheme \<Rightarrow> 'a fsstate_scheme option" where
  "fs_mount_file dir mnt_inode name s =
     (if unat (s_inode_cnt s) \<ge> INODE_MAX then Some s
      else do {
        let fd = file_cnt s + FILE_RESERVED_NUM;
        (s1, r) \<leftarrow> fs_alloc_inode (s\<lparr>file_cnt := file_cnt s + 1\<rparr>);
        i \<leftarrow> r;
        let s2 = upd_inode i (\<lambda>n. n\<lparr>i_mode := i_mode mnt_inode, i_rdev := i_rdev mnt_inode, i_parent := i_ino (inodes s1 dir),
                   i_fd := fd, i_size := i_size mnt_inode, i_blocks := i_blocks mnt_inode, i_data := i_data mnt_inode,
                   i_sync := False, i_dentry := Some []\<rparr>) s1;
        (s3, r3) \<leftarrow> fs_allocate_dentry dir s2;
        a \<leftarrow> r3;
        fs_link_dentry dir a (s3\<lparr>dentries := (dentries s3)(a \<mapsto> \<lparr>d_name = name, d_inode = i_ino (inodes s3 i),
                                                                d_parent = i_ino (inodes s3 dir)\<rparr>),
                               s_inode_cnt := s_inode_cnt s3 + 1\<rparr>)
      })"

text \<open>The loop over the entries of a directory on the device. It follows the links on the device, which may not
  lead back to the head.\<close>

partial_function (option) mount_loop ::
  "dev_reader \<Rightarrow> nat \<Rightarrow> nat \<Rightarrow> nat \<Rightarrow> u32 \<Rightarrow> u8 list option \<Rightarrow> u8 list option \<Rightarrow> 'a fsstate_scheme \<Rightarrow> 'a fsstate_scheme option" where
  "mount_loop rd dev rdev target dentry_addr dentry inode s =
     dev_load rd dev dentry_addr 56 dentry \<bind> (\<lambda>dentry1.
     dev_load rd dev (SUPER_BLK_SIZE + INODE_SIZE * dentry_inode dentry1) 48 inode \<bind> (\<lambda>inode1.
     fs_mount_file target ((inode_of_bytes inode1)\<lparr>i_rdev := rdev\<rparr>) (dentry_name dentry1) s \<bind>
     (\<lambda>s1. if dentry_next dentry1 < SUPER_BLK_SIZE + INODE_SIZE * word_of_nat INODE_MAX then Some s1
           else mount_loop rd dev rdev target (dentry_next dentry1 - DENTRY_LIST_OFFSET) (Some dentry1) (Some inode1) s1)))"

definition fs_mount_directory :: "dev_reader \<Rightarrow> inode \<Rightarrow> nat \<Rightarrow> 'a fsstate_scheme \<Rightarrow> 'a fsstate_scheme option" where
  "fs_mount_directory rd src target s =
     (if i_size src = 0 then Some s
      else do {
        dev \<leftarrow> mount_dev s (i_rdev src);
        let s1 = (if i_sync (inodes s target) then s else upd_inode target (\<lambda>d. d\<lparr>i_size := 0, i_blocks := 0\<rparr>) s);
        s2 \<leftarrow> mount_loop rd dev (i_rdev src) target (i_data src) None None s1;
        Some (upd_inode target (i_sync_update (\<lambda>_. True)) s2)
      })"

section \<open>Searching\<close>

primrec find_dentry :: "(u32 \<Rightarrow> dentry option) \<Rightarrow> string \<Rightarrow> u32 list \<Rightarrow> nat option option" where
  "find_dentry D name [] = Some None"
| "find_dentry D name (a # as) = do {
     d \<leftarrow> D a;
     if d_name d = name then Some (Some (d_inode d)) else find_dentry D name as
   }"

definition fs_search_file :: "dev_reader \<Rightarrow> nat \<Rightarrow> string \<Rightarrow> 'a fsstate_scheme \<Rightarrow> ('a fsstate_scheme \<times> nat option) option" where
  "fs_search_file rd dir name s =
     (if i_size (inodes s dir) = 0 then Some (s, None)
      else if name = ''.'' then Some (s, Some dir)
      else if name = ''..'' then Some (s, Some (i_parent (inodes s dir)))
      else do {
        s1 \<leftarrow> (if \<not> i_sync (inodes s dir) then fs_mount_directory rd (inodes s dir) dir s else Some s);
        l \<leftarrow> i_dentry (inodes s1 dir);
        r \<leftarrow> find_dentry (dentries s1) name l;
        Some (s1, r)
      })"

definition fs_sync_file :: "nat \<Rightarrow> 'a fsstate_scheme \<Rightarrow> ('a fsstate_scheme \<times> bool) option" where
  "fs_sync_file i s =
     (if i_rdev (inodes s i) = RDEV_ROOTFS then Some (s, False)
      else if i_mode (inodes s i) \<noteq> S_IFREG then Some (s, False)
      else if i_sync (inodes s i) then Some (s, False)
      else if file_cnt s \<ge> FILE_MAX then Some (s, False)
      else do {
        let s1 = (upd_inode i (i_fd_update (\<lambda>_. file_cnt s + FILE_RESERVED_NUM)) s)\<lparr>file_cnt := file_cnt s + 1\<rparr>;
        (s2, reg_file) \<leftarrow> kmalloc REG_FILE_SIZE s1;
        _ \<leftarrow> reg_file;
        Some (upd_inode i (i_sync_update (\<lambda>_. True)) (reg_file_init i s2), True)
      })"

section \<open>Paths\<close>

text \<open>The loop of \<^verbatim>\<open>fs_split_path\<close>: the entry and the rest of the path.\<close>

fun split_loop :: "string \<Rightarrow> string \<Rightarrow> (string \<times> string) option" where
  "split_loop entry [] = None"
| "split_loop entry (c # path) =
     (let entry1 = (if c = CHR ''/'' then entry else entry @ [c]) in
      if c = CHR ''/'' \<or> path = [] then Some (entry1, path) else split_loop entry1 path)"

text \<open>A null path, and the end of the string, are not checked, and neither is the size of the buffer for the entry.\<close>

definition fs_split_path :: "string option \<Rightarrow> (string \<times> string option) option" where
  "fs_split_path path = do {
     p \<leftarrow> path;
     (entry, rest) \<leftarrow> split_loop [] p;
     if length entry \<ge> PATH_MAX then None else Some (entry, if rest = [] then None else Some rest)
   }"

lemma split_loop_less: "split_loop entry p = Some (e, r) \<Longrightarrow> length r < length p"
  by (induction entry p rule: split_loop.induct) (auto simp: Let_def split: if_splits)

lemma fs_split_path_less: "fs_split_path (Some p) = Some (e, Some r) \<Longrightarrow> length r < length p"
  using split_loop_less by (auto simp: fs_split_path_def bind_eq_Some_iff split: if_splits prod.splits)

function create_walk ::
  "dev_reader \<Rightarrow> nat \<Rightarrow> string \<Rightarrow> u8 \<Rightarrow> 'a fsstate_scheme \<Rightarrow> ('a fsstate_scheme \<times> int) option" where
  "create_walk rd dir path file_type s =
     (case fs_split_path (Some path) of
        None \<Rightarrow> None
      | Some (entry, rest) \<Rightarrow>
          if entry = [] then (case rest of None \<Rightarrow> Some (s, -1) | Some p \<Rightarrow> create_walk rd dir p file_type s)
          else (case fs_search_file rd dir entry s of
              None \<Rightarrow> None
            | Some (s1, found) \<Rightarrow>
                (case rest of
                   Some p \<Rightarrow>
                     (case found of
                        Some i \<Rightarrow> create_walk rd i p file_type s1
                      | None \<Rightarrow>
                          (case fs_add_file dir entry S_IFDIR s1 of
                             None \<Rightarrow> None
                           | Some (s2, None) \<Rightarrow> Some (s2, -1)
                           | Some (s2, Some i) \<Rightarrow> create_walk rd i p file_type s2))
                 | None \<Rightarrow>
                     (case found of
                        Some _ \<Rightarrow> Some (s1, -1)
                      | None \<Rightarrow>
                          (case fs_add_file dir (take (NAME_MAX - 1) entry) file_type s1 of
                             None \<Rightarrow> None
                           | Some (s2, None) \<Rightarrow> Some (s2, -1)
                           | Some (s2, Some i) \<Rightarrow> Some (s2, int (i_fd (inodes s2 i))))))))"
  by auto
termination by (relation "measure (\<lambda>(rd, dir, path, ft, s). length path)") (auto dest: fs_split_path_less)

definition fs_create_file :: "dev_reader \<Rightarrow> string \<Rightarrow> u8 \<Rightarrow> 'a fsstate_scheme \<Rightarrow> ('a fsstate_scheme \<times> int) option" where
  "fs_create_file rd pathname file_type s =
     (if pathname = [] \<or> hd pathname \<noteq> CHR ''/'' then Some (s, -1)
      else do {
        (_, path) \<leftarrow> fs_split_path (Some pathname);
        p \<leftarrow> path;
        create_walk rd 0 p file_type s
      })"

function open_walk :: "dev_reader \<Rightarrow> string \<Rightarrow> nat \<Rightarrow> string \<Rightarrow> 'a fsstate_scheme \<Rightarrow> ('a fsstate_scheme \<times> int) option" where
  "open_walk rd pathname dir path s =
     (case fs_split_path (Some path) of
        None \<Rightarrow> None
      | Some (entry, rest) \<Rightarrow>
          if entry = [] then (case rest of None \<Rightarrow> Some (s, -1) | Some p \<Rightarrow> open_walk rd pathname dir p s)
          else (case fs_search_file rd dir entry s of
              None \<Rightarrow> None
            | Some (s1, None) \<Rightarrow> Some (s1, -1)
            | Some (s1, Some i) \<Rightarrow>
                (case rest of
                   Some p \<Rightarrow> if i_mode (inodes s1 i) \<noteq> S_IFDIR then Some (s1, -1) else open_walk rd pathname i p s1
                 | None \<Rightarrow>
                     if last pathname = CHR ''/'' then Some (s1, -1)
                     else (case (if i_rdev (inodes s1 i) \<noteq> RDEV_ROOTFS \<and> \<not> i_sync (inodes s1 i)
                                 then map_option fst (fs_sync_file i s1) else Some s1) of
                         None \<Rightarrow> None
                       | Some s2 \<Rightarrow> Some (s2, if i_mode (inodes s2 i) = S_IFDIR then -1 else int (i_fd (inodes s2 i)))))))"
  by auto
termination by (relation "measure (\<lambda>(rd, pathname, dir, path, s). length path)") (auto dest: fs_split_path_less)

definition fs_open_file :: "dev_reader \<Rightarrow> string \<Rightarrow> 'a fsstate_scheme \<Rightarrow> ('a fsstate_scheme \<times> int) option" where
  "fs_open_file rd pathname s =
     (if pathname = [] \<or> hd pathname \<noteq> CHR ''/'' then Some (s, -1)
      else do {
        (_, path) \<leftarrow> fs_split_path (Some pathname);
        p \<leftarrow> path;
        open_walk rd pathname 0 p s
      })"

declare create_walk.simps [simp del] open_walk.simps [simp del]

section \<open>Directories\<close>

text \<open>The loop of \<^verbatim>\<open>fs_open_directory\<close>: the inode it stops at, or null.\<close>

function dir_walk :: "dev_reader \<Rightarrow> nat \<Rightarrow> string \<Rightarrow> 'a fsstate_scheme \<Rightarrow> ('a fsstate_scheme \<times> nat option) option" where
  "dir_walk rd dir path s =
     (case fs_split_path (Some path) of
        None \<Rightarrow> None
      | Some (entry, rest) \<Rightarrow>
          if entry = [] then (case rest of None \<Rightarrow> Some (s, Some dir) | Some p \<Rightarrow> dir_walk rd dir p s)
          else (case fs_search_file rd dir entry s of
              None \<Rightarrow> None
            | Some (s1, None) \<Rightarrow> Some (s1, None)
            | Some (s1, Some i) \<Rightarrow>
                if i_mode (inodes s1 i) \<noteq> S_IFDIR then Some (s1, None)
                else (case rest of None \<Rightarrow> Some (s1, Some i) | Some p \<Rightarrow> dir_walk rd i p s1)))"
  by auto
termination by (relation "measure (\<lambda>(rd, dir, path, s). length path)") (auto dest: fs_split_path_less)

declare dir_walk.simps [simp del]

definition fs_open_directory :: "dev_reader \<Rightarrow> string \<Rightarrow> 'a fsstate_scheme \<Rightarrow> ('a fsstate_scheme \<times> nat option) option" where
  "fs_open_directory rd pathname s =
     (if pathname = [] \<or> hd pathname \<noteq> CHR ''/'' then Some (s, None)
      else do {
        (_, path) \<leftarrow> fs_split_path (Some pathname);
        case path of
          None \<Rightarrow> Some (s, Some 0)
        | Some p \<Rightarrow> do {
            (s1, r) \<leftarrow> dir_walk rd 0 p s;
            case r of
              None \<Rightarrow> Some (s1, None)
            | Some i \<Rightarrow> do {
                s2 \<leftarrow> (if \<not> i_sync (inodes s1 i) then fs_mount_directory rd (inodes s1 i) i s1 else Some s1);
                Some (s2, Some i)
              }
          }
      })"

text \<open>The number of mounts is not compared with the size of the table. The super block that is read is kept in the
  table of mounts and used by nothing in this theory.\<close>

definition fs_mount :: "dev_reader \<Rightarrow> string \<Rightarrow> string \<Rightarrow> 'a fsstate_scheme \<Rightarrow> ('a fsstate_scheme \<times> int) option" where
  "fs_mount rd source target s = do {
     (s1, source_fd) \<leftarrow> fs_open_file rd source s;
     if source_fd < 0 then Some (s1, -1)
     else do {
       (s2, r) \<leftarrow> fs_open_directory rd target s1;
       case r of
         None \<Rightarrow> Some (s2, -1)
       | Some target_inode \<Rightarrow>
           if mount_cnt s2 > MOUNT_MAX then None
           else do {
             let s3 = s2\<lparr>mount_dev := (mount_dev s2)(mount_cnt s2 := Some (nat source_fd))\<rparr>;
             root \<leftarrow> dev_load rd (nat source_fd) SUPER_BLK_SIZE 48 None;
             s4 \<leftarrow> fs_mount_directory rd ((inode_of_bytes root)\<lparr>i_rdev := mount_cnt s3\<rparr>) target_inode s3;
             Some (s4\<lparr>mount_cnt := mount_cnt s4 + 1\<rparr>, 0)
           }
     }
   }"

primrec dentry_of :: "(u32 \<Rightarrow> dentry option) \<Rightarrow> nat \<Rightarrow> u32 list \<Rightarrow> string option option" where
  "dentry_of D i [] = Some None"
| "dentry_of D i (a # as) = do {
     d \<leftarrow> D a;
     if d_inode d = i then Some (Some (d_name d)) else dentry_of D i as
   }"

text \<open>The loop of \<^verbatim>\<open>fs_getcwd\<close> up to the root; it does not end when the parents of the directory form a cycle.\<close>

partial_function (option) cwd_loop :: "nat \<Rightarrow> string \<Rightarrow> 'a fsstate_scheme \<Rightarrow> string option" where
  "cwd_loop i new_path s =
     (if i_ino (inodes s i) = 0 then Some new_path
      else i_dentry (inodes s (i_parent (inodes s i))) \<bind> (\<lambda>l.
        if l = [] then Some new_path
        else dentry_of (dentries s) (i_ino (inodes s i)) l \<bind> (\<lambda>r.
          cwd_loop (i_parent (inodes s i))
            (case r of None \<Rightarrow> new_path | Some name \<Rightarrow> snprintf_text PATH_MAX (name @ ''/'' @ new_path)) s)))"

definition fs_getcwd :: "nat \<Rightarrow> 'a fsstate_scheme \<Rightarrow> string option" where
  "fs_getcwd len s = map_option (\<lambda>p. snprintf_text len (CHR ''/'' # p)) (cwd_loop (shell_dir_curr s) [] s)"

text \<open>\<^verbatim>\<open>snprintf\<close> to the end of the string in the buffer \<open>path_tmp\<close>, with the size of the whole buffer as its limit.\<close>

definition path_append :: "string \<Rightarrow> string \<Rightarrow> string option" where
  "path_append path_tmp x =
     (if length path_tmp + length (snprintf_text PATH_MAX x) \<ge> PATH_MAX then None
      else Some (path_tmp @ snprintf_text PATH_MAX x))"

definition fs_chdir :: "dev_reader \<Rightarrow> string \<Rightarrow> 'a fsstate_scheme \<Rightarrow> ('a fsstate_scheme \<times> int) option" where
  "fs_chdir rd path s = do {
     path_tmp \<leftarrow>
       (if path = ''..'' then fs_getcwd PATH_MAX s \<bind> (\<lambda>p. path_append p ''..'')
        else if path \<noteq> [] \<and> hd path = CHR ''/'' then Some (take (PATH_MAX - 1) path)
        else fs_getcwd PATH_MAX s \<bind> (\<lambda>p. path_append p path));
     (s1, r) \<leftarrow> fs_open_directory rd path_tmp s;
     case r of
       None \<Rightarrow> Some (s1, - ENOENT)
     | Some i \<Rightarrow>
         if i_mode (inodes s1 i) \<noteq> S_IFDIR then Some (s1, - ENOTDIR)
         else Some (s1\<lparr>shell_dir_curr := i\<rparr>, 0)
   }"

text \<open>A directory stream: the inode, and the position in its list, with \<^const>\<open>None\<close> for the head.\<close>

record dirstream =
  dir_inode :: nat
  dir_pos :: "u32 option"

record dirent =
  de_name :: string
  de_ino :: nat
  de_type :: u8

definition next_in :: "u32 list \<Rightarrow> u32 \<Rightarrow> u32 option" where
  "next_in l a = (case dropWhile (\<lambda>x. x \<noteq> a) l of _ # b # _ \<Rightarrow> Some b | _ \<Rightarrow> None)"

definition fs_read_dir :: "dirstream \<Rightarrow> 'a fsstate_scheme \<Rightarrow> (dirstream \<times> dirent option \<times> int) option" where
  "fs_read_dir dirp s =
     (case dir_pos dirp of
        None \<Rightarrow> Some (dirp, None, -1)
      | Some a \<Rightarrow> do {
          d \<leftarrow> dentries s a;
          l \<leftarrow> i_dentry (inodes s (dir_inode dirp));
          Some (dirp\<lparr>dir_pos := next_in l a\<rparr>,
                Some \<lparr>de_name = take NAME_MAX (d_name d), de_ino = d_inode d, de_type = i_mode (inodes s (d_inode d))\<rparr>, 0)
        })"

definition sys_readdir :: "dirstream \<Rightarrow> 'a fsstate_scheme \<Rightarrow> ('a fsstate_scheme \<times> dirstream \<times> dirent option \<times> int) option" where
  "sys_readdir dirp = critr (\<lambda>s. map_option (\<lambda>r. (s, r)) (fs_read_dir dirp s))"

text \<open>The end of \<^verbatim>\<open>sys_opendir\<close>, with the reply of the daemon; the first entry is read before the reply is tested. For a
  null inode that read goes to the offset of the list.\<close>

definition opendir_finish :: "nat option \<Rightarrow> 'a fsstate_scheme \<Rightarrow> (dirstream option \<times> int) option" where
  "opendir_finish r s =
     (case r of
        None \<Rightarrow> Some (None, - ENOENT)
      | Some i \<Rightarrow> map_option (\<lambda>l. (Some \<lparr>dir_inode = i, dir_pos = (if l = [] then None else Some (hd l))\<rparr>, 0)) (i_dentry (inodes s i)))"

text \<open>\<^verbatim>\<open>sys_opendir\<close> up to its wait and after it. The reply is a pointer into the table of inodes.\<close>

definition inode_of_ptr :: "u32 \<Rightarrow> 'a fsstate_scheme \<Rightarrow> nat option" where
  "inode_of_ptr p s = (if p = 0 then None else Some (unat ((p - inodes_addr s) div INODE_SIZE)))"

definition opendir_round ::
  "u8 list \<Rightarrow> 'a fsstate_scheme \<Rightarrow> ('a fsstate_scheme \<times> u8 list \<times> (dirstream option \<times> int) option) option" where
  "opendir_round inode_dir s = do {
     (s1, var, r) \<leftarrow> reply_round inode_dir s;
     case r of
       None \<Rightarrow> Some (s1, var, None)
     | Some p \<Rightarrow> map_option (\<lambda>d. (s1, var, Some d)) (opendir_finish (inode_of_ptr p s1) s1)
   }"

definition sys_opendir_enter ::
  "string \<Rightarrow> u32 \<Rightarrow> u8 list \<Rightarrow> 'a fsstate_scheme \<Rightarrow> ('a fsstate_scheme \<times> u8 list \<times> (dirstream option \<times> int) option) option" where
  "sys_opendir_enter pathname path inode_dir s =
     (if length pathname \<ge> PATH_MAX then Some (s, inode_dir, Some (None, - ENAMETOOLONG))
      else request_open_directory (t_tid (threads s (running s))) path s \<bind> opendir_round inode_dir)"

definition sys_opendir_resume ::
  "u8 list \<Rightarrow> 'a fsstate_scheme \<Rightarrow> ('a fsstate_scheme \<times> u8 list \<times> (dirstream option \<times> int) option) option" where
  "sys_opendir_resume inode_dir s = opendir_round inode_dir (jump_to_kernel_resume s)"

record stat =
  st_mode :: u8
  st_ino :: nat
  st_rdev :: nat
  st_size :: u32
  st_blocks :: u32

definition sys_fstat :: "int \<Rightarrow> stat \<Rightarrow> 'a fsstate_scheme \<Rightarrow> ('a fsstate_scheme \<times> stat \<times> int) option" where
  "sys_fstat fd statbuf = critr (\<lambda>s.
     if fd < int FILE_RESERVED_NUM then Some (s, statbuf, - EBADF)
     else do {
       let i = nat fd - FILE_RESERVED_NUM;
       v \<leftarrow> fd_valid i s;
       if \<not> v then Some (s, statbuf, - EBADF)
       else do {
         h \<leftarrow> fdt_file (fdtable s i);
         filp \<leftarrow> files s h;
         case f_inode filp of
           None \<Rightarrow> Some (s, statbuf, 0)
         | Some n \<Rightarrow> Some (s, \<lparr>st_mode = i_mode (inodes s n), st_ino = i_ino (inodes s n), st_rdev = i_rdev (inodes s n),
                               st_size = i_size (inodes s n), st_blocks = i_blocks (inodes s n)\<rparr>, 0)
       }
     })"

section \<open>Initialisation and devices\<close>

definition rootfs_init :: "'a fsstate_scheme \<Rightarrow> 'a fsstate_scheme option" where
  "rootfs_init s = do {
     (s1, c) \<leftarrow> kmem_cache_create ''file_cache'' FILE_SIZE s;
     (s2, r) \<leftarrow> fs_alloc_inode (s1\<lparr>file_caches := c, s_inode_cnt := 0, s_blk_cnt := 0\<rparr>);
     i \<leftarrow> r;
     let s3 = upd_inode i (\<lambda>n. n\<lparr>i_mode := S_IFDIR, i_rdev := RDEV_ROOTFS, i_sync := True, i_size := 0, i_blocks := 0,
                i_data := 0, i_dentry := Some []\<rparr>) s2;
     s4 \<leftarrow> fs_alloc_file (s3\<lparr>shell_dir_curr := i\<rparr>);
     let fd = file_cnt s4 + FILE_RESERVED_NUM;
     Some ((set_file fd \<lparr>f_inode = None, f_op = Rootfs_ops, f_events = 0, f_flags = 0\<rparr> s4)
             \<lparr>file_cnt := file_cnt s4 + 1, mount_dev := (mount_dev s4)(RDEV_ROOTFS := Some fd), mount_cnt := 1\<rparr>)
   }"

text \<open>The path is written to a buffer of 100 characters, with \<^const>\<open>PATH_MAX\<close> as the limit. The number that
  \<^verbatim>\<open>fs_create_file\<close> returns is used as an index without a check.\<close>

definition register_dev :: "dev_reader \<Rightarrow> u8 \<Rightarrow> string \<Rightarrow> fops \<Rightarrow> 'a fsstate_scheme \<Rightarrow> ('a fsstate_scheme \<times> int) option" where
  "register_dev rd mode name fops s = do {
     let dev_path = take (PATH_MAX - 1) (''/dev/'' @ name);
     (s1, fd) \<leftarrow> (if length dev_path \<ge> 100 then None else fs_create_file rd dev_path mode s);
     f \<leftarrow> (if fd < 0 then None else files s1 (nat fd));
     Some (set_file (nat fd) (f\<lparr>f_op := fops\<rparr>) s1, 0)
   }"

definition register_chrdev :: "dev_reader \<Rightarrow> string \<Rightarrow> fops \<Rightarrow> 'a fsstate_scheme \<Rightarrow> ('a fsstate_scheme \<times> int) option" where
  "register_chrdev rd name fops s = register_dev rd S_IFCHR name fops s"

definition register_blkdev :: "dev_reader \<Rightarrow> string \<Rightarrow> fops \<Rightarrow> 'a fsstate_scheme \<Rightarrow> ('a fsstate_scheme \<times> int) option" where
  "register_blkdev rd name fops s = register_dev rd S_IFBLK name fops s"

text \<open>\<^verbatim>\<open>link_stdin_dev\<close>, \<^verbatim>\<open>link_stdout_dev\<close> and \<^verbatim>\<open>link_stderr_dev\<close>; without the device the system halts.\<close>

definition link_std_dev :: "dev_reader \<Rightarrow> nat \<Rightarrow> string \<Rightarrow> 'a fsstate_scheme \<Rightarrow> 'a fsstate_scheme option" where
  "link_std_dev rd n path s = do {
     (s1, fd) \<leftarrow> fs_open_file rd path s;
     if fd < 0 then None else Some (s1\<lparr>std_files := (std_files s1)(n := Some (nat fd))\<rparr>)
   }"

text \<open>\<^verbatim>\<open>rom_dev_read\<close>: the bytes from an offset of the image.\<close>

definition rom_dev_read :: "u8 list \<Rightarrow> nat \<Rightarrow> nat \<Rightarrow> u8 list option" where
  "rom_dev_read rom sz offset = (if offset + sz > length rom then None else Some (take sz (drop offset rom)))"

section \<open>The daemon\<close>

text \<open>One request of \<^verbatim>\<open>filesysd\<close> and its reply: the words after the header of the message are the arguments, and
  \<open>str\<close> gives the string that an address of user memory points to. A command the daemon does not know has no reply.\<close>

datatype fsd_reply = Reply_Int int | Reply_Inode "nat option" | Reply_Path string

definition filesysd_serve ::
  "dev_reader \<Rightarrow> (u32 \<Rightarrow> string) \<Rightarrow> u32 \<Rightarrow> u8 list \<Rightarrow> 'a fsstate_scheme \<Rightarrow> ('a fsstate_scheme \<times> fsd_reply option) option" where
  "filesysd_serve rd str cmd args s =
     (let a = str (bytes_word args);
          int_reply = map_option (\<lambda>(s1, r). (s1, Some (Reply_Int r))) in
      if cmd = FS_CREATE_FILE then int_reply (fs_create_file rd a (args ! 4) s)
      else if cmd = FS_OPEN_FILE then int_reply (fs_open_file rd a s)
      else if cmd = FS_OPEN_DIR then map_option (\<lambda>(s1, r). (s1, Some (Reply_Inode r))) (fs_open_directory rd a s)
      else if cmd = FS_MOUNT then int_reply (fs_mount rd a (str (bytes_word (drop 4 args))) s)
      else if cmd = FS_GET_CWD then map_option (\<lambda>p. (s, Some (Reply_Path p))) (fs_getcwd (unat (bytes_word (drop 4 args))) s)
      else if cmd = FS_CHANGE_DIR then int_reply (fs_chdir rd a s)
      else Some (s, None))"

section \<open>Path names\<close>

text \<open>The entry up to the first slash and what is behind it.\<close>

definition path_head :: "string \<Rightarrow> string" where
  "path_head p = takeWhile (\<lambda>c. c \<noteq> CHR ''/'') p"

definition path_rest :: "string \<Rightarrow> string" where
  "path_rest p = tl (dropWhile (\<lambda>c. c \<noteq> CHR ''/'') p)"

lemma split_loop_eq: "p \<noteq> [] \<Longrightarrow> split_loop acc p = Some (acc @ path_head p, path_rest p)"
proof (induction acc p rule: split_loop.induct)
  case (2 entry c path)
  show ?case
  proof (cases "c = CHR ''/'' \<or> path = []")
    case True
    then show ?thesis by (auto simp: path_head_def path_rest_def Let_def)
  next
    case False
    with 2 show ?thesis by (simp add: path_head_def path_rest_def Let_def)
  qed
qed simp

lemma fs_split_path_eq:
  assumes "p \<noteq> []" "length (path_head p) < PATH_MAX"
  shows "fs_split_path (Some p) = Some (path_head p, if path_rest p = [] then None else Some (path_rest p))"
  using assms by (simp add: fs_split_path_def split_loop_eq)

lemma path_rest_less: "p \<noteq> [] \<Longrightarrow> length (path_rest p) < length p"
  using length_dropWhile_le [of "\<lambda>c. c \<noteq> CHR ''/''" p] by (cases p) (auto simp: path_rest_def)

text \<open>The components of a path: the maximal runs without a slash.\<close>

function path_names :: "string \<Rightarrow> string list" where
  "path_names p = (if p = [] then []
     else if path_head p = [] then path_names (path_rest p) else path_head p # path_names (path_rest p))"
  by auto
termination by (relation "measure length") (auto simp: path_rest_less)

declare path_names.simps [simp del]

lemma path_names_Nil [simp]: "path_names [] = []"
  by (simp add: path_names.simps)

text \<open>Resolving a list of components from a directory.\<close>

primrec resolve :: "dev_reader \<Rightarrow> string list \<Rightarrow> nat \<Rightarrow> 'a fsstate_scheme \<Rightarrow> ('a fsstate_scheme \<times> nat option) option" where
  "resolve rd [] dir s = Some (s, Some dir)"
| "resolve rd (n # ns) dir s = do {
     (s1, r) \<leftarrow> fs_search_file rd dir n s;
     case r of
       None \<Rightarrow> Some (s1, None)
     | Some i \<Rightarrow> if i_mode (inodes s1 i) \<noteq> S_IFDIR then Some (s1, None) else resolve rd ns i s1
   }"

text \<open>The names fit the buffer for the entry.\<close>

definition short_names :: "string \<Rightarrow> bool" where
  "short_names p \<longleftrightarrow> (\<forall>n \<in> set (path_names p). length n < PATH_MAX)"

lemma short_names_split:
  assumes "p \<noteq> []" "short_names p"
  shows "fs_split_path (Some p) = Some (path_head p, if path_rest p = [] then None else Some (path_rest p))"
    "short_names (path_rest p)"
proof -
  have "length (path_head p) < PATH_MAX"
    using assms by (cases "path_head p = []") (auto simp: short_names_def path_names.simps [of p] config)
  with assms show "fs_split_path (Some p) = Some (path_head p, if path_rest p = [] then None else Some (path_rest p))"
    by (simp add: fs_split_path_eq)
  show "short_names (path_rest p)"
    using assms by (auto simp: short_names_def path_names.simps [of p] split: if_splits)
qed

lemma dir_walk_resolve: "p \<noteq> [] \<Longrightarrow> short_names p \<Longrightarrow> dir_walk rd dir p s = resolve rd (path_names p) dir s"
proof (induction rd dir p s rule: dir_walk.induct)
  case (1 rd dir p s)
  note sp = short_names_split(1) [OF 1(3,4)] and sn = short_names_split(2) [OF 1(3,4)]
  let ?r = "path_rest p"
  show ?case
  proof (cases "path_head p = []")
    case True
    then show ?thesis using 1(1) [OF sp refl True] 1(3) sp sn
      by (cases "?r = []") (simp_all add: dir_walk.simps [of rd dir p] path_names.simps [of p])
  next
    case False
    then have n: "path_names p = path_head p # path_names ?r" using 1(3) by (simp add: path_names.simps [of p])
    show ?thesis
    proof (cases "?r = []")
      case True
      then show ?thesis using sp False
        by (simp add: dir_walk.simps [of rd dir p] n split: option.split prod.split)
    next
      case nr: False
      have "dir_walk rd i ?r s1 = resolve rd (path_names ?r) i s1"
        if "fs_search_file rd dir (path_head p) s = Some (s1, Some i)" "i_mode (inodes s1 i) = S_IFDIR" for s1 i
        using 1(2) [OF sp refl False that(1) refl refl] that(2) nr sn by simp
      then show ?thesis using sp False nr
        by (auto simp: dir_walk.simps [of rd dir p] n split: option.split prod.split)
    qed
  qed
qed

end
