(* ===== verification/Fstree.thy ===== *)
theory Fstree
  imports Fs
begin

text \<open>
  The directories of the root file system as a tree of names. The invariant \<open>fs_wf\<close> holds for states in which nothing
  has been mounted: every directory keeps its entries in blocks of its own, two in a block, one behind the other.
  The abstract view of a directory is the map \<open>entries\<close> from names to inodes; a file that is added extends it by one
  name and changes nothing else, so that a path that has been created leads to the new file and every path that led to
  a file before still leads there.
\<close>

section \<open>Paths without a slash at the end\<close>

primrec create_names ::
  "dev_reader \<Rightarrow> u8 \<Rightarrow> string list \<Rightarrow> nat \<Rightarrow> 'a fsstate_scheme \<Rightarrow> ('a fsstate_scheme \<times> int) option" where
  "create_names rd file_type [] dir s = Some (s, -1)"
| "create_names rd file_type (n # ns) dir s = do {
     (s1, found) \<leftarrow> fs_search_file rd dir n s;
     case found of
       Some i \<Rightarrow> if ns = [] then Some (s1, -1) else create_names rd file_type ns i s1
     | None \<Rightarrow> do {
         (s2, r) \<leftarrow> fs_add_file dir (if ns = [] then take (NAME_MAX - 1) n else n) (if ns = [] then file_type else S_IFDIR) s1;
         case r of
           None \<Rightarrow> Some (s2, -1)
         | Some i \<Rightarrow> if ns = [] then Some (s2, int (i_fd (inodes s2 i))) else create_names rd file_type ns i s2
       }
   }"

primrec open_names :: "dev_reader \<Rightarrow> string list \<Rightarrow> nat \<Rightarrow> 'a fsstate_scheme \<Rightarrow> ('a fsstate_scheme \<times> int) option" where
  "open_names rd [] dir s = Some (s, -1)"
| "open_names rd (n # ns) dir s = do {
     (s1, found) \<leftarrow> fs_search_file rd dir n s;
     case found of
       None \<Rightarrow> Some (s1, -1)
     | Some i \<Rightarrow>
         if ns \<noteq> [] then (if i_mode (inodes s1 i) \<noteq> S_IFDIR then Some (s1, -1) else open_names rd ns i s1)
         else do {
           s2 \<leftarrow> (if i_rdev (inodes s1 i) \<noteq> RDEV_ROOTFS \<and> \<not> i_sync (inodes s1 i)
                  then map_option fst (fs_sync_file i s1) else Some s1);
           Some (s2, if i_mode (inodes s2 i) = S_IFDIR then -1 else int (i_fd (inodes s2 i)))
         }
   }"

definition clean_path :: "string \<Rightarrow> bool" where
  "clean_path p \<longleftrightarrow> p \<noteq> [] \<and> last p \<noteq> CHR ''/'' \<and> short_names p"

lemma path_rest_last: "path_rest p \<noteq> [] \<Longrightarrow> last (path_rest p) = last p"
proof -
  assume r: "path_rest p \<noteq> []"
  have "p = path_head p @ dropWhile (\<lambda>c. c \<noteq> CHR ''/'') p" by (simp add: path_head_def)
  moreover have "dropWhile (\<lambda>c. c \<noteq> CHR ''/'') p = hd (dropWhile (\<lambda>c. c \<noteq> CHR ''/'') p) # path_rest p"
    using r by (cases "dropWhile (\<lambda>c. c \<noteq> CHR ''/'') p") (auto simp: path_rest_def)
  ultimately have "p = (path_head p @ [hd (dropWhile (\<lambda>c. c \<noteq> CHR ''/'') p)]) @ path_rest p" by simp
  with r show ?thesis by (metis last_append)
qed

lemma path_head_Nil: "p \<noteq> [] \<Longrightarrow> path_head p = [] \<Longrightarrow> path_rest p = [] \<Longrightarrow> last p = CHR ''/''"
  by (cases p) (auto simp: path_head_def path_rest_def split: if_splits)

lemma clean_path_rest: "clean_path p \<Longrightarrow> path_rest p \<noteq> [] \<Longrightarrow> clean_path (path_rest p)"
  using short_names_split(2) path_rest_last by (simp add: clean_path_def)

lemma clean_path_names: "clean_path p \<Longrightarrow> path_names p \<noteq> []"
proof (induction p rule: path_names.induct)
  case (1 p)
  then have p: "p \<noteq> []" "last p \<noteq> CHR ''/''" by (auto simp: clean_path_def)
  show ?case
  proof (cases "path_head p = []")
    case True
    then have "path_rest p \<noteq> []" using p path_head_Nil by blast
    with 1(1) [OF p(1) True] clean_path_rest [OF 1(3)] True p(1) show ?thesis by (simp add: path_names.simps [of p])
  qed (use p(1) in \<open>simp add: path_names.simps [of p]\<close>)
qed

lemma path_names_rest_Nil: "clean_path p \<Longrightarrow> path_names (path_rest p) = [] \<longleftrightarrow> path_rest p = []"
  using clean_path_rest clean_path_names by fastforce

lemma create_walk_names: "clean_path p \<Longrightarrow> create_walk rd dir p ft s = create_names rd ft (path_names p) dir s"
proof (induction rd dir p ft s rule: create_walk.induct)
  case (1 rd dir p ft s)
  have p: "p \<noteq> []" "short_names p" using 1(4) by (auto simp: clean_path_def)
  note sp = short_names_split(1) [OF p] and rn = path_names_rest_Nil [OF 1(4)]
  let ?r = "path_rest p"
  show ?case
  proof (cases "path_head p = []")
    case True
    then have nr: "?r \<noteq> []" using p path_head_Nil 1(4) by (auto simp: clean_path_def)
    then show ?thesis using 1(1) [OF sp refl True] clean_path_rest [OF 1(4)] True sp p
      by (simp add: create_walk.simps [of rd dir p] path_names.simps [of p])
  next
    case False
    then have n: "path_names p = path_head p # path_names ?r" using p by (simp add: path_names.simps [of p])
    show ?thesis
    proof (cases "?r = []")
      case True
      then show ?thesis using sp False by (auto simp: create_walk.simps [of rd dir p] n split: option.split prod.split)
    next
      case nr: False
      have a: "create_walk rd i ?r ft s1 = create_names rd ft (path_names ?r) i s1"
        if "fs_search_file rd dir (path_head p) s = Some (s1, Some i)" for s1 i
        using 1(3) [OF sp refl False that refl] nr clean_path_rest [OF 1(4)] by simp
      have b: "create_walk rd i ?r ft s2 = create_names rd ft (path_names ?r) i s2"
        if "fs_search_file rd dir (path_head p) s = Some (s1, None)" "fs_add_file dir (path_head p) S_IFDIR s1 = Some (s2, Some i)" for s1 s2 i
        using 1(2) [OF sp refl False that(1) refl _ refl that(2) refl refl] nr clean_path_rest [OF 1(4)] by simp
      show ?thesis using sp False nr a b rn
        by (auto simp: create_walk.simps [of rd dir p] n split: option.split prod.split)
    qed
  qed
qed

lemma open_walk_names:
  "clean_path p \<Longrightarrow> last pathname \<noteq> CHR ''/'' \<Longrightarrow> open_walk rd pathname dir p s = open_names rd (path_names p) dir s"
proof (induction rd pathname dir p s rule: open_walk.induct)
  case (1 rd pathname dir p s)
  have p: "p \<noteq> []" "short_names p" using 1(3) by (auto simp: clean_path_def)
  note sp = short_names_split(1) [OF p] and rn = path_names_rest_Nil [OF 1(3)]
  let ?r = "path_rest p"
  show ?case
  proof (cases "path_head p = []")
    case True
    then have nr: "?r \<noteq> []" using p path_head_Nil 1(3) by (auto simp: clean_path_def)
    then show ?thesis using 1(1) [OF sp refl True] clean_path_rest [OF 1(3)] 1(4) True sp p
      by (simp add: open_walk.simps [of rd pathname dir p] path_names.simps [of p])
  next
    case False
    then have n: "path_names p = path_head p # path_names ?r" using p by (simp add: path_names.simps [of p])
    show ?thesis
    proof (cases "?r = []")
      case True
      then show ?thesis using sp False 1(4) by (auto simp: open_walk.simps [of rd pathname dir p] n split: option.split prod.split)
    next
      case nr: False
      have a: "open_walk rd pathname i ?r s1 = open_names rd (path_names ?r) i s1"
        if "fs_search_file rd dir (path_head p) s = Some (s1, Some i)" "i_mode (inodes s1 i) = S_IFDIR" for s1 i
        using 1(2) [OF sp refl False that(1) refl refl] that(2) nr clean_path_rest [OF 1(3)] 1(4) by simp
      show ?thesis using sp False nr a rn
        by (auto simp: open_walk.simps [of rd pathname dir p] n split: option.split prod.split)
    qed
  qed
qed

section \<open>What allocation leaves alone\<close>

definition same_fs :: "'a fsstate_scheme \<Rightarrow> 'a fsstate_scheme \<Rightarrow> bool" where
  "same_fs s s' \<longleftrightarrow> inodes s' = inodes s \<and> dentries s' = dentries s \<and> rootfs_addr s' = rootfs_addr s
     \<and> bitmap_inodes s' = bitmap_inodes s \<and> bitmap_blks s' = bitmap_blks s"

lemma same_fs_refl [simp]: "same_fs s s"
  by (simp add: same_fs_def)

lemma same_fs_trans: "same_fs s s1 \<Longrightarrow> same_fs s1 s2 \<Longrightarrow> same_fs s s2"
  by (simp add: same_fs_def)

lemma preempt_fs [simp]: "same_fs s (preempt_enable t) = same_fs s t" "same_fs (preempt_disable s) t = same_fs s t"
  by (simp_all add: same_fs_def preempt_disable_def preempt_enable_def preempt_count_inc_def preempt_count_dec_def Let_def)

lemma slab_move_fs: "slab_move a c k s = Some s' \<Longrightarrow> same_fs s s'"
  by (auto simp: slab_move_def same_fs_def split: if_splits)

lemma kmem_cache_grow_fs:
  assumes "kmem_cache_grow c s = Some (s', r)"
  shows "same_fs s s'"
proof -
  obtain k pb page where k: "kcaches s c = Some k" "alloc_pages (page_start s) (pages s) (c_page_order k) = Some (pb, page)"
    using assms by (auto simp: kmem_cache_grow_def bind_eq_Some_iff)
  then show ?thesis using assms
    by (cases page) (auto simp: kmem_cache_grow_def same_fs_def split: if_splits)
qed

lemma kmem_cache_pick_fs:
  assumes "kmem_cache_pick c s = Some (s', r)"
  shows "same_fs s s'"
proof (cases "lst (slab_links s) (c, Slabs_partial)")
  case Nil
  then obtain s1 q where a: "(case lst (slab_links s) (c, Slabs_free) of [] \<Rightarrow> kmem_cache_grow c s | a # _ \<Rightarrow> Some (s, Some a)) = Some (s1, q)"
    and b: "(case q of None \<Rightarrow> Some (s1, None) | Some slab \<Rightarrow> map_option (\<lambda>s2. (s2, Some slab)) (slab_move slab c Slabs_partial s1)) = Some (s', r)"
    using assms by (auto simp: kmem_cache_pick_def bind_eq_Some_iff)
  from a have "same_fs s s1" by (cases "lst (slab_links s) (c, Slabs_free)") (auto dest: kmem_cache_grow_fs)
  moreover from b have "same_fs s1 s'" by (cases q) (auto dest: slab_move_fs)
  ultimately show ?thesis by (rule same_fs_trans)
qed (use assms in \<open>simp add: kmem_cache_pick_def\<close>)

lemma kmem_cache_take_fs: "kmem_cache_take c a s = Some (s', r) \<Longrightarrow> same_fs s s'"
  by (auto simp: kmem_cache_take_def bind_eq_Some_iff Let_def same_fs_def dest!: slab_move_fs split: if_splits)

lemma kmem_cache_alloc_fs: "kmem_cache_alloc c s = Some (s', r) \<Longrightarrow> same_fs s s'"
  by (auto simp: kmem_cache_alloc_def bind_eq_Some_iff same_fs_def dest!: kmem_cache_pick_fs kmem_cache_take_fs
      split: option.splits)

lemma critr_fs:
  assumes "critr f s = Some (s', r)" and "\<And>s s' r. f s = Some (s', r) \<Longrightarrow> same_fs s s'"
  shows "same_fs s s'"
  using assms by (fastforce simp: critr_def)

lemma kmalloc_fs: "kmalloc sz s = Some (s', r) \<Longrightarrow> same_fs s s'"
  unfolding kmalloc_def
  by (erule critr_fs) (auto simp: bind_eq_Some_iff Let_def same_fs_def dest!: kmem_cache_alloc_fs split: if_splits option.splits)

lemma fs_alloc_file_fs: "fs_alloc_file s = Some s' \<Longrightarrow> same_fs s s'"
  by (auto simp: fs_alloc_file_def crit_def bind_eq_Some_iff dest!: kmem_cache_alloc_fs)

lemma kfifo_alloc_fs: "kfifo_alloc n m s = Some (s', r) \<Longrightarrow> same_fs s s'"
  by (auto simp: kfifo_alloc_def bind_eq_Some_iff Let_def same_fs_def dest!: kmalloc_fs split: option.splits)

lemma fifo_init_fs: "fifo_init fd i p s = Some (s', r) \<Longrightarrow> same_fs s s' \<and> r = 0"
  by (auto simp: fifo_init_def head_init_def bind_eq_Some_iff same_fs_def split: if_splits)

text \<open>The new file object changes the inode of the file only.\<close>

definition mode_list :: "u8 \<Rightarrow> inode \<Rightarrow> u32 list option" where
  "mode_list ft n = (if ft = S_IFDIR then Some [] else i_dentry n)"

lemma same_fs_upd_inode: "same_fs s t \<Longrightarrow> same_fs (upd_inode i f s) (upd_inode i f t)"
  by (simp add: same_fs_def upd_inode_def)

lemma set_file_fs [simp]: "same_fs s (set_file fd f t) = same_fs s t"
  by (simp add: same_fs_def set_file_def)

lemma reg_file_init_fs [simp]: "same_fs s (reg_file_init i t) = same_fs s t"
  by (simp add: same_fs_def reg_file_init_def set_file_def Let_def)

lemma empty_inode_list: "ft \<noteq> S_IFDIR \<Longrightarrow> (\<lambda>n. (empty_inode ft n)\<lparr>i_dentry := mode_list ft n\<rparr>) = empty_inode ft"
  by (rule ext) (simp add: empty_inode_def mode_list_def)

lemma modes_distinct [simp]:
  "S_IFIFO \<noteq> S_IFDIR" "S_IFCHR \<noteq> S_IFDIR" "S_IFBLK \<noteq> S_IFDIR" "S_IFREG \<noteq> S_IFDIR" "S_IFDIR \<noteq> S_IFIFO"
  "S_IFDIR \<noteq> S_IFCHR" "S_IFDIR \<noteq> S_IFBLK" "S_IFDIR \<noteq> S_IFREG" "S_IFREG \<noteq> S_IFIFO" "S_IFREG \<noteq> S_IFCHR"
  "S_IFREG \<noteq> S_IFBLK" "S_IFCHR \<noteq> S_IFIFO" "S_IFBLK \<noteq> S_IFIFO"
  by (simp_all add: config)

lemma fs_new_file_fs:
  assumes "fs_new_file fd i ft s = Some (s', res)"
  shows "case res of
      Inl _ \<Rightarrow> same_fs s s'
    | Inr r \<Rightarrow> same_fs (if r = 0 then upd_inode i (\<lambda>n. (empty_inode ft n)\<lparr>i_dentry := mode_list ft n\<rparr>) s else s) s'"
proof -
  consider "ft = S_IFIFO" | "ft = S_IFCHR \<or> ft = S_IFBLK" | "ft = S_IFREG" | "ft = S_IFDIR" | "ft \<notin> {S_IFIFO, S_IFCHR, S_IFBLK, S_IFREG, S_IFDIR}"
    by blast
  then show ?thesis
  proof cases
    case 1
    then obtain s1 p s2 f where a: "kmalloc (word_of_nat PIPE_SIZE) s = Some (s1, p)" "kfifo_alloc 1 PIPE_BUF s1 = Some (s2, f)"
      using assms by (auto simp: fs_new_file_def bind_eq_Some_iff)
    then have b: "same_fs s s2" using kmalloc_fs kfifo_alloc_fs same_fs_trans by blast
    have c: "s' = s2 \<and> res = Inl ()" if "p = None \<or> f = None" using assms a 1 that by (auto simp: fs_new_file_def split: option.splits)
    have d: "\<exists>t r. same_fs s2 t \<and> s' = upd_inode i (empty_inode S_IFIFO) t \<and> res = Inr 0" if "p = Some p'" "f = Some f'" for p' f'
      using assms a 1 that by (auto simp: fs_new_file_def bind_eq_Some_iff dest: fifo_init_fs)
    show ?thesis
    proof (cases "p = None \<or> f = None")
      case True
      with b c show ?thesis by simp
    next
      case False
      then obtain t where "same_fs s2 t" "s' = upd_inode i (empty_inode S_IFIFO) t" "res = Inr 0" using d by auto
      with 1 same_fs_upd_inode [OF same_fs_trans [OF b]] show ?thesis by (simp add: empty_inode_list)
    qed
  next
    case 2
    then obtain t where t: "fs_alloc_file s = Some t" and r: "res = Inr 0"
      and s': "s' = upd_inode i (empty_inode ft) (set_file fd \<lparr>f_inode = Some i, f_op = No_ops, f_events = 0, f_flags = 0\<rparr> t)"
      using assms by (auto simp: fs_new_file_def bind_eq_Some_iff)
    from t have "same_fs s t" by (rule fs_alloc_file_fs)
    with 2 r s' show ?thesis using same_fs_upd_inode [of s "set_file fd \<lparr>f_inode = Some i, f_op = No_ops, f_events = 0, f_flags = 0\<rparr> t" i "empty_inode ft"] by (auto simp: empty_inode_list)
  next
    case 3
    then obtain t p where t: "kmalloc REG_FILE_SIZE s = Some (t, p)"
      and r: "(s', res) = (case p of None \<Rightarrow> (t, Inl ()) | Some _ \<Rightarrow> (upd_inode i (empty_inode S_IFREG) (reg_file_init i t), Inr 0))"
      using assms by (auto simp: fs_new_file_def bind_eq_Some_iff split: option.splits)
    from t have "same_fs s t" by (rule kmalloc_fs)
    with 3 r same_fs_upd_inode [of s "reg_file_init i t" i "empty_inode ft"] show ?thesis
      by (cases p) (simp_all add: empty_inode_list)
  next
    case 4
    then show ?thesis using assms by (auto simp: fs_new_file_def mode_list_def)
  next
    case 5
    then show ?thesis using assms by (auto simp: fs_new_file_def)
  qed
qed

section \<open>The invariant\<close>

definition used :: "'a fsstate_scheme \<Rightarrow> nat set" where
  "used s = bm_set (bitmap_inodes s)"

definition is_dir :: "'a fsstate_scheme \<Rightarrow> nat \<Rightarrow> bool" where
  "is_dir s i \<longleftrightarrow> i_mode (inodes s i) = S_IFDIR"

text \<open>The address of the entry \<open>k\<close> of a directory with the blocks \<open>bs\<close>.\<close>

definition slot :: "u32 \<Rightarrow> nat list \<Rightarrow> nat \<Rightarrow> u32" where
  "slot R bs k = R + word_of_nat (128 * (bs ! (k div 2)) + 56 * (k mod 2))"

definition dir_ok :: "'a fsstate_scheme \<Rightarrow> nat list \<Rightarrow> nat \<Rightarrow> bool" where
  "dir_ok s bs i \<longleftrightarrow> (\<exists>l. i_dentry (inodes s i) = Some l \<and> l = map (slot (rootfs_addr s) bs) [0..<length l]
     \<and> length bs = (length l + 1) div 2 \<and> i_size (inodes s i) = word_of_nat (56 * length l)
     \<and> i_blocks (inodes s i) = word_of_nat (length bs)
     \<and> (\<forall>a \<in> set l. \<exists>d. dentries s a = Some d \<and> d_inode d \<in> used s))"

definition blocks_ok :: "'a fsstate_scheme \<Rightarrow> nat list \<Rightarrow> bool" where
  "blocks_ok s bs \<longleftrightarrow> distinct bs \<and> set bs \<subseteq> bm_set (bitmap_blks s) \<inter> {..<FS_BLK_CNT}"

definition fs_inv :: "'a fsstate_scheme \<Rightarrow> (nat \<Rightarrow> nat list) \<Rightarrow> bool" where
  "fs_inv s B \<longleftrightarrow> length (bitmap_inodes s) = 4 \<and> length (bitmap_blks s) = 4 \<and> 0 \<in> used s \<and> is_dir s 0
     \<and> (\<forall>i. i_dentry (inodes s i) \<noteq> None \<longleftrightarrow> is_dir s i) \<and> (\<forall>i. is_dir s i \<longrightarrow> i \<in> used s)
     \<and> (\<forall>i \<in> used s. i_ino (inodes s i) = i \<and> i_sync (inodes s i) \<and> i_rdev (inodes s i) = RDEV_ROOTFS
          \<and> i_parent (inodes s i) \<in> used s)
     \<and> (\<forall>i. is_dir s i \<longrightarrow> dir_ok s (B i) i \<and> blocks_ok s (B i))
     \<and> (\<forall>i j. is_dir s i \<longrightarrow> is_dir s j \<longrightarrow> i \<noteq> j \<longrightarrow> set (B i) \<inter> set (B j) = {})"

definition fs_wf :: "'a fsstate_scheme \<Rightarrow> bool" where
  "fs_wf s \<longleftrightarrow> (\<exists>B. fs_inv s B)"

definition entries :: "'a fsstate_scheme \<Rightarrow> nat \<Rightarrow> string \<rightharpoonup> nat" where
  "entries s d = (case i_dentry (inodes s d) of None \<Rightarrow> Map.empty
     | Some l \<Rightarrow> map_of (map (\<lambda>a. (d_name (the (dentries s a)), d_inode (the (dentries s a)))) l))"

lemma entries_cong:
  assumes "i_dentry (inodes s' d) = i_dentry (inodes s d)"
    and "\<And>l a. i_dentry (inodes s d) = Some l \<Longrightarrow> a \<in> set l \<Longrightarrow> dentries s' a = dentries s a"
  shows "entries s' d = entries s d"
proof (cases "i_dentry (inodes s d)")
  case (Some l)
  then have "map (\<lambda>a. (d_name (the (dentries s' a)), d_inode (the (dentries s' a)))) l
      = map (\<lambda>a. (d_name (the (dentries s a)), d_inode (the (dentries s a)))) l" using assms(2) by simp
  then have "map_of (map (\<lambda>a. (d_name (the (dentries s' a)), d_inode (the (dentries s' a)))) l)
      = map_of (map (\<lambda>a. (d_name (the (dentries s a)), d_inode (the (dentries s a)))) l)" by (rule arg_cong)
  then show ?thesis unfolding entries_def assms(1) Some option.case .
qed (simp add: entries_def assms(1))

lemma same_fs_cong:
  assumes "same_fs s s'"
  shows "used s' = used s" "is_dir s' = is_dir s" "dir_ok s' = dir_ok s" "blocks_ok s' = blocks_ok s"
    "entries s' = entries s" "fs_inv s' B = fs_inv s B"
proof -
  show a: "used s' = used s" "is_dir s' = is_dir s" using assms by (auto simp: same_fs_def used_def is_dir_def)
  show b: "dir_ok s' = dir_ok s" by (intro ext) (use assms a in \<open>simp add: same_fs_def dir_ok_def\<close>)
  show "blocks_ok s' = blocks_ok s" by (rule ext) (use assms in \<open>simp add: same_fs_def blocks_ok_def\<close>)
  moreover show "entries s' = entries s" by (rule ext) (use assms in \<open>simp add: same_fs_def entries_def split: option.split\<close>)
  show "fs_inv s' B = fs_inv s B" unfolding fs_inv_def a b calculation using assms by (simp add: same_fs_def)
qed

lemma fs_invD:
  assumes "fs_inv s B"
  shows "length (bitmap_inodes s) = 4" "length (bitmap_blks s) = 4" "0 \<in> used s" "is_dir s 0"
    "i_dentry (inodes s i) \<noteq> None \<longleftrightarrow> is_dir s i" "is_dir s i \<Longrightarrow> i \<in> used s" "is_dir s i \<Longrightarrow> dir_ok s (B i) i"
    "is_dir s i \<Longrightarrow> blocks_ok s (B i)" "is_dir s i \<Longrightarrow> is_dir s j \<Longrightarrow> i \<noteq> j \<Longrightarrow> set (B i) \<inter> set (B j) = {}"
    "i \<in> used s \<Longrightarrow> i_ino (inodes s i) = i" "i \<in> used s \<Longrightarrow> i_sync (inodes s i)"
    "i \<in> used s \<Longrightarrow> i_rdev (inodes s i) = RDEV_ROOTFS" "i \<in> used s \<Longrightarrow> i_parent (inodes s i) \<in> used s"
  using assms unfolding fs_inv_def by simp_all

lemma unat_word_of_nat32: "n < 2 ^ 32 \<Longrightarrow> unat (word_of_nat n :: u32) = n"
  by (simp add: unsigned_of_nat take_bit_nat_eq_self)

lemma word_of_nat_inj32: "m < 2 ^ 32 \<Longrightarrow> n < 2 ^ 32 \<Longrightarrow> (word_of_nat m :: u32) = word_of_nat n \<Longrightarrow> m = n"
  by (metis unat_word_of_nat32)

lemma slot_inj:
  assumes "slot R bs k = slot R bs' k'" "bs ! (k div 2) < 100" "bs' ! (k' div 2) < 100"
  shows "bs ! (k div 2) = bs' ! (k' div 2) \<and> k mod 2 = k' mod 2"
proof -
  let ?x = "128 * (bs ! (k div 2)) + 56 * (k mod 2)" and ?y = "128 * (bs' ! (k' div 2)) + 56 * (k' mod 2)"
  have m: "k mod 2 < 2" "k' mod 2 < 2" by simp_all
  have "?x < 2 ^ 32" "?y < 2 ^ 32" using assms(2,3) m by simp_all
  moreover have "(word_of_nat ?x :: u32) = word_of_nat ?y" using assms(1) by (simp add: slot_def)
  ultimately have "?x = ?y" by (rule word_of_nat_inj32)
  moreover have "a = b \<and> e = f" if "128 * a + 56 * e = 128 * b + 56 * f" "e < 2" "f < 2" for a b e f :: nat
    using that by (cases e; cases f) (auto, presburger+)
  ultimately show ?thesis using m by blast
qed

section \<open>Looking up a name\<close>

lemma find_dentry_map_of:
  "\<forall>a \<in> set l. D a \<noteq> None \<Longrightarrow>
   find_dentry D n l = Some (map_of (map (\<lambda>a. (d_name (the (D a)), d_inode (the (D a)))) l) n)"
  by (induction l) auto

definition look :: "'a fsstate_scheme \<Rightarrow> nat \<Rightarrow> string \<Rightarrow> nat option" where
  "look s d n =
     (if i_dentry (inodes s d) = Some [] then None else if n = ''.'' then Some d
      else if n = ''..'' then Some (i_parent (inodes s d)) else entries s d n)"

lemma dir_ok_size:
  assumes "dir_ok s bs i" "blocks_ok s bs" "i_dentry (inodes s i) = Some l"
  shows "length bs \<le> 100" "length l \<le> 200" "i_size (inodes s i) = 0 \<longleftrightarrow> l = []"
    "unat (i_size (inodes s i)) = 56 * length l" "unat (i_blocks (inodes s i)) = length bs"
proof -
  have "card (set bs) \<le> card {..<FS_BLK_CNT}" using assms(2) by (intro card_mono) (auto simp: blocks_ok_def)
  then show b: "length bs \<le> 100" using assms(2) by (simp add: blocks_ok_def distinct_card config)
  have d: "length bs = (length l + 1) div 2" "i_size (inodes s i) = word_of_nat (56 * length l)"
      "i_blocks (inodes s i) = word_of_nat (length bs)"
    using assms(1,3) by (auto simp: dir_ok_def)
  show l: "length l \<le> 200" using b d(1) by linarith
  show z: "unat (i_size (inodes s i)) = 56 * length l" unfolding d(2) using l by (intro unat_word_of_nat32) simp
  show "unat (i_blocks (inodes s i)) = length bs" unfolding d(3) using b by (intro unat_word_of_nat32) simp
  have "i_size (inodes s i) = 0 \<longleftrightarrow> unat (i_size (inodes s i)) = 0" by (simp only: unat_eq_0)
  then show "i_size (inodes s i) = 0 \<longleftrightarrow> l = []" unfolding z by simp
qed

lemma fs_search_file_look:
  assumes "fs_inv s B" "is_dir s d"
  shows "fs_search_file rd d n s = Some (s, look s d n)"
proof -
  note dir = fs_invD(7) [OF assms] and blk = fs_invD(8) [OF assms]
  from dir obtain l where l: "i_dentry (inodes s d) = Some l" "\<forall>a \<in> set l. dentries s a \<noteq> None"
    unfolding dir_ok_def by blast
  have "i_sync (inodes s d)" using fs_invD(6,11) [OF assms(1)] assms(2) by blast
  with l dir_ok_size(3) [OF dir blk l(1)] find_dentry_map_of [OF l(2)] show ?thesis
    by (simp add: fs_search_file_def look_def entries_def)
qed

text \<open>Names lead to inodes in use.\<close>

lemma entries_used:
  assumes "fs_inv s B" "entries s d n = Some i"
  shows "i \<in> used s"
proof -
  have d: "is_dir s d" using assms(2) fs_invD(5) [OF assms(1), of d] by (auto simp: entries_def split: option.splits)
  from fs_invD(7) [OF assms(1) this] obtain l where l: "i_dentry (inodes s d) = Some l"
      "\<forall>a \<in> set l. \<exists>e. dentries s a = Some e \<and> d_inode e \<in> used s" by (auto simp: dir_ok_def)
  with assms(2) show ?thesis by (fastforce simp: entries_def dest!: map_of_SomeD)
qed

lemma look_used: "fs_inv s B \<Longrightarrow> is_dir s d \<Longrightarrow> look s d n = Some i \<Longrightarrow> i \<in> used s"
  using fs_invD(6,13) entries_used by (fastforce simp: look_def split: if_splits)

section \<open>Adding a file\<close>

lemma fs_alloc_inode_Some:
  assumes "fs_alloc_inode s = Some (s', Some i)" "length (bitmap_inodes s) = 4"
  shows "i \<notin> used s" "used s' = insert i (used s)" "length (bitmap_inodes s') = 4"
    "s' = (upd_inode i (i_ino_update (\<lambda>_. i)) s)\<lparr>s_inode_cnt := s_inode_cnt s', bitmap_inodes := bitmap_inodes s'\<rparr>"
proof -
  have le: "INODE_MAX \<le> 32 * length (bitmap_inodes s)" using assms(2) by (simp add: config)
  from find_first_zero_bit_spec [OF le] obtain r where r: "find_first_zero_bit (bitmap_inodes s) INODE_MAX = Some r"
      "r < INODE_MAX \<longrightarrow> \<not> bm_bit (bitmap_inodes s) r" by blast
  with assms(1) have i: "i = r" "r < INODE_MAX" by (auto simp: fs_alloc_inode_def bind_eq_Some_iff split: if_splits)
  then have "r < 32 * length (bitmap_inodes s)" using le by simp
  from bitmap_set_bit_Some [OF this] obtain m where m: "bitmap_set_bit (bitmap_inodes s) r = Some m"
      "length m = length (bitmap_inodes s)" "bm_set m = insert r (bm_set (bitmap_inodes s))" by blast
  have s': "s' = (upd_inode i (i_ino_update (\<lambda>_. i)) s)\<lparr>s_inode_cnt := s_inode_cnt s + 1, bitmap_inodes := m\<rparr>"
    using assms(1) r(1) m(1) i by (simp add: fs_alloc_inode_def)
  show "i \<notin> used s" using r(2) i by (simp add: used_def bm_set_def)
  show "used s' = insert i (used s)" "length (bitmap_inodes s') = 4"
    "s' = (upd_inode i (i_ino_update (\<lambda>_. i)) s)\<lparr>s_inode_cnt := s_inode_cnt s', bitmap_inodes := bitmap_inodes s'\<rparr>"
    using s' m i assms(2) by (simp_all add: used_def)
qed

lemma fs_alloc_block_Some:
  assumes "fs_alloc_block s = Some (s', Some b)" "length (bitmap_blks s) = 4"
  shows "b \<notin> bm_set (bitmap_blks s)" "b < FS_BLK_CNT" "bm_set (bitmap_blks s') = insert b (bm_set (bitmap_blks s))"
    "length (bitmap_blks s') = 4" "s' = s\<lparr>s_blk_cnt := s_blk_cnt s', bitmap_blks := bitmap_blks s'\<rparr>"
proof -
  have le: "FS_BLK_CNT \<le> 32 * length (bitmap_blks s)" using assms(2) by (simp add: config)
  from find_first_zero_bit_spec [OF le] obtain r where r: "find_first_zero_bit (bitmap_blks s) FS_BLK_CNT = Some r"
      "r < FS_BLK_CNT \<longrightarrow> \<not> bm_bit (bitmap_blks s) r" by blast
  with assms(1) have i: "b = r" "r < FS_BLK_CNT" by (auto simp: fs_alloc_block_def bind_eq_Some_iff split: if_splits)
  then have "r < 32 * length (bitmap_blks s)" using le by simp
  from bitmap_set_bit_Some [OF this] obtain m where m: "bitmap_set_bit (bitmap_blks s) r = Some m"
      "length m = length (bitmap_blks s)" "bm_set m = insert r (bm_set (bitmap_blks s))" by blast
  have s': "s' = s\<lparr>s_blk_cnt := s_blk_cnt s + 1, bitmap_blks := m\<rparr>"
    using assms(1) r(1) m(1) i by (simp add: fs_alloc_block_def)
  show "b \<notin> bm_set (bitmap_blks s)" using r(2) i by (simp add: bm_set_def)
  show "b < FS_BLK_CNT" using i by simp
  show "bm_set (bitmap_blks s') = insert b (bm_set (bitmap_blks s))" "length (bitmap_blks s') = 4"
    "s' = s\<lparr>s_blk_cnt := s_blk_cnt s', bitmap_blks := bitmap_blks s'\<rparr>"
    using s' m i assms(2) by simp_all
qed

lemma fs_inv_more_blocks:
  assumes "fs_inv s B" "bm_set (bitmap_blks s) \<subseteq> bm_set m" "length m = 4"
  shows "fs_inv (s\<lparr>s_blk_cnt := c, bitmap_blks := m\<rparr>) B"
proof -
  let ?s = "s\<lparr>s_blk_cnt := c, bitmap_blks := m\<rparr>"
  have a: "used ?s = used s" "is_dir ?s = is_dir s" "dir_ok ?s = dir_ok s"
    by (auto simp: used_def is_dir_def dir_ok_def fun_eq_iff)
  have "blocks_ok s bs \<Longrightarrow> blocks_ok ?s bs" for bs using assms(2) by (auto simp: blocks_ok_def)
  with assms(1,3) show ?thesis unfolding fs_inv_def a by simp
qed

text \<open>An address behind the entries of a directory, or in a fresh block, is the address of no entry.\<close>

lemma dir_list_slot:
  assumes "fs_inv s B" "i_dentry (inodes s j) = Some l" "x \<in> set l"
  obtains k where "x = slot (rootfs_addr s) (B j) k" "k < length l" "k div 2 < length (B j)" "is_dir s j" "B j ! (k div 2) < 100"
proof -
  have d: "is_dir s j" using fs_invD(5) [OF assms(1)] assms(2) by blast
  note o = fs_invD(7) [OF assms(1) d] and b = fs_invD(8) [OF assms(1) d]
  have l: "l = map (slot (rootfs_addr s) (B j)) [0..<length l]" "length (B j) = (length l + 1) div 2"
    using o assms(2) by (auto simp: dir_ok_def)
  from assms(3) have "x \<in> slot (rootfs_addr s) (B j) ` {0..<length l}" by (subst (asm) l(1)) simp
  then obtain k where k: "x = slot (rootfs_addr s) (B j) k" "k < length l" by auto
  then have k2: "k div 2 < length (B j)" using l(2) by linarith
  then have "B j ! (k div 2) \<in> set (B j)" by (rule nth_mem)
  then have "B j ! (k div 2) < 100" using b by (auto simp: blocks_ok_def config)
  with that k k2 d show ?thesis by blast
qed

lemma slot_fresh:
  assumes inv: "fs_inv s B" and bs: "blocks_ok s bs" "n div 2 < length bs" and l: "i_dentry (inodes s j) = Some l"
    and dis: "set bs \<inter> set (B j) = {} \<or> bs = B j \<and> length l \<le> n"
  shows "slot (rootfs_addr s) bs n \<notin> set l"
proof
  assume "slot (rootfs_addr s) bs n \<in> set l"
  then obtain k where k: "slot (rootfs_addr s) bs n = slot (rootfs_addr s) (B j) k" "k < length l" "k div 2 < length (B j)"
      "B j ! (k div 2) < 100"
    using dir_list_slot [OF inv l] by metis
  have m: "bs ! (n div 2) \<in> set bs" using bs(2) by (rule nth_mem)
  then have "bs ! (n div 2) < 100" using bs(1) by (auto simp: blocks_ok_def config)
  from slot_inj [OF k(1) this k(4)] have e: "bs ! (n div 2) = B j ! (k div 2)" "n mod 2 = k mod 2" by auto
  moreover have "B j ! (k div 2) \<in> set (B j)" using k(3) by (rule nth_mem)
  ultimately have "bs = B j" "length l \<le> n" using dis m by auto
  moreover from this e(1) bs k(3) have "n div 2 = k div 2" by (auto simp: blocks_ok_def nth_eq_iff_index_eq)
  ultimately show False using e(2) k(2) by (metis div_mult_mod_eq not_le)
qed

text \<open>The place of the next entry of a directory.\<close>

definition next_slot :: "'a fsstate_scheme \<Rightarrow> (nat \<Rightarrow> nat list) \<Rightarrow> nat \<Rightarrow> u32 \<Rightarrow> nat list \<Rightarrow> bool" where
  "next_slot s B dir a bs \<longleftrightarrow> (\<exists>l. i_dentry (inodes s dir) = Some l \<and> a = slot (rootfs_addr s) bs (length l)
     \<and> length bs = (length l + 2) div 2 \<and> (\<forall>k < length l. slot (rootfs_addr s) bs k = slot (rootfs_addr s) (B dir) k)
     \<and> blocks_ok s bs \<and> (\<forall>j. is_dir s j \<longrightarrow> j \<noteq> dir \<longrightarrow> set bs \<inter> set (B j) = {}))"

lemma fs_allocate_dentry_old:
  assumes inv: "fs_inv s B" and r: "fs_allocate_dentry dir s = Some (s', Some a)"
    and fit: "unat (i_size (inodes s dir)) div 56 + 1 \<le> unat (i_blocks (inodes s dir)) * 2" "i_size (inodes s dir) \<noteq> 0"
  shows "s' = s" "next_slot s B dir a (B dir)" "\<forall>j l. i_dentry (inodes s j) = Some l \<longrightarrow> a \<notin> set l"
proof -
  obtain l where l: "i_dentry (inodes s dir) = Some l" "l \<noteq> []" "s' = s" "a = last l + 56"
    using r fit by (auto simp: fs_allocate_dentry_def config Let_def bind_eq_Some_iff split: if_splits)
  then show "s' = s" by simp
  have d: "is_dir s dir" using fs_invD(5) [OF inv] l(1) by blast
  note o = fs_invD(7) [OF inv d] and b = fs_invD(8) [OF inv d]
  have ll: "l = map (slot (rootfs_addr s) (B dir)) [0..<length l]" "length (B dir) = (length l + 1) div 2"
    using o l(1) by (auto simp: dir_ok_def)
  have odd: "odd (length l)" using fit(1) unfolding dir_ok_size(4,5) [OF o b l(1)] using ll(2) by simp presburger
  then obtain m where m: "length l = Suc (2 * m)" by (elim oddE) simp
  have "last l = slot (rootfs_addr s) (B dir) (2 * m)"
    using l(2) m by (subst ll(1)) (simp add: last_conv_nth)
  then have a: "a = slot (rootfs_addr s) (B dir) (length l)" unfolding l(4) m by (simp add: slot_def)
  have n: "length l div 2 < length (B dir)" using ll(2) m by simp
  show "next_slot s B dir a (B dir)"
    using l(1) a b ll(2) m fs_invD(9) [OF inv d] by (auto simp: next_slot_def)
  show "\<forall>j l. i_dentry (inodes s j) = Some l \<longrightarrow> a \<notin> set l"
  proof (intro allI impI)
    fix j l' assume j: "i_dentry (inodes s j) = Some l'"
    then have "is_dir s j" using fs_invD(5) [OF inv] by blast
    with fs_invD(9) [OF inv d this] j l(1) have "set (B dir) \<inter> set (B j) = {} \<or> B dir = B j \<and> length l' \<le> length l"
      by (cases "j = dir") auto
    then show "a \<notin> set l'" unfolding a by (rule slot_fresh [OF inv b n j])
  qed
qed

lemma fs_allocate_dentry_new:
  assumes inv: "fs_inv s B" and r: "fs_allocate_dentry dir s = Some (s', Some a)"
    and nofit: "\<not> (unat (i_size (inodes s dir)) div 56 + 1 \<le> unat (i_blocks (inodes s dir)) * 2 \<and> i_size (inodes s dir) \<noteq> 0)"
  shows "s' = s\<lparr>s_blk_cnt := s_blk_cnt s', bitmap_blks := bitmap_blks s'\<rparr>" "fs_inv s' B"
    "is_dir s dir \<Longrightarrow> \<exists>bs. next_slot s' B dir a bs" "\<forall>j l. i_dentry (inodes s j) = Some l \<longrightarrow> a \<notin> set l"
proof -
  have "fs_allocate_dentry dir s = map_option (\<lambda>(s1, r). (s1, map_option (\<lambda>i. block_addr i s1) r)) (fs_alloc_block s)"
    using nofit by (auto simp: fs_allocate_dentry_def config Let_def)
  with r obtain b where b: "fs_alloc_block s = Some (s', Some b)" "a = block_addr b s'" by auto
  note f = fs_alloc_block_Some [OF b(1) fs_invD(2) [OF inv]]
  show s': "s' = s\<lparr>s_blk_cnt := s_blk_cnt s', bitmap_blks := bitmap_blks s'\<rparr>" by (rule f(5))
  have eq: "inodes s' = inodes s" "rootfs_addr s' = rootfs_addr s" by (subst s', simp)+
  have "fs_inv (s\<lparr>s_blk_cnt := s_blk_cnt s', bitmap_blks := bitmap_blks s'\<rparr>) B"
    using f(3,4) by (intro fs_inv_more_blocks [OF inv]) auto
  then show inv': "fs_inv s' B" using s' by simp
  have a: "a = slot (rootfs_addr s') [b] 0" unfolding b(2) by (simp add: block_addr_def slot_def config mult.commute)
  have new: "set [b] \<inter> set (B j) = {}" if "is_dir s j" for j using fs_invD(8) [OF inv that] f(1) by (auto simp: blocks_ok_def)
  show "\<forall>j l. i_dentry (inodes s j) = Some l \<longrightarrow> a \<notin> set l"
  proof (intro allI impI)
    fix j l assume j: "i_dentry (inodes s j) = Some l"
    then have "is_dir s j" using fs_invD(5) [OF inv] by blast
    moreover have "blocks_ok s' [b]" using f(2,3) by (simp add: blocks_ok_def)
    ultimately show "a \<notin> set l" unfolding a using new j by (intro slot_fresh [OF inv']) (auto simp: eq)
  qed
  show "\<exists>bs. next_slot s' B dir a bs" if d: "is_dir s dir"
  proof -
    note o = fs_invD(7) [OF inv d] and bo = fs_invD(8) [OF inv d]
    from o obtain l where l: "i_dentry (inodes s dir) = Some l" "length (B dir) = (length l + 1) div 2" by (auto simp: dir_ok_def)
    have nf: "\<not> (length l + 1 \<le> length (B dir) * 2 \<and> l \<noteq> [])"
      using nofit unfolding dir_ok_size(3,4,5) [OF o bo l(1)] by simp
    have ev: "even (length l)"
    proof (rule ccontr)
      assume "odd (length l)"
      moreover from this have "l \<noteq> []" by auto
      ultimately show False using nf l(2) by (auto elim!: oddE)
    qed
    let ?bs = "B dir @ [b]"
    have len: "length (B dir) = length l div 2" using l(2) ev by auto
    have "slot (rootfs_addr s') ?bs (length l) = a" unfolding a using len ev by (simp add: slot_def nth_append)
    moreover have "slot (rootfs_addr s') ?bs k = slot (rootfs_addr s') (B dir) k" if "k < length l" for k
    proof -
      have "k div 2 < length (B dir)" using that ev len by (auto elim!: evenE)
      then show ?thesis by (simp add: slot_def nth_append)
    qed
    moreover have "blocks_ok s' ?bs" using bo f(1,2,3) by (auto simp: blocks_ok_def)
    moreover have "set ?bs \<inter> set (B j) = {}" if "is_dir s' j" "j \<noteq> dir" for j
      using that fs_invD(9) [OF inv d, of j] new [of j] by (auto simp: is_dir_def eq)
    ultimately show ?thesis using l len ev by (intro exI [of _ ?bs]) (auto simp: next_slot_def eq)
  qed
qed

text \<open>A step that keeps the directories, except for new empty ones.\<close>

lemma fs_inv_step:
  assumes inv: "fs_inv s B"
    and bm: "length (bitmap_inodes s') = 4" "bitmap_blks s' = bitmap_blks s" "rootfs_addr s' = rootfs_addr s" "used s \<subseteq> used s'"
    and old: "\<And>j. is_dir s j \<Longrightarrow> is_dir s' j \<and> i_dentry (inodes s' j) = i_dentry (inodes s j)
        \<and> i_size (inodes s' j) = i_size (inodes s j) \<and> i_blocks (inodes s' j) = i_blocks (inodes s j)"
    and new: "\<And>j. \<not> is_dir s j \<Longrightarrow> is_dir s' j \<Longrightarrow> i_dentry (inodes s' j) = Some [] \<and> i_size (inodes s' j) = 0
        \<and> i_blocks (inodes s' j) = 0 \<and> B j = [] \<and> j \<in> used s'"
    and non: "\<And>j. \<not> is_dir s' j \<Longrightarrow> i_dentry (inodes s' j) = None"
    and ino: "\<And>j. j \<in> used s' \<Longrightarrow> i_ino (inodes s' j) = j \<and> i_sync (inodes s' j) \<and> i_rdev (inodes s' j) = RDEV_ROOTFS
        \<and> i_parent (inodes s' j) \<in> used s'"
    and ent: "\<And>j l a. i_dentry (inodes s j) = Some l \<Longrightarrow> a \<in> set l \<Longrightarrow> dentries s' a = dentries s a"
  shows "fs_inv s' B"
proof -
  have ok: "dir_ok s' (B j) j \<and> blocks_ok s' (B j)" if "is_dir s' j" for j
  proof (cases "is_dir s j")
    case True
    note d = fs_invD(7) [OF inv True] and b = fs_invD(8) [OF inv True]
    from d obtain l where l: "i_dentry (inodes s j) = Some l" "l = map (slot (rootfs_addr s) (B j)) [0..<length l]"
        "length (B j) = (length l + 1) div 2" "i_size (inodes s j) = word_of_nat (56 * length l)"
        "i_blocks (inodes s j) = word_of_nat (length (B j))" "\<forall>a \<in> set l. \<exists>d. dentries s a = Some d \<and> d_inode d \<in> used s"
      unfolding dir_ok_def by blast
    have "\<forall>a \<in> set l. \<exists>d. dentries s' a = Some d \<and> d_inode d \<in> used s'" using l(6) ent [OF l(1)] bm(4) by (metis subsetD)
    then have "dir_ok s' (B j) j" unfolding dir_ok_def using l(1-5) old [OF True] bm(3) by (intro exI [of _ l]) simp
    moreover have "blocks_ok s' (B j)" using b bm(2) by (simp add: blocks_ok_def)
    ultimately show ?thesis by simp
  next
    case False
    with new [OF this that] show ?thesis by (simp add: dir_ok_def blocks_ok_def)
  qed
  have dis: "set (B i) \<inter> set (B j) = {}" if "is_dir s' i" "is_dir s' j" "i \<noteq> j" for i j
    using that new fs_invD(9) [OF inv] by (cases "is_dir s i"; cases "is_dir s j") auto
  have "0 \<in> used s'" "is_dir s' 0" using bm(4) old fs_invD(3,4) [OF inv] by blast+
  moreover have "i_dentry (inodes s' i) \<noteq> None \<longleftrightarrow> is_dir s' i" for i
    using non [of i] ok [of i] by (cases "is_dir s' i") (auto simp: dir_ok_def)
  moreover have "i \<in> used s'" if "is_dir s' i" for i
    using that new [of i] bm(4) fs_invD(6) [OF inv, of i] by (cases "is_dir s i") auto
  ultimately show ?thesis unfolding fs_inv_def using bm(1,2) fs_invD(2) [OF inv] ok dis ino by simp
qed

text \<open>The new inode, before the file has a type.\<close>

lemma fs_alloc_inode_inv:
  assumes inv: "fs_inv s B" and r: "fs_alloc_inode s = Some (s1, Some i)" and dir: "dir \<in> used s"
    and s2: "s2 = upd_inode i (\<lambda>n. n\<lparr>i_rdev := RDEV_ROOTFS, i_parent := i_ino (inodes s1 dir), i_fd := fd, i_sync := True\<rparr>) s1"
  shows "fs_inv s2 B" "i \<notin> used s" "used s2 = insert i (used s)" "\<not> is_dir s2 i"
    "\<And>j. j \<noteq> i \<Longrightarrow> inodes s2 j = inodes s j" "i_fd (inodes s2 i) = fd" "i_parent (inodes s2 i) = dir"
    "dentries s2 = dentries s" "rootfs_addr s2 = rootfs_addr s" "file_cnt s2 = file_cnt s"
proof -
  note f = fs_alloc_inode_Some [OF r fs_invD(1) [OF inv]]
  have eq: "bitmap_blks s1 = bitmap_blks s" "rootfs_addr s1 = rootfs_addr s" "dentries s1 = dentries s" "file_cnt s1 = file_cnt s"
      "inodes s1 = (inodes s)(i := (inodes s i)\<lparr>i_ino := i\<rparr>)"
    by (subst f(4), simp add: upd_inode_def)+
  have p: "i_ino (inodes s1 dir) = dir" using fs_invD(10) [OF inv dir] f(1) dir by (auto simp: eq)
  have in2: "inodes s2 = (inodes s)(i := (inodes s i)\<lparr>i_ino := i, i_rdev := RDEV_ROOTFS, i_parent := dir, i_fd := fd, i_sync := True\<rparr>)"
    unfolding s2 upd_inode_def using p by (simp add: eq)
  have nd: "\<not> is_dir s i" using f(1) fs_invD(6) [OF inv] by blast
  have dirs: "is_dir s2 j = is_dir s j" for j by (simp add: is_dir_def in2)
  show "i \<notin> used s" by (rule f(1))
  show u: "used s2 = insert i (used s)" using f(2) by (simp add: s2 upd_inode_def used_def)
  show "\<not> is_dir s2 i" using nd dirs by simp
  show "\<And>j. j \<noteq> i \<Longrightarrow> inodes s2 j = inodes s j" "i_fd (inodes s2 i) = fd" "i_parent (inodes s2 i) = dir" by (simp_all add: in2)
  show rest: "dentries s2 = dentries s" "rootfs_addr s2 = rootfs_addr s" "file_cnt s2 = file_cnt s"
    by (simp_all add: s2 upd_inode_def eq)
  show "fs_inv s2 B"
  proof (rule fs_inv_step [OF inv])
    show "length (bitmap_inodes s2) = 4" "bitmap_blks s2 = bitmap_blks s" using f(3) by (simp_all add: s2 upd_inode_def eq)
    show "rootfs_addr s2 = rootfs_addr s" by (rule rest)
    show "used s \<subseteq> used s2" using u by blast
    show "is_dir s2 j \<and> i_dentry (inodes s2 j) = i_dentry (inodes s j) \<and> i_size (inodes s2 j) = i_size (inodes s j)
        \<and> i_blocks (inodes s2 j) = i_blocks (inodes s j)" if "is_dir s j" for j using that by (simp add: dirs) (simp add: in2)
    show "i_dentry (inodes s2 j) = None" if "\<not> is_dir s2 j" for j
      using that fs_invD(5) [OF inv, of j] by (auto simp: dirs) (auto simp: in2)
    show "i_ino (inodes s2 j) = j \<and> i_sync (inodes s2 j) \<and> i_rdev (inodes s2 j) = RDEV_ROOTFS \<and> i_parent (inodes s2 j) \<in> used s2"
      if "j \<in> used s2" for j using that fs_invD(10-13) [OF inv, of j] dir u by (cases "j = i") (simp_all add: in2)
  qed (use dirs rest in simp_all)
qed

lemma fs_inv_nondir: "fs_inv s B \<Longrightarrow> \<not> is_dir s i \<Longrightarrow> fs_inv s (B(i := x))"
  unfolding fs_inv_def by auto

text \<open>The directory entry and the type of the new file.\<close>

lemma fs_dentry_inv:
  assumes inv: "fs_inv s B" and a: "\<forall>j l. i_dentry (inodes s j) = Some l \<longrightarrow> a \<notin> set l"
  shows "fs_inv (s\<lparr>dentries := (dentries s)(a \<mapsto> d)\<rparr>) B"
    "entries (s\<lparr>dentries := (dentries s)(a \<mapsto> d)\<rparr>) = entries s"
proof -
  let ?s = "s\<lparr>dentries := (dentries s)(a \<mapsto> d)\<rparr>"
  have eq: "used ?s = used s" "is_dir ?s = is_dir s" by (simp_all add: used_def is_dir_def fun_eq_iff)
  have "\<not> is_dir s j \<Longrightarrow> i_dentry (inodes s j) = None" for j using fs_invD(5) [OF inv, of j] by blast
  then show "fs_inv ?s B"
    by (intro fs_inv_step [OF inv]) (use fs_invD(1,10-13) [OF inv] a eq in auto)
  show "entries ?s = entries s" by (rule ext, rule entries_cong) (use a in auto)
qed

lemma fs_type_inv:
  assumes inv: "fs_inv s B" and i: "i \<in> used s" "\<not> is_dir s i" "B i = []"
    and s': "s' = upd_inode i (\<lambda>n. (empty_inode ft n)\<lparr>i_dentry := mode_list ft n\<rparr>) s"
  shows "fs_inv s' B" "entries s' = entries s" "i_mode (inodes s' i) = ft" "i_fd (inodes s' i) = i_fd (inodes s i)"
    "\<And>j. j \<noteq> i \<Longrightarrow> inodes s' j = inodes s j" "used s' = used s" "dentries s' = dentries s" "rootfs_addr s' = rootfs_addr s"
    "bitmap_blks s' = bitmap_blks s"
proof -
  have none: "i_dentry (inodes s i) = None" using fs_invD(5) [OF inv, of i] i(2) by blast
  have in': "inodes s' = (inodes s)(i := (empty_inode ft (inodes s i))\<lparr>i_dentry := if ft = S_IFDIR then Some [] else None\<rparr>)"
    using none by (simp add: s' upd_inode_def mode_list_def)
  show u: "used s' = used s" "dentries s' = dentries s" "rootfs_addr s' = rootfs_addr s" "bitmap_blks s' = bitmap_blks s"
    by (simp_all add: s' upd_inode_def used_def)
  show "i_mode (inodes s' i) = ft" "i_fd (inodes s' i) = i_fd (inodes s i)" "\<And>j. j \<noteq> i \<Longrightarrow> inodes s' j = inodes s j"
    by (simp_all add: in' empty_inode_def)
  have dirs: "is_dir s' j = (if j = i then ft = S_IFDIR else is_dir s j)" for j by (simp add: is_dir_def in' empty_inode_def)
  show "entries s' = entries s"
    using none u(2) by (auto simp: entries_def in' fun_eq_iff split: option.split)
  show "fs_inv s' B"
  proof (rule fs_inv_step [OF inv])
    show "length (bitmap_inodes s') = 4" using fs_invD(1) [OF inv] by (simp add: s' upd_inode_def)
    show "is_dir s' j \<and> i_dentry (inodes s' j) = i_dentry (inodes s j) \<and> i_size (inodes s' j) = i_size (inodes s j)
        \<and> i_blocks (inodes s' j) = i_blocks (inodes s j)" if "is_dir s j" for j
      using that i(2) by (cases "j = i") (simp_all add: dirs in')
    show "i_dentry (inodes s' j) = Some [] \<and> i_size (inodes s' j) = 0 \<and> i_blocks (inodes s' j) = 0 \<and> B j = [] \<and> j \<in> used s'"
      if "\<not> is_dir s j" "is_dir s' j" for j
      using that i u by (cases "j = i") (simp_all add: dirs in' empty_inode_def)
    show "i_dentry (inodes s' j) = None" if "\<not> is_dir s' j" for j
      using that fs_invD(5) [OF inv, of j] by (cases "j = i") (auto simp: dirs in')
    show "i_ino (inodes s' j) = j \<and> i_sync (inodes s' j) \<and> i_rdev (inodes s' j) = RDEV_ROOTFS \<and> i_parent (inodes s' j) \<in> used s'"
      if "j \<in> used s'" for j
      using that fs_invD(10-13) [OF inv, of j] u by (cases "j = i") (simp_all add: in' empty_inode_def)
  qed (simp_all add: u)
qed

text \<open>Linking the entry.\<close>

lemma fs_link_dentry_inv:
  assumes inv: "fs_inv s B" and nx: "next_slot s B dir a bs" and r: "fs_link_dentry dir a s = Some s'"
    and e: "dentries s a = Some e" "d_inode e \<in> used s"
  shows "fs_inv s' (B(dir := bs))" "used s' = used s" "\<And>j. j \<noteq> dir \<Longrightarrow> inodes s' j = inodes s j"
    "i_mode (inodes s' dir) = i_mode (inodes s dir)" "i_fd (inodes s' dir) = i_fd (inodes s dir)"
    "i_parent (inodes s' dir) = i_parent (inodes s dir)" "i_dentry (inodes s' dir) \<noteq> Some []"
    "entries s' = (entries s)(dir := [d_name e \<mapsto> d_inode e] ++ entries s dir)"
proof -
  from nx obtain l where l: "i_dentry (inodes s dir) = Some l" "a = slot (rootfs_addr s) bs (length l)"
      "length bs = (length l + 2) div 2" "\<forall>k < length l. slot (rootfs_addr s) bs k = slot (rootfs_addr s) (B dir) k"
      "blocks_ok s bs" "\<forall>j. is_dir s j \<longrightarrow> j \<noteq> dir \<longrightarrow> set bs \<inter> set (B j) = {}"
    unfolding next_slot_def by blast
  have d: "is_dir s dir" using fs_invD(5) [OF inv] l(1) by blast
  note o = fs_invD(7) [OF inv d] and b = fs_invD(8) [OF inv d]
  note sz = dir_ok_size [OF o b l(1)]
  have ll: "l = map (slot (rootfs_addr s) (B dir)) [0..<length l]" "i_size (inodes s dir) = word_of_nat (56 * length l)"
      "\<forall>x \<in> set l. \<exists>d. dentries s x = Some d \<and> d_inode d \<in> used s"
    using o l(1) by (auto simp: dir_ok_def)
  define n where "n = (inodes s dir)\<lparr>i_dentry := Some (l @ [a]), i_size := word_of_nat (56 * (length l + 1)),
      i_blocks := word_of_nat (length bs)\<rparr>"
  have z: "i_size (inodes s dir) + DENTRY_SIZE = word_of_nat (56 * (length l + 1))" unfolding ll(2) by (simp add: config)
  have u: "unat (word_of_nat (56 * (length l + 1)) :: u32) = 56 * (length l + 1)" using sz(2) by (intro unat_word_of_nat32) simp
  have "fs_calculate_dentry_blocks FS_BLK_SIZE (56 * (length l + 1) div unat DENTRY_SIZE) = (length l + 2) div 2"
    by (simp add: fs_calculate_dentry_blocks_def config Let_def) presburger
  then have s': "s' = s\<lparr>inodes := (inodes s)(dir := n)\<rparr>"
    using r l(1) unfolding fs_link_dentry_def z Let_def u
    by (auto simp: seq_add_def upd_inode_def n_def l(3) split: if_splits)
  show us: "used s' = used s" "\<And>j. j \<noteq> dir \<Longrightarrow> inodes s' j = inodes s j"
    "i_mode (inodes s' dir) = i_mode (inodes s dir)" "i_fd (inodes s' dir) = i_fd (inodes s dir)"
    "i_parent (inodes s' dir) = i_parent (inodes s dir)" "i_dentry (inodes s' dir) \<noteq> Some []"
    by (simp_all add: s' used_def n_def)
  have new: "map (\<lambda>x. (d_name (the (dentries s x)), d_inode (the (dentries s x)))) (l @ [a])
      = map (\<lambda>x. (d_name (the (dentries s x)), d_inode (the (dentries s x)))) l @ [(d_name e, d_inode e)]"
    using e(1) by simp
  have "entries s' j = ((entries s)(dir := [d_name e \<mapsto> d_inode e] ++ entries s dir)) j" for j
  proof (cases "j = dir")
    case True
    then have "entries s' j = map_of (map (\<lambda>x. (d_name (the (dentries s x)), d_inode (the (dentries s x)))) (l @ [a]))"
      by (simp add: entries_def s' n_def)
    also have "\<dots> = [d_name e \<mapsto> d_inode e] ++ entries s dir" unfolding new map_of_append by (simp add: entries_def l(1))
    finally show ?thesis using True by simp
  next
    case False
    then have "entries s' j = entries s j" by (intro entries_cong) (simp_all add: s')
    with False show ?thesis by simp
  qed
  then show "entries s' = (entries s)(dir := [d_name e \<mapsto> d_inode e] ++ entries s dir)" by blast
  have dirs: "is_dir s' = is_dir s" by (auto simp: is_dir_def s' n_def fun_eq_iff)
  have "map (slot (rootfs_addr s) bs) [0..<length l] = l" by (subst (2) ll(1)) (use l(4) in simp)
  then have "l @ [a] = map (slot (rootfs_addr s) bs) [0..<length (l @ [a])]" using l(2) by simp
  then have "dir_ok s' bs dir" using l(3) ll(3) e us(1) by (auto simp: dir_ok_def s' n_def)
  moreover have "dir_ok s' (B j) j" if "j \<noteq> dir" "is_dir s j" for j
    using fs_invD(7) [OF inv that(2)] that(1) us(1) by (simp add: dir_ok_def s')
  ultimately have "dir_ok s' ((B(dir := bs)) j) j" if "is_dir s j" for j using that by simp
  moreover have "blocks_ok s' ((B(dir := bs)) j)" if "is_dir s j" for j
    using l(5) fs_invD(8) [OF inv that] by (simp add: blocks_ok_def s')
  moreover have "set ((B(dir := bs)) i) \<inter> set ((B(dir := bs)) j) = {}" if "is_dir s i" "is_dir s j" "i \<noteq> j" for i j
    using l(6) fs_invD(9) [OF inv that] that by auto
  moreover have "i_dentry (inodes s' j) \<noteq> None \<longleftrightarrow> is_dir s j" for j using fs_invD(5) [OF inv, of j] d by (simp add: s' n_def)
  moreover have "i_ino (inodes s' j) = j \<and> i_sync (inodes s' j) \<and> i_rdev (inodes s' j) = RDEV_ROOTFS \<and> i_parent (inodes s' j) \<in> used s"
    if "j \<in> used s" for j using fs_invD(10-13) [OF inv that] by (auto simp: s' n_def)
  ultimately show "fs_inv s' (B(dir := bs))"
    unfolding fs_inv_def us(1) dirs using fs_invD(1-4,6) [OF inv] by (simp add: s')
qed

lemma next_slot_cong:
  assumes "next_slot s B dir a bs" "rootfs_addr s' = rootfs_addr s" "bitmap_blks s' = bitmap_blks s"
    "i_dentry (inodes s' dir) = i_dentry (inodes s dir)" "\<And>j. is_dir s' j \<Longrightarrow> is_dir s j \<or> B j = []"
  shows "next_slot s' B dir a bs"
proof -
  have "blocks_ok s' bs = blocks_ok s bs" using assms(3) by (simp add: blocks_ok_def)
  moreover have "set bs \<inter> set (B j) = {}" if "\<forall>j. is_dir s j \<longrightarrow> j \<noteq> dir \<longrightarrow> set bs \<inter> set (B j) = {}" "is_dir s' j" "j \<noteq> dir" for j
    using that assms(5) [OF that(2)] by auto
  ultimately show ?thesis using assms(1) unfolding next_slot_def assms(2,4) by auto
qed

text \<open>The address of the first entry is kept in the inode of the directory, too.\<close>

lemma fs_data_inv:
  assumes inv: "fs_inv s B" and s': "s' = upd_inode d (i_data_update f) s"
  shows "fs_inv s' B" "entries s' = entries s" "used s' = used s" "next_slot s B dir a bs \<Longrightarrow> next_slot s' B dir a bs"
    "i_mode (inodes s' j) = i_mode (inodes s j)" "i_fd (inodes s' j) = i_fd (inodes s j)"
    "i_parent (inodes s' j) = i_parent (inodes s j)" "i_dentry (inodes s' j) = i_dentry (inodes s j)" "dentries s' = dentries s"
proof -
  have dirs: "is_dir s' = is_dir s" by (auto simp: is_dir_def s' upd_inode_def fun_eq_iff)
  have non: "\<not> is_dir s j \<Longrightarrow> i_dentry (inodes s j) = None" for j using fs_invD(5) [OF inv, of j] by blast
  show u: "used s' = used s" by (simp add: used_def s' upd_inode_def)
  show f: "i_mode (inodes s' j) = i_mode (inodes s j)" "i_fd (inodes s' j) = i_fd (inodes s j)"
    "i_parent (inodes s' j) = i_parent (inodes s j)" "i_dentry (inodes s' j) = i_dentry (inodes s j)" "dentries s' = dentries s" for j
    by (auto simp: s' upd_inode_def)
  have g: "i_size (inodes s' j) = i_size (inodes s j)" "i_blocks (inodes s' j) = i_blocks (inodes s j)"
    "i_ino (inodes s' j) = i_ino (inodes s j)" "i_sync (inodes s' j) = i_sync (inodes s j)" "i_rdev (inodes s' j) = i_rdev (inodes s j)" for j
    by (auto simp: s' upd_inode_def)
  have h: "bitmap_inodes s' = bitmap_inodes s" "bitmap_blks s' = bitmap_blks s" "rootfs_addr s' = rootfs_addr s"
    by (simp_all add: s' upd_inode_def)
  show "fs_inv s' B"
    by (rule fs_inv_step [OF inv]) (use fs_invD(1,10-13) [OF inv] non dirs u f g h in simp_all)
  show "entries s' = entries s" by (rule ext, rule entries_cong) (simp_all add: f)
  show "next_slot s B dir a bs \<Longrightarrow> next_slot s' B dir a bs" by (erule next_slot_cong) (simp_all add: f h dirs)
qed

text \<open>The files that were there stay as they are.\<close>

definition grows :: "'a fsstate_scheme \<Rightarrow> 'a fsstate_scheme \<Rightarrow> bool" where
  "grows s s' \<longleftrightarrow> used s \<subseteq> used s' \<and> (\<forall>j \<in> used s. i_mode (inodes s' j) = i_mode (inodes s j)
     \<and> i_fd (inodes s' j) = i_fd (inodes s j) \<and> i_parent (inodes s' j) = i_parent (inodes s j)
     \<and> (i_dentry (inodes s' j) = Some [] \<longrightarrow> i_dentry (inodes s j) = Some []) \<and> entries s j \<subseteq>\<^sub>m entries s' j)"

lemma grows_refl [simp]: "grows s s"
  by (simp add: grows_def)

lemma growsD:
  assumes "grows s s'" "j \<in> used s"
  shows "j \<in> used s'" "i_mode (inodes s' j) = i_mode (inodes s j)" "i_fd (inodes s' j) = i_fd (inodes s j)"
    "i_parent (inodes s' j) = i_parent (inodes s j)" "i_dentry (inodes s' j) = Some [] \<Longrightarrow> i_dentry (inodes s j) = Some []"
    "entries s j \<subseteq>\<^sub>m entries s' j" "is_dir s' j = is_dir s j" "entries s j n = Some i \<Longrightarrow> entries s' j n = Some i"
proof -
  show m: "entries s j \<subseteq>\<^sub>m entries s' j" "j \<in> used s'" "i_mode (inodes s' j) = i_mode (inodes s j)" "i_fd (inodes s' j) = i_fd (inodes s j)"
    "i_parent (inodes s' j) = i_parent (inodes s j)" "i_dentry (inodes s' j) = Some [] \<Longrightarrow> i_dentry (inodes s j) = Some []"
    "is_dir s' j = is_dir s j"
    using assms unfolding grows_def is_dir_def by auto
  show "entries s j n = Some i \<Longrightarrow> entries s' j n = Some i" using m(1) by (metis domI map_le_def)
qed

lemma grows_trans:
  assumes "grows s s1" "grows s1 s2"
  shows "grows s s2"
proof -
  have "i_mode (inodes s2 j) = i_mode (inodes s j) \<and> i_fd (inodes s2 j) = i_fd (inodes s j)
      \<and> i_parent (inodes s2 j) = i_parent (inodes s j) \<and> (i_dentry (inodes s2 j) = Some [] \<longrightarrow> i_dentry (inodes s j) = Some [])
      \<and> entries s j \<subseteq>\<^sub>m entries s2 j \<and> j \<in> used s2" if j: "j \<in> used s" for j
    using growsD(2-6) [OF assms(1) j] growsD(1-6) [OF assms(2) growsD(1) [OF assms(1) j]] map_le_trans by auto
  then show ?thesis unfolding grows_def by blast
qed

lemma grows_look: "grows s s' \<Longrightarrow> d \<in> used s \<Longrightarrow> look s d n = Some i \<Longrightarrow> look s' d n = Some i"
  using growsD(4,5,8) [of s s' d] by (auto simp: look_def split: if_splits)

lemma grows_same_fs: "same_fs s1 s2 \<Longrightarrow> grows s s2 = grows s s1"
  using same_fs_cong(1,5) [of s1 s2] unfolding grows_def by (simp add: same_fs_def)

lemma fs_clear_events_fs: "fs_clear_events fd s = Some s' \<Longrightarrow> same_fs s s'"
  by (auto simp: fs_clear_events_def same_fs_def set_file_def bind_eq_Some_iff)

text \<open>The steps up to the type of the file.\<close>

lemma fs_add_file_prepare:
  assumes inv: "fs_inv s B" and dir: "dir \<in> used s"
    and a1: "fs_alloc_inode s = Some (s1, Some i)"
    and s2: "s2 = upd_inode i (\<lambda>n. n\<lparr>i_rdev := RDEV_ROOTFS, i_parent := i_ino (inodes s1 dir), i_fd := fd, i_sync := True\<rparr>) s1"
    and a3: "fs_allocate_dentry dir s2 = Some (s3, Some a)" and s4: "s4 = s3\<lparr>dentries := (dentries s3)(a \<mapsto> e)\<rparr>"
  obtains B' where "fs_inv s4 B'" "B' i = []" "is_dir s dir \<Longrightarrow> \<exists>bs. next_slot s4 B' dir a bs" "i \<notin> used s" "used s4 = insert i (used s)"
    "\<not> is_dir s4 i" "i_fd (inodes s4 i) = fd" "\<And>j. j \<noteq> i \<Longrightarrow> inodes s4 j = inodes s j" "entries s4 = entries s"
    "i_ino (inodes s3 i) = i" "is_dir s4 dir = is_dir s dir"
proof -
  note f = fs_alloc_inode_inv [OF inv a1 dir s2]
  let ?B = "B(i := [])"
  have inv2: "fs_inv s2 ?B" by (rule fs_inv_nondir [OF f(1,4)])
  have d2: "is_dir s2 dir = is_dir s dir" using f(2,5) dir by (metis is_dir_def)
  have "(s3 = s2 \<or> s3 = s2\<lparr>s_blk_cnt := s_blk_cnt s3, bitmap_blks := bitmap_blks s3\<rparr>) \<and> fs_inv s3 ?B
      \<and> (is_dir s dir \<longrightarrow> (\<exists>bs. next_slot s3 ?B dir a bs)) \<and> (\<forall>j l. i_dentry (inodes s2 j) = Some l \<longrightarrow> a \<notin> set l)"
  proof (cases "unat (i_size (inodes s2 dir)) div 56 + 1 \<le> unat (i_blocks (inodes s2 dir)) * 2 \<and> i_size (inodes s2 dir) \<noteq> 0")
    case True
    then have fit: "unat (i_size (inodes s2 dir)) div 56 + 1 \<le> unat (i_blocks (inodes s2 dir)) * 2" "i_size (inodes s2 dir) \<noteq> 0" by blast+
    note o = fs_allocate_dentry_old [OF inv2 a3 fit]
    show ?thesis using o inv2 by blast
  next
    case False
    note o = fs_allocate_dentry_new [OF inv2 a3 False]
    show ?thesis using o d2 by blast
  qed
  then have s3: "s3 = s2 \<or> s3 = s2\<lparr>s_blk_cnt := s_blk_cnt s3, bitmap_blks := bitmap_blks s3\<rparr>" and inv3: "fs_inv s3 ?B"
    and nx: "is_dir s dir \<Longrightarrow> \<exists>bs. next_slot s3 ?B dir a bs" and fr: "\<forall>j l. i_dentry (inodes s2 j) = Some l \<longrightarrow> a \<notin> set l" by blast+
  have eq: "inodes s3 = inodes s2" "dentries s3 = dentries s2" "used s3 = used s2"
    by (rule disjE [OF s3]; erule ssubst; simp add: used_def)+
  have fr3: "\<forall>j l. i_dentry (inodes s3 j) = Some l \<longrightarrow> a \<notin> set l" using fr eq(1) by simp
  have inv4: "fs_inv s4 ?B" and e4: "entries s4 = entries s3" unfolding s4 by (rule fs_dentry_inv [OF inv3 fr3])+
  have eq4: "inodes s4 = inodes s2" "used s4 = used s2" using eq by (simp_all add: s4 used_def)
  show thesis
  proof (rule that [OF inv4])
    show "\<exists>bs. next_slot s4 ?B dir a bs" if d: "is_dir s dir"
    proof -
      from nx [OF d] obtain bs where n: "next_slot s3 ?B dir a bs" ..
      have "next_slot s4 ?B dir a bs" by (rule next_slot_cong [OF n]) (simp_all add: s4 is_dir_def)
      then show ?thesis ..
    qed
    show "i \<notin> used s" by (rule f(2))
    show "used s4 = insert i (used s)" using eq4 f(3) by simp
    show "\<not> is_dir s4 i" "is_dir s4 dir = is_dir s dir" using f(4) d2 eq4 by (simp_all add: is_dir_def)
    show "i_fd (inodes s4 i) = fd" "\<And>j. j \<noteq> i \<Longrightarrow> inodes s4 j = inodes s j" using f(5,6) eq4 by simp_all
    have none: "i_dentry (inodes s i) = None" "i_dentry (inodes s2 i) = None"
      using fs_invD(5,6) [OF inv, of i] f(2) fs_invD(5) [OF inv2, of i] f(4) by blast+
    show "entries s4 = entries s"
    proof (rule ext)
      fix j show "entries s4 j = entries s j" unfolding e4
        by (rule entries_cong) (use f(5,8) none in \<open>cases "j = i"; simp add: eq\<close>)+
    qed
    show "i_ino (inodes s3 i) = i" using fs_invD(10) [OF inv2, of i] f(3) by (simp add: eq)
  qed simp
qed

lemma growsI:
  assumes "i \<notin> used s" "used s' = insert i (used s)" "\<And>j. j \<noteq> i \<Longrightarrow> inodes s' j = inodes s j" "entries s' = entries s"
  shows "grows s s'"
proof -
  have "inodes s' j = inodes s j" if "j \<in> used s" for j using that assms(1,3) by metis
  then show ?thesis using assms(2,4) by (auto simp: grows_def)
qed

lemma fs_add_file_type:
  assumes inv: "fs_inv s4 B" "B i = []" "i \<in> used s4" "\<not> is_dir s4 i" and r: "fs_new_file fd i ft s4 = Some (s5, Inr 0)"
    and c: "fs_clear_events fd s5 = Some s6"
  shows "fs_inv s6 B" "entries s6 = entries s4" "used s6 = used s4"
    "i_mode (inodes s6 i) = ft" "i_fd (inodes s6 i) = i_fd (inodes s4 i)"
    "\<And>j. j \<noteq> i \<Longrightarrow> inodes s6 j = inodes s4 j" "dentries s6 = dentries s4"
    "dir \<noteq> i \<Longrightarrow> next_slot s4 B dir a bs \<Longrightarrow> next_slot s6 B dir a bs"
proof -
  define t where "t = upd_inode i (\<lambda>n. (empty_inode ft n)\<lparr>i_dentry := mode_list ft n\<rparr>) s4"
  have sf: "same_fs t s6"
    using fs_new_file_fs [OF r] by (auto simp: t_def intro: same_fs_trans [OF _ fs_clear_events_fs [OF c]])
  note f = fs_type_inv [OF inv(1,3,4,2) t_def] and sc = same_fs_cong [OF sf]
  have eq: "inodes s6 = inodes t" "dentries s6 = dentries t"
      "rootfs_addr s6 = rootfs_addr t" "bitmap_blks s6 = bitmap_blks t"
    using sf by (auto simp: same_fs_def)
  show "fs_inv s6 B" "entries s6 = entries s4" "used s6 = used s4"
    "i_mode (inodes s6 i) = ft" "i_fd (inodes s6 i) = i_fd (inodes s4 i)"
    "\<And>j. j \<noteq> i \<Longrightarrow> inodes s6 j = inodes s4 j" "dentries s6 = dentries s4"
    using f sc eq by simp_all
  have "is_dir s6 j \<Longrightarrow> is_dir s4 j \<or> B j = []" for j
    using f(5) [of j] eq inv(2) by (cases "j = i") (auto simp: is_dir_def)
  then show "next_slot s6 B dir a bs" if "dir \<noteq> i" "next_slot s4 B dir a bs"
    using f(5) [OF that(1)] f(8,9) eq by (intro next_slot_cong [OF that(2)]) simp_all
qed

text \<open>The end: the entry is linked.\<close>

lemma fs_add_file_link:
  assumes inv: "fs_inv s B" and nx: "next_slot s B dir a bs" and e: "dentries s a = Some e" "d_inode e \<in> used s"
    and s1: "same_fs s s1" and s2: "s2 = (if c then upd_inode dir (i_data_update f) s1 else s1)"
    and r: "fs_link_dentry dir a s2 = Some s'"
  shows "fs_wf s'" "grows s s'" "used s' = used s" "entries s' = (entries s)(dir := [d_name e \<mapsto> d_inode e] ++ entries s dir)"
proof -
  have eq1: "inodes s1 = inodes s" "dentries s1 = dentries s" "rootfs_addr s1 = rootfs_addr s" "bitmap_blks s1 = bitmap_blks s"
    using s1 by (auto simp: same_fs_def)
  have inv1: "fs_inv s1 B" "entries s1 = entries s" "used s1 = used s" "next_slot s1 B dir a bs"
    using same_fs_cong [OF s1] inv next_slot_cong [OF nx eq1(3,4)] by (simp_all add: eq1 is_dir_def)
  have inv2: "fs_inv s2 B" "entries s2 = entries s" "used s2 = used s" "next_slot s2 B dir a bs" "dentries s2 = dentries s"
      "\<And>j. i_mode (inodes s2 j) = i_mode (inodes s j) \<and> i_fd (inodes s2 j) = i_fd (inodes s j)
         \<and> i_parent (inodes s2 j) = i_parent (inodes s j) \<and> i_dentry (inodes s2 j) = i_dentry (inodes s j)"
    using fs_data_inv [OF inv1(1) refl, where d = dir and f = f] inv1 by (auto simp: s2 eq1)
  have e2: "dentries s2 a = Some e" "d_inode e \<in> used s2" using e inv2 by simp_all
  note l = fs_link_dentry_inv [OF inv2(1,4) r e2]
  show "fs_wf s'" using l(1) unfolding fs_wf_def by blast
  show u: "used s' = used s" "entries s' = (entries s)(dir := [d_name e \<mapsto> d_inode e] ++ entries s dir)" using l(2,8) inv2 by simp_all
  have "i_mode (inodes s' j) = i_mode (inodes s j) \<and> i_fd (inodes s' j) = i_fd (inodes s j) \<and> i_parent (inodes s' j) = i_parent (inodes s j)
      \<and> (i_dentry (inodes s' j) = Some [] \<longrightarrow> i_dentry (inodes s j) = Some [])" for j
    using l(3-7) inv2(6) [of j] by (cases "j = dir") auto
  moreover have "entries s j \<subseteq>\<^sub>m entries s' j" for j by (simp add: u map_le_map_add)
  ultimately show "grows s s'" unfolding grows_def u(1) by blast
qed

lemma fs_add_file_inv:
  fixes s :: "'a fsstate_scheme"
  assumes inv: "fs_inv s B" and dir: "dir \<in> used s" and r: "fs_add_file dir n ft s = Some (s', res)"
  shows "fs_wf s' \<and> grows s s' \<and> (\<forall>i. res = Some i \<longrightarrow> is_dir s dir \<and> i \<notin> used s \<and> used s' = insert i (used s)
       \<and> i_mode (inodes s' i) = ft \<and> i_fd (inodes s' i) = file_cnt s + FILE_RESERVED_NUM
       \<and> entries s' = (entries s)(dir := [take (NAME_MAX - 1) n \<mapsto> i] ++ entries s dir))"
proof (cases "unat (s_inode_cnt s) \<ge> INODE_MAX \<or> file_cnt s \<ge> FILE_MAX")
  case True
  with r inv show ?thesis by (auto simp: fs_add_file_def fs_wf_def split: if_splits)
next
  case False
  let ?fd = "file_cnt s + FILE_RESERVED_NUM"
  from r False obtain s1 i s3 a where a1: "fs_alloc_inode s = Some (s1, Some i)"
    and a3: "fs_allocate_dentry dir (upd_inode i (\<lambda>n. n\<lparr>i_rdev := RDEV_ROOTFS, i_parent := i_ino (inodes s1 dir), i_fd := ?fd, i_sync := True\<rparr>) s1)
        = Some (s3, Some a)" by (auto simp: fs_add_file_def bind_eq_Some_iff Let_def)
  define e where "e = \<lparr>d_name = take (NAME_MAX - 1) n, d_inode = i_ino (inodes s3 i), d_parent = i_ino (inodes s3 dir)\<rparr>"
  define s4 where "s4 = s3\<lparr>dentries := (dentries s3)(a \<mapsto> e)\<rparr>"
  define K where "K s5 q = (case q of Inl _ \<Rightarrow> Some (s5, None) | Inr result \<Rightarrow>
      fs_clear_events ?fd s5 \<bind> (\<lambda>s6.
        if result \<noteq> 0 then Some (s6, None)
        else fs_link_dentry dir a
          (let s7 = s6\<lparr>file_cnt := file_cnt s6 + 1\<rparr> in
           if i_dentry (inodes s7 dir) = Some [] then upd_inode dir (i_data_update (\<lambda>_. a)) s7 else s7) \<bind> (\<lambda>s9. Some (s9, Some i))))"
    for s5 :: "'a fsstate_scheme" and q :: "unit + int"
  have "fs_new_file ?fd i ft s4 \<bind> (\<lambda>(s5, q). K s5 q) = Some (s', res)"
    using r False a1 a3 unfolding fs_add_file_def s4_def e_def K_def Let_def by simp
  then obtain s5 q where a5: "fs_new_file ?fd i ft s4 = Some (s5, q)" and a6: "K s5 q = Some (s', res)"
    by (auto simp: bind_eq_Some_iff)
  obtain B' where p: "fs_inv s4 B'" "B' i = []" "is_dir s dir \<Longrightarrow> \<exists>bs. next_slot s4 B' dir a bs" "i \<notin> used s" "used s4 = insert i (used s)"
      "\<not> is_dir s4 i" "i_fd (inodes s4 i) = ?fd" "\<And>j. j \<noteq> i \<Longrightarrow> inodes s4 j = inodes s j" "entries s4 = entries s"
      "i_ino (inodes s3 i) = i" "is_dir s4 dir = is_dir s dir"
    using fs_add_file_prepare [OF inv dir a1 refl a3 s4_def] by blast
  have g4: "grows s s4" by (rule growsI [OF p(4,5,8,9)])
  have same: "fs_wf t \<and> grows s t" if "same_fs s4 t" for t
    using same_fs_cong(6) [OF that] p(1) grows_same_fs [OF that] g4 by (auto simp: fs_wf_def)
  show ?thesis
  proof (cases "q = Inr 0")
    case False
    then have "same_fs s4 s'" "res = None"
      using fs_new_file_fs [OF a5] a6
      by (auto simp: K_def bind_eq_Some_iff intro: same_fs_trans dest!: fs_clear_events_fs split: sum.splits if_splits)
    with same show ?thesis by simp
  next
    case True
    from a6 True obtain s6 where a7: "fs_clear_events ?fd s5 = Some s6" by (auto simp: K_def bind_eq_Some_iff)
    have i4: "i \<in> used s4" and ne: "dir \<noteq> i" using p(4,5) dir by auto
    have a5': "fs_new_file ?fd i ft s4 = Some (s5, Inr 0)" using a5 True by simp
    note t = fs_add_file_type [OF p(1,2) i4 p(6) a5' a7]
    let ?s7 = "s6\<lparr>file_cnt := file_cnt s6 + 1\<rparr>"
    let ?s8 = "if i_dentry (inodes s6 dir) = Some [] then upd_inode dir (i_data_update (\<lambda>_. a)) ?s7 else ?s7"
    from a6 True have link: "fs_link_dentry dir a ?s8 = Some s'" and res: "res = Some i"
      unfolding K_def by (auto simp: Let_def bind_eq_Some_iff a7)
    have "i_dentry (inodes ?s8 dir) \<noteq> None" using link unfolding fs_link_dentry_def bind_eq_Some_iff by blast
    then have "i_dentry (inodes s dir) \<noteq> None" using t(6) [OF ne] p(8) [OF ne] by (auto simp: upd_inode_def split: if_splits)
    then have d: "is_dir s dir" using fs_invD(5) [OF inv] by blast
    with p(3) obtain bs where "next_slot s4 B' dir a bs" by blast
    from t(8) [OF ne this] have nx: "next_slot s6 B' dir a bs" .
    have e: "dentries s6 a = Some e" "d_inode e \<in> used s6" using t(3,7) p(10) i4 by (simp_all add: s4_def e_def)
    have s7: "same_fs s6 ?s7" by (simp add: same_fs_def)
    note l = fs_add_file_link [OF t(1) nx e s7 refl link]
    have g6: "grows s s6"
      by (rule growsI [OF p(4)]) (use t p in simp_all)
    have "grows s s'" by (rule grows_trans [OF g6 l(2)])
    moreover have "i \<in> used s6" using i4 t(3) by simp
    note m = growsD(2,3) [OF l(2) this]
    ultimately show ?thesis using l(1,3,4) d res p(4,5,7,9,10) t(2,3,4,5) m by (simp add: e_def)
  qed
qed

section \<open>Creating and opening\<close>

definition name_ok :: "string \<Rightarrow> bool" where
  "name_ok n \<longleftrightarrow> n \<noteq> ''.'' \<and> n \<noteq> ''..'' \<and> length n < NAME_MAX"

primrec walk :: "'a fsstate_scheme \<Rightarrow> string list \<Rightarrow> nat \<Rightarrow> nat option" where
  "walk s [] d = Some d"
| "walk s (n # ns) d = (if is_dir s d then (case look s d n of None \<Rightarrow> None | Some i \<Rightarrow> walk s ns i) else None)"

lemma open_names_walk:
  "fs_inv s B \<Longrightarrow> is_dir s d \<Longrightarrow> ns \<noteq> [] \<Longrightarrow>
   open_names rd ns d s = Some (s, case walk s ns d of None \<Rightarrow> -1 | Some i \<Rightarrow> if is_dir s i then -1 else int (i_fd (inodes s i)))"
proof (induction ns arbitrary: d)
  case (Cons n ns)
  note f = fs_search_file_look [OF Cons.prems(1,2), of rd n]
  show ?case
  proof (cases "look s d n")
    case (Some i)
    then have "i_rdev (inodes s i) = RDEV_ROOTFS" using look_used [OF Cons.prems(1,2)] fs_invD(12) [OF Cons.prems(1)] by blast
    with Some f Cons show ?thesis by (cases ns) (auto simp: is_dir_def)
  qed (simp add: f Cons.prems)
qed simp

lemma walk_grows: "grows s s' \<Longrightarrow> fs_inv s B \<Longrightarrow> d \<in> used s \<Longrightarrow> walk s ns d = Some i \<Longrightarrow> walk s' ns d = Some i \<and> i \<in> used s"
proof (induction ns arbitrary: d)
  case (Cons n ns)
  then obtain j where j: "is_dir s d" "look s d n = Some j" "walk s ns j = Some i" by (auto split: if_splits option.splits)
  have "j \<in> used s" using look_used [OF Cons.prems(2) j(1,2)] .
  with Cons j have "walk s' ns j = Some i \<and> i \<in> used s" by blast
  moreover have "look s' d n = Some j" "is_dir s' d" using grows_look growsD(7) Cons.prems(1,3) j by blast+
  ultimately show ?case by simp
qed simp

lemma search_nondir:
  assumes "fs_inv s B" "d \<in> used s" "\<not> is_dir s d" "name_ok n" "fs_search_file rd d n s = Some (s1, r)"
  shows "s1 = s \<and> r = None"
proof -
  have "i_dentry (inodes s d) = None" using fs_invD(5) [OF assms(1), of d] assms(3) by blast
  with assms(4,5) fs_invD(11) [OF assms(1,2)] show ?thesis by (auto simp: fs_search_file_def name_ok_def split: if_splits)
qed

lemma look_name_ok: "name_ok n \<Longrightarrow> look s d n = entries s d n"
  by (auto simp: look_def name_ok_def entries_def)

text \<open>One component: it is there, it is added, or the call fails.\<close>

lemma add_component:
  assumes inv: "fs_inv s B" and d: "d \<in> used s" and n: "name_ok n" and look: "look s d n = None \<or> \<not> is_dir s d"
    and add: "fs_add_file d n' ft s = Some (s2, Some i)" and n': "take (NAME_MAX - 1) n' = n"
  shows "fs_wf s2" "grows s s2" "i \<in> used s2" "i \<notin> used s" "is_dir s2 d" "look s2 d n = Some i" "i_mode (inodes s2 i) = ft"
proof -
  note a = fs_add_file_inv [OF inv d add]
  from a have b: "fs_wf s2" "grows s s2" "is_dir s d" "i \<notin> used s" "used s2 = insert i (used s)" "i_mode (inodes s2 i) = ft"
      "entries s2 = (entries s)(d := [n \<mapsto> i] ++ entries s d)" unfolding n' by blast+
  then show "fs_wf s2" "grows s s2" "i \<in> used s2" "i \<notin> used s" "i_mode (inodes s2 i) = ft" by simp_all
  show "is_dir s2 d" using growsD(7) [OF b(2) d] b(3) by simp
  have "entries s d n = None" using look b(3) look_name_ok [OF n, of s d] by simp
  then have "entries s2 d n = Some i" by (simp add: b(7) map_add_def)
  then show "look s2 d n = Some i" using look_name_ok [OF n, of s2 d] by simp
qed

lemma create_names_ok:
  "fs_wf s \<Longrightarrow> d \<in> used s \<Longrightarrow> \<forall>n \<in> set ns. name_ok n \<Longrightarrow> ns \<noteq> [] \<Longrightarrow> create_names rd ft ns d s = Some (s', fd) \<Longrightarrow> 0 \<le> fd \<Longrightarrow>
   fs_wf s' \<and> grows s s' \<and> (\<exists>i. walk s' ns d = Some i \<and> i \<notin> used s \<and> i_mode (inodes s' i) = ft \<and> fd = int (i_fd (inodes s' i)))"
proof (induction ns arbitrary: d s)
  case (Cons n ns)
  obtain B where inv: "fs_inv s B" using Cons.prems(1) by (auto simp: fs_wf_def)
  have n: "name_ok n" using Cons.prems(3) by simp
  have tk: "take (NAME_MAX - 1) n = n" using n by (simp add: name_ok_def config)
  show ?case
  proof (cases "is_dir s d \<and> look s d n \<noteq> None")
    case True
    then obtain i where i: "is_dir s d" "look s d n = Some i" by blast
    note f = fs_search_file_look [OF inv i(1), of rd n]
    have ns: "ns \<noteq> []" and c: "create_names rd ft ns i s = Some (s', fd)"
      using Cons.prems(5,6) by (auto simp: f i(2) split: if_splits)
    have "i \<in> used s" using look_used [OF inv i] .
    from Cons.IH [OF Cons.prems(1) this _ ns c Cons.prems(6)] Cons.prems(3) obtain k where
      k: "fs_wf s'" "grows s s'" "walk s' ns i = Some k" "k \<notin> used s" "i_mode (inodes s' k) = ft" "fd = int (i_fd (inodes s' k))" by auto
    have "walk s' (n # ns) d = Some k" using k(3) grows_look [OF k(2) Cons.prems(2) i(2)] growsD(7) [OF k(2) Cons.prems(2)] i(1) by simp
    with k show ?thesis by blast
  next
    case False
    then have look: "look s d n = None \<or> \<not> is_dir s d" by blast
    have f: "fs_search_file rd d n s = Some (s, None)"
    proof (cases "is_dir s d")
      case True
      with fs_search_file_look [OF inv True] look show ?thesis by simp
    next
      case nd: False
      obtain s1 q where q: "fs_search_file rd d n s = Some (s1, q)" using Cons.prems(5) by (auto simp: bind_eq_Some_iff)
      with search_nondir [OF inv Cons.prems(2) nd n q] show ?thesis by simp
    qed
    let ?n = "if ns = [] then take (NAME_MAX - 1) n else n" and ?t = "if ns = [] then ft else S_IFDIR"
    from Cons.prems(5,6) obtain s2 i where add: "fs_add_file d ?n ?t s = Some (s2, Some i)"
      and c: "if ns = [] then s' = s2 \<and> fd = int (i_fd (inodes s2 i)) else create_names rd ft ns i s2 = Some (s', fd)"
      by (auto simp: f bind_eq_Some_iff split: option.splits if_splits)
    have n': "take (NAME_MAX - 1) ?n = n" using tk by simp
    note a = add_component [OF inv Cons.prems(2) n look add n']
    show ?thesis
    proof (cases "ns = []")
      case True
      with a c show ?thesis by (intro conjI exI [of _ i]) simp_all
    next
      case ns: False
      from Cons.IH [OF a(1,3) _ ns _ Cons.prems(6)] c ns Cons.prems(3) obtain k where
        k: "fs_wf s'" "grows s2 s'" "walk s' ns i = Some k" "k \<notin> used s2" "i_mode (inodes s' k) = ft" "fd = int (i_fd (inodes s' k))" by auto
      have d2: "d \<in> used s2" using growsD(1) [OF a(2) Cons.prems(2)] .
      have "walk s' (n # ns) d = Some k" using k(3) grows_look [OF k(2) d2 a(6)] growsD(7) [OF k(2) d2] a(5) by simp
      moreover have "k \<notin> used s" using k(4) growsD(1) [OF a(2)] by blast
      ultimately show ?thesis using k grows_trans [OF a(2) k(2)] by blast
    qed
  qed
qed simp

lemma slash_split: "fs_split_path (Some (CHR ''/'' # p)) = Some ([], if p = [] then None else Some p)"
  by (simp add: fs_split_path_def config)

lemma slash_names: "path_names (CHR ''/'' # p) = path_names p"
  by (subst path_names.simps) (simp add: path_head_def path_rest_def)

lemma slash_clean: "clean_path (CHR ''/'' # p) \<Longrightarrow> p \<noteq> [] \<and> clean_path p"
  by (auto simp: clean_path_def short_names_def slash_names split: if_splits)

lemma fs_open_file_walk:
  assumes "fs_inv s B" "clean_path path" "hd path = CHR ''/''"
  shows "fs_open_file rd path s =
    Some (s, case walk s (path_names path) 0 of None \<Rightarrow> -1 | Some i \<Rightarrow> if is_dir s i then -1 else int (i_fd (inodes s i)))"
proof -
  obtain p where p: "path = CHR ''/'' # p" using assms(2,3) by (cases path) (auto simp: clean_path_def)
  then have c: "p \<noteq> []" "clean_path p" using slash_clean assms(2) by auto
  have "last path \<noteq> CHR ''/''" using assms(2) by (simp add: clean_path_def)
  from open_walk_names [OF c(2) this] have "fs_open_file rd path s = open_names rd (path_names p) 0 s"
    using c(1) p by (simp add: fs_open_file_def slash_split)
  then show ?thesis using open_names_walk [OF assms(1) fs_invD(4) [OF assms(1)] clean_path_names [OF c(2)]] p slash_names by simp
qed

lemma fs_create_file_names:
  assumes "clean_path path" "hd path = CHR ''/''"
  shows "fs_create_file rd path ft s = create_names rd ft (path_names path) 0 s"
proof -
  obtain p where p: "path = CHR ''/'' # p" using assms by (cases path) (auto simp: clean_path_def)
  then have "p \<noteq> []" "clean_path p" using slash_clean assms by auto
  with p show ?thesis by (simp add: fs_create_file_def slash_split create_walk_names slash_names)
qed

text \<open>A slash at the end of the path: creating ignores it, opening never returns a file.\<close>

lemma path_split_slash:
  "path_head (p @ ''/'') = path_head p" "path_rest (p @ ''/'') = (if CHR ''/'' \<in> set p then path_rest p @ ''/'' else [])"
  by (induction p) (auto simp: path_head_def path_rest_def)

lemma path_rest_slash: "p \<noteq> [] \<Longrightarrow> last p \<noteq> CHR ''/'' \<Longrightarrow> path_rest p = [] \<longleftrightarrow> CHR ''/'' \<notin> set p"
  by (induction p) (auto simp: path_rest_def split: if_splits)

lemma path_names_slash: "p = [] \<or> last p \<noteq> CHR ''/'' \<Longrightarrow> path_names (p @ ''/'') = path_names p"
proof (induction p rule: path_names.induct)
  case (1 p)
  show ?case
  proof (cases "p = []")
    case False
    with 1(3) have l: "last p \<noteq> CHR ''/''" by simp
    note r = path_rest_slash [OF False l]
    have "path_rest p \<noteq> [] \<Longrightarrow> path_names (path_rest p @ ''/'') = path_names (path_rest p)"
      using 1(1,2) [OF False] path_rest_last [of p] l by (cases "path_head p = []") auto
    then show ?thesis using False r by (subst (1 2) path_names.simps) (auto simp: path_split_slash)
  qed (simp add: path_names.simps [of "''/''"] path_names.simps [of "[]"] path_head_def path_rest_def)
qed

lemma create_walk_slash: "clean_path p \<Longrightarrow> create_walk rd d (p @ ''/'') ft s = create_walk rd d p ft s"
proof (induction rd d p ft s rule: create_walk.induct)
  case (1 rd d p ft s)
  have p: "p \<noteq> []" "short_names p" "last p \<noteq> CHR ''/''" using 1(4) by (auto simp: clean_path_def)
  have q: "short_names (p @ ''/'')" using p by (simp add: short_names_def path_names_slash)
  note sp = short_names_split(1) [OF p(1,2)] and sq = short_names_split(1) [OF _ q]
  note r = path_rest_slash [OF p(1,3)]
  show ?case
  proof (cases "path_rest p = []")
    case True
    then have "path_rest (p @ ''/'') = []" using r by (simp add: path_split_slash)
    moreover have "path_head p \<noteq> []" using path_head_Nil p True by blast
    ultimately show ?thesis using True sp sq p(1) by (simp add: create_walk.simps [of rd d] path_split_slash(1))
  next
    case False
    then have r': "path_rest (p @ ''/'') = path_rest p @ ''/''" using r by (simp add: path_split_slash)
    have c: "clean_path (path_rest p)" by (rule clean_path_rest [OF 1(4) False])
    have sp': "fs_split_path (Some p) = Some (path_head p, Some (path_rest p))" using sp False by simp
    have a: "create_walk rd d (path_rest p @ ''/'') ft s = create_walk rd d (path_rest p) ft s" if "path_head p = []"
      using 1(1) [OF sp' refl that refl c] .
    have b: "create_walk rd i (path_rest p @ ''/'') ft s1 = create_walk rd i (path_rest p) ft s1"
      if "path_head p \<noteq> []" "fs_search_file rd d (path_head p) s = Some (s1, Some i)" for s1 i
      using 1(3) [OF sp' refl that refl refl refl c] .
    have e: "create_walk rd i (path_rest p @ ''/'') ft s2 = create_walk rd i (path_rest p) ft s2"
      if "path_head p \<noteq> []" "fs_search_file rd d (path_head p) s = Some (s1, None)"
        "fs_add_file d (path_head p) S_IFDIR s1 = Some (s2, Some i)" for s1 s2 i
      using 1(2) [OF sp' refl that(1,2) refl refl refl that(3) refl refl c] .
    show ?thesis using sp' sq p(1) r' a b e False
      by (auto simp: create_walk.simps [of rd d] path_split_slash(1) split: option.split prod.split)
  qed
qed

lemma open_walk_slash:
  "fs_inv s B \<Longrightarrow> is_dir s d \<Longrightarrow> p \<noteq> [] \<Longrightarrow> short_names p \<Longrightarrow> last pn = CHR ''/'' \<Longrightarrow> open_walk rd pn d p s = Some (s, -1)"
proof (induction rd pn d p s rule: open_walk.induct)
  case (1 rd pn d p s)
  note sp = short_names_split(1) [OF 1(5,6)] and f = fs_search_file_look [OF 1(3,4), of rd "path_head p"]
  have sr: "path_rest p \<noteq> [] \<Longrightarrow> short_names (path_rest p)" using short_names_split(2) [OF 1(5,6)] by blast
  show ?case
  proof (cases "path_head p = []")
    case True
    then show ?thesis using 1(1) [OF sp refl True _ 1(3,4) _ _ 1(7)] sp sr by (simp add: open_walk.simps [of rd pn d])
  next
    case False
    have "open_walk rd pn i (path_rest p) s = Some (s, -1)"
      if "look s d (path_head p) = Some i" "path_rest p \<noteq> []" "i_mode (inodes s i) = S_IFDIR" for i
      using 1(2) [OF sp refl False f refl that(1)] that 1(3,7) sr by (simp add: is_dir_def)
    then show ?thesis using False sp f 1(7) by (auto simp: open_walk.simps [of rd pn d] split: option.split)
  qed
qed

lemma slash_path:
  assumes "clean_path path" "hd path = CHR ''/''"
  shows "fs_create_file rd (path @ ''/'') ft s = fs_create_file rd path ft s"
    "fs_inv t B \<Longrightarrow> fs_open_file rd (path @ ''/'') t = Some (t, -1)"
proof -
  obtain p where p: "path = CHR ''/'' # p" using assms by (cases path) (auto simp: clean_path_def)
  then have c: "p \<noteq> []" "clean_path p" using slash_clean assms by auto
  show "fs_create_file rd (path @ ''/'') ft s = fs_create_file rd path ft s"
    using create_walk_slash [OF c(2)] p c(1) by (simp add: fs_create_file_def slash_split)
  have "short_names (p @ ''/'')" using c by (simp add: clean_path_def short_names_def path_names_slash)
  then show "fs_open_file rd (path @ ''/'') t = Some (t, -1)" if "fs_inv t B"
    using open_walk_slash [OF that fs_invD(4) [OF that], of "p @ ''/''"] p c(1) by (simp add: fs_open_file_def slash_split)
qed

text \<open>A new directory: its number has no file object, and the store of the events is undefined.\<close>

lemma fs_add_directory_undefined:
  assumes "files s (file_cnt s + FILE_RESERVED_NUM) = None"
  shows "fs_add_file d n S_IFDIR s \<noteq> Some (s', Some i)"
proof
  assume "fs_add_file d n S_IFDIR s = Some (s', Some i)"
  moreover have "files s1 = files s" if "fs_alloc_inode s = Some (s1, r)" for s1 r
    using that by (auto simp: fs_alloc_inode_def bind_eq_Some_iff upd_inode_def split: if_splits)
  moreover have "files t1 = files t" if "fs_allocate_dentry d t = Some (t1, r)" for t t1 :: "'a fsstate_scheme" and r
    using that by (auto simp: fs_allocate_dentry_def fs_alloc_block_def Let_def bind_eq_Some_iff split: if_splits)
  ultimately show False using assms modes_distinct
    by (fastforce simp: fs_add_file_def fs_new_file_def fs_clear_events_def Let_def bind_eq_Some_iff upd_inode_def split: if_splits)
qed

lemma create_names_parent:
  "fs_inv s B \<Longrightarrow> d \<in> used s \<Longrightarrow> files s (file_cnt s + FILE_RESERVED_NUM) = None \<Longrightarrow> \<forall>n \<in> set ns. name_ok n \<Longrightarrow> ns \<noteq> [] \<Longrightarrow>
   create_names rd ft ns d s = Some (s', fd) \<Longrightarrow> 0 \<le> fd \<Longrightarrow> \<exists>e. walk s (butlast ns) d = Some e \<and> is_dir s e"
proof (induction ns arbitrary: d)
  case (Cons n ns)
  have n: "name_ok n" using Cons.prems(4) by simp
  obtain s1 q where q: "fs_search_file rd d n s = Some (s1, q)" using Cons.prems(6) by (auto simp: bind_eq_Some_iff)
  have s1: "s1 = s" using q search_nondir [OF Cons.prems(1,2) _ n q] fs_search_file_look [OF Cons.prems(1)] by (cases "is_dir s d") auto
  show ?case
  proof (cases q)
    case None
    with Cons.prems(6,7) q s1 obtain s2 i where add: "fs_add_file d (if ns = [] then take (NAME_MAX - 1) n else n) (if ns = [] then ft else S_IFDIR) s = Some (s2, Some i)"
      by (auto simp: bind_eq_Some_iff split: option.splits if_splits)
    with fs_add_directory_undefined [OF Cons.prems(3)] have "ns = []" by (auto split: if_splits)
    then show ?thesis using fs_add_file_inv [OF Cons.prems(1,2) add] by simp
  next
    case (Some i)
    have d: "is_dir s d" using search_nondir [OF Cons.prems(1,2) _ n q] Some by blast
    then have l: "look s d n = Some i" using q Some by (auto simp: fs_search_file_look [OF Cons.prems(1) d, of rd n])
    from Cons.prems(6,7) have ns: "ns \<noteq> []" and c: "create_names rd ft ns i s = Some (s', fd)" using q s1 Some by (auto split: if_splits)
    from Cons.IH [OF Cons.prems(1) look_used [OF Cons.prems(1) d l] Cons.prems(3) _ ns c Cons.prems(7)] Cons.prems(4) ns d l
    show ?thesis by simp
  qed
qed simp

text \<open>
  C28. \<^verbatim>\<open>fs_create_file\<close> and \<^verbatim>\<open>fs_open_file\<close> in a file system in which nothing is mounted, for an absolute path that does not
  end in a slash and whose components are shorter than \<^const>\<open>NAME_MAX\<close> and are not the dot names. When creating a file
  that is not a directory has returned a number, then opening the same path returns this number, without a change of the
  state; the file has the requested type; the directories keep the form that the invariant \<^const>\<open>fs_wf\<close> asks for; and every
  path that led to a file before still leads to the same file. With a slash behind the path creating does the same, but
  opening that path returns -1. The directory of the file was there before, when the next number has no file object:
  creating does not get past a missing directory on the way, because the new directory has no file object either and its
  events are cleared through a null pointer.
\<close>

theorem create_open_roundtrip:
  assumes wf: "fs_wf s" and path: "clean_path path" "hd path = CHR ''/''" "\<forall>n \<in> set (path_names path). name_ok n"
    and c: "fs_create_file rd path ft s = Some (s', fd)" "0 \<le> fd" and ft: "ft \<noteq> S_IFDIR"
  shows "fs_wf s' \<and> fs_open_file rd' path s' = Some (s', fd)
    \<and> (\<exists>i. walk s' (path_names path) 0 = Some i \<and> i \<notin> used s \<and> i_mode (inodes s' i) = ft \<and> fd = int (i_fd (inodes s' i)))
    \<and> (\<forall>q n. clean_path q \<and> hd q = CHR ''/'' \<and> fs_open_file rd' q s = Some (s, n) \<and> 0 \<le> n \<longrightarrow> fs_open_file rd' q s' = Some (s', n))
    \<and> fs_create_file rd (path @ ''/'') ft s = Some (s', fd) \<and> fs_open_file rd' (path @ ''/'') s' = Some (s', -1)
    \<and> (files s (file_cnt s + FILE_RESERVED_NUM) = None \<longrightarrow> (\<exists>d. walk s (butlast (path_names path)) 0 = Some d \<and> is_dir s d))"
proof -
  obtain B where inv: "fs_inv s B" using wf by (auto simp: fs_wf_def)
  have cn: "create_names rd ft (path_names path) 0 s = Some (s', fd)" using c(1) unfolding fs_create_file_names [OF path(1,2)] .
  from create_names_ok [OF wf fs_invD(3) [OF inv] path(3) clean_path_names [OF path(1)] this c(2)] obtain i where
    i: "fs_wf s'" "grows s s'" "walk s' (path_names path) 0 = Some i" "i \<notin> used s" "i_mode (inodes s' i) = ft" "fd = int (i_fd (inodes s' i))"
    by blast
  obtain B' where inv': "fs_inv s' B'" using i(1) by (auto simp: fs_wf_def)
  have "fs_open_file rd' path s' = Some (s', fd)"
    using fs_open_file_walk [OF inv' path(1,2)] i ft by (simp add: is_dir_def)
  moreover have "fs_open_file rd' q s' = Some (s', n)"
    if q: "clean_path q" "hd q = CHR ''/''" "fs_open_file rd' q s = Some (s, n)" "0 \<le> n" for q n
  proof -
    from q(3,4) obtain k where k: "walk s (path_names q) 0 = Some k" "\<not> is_dir s k" "n = int (i_fd (inodes s k))"
      unfolding fs_open_file_walk [OF inv q(1,2)] by (auto split: option.splits if_splits)
    have w: "walk s' (path_names q) 0 = Some k" "k \<in> used s" using walk_grows [OF i(2) inv fs_invD(3) [OF inv] k(1)] by blast+
    show ?thesis unfolding fs_open_file_walk [OF inv' q(1,2)] using w k(2,3) growsD(3,7) [OF i(2) w(2)] by simp
  qed
  moreover have "fs_create_file rd (path @ ''/'') ft s = Some (s', fd)" "fs_open_file rd' (path @ ''/'') s' = Some (s', -1)"
    by (rule trans [OF slash_path(1) [OF path(1,2)] c(1)], rule slash_path(2) [OF path(1,2) inv'])
  moreover note create_names_parent [OF inv fs_invD(3) [OF inv] _ path(3) clean_path_names [OF path(1)] cn c(2)]
  ultimately show ?thesis using i by blast
qed

definition demo_inode :: "nat \<Rightarrow> inode" where
  "demo_inode i = \<lparr>i_mode = (if i = 0 then S_IFDIR else S_IFIFO), i_rdev = RDEV_ROOTFS, i_sync = True, i_ino = 0, i_parent = 0, i_fd = 0,
     i_size = 0, i_blocks = 0, i_data = 0, i_dentry = (if i = 0 then Some [] else None)\<rparr>"

definition demo_fs :: fsstate where
  "demo_fs = fdstate.extend
     (demo_fdstate\<lparr>files := Map.empty, slabs := [0x20000100 \<mapsto> \<lparr>sl_free_bitmap = [0], sl_free_objects = 7\<rparr>],
        slab_links := [((Cache_At 32, Slabs_partial), 0x20000100)],
        kcaches := [Cache_At 32 \<mapsto> \<lparr>c_objsize = 32, c_objnum = 7, c_page_order = 0, c_name = ''kmalloc-32''\<rparr>],
        kmalloc_caches := [Some (Cache_At 32)]\<rparr>)
     (fsstate.fields demo_inode (\<lambda>_. None) (\<lambda>_. 0) 0x20030000 0x20020000 [1, 0, 0, 0] [0, 0, 0, 0] 1 0 (\<lambda>_. None) 1 0 None (\<lambda>_. 0) 0)"

lemma demo_fs_sel:
  "inodes demo_fs = demo_inode" "bitmap_inodes demo_fs = [1, 0, 0, 0]" "bitmap_blks demo_fs = [0, 0, 0, 0]"
  by (simp_all add: demo_fs_def fdstate.defs fsstate.defs)

lemma demo_fs_wf: "fs_wf demo_fs"
proof -
  have u: "used demo_fs = {0}"
    by (auto simp: used_def bm_set_def bm_bit_def demo_fs_sel nth_Cons' bit_1_iff)
  have d: "is_dir demo_fs i \<longleftrightarrow> i = 0" for i by (simp add: is_dir_def demo_fs_sel demo_inode_def config)
  have "fs_inv demo_fs (\<lambda>_. [])"
    unfolding fs_inv_def d u by (simp add: demo_fs_sel demo_inode_def dir_ok_def blocks_ok_def)
  then show ?thesis unfolding fs_wf_def by blast
qed

theorem create_open_roundtrip_witness:
  "\<exists>s'. fs_create_file (\<lambda>_ _ _. None) ''/b'' S_IFREG demo_fs = Some (s', 67) \<and> fs_wf s' \<and> fs_open_file (\<lambda>_ _ _. None) ''/b'' s' = Some (s', 67)"
proof -
  have "map_option snd (fs_create_file (\<lambda>_ _ _. None) ''/b'' S_IFREG demo_fs) = Some 67" by code_simp
  then obtain s' where s': "fs_create_file (\<lambda>_ _ _. None) ''/b'' S_IFREG demo_fs = Some (s', 67)" by auto
  have n: "path_names ''/b'' = [''b'']" by code_simp
  have "clean_path ''/b''" "hd ''/b'' = CHR ''/''" "\<forall>n \<in> set (path_names ''/b''). name_ok n"
    unfolding clean_path_def short_names_def n by (simp_all add: name_ok_def config)
  from create_open_roundtrip [OF demo_fs_wf this s' _ modes_distinct(4)] s' show ?thesis by auto
qed

section \<open>Paths as lists of names\<close>

text \<open>
  The three calls that follow a path agree with definitions over the list of the components of the path, the maximal
  runs of characters without a slash. \<^verbatim>\<open>fs_open_directory\<close> resolves the components one after the other and then loads
  the directory, except for the path that is a single slash, which is the root. For a path that does not end in a slash,
  \<^verbatim>\<open>fs_open_file\<close> and \<^verbatim>\<open>fs_create_file\<close> handle the components in order as \<^const>\<open>open_names\<close> and \<^const>\<open>create_names\<close> do.
\<close>

theorem path_calls_by_components:
  assumes "hd path = CHR ''/''" "path \<noteq> []" "short_names path"
  shows "fs_open_directory rd path s =
      (if path = ''/'' then Some (s, Some 0)
       else do {
         (s1, r) \<leftarrow> resolve rd (path_names path) 0 s;
         case r of
           None \<Rightarrow> Some (s1, None)
         | Some i \<Rightarrow> do {
             s2 \<leftarrow> (if \<not> i_sync (inodes s1 i) then fs_mount_directory rd (inodes s1 i) i s1 else Some s1);
             Some (s2, Some i)
           }
       })
    \<and> (last path \<noteq> CHR ''/'' \<longrightarrow>
         fs_open_file rd path s = open_names rd (path_names path) 0 s \<and> fs_create_file rd path ft s = create_names rd ft (path_names path) 0 s)"
proof -
  obtain p where p: "path = CHR ''/'' # p" using assms by (cases path) auto
  have sn: "short_names p" using assms(3) by (simp add: short_names_def p slash_names)
  have "p \<noteq> [] \<Longrightarrow> dir_walk rd 0 p s = resolve rd (path_names path) 0 s" using dir_walk_resolve sn by (simp add: p slash_names)
  then have "fs_open_directory rd path s =
      (if path = ''/'' then Some (s, Some 0)
       else do {
         (s1, r) \<leftarrow> resolve rd (path_names path) 0 s;
         case r of
           None \<Rightarrow> Some (s1, None)
         | Some i \<Rightarrow> do {
             s2 \<leftarrow> (if \<not> i_sync (inodes s1 i) then fs_mount_directory rd (inodes s1 i) i s1 else Some s1);
             Some (s2, Some i)
           }
       })"
    by (simp add: fs_open_directory_def p slash_split)
  moreover have "fs_open_file rd path s = open_names rd (path_names path) 0 s \<and> fs_create_file rd path ft s = create_names rd ft (path_names path) 0 s"
    if l: "last path \<noteq> CHR ''/''"
  proof -
    have c: "clean_path path" using l assms by (simp add: clean_path_def)
    then have q: "p \<noteq> []" "clean_path p" using slash_clean p by auto
    have "fs_open_file rd path s = open_walk rd path 0 p s" using q(1) by (simp add: fs_open_file_def p slash_split)
    also have "\<dots> = open_names rd (path_names path) 0 s" unfolding open_walk_names [OF q(2) l] by (simp add: p slash_names)
    finally show ?thesis using fs_create_file_names [OF c assms(1), of rd ft s] by blast
  qed
  ultimately show ?thesis by blast
qed

theorem path_calls_by_components_witness:
  "fs_create_file (\<lambda>_ _ _. None) ''//a//b'' S_IFCHR demo_fs = create_names (\<lambda>_ _ _. None) S_IFCHR [''a'', ''b''] 0 demo_fs"
proof -
  have n: "path_names ''//a//b'' = [''a'', ''b'']" by code_simp
  then have "short_names ''//a//b''" by (simp add: short_names_def config)
  from path_calls_by_components [OF _ _ this, of "\<lambda>_ _ _. None" demo_fs S_IFCHR] n show ?thesis by simp
qed

end
