(* ===== verification/Regfile.thy ===== *)
theory Regfile
  imports Fstree
begin

text \<open>
  Regular files (\<^verbatim>\<open>kernel/fs/reg_file.c\<close>) and the storage of the root file system (\<^verbatim>\<open>rootfs_read\<close>, \<^verbatim>\<open>rootfs_write\<close>,
  \<^verbatim>\<open>fs_get_block_addr\<close> and \<^verbatim>\<open>fs_file_append_block\<close> of \<^verbatim>\<open>kernel/fs/fs.c\<close>). A file is a chain of blocks of 128 bytes; the
  first eight bytes of a block are its header, with the address of the next block. Reading another device than the root
  file system is the argument \<open>rd\<close>, as in theory \<open>Fs\<close>. An access outside of the blocks of the root file system that
  passes the check of the address has no model (\<^const>\<open>None\<close>).
\<close>

section \<open>Storage\<close>

definition BLOCK_HEADER_SIZE :: nat where [config]: "BLOCK_HEADER_SIZE = 8"

definition blk_read :: "u32 \<Rightarrow> nat \<Rightarrow> 'a fsstate_scheme \<Rightarrow> u8 list" where
  "blk_read addr n s = map (\<lambda>k. blk_mem s (addr + word_of_nat k)) [0..<n]"

primrec blk_write :: "u32 \<Rightarrow> u8 list \<Rightarrow> (u32 \<Rightarrow> u8) \<Rightarrow> u32 \<Rightarrow> u8" where
  "blk_write addr [] m = m"
| "blk_write addr (b # bs) m = blk_write (addr + 1) bs (m(addr := b))"

definition rootfs_mem_check :: "u32 \<Rightarrow> 'a fsstate_scheme \<Rightarrow> bool" where
  "rootfs_mem_check addr s \<longleftrightarrow>
     addr \<ge> inodes_addr s \<and> addr \<le> inodes_addr s + INODE_SIZE * word_of_nat INODE_MAX
     \<or> addr \<ge> rootfs_addr s \<and> addr \<le> rootfs_addr s + word_of_nat (FS_BLK_CNT * FS_BLK_SIZE)"

text \<open>The bytes of an access lie in the blocks.\<close>

definition in_blocks :: "u32 \<Rightarrow> nat \<Rightarrow> 'a fsstate_scheme \<Rightarrow> bool" where
  "in_blocks addr n s \<longleftrightarrow>
     unat (rootfs_addr s) \<le> unat addr \<and> unat addr + n \<le> unat (rootfs_addr s) + FS_BLK_CNT * FS_BLK_SIZE"

definition rootfs_read :: "u32 \<Rightarrow> nat \<Rightarrow> 'a fsstate_scheme \<Rightarrow> u8 list option option" where
  "rootfs_read addr n s =
     (if \<not> rootfs_mem_check addr s then Some None
      else if in_blocks addr n s then Some (Some (blk_read addr n s)) else None)"

definition rootfs_write :: "u32 \<Rightarrow> u8 list \<Rightarrow> 'a fsstate_scheme \<Rightarrow> ('a fsstate_scheme \<times> bool) option" where
  "rootfs_write addr buf s =
     (if \<not> rootfs_mem_check addr s then Some (s, False)
      else if in_blocks addr (length buf) s then Some (s\<lparr>blk_mem := blk_write addr buf (blk_mem s)\<rparr>, True) else None)"

text \<open>The read operation of the driver file of a mount, and the write operation of that of the root file system.\<close>

definition dev_read :: "dev_reader \<Rightarrow> nat \<Rightarrow> u32 \<Rightarrow> nat \<Rightarrow> 'a fsstate_scheme \<Rightarrow> u8 list option option" where
  "dev_read rd rdev addr n s = do {
     dev \<leftarrow> mount_dev s rdev;
     f \<leftarrow> files s dev;
     case f_op f of
       Rootfs_ops \<Rightarrow> rootfs_read addr n s
     | Rom_dev_ops \<Rightarrow> Some (rd dev addr n)
     | Driver_ops d \<Rightarrow> Some (rd dev addr n)
     | _ \<Rightarrow> None
   }"

definition dev_write :: "nat \<Rightarrow> u32 \<Rightarrow> u8 list \<Rightarrow> 'a fsstate_scheme \<Rightarrow> ('a fsstate_scheme \<times> bool) option" where
  "dev_write rdev addr buf s = do {
     dev \<leftarrow> mount_dev s rdev;
     f \<leftarrow> files s dev;
     case f_op f of Rootfs_ops \<Rightarrow> rootfs_write addr buf s | _ \<Rightarrow> None
   }"

section \<open>Blocks of a file\<close>

text \<open>The loop of \<^verbatim>\<open>fs_get_block_addr\<close>: the address of the block after \<open>n\<close> further headers. A header that cannot be
  read leaves the variable as it was.\<close>

primrec block_chain :: "dev_reader \<Rightarrow> nat \<Rightarrow> nat \<Rightarrow> u32 \<Rightarrow> u32 \<Rightarrow> 'a fsstate_scheme \<Rightarrow> u32 option" where
  "block_chain rd rdev 0 b_next blk_addr s = Some blk_addr"
| "block_chain rd rdev (Suc n) b_next blk_addr s = do {
     h \<leftarrow> dev_read rd rdev b_next BLOCK_HEADER_SIZE s;
     block_chain rd rdev n (case h of None \<Rightarrow> b_next | Some bs \<Rightarrow> bytes_word bs) b_next s
   }"

definition fs_get_block_addr :: "dev_reader \<Rightarrow> nat \<Rightarrow> nat \<Rightarrow> 'a fsstate_scheme \<Rightarrow> u32 option" where
  "fs_get_block_addr rd i blk_index s = block_chain rd (i_rdev (inodes s i)) (blk_index + 1) (i_data (inodes s i)) 0 s"

text \<open>The header of a block in memory, and the last block of a chain of \<open>n\<close> more blocks.\<close>

definition b_next :: "u32 \<Rightarrow> 'a fsstate_scheme \<Rightarrow> u32 option" where
  "b_next blk s = (if in_blocks blk 4 s then Some (bytes_word (blk_read blk 4 s)) else None)"

definition set_b_next :: "u32 \<Rightarrow> u32 \<Rightarrow> 'a fsstate_scheme \<Rightarrow> 'a fsstate_scheme option" where
  "set_b_next blk v s =
     (if in_blocks blk 4 s then Some (s\<lparr>blk_mem := blk_write blk (word_bytes v) (blk_mem s)\<rparr>) else None)"

primrec last_block :: "nat \<Rightarrow> u32 \<Rightarrow> 'a fsstate_scheme \<Rightarrow> u32 option" where
  "last_block 0 blk s = Some blk"
| "last_block (Suc n) blk s = b_next blk s \<bind> (\<lambda>nx. last_block n nx s)"

definition fs_file_append_block :: "nat \<Rightarrow> 'a fsstate_scheme \<Rightarrow> ('a fsstate_scheme \<times> u32) option" where
  "fs_file_append_block i s =
     (if i_rdev (inodes s i) \<noteq> RDEV_ROOTFS then Some (s, 0)
      else if unat (s_blk_cnt s) \<ge> FS_BLK_CNT then Some (s, 0)
      else do {
        (s1, r) \<leftarrow> fs_alloc_block s;
        b \<leftarrow> r;
        let new_blk = block_addr b s1;
        s2 \<leftarrow> set_b_next new_blk 0 s1;
        if i_blocks (inodes s2 i) = 0
        then Some (upd_inode i (\<lambda>n. n\<lparr>i_data := new_blk, i_blocks := i_blocks n + 1\<rparr>) s2, new_blk)
        else do {
          blk_head \<leftarrow> last_block (unat (i_blocks (inodes s2 i)) - 1) (i_data (inodes s2 i)) s2;
          s3 \<leftarrow> set_b_next blk_head new_blk s2;
          Some (upd_inode i (\<lambda>n. n\<lparr>i_blocks := i_blocks n + 1\<rparr>) s3, new_blk)
        }
      })"

section \<open>Reading, writing and seeking\<close>

definition blk_free_size :: nat where
  "blk_free_size = FS_BLK_SIZE - BLOCK_HEADER_SIZE"

text \<open>The position is an \<^verbatim>\<open>int\<close>, and unsigned in the arithmetic with sizes.\<close>

definition pos_u :: "int \<Rightarrow> nat" where
  "pos_u pos = unat (word_of_int pos :: u32)"

definition pos_add :: "int \<Rightarrow> nat \<Rightarrow> int" where
  "pos_add pos n = sint (word_of_int (pos + int n) :: u32)"

definition set_reg_pos :: "nat \<Rightarrow> int \<Rightarrow> 'a fsstate_scheme \<Rightarrow> 'a fsstate_scheme" where
  "set_reg_pos fd pos s = s\<lparr>reg_pos := (reg_pos s)(fd := pos)\<rparr>"

definition chunk :: "nat \<Rightarrow> int \<Rightarrow> nat" where
  "chunk remained_size pos = min remained_size (blk_free_size - pos_u pos mod blk_free_size)"

lemma chunk_less: "0 < n \<Longrightarrow> n - chunk n pos < n"
  by (simp add: chunk_def blk_free_size_def config)

function read_loop :: "dev_reader \<Rightarrow> nat \<Rightarrow> nat \<Rightarrow> nat \<Rightarrow> u8 list \<Rightarrow> 'a fsstate_scheme \<Rightarrow> ('a fsstate_scheme \<times> u8 list) option" where
  "read_loop rd fd i remained_size out s =
     (if remained_size = 0 then Some (s, out)
      else
        (let pos = reg_pos s fd;
             read_size = chunk remained_size pos in
         case fs_get_block_addr rd i (pos_u pos div blk_free_size) s of
           None \<Rightarrow> None
         | Some blk_start_addr \<Rightarrow>
             (case dev_read rd (i_rdev (inodes s i))
                     (blk_start_addr + word_of_nat BLOCK_HEADER_SIZE + word_of_nat (pos_u pos mod blk_free_size)) read_size s of
                None \<Rightarrow> None
              | Some None \<Rightarrow> Some (s, out)
              | Some (Some bs) \<Rightarrow>
                  read_loop rd fd i (remained_size - read_size) (out @ bs) (set_reg_pos fd (pos_add pos read_size) s))))"
  by pat_completeness auto
termination
  by (relation "measure (\<lambda>(rd, fd, i, remained_size, out, s). remained_size)") (auto simp: chunk_less)

text \<open>\<^verbatim>\<open>__reg_file_read\<close>: the bytes at the start of the buffer that have been stored, whose number is returned.\<close>

definition reg_file_read_body :: "dev_reader \<Rightarrow> nat \<Rightarrow> nat \<Rightarrow> 'a fsstate_scheme \<Rightarrow> ('a fsstate_scheme \<times> u8 list) option" where
  "reg_file_read_body rd fd sz s = do {
     f \<leftarrow> files s fd;
     i \<leftarrow> f_inode f;
     read_loop rd fd i sz [] s
   }"

definition reg_file_read :: "dev_reader \<Rightarrow> nat \<Rightarrow> nat \<Rightarrow> 'a fsstate_scheme \<Rightarrow> ('a fsstate_scheme \<times> u8 list) option" where
  "reg_file_read rd fd sz = critr (reg_file_read_body rd fd sz)"

function write_loop :: "dev_reader \<Rightarrow> nat \<Rightarrow> nat \<Rightarrow> u8 list \<Rightarrow> 'a fsstate_scheme \<Rightarrow> ('a fsstate_scheme \<times> u8 list) option" where
  "write_loop rd fd i buf s =
     (if buf = [] then Some (s, [])
      else
        (let pos = reg_pos s fd;
             write_size = chunk (length buf) pos in
         case (if pos_u pos div blk_free_size \<ge> unat (i_blocks (inodes s i)) then fs_file_append_block i s
               else map_option (\<lambda>a. (s, a)) (fs_get_block_addr rd i (pos_u pos div blk_free_size) s)) of
           None \<Rightarrow> None
         | Some (s1, blk_start_addr) \<Rightarrow>
             if blk_start_addr = 0 then Some (s1, buf)
             else (case dev_write (i_rdev (inodes s1 i))
                     (blk_start_addr + word_of_nat BLOCK_HEADER_SIZE + word_of_nat (pos_u pos mod blk_free_size)) (take write_size buf) s1 of
                None \<Rightarrow> None
              | Some (s2, False) \<Rightarrow> Some (s2, buf)
              | Some (s2, True) \<Rightarrow> write_loop rd fd i (drop write_size buf) (set_reg_pos fd (pos_add pos write_size) s2))))"
  by pat_completeness auto
termination
  by (relation "measure (\<lambda>(rd, fd, i, buf, s). length buf)") (auto simp: chunk_less)

text \<open>\<^verbatim>\<open>__reg_file_write\<close>: the size of the file grows by the size of the buffer, whatever has been written.\<close>

definition reg_file_write_body :: "dev_reader \<Rightarrow> nat \<Rightarrow> u8 list \<Rightarrow> 'a fsstate_scheme \<Rightarrow> ('a fsstate_scheme \<times> int) option" where
  "reg_file_write_body rd fd buf s = do {
     f \<leftarrow> files s fd;
     i \<leftarrow> f_inode f;
     if i_rdev (inodes s i) \<noteq> RDEV_ROOTFS then Some (s, 0)
     else do {
       (s1, remained) \<leftarrow> write_loop rd fd i buf s;
       Some (upd_inode i (\<lambda>n. n\<lparr>i_size := i_size n + word_of_nat (length buf)\<rparr>) s1, int (length buf - length remained))
     }
   }"

definition reg_file_write :: "dev_reader \<Rightarrow> nat \<Rightarrow> u8 list \<Rightarrow> 'a fsstate_scheme \<Rightarrow> ('a fsstate_scheme \<times> int) option" where
  "reg_file_write rd fd buf = critr (reg_file_write_body rd fd buf)"

declare read_loop.simps [simp del] write_loop.simps [simp del]

definition SEEK_SET :: int where [config]: "SEEK_SET = 0"
definition SEEK_CUR :: int where [config]: "SEEK_CUR = 1"
definition SEEK_END :: int where [config]: "SEEK_END = 2"

text \<open>The new position goes through a variable of type \<^verbatim>\<open>char\<close>, which is unsigned on the target.\<close>

definition reg_file_lseek :: "nat \<Rightarrow> int \<Rightarrow> int \<Rightarrow> 'a fsstate_scheme \<Rightarrow> ('a fsstate_scheme \<times> int) option" where
  "reg_file_lseek fd offset whence = critr (\<lambda>s. do {
     f \<leftarrow> files s fd;
     i \<leftarrow> f_inode f;
     let target = (if whence = SEEK_SET then Some offset
                   else if whence = SEEK_END then Some (uint (i_size (inodes s i)) + offset)
                   else if whence = SEEK_CUR then Some (reg_pos s fd + offset) else None);
     case target of
       None \<Rightarrow> Some (s, -1)
     | Some p \<Rightarrow>
         (let new_pos = uint (word_of_int p :: u8) in
          if new_pos < uint (i_size (inodes s i)) then Some (set_reg_pos fd new_pos s, new_pos) else Some (s, -1))
   })"

text \<open>The operations of a regular file, of the device of the root file system and of the ROM; \<^verbatim>\<open>reg_file_open\<close> and
  \<^verbatim>\<open>rom_dev_open\<close> return 0. The driver argument of the descriptor calls of theory \<open>Fdesc\<close>: the regular files and the ROM
  image are as here, \<open>drv\<close> stands for the others.\<close>

definition reg_file_ops :: "dev_reader \<Rightarrow> 'a fsstate_scheme file_operations" where
  "reg_file_ops rd = \<lparr>fop_lseek = Some reg_file_lseek,
     fop_read = Some (\<lambda>fd buf sz s. map_option (\<lambda>(s1, bs). (s1, bs @ drop (length bs) buf, int (length bs))) (reg_file_read rd fd sz s)),
     fop_write = Some (\<lambda>fd buf sz. reg_file_write rd fd (take sz buf)), fop_ioctl = None, fop_open = Some (\<lambda>fd s. Some (s, 0))\<rparr>"

definition rootfs_file_ops :: "'a fsstate_scheme file_operations" where
  "rootfs_file_ops = \<lparr>fop_lseek = None,
     fop_read = Some (\<lambda>fd buf sz s. map_option (\<lambda>r. case r of None \<Rightarrow> (s, buf, - EFAULT) | Some bs \<Rightarrow> (s, bs @ drop (length bs) buf, int sz))
       (rootfs_read 0 sz s)),
     fop_write = Some (\<lambda>fd buf sz s. map_option (\<lambda>(s1, ok). (s1, if ok then int sz else - EFAULT)) (rootfs_write 0 (take sz buf) s)),
     fop_ioctl = None, fop_open = None\<rparr>"

definition rom_dev_write :: "nat \<Rightarrow> u8 list \<Rightarrow> nat \<Rightarrow> 's \<Rightarrow> ('s \<times> int) option" where
  "rom_dev_write fd buf sz s = Some (s, 0)"

definition rom_dev_ops :: "u8 list \<Rightarrow> 's file_operations" where
  "rom_dev_ops rom = \<lparr>fop_lseek = None,
     fop_read = Some (\<lambda>fd buf sz s. Some (case rom_dev_read rom sz 0 of None \<Rightarrow> (s, buf, - EFAULT) | Some bs \<Rightarrow> (s, bs @ drop (length bs) buf, int sz))),
     fop_write = Some rom_dev_write, fop_ioctl = None, fop_open = Some (\<lambda>fd s. Some (s, 0))\<rparr>"

definition fs_drv :: "dev_reader \<Rightarrow> u8 list \<Rightarrow> (fops \<Rightarrow> 'a fsstate_scheme file_operations) \<Rightarrow> fops \<Rightarrow> 'a fsstate_scheme file_operations" where
  "fs_drv rd rom drv op =
     (case op of Reg_file_ops \<Rightarrow> reg_file_ops rd | Rootfs_ops \<Rightarrow> rootfs_file_ops | Rom_dev_ops \<Rightarrow> rom_dev_ops rom | _ \<Rightarrow> drv op)"

section \<open>Memory\<close>

lemma unat_add32: "unat (a :: u32) + n < 2 ^ 32 \<Longrightarrow> unat (a + word_of_nat n) = unat a + n"
  by (subst unat_add_lem [THEN iffD1]) (simp_all add: unat_word_of_nat32)

lemma blk_write_at:
  "unat a + length bs \<le> 2 ^ 32 \<Longrightarrow>
   blk_write a bs m x = (if unat a \<le> unat x \<and> unat x < unat a + length bs then bs ! (unat x - unat a) else m x)"
proof (induction bs arbitrary: a m)
  case (Cons b bs)
  show ?case
  proof (cases "bs = []")
    case True
    then show ?thesis by (auto simp: word_unat_eq_iff)
  next
    case False
    then have l: "unat a + 1 < 2 ^ 32" using Cons.prems by (cases bs) auto
    then have u: "unat (a + 1) = unat a + 1" using unat_add32 [of a 1] by simp
    have "blk_write (a + 1) bs (m(a := b)) x
        = (if unat (a + 1) \<le> unat x \<and> unat x < unat (a + 1) + length bs then bs ! (unat x - unat (a + 1)) else (m(a := b)) x)"
      using Cons.prems u by (intro Cons.IH) simp
    moreover have "x = a \<longleftrightarrow> unat x = unat a" by (simp add: word_unat_eq_iff)
    ultimately show ?thesis by (auto simp: u nth_Cons')
  qed
qed auto

definition off :: "u32 \<Rightarrow> nat \<Rightarrow> u32" where
  "off c k = c + word_of_nat k"

text \<open>The storage: its address range, the count of the blocks, and the device file of the root file system.\<close>

definition store_ok :: "'a fsstate_scheme \<Rightarrow> bool" where
  "store_ok s \<longleftrightarrow> 0 < unat (rootfs_addr s) \<and> unat (rootfs_addr s) + FS_BLK_CNT * FS_BLK_SIZE < 2 ^ 32 \<and> length (bitmap_blks s) = 4
     \<and> bm_set (bitmap_blks s) \<subseteq> {..<FS_BLK_CNT} \<and> unat (s_blk_cnt s) = card (bm_set (bitmap_blks s))
     \<and> (\<exists>dev f. mount_dev s RDEV_ROOTFS = Some dev \<and> files s dev = Some f \<and> f_op f = Rootfs_ops)"

definition is_blk :: "'a fsstate_scheme \<Rightarrow> u32 \<Rightarrow> bool" where
  "is_blk s c \<longleftrightarrow> (\<exists>b \<in> bm_set (bitmap_blks s). c = block_addr b s)"

lemma unat_block:
  assumes "store_ok s" "b < 100" "k \<le> 128"
  shows "unat (off (block_addr b s) k) = unat (rootfs_addr s) + 128 * b + k"
proof -
  have s: "unat (rootfs_addr s) + 12800 < 2 ^ 32" using assms(1) by (simp add: store_ok_def config)
  have "unat (block_addr b s) = unat (rootfs_addr s) + b * 128" unfolding block_addr_def
    using s assms(2) by (subst unat_add32) (simp_all add: config)
  then show ?thesis unfolding off_def using s assms(2,3) by (subst unat_add32) simp_all
qed

lemma block_addr_inj:
  assumes "store_ok s" "b < 100" "e < 100"
  shows "block_addr b s = block_addr e s \<longleftrightarrow> b = e"
proof
  assume "block_addr b s = block_addr e s"
  then have "unat (off (block_addr b s) 0) = unat (off (block_addr e s) 0)" by simp
  then show "b = e" unfolding unat_block [OF assms(1,2) zero_le] unat_block [OF assms(1,3) zero_le] by simp
qed simp

lemma is_blkD:
  assumes "store_ok s" "is_blk s c"
  obtains b where "b < 100" "b \<in> bm_set (bitmap_blks s)" "c = block_addr b s" "\<And>k. k \<le> 128 \<Longrightarrow> unat (off c k) = unat (rootfs_addr s) + 128 * b + k"
    "unat c = unat (rootfs_addr s) + 128 * b"
proof -
  obtain b where b: "b \<in> bm_set (bitmap_blks s)" "c = block_addr b s" using assms(2) by (auto simp: is_blk_def)
  then have l: "b < 100" using assms(1) by (auto simp: store_ok_def config)
  have "unat c = unat (off c 0)" by (simp add: off_def)
  with that [OF l b] unat_block [OF assms(1) l] b(2) show ?thesis by simp
qed

lemma block_access:
  assumes "store_ok s" "is_blk s c" "k + n \<le> 128"
  shows "rootfs_mem_check (off c k) s" "in_blocks (off c k) n s"
proof -
  obtain b where b: "b < 100" "\<And>k. k \<le> 128 \<Longrightarrow> unat (off c k) = unat (rootfs_addr s) + 128 * b + k" using is_blkD [OF assms(1,2)] by metis
  have u: "unat (off c k) = unat (rootfs_addr s) + 128 * b + k" using b(2) assms(3) by simp
  have e: "unat (rootfs_addr s + word_of_nat (FS_BLK_CNT * FS_BLK_SIZE)) = unat (rootfs_addr s) + 12800"
    using assms(1) by (subst unat_add32) (simp_all add: store_ok_def config)
  show "in_blocks (off c k) n s" using b(1) assms(3) by (simp add: in_blocks_def u config)
  show "rootfs_mem_check (off c k) s" unfolding rootfs_mem_check_def word_le_nat_alt e u using b(1) assms(3) by simp
qed

text \<open>Different places in blocks are different addresses.\<close>

lemma block_range:
  fixes b e k n l M :: nat
  assumes "n < M" "k + l \<le> M"
  shows "M * b + k \<le> M * e + n \<and> M * e + n < M * b + k + l \<longleftrightarrow> b = e \<and> k \<le> n \<and> n < k + l"
proof (cases b e rule: linorder_cases)
  case less
  then obtain d where "e = Suc (b + d)" using less_iff_Suc_add by blast
  then have "M * e = M * b + M * d + M" by (simp add: algebra_simps)
  with assms less show ?thesis by linarith
next
  case greater
  then obtain d where "b = Suc (e + d)" using less_iff_Suc_add by blast
  then have "M * b = M * e + M * d + M" by (simp add: algebra_simps)
  with assms greater show ?thesis by linarith
qed simp

lemma block_digits: "k < 128 \<Longrightarrow> n < 128 \<Longrightarrow> 128 * b + k = 128 * e + n \<longleftrightarrow> b = e \<and> k = (n :: nat)"
  using block_range [of n 128 k 1 b e] by auto

lemma off_eq_iff:
  assumes "store_ok s" "is_blk s c" "is_blk s d" "k < 128" "n < 128"
  shows "off c k = off d n \<longleftrightarrow> c = d \<and> k = n"
proof -
  obtain b where b: "b < 100" "c = block_addr b s" "\<And>k. k \<le> 128 \<Longrightarrow> unat (off c k) = unat (rootfs_addr s) + 128 * b + k" using is_blkD [OF assms(1,2)] by metis
  obtain e where e: "e < 100" "d = block_addr e s" "\<And>k. k \<le> 128 \<Longrightarrow> unat (off d k) = unat (rootfs_addr s) + 128 * e + k" using is_blkD [OF assms(1,3)] by metis
  have "off c k = off d n \<longleftrightarrow> unat (off c k) = unat (off d n)" by (simp add: word_unat_eq_iff)
  also have "\<dots> \<longleftrightarrow> 128 * b + k = 128 * e + n" using b(3) e(3) assms(4,5) by simp
  also have "\<dots> \<longleftrightarrow> b = e \<and> k = n" using block_digits [OF assms(4,5)] by simp
  also have "\<dots> \<longleftrightarrow> c = d \<and> k = n" unfolding b(2) e(2) block_addr_inj [OF assms(1) b(1) e(1)] ..
  finally show ?thesis .
qed

lemma write_in_block:
  assumes "store_ok s" "is_blk s c" "is_blk s d" "k + length bs \<le> 128" "n < 128"
  shows "blk_write (off c k) bs m (off d n) = (if c = d \<and> k \<le> n \<and> n < k + length bs then bs ! (n - k) else m (off d n))"
proof -
  obtain b where b: "b < 100" "c = block_addr b s" "\<And>k. k \<le> 128 \<Longrightarrow> unat (off c k) = unat (rootfs_addr s) + 128 * b + k" using is_blkD [OF assms(1,2)] by metis
  obtain e where e: "e < 100" "d = block_addr e s" "\<And>k. k \<le> 128 \<Longrightarrow> unat (off d k) = unat (rootfs_addr s) + 128 * e + k" using is_blkD [OF assms(1,3)] by metis
  have s: "unat (rootfs_addr s) + 12800 < 2 ^ 32" using assms(1) by (simp add: store_ok_def config)
  have u: "unat (off c k) = unat (rootfs_addr s) + 128 * b + k" "unat (off d n) = unat (rootfs_addr s) + 128 * e + n"
    using b(3) e(3) assms(4,5) by simp_all
  have le: "unat (off c k) + length bs \<le> 2 ^ 32" using u s b(1) assms(4) by simp
  have eq: "c = d \<longleftrightarrow> b = e" unfolding b(2) e(2) by (rule block_addr_inj [OF assms(1) b(1) e(1)])
  have "unat (off c k) \<le> unat (off d n) \<and> unat (off d n) < unat (off c k) + length bs \<longleftrightarrow> b = e \<and> k \<le> n \<and> n < k + length bs"
    unfolding u using block_range [OF assms(5,4), of b e] by auto
  then show ?thesis unfolding blk_write_at [OF le] eq by (auto simp: u)
qed

lemma blk_read_nth: "k < n \<Longrightarrow> blk_read a n s ! k = blk_mem s (off a k)"
  by (simp add: blk_read_def off_def)

section \<open>A file as a chain of blocks\<close>

definition next_of :: "'a fsstate_scheme \<Rightarrow> u32 \<Rightarrow> u32" where
  "next_of s c = bytes_word (blk_read c 4 s)"

definition file_ok :: "'a fsstate_scheme \<Rightarrow> nat \<Rightarrow> u32 list \<Rightarrow> bool" where
  "file_ok s i cs \<longleftrightarrow> i_rdev (inodes s i) = RDEV_ROOTFS \<and> unat (i_blocks (inodes s i)) = length cs
     \<and> (cs \<noteq> [] \<longrightarrow> i_data (inodes s i) = hd cs) \<and> distinct cs \<and> (\<forall>c \<in> set cs. is_blk s c)
     \<and> (\<forall>k. Suc k < length cs \<longrightarrow> next_of s (cs ! k) = cs ! Suc k)"

text \<open>The byte at a position of the file.\<close>

definition fbyte :: "'a fsstate_scheme \<Rightarrow> u32 list \<Rightarrow> nat \<Rightarrow> u8" where
  "fbyte s cs k = blk_mem s (off (cs ! (k div 120)) (8 + k mod 120))"

definition fbytes :: "'a fsstate_scheme \<Rightarrow> u32 list \<Rightarrow> nat \<Rightarrow> nat \<Rightarrow> u8 list" where
  "fbytes s cs p n = map (fbyte s cs) [p..<p + n]"

lemma bytes_word_blk_read: "4 \<le> n \<Longrightarrow> bytes_word (blk_read c n s) = next_of s c"
  by (simp add: next_of_def bytes_word_def blk_read_def take_map)

lemma off_0 [simp]: "off c 0 = c"
  by (simp add: off_def)

lemma off_off: "c + word_of_nat a + word_of_nat b = off c (a + b)"
  by (simp add: off_def add.assoc)

lemma dev_read_block:
  assumes "store_ok s" "is_blk s c" "k + n \<le> 128"
  shows "dev_read rd RDEV_ROOTFS (off c k) n s = Some (Some (blk_read (off c k) n s))"
proof -
  obtain dev f where "mount_dev s RDEV_ROOTFS = Some dev" "files s dev = Some f" "f_op f = Rootfs_ops"
    using assms(1) by (auto simp: store_ok_def)
  then show ?thesis using block_access [OF assms] by (simp add: dev_read_def rootfs_read_def)
qed

lemma file_len: "store_ok s \<Longrightarrow> file_ok s i cs \<Longrightarrow> length cs \<le> card (bm_set (bitmap_blks s))"
proof -
  assume s: "store_ok s" and f: "file_ok s i cs"
  have fin: "finite (bm_set (bitmap_blks s))" using s by (auto simp: store_ok_def intro: finite_subset)
  have "set cs \<subseteq> (\<lambda>b. block_addr b s) ` bm_set (bitmap_blks s)" using f by (auto simp: file_ok_def is_blk_def)
  then have "card (set cs) \<le> card (bm_set (bitmap_blks s))" by (rule surj_card_le [OF fin])
  then show ?thesis using f by (simp add: file_ok_def distinct_card)
qed

lemma blk_count_le: "store_ok s \<Longrightarrow> card (bm_set (bitmap_blks s)) \<le> 100"
  using card_mono [of "{..<100}" "bm_set (bitmap_blks s)"] by (simp add: store_ok_def config)

section \<open>Reading\<close>

lemma pos_small: "p < 2 ^ 31 \<Longrightarrow> pos_u (int p) = p" "p + n < 2 ^ 31 \<Longrightarrow> pos_add (int p) n = int (p + n)"
proof -
  show "pos_u (int p) = p" if "p < 2 ^ 31"
  proof -
    have "p < 2 ^ 32" using that by simp
    from unat_word_of_nat32 [OF this] show ?thesis by (simp add: pos_u_def)
  qed
  show "pos_add (int p) n = int (p + n)" if "p + n < 2 ^ 31"
  proof -
    have "int p + int n = int (p + n)" by simp
    then show ?thesis using that by (simp only: pos_add_def signed_of_int) (simp add: signed_take_bit_int_eq_self)
  qed
qed

lemma set_reg_pos_frame [simp]:
  "store_ok (set_reg_pos fd p s) = store_ok s" "file_ok (set_reg_pos fd p s) i cs = file_ok s i cs"
  "fbyte (set_reg_pos fd p s) cs k = fbyte s cs k" "fbytes (set_reg_pos fd p s) cs m n = fbytes s cs m n"
  "inodes (set_reg_pos fd p s) = inodes s" "reg_pos (set_reg_pos fd p s) fd = p" "set_reg_pos fd p (set_reg_pos fd q s) = set_reg_pos fd p s"
  by (simp_all add: set_reg_pos_def store_ok_def file_ok_def is_blk_def next_of_def blk_read_def fbyte_def fbytes_def block_addr_def)

section \<open>Storage that reading relies on\<close>

text \<open>The bytes of a file in the payload of the blocks of its chain, given the contents of the blocks.\<close>

definition chain_bytes :: "(u32 \<Rightarrow> u8 list) \<Rightarrow> u32 list \<Rightarrow> nat \<Rightarrow> nat \<Rightarrow> u8 list" where
  "chain_bytes B cs p n = map (\<lambda>k. B (cs ! (k div 120)) ! (8 + k mod 120)) [p..<p + n]"

lemma chain_bytes_append: "chain_bytes B cs p m @ chain_bytes B cs (p + m) n = chain_bytes B cs p (m + n)"
  unfolding chain_bytes_def map_append [symmetric] add.assoc [symmetric] by (subst upt_add_eq_append [symmetric]) simp_all

lemma chain_bytes_block:
  assumes "length (B (cs ! j)) = 128" "r + n \<le> 120"
  shows "take n (drop (8 + r) (B (cs ! j))) = chain_bytes B cs (120 * j + r) n"
proof (rule nth_equalityI)
  fix k assume "k < length (take n (drop (8 + r) (B (cs ! j))))"
  then have k: "k < n" by simp
  have d: "(120 * j + (r + k)) div 120 = j" "(120 * j + (r + k)) mod 120 = r + k" using assms(2) k by simp_all
  show "take n (drop (8 + r) (B (cs ! j))) ! k = chain_bytes B cs (120 * j + r) n ! k"
    using k assms d by (simp add: chain_bytes_def add.assoc)
qed (use assms in \<open>simp add: chain_bytes_def\<close>)

text \<open>What the storage of a file promises to the code that reads it: the chain \<open>cs\<close> of the blocks of file \<open>i\<close>, whose contents
  can be read in parts, and whose headers lead from block to block. The code only moves the position of the file.\<close>

locale block_storage =
  fixes rd :: dev_reader and holds :: "'a fsstate_scheme \<Rightarrow> nat \<Rightarrow> u32 list \<Rightarrow> bool" and blk :: "'a fsstate_scheme \<Rightarrow> u32 \<Rightarrow> u8 list"
  assumes blk_length: "length (blk s c) = 128"
    and blk_part: "holds s i cs \<Longrightarrow> c \<in> set cs \<Longrightarrow> k + n \<le> 128 \<Longrightarrow>
      dev_read rd (i_rdev (inodes s i)) (off c k) n s = Some (Some (take n (drop k (blk s c))))"
    and blk_first: "holds s i cs \<Longrightarrow> cs \<noteq> [] \<Longrightarrow> i_data (inodes s i) = hd cs"
    and blk_link: "holds s i cs \<Longrightarrow> Suc k < length cs \<Longrightarrow> bytes_word (take 8 (blk s (cs ! k))) = cs ! Suc k"
    and holds_limit: "holds s i cs \<Longrightarrow> length cs \<le> FS_BLK_CNT"
    and holds_pos: "holds (set_reg_pos fd p s) i cs = holds s i cs"
    and blk_pos: "blk (set_reg_pos fd p s) = blk s"
begin

lemma chain_nth:
  "holds s i cs \<Longrightarrow> m + n < length cs \<Longrightarrow> block_chain rd (i_rdev (inodes s i)) (Suc n) (cs ! m) x s = Some (cs ! (m + n))"
proof (induction n arbitrary: m x)
  case 0
  from blk_part [OF 0(1), of "cs ! m" 0 8] 0(2) show ?case by (simp add: config)
next
  case (Suc n)
  have "dev_read rd (i_rdev (inodes s i)) (cs ! m) BLOCK_HEADER_SIZE s = Some (Some (take 8 (blk s (cs ! m))))"
    using blk_part [OF Suc.prems(1), of "cs ! m" 0 8] Suc.prems(2) by (simp add: config)
  then have "block_chain rd (i_rdev (inodes s i)) (Suc (Suc n)) (cs ! m) x s = block_chain rd (i_rdev (inodes s i)) (Suc n) (cs ! Suc m) (cs ! m) s"
    using blk_link [OF Suc.prems(1), of m] Suc.prems(2) by (subst block_chain.simps(2)) (simp only: bind.bind_lunit option.case)
  then show ?case using Suc.IH [OF Suc.prems(1), of "Suc m" "cs ! m"] Suc.prems(2) by simp
qed

lemma get_block_addr: "holds s i cs \<Longrightarrow> j < length cs \<Longrightarrow> fs_get_block_addr rd i j s = Some (cs ! j)"
  using chain_nth [of s i cs 0 j 0] blk_first [of s i cs] by (cases "cs = []") (simp_all add: fs_get_block_addr_def hd_conv_nth)

lemma read_loop_chain:
  "holds s i cs \<Longrightarrow> reg_pos s fd = int p \<Longrightarrow> p + n \<le> 120 * length cs \<Longrightarrow>
   read_loop rd fd i n out s = Some (set_reg_pos fd (int (p + n)) s, out @ chain_bytes (blk s) cs p n)"
proof (induction n arbitrary: p s out rule: less_induct)
  case (less n)
  show ?case
  proof (cases "n = 0")
    case True
    then show ?thesis using less.prems(2) by (simp add: read_loop.simps [of rd fd i 0] chain_bytes_def set_reg_pos_def fun_upd_idem)
  next
    case False
    have sm: "p + n < 2 ^ 31" "p < 2 ^ 31" using less.prems(3) holds_limit [OF less.prems(1)] by (simp_all add: config)
    let ?c = "min n (120 - p mod 120)" and ?j = "p div 120"
    have j: "?j < length cs" using less.prems(3) False by auto
    have c: "chunk n (int p) = ?c" "blk_free_size = 120" by (simp_all add: chunk_def blk_free_size_def config pos_small(1) [OF sm(2)])
    have m: "p mod 120 + ?c \<le> 120" by simp
    have rd: "dev_read rd (i_rdev (inodes s i)) (cs ! ?j + word_of_nat BLOCK_HEADER_SIZE + word_of_nat (p mod 120)) ?c s
        = Some (Some (chain_bytes (blk s) cs p ?c))"
      unfolding off_off using blk_part [OF less.prems(1), of "cs ! ?j" "8 + p mod 120" ?c] j chain_bytes_block [of "blk s" cs ?j "p mod 120" ?c, OF blk_length m]
      by (simp add: config)
    have "read_loop rd fd i n out s = read_loop rd fd i (n - ?c) (out @ chain_bytes (blk s) cs p ?c) (set_reg_pos fd (pos_add (int p) ?c) s)"
      using False j rd get_block_addr [OF less.prems(1) j]
      by (simp add: read_loop.simps [of rd fd i n] less.prems(2) c pos_small(1) [OF sm(2)] Let_def)
    also have "pos_add (int p) ?c = int (p + ?c)" using sm by (intro pos_small) simp
    also have "read_loop rd fd i (n - ?c) (out @ chain_bytes (blk s) cs p ?c) (set_reg_pos fd (int (p + ?c)) s)
        = Some (set_reg_pos fd (int (p + n)) s, (out @ chain_bytes (blk s) cs p ?c) @ chain_bytes (blk s) cs (p + ?c) (n - ?c))"
      using less.IH [of "n - ?c" "set_reg_pos fd (int (p + ?c)) s" "p + ?c" "out @ chain_bytes (blk s) cs p ?c"] less.prems False
      by (simp add: holds_pos blk_pos)
    finally show ?thesis using chain_bytes_append [of "blk s" cs p ?c "n - ?c"] by simp
  qed
qed

end

text \<open>The blocks of the root file system.\<close>

definition root_file :: "'a fsstate_scheme \<Rightarrow> nat \<Rightarrow> u32 list \<Rightarrow> bool" where
  "root_file s i cs \<longleftrightarrow> store_ok s \<and> file_ok s i cs"

lemma blk_read_part: "k + n \<le> m \<Longrightarrow> take n (drop k (blk_read c m s)) = blk_read (off c k) n s"
  by (rule nth_equalityI) (simp_all add: blk_read_def off_def add.assoc)

interpretation rootfs: block_storage rd root_file "\<lambda>s c. blk_read c 128 s" for rd
proof
  fix s :: "'a fsstate_scheme" and i cs assume h: "root_file s i cs"
  show "dev_read rd (i_rdev (inodes s i)) (off c k) n s = Some (Some (take n (drop k (blk_read c 128 s))))"
    if "c \<in> set cs" "k + n \<le> 128" for c k n
    using h that dev_read_block [of s c k n rd] by (simp add: root_file_def file_ok_def blk_read_part)
  show "i_data (inodes s i) = hd cs" if "cs \<noteq> []" using h that by (simp add: root_file_def file_ok_def)
  show "bytes_word (take 8 (blk_read (cs ! k) 128 s)) = cs ! Suc k" if "Suc k < length cs" for k
    using h that bytes_word_blk_read [of 8 "cs ! k" s] blk_read_part [of 0 8 128 "cs ! k" s] by (simp add: root_file_def file_ok_def)
  show "length cs \<le> FS_BLK_CNT" using h file_len [of s i cs] blk_count_le [of s] by (auto simp: root_file_def config)
qed (simp_all add: blk_read_def root_file_def, simp_all add: set_reg_pos_def)

lemma fs_get_block_addr_nth: "store_ok s \<Longrightarrow> file_ok s i cs \<Longrightarrow> j < length cs \<Longrightarrow> fs_get_block_addr rd i j s = Some (cs ! j)"
  by (rule rootfs.get_block_addr) (simp_all add: root_file_def)

lemma fbytes_chain: "fbytes s cs = chain_bytes (\<lambda>c. blk_read c 128 s) cs"
proof (intro ext)
  fix p n
  have "8 + k mod 120 < 128" for k :: nat by (simp add: less_le_trans [OF add_strict_left_mono])
  then show "fbytes s cs p n = chain_bytes (\<lambda>c. blk_read c 128 s) cs p n"
    by (auto simp: fbytes_def chain_bytes_def fbyte_def intro!: blk_read_nth [symmetric])
qed

lemma fbytes_append: "fbytes s cs p m @ fbytes s cs (p + m) n = fbytes s cs p (m + n)"
  unfolding fbytes_chain by (rule chain_bytes_append)

lemma read_loop_ok:
  "store_ok s \<Longrightarrow> file_ok s i cs \<Longrightarrow> reg_pos s fd = int p \<Longrightarrow> p + n \<le> 120 * length cs \<Longrightarrow>
   read_loop rd fd i n out s = Some (set_reg_pos fd (int (p + n)) s, out @ fbytes s cs p n)"
  unfolding fbytes_chain by (rule rootfs.read_loop_chain) (simp_all add: root_file_def)

section \<open>Writing to a block\<close>

definition blk_put :: "u32 \<Rightarrow> nat \<Rightarrow> u8 list \<Rightarrow> 'a fsstate_scheme \<Rightarrow> 'a fsstate_scheme" where
  "blk_put d k bs s = s\<lparr>blk_mem := blk_write (off d k) bs (blk_mem s)\<rparr>"

lemma blk_put_frame [simp]:
  "store_ok (blk_put d k bs s) = store_ok s" "is_blk (blk_put d k bs s) = is_blk s" "inodes (blk_put d k bs s) = inodes s"
  "reg_pos (blk_put d k bs s) = reg_pos s" "bitmap_blks (blk_put d k bs s) = bitmap_blks s" "rootfs_addr (blk_put d k bs s) = rootfs_addr s"
  "dentries (blk_put d k bs s) = dentries s" "files (blk_put d k bs s) = files s" "block_addr b (blk_put d k bs s) = block_addr b s"
  by (simp_all add: blk_put_def store_ok_def is_blk_def block_addr_def fun_eq_iff)

lemma blk_put_at:
  assumes "store_ok s" "is_blk s d" "is_blk s c" "k + length bs \<le> 128" "n < 128"
  shows "blk_mem (blk_put d k bs s) (off c n) = (if d = c \<and> k \<le> n \<and> n < k + length bs then bs ! (n - k) else blk_mem s (off c n))"
  unfolding blk_put_def using write_in_block [OF assms, of "blk_mem s"] by simp

lemma next_of_cong: "(\<And>k. k < 4 \<Longrightarrow> blk_mem s' (off c k) = blk_mem s (off c k)) \<Longrightarrow> next_of s' c = next_of s c"
  unfolding next_of_def by (rule arg_cong [where f = bytes_word]) (rule nth_equalityI, simp_all add: blk_read_def off_def)

lemma next_of_put:
  assumes "store_ok s" "is_blk s d" "is_blk s c" "k + length bs \<le> 128" "c \<noteq> d \<or> 4 \<le> k"
  shows "next_of (blk_put d k bs s) c = next_of s c"
  by (rule next_of_cong) (use blk_put_at [OF assms(1-4)] assms(5) in auto)

lemma word_bytes_length [simp]: "length (word_bytes w) = 4"
  by (simp add: word_bytes_def)

lemma next_of_put_header:
  assumes "store_ok s" "is_blk s c"
  shows "next_of (blk_put c 0 (word_bytes v) s) c = v"
proof -
  have "blk_read c 4 (blk_put c 0 (word_bytes v) s) = word_bytes v"
    by (rule nth_equalityI) (use blk_put_at [OF assms(1,2,2), of 0 "word_bytes v"] in \<open>simp_all add: blk_read_def off_def\<close>)
  then show ?thesis unfolding next_of_def using bytes_word_bytes [of v "[]"] by simp
qed

lemma set_b_next_put:
  assumes "store_ok s" "is_blk s c"
  shows "set_b_next c v s = Some (blk_put c 0 (word_bytes v) s)" "b_next c s = Some (next_of s c)"
  using block_access(2) [OF assms, of 0 4] by (simp_all add: set_b_next_def b_next_def blk_put_def next_of_def)

lemma last_block_nth:
  "store_ok s \<Longrightarrow> \<forall>c \<in> set cs. is_blk s c \<Longrightarrow> \<forall>k. Suc k < length cs \<longrightarrow> next_of s (cs ! k) = cs ! Suc k \<Longrightarrow> m + n < length cs \<Longrightarrow>
   last_block n (cs ! m) s = Some (cs ! (m + n))"
proof (induction n arbitrary: m)
  case (Suc n)
  have "is_blk s (cs ! m)" using Suc.prems(2,4) by simp
  from set_b_next_put(2) [OF Suc.prems(1) this] Suc.IH [OF Suc.prems(1-3), of "Suc m"] Suc.prems(3,4) show ?case by simp
qed simp

text \<open>A step that writes to the blocks of one file, and to new ones.\<close>

definition only_file :: "'a fsstate_scheme \<Rightarrow> 'a fsstate_scheme \<Rightarrow> nat \<Rightarrow> u32 list \<Rightarrow> bool" where
  "only_file s s' i cs \<longleftrightarrow> rootfs_addr s' = rootfs_addr s \<and> bm_set (bitmap_blks s) \<subseteq> bm_set (bitmap_blks s')
     \<and> (\<forall>j. j \<noteq> i \<longrightarrow> inodes s' j = inodes s j) \<and> dentries s' = dentries s \<and> files s' = files s
     \<and> (\<forall>c k. is_blk s c \<and> c \<notin> set cs \<and> k < 128 \<longrightarrow> blk_mem s' (off c k) = blk_mem s (off c k))"

lemma only_file_blk: "only_file s s' i cs \<Longrightarrow> is_blk s c \<Longrightarrow> is_blk s' c"
  by (auto simp: only_file_def is_blk_def block_addr_def)

lemma only_file_trans:
  assumes a: "only_file s s1 i cs" and b: "only_file s1 s2 i (cs @ ds)" and d: "\<forall>c \<in> set ds. \<not> is_blk s c"
  shows "only_file s s2 i cs"
proof -
  have "blk_mem s2 (off c k) = blk_mem s (off c k)" if "is_blk s c" "c \<notin> set cs" "k < 128" for c k
    using that a b d only_file_blk [OF a that(1)] unfolding only_file_def by (metis Un_iff set_append)
  then show ?thesis using a b unfolding only_file_def by auto
qed

text \<open>Other files keep their blocks and their bytes.\<close>

lemma only_file_other:
  assumes o: "only_file s s' i cs" and f: "file_ok s j ds" and "j \<noteq> i" "set ds \<inter> set cs = {}"
  shows "file_ok s' j ds" "k < 120 * length ds \<Longrightarrow> fbyte s' ds k = fbyte s ds k"
proof -
  have mem: "blk_mem s' (off c n) = blk_mem s (off c n)" if "c \<in> set ds" "n < 128" for c n
    using o f that assms(4) unfolding only_file_def file_ok_def by blast
  have "next_of s' c = next_of s c" if "c \<in> set ds" for c by (rule next_of_cong) (use mem [OF that] in simp)
  moreover have "inodes s' j = inodes s j" using o assms(3) by (simp add: only_file_def)
  ultimately show "file_ok s' j ds" using f only_file_blk [OF o] unfolding file_ok_def by (metis Suc_lessD nth_mem)
  show "fbyte s' ds k = fbyte s ds k" if "k < 120 * length ds"
  proof -
    have "k div 120 < length ds" using that by auto
    then show ?thesis unfolding fbyte_def by (intro mem) (auto intro: less_le_trans [OF add_strict_left_mono])
  qed
qed

section \<open>A new block at the end of a file\<close>

definition free_blks :: "'a fsstate_scheme \<Rightarrow> nat" where
  "free_blks s = 100 - card (bm_set (bitmap_blks s))"

lemma fs_alloc_block_total:
  assumes st: "store_ok s" and fr: "0 < free_blks s"
  obtains s1 b where "fs_alloc_block s = Some (s1, Some b)" "s1 = s\<lparr>s_blk_cnt := s_blk_cnt s + 1, bitmap_blks := bitmap_blks s1\<rparr>"
    "b < 100" "b \<notin> bm_set (bitmap_blks s)" "bm_set (bitmap_blks s1) = insert b (bm_set (bitmap_blks s))" "store_ok s1" "free_blks s = Suc (free_blks s1)"
proof -
  have len: "length (bitmap_blks s) = 4" using st by (simp add: store_ok_def)
  then have le: "FS_BLK_CNT \<le> 32 * length (bitmap_blks s)" by (simp add: config)
  from find_first_zero_bit_spec [OF le] obtain r where r: "find_first_zero_bit (bitmap_blks s) FS_BLK_CNT = Some r" "r \<le> FS_BLK_CNT"
      "r < FS_BLK_CNT \<longrightarrow> \<not> bm_bit (bitmap_blks s) r" "\<forall>b < r. bm_bit (bitmap_blks s) b" by blast
  have fin: "finite (bm_set (bitmap_blks s))" using st by (auto simp: store_ok_def intro: finite_subset)
  have lt: "r < FS_BLK_CNT"
  proof (rule ccontr)
    assume "\<not> r < FS_BLK_CNT"
    then have "{..<FS_BLK_CNT} \<subseteq> bm_set (bitmap_blks s)" using r(2,4) by (auto simp: bm_set_def)
    from card_mono [OF fin this] fr show False by (simp add: free_blks_def config)
  qed
  then have "r < 32 * length (bitmap_blks s)" using le by simp
  from bitmap_set_bit_Some [OF this] obtain m where m: "bitmap_set_bit (bitmap_blks s) r = Some m"
      "length m = length (bitmap_blks s)" "bm_set m = insert r (bm_set (bitmap_blks s))" by blast
  let ?s1 = "s\<lparr>s_blk_cnt := s_blk_cnt s + 1, bitmap_blks := m\<rparr>"
  have r': "r \<notin> bm_set (bitmap_blks s)" using r(3) lt by (simp add: bm_set_def)
  have "unat (s_blk_cnt s + 1) = unat (s_blk_cnt s) + 1"
    using st fr by (subst unat_add32 [of _ 1, simplified]) (simp_all add: store_ok_def free_blks_def)
  then have "store_ok ?s1" using st m r' fin lt len by (auto simp: store_ok_def)
  moreover have "fs_alloc_block s = Some (?s1, Some r)" using r(1) m(1) lt by (simp add: fs_alloc_block_def)
  moreover have "free_blks s = Suc (free_blks ?s1)" using m(3) r' fin fr by (simp add: free_blks_def)
  ultimately show ?thesis using that [of ?s1 r] m(3) r' lt by (simp add: config)
qed

lemma fs_file_append_block_full:
  assumes "store_ok s" "free_blks s = 0"
  shows "fs_file_append_block i s = Some (s, 0)"
  using assms blk_count_le [OF assms(1)] by (simp add: fs_file_append_block_def store_ok_def free_blks_def config)

lemma blk_put_fbyte_header:
  assumes "store_ok s" "\<forall>c \<in> set cs. is_blk s c" "is_blk s d" "k < 120 * length cs"
  shows "fbyte (blk_put d 0 (word_bytes v) s) cs k = fbyte s cs k"
proof -
  have "k div 120 < length cs" using assms(4) by auto
  then have c: "is_blk s (cs ! (k div 120))" using assms(2) by simp
  have "8 + k mod 120 < 128" using mod_less_divisor [of 120 k] by linarith
  from blk_put_at [OF assms(1,3) c _ this, of 0 "word_bytes v"] show ?thesis by (simp add: fbyte_def)
qed

definition appended :: "'a fsstate_scheme \<Rightarrow> nat \<Rightarrow> u32 list \<Rightarrow> 'a fsstate_scheme \<Rightarrow> u32 \<Rightarrow> bool" where
  "appended s i cs s' c \<longleftrightarrow> store_ok s' \<and> file_ok s' i (cs @ [c]) \<and> c \<noteq> 0 \<and> \<not> is_blk s c \<and> only_file s s' i cs
     \<and> (\<forall>k < 120 * length cs. fbyte s' (cs @ [c]) k = fbyte s cs k) \<and> reg_pos s' = reg_pos s
     \<and> i_size (inodes s' i) = i_size (inodes s i) \<and> free_blks s = Suc (free_blks s')"

lemma fs_file_append_block_ok:
  assumes st: "store_ok s" and f: "file_ok s i cs" and fr: "0 < free_blks s"
  shows "\<exists>s' c. fs_file_append_block i s = Some (s', c) \<and> appended s i cs s' c"
proof -
  obtain s1 b where b: "fs_alloc_block s = Some (s1, Some b)" "s1 = s\<lparr>s_blk_cnt := s_blk_cnt s + 1, bitmap_blks := bitmap_blks s1\<rparr>"
      "b < 100" "b \<notin> bm_set (bitmap_blks s)" "bm_set (bitmap_blks s1) = insert b (bm_set (bitmap_blks s))" "store_ok s1"
      "free_blks s = Suc (free_blks s1)" by (rule fs_alloc_block_total [OF st fr])
  define c where "c = block_addr b s1"
  have s1: "inodes s1 = inodes s" "blk_mem s1 = blk_mem s" "rootfs_addr s1 = rootfs_addr s" "reg_pos s1 = reg_pos s"
      "dentries s1 = dentries s" "files s1 = files s" by (subst b(2), simp)+
  have ba: "block_addr e s1 = block_addr e s" for e by (simp add: block_addr_def s1)
  have blk1: "is_blk s1 d \<longleftrightarrow> d = c \<or> is_blk s d" for d by (auto simp: is_blk_def b(5) ba c_def)
  have new: "\<not> is_blk s c"
  proof
    assume "is_blk s c"
    then obtain e where e: "e < 100" "e \<in> bm_set (bitmap_blks s)" "c = block_addr e s" using is_blkD [OF st] by metis
    with block_addr_inj [OF st b(3) e(1)] b(4) show False by (simp add: c_def ba)
  qed
  have c0: "c \<noteq> 0"
  proof -
    have "unat c \<noteq> 0" using unat_block [OF b(6,3), of 0] st by (simp add: c_def s1 store_ok_def)
    then show ?thesis by auto
  qed
  have cb: "is_blk s1 c" using blk1 by simp
  have csb: "\<forall>d \<in> set cs. is_blk s1 d" using f blk1 by (auto simp: file_ok_def)
  define s2 where "s2 = blk_put c 0 (word_bytes 0) s1"
  have s2: "set_b_next c 0 s1 = Some s2" using set_b_next_put(1) [OF b(6) cb] by (simp add: s2_def)
  have fb: "fbyte s1 cs k = fbyte s cs k" for k by (simp add: fbyte_def s1)
  have fb2: "fbyte s2 cs k = fbyte s cs k" if "k < 120 * length cs" for k
    unfolding s2_def using blk_put_fbyte_header [OF b(6) csb cb that] fb by simp
  have nx2: "next_of s2 (cs ! k) = cs ! Suc k" if "Suc k < length cs" for k
  proof -
    have m: "cs ! k \<in> set cs" using that by simp
    then have "cs ! k \<noteq> c" using new f by (auto simp: file_ok_def)
    then have "next_of s2 (cs ! k) = next_of s1 (cs ! k)" unfolding s2_def using csb m by (intro next_of_put [OF b(6) cb]) simp_all
    also have "\<dots> = next_of s (cs ! k)" by (simp add: next_of_def blk_read_def s1)
    finally show ?thesis using f that by (simp add: file_ok_def)
  qed
  have nc: "c \<notin> set cs" using new f by (auto simp: file_ok_def)
  have mem2: "blk_mem s2 (off d k) = blk_mem s (off d k)" if "is_blk s d" "k < 128" for d k
    unfolding s2_def using blk_put_at [OF b(6) cb _ _ that(2), of d 0 "word_bytes 0"] that(1) new blk1 by (auto simp: s1)
  have eq0: "unat (s_blk_cnt s) < FS_BLK_CNT" using st fr by (simp add: store_ok_def free_blks_def config)
  have len: "unat (i_blocks (inodes s i)) = length cs" "i_rdev (inodes s i) = RDEV_ROOTFS" using f by (simp_all add: file_ok_def)
  have "length cs \<le> 100" using file_len [OF st f] blk_count_le [OF st] by simp
  then have inc: "unat (i_blocks (inodes s i) + 1) = length cs + 1" using unat_add32 [of "i_blocks (inodes s i)" 1] len by simp
  have fr2: "free_blks s = Suc (free_blks s2)" using b(7) by (simp add: free_blks_def s2_def)
  show ?thesis
  proof (cases "cs = []")
    case True
    then have z: "i_blocks (inodes s2 i) = 0" using len by (simp add: s2_def s1 unat_eq_0)
    define s' where "s' = upd_inode i (\<lambda>n. n\<lparr>i_data := c, i_blocks := i_blocks n + 1\<rparr>) s2"
    have "fs_file_append_block i s = Some (s', c)"
      using b(1) s2 z eq0 len unfolding fs_file_append_block_def by (simp add: c_def s'_def Let_def)
    moreover have "store_ok s'" using b(6) by (simp add: s'_def upd_inode_def store_ok_def s2_def blk_put_def)
    moreover have "file_ok s' i (cs @ [c])" using True cb inc len
      by (simp add: file_ok_def s'_def upd_inode_def s2_def s1 is_blk_def block_addr_def blk_put_def)
    moreover have "only_file s s' i cs" using mem2 b(5) by (auto simp: only_file_def s'_def upd_inode_def s2_def s1)
    ultimately show ?thesis using c0 new True fr2
      by (intro exI [of _ s'] exI [of _ c]) (simp add: appended_def s'_def upd_inode_def s2_def s1 free_blks_def)
  next
    case False
    then have nz: "i_blocks (inodes s2 i) \<noteq> 0" using len by (auto simp: s2_def s1)
    let ?l = "last cs"
    have lb: "is_blk s1 ?l" "is_blk s2 ?l" using csb False by (simp_all add: s2_def)
    have st2: "store_ok s2" using b(6) by (simp add: s2_def)
    have csb2: "\<forall>d \<in> set cs. is_blk s2 d" using csb by (simp add: s2_def)
    have "last_block (length cs - 1) (cs ! 0) s2 = Some (cs ! (0 + (length cs - 1)))"
      using nx2 False by (intro last_block_nth [OF st2 csb2]) auto
    then have last: "last_block (unat (i_blocks (inodes s2 i)) - 1) (i_data (inodes s2 i)) s2 = Some ?l"
      using len f False by (simp add: s2_def s1 file_ok_def hd_conv_nth last_conv_nth)
    define s3 where "s3 = blk_put ?l 0 (word_bytes c) s2"
    define s' where "s' = upd_inode i (\<lambda>n. n\<lparr>i_blocks := i_blocks n + 1\<rparr>) s3"
    have s3: "set_b_next ?l c s2 = Some s3" using set_b_next_put(1) [OF st2 lb(2)] by (simp add: s3_def)
    have app: "fs_file_append_block i s = Some (s', c)"
      using b(1) s2 nz last s3 eq0 len unfolding fs_file_append_block_def by (simp add: c_def s'_def Let_def)
    have nxl: "next_of s3 ?l = c" unfolding s3_def by (rule next_of_put_header [OF st2 lb(2)])
    have nx3: "next_of s3 (cs ! k) = cs ! Suc k" if "Suc k < length cs" for k
    proof -
      have "cs ! k \<noteq> ?l" using that f False by (auto simp: file_ok_def last_conv_nth nth_eq_iff_index_eq)
      then have "next_of s3 (cs ! k) = next_of s2 (cs ! k)" unfolding s3_def using csb2 that by (intro next_of_put [OF st2 lb(2)]) simp_all
      with nx2 [OF that] show ?thesis by simp
    qed
    have eq': "inodes s' = (inodes s)(i := (inodes s i)\<lparr>i_blocks := i_blocks (inodes s i) + 1\<rparr>)" "blk_mem s' = blk_mem s3"
        "bitmap_blks s' = bitmap_blks s1" "rootfs_addr s' = rootfs_addr s" "reg_pos s' = reg_pos s" "dentries s' = dentries s" "files s' = files s"
      by (simp_all add: s'_def upd_inode_def s3_def s2_def s1)
    have blk': "is_blk s' = is_blk s1" by (auto simp: is_blk_def block_addr_def eq' s1 fun_eq_iff)
    have nx': "next_of s' d = next_of s3 d" for d by (simp add: next_of_def blk_read_def eq')
    have "next_of s' ((cs @ [c]) ! k) = (cs @ [c]) ! Suc k" if "Suc k < length (cs @ [c])" for k
    proof (cases "Suc k = length cs")
      case True
      then have "cs ! k = ?l" using False by (metis diff_Suc_1 last_conv_nth)
      with True nxl show ?thesis unfolding nx' by (simp add: nth_append)
    next
      case nl: False
      with that nx3 [of k] show ?thesis unfolding nx' by (simp add: nth_append)
    qed
    then have fok: "file_ok s' i (cs @ [c])" using f nc csb cb inc False unfolding file_ok_def blk' by (auto simp: eq')
    have "store_ok s'" using st2 by (simp add: s'_def upd_inode_def store_ok_def s3_def blk_put_def)
    moreover have "blk_mem s' (off d k) = blk_mem s (off d k)" if "is_blk s d" "d \<notin> set cs" "k < 128" for d k
    proof -
      have "is_blk s2 d" "?l \<noteq> d" using that blk1 False by (auto simp: s2_def)
      with blk_put_at [OF st2 lb(2) _ _ that(3), of d 0 "word_bytes c"] mem2 [OF that(1,3)] show ?thesis by (simp add: eq' s3_def)
    qed
    then have "only_file s s' i cs" using b(5) by (auto simp: only_file_def eq')
    moreover have "fbyte s' (cs @ [c]) k = fbyte s cs k" if k: "k < 120 * length cs" for k
    proof -
      have "k div 120 < length cs" using k by auto
      then have "fbyte s' (cs @ [c]) k = fbyte s3 cs k" by (simp add: fbyte_def nth_append eq')
      then show ?thesis using blk_put_fbyte_header [OF st2 csb2 lb(2) k] fb2 [OF k] by (simp add: s3_def)
    qed
    ultimately show ?thesis using app c0 new fok fr2
      by (intro exI [of _ s'] exI [of _ c]) (simp add: appended_def eq' free_blks_def s2_def)
  qed
qed

section \<open>Writing\<close>

text \<open>The bytes \<open>bs\<close> have been stored from position \<open>p\<close> on, in the blocks of the file and the new blocks \<open>ds\<close>.\<close>

definition wrote :: "'a fsstate_scheme \<Rightarrow> nat \<Rightarrow> nat \<Rightarrow> u32 list \<Rightarrow> nat \<Rightarrow> u8 list \<Rightarrow> 'a fsstate_scheme \<Rightarrow> u32 list \<Rightarrow> bool" where
  "wrote s fd i cs p bs s' ds \<longleftrightarrow> store_ok s' \<and> file_ok s' i (cs @ ds) \<and> (\<forall>c \<in> set ds. \<not> is_blk s c) \<and> only_file s s' i cs
     \<and> p + length bs \<le> 120 * length (cs @ ds) \<and> reg_pos s' = (reg_pos s)(fd := int (p + length bs))
     \<and> i_size (inodes s' i) = i_size (inodes s i) \<and> free_blks s = length ds + free_blks s'
     \<and> (\<forall>k. p \<le> k \<and> k < p + length bs \<longrightarrow> fbyte s' (cs @ ds) k = bs ! (k - p))
     \<and> (\<forall>k < 120 * length cs. k < p \<or> p + length bs \<le> k \<longrightarrow> fbyte s' (cs @ ds) k = fbyte s cs k)"

lemma wrote_bytes:
  assumes "wrote s fd i cs p bs s' ds"
  shows "p \<le> k \<Longrightarrow> k < p + length bs \<Longrightarrow> fbyte s' (cs @ ds) k = bs ! (k - p)"
    "k < 120 * length cs \<Longrightarrow> k < p \<or> p + length bs \<le> k \<Longrightarrow> fbyte s' (cs @ ds) k = fbyte s cs k"
    "only_file s s' i cs" "\<forall>c \<in> set ds. \<not> is_blk s c" "p + length bs \<le> 120 * length (cs @ ds)"
  using assms unfolding wrote_def by blast+

lemma wrote_none:
  assumes "store_ok s" "file_ok s i cs" "reg_pos s fd = int p" "p \<le> 120 * length cs"
  shows "wrote s fd i cs p [] s []"
  using assms unfolding wrote_def only_file_def by (auto simp: fun_upd_idem)

lemma wrote_append:
  assumes a: "appended s i cs s1 c" and w: "wrote s1 fd i (cs @ [c]) p bs s2 ds" and p: "p = 120 * length cs"
  shows "wrote s fd i cs p bs s2 (c # ds)"
proof -
  have a': "only_file s s1 i cs" "\<not> is_blk s c" using a by (simp_all add: appended_def)
  have new: "\<forall>d \<in> set (c # ds). \<not> is_blk s d" using w only_file_blk [OF a'(1)] a'(2) by (auto simp: wrote_def)
  have o: "only_file s1 s2 i (cs @ [c])" using w by (simp add: wrote_def)
  have "only_file s s2 i cs" by (rule only_file_trans [OF a'(1) o]) (use a'(2) in simp)
  moreover have "fbyte s2 (cs @ c # ds) k = fbyte s cs k" if "k < 120 * length cs" for k
  proof -
    have "fbyte s2 ((cs @ [c]) @ ds) k = fbyte s1 (cs @ [c]) k" using w that p unfolding wrote_def by simp
    then show ?thesis using a that by (simp add: appended_def)
  qed
  ultimately show ?thesis using w a new unfolding wrote_def appended_def by simp
qed

lemma wrote_trans:
  assumes a: "wrote s fd i cs p xs s1 []" and b: "wrote s1 fd i cs (p + length xs) ys s2 ds"
  shows "wrote s fd i cs p (xs @ ys) s2 ds"
proof -
  note a' = wrote_bytes [OF a, simplified] and b' = wrote_bytes [OF b]
  have "only_file s s2 i cs" by (rule only_file_trans [OF a'(3), of _ "[]"]) (use b'(3) in simp_all)
  moreover have "\<forall>c \<in> set ds. \<not> is_blk s c" using b'(4) only_file_blk [OF a'(3)] by blast
  moreover have "fbyte s2 (cs @ ds) k = (xs @ ys) ! (k - p)" if "p \<le> k" "k < p + length (xs @ ys)" for k
  proof (cases "k < p + length xs")
    case True
    then have l: "k < 120 * length cs" "k - p < length xs" using a'(5) that by linarith+
    have "fbyte s2 (cs @ ds) k = fbyte s1 cs k" using b'(2) l(1) True by blast
    with a'(1) True that(1) l(2) show ?thesis by (simp add: nth_append)
  next
    case False
    then have l: "\<not> k - p < length xs" "k - (p + length xs) = k - p - length xs" by linarith+
    have "fbyte s2 (cs @ ds) k = ys ! (k - (p + length xs))" using b'(1) [of k] that(2) False by simp
    with l show ?thesis by (simp add: nth_append)
  qed
  moreover have "fbyte s2 (cs @ ds) k = fbyte s cs k" if "k < 120 * length cs" "k < p \<or> p + length (xs @ ys) \<le> k" for k
  proof -
    have "k < p + length xs \<or> p + length xs + length ys \<le> k" "k < p \<or> p + length xs \<le> k" using that(2) by auto
    with b'(2) a'(2) that(1) show ?thesis by metis
  qed
  ultimately show ?thesis using a b by (simp add: wrote_def add.assoc)
qed

text \<open>A write to one block.\<close>

lemma range_in_block:
  fixes p k n :: nat
  assumes "p mod 120 + n \<le> 120"
  shows "p div 120 = k div 120 \<and> p mod 120 \<le> k mod 120 \<and> k mod 120 < p mod 120 + n \<longleftrightarrow> p \<le> k \<and> k < p + n"
  using block_range [of "k mod 120" 120 "p mod 120" n "p div 120" "k div 120"] assms
  by (simp only: mult_div_mod_eq)

lemma wrote_set_reg_pos [simp]:
  "only_file s (set_reg_pos fd q t) i cs = only_file s t i cs" "free_blks (set_reg_pos fd q t) = free_blks t"
  "free_blks (blk_put d k bs t) = free_blks t" "reg_pos (set_reg_pos fd q t) = (reg_pos t)(fd := q)"
  by (simp_all add: only_file_def set_reg_pos_def free_blks_def)

lemma wrote_block:
  assumes st: "store_ok s" and f: "file_ok s i cs" and p: "reg_pos s fd = int p" "p + length bs \<le> 120 * length cs" "p mod 120 + length bs \<le> 120"
    and bs: "bs \<noteq> []"
  shows "dev_write RDEV_ROOTFS (off (cs ! (p div 120)) (8 + p mod 120)) bs s = Some (blk_put (cs ! (p div 120)) (8 + p mod 120) bs s, True)"
    "wrote s fd i cs p bs (set_reg_pos fd (int (p + length bs)) (blk_put (cs ! (p div 120)) (8 + p mod 120) bs s)) []"
proof -
  let ?c = "cs ! (p div 120)" and ?r = "p mod 120"
  let ?t = "blk_put ?c (8 + ?r) bs s"
  have j: "p div 120 < length cs" using p(2) bs by (cases bs) auto
  then have m: "?c \<in> set cs" by simp
  then have b: "is_blk s ?c" using f by (simp add: file_ok_def)
  have l: "8 + ?r + length bs \<le> 128" using p(3) by simp
  obtain dev g where "mount_dev s RDEV_ROOTFS = Some dev" "files s dev = Some g" "f_op g = Rootfs_ops"
    using st by (auto simp: store_ok_def)
  then show "dev_write RDEV_ROOTFS (off ?c (8 + ?r)) bs s = Some (?t, True)"
    using block_access [OF st b l] by (simp add: dev_write_def rootfs_write_def blk_put_def)
  have csb: "\<forall>d \<in> set cs. is_blk s d" using f by (simp add: file_ok_def)
  have "next_of ?t (cs ! k) = next_of s (cs ! k)" if "Suc k < length cs" for k
    using that csb by (intro next_of_put [OF st b _ l]) simp_all
  then have "file_ok ?t i cs" using f by (simp add: file_ok_def)
  moreover have "only_file s ?t i cs" unfolding only_file_def using blk_put_at [OF st b _ l] m by auto
  moreover have fb: "fbyte ?t cs k = (if p \<le> k \<and> k < p + length bs then bs ! (k - p) else fbyte s cs k)" if k: "k < 120 * length cs" for k
  proof -
    have q: "k div 120 < length cs" using k by auto
    then have cb: "is_blk s (cs ! (k div 120))" using csb by simp
    have kr: "8 + k mod 120 < 128" using mod_less_divisor [of 120 k] by linarith
    have eq: "?c = cs ! (k div 120) \<longleftrightarrow> p div 120 = k div 120" using f j q by (auto simp: file_ok_def nth_eq_iff_index_eq)
    have "p div 120 = k div 120 \<and> ?r \<le> k mod 120 \<and> k mod 120 < ?r + length bs \<longleftrightarrow> p \<le> k \<and> k < p + length bs"
      using p(3) by (rule range_in_block)
    moreover have "k mod 120 - ?r = k - p" if "p div 120 = k div 120" "?r \<le> k mod 120"
      using that by (metis add_diff_cancel_left div_mult_mod_eq)
    ultimately show ?thesis unfolding fbyte_def blk_put_at [OF st b cb l kr] eq by auto
  qed
  ultimately show "wrote s fd i cs p bs (set_reg_pos fd (int (p + length bs)) ?t) []"
    using st p(2) by (simp add: wrote_def)
qed

definition room :: "'a fsstate_scheme \<Rightarrow> u32 list \<Rightarrow> nat \<Rightarrow> nat" where
  "room s cs p = 120 * (length cs + free_blks s) - p"

lemma blk_not_null: "store_ok s \<Longrightarrow> is_blk s c \<Longrightarrow> c \<noteq> 0"
proof
  assume "store_ok s" "is_blk s c" "c = 0"
  then show False using is_blkD [of s c] by (auto simp: store_ok_def)
qed

lemma write_loop_block:
  assumes st: "store_ok s" and f: "file_ok s i cs" and pos: "reg_pos s fd = int p" "p < 120 * length cs" and bs: "buf \<noteq> []"
    and w: "w = min (length buf) (120 - p mod 120)"
    and t: "t = set_reg_pos fd (int (p + w)) (blk_put (cs ! (p div 120)) (8 + p mod 120) (take w buf) s)"
  shows "write_loop rd fd i buf s = write_loop rd fd i (drop w buf) t" "wrote s fd i cs p (take w buf) t []" "0 < w" "w \<le> room s cs p"
proof -
  have "length cs \<le> 100" using file_len [OF st f] blk_count_le [OF st] by simp
  then have sm: "p + 120 < 2 ^ 31" "p < 2 ^ 31" using pos(2) by simp_all
  have rdev: "i_rdev (inodes s i) = RDEV_ROOTFS" "unat (i_blocks (inodes s i)) = length cs" using f by (simp_all add: file_ok_def)
  have j: "p div 120 < length cs" using pos(2) by auto
  then have nn: "cs ! (p div 120) \<noteq> 0" using f by (intro blk_not_null [OF st]) (simp add: file_ok_def)
  show w0: "0 < w" using bs w by simp
  have "120 * (p div 120) + p mod 120 = p" by simp
  then have e: "p + (120 - p mod 120) \<le> 120 * length cs" using j mult_le_mono2 [of "Suc (p div 120)" "length cs" 120] mod_less_divisor [of 120 p] by linarith
  then have pw: "p + w \<le> 120 * length cs" using w by linarith
  then show "w \<le> room s cs p" by (simp add: room_def)
  have l: "length (take w buf) = w" "take w buf \<noteq> []" using w w0 bs by auto
  have m: "p mod 120 + w \<le> 120" using w by simp
  note b = wrote_block [OF st f pos(1) _ _ l(2), unfolded l(1), OF pw m]
  show "wrote s fd i cs p (take w buf) t []" using b(2) by (simp add: t)
  have c: "chunk (length buf) (int p) = w" "blk_free_size = 120" by (simp_all add: chunk_def blk_free_size_def config pos_small(1) [OF sm(2)] w)
  have pa: "pos_add (int p) w = int (p + w)" using sm w by (intro pos_small) simp
  have ad: "cs ! (p div 120) + word_of_nat BLOCK_HEADER_SIZE + word_of_nat (p mod 120) = off (cs ! (p div 120)) (8 + p mod 120)"
    unfolding off_off by (simp add: config)
  show "write_loop rd fd i buf s = write_loop rd fd i (drop w buf) t"
    using bs j nn b(1) fs_get_block_addr_nth [OF st f j, of rd]
    by (simp add: write_loop.simps [of rd fd i buf] pos(1) c pos_small(1) [OF sm(2)] rdev Let_def ad pa t)
qed

text \<open>At the end of the blocks the loop appends one, or stops.\<close>

lemma write_loop_end:
  assumes st: "store_ok s" and f: "file_ok s i cs" and pos: "reg_pos s fd = int q" "q = 120 * length cs" and bs: "buf \<noteq> []"
  shows "free_blks s = 0 \<Longrightarrow> write_loop rd fd i buf s = Some (s, buf)"
    "0 < free_blks s \<Longrightarrow> \<exists>s1 c. appended s i cs s1 c \<and> write_loop rd fd i buf s = write_loop rd fd i buf s1"
proof -
  have "length cs \<le> 100" using file_len [OF st f] blk_count_le [OF st] by simp
  then have pu: "pos_u (int q) = q" unfolding pos(2) by (intro pos_small(1)) simp
  have qd: "q div 120 = length cs" using pos(2) by simp
  have rdev: "i_rdev (inodes s i) = RDEV_ROOTFS" "unat (i_blocks (inodes s i)) = length cs" using f by (simp_all add: file_ok_def)
  have bf: "blk_free_size = 120" by (simp add: blk_free_size_def config)
  show "write_loop rd fd i buf s = Some (s, buf)" if "free_blks s = 0"
    using fs_file_append_block_full [OF st that, of i] bs
    by (simp add: write_loop.simps [of rd fd i buf] pos(1) pu bf qd rdev Let_def)
  show "\<exists>s1 c. appended s i cs s1 c \<and> write_loop rd fd i buf s = write_loop rd fd i buf s1" if "0 < free_blks s"
  proof -
    from fs_file_append_block_ok [OF st f that] obtain s1 c where a: "fs_file_append_block i s = Some (s1, c)" "appended s i cs s1 c" by blast
    then have s1: "store_ok s1" "file_ok s1 i (cs @ [c])" "reg_pos s1 = reg_pos s" by (simp_all add: appended_def)
    have g: "fs_get_block_addr rd i (length cs) s1 = Some c" using fs_get_block_addr_nth [OF s1(1,2), of "length cs" rd] by simp
    have r1: "i_rdev (inodes s1 i) = RDEV_ROOTFS" "unat (i_blocks (inodes s1 i)) = Suc (length cs)" using s1(2) by (simp_all add: file_ok_def)
    have "write_loop rd fd i buf s = write_loop rd fd i buf s1"
      unfolding write_loop.simps [of rd fd i buf] using a(1) g bs by (simp add: pos(1) s1(3) pu bf qd rdev r1 Let_def)
    with a(2) show ?thesis by blast
  qed
qed

lemma write_loop_ok:
  fixes s :: "'a fsstate_scheme"
  shows "store_ok s \<Longrightarrow> file_ok s i cs \<Longrightarrow> reg_pos s fd = int p \<Longrightarrow> p \<le> 120 * length cs \<Longrightarrow>
   \<exists>s' ds. write_loop rd fd i buf s = Some (s', drop (room s cs p) buf) \<and> wrote s fd i cs p (take (room s cs p) buf) s' ds"
proof (induction buf arbitrary: s cs p rule: length_induct)
  case (1 buf)
  note IH = 1(1) and st = 1(2) and f = 1(3) and pos = 1(4) and p = 1(5)
  have inside: "\<exists>s' ds. write_loop rd fd i buf t = Some (s', drop (room t es p) buf) \<and> wrote t fd i es p (take (room t es p) buf) s' ds"
    if t: "store_ok t" "file_ok t i es" "reg_pos t fd = int p" "p < 120 * length es" and bs: "buf \<noteq> []" for t :: "'a fsstate_scheme" and es
  proof -
    define w where "w = min (length buf) (120 - p mod 120)"
    define u where "u = set_reg_pos fd (int (p + w)) (blk_put (es ! (p div 120)) (8 + p mod 120) (take w buf) t)"
    note b = write_loop_block [OF t bs w_def u_def]
    have lt: "length (take w buf) = w" by (simp add: w_def)
    have u: "store_ok u" "file_ok u i es" "reg_pos u fd = int (p + w)" "p + w \<le> 120 * length es" "free_blks u = free_blks t"
      using b(2) unfolding wrote_def lt by auto
    have "length (drop w buf) < length buf" using b(3) bs by simp
    from IH [rule_format, OF this u(1-4)] obtain s' ds where
      s': "write_loop rd fd i (drop w buf) u = Some (s', drop (room u es (p + w)) (drop w buf))"
        "wrote u fd i es (p + w) (take (room u es (p + w)) (drop w buf)) s' ds" by blast
    have r: "room u es (p + w) + w = room t es p" using b(4) u(4,5) by (simp add: room_def)
    have "wrote t fd i es p (take w buf @ take (room u es (p + w)) (drop w buf)) s' ds"
      by (rule wrote_trans [OF b(2)]) (use s'(2) lt in simp)
    moreover have "take w buf @ take (room u es (p + w)) (drop w buf) = take (room t es p) buf" by (metis add.commute r take_add)
    moreover have "drop (room u es (p + w)) (drop w buf) = drop (room t es p) buf" by (simp add: r)
    ultimately show ?thesis using s'(1) b(1) by auto
  qed
  consider "buf = []" | "buf \<noteq> []" "p < 120 * length cs" | "buf \<noteq> []" "p = 120 * length cs" "free_blks s = 0" | "buf \<noteq> []" "p = 120 * length cs" "0 < free_blks s"
    using p by linarith
  then show ?case
  proof cases
    case 1
    then show ?thesis using wrote_none [OF st f pos p] by (auto simp: write_loop.simps [of rd fd i "[]"])
  next
    case 2
    then show ?thesis using inside [OF st f pos] by blast
  next
    case 3
    then have "room s cs p = 0" by (simp add: room_def)
    with 3 write_loop_end(1) [OF st f pos 3(2,1,3), of rd] wrote_none [OF st f pos p] show ?thesis by simp blast
  next
    case 4
    from write_loop_end(2) [OF st f pos 4(2,1,3), of rd] obtain s1 c where
      a: "appended s i cs s1 c" "write_loop rd fd i buf s = write_loop rd fd i buf s1" by blast
    then have s1: "store_ok s1" "file_ok s1 i (cs @ [c])" "reg_pos s1 fd = int p" "free_blks s = Suc (free_blks s1)"
      using pos by (simp_all add: appended_def)
    have "room s1 (cs @ [c]) p = room s cs p" using s1(4) by (simp add: room_def)
    with inside [OF s1(1-3) _ 4(1)] 4(2) a(2) wrote_append [OF a(1) _ 4(2)] show ?thesis by fastforce
  qed
qed

section \<open>The calls\<close>

lemma preempt_regfile [simp]:
  "store_ok (preempt_disable s) = store_ok s" "file_ok (preempt_disable s) = file_ok s" "fbyte (preempt_disable s) = fbyte s"
  "store_ok (preempt_enable s) = store_ok s" "file_ok (preempt_enable s) = file_ok s" "fbyte (preempt_enable s) = fbyte s"
  "fbytes (preempt_disable s) = fbytes s" "fbytes (preempt_enable s) = fbytes s" "room (preempt_disable s) = room s" "room (preempt_enable s) = room s"
  "reg_pos (preempt_disable s) = reg_pos s" "reg_pos (preempt_enable s) = reg_pos s" "inodes (preempt_disable s) = inodes s" "inodes (preempt_enable s) = inodes s"
  "only_file (preempt_disable s) t = only_file s t" "only_file s (preempt_enable t) = only_file s t"
  by (simp_all add: fun_eq_iff preempt_disable_def preempt_enable_def preempt_count_inc_def preempt_count_dec_def Let_def
      store_ok_def file_ok_def fbyte_def fbytes_def room_def free_blks_def only_file_def is_blk_def block_addr_def next_of_def blk_read_def)

definition set_size :: "nat \<Rightarrow> u32 \<Rightarrow> 'a fsstate_scheme \<Rightarrow> 'a fsstate_scheme" where
  "set_size i n s = upd_inode i (\<lambda>x. x\<lparr>i_size := i_size x + n\<rparr>) s"

lemma set_size_frame [simp]:
  "store_ok (set_size i n s) = store_ok s" "file_ok (set_size i n s) j cs = file_ok s j cs" "fbyte (set_size i n s) = fbyte s"
  "fbytes (set_size i n s) = fbytes s" "reg_pos (set_size i n s) = reg_pos s" "only_file s (set_size i n t) i cs = only_file s t i cs"
  "i_size (inodes (set_size i n s) i) = i_size (inodes s i) + n" "files (set_size i n s) = files s"
  by (auto simp: fun_eq_iff set_size_def upd_inode_def store_ok_def file_ok_def fbyte_def fbytes_def only_file_def is_blk_def block_addr_def
      next_of_def blk_read_def)

text \<open>The operations of a file change the fields of the file system only.\<close>

definition same_fd :: "'a fsstate_scheme \<Rightarrow> 'a fsstate_scheme \<Rightarrow> bool" where
  "same_fd s s' \<longleftrightarrow> fdstate.truncate s' = fdstate.truncate s"

lemma same_fd_refl [simp]: "same_fd s s"
  by (simp add: same_fd_def)

lemma same_fd_trans: "same_fd s s1 \<Longrightarrow> same_fd s1 s2 \<Longrightarrow> same_fd s s2"
  by (simp add: same_fd_def)

lemma same_fdD:
  assumes "same_fd s s'"
  shows "fdtable s' = fdtable s" "files s' = files s" "fd_valid i s' = fd_valid i s" "preempt_cnt s' = preempt_cnt s"
proof -
  have sel: "fdtable (fdstate.truncate t) = fdtable t" "files (fdstate.truncate t) = files t" "bitmap_fds (fdstate.truncate t) = bitmap_fds t"
      "tasks (fdstate.truncate t) = tasks t" "threads (fdstate.truncate t) = threads t" "running (fdstate.truncate t) = running t"
      "preempt_cnt (fdstate.truncate t) = preempt_cnt t" for t :: "'a fsstate_scheme"
    by (simp_all add: fdstate.defs)
  have e: "fdtable s' = fdtable s" "files s' = files s" "bitmap_fds s' = bitmap_fds s" "tasks s' = tasks s" "threads s' = threads s"
      "running s' = running s" "preempt_cnt s' = preempt_cnt s"
    using assms unfolding same_fd_def by (metis sel)+
  show "fdtable s' = fdtable s" "files s' = files s" "preempt_cnt s' = preempt_cnt s" using e by simp_all
  show "fd_valid i s' = fd_valid i s" unfolding fd_valid_def current_task_def e by (rule refl)
qed

lemma same_fd_upd [simp]:
  "same_fd s (upd_inode i f s)" "same_fd s (set_reg_pos fd p s)" "same_fd s (s\<lparr>blk_mem := m\<rparr>)" "same_fd s (s\<lparr>s_blk_cnt := n, bitmap_blks := b\<rparr>)"
  by (simp_all add: same_fd_def upd_inode_def set_reg_pos_def fdstate.defs)

lemma fs_alloc_block_fd: "fs_alloc_block s = Some (s', r) \<Longrightarrow> same_fd s s'"
  by (auto simp: fs_alloc_block_def bind_eq_Some_iff split: if_splits)

lemma set_b_next_fd: "set_b_next c v s = Some s' \<Longrightarrow> same_fd s s'"
  by (auto simp: set_b_next_def split: if_splits)

lemma fs_file_append_block_fd:
  assumes "fs_file_append_block i s = Some (s', c)"
  shows "same_fd s s'"
proof (cases "i_rdev (inodes s i) \<noteq> RDEV_ROOTFS \<or> unat (s_blk_cnt s) \<ge> FS_BLK_CNT")
  case True
  with assms show ?thesis by (auto simp: fs_file_append_block_def split: if_splits)
next
  case False
  with assms obtain s1 b s2 where a: "fs_alloc_block s = Some (s1, Some b)" "set_b_next (block_addr b s1) 0 s1 = Some s2"
    by (auto simp: fs_file_append_block_def bind_eq_Some_iff Let_def)
  have "same_fd s2 s'"
  proof (cases "i_blocks (inodes s2 i) = 0")
    case True
    with a assms False show ?thesis by (auto simp: fs_file_append_block_def Let_def)
  next
    case nz: False
    from a assms False nz obtain l s3 where l: "set_b_next l (block_addr b s1) s2 = Some s3"
        "s' = upd_inode i (\<lambda>n. n\<lparr>i_blocks := i_blocks n + 1\<rparr>) s3"
      by (auto simp: fs_file_append_block_def bind_eq_Some_iff Let_def)
    from set_b_next_fd [OF l(1)] l(2) show ?thesis by (auto intro: same_fd_trans)
  qed
  with fs_alloc_block_fd [OF a(1)] set_b_next_fd [OF a(2)] show ?thesis by (blast intro: same_fd_trans)
qed

lemma dev_write_fd:
  assumes "dev_write rdev a buf s = Some (s', ok)"
  shows "same_fd s s'"
proof -
  obtain dev f where "mount_dev s rdev = Some dev" "files s dev = Some f" using assms by (auto simp: dev_write_def bind_eq_Some_iff)
  then have "rootfs_write a buf s = Some (s', ok)" using assms by (cases "f_op f") (auto simp: dev_write_def)
  then show ?thesis by (auto simp: rootfs_write_def split: if_splits)
qed

lemma write_loop_fd: "write_loop rd fd i buf s = Some (s', r) \<Longrightarrow> same_fd s s'"
proof (induction rd fd i buf s rule: write_loop.induct)
  case (1 rd fd i buf s)
  show ?case
  proof (cases "buf = []")
    case True
    with 1(2) show ?thesis by (simp add: write_loop.simps [of rd fd i "[]"])
  next
    case False
    let ?pos = "reg_pos s fd" and ?w = "chunk (length buf) (reg_pos s fd)"
    let ?a = "if pos_u ?pos div blk_free_size \<ge> unat (i_blocks (inodes s i)) then fs_file_append_block i s
               else map_option (\<lambda>a. (s, a)) (fs_get_block_addr rd i (pos_u ?pos div blk_free_size) s)"
    obtain s1 a where a: "?a = Some (s1, a)"
      using 1(2) False by (simp add: write_loop.simps [of rd fd i buf] Let_def split: option.splits prod.splits)
    have s1: "same_fd s s1" using a fs_file_append_block_fd by (auto split: if_splits)
    show ?thesis
    proof (cases "a = 0")
      case True
      with 1(2) False a s1 show ?thesis by (simp add: write_loop.simps [of rd fd i buf] Let_def)
    next
      case na: False
      let ?d = "dev_write (i_rdev (inodes s1 i)) (a + word_of_nat BLOCK_HEADER_SIZE + word_of_nat (pos_u ?pos mod blk_free_size)) (take ?w buf) s1"
      from 1(2) False a na obtain s2 ok where d: "?d = Some (s2, ok)"
          "(if ok then write_loop rd fd i (drop ?w buf) (set_reg_pos fd (pos_add ?pos ?w) s2) else Some (s2, buf)) = Some (s', r)"
        by (auto simp: write_loop.simps [of rd fd i buf] Let_def split: option.splits prod.splits bool.splits)
      have s2: "same_fd s s2" using same_fd_trans [OF s1 dev_write_fd [OF d(1)]] .
      show ?thesis
      proof (cases ok)
        case True
        have "same_fd (set_reg_pos fd (pos_add ?pos ?w) s2) s'"
          using 1(1) [OF False refl refl a refl na d(1) refl True [THEN eqTrueI]] d(2) True by simp
        with s2 show ?thesis by (meson same_fd_trans same_fd_upd(2))
      qed (use s2 d(2) in simp)
    qed
  qed
qed

lemma reg_file_read_state:
  assumes "store_ok s" "file_ok s i cs" "files s fd = Some f" "f_inode f = Some i" "reg_pos s fd = int q" "q + m \<le> 120 * length cs"
  shows "reg_file_read rd fd m s = Some (preempt_enable (set_reg_pos fd (int (q + m)) (preempt_disable s)), fbytes s cs q m)"
  using read_loop_ok [of "preempt_disable s" i cs fd q m rd "[]"] assms
  by (simp add: reg_file_read_def critr_def reg_file_read_body_def)

lemma reg_file_read_ok:
  assumes "store_ok s" "file_ok s i cs" "files s fd = Some f" "f_inode f = Some i" "reg_pos s fd = int q" "q + m \<le> 120 * length cs"
  shows "\<exists>t. reg_file_read rd fd m s = Some (t, fbytes s cs q m) \<and> reg_pos t fd = int (q + m)"
  using reg_file_read_state [OF assms] by (simp add: set_reg_pos_def)

lemma reg_file_write_ok:
  assumes st: "store_ok s" and f: "file_ok s i cs" and fd: "files s fd = Some g" "f_inode g = Some i"
    and p: "reg_pos s fd = int p" "p \<le> 120 * length cs" and n: "n = min (length buf) (room s cs p)"
  obtains t ds where "reg_file_write rd fd buf s = Some (preempt_enable (set_size i (word_of_nat (length buf)) t), int n)"
    "wrote (preempt_disable s) fd i cs p (take n buf) t ds" "same_fd (preempt_disable s) t"
proof -
  let ?r = "room s cs p"
  have tk: "take ?r buf = take n buf" "length (drop ?r buf) = length buf - n" unfolding n by (simp_all add: min_def)
  obtain t ds where t: "write_loop rd fd i buf (preempt_disable s) = Some (t, drop ?r buf)"
      "wrote (preempt_disable s) fd i cs p (take n buf) t ds"
    using write_loop_ok [of "preempt_disable s" i cs fd p rd buf] st f p tk by auto
  have rdev: "i_rdev (inodes s i) = RDEV_ROOTFS" using f by (simp add: file_ok_def)
  have "n \<le> length buf" by (simp add: n)
  then have "reg_file_write rd fd buf s = Some (preempt_enable (set_size i (word_of_nat (length buf)) t), int n)"
    using t(1) fd rdev tk(2) by (simp add: reg_file_write_def critr_def reg_file_write_body_def set_size_def)
  with that t(2) write_loop_fd [OF t(1)] show ?thesis by blast
qed

lemma fbytes_eq_take:
  assumes "\<And>k. p \<le> k \<Longrightarrow> k < p + length bs \<Longrightarrow> fbyte s cs k = bs ! (k - p)"
  shows "fbytes s cs p (length bs) = bs"
  by (rule nth_equalityI) (simp_all add: fbytes_def assms)

text \<open>
  C29. Writing to a regular file of the root file system and reading it back. \<^verbatim>\<open>reg_file_write\<close> at a position inside the
  blocks of the file, or at their end, stores as many bytes as the blocks of the file and the free blocks have room for
  and returns their number; the position moves behind them, the size grows by the size of the buffer. Afterwards
  \<^verbatim>\<open>reg_file_read\<close> of any range of the blocks returns the bytes of that range and moves the position: the range that has
  been written holds the bytes of the buffer, every other position what it held before. The blocks and the bytes of
  every other file are unchanged.
\<close>

theorem regular_file_write_read:
  fixes s :: "'a fsstate_scheme"
  assumes st: "store_ok s" and f: "file_ok s i cs" and fd: "files s fd = Some g" "f_inode g = Some i"
    and p: "reg_pos s fd = int p" "p \<le> 120 * length cs" and n: "n = min (length buf) (room s cs p)"
  shows "\<exists>s' ds. reg_file_write rd fd buf s = Some (s', int n) \<and> store_ok s' \<and> file_ok s' i (cs @ ds) \<and> reg_pos s' fd = int (p + n)
    \<and> i_size (inodes s' i) = i_size (inodes s i) + word_of_nat (length buf)
    \<and> (\<forall>q m. q + m \<le> 120 * length (cs @ ds) \<longrightarrow>
         (\<exists>t. reg_file_read rd' fd m (set_reg_pos fd (int q) s') = Some (t, fbytes s' (cs @ ds) q m) \<and> reg_pos t fd = int (q + m)))
    \<and> p + n \<le> 120 * length (cs @ ds) \<and> fbytes s' (cs @ ds) p n = take n buf
    \<and> (\<forall>k < 120 * length cs. k < p \<or> p + n \<le> k \<longrightarrow> fbyte s' (cs @ ds) k = fbyte s cs k)
    \<and> (\<forall>j es. j \<noteq> i \<and> file_ok s j es \<and> set es \<inter> set cs = {} \<longrightarrow> file_ok s' j es \<and> (\<forall>k < 120 * length es. fbyte s' es k = fbyte s es k))"
proof -
  have tk: "length (take n buf) = n" unfolding n by simp
  obtain t ds where w: "reg_file_write rd fd buf s = Some (preempt_enable (set_size i (word_of_nat (length buf)) t), int n)"
      and t: "wrote (preempt_disable s) fd i cs p (take n buf) t ds" by (rule reg_file_write_ok [OF st f fd p n])
  define s' where "s' = preempt_enable (set_size i (word_of_nat (length buf)) t)"
  note w = w [folded s'_def]
  note b = wrote_bytes [OF t, unfolded tk]
  have t': "store_ok t" "file_ok t i (cs @ ds)" "reg_pos t = (reg_pos s)(fd := int (p + n))" "i_size (inodes t i) = i_size (inodes s i)"
    using t unfolding wrote_def tk by simp_all
  have o: "only_file s s' i cs" using b(3) by (simp add: s'_def)
  have s': "store_ok s'" "file_ok s' i (cs @ ds)" "reg_pos s' fd = int (p + n)" "fbyte s' = fbyte t" "fbytes s' = fbytes t"
    using t' by (simp_all add: s'_def)
  have rdb: "\<exists>u. reg_file_read rd' fd m (set_reg_pos fd (int q) s') = Some (u, fbytes s' (cs @ ds) q m) \<and> reg_pos u fd = int (q + m)"
    if "q + m \<le> 120 * length (cs @ ds)" for q m
  proof -
    have "files (set_reg_pos fd (int q) s') fd = Some g" using o fd(1) by (simp add: only_file_def set_reg_pos_def)
    from reg_file_read_ok [OF _ _ this fd(2) _ that, of rd'] s' show ?thesis by simp
  qed
  have "fbytes s' (cs @ ds) p (length (take n buf)) = take n buf"
    by (rule fbytes_eq_take) (use b(1) in \<open>simp only: s'(4) tk\<close>)
  then have "fbytes s' (cs @ ds) p n = take n buf" unfolding tk .
  moreover have "file_ok s' j es \<and> (\<forall>k < 120 * length es. fbyte s' es k = fbyte s es k)" if "j \<noteq> i" "file_ok s j es" "set es \<inter> set cs = {}" for j es
    using only_file_other [OF o that(2,1,3)] by blast
  moreover have "i_size (inodes s' i) = i_size (inodes s i) + word_of_nat (length buf)" using t'(4) by (simp add: s'_def)
  moreover have "fbyte s' (cs @ ds) k = fbyte s cs k" if "k < 120 * length cs" "k < p \<or> p + n \<le> k" for k
    using b(2) [OF that] by (simp add: s'(4))
  ultimately show ?thesis using w s'(1-3) rdb b(5) by blast
qed

definition demo_reg :: fsstate where
  "demo_reg = demo_fs\<lparr>mount_dev := [0 \<mapsto> 67],
     files := [67 \<mapsto> \<lparr>f_inode = None, f_op = Rootfs_ops, f_events = 0, f_flags = 0\<rparr>, 68 \<mapsto> \<lparr>f_inode = Some 1, f_op = Reg_file_ops, f_events = 0, f_flags = 0\<rparr>]\<rparr>"

theorem regular_file_write_read_witness:
  "\<exists>s' t. reg_file_write (\<lambda>_ _ _. None) 68 (replicate 130 7) demo_reg = Some (s', 130)
     \<and> reg_file_read (\<lambda>_ _ _. None) 68 130 (set_reg_pos 68 0 s') = Some (t, replicate 130 7)"
proof -
  have sel: "rootfs_addr demo_reg = 0x20020000" "bitmap_blks demo_reg = [0, 0, 0, 0]" "s_blk_cnt demo_reg = 0" "inodes demo_reg = demo_inode"
      "mount_dev demo_reg = [0 \<mapsto> 67]" "reg_pos demo_reg 68 = 0"
      "files demo_reg = [67 \<mapsto> \<lparr>f_inode = None, f_op = Rootfs_ops, f_events = 0, f_flags = 0\<rparr>, 68 \<mapsto> \<lparr>f_inode = Some 1, f_op = Reg_file_ops, f_events = 0, f_flags = 0\<rparr>]"
    by (simp_all add: demo_reg_def demo_fs_def fdstate.defs fsstate.defs)
  have e: "bm_set [0, 0, 0, 0] = {}" by (auto simp: bm_set_def bm_bit_def nth_Cons')
  have st: "store_ok demo_reg" unfolding store_ok_def sel e by (simp add: config)
  have f: "file_ok demo_reg 1 []" unfolding file_ok_def sel by (simp add: demo_inode_def)
  have r: "room demo_reg [] 0 = 12000" by (simp add: room_def free_blks_def sel e)
  have g: "files demo_reg 68 = Some \<lparr>f_inode = Some 1, f_op = Reg_file_ops, f_events = 0, f_flags = 0\<rparr>" by (simp add: sel)
  have i: "f_inode \<lparr>f_inode = Some 1, f_op = Reg_file_ops, f_events = 0, f_flags = 0\<rparr> = Some (1 :: nat)" by simp
  have p: "reg_pos demo_reg 68 = int 0" "0 \<le> 120 * length ([] :: u32 list)" by (simp_all add: sel)
  have n: "130 = min (length (replicate 130 (7 :: u8))) (room demo_reg [] 0)" by (simp add: r)
  obtain s' ds where s': "reg_file_write (\<lambda>_ _ _. None) 68 (replicate 130 7) demo_reg = Some (s', int 130)"
    and rd: "\<forall>q m. q + m \<le> 120 * length ([] @ ds) \<longrightarrow> (\<exists>t. reg_file_read (\<lambda>_ _ _. None) 68 m (set_reg_pos 68 (int q) s')
        = Some (t, fbytes s' ([] @ ds) q m) \<and> reg_pos t 68 = int (q + m))"
    and l: "0 + 130 \<le> 120 * length ([] @ ds)" "fbytes s' ([] @ ds) 0 130 = take 130 (replicate 130 7)"
    using regular_file_write_read [OF st f g i p n, of "\<lambda>_ _ _. None" "\<lambda>_ _ _. None"] by blast
  from rd [rule_format, OF l(1)] s' l(2) show ?thesis by auto
qed

end
