(* ===== verification/Fileio.thy ===== *)
theory Fileio
  imports Regfile
begin

text \<open>
  The descriptor calls of theory \<open>Fdesc\<close> on the regular files of theory \<open>Regfile\<close>: what a task writes through a
  descriptor it reads back through the same descriptor.
\<close>

lemma fd_lookup_open:
  assumes "fd_valid i s = Some True" "fdt_file (fdtable s i) = Some h" "files s h = Some g"
  shows "fd_lookup True (int (i + FILE_RESERVED_NUM)) s = Some (set_file h (g\<lparr>f_flags := fdt_flags (fdtable s i)\<rparr>) s, Inr h)"
    "fd_lookup False (int (i + FILE_RESERVED_NUM)) s = Some (s, Inr h)"
  using assms by (simp_all add: fd_lookup_def Let_def nat_int_add)

lemma fd_valid_cong:
  assumes "bitmap_fds s' = bitmap_fds s" "tasks s' = tasks s" "threads s' = threads s" "running s' = running s"
  shows "fd_valid i s' = fd_valid i s"
  unfolding fd_valid_def current_task_def assms by (rule refl)

lemmas preempt_defs = preempt_disable_def preempt_enable_def preempt_count_inc_def preempt_count_dec_def

lemma preempt_fdtable [simp]: "fdtable (preempt_disable s) = fdtable s" "fdtable (preempt_enable s) = fdtable s"
  by (simp_all add: preempt_defs Let_def)

lemma preempt_fd_valid [simp]: "fd_valid i (preempt_disable s) = fd_valid i s" "fd_valid i (preempt_enable s) = fd_valid i s"
  by (intro fd_valid_cong; simp add: preempt_defs Let_def)+

lemma set_file_fd_valid [simp]: "fd_valid i (set_file h g s) = fd_valid i s"
  by (intro fd_valid_cong) (simp_all add: set_file_def)

lemma set_file_fs_frame [simp]:
  "fdtable (set_file h g s) = fdtable s" "reg_pos (set_file h g s) = reg_pos s" "inodes (set_file h g s) = inodes s"
  "file_ok (set_file h g s) = file_ok s" "fbyte (set_file h g s) = fbyte s" "room (set_file h g s) = room s" "fbytes (set_file h g s) = fbytes s"
  by (simp_all add: fun_eq_iff set_file_def file_ok_def is_blk_def block_addr_def next_of_def blk_read_def room_def free_blks_def fbytes_def fbyte_def)

lemma store_ok_set_file:
  assumes "store_ok s" "files s h = Some g" "f_op g' = f_op g"
  shows "store_ok (set_file h g' s)"
proof -
  obtain dev f where d: "mount_dev s RDEV_ROOTFS = Some dev" "files s dev = Some f" "f_op f = Rootfs_ops" using assms(1) by (auto simp: store_ok_def)
  then have "\<exists>f. files (set_file h g' s) dev = Some f \<and> f_op f = Rootfs_ops" using assms(2,3) by (cases "dev = h") auto
  with d assms(1) show ?thesis by (auto simp: store_ok_def set_file_def)
qed

lemma free_blks_frame [simp]:
  "free_blks (preempt_disable s) = free_blks s" "free_blks (preempt_enable s) = free_blks s" "free_blks (set_file h g s) = free_blks s"
  "free_blks (set_size i n s) = free_blks s"
  by (simp_all add: free_blks_def preempt_defs set_file_def set_size_def upd_inode_def Let_def)

text \<open>The three calls on a descriptor of a regular file.\<close>

definition on_file :: "nat \<Rightarrow> nat \<Rightarrow> nat \<Rightarrow> 'a fsstate_scheme \<Rightarrow> bool" where
  "on_file k h i s \<longleftrightarrow> fd_valid k s = Some True \<and> fdt_file (fdtable s k) = Some h
     \<and> (case files s h of None \<Rightarrow> False | Some g \<Rightarrow> f_op g = Reg_file_ops \<and> f_inode g = Some i)"

lemma on_fileE:
  assumes "on_file k h i s"
  obtains g where "fd_valid k s = Some True" "fdt_file (fdtable s k) = Some h" "files s h = Some g" "f_op g = Reg_file_ops" "f_inode g = Some i"
  using assms by (auto simp: on_file_def split: option.splits)

lemma fs_drv_reg: "file_ops (fs_drv rd rom drv) Reg_file_ops = Some (reg_file_ops rd)"
  by (simp add: file_ops_def fs_drv_def)

lemma eintr_neq: "int n \<noteq> - ERESTARTSYS" "ERESTARTSYS \<noteq> 0"
  by (simp_all add: errno)

lemma on_file_preempt [simp]: "on_file k h i (preempt_enable s) = on_file k h i s" "on_file k h i (preempt_disable s) = on_file k h i s"
  by (simp_all add: on_file_def)

lemma on_file_same_fd: "same_fd s s' \<Longrightarrow> on_file k h i s' = on_file k h i s"
  using same_fdD [of s s'] by (simp add: on_file_def)

text \<open>The lookup of the descriptor, with the flags of the descriptor copied to the file.\<close>

lemma on_file_lookup:
  assumes "on_file k h i s" "store_ok s"
  obtains g where "fd_lookup True (int (k + FILE_RESERVED_NUM)) (preempt_disable s) = Some (set_file h g (preempt_disable s), Inr h)"
    "f_op g = Reg_file_ops" "f_inode g = Some i" "store_ok (preempt_enable (set_file h g (preempt_disable s)))"
    "on_file k h i (preempt_enable (set_file h g (preempt_disable s)))"
proof -
  obtain f where f: "fd_valid k s = Some True" "fdt_file (fdtable s k) = Some h" "files s h = Some f" "f_op f = Reg_file_ops" "f_inode f = Some i"
    by (rule on_fileE [OF assms(1)])
  let ?g = "f\<lparr>f_flags := fdt_flags (fdtable s k)\<rparr>"
  have "store_ok (set_file h ?g (preempt_disable s))" using assms(2) f(3) by (intro store_ok_set_file [of _ _ f]) simp_all
  moreover have "fd_lookup True (int (k + FILE_RESERVED_NUM)) (preempt_disable s) = Some (set_file h ?g (preempt_disable s), Inr h)"
    using fd_lookup_open(1) [of k "preempt_disable s" h f] f by simp
  ultimately show ?thesis using that [of ?g] f by (simp add: on_file_def)
qed

lemma sys_write_file:
  assumes "on_file k h i s" "store_ok s" "file_ok s i cs" "reg_pos s h = int p" "p \<le> 120 * length cs" "n = min (length buf) (room s cs p)"
  obtains s' ds where "sys_write_enter (fs_drv rd rom drv) (int (k + FILE_RESERVED_NUM)) buf (length buf) s = Some (s', Some (int n))"
    "on_file k h i s'" "store_ok s'" "file_ok s' i (cs @ ds)" "i_size (inodes s' i) = i_size (inodes s i) + word_of_nat (length buf)"
    "p + n \<le> 120 * length (cs @ ds)" "fbytes s' (cs @ ds) p n = take n buf"
    "reg_pos s' h = int (p + n)" "\<forall>k < p. fbyte s' (cs @ ds) k = fbyte s cs k" "free_blks s = length ds + free_blks s'"
proof -
  obtain g where g: "fd_lookup True (int (k + FILE_RESERVED_NUM)) (preempt_disable s) = Some (set_file h g (preempt_disable s), Inr h)"
      "f_op g = Reg_file_ops" "f_inode g = Some i" "store_ok (preempt_enable (set_file h g (preempt_disable s)))"
      "on_file k h i (preempt_enable (set_file h g (preempt_disable s)))"
    by (rule on_file_lookup [OF assms(1,2)])
  let ?u = "preempt_enable (set_file h g (preempt_disable s))"
  have u: "file_ok ?u i cs" "files ?u h = Some g" "reg_pos ?u h = int p" "n = min (length buf) (room ?u cs p)" "i_size (inodes ?u i) = i_size (inodes s i)"
    using assms(3,4,6) by simp_all
  obtain t ds where t: "reg_file_write rd h buf ?u = Some (preempt_enable (set_size i (word_of_nat (length buf)) t), int n)"
      "wrote (preempt_disable ?u) h i cs p (take n buf) t ds" "same_fd (preempt_disable ?u) t"
    by (rule reg_file_write_ok [OF g(4) u(1,2) g(3) u(3) assms(5) u(4)])
  let ?s' = "preempt_enable (set_size i (word_of_nat (length buf)) t)"
  have l: "length (take n buf) = n" using assms(6) by simp
  note w = wrote_bytes [OF t(2), unfolded l]
  show ?thesis
  proof (rule that)
    show "sys_write_enter (fs_drv rd rom drv) (int (k + FILE_RESERVED_NUM)) buf (length buf) s = Some (?s', Some (int n))"
      unfolding sys_write_enter_def g(1) using g(2) t(1) by (simp add: fs_drv_reg reg_file_ops_def io_round_def eintr_neq)
    have "same_fd t (set_size i (word_of_nat (length buf)) t)" by (simp add: set_size_def)
    from on_file_same_fd [OF same_fd_trans [OF t(3) this], of k h i] g(5) show "on_file k h i ?s'" by simp
    show "store_ok ?s'" "file_ok ?s' i (cs @ ds)" "i_size (inodes ?s' i) = i_size (inodes s i) + word_of_nat (length buf)"
      "p + n \<le> 120 * length (cs @ ds)"
      using t(2) u(5) unfolding wrote_def l by simp_all
    have "fbytes t (cs @ ds) p (length (take n buf)) = take n buf" by (rule fbytes_eq_take) (use w(1) l in simp)
    then show "fbytes ?s' (cs @ ds) p n = take n buf" unfolding l by simp
    show "reg_pos ?s' h = int (p + n)" using t(2) unfolding wrote_def l by simp
    show "\<forall>k < p. fbyte ?s' (cs @ ds) k = fbyte s cs k" using w(2) assms(5) by simp
    show "free_blks s = length ds + free_blks ?s'" using t(2) unfolding wrote_def by simp
  qed
qed

lemma sys_lseek_start:
  assumes "on_file k h i s" "store_ok s" "file_ok s i cs" "i_size (inodes s i) \<noteq> 0"
  obtains s' where "sys_lseek_enter (fs_drv rd rom drv) (int (k + FILE_RESERVED_NUM)) 0 SEEK_SET s = Some (s', Some 0)"
    "on_file k h i s'" "store_ok s'" "file_ok s' i cs" "reg_pos s' h = 0" "fbytes s' = fbytes s"
proof -
  obtain g where g: "fd_valid k s = Some True" "fdt_file (fdtable s k) = Some h" "files s h = Some g" "f_op g = Reg_file_ops" "f_inode g = Some i"
    by (rule on_fileE [OF assms(1)])
  have l: "fd_lookup False (int (k + FILE_RESERVED_NUM)) (preempt_disable s) = Some (preempt_disable s, Inr h)"
    using fd_lookup_open(2) [of k "preempt_disable s" h g] g by simp
  let ?u = "preempt_disable (preempt_enable (preempt_disable s))"
  let ?s' = "preempt_enable (set_reg_pos h 0 ?u)"
  have "0 < uint (i_size (inodes s i))" using assms(4) by (metis uint_0_iff uint_ge_0 order_le_less)
  then have "reg_file_lseek h 0 SEEK_SET (preempt_enable (preempt_disable s)) = Some (?s', 0)"
    using g(3,5) by (simp add: reg_file_lseek_def critr_def Let_def)
  then have r: "sys_lseek_enter (fs_drv rd rom drv) (int (k + FILE_RESERVED_NUM)) 0 SEEK_SET s = Some (?s', Some 0)"
    unfolding sys_lseek_enter_def l using g(3,4) by (simp add: fs_drv_reg reg_file_ops_def io_round_def eintr_neq)
  have "same_fd ?u (set_reg_pos h 0 ?u)" by simp
  from on_file_same_fd [OF this, of k h i] assms(1) have "on_file k h i ?s'" by simp
  moreover have "fbytes ?s' = fbytes s" by (simp add: fun_eq_iff)
  ultimately show ?thesis using that [OF r] assms(2,3) by simp
qed

lemma sys_read_file:
  assumes "on_file k h i s" "store_ok s" "file_ok s i cs" "reg_pos s h = int q" "q + m \<le> 120 * length cs"
  obtains s' where "sys_read_enter (fs_drv rd rom drv) (int (k + FILE_RESERVED_NUM)) dst m s
     = Some (s', fbytes s cs q m @ drop m dst, Some (int m))" "reg_pos s' h = int (q + m)"
    "on_file k h i s'" "store_ok s'" "file_ok s' i cs" "fbytes s' = fbytes s"
proof -
  obtain g where g: "fd_lookup True (int (k + FILE_RESERVED_NUM)) (preempt_disable s) = Some (set_file h g (preempt_disable s), Inr h)"
      "f_op g = Reg_file_ops" "f_inode g = Some i" "store_ok (preempt_enable (set_file h g (preempt_disable s)))"
      "on_file k h i (preempt_enable (set_file h g (preempt_disable s)))"
    by (rule on_file_lookup [OF assms(1,2)])
  let ?u = "preempt_enable (set_file h g (preempt_disable s))"
  let ?s' = "preempt_enable (set_reg_pos h (int (q + m)) (preempt_disable ?u))"
  have u: "file_ok ?u i cs" "files ?u h = Some g" "reg_pos ?u h = int q" "fbytes ?u = fbytes s" using assms(3,4) by simp_all
  note t = reg_file_read_state [OF g(4) u(1,2) g(3) u(3) assms(5), unfolded u(4)]
  have "length (fbytes s cs q m) = m" by (simp add: fbytes_def)
  then have r: "sys_read_enter (fs_drv rd rom drv) (int (k + FILE_RESERVED_NUM)) dst m s = Some (?s', fbytes s cs q m @ drop m dst, Some (int m))"
    unfolding sys_read_enter_def g(1) using g(2) t by (simp add: fs_drv_reg reg_file_ops_def read_round_def eintr_neq)
  have "same_fd (preempt_disable ?u) (set_reg_pos h (int (q + m)) (preempt_disable ?u))" by simp
  from on_file_same_fd [OF this, of k h i] g(5) have "on_file k h i ?s'" by simp
  moreover have "fbytes ?s' = fbytes s" by (simp add: fun_eq_iff)
  moreover have "store_ok ?s'" "file_ok ?s' i cs" using g(4) u(1) by simp_all
  moreover have "reg_pos ?s' h = int (q + m)" by (simp add: set_reg_pos_def)
  ultimately show ?thesis using that [OF r] by blast
qed

text \<open>
  What a task writes to a new regular file through a descriptor it reads back through the same descriptor:
  for an empty file at position 0 and a buffer that fits the free blocks, \<^verbatim>\<open>write\<close> returns the number of bytes, \<^verbatim>\<open>lseek\<close>
  goes back to the start, and \<^verbatim>\<open>read\<close> returns the same number and stores the same bytes; none of the three blocks.
\<close>

theorem file_calls_roundtrip:
  assumes "on_file k h i s" "store_ok s" "file_ok s i []" "i_size (inodes s i) = 0" "reg_pos s h = 0"
    and buf: "buf \<noteq> []" "length buf \<le> 120 * free_blks s"
  shows "\<exists>s1 s2 s3. sys_write_enter (fs_drv rd rom drv) (int (k + FILE_RESERVED_NUM)) buf (length buf) s = Some (s1, Some (int (length buf)))
    \<and> sys_lseek_enter (fs_drv rd rom drv) (int (k + FILE_RESERVED_NUM)) 0 SEEK_SET s1 = Some (s2, Some 0)
    \<and> sys_read_enter (fs_drv rd rom drv) (int (k + FILE_RESERVED_NUM)) dst (length buf) s2
        = Some (s3, buf @ drop (length buf) dst, Some (int (length buf)))"
proof -
  have p: "reg_pos s h = int 0" "(0 :: nat) \<le> 120 * length ([] :: u32 list)" "length buf = min (length buf) (room s [] 0)"
    using assms(5) buf(2) by (simp_all add: room_def)
  obtain s1 ds where s1: "sys_write_enter (fs_drv rd rom drv) (int (k + FILE_RESERVED_NUM)) buf (length buf) s = Some (s1, Some (int (length buf)))"
      "on_file k h i s1" "store_ok s1" "file_ok s1 i ([] @ ds)" "i_size (inodes s1 i) = i_size (inodes s i) + word_of_nat (length buf)"
      "0 + length buf \<le> 120 * length ([] @ ds)" "fbytes s1 ([] @ ds) 0 (length buf) = take (length buf) buf"
      "reg_pos s1 h = int (0 + length buf)" "\<forall>k < 0. fbyte s1 ([] @ ds) k = fbyte s [] k" "free_blks s = length ds + free_blks s1"
    by (rule sys_write_file [OF assms(1-3) p])
  have "free_blks s \<le> 100" by (simp add: free_blks_def)
  then have "unat (word_of_nat (length buf) :: u32) = length buf" using buf(2) by (intro unat_word_of_nat32) simp
  then have "(word_of_nat (length buf) :: u32) \<noteq> 0" using buf(1) by (metis length_0_conv unat_0)
  then have nz: "i_size (inodes s1 i) \<noteq> 0" using s1(5) assms(4) by simp
  obtain s2 where s2: "sys_lseek_enter (fs_drv rd rom drv) (int (k + FILE_RESERVED_NUM)) 0 SEEK_SET s1 = Some (s2, Some 0)"
      "on_file k h i s2" "store_ok s2" "file_ok s2 i ([] @ ds)" "reg_pos s2 h = 0" "fbytes s2 = fbytes s1"
    by (rule sys_lseek_start [OF s1(2-4) nz])
  have "reg_pos s2 h = int 0" using s2(5) by simp
  from sys_read_file [OF s2(2-4) this s1(6), of rd rom drv dst] s2(6) s1(7) obtain s3 where
    "sys_read_enter (fs_drv rd rom drv) (int (k + FILE_RESERVED_NUM)) dst (length buf) s2 = Some (s3, buf @ drop (length buf) dst, Some (int (length buf)))"
    by (metis take_all_iff order_refl)
  with s1(1) s2(1) show ?thesis by blast
qed

text \<open>Descriptor 67 on the empty file of \<open>demo_reg\<close>.\<close>

lemma demo_on_file:
  defines "s \<equiv> demo_reg\<lparr>fdtable := (\<lambda>_. \<lparr>fdt_flags = 0, fdt_file = Some 68\<rparr>)\<rparr>"
  shows "on_file 0 68 1 s" "store_ok s" "file_ok s 1 []" "i_size (inodes s 1) = 0" "reg_pos s 68 = 0" "free_blks s = 100"
proof -
  have sel: "rootfs_addr s = 0x20020000" "bitmap_blks s = [0, 0, 0, 0]" "s_blk_cnt s = 0" "inodes s = demo_inode"
      "mount_dev s = [0 \<mapsto> 67]" "reg_pos s 68 = 0" "fdtable s 0 = \<lparr>fdt_flags = 0, fdt_file = Some 68\<rparr>"
      "files s = [67 \<mapsto> \<lparr>f_inode = None, f_op = Rootfs_ops, f_events = 0, f_flags = 0\<rparr>, 68 \<mapsto> \<lparr>f_inode = Some 1, f_op = Reg_file_ops, f_events = 0, f_flags = 0\<rparr>]"
    by (simp_all add: s_def demo_reg_def demo_fs_def fdstate.defs fsstate.defs)
  have e: "bm_set [0, 0, 0, 0] = {}" by (auto simp: bm_set_def bm_bit_def nth_Cons')
  show "store_ok s" unfolding store_ok_def sel e by (simp add: config)
  show "file_ok s 1 []" "i_size (inodes s 1) = 0" unfolding file_ok_def sel by (simp_all add: demo_inode_def)
  have "fd_valid 0 s = Some True" unfolding s_def by code_simp
  then show "on_file 0 68 1 s" by (simp add: on_file_def sel)
  show "reg_pos s 68 = 0" "free_blks s = 100" unfolding free_blks_def sel e by simp_all
qed

theorem file_calls_roundtrip_witness:
  "let s = demo_reg\<lparr>fdtable := (\<lambda>_. \<lparr>fdt_flags = 0, fdt_file = Some 68\<rparr>)\<rparr>; D = fs_drv (\<lambda>_ _ _. None) [] (\<lambda>_. null_dev_ops) in
   \<exists>s1 s2 s3. sys_write_enter D 67 [1, 2, 3] 3 s = Some (s1, Some 3) \<and> sys_lseek_enter D 67 0 SEEK_SET s1 = Some (s2, Some 0)
     \<and> sys_read_enter D 67 [0, 0, 0, 0] 3 s2 = Some (s3, [1, 2, 3, 0], Some 3)"
proof -
  let ?s = "demo_reg\<lparr>fdtable := (\<lambda>_. \<lparr>fdt_flags = 0, fdt_file = Some 68\<rparr>)\<rparr>"
  have "[1, 2, 3 :: u8] \<noteq> []" "length [1, 2, 3 :: u8] \<le> 120 * free_blks ?s" using demo_on_file(6) by simp_all
  from file_calls_roundtrip [OF demo_on_file(1-5) this, of "\<lambda>_ _ _. None" "[]" "\<lambda>_. null_dev_ops" "[0, 0, 0, 0]"]
  show ?thesis by (simp add: Let_def config numeral_3_eq_3)
qed

end
