(* ===== verification/Printf.thy ===== *)
theory Printf
  imports Prelude "HOL-Library.Signed_Division"
begin

text \<open>
  Number and text formatting (\<^verbatim>\<open>kernel/printf.c\<close>): the macro \<^verbatim>\<open>XTOA\<close> and the four conversions made from it, and the
  formatter behind \<^verbatim>\<open>sprintf\<close> and \<^verbatim>\<open>snprintf\<close>.

  The formatter of \<^verbatim>\<open>kernel/printf.c\<close> is compiled only with \<^verbatim>\<open>USE_TENOK_PRINTF\<close>, which \<^verbatim>\<open>kconfig.h\<close> sets to 0: it is the
  alternative build. In the configured build the calls of \<^verbatim>\<open>snprintf\<close> and \<^verbatim>\<open>vsnprintf\<close> are those of the C library. They are
  the definition \<open>lib_vsnprintf\<close> here, the function of the C standard for the directives of the sources: the text is
  cut to the size of the buffer. All callers in the other theories use this one.

  A character buffer is a list of characters, a C string in it ends before its first zero character. A conversion returns
  the bytes that it stores at the start of the buffer of the caller. The formatter has the capacity of the destination as
  an argument: \<^const>\<open>None\<close> is a store past its end, or past the end of one of the local buffers.
\<close>

section \<open>Conversion of integers\<close>

definition NUL :: char where
  "NUL = CHR 0x00"

text \<open>The C string at the start of a buffer, \<^verbatim>\<open>strncpy\<close> and a store through a pointer into a buffer.\<close>

definition cstr :: "string \<Rightarrow> string" where
  "cstr bs = takeWhile (\<lambda>c. c \<noteq> NUL) bs"

definition strncpy :: "string \<Rightarrow> nat \<Rightarrow> string" where
  "strncpy src n = take n (cstr src) @ replicate (n - length (cstr src)) NUL"

definition put_char :: "int \<Rightarrow> char \<Rightarrow> string \<Rightarrow> string option" where
  "put_char i c bs = (if 0 \<le> i \<and> i < int (length bs) then Some (bs[nat i := c]) else None)"

definition ITOA_BUF_LEN :: nat where [config]: "ITOA_BUF_LEN = 32"

text \<open>The digit that the loop stores: none for a remainder above nine in a radix other than 16.\<close>

definition put_digit :: "int \<Rightarrow> int \<Rightarrow> int \<Rightarrow> string \<Rightarrow> string option" where
  "put_digit last_digit remainder radix bs =
     (if remainder < 10 then put_char last_digit (char_of (nat ((remainder + 48) mod 256))) bs
      else if radix = 16 then put_char last_digit (''abcdef'' ! nat (remainder - 10)) bs
      else Some bs)"

fun xtoa_loop :: "nat \<Rightarrow> int \<Rightarrow> int \<Rightarrow> string \<Rightarrow> int \<Rightarrow> (string \<times> int) option" where
  "xtoa_loop 0 val radix bs last_digit = Some (bs, last_digit)"
| "xtoa_loop (Suc n) val radix bs last_digit =
     (if val = 0 then Some (bs, last_digit)
      else if radix = 0 then None
      else do {
        bs1 \<leftarrow> put_digit last_digit (val smod radix) radix bs;
        xtoa_loop n (val sdiv radix) radix bs1 (last_digit - 1)
      })"

definition xtoa_copy :: "string \<times> int \<Rightarrow> string" where
  "xtoa_copy = (\<lambda>(bs, last_digit). strncpy (drop (nat (last_digit + 1)) bs) (nat (int ITOA_BUF_LEN - last_digit)))"

text \<open>The macro \<^verbatim>\<open>XTOA\<close>. The negation of the smallest integer overflows.\<close>

definition XTOA :: "int \<Rightarrow> int \<Rightarrow> string option" where
  "XTOA val radix =
     (let bs = replicate (ITOA_BUF_LEN + 1) NUL; last_digit = int ITOA_BUF_LEN - 1 in
      if val < 0 then
        (if val = - (2 ^ 31) then None
         else map_option xtoa_copy (xtoa_loop ITOA_BUF_LEN (- val) radix (bs[nat last_digit := CHR ''-'']) (last_digit - 1)))
      else if val = 0 then Some [CHR ''0'', NUL]
      else map_option xtoa_copy (xtoa_loop ITOA_BUF_LEN val radix bs last_digit))"

definition itoa :: "u32 \<Rightarrow> int \<Rightarrow> string option" where
  "itoa value radix = XTOA (sint value) radix"

text \<open>The radix is an \<^verbatim>\<open>int\<close>, which the arithmetic of the unsigned conversions takes as unsigned.\<close>

definition utoa :: "u32 \<Rightarrow> int \<Rightarrow> string option" where
  "utoa value radix = XTOA (uint value) (uint (word_of_int radix :: u32))"

definition ltoa :: "u32 \<Rightarrow> int \<Rightarrow> string option" where
  "ltoa value radix = XTOA (sint value) radix"

definition ultoa :: "u32 \<Rightarrow> int \<Rightarrow> string option" where
  "ultoa value radix = XTOA (uint value) (uint (word_of_int radix :: u32))"

section \<open>The formatter\<close>

text \<open>The arguments of a call: strings, and words, which hold integers and addresses.\<close>

datatype arg = Str string | Word u32

text \<open>\<^verbatim>\<open>strcat\<close> to a destination of \<open>cap\<close> bytes.\<close>

definition strcat :: "nat \<Rightarrow> string \<Rightarrow> string \<Rightarrow> string option" where
  "strcat cap str x = (if length str + length x < cap then Some (str @ x) else None)"

text \<open>\<^verbatim>\<open>atoi\<close> of a string of digits, whose value has to be an \<^verbatim>\<open>int\<close>.\<close>

definition dec_value :: "string \<Rightarrow> nat" where
  "dec_value = foldl (\<lambda>a c. a * 10 + (of_char c - 48)) 0"

definition atoi_digits :: "string \<Rightarrow> nat option" where
  "atoi_digits ds = (if dec_value ds < 2 ^ 31 then Some (dec_value ds) else None)"

text \<open>The buffer \<^verbatim>\<open>buf\<close> of the formatter is the list of the digits in it; its size is 100.\<close>

definition FMT_BUF_SIZE :: nat where [config]: "FMT_BUF_SIZE = 100"

definition format_write :: "nat \<Rightarrow> string \<Rightarrow> string \<Rightarrow> string \<Rightarrow> bool \<Rightarrow> string option" where
  "format_write cap str format_str padding_str pad_with_zeros =
     (if length padding_str \<ge> FMT_BUF_SIZE then None
      else do {
        desired_len \<leftarrow> atoi_digits padding_str;
        if length format_str \<ge> desired_len then strcat cap str format_str
        else do {
          let padding_size = desired_len - length format_str;
          if padding_size \<ge> FMT_BUF_SIZE then None
          else do {
            str1 \<leftarrow> strcat cap str (replicate padding_size (if pad_with_zeros then CHR ''0'' else CHR '' ''));
            strcat cap str1 format_str
          }
        }
      })"

text \<open>The text of an argument for a specifier.\<close>

definition spec_text :: "char \<Rightarrow> arg \<Rightarrow> string option" where
  "spec_text c a =
     (case a of
        Str x \<Rightarrow> if c = CHR ''s'' then Some x else None
      | Word w \<Rightarrow>
          if c = CHR ''c'' then Some (cstr [char_of (unat w mod 256)])
          else if c = CHR ''o'' then map_option cstr (itoa w 8)
          else if c = CHR ''x'' then map_option cstr (itoa w 16)
          else if c = CHR ''p'' then map_option cstr (ultoa w 16)
          else if c = CHR ''d'' then map_option cstr (itoa w 10)
          else if c = CHR ''u'' then map_option cstr (utoa w 10)
          else None)"

definition is_spec :: "char \<Rightarrow> bool" where
  "is_spec c \<longleftrightarrow> c \<in> {CHR ''s'', CHR ''c'', CHR ''o'', CHR ''x'', CHR ''p'', CHR ''d'', CHR ''u''}"

definition write_spec :: "nat \<Rightarrow> char \<Rightarrow> arg \<Rightarrow> string \<Rightarrow> string \<Rightarrow> bool \<Rightarrow> string option" where
  "write_spec cap c a str buf pad_with_zeros = do {
     x \<leftarrow> spec_text c a;
     str1 \<leftarrow> (if c = CHR ''p'' then strcat cap str ''0x'' else Some str);
     format_write cap str1 x buf pad_with_zeros
   }"

definition is_digit :: "char \<Rightarrow> bool" where
  "is_digit c \<longleftrightarrow> (48 :: nat) \<le> of_char c \<and> of_char c \<le> (57 :: nat)"

text \<open>The two loops of \<^verbatim>\<open>__vsnprintf\<close> over the rest of the format; \<open>lim\<close> is the size when it is checked.\<close>

fun fmt_copy :: "nat \<Rightarrow> nat option \<Rightarrow> nat \<Rightarrow> string \<Rightarrow> arg list \<Rightarrow> string \<Rightarrow> string \<Rightarrow> bool \<Rightarrow> string option"
and fmt_spec :: "nat \<Rightarrow> nat option \<Rightarrow> nat \<Rightarrow> string \<Rightarrow> arg list \<Rightarrow> string \<Rightarrow> string \<Rightarrow> bool \<Rightarrow> string option" where
  "fmt_copy cap lim pos [] ap str buf pz = Some str"
| "fmt_copy cap lim pos (c # cs) ap str buf pz =
     (if (\<exists>n. lim = Some n \<and> pos \<ge> n) then Some str
      else if c \<noteq> CHR ''%'' then do {
        str1 \<leftarrow> strcat cap str [c];
        fmt_copy cap lim (pos + 1) cs ap str1 [] False
      }
      else fmt_spec cap lim (pos + 1) cs ap str buf pz)"
| "fmt_spec cap lim pos [] ap str buf pz = Some str"
| "fmt_spec cap lim pos (c # cs) ap str buf pz =
     (if (\<exists>n. lim = Some n \<and> pos \<ge> n) then Some str
      else if c = CHR ''0'' \<and> buf = [] then fmt_spec cap lim (pos + 1) cs ap str buf True
      else if is_digit c then
        (if length buf \<ge> FMT_BUF_SIZE then None else fmt_spec cap lim (pos + 1) cs ap str (buf @ [c]) pz)
      else if is_spec c then
        (case ap of [] \<Rightarrow> None
         | a # as \<Rightarrow> (case write_spec cap c a str buf pz of None \<Rightarrow> None
             | Some str1 \<Rightarrow> fmt_copy cap lim (pos + 1) cs as str1 [] False))
      else fmt_spec cap lim (pos + 1) cs ap str buf pz)"

definition vsnprintf_gen :: "nat \<Rightarrow> nat option \<Rightarrow> string \<Rightarrow> arg list \<Rightarrow> (string \<times> int) option" where
  "vsnprintf_gen cap lim format ap =
     (if cap = 0 then None else map_option (\<lambda>str. (str, int (length str))) (fmt_copy cap lim 0 format ap [] [] False))"

definition vsprintf :: "nat \<Rightarrow> string \<Rightarrow> arg list \<Rightarrow> (string \<times> int) option" where
  "vsprintf cap format ap = vsnprintf_gen cap None format ap"

definition vsnprintf :: "nat \<Rightarrow> nat \<Rightarrow> string \<Rightarrow> arg list \<Rightarrow> (string \<times> int) option" where
  "vsnprintf cap sz format ap = vsnprintf_gen cap (Some sz) format ap"

section \<open>Numerals\<close>

text \<open>The reference: the digits of a number, most significant first, and their value.\<close>

definition digit :: "nat \<Rightarrow> char" where
  "digit d = (if d < 10 then char_of (48 + d) else ''abcdef'' ! (d - 10))"

fun digits :: "nat \<Rightarrow> nat \<Rightarrow> string" where
  "digits r n = (if n = 0 \<or> r < 2 then [] else digits r (n div r) @ [digit (n mod r)])"

declare digits.simps [simp del]

definition numeral_text :: "nat \<Rightarrow> nat \<Rightarrow> string" where
  "numeral_text r n = (if n = 0 then ''0'' else digits r n)"

definition digit_value :: "char \<Rightarrow> nat" where
  "digit_value c = (if of_char c < (58 :: nat) then of_char c - 48 else of_char c - 87)"

definition text_value :: "nat \<Rightarrow> string \<Rightarrow> nat" where
  "text_value r = foldl (\<lambda>a c. a * r + digit_value c) 0"

definition radix_ok :: "nat \<Rightarrow> bool" where
  "radix_ok r \<longleftrightarrow> 2 \<le> r \<and> r \<le> 10 \<or> r = 16"

lemma radix_okD: "radix_ok r \<Longrightarrow> 2 \<le> r \<and> r \<le> 16"
  by (auto simp: radix_ok_def)

lemma digit_lt: "d < 16 \<Longrightarrow> digit_value (digit d) = d \<and> digit d \<noteq> NUL"
proof (cases "d < 10")
  case True
  then have "of_char (digit d) = 48 + d" by (simp add: digit_def)
  with True show ?thesis by (auto simp: digit_value_def NUL_def)
next
  case False
  assume "d < 16"
  with False have "d \<in> {10, 11, 12, 13, 14, 15}" by auto
  then show ?thesis by (auto simp: digit_def digit_value_def NUL_def)
qed

lemma digits_0 [simp]: "digits r 0 = []"
  by (simp add: digits.simps)

lemma digits_value: "2 \<le> r \<Longrightarrow> r \<le> 16 \<Longrightarrow> text_value r (digits r n) = n"
proof (induction r n rule: digits.induct)
  case (1 r n)
  show ?case
  proof (cases "n = 0")
    case False
    then have "text_value r (digits r (n div r)) = n div r" using 1 by simp
    then show ?thesis using False 1(2,3) digit_lt [of "n mod r"]
      by (subst digits.simps) (simp add: text_value_def less_le_trans [OF mod_less_divisor])
  qed (simp add: text_value_def)
qed

lemma digits_NUL: "2 \<le> r \<Longrightarrow> r \<le> 16 \<Longrightarrow> c \<in> set (digits r n) \<Longrightarrow> c \<noteq> NUL"
proof (induction r n rule: digits.induct)
  case (1 r n)
  have "n mod r < 16" using 1(2,3) less_le_trans [OF mod_less_divisor [of r n]] by simp
  moreover have "digits r n = (if n = 0 then [] else digits r (n div r) @ [digit (n mod r)])" using 1(2) by (subst digits.simps) simp
  ultimately show ?case using 1 digit_lt [of "n mod r"] by (auto split: if_splits)
qed

lemma digits_length_base: "2 \<le> b \<Longrightarrow> b \<le> r \<Longrightarrow> n < b ^ k \<Longrightarrow> length (digits r n) \<le> k"
proof (induction k arbitrary: n)
  case (Suc k)
  have "n div r \<le> n div b" using Suc.prems by (intro div_le_mono2) auto
  also have "n div b < b ^ k" using Suc.prems by (simp add: less_mult_imp_div_less mult.commute)
  finally show ?case using Suc.IH [of "n div r"] Suc.prems by (subst digits.simps) simp
qed simp

lemma digits_length: "n < 2 ^ k \<Longrightarrow> length (digits r n) \<le> k"
  using digits_length_base [of 2 r n k] digits.simps [of r n] by (cases "r < 2") auto

lemma cstr_append: "(\<And>c. c \<in> set xs \<Longrightarrow> c \<noteq> NUL) \<Longrightarrow> cstr (xs @ ys) = xs @ cstr ys"
  by (simp add: cstr_def)

lemma put_digit_ok:
  assumes "radix_ok r" "d < r" "q < length bs"
  shows "put_digit (int q) (int d) (int r) bs = Some (bs[q := digit d])"
proof -
  have "nat ((int d + 48) mod 256) = 48 + d" if "d < 10" using that by simp
  moreover have "nat (int d - 10) = d - 10" by simp
  moreover have "r = 16" if "\<not> d < 10" using assms that by (auto simp: radix_ok_def)
  ultimately show ?thesis using assms(3) by (auto simp: put_digit_def put_char_def digit_def)
qed

lemma xtoa_loop_ok:
  "radix_ok r \<Longrightarrow> length (digits r n) \<le> k \<Longrightarrow> length (digits r n) \<le> q \<Longrightarrow> q \<le> length bs \<Longrightarrow>
   xtoa_loop k (int n) (int r) bs (int q - 1)
     = Some (take (q - length (digits r n)) bs @ digits r n @ drop q bs, int (q - length (digits r n)) - 1)"
proof (induction k arbitrary: n q bs)
  case 0
  then show ?case by simp
next
  case (Suc k)
  note r = radix_okD [OF Suc.prems(1)]
  show ?case
  proof (cases "n = 0")
    case False
    have d: "digits r n = digits r (n div r) @ [digit (n mod r)]" using False r by (subst digits.simps) simp
    have sd: "int n smod int r = int (n mod r)" "int n sdiv int r = int (n div r)"
      using False r by (simp_all add: signed_divide_int_def signed_modulo_int_def zmod_int zdiv_int)
    obtain q' where q: "q = Suc q'" using Suc.prems(3) d by (cases q) auto
    have p: "put_digit (int q') (int (n mod r)) (int r) bs = Some (bs[q' := digit (n mod r)])"
      using Suc.prems q r by (intro put_digit_ok) auto
    have "xtoa_loop k (int (n div r)) (int r) (bs[q' := digit (n mod r)]) (int q' - 1)
        = Some (take (q' - length (digits r (n div r))) (bs[q' := digit (n mod r)]) @ digits r (n div r) @ drop q' (bs[q' := digit (n mod r)]),
                int (q' - length (digits r (n div r))) - 1)"
      using Suc.prems q d by (intro Suc.IH) auto
    moreover have "drop q' (bs[q' := x]) = x # drop (Suc q') bs" for x
      using Suc.prems(4) q by (simp add: drop_update_swap Cons_nth_drop_Suc [symmetric])
    ultimately show ?thesis using False r p q by (simp add: sd d)
  qed simp
qed

lemma xtoa_copy_ok:
  assumes "2 \<le> r" "r \<le> 16" "xs = []  \<or> xs = [c] \<and> c \<noteq> NUL" "q + length xs = 32" "length (digits r n) \<le> q" "q \<le> length bs"
  shows "xtoa_copy (take (q - length (digits r n)) bs @ digits r n @ xs @ [NUL], int (q - length (digits r n)) - 1) = digits r n @ xs @ [NUL]"
proof -
  let ?d = "digits r n"
  have "cstr (?d @ xs @ [NUL]) = ?d @ xs"
    using assms(3) digits_NUL [OF assms(1,2)] by (subst cstr_append) (auto simp: cstr_def)
  moreover have "nat (int ITOA_BUF_LEN - (int (q - length ?d) - 1)) = length (?d @ xs) + 1" using assms(4,5) by (simp add: config)
  moreover have "drop (nat (int (q - length ?d) - 1 + 1)) (take (q - length ?d) bs @ ?d @ xs @ [NUL]) = ?d @ xs @ [NUL]"
    using assms(6) by simp
  ultimately show ?thesis by (simp only: xtoa_copy_def prod.case strncpy_def) simp
qed

lemma XTOA_pos:
  assumes "radix_ok r" "n < 2 ^ 32"
  shows "XTOA (int n) (int r) = Some (numeral_text r n @ [NUL])"
proof (cases "n = 0")
  case False
  note r = radix_okD [OF assms(1)]
  have l: "length (digits r n) \<le> 32" by (rule digits_length [OF assms(2)])
  have "xtoa_loop 32 (int n) (int r) (replicate 33 NUL) (int 32 - 1)
      = Some (take (32 - length (digits r n)) (replicate 33 NUL) @ digits r n @ drop 32 (replicate 33 NUL), int (32 - length (digits r n)) - 1)"
    by (rule xtoa_loop_ok [OF assms(1) l l]) simp
  moreover have "drop 32 (replicate 33 NUL) = [] @ [NUL]" by (simp add: numeral_eq_Suc)
  ultimately show ?thesis
    using False xtoa_copy_ok [of r "[]" NUL 32 n "replicate 33 NUL"] r l
    by (simp add: XTOA_def Let_def config numeral_text_def)
qed (simp add: XTOA_def numeral_text_def)

lemma XTOA_neg:
  assumes "radix_ok r" "0 < n" "n < 2 ^ 31"
  shows "XTOA (- int n) (int r) = Some (digits r n @ ''-'' @ [NUL])"
proof -
  note r = radix_okD [OF assms(1)]
  let ?b = "(replicate 33 NUL)[31 := CHR ''-'']"
  have l: "length (digits r n) \<le> 31" by (rule digits_length [OF assms(3)])
  have "xtoa_loop 32 (int n) (int r) ?b (int 31 - 1)
      = Some (take (31 - length (digits r n)) ?b @ digits r n @ drop 31 ?b, int (31 - length (digits r n)) - 1)"
    by (rule xtoa_loop_ok [OF assms(1)]) (use l in simp_all)
  moreover have "drop 31 ?b = ''-'' @ [NUL]" by (simp add: numeral_eq_Suc)
  moreover have "CHR ''-'' \<noteq> NUL" by (simp add: NUL_def)
  moreover have "- int n \<noteq> - (2 ^ 31)" using assms(3) by simp
  ultimately show ?thesis
    using assms(2) xtoa_copy_ok [of r "''-''" "CHR ''-''" 31 n ?b] r l
    by (simp add: XTOA_def Let_def config)
qed

lemma text_value_numeral: "radix_ok r \<Longrightarrow> text_value r (numeral_text r n) = n"
  using radix_okD [of r] digits_value [of r n] by (auto simp: numeral_text_def text_value_def digit_value_def)

lemma sint_range: "- (2 ^ 31) \<le> sint (v :: u32)" "sint (v :: u32) < 2 ^ 31"
  using sint_range_size [of v] by (simp_all add: word_size)

lemma utoa_numeral: "radix_ok r \<Longrightarrow> utoa v (int r) = Some (numeral_text r (unat v) @ [NUL])"
proof -
  assume r: "radix_ok r"
  have "uint (word_of_int (int r) :: u32) = int r"
    unfolding uint_word_of_int using radix_okD [OF r] by (intro mod_pos_pos_trivial) auto
  moreover have "uint v = int (unat v)" "unat v < 2 ^ 32" using unsigned_less [of v, where 'a = nat] by simp_all
  ultimately show ?thesis using XTOA_pos [OF r, of "unat v"] by (simp only: utoa_def)
qed

lemma itoa_numeral:
  assumes "radix_ok r"
  shows "itoa v (int r) = (if sint v = - (2 ^ 31) then None
           else if sint v < 0 then Some (digits r (nat (- sint v)) @ ''-'' @ [NUL])
           else Some (numeral_text r (nat (sint v)) @ [NUL]))"
proof -
  consider "sint v = - (2 ^ 31)" | "sint v < 0" "sint v \<noteq> - (2 ^ 31)" | "0 \<le> sint v" by linarith
  then show ?thesis
  proof cases
    case 2
    then have "XTOA (- int (nat (- sint v))) (int r) = Some (digits r (nat (- sint v)) @ ''-'' @ [NUL])"
      using sint_range [of v] by (intro XTOA_neg [OF assms]) auto
    then show ?thesis using 2 by (simp add: itoa_def)
  next
    case 3
    then have "XTOA (int (nat (sint v))) (int r) = Some (numeral_text r (nat (sint v)) @ [NUL])"
      using sint_range [of v] by (intro XTOA_pos [OF assms]) auto
    then show ?thesis using 3 by (simp add: itoa_def)
  qed (simp add: itoa_def XTOA_def)
qed

lemma numeral_text_length: "length (numeral_text r (unat (v :: u32))) \<le> 32"
  using digits_length [of "unat v" 32 r] unsigned_less [of v, where 'a = nat] by (simp add: numeral_text_def)

lemma itoa_length: "radix_ok r \<Longrightarrow> itoa v (int r) = Some x \<Longrightarrow> length x \<le> 33"
proof -
  assume r: "radix_ok r" and x: "itoa v (int r) = Some x"
  have "nat (- sint v) < 2 ^ 31" if "sint v \<noteq> - (2 ^ 31)" using sint_range(1) [of v] that by simp
  then have "length (digits r (nat (- sint v))) \<le> 31" if "sint v \<noteq> - (2 ^ 31)" using digits_length that by blast
  moreover have "nat (sint v) < 2 ^ 32" using sint_range(2) [of v] by simp
  then have "length (digits r (nat (sint v))) \<le> 32" by (rule digits_length)
  ultimately show ?thesis using x itoa_numeral [OF r, of v] by (auto simp: numeral_text_def split: if_splits)
qed

text \<open>
  C32. The conversions of an integer for the radices 2 to 10 and 16. The unsigned ones, \<^verbatim>\<open>utoa\<close> and \<^verbatim>\<open>ultoa\<close>, store the numeral of
  the value, and so do \<^verbatim>\<open>itoa\<close> and \<^verbatim>\<open>ltoa\<close> for a value that is not negative; reading that text gives the value back. For a
  negative value \<^verbatim>\<open>itoa\<close> and \<^verbatim>\<open>ltoa\<close> store the digits of the absolute value with the sign behind them, which is not its
  numeral, and for the smallest integer the negation overflows. The stored bytes never exceed the 33 of the
  buffers of the callers.
\<close>

theorem xtoa_numerals:
  assumes "radix_ok r"
  shows "utoa v (int r) = Some (numeral_text r (unat v) @ [NUL])
    \<and> ultoa v (int r) = utoa v (int r) \<and> ltoa v (int r) = itoa v (int r)
    \<and> itoa v (int r) = (if sint v = - (2 ^ 31) then None
         else if sint v < 0 then Some (digits r (nat (- sint v)) @ ''-'' @ [NUL])
         else Some (numeral_text r (nat (sint v)) @ [NUL]))
    \<and> text_value r (numeral_text r n) = n
    \<and> length (numeral_text r (unat v) @ [NUL]) \<le> 33 \<and> (\<forall>x. itoa v (int r) = Some x \<longrightarrow> length x \<le> 33)"
  using utoa_numeral [OF assms] itoa_numeral [OF assms] text_value_numeral [OF assms] numeral_text_length itoa_length [OF assms]
  by (simp add: ultoa_def utoa_def ltoa_def itoa_def)

theorem xtoa_numerals_witness:
  "utoa 300 16 = Some (''12c'' @ [NUL]) \<and> itoa (- 42) 10 = Some (''42-'' @ [NUL])"
proof -
  have r: "radix_ok 16" "radix_ok 10" by (simp_all add: radix_ok_def)
  have s: "sint (- 42 :: u32) = - 42" "unat (300 :: u32) = 300" by simp_all
  have "numeral_text 16 300 = ''12c''" "digits 10 42 = ''42''"
    by (simp_all add: numeral_text_def digits.simps digit_def char_of_def bit_Suc_0_iff)
  then show ?thesis
    using xtoa_numerals [OF r(1), of 300] xtoa_numerals [OF r(2), of "- 42"] unfolding s by simp
qed

section \<open>Directives\<close>

text \<open>The reference for the formatter: a format as a list of directives, its text, and what it stands for.\<close>

datatype directive = Lit char | Dir bool nat char

definition show_dir :: "directive \<Rightarrow> string" where
  "show_dir d = (case d of Lit c \<Rightarrow> [c]
     | Dir z w c \<Rightarrow> ''%'' @ (if z then ''0'' else []) @ digits 10 w @ [c])"

definition directive_ok :: "directive \<Rightarrow> bool" where
  "directive_ok d = (case d of Lit c \<Rightarrow> c \<noteq> CHR ''%'' | Dir z w c \<Rightarrow> is_spec c \<and> w < 100)"

definition padded :: "bool \<Rightarrow> nat \<Rightarrow> string \<Rightarrow> string" where
  "padded z w x = replicate (w - length x) (if z then CHR ''0'' else CHR '' '') @ x"

text \<open>The text of one argument, over the numerals: a negative number for \<^verbatim>\<open>%d\<close>, \<^verbatim>\<open>%x\<close> and \<^verbatim>\<open>%o\<close> has its sign behind the digits, the
  smallest one has no defined text, and \<^verbatim>\<open>%p\<close> and \<^verbatim>\<open>%u\<close> take the argument as unsigned. A zero character adds nothing.\<close>

definition signed_text :: "nat \<Rightarrow> u32 \<Rightarrow> string option" where
  "signed_text r w =
     (if sint w = - (2 ^ 31) then None
      else if sint w < 0 then Some (digits r (nat (- sint w)) @ ''-'')
      else Some (numeral_text r (nat (sint w))))"

definition arg_text :: "char \<Rightarrow> arg \<Rightarrow> string option" where
  "arg_text c a =
     (case a of
        Str x \<Rightarrow> if c = CHR ''s'' then Some x else None
      | Word w \<Rightarrow>
          if c = CHR ''c'' then Some (if unat w mod 256 = 0 then [] else [char_of (unat w)])
          else if c = CHR ''d'' then signed_text 10 w
          else if c = CHR ''x'' then signed_text 16 w
          else if c = CHR ''o'' then signed_text 8 w
          else if c = CHR ''u'' then Some (numeral_text 10 (unat w))
          else if c = CHR ''p'' then Some (numeral_text 16 (unat w))
          else None)"

primrec render :: "directive list \<Rightarrow> arg list \<Rightarrow> string option" where
  "render [] ap = Some []"
| "render (d # ds) ap =
     (case d of
        Lit c \<Rightarrow> map_option (Cons c) (render ds ap)
      | Dir z w c \<Rightarrow> (case ap of [] \<Rightarrow> None
          | a # as \<Rightarrow> do {
              x \<leftarrow> arg_text c a;
              y \<leftarrow> render ds as;
              Some ((if c = CHR ''p'' then ''0x'' else []) @ padded z w x @ y)
            }))"

lemma cstr_NUL: "NUL \<notin> set x \<Longrightarrow> cstr (x @ [NUL]) = x"
  by (subst cstr_append) (auto simp: cstr_def)

lemma numeral_NUL: "radix_ok r \<Longrightarrow> NUL \<notin> set (numeral_text r n) \<and> NUL \<notin> set (digits r n)"
  using digits_NUL [of r NUL n] radix_okD [of r] by (auto simp: numeral_text_def NUL_def)

lemma itoa_text: "radix_ok r \<Longrightarrow> map_option cstr (itoa v (int r)) = signed_text r v"
proof -
  assume r: "radix_ok r"
  have "NUL \<notin> set (digits r n @ ''-'')" for n using numeral_NUL [OF r] by (simp add: NUL_def)
  then show ?thesis
    using itoa_numeral [OF r, of v] numeral_NUL [OF r] cstr_NUL [of "digits r (nat (- sint v)) @ ''-''"] cstr_NUL [of "numeral_text r (nat (sint v))"]
    by (simp add: signed_text_def)
qed

lemma utoa_text: "radix_ok r \<Longrightarrow> map_option cstr (utoa v (int r)) = Some (numeral_text r (unat v))"
  using utoa_numeral [of r v] numeral_NUL [of r] cstr_NUL by simp

lemma char_text: "cstr [char_of (n mod 256)] = (if n mod 256 = 0 then [] else [char_of n])"
proof -
  have "char_of n = NUL \<longleftrightarrow> n mod 256 = 0" using char_of_eq_iff [of n NUL] by (auto simp: NUL_def take_bit_eq_mod)
  then show ?thesis by (simp add: cstr_def)
qed

lemma spec_text_eq: "spec_text c a = arg_text c a"
proof (cases a)
  case (Word w)
  have r: "radix_ok 8" "radix_ok 10" "radix_ok 16" by (simp_all add: radix_ok_def)
  have i: "map_option cstr (itoa w 8) = signed_text 8 w" "map_option cstr (itoa w 10) = signed_text 10 w"
      "map_option cstr (itoa w 16) = signed_text 16 w"
    using itoa_text [OF r(1), of w] itoa_text [OF r(2), of w] itoa_text [OF r(3), of w] by simp_all
  have u: "map_option cstr (utoa w 10) = Some (numeral_text 10 (unat w))" "map_option cstr (ultoa w 16) = Some (numeral_text 16 (unat w))"
    using utoa_text [OF r(2), of w] utoa_text [OF r(3), of w] by (simp_all add: ultoa_def utoa_def)
  show ?thesis unfolding spec_text_def arg_text_def Word arg.case i u char_text by (simp only: if_distrib if_cancel cong: if_cong) auto
qed (simp add: spec_text_def arg_text_def)

lemma digit_dec: "d < 10 \<Longrightarrow> of_char (digit d) = 48 + d \<and> is_digit (digit d) \<and> (digit d = CHR ''0'' \<longrightarrow> d = 0)"
proof -
  assume "d < 10"
  then have "of_char (digit d) = 48 + d" by (simp add: digit_def)
  moreover from this have "d = 0" if "digit d = CHR ''0''" using that by simp
  ultimately show ?thesis using \<open>d < 10\<close> by (simp add: is_digit_def)
qed

lemma dec_digits:
  "dec_value (digits 10 w) = w \<and> list_all is_digit (digits 10 w)
   \<and> (w \<noteq> 0 \<longrightarrow> digits 10 w \<noteq> [] \<and> hd (digits 10 w) \<noteq> CHR ''0'')"
proof (induction "10 :: nat" w rule: digits.induct)
  case (1 n)
  show ?case
  proof (cases "n = 0")
    case False
    then have d: "digits 10 n = digits 10 (n div 10) @ [digit (n mod 10)]" by (subst digits.simps) simp
    have m: "of_char (digit (n mod 10)) = 48 + n mod 10" "is_digit (digit (n mod 10))"
        "digit (n mod 10) = CHR ''0'' \<longrightarrow> n mod 10 = 0" using digit_dec [of "n mod 10"] by auto
    have ih: "dec_value (digits 10 (n div 10)) = n div 10" "list_all is_digit (digits 10 (n div 10))"
        "n div 10 \<noteq> 0 \<longrightarrow> digits 10 (n div 10) \<noteq> [] \<and> hd (digits 10 (n div 10)) \<noteq> CHR ''0''" using 1 False by simp_all
    have "dec_value (digits 10 n) = dec_value (digits 10 (n div 10)) * 10 + (of_char (digit (n mod 10)) - 48)"
      unfolding d by (simp add: dec_value_def)
    then have "dec_value (digits 10 n) = n" unfolding ih(1) m(1) by simp
    moreover have "hd (digits 10 n) \<noteq> CHR ''0''"
    proof (cases "n div 10 = 0")
      case True
      then have "n mod 10 \<noteq> 0" using False by auto
      then show ?thesis using True m(3) by (simp add: d)
    qed (use ih(3) in \<open>simp add: d\<close>)
    ultimately show ?thesis using ih(2) m(2) unfolding d by auto
  qed (simp add: dec_value_def)
qed

lemma fmt_spec_digits:
  "list_all is_digit ds \<Longrightarrow> buf \<noteq> [] \<or> ds = [] \<or> hd ds \<noteq> CHR ''0'' \<Longrightarrow> length buf + length ds \<le> FMT_BUF_SIZE \<Longrightarrow>
   fmt_spec cap None pos (ds @ cs) ap str buf pz = fmt_spec cap None (pos + length ds) cs ap str (buf @ ds) pz"
proof (induction ds arbitrary: pos buf)
  case (Cons d ds)
  have b: "\<not> (d = CHR ''0'' \<and> buf = [])" using Cons.prems(2) by auto
  have "fmt_spec cap None pos ((d # ds) @ cs) ap str buf pz = fmt_spec cap None (pos + 1) (ds @ cs) ap str (buf @ [d]) pz"
    unfolding append_Cons fmt_spec.simps(2) if_not_P [OF b] using Cons.prems(1,3) by simp
  also have "\<dots> = fmt_spec cap None (pos + 1 + length ds) cs ap str ((buf @ [d]) @ ds) pz"
    using Cons.prems by (intro Cons.IH) auto
  finally show ?case by simp
qed simp

lemma strcat_strcat: "strcat cap str x \<bind> (\<lambda>s. strcat cap s y) = strcat cap str (x @ y)"
  by (auto simp: strcat_def)

lemma format_write_padded:
  assumes "w < 100"
  shows "format_write cap str x (digits 10 w) z = strcat cap str (padded z w x)"
proof -
  have v: "dec_value (digits 10 w) = w" using dec_digits by blast
  have "length (digits 10 w) \<le> 7" using assms by (intro digits_length) simp
  then have "\<not> length (digits 10 w) \<ge> FMT_BUF_SIZE" by (simp add: config)
  moreover have "atoi_digits (digits 10 w) = Some w" using assms by (simp add: atoi_digits_def v)
  ultimately show ?thesis using assms
    by (auto simp: format_write_def Let_def padded_def config strcat_strcat not_le)
qed

definition dir_text :: "bool \<Rightarrow> nat \<Rightarrow> char \<Rightarrow> arg \<Rightarrow> string option" where
  "dir_text z w c a = map_option (\<lambda>x. (if c = CHR ''p'' then ''0x'' else []) @ padded z w x) (arg_text c a)"

lemma write_spec_padded: "w < 100 \<Longrightarrow> write_spec cap c a str (digits 10 w) z = dir_text z w c a \<bind> strcat cap str"
  by (cases "arg_text c a") (auto simp: write_spec_def format_write_padded strcat_strcat spec_text_eq dir_text_def)

lemma is_spec_not: "is_spec c \<Longrightarrow> \<not> is_digit c \<and> c \<noteq> CHR ''0''"
  by (auto simp: is_spec_def is_digit_def)

lemma strcat_Some: "strcat cap str x = Some y \<Longrightarrow> length y < cap"
  by (auto simp: strcat_def split: if_splits)

lemma fmt_spec_dir:
  assumes "is_spec c" "w < 100"
  shows "fmt_spec cap None pos (digits 10 w @ c # cs) ap str [] z
    = (case ap of [] \<Rightarrow> None
       | a # as \<Rightarrow> dir_text z w c a \<bind> strcat cap str \<bind> (\<lambda>str1. fmt_copy cap None (pos + length (digits 10 w) + 1) cs as str1 [] False))"
proof -
  have d: "list_all is_digit (digits 10 w)" "digits 10 w = [] \<or> hd (digits 10 w) \<noteq> CHR ''0''"
    using dec_digits [of w] by (cases "w = 0"; simp)+
  have "length (digits 10 w) \<le> 7" using assms by (intro digits_length) simp
  then have "length ([] :: string) + length (digits 10 w) \<le> FMT_BUF_SIZE" by (simp add: config)
  then have e: "fmt_spec cap None pos (digits 10 w @ c # cs) ap str [] z
      = fmt_spec cap None (pos + length (digits 10 w)) (c # cs) ap str ([] @ digits 10 w) z"
    using d by (intro fmt_spec_digits) auto
  have c: "\<not> (c = CHR ''0'' \<and> digits 10 w = [])" "\<not> is_digit c" using is_spec_not [OF assms(1)] by auto
  show ?thesis
    unfolding e append_Nil fmt_spec.simps(2) if_not_P [OF c(1)] if_not_P [OF c(2)] if_P [OF assms(1)] write_spec_padded [OF assms(2)]
    by (cases ap; cases "dir_text z w c (hd ap)") (simp_all split: option.split)
qed

lemma fmt_copy_dir:
  assumes "directive_ok (Dir z w c)"
  shows "fmt_copy cap None pos (show_dir (Dir z w c) @ cs) ap str [] False
    = (case ap of [] \<Rightarrow> None
       | a # as \<Rightarrow> dir_text z w c a \<bind> strcat cap str \<bind> (\<lambda>str1. fmt_copy cap None (pos + length (show_dir (Dir z w c))) cs as str1 [] False))"
proof -
  have ok: "is_spec c" "w < 100" using assms by (simp_all add: directive_ok_def)
  define p where "p = (if z then pos + 2 else pos + 1)"
  have len: "pos + length (show_dir (Dir z w c)) = p + length (digits 10 w) + 1" by (simp add: show_dir_def p_def)
  have "fmt_copy cap None pos (show_dir (Dir z w c) @ cs) ap str [] False
      = fmt_spec cap None (pos + 1) ((if z then ''0'' else []) @ digits 10 w @ c # cs) ap str [] False"
    unfolding show_dir_def directive.case append_Cons append_Nil append_assoc fmt_copy.simps(2) by simp
  also have "\<dots> = fmt_spec cap None p (digits 10 w @ c # cs) ap str [] z"
    unfolding p_def by (cases z) (simp_all only: if_True if_False append_Cons append_Nil fmt_spec.simps(2) simp_thms add.assoc one_add_one option.distinct)
  finally show ?thesis unfolding fmt_spec_dir [OF ok] len .
qed

lemma fmt_copy_render:
  "list_all directive_ok ds \<Longrightarrow> length str < cap \<Longrightarrow>
   fmt_copy cap None pos (concat (map show_dir ds)) ap str [] False = render ds ap \<bind> strcat cap str"
proof (induction ds arbitrary: pos ap str)
  case Nil
  then show ?case by (simp add: strcat_def)
next
  case (Cons d ds)
  have ok: "list_all directive_ok ds" "directive_ok d" using Cons.prems(1) by simp_all
  have step: "strcat cap str x \<bind> (\<lambda>str1. fmt_copy cap None q (concat (map show_dir ds)) as str1 [] False)
      = render ds as \<bind> (\<lambda>y. strcat cap str (x @ y))" for x q as
  proof -
    have "strcat cap str x \<bind> (\<lambda>str1. fmt_copy cap None q (concat (map show_dir ds)) as str1 [] False)
        = strcat cap str x \<bind> (\<lambda>str1. render ds as \<bind> strcat cap str1)"
      using Cons.IH [OF ok(1)] by (intro Option.bind_cong) (auto dest: strcat_Some)
    then show ?thesis by (cases "render ds as") (auto simp: strcat_strcat [symmetric] split: option.split cong: Option.bind_cong)
  qed
  show ?case
  proof (cases d)
    case (Lit c)
    have "fmt_copy cap None pos (concat (map show_dir (d # ds))) ap str [] False
        = strcat cap str [c] \<bind> (\<lambda>str1. fmt_copy cap None (pos + 1) (concat (map show_dir ds)) ap str1 [] False)"
      unfolding Lit list.map concat.simps show_dir_def directive.case append_Cons append_Nil fmt_copy.simps(2)
      using ok(2) Lit by (simp add: directive_ok_def)
    then show ?thesis unfolding step by (cases "render ds ap") (simp_all add: Lit)
  next
    case (Dir z w c)
    have "fmt_copy cap None pos (concat (map show_dir (d # ds))) ap str [] False
        = (case ap of [] \<Rightarrow> None | a # as \<Rightarrow> dir_text z w c a \<bind> (\<lambda>x. render ds as \<bind> (\<lambda>y. strcat cap str (x @ y))))"
      using fmt_copy_dir [OF ok(2) [unfolded Dir], of cap pos "concat (map show_dir ds)" ap str] by (simp add: Dir step split: list.split)
    also have "\<dots> = render (d # ds) ap \<bind> strcat cap str"
      by (cases ap) (auto simp: Dir dir_text_def bind_map_option comp_def split: option.split)
    finally show ?thesis .
  qed
qed

text \<open>The limit is a limit on the format.\<close>

lemma fmt_limit:
  "fmt_copy cap (Some n) pos cs ap str buf pz = fmt_copy cap None q (take (n - pos) cs) ap str buf pz"
  "fmt_spec cap (Some n) pos cs ap str buf pz = fmt_spec cap None q (take (n - pos) cs) ap str buf pz"
proof (induction cap "Some n" pos cs ap str buf pz and cap "Some n" pos cs ap str buf pz arbitrary: q and q rule: fmt_copy_fmt_spec.induct)
  case (2 cap pos c cs ap str buf pz)
  show ?case
  proof (cases "pos \<ge> n")
    case False
    then have t: "take (n - pos) (c # cs) = c # take (n - (pos + 1)) cs" by (simp add: take_Cons')
    show ?thesis unfolding t fmt_copy.simps(2) using False 2 by (auto cong: Option.bind_cong)
  qed simp
next
  case (4 cap pos c cs ap str buf pz)
  show ?case
  proof (cases "pos \<ge> n")
    case False
    then have t: "take (n - pos) (c # cs) = c # take (n - (pos + 1)) cs" by (simp add: take_Cons')
    show ?thesis unfolding t fmt_spec.simps(2) using False 4 by (auto split: list.split option.split)
  qed simp
qed simp_all

section \<open>The formatter of the C library\<close>

text \<open>A format as the C standard reads it: the flag for zeros, the width and the specifier. Other directives have no
  value here, and neither have \<^verbatim>\<open>%p\<close>, whose text is left to the implementation, and the zero flag of a text or a character,
  which the standard does not define.\<close>

fun parse_format :: "string \<Rightarrow> directive list option"
and parse_directive :: "bool \<Rightarrow> nat \<Rightarrow> string \<Rightarrow> directive list option" where
  "parse_format [] = Some []"
| "parse_format (c # cs) = (if c = CHR ''%'' then parse_directive False 0 cs else map_option (Cons (Lit c)) (parse_format cs))"
| "parse_directive z w [] = None"
| "parse_directive z w (c # cs) =
     (if c = CHR ''0'' \<and> w = 0 then parse_directive True w cs
      else if is_digit c then parse_directive z (w * 10 + (of_char c - 48)) cs
      else if is_spec c then map_option (Cons (Dir z w c)) (parse_format cs)
      else if c = CHR ''%'' \<and> w = 0 \<and> \<not> z then map_option (Cons (Lit c)) (parse_format cs)
      else None)"

definition lib_signed :: "bool \<Rightarrow> nat \<Rightarrow> int \<Rightarrow> string" where
  "lib_signed z w n =
     (let sign = (if n < 0 then ''-'' else []); x = numeral_text 10 (nat \<bar>n\<bar>) in
      if z then sign @ padded True (w - length sign) x else padded False w (sign @ x))"

definition lib_directive :: "bool \<Rightarrow> nat \<Rightarrow> char \<Rightarrow> arg \<Rightarrow> string option" where
  "lib_directive z w c a =
     (case a of
        Str x \<Rightarrow> if c = CHR ''s'' \<and> \<not> z then Some (padded False w x) else None
      | Word v \<Rightarrow>
          if c = CHR ''c'' \<and> \<not> z then Some (padded False w [char_of (unat v)])
          else if c = CHR ''d'' then Some (lib_signed z w (sint v))
          else if c = CHR ''u'' then Some (padded z w (numeral_text 10 (unat v)))
          else if c = CHR ''x'' then Some (padded z w (numeral_text 16 (unat v)))
          else if c = CHR ''o'' then Some (padded z w (numeral_text 8 (unat v)))
          else None)"

primrec lib_text :: "directive list \<Rightarrow> arg list \<Rightarrow> string option" where
  "lib_text [] ap = Some []"
| "lib_text (d # ds) ap =
     (case d of
        Lit c \<Rightarrow> map_option (Cons c) (lib_text ds ap)
      | Dir z w c \<Rightarrow> (case ap of [] \<Rightarrow> None
          | a # as \<Rightarrow> do {
              x \<leftarrow> lib_directive z w c a;
              y \<leftarrow> lib_text ds as;
              Some (x @ y)
            }))"

definition lib_format :: "string \<Rightarrow> arg list \<Rightarrow> string option" where
  "lib_format format ap = do {
     ds \<leftarrow> parse_format format;
     lib_text ds ap
   }"

text \<open>The text in the buffer, and the length of the whole text, which is the result.\<close>

definition lib_vsnprintf :: "nat \<Rightarrow> string \<Rightarrow> arg list \<Rightarrow> (string \<times> int) option" where
  "lib_vsnprintf sz format ap = map_option (\<lambda>x. (snprintf_text sz x, int (length x))) (lib_format format ap)"

text \<open>The formats of the paths in \<^verbatim>\<open>kernel/fs/fs.c\<close>.\<close>

lemma lib_vsnprintf_paths:
  "lib_vsnprintf sz ''%s'' [Str x] = Some (snprintf_text sz x, int (length x))"
  "lib_vsnprintf sz ''/%s'' [Str x] = Some (snprintf_text sz (''/'' @ x), int (length x) + 1)"
  "lib_vsnprintf sz ''%s/%s'' [Str x, Str y] = Some (snprintf_text sz (x @ ''/'' @ y), int (length x + length y) + 1)"
  by (simp_all add: lib_vsnprintf_def lib_format_def is_digit_def is_spec_def lib_directive_def padded_def)

lemma parse_directive_digits:
  "list_all is_digit ds \<Longrightarrow> w \<noteq> 0 \<or> ds = [] \<or> hd ds \<noteq> CHR ''0'' \<Longrightarrow>
   parse_directive z w (ds @ cs) = parse_directive z (foldl (\<lambda>a c. a * 10 + (of_char c - 48)) w ds) cs"
proof (induction ds arbitrary: w)
  case (Cons d ds)
  have b: "\<not> (d = CHR ''0'' \<and> w = 0)" using Cons.prems(2) by auto
  have "(of_char d :: nat) \<noteq> 48" if "w = 0" using b that of_char_eqI [of d "CHR ''0''", where 'a = nat] by auto
  then have "w * 10 + (of_char d - 48) \<noteq> 0" using Cons.prems(1) by (auto simp: is_digit_def)
  then show ?case unfolding append_Cons parse_directive.simps(2) if_not_P [OF b] using Cons.IH [of "w * 10 + (of_char d - 48)"] Cons.prems(1) by simp
qed simp

lemma parse_show: "list_all directive_ok ds \<Longrightarrow> parse_format (concat (map show_dir ds)) = Some ds"
proof (induction ds)
  case (Cons d ds)
  show ?case
  proof (cases d)
    case (Dir z w c)
    have d: "list_all is_digit (digits 10 w)" "digits 10 w = [] \<or> hd (digits 10 w) \<noteq> CHR ''0''" "dec_value (digits 10 w) = w"
      using dec_digits [of w] by (cases "w = 0"; simp)+
    have c: "is_spec c" "\<not> is_digit c" "c \<noteq> CHR ''0''" using Cons.prems is_spec_not [of c] by (auto simp: Dir directive_ok_def)
    have "parse_directive z 0 (digits 10 w @ c # concat (map show_dir ds)) = Some (Dir z w c # ds)"
      unfolding parse_directive_digits [OF d(1), of 0, simplified, OF d(2)] using d(3) c Cons by (simp add: dec_value_def)
    moreover have "parse_format (concat (map show_dir (d # ds))) = parse_directive z 0 (digits 10 w @ c # concat (map show_dir ds))"
      by (cases z) (simp_all add: Dir show_dir_def)
    ultimately show ?thesis by (simp add: Dir)
  qed (use Cons in \<open>simp add: show_dir_def directive_ok_def\<close>)
qed simp

definition arg_nonneg :: "arg \<Rightarrow> bool" where
  "arg_nonneg a = (case a of Str _ \<Rightarrow> True | Word w \<Rightarrow> 0 \<le> sint w)"

lemma lib_directive_eq:
  assumes "lib_directive z w c a = Some x" "arg_nonneg a" "NUL \<notin> set x"
  shows "arg_text c a \<bind> (\<lambda>y. Some ((if c = CHR ''p'' then ''0x'' else []) @ padded z w y)) = Some x"
proof (cases a)
  case (Str y)
  with assms(1) show ?thesis by (auto simp: lib_directive_def arg_text_def split: if_splits)
next
  case (Word v)
  have n: "0 \<le> sint v" using assms(2) Word by (simp add: arg_nonneg_def)
  have "uint v = sint v mod 2 ^ 32" using uint_word_of_int [of "sint v", where 'a = 32] by simp
  then have u: "sint v = int (unat v)" using n sint_range(2) [of v] by simp
  have ne: "sint v \<noteq> - (2 ^ 31)" "\<not> sint v < 0" using n by auto
  have s: "signed_text r v = Some (numeral_text r (unat v))" for r
    unfolding signed_text_def if_not_P [OF ne(1)] if_not_P [OF ne(2)] unfolding u by simp
  have d: "lib_signed z w (sint v) = padded z w (numeral_text 10 (unat v))" using u by (simp add: lib_signed_def Let_def)
  have ch: "unat v mod 256 \<noteq> 0" if "c = CHR ''c''" "\<not> z"
  proof
    assume "unat v mod 256 = 0"
    then have "char_of (unat v) = NUL" using char_of_eq_iff [of "unat v" NUL] by (simp add: NUL_def take_bit_eq_mod)
    then show False using assms(1,3) that Word by (auto simp: lib_directive_def padded_def)
  qed
  show ?thesis using assms(1) ch unfolding Word lib_directive_def arg_text_def arg.case s d
    by (auto split: if_splits)
qed

lemma lib_text_render: "lib_text ds ap = Some x \<Longrightarrow> list_all arg_nonneg ap \<Longrightarrow> NUL \<notin> set x \<Longrightarrow> render ds ap = Some x"
proof (induction ds arbitrary: ap x)
  case (Cons d ds)
  show ?case
  proof (cases d)
    case (Dir z w c)
    with Cons.prems(1) obtain a as y x' where e: "ap = a # as" "lib_directive z w c a = Some y" "lib_text ds as = Some x'" "x = y @ x'"
      by (auto simp: bind_eq_Some_iff split: list.splits)
    have "arg_text c a \<bind> (\<lambda>y. Some ((if c = CHR ''p'' then ''0x'' else []) @ padded z w y)) = Some y"
      using Cons.prems(2,3) e by (intro lib_directive_eq) simp_all
    moreover have "render ds as = Some x'" using Cons.prems e by (intro Cons.IH) simp_all
    ultimately show ?thesis by (auto simp: Dir e(1,4) bind_eq_Some_iff)
  qed (use Cons in auto)
qed simp

text \<open>
  C31. The formatter of the build with \<^verbatim>\<open>USE_TENOK_PRINTF\<close> (\<^verbatim>\<open>kconfig.h\<close> selects the one of the C library). For a format built
  from characters and directives \<^verbatim>\<open>%[0][width]specifier\<close> with a width below 100 it writes what the reference definition
  \<open>render\<close> gives over the numerals of the arguments, and returns its length; it has no defined result when an argument is
  missing or of the other kind, when the smallest integer is to be written signed, and when the text does not fit into the
  destination. Where the formatter of the C library has a text for the format, no integer is negative and the text has no
  zero character, both write the same. The limit of \<^verbatim>\<open>vsnprintf\<close> cuts the format, and not the text, to that
  many characters, for every format.
\<close>

theorem vsnprintf_renders:
  assumes "list_all directive_ok ds" "0 < cap"
  shows "vsprintf cap (concat (map show_dir ds)) ap
      = (case render ds ap of None \<Rightarrow> None | Some out \<Rightarrow> if length out < cap then Some (out, int (length out)) else None)
    \<and> (\<forall>x. lib_format (concat (map show_dir ds)) ap = Some x \<and> list_all arg_nonneg ap \<and> NUL \<notin> set x \<longrightarrow> render ds ap = Some x)
    \<and> vsnprintf cap sz format ap = vsprintf cap (take sz format) ap"
proof (intro conjI)
  show "vsprintf cap (concat (map show_dir ds)) ap
      = (case render ds ap of None \<Rightarrow> None | Some out \<Rightarrow> if length out < cap then Some (out, int (length out)) else None)"
    using assms by (simp add: vsprintf_def vsnprintf_gen_def fmt_copy_render strcat_def split: option.split)
  show "\<forall>x. lib_format (concat (map show_dir ds)) ap = Some x \<and> list_all arg_nonneg ap \<and> NUL \<notin> set x \<longrightarrow> render ds ap = Some x"
    using lib_text_render by (simp add: lib_format_def parse_show [OF assms(1)])
  show "vsnprintf cap sz format ap = vsprintf cap (take sz format) ap"
    using fmt_limit(1) [of cap sz 0 format ap "[]" "[]" False 0] by (simp add: vsnprintf_def vsprintf_def vsnprintf_gen_def)
qed

theorem vsnprintf_renders_witness:
  "vsnprintf 8 4 ''%s'' [Str ''overlong''] = None \<and> vsnprintf 20 4 ''%s'' [Str ''overlong''] = Some (''overlong'', 8)"
proof -
  have "render [Dir False 0 (CHR ''s'')] [Str ''overlong''] = Some ''overlong''"
    by (simp add: arg_text_def padded_def)
  moreover have "list_all directive_ok [Dir False 0 (CHR ''s'')]" by (simp add: directive_ok_def is_spec_def)
  moreover have "concat (map show_dir [Dir False 0 (CHR ''s'')]) = ''%s''" by (simp add: show_dir_def)
  ultimately show ?thesis
    using vsnprintf_renders [of "[Dir False 0 (CHR ''s'')]" 8 "[Str ''overlong'']" 4 "''%s''"]
      vsnprintf_renders [of "[Dir False 0 (CHR ''s'')]" 20 "[Str ''overlong'']" 4 "''%s''"] by auto
qed

end
