(* ===== verification/Printk.thy ===== *)
theory Printk
  imports Mutex Fstree Printf "HOL-Library.Sublist"
begin

text \<open>
  Kernel messages (\<^verbatim>\<open>kernel/printk.c\<close>): the text of a message, the buffers it waits in, and the daemon that writes it to the
  standard output.

  The members \<^verbatim>\<open>list\<close> of the buffers are on one of two lists, or on none while the daemon writes one of them; the lists are
  lists of buffer numbers. \<^verbatim>\<open>printk\<close> takes the text that the format and the arguments stand for.
\<close>

section \<open>State\<close>

definition PRINTK_QUEUE_SIZE :: nat where [config]: "PRINTK_QUEUE_SIZE = 20"
definition PRINT_SIZE_MAX :: nat where [config]: "PRINT_SIZE_MAX = 100"

record printk_data =
  pk_size :: nat
  pk_data :: "u8 list"

record pkstate = fsstate +
  printk_buf :: "nat \<Rightarrow> printk_data"
  printk_free_list :: "nat list"
  printk_wait_list :: "nat list"
  printkd_wait :: nat
  stdout_initialized :: bool
  printk_is_writing :: bool

section \<open>Writing a message\<close>

definition console_store :: "nat \<Rightarrow> u8 list \<Rightarrow> 'a pkstate_scheme \<Rightarrow> 'a pkstate_scheme option" where
  "console_store e buf s = do {
     d \<leftarrow> mem_write (pk_data (printk_buf s e)) 0 buf;
     Some (s\<lparr>printk_buf := (printk_buf s)(e := \<lparr>pk_size = length buf, pk_data = d\<rparr>)\<rparr>)
   }"

definition console_write :: "u8 list \<Rightarrow> 'a pkstate_scheme \<Rightarrow> ('a pkstate_scheme \<times> int) option" where
  "console_write buf = critr (\<lambda>s. do {
     (s1, e) \<leftarrow>
       (case printk_free_list s of
          [] \<Rightarrow> (case printk_wait_list s of [] \<Rightarrow> None
             | e # w \<Rightarrow> Some (s\<lparr>printk_wait_list := w @ [e]\<rparr>, e))
        | e # f \<Rightarrow> Some (s\<lparr>printk_free_list := f, printk_wait_list := printk_wait_list s @ [e]\<rparr>, e));
     s2 \<leftarrow> console_store e buf s1;
     s3 \<leftarrow> (if \<not> printk_is_writing s2 then wake_up_all (WaitQ (printkd_wait s2)) s2 else Some s2);
     Some (s3, 0)
   })"

definition string_bytes :: "string \<Rightarrow> u8 list" where
  "string_bytes x = map (\<lambda>c. word_of_nat (of_char c)) x"

text \<open>The text of a message at a time, \<open>msg\<close> being what its format stands for (\<open>lib_format\<close>): the seconds in five columns, the nanoseconds with their leading zeros. The loop that
  fills \<^verbatim>\<open>zeros\<close> compares with an unsigned difference, and \<^verbatim>\<open>vsnprintf\<close> has the size of the whole buffer as its limit.\<close>

definition printk_head :: "timespec \<Rightarrow> string option" where
  "printk_head tp = do {
     sec \<leftarrow> map_option cstr (ltoa (word_of_int (tv_sec tp)) 10);
     rem \<leftarrow> map_option cstr (ltoa (word_of_int (tv_nsec tp)) 10);
     if length rem > 9 then None
     else Some (''['' @ replicate (5 - length sec) (CHR '' '') @ sec @ ''.'' @ replicate (9 - length rem) (CHR ''0'') @ rem @ ''] '')
   }"

definition printk_text :: "timespec \<Rightarrow> string \<Rightarrow> string option" where
  "printk_text tp msg = do {
     h \<leftarrow> printk_head tp;
     let text = CHR 0x0D # h @ snprintf_text PRINT_SIZE_MAX msg @ [CHR 0x0A, CHR 0x0D];
     if length text < PRINT_SIZE_MAX then Some text else None
   }"

definition printk :: "string \<Rightarrow> 'a pkstate_scheme \<Rightarrow> ('a pkstate_scheme \<times> int) option" where
  "printk msg s = do {
     text \<leftarrow> printk_text (sys_time s) msg;
     console_write (string_bytes text) (preempt_enable (preempt_disable s))
   }"

section \<open>The daemon\<close>

definition printkd_init :: "'a pkstate_scheme \<Rightarrow> 'a pkstate_scheme" where
  "printkd_init s = s\<lparr>printk_free_list := printk_free_list s @ [0..<PRINTK_QUEUE_SIZE]\<rparr>"

definition printkd_start :: "'a pkstate_scheme \<Rightarrow> 'a pkstate_scheme option" where
  "printkd_start s = wake_up_all (WaitQ (printkd_wait s)) (s\<lparr>stdout_initialized := True\<rparr>)"

definition printkd_sleep :: "'a pkstate_scheme \<Rightarrow> 'a pkstate_scheme option" where
  "printkd_sleep s = map_option schedule_request (prepare_to_wait (WaitQ (printkd_wait s)) (running s) THREAD_WAIT s)"

definition printk_all_flushed :: "'a pkstate_scheme \<Rightarrow> bool" where
  "printk_all_flushed s = (printk_wait_list s = [])"

text \<open>One round of the loop of \<^verbatim>\<open>printkd\<close>: it sleeps, or takes the first buffer, whose message is then the argument of
  \<^verbatim>\<open>write\<close>; after the write the buffer is free again.\<close>

definition printkd_take :: "'a pkstate_scheme \<Rightarrow> ('a pkstate_scheme \<times> nat option) option" where
  "printkd_take s =
     (if \<not> stdout_initialized s \<or> printk_wait_list s = [] then map_option (\<lambda>s1. (s1, None)) (printkd_sleep s)
      else
        (let e = hd (printk_wait_list s);
             s1 = preempt_enable ((preempt_disable s)\<lparr>printk_wait_list := tl (printk_wait_list s)\<rparr>) in
         Some (s1\<lparr>printk_is_writing := True\<rparr>, Some e)))"

definition printkd_message :: "nat \<Rightarrow> 'a pkstate_scheme \<Rightarrow> u8 list" where
  "printkd_message e s = take (pk_size (printk_buf s e)) (pk_data (printk_buf s e))"

definition printkd_done :: "nat \<Rightarrow> 'a pkstate_scheme \<Rightarrow> 'a pkstate_scheme" where
  "printkd_done e s =
     (let s1 = preempt_disable (s\<lparr>printk_is_writing := False\<rparr>) in
      preempt_enable (s1\<lparr>printk_free_list := printk_free_list s1 @ [e]\<rparr>))"

section \<open>The buffers are a queue that drops its oldest message\<close>

text \<open>The buffers \<open>w\<close> are those the daemon writes, which is at most one.\<close>

definition pk_inv :: "nat list \<Rightarrow> 'a pkstate_scheme \<Rightarrow> bool" where
  "pk_inv w s \<longleftrightarrow> distinct (printk_free_list s @ printk_wait_list s @ w)
     \<and> set (printk_free_list s @ printk_wait_list s @ w) = {..<20}
     \<and> length w \<le> 1 \<and> (printk_is_writing s \<longleftrightarrow> w \<noteq> []) \<and> (\<forall>e. length (pk_data (printk_buf s e)) = 100)"

definition pk_pending :: "'a pkstate_scheme \<Rightarrow> u8 list list" where
  "pk_pending s = map (\<lambda>e. printkd_message e s) (printk_wait_list s)"

text \<open>The reference: a bounded queue that makes room by dropping its first message.\<close>

definition pk_put :: "nat \<Rightarrow> u8 list \<Rightarrow> u8 list list \<Rightarrow> u8 list list" where
  "pk_put room m q = (if length q < room then q else tl q) @ [m]"

lemma preempt_pk_frame [simp]:
  "printk_buf (preempt_disable s) = printk_buf s" "printk_buf (preempt_enable s) = printk_buf s"
  "printk_free_list (preempt_disable s) = printk_free_list s" "printk_free_list (preempt_enable s) = printk_free_list s"
  "printk_wait_list (preempt_disable s) = printk_wait_list s" "printk_wait_list (preempt_enable s) = printk_wait_list s"
  "printkd_wait (preempt_disable s) = printkd_wait s" "printkd_wait (preempt_enable s) = printkd_wait s"
  "stdout_initialized (preempt_disable s) = stdout_initialized s" "stdout_initialized (preempt_enable s) = stdout_initialized s"
  "printk_is_writing (preempt_disable s) = printk_is_writing s" "printk_is_writing (preempt_enable s) = printk_is_writing s"
  for s :: "'a pkstate_scheme"
  by (simp_all add: preempt_disable_def preempt_enable_def preempt_count_inc_def preempt_count_dec_def Let_def)

lemma make_ready_pk_frame [simp]:
  "printk_buf (fold make_ready ts s) = printk_buf s" "printk_free_list (fold make_ready ts s) = printk_free_list s"
  "printk_wait_list (fold make_ready ts s) = printk_wait_list s" "printk_is_writing (fold make_ready ts s) = printk_is_writing s"
  "stdout_initialized (fold make_ready ts s) = stdout_initialized s"
  for s :: "'a pkstate_scheme"
  by (induction ts arbitrary: s) (simp_all add: make_ready_def set_status_def upd_thread_def)

lemma wake_up_all_eq:
  "sched_wf s \<Longrightarrow> wake_up_all l s = Some (preempt_enable (fold make_ready (lst (links s) l) (preempt_disable s)))"
  using ready_each_eq [of "preempt_disable s" "lst (links s) l"] by (auto simp: wake_up_all_def crit_def lk_linked_iff)

text \<open>Fields of the message queue that the wake-up leaves alone.\<close>

definition same_pk :: "'a pkstate_scheme \<Rightarrow> 'a pkstate_scheme \<Rightarrow> bool" where
  "same_pk s t \<longleftrightarrow> printk_buf t = printk_buf s \<and> printk_free_list t = printk_free_list s \<and> printk_wait_list t = printk_wait_list s
     \<and> printk_is_writing t = printk_is_writing s \<and> stdout_initialized t = stdout_initialized s"

lemma same_pk_inv: "same_pk s t \<Longrightarrow> pk_inv w t = pk_inv w s \<and> pk_pending t = pk_pending s \<and> (\<forall>e. printkd_message e t = printkd_message e s)"
  by (simp add: same_pk_def pk_inv_def pk_pending_def printkd_message_def)

text \<open>The body of \<^verbatim>\<open>console_write\<close> up to the wake-up, for a buffer \<open>e\<close> that the invariant gives.\<close>

lemma message_stored:
  assumes "length (pk_data (printk_buf s e)) = 100" "length buf \<le> 100"
  obtains t where "console_store e buf s = Some t" "printkd_message e t = buf" "\<forall>x. x \<noteq> e \<longrightarrow> printkd_message x t = printkd_message x s"
    "\<forall>x. length (pk_data (printk_buf t x)) = length (pk_data (printk_buf s x))"
    "printk_free_list t = printk_free_list s" "printk_wait_list t = printk_wait_list s" "printk_is_writing t = printk_is_writing s"
    "links t = links s" "threads t = threads s" "running t = running s"
  using assms by (intro that [of "s\<lparr>printk_buf := (printk_buf s)(e := \<lparr>pk_size = length buf, pk_data = buf @ drop (length buf) (pk_data (printk_buf s e))\<rparr>)\<rparr>"])
    (auto simp: console_store_def mem_write_def printkd_message_def)

lemma pk_inv_card: "pk_inv w s \<Longrightarrow> length (printk_free_list s) + length (printk_wait_list s) + length w = 20"
  using distinct_card [of "printk_free_list s @ printk_wait_list s @ w"] by (auto simp: pk_inv_def)

lemma console_pick:
  assumes "pk_inv w s"
  obtains e f v where
    "(case printk_free_list s of
        [] \<Rightarrow> (case printk_wait_list s of [] \<Rightarrow> None | e # w \<Rightarrow> Some (s\<lparr>printk_wait_list := w @ [e]\<rparr>, e))
      | e # f \<Rightarrow> Some (s\<lparr>printk_free_list := f, printk_wait_list := printk_wait_list s @ [e]\<rparr>, e))
       = Some (s\<lparr>printk_free_list := f, printk_wait_list := v @ [e]\<rparr>, e)"
    "v = (if length (printk_wait_list s) < 20 - length w then printk_wait_list s else tl (printk_wait_list s))"
    "distinct (f @ v @ [e] @ w)" "set (f @ v @ [e] @ w) = {..<20}"
proof (cases "printk_free_list s")
  case Nil
  have "length (printk_wait_list s) = 20 - length w" "length w \<le> 1" using pk_inv_card [OF assms] Nil assms by (auto simp: pk_inv_def)
  then obtain e v where ev: "printk_wait_list s = e # v" by (cases "printk_wait_list s") auto
  show ?thesis using assms Nil ev \<open>length (printk_wait_list s) = 20 - length w\<close>
    by (intro that [where f = "[]" and v = v and e = e]) (auto simp: pk_inv_def)
next
  case (Cons e f)
  then show ?thesis using assms pk_inv_card [OF assms]
    by (intro that [where f = f and v = "printk_wait_list s" and e = e]) (auto simp: pk_inv_def)
qed

lemma console_write_ok:
  fixes s :: "'a pkstate_scheme"
  assumes "pk_inv w s" "sched_wf s" "length buf \<le> 100"
  shows "\<exists>s'. console_write buf s = Some (s', 0) \<and> pk_inv w s' \<and> sched_wf s'
    \<and> pk_pending s' = pk_put (20 - length w) buf (pk_pending s) \<and> (\<forall>e \<in> set w. printkd_message e s' = printkd_message e s)
    \<and> stdout_initialized s' = stdout_initialized s"
proof -
  let ?d = "preempt_disable s"
  have inv: "pk_inv w ?d" using assms(1) by (simp add: pk_inv_def)
  obtain e f v where pick: "(case printk_free_list ?d of
        [] \<Rightarrow> (case printk_wait_list ?d of [] \<Rightarrow> None | e # w \<Rightarrow> Some (?d\<lparr>printk_wait_list := w @ [e]\<rparr>, e))
      | e # f \<Rightarrow> Some (?d\<lparr>printk_free_list := f, printk_wait_list := printk_wait_list ?d @ [e]\<rparr>, e))
       = Some (?d\<lparr>printk_free_list := f, printk_wait_list := v @ [e]\<rparr>, e)"
    and v: "v = (if length (printk_wait_list ?d) < 20 - length w then printk_wait_list ?d else tl (printk_wait_list ?d))"
    and d: "distinct (f @ v @ [e] @ w)" "set (f @ v @ [e] @ w) = {..<20}" by (rule console_pick [OF inv])
  define s1 where "s1 = ?d\<lparr>printk_free_list := f, printk_wait_list := v @ [e]\<rparr>"
  have l: "length (pk_data (printk_buf s1 e)) = 100" using assms(1) by (simp add: s1_def pk_inv_def)
  obtain t where t: "console_store e buf s1 = Some t" "printkd_message e t = buf" "\<forall>x. x \<noteq> e \<longrightarrow> printkd_message x t = printkd_message x s1"
    "\<forall>x. length (pk_data (printk_buf t x)) = length (pk_data (printk_buf s1 x))"
    "printk_free_list t = printk_free_list s1" "printk_wait_list t = printk_wait_list s1" "printk_is_writing t = printk_is_writing s1"
    "links t = links s1" "threads t = threads s1" "running t = running s1"
    by (rule message_stored [OF l assms(3)])
  have st: "stdout_initialized t = stdout_initialized s" using t(1) by (auto simp: console_store_def s1_def bind_eq_Some_iff)
  have "sched_wf s1" using assms(2) by (subst sched_wf_cong [of s1 s]) (simp_all add: s1_def)
  then have wf: "sched_wf t" using sched_wf_cong [OF t(9,8,10)] by simp
  have tinv: "pk_inv w t" using assms(1) d t(4-7) by (simp add: pk_inv_def s1_def)
  have mw: "\<forall>x \<in> set w. printkd_message x t = printkd_message x s"
    using t(3) d(1) by (auto simp: s1_def printkd_message_def)
  have m: "printkd_message x t = printkd_message x s" if "x \<noteq> e" for x using t(3) that by (simp add: s1_def printkd_message_def)
  have "pk_pending t = map (\<lambda>x. printkd_message x t) v @ [buf]" by (simp add: pk_pending_def t(2,6) s1_def)
  also have "map (\<lambda>x. printkd_message x t) v = map (\<lambda>x. printkd_message x s) v" using d(1) by (intro map_cong refl m) auto
  also have "\<dots> @ [buf] = pk_put (20 - length w) buf (pk_pending s)" by (simp add: pk_pending_def pk_put_def v map_tl)
  finally have pend: "pk_pending t = pk_put (20 - length w) buf (pk_pending s)" .
  obtain s3 where s3: "(if \<not> printk_is_writing t then wake_up_all (WaitQ (printkd_wait t)) t else Some t) = Some s3" "same_pk t s3" "sched_wf s3"
  proof (cases "printk_is_writing t")
    case False
    obtain u where u: "wake_up_all (WaitQ (printkd_wait t)) t = Some u" "sched_wf u" using wake_up_all_wf [OF wf] by blast
    then have "same_pk t u" using wake_up_all_eq [OF wf, of "WaitQ (printkd_wait t)"] by (auto simp: same_pk_def)
    with u False that show ?thesis by simp
  qed (use that [of t] wf in \<open>simp add: same_pk_def\<close>)
  have "console_write buf s = Some (preempt_enable s3, 0)"
    unfolding console_write_def critr_def pick using t(1) s3(1) by (simp add: s1_def)
  moreover have "same_pk s3 (preempt_enable s3)" by (simp add: same_pk_def)
  ultimately show ?thesis
    using same_pk_inv [OF s3(2), of w] same_pk_inv [of s3 "preempt_enable s3" w] tinv pend s3(2,3) st mw
    by (auto simp: same_pk_def)
qed

section \<open>Runs\<close>

text \<open>The messages that have been printed, those given to \<^verbatim>\<open>write\<close>, and the buffer the daemon writes. Between these steps the
  rest of the kernel runs, the scheduler among it, which keeps the invariant of the scheduler and does not touch the buffers.\<close>

inductive pk_run :: "u8 list list \<Rightarrow> u8 list list \<Rightarrow> nat list \<Rightarrow> 'a pkstate_scheme \<Rightarrow> bool" where
  start: "printk_free_list s = [] \<Longrightarrow> printk_wait_list s = [] \<Longrightarrow> \<not> printk_is_writing s \<Longrightarrow> \<forall>e. length (pk_data (printk_buf s e)) = PRINT_SIZE_MAX \<Longrightarrow>
    sched_wf s \<Longrightarrow> pk_run [] [] [] (printkd_init s)"
| put: "pk_run ms out w s \<Longrightarrow> length m \<le> PRINT_SIZE_MAX \<Longrightarrow> console_write m s = Some (s', r) \<Longrightarrow> pk_run (ms @ [m]) out w s'"
| initialised: "pk_run ms out w s \<Longrightarrow> printkd_start s = Some s' \<Longrightarrow> pk_run ms out w s'"
| sleeps: "pk_run ms out [] s \<Longrightarrow> printkd_take s = Some (s', None) \<Longrightarrow> pk_run ms out [] s'"
| others: "pk_run ms out w s \<Longrightarrow> same_pk s s' \<Longrightarrow> sched_wf s' \<Longrightarrow> pk_run ms out w s'"
| takes: "pk_run ms out [] s \<Longrightarrow> printkd_take s = Some (s', Some e) \<Longrightarrow> pk_run ms (out @ [printkd_message e s']) [e] s'"
| writes: "pk_run ms out [e] s \<Longrightarrow> pk_run ms out [] (printkd_done e s)"

lemma pk_put_suffix: "suffix q ms \<Longrightarrow> suffix (pk_put n m q) (ms @ [m])"
  by (cases q) (auto simp: pk_put_def suffix_def)

lemma pk_put_subseq: "subseq (out @ q) ms \<Longrightarrow> subseq (out @ pk_put n m q) (ms @ [m])"
proof -
  assume a: "subseq (out @ q) ms"
  have "subseq (out @ tl q) (out @ q)" by (cases q) (auto intro: list_emb_append_mono)
  then have "subseq (out @ (if length q < n then q else tl q)) ms" using a subseq_order.order_trans by auto
  then show ?thesis unfolding pk_put_def append_assoc [symmetric] by (intro list_emb_append_mono) auto
qed

lemma pk_put_all: "out @ q = ms \<Longrightarrow> length q < n \<Longrightarrow> out @ pk_put n m q = ms @ [m]"
  by (auto simp: pk_put_def)

lemma printkd_take_ok:
  assumes "pk_inv [] s" "printkd_take s = Some (s', Some e)"
  shows "pk_inv [e] s'" "pk_pending s = printkd_message e s' # pk_pending s'" "sched_wf s' = sched_wf s"
proof -
  have w: "stdout_initialized s" "printk_wait_list s \<noteq> []"
    and s': "s' = (preempt_enable ((preempt_disable s)\<lparr>printk_wait_list := tl (printk_wait_list s)\<rparr>))\<lparr>printk_is_writing := True\<rparr>"
    and e: "e = hd (printk_wait_list s)"
    using assms(2) by (auto simp: printkd_take_def Let_def split: if_splits)
  obtain v where v: "printk_wait_list s = e # v" using w(2) e by (cases "printk_wait_list s") auto
  show "pk_inv [e] s'" using assms(1) v by (auto simp: s' pk_inv_def)
  show "pk_pending s = printkd_message e s' # pk_pending s'" using v by (simp add: s' pk_pending_def printkd_message_def)
  show "sched_wf s' = sched_wf s" by (rule sched_wf_cong) (simp_all add: s')
qed

lemma printkd_sleep_ok:
  assumes "sched_wf s" "printkd_take s = Some (s', None)"
  shows "sched_wf s' \<and> same_pk s s'"
proof -
  obtain u where u: "prepare_to_wait (WaitQ (printkd_wait s)) (running s) THREAD_WAIT s = Some u" "s' = schedule_request u"
    using assms(2) by (auto simp: printkd_take_def printkd_sleep_def Let_def split: if_splits)
  from u(1) have "\<not> lk_linked (running s) (links s)" by (auto simp: prepare_to_wait_def crit_def node_add_def split: if_splits)
  from prepare_to_wait_wf [OF assms(1) this, of "WaitQ (printkd_wait s)" THREAD_WAIT] u have "sched_wf s'" by auto
  moreover have "same_pk s u" using u(1) by (auto simp: same_pk_def prepare_to_wait_def crit_def node_add_def set_status_def upd_thread_def split: if_splits)
  moreover have "same_pk u s'" unfolding u(2)
    by (simp add: same_pk_def schedule_request_def jump_to_kernel_leave_def set_need_resched_def preempt_count_set_def upd_thread_def Let_def)
  ultimately show ?thesis by (simp add: same_pk_def)
qed

lemma pk_run_inv:
  "pk_run ms out w s \<Longrightarrow> pk_inv w s \<and> sched_wf s \<and> suffix (pk_pending s) ms \<and> subseq (out @ pk_pending s) ms
    \<and> (length ms \<le> 19 \<longrightarrow> out @ pk_pending s = ms)"
proof (induction rule: pk_run.induct)
  case (start s)
  have "sched_wf (printkd_init s)" using start(5) by (subst sched_wf_cong [of _ s]) (simp_all add: printkd_init_def)
  moreover have "set [0..<20] = {..<20 :: nat}" by auto
  ultimately show ?case using start by (simp add: pk_inv_def pk_pending_def printkd_init_def config)
next
  case (put ms out w s m s' r)
  have "length m \<le> 100" using put(2) by (simp add: config)
  with console_write_ok [of w s m] put have s': "pk_inv w s'" "sched_wf s'" "pk_pending s' = pk_put (20 - length w) m (pk_pending s)" by auto
  have w: "length w \<le> 1" using put(4) by (auto simp: pk_inv_def)
  have "out @ pk_pending s' = ms @ [m]" if "length (ms @ [m]) \<le> 19"
  proof -
    have a: "out @ pk_pending s = ms" using put that by auto
    then have "length (pk_pending s) \<le> length ms" by auto
    then show ?thesis using pk_put_all [OF a, of "20 - length w" m] w that by (simp add: s'(3))
  qed
  then show ?case using s' put(4) pk_put_suffix pk_put_subseq by auto
next
  case (initialised ms out w s s')
  let ?s = "s\<lparr>stdout_initialized := True\<rparr>"
  have wf: "sched_wf ?s" using initialised(3) by (subst sched_wf_cong [of _ s]) auto
  obtain u where u: "wake_up_all (WaitQ (printkd_wait s)) ?s = Some u" "sched_wf u" using wake_up_all_wf [OF wf] by blast
  then have "same_pk ?s u" using wake_up_all_eq [OF wf, of "WaitQ (printkd_wait s)"] by (auto simp: same_pk_def)
  moreover have "u = s'" using initialised(2) u(1) by (simp add: printkd_start_def)
  moreover have "pk_inv w ?s = pk_inv w s" "pk_pending ?s = pk_pending s" by (simp_all add: pk_inv_def pk_pending_def printkd_message_def)
  ultimately show ?case using same_pk_inv [of ?s s' w] initialised(3) u(2) by auto
next
  case (sleeps ms out s s')
  then show ?case using printkd_sleep_ok [OF _ sleeps(2)] same_pk_inv [of s s' "[]"] by auto
next
  case (others ms out w s s')
  then show ?case using same_pk_inv [OF others(2), of w] by auto
next
  case (takes ms out s s' e)
  note t = printkd_take_ok [OF _ takes(2)]
  have "suffix (pk_pending s') (pk_pending s)" using t(2) takes(3) by (simp add: suffix_def)
  then show ?case using takes t suffix_order.order_trans by fastforce
next
  case (writes ms out e s)
  have "sched_wf (printkd_done e s)" using writes(2) by (subst sched_wf_cong [of _ s]) (simp_all add: printkd_done_def Let_def)
  moreover have "pk_inv [] (printkd_done e s)" using writes(2) by (auto simp: pk_inv_def printkd_done_def Let_def)
  moreover have "pk_pending (printkd_done e s) = pk_pending s" by (simp add: pk_pending_def printkd_done_def printkd_message_def Let_def)
  ultimately show ?case using writes(2) by simp
qed

text \<open>
  C33. Kernel messages form a queue that drops its oldest message when its twenty buffers are used up. In every state
  that messages, the start of the daemon and its rounds lead to, every buffer is free, waiting or being written and a
  further message is always taken; the waiting messages are the most recent ones in order, those written so
  far are among the printed ones in the order of the calls, and none is lost while no more than 19 have been printed.
\<close>

theorem printk_queue_run:
  assumes "pk_run ms out w s"
  shows "pk_inv w s \<and> suffix (pk_pending s) ms \<and> subseq (out @ pk_pending s) ms \<and> (length ms \<le> 19 \<longrightarrow> out @ pk_pending s = ms)
    \<and> (\<forall>m. length m \<le> PRINT_SIZE_MAX \<longrightarrow> (\<exists>s'. console_write m s = Some (s', 0)
         \<and> pk_pending s' = (if length (pk_pending s) + length w < PRINTK_QUEUE_SIZE then pk_pending s else tl (pk_pending s)) @ [m]))"
proof -
  note inv = pk_run_inv [OF assms]
  then have "length w \<le> 1" by (auto simp: pk_inv_def)
  then have "\<exists>s'. console_write m s = Some (s', 0)
      \<and> pk_pending s' = (if length (pk_pending s) + length w < 20 then pk_pending s else tl (pk_pending s)) @ [m]" if "length m \<le> 100" for m
    using console_write_ok [of w s m] inv that by (auto simp: pk_put_def less_diff_conv)
  then show ?thesis using inv by (simp add: config)
qed

text \<open>The width of a decimal numeral and the limit that it leaves for the text of a message.\<close>

lemma ltoa_width:
  assumes "0 \<le> n" "n < 10 ^ k" "0 < k" "k \<le> 9"
  obtains x where "ltoa (word_of_int n) 10 = Some (x @ [NUL])" "cstr (x @ [NUL]) = x" "length x \<le> k"
proof -
  have "(10 :: int) ^ k \<le> 10 ^ 9" using assms(4) by (intro power_increasing) auto
  then have n: "n < 2 ^ 31" using assms(2) by simp
  moreover have "(word_of_int n :: u32) = word_of_nat (nat n)" using assms(1) by simp
  ultimately have s: "sint (word_of_int n :: u32) = n" using sint_small [of "nat n"] assms(1) by simp
  have r: "radix_ok 10" by (simp add: radix_ok_def)
  have l: "ltoa (word_of_int n) 10 = Some (numeral_text 10 (nat n) @ [NUL])"
    using itoa_numeral [OF r, of "word_of_int n"] assms(1) n unfolding s by (simp add: ltoa_def itoa_def)
  have "nat n < 10 ^ k" using assms(1,2) by (simp add: nat_less_iff)
  then have "length (digits 10 (nat n)) \<le> k" using digits_length_base [of 10 10 "nat n" k] by simp
  moreover have "cstr (numeral_text 10 (nat n) @ [NUL]) = numeral_text 10 (nat n)"
    using digits_NUL [of 10 _ "nat n"] by (subst cstr_append) (auto simp: numeral_text_def cstr_def NUL_def split: if_splits)
  ultimately show ?thesis using that [OF l] assms(3) by (auto simp: numeral_text_def)
qed

text \<open>
  Before the clock reaches 100000 seconds the text of a kernel message has 18 columns for the time, and a message of up to
  78 characters fits its buffer; a longer one is stored past the end of the buffer of 100 bytes, since the limit passed
  to \<^verbatim>\<open>vsnprintf\<close> does not take the header and the line end into account.
\<close>

theorem printk_text_limit:
  assumes "0 \<le> tv_sec tp" "tv_sec tp < 100000" "0 \<le> tv_nsec tp" "tv_nsec tp < 1000000000"
  shows "\<exists>h. printk_head tp = Some h \<and> length h = 18
    \<and> printk_text tp msg = (if length msg \<le> 78 then Some (CHR 0x0D # h @ msg @ [CHR 0x0A, CHR 0x0D]) else None)"
proof -
  obtain x where x: "ltoa (word_of_int (tv_sec tp)) 10 = Some (x @ [NUL])" "cstr (x @ [NUL]) = x" "length x \<le> 5"
    by (rule ltoa_width [of "tv_sec tp" 5]) (use assms in auto)
  obtain y where y: "ltoa (word_of_int (tv_nsec tp)) 10 = Some (y @ [NUL])" "cstr (y @ [NUL]) = y" "length y \<le> 9"
    by (rule ltoa_width [of "tv_nsec tp" 9]) (use assms in auto)
  obtain h where h: "printk_head tp = Some h" "length h = 18" using x y by (simp add: printk_head_def)
  have "take 99 msg = msg" if "length msg \<le> 78" using that by simp
  then show ?thesis using h by (auto simp: printk_text_def Let_def config)
qed

definition demo_pk :: pkstate where
  "demo_pk = fsstate.extend (demo_fs\<lparr>threads := demo_threads, running := 0, links := [(Ready 3, 1), (Ready 3, 2), (Ready 0, 3)]\<rparr>)
     (pkstate.fields (\<lambda>_. \<lparr>pk_size = 0, pk_data = replicate 100 0\<rparr>) [] [] 7 False False)"

lemma demo_pk_sel:
  "threads demo_pk = threads demo_state" "running demo_pk = running demo_state" "links demo_pk = links demo_state"
  "printk_free_list demo_pk = []" "printk_wait_list demo_pk = []" "\<not> printk_is_writing demo_pk" "length (pk_data (printk_buf demo_pk e)) = 100"
  by (simp_all add: demo_pk_def fsstate.defs pkstate.defs demo_state_def demo_kstate_def)

theorem printk_queue_run_witness:
  "\<exists>s'. console_write [104, 105] (printkd_init demo_pk) = Some (s', 0) \<and> pk_pending s' = [[104, 105]]"
proof -
  have "sched_wf demo_pk" using demo_state_wf(1) unfolding sched_wf_def demo_pk_sel .
  then have "pk_run [] [] [] (printkd_init demo_pk)" by (intro pk_run.start) (simp_all add: demo_pk_sel config)
  from printk_queue_run [OF this] show ?thesis by (fastforce simp: config)
qed

theorem printk_text_limit_witness:
  "\<exists>h. length h = 18 \<and> printk_text \<lparr>tv_sec = 3, tv_nsec = 50\<rparr> ''up'' = Some (CHR 0x0D # h @ ''up'' @ [CHR 0x0A, CHR 0x0D])
     \<and> printk_text \<lparr>tv_sec = 3, tv_nsec = 50\<rparr> (replicate 79 (CHR ''x'')) = None"
  using printk_text_limit [of "\<lparr>tv_sec = 3, tv_nsec = 50\<rparr>" "''up''"]
    printk_text_limit [of "\<lparr>tv_sec = 3, tv_nsec = 50\<rparr>" "replicate 79 (CHR ''x'')"] by auto

end
