(* ===== verification/Softirq.thy ===== *)
theory Softirq
  imports Printk Klist
begin

text \<open>
  Deferred work of interrupt handlers (\<^verbatim>\<open>kernel/softirq.c\<close>): tasklets, and the daemon that runs them.

  The list of tasklets is on a store of pointers as in theory \<open>Klist\<close>, since \<^verbatim>\<open>tasklet_schedule\<close> unlinks the tasklet before it
  links it, and what that does depends on the pointers that an earlier use, or none, has left in it. The functions of
  the tasklets belong to the drivers; they are an argument of the daemon's round.
\<close>

definition SOFTIRQD :: nat where [config]: "SOFTIRQD = 0"

record tasklet_struct =
  tk_func :: u32
  tk_data :: u32

record sqstate = pkstate +
  tasklets :: "nat \<Rightarrow> tasklet_struct"
  tasklet_links :: list_store
  tasklet_list :: nat
  softirqd_wait :: nat

definition tasklet_init :: "nat \<Rightarrow> u32 \<Rightarrow> u32 \<Rightarrow> 'a sqstate_scheme \<Rightarrow> 'a sqstate_scheme" where
  "tasklet_init t func data s = s\<lparr>tasklets := (tasklets s)(t := \<lparr>tk_func = func, tk_data = data\<rparr>)\<rparr>"

definition tasklet_schedule :: "nat \<Rightarrow> 'a sqstate_scheme \<Rightarrow> 'a sqstate_scheme option" where
  "tasklet_schedule t s = do {
     let s1 = s\<lparr>tasklet_links := list_move t (tasklet_list s) (tasklet_links s)\<rparr>;
     thread \<leftarrow> acquire_thread (int (get_daemon_id SOFTIRQD s1)) s1;
     finish_wait thread s1
   }"

definition softirqd_sleep :: "'a sqstate_scheme \<Rightarrow> 'a sqstate_scheme option" where
  "softirqd_sleep s = map_option schedule_request (prepare_to_wait (WaitQ (softirqd_wait s)) (running s) THREAD_WAIT s)"

text \<open>What \<^verbatim>\<open>softirqd\<close> does before its loop, and one round of the loop.\<close>

definition softirqd_start :: "'a sqstate_scheme \<Rightarrow> 'a sqstate_scheme option" where
  "softirqd_start s = set_daemon_id True SOFTIRQD (sys_setprogname ''softirqd'' s)"

definition softirqd_round ::
  "(u32 \<Rightarrow> u32 \<Rightarrow> 'a sqstate_scheme \<Rightarrow> 'a sqstate_scheme option) \<Rightarrow> 'a sqstate_scheme \<Rightarrow> 'a sqstate_scheme option" where
  "softirqd_round run s =
     (if list_empty (tasklet_links s) (tasklet_list s) then softirqd_sleep s
      else crit (\<lambda>s.
        let t = nxt (tasklet_links s) (tasklet_list s) in
        run (tk_func (tasklets s t)) (tk_data (tasklets s t)) (s\<lparr>tasklet_links := list_del t (tasklet_links s)\<rparr>)) s)"

section \<open>The order of tasklets\<close>

lemma finish_wait_tasklets:
  "finish_wait t s = Some s' \<Longrightarrow> tasklet_links s' = tasklet_links s \<and> tasklet_list s' = tasklet_list s \<and> tasklets s' = tasklets s"
  for s :: "'a sqstate_scheme"
  by (auto simp: finish_wait_def crit_def node_move_def node_add_def node_del_def set_status_def upd_thread_def
      preempt_disable_def preempt_enable_def preempt_count_inc_def preempt_count_dec_def Let_def split: if_splits)

text \<open>\<^verbatim>\<open>list_del\<close> of a node whose pointers lead outside a list leaves the list alone; of one whose pointers both lead to the head,
  it empties it.\<close>

lemma list_del_outside:
  assumes "dlist st h xs" "nxt st t \<notin> insert h (set xs)" "prv st t \<notin> insert h (set xs)" "t \<notin> insert h (set xs)"
  shows "dlist (list_del t st) h xs"
proof -
  have "chain (list_del t st) h xs h = chain st h xs h"
    using assms(2-4) by (intro chain_cong) (auto simp: list_del_def Let_def)
  with assms(1) show ?thesis by (simp add: dlist_def)
qed

lemma list_del_stale:
  assumes "nxt st t = h" "prv st t = h" "t \<noteq> h"
  shows "dlist (list_del t st) h []"
  using assms by (simp add: dlist_def list_del_def Let_def)

text \<open>What \<^verbatim>\<open>finish_wait\<close> does to the daemon: it becomes ready, last among the threads of its priority, or it is running.\<close>

definition readied :: "nat \<Rightarrow> 'a kstate_scheme \<Rightarrow> 'a kstate_scheme \<Rightarrow> bool" where
  "readied d s s' \<longleftrightarrow>
     (if d = running s then threads s' = threads s \<and> links s' = links s
      else threads s' = (threads s)(d := (threads s d)\<lparr>t_status := THREAD_READY\<rparr>)
        \<and> lst (links s') (Ready (t_priority (threads s d))) = filter (\<lambda>u. u \<noteq> d) (lst (links s) (Ready (t_priority (threads s d)))) @ [d]
        \<and> (\<forall>l. l \<noteq> Ready (t_priority (threads s d)) \<longrightarrow> lst (links s') l = filter (\<lambda>u. u \<noteq> d) (lst (links s) l)))"

lemma tasklet_schedule_ok:
  fixes s :: "'a sqstate_scheme"
  assumes "sched_wf s" "acquire_thread (int (get_daemon_id SOFTIRQD s)) s = Some d" "d = running s \<or> lk_linked d (links s)"
  shows "\<exists>s'. tasklet_schedule t s = Some s' \<and> sched_wf s' \<and> tasklet_list s' = tasklet_list s \<and> tasklets s' = tasklets s
    \<and> tasklet_links s' = list_move t (tasklet_list s) (tasklet_links s) \<and> readied d s s'"
proof -
  let ?s = "s\<lparr>tasklet_links := list_move t (tasklet_list s) (tasklet_links s)\<rparr>"
  have wf: "sched_wf ?s" using assms(1) by (subst sched_wf_cong [of _ s]) simp_all
  have "acquire_thread (int (get_daemon_id SOFTIRQD ?s)) ?s = Some d" using assms(2) by (simp add: acquire_thread_def get_daemon_id_def)
  moreover define s' where "s' = preempt_enable (if d = running ?s then preempt_disable ?s else make_ready d (preempt_disable ?s))"
  have f: "finish_wait d ?s = Some s'"
  proof (cases "d = running s")
    case False
    with finish_wait_eq [OF wf, of d] assms(3) show ?thesis by (simp add: s'_def)
  qed (simp add: finish_wait_def crit_def s'_def)
  moreover have "sched_wf s'" using wf assms(3) make_ready_wf [of "preempt_disable ?s" d] by (auto simp: s'_def)
  moreover have "readied d s s'" by (auto simp: readied_def s'_def lst_move)
  ultimately show ?thesis using finish_wait_tasklets [OF f] by (simp add: tasklet_schedule_def)
qed


text \<open>Tasklet 5 waits; tasklet 6 was alone in the list when it was last run.\<close>

definition demo_sq :: sqstate where
  "demo_sq = pkstate.extend (demo_pk\<lparr>daemon_id_table := (\<lambda>_. 1)\<rparr>)
     (sqstate.fields (\<lambda>_. \<lparr>tk_func = 0, tk_data = 0\<rparr>)
        \<lparr>nxt = (\<lambda>_. 0)(100 := 5, 5 := 100, 6 := 100), prv = (\<lambda>_. 0)(100 := 5, 5 := 100, 6 := 100)\<rparr> 100 8)"

lemma demo_sq_sel:
  "threads demo_sq = threads demo_state" "running demo_sq = running demo_state" "links demo_sq = links demo_state"
  "threads_list demo_sq = [0, 1, 2, 3]" "daemon_id_table demo_sq = (\<lambda>_. 1)" "tasklet_list demo_sq = 100"
  "tasklet_links demo_sq = \<lparr>nxt = (\<lambda>_. 0)(100 := 5, 5 := 100, 6 := 100), prv = (\<lambda>_. 0)(100 := 5, 5 := 100, 6 := 100)\<rparr>"
  by (simp_all add: demo_sq_def demo_pk_def demo_fs_def fdstate.defs fsstate.defs pkstate.defs sqstate.defs demo_state_def demo_kstate_def
      demo_fdstate_sel)


end
