(* ===== verification/Stdio.thy ===== *)
theory Stdio
  imports Fileio Printk Heap
begin

text \<open>
  Streams (\<^verbatim>\<open>kernel/fs/wrapper.c\<close>) and formatted output (\<^verbatim>\<open>dprintf\<close>, \<^verbatim>\<open>printf\<close> and \<^verbatim>\<open>fprintf\<close> of \<^verbatim>\<open>kernel/printf.c\<close>) over the
  descriptor calls. A stream is its descriptor. The calls are those of theory \<open>Fdesc\<close> up to their first return; a call that
  waits has no result here (\<^const>\<open>None\<close>). The memory of a stream comes from the user heap, which is a state of its own.
\<close>

section \<open>The calls of a stream\<close>

definition call_read :: "(fops \<Rightarrow> 'a fdstate_scheme file_operations) \<Rightarrow> int \<Rightarrow> u8 list \<Rightarrow> nat \<Rightarrow> 'a fdstate_scheme
    \<Rightarrow> ('a fdstate_scheme \<times> u8 list \<times> int) option" where
  "call_read drv fd buf n s = do {
     (s1, buf1, r) \<leftarrow> sys_read_enter drv fd buf n s;
     v \<leftarrow> r;
     Some (s1, buf1, v)
   }"

definition call_write :: "(fops \<Rightarrow> 'a fdstate_scheme file_operations) \<Rightarrow> int \<Rightarrow> u8 list \<Rightarrow> nat \<Rightarrow> 'a fdstate_scheme
    \<Rightarrow> ('a fdstate_scheme \<times> int) option" where
  "call_write drv fd buf n s = do {
     (s1, r) \<leftarrow> sys_write_enter drv fd buf n s;
     v \<leftarrow> r;
     Some (s1, v)
   }"

definition call_lseek :: "(fops \<Rightarrow> 'a fdstate_scheme file_operations) \<Rightarrow> int \<Rightarrow> int \<Rightarrow> int \<Rightarrow> 'a fdstate_scheme
    \<Rightarrow> ('a fdstate_scheme \<times> int) option" where
  "call_lseek drv fd offset whence s = do {
     (s1, r) \<leftarrow> sys_lseek_enter drv fd offset whence s;
     v \<leftarrow> r;
     Some (s1, v)
   }"

definition MAX_READ_SIZE :: nat where [config]: "MAX_READ_SIZE = 100"
definition MAX_WRITE_SIZE :: nat where [config]: "MAX_WRITE_SIZE = 100"

text \<open>The number of rounds of both loops: the subtraction is unsigned.\<close>

definition rounds :: "u32 \<Rightarrow> nat" where
  "rounds nbytes = unat ((nbytes - 1) div 100 + 1)"

primrec fread_loop :: "nat \<Rightarrow> (fops \<Rightarrow> 'a fdstate_scheme file_operations) \<Rightarrow> int \<Rightarrow> nat \<Rightarrow> nat \<Rightarrow> u8 list \<Rightarrow> 'a fdstate_scheme
    \<Rightarrow> ('a fdstate_scheme \<times> u8 list \<times> nat) option" where
  "fread_loop 0 drv fd nbytes tot dst s = Some (s, dst, tot)"
| "fread_loop (Suc n) drv fd nbytes tot dst s = do {
     let rsize = (if nbytes \<ge> MAX_READ_SIZE then MAX_READ_SIZE else nbytes);
     (s1, d, retval) \<leftarrow> call_read drv fd (drop tot dst) rsize s;
     let dst1 = take tot dst @ d;
     if retval \<noteq> int rsize then Some (s1, dst1, tot + rsize)
     else fread_loop n drv fd (nbytes - rsize) (tot + rsize) dst1 s1
   }"

definition fread :: "(fops \<Rightarrow> 'a fdstate_scheme file_operations) \<Rightarrow> u8 list \<Rightarrow> u32 \<Rightarrow> u32 \<Rightarrow> int \<Rightarrow> 'a fdstate_scheme
    \<Rightarrow> ('a fdstate_scheme \<times> u8 list \<times> nat) option" where
  "fread drv ptr sz nmemb stream s = fread_loop (rounds (sz * nmemb)) drv stream (unat (sz * nmemb)) 0 ptr s"

primrec fwrite_loop :: "nat \<Rightarrow> (fops \<Rightarrow> 'a fdstate_scheme file_operations) \<Rightarrow> int \<Rightarrow> nat \<Rightarrow> nat \<Rightarrow> u8 list \<Rightarrow> 'a fdstate_scheme
    \<Rightarrow> ('a fdstate_scheme \<times> nat) option" where
  "fwrite_loop 0 drv fd nbytes tot src s = Some (s, tot)"
| "fwrite_loop (Suc n) drv fd nbytes tot src s = do {
     let wsize = (if nbytes \<ge> MAX_WRITE_SIZE then MAX_WRITE_SIZE else nbytes);
     (s1, retval) \<leftarrow> call_write drv fd (take wsize (drop tot src)) wsize s;
     if retval \<noteq> int wsize then Some (s1, tot + wsize)
     else fwrite_loop n drv fd (nbytes - wsize) (tot + wsize) src s1
   }"

definition fwrite :: "(fops \<Rightarrow> 'a fdstate_scheme file_operations) \<Rightarrow> u8 list \<Rightarrow> u32 \<Rightarrow> u32 \<Rightarrow> int \<Rightarrow> 'a fdstate_scheme
    \<Rightarrow> ('a fdstate_scheme \<times> nat) option" where
  "fwrite drv ptr sz nmemb stream s = fwrite_loop (rounds (sz * nmemb)) drv stream (unat (sz * nmemb)) 0 ptr s"

definition fseek :: "(fops \<Rightarrow> 'a fdstate_scheme file_operations) \<Rightarrow> int \<Rightarrow> int \<Rightarrow> int \<Rightarrow> 'a fdstate_scheme \<Rightarrow> ('a fdstate_scheme \<times> int) option" where
  "fseek drv stream offset whence s = call_lseek drv stream offset whence s"

definition fileno :: "int \<Rightarrow> int" where
  "fileno stream = stream"

text \<open>\<^verbatim>\<open>fopen\<close> after the call \<^verbatim>\<open>open\<close> has returned \<open>fd\<close>: the stream and the address of its memory.\<close>

definition FILE_STREAM_SIZE :: u32 where [config]: "FILE_STREAM_SIZE = 4"

definition fopen_finish :: "int \<Rightarrow> 'b hstate_scheme \<Rightarrow> 'a fdstate_scheme
    \<Rightarrow> ('b hstate_scheme \<times> 'a fdstate_scheme \<times> (u32 \<times> int) option) option" where
  "fopen_finish fd h s =
     (if fd < 0 then Some (h, s, None)
      else do {
        (h1, p) \<leftarrow> sys_malloc FILE_STREAM_SIZE h;
        case p of
          None \<Rightarrow> map_option (\<lambda>(s1, _). (h1, s1, None)) (sys_close fd s)
        | Some a \<Rightarrow> Some (h1, s, Some (a, fd))
      })"

definition fclose :: "u32 \<times> int \<Rightarrow> 'b hstate_scheme \<Rightarrow> 'a fdstate_scheme \<Rightarrow> ('b hstate_scheme \<times> 'a fdstate_scheme \<times> int) option" where
  "fclose stream h s = do {
     (s1, retval) \<leftarrow> sys_close (snd stream) s;
     h1 \<leftarrow> sys_free (fst stream) h;
     Some (h1, s1, retval)
   }"

section \<open>Formatted output\<close>

definition vdprintf :: "(fops \<Rightarrow> 'a fdstate_scheme file_operations) \<Rightarrow> int \<Rightarrow> string \<Rightarrow> arg list \<Rightarrow> 'a fdstate_scheme
    \<Rightarrow> ('a fdstate_scheme \<times> int) option" where
  "vdprintf drv fd format ap s = do {
     (buf, _) \<leftarrow> lib_vsnprintf PRINT_SIZE_MAX format ap;
     let text = cstr buf;
     call_write drv fd (string_bytes text) (length text) s
   }"

definition STDOUT_FILENO :: int where [config]: "STDOUT_FILENO = 1"

definition vprintf :: "(fops \<Rightarrow> 'a fdstate_scheme file_operations) \<Rightarrow> string \<Rightarrow> arg list \<Rightarrow> 'a fdstate_scheme \<Rightarrow> ('a fdstate_scheme \<times> int) option" where
  "vprintf drv format ap s = vdprintf drv STDOUT_FILENO format ap s"

definition vfprintf :: "(fops \<Rightarrow> 'a fdstate_scheme file_operations) \<Rightarrow> int \<Rightarrow> string \<Rightarrow> arg list \<Rightarrow> 'a fdstate_scheme
    \<Rightarrow> ('a fdstate_scheme \<times> int) option" where
  "vfprintf drv stream format ap s = do {
     (buf, _) \<leftarrow> lib_vsnprintf PRINT_SIZE_MAX format ap;
     let text = cstr buf;
     call_write drv stream (string_bytes text) (length text) s
   }"

section \<open>Streams on regular files\<close>

lemma rounds_eq: "0 < unat nb \<Longrightarrow> rounds nb = (unat nb + 99) div 100"
proof -
  assume nz: "0 < unat nb"
  then have "unat (nb - 1) = unat nb - 1" by (simp add: unat_minus_one unat_gt_0)
  moreover have "unat ((nb - 1) div 100) + 1 < 2 ^ 32" using unsigned_less [of nb, where 'a = nat] calculation by (simp add: unat_div)
  ultimately have "rounds nb = (unat nb - 1) div 100 + 1" by (simp add: rounds_def unat_div unat_add_lem [THEN iffD1])
  also have "\<dots> = (unat nb - 1 + 100) div 100" by simp
  finally show ?thesis using nz by (simp add: algebra_simps)
qed

text \<open>A call for no bytes makes nearly 43 million rounds.\<close>

lemma rounds_zero: "rounds 0 = 42949673"
  by (simp add: rounds_def)

text \<open>The number of bytes that \<^verbatim>\<open>fread\<close> returns does not depend on what \<^verbatim>\<open>read\<close> returned in the last round.\<close>

lemma fread_counts_failures:
  "call_read drv fd (drop tot dst) (min nbytes MAX_READ_SIZE) s = Some (s1, d, e) \<Longrightarrow> e < 0 \<Longrightarrow>
   fread_loop (Suc n) drv fd nbytes tot dst s = Some (s1, take tot dst @ d, tot + min nbytes MAX_READ_SIZE)"
  by (auto simp: Let_def min_def)

lemma rounds_step: "0 < nb \<Longrightarrow> (nb + 99) div 100 = Suc ((nb - min nb 100 + 99) div 100)"
proof (cases "nb \<le> 100")
  case True
  moreover assume "0 < nb"
  ultimately have "(nb + 99) div 100 = 1" by (intro div_nat_eqI) auto
  then show ?thesis using True by simp
next
  case False
  then have "nb + 99 = (nb - 100 + 99) + 100" by simp
  then have "(nb + 99) div 100 = (nb - 100 + 99) div 100 + 1" by (metis div_add_self2 zero_neq_numeral)
  then show ?thesis using False by simp
qed

lemma fwrite_loop_ok:
  fixes s :: "'a fsstate_scheme"
  assumes "on_file k h i s" "store_ok s" "file_ok s i cs" "reg_pos s h = int p" "p \<le> 120 * length cs"
    and "tot \<le> length src" "length src - tot \<le> room s cs p" "n = (length src - tot + 99) div 100"
  shows "\<exists>s' ds. fwrite_loop n (fs_drv rd rom drv) (int (k + FILE_RESERVED_NUM)) (length src - tot) tot src s = Some (s', length src)
    \<and> on_file k h i s' \<and> store_ok s' \<and> file_ok s' i (cs @ ds) \<and> p + (length src - tot) \<le> 120 * length (cs @ ds)
    \<and> fbytes s' (cs @ ds) p (length src - tot) = drop tot src \<and> (\<forall>j < p. fbyte s' (cs @ ds) j = fbyte s cs j)
    \<and> i_size (inodes s' i) = i_size (inodes s i) + word_of_nat (length src - tot)"
  using assms
proof (induction n arbitrary: s cs p tot)
  case 0
  then have "length src = tot" by simp
  with 0 show ?case by (intro exI [of _ s] exI [of _ "[]"]) (simp add: fbytes_def)
next
  case (Suc n)
  let ?nb = "length src - tot"
  let ?w = "min ?nb 100"
  let ?buf = "take ?w (drop tot src)"
  have lb: "length ?buf = ?w" by simp
  have nb: "0 < ?nb" using Suc.prems(8) by (cases "?nb = 0") auto
  have w: "?w = min (length ?buf) (room s cs p)" using Suc.prems(7) by simp
  obtain s1 ds where s1: "sys_write_enter (fs_drv rd rom drv) (int (k + FILE_RESERVED_NUM)) ?buf (length ?buf) s = Some (s1, Some (int ?w))"
      "on_file k h i s1" "store_ok s1" "file_ok s1 i (cs @ ds)" "i_size (inodes s1 i) = i_size (inodes s i) + word_of_nat (length ?buf)"
      "p + ?w \<le> 120 * length (cs @ ds)" "fbytes s1 (cs @ ds) p ?w = take ?w ?buf"
      "reg_pos s1 h = int (p + ?w)" "\<forall>k < p. fbyte s1 (cs @ ds) k = fbyte s cs k" "free_blks s = length ds + free_blks s1"
    by (rule sys_write_file [OF Suc.prems(1-5) w])
  have r: "room s1 (cs @ ds) (p + ?w) = room s cs p - ?w" using s1(10) by (simp add: room_def algebra_simps)
  have nx: "length src - (tot + ?w) = ?nb - ?w" by simp
  have wn: "?w + (?nb - ?w) = ?nb" by (rule le_add_diff_inverse) simp
  have n': "n = (?nb - ?w + 99) div 100" using rounds_step [OF nb] Suc.prems(8) by (metis Suc_inject)
  have c: "tot + ?w \<le> length src" "length src - (tot + ?w) \<le> room s1 (cs @ ds) (p + ?w)" "n = (length src - (tot + ?w) + 99) div 100"
  proof -
    show "tot + ?w \<le> length src" using Suc.prems(6) min.cobounded1 [of ?nb 100] by linarith
    show "length src - (tot + ?w) \<le> room s1 (cs @ ds) (p + ?w)" unfolding nx r by (rule diff_le_mono [OF Suc.prems(7)])
    show "n = (length src - (tot + ?w) + 99) div 100" unfolding nx by (rule n')
  qed
  from Suc.IH [OF s1(2-4,8,6) c] obtain s2 es where s2: "fwrite_loop n (fs_drv rd rom drv) (int (k + FILE_RESERVED_NUM)) (?nb - ?w) (tot + ?w) src s1 = Some (s2, length src)"
      "on_file k h i s2" "store_ok s2" "file_ok s2 i ((cs @ ds) @ es)" "p + ?w + (?nb - ?w) \<le> 120 * length ((cs @ ds) @ es)"
      "fbytes s2 ((cs @ ds) @ es) (p + ?w) (?nb - ?w) = drop (tot + ?w) src" "\<forall>j < p + ?w. fbyte s2 ((cs @ ds) @ es) j = fbyte s1 (cs @ ds) j"
      "i_size (inodes s2 i) = i_size (inodes s1 i) + word_of_nat (?nb - ?w)" unfolding nx by blast
  have e: "(if ?nb \<ge> MAX_WRITE_SIZE then MAX_WRITE_SIZE else ?nb) = ?w" by (simp add: config)
  have "fwrite_loop (Suc n) (fs_drv rd rom drv) (int (k + FILE_RESERVED_NUM)) ?nb tot src s = Some (s2, length src)"
    using s1(1) s2(1) by (simp only: fwrite_loop.simps Let_def e call_write_def lb) simp
  moreover have "fbytes s2 (cs @ ds @ es) p ?nb = drop tot src"
  proof -
    have "fbytes s2 ((cs @ ds) @ es) p ?w = fbytes s1 (cs @ ds) p ?w" unfolding fbytes_def using s2(7) by (intro map_cong) auto
    then have "fbytes s2 ((cs @ ds) @ es) p (?w + (?nb - ?w)) = take ?w (drop tot src) @ drop (tot + ?w) src"
      unfolding fbytes_append [symmetric] using s1(7) s2(6) by simp
    also have "\<dots> = drop tot src" by (metis append_take_drop_id drop_drop add.commute)
    finally show ?thesis unfolding wn by simp
  qed
  moreover have "i_size (inodes s2 i) = i_size (inodes s i) + word_of_nat ?nb"
    unfolding s2(8) s1(5) lb add.assoc of_nat_add [symmetric] wn by (rule refl)
  ultimately show ?case using s2(2-5,7) s1(9) by (intro exI [of _ s2] exI [of _ "ds @ es"]) auto
qed

lemma fread_loop_ok:
  fixes s :: "'a fsstate_scheme"
  assumes "on_file k h i s" "store_ok s" "file_ok s i cs" "reg_pos s h = int q" "q + nb \<le> 120 * length cs"
    and "tot \<le> length dst" "n = (nb + 99) div 100"
  shows "\<exists>s'. fread_loop n (fs_drv rd rom drv) (int (k + FILE_RESERVED_NUM)) nb tot dst s
    = Some (s', take tot dst @ fbytes s cs q nb @ drop (tot + nb) dst, tot + nb)"
  using assms
proof (induction n arbitrary: s q nb tot dst)
  case 0
  then have "nb = 0" by simp
  with 0 show ?case by (simp add: fbytes_def)
next
  case (Suc n)
  let ?w = "min nb 100"
  have nb: "0 < nb" using Suc.prems(7) by (cases "nb = 0") auto
  have n': "n = (nb - ?w + 99) div 100" using rounds_step [OF nb] Suc.prems(7) by simp
  have q: "q + ?w \<le> 120 * length cs" "q + ?w + (nb - ?w) \<le> 120 * length cs" using Suc.prems(5) by auto
  obtain s1 where s1: "sys_read_enter (fs_drv rd rom drv) (int (k + FILE_RESERVED_NUM)) (drop tot dst) ?w s
      = Some (s1, fbytes s cs q ?w @ drop ?w (drop tot dst), Some (int ?w))" "reg_pos s1 h = int (q + ?w)"
      "on_file k h i s1" "store_ok s1" "file_ok s1 i cs" "fbytes s1 = fbytes s"
    by (rule sys_read_file [OF Suc.prems(1-4) q(1)])
  let ?d = "take tot dst @ fbytes s cs q ?w @ drop ?w (drop tot dst)"
  have l: "length (fbytes s cs q ?w) = ?w" "tot + ?w \<le> length ?d" using Suc.prems(6) by (simp_all add: fbytes_def)
  obtain s2 where s2: "fread_loop n (fs_drv rd rom drv) (int (k + FILE_RESERVED_NUM)) (nb - ?w) (tot + ?w) ?d s1
      = Some (s2, take (tot + ?w) ?d @ fbytes s1 cs (q + ?w) (nb - ?w) @ drop (tot + ?w + (nb - ?w)) ?d, tot + ?w + (nb - ?w))"
    using Suc.IH [OF s1(3-5,2) q(2) l(2) n'] by blast
  have td: "length (take tot dst) = tot" using Suc.prems(6) by simp
  have t: "take (tot + ?w) ?d = take tot dst @ fbytes s cs q ?w" using td l(1) by simp
  have d: "drop (tot + ?w + (nb - ?w)) ?d = drop (tot + nb) dst"
    using td l(1) by (simp add: add.commute add.left_commute)
  have "take (tot + ?w) ?d @ fbytes s1 cs (q + ?w) (nb - ?w) @ drop (tot + ?w + (nb - ?w)) ?d
      = take tot dst @ fbytes s cs q nb @ drop (tot + nb) dst"
    unfolding t d s1(6) using fbytes_append [of s cs q ?w "nb - ?w"] by simp
  moreover have e: "(if nb \<ge> MAX_READ_SIZE then MAX_READ_SIZE else nb) = ?w" by (simp add: config)
  ultimately have "fread_loop (Suc n) (fs_drv rd rom drv) (int (k + FILE_RESERVED_NUM)) nb tot dst s
      = Some (s2, take tot dst @ fbytes s cs q nb @ drop (tot + nb) dst, tot + nb)"
    using s1(1) s2 by (simp only: fread_loop.simps Let_def e call_read_def) simp
  then show ?case by blast
qed

text \<open>
  C35. What a program writes to a new file with \<^verbatim>\<open>fwrite\<close> it reads back with \<^verbatim>\<open>fread\<close>: for an empty file at position 0 and
  data that fit the free blocks, however many calls of at most 100 bytes the loops make, \<^verbatim>\<open>fwrite\<close> returns the number of
  bytes, \<^verbatim>\<open>fseek\<close> goes back to the start, and \<^verbatim>\<open>fread\<close> returns the same number and stores the same bytes.
\<close>

theorem stream_roundtrip:
  fixes s :: "'a fsstate_scheme"
  assumes "on_file k h i s" "store_ok s" "file_ok s i []" "i_size (inodes s i) = 0" "reg_pos s h = 0"
    and buf: "buf \<noteq> []" "length buf \<le> 120 * free_blks s" "unat (sz * nmemb) = length buf"
  shows "\<exists>s1 s2 s3. fwrite (fs_drv rd rom drv) buf sz nmemb (int (k + FILE_RESERVED_NUM)) s = Some (s1, length buf)
    \<and> fseek (fs_drv rd rom drv) (int (k + FILE_RESERVED_NUM)) 0 SEEK_SET s1 = Some (s2, 0)
    \<and> fread (fs_drv rd rom drv) dst sz nmemb (int (k + FILE_RESERVED_NUM)) s2 = Some (s3, buf @ drop (length buf) dst, length buf)"
proof -
  have r: "rounds (sz * nmemb) = (length buf + 99) div 100" using rounds_eq [of "sz * nmemb"] buf(1,3) by simp
  have p: "reg_pos s h = int 0" "(0 :: nat) \<le> 120 * length ([] :: u32 list)" "(0 :: nat) \<le> length buf" "length buf - 0 \<le> room s [] 0"
      "rounds (sz * nmemb) = (length buf - 0 + 99) div 100" using assms(5) buf(2) r by (simp_all add: room_def)
  from fwrite_loop_ok [OF assms(1-3) p, of rd rom drv] obtain s1 ds where
    s1: "fwrite_loop (rounds (sz * nmemb)) (fs_drv rd rom drv) (int (k + FILE_RESERVED_NUM)) (length buf) 0 buf s = Some (s1, length buf)"
      "on_file k h i s1" "store_ok s1" "file_ok s1 i ds" "length buf \<le> 120 * length ds" "fbytes s1 ds 0 (length buf) = buf"
      "i_size (inodes s1 i) = word_of_nat (length buf)" using assms(4) by auto
  have "unat (word_of_nat (length buf) :: u32) = length buf" unfolding buf(3) [symmetric] by simp
  then have nz: "i_size (inodes s1 i) \<noteq> 0" unfolding s1(7) using buf(1) by (metis length_0_conv unat_0)
  obtain s2 where s2: "sys_lseek_enter (fs_drv rd rom drv) (int (k + FILE_RESERVED_NUM)) 0 SEEK_SET s1 = Some (s2, Some 0)"
      "on_file k h i s2" "store_ok s2" "file_ok s2 i ds" "reg_pos s2 h = 0" "fbytes s2 = fbytes s1"
    by (rule sys_lseek_start [OF s1(2-4) nz])
  have q: "reg_pos s2 h = int 0" "0 + length buf \<le> 120 * length ds" "(0 :: nat) \<le> length dst" using s2(5) s1(5) by simp_all
  from fread_loop_ok [OF s2(2-4) q r, of rd rom drv] obtain s3 where
    "fread_loop (rounds (sz * nmemb)) (fs_drv rd rom drv) (int (k + FILE_RESERVED_NUM)) (length buf) 0 dst s2
      = Some (s3, buf @ drop (length buf) dst, length buf)" using s1(6) s2(6) by auto
  with s1(1) s2(1) show ?thesis by (auto simp: fwrite_def fseek_def fread_def buf(3) call_lseek_def)
qed

theorem stream_roundtrip_witness:
  "let s = demo_reg\<lparr>fdtable := (\<lambda>_. \<lparr>fdt_flags = 0, fdt_file = Some 68\<rparr>)\<rparr>; D = fs_drv (\<lambda>_ _ _. None) [] (\<lambda>_. null_dev_ops) in
   \<exists>s1 s2 s3. fwrite D (replicate 250 7) 1 250 67 s = Some (s1, 250) \<and> fseek D 67 0 SEEK_SET s1 = Some (s2, 0)
     \<and> fread D [] 1 250 67 s2 = Some (s3, replicate 250 7, 250)"
proof -
  let ?s = "demo_reg\<lparr>fdtable := (\<lambda>_. \<lparr>fdt_flags = 0, fdt_file = Some 68\<rparr>)\<rparr>" and ?b = "replicate 250 (7 :: u8)"
  have l: "length ?b = 250" by simp
  have "unat (1 * 250 :: u32) = length ?b" "?b \<noteq> []" "length ?b \<le> 120 * free_blks ?s" using demo_on_file by simp_all
  from stream_roundtrip [OF demo_on_file(1-5) this(2,3,1), of "\<lambda>_ _ _. None" "[]" "\<lambda>_. null_dev_ops" "[]"]
  show ?thesis unfolding l by (simp add: Let_def config)
qed

end
