(* ===== verification/Boot.thy ===== *)
theory Boot
  imports Softirq Stdio
begin

text \<open>
  The start of the kernel and its loop (\<^verbatim>\<open>sched_start\<close> of \<^verbatim>\<open>kernel/kernel.c\<close>), which puts the components together: the
  allocators, the message buffers, the root file system, the ready lists and the four kernel threads. The functions of the
  threads and the places that the linker gives to the page area, the user heap and the blocks of the file system are
  arguments or fields of the state. \<^verbatim>\<open>__platform_init\<close>, which sets up the hardware, is not modelled.
\<close>

section \<open>Start\<close>

definition IDLE_STACK_SIZE :: u32 where [config]: "IDLE_STACK_SIZE = 1024"
definition SOFTIRQD_STACK_SIZE :: u32 where [config]: "SOFTIRQD_STACK_SIZE = 2048"
definition FILESYSD_STACK_SIZE :: u32 where [config]: "FILESYSD_STACK_SIZE = 2048"
definition PRINTKD_STACK_SIZE :: u32 where [config]: "PRINTKD_STACK_SIZE = 1024"

primrec ready_init :: "nat \<Rightarrow> 'a kstate_scheme \<Rightarrow> 'a kstate_scheme option" where
  "ready_init 0 s = Some s"
| "ready_init (Suc n) s = ready_init n s \<bind> head_init (Ready n)"

record kthread_funcs =
  fn_idle :: u32
  fn_softirqd :: u32
  fn_filesysd :: u32
  fn_printkd :: u32

definition create_kthreads :: "kthread_funcs \<Rightarrow> 'a pstate_scheme \<Rightarrow> 'a pstate_scheme option" where
  "create_kthreads fn s = do {
     (s1, _) \<leftarrow> kthread_create (fn_idle fn) 0 IDLE_STACK_SIZE s;
     (s2, _) \<leftarrow> kthread_create (fn_softirqd fn) (word_of_nat KTHREAD_PRI_MAX) SOFTIRQD_STACK_SIZE s1;
     (s3, _) \<leftarrow> kthread_create (fn_filesysd fn) (word_of_nat (KTHREAD_PRI_MAX - 1)) FILESYSD_STACK_SIZE s2;
     (s4, _) \<leftarrow> kthread_create (fn_printkd fn) (word_of_nat (KTHREAD_PRI_MAX - 1)) PRINTKD_STACK_SIZE s3;
     Some s4
   }"

definition sched_start ::
  "kthread_funcs \<Rightarrow> u32 \<Rightarrow> u32 \<Rightarrow> 'b hstate_scheme \<Rightarrow> 'a pkstate_scheme \<Rightarrow> ('b hstate_scheme \<times> 'a pkstate_scheme) option" where
  "sched_start fn user_stack_start user_stack_end h s = do {
     s1 \<leftarrow> slab_init s;
     h1 \<leftarrow> heap_init user_stack_start user_stack_end h;
     s2 \<leftarrow> rootfs_init (printkd_init s1);
     s3 \<leftarrow> ready_init (KTHREAD_PRI_MAX + 1) s2;
     s4 \<leftarrow> create_kthreads fn s3;
     s5 \<leftarrow> node_del 0 (set_status 0 THREAD_RUNNING (s4\<lparr>running := 0\<rparr>));
     Some (h1, s5)
   }"

section \<open>The kernel loop\<close>

text \<open>One round, up to the jump to the selected thread; \<^const>\<open>Inl\<close> is a panic.\<close>

definition reset_syscall_flag :: "'a kstate_scheme \<Rightarrow> 'a kstate_scheme" where
  "reset_syscall_flag s = s\<lparr>syscall_flag := False\<rparr>"

definition set_syscall_flag :: "'a kstate_scheme \<Rightarrow> 'a kstate_scheme" where
  "set_syscall_flag s = s\<lparr>syscall_flag := True\<rparr>"

definition kernel_round ::
  "(nat \<Rightarrow> u32) \<Rightarrow> thread_once \<Rightarrow> 'a kstate_scheme \<Rightarrow> (unit + 'a kstate_scheme \<times> thread_once) option" where
  "kernel_round handler_func once s = do {
     r \<leftarrow> (if syscall_flag s then syscall_handler handler_func once (reset_syscall_flag s) else Some (Inr (s, once)));
     case r of
       Inl u \<Rightarrow> Some (Inl u)
     | Inr (s1, once1) \<Rightarrow> do {
         s2 \<leftarrow> (if need_resched_flag s1 then k_schedule (reset_need_resched s1) else Some s1);
         Some (if check_thread_stack s2 then Inr (s2, once1) else Inl ())
       }
   }"

section \<open>Memory for the start\<close>

text \<open>A request for a page of an order is met as long as fewer units are in use than there are pages of the order.\<close>

definition busy :: "page_bitmap \<Rightarrow> nat set" where
  "busy pb = {..<256} - free_units (fam pb)"

lemma page_block_below: "od \<le> 5 \<Longrightarrow> i < 2 ^ (8 - od) \<Longrightarrow> page_block od i \<subseteq> {..<256}"
proof
  fix u assume od: "od \<le> 5" and i: "i < 2 ^ (8 - od)" and "u \<in> page_block od i"
  then have "u < Suc i * 2 ^ od" by (simp add: page_block_atLeast)
  also have "\<dots> \<le> 2 ^ (8 - od) * 2 ^ od" using i by (intro mult_le_mono1) simp
  also have "\<dots> = 256" using od by (simp add: power_add [symmetric])
  finally show "u \<in> {..<256}" by simp
qed

lemma alloc_pages_avail:
  assumes wf: "page_wf pb" and od: "od \<le> 5" and few: "card (busy pb) < 2 ^ (8 - od)"
  shows "\<exists>pb' a. alloc_pages st pb od = Some (pb', Some a) \<and> page_wf pb' \<and> card (busy pb') \<le> card (busy pb) + 2 ^ od
    \<and> free_units (fam pb') \<subseteq> free_units (fam pb)"
proof -
  have fin: "finite (busy pb)" by (simp add: busy_def)
  have "\<exists>i. page_block od i \<subseteq> free_units (fam pb)"
  proof (rule ccontr)
    assume n: "\<nexists>i. page_block od i \<subseteq> free_units (fam pb)"
    have "{..<2 ^ (8 - od)} \<subseteq> (\<lambda>u. u div 2 ^ od) ` busy pb"
    proof
      fix i assume i: "i \<in> {..<2 ^ (8 - od) :: nat}"
      obtain u where "u \<in> page_block od i" "u \<notin> free_units (fam pb)" using n by blast
      then show "i \<in> (\<lambda>u. u div 2 ^ od) ` busy pb" using page_block_below [OF od, of i] i by (auto simp: busy_def page_block_def)
    qed
    from card_mono [OF finite_imageI [OF fin] this] card_image_le [OF fin, of "\<lambda>u. u div 2 ^ od"] few show False by simp
  qed
  with alloc_pages_cases [OF wf, of od st] od obtain pb' i where
    a: "alloc_pages st pb od = Some (pb', Some (page_idx_to_addr st i od))" "page_wf pb'" "free_units (fam pb') = free_units (fam pb) - page_block od i"
    by auto
  have "busy pb' \<subseteq> busy pb \<union> page_block od i" using a(3) by (auto simp: busy_def)
  moreover have "finite (page_block od i)" "card (page_block od i) = 2 ^ od" by (simp_all add: page_block_atLeast)
  ultimately have "card (busy pb') \<le> card (busy pb) + 2 ^ od"
    using card_mono [of "busy pb \<union> page_block od i" "busy pb'"] card_Un_le [of "busy pb" "page_block od i"] fin by auto
  with a show ?thesis by blast
qed

section \<open>The caches\<close>

text \<open>An allocation changes the pages and the slabs of its cache only, and takes at most one page.\<close>

definition slab_step :: "cache_id \<Rightarrow> 'a sstate_scheme \<Rightarrow> 'a sstate_scheme \<Rightarrow> bool" where
  "slab_step c s s' \<longleftrightarrow> s' = s\<lparr>pages := pages s', slabs := slabs s', slab_links := slab_links s'\<rparr>
     \<and> (\<forall>d k. d \<noteq> c \<longrightarrow> lst (slab_links s') (d, k) = lst (slab_links s) (d, k))
     \<and> (pages s' = pages s \<or> (\<exists>cache a. kcaches s c = Some cache
          \<and> alloc_pages (page_start s) (pages s) (c_page_order cache) = Some (pages s', Some a)))"

lemma slab_step_refl: "slab_step c s s"
  by (simp add: slab_step_def)

lemma slab_step_after:
  assumes "slab_step c s s1" "s2 = s1\<lparr>slabs := sl, slab_links := L\<rparr>" "\<And>d k. d \<noteq> c \<Longrightarrow> lst L (d, k) = lst (slab_links s1) (d, k)"
  shows "slab_step c s s2"
proof -
  obtain P S K where "s1 = s\<lparr>pages := P, slabs := S, slab_links := K\<rparr>" using assms(1) unfolding slab_step_def by blast
  then have "s2 = s\<lparr>pages := pages s2, slabs := slabs s2, slab_links := slab_links s2\<rparr>" by (simp add: assms(2))
  then show ?thesis using assms unfolding slab_step_def by simp
qed

lemma slab_move_step:
  assumes "slab_move a c k s1 = Some s2" "a \<in> set (lst (slab_links s1) (c, l))" "lk_wf (slab_links s1)" "slab_step c s s1"
  shows "slab_step c s s2"
proof (rule slab_step_after [OF assms(4)])
  show "s2 = s1\<lparr>slabs := slabs s1, slab_links := lk_move a (c, k) (slab_links s1)\<rparr>"
    using assms(1) by (auto simp: slab_move_def split: if_splits)
  fix d k' assume "d \<noteq> c"
  then have "a \<notin> set (lst (slab_links s1) (d, k'))" using lk_wf_head [OF assms(3,2)] by blast
  then show "lst (lk_move a (c, k) (slab_links s1)) (d, k') = lst (slab_links s1) (d, k')"
    using \<open>d \<noteq> c\<close> by (simp add: lk_move_new)
qed

lemma kmem_cache_grow_step:
  assumes "kmem_cache_grow c s = Some (s', Some a)"
  shows "slab_step c s s'" "a \<in> set (lst (slab_links s') (c, Slabs_free))"
  using assms by (auto simp: kmem_cache_grow_def slab_step_def bind_eq_Some_iff split: option.splits if_splits)

lemma kmem_cache_pick_step:
  assumes inv: "slab_inv s" and c: "kcaches s c = Some cache" and p: "kmem_cache_pick c s = Some (s', Some a)"
  shows "slab_step c s s'" "a \<in> set (lst (slab_links s') (c, Slabs_partial))" "lk_wf (slab_links s')"
proof -
  from kmem_cache_pick_spec [OF inv c] p show "a \<in> set (lst (slab_links s') (c, Slabs_partial))" "lk_wf (slab_links s')"
    by (auto simp: slab_inv_def)
  show "slab_step c s s'"
  proof (cases "lst (slab_links s) (c, Slabs_partial)")
    case Nil
    show ?thesis
    proof (cases "lst (slab_links s) (c, Slabs_free)")
      case free: (Cons x xs)
      with Nil p have m: "slab_move x c Slabs_partial s = Some s'" by (auto simp: kmem_cache_pick_def)
      show ?thesis by (rule slab_move_step [OF m, of Slabs_free]) (use free inv in \<open>auto simp: slab_inv_def slab_step_refl\<close>)
    next
      case free: Nil
      with Nil p obtain s1 where g: "kmem_cache_grow c s = Some (s1, Some a)" "slab_move a c Slabs_partial s1 = Some s'"
        by (auto simp: kmem_cache_pick_def bind_eq_Some_iff split: option.splits)
      have "lk_wf (slab_links s1)" using kmem_cache_grow_spec [OF inv c] g(1) by (auto simp: slab_inv_def)
      with slab_move_step [OF g(2) kmem_cache_grow_step(2) [OF g(1)] _ kmem_cache_grow_step(1) [OF g(1)]] show ?thesis by blast
    qed
  qed (use p in \<open>auto simp: kmem_cache_pick_def slab_step_refl\<close>)
qed

lemma kmem_cache_take_step:
  assumes t: "kmem_cache_take c a s1 = Some (s', x)" and a: "a \<in> set (lst (slab_links s1) (c, k))" and wf: "lk_wf (slab_links s1)" and st: "slab_step c s s1"
  shows "slab_step c s s'"
proof -
  obtain h' where h: "s' = s1\<lparr>slabs := (slabs s1)(a := Some h')\<rparr> \<or> slab_move a c Slabs_full (s1\<lparr>slabs := (slabs s1)(a := Some h')\<rparr>) = Some s'"
    using t by (auto simp: kmem_cache_take_def bind_eq_Some_iff Let_def split: if_splits)
  let ?s2 = "s1\<lparr>slabs := (slabs s1)(a := Some h')\<rparr>"
  have "slab_step c s ?s2" by (rule slab_step_after [OF st, where sl = "(slabs s1)(a := Some h')" and L = "slab_links s1"]) simp_all
  with h a wf show ?thesis using slab_move_step [of a c Slabs_full ?s2 s' k s] by auto
qed

text \<open>While few units are in use an allocation from a cache succeeds.\<close>

lemma kmem_cache_alloc_avail:
  fixes s :: "'a sstate_scheme"
  assumes inv: "slab_inv s" and c: "kcaches s c = Some cache" and wf: "page_wf (pages s)"
    and few: "card (busy (pages s)) < 2 ^ (8 - c_page_order cache)"
  shows "\<exists>s' a. kmem_cache_alloc c s = Some (s', Some a) \<and> slab_inv s' \<and> slab_step c s s' \<and> page_wf (pages s')
    \<and> card (busy (pages s')) \<le> card (busy (pages s)) + 2 ^ c_page_order cache \<and> free_units (fam (pages s')) \<subseteq> free_units (fam (pages s))"
proof -
  have co: "c_page_order cache \<le> 5" using inv c unfolding slab_inv_def cache_ok_def by blast
  note av = alloc_pages_avail [OF wf co few, of "page_start s"]
  have "\<not> cache_full c s" using av c by (auto simp: cache_full_def)
  with kmem_cache_alloc_spec [OF inv c] obtain s' x where r: "kmem_cache_alloc c s = Some (s', Some x)" "slab_inv s'" by blast
  then obtain s1 a where p: "kmem_cache_pick c s = Some (s1, Some a)" "kmem_cache_take c a s1 = Some (s', x)"
    by (auto simp: kmem_cache_alloc_def bind_eq_Some_iff split: option.splits)
  have st: "slab_step c s s'"
    using kmem_cache_take_step [OF p(2)] kmem_cache_pick_step [OF inv c p(1)] by blast
  then have "pages s' = pages s \<or> (\<exists>a. alloc_pages (page_start s) (pages s) (c_page_order cache) = Some (pages s', Some a))"
    using c by (auto simp: slab_step_def)
  then show ?thesis using r st av wf by auto
qed

section \<open>The kernel caches\<close>

text \<open>The state in which caches are created: only the cache of caches has slabs, and \<open>n\<close> units of memory at most are in use.\<close>

definition caches_fresh :: "nat \<Rightarrow> 'a sstate_scheme \<Rightarrow> bool" where
  "caches_fresh n s \<longleftrightarrow> slab_inv s \<and> page_wf (pages s) \<and> card (busy (pages s)) \<le> n \<and> kcaches s Cache_Caches = Some cache_caches
     \<and> (\<forall>a k. lst (slab_links s) (Cache_At a, k) = [])"

text \<open>What the start of the allocators leaves alone.\<close>

definition only_slabs :: "'a sstate_scheme \<Rightarrow> 'a sstate_scheme \<Rightarrow> bool" where
  "only_slabs s s' \<longleftrightarrow> s' = s\<lparr>pages := pages s', slabs := slabs s', slab_links := slab_links s', kcaches := kcaches s',
     caches_list := caches_list s', kmalloc_caches := kmalloc_caches s'\<rparr>"

lemma only_slabsI: "s' = s\<lparr>pages := P, slabs := S, slab_links := L, kcaches := K, caches_list := C, kmalloc_caches := M\<rparr> \<Longrightarrow> only_slabs s s'"
  by (simp add: only_slabs_def)

lemma only_slabsE:
  assumes "only_slabs s s'"
  obtains P S L K C M where "s' = s\<lparr>pages := P, slabs := S, slab_links := L, kcaches := K, caches_list := C, kmalloc_caches := M\<rparr>"
  using assms unfolding only_slabs_def by blast

lemma only_slabs_refl: "only_slabs s s"
  by (simp add: only_slabs_def)

lemma only_slabs_trans: "only_slabs s s1 \<Longrightarrow> only_slabs s1 s2 \<Longrightarrow> only_slabs s s2"
  by (elim only_slabsE) (simp add: only_slabs_def)

lemma slab_step_only: "slab_step c s s' \<Longrightarrow> only_slabs s s'"
proof -
  assume "slab_step c s s'"
  then obtain P S L where "s' = s\<lparr>pages := P, slabs := S, slab_links := L\<rparr>" unfolding slab_step_def by blast
  then have "s' = s\<lparr>pages := P, slabs := S, slab_links := L, kcaches := kcaches s, caches_list := caches_list s, kmalloc_caches := kmalloc_caches s\<rparr>" by simp
  then show ?thesis by (rule only_slabsI)
qed

lemma slab_step_kcaches: "slab_step c s s' \<Longrightarrow> kcaches s' = kcaches s"
proof -
  assume "slab_step c s s'"
  then obtain P S L where "s' = s\<lparr>pages := P, slabs := S, slab_links := L\<rparr>" unfolding slab_step_def by blast
  then show ?thesis by simp
qed

lemma slab_inv_cong:
  assumes "page_start s' = page_start s" "pages s' = pages s" "slabs s' = slabs s" "slab_links s' = slab_links s" "kcaches s' = kcaches s"
  shows "slab_inv s' = slab_inv s"
  unfolding slab_inv_def assms by (rule refl)

lemma slab_inv_new_cache:
  assumes inv: "slab_inv s" and ok: "cache_ok cache" and none: "\<forall>k. lst (slab_links s) (d, k) = []"
  shows "slab_inv (s\<lparr>kcaches := (kcaches s)(d := Some cache), caches_list := C\<rparr>)"
proof -
  have "((kcaches s)(d := Some cache)) c = kcaches s c" if "a \<in> set (lst (slab_links s) (c, k))" for a c k
    using that none by (cases "c = d") auto
  then show ?thesis using inv ok unfolding slab_inv_def by simp
qed

lemma kmem_cache_create_fresh:
  fixes s :: "'a sstate_scheme"
  assumes f: "caches_fresh n s" "n < 256" and sz: "0 \<le> size_to_page_order sz" "order = cache_order sz (nat (size_to_page_order sz))" "order \<le> 5"
    and ok: "cache_ok \<lparr>c_objsize = sz, c_objnum = nat (OBJS_PER_SLAB (page_order_to_size order) sz), c_page_order = order,
                     c_name = take (CACHE_NAME_LEN - 1) name\<rparr>"
  shows "\<exists>s' a. kmem_cache_create name sz s = Some (s', Some (Cache_At a)) \<and> caches_fresh (n + 1) s' \<and> only_slabs s s'
    \<and> (\<exists>cache. kcaches s' (Cache_At a) = Some cache \<and> c_page_order cache = order)"
proof -
  have c: "kcaches s Cache_Caches = Some cache_caches" "c_page_order cache_caches = 0" using f(1) by (simp_all add: caches_fresh_def cache_caches_def)
  have "slab_inv s" "page_wf (pages s)" "card (busy (pages s)) < 2 ^ (8 - c_page_order cache_caches)" using f c(2) by (auto simp: caches_fresh_def)
  from kmem_cache_alloc_avail [OF this(1) c(1) this(2,3)] c(2) obtain s1 a where
    s1: "kmem_cache_alloc Cache_Caches s = Some (s1, Some a)" "slab_inv s1" "slab_step Cache_Caches s s1" "page_wf (pages s1)"
      "card (busy (pages s1)) \<le> card (busy (pages s)) + 1" by auto
  let ?c = "\<lparr>c_objsize = sz, c_objnum = nat (OBJS_PER_SLAB (page_order_to_size order) sz), c_page_order = order,
                     c_name = take (CACHE_NAME_LEN - 1) name\<rparr>"
  let ?s = "s1\<lparr>kcaches := (kcaches s1)(Cache_At a := Some ?c), caches_list := caches_list s1 @ [Cache_At a]\<rparr>"
  have k: "kcaches s1 = kcaches s" by (rule slab_step_kcaches [OF s1(3)])
  have none: "\<forall>x k. lst (slab_links s1) (Cache_At x, k) = []" using f(1) s1(3) by (auto simp: caches_fresh_def slab_step_def)
  have "slab_inv ?s" by (rule slab_inv_new_cache [OF s1(2) ok]) (use none in blast)
  then have "caches_fresh (n + 1) ?s" using f(1) s1(4,5) none k by (simp add: caches_fresh_def)
  moreover have "only_slabs s1 ?s" by (rule only_slabsI [where P = "pages s1" and S = "slabs s1" and L = "slab_links s1" and M = "kmalloc_caches s1"]) simp
  moreover have "kmem_cache_create name sz s = Some (?s, Some (Cache_At a))"
    using sz s1(1) by (simp add: kmem_cache_create_def Let_def PAGE_ORDER_MAX_def)
  ultimately show ?thesis using only_slabs_trans [OF slab_step_only [OF s1(3)]] by fastforce
qed

text \<open>Sizes for which a cache can be made.\<close>

definition size_good :: "nat \<Rightarrow> nat \<Rightarrow> bool" where
  "size_good sz order \<longleftrightarrow> 0 \<le> size_to_page_order sz \<and> order = cache_order sz (nat (size_to_page_order sz)) \<and> order \<le> 5
     \<and> (\<forall>name. cache_ok \<lparr>c_objsize = sz, c_objnum = nat (OBJS_PER_SLAB (page_order_to_size order) sz), c_page_order = order, c_name = name\<rparr>)"

lemma size_goodI:
  assumes "size_to_page_order sz = int od" "cache_order sz od = order" "order \<le> 5" "0 < sz" "OBJS_PER_SLAB (page_order_to_size order) sz = int n"
    "0 < n" "n \<le> 32" "SLAB_HEADER + n * sz \<le> page_order_sz ! order"
  shows "size_good sz order"
  using assms by (simp add: size_good_def cache_ok_def)

lemmas order_defs = size_to_page_order_def size_to_page_order_from.simps cache_order.simps OBJS_PER_SLAB_def page_order_to_size_def page_order_sz_def
  PAGE_ORDER_MAX_def SLAB_HEADER_def

lemma kmalloc_sizes_good: "\<forall>i \<in> set kmalloc_slab_info. \<exists>order. size_good (snd i) order"
proof -
  have "size_good 32 0" by (rule size_goodI [where od = 0 and n = 7]) (simp_all add: order_defs)
  moreover have "size_good 64 0" by (rule size_goodI [where od = 0 and n = 3]) (simp_all add: order_defs)
  moreover have "size_good 128 1" by (rule size_goodI [where od = 0 and n = 3]) (simp_all add: order_defs)
  moreover have "size_good 256 2" by (rule size_goodI [where od = 0 and n = 3]) (simp_all add: order_defs)
  moreover have "size_good 512 3" by (rule size_goodI [where od = 1 and n = 3]) (simp_all add: order_defs)
  moreover have "size_good 1024 4" by (rule size_goodI [where od = 2 and n = 3]) (simp_all add: order_defs)
  moreover have "size_good 2048 5" by (rule size_goodI [where od = 3 and n = 3]) (simp_all add: order_defs)
  ultimately show ?thesis unfolding kmalloc_slab_info_def by auto
qed

lemma file_size_good: "size_good FILE_SIZE 0"
  by (rule size_goodI [where od = 0 and n = 10]) (simp_all add: order_defs config)

lemma kmem_cache_create_good:
  fixes s :: "'a sstate_scheme"
  assumes "caches_fresh n s" "n < 256" "size_good sz order"
  shows "\<exists>s' a. kmem_cache_create name sz s = Some (s', Some (Cache_At a)) \<and> caches_fresh (n + 1) s' \<and> only_slabs s s'
    \<and> (\<exists>cache. kcaches s' (Cache_At a) = Some cache \<and> c_page_order cache = order)"
  by (rule kmem_cache_create_fresh [OF assms(1,2)]) (use assms(3) in \<open>auto simp: size_good_def\<close>)

lemma slab_init_caches_fresh:
  fixes s :: "'a sstate_scheme"
  assumes "caches_fresh n s" "n + length is < 256" "\<forall>i \<in> set is. \<exists>order. size_good (snd i) order"
  shows "\<exists>s'. slab_init_caches is s = Some s' \<and> caches_fresh (n + length is) s' \<and> only_slabs s s'"
  using assms
proof (induction "is" arbitrary: n s)
  case (Cons i "is")
  from Cons.prems(3) obtain order where "size_good (snd i) order" by auto
  from kmem_cache_create_good [OF Cons.prems(1) _ this, of "fst i"] Cons.prems(2) obtain s1 c where
    s1: "kmem_cache_create (fst i) (snd i) s = Some (s1, Some c)" "caches_fresh (n + 1) s1" "only_slabs s s1" by auto
  let ?s = "s1\<lparr>kmalloc_caches := kmalloc_caches s1 @ [Some c]\<rparr>"
  have f: "caches_fresh (n + 1) ?s"
    using s1(2) slab_inv_cong [of ?s s1] by (simp add: caches_fresh_def)
  have o: "only_slabs s1 ?s"
    by (rule only_slabsI [where P = "pages s1" and S = "slabs s1" and L = "slab_links s1" and K = "kcaches s1" and C = "caches_list s1"]) simp
  have "n + 1 + length is < 256" "\<forall>i \<in> set is. \<exists>order. size_good (snd i) order" using Cons.prems(2,3) by simp_all
  from Cons.IH [OF f this] obtain s' where s': "slab_init_caches is ?s = Some s'" "caches_fresh (n + 1 + length is) s'" "only_slabs ?s s'" by blast
  moreover have "only_slabs s s'" using only_slabs_trans [OF only_slabs_trans [OF s1(3) o] s'(3)] .
  ultimately show ?case using s1(1) by simp
qed (simp add: only_slabs_refl)

text \<open>The allocators of a kernel that has just been loaded.\<close>

definition slab_loaded :: "'a sstate_scheme \<Rightarrow> bool" where
  "slab_loaded s \<longleftrightarrow> page_mem_ok (page_start s) \<and> pages s = page_bitmap_init \<and> slab_links s = []
     \<and> kcaches s = [Cache_Caches \<mapsto> cache_caches] \<and> kmalloc_caches s = [] \<and> caches_list s = []"

lemma busy_init: "busy page_bitmap_init = {}"
  by (simp add: busy_def page_init_units)

lemma cache_caches_ok: "cache_ok cache_caches"
  by (simp add: cache_ok_def cache_caches_def order_defs KMEM_CACHE_SIZE_def)

lemma slab_init_ok:
  fixes s :: "'a sstate_scheme"
  assumes "slab_loaded s"
  shows "\<exists>s'. slab_init s = Some s' \<and> caches_fresh 8 s' \<and> only_slabs s s'"
proof -
  let ?s = "s\<lparr>caches_list := caches_list s @ [Cache_Caches]\<rparr>"
  have l: "page_mem_ok (page_start s)" "pages s = page_bitmap_init" "slab_links s = []" "kcaches s = [Cache_Caches \<mapsto> cache_caches]"
    using assms by (simp_all add: slab_loaded_def)
  have "lk_wf []" by (simp add: lk_wf_def)
  then have inv: "slab_inv ?s" using l page_reach.page_start [of "page_start s"] cache_caches_ok
    unfolding slab_inv_def by (auto simp: lst_def)
  have c: "kcaches ?s Cache_Caches = Some cache_caches" using l(4) by simp
  have "\<not> alloc_pages (page_start ?s) (pages ?s) (c_page_order cache_caches) = Some (pages ?s, None)"
    using alloc_pages_avail [OF page_init_wf, of "c_page_order cache_caches" "page_start s"] l(2) by (auto simp: cache_caches_def busy_init)
  with kmem_cache_grow_spec [OF inv c] obtain s1 a where g: "kmem_cache_grow Cache_Caches ?s = Some (s1, Some a)" "slab_inv s1" by blast
  note st = kmem_cache_grow_step(1) [OF g(1)]
  have "pages s1 = pages ?s \<or> (\<exists>a. alloc_pages (page_start ?s) (pages ?s) (c_page_order cache_caches) = Some (pages s1, Some a))"
    using st c by (auto simp: slab_step_def)
  then have "page_wf (pages s1)" "card (busy (pages s1)) \<le> 1"
    using alloc_pages_avail [OF page_init_wf, of 0 "page_start s"] page_init_wf l(2) by (auto simp: cache_caches_def busy_init)
  moreover have "lst (slab_links s1) (Cache_At x, k) = []" for x k using st l(3) by (auto simp: slab_step_def lst_def)
  ultimately have f: "caches_fresh 1 s1" using g(2) slab_step_kcaches [OF st] c by (simp add: caches_fresh_def)
  have "1 + length kmalloc_slab_info < 256" by (simp add: kmalloc_slab_info_def)
  from slab_init_caches_fresh [OF f this kmalloc_sizes_good] obtain s' where
    s': "slab_init_caches kmalloc_slab_info s1 = Some s'" "caches_fresh (1 + length kmalloc_slab_info) s'" "only_slabs s1 s'" by blast
  have "only_slabs s ?s"
    by (rule only_slabsI [where P = "pages s" and S = "slabs s" and L = "slab_links s" and K = "kcaches s" and M = "kmalloc_caches s"]) simp
  then have "only_slabs s s'" using only_slabs_trans [OF only_slabs_trans [OF _ slab_step_only [OF st]] s'(3)] by blast
  moreover have "length kmalloc_slab_info = 7" by (simp add: kmalloc_slab_info_def)
  ultimately show ?thesis using g(1) s'(1,2) by (simp add: slab_init_def kmem_cache_init_def)
qed

section \<open>The root file system\<close>

text \<open>The parts of the state that the start of the allocators and of the file system leave alone.\<close>

definition boot_frame :: "'a pkstate_scheme \<Rightarrow> 'a pkstate_scheme \<Rightarrow> bool" where
  "boot_frame s s' \<longleftrightarrow> threads s' = threads s \<and> links s' = links s \<and> running s' = running s \<and> threads_list s' = threads_list s
     \<and> tasks_list s' = tasks_list s \<and> bitmap_threads s' = bitmap_threads s \<and> bitmap_tasks s' = bitmap_tasks s \<and> page_start s' = page_start s
     \<and> need_resched_flag s' = need_resched_flag s \<and> syscall_flag s' = syscall_flag s \<and> printk_buf s' = printk_buf s
     \<and> printk_free_list s' = printk_free_list s \<and> printk_wait_list s' = printk_wait_list s \<and> printk_is_writing s' = printk_is_writing s"

lemma boot_frame_trans: "boot_frame s s1 \<Longrightarrow> boot_frame s1 s2 \<Longrightarrow> boot_frame s s2"
  by (simp add: boot_frame_def)

lemma only_slabs_frame: "only_slabs s s' \<Longrightarrow> boot_frame s s'"
  for s :: "'a pkstate_scheme"
  by (erule only_slabsE) (simp add: boot_frame_def)

lemma only_slabs_fs:
  "only_slabs s s' \<Longrightarrow> inodes s' = inodes s \<and> dentries s' = dentries s \<and> rootfs_addr s' = rootfs_addr s \<and> bitmap_inodes s' = bitmap_inodes s
     \<and> bitmap_blks s' = bitmap_blks s \<and> s_blk_cnt s' = s_blk_cnt s \<and> file_cnt s' = file_cnt s \<and> mount_dev s' = mount_dev s \<and> file_caches s' = file_caches s"
  for s :: "'a fsstate_scheme"
  by (erule only_slabsE) simp

definition zero_inode :: inode where
  "zero_inode = \<lparr>i_mode = 0, i_rdev = 0, i_sync = False, i_ino = 0, i_parent = 0, i_fd = 0, i_size = 0, i_blocks = 0, i_data = 0, i_dentry = None\<rparr>"

definition fs_loaded :: "'a fsstate_scheme \<Rightarrow> bool" where
  "fs_loaded s \<longleftrightarrow> inodes s = (\<lambda>_. zero_inode) \<and> bitmap_inodes s = [0, 0, 0, 0] \<and> bitmap_blks s = [0, 0, 0, 0] \<and> file_cnt s = 0
     \<and> 0 < unat (rootfs_addr s) \<and> unat (rootfs_addr s) + FS_BLK_CNT * FS_BLK_SIZE < 2 ^ 32"

text \<open>The inode of the root directory.\<close>

definition root_inode :: inode where
  "root_inode = zero_inode\<lparr>i_mode := S_IFDIR, i_sync := True, i_dentry := Some []\<rparr>"

lemma fs_alloc_first_inode:
  "bitmap_inodes s = [0, 0, 0, 0] \<Longrightarrow> inodes s = (\<lambda>_. zero_inode) \<Longrightarrow>
   fs_alloc_inode s = Some (s\<lparr>s_inode_cnt := s_inode_cnt s + 1, bitmap_inodes := [1, 0, 0, 0]\<rparr>, Some 0)"
proof -
  assume a: "bitmap_inodes s = [0, 0, 0, 0]" "inodes s = (\<lambda>_. zero_inode)"
  have "find_first_zero_bit [0, 0, 0, 0] INODE_MAX = Some 0" "bitmap_set_bit [0, 0, 0, 0] 0 = Some [1, 0, 0, 0]" by code_simp+
  moreover have "upd_inode 0 (i_ino_update (\<lambda>_. 0)) s = s" by (simp add: upd_inode_def a(2) zero_inode_def fun_upd_idem)
  ultimately show ?thesis by (simp add: fs_alloc_inode_def a(1) config)
qed

lemma fs_wf_root:
  assumes "inodes s = (\<lambda>_. zero_inode)(0 := root_inode)" "bitmap_inodes s = [1, 0, 0, 0]" "bitmap_blks s = [0, 0, 0, 0]"
  shows "fs_wf s"
proof -
  have u: "used s = {0}" by (auto simp: used_def bm_set_def bm_bit_def assms(2) nth_Cons' bit_1_iff)
  have d: "is_dir s i \<longleftrightarrow> i = 0" for i by (simp add: is_dir_def assms(1) root_inode_def zero_inode_def config)
  have "fs_inv s (\<lambda>_. [])"
    unfolding fs_inv_def d u by (simp add: assms root_inode_def zero_inode_def Fstree.dir_ok_def blocks_ok_def config)
  then show ?thesis unfolding fs_wf_def by blast
qed

lemma fs_alloc_file_ok:
  fixes s :: "'a pkstate_scheme"
  assumes "slab_inv s" "page_wf (pages s)" "file_caches s = Some c" "kcaches s c = Some cache" "c_page_order cache = 0" "card (busy (pages s)) < 256"
  shows "\<exists>s1. fs_alloc_file s = Some (preempt_enable s1) \<and> only_slabs (preempt_disable s) s1 \<and> slab_inv s1 \<and> page_wf (pages s1)
    \<and> card (busy (pages s1)) \<le> card (busy (pages s)) + 1"
proof -
  let ?d = "preempt_disable s"
  have e: "page_start ?d = page_start s" "pages ?d = pages s" "slabs ?d = slabs s" "slab_links ?d = slab_links s" "kcaches ?d = kcaches s" "file_caches ?d = file_caches s"
    by (simp_all add: preempt_defs)
  have "slab_inv ?d" using slab_inv_cong [OF e(1-5)] assms(1) by simp
  moreover have "kcaches ?d c = Some cache" "page_wf (pages ?d)" "card (busy (pages ?d)) < 2 ^ (8 - c_page_order cache)" using assms by (simp_all add: e)
  ultimately obtain s1 a where s1: "kmem_cache_alloc c ?d = Some (s1, Some a)" "slab_inv s1" "slab_step c ?d s1" "page_wf (pages s1)"
      "card (busy (pages s1)) \<le> card (busy (pages ?d)) + 2 ^ c_page_order cache" using kmem_cache_alloc_avail [of ?d c cache] by blast
  then show ?thesis using assms(3,5) slab_step_only [OF s1(3)] by (intro exI [of _ s1]) (simp add: fs_alloc_file_def crit_def e)
qed

lemma preempt_fs_fields [simp]:
  "bitmap_inodes (preempt_disable s) = bitmap_inodes s" "bitmap_inodes (preempt_enable s) = bitmap_inodes s"
  "bitmap_blks (preempt_disable s) = bitmap_blks s" "bitmap_blks (preempt_enable s) = bitmap_blks s"
  "rootfs_addr (preempt_disable s) = rootfs_addr s" "rootfs_addr (preempt_enable s) = rootfs_addr s"
  "s_blk_cnt (preempt_disable s) = s_blk_cnt s" "s_blk_cnt (preempt_enable s) = s_blk_cnt s"
  "file_cnt (preempt_disable s) = file_cnt s" "file_cnt (preempt_enable s) = file_cnt s"
  by (simp_all add: preempt_defs Let_def)

lemma rootfs_init_ok:
  fixes s :: "'a pkstate_scheme"
  assumes f: "caches_fresh n s" "n + 1 < 256" and l: "fs_loaded s"
  shows "\<exists>s'. rootfs_init s = Some s' \<and> boot_frame s s' \<and> slab_inv s' \<and> page_wf (pages s') \<and> card (busy (pages s')) \<le> n + 2
    \<and> fs_wf s' \<and> store_ok s' \<and> mount_dev s' RDEV_ROOTFS = Some FILE_RESERVED_NUM"
proof -
  obtain s1 a cache where s1: "kmem_cache_create ''file_cache'' FILE_SIZE s = Some (s1, Some (Cache_At a))" "caches_fresh (n + 1) s1" "only_slabs s s1"
      "kcaches s1 (Cache_At a) = Some cache" "c_page_order cache = 0"
    using kmem_cache_create_good [OF f(1) _ file_size_good, of "''file_cache''"] f(2) by auto
  have l1: "inodes s1 = (\<lambda>_. zero_inode)" "bitmap_inodes s1 = [0, 0, 0, 0]" "bitmap_blks s1 = [0, 0, 0, 0]" "file_cnt s1 = 0" "rootfs_addr s1 = rootfs_addr s"
    using only_slabs_fs [OF s1(3)] l by (simp_all add: fs_loaded_def)
  define s2 where "s2 = s1\<lparr>file_caches := Some (Cache_At a), s_inode_cnt := 1, s_blk_cnt := 0, bitmap_inodes := [1, 0, 0, 0],
     inodes := (\<lambda>_. zero_inode)(0 := root_inode), shell_dir_curr := 0\<rparr>"
  have i: "fs_alloc_inode (s1\<lparr>file_caches := Some (Cache_At a), s_inode_cnt := 0, s_blk_cnt := 0\<rparr>)
      = Some (s1\<lparr>file_caches := Some (Cache_At a), s_inode_cnt := 1, s_blk_cnt := 0, bitmap_inodes := [1, 0, 0, 0]\<rparr>, Some 0)"
    using l1 by (subst fs_alloc_first_inode) simp_all
  have ri: "(upd_inode 0 (\<lambda>n. n\<lparr>i_mode := S_IFDIR, i_rdev := RDEV_ROOTFS, i_sync := True, i_size := 0, i_blocks := 0, i_data := 0, i_dentry := Some []\<rparr>)
      (s1\<lparr>file_caches := Some (Cache_At a), s_inode_cnt := 1, s_blk_cnt := 0, bitmap_inodes := [1, 0, 0, 0]\<rparr>))\<lparr>shell_dir_curr := 0\<rparr> = s2"
    unfolding s2_def upd_inode_def by (simp add: l1(1) root_inode_def zero_inode_def config)
  have "slab_inv s2" using s1(2) slab_inv_cong [of s2 s1] by (simp add: s2_def caches_fresh_def)
  then obtain s3 where s3: "fs_alloc_file s2 = Some (preempt_enable s3)" "only_slabs (preempt_disable s2) s3" "slab_inv s3" "page_wf (pages s3)"
      "card (busy (pages s3)) \<le> card (busy (pages s2)) + 1"
    using fs_alloc_file_ok [of s2 "Cache_At a" cache] s1(2,4,5) f(2) by (auto simp: s2_def caches_fresh_def)
  define s' where "s' = (set_file FILE_RESERVED_NUM \<lparr>f_inode = None, f_op = Rootfs_ops, f_events = 0, f_flags = 0\<rparr> (preempt_enable s3))
     \<lparr>file_cnt := 1, mount_dev := (mount_dev (preempt_enable s3))(RDEV_ROOTFS := Some FILE_RESERVED_NUM), mount_cnt := 1\<rparr>"
  have fs3: "inodes s3 = inodes s2" "bitmap_inodes s3 = bitmap_inodes s2" "bitmap_blks s3 = bitmap_blks s2" "rootfs_addr s3 = rootfs_addr s2"
      "s_blk_cnt s3 = s_blk_cnt s2" "file_cnt s3 = file_cnt s2"
    using only_slabs_fs [OF s3(2)] by simp_all
  have r: "rootfs_init s = Some s'"
    unfolding rootfs_init_def using s1(1) i ri s3(1) fs3(6) l1(4) by (simp add: s'_def s2_def)
  have "slab_inv s'" using s3(3) slab_inv_cong [of s' s3] by (simp add: s'_def preempt_defs set_file_def Let_def)
  moreover have "pages s' = pages s3" by (simp add: s'_def preempt_defs set_file_def Let_def)
  moreover have "card (busy (pages s2)) \<le> n + 1" using s1(2) by (simp add: s2_def caches_fresh_def)
  moreover have "fs_wf s'" by (rule fs_wf_root) (simp_all add: s'_def set_file_def fs3 s2_def l1)
  moreover have "bm_set [0, 0, 0, 0] = {}" by (auto simp: bm_set_def bm_bit_def nth_Cons')
  then have "store_ok s'" using l by (simp add: store_ok_def s'_def set_file_def fs3 s2_def l1 fs_loaded_def)
  moreover have "boot_frame (preempt_disable s2) s3" by (rule only_slabs_frame [OF s3(2)])
  then have "boot_frame s1 s'" by (simp add: boot_frame_def s'_def s2_def preempt_defs set_file_def Let_def)
  moreover have "mount_dev s' RDEV_ROOTFS = Some FILE_RESERVED_NUM" by (simp add: s'_def)
  ultimately show ?thesis using r s3(4,5) boot_frame_trans [OF only_slabs_frame [OF s1(3)]] by auto
qed

section \<open>The kernel threads\<close>

lemma thread_setup_frame:
  assumes "thread_setup tid stk f attr arg kt ss s = Some s'"
  shows "pstate.more s' = pstate.more s \<and> (\<forall>h. h \<noteq> THREAD_PIPE_FD tid \<longrightarrow> files s' h = files s h) \<and> need_resched_flag s' = need_resched_flag s
    \<and> syscall_flag s' = syscall_flag s \<and> bitmap_tasks s' = bitmap_tasks s \<and> tasks_list s' = tasks_list s"
  using assms
  by (auto simp: thread_setup_def thread_pipe_alloc_def fifo_init_def head_init_def node_add_def upd_thread_def bind_eq_Some_iff Let_def
      split: if_splits prod.splits)

lemma thread_create_frame:
  assumes "thread_create f attr arg kt s = Some (s', Some tid, r)"
  shows "pstate.more s' = pstate.more s \<and> (\<forall>h. h \<noteq> THREAD_PIPE_FD tid \<longrightarrow> files s' h = files s h) \<and> need_resched_flag s' = need_resched_flag s
    \<and> syscall_flag s' = syscall_flag s \<and> bitmap_tasks s' = bitmap_tasks s \<and> tasks_list s' = tasks_list s"
  using assms by (auto simp: thread_create_def Let_def bind_eq_Some_iff split: if_splits option.splits dest!: thread_setup_frame)

lemma thread_created_table_ok:
  fixes s :: "'a pstate_scheme"
  assumes ok: "thread_table_ok s" and c: "thread_created tid stk attr kt s s'"
  shows "thread_table_ok s'"
proof -
  note t = thread_table_okD [OF ok]
  have c': "tid < THREAD_MAX" "bm_set (bitmap_threads s') = insert tid (bm_set (bitmap_threads s))" "length (bitmap_threads s') = length (bitmap_threads s)"
      "alloc_pages (page_start s) (pages s) (order_arg (ALIGN (ta_stacksize attr) 4)) = Some (pages s', Some stk)"
      "threads s' = (threads s)(tid := new_thread tid stk (ALIGN (ta_stacksize attr) 4) attr kt)"
      "links s' = lk_add tid Sleep (links s)" "threads_list s' = threads_list s @ [tid]" "running s' = running s" "page_start s' = page_start s" "sched_wf s'"
    using c by (auto simp: thread_created_def Let_def)
  from alloc_pages_spec [OF t(8), of "order_arg (ALIGN (ta_stacksize attr) 4)" "page_start s"] c'(4)
  have p: "page_wf (pages s')" "free_units (fam (pages s')) \<subseteq> free_units (fam (pages s))" by auto
  have fb: "free_bytes s' \<subseteq> free_bytes s" using p(2) c'(9) by (auto simp: free_bytes_def)
  have st: "t_status (threads s u) \<noteq> THREAD_READY" if "u \<notin> bm_set (bitmap_threads s)" for u
    using ok that unfolding thread_table_ok_def by blast
  show ?thesis unfolding thread_table_ok_def c'(2,3,5-9) using t(2,3) t(4-6) t(7,9,10) st p(1) fb c'(10)
    by (auto simp: subset_iff)
qed

text \<open>The state after \<open>k\<close> kernel threads.\<close>

definition kthreads_ok :: "nat \<Rightarrow> nat \<Rightarrow> 'a pstate_scheme \<Rightarrow> bool" where
  "kthreads_ok k n s \<longleftrightarrow> thread_table_ok s \<and> bm_set (bitmap_threads s) = {..<k} \<and> length (bitmap_tasks s) = 2 \<and> bm_set (bitmap_tasks s) = {..<k}
     \<and> tasks_list s = [0..<k] \<and> card (busy (pages s)) \<le> n"

text \<open>The parts that \<open>kthread_create\<close> leaves alone, and the control block it sets up.\<close>

definition kthread_made :: "nat \<Rightarrow> nat \<Rightarrow> 'a pstate_scheme \<Rightarrow> 'a pstate_scheme \<Rightarrow> bool" where
  "kthread_made k pri s s' \<longleftrightarrow> pstate.more s' = pstate.more s \<and> (\<forall>h \<ge> FILE_RESERVED_NUM. files s' h = files s h)
     \<and> need_resched_flag s' = need_resched_flag s \<and> syscall_flag s' = syscall_flag s \<and> page_start s' = page_start s
     \<and> running s' = running s \<and> links s' = links s @ [(Sleep, k)]
     \<and> (\<forall>t. t \<noteq> k \<longrightarrow> threads s' t = threads s t) \<and> t_priority (threads s' k) = pri \<and> t_status (threads s' k) = THREAD_WAIT
     \<and> t_sleep_ticks (threads s' k) = 0 \<and> t_signal_cnt (threads s' k) = 0 \<and> t_tid (threads s' k) = k \<and> t_kernel_thread (threads s' k)
     \<and> t_stack (threads s' k) \<le> t_stack_top (threads s' k) \<and> t_stack_top (threads s' k) \<le> t_stack (threads s' k) + t_stack_size (threads s' k)
     \<and> (\<exists>od stk. alloc_pages (page_start s) (pages s) od = Some (pages s', Some stk))"

lemma first_zero_bits:
  assumes "length m = 2" "bm_set m = {..<k}" "k < 64"
  shows "find_first_zero_bit m 64 = Some k \<and> (\<exists>b. bitmap_set_bit m k = Some b \<and> bm_set b = {..<Suc k} \<and> length b = 2)"
proof -
  obtain r where r: "r \<le> 64" "find_first_zero_bit m 64 = Some r" "r < 64 \<longrightarrow> r \<notin> bm_set m" "{..<r} \<subseteq> bm_set m"
    using bm.search_least [of 64 m] assms(1) by auto
  have "r = k" using r assms(2,3) by (metis lessThan_iff lessThan_subset_iff linorder_neqE_nat not_less order_less_trans)
  moreover obtain b where "bitmap_set_bit m k = Some b" "32 * length b = 32 * length m" "bm_set b = insert k (bm_set m)"
    using bm.mark_used [of k m] assms(1,3) by auto
  ultimately show ?thesis using r(2) assms(1,2) by (auto simp: lessThan_Suc)
qed

lemma kthread_frame [simp]:
  "pstate.more (preempt_disable s) = pstate.more s" "pstate.more (preempt_enable s) = pstate.more s"
  "files (preempt_disable s) = files s" "files (preempt_enable s) = files s"
  "need_resched_flag (preempt_disable s) = need_resched_flag s" "need_resched_flag (preempt_enable s) = need_resched_flag s"
  "syscall_flag (preempt_disable s) = syscall_flag s" "syscall_flag (preempt_enable s) = syscall_flag s"
  "bitmap_tasks (preempt_disable s) = bitmap_tasks s" "bitmap_tasks (preempt_enable s) = bitmap_tasks s"
  "tasks_list (preempt_disable s) = tasks_list s" "tasks_list (preempt_enable s) = tasks_list s"
  by (simp_all add: preempt_defs Let_def)

lemma thread_table_ok_cong:
  assumes "links s' = links s" "threads_list s' = threads_list s" "bitmap_threads s' = bitmap_threads s" "running s' = running s"
    "page_start s' = page_start s" "pages s' = pages s"
    and "\<And>t. t_status (threads s' t) = t_status (threads s t) \<and> t_priority (threads s' t) = t_priority (threads s t)"
  shows "thread_table_ok s' = thread_table_ok s"
  unfolding thread_table_ok_def sched_wf_def free_bytes_def using assms by simp

lemma kthread_create_ok:
  fixes s :: "'a pstate_scheme"
  assumes ok: "kthreads_ok k n s" and k: "k < 64" and od: "order_arg (ALIGN ss 4) = od" "od \<le> 5" "n < 2 ^ (8 - od)"
    and need: "STACK_NEED \<le> unat (ALIGN ss 4)" and pri: "unat p \<le> KTHREAD_PRI_MAX"
  shows "\<exists>s'. kthread_create f p ss s = Some (s', int k) \<and> kthreads_ok (Suc k) (n + 2 ^ od) s' \<and> kthread_made k (unat p) s s'"
proof -
  let ?d = "preempt_disable s"
  define attr where "attr = \<lparr>ta_sched_priority = uint p, ta_stackaddr = 0, ta_stacksize = ss, ta_schedpolicy = SCHED_RR, ta_detachstate = PTHREAD_CREATE_JOINABLE\<rparr>"
  have o: "thread_table_ok s" "bm_set (bitmap_threads s) = {..<k}" "length (bitmap_tasks s) = 2" "bm_set (bitmap_tasks s) = {..<k}"
      "tasks_list s = [0..<k]" "card (busy (pages s)) \<le> n" using ok by (simp_all add: kthreads_ok_def)
  have d: "thread_table_ok ?d" using o(1) thread_table_ok_cong [of ?d s] by simp
  have "int (unat p) \<le> int KTHREAD_PRI_MAX" using pri by (simp only: of_nat_le_iff)
  then have bad: "\<not> bad_thread_attr attr True" by (auto simp: bad_thread_attr_def attr_def)
  note z = first_zero_bits [OF thread_table_okD(2) [OF o(1)] o(2) k]
  obtain pb stk where al: "alloc_pages (page_start s) (pages s) od = Some (pb, Some stk)" "page_wf pb" "card (busy pb) \<le> card (busy (pages s)) + 2 ^ od"
    using alloc_pages_avail [OF thread_table_okD(8) [OF o(1)] od(2)] o(6) od(3) by (meson order_le_less_trans)
  have ts: "ta_stacksize attr = ss" "nat (ta_sched_priority attr) = unat p" by (simp_all add: attr_def)
  obtain s1 where s1: "thread_create f attr 0 True ?d = Some (s1, Some k, 0)" "thread_created k stk attr True ?d s1"
    using thread_create_success [OF d bad, of k pb stk f 0] need z k al(1) od(1) by (auto simp: ts THREAD_MAX_def)
  note fr = thread_create_frame [OF s1(1)]
  have c: "bm_set (bitmap_threads s1) = insert k (bm_set (bitmap_threads s))" "pages s1 = pb"
      "threads s1 = (threads s)(k := new_thread k stk (ALIGN ss 4) attr True)" "stk \<le> t_stack_top (threads s1 k)" "t_stack_top (threads s1 k) \<le> stk + ALIGN ss 4"
      "links s1 = lk_add k Sleep (links s)" "running s1 = running s" "page_start s1 = page_start s"
    using s1(2) al(1) od(1) by (auto simp: thread_created_def Let_def ts)
  have tb: "bitmap_tasks s1 = bitmap_tasks s" "tasks_list s1 = tasks_list s" using fr by simp_all
  note zt = first_zero_bits [OF o(3,4) k]
  obtain b where b: "bitmap_set_bit (bitmap_tasks s) k = Some b" "bm_set b = {..<Suc k}" "length b = 2" using zt by blast
  define s2 where "s2 = upd_thread k (t_task_update (\<lambda>_. Some k))
     (s1\<lparr>bitmap_tasks := b, tasks_list := [0..<Suc k], tasks := (tasks s1)(k := zero_task\<lparr>k_pid := k, k_main_thread := k, k_threads_list := [k]\<rparr>)\<rparr>)"
  have "task_create_body f p ss True ?d = Some (s2, int k)"
    using s1(1) zt b(1) k o(5) unfolding task_create_body_def attr_def [symmetric] by (simp add: tb TASK_MAX_def seq_add_def s2_def)
  then have r: "kthread_create f p ss s = Some (preempt_enable s2, int k)" by (simp add: kthread_create_def critr_def)
  have "thread_table_ok (preempt_enable s2) = thread_table_ok s1" by (rule thread_table_ok_cong) (auto simp: s2_def upd_thread_def)
  then have "kthreads_ok (Suc k) (n + 2 ^ od) (preempt_enable s2)"
    using thread_created_table_ok [OF d s1(2)] c(1,2) o(2,6) b(2,3) al(3) by (simp add: kthreads_ok_def s2_def upd_thread_def lessThan_Suc)
  moreover have "kthread_made k (unat p) s (preempt_enable s2)"
    using fr c al(1) k by (auto simp: kthread_made_def s2_def upd_thread_def lk_add_def new_thread_def zero_thread_def ts config THREAD_PIPE_FD_def FILE_RESERVED_NUM_def)
  ultimately show ?thesis using r by blast
qed

lemma more_same:
  fixes s :: "'a pkstate_scheme"
  assumes "pstate.more s' = pstate.more s"
  shows "slabs s' = slabs s" "slab_links s' = slab_links s" "kcaches s' = kcaches s" "inodes s' = inodes s" "dentries s' = dentries s"
    "rootfs_addr s' = rootfs_addr s" "bitmap_inodes s' = bitmap_inodes s" "bitmap_blks s' = bitmap_blks s" "s_blk_cnt s' = s_blk_cnt s"
    "mount_dev s' = mount_dev s" "printk_buf s' = printk_buf s" "printk_free_list s' = printk_free_list s" "printk_wait_list s' = printk_wait_list s"
    "printk_is_writing s' = printk_is_writing s"
  using assms by (cases s; cases s'; simp)+

lemma kthread_made_slab_inv:
  fixes s :: "'a pkstate_scheme"
  assumes m: "kthread_made k pri s s'" and inv: "slab_inv s"
  shows "slab_inv s'"
proof -
  have e: "pstate.more s' = pstate.more s" "page_start s' = page_start s" using m by (auto simp: kthread_made_def)
  obtain od stk where al: "alloc_pages (page_start s) (pages s) od = Some (pages s', Some stk)" using m by (auto simp: kthread_made_def)
  note sm = more_same [OF e(1)]
  from inv obtain live where l: "page_reach (page_start s) (pages s) live"
      "\<forall>c k a. a \<in> set (lst (slab_links s) (c, k)) \<longrightarrow> (a, c_page_order (the (kcaches s c))) \<in> set live" unfolding slab_inv_def by blast
  have "page_reach (page_start s) (pages s') ((stk, od) # live)" by (rule page_reach.page_alloc [OF l(1) al])
  then show ?thesis using inv l(2) unfolding slab_inv_def sm e(2) by auto
qed

text \<open>The four kernel threads.\<close>

lemma stack_orders:
  "order_arg (ALIGN 1024 4) = 2" "order_arg (ALIGN 2048 4) = 3" "STACK_NEED \<le> unat (ALIGN 1024 4 :: u32)" "STACK_NEED \<le> unat (ALIGN 2048 4 :: u32)"
  by code_simp+

definition kthread_ready :: "nat \<Rightarrow> nat \<Rightarrow> 'a kstate_scheme \<Rightarrow> bool" where
  "kthread_ready k pri s \<longleftrightarrow> (let th = threads s k in t_priority th = pri \<and> t_status th = THREAD_WAIT \<and> t_signal_cnt th = 0
     \<and> t_stack th \<le> t_stack_top th \<and> t_stack_top th \<le> t_stack th + t_stack_size th)"

lemma kthread_create_next:
  fixes s :: "'a pstate_scheme"
  assumes "kthreads_ok k n s" "k < 64" "order_arg (ALIGN ss 4) = od" "STACK_NEED \<le> unat (ALIGN ss 4)" "od \<le> 5" "n < 2 ^ (8 - od)"
    and "unat p = pri" "pri \<le> 10" "k' = Suc k" "n' = n + 2 ^ od"
  shows "\<exists>s'. kthread_create f p ss s = Some (s', int k) \<and> kthreads_ok k' n' s' \<and> kthread_made k pri s s'"
  using kthread_create_ok [OF assms(1-3) assms(5,6,4), of p f] assms(7-10) by (simp add: config)

lemma create_kthreads_ok:
  fixes s :: "'a pkstate_scheme"
  assumes ok: "kthreads_ok 0 10 s" and inv: "slab_inv s"
  shows "\<exists>s'. create_kthreads fn s = Some s' \<and> kthreads_ok 4 34 s' \<and> slab_inv s' \<and> pstate.more s' = pstate.more s
    \<and> (\<forall>h \<ge> FILE_RESERVED_NUM. files s' h = files s h) \<and> need_resched_flag s' = need_resched_flag s \<and> syscall_flag s' = syscall_flag s
    \<and> links s' = links s @ map (Pair Sleep) [0..<4] \<and> (\<forall>t. 4 \<le> t \<longrightarrow> threads s' t = threads s t)
    \<and> kthread_ready 0 0 s' \<and> kthread_ready 1 10 s' \<and> kthread_ready 2 9 s' \<and> kthread_ready 3 9 s'"
proof -
  have "\<exists>s'. kthread_create (fn_idle fn) 0 IDLE_STACK_SIZE s = Some (s', int 0) \<and> kthreads_ok 1 14 s' \<and> kthread_made 0 0 s s'"
    by (rule kthread_create_next [OF ok, where od = 2]) (simp_all add: config stack_orders)
  then obtain s1 where s1: "kthread_create (fn_idle fn) 0 IDLE_STACK_SIZE s = Some (s1, int 0)" "kthreads_ok 1 14 s1" "kthread_made 0 0 s s1" by blast
  have "\<exists>s'. kthread_create (fn_softirqd fn) 10 SOFTIRQD_STACK_SIZE s1 = Some (s', int 1) \<and> kthreads_ok 2 22 s' \<and> kthread_made 1 10 s1 s'"
    by (rule kthread_create_next [OF s1(2), where od = 3]) (simp_all add: config stack_orders)
  then obtain s2 where s2: "kthread_create (fn_softirqd fn) 10 SOFTIRQD_STACK_SIZE s1 = Some (s2, int 1)" "kthreads_ok 2 22 s2" "kthread_made 1 10 s1 s2" by blast
  have "\<exists>s'. kthread_create (fn_filesysd fn) 9 FILESYSD_STACK_SIZE s2 = Some (s', int 2) \<and> kthreads_ok 3 30 s' \<and> kthread_made 2 9 s2 s'"
    by (rule kthread_create_next [OF s2(2), where od = 3]) (simp_all add: config stack_orders)
  then obtain s3 where s3: "kthread_create (fn_filesysd fn) 9 FILESYSD_STACK_SIZE s2 = Some (s3, int 2)" "kthreads_ok 3 30 s3" "kthread_made 2 9 s2 s3" by blast
  have "\<exists>s'. kthread_create (fn_printkd fn) 9 PRINTKD_STACK_SIZE s3 = Some (s', int 3) \<and> kthreads_ok 4 34 s' \<and> kthread_made 3 9 s3 s'"
    by (rule kthread_create_next [OF s3(2), where od = 2]) (simp_all add: config stack_orders)
  then obtain s4 where s4: "kthread_create (fn_printkd fn) 9 PRINTKD_STACK_SIZE s3 = Some (s4, int 3)" "kthreads_ok 4 34 s4" "kthread_made 3 9 s3 s4" by blast
  have c: "create_kthreads fn s = Some s4"
    using s1(1) s2(1) s3(1) s4(1) by (simp add: create_kthreads_def KTHREAD_PRI_MAX_def THREAD_PRIORITY_MAX_def PRI_RESERVED_def)
  have l: "links s4 = links s @ map (Pair Sleep) [0..<4]" using s1(3) s2(3) s3(3) s4(3) by (simp add: kthread_made_def upt_rec)
  have t: "\<forall>t. 4 \<le> t \<longrightarrow> threads s4 t = threads s t" using s1(3) s2(3) s3(3) s4(3) by (simp add: kthread_made_def)
  have r: "kthread_ready 0 0 s4 \<and> kthread_ready 1 10 s4 \<and> kthread_ready 2 9 s4 \<and> kthread_ready 3 9 s4"
    using s1(3) s2(3) s3(3) s4(3) by (simp add: kthread_made_def kthread_ready_def Let_def)
  have f: "pstate.more s4 = pstate.more s \<and> (\<forall>h \<ge> FILE_RESERVED_NUM. files s4 h = files s h) \<and> need_resched_flag s4 = need_resched_flag s \<and> syscall_flag s4 = syscall_flag s"
    using s1(3) s2(3) s3(3) s4(3) by (simp add: kthread_made_def)
  have "slab_inv s4" using kthread_made_slab_inv [OF s4(3)] kthread_made_slab_inv [OF s3(3)] kthread_made_slab_inv [OF s2(3)] kthread_made_slab_inv [OF s1(3)] inv by blast
  then show ?thesis using c s4(2) l t r f by blast
qed

section \<open>The booted kernel\<close>

text \<open>The memory that the start code leaves: zero, the lists of static storage and the linker's addresses set up; no thread is running.\<close>

definition kernel_loaded :: "u32 \<Rightarrow> u32 \<Rightarrow> 'b hstate_scheme \<Rightarrow> 'a pkstate_scheme \<Rightarrow> bool" where
  "kernel_loaded st en h s \<longleftrightarrow> slab_loaded s \<and> fs_loaded s \<and> unat (page_start s) + 65536 < 2 ^ 32
     \<and> threads s = (\<lambda>_. zero_thread) \<and> THREAD_MAX \<le> running s \<and> links s = [] \<and> threads_list s = [] \<and> tasks_list s = []
     \<and> bitmap_threads s = [0, 0] \<and> bitmap_tasks s = [0, 0] \<and> \<not> need_resched_flag s \<and> \<not> syscall_flag s
     \<and> printk_free_list s = [] \<and> printk_wait_list s = [] \<and> \<not> printk_is_writing s \<and> (\<forall>e. length (pk_data (printk_buf s e)) = PRINT_SIZE_MAX)
     \<and> malloc_list h = [] \<and> unat st < unat en \<and> unat en - unat st < 2 ^ 30"

lemma ready_init_empty: "links s = [] \<Longrightarrow> ready_init n s = Some s"
  by (induction n) (simp_all add: head_init_def lst_def)

lemma zero_bits: "bm_set [0, 0] = {}"
  by (auto simp: bm_set_def bm_bit_def nth_Cons')

text \<open>The first three stages: the allocators, the message buffers and the root file system.\<close>

lemma boot_stores_ok:
  fixes s :: "'a pkstate_scheme"
  assumes l: "kernel_loaded st en h s"
  shows "\<exists>s1 s2. slab_init s = Some s1 \<and> rootfs_init (printkd_init s1) = Some s2 \<and> kthreads_ok 0 10 s2 \<and> slab_inv s2 \<and> fs_wf s2 \<and> store_ok s2
    \<and> boot_frame (printkd_init s) s2 \<and> mount_dev s2 RDEV_ROOTFS = Some FILE_RESERVED_NUM"
proof -
  have l': "slab_loaded s" "fs_loaded s" using l by (simp_all add: kernel_loaded_def)
  obtain s1 where s1: "slab_init s = Some s1" "caches_fresh 8 s1" "only_slabs s s1" using slab_init_ok [OF l'(1)] by blast
  let ?p = "printkd_init s1"
  have "caches_fresh 8 ?p" using s1(2) slab_inv_cong [of ?p s1] by (simp add: caches_fresh_def printkd_init_def)
  moreover have "fs_loaded ?p" using l'(2) only_slabs_fs [OF s1(3)] by (simp add: fs_loaded_def printkd_init_def)
  ultimately obtain s2 where s2: "rootfs_init ?p = Some s2" "boot_frame ?p s2" "slab_inv s2" "page_wf (pages s2)" "card (busy (pages s2)) \<le> 10" "fs_wf s2" "store_ok s2" "mount_dev s2 RDEV_ROOTFS = Some FILE_RESERVED_NUM"
    using rootfs_init_ok [of 8 ?p] by auto
  have "boot_frame s s1" by (rule only_slabs_frame [OF s1(3)])
  then have "boot_frame (printkd_init s) ?p" by (simp add: boot_frame_def printkd_init_def)
  from boot_frame_trans [OF this s2(2)] have fr: "boot_frame (printkd_init s) s2" .
  have "page_mem_ok (page_start s)" using l'(1) by (simp add: slab_loaded_def)
  moreover have "sched_wf s2" using fr l by (simp add: sched_wf_def boot_frame_def printkd_init_def kernel_loaded_def lst_def lk_wf_def zero_thread_def)
  ultimately have "kthreads_ok 0 10 s2"
    using fr l s2(4,5) zero_bits
    by (simp add: kthreads_ok_def thread_table_ok_def boot_frame_def printkd_init_def kernel_loaded_def lst_def lk_linked_def zero_thread_def)
  then show ?thesis using s1(1) s2 fr by blast
qed

lemma booted_sched:
  assumes l: "links s = map (Pair Sleep) [1..<4]" and r: "running s = 0" and k: "t_status (threads s 0) = THREAD_RUNNING" "t_priority (threads s 0) \<le> 10"
    and t: "\<And>t. t \<noteq> 0 \<Longrightarrow> t_status (threads s t) = THREAD_WAIT \<and> t_priority (threads s t) \<le> 10"
  shows "sched_wf s"
proof -
  have "lst (links s) (Ready p) = []" for p by (simp add: l lst_def upt_rec)
  moreover have "lk_wf (links s)" "\<not> lk_linked 0 (links s)" by (simp_all add: l lk_wf_def lk_linked_def upt_rec)
  moreover have "t_status (threads s t) \<noteq> THREAD_READY \<and> t_priority (threads s t) \<le> KTHREAD_PRI_MAX \<and> (t_status (threads s t) = THREAD_RUNNING \<longrightarrow> t = 0)" for t
    using k t [of t] by (cases "t = 0") (simp_all add: config)
  ultimately show ?thesis unfolding sched_wf_def r by auto
qed

text \<open>The last steps: the idle thread becomes the running one.\<close>

definition started :: "'a pkstate_scheme \<Rightarrow> 'a pkstate_scheme" where
  "started s = (set_status 0 THREAD_RUNNING (s\<lparr>running := 0\<rparr>))\<lparr>links := map (Pair Sleep) [1, 2, 3]\<rparr>"

lemma started_sel:
  "links (started s) = map (Pair Sleep) [1, 2, 3]" "running (started s) = 0" "threads (started s) = (threads s)(0 := (threads s 0)\<lparr>t_status := THREAD_RUNNING\<rparr>)"
  "pstate.more (started s) = pstate.more s" "files (started s) = files s" "pages (started s) = pages s" "page_start (started s) = page_start s"
  "need_resched_flag (started s) = need_resched_flag s" "syscall_flag (started s) = syscall_flag s" "threads_list (started s) = threads_list s"
  "bitmap_threads (started s) = bitmap_threads s" "bitmap_tasks (started s) = bitmap_tasks s" "tasks_list (started s) = tasks_list s"
  by (simp_all add: started_def set_status_def upd_thread_def)

definition kthreads_made :: "'a kstate_scheme \<Rightarrow> bool" where
  "kthreads_made s \<longleftrightarrow> kthread_ready 0 0 s \<and> kthread_ready 1 10 s \<and> kthread_ready 2 9 s \<and> kthread_ready 3 9 s \<and> (\<forall>t. 4 \<le> t \<longrightarrow> threads s t = zero_thread)"

lemma kthreads_made_cases:
  assumes "kthreads_made s"
  shows "t_status (threads s t) = THREAD_WAIT \<and> t_priority (threads s t) \<le> 10 \<and> t_signal_cnt (threads s t) = 0"
proof -
  have "t = 0 \<or> t = 1 \<or> t = 2 \<or> t = 3 \<or> 4 \<le> t" by linarith
  then show ?thesis using assms by (auto simp: kthreads_made_def kthread_ready_def Let_def zero_thread_def)
qed

lemma started_sched:
  assumes "kthreads_made s"
  shows "sched_wf (started s)" "sig_ok (started s)"
    "map (\<lambda>t. t_priority (threads (started s) t)) [0, 1, 2, 3] = [0, KTHREAD_PRI_MAX, KTHREAD_PRI_MAX - 1, KTHREAD_PRI_MAX - 1]"
    "check_thread_stack (started s)"
proof -
  note t = kthreads_made_cases [OF assms]
  show "sched_wf (started s)" by (rule booted_sched) (use t in \<open>simp_all add: started_sel upt_rec\<close>)
  show "sig_ok (started s)" using t by (simp add: sig_ok_def started_sel)
  show "map (\<lambda>t. t_priority (threads (started s) t)) [0, 1, 2, 3] = [0, KTHREAD_PRI_MAX, KTHREAD_PRI_MAX - 1, KTHREAD_PRI_MAX - 1]"
    "check_thread_stack (started s)"
    using assms by (auto simp: kthreads_made_def kthread_ready_def Let_def started_sel check_thread_stack_def config)
qed

lemma started_table:
  assumes ok: "kthreads_ok 4 n s" and m: "kthreads_made s"
  shows "thread_table_ok (started s)"
proof -
  have o: "thread_table_ok s" "bm_set (bitmap_threads s) = {..<4}" using ok by (simp_all add: kthreads_ok_def)
  have "\<not> lk_linked t (map (Pair Sleep) [1, 2, 3])" if "t \<notin> {..<4}" for t :: nat using that by (auto simp: lk_linked_def)
  moreover have "lst (map (Pair Sleep) [1, 2, 3 :: nat]) (Join t) = []" "lst (map (Pair Sleep) [1, 2, 3 :: nat]) (WaitQ x) = []" for t x by (simp_all add: lst_def)
  ultimately show ?thesis
    using o started_sched(1) [OF m] kthreads_made_cases [OF m] unfolding thread_table_ok_def by (auto simp: started_sel free_bytes_def)
qed

lemma fs_wf_more:
  fixes s :: "'a pkstate_scheme"
  assumes "pstate.more s' = pstate.more s"
  shows "fs_wf s' = fs_wf s"
  unfolding fs_wf_def fs_inv_def used_def is_dir_def Fstree.dir_ok_def blocks_ok_def more_same [OF assms] ..

text \<open>
  C30. The start of the kernel succeeds on the memory that the start code leaves, with a page area that is aligned to the largest page, and establishes the invariants of the components:
  of the scheduler and the thread table, the slab caches, the tree and the storage of the file system, the message buffers and the user heap.
  The idle thread is running, the three daemons are in the sleep list in the order of their creation, with the priorities of the code,
  and the first round of the kernel loop neither panics nor changes the state.
\<close>
theorem boot_establishes_invariants:
  fixes s :: "'a pkstate_scheme"
  assumes l: "kernel_loaded st en h s"
  shows "\<exists>h' s'. sched_start fn st en h s = Some (h', s') \<and> running s' = 0 \<and> t_status (threads s' 0) = THREAD_RUNNING
    \<and> links s' = map (Pair Sleep) [1, 2, 3] \<and> map (\<lambda>t. t_priority (threads s' t)) [0, 1, 2, 3] = [0, KTHREAD_PRI_MAX, KTHREAD_PRI_MAX - 1, KTHREAD_PRI_MAX - 1]
    \<and> bm_set (bitmap_threads s') = {..<4} \<and> bm_set (bitmap_tasks s') = {..<4} \<and> tasks_list s' = [0..<4]
    \<and> sched_wf s' \<and> sig_ok s' \<and> thread_table_ok s' \<and> slab_inv s' \<and> fs_wf s' \<and> store_ok s' \<and> pk_inv [] s' \<and> heap_wf st en h'
    \<and> kernel_round f once s' = Some (Inr (s', once))"
proof -
  obtain s1 s2 where b: "slab_init s = Some s1" "rootfs_init (printkd_init s1) = Some s2" "kthreads_ok 0 10 s2" "slab_inv s2" "fs_wf s2" "store_ok s2"
      "boot_frame (printkd_init s) s2" "mount_dev s2 RDEV_ROOTFS = Some FILE_RESERVED_NUM" using boot_stores_ok [OF l] by blast
  have k: "links s2 = []" "threads s2 = (\<lambda>_. zero_thread)" "\<not> need_resched_flag s2" "\<not> syscall_flag s2" "pk_inv [] s2"
    using b(7) l by (auto simp: boot_frame_def printkd_init_def kernel_loaded_def pk_inv_def config)
  obtain s4 where c: "create_kthreads fn s2 = Some s4" "kthreads_ok 4 34 s4" "slab_inv s4" "pstate.more s4 = pstate.more s2"
      "\<forall>h \<ge> FILE_RESERVED_NUM. files s4 h = files s2 h" "need_resched_flag s4 = need_resched_flag s2" "syscall_flag s4 = syscall_flag s2"
      "links s4 = links s2 @ map (Pair Sleep) [0..<4]" "\<forall>t. 4 \<le> t \<longrightarrow> threads s4 t = threads s2 t"
      "kthread_ready 0 0 s4" "kthread_ready 1 10 s4" "kthread_ready 2 9 s4" "kthread_ready 3 9 s4"
    using create_kthreads_ok [OF b(3,4)] by blast
  let ?s = "started s4"
  have nd: "node_del 0 (set_status 0 THREAD_RUNNING (s4\<lparr>running := 0\<rparr>)) = Some ?s"
    by (simp add: node_del_def started_def c(8) k(1) lk_linked_def lk_del_def upt_rec set_status_def upd_thread_def)
  have "malloc_list h = []" "unat st < unat en" "unat en - unat st < 2 ^ 30" using l by (simp_all add: kernel_loaded_def)
  moreover from this(1) obtain h' where h: "heap_init st en h = Some h'" by (simp add: heap_init_def Let_def)
  ultimately have hw: "heap_wf st en h'" using heap_init_wf(1) by blast
  have r: "sched_start fn st en h s = Some (h', ?s)"
    using b(1,2) h c(1) nd ready_init_empty [OF k(1)] by (simp add: sched_start_def del: ready_init.simps)
  have m: "pstate.more ?s = pstate.more s2" using c(4) by (simp add: started_sel)
  have made: "kthreads_made s4" using c(9-13) k(2) by (simp add: kthreads_made_def)
  have "slab_inv ?s" using c(3) slab_inv_cong [of ?s s4] more_same [OF started_sel(4) [of s4]] by (simp add: started_sel)
  moreover have "fs_wf ?s" using b(5) fs_wf_more [OF m] by simp
  moreover have "store_ok ?s" using b(6,8) c(5) unfolding store_ok_def more_same [OF m] by (auto simp: started_sel)
  moreover have "pk_inv [] ?s" using k(5) unfolding pk_inv_def more_same [OF m] .
  moreover have "kernel_round f once ?s = Some (Inr (?s, once))"
    using started_sched(4) [OF made] k(3,4) c(6,7) by (simp add: kernel_round_def started_sel)
  moreover have "bm_set (bitmap_threads ?s) = {..<4}" "bm_set (bitmap_tasks ?s) = {..<4}" "tasks_list ?s = [0..<4]"
    using c(2) by (simp_all add: kthreads_ok_def started_sel)
  ultimately show ?thesis
    using r hw started_sched(1-3) [OF made] started_table [OF c(2) made] started_sel(1,2) [of s4]
    by (intro exI [of _ h'] exI [of _ ?s]) (simp add: started_sel)
qed

definition demo_loaded :: pkstate where
  "demo_loaded = demo_pk\<lparr>threads := (\<lambda>_. zero_thread), running := 64, links := [], threads_list := [], tasks_list := [],
     bitmap_threads := [0, 0], bitmap_tasks := [0, 0], need_resched_flag := False, syscall_flag := False,
     page_start := 0x20000000, pages := page_bitmap_init,
     slabs := (\<lambda>_. None), slab_links := [], kcaches := [Cache_Caches \<mapsto> cache_caches], caches_list := [], kmalloc_caches := [],
     inodes := (\<lambda>_. zero_inode), rootfs_addr := 0x20020000, bitmap_inodes := [0, 0, 0, 0], bitmap_blks := [0, 0, 0, 0], file_cnt := 0\<rparr>"

lemma demo_loaded_ok: "kernel_loaded 0x20040000 0x20044000 (demo_hstate [] (\<lambda>_. 0)) demo_loaded"
proof -
  have "slab_loaded demo_loaded" by (simp add: slab_loaded_def demo_loaded_def page_mem_ok_def)
  moreover have "fs_loaded demo_loaded" by (simp add: fs_loaded_def demo_loaded_def config)
  ultimately show ?thesis using demo_pk_sel(4-7) by (simp add: kernel_loaded_def demo_loaded_def demo_hstate_sel config)
qed

theorem boot_establishes_invariants_witness:
  "\<exists>h' s'. sched_start \<lparr>fn_idle = 0x8001, fn_softirqd = 0x8101, fn_filesysd = 0x8201, fn_printkd = 0x8301\<rparr> 0x20040000 0x20044000
      (demo_hstate [] (\<lambda>_. 0)) demo_loaded = Some (h', s') \<and> running s' = 0 \<and> sched_wf s' \<and> fs_wf s' \<and> heap_wf 0x20040000 0x20044000 h'"
  using boot_establishes_invariants [OF demo_loaded_ok, of "\<lparr>fn_idle = 0x8001, fn_softirqd = 0x8101, fn_filesysd = 0x8201, fn_printkd = 0x8301\<rparr>"] by blast

end
