(* ===== verification/Shell.thy ===== *)
theory Shell
  imports Printf
begin

text \<open>
  The command line of the user (\<^verbatim>\<open>user/shell/shell.c\<close>, \<^verbatim>\<open>user/shell/shell.h\<close>): the line editor with its history and its
  completion of commands, the split of a line into arguments and the call of a command.

  The buffers are lists of characters of their declared length, positions and counters are integers, and \<^const>\<open>None\<close> is an
  access outside a buffer. The nodes of the history are the indexes of the array that the caller provides. What is
  written to the console is collected in \<open>sh_out\<close>; the characters that are read from it are an argument, as are the functions of the
  commands. The messages are made with \<^verbatim>\<open>snprintf\<close> of the C library (\<open>lib_vsnprintf\<close> of theory \<open>Printf\<close>).

  There is one access outside a buffer that is not \<^const>\<open>None\<close>: inserting at the start of the line reads \<^verbatim>\<open>buf[-1]\<close>. The loop has the byte at
  that place as an argument, \<^const>\<open>None\<close> for none, and the caller passes the byte of the member before \<^verbatim>\<open>buf\<close> in the structure.
\<close>

section \<open>State\<close>

definition LINE_MAX :: nat where [config]: "LINE_MAX = 50"
definition SHELL_ARG_CNT :: nat where [config]: "SHELL_ARG_CNT = 10"

datatype hptr = Hist_Head | Hist_Node nat

record shell =
  sh_cursor_pos :: int
  sh_char_cnt :: int
  sh_prompt_len :: int
  sh_buf :: string
  sh_prompt :: string
  sh_input_backup :: string
  sh_show_autocompl :: bool
  sh_autocompl_cursor_pos :: int
  sh_autocompl_cnt :: int
  sh_autocompl_curr :: int
  sh_autocompl :: "string list option"
  sh_history_max_cnt :: nat
  sh_history_cnt :: nat
  sh_show_history :: bool
  sh_history :: "string list option"
  sh_history_head :: "nat list"
  sh_history_curr :: "hptr option"
  sh_shell_cmds :: "string list option"
  sh_out :: string

text \<open>The commands are represented by their names, in the order of the table. Reads of buffers, and the length of a C string, which
  has to end within its buffer.\<close>

definition get_char :: "int \<Rightarrow> string \<Rightarrow> char option" where
  "get_char i bs = (if 0 \<le> i \<and> i < int (length bs) then Some (bs ! nat i) else None)"

definition c_string :: "string \<Rightarrow> string option" where
  "c_string bs = (if NUL \<in> set bs then Some (cstr bs) else None)"

text \<open>\<^verbatim>\<open>strncpy\<close> of \<open>n\<close> characters to the start of a buffer.\<close>

definition strncpy_to :: "nat \<Rightarrow> string \<Rightarrow> string \<Rightarrow> string option" where
  "strncpy_to n src dst =
     (if n \<le> length dst \<and> (NUL \<in> set src \<or> n \<le> length src) then Some (strncpy src n @ drop n dst) else None)"

section \<open>Console and line\<close>

definition shell_puts :: "string \<Rightarrow> shell \<Rightarrow> shell" where
  "shell_puts x s = s\<lparr>sh_out := sh_out s @ x\<rparr>"

definition NEWLINE :: string where "NEWLINE = [CHR 0x0A, CHR 0x0D]"
definition ESC :: char where "ESC = CHR 0x1B"
definition CR :: char where "CR = CHR 0x0D"

definition shell_puts_prompt :: "shell \<Rightarrow> shell option" where
  "shell_puts_prompt s = map_option (\<lambda>p. shell_puts p s) (c_string (sh_prompt s))"

definition shell_cls :: "shell \<Rightarrow> shell" where
  "shell_cls = shell_puts (ESC # ''[H'' @ ESC # ''[2J'')"

definition shell_reset_line :: "shell \<Rightarrow> shell" where
  "shell_reset_line s = s\<lparr>sh_cursor_pos := 0, sh_char_cnt := 0\<rparr>"

definition shell_reset_autocomplete :: "shell \<Rightarrow> shell" where
  "shell_reset_autocomplete s = s\<lparr>sh_show_autocompl := False\<rparr>"

definition shell_reset_history_scrolling :: "shell \<Rightarrow> shell" where
  "shell_reset_history_scrolling s = s\<lparr>sh_show_history := False\<rparr>"

definition shell_ctrl_c_handler :: "shell \<Rightarrow> shell option" where
  "shell_ctrl_c_handler s = do {
     s1 \<leftarrow> shell_puts_prompt (shell_puts (''^C'' @ NEWLINE) (shell_reset_history_scrolling (shell_reset_autocomplete s)));
     Some (shell_reset_line s1)
   }"

definition shell_unknown_cmd_handler :: "string \<Rightarrow> shell \<Rightarrow> shell option" where
  "shell_unknown_cmd_handler argv0 s =
     map_option (\<lambda>(t, _). shell_puts t s) (lib_vsnprintf (50 + LINE_MAX) (''unknown command: %s'' @ NEWLINE) [Str argv0])"

definition init_buf :: "string \<Rightarrow> string option" where
  "init_buf bs = put_char 0 NUL bs"

text \<open>The members that are not set keep what was in the structure before.\<close>

definition shell_init ::
  "string list \<Rightarrow> string list option \<Rightarrow> nat \<Rightarrow> string list option \<Rightarrow> shell \<Rightarrow> shell option" where
  "shell_init cmds history history_max_cnt autocompl s = do {
     p \<leftarrow> init_buf (sh_prompt s);
     b \<leftarrow> init_buf (sh_buf s);
     a \<leftarrow> (case autocompl of None \<Rightarrow> if cmds = [] then Some None else None
           | Some as \<Rightarrow> if length cmds \<le> length as \<and> (\<forall>x \<in> set (take (length cmds) as). x \<noteq> [])
                        then Some (Some (map (\<lambda>x. x[0 := NUL]) (take (length cmds) as) @ drop (length cmds) as)) else None);
     Some (s\<lparr>sh_prompt := p, sh_prompt_len := 0, sh_cursor_pos := 0, sh_buf := b, sh_char_cnt := 0, sh_shell_cmds := Some cmds,
             sh_history := history, sh_history_cnt := 0, sh_history_max_cnt := history_max_cnt, sh_show_history := False,
             sh_show_autocompl := False, sh_autocompl := a, sh_autocompl_curr := 0, sh_autocompl_cnt := 0, sh_history_head := []\<rparr>)
   }"

definition shell_init_minimal :: "shell \<Rightarrow> shell option" where
  "shell_init_minimal s = do {
     p \<leftarrow> init_buf (sh_prompt s);
     b \<leftarrow> init_buf (sh_buf s);
     Some (s\<lparr>sh_prompt := p, sh_prompt_len := 0, sh_cursor_pos := 0, sh_buf := b, sh_char_cnt := 0, sh_shell_cmds := None,
             sh_history := None, sh_history_cnt := 0, sh_history_max_cnt := 0, sh_show_history := False,
             sh_show_autocompl := False, sh_autocompl := None, sh_autocompl_curr := 0, sh_autocompl_cnt := 0, sh_history_head := []\<rparr>)
   }"

definition shell_set_prompt :: "string \<Rightarrow> shell \<Rightarrow> shell option" where
  "shell_set_prompt new_prompt s = do {
     p \<leftarrow> strncpy_to (LINE_MAX - 1) new_prompt (sh_prompt s);
     t \<leftarrow> c_string p;
     Some (s\<lparr>sh_prompt := p, sh_prompt_len := int (length t)\<rparr>)
   }"

section \<open>Editing\<close>

text \<open>The loop of \<^verbatim>\<open>shell_remove_char\<close>, from \<open>i\<close> to \<open>char_cnt\<close>.\<close>

function remove_loop :: "int \<Rightarrow> int \<Rightarrow> string \<Rightarrow> string option" where
  "remove_loop char_cnt i bs =
     (if i < char_cnt then do {
        c \<leftarrow> get_char (i + 1) bs;
        bs1 \<leftarrow> put_char i c bs;
        remove_loop char_cnt (i + 1) bs1
      } else Some bs)"
  by auto
termination by (relation "measure (\<lambda>(char_cnt, i, _). nat (char_cnt - i))") auto

definition shell_remove_char :: "int \<Rightarrow> shell \<Rightarrow> shell option" where
  "shell_remove_char remove_pos s = do {
     b \<leftarrow> remove_loop (sh_char_cnt s) (remove_pos - 1) (sh_buf s);
     b1 \<leftarrow> put_char (sh_char_cnt s) NUL b;
     let cnt = sh_char_cnt s - 1; cur = sh_cursor_pos s - 1 in
       Some (s\<lparr>sh_buf := b1, sh_char_cnt := cnt, sh_cursor_pos := (if cur > cnt then cnt else cur)\<rparr>)
   }"

text \<open>The loop of \<^verbatim>\<open>shell_insert_char\<close>, from \<open>i\<close> down to the cursor. At the start of the line it reads the byte before the
  buffer, \<open>before\<close>: an access outside the buffer, that has a value only when there is such a byte.\<close>

definition get_before :: "char option \<Rightarrow> int \<Rightarrow> string \<Rightarrow> char option" where
  "get_before before i bs = (if i = - 1 then before else get_char i bs)"

function insert_loop :: "char option \<Rightarrow> int \<Rightarrow> int \<Rightarrow> string \<Rightarrow> string option" where
  "insert_loop before cursor_pos i bs =
     (if i > cursor_pos - 1 then do {
        c \<leftarrow> get_before before (i - 1) bs;
        bs1 \<leftarrow> put_char i c bs;
        insert_loop before cursor_pos (i - 1) bs1
      } else Some bs)"
  by auto
termination by (relation "measure (\<lambda>(_, cursor_pos, i, _). nat (i - cursor_pos + 1))") auto

text \<open>The byte before \<^verbatim>\<open>buf\<close> in \<^verbatim>\<open>struct shell\<close> is the most significant byte of the member \<^verbatim>\<open>prompt_len\<close>.\<close>

definition byte_before_buf :: "shell \<Rightarrow> char" where
  "byte_before_buf s = char_of (nat (sh_prompt_len s div 2 ^ 24 mod 256))"

declare remove_loop.simps [simp del] insert_loop.simps [simp del]

definition shell_insert_char :: "char \<Rightarrow> shell \<Rightarrow> shell option" where
  "shell_insert_char c s = do {
     b \<leftarrow> insert_loop (Some (byte_before_buf s)) (sh_cursor_pos s) (sh_char_cnt s) (sh_buf s);
     b1 \<leftarrow> put_char (sh_char_cnt s + 1) NUL b;
     b2 \<leftarrow> put_char (sh_cursor_pos s) c b1;
     Some (s\<lparr>sh_buf := b2, sh_char_cnt := sh_char_cnt s + 1, sh_cursor_pos := sh_cursor_pos s + 1\<rparr>)
   }"

definition REFRESH_FORMAT :: string where
  "REFRESH_FORMAT = ESC # ''[2K'' @ CR # ''%s%s'' @ CR # ESC # ''[%dC''"

definition shell_refresh_line :: "shell \<Rightarrow> shell option" where
  "shell_refresh_line s = do {
     p \<leftarrow> c_string (sh_prompt s);
     b \<leftarrow> c_string (sh_buf s);
     (t, _) \<leftarrow> lib_vsnprintf (LINE_MAX * 5) REFRESH_FORMAT [Str p, Str b, Word (word_of_int (sh_prompt_len s + sh_cursor_pos s))];
     Some (shell_puts t s)
   }"

definition shell_cursor_shift_one_left :: "shell \<Rightarrow> shell option" where
  "shell_cursor_shift_one_left s =
     (if sh_cursor_pos s \<le> 0 then Some s else shell_refresh_line (s\<lparr>sh_cursor_pos := sh_cursor_pos s - 1\<rparr>))"

definition shell_cursor_shift_one_right :: "shell \<Rightarrow> shell option" where
  "shell_cursor_shift_one_right s =
     (if sh_cursor_pos s \<ge> sh_char_cnt s then Some s else shell_refresh_line (s\<lparr>sh_cursor_pos := sh_cursor_pos s + 1\<rparr>))"

definition shell_ctrl_a_handler :: "shell \<Rightarrow> shell option" where
  "shell_ctrl_a_handler s = shell_refresh_line (s\<lparr>sh_cursor_pos := 0\<rparr>)"

definition shell_ctrl_e_handler :: "shell \<Rightarrow> shell option" where
  "shell_ctrl_e_handler s = (if sh_char_cnt s = 0 then Some s else shell_refresh_line (s\<lparr>sh_cursor_pos := sh_char_cnt s\<rparr>))"

definition shell_ctrl_u_handler :: "shell \<Rightarrow> shell option" where
  "shell_ctrl_u_handler s = do {
     b \<leftarrow> put_char 0 NUL (sh_buf s);
     shell_refresh_line (s\<lparr>sh_buf := b, sh_char_cnt := 0, sh_cursor_pos := 0\<rparr>)
   }"

definition shell_home_handler :: "shell \<Rightarrow> shell option" where
  "shell_home_handler s = shell_refresh_line (s\<lparr>sh_cursor_pos := 0\<rparr>)"

definition shell_end_handler :: "shell \<Rightarrow> shell option" where
  "shell_end_handler s = (if sh_char_cnt s = 0 then Some s else shell_refresh_line (s\<lparr>sh_cursor_pos := sh_char_cnt s\<rparr>))"

definition shell_delete_handler :: "shell \<Rightarrow> shell option" where
  "shell_delete_handler s =
     (if sh_char_cnt s = 0 \<or> sh_cursor_pos s = sh_char_cnt s then Some s
      else do {
        s1 \<leftarrow> shell_remove_char (sh_cursor_pos s + 1) (shell_reset_history_scrolling (shell_reset_autocomplete s));
        shell_refresh_line (s1\<lparr>sh_cursor_pos := sh_cursor_pos s1 + 1\<rparr>)
      })"

definition shell_backspace_handler :: "shell \<Rightarrow> shell option" where
  "shell_backspace_handler s =
     (if sh_char_cnt s = 0 \<or> sh_cursor_pos s = 0 then Some s
      else shell_remove_char (sh_cursor_pos s) (shell_reset_history_scrolling (shell_reset_autocomplete s)) \<bind> shell_refresh_line)"

section \<open>History\<close>

text \<open>The links of the circular list with the head \<^verbatim>\<open>history_head\<close>.\<close>

definition hist_prev :: "nat list \<Rightarrow> hptr \<Rightarrow> hptr option" where
  "hist_prev xs p =
     (case p of
        Hist_Head \<Rightarrow> Some (if xs = [] then Hist_Head else Hist_Node (last xs))
      | Hist_Node n \<Rightarrow> if n \<in> set xs then
          (let pre = takeWhile (\<lambda>x. x \<noteq> n) xs in Some (if pre = [] then Hist_Head else Hist_Node (last pre))) else None)"

definition hist_next :: "nat list \<Rightarrow> hptr \<Rightarrow> hptr option" where
  "hist_next xs p =
     (case p of
        Hist_Head \<Rightarrow> Some (if xs = [] then Hist_Head else Hist_Node (hd xs))
      | Hist_Node n \<Rightarrow> if n \<in> set xs then
          (let post = tl (dropWhile (\<lambda>x. x \<noteq> n) xs) in Some (if post = [] then Hist_Head else Hist_Node (hd post))) else None)"

text \<open>The command of a node of the history.\<close>

definition hist_cmd :: "shell \<Rightarrow> nat \<Rightarrow> string option" where
  "hist_cmd s n = (case sh_history s of None \<Rightarrow> None | Some h \<Rightarrow> if n < length h then Some (h ! n) else None)"

definition set_hist_cmd :: "nat \<Rightarrow> shell \<Rightarrow> shell option" where
  "set_hist_cmd n s = do {
     h \<leftarrow> sh_history s;
     d \<leftarrow> hist_cmd s n;
     d1 \<leftarrow> strncpy_to LINE_MAX (sh_buf s) d;
     Some (s\<lparr>sh_history := Some (h[n := d1])\<rparr>)
   }"

definition shell_push_new_history :: "shell \<Rightarrow> shell option" where
  "shell_push_new_history s =
     (case sh_history s of None \<Rightarrow> Some s
      | Some _ \<Rightarrow> do {
          s2 \<leftarrow>
            (if sh_history_cnt s < sh_history_max_cnt s then do {
               let n = sh_history_max_cnt s - sh_history_cnt s - 1;
               s1 \<leftarrow> set_hist_cmd n (s\<lparr>sh_history_cnt := sh_history_cnt s + 1\<rparr>);
               if n \<in> set (sh_history_head s1) then None else Some (s1\<lparr>sh_history_head := sh_history_head s1 @ [n]\<rparr>)
             }
             else case sh_history_head s of [] \<Rightarrow> None
               | n # ns \<Rightarrow> do {
                   s1 \<leftarrow> set_hist_cmd n (s\<lparr>sh_history_head := ns\<rparr>);
                   Some (s1\<lparr>sh_history_head := sh_history_head s1 @ [n]\<rparr>)
                 });
          Some (s2\<lparr>sh_history_curr := Some Hist_Head, sh_show_history := False\<rparr>)
        })"

text \<open>The common end of the two arrow handlers: the entry is shown, or at the head the saved input.\<close>

definition show_history_entry :: "hptr \<Rightarrow> shell \<Rightarrow> shell option" where
  "show_history_entry p s = do {
     s1 \<leftarrow> (case p of
        Hist_Head \<Rightarrow> do {
          b \<leftarrow> strncpy_to LINE_MAX (sh_input_backup s) (sh_buf s);
          Some (s\<lparr>sh_history_curr := Some p, sh_buf := b, sh_show_history := False\<rparr>)
        }
      | Hist_Node n \<Rightarrow> do {
          cmd \<leftarrow> hist_cmd s n;
          b \<leftarrow> strncpy_to LINE_MAX cmd (sh_buf s);
          Some (s\<lparr>sh_history_curr := Some p, sh_buf := b\<rparr>)
        });
     t \<leftarrow> c_string (sh_buf s1);
     shell_refresh_line (s1\<lparr>sh_char_cnt := int (length t), sh_cursor_pos := int (length t)\<rparr>)
   }"

definition shell_up_arrow_handler :: "shell \<Rightarrow> shell option" where
  "shell_up_arrow_handler s =
     (if sh_history s = None \<or> sh_history_head s = [] then Some s
      else do {
        s1 \<leftarrow> (if \<not> sh_show_history s then do {
                 b \<leftarrow> strncpy_to LINE_MAX (sh_buf s) (sh_input_backup s);
                 Some (s\<lparr>sh_input_backup := b, sh_show_history := True\<rparr>)
               } else Some s);
        p \<leftarrow> sh_history_curr s1;
        q \<leftarrow> hist_prev (sh_history_head s1) p;
        show_history_entry q s1
      })"

definition shell_down_arrow_handler :: "shell \<Rightarrow> shell option" where
  "shell_down_arrow_handler s =
     (if sh_history s = None \<or> \<not> sh_show_history s then Some s
      else do {
        p \<leftarrow> sh_history_curr s;
        q \<leftarrow> hist_next (sh_history_head s) p;
        show_history_entry q s
      })"

text \<open>The loop of \<^verbatim>\<open>shell_print_history\<close>, \<open>i\<close> entries being printed.\<close>

primrec print_entries :: "nat \<Rightarrow> nat list \<Rightarrow> shell \<Rightarrow> shell option" where
  "print_entries i [] s = Some s"
| "print_entries i (n # ns) s = do {
     cmd \<leftarrow> hist_cmd s n;
     x \<leftarrow> c_string cmd;
     (t, _) \<leftarrow> lib_vsnprintf (LINE_MAX * 3) (''%d %s'' @ NEWLINE) [Word (word_of_nat (i + 1)), Str x];
     print_entries (i + 1) ns (shell_puts t s)
   }"

definition shell_print_history :: "shell \<Rightarrow> shell option" where
  "shell_print_history s = (if sh_history s = None then Some s else print_entries 0 (sh_history_head s) s)"

section \<open>Completion\<close>

text \<open>\<^verbatim>\<open>strncmp\<close> of \<open>n\<close> characters: whether the result is zero.\<close>

fun strncmp_eq :: "nat \<Rightarrow> string \<Rightarrow> string \<Rightarrow> bool option" where
  "strncmp_eq 0 xs ys = Some True"
| "strncmp_eq (Suc n) (x # xs) (y # ys) = (if x \<noteq> y then Some False else if x = NUL then Some True else strncmp_eq n xs ys)"
| "strncmp_eq (Suc n) xs ys = None"

text \<open>\<^verbatim>\<open>memcpy\<close> of \<open>cnt\<close> bytes from \<open>from\<close> in one buffer to \<open>to\<close> in another.\<close>

definition copy_bytes :: "string \<Rightarrow> int \<Rightarrow> int \<Rightarrow> int \<Rightarrow> string \<Rightarrow> string option" where
  "copy_bytes src from cnt to dst =
     (if 0 \<le> from \<and> 0 \<le> cnt \<and> 0 \<le> to \<and> from + cnt \<le> int (length src) \<and> to + cnt \<le> int (length dst)
      then Some (take (nat to) dst @ take (nat cnt) (drop (nat from) src) @ drop (nat (to + cnt)) dst) else None)"

text \<open>The candidate for a command whose name matches.\<close>

definition suggest_candidate :: "int \<Rightarrow> int \<Rightarrow> string \<Rightarrow> shell \<Rightarrow> string \<Rightarrow> string option" where
  "suggest_candidate argv0_start argv0_end name s dst = do {
     b \<leftarrow> c_string (sh_buf s);
     n \<leftarrow> c_string name;
     d1 \<leftarrow> copy_bytes (sh_buf s) 0 argv0_start 0 dst;
     d2 \<leftarrow> copy_bytes n 0 (int (length n)) argv0_start d1;
     let p = argv0_start + int (length n);
     let cnt = argv0_end - sh_cursor_pos s;
     d3 \<leftarrow> copy_bytes (sh_buf s) (sh_cursor_pos s) cnt p d2;
     let cnt2 = int (length b) - argv0_end;
     d4 \<leftarrow> copy_bytes (sh_buf s) argv0_end cnt2 (p + cnt) d3;
     put_char (p + cnt + cnt2) NUL d4
   }"

primrec suggest_loop :: "int \<Rightarrow> int \<Rightarrow> string list \<Rightarrow> shell \<Rightarrow> shell option" where
  "suggest_loop argv0_start argv0_end [] s = Some s"
| "suggest_loop argv0_start argv0_end (name # names) s = do {
     m \<leftarrow> (if argv0_start < 0 \<or> int (length (sh_buf s)) < argv0_start \<or> sh_cursor_pos s < argv0_start then None
           else strncmp_eq (nat (sh_cursor_pos s - argv0_start)) (drop (nat argv0_start) (sh_buf s)) name);
     s1 \<leftarrow> (if m then do {
              as \<leftarrow> sh_autocompl s;
              d \<leftarrow> (if 0 \<le> sh_autocompl_cnt s \<and> sh_autocompl_cnt s < int (length as) then Some (as ! nat (sh_autocompl_cnt s)) else None);
              d1 \<leftarrow> suggest_candidate argv0_start argv0_end name s d;
              Some (s\<lparr>sh_autocompl := Some (as[nat (sh_autocompl_cnt s) := d1]), sh_autocompl_cnt := sh_autocompl_cnt s + 1\<rparr>)
            } else Some s);
     suggest_loop argv0_start argv0_end names s1
   }"

definition shell_generate_suggest_words :: "int \<Rightarrow> int \<Rightarrow> shell \<Rightarrow> shell option" where
  "shell_generate_suggest_words argv0_start argv0_end s =
     suggest_loop argv0_start argv0_end (case sh_shell_cmds s of None \<Rightarrow> [] | Some names \<Rightarrow> names) (s\<lparr>sh_autocompl_cnt := 0\<rparr>)"

text \<open>The loops that look for the start and the end of the first argument.\<close>

function skip_while :: "bool \<Rightarrow> int \<Rightarrow> string \<Rightarrow> int \<Rightarrow> int option" where
  "skip_while space char_cnt bs i = do {
     c \<leftarrow> get_char i bs;
     if (c = CHR '' '') = space \<and> i < char_cnt then skip_while space char_cnt bs (i + 1) else Some i
   }"
  by auto
termination by (relation "measure (\<lambda>(_, char_cnt, _, i). nat (char_cnt - i))") auto

declare skip_while.simps [simp del]

definition start_autocomplete :: "int \<Rightarrow> int \<Rightarrow> shell \<Rightarrow> shell option" where
  "start_autocomplete argv0_start argv0_end s = do {
     b \<leftarrow> strncpy_to LINE_MAX (sh_buf s) (sh_input_backup s);
     s1 \<leftarrow> shell_generate_suggest_words argv0_start argv0_end (s\<lparr>sh_input_backup := b\<rparr>);
     Some (s1\<lparr>sh_autocompl_cursor_pos := sh_cursor_pos s1, sh_autocompl_curr := 0, sh_show_autocompl := True\<rparr>)
   }"

definition show_candidate :: "shell \<Rightarrow> shell option" where
  "show_candidate s = do {
     s1 \<leftarrow> (if sh_autocompl_curr s = sh_autocompl_cnt s then do {
              b \<leftarrow> strncpy_to LINE_MAX (sh_input_backup s) (sh_buf s);
              Some (shell_reset_autocomplete (s\<lparr>sh_buf := b\<rparr>))
            } else do {
              as \<leftarrow> sh_autocompl s;
              c \<leftarrow> (if 0 \<le> sh_autocompl_curr s \<and> sh_autocompl_curr s < int (length as) then Some (as ! nat (sh_autocompl_curr s)) else None);
              b \<leftarrow> strncpy_to LINE_MAX c (sh_buf s);
              Some (s\<lparr>sh_buf := b\<rparr>)
            });
     t \<leftarrow> c_string (sh_buf s1);
     shell_refresh_line (s1\<lparr>sh_autocompl_curr := sh_autocompl_curr s1 + 1, sh_char_cnt := int (length t)\<rparr>)
   }"

definition shell_autocomplete :: "shell \<Rightarrow> shell option" where
  "shell_autocomplete s =
     (if sh_autocompl s = None then Some s
      else do {
        argv0_start \<leftarrow> skip_while True (sh_char_cnt s) (sh_buf s) 0;
        argv0_end \<leftarrow> skip_while False (sh_char_cnt s) (sh_buf s) argv0_start;
        if sh_cursor_pos s > argv0_end then Some s
        else do {
          let (a, e) = (if sh_cursor_pos s < argv0_start then (sh_cursor_pos s, sh_cursor_pos s) else (argv0_start, argv0_end));
          let s1 = (if sh_autocompl_cursor_pos s \<noteq> sh_cursor_pos s then shell_reset_autocomplete s else s);
          s2 \<leftarrow> (if \<not> sh_show_autocompl s1 then start_autocomplete a e s1 else Some s1);
          show_candidate s2
        }
      })"

section \<open>Reading a line\<close>

text \<open>The keys, by the number of the character.\<close>

definition key :: "char \<Rightarrow> nat" where "key c = of_char c"

text \<open>The control characters without a function, with the null character.\<close>

definition ignored_key :: "char \<Rightarrow> bool" where
  "ignored_key c \<longleftrightarrow> key c \<in> {0, 4, 7, 8, 10, 11, 12, 14, 15, 16, 17, 18, 19, 20, 23, 24, 25, 26}"

definition is_esc :: "char \<Rightarrow> bool" where "is_esc c \<longleftrightarrow> key c = 27"
definition is_enter :: "char \<Rightarrow> bool" where "is_enter c \<longleftrightarrow> key c = 13"

definition insert_key :: "char \<Rightarrow> shell \<Rightarrow> shell option" where
  "insert_key c s =
     (if sh_char_cnt s \<noteq> int LINE_MAX - 1
      then shell_insert_char c (shell_reset_history_scrolling (shell_reset_autocomplete s)) \<bind> shell_refresh_line
      else Some s)"

text \<open>A key of one character other than \<^verbatim>\<open>ENTER\<close> and the escape character.\<close>

definition plain_key :: "char \<Rightarrow> shell \<Rightarrow> shell option" where
  "plain_key c s =
     (if ignored_key c then Some s
      else if key c = 1 then shell_ctrl_a_handler s
      else if key c = 2 then shell_cursor_shift_one_left s
      else if key c = 3 then shell_ctrl_c_handler s
      else if key c = 5 then shell_ctrl_e_handler s
      else if key c = 6 then shell_cursor_shift_one_right s
      else if key c = 9 then shell_autocomplete s
      else if key c = 21 then shell_ctrl_u_handler s
      else if key c = 127 then shell_backspace_handler s
      else insert_key c s)"

text \<open>\<^verbatim>\<open>ENTER\<close>: whether the line is complete.\<close>

definition enter_key :: "shell \<Rightarrow> (shell \<times> bool) option" where
  "enter_key s =
     (let s1 = shell_reset_autocomplete (shell_reset_history_scrolling s) in
      if sh_char_cnt s1 > 0 then
        map_option (\<lambda>s2. (s2, True)) (shell_push_new_history (shell_reset_line (shell_puts NEWLINE s1)))
      else map_option (\<lambda>s2. (s2, False)) (shell_puts_prompt (shell_puts NEWLINE s1)))"

text \<open>The handler of the third character of an escape sequence.\<close>

definition escape_key :: "nat \<Rightarrow> shell \<Rightarrow> shell option" where
  "escape_key k s =
     (if k = 65 then shell_up_arrow_handler s
      else if k = 66 then shell_down_arrow_handler s
      else if k = 67 then shell_cursor_shift_one_right s
      else if k = 68 then shell_cursor_shift_one_left s
      else if k = 72 \<or> k = 49 then shell_home_handler s
      else if k = 70 \<or> k = 52 then shell_end_handler s
      else Some s)"

text \<open>The loop of \<^verbatim>\<open>shell_listen\<close> on the characters that arrive: the result has the characters that are left when the line is
  complete, and \<^const>\<open>None\<close> when the loop waits for more.\<close>

fun listen_loop :: "string \<Rightarrow> shell \<Rightarrow> (shell \<times> string option) option" where
  "listen_loop [] s = Some (s, None)"
| "listen_loop (c # cs) s =
     (if is_enter c then do {
        (s1, done) \<leftarrow> enter_key s;
        if done then Some (s1, Some cs) else listen_loop cs s1
      }
      else if is_esc c then
        (case cs of a # b # r \<Rightarrow>
           if key a \<noteq> 91 then listen_loop r s
           else if key b = 51 then
             (case r of [] \<Rightarrow> Some (s, None)
              | d # r1 \<Rightarrow> do { s1 \<leftarrow> (if key d = 126 then shell_delete_handler s else Some s); listen_loop r1 s1 })
           else if key b = 49 \<or> key b = 52 then do {
             s1 \<leftarrow> escape_key (key b) s;
             case r of [] \<Rightarrow> Some (s1, None) | _ # r1 \<Rightarrow> listen_loop r1 s1
           }
           else do { s1 \<leftarrow> escape_key (key b) s; listen_loop r s1 }
         | _ \<Rightarrow> Some (s, None))
      else do { s1 \<leftarrow> plain_key c s; listen_loop cs s1 })"

definition shell_listen :: "string \<Rightarrow> shell \<Rightarrow> (shell \<times> string option) option" where
  "shell_listen input s = shell_puts_prompt s \<bind> listen_loop input"

section \<open>Executing a line\<close>

text \<open>\<^verbatim>\<open>shell_split_cmd_token\<close>: the arguments are positions in the buffer, whose separators are overwritten by null characters.\<close>

function skip_spaces :: "string \<Rightarrow> int \<Rightarrow> int option" where
  "skip_spaces bs i = do {
     c \<leftarrow> get_char i bs;
     if c = CHR '' '' then skip_spaces bs (i + 1) else Some i
   }"
  by auto
termination by (relation "measure (\<lambda>(bs, i). nat (int (length bs) - i))") (auto simp: get_char_def split: if_splits)

declare skip_spaces.simps [simp del]

lemma skip_spaces_ge: "skip_spaces bs i = Some j \<Longrightarrow> i \<le> j"
proof (induction bs i rule: skip_spaces.induct)
  case (1 bs i)
  from "1.prems" obtain c where c: "get_char i bs = Some c" "(if c = CHR '' '' then skip_spaces bs (i + 1) else Some i) = Some j"
    by (auto simp: skip_spaces.simps [of bs i] bind_eq_Some_iff)
  show ?case using 1(1) [OF c(1)] c(2) by (cases "c = CHR '' ''") auto
qed

function split_tokens :: "int \<Rightarrow> int \<Rightarrow> string \<Rightarrow> int list \<Rightarrow> (string \<times> int list) option" where
  "split_tokens len i bs argv =
     (if i < len then do {
        c \<leftarrow> get_char i bs;
        if c = CHR '' '' then do {
          bs1 \<leftarrow> put_char i NUL bs;
          j \<leftarrow> skip_spaces bs1 (i + 1);
          if j = len then Some (bs1, argv)
          else split_tokens len (j + 1) bs1 (if length argv \<le> SHELL_ARG_CNT - 1 then argv @ [j] else argv)
        }
        else split_tokens len (i + 1) bs argv
      } else Some (bs, argv))"
  by auto
termination by (relation "measure (\<lambda>(len, i, _). nat (len - i))") (auto dest!: skip_spaces_ge)

declare split_tokens.simps [simp del]

definition shell_split_cmd_token :: "string \<Rightarrow> (string \<times> int list) option" where
  "shell_split_cmd_token cmd = do {
     t \<leftarrow> c_string cmd;
     i \<leftarrow> skip_while True (int (length t)) cmd 0;
     split_tokens (int (length t)) i cmd [i]
   }"

text \<open>The string at a position.\<close>

definition token_at :: "string \<Rightarrow> int \<Rightarrow> string option" where
  "token_at bs i = (if 0 \<le> i \<and> i \<le> int (length bs) then c_string (drop (nat i) bs) else None)"

primrec all_some :: "'b option list \<Rightarrow> 'b list option" where
  "all_some [] = Some []"
| "all_some (x # xs) = (case x of None \<Rightarrow> None | Some y \<Rightarrow> map_option (Cons y) (all_some xs))"

text \<open>The index of the first command with a name.\<close>

primrec find_cmd :: "string \<Rightarrow> string list \<Rightarrow> nat option" where
  "find_cmd x [] = None"
| "find_cmd x (n # ns) = (if cstr n = x then Some 0 else map_option Suc (find_cmd x ns))"

definition shell_execute ::
  "(nat \<Rightarrow> string list \<Rightarrow> shell \<Rightarrow> shell option) \<Rightarrow> shell \<Rightarrow> shell option" where
  "shell_execute handler s =
     (case sh_shell_cmds s of None \<Rightarrow> Some s
      | Some cmds \<Rightarrow> do {
          (bs, args) \<leftarrow> shell_split_cmd_token (sh_buf s);
          argv \<leftarrow> all_some (map (token_at bs) args);
          let s1 = s\<lparr>sh_buf := bs\<rparr>;
          s2 \<leftarrow> (case find_cmd (hd argv) cmds of Some k \<Rightarrow> handler k argv s1 | None \<Rightarrow> shell_unknown_cmd_handler (hd argv) s1);
          b \<leftarrow> put_char 0 NUL (sh_buf s2);
          Some (shell_reset_line (s2\<lparr>sh_buf := b\<rparr>))
        })"

section \<open>The line as a text with a cursor\<close>

text \<open>A buffer of the length of a line that holds a text.\<close>

definition line_is :: "string \<Rightarrow> string \<Rightarrow> bool" where
  "line_is t bs \<longleftrightarrow> length bs = LINE_MAX \<and> NUL \<notin> set t \<and> (\<exists>r. bs = t @ NUL # r)"

lemma line_isD:
  assumes "line_is t bs"
  shows "length bs = 50" "length t \<le> 49" "cstr bs = t" "c_string bs = Some t"
  using assms by (auto simp: line_is_def config cstr_def c_string_def takeWhile_append)

lemma cstr_line_is: "length bs = LINE_MAX \<Longrightarrow> NUL \<in> set bs \<Longrightarrow> line_is (cstr bs) bs"
proof -
  assume l: "length bs = LINE_MAX" "NUL \<in> set bs"
  obtain xs ys where "bs = xs @ NUL # ys" "NUL \<notin> set xs" using split_list_first [OF l(2)] by blast
  then show ?thesis using l(1) by (auto simp: line_is_def cstr_def takeWhile_append)
qed

lemma strncpy_line: "line_is t bs \<Longrightarrow> length dst = LINE_MAX \<Longrightarrow> \<exists>b. strncpy_to LINE_MAX bs dst = Some b \<and> line_is t b"
proof -
  assume a: "line_is t bs" "length dst = LINE_MAX"
  note d = line_isD [OF a(1)]
  have "NUL \<in> set bs" using a(1) by (auto simp: line_is_def)
  moreover have "strncpy bs LINE_MAX = t @ NUL # replicate (49 - length t) NUL"
    using d(2) by (simp add: strncpy_def d(3) config Suc_diff_le flip: replicate_Suc)
  ultimately show ?thesis using a d(2) by (auto simp: strncpy_to_def line_is_def config)
qed

text \<open>The state of the editor with a text before and after the cursor, and the parts that editing leaves alone.\<close>

definition editing :: "string \<Rightarrow> string \<Rightarrow> shell \<Rightarrow> bool" where
  "editing l r s \<longleftrightarrow> line_is (l @ r) (sh_buf s) \<and> sh_char_cnt s = int (length l + length r) \<and> sh_cursor_pos s = int (length l)
     \<and> line_is (cstr (sh_prompt s)) (sh_prompt s) \<and> sh_prompt_len s = int (length (cstr (sh_prompt s)))"

definition edited :: "shell \<Rightarrow> shell \<Rightarrow> bool" where
  "edited s s' \<longleftrightarrow> s' = s\<lparr>sh_buf := sh_buf s', sh_char_cnt := sh_char_cnt s', sh_cursor_pos := sh_cursor_pos s',
     sh_show_autocompl := sh_show_autocompl s', sh_show_history := sh_show_history s', sh_out := sh_out s'\<rparr>"

lemma editedI:
  "s' = s\<lparr>sh_buf := b, sh_char_cnt := n, sh_cursor_pos := c, sh_show_autocompl := a, sh_show_history := h, sh_out := x\<rparr> \<Longrightarrow> edited s s'"
  by (simp add: edited_def)

lemma editedE:
  assumes "edited s s'"
  obtains b n c a h x where "s' = s\<lparr>sh_buf := b, sh_char_cnt := n, sh_cursor_pos := c, sh_show_autocompl := a, sh_show_history := h, sh_out := x\<rparr>"
  using assms unfolding edited_def by blast

lemma edited_refl: "edited s s"
  by (simp add: edited_def)

lemma edited_trans: "edited s s1 \<Longrightarrow> edited s1 s2 \<Longrightarrow> edited s s2"
  by (elim editedE) (simp add: edited_def)

text \<open>What the screen shows.\<close>

definition refresh_text :: "string \<Rightarrow> string \<Rightarrow> nat \<Rightarrow> string" where
  "refresh_text p t n = ESC # ''[2K'' @ CR # p @ t @ CR # ESC # ''['' @ numeral_text 10 n @ ''C''"

lemma numeral_small: "n < 100 \<Longrightarrow> length (numeral_text 10 n) \<le> 2"
  using digits_length_base [of 10 10 n 2] by (simp add: numeral_text_def)

lemma parse_refresh:
  "parse_format REFRESH_FORMAT = Some (map Lit (ESC # ''[2K'' @ [CR]) @ [Dir False 0 (CHR ''s''), Dir False 0 (CHR ''s'')]
     @ map Lit [CR, ESC, CHR ''[''] @ [Dir False 0 (CHR ''d''), Lit (CHR ''C'')])"
  by (simp add: REFRESH_FORMAT_def is_digit_def is_spec_def ESC_def CR_def)

lemma refresh_ok:
  assumes "editing l r s"
  shows "shell_refresh_line s = Some (s\<lparr>sh_out := sh_out s @ refresh_text (cstr (sh_prompt s)) (l @ r) (length (cstr (sh_prompt s)) + length l)\<rparr>)"
proof -
  let ?p = "cstr (sh_prompt s)" and ?n = "length (cstr (sh_prompt s)) + length l"
  have e: "line_is (l @ r) (sh_buf s)" "line_is ?p (sh_prompt s)" "sh_prompt_len s + sh_cursor_pos s = int ?n" using assms by (simp_all add: editing_def)
  note b = line_isD [OF e(1)] and p = line_isD [OF e(2)]
  have n: "?n < 100" using b(2) p(2) by simp
  define w :: u32 where "w = word_of_int (int ?n)"
  have "sint w = int ?n" using sint_small [of ?n] n by (simp add: w_def)
  then have d: "lib_directive False 0 (CHR ''d'') (Word w) = Some (numeral_text 10 ?n)"
    by (simp add: lib_directive_def lib_signed_def padded_def Let_def del: of_nat_add)
  have x: "lib_directive False 0 (CHR ''s'') (Str x) = Some x" for x by (simp add: lib_directive_def padded_def)
  have "lib_format REFRESH_FORMAT [Str ?p, Str (l @ r), Word w] = Some (refresh_text ?p (l @ r) ?n)"
    by (simp add: lib_format_def parse_refresh d x refresh_text_def)
  moreover have "length (refresh_text ?p (l @ r) ?n) < 250" using b(2) p(2) numeral_small [OF n] by (simp add: refresh_text_def)
  ultimately have "lib_vsnprintf 250 REFRESH_FORMAT [Str ?p, Str (l @ r), Word w] = Some (refresh_text ?p (l @ r) ?n, int (length (refresh_text ?p (l @ r) ?n)))"
    by (simp add: lib_vsnprintf_def)
  then show ?thesis using b(4) p(4) unfolding w_def by (simp add: shell_refresh_line_def e(3) config shell_puts_def)
qed

lemma refresh_editing: "editing l r s \<Longrightarrow> \<exists>s'. shell_refresh_line s = Some s' \<and> editing l r s' \<and> edited s s'"
  using refresh_ok [of l r s]
  by (intro exI [of _ "s\<lparr>sh_out := sh_out s @ refresh_text (cstr (sh_prompt s)) (l @ r) (length (cstr (sh_prompt s)) + length l)\<rparr>"])
    (simp add: editing_def edited_def)

lemma remove_loop_ok:
  "remove_loop (int (length pre + 1 + length suf)) (int (length pre)) (pre @ x # suf @ y # rest) = Some (pre @ suf @ y # y # rest)"
proof (induction suf arbitrary: pre x)
  case Nil
  show ?case by (simp add: remove_loop.simps get_char_def put_char_def nat_add_distrib nth_append list_update_append)
next
  case (Cons a suf)
  have "get_char (int (length pre) + 1) (pre @ x # a # suf @ y # rest) = Some a" by (simp add: get_char_def nat_add_distrib nth_append)
  moreover have "put_char (int (length pre)) a (pre @ x # a # suf @ y # rest) = Some ((pre @ [a]) @ a # suf @ y # rest)" by (simp add: put_char_def list_update_append)
  moreover have "remove_loop (int (length pre + 1 + length (a # suf))) (int (length pre) + 1) ((pre @ [a]) @ a # suf @ y # rest) = Some (pre @ (a # suf) @ y # y # rest)"
    using Cons.IH [of "pre @ [a]" a] by (simp add: add.commute add.left_commute)
  ultimately show ?case by (subst remove_loop.simps) simp
qed

lemma insert_loop_ok:
  "insert_loop b (int (length pre)) (int (length pre + length suf)) (pre @ suf @ x # rest)
     = (if pre = [] then map_option (\<lambda>z. z # suf @ rest) b else Some (pre @ last pre # suf @ rest))"
proof (induction suf arbitrary: x rest rule: rev_induct)
  case Nil
  have p: "put_char (int (length pre)) z (pre @ x # rest) = Some (pre @ z # rest)" for z by (simp add: put_char_def list_update_append)
  have e: "insert_loop b (int (length pre)) (int (length pre) - 1) (pre @ z # rest) = Some (pre @ z # rest)" for z by (subst insert_loop.simps) simp
  have g: "get_before b (int (length pre) - 1) (pre @ x # rest) = (if pre = [] then b else Some (last pre))"
    by (cases pre rule: rev_cases) (auto simp: get_before_def get_char_def)
  show ?case using g p e by (subst insert_loop.simps) (cases b; auto)
next
  case (snoc y suf)
  let ?i = "int (length pre + length (suf @ [y]))"
  have "get_before b (?i - 1) (pre @ (suf @ [y]) @ x # rest) = Some y" by (simp add: get_before_def get_char_def nth_append nat_add_distrib)
  moreover have "put_char ?i y (pre @ (suf @ [y]) @ x # rest) = Some (pre @ suf @ y # y # rest)"
    by (simp add: put_char_def list_update_append nat_add_distrib)
  ultimately have "insert_loop b (int (length pre)) ?i (pre @ (suf @ [y]) @ x # rest) = insert_loop b (int (length pre)) (int (length pre + length suf)) (pre @ suf @ y # y # rest)"
    by (subst insert_loop.simps) simp
  then show ?case using snoc.IH [of y "y # rest"] by simp
qed

section \<open>The editor\<close>

text \<open>The reference: a text with a cursor as the part before it and the part after it.\<close>

datatype edit = Insert char | Move_Left | Move_Right | Move_Home | Move_End | Erase_Left | Erase_Right | Erase_All

primrec apply_edit :: "edit \<Rightarrow> string \<times> string \<Rightarrow> string \<times> string" where
  "apply_edit (Insert c) lr = (case lr of (l, r) \<Rightarrow> if length l + length r < LINE_MAX - 1 then (l @ [c], r) else (l, r))"
| "apply_edit Move_Left lr = (case lr of (l, r) \<Rightarrow> if l = [] then (l, r) else (butlast l, last l # r))"
| "apply_edit Move_Right lr = (case lr of (l, r) \<Rightarrow> if r = [] then (l, r) else (l @ [hd r], tl r))"
| "apply_edit Move_Home lr = (case lr of (l, r) \<Rightarrow> ([], l @ r))"
| "apply_edit Move_End lr = (case lr of (l, r) \<Rightarrow> (l @ r, []))"
| "apply_edit Erase_Left lr = (case lr of (l, r) \<Rightarrow> (butlast l, r))"
| "apply_edit Erase_Right lr = (case lr of (l, r) \<Rightarrow> (l, tl r))"
| "apply_edit Erase_All lr = ([], [])"

text \<open>The characters that stand for themselves, and the keys of each operation.\<close>

definition ordinary :: "char \<Rightarrow> bool" where
  "ordinary c \<longleftrightarrow> \<not> ignored_key c \<and> key c \<notin> {1, 2, 3, 5, 6, 9, 13, 21, 27, 127}"

primrec key_texts :: "edit \<Rightarrow> string set" where
  "key_texts (Insert c) = (if ordinary c then {[c]} else {})"
| "key_texts Move_Left = {[CHR 0x02], ESC # ''[D''}"
| "key_texts Move_Right = {[CHR 0x06], ESC # ''[C''}"
| "key_texts Move_Home = {[CHR 0x01], ESC # ''[H'', ESC # ''[1~''}"
| "key_texts Move_End = {[CHR 0x05], ESC # ''[F'', ESC # ''[4~''}"
| "key_texts Erase_Left = {[CHR 0x7F]}"
| "key_texts Erase_Right = {ESC # ''[3~''}"
| "key_texts Erase_All = {[CHR 0x15]}"

text \<open>A handler that carries out an operation.\<close>

definition carries_out :: "(shell \<Rightarrow> shell option) \<Rightarrow> edit \<Rightarrow> bool" where
  "carries_out h e \<longleftrightarrow> (\<forall>s l r. editing l r s \<longrightarrow>
     (\<exists>s'. h s = Some s' \<and> (case apply_edit e (l, r) of (l', r') \<Rightarrow> editing l' r' s') \<and> edited s s'))"

lemma carries_outI:
  "(\<And>s l r. editing l r s \<Longrightarrow> \<exists>s'. h s = Some s' \<and> (case apply_edit e (l, r) of (l', r') \<Rightarrow> editing l' r' s') \<and> edited s s') \<Longrightarrow> carries_out h e"
  by (simp add: carries_out_def)

text \<open>A change of the line followed by a refresh.\<close>

lemma refresh_after:
  assumes "editing l' r' s1" "edited s s1"
  shows "\<exists>s'. shell_refresh_line s1 = Some s' \<and> editing l' r' s' \<and> edited s s'"
  using refresh_editing [OF assms(1)] edited_trans [OF assms(2)] by blast

lemma move_editing:
  assumes "editing l r s" "l @ r = l' @ r'"
  shows "editing l' r' (s\<lparr>sh_cursor_pos := int (length l')\<rparr>)" "edited s (s\<lparr>sh_cursor_pos := int (length l')\<rparr>)"
proof -
  have "length l + length r = length l' + length r'" using arg_cong [OF assms(2), of length] by simp
  then show "editing l' r' (s\<lparr>sh_cursor_pos := int (length l')\<rparr>)" using assms by (simp add: editing_def)
qed (simp add: edited_def)

lemma move_refresh:
  assumes "editing l r s" "l @ r = l' @ r'"
  shows "\<exists>s'. shell_refresh_line (s\<lparr>sh_cursor_pos := int (length l')\<rparr>) = Some s' \<and> editing l' r' s' \<and> edited s s'"
  by (rule refresh_after [OF move_editing [OF assms]])

lemma left_key: "carries_out shell_cursor_shift_one_left Move_Left"
proof (rule carries_outI)
  fix s l r assume e: "editing l r s"
  then have c: "sh_cursor_pos s = int (length l)" by (simp add: editing_def)
  show "\<exists>s'. shell_cursor_shift_one_left s = Some s' \<and> (case apply_edit Move_Left (l, r) of (l', r') \<Rightarrow> editing l' r' s') \<and> edited s s'"
  proof (cases l rule: rev_cases)
    case Nil
    then show ?thesis using e c by (simp add: shell_cursor_shift_one_left_def edited_refl)
  next
    case (snoc l' x)
    then show ?thesis using move_refresh [OF e, of l' "x # r"] c by (simp add: shell_cursor_shift_one_left_def)
  qed
qed

lemma right_key: "carries_out shell_cursor_shift_one_right Move_Right"
proof (rule carries_outI)
  fix s l r assume e: "editing l r s"
  then have c: "sh_cursor_pos s = int (length l)" "sh_char_cnt s = int (length l + length r)" by (simp_all add: editing_def)
  show "\<exists>s'. shell_cursor_shift_one_right s = Some s' \<and> (case apply_edit Move_Right (l, r) of (l', r') \<Rightarrow> editing l' r' s') \<and> edited s s'"
  proof (cases r)
    case Nil
    then show ?thesis using e c by (simp add: shell_cursor_shift_one_right_def edited_refl)
  next
    case (Cons x r')
    then show ?thesis using move_refresh [OF e, of "l @ [x]" r'] c by (simp add: shell_cursor_shift_one_right_def add.commute)
  qed
qed

lemma home_key: "carries_out shell_ctrl_a_handler Move_Home" "carries_out shell_home_handler Move_Home"
  by (rule carries_outI; use move_refresh [of _ _ _ "[]"] in \<open>auto simp: shell_ctrl_a_handler_def shell_home_handler_def\<close>)+

lemma end_key: "carries_out shell_ctrl_e_handler Move_End"
proof (rule carries_outI)
  fix s l r assume e: "editing l r s"
  then have c: "sh_char_cnt s = int (length (l @ r))" by (simp add: editing_def)
  show "\<exists>s'. shell_ctrl_e_handler s = Some s' \<and> (case apply_edit Move_End (l, r) of (l', r') \<Rightarrow> editing l' r' s') \<and> edited s s'"
  proof (cases "l @ r = []")
    case False
    then have "sh_char_cnt s \<noteq> 0" unfolding c of_nat_eq_0_iff by (simp only: length_0_conv not_False_eq_True)
    then show ?thesis using move_refresh [OF e, of "l @ r" "[]"] c by (simp add: shell_ctrl_e_handler_def)
  qed (use e c in \<open>simp add: shell_ctrl_e_handler_def edited_refl\<close>)
qed

lemma end_key2: "carries_out shell_end_handler Move_End"
proof -
  have "shell_end_handler = shell_ctrl_e_handler" by (rule ext) (simp add: shell_end_handler_def shell_ctrl_e_handler_def)
  then show ?thesis using end_key by simp
qed

lemma kill_key: "carries_out shell_ctrl_u_handler Erase_All"
proof (rule carries_outI)
  fix s l r assume e: "editing l r s"
  obtain c cs where b: "sh_buf s = c # cs" using e by (cases "sh_buf s") (auto simp: editing_def line_is_def)
  let ?s = "s\<lparr>sh_buf := NUL # cs, sh_char_cnt := 0, sh_cursor_pos := 0\<rparr>"
  have "put_char 0 NUL (sh_buf s) = Some (NUL # cs)" by (simp add: put_char_def b)
  moreover have "editing [] [] ?s" using e b by (auto simp: editing_def line_is_def)
  moreover have "edited s ?s" by (simp add: edited_def)
  ultimately show "\<exists>s'. shell_ctrl_u_handler s = Some s' \<and> (case apply_edit Erase_All (l, r) of (l', r') \<Rightarrow> editing l' r' s') \<and> edited s s'"
    using refresh_after [of "[]" "[]" ?s s] by (simp add: shell_ctrl_u_handler_def)
qed

lemma remove_char_ok:
  assumes "line_is (l @ x # r) (sh_buf s)" "sh_char_cnt s = int (length l + 1 + length r)" "sh_cursor_pos s \<le> sh_char_cnt s"
  shows "\<exists>b. shell_remove_char (int (length l) + 1) s = Some (s\<lparr>sh_buf := b, sh_char_cnt := int (length l + length r), sh_cursor_pos := sh_cursor_pos s - 1\<rparr>)
    \<and> line_is (l @ r) b"
proof -
  obtain rest where b: "sh_buf s = l @ x # r @ NUL # rest" using assms(1) by (auto simp: line_is_def)
  have rl: "remove_loop (sh_char_cnt s) (int (length l)) (sh_buf s) = Some (l @ r @ NUL # NUL # rest)"
    unfolding assms(2) b using remove_loop_ok [of l r x NUL rest] .
  have "put_char (sh_char_cnt s) NUL (l @ r @ NUL # NUL # rest) = Some (l @ r @ NUL # NUL # rest)"
    by (simp add: put_char_def assms(2) list_update_append list_update_beyond nat_add_distrib list_update_nonempty split: nat.split)
  then have "shell_remove_char (int (length l) + 1) s
      = Some (s\<lparr>sh_buf := l @ r @ NUL # NUL # rest, sh_char_cnt := int (length l + length r), sh_cursor_pos := sh_cursor_pos s - 1\<rparr>)"
    using rl assms(2,3) by (simp add: shell_remove_char_def Let_def)
  moreover have "line_is (l @ r) (l @ r @ NUL # NUL # rest)" using assms(1) unfolding b line_is_def by auto
  ultimately show ?thesis by blast
qed

abbreviation quiet :: "shell \<Rightarrow> shell" where
  "quiet s \<equiv> shell_reset_history_scrolling (shell_reset_autocomplete s)"

lemma quiet_simps:
  "sh_buf (quiet s) = sh_buf s" "sh_char_cnt (quiet s) = sh_char_cnt s" "sh_cursor_pos (quiet s) = sh_cursor_pos s" "sh_prompt_len (quiet s) = sh_prompt_len s"
  "sh_prompt (quiet s) = sh_prompt s" "editing l r (quiet s) = editing l r s" "edited s (quiet s)"
  by (simp_all add: shell_reset_history_scrolling_def shell_reset_autocomplete_def editing_def edited_def)

lemma backspace_key: "carries_out shell_backspace_handler Erase_Left"
proof (rule carries_outI)
  fix s l r assume e: "editing l r s"
  then have c: "sh_cursor_pos s = int (length l)" "sh_char_cnt s = int (length l + length r)" "line_is (l @ r) (sh_buf s)" by (simp_all add: editing_def)
  show "\<exists>s'. shell_backspace_handler s = Some s' \<and> (case apply_edit Erase_Left (l, r) of (l', r') \<Rightarrow> editing l' r' s') \<and> edited s s'"
  proof (cases l rule: rev_cases)
    case Nil
    then show ?thesis using e c by (simp add: shell_backspace_handler_def edited_refl)
  next
    case (snoc l' x)
    obtain b where b: "shell_remove_char (int (length l') + 1) (quiet s)
        = Some ((quiet s)\<lparr>sh_buf := b, sh_char_cnt := int (length l' + length r), sh_cursor_pos := sh_cursor_pos (quiet s) - 1\<rparr>)" "line_is (l' @ r) b"
      using remove_char_ok [of l' x r "quiet s"] c snoc by (auto simp: quiet_simps)
    let ?s = "(quiet s)\<lparr>sh_buf := b, sh_char_cnt := int (length l' + length r), sh_cursor_pos := sh_cursor_pos (quiet s) - 1\<rparr>"
    have "editing l' r ?s" using e b(2) c(1) snoc by (simp add: editing_def quiet_simps)
    moreover have "edited s ?s" by (simp add: edited_def shell_reset_history_scrolling_def shell_reset_autocomplete_def)
    moreover have "sh_cursor_pos s = int (length l') + 1" "sh_char_cnt s \<noteq> 0" using c snoc by simp_all
    ultimately show ?thesis using refresh_after [of l' r ?s s] b(1) snoc by (simp add: shell_backspace_handler_def)
  qed
qed

lemma delete_key: "carries_out shell_delete_handler Erase_Right"
proof (rule carries_outI)
  fix s l r assume e: "editing l r s"
  then have c: "sh_cursor_pos s = int (length l)" "sh_char_cnt s = int (length l + length r)" "line_is (l @ r) (sh_buf s)" by (simp_all add: editing_def)
  show "\<exists>s'. shell_delete_handler s = Some s' \<and> (case apply_edit Erase_Right (l, r) of (l', r') \<Rightarrow> editing l' r' s') \<and> edited s s'"
  proof (cases r)
    case Nil
    then show ?thesis using e c by (simp add: shell_delete_handler_def edited_refl)
  next
    case (Cons x r')
    obtain b where b: "shell_remove_char (int (length l) + 1) (quiet s)
        = Some ((quiet s)\<lparr>sh_buf := b, sh_char_cnt := int (length l + length r'), sh_cursor_pos := sh_cursor_pos (quiet s) - 1\<rparr>)" "line_is (l @ r') b"
      using remove_char_ok [of l x r' "quiet s"] c Cons by (auto simp: quiet_simps)
    let ?s = "(quiet s)\<lparr>sh_buf := b, sh_char_cnt := int (length l + length r'), sh_cursor_pos := sh_cursor_pos (quiet s)\<rparr>"
    have "editing l r' ?s" using e b(2) c(1) Cons by (simp add: editing_def quiet_simps)
    moreover have "edited s ?s" by (simp add: edited_def shell_reset_history_scrolling_def shell_reset_autocomplete_def)
    moreover have "sh_char_cnt s \<noteq> 0" "sh_cursor_pos s \<noteq> sh_char_cnt s" using c Cons by simp_all
    ultimately show ?thesis using refresh_after [of l r' ?s s] b(1) Cons c(1) by (simp add: shell_delete_handler_def quiet_simps)
  qed
qed

lemma insert_char_key:
  assumes "ordinary c"
  shows "carries_out (insert_key c) (Insert c)"
proof (rule carries_outI)
  fix s l r assume e: "editing l r s"
  then have p: "sh_cursor_pos s = int (length l)" "sh_char_cnt s = int (length l + length r)" "line_is (l @ r) (sh_buf s)" by (simp_all add: editing_def)
  have nz: "c \<noteq> NUL" using assms by (auto simp: ordinary_def ignored_key_def key_def NUL_def)
  show "\<exists>s'. insert_key c s = Some s' \<and> (case apply_edit (Insert c) (l, r) of (l', r') \<Rightarrow> editing l' r' s') \<and> edited s s'"
  proof (cases "length l + length r < 49")
    case False
    then show ?thesis using e p line_isD(2) [OF p(3)] by (simp add: insert_key_def edited_refl config)
  next
    case True
    obtain rest where b: "sh_buf s = l @ r @ NUL # rest" "length rest + length l + length r = 49" using p(3) by (auto simp: line_is_def config)
    obtain q qs where rest: "rest = q # qs" using b(2) True by (cases rest) auto
    obtain z where z: "insert_loop (Some (byte_before_buf s)) (int (length l)) (int (length l + length r)) (l @ r @ NUL # rest) = Some (l @ z # r @ rest)"
      using insert_loop_ok [of "Some (byte_before_buf s)" l r NUL rest] by (cases "l = []") auto
    have "put_char (int (length l + length r) + 1) NUL (l @ z # r @ rest) = Some (l @ z # r @ NUL # qs)"
      by (simp add: put_char_def rest list_update_append nat_add_distrib)
    moreover have "put_char (int (length l)) c (l @ z # r @ NUL # qs) = Some (l @ c # r @ NUL # qs)" by (simp add: put_char_def list_update_append)
    ultimately have i: "shell_insert_char c (quiet s) = Some ((quiet s)\<lparr>sh_buf := l @ c # r @ NUL # qs, sh_char_cnt := int (length l + length r) + 1, sh_cursor_pos := int (length l) + 1\<rparr>)"
      using z unfolding b(1) [symmetric] by (simp add: shell_insert_char_def byte_before_buf_def quiet_simps p)
    let ?s = "(quiet s)\<lparr>sh_buf := l @ c # r @ NUL # qs, sh_char_cnt := int (length l + length r) + 1, sh_cursor_pos := int (length l) + 1\<rparr>"
    have "editing (l @ [c]) r ?s" using e b rest nz by (auto simp: editing_def quiet_simps line_is_def config)
    moreover have "edited s ?s" by (simp add: edited_def shell_reset_history_scrolling_def shell_reset_autocomplete_def)
    ultimately show ?thesis using refresh_after [of "l @ [c]" r ?s s] i p(2) True by (simp add: insert_key_def config)
  qed
qed

lemma carries_outE:
  assumes "carries_out h e" "editing l r s"
  obtains s' l' r' where "h s = Some s'" "apply_edit e (l, r) = (l', r')" "editing l' r' s'" "edited s s'"
proof -
  obtain l' r' where a: "apply_edit e (l, r) = (l', r')" by fastforce
  with assms that show ?thesis unfolding carries_out_def by fastforce
qed

text \<open>The handler that the loop runs for a key.\<close>

lemma key_runs:
  assumes "x \<in> key_texts e"
  shows "\<exists>h. carries_out h e \<and> (\<forall>s s' rest. h s = Some s' \<longrightarrow> listen_loop (x @ rest) s = listen_loop rest s')"
proof (cases e)
  case (Insert c)
  then have c: "ordinary c" "x = [c]" using assms by (auto split: if_splits)
  then have "plain_key c s = insert_key c s" "\<not> is_enter c" "\<not> is_esc c" for s
    by (auto simp: plain_key_def ordinary_def is_enter_def is_esc_def)
  then show ?thesis using insert_char_key [OF c(1)] c(2) Insert by (intro exI [of _ "insert_key c"]) simp
qed (use assms left_key right_key home_key end_key end_key2 backspace_key delete_key kill_key in
  \<open>fastforce simp: key_def is_enter_def is_esc_def ESC_def plain_key_def ignored_key_def escape_key_def\<close>)+

lemma keys_run:
  assumes "list_all2 (\<lambda>e x. x \<in> key_texts e) es xs" "editing l r s"
  shows "\<exists>s' l' r'. (\<forall>rest. listen_loop (concat xs @ rest) s = listen_loop rest s') \<and> foldl (\<lambda>lr e. apply_edit e lr) (l, r) es = (l', r')
    \<and> editing l' r' s' \<and> edited s s'"
  using assms
proof (induction es xs arbitrary: l r s rule: list_all2_induct)
  case Nil
  then show ?case by (auto simp: edited_refl)
next
  case (Cons e es x xs)
  obtain h where h: "carries_out h e" "\<And>s s' rest. h s = Some s' \<Longrightarrow> listen_loop (x @ rest) s = listen_loop rest s'" using key_runs [OF Cons(1)] by blast
  obtain s1 l1 r1 where s1: "h s = Some s1" "apply_edit e (l, r) = (l1, r1)" "editing l1 r1 s1" "edited s s1" by (rule carries_outE [OF h(1) Cons.prems])
  obtain s' l' r' where "\<forall>rest. listen_loop (concat xs @ rest) s1 = listen_loop rest s'" "foldl (\<lambda>lr e. apply_edit e lr) (l1, r1) es = (l', r')"
      "editing l' r' s'" "edited s1 s'" using Cons.IH [OF s1(3)] by blast
  then show ?case using h(2) [OF s1(1)] s1(2) edited_trans [OF s1(4)] by auto
qed

text \<open>Inserting at the start of the line is where the byte before the buffer is read, and its value is overwritten.\<close>

lemma insert_before:
  assumes "editing l r s"
  shows "l = [] \<Longrightarrow> insert_loop None (sh_cursor_pos s) (sh_char_cnt s) (sh_buf s) = None"
    "l \<noteq> [] \<or> b \<noteq> None \<Longrightarrow> insert_loop b (sh_cursor_pos s) (sh_char_cnt s) (sh_buf s) \<bind> put_char (sh_cursor_pos s) c
       = insert_loop (Some (byte_before_buf s)) (sh_cursor_pos s) (sh_char_cnt s) (sh_buf s) \<bind> put_char (sh_cursor_pos s) c"
proof -
  from assms obtain rest where e: "sh_buf s = l @ r @ NUL # rest" "sh_char_cnt s = int (length l + length r)" "sh_cursor_pos s = int (length l)"
    by (auto simp: editing_def line_is_def)
  show "insert_loop None (sh_cursor_pos s) (sh_char_cnt s) (sh_buf s) = None" if "l = []"
    using insert_loop_ok [of None l r NUL rest] that unfolding e by simp
  show "insert_loop b (sh_cursor_pos s) (sh_char_cnt s) (sh_buf s) \<bind> put_char (sh_cursor_pos s) c
      = insert_loop (Some (byte_before_buf s)) (sh_cursor_pos s) (sh_char_cnt s) (sh_buf s) \<bind> put_char (sh_cursor_pos s) c" if "l \<noteq> [] \<or> b \<noteq> None"
    using that unfolding e insert_loop_ok by (auto simp: put_char_def)
qed

text \<open>
  C37. The line editor implements a text with a cursor: from the line \<open>l @ r\<close> with the cursor after \<open>l\<close>, any sequence of keys
  that insert, erase or move has the effect of the operations on the two parts, leaves a terminated line of at most 49 characters
  with the cursor in it, and changes nothing but the line, the output and the flags of history and completion. All its
  accesses are inside its buffers but one: an insertion at the start of the line, so the first key of every line, reads the byte
  before the line buffer. Without a byte there the insertion has no defined result; with one, the byte that the loop
  copies is overwritten by the new character, so that the result does not depend on it. An insertion elsewhere does not read it.
\<close>

theorem line_editor_refines:
  assumes "editing l r s" "list_all2 (\<lambda>e x. x \<in> key_texts e) es xs"
  shows "\<exists>s' l' r'. listen_loop (concat xs) s = Some (s', None) \<and> foldl (\<lambda>lr e. apply_edit e lr) (l, r) es = (l', r')
    \<and> editing l' r' s' \<and> length l' + length r' \<le> 49 \<and> edited s s'
    \<and> (l' = [] \<longrightarrow> insert_loop None (sh_cursor_pos s') (sh_char_cnt s') (sh_buf s') = None)
    \<and> (\<forall>b c. l' \<noteq> [] \<or> b \<noteq> None \<longrightarrow> insert_loop b (sh_cursor_pos s') (sh_char_cnt s') (sh_buf s') \<bind> put_char (sh_cursor_pos s') c
         = insert_loop (Some (byte_before_buf s')) (sh_cursor_pos s') (sh_char_cnt s') (sh_buf s') \<bind> put_char (sh_cursor_pos s') c)"
proof -
  obtain s' l' r' where "\<forall>rest. listen_loop (concat xs @ rest) s = listen_loop rest s'" "foldl (\<lambda>lr e. apply_edit e lr) (l, r) es = (l', r')"
      "editing l' r' s'" "edited s s'" using keys_run [OF assms(2,1)] by blast
  moreover from this(1) have "listen_loop (concat xs) s = Some (s', None)" by (metis append_Nil2 listen_loop.simps(1))
  moreover have "length l' + length r' \<le> 49" using calculation(3) line_isD(2) [of "l' @ r'"] unfolding editing_def by auto
  moreover note insert_before [OF calculation(3)]
  ultimately show ?thesis by blast
qed

section \<open>The arguments of a line\<close>

text \<open>The reference: the words of a text.\<close>

abbreviation nonspace :: "char \<Rightarrow> bool" where
  "nonspace c \<equiv> c \<noteq> CHR '' ''"

function words :: "string \<Rightarrow> string list" where
  "words [] = []"
| "words (c # cs) = (if nonspace c then (c # takeWhile nonspace cs) # words (dropWhile nonspace cs) else words cs)"
  by pat_completeness auto
termination by (relation "measure length") (auto simp: le_imp_less_Suc length_dropWhile_le)

lemma get_char_at: "get_char (int (length pre)) (pre @ c # rest) = Some c"
  by (simp add: get_char_def)

lemma put_char_at: "put_char (int (length pre)) d (pre @ c # rest) = Some (pre @ d # rest)"
  by (simp add: put_char_def list_update_append)

lemma skip_while_ok:
  assumes "list_all (\<lambda>c. (c = CHR '' '') = sp) xs" "int (length pre + length xs) \<le> cnt" "(y = CHR '' '') \<noteq> sp \<or> int (length pre + length xs) = cnt"
  shows "skip_while sp cnt (pre @ xs @ y # ys) (int (length pre)) = Some (int (length pre + length xs))"
  using assms
proof (induction xs arbitrary: pre)
  case Nil
  then show ?case by (subst skip_while.simps) (auto simp: get_char_at)
next
  case (Cons x xs)
  have "skip_while sp cnt ((pre @ [x]) @ xs @ y # ys) (int (length (pre @ [x]))) = Some (int (length (pre @ [x]) + length xs))"
    by (rule Cons.IH) (use Cons.prems in auto)
  then show ?case using Cons.prems by (subst skip_while.simps) (simp add: get_char_at add.commute)
qed

lemma skip_spaces_ok:
  assumes "list_all (\<lambda>c. c = CHR '' '') xs" "y \<noteq> CHR '' ''"
  shows "skip_spaces (pre @ xs @ y # ys) (int (length pre)) = Some (int (length pre + length xs))"
  using assms(1)
proof (induction xs arbitrary: pre)
  case Nil
  then show ?case using assms(2) by (subst skip_spaces.simps) (simp add: get_char_at)
next
  case (Cons x xs)
  then show ?case using Cons.IH [of "pre @ [x]"] by (subst skip_spaces.simps) (simp add: get_char_at add.commute)
qed

lemma spaces_split:
  obtains k u where "x = replicate k (CHR '' '') @ u" "u = [] \<or> nonspace (hd u)" "words x = words u"
proof -
  have w: "words (replicate k (CHR '' '') @ u) = words u" for k u by (induction k) simp_all
  let ?t = "takeWhile (\<lambda>c. c = CHR '' '') x" and ?d = "dropWhile (\<lambda>c. c = CHR '' '') x"
  have "replicate (length ?t) (CHR '' '') = ?t" by (rule replicate_eqI [symmetric]) (auto dest: set_takeWhileD)
  then have x: "x = replicate (length ?t) (CHR '' '') @ ?d" by simp
  have "?d = [] \<or> nonspace (hd ?d)" using hd_dropWhile [of "\<lambda>c. c = CHR '' ''" x] by blast
  then show ?thesis using that [OF x] w [of "length ?t" ?d] x by simp
qed

lemma token_at_ok:
  assumes "bs = pre @ v @ NUL # rest"
  shows "token_at bs (int (length pre)) = Some (takeWhile (\<lambda>c. c \<noteq> NUL) v)"
  unfolding assms token_at_def c_string_def by (simp add: cstr_def takeWhile_tail)

lemma split_tokens_ok:
  assumes "NUL \<notin> set u"
  shows "\<exists>v new. split_tokens (int (length pre + length u)) (int (length pre)) (pre @ u @ NUL # rest) argv = Some (pre @ v @ NUL # rest, argv @ new)
    \<and> length v = length u \<and> takeWhile (\<lambda>c. c \<noteq> NUL) v = takeWhile nonspace u
    \<and> map (token_at (pre @ v @ NUL # rest)) new = map Some (take (SHELL_ARG_CNT - length argv) (words (dropWhile nonspace u)))"
  using assms
proof (induction "length u" arbitrary: u pre argv rule: less_induct)
  case less
  show ?case
  proof (cases u)
    case Nil
    then show ?thesis by (subst split_tokens.simps) auto
  next
    case (Cons a u1)
    show ?thesis
    proof (cases "nonspace a")
      case True
      obtain v new where r: "split_tokens (int (length (pre @ [a]) + length u1)) (int (length (pre @ [a]))) ((pre @ [a]) @ u1 @ NUL # rest) argv
            = Some ((pre @ [a]) @ v @ NUL # rest, argv @ new)" "length v = length u1" "takeWhile (\<lambda>c. c \<noteq> NUL) v = takeWhile nonspace u1"
          "map (token_at ((pre @ [a]) @ v @ NUL # rest)) new = map Some (take (SHELL_ARG_CNT - length argv) (words (dropWhile nonspace u1)))"
        using less.hyps [of u1 "pre @ [a]" argv] less.prems Cons by auto
      have "split_tokens (int (length pre + length u)) (int (length pre)) (pre @ u @ NUL # rest) argv = Some (pre @ (a # v) @ NUL # rest, argv @ new)"
        using r(1) True by (subst split_tokens.simps) (simp add: Cons get_char_at add.commute)
      then show ?thesis using r(2-4) True less.prems Cons by (intro exI [of _ "a # v"] exI [of _ new]) auto
    next
      case False
      obtain k u2 where k: "u1 = replicate k (CHR '' '') @ u2" "u2 = [] \<or> nonspace (hd u2)" "words u1 = words u2" by (rule spaces_split)
      let ?b = "pre @ NUL # u1 @ NUL # rest" and ?p = "pre @ NUL # replicate k (CHR '' '')"
      have l: "int (length pre + length u) = int (length ?p + length u2)" by (simp add: Cons k(1))
      obtain y ys where y: "u2 @ NUL # rest = y # ys" "nonspace y" using k(2) by (cases u2) (auto simp: NUL_def)
      have sk: "skip_spaces ?b (int (length pre) + 1) = Some (int (length ?p))"
        using skip_spaces_ok [of "replicate k (CHR '' '')" y "pre @ [NUL]" ys] y k(1) by (simp add: list_all_iff add.commute)
      have st: "split_tokens (int (length pre + length u)) (int (length pre)) (pre @ u @ NUL # rest) argv
          = (if u2 = [] then Some (?b, argv)
             else split_tokens (int (length pre + length u)) (int (length ?p) + 1) ?b (if length argv \<le> SHELL_ARG_CNT - 1 then argv @ [int (length ?p)] else argv))"
        using False sk unfolding l by (subst split_tokens.simps) (auto simp: Cons get_char_at put_char_at simp flip: of_nat_add)
      show ?thesis
      proof (cases u2)
        case Nil
        then show ?thesis using st False k Cons by (intro exI [of _ "NUL # u1"] exI [of _ "[]"]) (auto simp: Cons)
      next
        case c2: (Cons b u3)
        then have b: "nonspace b" "b \<noteq> NUL" using k less.prems Cons by auto
        let ?q = "?p @ [b]" and ?a = "if length argv \<le> SHELL_ARG_CNT - 1 then argv @ [int (length ?p)] else argv"
        obtain v new where r: "split_tokens (int (length ?q + length u3)) (int (length ?q)) (?q @ u3 @ NUL # rest) ?a = Some (?q @ v @ NUL # rest, ?a @ new)"
            "length v = length u3" "takeWhile (\<lambda>c. c \<noteq> NUL) v = takeWhile nonspace u3"
            "map (token_at (?q @ v @ NUL # rest)) new = map Some (take (SHELL_ARG_CNT - length ?a) (words (dropWhile nonspace u3)))"
          using less.hyps [of u3 ?q ?a] less.prems Cons k(1) c2 by auto
        have tok: "token_at (?q @ v @ NUL # rest) (int (length ?p)) = Some (b # takeWhile nonspace u3)"
          using token_at_ok [of "?q @ v @ NUL # rest" ?p "b # v" rest] b r(3) by simp
        have w: "words (dropWhile nonspace u) = (b # takeWhile nonspace u3) # words (dropWhile nonspace u3)" using False Cons k(3) c2 b(1) by simp
        have "split_tokens (int (length pre + length u)) (int (length pre)) (pre @ u @ NUL # rest) argv
            = Some (pre @ (NUL # replicate k (CHR '' '') @ b # v) @ NUL # rest, ?a @ new)"
          using r(1) st c2 k(1) unfolding l by (simp add: add.commute add.left_commute)
        then show ?thesis
          using r(2,4) tok w Cons k(1) c2 False
          by (intro exI [of _ "NUL # replicate k (CHR '' '') @ b # v"] exI [of _ "(if length argv \<le> SHELL_ARG_CNT - 1 then [int (length ?p)] else []) @ new"])
            (auto simp: config take_Cons' simp flip: replicate_append_same)
      qed
    qed
  qed
qed

definition arguments :: "string \<Rightarrow> string list" where
  "arguments t = (if words t = [] then [[]] else take SHELL_ARG_CNT (words t))"

lemma all_some_map: "map f xs = map Some ys \<Longrightarrow> all_some (map f xs) = Some ys"
  by (induction ys arbitrary: xs) auto

lemma split_cmd_ok:
  assumes "line_is t bs"
  shows "\<exists>bs' args. shell_split_cmd_token bs = Some (bs', args) \<and> length bs' = length bs \<and> all_some (map (token_at bs') args) = Some (arguments t)"
proof -
  obtain rest where b: "bs = t @ NUL # rest" "NUL \<notin> set t" using assms by (auto simp: line_is_def)
  obtain k u where k: "t = replicate k (CHR '' '') @ u" "u = [] \<or> nonspace (hd u)" "words t = words u" by (rule spaces_split)
  let ?p = "replicate k (CHR '' '')"
  obtain y ys where y: "u @ NUL # rest = y # ys" "nonspace y" using k(2) by (cases u) (auto simp: NUL_def)
  have sk: "skip_while True (int (length t)) bs 0 = Some (int (length ?p))"
    using skip_while_ok [of True ?p "[]" "int (length t)" y ys] y b(1) k(1) by (simp add: list_all_iff)
  obtain v new where r: "split_tokens (int (length ?p + length u)) (int (length ?p)) (?p @ u @ NUL # rest) [int (length ?p)] = Some (?p @ v @ NUL # rest, [int (length ?p)] @ new)"
      "length v = length u" "takeWhile (\<lambda>c. c \<noteq> NUL) v = takeWhile nonspace u"
      "map (token_at (?p @ v @ NUL # rest)) new = map Some (take (SHELL_ARG_CNT - 1) (words (dropWhile nonspace u)))"
    using split_tokens_ok [of u ?p rest "[int (length ?p)]"] b(2) k(1) by auto
  have "arguments t = takeWhile nonspace u # take (SHELL_ARG_CNT - 1) (words (dropWhile nonspace u))"
    using k(2) unfolding arguments_def k(3) by (cases u) (auto simp: config take_Cons')
  moreover have "token_at (?p @ v @ NUL # rest) (int (length ?p)) = Some (takeWhile nonspace u)" using token_at_ok [of _ ?p v rest] r(3) by simp
  ultimately have "map (token_at (?p @ v @ NUL # rest)) ([int (length ?p)] @ new) = map Some (arguments t)" using r(4) by simp
  note a = all_some_map [OF this]
  have "shell_split_cmd_token bs = Some (?p @ v @ NUL # rest, [int (length ?p)] @ new)"
    using r(1) sk line_isD(4) [OF assms] unfolding b(1) by (simp add: shell_split_cmd_token_def k(1))
  then show ?thesis using a r(2) b(1) k(1) by fastforce
qed

section \<open>The history\<close>

definition hist_ok :: "shell \<Rightarrow> bool" where
  "hist_ok s \<longleftrightarrow> (\<exists>h. sh_history s = Some h \<and> sh_history_max_cnt s \<le> length h \<and> (\<forall>x \<in> set h. length x = LINE_MAX \<and> NUL \<in> set x))
     \<and> sh_history_cnt s \<le> sh_history_max_cnt s \<and> 0 < sh_history_max_cnt s \<and> distinct (sh_history_head s)
     \<and> set (sh_history_head s) = {sh_history_max_cnt s - sh_history_cnt s ..< sh_history_max_cnt s} \<and> length (sh_input_backup s) = LINE_MAX"

definition remembered :: "shell \<Rightarrow> string list" where
  "remembered s = map (\<lambda>n. cstr (the (sh_history s) ! n)) (sh_history_head s)"

text \<open>The last \<open>n\<close> elements of a list.\<close>

definition recent :: "nat \<Rightarrow> 'b list \<Rightarrow> 'b list" where
  "recent n xs = drop (length xs - n) xs"

lemma hist_ok_length: "hist_ok s \<Longrightarrow> length (sh_history_head s) = sh_history_cnt s"
proof -
  assume "hist_ok s"
  then have d: "distinct (sh_history_head s)" "set (sh_history_head s) = {sh_history_max_cnt s - sh_history_cnt s ..< sh_history_max_cnt s}"
      "sh_history_cnt s \<le> sh_history_max_cnt s" unfolding hist_ok_def by blast+
  from distinct_card [OF d(1)] show ?thesis unfolding d(2) using d(3) by simp
qed

lemma hist_cmd_line:
  assumes "hist_ok s" "n < sh_history_max_cnt s"
  shows "\<exists>d. hist_cmd s n = Some d \<and> line_is (cstr d) d \<and> d = the (sh_history s) ! n"
proof -
  obtain h where h: "sh_history s = Some h" "sh_history_max_cnt s \<le> length h" "\<forall>x \<in> set h. length x = LINE_MAX \<and> NUL \<in> set x" using assms(1) by (auto simp: hist_ok_def)
  then have "h ! n \<in> set h" using assms(2) by simp
  then show ?thesis using h assms(2) cstr_line_is [of "h ! n"] by (auto simp: hist_cmd_def)
qed

text \<open>A command is stored in a node that is not in the list, and the node becomes the newest one.\<close>

lemma set_hist_cmd_ok:
  assumes ok: "hist_ok s" and t: "line_is t (sh_buf s)" and n: "n < sh_history_max_cnt s" "n \<notin> set ns" "set ns \<subseteq> {..<sh_history_max_cnt s}"
  shows "\<exists>h. (\<forall>s'. sh_history s' = sh_history s \<longrightarrow> sh_buf s' = sh_buf s \<longrightarrow> set_hist_cmd n s' = Some (s'\<lparr>sh_history := Some h\<rparr>)) \<and> sh_history_max_cnt s \<le> length h \<and> (\<forall>x \<in> set h. length x = LINE_MAX \<and> NUL \<in> set x)
    \<and> map (\<lambda>n. cstr (h ! n)) (ns @ [n]) = map (\<lambda>n. cstr (the (sh_history s) ! n)) ns @ [t]"
proof -
  obtain h where h: "sh_history s = Some h" "sh_history_max_cnt s \<le> length h" "\<forall>x \<in> set h. length x = LINE_MAX \<and> NUL \<in> set x" using ok by (auto simp: hist_ok_def)
  obtain d where d: "hist_cmd s n = Some d" "line_is (cstr d) d" using hist_cmd_line [OF ok n(1)] by blast
  obtain d1 where d1: "strncpy_to LINE_MAX (sh_buf s) d = Some d1" "line_is t d1" using strncpy_line [OF t] line_isD(1) [OF d(2)] by (auto simp: config)
  have "\<forall>x \<in> set (h[n := d1]). length x = LINE_MAX \<and> NUL \<in> set x" using h(3) d1(2) by (auto simp: line_is_def dest!: subsetD [OF set_update_subset_insert])
  moreover have "map (\<lambda>m. cstr (h[n := d1] ! m)) ns = map (\<lambda>m. cstr (h ! m)) ns" using n(2) by (metis (mono_tags, lifting) map_eq_conv nth_list_update_neq)
  moreover have "cstr (h[n := d1] ! n) = t" using n(1) h(2) line_isD(3) [OF d1(2)] by simp
  moreover have "hist_cmd s' n = Some d" if "sh_history s' = sh_history s" for s' using d(1) that by (simp add: hist_cmd_def)
  ultimately show ?thesis using h d1(1) by (intro exI [of _ "h[n := d1]"]) (simp add: set_hist_cmd_def)
qed

lemma push_history_ok:
  assumes ok: "hist_ok s" and t: "line_is t (sh_buf s)"
  shows "\<exists>h ns. shell_push_new_history s = Some (s\<lparr>sh_history := Some h, sh_history_head := ns, sh_history_cnt := min (sh_history_cnt s + 1) (sh_history_max_cnt s),
       sh_history_curr := Some Hist_Head, sh_show_history := False\<rparr>)
    \<and> hist_ok (s\<lparr>sh_history := Some h, sh_history_head := ns, sh_history_cnt := min (sh_history_cnt s + 1) (sh_history_max_cnt s),
       sh_history_curr := Some Hist_Head, sh_show_history := False\<rparr>)
    \<and> map (\<lambda>n. cstr (h ! n)) ns = recent (sh_history_max_cnt s) (remembered s @ [t])"
proof -
  let ?m = "sh_history_max_cnt s" and ?c = "sh_history_cnt s"
  have o: "?c \<le> ?m" "0 < ?m" "distinct (sh_history_head s)" "set (sh_history_head s) = {?m - ?c ..< ?m}" "length (sh_input_backup s) = LINE_MAX" "sh_history s \<noteq> None"
    using ok by (auto simp: hist_ok_def)
  note len = hist_ok_length [OF ok]
  show ?thesis
  proof (cases "?c < ?m")
    case True
    let ?n = "?m - ?c - 1"
    have n: "?n < ?m" "?n \<notin> set (sh_history_head s)" "set (sh_history_head s) \<subseteq> {..<?m}" using True o(4) by auto
    obtain h where h: "\<forall>s'. sh_history s' = sh_history s \<longrightarrow> sh_buf s' = sh_buf s \<longrightarrow> set_hist_cmd ?n s' = Some (s'\<lparr>sh_history := Some h\<rparr>)" "?m \<le> length h" "\<forall>x \<in> set h. length x = LINE_MAX \<and> NUL \<in> set x"
        "map (\<lambda>n. cstr (h ! n)) (sh_history_head s @ [?n]) = remembered s @ [t]"
      using set_hist_cmd_ok [OF ok t n] by (auto simp: remembered_def)
    have sc: "set_hist_cmd ?n (s\<lparr>sh_history_cnt := ?c + 1\<rparr>) = Some (s\<lparr>sh_history_cnt := ?c + 1, sh_history := Some h\<rparr>)"
      using h(1) by simp
    have "set (sh_history_head s @ [?n]) = {?m - (?c + 1) ..< ?m}" using True o(4) by auto
    moreover have "recent ?m (remembered s @ [t]) = remembered s @ [t]" using True len by (simp add: recent_def remembered_def)
    ultimately show ?thesis using h n True o sc
      by (intro exI [of _ h] exI [of _ "sh_history_head s @ [?n]"]) (auto simp: shell_push_new_history_def hist_ok_def Let_def min_def)
  next
    case False
    then have c: "?c = ?m" using o(1) by simp
    then obtain n ns where ns: "sh_history_head s = n # ns" using len o(2) by (cases "sh_history_head s") auto
    have n: "n < ?m" "n \<notin> set ns" "set ns \<subseteq> {..<?m}" using o(3,4) ns c by auto
    obtain h where h: "\<forall>s'. sh_history s' = sh_history s \<longrightarrow> sh_buf s' = sh_buf s \<longrightarrow> set_hist_cmd n s' = Some (s'\<lparr>sh_history := Some h\<rparr>)" "?m \<le> length h" "\<forall>x \<in> set h. length x = LINE_MAX \<and> NUL \<in> set x"
        "map (\<lambda>n. cstr (h ! n)) (ns @ [n]) = tl (remembered s) @ [t]"
      using set_hist_cmd_ok [OF ok t n] by (auto simp: remembered_def ns)
    have sc: "set_hist_cmd n (s\<lparr>sh_history_head := ns\<rparr>) = Some (s\<lparr>sh_history_head := ns, sh_history := Some h\<rparr>)"
      using h(1) by simp
    have "set (ns @ [n]) = {?m - ?c ..< ?m}" "distinct (ns @ [n])" using o(3,4) ns by auto
    moreover have "length (remembered s) = ?m" using len c by (simp add: remembered_def)
    then have "recent ?m (remembered s @ [t]) = tl (remembered s) @ [t]" using o(2) by (cases "remembered s") (simp_all add: recent_def)
    ultimately show ?thesis using h False o sc c ns
      by (intro exI [of _ h] exI [of _ "ns @ [n]"]) (auto simp: shell_push_new_history_def hist_ok_def)
  qed
qed

section \<open>A command\<close>

lemma edited_hist:
  assumes "edited s s'"
  shows "hist_ok s' = hist_ok s" "remembered s' = remembered s" "sh_shell_cmds s' = sh_shell_cmds s" "sh_history_max_cnt s' = sh_history_max_cnt s"
  using assms by (auto elim!: editedE simp: hist_ok_def remembered_def)

lemma enter_ok:
  assumes e: "editing l r s" and ok: "hist_ok s" and ne: "l @ r \<noteq> []"
  shows "\<exists>s'. enter_key s = Some (s', True) \<and> hist_ok s' \<and> remembered s' = recent (sh_history_max_cnt s) (remembered s @ [l @ r])
    \<and> line_is (l @ r) (sh_buf s') \<and> sh_shell_cmds s' = sh_shell_cmds s \<and> sh_prompt s' = sh_prompt s \<and> sh_prompt_len s' = sh_prompt_len s
    \<and> sh_out s' = sh_out s @ NEWLINE \<and> sh_history_curr s' = Some Hist_Head"
proof -
  let ?s = "shell_reset_line (shell_puts NEWLINE (shell_reset_autocomplete (shell_reset_history_scrolling s)))"
  have f: "sh_buf ?s = sh_buf s" "hist_ok ?s = hist_ok s" "remembered ?s = remembered s" "sh_history_max_cnt ?s = sh_history_max_cnt s" "sh_shell_cmds ?s = sh_shell_cmds s"
      "sh_prompt ?s = sh_prompt s" "sh_prompt_len ?s = sh_prompt_len s" "sh_out ?s = sh_out s @ NEWLINE"
    by (simp_all add: shell_reset_line_def shell_puts_def shell_reset_autocomplete_def shell_reset_history_scrolling_def hist_ok_def remembered_def)
  have t: "line_is (l @ r) (sh_buf ?s)" using e by (simp add: editing_def f)
  obtain h ns where p: "shell_push_new_history ?s = Some (?s\<lparr>sh_history := Some h, sh_history_head := ns, sh_history_cnt := min (sh_history_cnt ?s + 1) (sh_history_max_cnt ?s),
       sh_history_curr := Some Hist_Head, sh_show_history := False\<rparr>)"
      "hist_ok (?s\<lparr>sh_history := Some h, sh_history_head := ns, sh_history_cnt := min (sh_history_cnt ?s + 1) (sh_history_max_cnt ?s),
       sh_history_curr := Some Hist_Head, sh_show_history := False\<rparr>)"
      "map (\<lambda>n. cstr (h ! n)) ns = recent (sh_history_max_cnt ?s) (remembered ?s @ [l @ r])"
    using push_history_ok [OF _ t] ok f(2) by blast
  have "sh_char_cnt (shell_reset_autocomplete (shell_reset_history_scrolling s)) > 0"
    using e ne by (cases l; cases r) (simp_all add: editing_def shell_reset_autocomplete_def shell_reset_history_scrolling_def)
  then show ?thesis using p t f by (simp add: enter_key_def Let_def remembered_def)
qed

text \<open>What a line prints: the output of the first command with the name of its first word, applied to its words.\<close>

definition response :: "(nat \<Rightarrow> string list \<Rightarrow> string) \<Rightarrow> string list \<Rightarrow> string \<Rightarrow> string" where
  "response out cmds t = (case find_cmd (hd (arguments t)) cmds of Some k \<Rightarrow> out k (arguments t)
     | None \<Rightarrow> ''unknown command: '' @ hd (arguments t) @ NEWLINE)"

lemma words_length: "w \<in> set (words t) \<Longrightarrow> length w \<le> length t"
proof (induction t rule: words.induct)
  case (2 c cs)
  have "length (takeWhile nonspace cs) \<le> length cs" "length (dropWhile nonspace cs) \<le> length cs" by (simp_all add: length_takeWhile_le length_dropWhile_le)
  then show ?case using 2 by (cases "nonspace c") force+
qed simp

lemma arguments_hd: "length (hd (arguments t)) \<le> length t"
  using words_length [of "hd (words t)" t] by (cases "words t") (auto simp: arguments_def config)

lemma unknown_cmd_ok:
  assumes "length x \<le> 49"
  shows "shell_unknown_cmd_handler x s = Some (shell_puts (''unknown command: '' @ x @ NEWLINE) s)"
proof -
  have "lib_format (''unknown command: %s'' @ NEWLINE) [Str x] = Some (''unknown command: '' @ x @ NEWLINE)"
    by (simp add: lib_format_def is_digit_def is_spec_def lib_directive_def padded_def NEWLINE_def)
  then show ?thesis using assms by (simp add: shell_unknown_cmd_handler_def lib_vsnprintf_def config NEWLINE_def)
qed

lemma execute_ok:
  assumes t: "line_is t (sh_buf s)" and c: "sh_shell_cmds s = Some cmds"
    and p: "line_is (cstr (sh_prompt s)) (sh_prompt s)" "sh_prompt_len s = int (length (cstr (sh_prompt s)))"
  shows "\<exists>s'. shell_execute (\<lambda>k argv s. Some (shell_puts (out k argv) s)) s = Some s' \<and> editing [] [] s' \<and> sh_out s' = sh_out s @ response out cmds t
    \<and> edited s s'"
proof -
  obtain bs args where a: "shell_split_cmd_token (sh_buf s) = Some (bs, args)" "length bs = length (sh_buf s)" "all_some (map (token_at bs) args) = Some (arguments t)"
    using split_cmd_ok [OF t] by blast
  have "length (hd (arguments t)) \<le> 49" using arguments_hd [of t] line_isD(2) [OF t] by simp
  note u = unknown_cmd_ok [OF this]
  obtain x xs where b: "bs = x # xs" using a(2) line_isD(1) [OF t] by (cases bs) auto
  let ?s = "s\<lparr>sh_buf := NUL # xs, sh_out := sh_out s @ response out cmds t, sh_cursor_pos := 0, sh_char_cnt := 0\<rparr>"
  have "shell_execute (\<lambda>k argv s. Some (shell_puts (out k argv) s)) s = Some ?s"
    using a c u by (cases "find_cmd (hd (arguments t)) cmds")
      (simp_all add: shell_execute_def response_def shell_puts_def put_char_def b shell_reset_line_def)
  moreover have "editing [] [] ?s" using p a(2) b line_isD(1) [OF t] by (auto simp: editing_def line_is_def config)
  moreover have "edited s ?s" by (simp add: edited_def)
  ultimately show ?thesis by (intro exI [of _ ?s]) auto
qed

text \<open>
  C36. A line that is typed, edited and entered is executed: the loop returns at \<^verbatim>\<open>ENTER\<close> with the rest of the input unread, the history
  holds the line as its newest entry, the oldest one being dropped when it is full, and the first command whose name is the first
  word is called with the words of the line, ten at most; without such a command the line is reported as unknown. Afterwards the line
  is empty and the shell can read the next one.
\<close>
theorem command_line_executed:
  assumes "editing l r s" "hist_ok s" "sh_shell_cmds s = Some cmds" "list_all2 (\<lambda>e x. x \<in> key_texts e) es xs"
    and "foldl (\<lambda>lr e. apply_edit e lr) (l, r) es = (l', r')" "l' @ r' \<noteq> []"
  shows "\<exists>s1 s2. listen_loop (concat xs @ [CR] @ rest) s = Some (s1, Some rest)
    \<and> shell_execute (\<lambda>k argv s. Some (shell_puts (out k argv) s)) s1 = Some s2
    \<and> sh_out s2 = sh_out s1 @ response out cmds (l' @ r')
    \<and> hist_ok s2 \<and> remembered s2 = recent (sh_history_max_cnt s) (remembered s @ [l' @ r']) \<and> editing [] [] s2 \<and> sh_shell_cmds s2 = Some cmds"
proof -
  obtain s0 where s0: "\<forall>rest. listen_loop (concat xs @ rest) s = listen_loop rest s0" "editing l' r' s0" "edited s s0"
    using keys_run [OF assms(4,1)] assms(5) by auto
  note h = edited_hist [OF s0(3)]
  obtain s1 where s1: "enter_key s0 = Some (s1, True)" "hist_ok s1" "remembered s1 = recent (sh_history_max_cnt s) (remembered s @ [l' @ r'])"
      "line_is (l' @ r') (sh_buf s1)" "sh_shell_cmds s1 = Some cmds" "sh_prompt s1 = sh_prompt s0" "sh_prompt_len s1 = sh_prompt_len s0"
    using enter_ok [OF s0(2) _ assms(6)] assms(2,3) h by auto
  have "listen_loop (concat xs @ [CR] @ rest) s = Some (s1, Some rest)" using s0(1) s1(1) by (simp add: is_enter_def key_def CR_def)
  moreover obtain s2 where s2: "shell_execute (\<lambda>k argv s. Some (shell_puts (out k argv) s)) s1 = Some s2" "editing [] [] s2" "sh_out s2 = sh_out s1 @ response out cmds (l' @ r')"
      "edited s1 s2"
    using execute_ok [OF s1(4,5), of out] s1(6,7) s0(2) by (auto simp: editing_def)
  ultimately show ?thesis using s1(2,3,5) edited_hist [OF s2(4)] by auto
qed

section \<open>Browsing the history\<close>

lemma around_first: "x \<notin> set ys \<Longrightarrow> takeWhile (\<lambda>y. y \<noteq> x) (ys @ x # zs) = ys \<and> dropWhile (\<lambda>y. y \<noteq> x) (ys @ x # zs) = x # zs"
  by (induction ys) auto

lemma around_nth:
  assumes "distinct xs" "i < length xs"
  shows "takeWhile (\<lambda>y. y \<noteq> xs ! i) xs = take i xs" "dropWhile (\<lambda>y. y \<noteq> xs ! i) xs = drop i xs"
proof -
  have s: "take i xs @ xs ! i # drop (Suc i) xs = xs" "drop i xs = xs ! i # drop (Suc i) xs" using assms(2) by (simp_all add: id_take_nth_drop [symmetric] Cons_nth_drop_Suc)
  have "distinct (take i xs @ xs ! i # drop (Suc i) xs)" using assms(1) s(1) by simp
  then have "xs ! i \<notin> set (take i xs)" by simp
  from around_first [OF this, of "drop (Suc i) xs"] show "takeWhile (\<lambda>y. y \<noteq> xs ! i) xs = take i xs" "dropWhile (\<lambda>y. y \<noteq> xs ! i) xs = drop i xs"
    unfolding s by simp_all
qed

lemma hist_prev_at:
  assumes "distinct xs" "i < length xs"
  shows "hist_prev xs (Hist_Node (xs ! i)) = Some (if i = 0 then Hist_Head else Hist_Node (xs ! (i - 1)))"
proof -
  have "last (take i xs) = xs ! (i - 1)" if "i \<noteq> 0" using that assms(2) by (subst last_conv_nth) (auto simp: min_def)
  then show ?thesis using assms(2) around_nth(1) [OF assms] by (auto simp: hist_prev_def Let_def)
qed

lemma hist_next_at:
  assumes "distinct xs" "i < length xs"
  shows "hist_next xs (Hist_Node (xs ! i)) = Some (if i + 1 = length xs then Hist_Head else Hist_Node (xs ! (i + 1)))"
  using assms(2) around_nth(2) [OF assms] by (auto simp: hist_next_def Let_def tl_drop drop_Suc [symmetric] hd_drop_conv_nth)

text \<open>The shell shows the entry \<open>k\<close> from the end of the history, or for zero the line \<open>t\<close> of the user.\<close>

definition entry_ptr :: "nat \<Rightarrow> shell \<Rightarrow> hptr" where
  "entry_ptr k s = (if k = 0 then Hist_Head else Hist_Node (sh_history_head s ! (length (sh_history_head s) - k)))"

definition scrolled :: "nat \<Rightarrow> string \<Rightarrow> shell \<Rightarrow> bool" where
  "scrolled k t s \<longleftrightarrow> hist_ok s \<and> k \<le> length (remembered s) \<and> sh_history_curr s = Some (entry_ptr k s) \<and> sh_show_history s = (k \<noteq> 0)
     \<and> (k \<noteq> 0 \<longrightarrow> line_is t (sh_input_backup s))
     \<and> (\<exists>l r. editing l r s \<and> l @ r = (if k = 0 then t else remembered s ! (length (remembered s) - k)))"

definition arrow_pos :: "nat \<Rightarrow> nat \<Rightarrow> bool \<Rightarrow> nat" where
  "arrow_pos n k up = (if up then if n = 0 \<or> k = n then 0 else k + 1 else k - 1)"

definition arrow_text :: "bool \<Rightarrow> string" where
  "arrow_text up = ESC # (if up then ''[A'' else ''[B'')"

lemma remembered_head: "length (remembered s) = length (sh_history_head s)"
  by (simp add: remembered_def)

lemma entry_links:
  assumes "distinct (sh_history_head s)" "k \<le> length (sh_history_head s)" "sh_history_head s \<noteq> []"
  shows "hist_prev (sh_history_head s) (entry_ptr k s) = Some (entry_ptr (arrow_pos (length (sh_history_head s)) k True) s)"
    "k \<noteq> 0 \<Longrightarrow> hist_next (sh_history_head s) (entry_ptr k s) = Some (entry_ptr (arrow_pos (length (sh_history_head s)) k False) s)"
proof -
  let ?xs = "sh_history_head s"
  show "hist_prev ?xs (entry_ptr k s) = Some (entry_ptr (arrow_pos (length ?xs) k True) s)"
  proof (cases "k = 0")
    case True
    then show ?thesis using assms(3) by (simp add: entry_ptr_def arrow_pos_def hist_prev_def last_conv_nth)
  next
    case False
    then have "hist_prev ?xs (Hist_Node (?xs ! (length ?xs - k))) = Some (if length ?xs - k = 0 then Hist_Head else Hist_Node (?xs ! (length ?xs - k - 1)))"
      using assms by (intro hist_prev_at) auto
    then show ?thesis using False assms(2,3) by (auto simp: entry_ptr_def arrow_pos_def)
  qed
  assume "k \<noteq> 0"
  then have "hist_next ?xs (Hist_Node (?xs ! (length ?xs - k))) = Some (if length ?xs - k + 1 = length ?xs then Hist_Head else Hist_Node (?xs ! (length ?xs - k + 1)))"
    using assms by (intro hist_next_at) auto
  moreover have "length ?xs - k + 1 = length ?xs \<longleftrightarrow> k = 1" "length ?xs - k + 1 = length ?xs - (k - 1)" using \<open>k \<noteq> 0\<close> assms(2) by auto
  ultimately show "hist_next ?xs (entry_ptr k s) = Some (entry_ptr (arrow_pos (length ?xs) k False) s)"
    using \<open>k \<noteq> 0\<close> by (simp add: entry_ptr_def arrow_pos_def)
qed

lemma goto_entry:
  assumes e: "editing l r s" and ok: "hist_ok s" and k: "k \<le> length (remembered s)" and b: "line_is t (sh_input_backup s)" and sh: "sh_show_history s"
  shows "\<exists>s'. show_history_entry (entry_ptr k s) s = Some s' \<and> scrolled k t s' \<and> remembered s' = remembered s"
proof -
  let ?p = "entry_ptr k s" and ?u = "if k = 0 then t else remembered s ! (length (remembered s) - k)"
  obtain src where src: "line_is ?u src" "?p = Hist_Head \<Longrightarrow> src = sh_input_backup s" "\<And>n. ?p = Hist_Node n \<Longrightarrow> hist_cmd s n = Some src"
  proof (cases "k = 0")
    case True
    then show ?thesis using that b by (simp add: entry_ptr_def)
  next
    case False
    let ?n = "sh_history_head s ! (length (sh_history_head s) - k)"
    have i: "length (sh_history_head s) - k < length (sh_history_head s)" using False k by (cases "sh_history_head s") (auto simp: remembered_head)
    then have "?n < sh_history_max_cnt s" using ok nth_mem [OF i] by (auto simp: hist_ok_def)
    from hist_cmd_line [OF ok this] show ?thesis using that [of "the (sh_history s) ! ?n"] i False by (auto simp: entry_ptr_def remembered_def)
  qed
  have len: "length (sh_buf s) = LINE_MAX" using e by (simp add: editing_def line_is_def)
  obtain c where c: "strncpy_to LINE_MAX src (sh_buf s) = Some c" "line_is ?u c" using strncpy_line [OF src(1) len] by blast
  let ?s1 = "if k = 0 then s\<lparr>sh_history_curr := Some ?p, sh_buf := c, sh_show_history := False\<rparr> else s\<lparr>sh_history_curr := Some ?p, sh_buf := c\<rparr>"
  let ?s = "?s1\<lparr>sh_char_cnt := int (length ?u), sh_cursor_pos := int (length ?u)\<rparr>"
  have es: "editing ?u [] ?s" using e c(2) by (cases "k = 0") (simp_all add: editing_def)
  obtain x where x: "shell_refresh_line ?s = Some (?s\<lparr>sh_out := x\<rparr>)" using refresh_ok [OF es] by blast
  have "show_history_entry ?p s = Some (?s\<lparr>sh_out := x\<rparr>)"
    using c(1) src(2,3) x line_isD(4) [OF c(2)] sh by (cases "k = 0") (simp_all add: show_history_entry_def entry_ptr_def)
  moreover have "scrolled k t (?s\<lparr>sh_out := x\<rparr>)" "remembered (?s\<lparr>sh_out := x\<rparr>) = remembered s"
  proof -
    show r: "remembered (?s\<lparr>sh_out := x\<rparr>) = remembered s" by (simp add: remembered_def)
    have "editing ?u [] (?s\<lparr>sh_out := x\<rparr>)" using es by (simp add: editing_def)
    then show "scrolled k t (?s\<lparr>sh_out := x\<rparr>)" unfolding scrolled_def r using ok k b sh by (cases "k = 0") (auto simp: hist_ok_def entry_ptr_def)
  qed
  ultimately show ?thesis by blast
qed

lemma up_ok:
  assumes sc: "scrolled k t s"
  shows "\<exists>s'. shell_up_arrow_handler s = Some s' \<and> scrolled (arrow_pos (length (remembered s)) k True) t s' \<and> remembered s' = remembered s"
proof (cases "sh_history_head s = []")
  case True
  then have "k = 0" using sc by (simp add: scrolled_def remembered_def)
  then show ?thesis using True sc by (simp add: shell_up_arrow_handler_def arrow_pos_def remembered_def)
next
  case False
  have ok: "hist_ok s" "k \<le> length (sh_history_head s)" "distinct (sh_history_head s)" "sh_history s \<noteq> None" "sh_history_curr s = Some (entry_ptr k s)"
    using sc by (auto simp: scrolled_def hist_ok_def remembered_head)
  obtain s1 l r where s1: "(if \<not> sh_show_history s then strncpy_to LINE_MAX (sh_buf s) (sh_input_backup s) \<bind> (\<lambda>b. Some (s\<lparr>sh_input_backup := b, sh_show_history := True\<rparr>))
        else Some s) = Some s1" "hist_ok s1" "remembered s1 = remembered s" "sh_history_head s1 = sh_history_head s" "sh_history_curr s1 = sh_history_curr s"
      "editing l r s1" "line_is t (sh_input_backup s1)" "sh_show_history s1"
  proof (cases "k = 0")
    case True
    then obtain l r where e: "editing l r s" "l @ r = t" "\<not> sh_show_history s" using sc by (auto simp: scrolled_def)
    have "length (sh_input_backup s) = LINE_MAX" using ok(1) by (simp add: hist_ok_def)
    then obtain b where b: "strncpy_to LINE_MAX (sh_buf s) (sh_input_backup s) = Some b" "line_is t b"
      using strncpy_line [of t "sh_buf s" "sh_input_backup s"] e by (auto simp: editing_def)
    show ?thesis by (rule that [of "s\<lparr>sh_input_backup := b, sh_show_history := True\<rparr>" l r])
      (use b e ok(1) line_isD(1) [OF b(2)] in \<open>auto simp: hist_ok_def remembered_def editing_def config\<close>)
  next
    case F: False
    from sc obtain l r where "editing l r s" by (auto simp: scrolled_def)
    then show ?thesis by (intro that [of s l r]) (use F sc ok(1) in \<open>auto simp: scrolled_def\<close>)
  qed
  let ?k = "arrow_pos (length (remembered s)) k True"
  have "?k \<le> length (remembered s)" using ok(2) by (auto simp: arrow_pos_def remembered_head)
  then obtain s' where s': "show_history_entry (entry_ptr ?k s1) s1 = Some s'" "scrolled ?k t s'" "remembered s' = remembered s"
    using goto_entry [OF s1(6,2) _ s1(7,8), of ?k] s1(3) by auto
  have "entry_ptr ?k s1 = entry_ptr ?k s" using s1(4) by (simp add: entry_ptr_def)
  then have "shell_up_arrow_handler s = Some s'"
    using s' s1(1,4,5) ok(4,5) False entry_links(1) [OF ok(3,2) False] by (auto simp: shell_up_arrow_handler_def remembered_head)
  then show ?thesis using s' by blast
qed

lemma down_ok:
  assumes sc: "scrolled k t s"
  shows "\<exists>s'. shell_down_arrow_handler s = Some s' \<and> scrolled (arrow_pos (length (remembered s)) k False) t s' \<and> remembered s' = remembered s"
proof (cases "k = 0")
  case True
  then show ?thesis using sc by (auto simp: shell_down_arrow_handler_def arrow_pos_def scrolled_def)
next
  case False
  then obtain l r where ok: "hist_ok s" "k \<le> length (sh_history_head s)" "distinct (sh_history_head s)" "sh_history s \<noteq> None" "sh_history_curr s = Some (entry_ptr k s)"
      "sh_show_history s" "line_is t (sh_input_backup s)" "editing l r s"
    using sc by (auto simp: scrolled_def hist_ok_def remembered_head)
  let ?k = "arrow_pos (length (remembered s)) k False"
  have "?k \<le> length (remembered s)" "sh_history_head s \<noteq> []" using ok(2) False by (auto simp: arrow_pos_def remembered_head)
  then obtain s' where "show_history_entry (entry_ptr ?k s) s = Some s'" "scrolled ?k t s'" "remembered s' = remembered s"
    using goto_entry [OF ok(8,1) _ ok(7,6), of ?k] by auto
  moreover have "hist_next (sh_history_head s) (entry_ptr k s) = Some (entry_ptr ?k s)"
    using entry_links(2) [OF ok(3,2) \<open>sh_history_head s \<noteq> []\<close> False] by (simp add: remembered_head)
  ultimately show ?thesis using ok(4-6) by (auto simp: shell_down_arrow_handler_def)
qed

lemma arrow_ok:
  assumes "scrolled k t s"
  shows "\<exists>s'. (\<forall>rest. listen_loop (arrow_text up @ rest) s = listen_loop rest s') \<and> scrolled (arrow_pos (length (remembered s)) k up) t s' \<and> remembered s' = remembered s"
  using up_ok [OF assms] down_ok [OF assms]
  by (cases up) (auto simp: arrow_text_def is_enter_def is_esc_def key_def ESC_def escape_key_def)

text \<open>
  The arrow keys browse the history: from the line \<open>t\<close> of the user, any sequence of up and down arrows shows the entry at the
  position that the keys count to, from the newest entry to the oldest; one step above the oldest entry and one step below the newest
  the line of the user comes back as it was. The history itself does not change, and no key is lost at its ends.
\<close>
theorem history_browsed:
  assumes "scrolled k t s"
  shows "\<exists>s'. listen_loop (concat (map arrow_text ups)) s = Some (s', None) \<and> remembered s' = remembered s
    \<and> scrolled (foldl (arrow_pos (length (remembered s))) k ups) t s'"
  using assms
proof (induction ups arbitrary: k s)
  case Nil
  then show ?case by simp
next
  case (Cons up ups)
  from arrow_ok [OF Cons.prems, of up] obtain s1 where s1: "\<forall>rest. listen_loop (arrow_text up @ rest) s = listen_loop rest s1"
      "scrolled (arrow_pos (length (remembered s)) k up) t s1" "remembered s1 = remembered s" by blast
  from Cons.IH [OF s1(2)] show ?case using s1(1,3) by simp
qed


section \<open>Witnesses\<close>

declare listen_loop.simps [simp del]

definition demo_line :: "string \<Rightarrow> string" where
  "demo_line t = t @ replicate (50 - length t) NUL"

lemma demo_line_is: "NUL \<notin> set t \<Longrightarrow> length t \<le> 49 \<Longrightarrow> line_is t (demo_line t)"
proof -
  assume t: "NUL \<notin> set t" "length t \<le> 49"
  then have "demo_line t = t @ NUL # replicate (49 - length t) NUL" by (simp add: demo_line_def Suc_diff_le flip: replicate_Suc)
  then show ?thesis using t by (simp add: line_is_def config)
qed

text \<open>A shell with the prompt \<open>$ \<close>, two commands and one command in its history.\<close>

definition demo_shell :: shell where
  "demo_shell = \<lparr>sh_cursor_pos = 0, sh_char_cnt = 0, sh_prompt_len = 2, sh_buf = demo_line [], sh_prompt = demo_line ''$ '', sh_input_backup = demo_line [],
     sh_show_autocompl = False, sh_autocompl_cursor_pos = 0, sh_autocompl_cnt = 0, sh_autocompl_curr = 0, sh_autocompl = None,
     sh_history_max_cnt = 2, sh_history_cnt = 1, sh_show_history = False, sh_history = Some [demo_line [], demo_line ''ls''],
     sh_history_head = [1], sh_history_curr = Some Hist_Head, sh_shell_cmds = Some [demo_line ''help'', demo_line ''echo''], sh_out = []\<rparr>"

lemma demo_shell_ok: "editing [] [] demo_shell" "hist_ok demo_shell" "remembered demo_shell = [''ls'']" "scrolled 0 [] demo_shell"
proof -
  have l: "line_is [] (demo_line [])" "line_is ''$ '' (demo_line ''$ '')" "line_is ''ls'' (demo_line ''ls'')" by (rule demo_line_is; simp add: NUL_def)+
  show e: "editing [] [] demo_shell" using l line_isD(3) [OF l(2)] by (simp add: editing_def demo_shell_def)
  have "NUL \<in> set (demo_line [])" "NUL \<in> set (demo_line ''ls'')" by (simp_all add: demo_line_def)
  then show h: "hist_ok demo_shell" using line_isD(1) [OF l(1)] line_isD(1) [OF l(3)] by (auto simp: hist_ok_def demo_shell_def config)
  show "remembered demo_shell = [''ls'']" using line_isD(3) [OF l(3)] by (simp add: remembered_def demo_shell_def)
  show "scrolled 0 [] demo_shell" using e h by (simp add: scrolled_def entry_ptr_def) (simp add: demo_shell_def)
qed

theorem line_editor_refines_witness:
  "\<exists>s'. listen_loop (''ab'' @ [CHR 0x02] @ ''c'') demo_shell = Some (s', None) \<and> editing ''ac'' ''b'' s'"
proof -
  let ?es = "[Insert (CHR ''a''), Insert (CHR ''b''), Move_Left, Insert (CHR ''c'')]" and ?xs = "[''a'', ''b'', [CHR 0x02], ''c'']"
  have "list_all2 (\<lambda>e x. x \<in> key_texts e) ?es ?xs" by (simp add: ordinary_def ignored_key_def key_def)
  from line_editor_refines [OF demo_shell_ok(1) this] show ?thesis by (auto simp: config)
qed

theorem command_line_executed_witness:
  "\<exists>s1 s2. listen_loop (''echo hi'' @ [CR] @ []) demo_shell = Some (s1, Some [])
    \<and> shell_execute (\<lambda>k argv s. Some (shell_puts (concat argv) s)) s1 = Some s2 \<and> sh_out s2 = sh_out s1 @ ''echohi'' \<and> remembered s2 = [''ls'', ''echo hi'']"
proof -
  let ?t = "''echo hi''"
  have c: "sh_shell_cmds demo_shell = Some [demo_line ''help'', demo_line ''echo'']" "sh_history_max_cnt demo_shell = 2" by (simp_all add: demo_shell_def)
  have "list_all2 (\<lambda>e x. x \<in> key_texts e) (map Insert ?t) (map (\<lambda>c. [c]) ?t)" by (simp add: ordinary_def ignored_key_def key_def)
  moreover have "foldl (\<lambda>lr e. apply_edit e lr) ([], []) (map Insert ?t) = (?t, [])" by (simp add: config)
  moreover have "response (\<lambda>k argv. concat argv) [demo_line ''help'', demo_line ''echo''] ?t = ''echohi''"
    by (simp add: response_def arguments_def config demo_line_def cstr_def NUL_def)
  ultimately show ?thesis
    using command_line_executed [OF demo_shell_ok(1,2) c(1), of "map Insert ?t" "map (\<lambda>c. [c]) ?t" ?t "[]" "[]" "\<lambda>k argv. concat argv"] demo_shell_ok(3) c(2)
    by (auto simp: recent_def)
qed

theorem history_browsed_witness:
  "\<exists>s' s''. listen_loop (concat (map arrow_text [True])) demo_shell = Some (s', None) \<and> (\<exists>l r. editing l r s' \<and> l @ r = ''ls'')
    \<and> listen_loop (concat (map arrow_text [True, True])) demo_shell = Some (s'', None) \<and> scrolled 0 [] s''"
proof -
  from history_browsed [OF demo_shell_ok(4), of "[True]"] obtain s' where "listen_loop (concat (map arrow_text [True])) demo_shell = Some (s', None)" "scrolled 1 [] s'"
      "remembered s' = [''ls'']" by (auto simp: demo_shell_ok(3) arrow_pos_def)
  moreover from history_browsed [OF demo_shell_ok(4), of "[True, True]"] obtain s'' where
    "listen_loop (concat (map arrow_text [True, True])) demo_shell = Some (s'', None)" "scrolled 0 [] s''" by (auto simp: demo_shell_ok(3) arrow_pos_def)
  moreover from calculation(2,3) have "\<exists>l r. editing l r s' \<and> l @ r = ''ls''" by (simp add: scrolled_def)
  ultimately show ?thesis by blast
qed

end
