(* ===== verification/Mkromfs.thy ===== *)
theory Mkromfs
  imports Fstree
begin

text \<open>
  The builder of the ROM file system (\<^verbatim>\<open>tools/mkromfs/mkromfs.c\<close>), which runs on the build host: it imports the files
  below a directory of the host into inodes, directory entries and blocks, converts the pointers between them to
  addresses of the image, and writes the image. A pointer into the array of blocks is its offset there. The entries of
  a directory are the sequence of their offsets, \<^const>\<open>None\<close> for a list head that is not initialised, and the links
  between them appear when the pointers are converted. A block holds up to two directory entries or the bytes of a file. The directory of the host is a value of type
  \<open>host_entry list\<close>, in the order in which \<^verbatim>\<open>readdir\<close> gives its entries. The outcome \<open>Undefined\<close> is a store outside of
  an array or a null pointer that is followed, \<open>Exit\<close> a call of \<^verbatim>\<open>exit\<close>.
\<close>

section \<open>State\<close>

datatype 'a outcome = Undefined | Exit int | Done 'a

definition obind :: "'a outcome \<Rightarrow> ('a \<Rightarrow> 'b outcome) \<Rightarrow> 'b outcome" where
  "obind m f = (case m of Undefined \<Rightarrow> Undefined | Exit e \<Rightarrow> Exit e | Done a \<Rightarrow> f a)"

lemma obind_simps [simp]: "obind Undefined f = Undefined" "obind (Exit e) f = Exit e" "obind (Done a) f = f a"
  by (simp_all add: obind_def)

lemma obind_Done: "obind m f = Done b \<longleftrightarrow> (\<exists>a. m = Done a \<and> f a = Done b)"
  by (cases m) simp_all

datatype rptr = Null | Blk nat

record rom_inode =
  ri_mode :: u8
  ri_ino :: nat
  ri_parent :: nat
  ri_size :: nat
  ri_blocks :: nat
  ri_data :: rptr
  ri_dentry :: "nat list option"

record rom_dentry =
  rd_name :: string
  rd_inode :: nat
  rd_parent :: nat

record rom_block =
  rb_next :: rptr
  rb_bytes :: "u8 list"

record romfs =
  rs_inode_cnt :: nat
  rs_blk_cnt :: nat
  rom_inodes :: "nat \<Rightarrow> rom_inode"
  rom_dentries :: "nat \<Rightarrow> rom_dentry option"
  rom_blocks :: "nat \<Rightarrow> rom_block option"

text \<open>Sizes of the structures on the host, which the padding of the structures on the target reproduces.\<close>

definition ROM_DENTRY_SIZE :: nat where [config]: "ROM_DENTRY_SIZE = 56"
definition ROM_INODE_SIZE :: nat where [config]: "ROM_INODE_SIZE = 48"
definition ROM_SB_SIZE :: nat where [config]: "ROM_SB_SIZE = 40"
definition ROM_BLK_HEAD_SIZE :: nat where [config]: "ROM_BLK_HEAD_SIZE = 8"
definition PATH_BUF_SIZE :: nat where [config]: "PATH_BUF_SIZE = 500"
definition ROMFS_OUTPUT_DIR :: string where "ROMFS_OUTPUT_DIR = ''/rom_data/''"

definition set_rom_inode :: "nat \<Rightarrow> rom_inode \<Rightarrow> romfs \<Rightarrow> romfs" where
  "set_rom_inode n i r = r\<lparr>rom_inodes := (rom_inodes r)(n := i)\<rparr>"

definition rom_zero_inode :: rom_inode where
  "rom_zero_inode = \<lparr>ri_mode = 0, ri_ino = 0, ri_parent = 0, ri_size = 0, ri_blocks = 0, ri_data = Null, ri_dentry = None\<rparr>"

definition romfs_init :: romfs where
  "romfs_init = \<lparr>rs_inode_cnt = 1, rs_blk_cnt = 0, rom_inodes = (\<lambda>_. rom_zero_inode)(0 := rom_zero_inode\<lparr>ri_mode := S_IFDIR, ri_dentry := Some []\<rparr>),
     rom_dentries = (\<lambda>_. None), rom_blocks = (\<lambda>_. None)\<rparr>"

section \<open>Directories\<close>

primrec find_rom_dentry :: "(nat \<Rightarrow> rom_dentry option) \<Rightarrow> string \<Rightarrow> nat list \<Rightarrow> nat option outcome" where
  "find_rom_dentry D name [] = Done None"
| "find_rom_dentry D name (a # as) =
     (case D a of
        None \<Rightarrow> Undefined
      | Some d \<Rightarrow> if rd_name d = name then Done (Some (rd_inode d)) else find_rom_dentry D name as)"

definition fs_search_file_rom :: "nat \<Rightarrow> string \<Rightarrow> romfs \<Rightarrow> nat option outcome" where
  "fs_search_file_rom dir file_name r =
     (if ri_size (rom_inodes r dir) = 0 then Done None
      else
        (case ri_dentry (rom_inodes r dir) of
           None \<Rightarrow> Undefined
         | Some l \<Rightarrow> find_rom_dentry (rom_dentries r) file_name l))"

definition fs_calculate_dentry_blocks_rom :: "nat \<Rightarrow> nat \<Rightarrow> nat" where
  "fs_calculate_dentry_blocks_rom block_size dentry_cnt =
     (let dentry_per_blk = block_size div ROM_DENTRY_SIZE;
          blocks = dentry_cnt div dentry_per_blk in
      if dentry_cnt mod dentry_per_blk \<noteq> 0 then blocks + 1 else blocks)"

text \<open>The place for a new entry: behind the last entry of the list, or in a new block.\<close>

definition new_rom_dentry :: "nat \<Rightarrow> romfs \<Rightarrow> (romfs \<times> nat) outcome" where
  "new_rom_dentry dir r =
     (let d = rom_inodes r dir;
          dentry_per_blk = FS_BLK_SIZE div ROM_DENTRY_SIZE;
          dentry_cnt = ri_size d div ROM_DENTRY_SIZE in
      if dentry_cnt + 1 \<le> ri_blocks d * dentry_per_blk \<and> ri_size d \<noteq> 0
      then
        (case ri_dentry d of
           None \<Rightarrow> Undefined
         | Some l \<Rightarrow> if l = [] then Undefined else Done (r, last l + ROM_DENTRY_SIZE))
      else if rs_blk_cnt r \<ge> FS_BLK_CNT then Undefined
      else Done (r\<lparr>rs_blk_cnt := rs_blk_cnt r + 1\<rparr>, rs_blk_cnt r * FS_BLK_SIZE))"

definition fs_add_file_rom :: "nat \<Rightarrow> string \<Rightarrow> u8 \<Rightarrow> romfs \<Rightarrow> (romfs \<times> nat option) outcome" where
  "fs_add_file_rom dir file_name file_type r =
     (if rs_inode_cnt r \<ge> INODE_MAX then Done (r, None)
      else obind (new_rom_dentry dir r) (\<lambda>(r1, a).
        let n = rs_inode_cnt r1;
            r2 = r1\<lparr>rom_dentries := (rom_dentries r1)(a \<mapsto> \<lparr>rd_name = file_name, rd_inode = n, rd_parent = ri_ino (rom_inodes r1 dir)\<rparr>)\<rparr>;
            new_inode = \<lparr>ri_mode = file_type, ri_ino = n, ri_parent = ri_ino (rom_inodes r2 dir), ri_size = 0, ri_blocks = 0,
                         ri_data = Null, ri_dentry = (if file_type = S_IFDIR then Some [] else None)\<rparr> in
        if file_type \<noteq> S_IFREG \<and> file_type \<noteq> S_IFDIR then Exit (-1)
        else
          let r3 = (set_rom_inode n new_inode r2)\<lparr>rs_inode_cnt := n + 1\<rparr>;
              d = rom_inodes r3 dir in
          (case ri_dentry d of
             None \<Rightarrow> Undefined
           | Some l \<Rightarrow>
               let sz = ri_size d + ROM_DENTRY_SIZE;
                   d1 = d\<lparr>ri_data := (if l = [] then Blk a else ri_data d), ri_dentry := Some (l @ [a]), ri_size := sz,
                           ri_blocks := fs_calculate_dentry_blocks_rom FS_BLK_SIZE (sz div ROM_DENTRY_SIZE)\<rparr> in
               Done (set_rom_inode dir d1 r3, Some n))))"

section \<open>Paths\<close>

text \<open>The text of \<^verbatim>\<open>fs_split_path\<close> is that of the kernel, but the buffer for the entry has the size of a name.\<close>

definition fs_split_path_rom :: "string option \<Rightarrow> (string \<times> string option) outcome" where
  "fs_split_path_rom path =
     (case path of
        None \<Rightarrow> Undefined
      | Some p \<Rightarrow>
          (case split_loop [] p of
             None \<Rightarrow> Undefined
           | Some (entry, rest) \<Rightarrow>
               if length entry \<ge> NAME_MAX then Undefined else Done (entry, if rest = [] then None else Some rest)))"

lemma fs_split_path_rom_less: "fs_split_path_rom (Some p) = Done (e, Some q) \<Longrightarrow> length q < length p"
  using split_loop_less by (auto simp: fs_split_path_rom_def split: option.splits if_splits)

text \<open>The loop of \<^verbatim>\<open>fs_create_file\<close>; the result is the new inode. An empty entry at the end of the path lets the loop
  split a null pointer.\<close>

function create_walk_rom :: "nat \<Rightarrow> string \<Rightarrow> u8 \<Rightarrow> romfs \<Rightarrow> (romfs \<times> nat option) outcome" where
  "create_walk_rom dir path file_type r =
     (case fs_split_path_rom (Some path) of
        Undefined \<Rightarrow> Undefined
      | Exit e \<Rightarrow> Exit e
      | Done (entry, rest) \<Rightarrow>
          if entry = [] then (case rest of None \<Rightarrow> Undefined | Some p \<Rightarrow> create_walk_rom dir p file_type r)
          else
            (case fs_search_file_rom dir entry r of
               Undefined \<Rightarrow> Undefined
             | Exit e \<Rightarrow> Exit e
             | Done found \<Rightarrow>
                 (case rest of
                    Some p \<Rightarrow>
                      (case found of
                         Some i \<Rightarrow> create_walk_rom i p file_type r
                       | None \<Rightarrow>
                           (case fs_add_file_rom dir entry S_IFDIR r of
                              Undefined \<Rightarrow> Undefined
                            | Exit e \<Rightarrow> Exit e
                            | Done (r1, None) \<Rightarrow> Done (r1, None)
                            | Done (r1, Some i) \<Rightarrow> create_walk_rom i p file_type r1))
                  | None \<Rightarrow>
                      (case found of
                         Some _ \<Rightarrow> Done (r, None)
                       | None \<Rightarrow> fs_add_file_rom dir entry file_type r))))"
  by auto
termination by (relation "measure (\<lambda>(dir, path, ft, r). length path)") (auto dest: fs_split_path_rom_less)

declare create_walk_rom.simps [simp del]

definition fs_create_file_rom :: "string \<Rightarrow> u8 \<Rightarrow> romfs \<Rightarrow> (romfs \<times> nat option) outcome" where
  "fs_create_file_rom pathname file_type r =
     (if pathname = [] \<or> hd pathname \<noteq> CHR ''/'' then Done (r, None)
      else obind (fs_split_path_rom (Some pathname)) (\<lambda>(_, path).
        case path of None \<Rightarrow> Undefined | Some p \<Rightarrow> create_walk_rom 0 p file_type r))"

section \<open>Importing\<close>

definition rom_blk_free_size :: nat where [config]: "rom_blk_free_size = FS_BLK_SIZE - ROM_BLK_HEAD_SIZE"

text \<open>The number of blocks for the bytes of a file.\<close>

definition file_blocks :: "nat \<Rightarrow> nat" where
  "file_blocks sz = (if sz mod rom_blk_free_size > 0 then sz div rom_blk_free_size + 1 else sz div rom_blk_free_size)"

text \<open>The loop over the blocks of a file: \<open>last_blk\<close> is the block that has been written before, \<open>rest\<close> the bytes from
  \<^verbatim>\<open>file_pos\<close> on.\<close>

primrec import_blocks :: "nat \<Rightarrow> nat \<Rightarrow> nat option \<Rightarrow> u8 list \<Rightarrow> romfs \<Rightarrow> romfs outcome" where
  "import_blocks n 0 last_blk rest r = Done r"
| "import_blocks n (Suc k) last_blk rest r =
     (let b = rs_blk_cnt r;
          p = Blk (b * FS_BLK_SIZE);
          r1 = r\<lparr>rs_blk_cnt := b + 1\<rparr>;
          r2 = (case last_blk of
                  None \<Rightarrow> set_rom_inode n ((rom_inodes r1 n)\<lparr>ri_data := p\<rparr>) r1
                | Some l \<Rightarrow> r1\<lparr>rom_blocks := (rom_blocks r1)(l := map_option (rb_next_update (\<lambda>_. p)) (rom_blocks r1 l))\<rparr>);
          write_size = (if length rest > rom_blk_free_size then rom_blk_free_size else length rest) in
      if b \<ge> FS_BLK_CNT then Undefined
      else import_blocks n k (Some b) (drop write_size rest)
             (r2\<lparr>rom_blocks := (rom_blocks r2)(b \<mapsto> \<lparr>rb_next = Null, rb_bytes = take write_size rest\<rparr>)\<rparr>))"

text \<open>The space that is left is compared with the size of the file, the headers of its blocks not counted.\<close>

definition romfs_import_file :: "u8 list \<Rightarrow> string \<Rightarrow> romfs \<Rightarrow> romfs outcome" where
  "romfs_import_file content romfs_path r =
     obind (fs_create_file_rom romfs_path S_IFREG r) (\<lambda>(r1, inode).
       case inode of
         None \<Rightarrow> Exit (-1)
       | Some n \<Rightarrow>
           if content = [] then Done r1
           else if length content > FS_BLK_SIZE * (FS_BLK_CNT - rs_blk_cnt r1) then Exit 1
           else
             let blocks = file_blocks (length content) in
             import_blocks n blocks None content
               (set_rom_inode n ((rom_inodes r1 n)\<lparr>ri_size := length content, ri_blocks := blocks\<rparr>) r1))"

datatype host_entry = Reg_entry string "u8 list" | Dir_entry string "host_entry list" | Other_entry string

primrec host_name :: "host_entry \<Rightarrow> string" where
  "host_name (Reg_entry n bs) = n"
| "host_name (Dir_entry n es) = n"
| "host_name (Other_entry n) = n"

definition ignored_name :: "string \<Rightarrow> bool" where
  "ignored_name n \<longleftrightarrow> n = ''.'' \<or> n = ''..'' \<or> n = ''.gitkeep''"

text \<open>A path that does not fit its buffer is cut and names another file of the host: \<open>Undefined\<close>. The paths of the
  host and of the image begin with prefixes of the same length.\<close>

fun romfs_import_dir :: "host_entry list \<Rightarrow> string \<Rightarrow> romfs \<Rightarrow> romfs outcome" where
  "romfs_import_dir [] romfs_path r = Done r"
| "romfs_import_dir (e # es) romfs_path r =
     (if ignored_name (host_name e) then romfs_import_dir es romfs_path r
      else obind
        (case e of
           Dir_entry n cs \<Rightarrow>
             (if length romfs_path + length n + 1 \<ge> PATH_BUF_SIZE then Undefined
              else romfs_import_dir cs (romfs_path @ n @ ''/'') r)
         | Reg_entry n bs \<Rightarrow>
             (if length romfs_path + length n \<ge> PATH_BUF_SIZE then Undefined
              else romfs_import_file bs (romfs_path @ n) r)
         | Other_entry n \<Rightarrow> Done r)
        (romfs_import_dir es romfs_path))"

definition mkromfs :: "host_entry list \<Rightarrow> romfs outcome" where
  "mkromfs host = romfs_import_dir host ROMFS_OUTPUT_DIR romfs_init"


section \<open>What the image must satisfy\<close>

definition rom_list :: "romfs \<Rightarrow> nat \<Rightarrow> nat list" where
  "rom_list r n = (case ri_dentry (rom_inodes r n) of None \<Rightarrow> [] | Some l \<Rightarrow> l)"

text \<open>A directory: its entries belong to it, two in a block; the place behind the last entry is free when the block is
  not full.\<close>

definition rom_dir_ok :: "romfs \<Rightarrow> nat \<Rightarrow> bool" where
  "rom_dir_ok r n \<longleftrightarrow> (let d = rom_inodes r n; l = rom_list r n in
     ri_mode d = S_IFDIR \<and> ri_dentry d = Some l \<and> distinct l \<and> ri_size d = 56 * length l \<and> ri_blocks d = (length l + 1) div 2
     \<and> (l \<noteq> [] \<longrightarrow> ri_data d = Blk (hd l)) \<and> (\<forall>a \<in> set l. \<exists>e. rom_dentries r a = Some e \<and> rd_parent e = n)
     \<and> (odd (length l) \<longrightarrow> last l mod 128 = 0 \<and> rom_dentries r (last l + 56) = None))"

definition start_blk :: "romfs \<Rightarrow> nat \<Rightarrow> nat" where
  "start_blk r n = (case ri_data (rom_inodes r n) of Null \<Rightarrow> 0 | Blk o1 \<Rightarrow> o1 div 128)"

text \<open>A regular file that holds given bytes, in consecutive blocks.\<close>

definition file_holds :: "romfs \<Rightarrow> nat \<Rightarrow> u8 list \<Rightarrow> bool" where
  "file_holds r n bs \<longleftrightarrow> (let d = rom_inodes r n; b = start_blk r n; k = file_blocks (length bs) in
     ri_mode d = S_IFREG \<and> ri_dentry d = None \<and> ri_size d = length bs \<and> ri_blocks d = k
     \<and> ri_data d = (if bs = [] then Null else Blk (128 * b)) \<and> b + k \<le> rs_blk_cnt r
     \<and> (\<forall>j < k. rom_blocks r (b + j)
          = Some \<lparr>rb_next = (if Suc j < k then Blk (128 * (b + Suc j)) else Null), rb_bytes = take 120 (drop (120 * j) bs)\<rparr>))"

definition file_range :: "romfs \<Rightarrow> nat \<Rightarrow> nat set" where
  "file_range r n = {start_blk r n ..< start_blk r n + ri_blocks (rom_inodes r n)}"

definition rom_name_ok :: "string \<Rightarrow> bool" where
  "rom_name_ok n \<longleftrightarrow> n \<noteq> [] \<and> length n < NAME_MAX \<and> CHR ''/'' \<notin> set n \<and> CHR 0x00 \<notin> set n"

definition slot_ok :: "romfs \<Rightarrow> nat \<Rightarrow> rom_dentry \<Rightarrow> bool" where
  "slot_ok r a e \<longleftrightarrow> a div 128 < rs_blk_cnt r \<and> (a mod 128 = 0 \<or> a mod 128 = 56) \<and> rd_inode e < rs_inode_cnt r \<and> rd_parent e < rs_inode_cnt r
     \<and> a \<in> set (rom_list r (rd_parent e)) \<and> rom_name_ok (rd_name e) \<and> rom_blocks r (a div 128) = None"

definition rom_ok :: "romfs \<Rightarrow> bool" where
  "rom_ok r \<longleftrightarrow> 0 < rs_inode_cnt r \<and> rs_inode_cnt r \<le> INODE_MAX \<and> rs_blk_cnt r \<le> FS_BLK_CNT \<and> rom_dir_ok r 0
     \<and> (\<forall>n < rs_inode_cnt r. ri_ino (rom_inodes r n) = n \<and> ri_parent (rom_inodes r n) < INODE_MAX \<and> (rom_dir_ok r n \<or> (\<exists>bs. file_holds r n bs)))
     \<and> (\<forall>a e. rom_dentries r a = Some e \<longrightarrow> slot_ok r a e)
     \<and> (\<forall>b. rom_blocks r b \<noteq> None \<longrightarrow> b < rs_blk_cnt r)
     \<and> (\<forall>n < rs_inode_cnt r. \<forall>m < rs_inode_cnt r. n \<noteq> m \<and> ri_mode (rom_inodes r n) = S_IFREG \<and> ri_mode (rom_inodes r m) = S_IFREG
          \<longrightarrow> file_range r n \<inter> file_range r m = {})"

lemma dir_not_file [simp]: "rom_dir_ok r n \<Longrightarrow> \<not> file_holds r n bs"
  by (auto simp: rom_dir_ok_def file_holds_def Let_def config)

lemma rom_dir_okD:
  assumes "rom_dir_ok r n"
  shows "ri_mode (rom_inodes r n) = S_IFDIR" "ri_dentry (rom_inodes r n) = Some (rom_list r n)" "distinct (rom_list r n)"
    "ri_size (rom_inodes r n) = 56 * length (rom_list r n)" "ri_blocks (rom_inodes r n) = (length (rom_list r n) + 1) div 2"
    "rom_list r n \<noteq> [] \<Longrightarrow> ri_data (rom_inodes r n) = Blk (hd (rom_list r n))"
    "\<And>a. a \<in> set (rom_list r n) \<Longrightarrow> \<exists>e. rom_dentries r a = Some e \<and> rd_parent e = n"
    "odd (length (rom_list r n)) \<Longrightarrow> last (rom_list r n) mod 128 = 0"
    "odd (length (rom_list r n)) \<Longrightarrow> rom_dentries r (last (rom_list r n) + 56) = None"
  using assms unfolding rom_dir_ok_def Let_def by simp_all

text \<open>Looking up a name in a directory, and a sequence of names from a directory on.\<close>

primrec find_name :: "(nat \<Rightarrow> rom_dentry option) \<Rightarrow> string \<Rightarrow> nat list \<Rightarrow> nat option" where
  "find_name D name [] = None"
| "find_name D name (a # as) = (if rd_name (the (D a)) = name then Some (rd_inode (the (D a))) else find_name D name as)"

definition rom_look :: "romfs \<Rightarrow> nat \<Rightarrow> string \<Rightarrow> nat option" where
  "rom_look r n name = find_name (rom_dentries r) name (rom_list r n)"

lemma find_name_Some: "find_name D name l = Some i \<Longrightarrow> \<exists>a \<in> set l. i = rd_inode (the (D a))"
  by (induction l) (auto split: if_splits)

lemma find_name_upd [simp]: "a \<notin> set l \<Longrightarrow> find_name (D(a := e)) name l = find_name D name l"
  by (induction l) auto

lemma find_name_append:
  "find_name D name (l @ [a]) = (case find_name D name l of None \<Rightarrow> if rd_name (the (D a)) = name then Some (rd_inode (the (D a))) else None
     | Some i \<Rightarrow> Some i)"
  by (induction l) auto

primrec rom_walk :: "romfs \<Rightarrow> string list \<Rightarrow> nat \<Rightarrow> nat option" where
  "rom_walk r [] n = Some n"
| "rom_walk r (x # xs) n = rom_look r n x \<bind> rom_walk r xs"

lemma find_rom_dentry_eq: "(\<forall>a \<in> set l. D a \<noteq> None) \<Longrightarrow> find_rom_dentry D name l = Done (find_name D name l)"
  by (induction l) auto

lemma fs_search_file_rom_eq: "rom_dir_ok r n \<Longrightarrow> fs_search_file_rom n name r = Done (rom_look r n name)"
  unfolding fs_search_file_rom_def rom_dir_ok_def Let_def rom_look_def by (subst find_rom_dentry_eq [symmetric]) auto

text \<open>What the operations keep: the files, and what the directories lead to.\<close>

definition rom_grows :: "romfs \<Rightarrow> romfs \<Rightarrow> bool" where
  "rom_grows r r' \<longleftrightarrow> rs_inode_cnt r \<le> rs_inode_cnt r' \<and> rs_blk_cnt r \<le> rs_blk_cnt r'
     \<and> (\<forall>n < rs_inode_cnt r. rom_dir_ok r n \<longrightarrow> rom_dir_ok r' n \<and> (\<forall>x i. rom_look r n x = Some i \<longrightarrow> rom_look r' n x = Some i))
     \<and> (\<forall>n < rs_inode_cnt r. ri_mode (rom_inodes r n) \<noteq> S_IFDIR \<longrightarrow> rom_inodes r' n = rom_inodes r n)
     \<and> (\<forall>b < rs_blk_cnt r. rom_blocks r' b = rom_blocks r b)"

lemma rom_grows_refl [simp]: "rom_grows r r"
  by (simp add: rom_grows_def)

lemma rom_okD:
  assumes "rom_ok r"
  shows "0 < rs_inode_cnt r" "rs_inode_cnt r \<le> 100" "rs_blk_cnt r \<le> 100" "rom_dir_ok r 0"
    "\<And>n. n < rs_inode_cnt r \<Longrightarrow> ri_ino (rom_inodes r n) = n" "\<And>n. n < rs_inode_cnt r \<Longrightarrow> rom_dir_ok r n \<or> (\<exists>bs. file_holds r n bs)"
    "\<And>a e. rom_dentries r a = Some e \<Longrightarrow> slot_ok r a e" "\<And>b. rom_blocks r b \<noteq> None \<Longrightarrow> b < rs_blk_cnt r"
    "\<And>n. n < rs_inode_cnt r \<Longrightarrow> ri_parent (rom_inodes r n) < 100"
  using assms by (auto simp: rom_ok_def config)

lemma file_holds_grows:
  assumes "rom_ok r" "rom_grows r r'" "file_holds r n bs" "n < rs_inode_cnt r"
  shows "file_holds r' n bs"
proof -
  have "ri_mode (rom_inodes r n) \<noteq> S_IFDIR" using assms(3) by (auto simp: file_holds_def Let_def config)
  then have i: "rom_inodes r' n = rom_inodes r n" using assms(2,4) by (auto simp: rom_grows_def)
  then have s: "start_blk r' n = start_blk r n" by (simp add: start_blk_def)
  have "rom_blocks r' (start_blk r n + j) = rom_blocks r (start_blk r n + j)" if "j < file_blocks (length bs)" for j
    using assms(2,3) that by (auto simp: rom_grows_def file_holds_def Let_def)
  moreover have "rs_blk_cnt r \<le> rs_blk_cnt r'" using assms(2) by (simp add: rom_grows_def)
  ultimately show ?thesis using assms(3) by (auto simp: file_holds_def Let_def i s)
qed

lemma rom_look_less: "rom_ok r \<Longrightarrow> rom_dir_ok r n \<Longrightarrow> rom_look r n x = Some i \<Longrightarrow> i < rs_inode_cnt r"
proof -
  assume ok: "rom_ok r" and d: "rom_dir_ok r n" and l: "rom_look r n x = Some i"
  then obtain a where a: "a \<in> set (rom_list r n)" "i = rd_inode (the (rom_dentries r a))"
    unfolding rom_look_def using find_name_Some by blast
  with d obtain e where "rom_dentries r a = Some e" by (auto simp: rom_dir_ok_def Let_def)
  with rom_okD(7) [OF ok this] a(2) show ?thesis by (simp add: slot_ok_def)
qed

lemma rom_look_dir: "rom_ok r \<Longrightarrow> n < rs_inode_cnt r \<Longrightarrow> rom_look r n x = Some i \<Longrightarrow> rom_dir_ok r n"
  using rom_okD(6) [of r n] by (auto simp: rom_look_def rom_list_def file_holds_def Let_def)

lemma rom_walk_grows:
  "rom_ok r \<Longrightarrow> rom_grows r r' \<Longrightarrow> n < rs_inode_cnt r \<Longrightarrow> rom_walk r xs n = Some i \<Longrightarrow> rom_walk r' xs n = Some i \<and> i < rs_inode_cnt r"
proof (induction xs arbitrary: n)
  case (Cons x xs)
  then obtain j where j: "rom_look r n x = Some j" "rom_walk r xs j = Some i" by (auto simp: bind_eq_Some_iff)
  have d: "rom_dir_ok r n" using rom_look_dir [OF Cons.prems(1,3) j(1)] .
  then have "rom_look r' n x = Some j" using Cons.prems(2,3) j(1) by (auto simp: rom_grows_def)
  with Cons.IH [OF Cons.prems(1,2) rom_look_less [OF Cons.prems(1) d j(1)] j(2)] show ?case by simp
qed simp

lemma rom_grows_trans: "rom_grows r r1 \<Longrightarrow> rom_grows r1 r2 \<Longrightarrow> rom_grows r r2"
  unfolding rom_grows_def by (smt (verit, best) le_trans order_less_le_trans)


section \<open>Adding a file\<close>

definition rom_place :: "romfs \<Rightarrow> nat \<Rightarrow> nat \<Rightarrow> nat \<Rightarrow> bool" where
  "rom_place r dir bc a \<longleftrightarrow> rs_blk_cnt r \<le> bc \<and> bc \<le> 100 \<and> a div 128 < bc \<and> rom_dentries r a = None \<and> rom_blocks r (a div 128) = None
     \<and> (if even (length (rom_list r dir)) then a mod 128 = 0 \<and> rom_dentries r (a + 56) = None
        else a mod 128 = 56 \<and> a = last (rom_list r dir) + 56)"

lemma new_rom_dentry_place:
  assumes "rom_ok r" "rom_dir_ok r dir" "new_rom_dentry dir r = Done (r1, a)"
  obtains bc where "r1 = r\<lparr>rs_blk_cnt := bc\<rparr>" "rom_place r dir bc a"
proof -
  let ?l = "rom_list r dir"
  have d: "ri_size (rom_inodes r dir) = 56 * length ?l" "ri_blocks (rom_inodes r dir) = (length ?l + 1) div 2"
    "ri_dentry (rom_inodes r dir) = Some ?l"
    using assms(2) by (simp_all add: rom_dir_ok_def Let_def)
  show ?thesis
  proof (cases "odd (length ?l)")
    case True
    then have "?l \<noteq> []" by auto
    obtain k where "length ?l = 2 * k + 1" using True by (elim oddE)
    then have a: "r1 = r" "a = last ?l + 56" using assms(3) d \<open>?l \<noteq> []\<close> by (auto simp: new_rom_dentry_def config)
    have m: "last ?l mod 128 = 0" "rom_dentries r a = None" using assms(2) True a(2) by (simp_all add: rom_dir_ok_def Let_def)
    obtain e where e: "rom_dentries r (last ?l) = Some e" using rom_dir_okD(7) [OF assms(2) last_in_set] \<open>?l \<noteq> []\<close> by blast
    have "a div 128 = last ?l div 128" "a mod 128 = 56" using m(1) unfolding a(2) by (auto elim!: dvdE)
    then have "rom_place r dir (rs_blk_cnt r) a"
      using rom_okD(7) [OF assms(1) e] rom_okD(3) [OF assms(1)] m(2) a(2) True by (simp add: rom_place_def slot_ok_def)
    with that [of "rs_blk_cnt r"] a(1) show ?thesis by simp
  next
    case False
    then have b: "rs_blk_cnt r < 100" "r1 = r\<lparr>rs_blk_cnt := rs_blk_cnt r + 1\<rparr>" "a = rs_blk_cnt r * 128"
      using assms(3) d by (auto simp: new_rom_dentry_def config split: if_splits elim!: evenE)
    have "rom_dentries r x = None" if "x div 128 = rs_blk_cnt r" for x
      using rom_okD(7) [OF assms(1), of x] that by (cases "rom_dentries r x") (auto simp: slot_ok_def)
    moreover have "rom_blocks r (rs_blk_cnt r) = None" using rom_okD(8) [OF assms(1), of "rs_blk_cnt r"] by blast
    ultimately have "rom_place r dir (rs_blk_cnt r + 1) a" using b False by (simp add: rom_place_def)
    with that b(2) show ?thesis by blast
  qed
qed

text \<open>The state after a file has been added.\<close>

definition rom_added :: "nat \<Rightarrow> string \<Rightarrow> u8 \<Rightarrow> nat \<Rightarrow> nat \<Rightarrow> romfs \<Rightarrow> romfs" where
  "rom_added dir name t bc a r =
     (let n = rs_inode_cnt r; l = rom_list r dir; d = rom_inodes r dir in
      r\<lparr>rs_inode_cnt := n + 1, rs_blk_cnt := bc,
        rom_inodes := (rom_inodes r)
          (n := \<lparr>ri_mode = t, ri_ino = n, ri_parent = dir, ri_size = 0, ri_blocks = 0, ri_data = Null,
                 ri_dentry = (if t = S_IFDIR then Some [] else None)\<rparr>,
           dir := d\<lparr>ri_data := (if l = [] then Blk a else ri_data d), ri_dentry := Some (l @ [a]), ri_size := 56 * (length l + 1),
                    ri_blocks := (length l + 2) div 2\<rparr>),
        rom_dentries := (rom_dentries r)(a \<mapsto> \<lparr>rd_name = name, rd_inode = n, rd_parent = dir\<rparr>)\<rparr>)"

lemma rom_dentry_blocks: "fs_calculate_dentry_blocks_rom FS_BLK_SIZE k = (k + 1) div 2"
  by (simp add: fs_calculate_dentry_blocks_rom_def config Let_def) presburger

lemma fs_add_file_rom_added:
  assumes "rom_ok r" "dir < rs_inode_cnt r" "rom_dir_ok r dir" "fs_add_file_rom dir name t r = Done (r', res)"
  shows "res = None \<and> r' = r \<or> (t = S_IFREG \<or> t = S_IFDIR) \<and> res = Some (rs_inode_cnt r) \<and> rs_inode_cnt r < 100
           \<and> (\<exists>bc a. rom_place r dir bc a \<and> r' = rom_added dir name t bc a r)"
proof (cases "rs_inode_cnt r \<ge> 100")
  case False
  then obtain r1 a where a: "new_rom_dentry dir r = Done (r1, a)"
    using assms(4) by (auto simp: fs_add_file_rom_def config obind_Done)
  obtain bc where bc: "r1 = r\<lparr>rs_blk_cnt := bc\<rparr>" "rom_place r dir bc a" using new_rom_dentry_place [OF assms(1,3) a] .
  have d: "ri_size (rom_inodes r dir) = 56 * length (rom_list r dir)" "ri_dentry (rom_inodes r dir) = Some (rom_list r dir)"
    "ri_ino (rom_inodes r dir) = dir"
    using assms(1,2,3) rom_okD(5) by (simp_all add: rom_dir_ok_def Let_def)
  have "t = S_IFREG \<or> t = S_IFDIR" using assms(4) False by (auto simp: fs_add_file_rom_def config a Let_def split: if_splits)
  then have "res = Some (rs_inode_cnt r)" "r' = rom_added dir name t bc a r"
    using assms(2,4) False a bc(1) d
    by (auto simp: fs_add_file_rom_def rom_added_def INODE_MAX_def ROM_DENTRY_SIZE_def Let_def set_rom_inode_def rom_dentry_blocks
      add.commute [of 56] intro!: romfs.equality)
  with bc(2) False \<open>t = S_IFREG \<or> t = S_IFDIR\<close> show ?thesis by auto
qed (use assms(4) in \<open>simp add: fs_add_file_rom_def config\<close>)



lemma rom_added_simps:
  assumes "dir < rs_inode_cnt r"
  shows "rs_inode_cnt (rom_added dir name t bc a r) = rs_inode_cnt r + 1" "rs_blk_cnt (rom_added dir name t bc a r) = bc"
    "rom_blocks (rom_added dir name t bc a r) = rom_blocks r"
    "rom_dentries (rom_added dir name t bc a r) = (rom_dentries r)(a \<mapsto> \<lparr>rd_name = name, rd_inode = rs_inode_cnt r, rd_parent = dir\<rparr>)"
    "m \<noteq> dir \<Longrightarrow> m \<noteq> rs_inode_cnt r \<Longrightarrow> rom_inodes (rom_added dir name t bc a r) m = rom_inodes r m"
    "rom_inodes (rom_added dir name t bc a r) (rs_inode_cnt r) = \<lparr>ri_mode = t, ri_ino = rs_inode_cnt r, ri_parent = dir, ri_size = 0,
       ri_blocks = 0, ri_data = Null, ri_dentry = (if t = S_IFDIR then Some [] else None)\<rparr>"
    "rom_list (rom_added dir name t bc a r) m = (if m = dir then rom_list r dir @ [a] else if m = rs_inode_cnt r then [] else rom_list r m)"
  using assms by (auto simp: rom_added_def Let_def rom_list_def)

lemma rom_added_dir:
  assumes ok: "rom_ok r" and dir: "dir < rs_inode_cnt r" "rom_dir_ok r dir" and place: "rom_place r dir bc a"
  shows "rom_dir_ok (rom_added dir name t bc a r) dir"
proof -
  note D = rom_dir_okD [OF dir(2)] and S = rom_added_simps [OF dir(1), where name = name and t = t and bc = bc and a = a]
  let ?r = "rom_added dir name t bc a r" and ?l = "rom_list r dir"
  have new: "a \<notin> set ?l" using D(7) [of a] place by (auto simp: rom_place_def)
  have i: "ri_mode (rom_inodes ?r dir) = S_IFDIR" "ri_dentry (rom_inodes ?r dir) = Some (?l @ [a])" "ri_size (rom_inodes ?r dir) = 56 * (length ?l + 1)"
    "ri_blocks (rom_inodes ?r dir) = (length ?l + 2) div 2" "ri_data (rom_inodes ?r dir) = Blk (hd (?l @ [a]))"
    using D(1,6) by (auto simp: rom_added_def Let_def)
  have e: "\<exists>e. rom_dentries ?r x = Some e \<and> rd_parent e = dir" if "x \<in> set (?l @ [a])" for x using that D(7) by (auto simp: S(4))
  have o: "a mod 128 = 0 \<and> rom_dentries ?r (a + 56) = None" if "odd (length (?l @ [a]))" using place that by (simp add: rom_place_def S(4))
  show ?thesis unfolding rom_dir_ok_def Let_def using i e o new D(3) by (simp add: S(7))
qed

lemma rom_added_other_dir:
  assumes ok: "rom_ok r" and dir: "dir < rs_inode_cnt r" "rom_dir_ok r dir" and place: "rom_place r dir bc a"
    and m: "rom_dir_ok r m" "m < rs_inode_cnt r" "m \<noteq> dir"
  shows "rom_dir_ok (rom_added dir name t bc a r) m"
proof -
  note D = rom_dir_okD [OF m(1)] and S = rom_added_simps [OF dir(1), where name = name and t = t and bc = bc and a = a]
  let ?r = "rom_added dir name t bc a r" and ?l = "rom_list r m"
  have i: "rom_inodes ?r m = rom_inodes r m" "rom_list ?r m = ?l" using m by (simp_all add: S)
  have e: "\<exists>e. rom_dentries ?r x = Some e \<and> rd_parent e = m" if "x \<in> set ?l" for x
    using D(7) [OF that] place by (auto simp: S(4) rom_place_def)
  have "last ?l + 56 \<noteq> a" if odd: "odd (length ?l)"
  proof
    assume a: "last ?l + 56 = a"
    have "(last ?l + 56) mod 128 = 56" using D(8) [OF odd] by (auto elim!: dvdE)
    then have "odd (length (rom_list r dir))" "last (rom_list r dir) = last ?l" using place a by (auto simp: rom_place_def split: if_splits)
    moreover have "?l \<noteq> []" "rom_list r dir \<noteq> []" using odd calculation(1) by auto
    ultimately obtain e e' where "rom_dentries r (last ?l) = Some e" "rd_parent e = dir" "rom_dentries r (last ?l) = Some e'" "rd_parent e' = m"
      using rom_dir_okD(7) [OF dir(2) last_in_set] D(7) [OF last_in_set] by metis
    then show False using m(3) by simp
  qed
  then have o: "rom_dentries ?r (last ?l + 56) = None" if "odd (length ?l)" using D(9) that by (simp add: S(4))
  show ?thesis unfolding rom_dir_ok_def Let_def i using D(1-6,8) e o by blast
qed

lemma rom_added_look:
  assumes dir: "dir < rs_inode_cnt r" "rom_dir_ok r dir" and place: "rom_place r dir bc a" and m: "rom_dir_ok r m" "m < rs_inode_cnt r"
  shows "rom_look (rom_added dir name t bc a r) m x
    = (if m = dir \<and> x = name \<and> rom_look r m x = None then Some (rs_inode_cnt r) else rom_look r m x)"
proof -
  note S = rom_added_simps [OF dir(1), where name = name and t = t and bc = bc and a = a]
  let ?r = "rom_added dir name t bc a r"
  have "a \<notin> set (rom_list r m)" using rom_dir_okD(7) [OF m(1), of a] place by (auto simp: rom_place_def)
  then show ?thesis using m(2) by (auto simp: rom_look_def S(7) S(4) find_name_append split: option.splits)
qed


lemma rom_added_file:
  assumes dir: "dir < rs_inode_cnt r" "rom_dir_ok r dir" and place: "rom_place r dir bc a" and m: "file_holds r m bs" "m < rs_inode_cnt r"
  shows "file_holds (rom_added dir name t bc a r) m bs" "rom_inodes (rom_added dir name t bc a r) m = rom_inodes r m"
proof -
  have "m \<noteq> dir" using m(1) dir(2) dir_not_file by blast
  then show i: "rom_inodes (rom_added dir name t bc a r) m = rom_inodes r m" using m(2) by (simp add: rom_added_simps(5) [OF dir(1)])
  then show "file_holds (rom_added dir name t bc a r) m bs"
    using m(1) place by (simp add: file_holds_def Let_def start_blk_def rom_added_simps [OF dir(1)] rom_place_def)
qed

lemma rom_added_new:
  assumes dir: "dir < rs_inode_cnt r" and t: "t = S_IFREG \<or> t = S_IFDIR"
  shows "if t = S_IFREG then file_holds (rom_added dir name t bc a r) (rs_inode_cnt r) []
         else rom_dir_ok (rom_added dir name t bc a r) (rs_inode_cnt r) \<and> rom_list (rom_added dir name t bc a r) (rs_inode_cnt r) = []"
  using t assms(1) by (auto simp: file_holds_def Let_def rom_dir_ok_def start_blk_def rom_added_simps [OF dir(1)] file_blocks_def config)

lemma rom_added_grows:
  assumes ok: "rom_ok r" and dir: "dir < rs_inode_cnt r" "rom_dir_ok r dir" and place: "rom_place r dir bc a"
  shows "rom_grows r (rom_added dir name t bc a r)"
  unfolding rom_grows_def
proof (intro conjI allI impI)
  fix m assume m: "m < rs_inode_cnt r" "rom_dir_ok r m"
  show "rom_dir_ok (rom_added dir name t bc a r) m"
    using rom_added_dir [OF ok dir place] rom_added_other_dir [OF ok dir place m(2,1)] by (cases "m = dir") simp_all
  show "rom_look (rom_added dir name t bc a r) m x = Some i" if "rom_look r m x = Some i" for x i
    unfolding rom_added_look [OF dir place m(2,1)] using that by simp
next
  fix m assume m: "m < rs_inode_cnt r" "ri_mode (rom_inodes r m) \<noteq> S_IFDIR"
  then have "m \<noteq> dir" using rom_dir_okD(1) [OF dir(2)] by auto
  with m(1) show "rom_inodes (rom_added dir name t bc a r) m = rom_inodes r m" by (simp add: rom_added_simps(5) [OF dir(1)])
qed (use place in \<open>auto simp: rom_added_simps [OF dir(1)] rom_place_def\<close>)

lemma rom_added_slot:
  assumes ok: "rom_ok r" and dir: "dir < rs_inode_cnt r" "rom_dir_ok r dir" and place: "rom_place r dir bc a" and name: "rom_name_ok name"
    and e: "rom_dentries (rom_added dir name t bc a r) x = Some e"
  shows "slot_ok (rom_added dir name t bc a r) x e"
proof (cases "x = a")
  case True
  then show ?thesis using e place name dir(1) by (auto simp: slot_ok_def rom_added_simps [OF dir(1)] rom_place_def split: if_splits)
next
  case False
  then have "slot_ok r x e" using e rom_okD(7) [OF ok, of x e] by (simp add: rom_added_simps [OF dir(1)])
  then show ?thesis using place by (auto simp: slot_ok_def rom_added_simps [OF dir(1)] rom_place_def)
qed

lemma rom_added_ok:
  assumes ok: "rom_ok r" and dir: "dir < rs_inode_cnt r" "rom_dir_ok r dir" and place: "rom_place r dir bc a" and name: "rom_name_ok name"
    and t: "t = S_IFREG \<or> t = S_IFDIR" and n: "rs_inode_cnt r < 100"
  shows "rom_ok (rom_added dir name t bc a r)"
proof -
  let ?r = "rom_added dir name t bc a r" and ?n = "rs_inode_cnt r"
  note S = rom_added_simps [OF dir(1), where name = name and t = t and bc = bc and a = a]
  have g: "rom_grows r ?r" by (rule rom_added_grows [OF ok dir place])
  have dirs: "rom_dir_ok ?r m" if "rom_dir_ok r m" "m < ?n" for m using g that by (simp add: rom_grows_def)
  have files: "file_holds ?r m bs" "rom_inodes ?r m = rom_inodes r m" if "file_holds r m bs" "m < ?n" for m bs
    using rom_added_file [OF dir place that] by simp_all
  have modes: "ri_mode (rom_inodes r m) = S_IFREG \<Longrightarrow> \<exists>bs. file_holds r m bs" if "m < ?n" for m
    using rom_okD(6) [OF ok that] rom_dir_okD(1) by (auto simp: config)
  have inodes: "ri_ino (rom_inodes ?r m) = m \<and> ri_parent (rom_inodes ?r m) < 100 \<and> (rom_dir_ok ?r m \<or> (\<exists>bs. file_holds ?r m bs))" if "m < ?n + 1" for m
  proof (cases "m = ?n")
    case True
    then show ?thesis using rom_added_new [OF dir(1) t, of name bc a] S(6) dir(1) n by (auto split: if_splits)
  next
    case False
    then have m: "m < ?n" using that by simp
    have "ri_ino (rom_inodes ?r m) = m" "ri_parent (rom_inodes ?r m) < 100" using rom_okD(5,9) [OF ok m] m by (auto simp: rom_added_def Let_def)
    with rom_okD(6) [OF ok m] dirs files m show ?thesis by blast
  qed
  have range: "file_range ?r m = (if m = ?n then {} else file_range r m)" if "m < ?n + 1" "ri_mode (rom_inodes ?r m) = S_IFREG" for m
  proof (cases "m = ?n")
    case False
    then have m: "m < ?n" using that by simp
    have "m \<noteq> dir" using that(2) rom_dir_okD(1) [OF dirs [OF dir(2,1)]] by (auto simp: config)
    with m show ?thesis by (simp add: file_range_def start_blk_def S(5))
  qed (simp add: file_range_def S(6))
  have disj: "file_range ?r m \<inter> file_range ?r k = {}"
    if "m < ?n + 1" "k < ?n + 1" "m \<noteq> k \<and> ri_mode (rom_inodes ?r m) = S_IFREG \<and> ri_mode (rom_inodes ?r k) = S_IFREG" for m k
  proof (cases "m = ?n \<or> k = ?n")
    case False
    then have m: "m < ?n" "k < ?n" "m \<noteq> dir" "k \<noteq> dir" using that rom_dir_okD(1) [OF dirs [OF dir(2,1)]] by (auto simp: config)
    then show ?thesis using that ok m False unfolding range [OF that(1) conjunct1 [OF conjunct2 [OF that(3)]]] range [OF that(2) conjunct2 [OF conjunct2 [OF that(3)]]]
      by (auto simp: rom_ok_def S(5))
  qed (use range that in auto)
  have "b < bc" if "rom_blocks r b \<noteq> None" for b using rom_okD(8) [OF ok that] place by (simp add: rom_place_def)
  then show ?thesis unfolding rom_ok_def S(1,2,3)
    using inodes disj dirs [OF rom_okD(4,1) [OF ok]] rom_added_slot [OF ok dir place name] place n
    by (auto simp: rom_place_def config)
qed


lemma fs_add_file_rom_ok:
  assumes "rom_ok r" "dir < rs_inode_cnt r" "rom_dir_ok r dir" "rom_name_ok name" "rom_look r dir name = None"
    "fs_add_file_rom dir name t r = Done (r', Some n)"
  shows "rom_ok r'" "rom_grows r r'" "n = rs_inode_cnt r" "n < rs_inode_cnt r'" "rom_look r' dir name = Some n" "dir < rs_inode_cnt r'"
    "if t = S_IFREG then file_holds r' n [] else rom_dir_ok r' n"
proof -
  obtain bc a where t: "t = S_IFREG \<or> t = S_IFDIR" and n: "n = rs_inode_cnt r" "rs_inode_cnt r < 100"
    and pl: "rom_place r dir bc a" and r': "r' = rom_added dir name t bc a r"
    using fs_add_file_rom_added [OF assms(1,2,3,6)] by auto
  show "rom_ok r'" unfolding r' by (rule rom_added_ok [OF assms(1,2,3) pl assms(4) t n(2)])
  show "rom_grows r r'" unfolding r' by (rule rom_added_grows [OF assms(1,2,3) pl])
  show "n = rs_inode_cnt r" "n < rs_inode_cnt r'" "dir < rs_inode_cnt r'" using n assms(2) by (simp_all add: r' rom_added_simps [OF assms(2)])
  show "rom_look r' dir name = Some n" unfolding r' rom_added_look [OF assms(2,3) pl assms(3,2)] using assms(5) n(1) by simp
  show "if t = S_IFREG then file_holds r' n [] else rom_dir_ok r' n"
    using rom_added_new [OF assms(2) t, of name bc a] unfolding r' n(1) by (auto split: if_splits)
qed

text \<open>The walk stops with an error at a regular file.\<close>

lemma rom_file_search: "file_holds r n bs \<Longrightarrow> fs_search_file_rom n name r = Done x \<Longrightarrow> x = None"
  by (auto simp: fs_search_file_rom_def file_holds_def Let_def split: if_splits)

lemma rom_file_add: "file_holds r n bs \<Longrightarrow> n < rs_inode_cnt r \<Longrightarrow> fs_add_file_rom n name t r \<noteq> Done (r', Some m)"
  by (auto simp: fs_add_file_rom_def file_holds_def Let_def obind_Done new_rom_dentry_def set_rom_inode_def split: if_splits)

section \<open>Creating a file by its path\<close>

lemma fs_split_path_rom_Done:
  assumes "fs_split_path_rom (Some p) = Done (e, rest)"
  shows "p \<noteq> []" "e = path_head p" "length e < 30" "rest = (if path_rest p = [] then None else Some (path_rest p))"
proof -
  show p: "p \<noteq> []" using assms by (cases p) (auto simp: fs_split_path_rom_def)
  show "e = path_head p" "length e < 30" "rest = (if path_rest p = [] then None else Some (path_rest p))"
    using assms split_loop_eq [OF p, of "[]"] by (auto simp: fs_split_path_rom_def config split: if_splits)
qed

lemma path_parts_set: "set (path_head p) \<subseteq> set p - {CHR ''/''}" "set (path_rest p) \<subseteq> set p"
proof -
  show "set (path_head p) \<subseteq> set p - {CHR ''/''}" by (auto simp: path_head_def dest: set_takeWhileD)
  have "set (tl xs) \<subseteq> set xs" for xs :: string by (cases xs) auto
  then show "set (path_rest p) \<subseteq> set p" unfolding path_rest_def using set_dropWhileD by fastforce
qed

lemma path_head_name_ok: "path_head p \<noteq> [] \<Longrightarrow> length (path_head p) < 30 \<Longrightarrow> CHR 0x00 \<notin> set p \<Longrightarrow> rom_name_ok (path_head p)"
  using path_parts_set(1) [of p] by (auto simp: rom_name_ok_def config)

lemma create_walk_rom_ok:
  assumes "rom_ok r" "dir < rs_inode_cnt r" "CHR 0x00 \<notin> set p" "create_walk_rom dir p S_IFREG r = Done (r', Some n)"
  shows "rom_ok r' \<and> rom_grows r r' \<and> rs_inode_cnt r \<le> n \<and> n < rs_inode_cnt r' \<and> rom_walk r' (path_names p) dir = Some n \<and> file_holds r' n []"
  using assms
proof (induction "length p" arbitrary: dir p r rule: less_induct)
  case less
  note ok = less.prems(1) and dir = less.prems(2) and z = less.prems(3)
  obtain e rest where sp: "fs_split_path_rom (Some p) = Done (e, rest)"
    using less.prems(4) by (subst (asm) create_walk_rom.simps) (auto split: outcome.splits)
  note E = fs_split_path_rom_Done [OF sp]
  let ?q = "path_rest p"
  have q: "length ?q < length p" "CHR 0x00 \<notin> set ?q" using path_rest_less [OF E(1)] path_parts_set(2) [of p] z by auto
  note W = less.prems(4) [unfolded create_walk_rom.simps [of dir p] sp]
  show ?case
  proof (cases "e = []")
    case True
    then have "create_walk_rom dir ?q S_IFREG r = Done (r', Some n)" using W E(4) by (auto split: if_splits)
    from less.hyps [OF q(1) ok dir q(2) this] True E(1,2) show ?thesis by (simp add: path_names.simps [of p])
  next
    case False
    have names: "path_names p = e # path_names ?q" using False E(1,2) by (simp add: path_names.simps [of p])
    have nm: "rom_name_ok e" using path_head_name_ok [of p] False E(2,3) z by simp
    have d: "rom_dir_ok r dir"
    proof (rule ccontr)
      assume "\<not> rom_dir_ok r dir"
      then obtain bs where f: "file_holds r dir bs" using rom_okD(6) [OF ok dir] by blast
      show False using W False rom_file_search [OF f, of e] rom_file_add [OF f dir]
        by (auto split: outcome.splits option.splits prod.splits)
    qed
    note sr = fs_search_file_rom_eq [OF d, of e]
    show ?thesis
    proof (cases "?q = []")
      case True
      then have "rom_look r dir e = None" and add: "fs_add_file_rom dir e S_IFREG r = Done (r', Some n)"
        using W False sr E(4) by (auto split: option.splits)
      note A = fs_add_file_rom_ok [OF ok dir d nm this]
      show ?thesis using A True by (simp add: names)
    next
      case nq: False
      show ?thesis
      proof (cases "rom_look r dir e")
        case (Some i)
        then have "create_walk_rom i ?q S_IFREG r = Done (r', Some n)" using W False sr E(4) nq by simp
        note IH = less.hyps [OF q(1) ok rom_look_less [OF ok d Some] q(2) this]
        then have "rom_look r' dir e = Some i" using d dir Some by (auto simp: rom_grows_def)
        with IH show ?thesis by (simp add: names)
      next
        case None
        obtain r1 i where add: "fs_add_file_rom dir e S_IFDIR r = Done (r1, Some i)" and w: "create_walk_rom i ?q S_IFREG r1 = Done (r', Some n)"
          using W False sr E(4) nq None by (auto split: outcome.splits option.splits prod.splits)
        note A = fs_add_file_rom_ok [OF ok dir d nm None add]
        note IH = less.hyps [OF q(1) A(1) A(4) q(2) w]
        have "rom_dir_ok r1 dir" using A(2) d dir by (simp add: rom_grows_def)
        then have "rom_look r' dir e = Some i" using IH A(5,6) by (auto simp: rom_grows_def)
        with IH A(2,3,4) show ?thesis by (auto simp: names intro: rom_grows_trans)
      qed
    qed
  qed
qed


section \<open>Importing a file\<close>

lemma file_blocks_Suc: "0 < n \<Longrightarrow> file_blocks n = Suc (file_blocks (n - 120))"
proof -
  assume "0 < n"
  show ?thesis
  proof (cases "n \<le> 120")
    case True
    with \<open>0 < n\<close> show ?thesis by (cases "n = 120") (simp_all add: file_blocks_def config)
  next
    case False
    then obtain m where "n = m + 120" by (metis le_add_diff_inverse2 nat_le_linear)
    then show ?thesis using div_add_self2 [of 120 m] by (simp add: file_blocks_def config)
  qed
qed

text \<open>The bytes of block \<open>j\<close> of a file, and the block as it stands in the array.\<close>

definition rom_blk :: "nat \<Rightarrow> nat \<Rightarrow> u8 list \<Rightarrow> nat \<Rightarrow> rom_block" where
  "rom_blk b k bs j = \<lparr>rb_next = (if Suc j < k then Blk (128 * (b + Suc j)) else Null), rb_bytes = take 120 (drop (120 * j) bs)\<rparr>"

lemma import_blocks_ok:
  assumes "import_blocks n k pv bs r = Done r'" "\<And>l. pv = Some l \<Longrightarrow> l < rs_blk_cnt r"
  shows "rs_blk_cnt r' = rs_blk_cnt r + k \<and> (0 < k \<longrightarrow> rs_blk_cnt r' \<le> 100) \<and> rs_inode_cnt r' = rs_inode_cnt r \<and> rom_dentries r' = rom_dentries r
    \<and> rom_inodes r' = (if pv = None \<and> 0 < k then (rom_inodes r)(n := (rom_inodes r n)\<lparr>ri_data := Blk (128 * rs_blk_cnt r)\<rparr>) else rom_inodes r)
    \<and> (\<forall>j < k. rom_blocks r' (rs_blk_cnt r + j) = Some (rom_blk (rs_blk_cnt r) k bs j))
    \<and> (\<forall>b. b < rs_blk_cnt r \<or> rs_blk_cnt r' \<le> b \<longrightarrow> rom_blocks r' b
          = (if pv = Some b \<and> 0 < k then map_option (rb_next_update (\<lambda>_. Blk (128 * rs_blk_cnt r))) (rom_blocks r b) else rom_blocks r b))"
  using assms
proof (induction k arbitrary: pv bs r)
  case (Suc k)
  let ?b = "rs_blk_cnt r"
  define ws where "ws = (if length bs > 120 then 120 else length bs)"
  define r2 where "r2 = (case pv of None \<Rightarrow> set_rom_inode n ((rom_inodes r n)\<lparr>ri_data := Blk (128 * ?b)\<rparr>) (r\<lparr>rs_blk_cnt := ?b + 1\<rparr>)
     | Some l \<Rightarrow> r\<lparr>rs_blk_cnt := ?b + 1, rom_blocks := (rom_blocks r)(l := map_option (rb_next_update (\<lambda>_. Blk (128 * ?b))) (rom_blocks r l))\<rparr>)"
  define r3 where "r3 = r2\<lparr>rom_blocks := (rom_blocks r2)(?b \<mapsto> \<lparr>rb_next = Null, rb_bytes = take ws bs\<rparr>)\<rparr>"
  have tk: "take ws bs = take 120 bs" "drop ws bs = drop 120 bs" by (auto simp: ws_def)
  have lt: "?b < 100" and imp: "import_blocks n k (Some ?b) (drop 120 bs) r3 = Done r'"
    using Suc.prems(1) unfolding tk(2) [symmetric] r3_def r2_def ws_def
    by (auto simp: config Let_def mult.commute split: if_splits option.splits cong: option.case_cong)
  have r3: "rs_blk_cnt r3 = ?b + 1" "rs_inode_cnt r3 = rs_inode_cnt r" "rom_dentries r3 = rom_dentries r"
    "rom_inodes r3 = (if pv = None then (rom_inodes r)(n := (rom_inodes r n)\<lparr>ri_data := Blk (128 * ?b)\<rparr>) else rom_inodes r)"
    "rom_blocks r3 ?b = Some \<lparr>rb_next = Null, rb_bytes = take 120 bs\<rparr>"
    "b \<noteq> ?b \<Longrightarrow> rom_blocks r3 b = (if pv = Some b then map_option (rb_next_update (\<lambda>_. Blk (128 * ?b))) (rom_blocks r b) else rom_blocks r b)" for b
    by (auto simp: r3_def r2_def set_rom_inode_def tk split: option.splits)
  have IH: "rs_blk_cnt r' = ?b + 1 + k" "0 < k \<Longrightarrow> rs_blk_cnt r' \<le> 100" "rs_inode_cnt r' = rs_inode_cnt r" "rom_dentries r' = rom_dentries r"
    "rom_inodes r' = rom_inodes r3" "\<And>j. j < k \<Longrightarrow> rom_blocks r' (?b + 1 + j) = Some (rom_blk (?b + 1) k (drop 120 bs) j)"
    "\<And>b. b < ?b + 1 \<or> rs_blk_cnt r' \<le> b \<Longrightarrow> rom_blocks r' b
       = (if b = ?b \<and> 0 < k then map_option (rb_next_update (\<lambda>_. Blk (128 * (?b + 1)))) (rom_blocks r3 b) else rom_blocks r3 b)"
    using Suc.IH [OF imp] unfolding r3(1-3) by auto
  have first: "rom_blocks r' ?b = Some (rom_blk ?b (Suc k) bs 0)" using IH(7) [of ?b] r3(5) by (simp add: rom_blk_def)
  have "rom_blocks r' (?b + j) = Some (rom_blk ?b (Suc k) bs j)" if "j < Suc k" for j
  proof (cases j)
    case (Suc i)
    then have "rom_blocks r' (?b + 1 + i) = Some (rom_blk (?b + 1) k (drop 120 bs) i)" using IH that by blast
    then show ?thesis using Suc by (simp add: rom_blk_def add.commute)
  qed (simp add: first)
  moreover have "rom_blocks r' b = (if pv = Some b \<and> 0 < Suc k then map_option (rb_next_update (\<lambda>_. Blk (128 * ?b))) (rom_blocks r b) else rom_blocks r b)"
    if "b < ?b \<or> rs_blk_cnt r' \<le> b" for b
  proof -
    have "b \<noteq> ?b" using that IH(1) by auto
    then show ?thesis using IH(7) [of b] r3(6) [of b] that by auto
  qed
  moreover have "rs_blk_cnt r' \<le> 100" using IH(1,2) lt by (cases k) simp_all
  ultimately show ?case using IH(1,3,4,5) r3(4) by simp
qed simp

text \<open>Only the inode of the file and blocks that were free differ after a file has been written.\<close>

lemma rom_written:
  assumes ok: "rom_ok r" and n: "n < rs_inode_cnt r" "file_holds r n []" and bs: "bs \<noteq> []"
    and imp: "import_blocks n (file_blocks (length bs)) None bs
               (set_rom_inode n ((rom_inodes r n)\<lparr>ri_size := length bs, ri_blocks := file_blocks (length bs)\<rparr>) r) = Done r'"
  shows "rom_ok r'" "file_holds r' n bs" "rs_inode_cnt r' = rs_inode_cnt r" "rs_blk_cnt r \<le> rs_blk_cnt r'"
    "\<And>m. m \<noteq> n \<Longrightarrow> rom_inodes r' m = rom_inodes r m" "rom_dentries r' = rom_dentries r" "\<And>b. b < rs_blk_cnt r \<Longrightarrow> rom_blocks r' b = rom_blocks r b"
    "\<And>m. rom_list r' m = rom_list r m" "\<And>m. rom_dir_ok r m \<Longrightarrow> rom_dir_ok r' m"
proof -
  let ?k = "file_blocks (length bs)" and ?b = "rs_blk_cnt r"
  have k: "0 < ?k" using file_blocks_Suc [of "length bs"] bs by simp
  note I = import_blocks_ok [OF imp, simplified set_rom_inode_def]
  have S: "rs_inode_cnt r' = rs_inode_cnt r" "rs_blk_cnt r' = ?b + ?k" "rs_blk_cnt r' \<le> 100" "rom_dentries r' = rom_dentries r"
    "\<And>m. m \<noteq> n \<Longrightarrow> rom_inodes r' m = rom_inodes r m"
    "rom_inodes r' n = (rom_inodes r n)\<lparr>ri_size := length bs, ri_blocks := ?k, ri_data := Blk (128 * ?b)\<rparr>"
    "\<And>j. j < ?k \<Longrightarrow> rom_blocks r' (?b + j) = Some (rom_blk ?b ?k bs j)" "\<And>b. b < ?b \<or> rs_blk_cnt r' \<le> b \<Longrightarrow> rom_blocks r' b = rom_blocks r b"
    using I k by (auto simp: set_rom_inode_def)
  have st: "start_blk r' n = ?b" by (simp add: start_blk_def S(6))
  show hold: "file_holds r' n bs" using n(2) bs S(2,6,7) by (simp add: file_holds_def Let_def st rom_blk_def)
  show ls: "rom_list r' m = rom_list r m" for m using n(2) S(5,6) by (cases "m = n") (simp_all add: rom_list_def)
  show dirs: "rom_dir_ok r' m" if "rom_dir_ok r m" for m
  proof -
    have "m \<noteq> n" using that n(2) dir_not_file by blast
    then show ?thesis using that by (simp add: rom_dir_ok_def Let_def ls S(4,5))
  qed
  show "rs_inode_cnt r' = rs_inode_cnt r" "rs_blk_cnt r \<le> rs_blk_cnt r'" "\<And>m. m \<noteq> n \<Longrightarrow> rom_inodes r' m = rom_inodes r m" "rom_dentries r' = rom_dentries r"
    "\<And>b. b < rs_blk_cnt r \<Longrightarrow> rom_blocks r' b = rom_blocks r b" using S by simp_all
  have files: "file_holds r' m cs" if "file_holds r m cs" "m \<noteq> n" for m cs
    using that S by (simp add: file_holds_def Let_def start_blk_def)
  have range: "file_range r' m = (if m = n then {?b ..< ?b + ?k} else file_range r m)" for m
    using S(5,6) st by (simp add: file_range_def start_blk_def)
  have below: "file_range r m \<subseteq> {..< ?b}" if m: "m < rs_inode_cnt r" "ri_mode (rom_inodes r m) = S_IFREG" for m
  proof -
    obtain cs where "file_holds r m cs" using rom_okD(6) [OF ok m(1)] rom_dir_okD(1) [of r m] m(2) by (auto simp: config)
    then show ?thesis by (auto simp: file_range_def file_holds_def Let_def)
  qed
  have inodes: "ri_ino (rom_inodes r' m) = m \<and> ri_parent (rom_inodes r' m) < 100 \<and> (rom_dir_ok r' m \<or> (\<exists>bs. file_holds r' m bs))" if "m < rs_inode_cnt r" for m
  proof -
    have "rom_dir_ok r' m \<or> (\<exists>bs. file_holds r' m bs)" using rom_okD(6) [OF ok that] dirs files hold by (cases "m = n") blast+
    with rom_okD(5,9) [OF ok that] S(5,6) show ?thesis by (cases "m = n") simp_all
  qed
  have modes: "ri_mode (rom_inodes r' m) = ri_mode (rom_inodes r m)" for m using S(5,6) by (cases "m = n") simp_all
  have disj: "file_range r' m \<inter> file_range r' l = {}"
    if "m < rs_inode_cnt r" "l < rs_inode_cnt r" "m \<noteq> l \<and> ri_mode (rom_inodes r' m) = S_IFREG \<and> ri_mode (rom_inodes r' l) = S_IFREG" for m l
  proof -
    have "file_range r m \<inter> file_range r l = {}" using ok that unfolding modes rom_ok_def by blast
    moreover have "file_range r m \<subseteq> {..< ?b}" "file_range r l \<subseteq> {..< ?b}" using below that unfolding modes by blast+
    ultimately show ?thesis using that(3) unfolding range by auto
  qed
  have slots: "slot_ok r' a e" if "rom_dentries r' a = Some e" for a e
    using rom_okD(7) [OF ok, of a e] that S by (auto simp: slot_ok_def ls)
  have blks: "b < rs_blk_cnt r'" if "rom_blocks r' b \<noteq> None" for b
  proof (rule ccontr)
    assume "\<not> b < rs_blk_cnt r'"
    then have "rom_blocks r b \<noteq> None" "\<not> b < ?b" using S(2) S(8) [of b] that by auto
    with rom_okD(8) [OF ok] show False by blast
  qed
  show "rom_ok r'" unfolding rom_ok_def S(1)
    using rom_okD(1,2) [OF ok] S(3) dirs [OF rom_okD(4) [OF ok]] inodes slots blks disj by (auto simp: config)
qed


section \<open>Importing a directory\<close>

definition plain_name :: "string \<Rightarrow> bool" where
  "plain_name n \<longleftrightarrow> n \<noteq> [] \<and> CHR ''/'' \<notin> set n \<and> CHR 0x00 \<notin> set n"

text \<open>What the host promises of its names, and the files below a directory with the names that lead to them.\<close>

fun host_ok :: "host_entry list \<Rightarrow> bool" where
  "host_ok [] = True"
| "host_ok (e # es) \<longleftrightarrow> plain_name (host_name e) \<and> (case e of Dir_entry n cs \<Rightarrow> host_ok cs | _ \<Rightarrow> True) \<and> host_ok es"

fun host_files :: "host_entry list \<Rightarrow> (string list \<times> u8 list) list" where
  "host_files [] = []"
| "host_files (e # es) =
     (if ignored_name (host_name e) then []
      else (case e of Reg_entry n bs \<Rightarrow> [([n], bs)] | Dir_entry n cs \<Rightarrow> map (\<lambda>(xs, bs). (n # xs, bs)) (host_files cs) | Other_entry n \<Rightarrow> []))
     @ host_files es"

definition dir_path :: "string list \<Rightarrow> string" where
  "dir_path ns = CHR ''/'' # concat (map (\<lambda>n. n @ ''/'') ns)"

lemma path_parts_slash: "CHR ''/'' \<notin> set x \<Longrightarrow> path_head (x @ CHR ''/'' # p) = x \<and> path_rest (x @ CHR ''/'' # p) = p"
  by (induction x) (auto simp: path_head_def path_rest_def)

lemma path_parts_plain: "CHR ''/'' \<notin> set x \<Longrightarrow> path_head x = x \<and> path_rest x = []"
  by (induction x) (auto simp: path_head_def path_rest_def)

lemma path_names_dir: "(\<forall>x \<in> set (ns @ [n]). plain_name x) \<Longrightarrow> path_names (concat (map (\<lambda>n. n @ ''/'') ns) @ n) = ns @ [n]"
proof (induction ns)
  case Nil
  then show ?case using path_parts_plain [of n] by (auto simp: plain_name_def path_names.simps [of n])
next
  case (Cons x ns)
  then have x: "x \<noteq> []" "CHR ''/'' \<notin> set x" by (auto simp: plain_name_def)
  let ?p = "concat (map (\<lambda>n. n @ ''/'') ns) @ n"
  have "path_names (x @ CHR ''/'' # ?p) = x # path_names ?p"
    using x path_parts_slash [OF x(2), of ?p] by (subst path_names.simps) simp
  with Cons show ?case by simp
qed

lemma romfs_import_file_ok:
  assumes ok: "rom_ok r" and ns: "\<forall>x \<in> set (ns @ [n]). plain_name x" and imp: "romfs_import_file bs (dir_path ns @ n) r = Done r'"
  shows "rom_ok r' \<and> rom_grows r r' \<and> (\<exists>i < rs_inode_cnt r'. rom_walk r' (ns @ [n]) 0 = Some i \<and> file_holds r' i bs)"
proof -
  let ?p = "concat (map (\<lambda>n. n @ ''/'') ns) @ n"
  have p: "?p \<noteq> []" "CHR 0x00 \<notin> set ?p" using ns by (auto simp: plain_name_def)
  have "fs_split_path_rom (Some (CHR ''/'' # ?p)) = Done ([], Some ?p)" using p(1) by (simp add: fs_split_path_rom_def config)
  then have "fs_create_file_rom (dir_path ns @ n) S_IFREG r = create_walk_rom 0 ?p S_IFREG r"
    by (simp add: fs_create_file_rom_def dir_path_def)
  then obtain r1 i where w: "create_walk_rom 0 ?p S_IFREG r = Done (r1, Some i)"
    and rest: "(if bs = [] then Done r1
           else if length bs > FS_BLK_SIZE * (FS_BLK_CNT - rs_blk_cnt r1) then Exit 1
           else import_blocks i (file_blocks (length bs)) None bs
               (set_rom_inode i ((rom_inodes r1 i)\<lparr>ri_size := length bs, ri_blocks := file_blocks (length bs)\<rparr>) r1)) = Done r'"
    using imp unfolding romfs_import_file_def Let_def by (auto simp: obind_Done split: option.splits)
  note C = create_walk_rom_ok [OF ok rom_okD(1) [OF ok] p(2) w, unfolded path_names_dir [OF ns]]
  show ?thesis
  proof (cases "bs = []")
    case True
    then show ?thesis using C rest by auto
  next
    case False
    then have imp: "import_blocks i (file_blocks (length bs)) None bs
        (set_rom_inode i ((rom_inodes r1 i)\<lparr>ri_size := length bs, ri_blocks := file_blocks (length bs)\<rparr>) r1) = Done r'"
      using rest by (auto split: if_splits)
    note W = rom_written [OF _ _ _ False imp]
    have ok1: "rom_ok r1" "i < rs_inode_cnt r1" "file_holds r1 i []" using C by auto
    note W = rom_written [OF ok1 False imp]
    have lk: "rom_look r' m x = rom_look r1 m x" for m x by (simp add: rom_look_def W(6,8))
    have "rom_walk r' xs m = rom_walk r1 xs m" for xs m
    proof (induction xs arbitrary: m)
      case (Cons x xs)
      then show ?case by (cases "rom_look r1 m x") (simp_all add: lk)
    qed simp
    moreover have "rom_grows r r'" unfolding rom_grows_def
    proof (intro conjI allI impI)
      fix m assume m: "m < rs_inode_cnt r"
      show "rom_dir_ok r' m" if "rom_dir_ok r m" using that m C W(9) by (simp add: rom_grows_def)
      show "rom_look r' m x = Some j" if "rom_dir_ok r m" "rom_look r m x = Some j" for x j
        using that m C unfolding lk by (simp add: rom_grows_def)
      show "rom_inodes r' m = rom_inodes r m" if "ri_mode (rom_inodes r m) \<noteq> S_IFDIR"
        using that m C W(5) [of m] by (auto simp: rom_grows_def)
    qed (use C W(3,4,7) in \<open>auto simp: rom_grows_def\<close>)
    ultimately show ?thesis using C W(1,2,3) by auto
  qed
qed

lemma romfs_import_dir_ok:
  "rom_ok r \<Longrightarrow> host_ok es \<Longrightarrow> \<forall>x \<in> set ns. plain_name x \<Longrightarrow> romfs_import_dir es (dir_path ns) r = Done r' \<Longrightarrow>
   rom_ok r' \<and> rom_grows r r' \<and> (\<forall>(xs, bs) \<in> set (host_files es). \<exists>i < rs_inode_cnt r'. rom_walk r' (ns @ xs) 0 = Some i \<and> file_holds r' i bs)"
proof (induction es arbitrary: ns r r' rule: host_files.induct)
  case (2 e es)
  define step where "step = (if ignored_name (host_name e) then Done r else (case e of
      Dir_entry n cs \<Rightarrow> (if length (dir_path ns) + length n + 1 \<ge> PATH_BUF_SIZE then Undefined else romfs_import_dir cs (dir_path ns @ n @ ''/'') r)
    | Reg_entry n bs \<Rightarrow> (if length (dir_path ns) + length n \<ge> PATH_BUF_SIZE then Undefined else romfs_import_file bs (dir_path ns @ n) r)
    | Other_entry n \<Rightarrow> Done r))"
  define fs where "fs = (if ignored_name (host_name e) then []
      else (case e of Reg_entry n bs \<Rightarrow> [([n], bs)] | Dir_entry n cs \<Rightarrow> map (\<lambda>(xs, bs). (n # xs, bs)) (host_files cs) | Other_entry n \<Rightarrow> []))"
  have "obind step (romfs_import_dir es (dir_path ns)) = Done r'"
    using "2.prems"(4) unfolding step_def by (cases "ignored_name (host_name e)") simp_all
  then obtain r1 where r1: "step = Done r1" "romfs_import_dir es (dir_path ns) r1 = Done r'" unfolding obind_Done by blast
  have first: "rom_ok r1 \<and> rom_grows r r1 \<and> (\<forall>(xs, bs) \<in> set fs. \<exists>i < rs_inode_cnt r1. rom_walk r1 (ns @ xs) 0 = Some i \<and> file_holds r1 i bs)"
  proof (cases "ignored_name (host_name e)")
    case True
    then show ?thesis using r1(1) "2.prems"(1) by (simp add: step_def fs_def)
  next
    case False
    show ?thesis
    proof (cases e)
      case (Reg_entry n bs)
      then show ?thesis using romfs_import_file_ok [OF "2.prems"(1), of ns n bs r1] r1(1) "2.prems"(2,3) False
        by (auto simp: step_def fs_def split: if_splits)
    next
      case (Dir_entry n cs)
      have p: "dir_path ns @ n @ ''/'' = dir_path (ns @ [n])" by (simp add: dir_path_def)
      have "romfs_import_dir cs (dir_path (ns @ [n])) r = Done r1" using r1(1) False Dir_entry unfolding p [symmetric]
        by (auto simp: step_def split: if_splits)
      with "2.IH"(1) [OF False Dir_entry "2.prems"(1), of "ns @ [n]" r1] "2.prems"(2,3) Dir_entry
      have "rom_ok r1 \<and> rom_grows r r1 \<and> (\<forall>(xs, bs) \<in> set (host_files cs). \<exists>i < rs_inode_cnt r1. rom_walk r1 ((ns @ [n]) @ xs) 0 = Some i \<and> file_holds r1 i bs)"
        by simp
      then show ?thesis using False Dir_entry by (auto simp: fs_def)
    next
      case (Other_entry n)
      then show ?thesis using r1(1) "2.prems"(1) False by (simp add: step_def fs_def)
    qed
  qed
  have rest: "rom_ok r' \<and> rom_grows r1 r' \<and> (\<forall>(xs, bs) \<in> set (host_files es). \<exists>i < rs_inode_cnt r'. rom_walk r' (ns @ xs) 0 = Some i \<and> file_holds r' i bs)"
    by (rule "2.IH"(2) [OF _ _ "2.prems"(3) r1(2)]) (use first "2.prems"(2) in simp_all)
  have keep: "\<exists>i < rs_inode_cnt r'. rom_walk r' (ns @ xs) 0 = Some i \<and> file_holds r' i bs" if mem: "(xs, bs) \<in> set fs" for xs bs
  proof -
    obtain i where i: "i < rs_inode_cnt r1" "rom_walk r1 (ns @ xs) 0 = Some i" "file_holds r1 i bs"
      using bspec [OF conjunct2 [OF conjunct2 [OF first]] mem] by auto
    have "rs_inode_cnt r1 \<le> rs_inode_cnt r'" using rest by (simp add: rom_grows_def)
    moreover have ok: "rom_ok r1" "rom_grows r1 r'" using first rest by simp_all
    ultimately show ?thesis
      using i rom_walk_grows [OF ok rom_okD(1) [OF ok(1)] i(2)] file_holds_grows [OF ok i(3,1)] by (intro exI [of _ i]) simp
  qed
  have "host_files (e # es) = fs @ host_files es" by (simp add: fs_def)
  with first rest keep show ?case using rom_grows_trans [of r r1 r'] by auto
qed simp

lemma romfs_init_ok: "rom_ok romfs_init"
  by (auto simp: rom_ok_def romfs_init_def rom_dir_ok_def rom_list_def rom_zero_inode_def Let_def config)

lemma output_dir: "ROMFS_OUTPUT_DIR = dir_path [''rom_data'']"
  by (simp add: ROMFS_OUTPUT_DIR_def dir_path_def)

lemma mkromfs_ok:
  assumes "host_ok host" "mkromfs host = Done r"
  shows "rom_ok r" "\<And>xs bs. (xs, bs) \<in> set (host_files host) \<Longrightarrow> \<exists>i < rs_inode_cnt r. rom_walk r (''rom_data'' # xs) 0 = Some i \<and> file_holds r i bs"
  using romfs_import_dir_ok [OF romfs_init_ok assms(1), of "[''rom_data'']" r] assms(2) by (fastforce simp: mkromfs_def output_dir plain_name_def)+


section \<open>The invariant of the builder\<close>

text \<open>
  C40. The tables of \<^verbatim>\<open>mkromfs\<close> are well-formed from its start, and every operation that succeeds keeps them so: entries lie two in a block
  and belong to the list of one directory, sizes and block counts match the entries and the bytes, the blocks of different files are
  disjoint and no block holds both entries and bytes. This holds for adding a file or a directory with a new name to a directory,
  for importing a file and for importing a directory with everything below it; files that were complete before stay as they are, and what
  a sequence of names led to it still leads to.
\<close>

theorem romfs_operations_keep_wf:
  assumes ok: "rom_ok r"
  shows "rom_ok romfs_init
    \<and> (\<forall>dir name t r' n. dir < rs_inode_cnt r \<and> rom_dir_ok r dir \<and> rom_name_ok name \<and> rom_look r dir name = None
          \<and> fs_add_file_rom dir name t r = Done (r', Some n) \<longrightarrow> rom_ok r' \<and> rom_grows r r' \<and> rom_look r' dir name = Some n)
    \<and> (\<forall>ns n bs r'. (\<forall>x \<in> set (ns @ [n]). plain_name x) \<and> romfs_import_file bs (dir_path ns @ n) r = Done r' \<longrightarrow> rom_ok r' \<and> rom_grows r r')
    \<and> (\<forall>ns es r'. (\<forall>x \<in> set ns. plain_name x) \<and> host_ok es \<and> romfs_import_dir es (dir_path ns) r = Done r' \<longrightarrow> rom_ok r' \<and> rom_grows r r')
    \<and> (\<forall>r' n bs xs i. rom_grows r r' \<and> n < rs_inode_cnt r \<longrightarrow>
          (file_holds r n bs \<longrightarrow> file_holds r' n bs) \<and> (rom_walk r xs n = Some i \<longrightarrow> rom_walk r' xs n = Some i))"
proof (intro conjI allI impI)
  show "rom_ok romfs_init" by (rule romfs_init_ok)
  show "rom_ok r'" "rom_grows r r'" "rom_look r' dir name = Some n"
    if "dir < rs_inode_cnt r \<and> rom_dir_ok r dir \<and> rom_name_ok name \<and> rom_look r dir name = None \<and> fs_add_file_rom dir name t r = Done (r', Some n)"
    for dir name t r' n
    using fs_add_file_rom_ok [OF ok, of dir name t r' n] that by auto
  show "rom_ok r'" "rom_grows r r'" if "(\<forall>x \<in> set (ns @ [n]). plain_name x) \<and> romfs_import_file bs (dir_path ns @ n) r = Done r'" for ns n bs r'
    using romfs_import_file_ok [OF ok, of ns n bs r'] that by auto
  show "rom_ok r'" "rom_grows r r'" if "(\<forall>x \<in> set ns. plain_name x) \<and> host_ok es \<and> romfs_import_dir es (dir_path ns) r = Done r'" for ns es r'
    using romfs_import_dir_ok [OF ok, of es ns r'] that by auto
  show "file_holds r' n bs" if "rom_grows r r' \<and> n < rs_inode_cnt r" "file_holds r n bs" for r' n bs
    using file_holds_grows [OF ok] that by blast
  show "rom_walk r' xs n = Some i" if "rom_grows r r' \<and> n < rs_inode_cnt r" "rom_walk r xs n = Some i" for r' n xs i
    using rom_walk_grows [OF ok] that by blast
qed

theorem romfs_operations_keep_wf_witness:
  "\<exists>r'. fs_add_file_rom 0 ''a'' S_IFDIR romfs_init = Done (r', Some 1) \<and> rom_ok r' \<and> rom_look r' 0 ''a'' = Some 1"
proof -
  have "(case fs_add_file_rom 0 ''a'' S_IFDIR romfs_init of Done (r', n) \<Rightarrow> n = Some 1 | _ \<Rightarrow> False)" by code_simp
  then obtain r' where r': "fs_add_file_rom 0 ''a'' S_IFDIR romfs_init = Done (r', Some 1)" by (auto split: outcome.splits)
  have "0 < rs_inode_cnt romfs_init" "rom_look romfs_init 0 ''a'' = None" by (simp_all add: romfs_init_def rom_look_def rom_list_def)
  moreover have "rom_dir_ok romfs_init 0" "rom_name_ok ''a''" using rom_okD(4) [OF romfs_init_ok] by (simp_all add: rom_name_ok_def config)
  ultimately show ?thesis using romfs_operations_keep_wf [OF romfs_init_ok] r' by blast
qed

end
