(* ===== verification/Romfs.thy ===== *)
theory Romfs
  imports Mkromfs Regfile
begin

text \<open>
  The image of the ROM file system: how \<^verbatim>\<open>mkromfs\<close> converts pointers to addresses and writes the image, and how the kernel
  mounts and reads it through the ROM device. The conversion replaces every pointer in place; a pointer that is followed
  after it has been replaced has no model (\<open>Undefined\<close>). The address of the array of blocks on the host is the argument
  \<open>base\<close>: the address of an empty directory, a converted null pointer, depends on it. The locale \<open>device_directory\<close> states
  what the loop of \<^verbatim>\<open>fs_mount_directory\<close> relies on: entries that can be read and that are linked up to the list head.
\<close>

section \<open>Conversion of pointers\<close>

type_synonym u64 = "64 word"

record rom_conv =
  c_data :: "nat \<Rightarrow> u64"
  c_head :: "nat \<Rightarrow> (u64 \<times> u64) option"
  c_link :: "nat \<Rightarrow> (u64 \<times> u64) option"
  c_next :: "nat \<Rightarrow> u64 option"

definition ROM_BLK_ADDR :: nat where "ROM_BLK_ADDR = ROM_SB_SIZE + ROM_INODE_SIZE * INODE_MAX"

definition host_addr :: "u64 \<Rightarrow> rptr \<Rightarrow> u64" where
  "host_addr base p = (case p of Null \<Rightarrow> 0 | Blk o1 \<Rightarrow> base + word_of_nat o1)"

definition conv_addr :: "u64 \<Rightarrow> u64 \<Rightarrow> u64" where
  "conv_addr base a = a - base + word_of_nat ROM_BLK_ADDR"

definition ROM_DENTRY_LIST :: nat where [config]: "ROM_DENTRY_LIST = 40"
definition ROM_INODE_LIST :: nat where [config]: "ROM_INODE_LIST = 32"

definition head_addr :: "nat \<Rightarrow> u64" where
  "head_addr n = word_of_nat (ROM_SB_SIZE + ROM_INODE_SIZE * n + ROM_INODE_LIST)"

definition link_addr :: "u64 \<Rightarrow> nat \<Rightarrow> u64" where
  "link_addr base a = conv_addr base (base + word_of_nat (a + ROM_DENTRY_LIST))"

text \<open>The list head and the entries of a directory; in a ring, the links are those to the members before and after.\<close>

definition ring_links :: "u64 \<Rightarrow> u64 list \<Rightarrow> (u64 \<times> u64) list" where
  "ring_links h as = zip (as @ [h]) ((if as = [] then h else last as) # h # as)"

definition romfs_address_conversion_dir :: "u64 \<Rightarrow> romfs \<Rightarrow> nat \<Rightarrow> rom_conv \<Rightarrow> rom_conv outcome" where
  "romfs_address_conversion_dir base r n c =
     (case ri_dentry (rom_inodes r n) of
        None \<Rightarrow> Undefined
      | Some l \<Rightarrow>
          if \<exists>a \<in> set l. c_link c a \<noteq> None then Undefined
          else
            let links = ring_links (head_addr n) (map (link_addr base) l) in
            Done (c\<lparr>c_data := (c_data c)(n := conv_addr base (c_data c n)), c_head := (c_head c)(n \<mapsto> hd links),
                    c_link := c_link c ++ map_of (zip l (tl links))\<rparr>))"

primrec conv_blocks :: "u64 \<Rightarrow> romfs \<Rightarrow> nat \<Rightarrow> rptr \<Rightarrow> (nat \<Rightarrow> u64 option) \<Rightarrow> (nat \<Rightarrow> u64 option) outcome" where
  "conv_blocks base r 0 p nx = Done nx"
| "conv_blocks base r (Suc k) p nx =
     (case p of
        Null \<Rightarrow> Undefined
      | Blk o1 \<Rightarrow>
          (case rom_blocks r (o1 div FS_BLK_SIZE) of
             None \<Rightarrow> Undefined
           | Some blk \<Rightarrow>
               if nx (o1 div FS_BLK_SIZE) \<noteq> None then Undefined
               else if rb_next blk = Null then Done nx
               else conv_blocks base r k (rb_next blk) (nx(o1 div FS_BLK_SIZE \<mapsto> conv_addr base (host_addr base (rb_next blk))))))"

definition romfs_address_conversion_file :: "u64 \<Rightarrow> romfs \<Rightarrow> nat \<Rightarrow> rom_conv \<Rightarrow> rom_conv outcome" where
  "romfs_address_conversion_file base r n c =
     (let i = rom_inodes r n in
      if ri_size i = 0 then Done c
      else obind (conv_blocks base r (file_blocks (ri_size i)) (ri_data i) (c_next c)) (\<lambda>nx.
        Done (c\<lparr>c_next := nx, c_data := (c_data c)(n := conv_addr base (c_data c n))\<rparr>)))"

primrec conv_inodes :: "u64 \<Rightarrow> romfs \<Rightarrow> nat \<Rightarrow> rom_conv outcome" where
  "conv_inodes base r 0 =
     Done \<lparr>c_data = (\<lambda>n. host_addr base (ri_data (rom_inodes r n))), c_head = (\<lambda>_. None), c_link = (\<lambda>_. None), c_next = (\<lambda>_. None)\<rparr>"
| "conv_inodes base r (Suc n) = obind (conv_inodes base r n) (\<lambda>c.
     if ri_mode (rom_inodes r n) = S_IFDIR then romfs_address_conversion_dir base r n c
     else if ri_mode (rom_inodes r n) = S_IFREG then romfs_address_conversion_file base r n c
     else Exit (-1))"

section \<open>The image\<close>

definition le32 :: "nat \<Rightarrow> u8 list" where
  "le32 n = word_bytes (word_of_nat n)"

definition le64 :: "u64 \<Rightarrow> u8 list" where
  "le64 w = word_bytes (ucast w) @ word_bytes (ucast (drop_bit 32 w))"

definition le64_pair :: "(u64 \<times> u64) option \<Rightarrow> u8 list" where
  "le64_pair p = (case p of None \<Rightarrow> replicate 16 0 | Some (a, b) \<Rightarrow> le64 a @ le64 b)"

definition super_bytes :: "romfs \<Rightarrow> u8 list" where
  "super_bytes r = [1, 0, 0, 0] @ le32 (rs_blk_cnt r) @ le32 (rs_inode_cnt r) @ [0, 0, 0, 0]
     @ le64 0 @ le64 (word_of_nat ROM_SB_SIZE) @ le64 (word_of_nat ROM_BLK_ADDR)"

definition inode_bytes :: "romfs \<Rightarrow> rom_conv \<Rightarrow> nat \<Rightarrow> u8 list" where
  "inode_bytes r c n = (let i = rom_inodes r n in
     [ri_mode i, 0, 0, 0] @ le32 (ri_ino i) @ le32 (ri_parent i) @ le32 0 @ le32 (ri_size i) @ le32 (ri_blocks i)
     @ le64 (c_data c n) @ le64_pair (c_head c n))"

definition rom_name_bytes :: "string \<Rightarrow> u8 list" where
  "rom_name_bytes name = take NAME_MAX (map (\<lambda>c. word_of_nat (of_char c)) name @ replicate NAME_MAX 0)"

definition dentry_bytes :: "romfs \<Rightarrow> rom_conv \<Rightarrow> nat \<Rightarrow> u8 list" where
  "dentry_bytes r c a =
     (case rom_dentries r a of
        None \<Rightarrow> replicate ROM_DENTRY_SIZE 0
      | Some d \<Rightarrow> rom_name_bytes (rd_name d) @ [0, 0] @ le32 (rd_inode d) @ le32 (rd_parent d) @ le64_pair (c_link c a))"

definition rom_block_bytes :: "u64 \<Rightarrow> romfs \<Rightarrow> rom_conv \<Rightarrow> nat \<Rightarrow> u8 list" where
  "rom_block_bytes base r c b =
     (case rom_blocks r b of
        None \<Rightarrow> dentry_bytes r c (128 * b) @ dentry_bytes r c (128 * b + 56) @ replicate 16 0
      | Some blk \<Rightarrow> le64 (case c_next c b of None \<Rightarrow> host_addr base (rb_next blk) | Some a \<Rightarrow> a)
          @ take 120 (rb_bytes blk @ replicate 120 0))"

definition romfs_export :: "u64 \<Rightarrow> romfs \<Rightarrow> u8 list outcome" where
  "romfs_export base r = obind (conv_inodes base r (rs_inode_cnt r)) (\<lambda>c.
     Done (super_bytes r @ concat (map (inode_bytes r c) [0..<INODE_MAX]) @ concat (map (rom_block_bytes base r c) [0..<FS_BLK_CNT])))"


section \<open>The conversion of a whole image\<close>

lemma conv_addr_blk [simp]: "conv_addr base (base + word_of_nat a) = word_of_nat (4840 + a)"
  by (simp add: conv_addr_def ROM_BLK_ADDR_def config)

lemma file_holdsD:
  assumes "file_holds r n bs"
  shows "ri_mode (rom_inodes r n) = S_IFREG" "ri_size (rom_inodes r n) = length bs" "ri_blocks (rom_inodes r n) = file_blocks (length bs)"
    "ri_data (rom_inodes r n) = (if bs = [] then Null else Blk (128 * start_blk r n))"
    "start_blk r n + file_blocks (length bs) \<le> rs_blk_cnt r"
    "\<And>j. j < file_blocks (length bs) \<Longrightarrow> rom_blocks r (start_blk r n + j) = Some (rom_blk (start_blk r n) (file_blocks (length bs)) bs j)"
    "file_range r n = {start_blk r n ..< start_blk r n + file_blocks (length bs)}"
  using assms by (auto simp: file_holds_def Let_def rom_blk_def file_range_def)

lemma conv_blocks_ok:
  assumes "file_holds r n bs" "k = file_blocks (length bs)" "j + m = k" "0 < m" "\<forall>x \<in> file_range r n. start_blk r n + j \<le> x \<longrightarrow> nx x = None"
  shows "conv_blocks base r m (Blk (128 * (start_blk r n + j))) nx
    = Done (\<lambda>x. if start_blk r n + j \<le> x \<and> x + 1 < start_blk r n + k then Some (word_of_nat (4840 + 128 * (x + 1))) else nx x)"
  using assms(3-5)
proof (induction m arbitrary: j nx)
  case (Suc m)
  let ?b = "start_blk r n"
  note H = file_holdsD [OF assms(1), folded assms(2)]
  have blk: "rom_blocks r (?b + j) = Some (rom_blk ?b k bs j)" and nx: "nx (?b + j) = None"
    using H(6) [of j] H(7) Suc.prems(1,3) by auto
  have st: "conv_blocks base r (Suc m) (Blk (128 * (?b + j))) nx
      = (if Suc j < k then conv_blocks base r m (Blk (128 * (?b + Suc j))) (nx(?b + j \<mapsto> word_of_nat (4840 + 128 * (?b + Suc j)))) else Done nx)"
    using blk nx conv_addr_blk [of base "128 * (?b + Suc j)"]
    by (simp add: FS_BLK_SIZE_def rom_blk_def host_addr_def del: conv_addr_blk of_nat_mult of_nat_add of_nat_Suc mult_Suc_right add_Suc_right)
  show ?case
  proof (cases "Suc j < k")
    case True
    have "conv_blocks base r m (Blk (128 * (?b + Suc j))) (nx(?b + j \<mapsto> word_of_nat (4840 + 128 * (?b + Suc j))))
      = Done (\<lambda>x. if ?b + Suc j \<le> x \<and> x + 1 < ?b + k then Some (word_of_nat (4840 + 128 * (x + 1)))
                  else (nx(?b + j \<mapsto> word_of_nat (4840 + 128 * (?b + Suc j)))) x)"
      using Suc.prems True by (intro Suc.IH) auto
    then show ?thesis unfolding st using True by (auto simp: fun_eq_iff Suc_le_eq le_less)
  next
    case False
    then show ?thesis unfolding st using Suc.prems by (auto simp: fun_eq_iff)
  qed
qed simp

text \<open>The conversion of the first \<open>k\<close> inodes.\<close>

definition conv_inv :: "u64 \<Rightarrow> romfs \<Rightarrow> nat \<Rightarrow> rom_conv \<Rightarrow> bool" where
  "conv_inv base r k c \<longleftrightarrow>
     (\<forall>n. c_data c n = (let p = host_addr base (ri_data (rom_inodes r n)) in
            if n < k \<and> (rom_dir_ok r n \<or> ri_size (rom_inodes r n) \<noteq> 0) then conv_addr base p else p))
     \<and> (\<forall>n < k. rom_dir_ok r n \<longrightarrow> (\<forall>j < length (rom_list r n).
          c_link c (rom_list r n ! j) = Some (tl (ring_links (head_addr n) (map (link_addr base) (rom_list r n))) ! j)))
     \<and> (\<forall>a. c_link c a \<noteq> None \<longrightarrow> (\<exists>n < k. rom_dir_ok r n \<and> a \<in> set (rom_list r n)))
     \<and> (\<forall>n < k. \<forall>bs. file_holds r n bs \<longrightarrow> (\<forall>j < file_blocks (length bs). c_next c (start_blk r n + j)
          = (if Suc j < file_blocks (length bs) then Some (word_of_nat (4840 + 128 * (start_blk r n + Suc j))) else None)))
     \<and> (\<forall>b. c_next c b \<noteq> None \<longrightarrow> (\<exists>n < k. ri_mode (rom_inodes r n) = S_IFREG \<and> b \<in> file_range r n))"

lemma rom_lists_disjoint: "rom_dir_ok r n \<Longrightarrow> rom_dir_ok r m \<Longrightarrow> a \<in> set (rom_list r n) \<Longrightarrow> a \<in> set (rom_list r m) \<Longrightarrow> n = m"
  using rom_dir_okD(7) [of r n a] rom_dir_okD(7) [of r m a] by auto

lemma conv_dir_step:
  assumes ok: "rom_ok r" and k: "k < rs_inode_cnt r" "rom_dir_ok r k" and c: "conv_inv base r k c"
  shows "\<exists>c'. romfs_address_conversion_dir base r k c = Done c' \<and> conv_inv base r (Suc k) c'"
proof -
  let ?l = "rom_list r k" and ?links = "ring_links (head_addr k) (map (link_addr base) (rom_list r k))"
  have fresh: "c_link c a = None" if "a \<in> set ?l" for a
    using c that rom_lists_disjoint [OF k(2)] unfolding conv_inv_def by (metis less_irrefl)
  define c' where "c' = c\<lparr>c_data := (c_data c)(k := conv_addr base (c_data c k)), c_head := (c_head c)(k \<mapsto> hd ?links),
    c_link := c_link c ++ map_of (zip ?l (tl ?links))\<rparr>"
  have len: "length (tl ?links) = length ?l" by (simp add: ring_links_def)
  have new: "c_link c' (?l ! j) = Some (tl ?links ! j)" if "j < length ?l" for j
    using that len rom_dir_okD(3) [OF k(2)] by (simp add: c'_def map_add_Some_iff map_of_zip_nth)
  have old: "c_link c' a = c_link c a" if "a \<notin> set ?l" for a
    using that len by (simp add: c'_def map_add_def map_of_zip_is_None [THEN iffD2])
  have dn: "romfs_address_conversion_dir base r k c = Done c'"
    using fresh rom_dir_okD(2) [OF k(2)] by (simp add: romfs_address_conversion_dir_def Let_def c'_def)
  have "conv_inv base r (Suc k) c'"
    unfolding conv_inv_def
  proof (intro conjI allI impI)
    show "c_data c' n = (let p = host_addr base (ri_data (rom_inodes r n)) in
        if n < Suc k \<and> (rom_dir_ok r n \<or> ri_size (rom_inodes r n) \<noteq> 0) then conv_addr base p else p)" for n
      using c k(2) by (auto simp: c'_def conv_inv_def Let_def less_Suc_eq)
    show "c_link c' (rom_list r n ! j) = Some (tl (ring_links (head_addr n) (map (link_addr base) (rom_list r n))) ! j)"
      if "n < Suc k" "rom_dir_ok r n" "j < length (rom_list r n)" for n j
    proof (cases "n = k")
      case False
      then have "rom_list r n ! j \<notin> set ?l" using rom_lists_disjoint [OF that(2) k(2) nth_mem [OF that(3)]] by auto
      then show ?thesis using old c that False by (simp add: conv_inv_def)
    qed (use new that in simp)
    show "\<exists>n < Suc k. rom_dir_ok r n \<and> a \<in> set (rom_list r n)" if "c_link c' a \<noteq> None" for a
    proof (cases "a \<in> set ?l")
      case False
      then show ?thesis using old c that unfolding conv_inv_def by (metis less_SucI)
    qed (use k(2) in blast)
    show "c_next c' (start_blk r n + j) = (if Suc j < file_blocks (length bs) then Some (word_of_nat (4840 + 128 * (start_blk r n + Suc j))) else None)"
      if "n < Suc k" "file_holds r n bs" "j < file_blocks (length bs)" for n bs j
    proof -
      have "n \<noteq> k" using that(2) k(2) dir_not_file by blast
      then show ?thesis using c that by (simp add: conv_inv_def c'_def)
    qed
    show "\<exists>n < Suc k. ri_mode (rom_inodes r n) = S_IFREG \<and> b \<in> file_range r n" if "c_next c' b \<noteq> None" for b
    proof -
      have "c_next c b \<noteq> None" using that by (simp add: c'_def)
      then show ?thesis using c unfolding conv_inv_def by (meson less_SucI)
    qed
  qed
  with dn show ?thesis by blast
qed

lemma rom_ranges_disjoint:
  "rom_ok r \<Longrightarrow> n < rs_inode_cnt r \<Longrightarrow> m < rs_inode_cnt r \<Longrightarrow> ri_mode (rom_inodes r n) = S_IFREG \<Longrightarrow> ri_mode (rom_inodes r m) = S_IFREG \<Longrightarrow>
   b \<in> file_range r n \<Longrightarrow> b \<in> file_range r m \<Longrightarrow> n = m"
  unfolding rom_ok_def by blast

lemma file_blocks_pos: "0 < file_blocks (length bs) \<longleftrightarrow> bs \<noteq> []"
  by (cases bs) (simp_all add: file_blocks_Suc, simp add: file_blocks_def config)

lemma conv_file_step:
  assumes ok: "rom_ok r" and k: "k < rs_inode_cnt r" "file_holds r k bs" and c: "conv_inv base r k c"
  shows "\<exists>c'. romfs_address_conversion_file base r k c = Done c' \<and> conv_inv base r (Suc k) c'"
proof -
  note H = file_holdsD [OF k(2)]
  let ?b = "start_blk r k" and ?k = "file_blocks (length bs)"
  have fresh: "c_next c x = None" if x: "x \<in> file_range r k" for x
  proof (rule ccontr)
    assume "c_next c x \<noteq> None"
    then obtain n where "n < k" "ri_mode (rom_inodes r n) = S_IFREG" "x \<in> file_range r n" using c by (auto simp: conv_inv_def)
    with rom_ranges_disjoint [OF ok, of n k x] k(1) H(1) x show False by simp
  qed
  define nx where "nx = (\<lambda>x. if ?b \<le> x \<and> x + 1 < ?b + ?k then Some (word_of_nat (4840 + 128 * (x + 1))) else c_next c x)"
  define c' where "c' = c\<lparr>c_next := nx, c_data := (c_data c)(k := if bs = [] then c_data c k else conv_addr base (c_data c k))\<rparr>"
  have nx0: "nx = c_next c" if "bs = []" using that by (auto simp: nx_def fun_eq_iff file_blocks_def)
  have dn: "romfs_address_conversion_file base r k c = Done c'"
  proof (cases "bs = []")
    case True
    then show ?thesis using H(2) nx0 by (simp add: romfs_address_conversion_file_def c'_def)
  next
    case False
    have "conv_blocks base r ?k (Blk (128 * (?b + 0))) (c_next c)
        = Done (\<lambda>x. if ?b + 0 \<le> x \<and> x + 1 < ?b + ?k then Some (word_of_nat (4840 + 128 * (x + 1))) else c_next c x)"
      using fresh file_blocks_pos [of bs] False by (intro conv_blocks_ok [OF k(2) refl]) auto
    then show ?thesis using H(2,4) False by (simp add: romfs_address_conversion_file_def Let_def c'_def nx_def)
  qed
  have keep: "nx x = c_next c x" if "x \<notin> file_range r k" for x using that H(7) by (auto simp: nx_def)
  have "conv_inv base r (Suc k) c'"
    unfolding conv_inv_def
  proof (intro conjI allI impI)
    have "\<not> rom_dir_ok r k" using k(2) dir_not_file by blast
    then show "c_data c' n = (let p = host_addr base (ri_data (rom_inodes r n)) in
        if n < Suc k \<and> (rom_dir_ok r n \<or> ri_size (rom_inodes r n) \<noteq> 0) then conv_addr base p else p)" for n
      using c H(2) by (auto simp: c'_def conv_inv_def Let_def less_Suc_eq)
    show "c_link c' (rom_list r n ! j) = Some (tl (ring_links (head_addr n) (map (link_addr base) (rom_list r n))) ! j)"
      if "n < Suc k" "rom_dir_ok r n" "j < length (rom_list r n)" for n j
      using that c \<open>\<not> rom_dir_ok r k\<close> by (auto simp: conv_inv_def c'_def less_Suc_eq)
    show "\<exists>n < Suc k. rom_dir_ok r n \<and> a \<in> set (rom_list r n)" if "c_link c' a \<noteq> None" for a
    proof -
      have "c_link c a \<noteq> None" using that by (simp add: c'_def)
      then show ?thesis using c unfolding conv_inv_def by (meson less_SucI)
    qed
    show "c_next c' (start_blk r n + j) = (if Suc j < file_blocks (length cs) then Some (word_of_nat (4840 + 128 * (start_blk r n + Suc j))) else None)"
      if n: "n < Suc k" "file_holds r n cs" "j < file_blocks (length cs)" for n cs j
    proof (cases "n = k")
      case True
      then have "length cs = length bs" using file_holdsD(2) [OF n(2)] H(2) by simp
      then show ?thesis using True n(3) fresh [of "?b + j"] H(7) by (auto simp: c'_def nx_def)
    next
      case False
      then have "start_blk r n + j \<notin> file_range r k"
        using rom_ranges_disjoint [OF ok _ k(1), of n "start_blk r n + j"] n k(1) H(1) file_holdsD(1,7) [OF n(2)] by auto
      then show ?thesis using c n False by (simp add: c'_def keep conv_inv_def)
    qed
    show "\<exists>n < Suc k. ri_mode (rom_inodes r n) = S_IFREG \<and> b \<in> file_range r n" if "c_next c' b \<noteq> None" for b
    proof (cases "b \<in> file_range r k")
      case False
      then have "c_next c b \<noteq> None" using that by (simp add: c'_def keep)
      then show ?thesis using c unfolding conv_inv_def by (meson less_SucI)
    qed (use H(1) in blast)
  qed
  with dn show ?thesis by blast
qed

lemma conv_inodes_ok: "rom_ok r \<Longrightarrow> k \<le> rs_inode_cnt r \<Longrightarrow> \<exists>c. conv_inodes base r k = Done c \<and> conv_inv base r k c"
proof (induction k)
  case 0
  show ?case by (simp add: conv_inv_def)
next
  case (Suc k)
  then obtain c where c: "conv_inodes base r k = Done c" "conv_inv base r k c" by auto
  consider "rom_dir_ok r k" | bs where "file_holds r k bs" using rom_okD(6) [OF Suc.prems(1), of k] Suc.prems(2) by auto
  then show ?case
  proof cases
    case 1
    with conv_dir_step [OF Suc.prems(1) _ 1 c(2)] Suc.prems(2) c(1) rom_dir_okD(1) [OF 1] show ?thesis by simp
  next
    case 2
    with conv_file_step [OF Suc.prems(1) _ 2 c(2)] Suc.prems(2) c(1) file_holdsD(1) [OF 2] show ?thesis by (simp add: config)
  qed
qed


section \<open>Reading the image\<close>

definition rom_reader :: "u8 list \<Rightarrow> dev_reader" where
  "rom_reader img dev addr n = rom_dev_read img n (unat addr)"

lemma bytes_lengths [simp]:
  "length (le32 k) = 4" "length (le64 w) = 8" "length (le64_pair q) = 16" "length (super_bytes r) = 40" "length (inode_bytes r c n) = 48"
  "length (rom_name_bytes x) = 30" "length (dentry_bytes r c a) = 56" "length (rom_block_bytes base r c b) = 128"
proof -
  show l: "length (le32 k) = 4" "length (le64 w) = 8" "length (le64_pair q) = 16" "length (rom_name_bytes x) = 30" for k w q x
    by (auto simp: le32_def le64_def le64_pair_def rom_name_bytes_def config split: option.split)
  show d: "length (dentry_bytes r c a) = 56" for a by (simp add: dentry_bytes_def l config split: option.split)
  show "length (super_bytes r) = 40" "length (inode_bytes r c n) = 48" "length (rom_block_bytes base r c b) = 128"
    by (auto simp: super_bytes_def inode_bytes_def rom_block_bytes_def l d Let_def split: option.split)
qed

lemma concat_slice:
  assumes "\<And>i. length (f i) = L" "j < N" "k + n \<le> L"
  shows "take n (drop (L * j + k) (concat (map f [0..<N]))) = take n (drop k (f j))"
proof -
  have len: "length (concat (map f [0..<m])) = L * m" for m using assms(1) by (induction m) simp_all
  have "[0..<N] = [0..<j] @ j # [Suc j..<N]" using assms(2) upt_add_eq_append [of 0 j "N - j"] by (simp add: upt_conv_Cons)
  then have "concat (map f [0..<N]) = concat (map f [0..<j]) @ f j @ concat (map f [Suc j..<N])" by simp
  then have "drop (L * j + k) (concat (map f [0..<N])) = drop k (f j @ concat (map f [Suc j..<N]))"
    using len [of j] by (simp add: drop_append)
  then show ?thesis using assms(1,3) by simp
qed

lemma rom_image_parts:
  assumes "img = super_bytes r @ concat (map (inode_bytes r c) [0..<INODE_MAX]) @ concat (map (rom_block_bytes base r c) [0..<FS_BLK_CNT])"
  shows "j < 100 \<Longrightarrow> rom_reader img dev (SUPER_BLK_SIZE + INODE_SIZE * word_of_nat j) 48 = Some (inode_bytes r c j)"
    "b < 100 \<Longrightarrow> k + n \<le> 128 \<Longrightarrow> rom_reader img dev (word_of_nat (4840 + 128 * b + k)) n = Some (take n (drop k (rom_block_bytes base r c b)))"
    "length img = 17640"
proof -
  have len: "length (concat (map (inode_bytes r c) [0..<m])) = 48 * m" "length (concat (map (rom_block_bytes base r c) [0..<m])) = 128 * m" for m
    by (induction m) simp_all
  show img: "length img = 17640" by (simp add: assms len config)
  show "rom_reader img dev (SUPER_BLK_SIZE + INODE_SIZE * word_of_nat j) 48 = Some (inode_bytes r c j)" if "j < 100"
  proof -
    have u: "unat (SUPER_BLK_SIZE + INODE_SIZE * word_of_nat j :: u32) = 40 + 48 * j"
      using that unat_word_of_nat32 [of "40 + 48 * j"] by (simp add: config)
    have "take 48 (drop (40 + 48 * j) img) = take 48 (drop (48 * j + 0) (concat (map (inode_bytes r c) [0..<100])))"
      using that by (simp add: assms len config)
    also have "\<dots> = inode_bytes r c j" using that by (subst concat_slice) simp_all
    finally show ?thesis using that by (simp add: rom_reader_def rom_dev_read_def u img)
  qed
  show "rom_reader img dev (word_of_nat (4840 + 128 * b + k)) n = Some (take n (drop k (rom_block_bytes base r c b)))" if "b < 100" "k + n \<le> 128"
  proof -
    have u: "unat (word_of_nat (4840 + 128 * b + k) :: u32) = 4840 + 128 * b + k" using that by (intro unat_word_of_nat32) simp
    have "take n (drop (4840 + 128 * b + k) img) = take n (drop (128 * b + k) (concat (map (rom_block_bytes base r c) [0..<100])))"
      by (simp add: assms len config add.assoc)
    also have "\<dots> = take n (drop k (rom_block_bytes base r c b))" using that by (intro concat_slice) simp_all
    finally show ?thesis using that unfolding rom_reader_def rom_dev_read_def u img by simp
  qed
qed

text \<open>What the kernel sees in the structures that it loads.\<close>

lemma bytes_word_le: "bytes_word (le32 k @ xs) = word_of_nat k" "bytes_word (le64 w @ xs) = ucast w"
  by (simp_all add: le32_def le64_def bytes_word_bytes)

lemma name_bytes_chars:
  assumes "rom_name_ok name"
  shows "chars_of (take NAME_MAX (rom_name_bytes name @ xs)) = name"
proof -
  have n: "length name < 30" "CHR 0x00 \<notin> set name" using assms by (simp_all add: rom_name_ok_def config)
  let ?f = "\<lambda>c. word_of_nat (of_char c) :: u8"
  have c: "?f c \<noteq> 0" "char_of (unat (?f c)) = c" if "c \<in> set name" for c
  proof -
    have b: "(of_char c :: nat) < 256" by (rule nat_of_char_less_256)
    then have u: "unat (?f c) = of_char c" by (simp add: unsigned_of_nat take_bit_nat_eq_self)
    show ch: "char_of (unat (?f c)) = c" by (simp add: u)
    show "?f c \<noteq> 0"
    proof
      assume "?f c = 0"
      with ch have "c = char_of (0 :: nat)" by simp
      also have "\<dots> = CHR 0x00" by code_simp
      finally show False using n(2) that by simp
    qed
  qed
  have "take NAME_MAX (rom_name_bytes name @ xs) = map ?f name @ replicate (30 - length name) 0"
    using n(1) by (simp add: rom_name_bytes_def config)
  moreover have "takeWhile (\<lambda>b. b \<noteq> 0) (map ?f name @ replicate (30 - length name) (0 :: u8)) = map ?f name"
    using n(1) c(1) by (subst takeWhile_append2) auto
  ultimately show ?thesis using c(2) by (simp add: chars_of_def map_idI)
qed

lemma dentry_bytes_fields:
  assumes "rom_dentries r a = Some e" "rom_name_ok (rd_name e)" "c_link c a = Some (nx, pv)"
  shows "dentry_name (dentry_bytes r c a) = rd_name e" "dentry_inode (dentry_bytes r c a) = word_of_nat (rd_inode e)"
    "dentry_next (dentry_bytes r c a) = ucast nx"
proof -
  have b: "dentry_bytes r c a = rom_name_bytes (rd_name e) @ [0, 0] @ le32 (rd_inode e) @ le32 (rd_parent e) @ le64 nx @ le64 pv"
    by (simp add: dentry_bytes_def assms(1,3) le64_pair_def)
  show "dentry_name (dentry_bytes r c a) = rd_name e" unfolding dentry_name_def b by (rule name_bytes_chars [OF assms(2)])
  show "dentry_inode (dentry_bytes r c a) = word_of_nat (rd_inode e)" "dentry_next (dentry_bytes r c a) = ucast nx"
    by (simp_all add: dentry_inode_def dentry_next_def b bytes_word_le)
qed

lemma inode_bytes_fields:
  "inode_of_bytes (inode_bytes r c n) = \<lparr>i_mode = ri_mode (rom_inodes r n), i_rdev = 0, i_sync = False,
     i_ino = unat (word_of_nat (ri_ino (rom_inodes r n)) :: u32), i_parent = unat (word_of_nat (ri_parent (rom_inodes r n)) :: u32), i_fd = 0,
     i_size = word_of_nat (ri_size (rom_inodes r n)), i_blocks = word_of_nat (ri_blocks (rom_inodes r n)), i_data = ucast (c_data c n), i_dentry = None\<rparr>"
  by (simp add: inode_of_bytes_def inode_bytes_def Let_def bytes_word_le)


section \<open>Mounting files one after the other\<close>

primrec mount_all :: "nat \<Rightarrow> nat \<Rightarrow> (inode \<times> string) list \<Rightarrow> 'a fsstate_scheme \<Rightarrow> 'a fsstate_scheme option" where
  "mount_all target rdev [] s = Some s"
| "mount_all target rdev (x # xs) s = fs_mount_file target ((fst x)\<lparr>i_rdev := rdev\<rparr>) (snd x) s \<bind> mount_all target rdev xs"

definition mount_point :: "'a fsstate_scheme \<Rightarrow> nat \<Rightarrow> nat list \<Rightarrow> u32 list \<Rightarrow> bool" where
  "mount_point s t bs l \<longleftrightarrow> length (bitmap_inodes s) = 4 \<and> length (bitmap_blks s) = 4 \<and> t \<in> used s \<and> dir_ok s bs t \<and> blocks_ok s bs
     \<and> i_dentry (inodes s t) = Some l"

lemma mount_pointD:
  assumes "mount_point s t bs l"
  shows "l = map (slot (rootfs_addr s) bs) [0..<length l]" "length bs = (length l + 1) div 2" "\<And>a. a \<in> set l \<Longrightarrow> \<exists>d. dentries s a = Some d \<and> d_inode d \<in> used s"
    "unat (i_size (inodes s t)) = 56 * length l" "unat (i_blocks (inodes s t)) = length bs" "i_size (inodes s t) = 0 \<longleftrightarrow> l = []"
    "length l \<le> 200" "length bs \<le> 100" "i_size (inodes s t) = word_of_nat (56 * length l)"
proof -
  have d: "dir_ok s bs t" "blocks_ok s bs" "i_dentry (inodes s t) = Some l" using assms by (simp_all add: mount_point_def)
  show "l = map (slot (rootfs_addr s) bs) [0..<length l]" "length bs = (length l + 1) div 2" "\<And>a. a \<in> set l \<Longrightarrow> \<exists>d. dentries s a = Some d \<and> d_inode d \<in> used s"
    "i_size (inodes s t) = word_of_nat (56 * length l)" using d(1,3) by (simp_all add: dir_ok_def)
  show "unat (i_size (inodes s t)) = 56 * length l" "unat (i_blocks (inodes s t)) = length bs" "i_size (inodes s t) = 0 \<longleftrightarrow> l = []"
    "length l \<le> 200" "length bs \<le> 100" using dir_ok_size [OF d] by simp_all
qed

lemma slot_distinct:
  assumes "blocks_ok s bs" "slot R bs j = slot R bs k" "j div 2 < length bs" "k div 2 < length bs"
  shows "j = k"
proof -
  have "bs ! (j div 2) < 100" "bs ! (k div 2) < 100" using assms(1) nth_mem [OF assms(3)] nth_mem [OF assms(4)] by (auto simp: blocks_ok_def config)
  from slot_inj [OF assms(2) this] have "bs ! (j div 2) = bs ! (k div 2)" "j mod 2 = k mod 2" by auto
  moreover from this(1) have "j div 2 = k div 2" using assms(1,3,4) by (simp add: blocks_ok_def nth_eq_iff_index_eq)
  ultimately show ?thesis by (metis div_mult_mod_eq)
qed

lemma fs_alloc_inode_room:
  assumes "length (bitmap_inodes s) = 4" "\<not> {..<100} \<subseteq> used s"
  obtains s' i where "fs_alloc_inode s = Some (s', Some i)" "i < 100" "s_inode_cnt s' = s_inode_cnt s + 1"
proof -
  have le: "INODE_MAX \<le> 32 * length (bitmap_inodes s)" using assms(1) by (simp add: config)
  obtain i where i: "i < INODE_MAX" "find_first_zero_bit (bitmap_inodes s) INODE_MAX = Some i"
    using bm.search_room [OF le] assms(2) by (auto simp: used_def config)
  then obtain m where "bitmap_set_bit (bitmap_inodes s) i = Some m" using bm.take_fresh [OF le i(2,1)] by blast
  with i that show ?thesis by (auto simp: fs_alloc_inode_def config)
qed

lemma fs_alloc_block_room:
  assumes "length (bitmap_blks s) = 4" "\<not> {..<100} \<subseteq> bm_set (bitmap_blks s)"
  obtains s' b where "fs_alloc_block s = Some (s', Some b)"
proof -
  have le: "FS_BLK_CNT \<le> 32 * length (bitmap_blks s)" using assms(1) by (simp add: config)
  obtain i where i: "i < FS_BLK_CNT" "find_first_zero_bit (bitmap_blks s) FS_BLK_CNT = Some i"
    using bm.search_room [OF le] assms(2) by (auto simp: config)
  then obtain m where "bitmap_set_bit (bitmap_blks s) i = Some m" using bm.take_fresh [OF le i(2,1)] by blast
  with i that show ?thesis by (auto simp: fs_alloc_block_def)
qed

text \<open>The place of a new entry, with the state in which it is allocated.\<close>

lemma fs_allocate_dentry_room:
  assumes M: "mount_point s t bs l" and fr: "\<not> {..<100} \<subseteq> bm_set (bitmap_blks s)"
  obtains s' bs' a where "fs_allocate_dentry t s = Some (s', Some a)" "s' = s\<lparr>s_blk_cnt := s_blk_cnt s', bitmap_blks := bitmap_blks s'\<rparr>"
    "a \<notin> set l" "l @ [a] = map (slot (rootfs_addr s) bs') [0..<length l + 1]" "length bs' = (length l + 2) div 2" "blocks_ok s' bs'"
    "length (bitmap_blks s') = 4" "card (bm_set (bitmap_blks s')) \<le> card (bm_set (bitmap_blks s)) + 1"
proof -
  note D = mount_pointD [OF M]
  have len: "length (bitmap_blks s) = 4" and bo: "blocks_ok s bs" and dl: "i_dentry (inodes s t) = Some l" using M by (simp_all add: mount_point_def)
  have fresh: "a \<notin> set l" if h: "a = slot (rootfs_addr s) bs' (length l)" "l = map (slot (rootfs_addr s) bs') [0..<length l]"
      "length bs' = (length l + 2) div 2" "blocks_ok s' bs'" for a bs' s'
  proof
    assume "a \<in> set l"
    then have "a \<in> slot (rootfs_addr s) bs' ` {0..<length l}" by (subst (asm) h(2)) simp
    then obtain k where k: "k < length l" "slot (rootfs_addr s) bs' (length l) = slot (rootfs_addr s) bs' k" using h(1) by auto
    have "length l div 2 < length bs'" "k div 2 < length bs'" using h(3) k(1) by linarith+
    from slot_distinct [OF h(4) k(2) this] k(1) show False by simp
  qed
  show ?thesis
  proof (cases "odd (length l)")
    case True
    then obtain m where m: "length l = Suc (2 * m)" by (elim oddE) simp
    then have ne: "l \<noteq> []" by auto
    have "last l = slot (rootfs_addr s) bs (2 * m)" using ne m by (subst D(1)) (simp add: last_conv_nth)
    then have a: "last l + 56 = slot (rootfs_addr s) bs (length l)" unfolding m by (simp add: slot_def)
    have "fs_allocate_dentry t s = Some (s, Some (last l + 56))"
      using ne m D(2,4,5,6) dl by (simp add: fs_allocate_dentry_def config Let_def)
    moreover have "l @ [last l + 56] = map (slot (rootfs_addr s) bs) [0..<length l + 1]" using D(1) a by simp
    moreover have "length bs = (length l + 2) div 2" using D(2) m by simp
    ultimately show ?thesis using that [of s "last l + 56" bs] fresh [OF a D(1) _ bo] bo len by simp
  next
    case False
    then have ev: "even (length l)" by simp
    then have lb: "length bs = length l div 2" using D(2) by auto
    obtain s' b where b: "fs_alloc_block s = Some (s', Some b)" using fs_alloc_block_room [OF len fr] .
    note F = fs_alloc_block_Some [OF b len]
    let ?bs = "bs @ [b]" and ?a = "block_addr b s'"
    have R: "rootfs_addr s' = rootfs_addr s" by (subst F(5)) simp
    have nofit: "\<not> (unat (i_size (inodes s t)) div 56 + 1 \<le> unat (i_blocks (inodes s t)) * 2)"
      unfolding D(4,5) lb using ev by (auto elim!: evenE)
    then have al: "fs_allocate_dentry t s = Some (s', Some ?a)" using b by (simp add: fs_allocate_dentry_def config Let_def)
    have a: "?a = slot (rootfs_addr s) ?bs (length l)" using lb ev by (simp add: block_addr_def slot_def R nth_append config mult.commute)
    have "slot (rootfs_addr s) ?bs k = slot (rootfs_addr s) bs k" if "k < length l" for k
    proof -
      have "k div 2 < length bs" using that ev lb by (auto elim!: evenE)
      then show ?thesis by (simp add: slot_def nth_append)
    qed
    then have l: "l = map (slot (rootfs_addr s) ?bs) [0..<length l]" by (subst D(1)) simp
    have len': "length ?bs = (length l + 2) div 2" using lb by simp
    have bo': "blocks_ok s' ?bs" using bo F(1,2,3) by (auto simp: blocks_ok_def)
    have "card (bm_set (bitmap_blks s')) \<le> card (bm_set (bitmap_blks s)) + 1" unfolding F(3) by (rule card_insert_le_m1) simp_all
    moreover have "l @ [?a] = map (slot (rootfs_addr s) ?bs) [0..<length l + 1]" using l a by simp
    ultimately show ?thesis using that [OF al F(5) fresh [OF a l len' bo'] _ len' bo' F(4)] by blast
  qed
qed


text \<open>One file more: a new inode with the data of the mounted one, and an entry for it at the end of the directory.\<close>

definition mounted_as :: "inode \<Rightarrow> inode \<Rightarrow> bool" where
  "mounted_as m i \<longleftrightarrow> i_mode i = i_mode m \<and> i_rdev i = i_rdev m \<and> i_size i = i_size m \<and> i_blocks i = i_blocks m \<and> i_data i = i_data m
     \<and> \<not> i_sync i \<and> i_dentry i = Some []"

lemma fs_mount_file_room:
  assumes M: "mount_point s t bs l" and fi: "\<not> {..<100} \<subseteq> used s" and fb: "\<not> {..<100} \<subseteq> bm_set (bitmap_blks s)"
    and cnt: "unat (s_inode_cnt s) < 100"
  obtains s' bs' a i where "fs_mount_file t m name s = Some s'" "mount_point s' t bs' (l @ [a])" "a \<notin> set l" "i \<notin> used s"
    "used s' = insert i (used s)" "dentries s' = (dentries s)(a \<mapsto> \<lparr>d_name = name, d_inode = i, d_parent = i_ino (inodes s t)\<rparr>)"
    "mounted_as m (inodes s' i)" "\<And>j. j \<noteq> i \<Longrightarrow> j \<noteq> t \<Longrightarrow> inodes s' j = inodes s j"
    "card (bm_set (bitmap_blks s')) \<le> card (bm_set (bitmap_blks s)) + 1" "unat (s_inode_cnt s') = unat (s_inode_cnt s) + 2"
    "mount_dev s' = mount_dev s" "files s' = files s"
proof -
  note D = mount_pointD [OF M]
  have M': "length (bitmap_inodes s) = 4" "length (bitmap_blks s) = 4" "t \<in> used s" "i_dentry (inodes s t) = Some l" using M by (simp_all add: mount_point_def)
  let ?fd = "file_cnt s + FILE_RESERVED_NUM"
  define s0 where "s0 = s\<lparr>file_cnt := file_cnt s + 1\<rparr>"
  have "length (bitmap_inodes s0) = 4" "\<not> {..<100} \<subseteq> used s0" using M'(1) fi by (simp_all add: s0_def used_def)
  then obtain s1 i where i: "fs_alloc_inode s0 = Some (s1, Some i)" "i < 100" "s_inode_cnt s1 = s_inode_cnt s0 + 1" using fs_alloc_inode_room by blast
  note I = fs_alloc_inode_Some [OF i(1)]
  have I: "i \<notin> used s" "used s1 = insert i (used s)" "length (bitmap_inodes s1) = 4"
    "s1 = (upd_inode i (i_ino_update (\<lambda>_. i)) s0)\<lparr>s_inode_cnt := s_inode_cnt s1, bitmap_inodes := bitmap_inodes s1\<rparr>"
    using I M'(1) by (simp_all add: s0_def used_def)
  have it: "i \<noteq> t" using I(1) M'(3) by auto
  define n1 where "n1 = (inodes s i)\<lparr>i_ino := i, i_mode := i_mode m, i_rdev := i_rdev m, i_parent := i_ino (inodes s1 t), i_fd := ?fd, i_size := i_size m,
     i_blocks := i_blocks m, i_data := i_data m, i_sync := False, i_dentry := Some []\<rparr>"
  define s2 where "s2 = upd_inode i (\<lambda>n. n\<lparr>i_mode := i_mode m, i_rdev := i_rdev m, i_parent := i_ino (inodes s1 t),
                   i_fd := ?fd, i_size := i_size m, i_blocks := i_blocks m, i_data := i_data m,
                   i_sync := False, i_dentry := Some []\<rparr>) s1"
  have e1: "inodes s1 = (inodes s)(i := (inodes s i)\<lparr>i_ino := i\<rparr>)" "dentries s1 = dentries s" "rootfs_addr s1 = rootfs_addr s" "bitmap_blks s1 = bitmap_blks s"
    "mount_dev s1 = mount_dev s" "files s1 = files s"
    by (subst I(4), simp add: upd_inode_def s0_def)+
  have e2: "inodes s2 = (inodes s)(i := n1)" "dentries s2 = dentries s" "rootfs_addr s2 = rootfs_addr s" "bitmap_blks s2 = bitmap_blks s"
    "bitmap_inodes s2 = bitmap_inodes s1" "mount_dev s2 = mount_dev s" "files s2 = files s" "s_inode_cnt s2 = s_inode_cnt s1"
    by (simp_all add: s2_def upd_inode_def e1 n1_def)
  have u2: "used s2 = insert i (used s)" using I(2) by (simp add: used_def e2)
  have "dir_ok s2 bs t" using M it D(3) by (auto simp: mount_point_def dir_ok_def e2 u2)
  then have M2: "mount_point s2 t bs l" using M I(3) it u2 by (simp add: mount_point_def e2 blocks_ok_def)
  have "\<not> {..<100} \<subseteq> bm_set (bitmap_blks s2)" using fb by (simp add: e2)
  from fs_allocate_dentry_room [OF M2 this] obtain s3 bs' a where
    a: "fs_allocate_dentry t s2 = Some (s3, Some a)" "s3 = s2\<lparr>s_blk_cnt := s_blk_cnt s3, bitmap_blks := bitmap_blks s3\<rparr>"
    "a \<notin> set l" "l @ [a] = map (slot (rootfs_addr s2) bs') [0..<length l + 1]" "length bs' = (length l + 2) div 2" "blocks_ok s3 bs'"
    "length (bitmap_blks s3) = 4" "card (bm_set (bitmap_blks s3)) \<le> card (bm_set (bitmap_blks s2)) + 1" .
  have e3: "inodes s3 = inodes s2" "dentries s3 = dentries s2" "rootfs_addr s3 = rootfs_addr s" "bitmap_inodes s3 = bitmap_inodes s1"
    "mount_dev s3 = mount_dev s" "files s3 = files s" "s_inode_cnt s3 = s_inode_cnt s1"
    by (subst a(2), simp add: e2)+
  have ino: "i_ino n1 = i" by (simp add: n1_def)
  define dn where "dn = \<lparr>d_name = name, d_inode = i, d_parent = i_ino (inodes s t)\<rparr>"
  define tn where "tn = (inodes s t)\<lparr>i_dentry := Some (l @ [a]), i_size := i_size (inodes s t) + DENTRY_SIZE, i_blocks := word_of_nat (length bs')\<rparr>"
  define s' where "s' = s3\<lparr>dentries := (dentries s)(a \<mapsto> dn), s_inode_cnt := s_inode_cnt s3 + 1, inodes := (inodes s)(i := n1, t := tn)\<rparr>"
  have z: "i_size (inodes s t) + DENTRY_SIZE = word_of_nat (56 * (length l + 1))" unfolding D(9) by (simp add: config)
  have uz: "unat (word_of_nat (56 * (length l + 1)) :: u32) = 56 * (length l + 1)" using D(7) by (intro unat_word_of_nat32) simp
  have fb: "fs_calculate_dentry_blocks FS_BLK_SIZE (unat (i_size (inodes s t) + DENTRY_SIZE) div unat DENTRY_SIZE) = length bs'"
    unfolding a(5) z uz by (simp add: fs_calculate_dentry_blocks_def config Let_def) presburger
  have lk: "fs_link_dentry t a (s3\<lparr>dentries := (dentries s3)(a \<mapsto> dn), s_inode_cnt := s_inode_cnt s3 + 1\<rparr>) = Some s'"
    using M'(4) it a(3) by (simp add: fs_link_dentry_def e3 e2 seq_add_def Let_def fb upd_inode_def s'_def tn_def)
  have "fs_mount_file t m name s = Some s'"
    using cnt i(1) a(1) lk unfolding s0_def s2_def
    by (simp add: fs_mount_file_def config Let_def dn_def e3 e2 ino it it [symmetric])
  moreover have "dir_ok s' bs' t"
    using a(4,5) D(3) u2 it by (auto simp: dir_ok_def s'_def tn_def z e3 e2 used_def dn_def)
  then have "mount_point s' t bs' (l @ [a])" using a(6,7) I(3) u2 M'(3) by (simp add: mount_point_def s'_def e3 tn_def used_def blocks_ok_def e2)
  moreover have "mounted_as m (inodes s' i)" using it by (simp add: mounted_as_def s'_def n1_def)
  moreover have "unat (s_inode_cnt s') = unat (s_inode_cnt s) + 2"
    using i(3) cnt unat_add32 [of "s_inode_cnt s" 2] by (simp add: s'_def e3 s0_def add.commute)
  moreover have "used s' = insert i (used s)" using u2 by (simp add: s'_def used_def e3 e2)
  ultimately show ?thesis using that [of s' bs' a i] a(3,8) I(1) by (simp add: s'_def e3 e2 dn_def)
qed


text \<open>A table with a free number.\<close>

lemma bm_room: "card (bm_set m) < n \<Longrightarrow> \<not> {..<n} \<subseteq> bm_set m"
  using card_mono [OF finite_bm_set, of "{..<n}" m] by auto

definition mount_room :: "nat \<Rightarrow> 'a fsstate_scheme \<Rightarrow> bool" where
  "mount_room k s \<longleftrightarrow> card (used s) + k \<le> INODE_MAX \<and> card (bm_set (bitmap_blks s)) + k \<le> FS_BLK_CNT \<and> unat (s_inode_cnt s) + 2 * k \<le> INODE_MAX"

lemma mount_all_room:
  "mount_point s t bs l \<Longrightarrow> mount_room (length xs) s \<Longrightarrow>
   \<exists>s' bs' as. mount_all t rdev xs s = Some s' \<and> mount_point s' t bs' (l @ as) \<and> used s \<subseteq> used s'
     \<and> list_all2 (\<lambda>y a. \<exists>d. dentries s' a = Some d \<and> d_name d = snd y \<and> d_inode d \<notin> used s
          \<and> mounted_as ((fst y)\<lparr>i_rdev := rdev\<rparr>) (inodes s' (d_inode d))) xs as
     \<and> (\<forall>a \<in> set l. dentries s' a = dentries s a) \<and> (\<forall>j \<in> used s. j \<noteq> t \<longrightarrow> inodes s' j = inodes s j)
     \<and> mount_dev s' = mount_dev s \<and> files s' = files s"
proof (induction xs arbitrary: s bs l)
  case Nil
  then show ?case by (intro exI [of _ s] exI [of _ bs] exI [of _ "[]"]) simp
next
  case (Cons y ys)
  have room: "\<not> {..<100} \<subseteq> used s" "\<not> {..<100} \<subseteq> bm_set (bitmap_blks s)" "unat (s_inode_cnt s) < 100"
    using Cons.prems(2) bm_room [of "bitmap_inodes s" 100] bm_room [of "bitmap_blks s" 100] by (simp_all add: mount_room_def used_def config)
  obtain s1 bs1 a i where st: "fs_mount_file t ((fst y)\<lparr>i_rdev := rdev\<rparr>) (snd y) s = Some s1" "mount_point s1 t bs1 (l @ [a])" "a \<notin> set l" "i \<notin> used s"
    "used s1 = insert i (used s)" "dentries s1 = (dentries s)(a \<mapsto> \<lparr>d_name = snd y, d_inode = i, d_parent = i_ino (inodes s t)\<rparr>)"
    "mounted_as ((fst y)\<lparr>i_rdev := rdev\<rparr>) (inodes s1 i)" "\<And>j. j \<noteq> i \<Longrightarrow> j \<noteq> t \<Longrightarrow> inodes s1 j = inodes s j"
    "card (bm_set (bitmap_blks s1)) \<le> card (bm_set (bitmap_blks s)) + 1" "unat (s_inode_cnt s1) = unat (s_inode_cnt s) + 2"
    "mount_dev s1 = mount_dev s" "files s1 = files s"
    by (rule fs_mount_file_room [OF Cons.prems(1) room, of "(fst y)\<lparr>i_rdev := rdev\<rparr>" "snd y"], rule that)
  have "card (used s1) = card (used s) + 1" using st(4,5) finite_bm_set by (simp add: used_def)
  then have "mount_room (length ys) s1" using Cons.prems(2) st(9,10) by (simp add: mount_room_def)
  from Cons.IH [OF st(2) this] obtain s' bs' as where IH: "mount_all t rdev ys s1 = Some s'" "mount_point s' t bs' ((l @ [a]) @ as)" "used s1 \<subseteq> used s'"
    "list_all2 (\<lambda>y a. \<exists>d. dentries s' a = Some d \<and> d_name d = snd y \<and> d_inode d \<notin> used s1
          \<and> mounted_as ((fst y)\<lparr>i_rdev := rdev\<rparr>) (inodes s' (d_inode d))) ys as"
    "\<forall>x \<in> set (l @ [a]). dentries s' x = dentries s1 x" "\<forall>j \<in> used s1. j \<noteq> t \<longrightarrow> inodes s' j = inodes s1 j"
    "mount_dev s' = mount_dev s1" "files s' = files s1" by blast
  have it: "i \<noteq> t" "t \<in> used s" using st(4) Cons.prems(1) by (auto simp: mount_point_def)
  have "inodes s' i = inodes s1 i" using IH(6) st(5) it(1) by simp
  moreover have "dentries s' a = dentries s1 a" using IH(5) by simp
  moreover have "list_all2 (\<lambda>y a. \<exists>d. dentries s' a = Some d \<and> d_name d = snd y \<and> d_inode d \<notin> used s
          \<and> mounted_as ((fst y)\<lparr>i_rdev := rdev\<rparr>) (inodes s' (d_inode d))) ys as"
    using IH(4) st(5) by (auto elim!: list_all2_mono)
  moreover have "\<forall>x \<in> set l. dentries s' x = dentries s x" using IH(5) st(3,6) by auto
  moreover have "\<forall>j \<in> used s. j \<noteq> t \<longrightarrow> inodes s' j = inodes s j"
  proof (intro ballI impI)
    fix j assume j: "j \<in> used s" "j \<noteq> t"
    then have "j \<noteq> i" "j \<in> used s1" using st(4,5) by auto
    then show "inodes s' j = inodes s j" using IH(6) j(2) st(8) by simp
  qed
  ultimately show ?case using st IH(1,2,3,7,8)
    by (intro exI [of _ s'] exI [of _ bs'] exI [of _ "a # as"]) auto
qed

text \<open>Looking up a name afterwards.\<close>

lemma find_dentry_mounted:
  "list_all2 (\<lambda>y a. \<exists>d. D a = Some d \<and> d_name d = snd y \<and> Q y (d_inode d)) xs as \<Longrightarrow>
   (case find (\<lambda>y. snd y = x) xs of None \<Rightarrow> find_dentry D x as = Some None | Some y \<Rightarrow> \<exists>i. find_dentry D x as = Some (Some i) \<and> Q y i)"
  by (induction xs as rule: list_all2_induct) (auto split: option.splits)

section \<open>Mounting a directory of a device\<close>

text \<open>What a device promises of its directories: for every entry its address, its bytes and the bytes of its inode, and that
  the entries are linked in order and the last one to the list head in the table of inodes.\<close>

locale device_directory =
  fixes good :: "'r \<Rightarrow> nat \<Rightarrow> bool" and rd :: "'r \<Rightarrow> dev_reader" and ents :: "'r \<Rightarrow> nat \<Rightarrow> (u32 \<times> u8 list \<times> u8 list) list"
  assumes load_dentry: "good r n \<Longrightarrow> (a, d, i) \<in> set (ents r n) \<Longrightarrow> rd r dev a 56 = Some d"
    and load_inode: "good r n \<Longrightarrow> (a, d, i) \<in> set (ents r n) \<Longrightarrow> rd r dev (SUPER_BLK_SIZE + INODE_SIZE * dentry_inode d) 48 = Some i"
    and linked: "good r n \<Longrightarrow> Suc k < length (ents r n) \<Longrightarrow>
      \<not> dentry_next (fst (snd (ents r n ! k))) < SUPER_BLK_SIZE + INODE_SIZE * word_of_nat INODE_MAX
      \<and> dentry_next (fst (snd (ents r n ! k))) - DENTRY_LIST_OFFSET = fst (ents r n ! Suc k)"
    and closed: "good r n \<Longrightarrow> ents r n \<noteq> [] \<Longrightarrow>
      dentry_next (fst (snd (last (ents r n)))) < SUPER_BLK_SIZE + INODE_SIZE * word_of_nat INODE_MAX"
begin

definition contents :: "'r \<Rightarrow> nat \<Rightarrow> (inode \<times> string) list" where
  "contents r n = map (\<lambda>(a, d, i). (inode_of_bytes i, dentry_name d)) (ents r n)"

text \<open>The loop over the entries returns: it handles every entry once, in order, and stops at the list head.\<close>

lemma mount_loop_step:
  assumes "good r n" "k < length (ents r n)"
  shows "mount_loop (rd r) dev rdev target (fst (ents r n ! k)) x y s = mount_all target rdev (drop k (contents r n)) s"
  using assms(2)
proof (induction "length (ents r n) - k" arbitrary: k x y s)
  case (Suc m)
  obtain a d i where e: "ents r n ! k = (a, d, i)" by (cases "ents r n ! k") auto
  have mem: "(a, d, i) \<in> set (ents r n)" using nth_mem [OF Suc.prems] e by simp
  have dr: "drop k (contents r n) = (inode_of_bytes i, dentry_name d) # drop (Suc k) (contents r n)"
    using Suc.prems e by (simp add: contents_def Cons_nth_drop_Suc [symmetric])
  have st: "mount_loop (rd r) dev rdev target (fst (ents r n ! k)) x y s
      = fs_mount_file target ((inode_of_bytes i)\<lparr>i_rdev := rdev\<rparr>) (dentry_name d) s \<bind>
        (\<lambda>s1. if dentry_next d < SUPER_BLK_SIZE + INODE_SIZE * word_of_nat INODE_MAX then Some s1
              else mount_loop (rd r) dev rdev target (dentry_next d - DENTRY_LIST_OFFSET) (Some d) (Some i) s1)"
    using load_dentry [OF assms(1) mem] load_inode [OF assms(1) mem] e by (subst mount_loop.simps) (simp add: dev_load_def)
  show ?case
  proof (cases "Suc k < length (ents r n)")
    case True
    have m: "m = length (ents r n) - Suc k" using Suc.hyps(2) by simp
    have l: "\<not> dentry_next d < SUPER_BLK_SIZE + INODE_SIZE * word_of_nat INODE_MAX" "dentry_next d - DENTRY_LIST_OFFSET = fst (ents r n ! Suc k)"
      using linked [OF assms(1) True] e by simp_all
    show ?thesis unfolding st dr l(2) using l(1) Suc.hyps(1) [OF m True] by (cases "fs_mount_file target ((inode_of_bytes i)\<lparr>i_rdev := rdev\<rparr>) (dentry_name d) s") simp_all
  next
    case False
    then have "k = length (ents r n) - 1" using Suc.prems by simp
    moreover have ne: "ents r n \<noteq> []" using Suc.prems by auto
    ultimately have "last (ents r n) = (a, d, i)" using e by (simp add: last_conv_nth)
    then have l: "dentry_next d < SUPER_BLK_SIZE + INODE_SIZE * word_of_nat INODE_MAX" using closed [OF assms(1) ne] by simp
    have "drop (Suc k) (contents r n) = []" using False by (simp add: contents_def)
    then show ?thesis unfolding st dr using l by (cases "fs_mount_file target ((inode_of_bytes i)\<lparr>i_rdev := rdev\<rparr>) (dentry_name d) s") simp_all
  qed
qed simp

lemma mount_directory:
  assumes "good r n" "ents r n \<noteq> []" "mount_dev s (i_rdev src) = Some dev" "i_size src \<noteq> 0" "i_data src = fst (hd (ents r n))"
  shows "fs_mount_directory (rd r) src target s
    = map_option (upd_inode target (i_sync_update (\<lambda>_. True)))
        (mount_all target (i_rdev src) (contents r n)
           (if i_sync (inodes s target) then s else upd_inode target (\<lambda>d. d\<lparr>i_size := 0, i_blocks := 0\<rparr>) s))"
proof -
  define t where "t = (if i_sync (inodes s target) then s else upd_inode target (\<lambda>d. d\<lparr>i_size := 0, i_blocks := 0\<rparr>) s)"
  have "mount_loop (rd r) dev (i_rdev src) target (i_data src) None None t = mount_all target (i_rdev src) (contents r n) t"
    using mount_loop_step [OF assms(1), of 0 dev "i_rdev src" target None None t] assms(2,5) by (simp add: hd_conv_nth)
  then show ?thesis unfolding t_def [symmetric] using assms(3,4)
    by (simp add: fs_mount_directory_def map_conv_bind_option comp_def Let_def t_def [symmetric])
qed

end

text \<open>The image that \<^verbatim>\<open>mkromfs\<close> writes.\<close>

definition rom_image :: "u64 \<times> romfs \<Rightarrow> u8 list" where
  "rom_image x = (case romfs_export (fst x) (snd x) of Done img \<Rightarrow> img | _ \<Rightarrow> [])"

definition rom_final :: "u64 \<times> romfs \<Rightarrow> rom_conv" where
  "rom_final x = (case conv_inodes (fst x) (snd x) (rs_inode_cnt (snd x)) of Done c \<Rightarrow> c
     | _ \<Rightarrow> \<lparr>c_data = (\<lambda>_. 0), c_head = (\<lambda>_. None), c_link = (\<lambda>_. None), c_next = (\<lambda>_. None)\<rparr>)"

definition rom_ents :: "u64 \<times> romfs \<Rightarrow> nat \<Rightarrow> (u32 \<times> u8 list \<times> u8 list) list" where
  "rom_ents x n = map (\<lambda>a. (word_of_nat (4840 + a), dentry_bytes (snd x) (rom_final x) a,
     inode_bytes (snd x) (rom_final x) (rd_inode (the (rom_dentries (snd x) a))))) (rom_list (snd x) n)"

definition rom_dir :: "u64 \<times> romfs \<Rightarrow> nat \<Rightarrow> bool" where
  "rom_dir x n \<longleftrightarrow> rom_ok (snd x) \<and> n < rs_inode_cnt (snd x) \<and> rom_dir_ok (snd x) n"

lemma rom_final_ok:
  assumes "rom_ok r"
  shows "conv_inv base r (rs_inode_cnt r) (rom_final (base, r))"
    "romfs_export base r = Done (super_bytes r @ concat (map (inode_bytes r (rom_final (base, r))) [0..<INODE_MAX])
       @ concat (map (rom_block_bytes base r (rom_final (base, r))) [0..<FS_BLK_CNT]))"
  using conv_inodes_ok [OF assms, of "rs_inode_cnt r" base] by (auto simp: rom_final_def romfs_export_def)

lemmas rom_image_reads = rom_image_parts [OF refl]

lemma rom_image_eq:
  assumes "rom_ok r"
  shows "rom_image (base, r) = super_bytes r @ concat (map (inode_bytes r (rom_final (base, r))) [0..<INODE_MAX])
     @ concat (map (rom_block_bytes base r (rom_final (base, r))) [0..<FS_BLK_CNT])"
  using rom_final_ok(2) [OF assms] by (simp add: rom_image_def)

lemma ucast_low: "n < 2 ^ 32 \<Longrightarrow> (ucast (word_of_nat n :: u64) :: u32) = word_of_nat n"
  unfolding word_unat_eq_iff by (simp add: unsigned_ucast_eq unsigned_of_nat take_bit_nat_eq_self)

lemma rom_dentry_read:
  assumes ok: "rom_ok r" and e: "rom_dentries r a = Some e"
  shows "rom_reader (rom_image (base, r)) dev (word_of_nat (4840 + a)) 56 = Some (dentry_bytes r (rom_final (base, r)) a)"
proof -
  let ?c = "rom_final (base, r)" and ?b = "a div 128" and ?k = "a mod 128"
  have sl: "slot_ok r a e" by (rule rom_okD(7) [OF ok e])
  then have b: "?b < 100" "?k = 0 \<or> ?k = 56" "rom_blocks r ?b = None" using rom_okD(3) [OF ok] by (auto simp: slot_ok_def)
  have "128 * ?b + ?k = a" by (rule mult_div_mod_eq)
  then have a: "a = (if ?k = 0 then 128 * ?b else 128 * ?b + 56)" using b(2) by (metis add_0_right)
  have "take 56 (drop ?k (rom_block_bytes base r ?c ?b)) = dentry_bytes r ?c a"
    using b(2,3) by (subst a) (auto simp: rom_block_bytes_def)
  moreover have "4840 + a = 4840 + 128 * ?b + ?k" by simp
  moreover have "?k + 56 \<le> 128" using b(2) by auto
  ultimately show ?thesis using rom_image_reads(2) [OF b(1), of ?k 56 r ?c base dev] unfolding rom_image_eq [OF ok] by metis
qed

lemma rom_link:
  assumes "rom_dir (base, r) n" "k < length (rom_list r n)"
  shows "\<exists>pv. c_link (rom_final (base, r)) (rom_list r n ! k)
    = Some (if Suc k < length (rom_list r n) then word_of_nat (4880 + rom_list r n ! Suc k) else head_addr n, pv)"
proof -
  let ?l = "rom_list r n" and ?as = "map (link_addr base) (rom_list r n)"
  have ok: "rom_ok r" "n < rs_inode_cnt r" "rom_dir_ok r n" using assms(1) by (simp_all add: rom_dir_def)
  have "c_link (rom_final (base, r)) (?l ! k) = Some (tl (ring_links (head_addr n) ?as) ! k)"
    using rom_final_ok(1) [OF ok(1), of base] ok(2,3) assms(2) unfolding conv_inv_def by blast
  moreover have "link_addr base a = word_of_nat (4880 + a)" for a
    unfolding link_addr_def conv_addr_blk by (simp add: config add.commute)
  moreover have "tl (ring_links (head_addr n) ?as) ! k = ((tl ?as @ [head_addr n]) ! k, (head_addr n # ?as) ! k)"
    using assms(2) by (cases ?l) (simp_all add: ring_links_def)
  moreover have "k < length ?l - 1 \<longleftrightarrow> Suc k < length ?l" by arith
  ultimately show ?thesis using assms(2) by (simp add: nth_append nth_tl)
qed

interpretation romdev: device_directory rom_dir "\<lambda>x. rom_reader (rom_image x)" rom_ents
proof
  fix x n assume g: "rom_dir x n"
  obtain base r where x: "x = (base, r)" by (cases x)
  let ?c = "rom_final (base, r)" and ?l = "rom_list r n"
  have ok: "rom_ok r" "n < rs_inode_cnt r" "rom_dir_ok r n" using g by (simp_all add: rom_dir_def x)
  have ent: "\<exists>e. rom_dentries r b = Some e \<and> slot_ok r b e" if "b \<in> set ?l" for b
    using rom_dir_okD(7) [OF ok(3) that] rom_okD(7) [OF ok(1)] by blast
  have nx: "dentry_next (dentry_bytes r ?c (?l ! k))
      = (if Suc k < length ?l then word_of_nat (4880 + ?l ! Suc k) else word_of_nat (72 + 48 * n))"
    "dentry_inode (dentry_bytes r ?c (?l ! k)) = word_of_nat (rd_inode (the (rom_dentries r (?l ! k))))" if k: "k < length ?l" for k
  proof -
    obtain e where e: "rom_dentries r (?l ! k) = Some e" "slot_ok r (?l ! k) e" using ent [OF nth_mem [OF k]] by blast
    obtain pv where lk: "c_link ?c (?l ! k) = Some (if Suc k < length ?l then word_of_nat (4880 + ?l ! Suc k) else head_addr n, pv)"
      using rom_link [OF g [unfolded x] k] by blast
    have nm: "rom_name_ok (rd_name e)" using e(2) by (simp add: slot_ok_def)
    note F = dentry_bytes_fields [OF e(1) nm lk]
    have "4880 + ?l ! Suc k < 2 ^ 32" if nk: "Suc k < length ?l"
    proof -
      obtain e' where "slot_ok r (?l ! Suc k) e'" using ent [OF nth_mem [OF nk]] by blast
      then have "?l ! Suc k div 128 < 100" using rom_okD(3) [OF ok(1)] by (simp add: slot_ok_def)
      then show ?thesis by simp
    qed
    moreover have "72 + 48 * n < 2 ^ 32" using ok(2) rom_okD(2) [OF ok(1)] by simp
    ultimately show "dentry_next (dentry_bytes r ?c (?l ! k)) = (if Suc k < length ?l then word_of_nat (4880 + ?l ! Suc k) else word_of_nat (72 + 48 * n))"
      unfolding F(3) using ucast_low [of "72 + 48 * n"] ucast_low [of "4880 + ?l ! Suc k"] by (auto simp: head_addr_def config)
    show "dentry_inode (dentry_bytes r ?c (?l ! k)) = word_of_nat (rd_inode (the (rom_dentries r (?l ! k))))" using F(2) e(1) by simp
  qed
  show "rom_reader (rom_image x) dev a 56 = Some d" if mem: "(a, d, i) \<in> set (rom_ents x n)" for a d i dev
  proof -
    obtain b where b: "b \<in> set ?l" "a = word_of_nat (4840 + b)" "d = dentry_bytes r ?c b" using mem by (auto simp: rom_ents_def x)
    with ent [OF b(1)] rom_dentry_read [OF ok(1)] show ?thesis unfolding x by blast
  qed
  show "rom_reader (rom_image x) dev (SUPER_BLK_SIZE + INODE_SIZE * dentry_inode d) 48 = Some i" if mem: "(a, d, i) \<in> set (rom_ents x n)" for a d i dev
  proof -
    obtain k where k: "k < length ?l" "d = dentry_bytes r ?c (?l ! k)" "i = inode_bytes r ?c (rd_inode (the (rom_dentries r (?l ! k))))"
      using mem by (auto simp: rom_ents_def x in_set_conv_nth)
    obtain e where e: "rom_dentries r (?l ! k) = Some e" "slot_ok r (?l ! k) e" using ent [OF nth_mem [OF k(1)]] by blast
    then have "rd_inode e < 100" using rom_okD(2) [OF ok(1)] by (simp add: slot_ok_def)
    then show ?thesis using rom_image_reads(1) [of "rd_inode e" r ?c base dev] nx(2) [OF k(1)] e(1)
      unfolding x rom_image_eq [OF ok(1)] k(2,3) by simp
  qed
  show "\<not> dentry_next (fst (snd (rom_ents x n ! k))) < SUPER_BLK_SIZE + INODE_SIZE * word_of_nat INODE_MAX
      \<and> dentry_next (fst (snd (rom_ents x n ! k))) - DENTRY_LIST_OFFSET = fst (rom_ents x n ! Suc k)" if "Suc k < length (rom_ents x n)" for k
  proof -
    have k: "Suc k < length ?l" using that by (simp add: rom_ents_def x)
    obtain e' where "slot_ok r (?l ! Suc k) e'" using ent [OF nth_mem [OF k]] by blast
    then have "?l ! Suc k div 128 < 100" using rom_okD(3) [OF ok(1)] by (simp add: slot_ok_def)
    then have "unat (word_of_nat (4880 + ?l ! Suc k) :: u32) = 4880 + ?l ! Suc k" by (intro unat_word_of_nat32) simp
    then have "\<not> (word_of_nat (4880 + ?l ! Suc k) :: u32) < 4840" unfolding word_less_nat_alt by simp
    then show ?thesis using nx(1) [of k] k by (simp add: rom_ents_def x config)
  qed
  show "dentry_next (fst (snd (last (rom_ents x n)))) < SUPER_BLK_SIZE + INODE_SIZE * word_of_nat INODE_MAX" if "rom_ents x n \<noteq> []"
  proof -
    have l: "?l \<noteq> []" using that by (auto simp: rom_ents_def x)
    have "unat (word_of_nat (72 + 48 * n) :: u32) = 72 + 48 * n" using ok(2) rom_okD(2) [OF ok(1)] by (intro unat_word_of_nat32) simp
    then have "(word_of_nat (72 + 48 * n) :: u32) < 4840" unfolding word_less_nat_alt using ok(2) rom_okD(2) [OF ok(1)] by simp
    then show ?thesis using nx(1) [of "length ?l - 1"] l by (simp add: rom_ents_def x last_map last_conv_nth config)
  qed
qed


section \<open>What the kernel finds\<close>

text \<open>An inode of the kernel, or one that it has loaded, that stands for inode \<open>m\<close> of the image. What it holds as the address of
  the data of an empty file or directory is not used.\<close>

definition rom_copy :: "romfs \<Rightarrow> nat \<Rightarrow> nat \<Rightarrow> inode \<Rightarrow> bool" where
  "rom_copy r m rdev i \<longleftrightarrow> i_mode i = ri_mode (rom_inodes r m) \<and> i_rdev i = rdev \<and> i_size i = word_of_nat (ri_size (rom_inodes r m))
     \<and> i_blocks i = word_of_nat (ri_blocks (rom_inodes r m))
     \<and> (\<forall>a. ri_size (rom_inodes r m) \<noteq> 0 \<and> ri_data (rom_inodes r m) = Blk a \<longrightarrow> i_data i = word_of_nat (4840 + a))"

lemma rom_data_less:
  assumes ok: "rom_ok r" and m: "m < rs_inode_cnt r" "ri_size (rom_inodes r m) \<noteq> 0" "ri_data (rom_inodes r m) = Blk a"
  shows "a < 12800"
proof (cases "rom_dir_ok r m")
  case True
  then have a: "rom_list r m \<noteq> []" "a = hd (rom_list r m)" using rom_dir_okD(4,6) [OF True] m(2,3) by auto
  obtain e where "rom_dentries r a = Some e" using rom_dir_okD(7) [OF True, of a] a by auto
  from rom_okD(7) [OF ok this] rom_okD(3) [OF ok] have "a div 128 < 100" by (simp add: slot_ok_def)
  then show ?thesis by simp
next
  case False
  then obtain bs where f: "file_holds r m bs" using rom_okD(6) [OF ok m(1)] by blast
  note H = file_holdsD [OF f]
  have "bs \<noteq> []" using H(2) m(2) by auto
  then have "a = 128 * start_blk r m" "start_blk r m < 100" using H(4,5) m(3) file_blocks_pos [of bs] rom_okD(3) [OF ok] by auto
  then show ?thesis by simp
qed

lemma rom_copy_loaded:
  assumes ok: "rom_ok r" and m: "m < rs_inode_cnt r"
  shows "rom_copy r m rdev ((inode_of_bytes (inode_bytes r (rom_final (base, r)) m))\<lparr>i_rdev := rdev\<rparr>)"
proof -
  have "ucast (c_data (rom_final (base, r)) m) = (word_of_nat (4840 + a) :: u32)" if "ri_size (rom_inodes r m) \<noteq> 0" "ri_data (rom_inodes r m) = Blk a" for a
  proof -
    have "c_data (rom_final (base, r)) m = word_of_nat (4840 + a)"
      using rom_final_ok(1) [OF ok, of base] m that unfolding conv_inv_def Let_def by (simp add: host_addr_def)
    moreover have "4840 + a < 2 ^ 32" using rom_data_less [OF ok m that] by simp
    ultimately show ?thesis by (simp only: ucast_low)
  qed
  then show ?thesis by (simp add: rom_copy_def inode_bytes_fields)
qed

text \<open>Looking up a name in a directory of the kernel, and the state from which a directory is mounted.\<close>

definition dir_find :: "'a fsstate_scheme \<Rightarrow> nat \<Rightarrow> string \<Rightarrow> nat option option" where
  "dir_find s t x = i_dentry (inodes s t) \<bind> find_dentry (dentries s) x"

definition mount_reset :: "nat \<Rightarrow> 'a fsstate_scheme \<Rightarrow> 'a fsstate_scheme" where
  "mount_reset t s = (if i_sync (inodes s t) then s else upd_inode t (\<lambda>d. d\<lparr>i_size := 0, i_blocks := 0\<rparr>) s)"

lemma mount_reset_simps [simp]:
  "used (mount_reset t s) = used s" "mount_dev (mount_reset t s) = mount_dev s" "dentries (mount_reset t s) = dentries s"
  "j \<noteq> t \<Longrightarrow> inodes (mount_reset t s) j = inodes s j" "i_dentry (inodes (mount_reset t s) t) = i_dentry (inodes s t)"
  by (simp_all add: mount_reset_def upd_inode_def used_def)

lemma find_contents:
  "find (\<lambda>y. snd y = x) (map (\<lambda>a. (f (rd_inode (the (D a))), rd_name (the (D a)))) l) = map_option (\<lambda>m. (f m, x)) (find_name D x l)"
  by (induction l) auto

lemma rom_contents:
  assumes "rom_dir (base, r) n"
  shows "romdev.contents (base, r) n = map (\<lambda>a. (inode_of_bytes (inode_bytes r (rom_final (base, r)) (rd_inode (the (rom_dentries r a)))),
    rd_name (the (rom_dentries r a)))) (rom_list r n)"
proof -
  have ok: "rom_ok r" "rom_dir_ok r n" using assms by (simp_all add: rom_dir_def)
  have "dentry_name (dentry_bytes r (rom_final (base, r)) a) = rd_name (the (rom_dentries r a))" if mem: "a \<in> set (rom_list r n)" for a
  proof -
    obtain k where k: "k < length (rom_list r n)" "a = rom_list r n ! k" using mem by (auto simp: in_set_conv_nth)
    obtain q where "c_link (rom_final (base, r)) a = Some q" using rom_link [OF assms k(1)] k(2) by blast
    moreover obtain e where "rom_dentries r a = Some e" "slot_ok r a e" using rom_dir_okD(7) [OF ok(2) mem] rom_okD(7) [OF ok(1)] by blast
    ultimately show ?thesis using dentry_bytes_fields(1) by (cases q) (simp add: slot_ok_def)
  qed
  then show ?thesis by (simp add: romdev.contents_def rom_ents_def)
qed

lemma rom_mount:
  assumes ok: "rom_dir (base, r) n" and src: "rom_copy r n rdev src" and dev: "mount_dev s rdev = Some dev"
    and mp: "mount_point (mount_reset t s) t bs []" and room: "mount_room (length (rom_list r n)) (mount_reset t s)"
  shows "\<exists>s'. fs_mount_directory (rom_reader (rom_image (base, r))) src t s = Some s'
    \<and> (\<forall>x. case rom_look r n x of None \<Rightarrow> dir_find s' t x = Some None
          | Some m \<Rightarrow> \<exists>i. dir_find s' t x = Some (Some i) \<and> i \<notin> used s \<and> rom_copy r m rdev (inodes s' i) \<and> \<not> i_sync (inodes s' i))
    \<and> (\<forall>j \<in> used s. j \<noteq> t \<longrightarrow> inodes s' j = inodes s j)"
proof (cases "rom_list r n = []")
  case True
  have "rom_dir_ok r n" using ok by (simp add: rom_dir_def)
  then have "i_size src = 0" using src rom_dir_okD(4) True by (simp add: rom_copy_def)
  then have "fs_mount_directory (rom_reader (rom_image (base, r))) src t s = Some s" by (simp add: fs_mount_directory_def)
  moreover have "i_dentry (inodes s t) = Some []" using mp by (simp add: mount_point_def)
  ultimately show ?thesis using True by (simp add: rom_look_def dir_find_def)
next
  case False
  let ?l = "rom_list r n" and ?c = "rom_final (base, r)"
  have k: "rom_ok r" "n < rs_inode_cnt r" "rom_dir_ok r n" using ok by (simp_all add: rom_dir_def)
  note D = rom_dir_okD [OF k(3)]
  have len: "length ?l \<le> 200"
  proof -
    have "?l \<noteq> []" by (rule False)
    have "set ?l \<subseteq> (\<lambda>(b, o1). 128 * b + o1) ` ({..<100} \<times> {0, 56})"
    proof
      fix a assume "a \<in> set ?l"
      then obtain e where "rom_dentries r a = Some e" using D(7) by blast
      from rom_okD(7) [OF k(1) this] rom_okD(3) [OF k(1)] have "a div 128 < 100" "a mod 128 = 0 \<or> a mod 128 = 56" by (auto simp: slot_ok_def)
      moreover have "a = 128 * (a div 128) + a mod 128" by (rule mult_div_mod_eq [symmetric])
      ultimately show "a \<in> (\<lambda>(b, o1). 128 * b + o1) ` ({..<100} \<times> {0, 56})" by (metis (no_types, lifting) SigmaI insertCI lessThan_iff pair_imageI)
    qed
    from card_mono [OF _ this] have "card (set ?l) \<le> card ((\<lambda>(b, o1). 128 * b + o1) ` ({..<100 :: nat} \<times> {0 :: nat, 56}))" by simp
    also have "\<dots> \<le> card ({..<100 :: nat} \<times> {0 :: nat, 56})" by (intro card_image_le) simp
    finally show ?thesis using D(3) by (simp add: distinct_card)
  qed
  have sz: "i_size src = word_of_nat (56 * length ?l)" "i_rdev src = rdev" using src D(4) by (simp_all add: rom_copy_def)
  have "unat (i_size src) = 56 * length ?l" unfolding sz(1) using len by (intro unat_word_of_nat32) simp
  then have nz: "i_size src \<noteq> 0" using False by auto
  have data: "i_data src = fst (hd (rom_ents (base, r) n))"
    using src D(4,6) False by (simp add: rom_copy_def rom_ents_def hd_map)
  have ne: "rom_ents (base, r) n \<noteq> []" using False by (simp add: rom_ents_def)
  have eq: "fs_mount_directory (rom_reader (rom_image (base, r))) src t s
      = map_option (upd_inode t (i_sync_update (\<lambda>_. True))) (mount_all t rdev (romdev.contents (base, r) n) (mount_reset t s))"
    using romdev.mount_directory [OF ok ne _ nz data, of s dev t] dev sz(2) by (simp add: mount_reset_def)
  obtain s1 bs1 as where m: "mount_all t rdev (romdev.contents (base, r) n) (mount_reset t s) = Some s1" "mount_point s1 t bs1 ([] @ as)"
    "list_all2 (\<lambda>y a. \<exists>d. dentries s1 a = Some d \<and> d_name d = snd y \<and> d_inode d \<notin> used s
          \<and> mounted_as ((fst y)\<lparr>i_rdev := rdev\<rparr>) (inodes s1 (d_inode d))) (romdev.contents (base, r) n) as"
    "\<forall>j \<in> used s. j \<noteq> t \<longrightarrow> inodes s1 j = inodes (mount_reset t s) j"
    using mount_all_room [OF mp, of "romdev.contents (base, r) n" rdev] room by (auto simp: rom_contents [OF ok])
  define s' where "s' = upd_inode t (i_sync_update (\<lambda>_. True)) s1"
  have t: "t \<in> used s" "i_dentry (inodes s1 t) = Some as" using m(2) mp by (simp_all add: mount_point_def)
  have s': "dentries s' = dentries s1" "\<And>j. j \<noteq> t \<Longrightarrow> inodes s' j = inodes s1 j" "i_dentry (inodes s' t) = Some as"
    using t(2) by (simp_all add: s'_def upd_inode_def)
  have "case rom_look r n x of None \<Rightarrow> dir_find s' t x = Some None
      | Some j \<Rightarrow> \<exists>i. dir_find s' t x = Some (Some i) \<and> i \<notin> used s \<and> rom_copy r j rdev (inodes s' i) \<and> \<not> i_sync (inodes s' i)" for x
  proof -
    let ?Q = "\<lambda>y i. i \<notin> used s \<and> mounted_as ((fst y)\<lparr>i_rdev := rdev\<rparr>) (inodes s1 i)"
    have f: "find (\<lambda>y. snd y = x) (romdev.contents (base, r) n) = map_option (\<lambda>m. (inode_of_bytes (inode_bytes r ?c m), x)) (rom_look r n x)"
      unfolding rom_contents [OF ok] rom_look_def by (rule find_contents)
    note F = find_dentry_mounted [where Q = ?Q, OF m(3), of x, unfolded f]
    show ?thesis
    proof (cases "rom_look r n x")
      case None
      then show ?thesis using F s'(1,3) by (simp add: dir_find_def)
    next
      case (Some j)
      with F obtain i where
        i: "find_dentry (dentries s1) x as = Some (Some i)" "i \<notin> used s" "mounted_as ((inode_of_bytes (inode_bytes r ?c j))\<lparr>i_rdev := rdev\<rparr>) (inodes s1 i)"
        by auto
      have "i \<noteq> t" using i(2) t(1) by auto
      then have "inodes s' i = inodes s1 i" by (rule s'(2))
      moreover have "rom_copy r j rdev ((inode_of_bytes (inode_bytes r ?c j))\<lparr>i_rdev := rdev\<rparr>)"
        by (rule rom_copy_loaded [OF k(1) rom_look_less [OF k(1,3) Some]])
      ultimately show ?thesis using Some i s'(1,3) by (simp add: dir_find_def mounted_as_def rom_copy_def)
    qed
  qed
  moreover have "fs_mount_directory (rom_reader (rom_image (base, r))) src t s = Some s'" unfolding eq m(1) by (simp add: s'_def)
  moreover have "\<forall>j \<in> used s. j \<noteq> t \<longrightarrow> inodes s' j = inodes s j" using m(4) s'(2) by simp
  ultimately show ?thesis by blast
qed


section \<open>Reading a file of the image\<close>

text \<open>The file \<open>i\<close> of the kernel stands for a regular file of the image, on a mount of the ROM device.\<close>

definition rom_on_dev :: "'a fsstate_scheme \<Rightarrow> nat \<Rightarrow> bool" where
  "rom_on_dev s rdev \<longleftrightarrow> (\<exists>dev f. mount_dev s rdev = Some dev \<and> files s dev = Some f \<and> f_op f = Rom_dev_ops)"

definition rom_file :: "u64 \<times> romfs \<Rightarrow> 'a fsstate_scheme \<Rightarrow> nat \<Rightarrow> u32 list \<Rightarrow> bool" where
  "rom_file x s i cs \<longleftrightarrow> rom_ok (snd x) \<and> rom_on_dev s (i_rdev (inodes s i))
     \<and> (\<exists>m bs. m < rs_inode_cnt (snd x) \<and> file_holds (snd x) m bs \<and> rom_copy (snd x) m (i_rdev (inodes s i)) (inodes s i)
          \<and> cs = map (\<lambda>j. word_of_nat (4840 + 128 * (start_blk (snd x) m + j))) [0..<file_blocks (length bs)])"

definition rom_blk_bytes :: "u64 \<times> romfs \<Rightarrow> u32 \<Rightarrow> u8 list" where
  "rom_blk_bytes x a = rom_block_bytes (fst x) (snd x) (rom_final x) ((unat a - 4840) div 128)"

lemma rom_blk_addr: "b < 100 \<Longrightarrow> unat (word_of_nat (4840 + 128 * b) :: u32) = 4840 + 128 * b"
  by (intro unat_word_of_nat32) simp

lemma file_blk_bytes:
  assumes ok: "rom_ok r" and f: "m < rs_inode_cnt r" "file_holds r m bs" "j < file_blocks (length bs)"
  shows "rom_blk_bytes (base, r) (word_of_nat (4840 + 128 * (start_blk r m + j)))
    = le64 (if Suc j < file_blocks (length bs) then word_of_nat (4840 + 128 * (start_blk r m + Suc j)) else 0)
      @ take 120 (take 120 (drop (120 * j) bs) @ replicate 120 0)"
proof -
  note H = file_holdsD [OF f(2)]
  have b: "start_blk r m + j < 100" using H(5) f(3) rom_okD(3) [OF ok] by simp
  have "c_next (rom_final (base, r)) (start_blk r m + j)
      = (if Suc j < file_blocks (length bs) then Some (word_of_nat (4840 + 128 * (start_blk r m + Suc j))) else None)"
    using rom_final_ok(1) [OF ok, of base] f unfolding conv_inv_def by blast
  then show ?thesis using H(6) [OF f(3)] unfolding rom_blk_bytes_def rom_blk_addr [OF b] by (simp add: rom_block_bytes_def rom_blk_def host_addr_def)
qed

interpretation romfile: block_storage "rom_reader (rom_image x)" "rom_file x" "\<lambda>_. rom_blk_bytes x" for x
proof
  obtain base r where x: "x = (base, r)" by (cases x)
  show "length (rom_blk_bytes x c) = 128" for c by (simp add: rom_blk_bytes_def)
  fix s :: "'a fsstate_scheme" and i cs assume h: "rom_file x s i cs"
  then obtain m bs where ok: "rom_ok r" "rom_on_dev s (i_rdev (inodes s i))" and m: "m < rs_inode_cnt r" "file_holds r m bs"
    "rom_copy r m (i_rdev (inodes s i)) (inodes s i)" and cs: "cs = map (\<lambda>j. word_of_nat (4840 + 128 * (start_blk r m + j))) [0..<file_blocks (length bs)]"
    by (auto simp: rom_file_def x)
  note H = file_holdsD [OF m(2)]
  have b: "start_blk r m + j < 100" if "j < file_blocks (length bs)" for j using H(5) that rom_okD(3) [OF ok(1)] by simp
  show "dev_read (rom_reader (rom_image x)) (i_rdev (inodes s i)) (off c k) n s = Some (Some (take n (drop k (rom_blk_bytes x c))))"
    if "c \<in> set cs" "k + n \<le> 128" for c k n
  proof -
    obtain j where j: "j < file_blocks (length bs)" "c = word_of_nat (4840 + 128 * (start_blk r m + j))" using \<open>c \<in> set cs\<close> by (auto simp: cs)
    have "off c k = word_of_nat (4840 + 128 * (start_blk r m + j) + k)" by (simp add: j(2) off_def)
    moreover have "rom_blk_bytes x c = rom_block_bytes base r (rom_final (base, r)) (start_blk r m + j)"
      unfolding j(2) rom_blk_bytes_def rom_blk_addr [OF b [OF j(1)]] by (simp add: x)
    ultimately show ?thesis using ok(2) rom_image_reads(2) [OF b [OF j(1)] that(2), of r "rom_final (base, r)" base]
      unfolding x rom_image_eq [OF ok(1)] by (auto simp: dev_read_def rom_on_dev_def)
  qed
  have nil: "bs = [] \<Longrightarrow> cs = []" using file_blocks_pos [of bs] by (simp add: cs)
  show "i_data (inodes s i) = hd cs" if "cs \<noteq> []"
  proof -
    have "bs \<noteq> []" using nil that by blast
    then show ?thesis using m(3) H(2,4) file_blocks_pos [of bs] by (simp add: rom_copy_def cs hd_map)
  qed
  show "bytes_word (take 8 (rom_blk_bytes x (cs ! k))) = cs ! Suc k" if "Suc k < length cs" for k
  proof -
    have k: "Suc k < file_blocks (length bs)" using that by (simp add: cs)
    have "4840 + 128 * (start_blk r m + Suc k) < 2 ^ 32" using b [OF k] by simp
    from ucast_low [OF this] have "bytes_word (le64 (word_of_nat (4840 + 128 * (start_blk r m + Suc k)))) = word_of_nat (4840 + 128 * (start_blk r m + Suc k))"
      using bytes_word_le(2) [of "word_of_nat (4840 + 128 * (start_blk r m + Suc k))" "[]"] by simp
    moreover have "rom_blk_bytes x (cs ! k) = le64 (word_of_nat (4840 + 128 * (start_blk r m + Suc k))) @ take 120 (take 120 (drop (120 * k) bs) @ replicate 120 0)"
      using file_blk_bytes [OF ok(1) m(1,2), of k base] k by (simp add: cs x)
    ultimately show ?thesis using k by (simp add: cs)
  qed
  show "length cs \<le> FS_BLK_CNT" using H(5) rom_okD(3) [OF ok(1)] by (simp add: cs config)
qed (simp_all add: rom_file_def rom_on_dev_def set_reg_pos_def)

lemma rom_chain_bytes:
  assumes ok: "rom_ok r" and f: "m < rs_inode_cnt r" "file_holds r m bs" and p: "p + n \<le> length bs"
  shows "chain_bytes (rom_blk_bytes (base, r)) (map (\<lambda>j. word_of_nat (4840 + 128 * (start_blk r m + j))) [0..<file_blocks (length bs)]) p n
    = take n (drop p bs)"
proof (rule nth_equalityI)
  fix k assume "k < length (chain_bytes (rom_blk_bytes (base, r)) (map (\<lambda>j. word_of_nat (4840 + 128 * (start_blk r m + j))) [0..<file_blocks (length bs)]) p n)"
  then have k: "k < n" by (simp add: chain_bytes_def)
  let ?j = "(p + k) div 120" and ?o = "(p + k) mod 120"
  have pk: "p + k < length bs" using k p by simp
  have "120 * ?j + ?o = p + k" by (rule mult_div_mod_eq)
  then have o: "120 * ?j + ?o < length bs" "?o < 120" "?o < length bs - 120 * ?j" using pk by (simp, simp, linarith)
  have j: "?j < file_blocks (length bs)"
  proof -
    have "?j \<le> (length bs - 1) div 120" using pk by (intro div_le_mono) simp
    moreover have "(length bs - 1) div 120 < file_blocks (length bs)" using pk by (auto simp: file_blocks_def config)
    ultimately show ?thesis by simp
  qed
  have "rom_blk_bytes (base, r) (word_of_nat (4840 + 128 * (start_blk r m + ?j))) ! (8 + ?o) = bs ! (120 * ?j + ?o)"
    unfolding file_blk_bytes [OF ok f j] using o by (simp add: nth_append)
  then show "chain_bytes (rom_blk_bytes (base, r)) (map (\<lambda>j. word_of_nat (4840 + 128 * (start_blk r m + j))) [0..<file_blocks (length bs)]) p n ! k
      = take n (drop p bs) ! k"
    using k j pk by (simp add: chain_bytes_def)
qed (use p in \<open>simp add: chain_bytes_def\<close>)

lemma file_blocks_cover: "n \<le> 120 * file_blocks n"
proof -
  have "n = 120 * (n div 120) + n mod 120" "n mod 120 < 120" by simp_all
  moreover have "file_blocks n = (if n mod 120 = 0 then n div 120 else n div 120 + 1)" by (simp add: file_blocks_def config)
  ultimately show ?thesis by (metis add_0_right add_le_cancel_left add_mult_distrib2 le_refl less_imp_le mult.right_neutral)
qed

lemma rom_read:
  assumes ok: "rom_ok r" and f: "m < rs_inode_cnt r" "file_holds r m bs" and fd: "files s fd = Some g" "f_inode g = Some i"
    and c: "rom_copy r m (i_rdev (inodes s i)) (inodes s i)" "rom_on_dev s (i_rdev (inodes s i))" and p: "reg_pos s fd = int p" "p + n \<le> length bs"
  shows "\<exists>s'. reg_file_read (rom_reader (rom_image (base, r))) fd n s = Some (s', take n (drop p bs)) \<and> reg_pos s' fd = int (p + n)"
proof -
  let ?s = "preempt_disable s" and ?cs = "map (\<lambda>j. word_of_nat (4840 + 128 * (start_blk r m + j))) [0..<file_blocks (length bs)]"
  have e: "files ?s = files s" "mount_dev ?s = mount_dev s"
    by (simp_all add: preempt_disable_def preempt_count_inc_def Let_def)
  have "rom_file (base, r) ?s i ?cs" unfolding rom_file_def using ok f c e by (auto simp: rom_on_dev_def)
  from romfile.read_loop_chain [OF this, of fd p n "[]"] p file_blocks_cover [of "length bs"] rom_chain_bytes [OF ok f p(2), of base]
  have "read_loop (rom_reader (rom_image (base, r))) fd i n [] ?s = Some (set_reg_pos fd (int (p + n)) ?s, take n (drop p bs))" by simp
  then show ?thesis using fd e by (simp add: reg_file_read_def critr_def reg_file_read_body_def set_reg_pos_def)
qed


section \<open>From the host to the kernel\<close>

text \<open>
  C38. Mounting a directory of an image ends and mounts what the builder has put there. When \<^verbatim>\<open>mkromfs\<close> has imported a host directory
  it writes an image, wherever its arrays lie in the memory of the host. For every directory of that image the loop of
  \<^verbatim>\<open>fs_mount_directory\<close>, which follows the links stored on the device, returns; afterwards a name is found in the target exactly
  when the image has it there, and leads to a new inode with the type, size, blocks and data address of the inode of the image. Other
  inodes in use are unchanged. The target is an empty directory, the tables of the root file system have room for the entries,
  and every entry counts twice in the number of inodes.
\<close>

theorem rom_directory_mounted:
  assumes host: "host_ok host" "mkromfs host = Done r" and n: "n < rs_inode_cnt r" "ri_mode (rom_inodes r n) = S_IFDIR"
    and src: "rom_copy r n rdev src" and dev: "mount_dev s rdev = Some dev"
    and target: "mount_point (mount_reset t s) t bs []" "mount_room (length (rom_list r n)) (mount_reset t s)"
  shows "\<exists>img s'. romfs_export base r = Done img \<and> fs_mount_directory (rom_reader img) src t s = Some s'
    \<and> (\<forall>x. case rom_look r n x of None \<Rightarrow> dir_find s' t x = Some None
          | Some m \<Rightarrow> \<exists>i. dir_find s' t x = Some (Some i) \<and> i \<notin> used s \<and> rom_copy r m rdev (inodes s' i) \<and> \<not> i_sync (inodes s' i))
    \<and> (\<forall>j \<in> used s. j \<noteq> t \<longrightarrow> inodes s' j = inodes s j)"
proof -
  have ok: "rom_ok r" by (rule mkromfs_ok(1) [OF host])
  have "rom_dir_ok r n" using rom_okD(6) [OF ok n(1)] n(2) by (auto dest: file_holdsD(1))
  then have d: "rom_dir (base, r) n" using ok n(1) by (simp add: rom_dir_def)
  have "romfs_export base r = Done (rom_image (base, r))" using rom_final_ok(2) [OF ok] rom_image_eq [OF ok] by simp
  with rom_mount [OF d src dev target] show ?thesis by blast
qed

text \<open>
  C39. A file of the host can be read in the kernel. When \<^verbatim>\<open>mkromfs\<close> has imported a host directory, every regular file below it, the
  names that are ignored left out, has an inode in the image that its names lead to from the directory \<^verbatim>\<open>rom_data\<close>. A file of the
  kernel that stands for this inode, on a mount of the ROM device with the image, gives on reading the bytes that the file had on the
  host, from its position on, and the position moves behind them.
\<close>

theorem rom_file_roundtrip:
  assumes host: "host_ok host" "mkromfs host = Done r" "(xs, content) \<in> set (host_files host)"
  shows "\<exists>img m. romfs_export base r = Done img \<and> length img = 17640 \<and> rom_walk r (''rom_data'' # xs) 0 = Some m
    \<and> (\<forall>(s :: 'a fsstate_scheme) fd g i p n. files s fd = Some g \<and> f_inode g = Some i \<and> rom_copy r m (i_rdev (inodes s i)) (inodes s i)
          \<and> rom_on_dev s (i_rdev (inodes s i)) \<and> reg_pos s fd = int p \<and> p + n \<le> length content
        \<longrightarrow> (\<exists>s'. reg_file_read (rom_reader img) fd n s = Some (s', take n (drop p content)) \<and> reg_pos s' fd = int (p + n)))"
proof -
  have ok: "rom_ok r" by (rule mkromfs_ok(1) [OF host(1,2)])
  obtain m where m: "m < rs_inode_cnt r" "rom_walk r (''rom_data'' # xs) 0 = Some m" "file_holds r m content" using mkromfs_ok(2) [OF host] by blast
  have "romfs_export base r = Done (rom_image (base, r))" "length (rom_image (base, r)) = 17640"
    using rom_final_ok(2) [OF ok] rom_image_eq [OF ok] rom_image_reads(3) by simp_all
  then show ?thesis using m(2) rom_read [OF ok m(1,3)] by blast
qed

definition demo_host :: "host_entry list" where
  "demo_host = [Reg_entry ''.gitkeep'' [], Dir_entry ''d'' [Reg_entry ''f'' [1, 2, 3]], Other_entry ''p'']"

lemma demo_host_ok: "host_ok demo_host"
  by (simp add: demo_host_def plain_name_def)

definition demo_src :: inode where
  "demo_src = \<lparr>i_mode = S_IFDIR, i_rdev = 1, i_sync = False, i_ino = 0, i_parent = 0, i_fd = 0, i_size = 56, i_blocks = 1, i_data = 4968, i_dentry = None\<rparr>"

definition demo_rom :: fsstate where
  "demo_rom = demo_fs\<lparr>mount_dev := [1 \<mapsto> 67], files := [67 \<mapsto> \<lparr>f_inode = None, f_op = Rom_dev_ops, f_events = 0, f_flags = 0\<rparr>,
     68 \<mapsto> \<lparr>f_inode = Some 5, f_op = Reg_file_ops, f_events = 0, f_flags = 0\<rparr>], reg_pos := (\<lambda>_. 1),
     inodes := demo_inode(5 := \<lparr>i_mode = S_IFREG, i_rdev = 1, i_sync = True, i_ino = 5, i_parent = 0, i_fd = 68, i_size = 3, i_blocks = 1, i_data = 5224,
       i_dentry = Some []\<rparr>)\<rparr>"

lemma demo_rom_sel:
  "bitmap_inodes demo_rom = [1, 0, 0, 0]" "bitmap_blks demo_rom = [0, 0, 0, 0]" "s_inode_cnt demo_rom = 1" "inodes demo_rom 0 = demo_inode 0"
  "mount_dev demo_rom = [1 \<mapsto> 67]" "reg_pos demo_rom 68 = 1"
  by (simp_all add: demo_rom_def demo_fs_def fdstate.defs fsstate.defs)

lemma demo_image:
  obtains r where "mkromfs demo_host = Done r" "1 < rs_inode_cnt r" "ri_mode (rom_inodes r 1) = S_IFDIR" "ri_size (rom_inodes r 1) = 56"
    "ri_blocks (rom_inodes r 1) = 1" "ri_data (rom_inodes r 1) = Blk 128" "rom_look r 1 ''d'' = Some 2" "length (rom_list r 1) = 1"
    "rom_walk r [''rom_data'', ''d'', ''f''] 0 = Some 3" "ri_mode (rom_inodes r 3) = S_IFREG" "ri_size (rom_inodes r 3) = 3"
    "ri_blocks (rom_inodes r 3) = 1" "ri_data (rom_inodes r 3) = Blk 384"
proof -
  have "(case mkromfs demo_host of Done r \<Rightarrow> 1 < rs_inode_cnt r \<and> ri_mode (rom_inodes r 1) = S_IFDIR \<and> ri_size (rom_inodes r 1) = 56
    \<and> ri_blocks (rom_inodes r 1) = 1 \<and> ri_data (rom_inodes r 1) = Blk 128 \<and> rom_look r 1 ''d'' = Some 2 \<and> length (rom_list r 1) = 1
    \<and> rom_walk r [''rom_data'', ''d'', ''f''] 0 = Some 3 \<and> ri_mode (rom_inodes r 3) = S_IFREG \<and> ri_size (rom_inodes r 3) = 3
    \<and> ri_blocks (rom_inodes r 3) = 1 \<and> ri_data (rom_inodes r 3) = Blk 384 | _ \<Rightarrow> False)" by code_simp
  then show ?thesis using that by (auto split: outcome.splits)
qed

theorem rom_directory_mounted_witness:
  "\<exists>r img s' i. mkromfs demo_host = Done r \<and> romfs_export 0x7F0000001000 r = Done img
     \<and> fs_mount_directory (rom_reader img) demo_src 0 demo_rom = Some s' \<and> dir_find s' 0 ''d'' = Some (Some i)"
proof -
  obtain r where r: "mkromfs demo_host = Done r" "1 < rs_inode_cnt r" "ri_mode (rom_inodes r 1) = S_IFDIR" "ri_size (rom_inodes r 1) = 56"
    "ri_blocks (rom_inodes r 1) = 1" "ri_data (rom_inodes r 1) = Blk 128" "rom_look r 1 ''d'' = Some 2" "length (rom_list r 1) = 1"
    using demo_image by metis
  have e: "bm_set [0, 0, 0, 0] = {}" "bm_set [1, 0, 0, 0] = {0}" by (auto simp: bm_set_def bm_bit_def nth_Cons' bit_1_iff)
  have z: "mount_reset 0 demo_rom = demo_rom" by (simp add: mount_reset_def demo_rom_sel demo_inode_def)
  have mp: "mount_point (mount_reset 0 demo_rom) 0 [] []" unfolding z mount_point_def dir_ok_def blocks_ok_def used_def demo_rom_sel e
    by (simp add: demo_inode_def)
  have room: "mount_room (length (rom_list r 1)) (mount_reset 0 demo_rom)" unfolding z mount_room_def used_def demo_rom_sel e r(8) by (simp add: config)
  have src: "rom_copy r 1 1 demo_src" using r by (simp add: rom_copy_def demo_src_def)
  have dev: "mount_dev demo_rom 1 = Some 67" by (simp add: demo_rom_sel)
  from rom_directory_mounted [OF demo_host_ok r(1,2,3) src dev mp room, of "0x7F0000001000"] obtain img s' where
    s: "romfs_export 0x7F0000001000 r = Done img" "fs_mount_directory (rom_reader img) demo_src 0 demo_rom = Some s'"
    "\<forall>x. case rom_look r 1 x of None \<Rightarrow> dir_find s' 0 x = Some None
          | Some m \<Rightarrow> \<exists>i. dir_find s' 0 x = Some (Some i) \<and> i \<notin> used demo_rom \<and> rom_copy r m 1 (inodes s' i) \<and> \<not> i_sync (inodes s' i)" by blast
  from s(3) [rule_format, of "''d''"] r(7) obtain i where "dir_find s' 0 ''d'' = Some (Some i)" by auto
  with r(1) s(1,2) show ?thesis by blast
qed

theorem rom_file_roundtrip_witness:
  "\<exists>r img s'. mkromfs demo_host = Done r \<and> romfs_export 0x7F0000001000 r = Done img \<and> reg_file_read (rom_reader img) 68 2 demo_rom = Some (s', [2, 3])"
proof -
  obtain r where r: "mkromfs demo_host = Done r" "rom_walk r [''rom_data'', ''d'', ''f''] 0 = Some 3" "ri_mode (rom_inodes r 3) = S_IFREG"
    "ri_size (rom_inodes r 3) = 3" "ri_blocks (rom_inodes r 3) = 1" "ri_data (rom_inodes r 3) = Blk 384"
    using demo_image by metis
  have mem: "([''d'', ''f''], [1, 2, 3]) \<in> set (host_files demo_host)" by (simp add: demo_host_def ignored_name_def)
  have i: "inodes demo_rom 5 = \<lparr>i_mode = S_IFREG, i_rdev = 1, i_sync = True, i_ino = 5, i_parent = 0, i_fd = 68, i_size = 3, i_blocks = 1, i_data = 5224,
       i_dentry = Some []\<rparr>" "files demo_rom 68 = Some \<lparr>f_inode = Some 5, f_op = Reg_file_ops, f_events = 0, f_flags = 0\<rparr>"
    "files demo_rom 67 = Some \<lparr>f_inode = None, f_op = Rom_dev_ops, f_events = 0, f_flags = 0\<rparr>"
    by (simp_all add: demo_rom_def)
  have c: "rom_copy r 3 (i_rdev (inodes demo_rom 5)) (inodes demo_rom 5)" "rom_on_dev demo_rom (i_rdev (inodes demo_rom 5))"
    using r i by (simp_all add: rom_copy_def rom_on_dev_def demo_rom_sel)
  from rom_file_roundtrip [OF demo_host_ok r(1) mem, of "0x7F0000001000"] r(2) obtain img where
    img: "romfs_export 0x7F0000001000 r = Done img"
    "\<And>fd g i p n. files demo_rom fd = Some g \<and> f_inode g = Some i \<and> rom_copy r 3 (i_rdev (inodes demo_rom i)) (inodes demo_rom i)
          \<and> rom_on_dev demo_rom (i_rdev (inodes demo_rom i)) \<and> reg_pos demo_rom fd = int p \<and> p + n \<le> length [1 :: u8, 2, 3]
        \<Longrightarrow> \<exists>s'. reg_file_read (rom_reader img) fd n demo_rom = Some (s', take n (drop p [1, 2, 3])) \<and> reg_pos s' fd = int (p + n)" by fastforce
  from img(2) [of 68 _ 5 1 2] i(2) c have "\<exists>s'. reg_file_read (rom_reader img) 68 2 demo_rom = Some (s', [2, 3])" by (auto simp: demo_rom_sel)
  with r(1) img(1) show ?thesis by blast
qed

end
