(* ===== verification/Spec2Isabelle.thy ===== *)
theory Spec2Isabelle
  imports Bitops Klist Kfifo Page Ktime Kstate Sched Mutex Semaphore Pipe Slab Heap Mqueue Thread Signal Timer Fdesc Fstree Regfile Fileio Printf Printk Softirq Stdio Boot Shell Mkromfs Romfs
begin

text \<open>
  A verification library for the Tenok real-time operating system.

  \<^bold>\<open>The program.\<close> Tenok is a kernel for microcontrollers with ARMv7-M cores. A thread enters the kernel by a trap; the loop of
  \<^verbatim>\<open>sched_start\<close> in \<^verbatim>\<open>kernel/kernel.c\<close> serves the system call, selects the next thread when rescheduling was requested, and jumps to it.
  A system call runs as a function on the stack of its thread, with preemption disabled in critical sections. It blocks by linking its
  thread into a wait list and jumping back to the loop. The file system is a daemon that receives its requests over a pipe; kernel
  messages and tasklets have daemons of their own. The shell is a user task on top of these calls.

  \<^bold>\<open>Conventions.\<close>
  \<^item> Machine words are \<^verbatim>\<open>32 word\<close> and \<^verbatim>\<open>8 word\<close> where they may wrap, and \<^typ>\<open>nat\<close> or \<^typ>\<open>int\<close> where the code keeps them in range.
  \<^item> \<^const>\<open>None\<close> as the result of an operation is undefined behaviour: an index or pointer outside its object, a null pointer that is followed, a
    list node that is linked twice or removed twice, the overflow of a signed number. That an operation returns is therefore always stated as
    an equation with \<^const>\<open>Some\<close>. Error numbers are ordinary negative results, a panic is \<^const>\<open>Inl\<close>. The one exception is the read of \<^verbatim>\<open>buf[-1]\<close>
    in the line editor of the shell, which every line starts with: there the byte before the buffer is an argument, and \<^const>\<open>None\<close> only when there is none.
  \<^item> The state is one record that the components extend: \<open>kstate\<close> (threads, lists, pages), \<open>pstate\<close> (files and pipes), \<open>sstate\<close> (slabs), \<open>mqstate\<close>,
    \<open>tmstate\<close>, \<open>fdstate\<close>, \<open>fsstate\<close>, \<open>pkstate\<close>, \<open>sqstate\<close>. An operation is a function on every extension of the record it needs, so that
    what it cannot touch is unchanged by its type.
  \<^item> Intrusive lists are sequences of nodes. \<^verbatim>\<open>Klist\<close> proves that the pointer operations of \<^verbatim>\<open>list.h\<close> implement the operations on
    sequences, and what happens to a node that is used against the discipline; the later theories use the sequences.
  \<^item> A call that blocks is split at its calls of the scheduler: a first round up to the wait, and the rounds after it (\<open>\<dots>_enter\<close>, \<open>\<dots>_resume\<close>,
    \<open>\<dots>_round\<close>). Interleavings are inductive predicates over these rounds, and the properties of runs hold by rule induction.
  \<^item> Addresses that the linker chooses, the addresses of the handlers, the functions of threads, tasklets and commands, what a device returns, and the
    operations of device drivers are arguments.
  \<^item> Loops are recursive functions with a termination proof. The two loops that follow links the code does not control, over the entries of a mounted
    directory and over the parents of a directory, are partial functions in the option monad, and \<^const>\<open>None\<close> is also not returning; \<^verbatim>\<open>Romfs\<close> proves
    that the first returns on the images of the builder.

  \<^bold>\<open>The theories\<close>, with the sources they model and what they show.
  \<^item> \<^verbatim>\<open>Prelude\<close>: error numbers, \<^verbatim>\<open>common/util.h\<close>, bounded copies of bytes. \<^verbatim>\<open>Bitops\<close> (\<^verbatim>\<open>common/bitops.h\<close>, \<^verbatim>\<open>common/log2.h\<close>): bitmaps as sets; the
    locale \<open>slot_allocator\<close> states what a search and a mark promise, and the numbers of threads, tasks, files and inodes rest on its interpretation.
  \<^item> \<^verbatim>\<open>Klist\<close> (\<^verbatim>\<open>common/list.h\<close>): pointer lists refine sequences. \<^verbatim>\<open>Kfifo\<close> (\<^verbatim>\<open>kernel/kfifo.c\<close>): records leave in order, the newest are kept on overflow.
    \<^verbatim>\<open>Ktime\<close> (\<^verbatim>\<open>kernel/time.c\<close>, \<^verbatim>\<open>kernel/sched.c\<close>): arithmetic of times and interval timers.
  \<^item> \<^verbatim>\<open>Page\<close> (\<^verbatim>\<open>kernel/mm/page.c\<close>): the buddy allocator, at the level of its bitmaps and addresses: blocks in use never overlap, an allocation fails exactly when
    there is no free block, a release restores the bitmaps. Releases are correct exactly when the page area starts at a multiple of the largest page, 8 KB. The linker
    scripts align it to four bytes only, so that the properties of other components that release pages (threads, the start of the kernel) name this as a condition. \<^verbatim>\<open>Slab\<close> (\<^verbatim>\<open>kernel/mm/slab.c\<close>, \<^verbatim>\<open>kmalloc\<close> and \<^verbatim>\<open>kfree\<close>): objects of the caches.
    \<^verbatim>\<open>Heap\<close> (\<^verbatim>\<open>kernel/mm/mm.c\<close>, \<^verbatim>\<open>mpool.c\<close>): the heap of user programs, whose blocks have the requested size rounded down to a multiple of four, and memory pools.
  \<^item> \<^verbatim>\<open>Kstate\<close>, \<^verbatim>\<open>Sched\<close> (\<^verbatim>\<open>kernel/kernel.c\<close>, \<^verbatim>\<open>kernel/arch/v7m_port.c\<close>): thread control blocks, stack frames, waiting, waking, ticks, selection of the next
    thread by strict priority and first come; the invariant of the scheduling lists over every run.
  \<^item> \<^verbatim>\<open>Mutex\<close> (\<^verbatim>\<open>kernel/mutex.c\<close>, \<^verbatim>\<open>kernel/pthread.c\<close>): mutual exclusion and priority inheritance; condition variables. \<^verbatim>\<open>Semaphore\<close> (\<^verbatim>\<open>kernel/semaphore.c\<close>): counting and
    no lost wake-up. \<^verbatim>\<open>Pipe\<close> (\<^verbatim>\<open>kernel/pipe.c\<close>): a stream of bytes. \<^verbatim>\<open>Mqueue\<close> (\<^verbatim>\<open>kernel/mqueue.c\<close>): queues by priority, first in first out within one.
  \<^item> \<^verbatim>\<open>Thread\<close> (\<^verbatim>\<open>kernel/kernel.c\<close>, \<^verbatim>\<open>kernel/pthread.c\<close>): creation, exit, join, cancel, attributes, the entry of system calls. \<^verbatim>\<open>Signal\<close> (\<^verbatim>\<open>kernel/signal.c\<close>): signal
    sets, delivery and handlers, up to the four records that the queue of a thread takes in its life. \<^verbatim>\<open>Timer\<close>: clocks, timers and time-outs at a tick.
  \<^item> \<^verbatim>\<open>Fdesc\<close>: descriptors, the calls on files, poll, the requests to the daemon. \<^verbatim>\<open>Fs\<close>, \<^verbatim>\<open>Fstree\<close> (\<^verbatim>\<open>kernel/fs/fs.c\<close>): inodes, directories, paths, mounting, the daemon; the tree
    is kept by creation, and paths agree with a definition over their components. A directory that is missing on the way of a new file is not created: clearing the events of its file
    object, which it has not, is undefined. \<^verbatim>\<open>Regfile\<close>, \<^verbatim>\<open>Fileio\<close> (\<^verbatim>\<open>kernel/fs/reg_file.c\<close>, \<^verbatim>\<open>rom_dev.c\<close>, \<^verbatim>\<open>null_dev.c\<close>): regular files
    over the blocks of the root file system, and the calls that reach them.
  \<^item> \<^verbatim>\<open>Printf\<close> (\<^verbatim>\<open>kernel/printf.c\<close>), \<^verbatim>\<open>Printk\<close> (\<^verbatim>\<open>kernel/printk.c\<close>), \<^verbatim>\<open>Softirq\<close> (\<^verbatim>\<open>kernel/softirq.c\<close>), \<^verbatim>\<open>Stdio\<close> (\<^verbatim>\<open>kernel/fs/wrapper.c\<close>): the conversions of numbers; the formatter of the build with \<^verbatim>\<open>USE_TENOK_PRINTF\<close>
    against a reference rendering and against the one of the C library, which \<^verbatim>\<open>kconfig.h\<close> selects and which all callers use (\<open>lib_vsnprintf\<close>); the queue
    of kernel messages, tasklets, streams over the whole stack of calls.
  \<^item> \<^verbatim>\<open>Mkromfs\<close>, \<^verbatim>\<open>Romfs\<close> (\<^verbatim>\<open>tools/mkromfs/mkromfs.c\<close> against \<^verbatim>\<open>fs_mount_directory\<close>, \<^verbatim>\<open>reg_file.c\<close> and \<^verbatim>\<open>rom_dev.c\<close>): the builder of the ROM image keeps its tables well-formed; the
    image, at the level of its bytes, is mounted by the kernel with exactly its entries, the loop over the links on the device returns, and files are read back as they were on the host.
  \<^item> \<^verbatim>\<open>Boot\<close> (\<^verbatim>\<open>sched_start\<close>): the start of the kernel establishes the invariants of the components together, and one round of the kernel loop.
  \<^item> \<^verbatim>\<open>Shell\<close> (\<^verbatim>\<open>user/shell/shell.c\<close>): the line editor refines a text with a cursor, the history, and the execution of a line.

  \<^bold>\<open>Interfaces.\<close> What a component promises its clients is a locale, interpreted on the definitions of the code in the theory that provides them:
  \<open>slot_allocator\<close> (an allocator of numbered slots, the bitmaps of \<^verbatim>\<open>Bitops\<close>, as \<open>bm\<close>), \<open>bounded_queue\<close> (a queue of limited size, the ring buffer of
  \<^verbatim>\<open>Kfifo\<close>, as \<open>kf\<close>) and \<open>priority_fifo\<close> (a queue of messages with priorities, the message queues of \<^verbatim>\<open>Mqueue\<close>, as \<open>mq\<close>), \<open>block_storage\<close> (the chain of
  blocks that reading a file relies on: the root file system in \<^verbatim>\<open>Regfile\<close>, as \<open>rootfs\<close>, and the ROM image in \<^verbatim>\<open>Romfs\<close>, as \<open>romfile\<close>) and \<open>device_directory\<close> (the linked entries that
  mounting relies on: the ROM image, as \<open>romdev\<close>).

  \<^bold>\<open>Bounds.\<close> The numbers of the configuration (\<^verbatim>\<open>kconfig.h\<close>) are definitions collected under \<open>config\<close>; the page allocator is the configuration with 64 KB. The
  only fuel is the number of rounds of loops that the code itself bounds by a counter, such as \<^verbatim>\<open>rounds\<close> of \<^verbatim>\<open>Stdio\<close> and the digits of \<^verbatim>\<open>XTOA\<close>.

  \<^bold>\<open>Not modelled.\<close> Assembly (traps, context switch, start-up), the set-up of the hardware and the device drivers, whose registers have no model here; the
  system call stubs that only issue a trap; vendored code under \<^verbatim>\<open>lib\<close>; benchmarks and example tasks; flight control and navigation, which compute
  with floating point numbers; the host tools that generate code or plot data.
\<close>

end
